(* ===== verification/Prelude.thy ===== *)
theory Prelude
  imports "HOL-Library.Word"
begin

text \<open>
  What every component theory shares: the machine-integer types, the theorem
  collections that carry the component proofs, list surgery by index (the
  \<^verbatim>\<open>memmove\<close> of the C tables), the binary search both block tables run, and
  the bit-mask arithmetic of rounding and aligning on words.
\<close>

unbundle bit_operations_syntax

section \<open>Machine integers\<close>

type_synonym u8 = "8 word"
type_synonym u16 = "16 word"
type_synonym u32 = "32 word"
type_synonym u64 = "64 word"

abbreviation (input) UINT32_MAX :: u32 where
  "UINT32_MAX \<equiv> 0xFFFFFFFF"

named_theorems word_nat \<open>word operations read back as natural numbers\<close>
named_theorems table_simps \<open>list surgery by index\<close>

lemma unat_lt32 [simp]: "unat (w :: u32) < 4294967296"
  using unsigned_less [of w] by simp

lemma unat_le32 [simp]: "unat (w :: u32) \<le> 4294967295"
  using unat_lt32 [of w] by linarith

lemma unat_plus_no_wrap [word_nat]:
  fixes a b :: u32
  shows "unat a + unat b < 4294967296 \<Longrightarrow> unat (a + b) = unat a + unat b"
  by (simp add: unat_word_ariths)

lemma unat_minus_no_wrap [word_nat]:
  fixes a b :: "'a::len word"
  shows "unat b \<le> unat a \<Longrightarrow> unat (a - b) = unat a - unat b"
  by (simp add: unat_sub word_le_nat_alt)

lemma unat_max_minus:
  fixes w :: u32
  shows "unat (UINT32_MAX - w) = 4294967295 - unat w"
  by (simp add: unat_minus_no_wrap)

lemma word_eq_unatI:
  fixes a b :: "'a::len word"
  shows "unat a = unat b \<Longrightarrow> a = b"
  by (simp add: word_unat_eq_iff)

section \<open>Rounding with bit masks\<close>

lemma word_and_split:
  fixes x m :: "'a::len word"
  shows "x = (x AND m) + (x AND NOT m)"
proof -
  have "(x AND m) + (x AND NOT m) = (x AND m) OR (x AND NOT m)"
    by (rule disjunctive_add) (auto simp: bit_simps)
  also have "\<dots> = x"
    by (auto simp: bit_eq_iff bit_simps)
  finally show ?thesis by simp
qed

lemma word_and_not_le:
  fixes x m :: "'a::len word"
  shows "unat (x AND NOT m) = unat x - unat (x AND m)" "unat (x AND m) \<le> unat x"
proof -
  show le: "unat (x AND m) \<le> unat x"
    by (metis and.commute word_and_le1 word_le_nat_alt)
  have "x AND NOT m = x - (x AND m)"
    using word_and_split [of x m] by (simp add: algebra_simps)
  with le show "unat (x AND NOT m) = unat x - unat (x AND m)"
    by (simp add: unat_minus_no_wrap)
qed

lemma unat_and_le:
  fixes x m :: "'a::len word"
  shows "unat (x AND m) \<le> unat m"
  by (simp add: word_and_le1 word_le_nat_alt [symmetric])

lemma unat_and_mask:
  fixes x :: "'a::len word"
  shows "unat (x AND mask n) = unat x mod 2 ^ n"
proof -
  have "unat (x AND mask n) = unat (take_bit n x)"
    by (simp add: take_bit_eq_mask)
  also have "\<dots> = take_bit n (unat x)"
    by (simp add: unsigned_take_bit_eq)
  finally show ?thesis
    by (simp add: take_bit_eq_mod)
qed

lemma unat_and_not_mask:
  fixes x :: "'a::len word"
  shows "unat (x AND NOT (mask n)) = unat x - unat x mod 2 ^ n"
  by (simp add: word_and_not_le unat_and_mask)

text \<open>A non-zero word with \<open>a AND (a - 1) = 0\<close> is a power of two.\<close>

lemma nat_and_pred_pow2: "0 < n \<Longrightarrow> n AND (n - 1) = (0::nat) \<Longrightarrow> \<exists>k. n = 2 ^ k"
proof (induction n rule: less_induct)
  case (less n)
  have rec: "n AND (n - 1) = (n mod 2) * ((n - 1) mod 2) + 2 * ((n div 2) AND ((n - 1) div 2))"
    by (rule and_rec [unfolded odd_iff_mod_2_eq_one of_bool_def, THEN trans])
       (auto simp: mod2_eq_if)
  show ?case
  proof (cases "even n")
    case True
    then obtain m where n: "n = 2 * m" by blast
    with less.prems have m: "0 < m" by simp
    have "(n - 1) div 2 = m - 1" using n m by presburger
    with rec n less.prems have "m AND (m - 1) = 0" by simp
    with less.IH [of m] m n obtain k where "m = 2 ^ k" by auto
    with n show ?thesis by (auto intro: exI [of _ "Suc k"])
  next
    case False
    then obtain m where n: "n = 2 * m + 1" by (blast elim: oddE)
    with rec less.prems have "m = 0" by simp
    with n show ?thesis by (auto intro: exI [of _ 0])
  qed
qed

lemma word_pow2_test:
  fixes a :: u32
  assumes "a \<noteq> 0" "a AND (a - 1) = 0"
  obtains k where "k < 32" "unat a = 2 ^ k" "a - 1 = mask k"
proof -
  have pos: "0 < unat a" using assms(1) by (simp add: unat_gt_0)
  have pred: "unat (a - 1) = unat a - 1" using assms(1) by (simp add: unat_minus_one)
  have "unat a AND unat (a - 1) = 0"
    using assms(2) by (metis unsigned_0 unsigned_and_eq)
  with pos pred nat_and_pred_pow2 [of "unat a"] obtain k where k: "unat a = 2 ^ k" by auto
  have "(2::nat) ^ k < 2 ^ 32" using unat_lt32 [of a] k by simp
  then have "k < 32" by (simp only: power_strict_increasing_iff)
  moreover have "a - 1 = mask k"
  proof -
    have "a = of_nat (2 ^ k)" using k by (metis of_nat_unat ucast_id)
    then show ?thesis by (simp add: mask_eq_exp_minus_1)
  qed
  ultimately show thesis using k that by blast
qed

section \<open>List surgery by index\<close>

definition insert_at :: "nat \<Rightarrow> 'a \<Rightarrow> 'a list \<Rightarrow> 'a list" where
  "insert_at i x xs = take i xs @ x # drop i xs"

definition remove_at :: "nat \<Rightarrow> 'a list \<Rightarrow> 'a list" where
  "remove_at i xs = take i xs @ drop (Suc i) xs"

lemma set_insert_at [table_simps]: "set (insert_at i x xs) = insert x (set xs)"
  by (simp add: insert_at_def) (metis append_take_drop_id set_append)

lemma length_insert_at [table_simps]: "length (insert_at i x xs) = Suc (length xs)"
  by (simp add: insert_at_def)

lemma length_remove_at [table_simps]:
  "i < length xs \<Longrightarrow> length (remove_at i xs) = length xs - 1"
  by (simp add: remove_at_def)

lemma insert_at_remove_at [table_simps]:
  "i < length xs \<Longrightarrow> insert_at i (xs ! i) (remove_at i xs) = xs"
  by (simp add: insert_at_def remove_at_def min_def id_take_nth_drop [symmetric])

lemma remove_at_insert_at [table_simps]:
  "i \<le> length xs \<Longrightarrow> remove_at i (insert_at i x xs) = xs"
  by (simp add: insert_at_def remove_at_def)

lemma nth_insert_at [table_simps]:
  "i \<le> length xs \<Longrightarrow> insert_at i x xs ! i = x"
  by (simp add: insert_at_def nth_append)

lemma sum_list_insert_at [table_simps]:
  fixes f :: "'a \<Rightarrow> nat"
  shows "sum_list (map f (insert_at i x xs)) = f x + sum_list (map f xs)"
proof -
  have "sum_list (map f xs) = sum_list (map f (take i xs)) + sum_list (map f (drop i xs))"
    by (metis append_take_drop_id map_append sum_list.append)
  then show ?thesis by (simp add: insert_at_def)
qed

lemma sum_list_remove_at [table_simps]:
  fixes f :: "'a \<Rightarrow> nat"
  assumes "i < length xs"
  shows "sum_list (map f (remove_at i xs)) = sum_list (map f xs) - f (xs ! i)"
  using sum_list_insert_at [of f i "xs ! i" "remove_at i xs"] assms
  by (simp add: insert_at_remove_at)

lemma map_insert_at: "map f (insert_at i x xs) = insert_at i (f x) (map f xs)"
  by (simp add: insert_at_def take_map drop_map)

lemma map_remove_at: "map f (remove_at i xs) = remove_at i (map f xs)"
  by (simp add: remove_at_def take_map drop_map)

section \<open>Binary search\<close>

text \<open>
  The loop both allocators run over their address-sorted tables:
  \<open>below i\<close> is the test \<^verbatim>\<open>blocks[i].addr < addr\<close>.
\<close>

function bsearch :: "(nat \<Rightarrow> bool) \<Rightarrow> nat \<Rightarrow> nat \<Rightarrow> nat" where
  "bsearch below lo hi =
     (if lo < hi
      then let mid = (lo + hi) div 2
           in if below mid then bsearch below (mid + 1) hi else bsearch below lo mid
      else lo)"
  by pat_completeness auto
termination
  by (relation "measure (\<lambda>(_, lo, hi). hi - lo)") auto

declare bsearch.simps [simp del]

text \<open>On a monotone test the search returns the partition point.\<close>

lemma bsearch_partition:
  assumes "\<And>i j. i \<le> j \<Longrightarrow> j < hi \<Longrightarrow> below j \<Longrightarrow> below i" and "lo \<le> hi"
  shows "lo \<le> bsearch below lo hi \<and> bsearch below lo hi \<le> hi \<and>
    (\<forall>i. lo \<le> i \<longrightarrow> i < bsearch below lo hi \<longrightarrow> below i) \<and>
    (\<forall>i. bsearch below lo hi \<le> i \<longrightarrow> i < hi \<longrightarrow> \<not> below i)"
  using assms
proof (induction below lo hi rule: bsearch.induct)
  case (1 below lo hi)
  show ?case
  proof (cases "lo < hi")
    case False
    then have "bsearch below lo hi = lo" by (subst bsearch.simps) simp
    with False 1(4) show ?thesis by simp
  next
    case True
    define mid where "mid = (lo + hi) div 2"
    have mid: "lo \<le> mid" "mid < hi" using True by (auto simp: mid_def)
    show ?thesis
    proof (cases "below mid")
      case True
      have eq: "bsearch below lo hi = bsearch below (mid + 1) hi"
        using \<open>lo < hi\<close> True by (subst bsearch.simps) (simp add: mid_def Let_def)
      from "1.IH"(1) [OF \<open>lo < hi\<close> mid_def True] 1(3) mid
      have ih: "mid + 1 \<le> bsearch below (mid + 1) hi" "bsearch below (mid + 1) hi \<le> hi"
        "\<And>i. mid + 1 \<le> i \<Longrightarrow> i < bsearch below (mid + 1) hi \<Longrightarrow> below i"
        "\<And>i. bsearch below (mid + 1) hi \<le> i \<Longrightarrow> i < hi \<Longrightarrow> \<not> below i" by auto
      have "below i" if "i \<le> mid" for i using 1(3) [OF that mid(2) True] .
      with ih show ?thesis unfolding eq using mid by (metis Suc_eq_plus1 le_trans not_less_eq_eq le_add1)
    next
      case False
      have eq: "bsearch below lo hi = bsearch below lo mid"
        using \<open>lo < hi\<close> False by (subst bsearch.simps) (simp add: mid_def Let_def)
      from "1.IH"(2) [OF \<open>lo < hi\<close> mid_def False] 1(3) mid
      have ih: "lo \<le> bsearch below lo mid" "bsearch below lo mid \<le> mid"
        "\<And>i. lo \<le> i \<Longrightarrow> i < bsearch below lo mid \<Longrightarrow> below i"
        "\<And>i. bsearch below lo mid \<le> i \<Longrightarrow> i < mid \<Longrightarrow> \<not> below i" by auto
      have "\<not> below i" if "mid \<le> i" "i < hi" for i using 1(3) [OF that] False by blast
      with ih show ?thesis unfolding eq using mid by (metis le_less_linear le_trans less_imp_le)
    qed
  qed
qed

lemma bsearch_spec:
  assumes "\<And>i j. i \<le> j \<Longrightarrow> j < n \<Longrightarrow> below j \<Longrightarrow> below i"
  shows "bsearch below 0 n \<le> n"
    and "i < bsearch below 0 n \<Longrightarrow> below i"
    and "bsearch below 0 n \<le> i \<Longrightarrow> i < n \<Longrightarrow> \<not> below i"
proof -
  have "0 \<le> bsearch below 0 n \<and> bsearch below 0 n \<le> n \<and>
    (\<forall>i. 0 \<le> i \<longrightarrow> i < bsearch below 0 n \<longrightarrow> below i) \<and>
    (\<forall>i. bsearch below 0 n \<le> i \<longrightarrow> i < n \<longrightarrow> \<not> below i)"
    by (rule bsearch_partition) (use assms in blast, simp)
  then show "bsearch below 0 n \<le> n" "i < bsearch below 0 n \<Longrightarrow> below i"
    "bsearch below 0 n \<le> i \<Longrightarrow> i < n \<Longrightarrow> \<not> below i" by blast+
qed

lemma interval_Suc:
  fixes i n :: nat
  shows "(\<forall>j. i \<le> j \<and> j < i + Suc n \<longrightarrow> P j) \<longleftrightarrow> P i \<and> (\<forall>j. Suc i \<le> j \<and> j < Suc i + n \<longrightarrow> P j)"
proof -
  have "{j. i \<le> j \<and> j < i + Suc n} = insert i {j. Suc i \<le> j \<and> j < Suc i + n}" by auto
  then show ?thesis by (metis (no_types, lifting) insert_iff mem_Collect_eq)
qed

text \<open>Rounding up to a multiple.\<close>

lemma nat_round_up:
  fixes v p :: nat
  assumes "0 < p"
  defines "r \<equiv> (v + (p - 1)) - (v + (p - 1)) mod p"
  shows "v \<le> r" "r < v + p" "p dvd r" "x \<ge> v \<Longrightarrow> p dvd x \<Longrightarrow> r \<le> x"
proof -
  define t where "t = v + (p - 1)"
  have r: "r = t - t mod p" by (simp add: r_def t_def)
  have m: "t mod p \<le> p - 1" using assms(1) by (simp add: less_Suc_eq_le [symmetric])
  show "v \<le> r" using m by (simp add: r t_def)
  show "r < v + p" using assms(1) by (simp add: r t_def)
  show dvd: "p dvd r" by (simp add: r)
  show "r \<le> x" if "x \<ge> v" "p dvd x"
  proof (rule ccontr)
    assume gt: "\<not> r \<le> x"
    then have "p dvd r - x" "0 < r - x" using dvd that(2) by auto
    then have "p \<le> r - x" by (rule dvd_imp_le)
    with \<open>r < v + p\<close> that(1) gt show False by linarith
  qed
qed

lemma find_SomeD: "List.find P xs = Some x \<Longrightarrow> x \<in> set xs \<and> P x"
  by (induction xs) (auto split: if_splits)

section \<open>C strings\<close>

text \<open>A string literal as bytes, and a buffer read as a C string.\<close>

definition ascii :: "string \<Rightarrow> u8 list" where
  "ascii s = map of_char s"

definition cstr :: "u8 list \<Rightarrow> u8 list" where
  "cstr bs = takeWhile (\<lambda>b. b \<noteq> 0) bs"

end
