(* ===== verification/Intervals.thy ===== *)
theory Intervals
  imports Prelude
begin

text \<open>
  Half-open address intervals, and the contract of an address-range allocator.
  A region is a pair (address, size) of natural numbers. Both block tables of
  the firmware, the host-visible heap (\<^verbatim>\<open>surface_allocator.c\<close>) and the card
  pool (\<^verbatim>\<open>card_pool.c\<close>), are address-sorted lists of disjoint regions; the
  lemmas here carry their insertions and removals, and the locale
  \<open>region_allocator\<close> states what a client of either relies on.
\<close>

type_synonym region = "nat \<times> nat"

definition region_end :: "region \<Rightarrow> nat" where
  "region_end x = fst x + snd x"

definition before :: "region \<Rightarrow> region \<Rightarrow> bool" where
  "before x y \<longleftrightarrow> region_end x \<le> fst y"

definition disjoint_regions :: "region \<Rightarrow> region \<Rightarrow> bool" where
  "disjoint_regions x y \<longleftrightarrow> before x y \<or> before y x"

definition region_addrs :: "region \<Rightarrow> nat set" where
  "region_addrs x = {fst x ..< region_end x}"

text \<open>A table: sorted by address, disjoint, no empty region.\<close>

definition regions_ok :: "region list \<Rightarrow> bool" where
  "regions_ok xs \<longleftrightarrow> sorted_wrt before xs \<and> (\<forall>x\<in>set xs. 0 < snd x)"

lemma disjoint_regions_addrs:
  "disjoint_regions x y \<Longrightarrow> region_addrs x \<inter> region_addrs y = {}"
  by (auto simp: disjoint_regions_def before_def region_addrs_def)

lemma disjoint_regions_sym: "disjoint_regions x y \<longleftrightarrow> disjoint_regions y x"
  by (auto simp: disjoint_regions_def)

lemma regions_ok_Nil [simp]: "regions_ok []"
  by (simp add: regions_ok_def)

lemma regions_ok_Cons:
  "regions_ok (x # xs) \<longleftrightarrow> 0 < snd x \<and> (\<forall>y\<in>set xs. before x y) \<and> regions_ok xs"
  by (auto simp: regions_ok_def)

lemma regions_ok_append:
  "regions_ok (xs @ ys) \<longleftrightarrow>
     regions_ok xs \<and> regions_ok ys \<and> (\<forall>x\<in>set xs. \<forall>y\<in>set ys. before x y)"
  by (auto simp: regions_ok_def sorted_wrt_append)

lemma regions_ok_split:
  assumes "regions_ok xs"
  shows "regions_ok (take i xs)" "regions_ok (drop i xs)"
    "\<forall>x\<in>set (take i xs). \<forall>y\<in>set (drop i xs). before x y"
proof -
  have "regions_ok (take i xs @ drop i xs)" using assms by simp
  then show "regions_ok (take i xs)" "regions_ok (drop i xs)"
    "\<forall>x\<in>set (take i xs). \<forall>y\<in>set (drop i xs). before x y"
    by (auto simp only: regions_ok_append)
qed

lemma regions_ok_insert_at:
  assumes "regions_ok xs" "0 < snd x"
    and "\<forall>y\<in>set (take i xs). before y x" "\<forall>y\<in>set (drop i xs). before x y"
  shows "regions_ok (insert_at i x xs)"
  using assms regions_ok_split [OF assms(1), of i]
  by (auto simp: insert_at_def regions_ok_append regions_ok_Cons)

lemma regions_ok_remove_at:
  assumes "regions_ok xs"
  shows "regions_ok (remove_at i xs)"
  using regions_ok_split [OF assms, of i] regions_ok_split(2) [OF assms, of "Suc i"]
    set_drop_subset_set_drop [of i "Suc i" xs]
  by (auto simp: remove_at_def regions_ok_append)

lemma regions_ok_filter: "regions_ok xs \<Longrightarrow> regions_ok (filter P xs)"
  by (auto simp: regions_ok_def sorted_wrt_filter)

lemma regions_ok_pairwise:
  assumes "regions_ok xs" "x \<in> set xs" "y \<in> set xs" "x \<noteq> y"
  shows "disjoint_regions x y"
  using assms by (induction xs) (auto simp: regions_ok_Cons disjoint_regions_def)

lemma regions_ok_distinct_addr: "regions_ok xs \<Longrightarrow> distinct (map fst xs)"
  by (induction xs) (force simp: regions_ok_Cons before_def region_end_def)+

lemma set_remove_at_regions:
  assumes "regions_ok xs" "i < length xs"
  shows "set (remove_at i xs) = {y \<in> set xs. fst y \<noteq> fst (xs ! i)}"
proof -
  define x rest where "x = xs ! i" and "rest = remove_at i xs"
  have ins: "insert_at i x rest = xs"
    using assms(2) by (simp add: x_def rest_def insert_at_remove_at)
  have "distinct (map fst (insert_at i x rest))"
    unfolding ins using assms(1) by (rule regions_ok_distinct_addr)
  then have "fst x \<notin> fst ` set (take i rest) \<union> fst ` set (drop i rest)"
    by (auto simp: insert_at_def)
  then have new: "fst x \<notin> fst ` set rest"
    by (metis append_take_drop_id image_Un set_append)
  have "set xs = insert x (set rest)" using ins by (metis set_insert_at)
  moreover have "fst y \<noteq> fst x" if "y \<in> set rest" for y
    using new that by (metis imageI)
  ultimately have "y \<in> set rest \<longleftrightarrow> y \<in> set xs \<and> fst y \<noteq> fst x" for y by (metis insert_iff)
  then show ?thesis unfolding x_def [symmetric] rest_def [symmetric] by blast
qed

lemma regions_ok_addr_mono:
  assumes "regions_ok xs" "i < j" "j < length xs"
  shows "region_end (xs ! i) \<le> fst (xs ! j)" "fst (xs ! i) < fst (xs ! j)"
proof -
  have "before (xs ! i) (xs ! j)"
    using assms by (simp add: regions_ok_def sorted_wrt_iff_nth_less)
  then show "region_end (xs ! i) \<le> fst (xs ! j)" by (simp add: before_def)
  moreover have "0 < snd (xs ! i)"
    using assms by (auto simp: regions_ok_def)
  ultimately show "fst (xs ! i) < fst (xs ! j)" by (simp add: region_end_def)
qed

text \<open>Disjoint regions inside a window use no more bytes than the window has.\<close>

lemma regions_total:
  "regions_ok xs \<Longrightarrow> (\<forall>x\<in>set xs. lo \<le> fst x \<and> region_end x \<le> hi) \<Longrightarrow> lo \<le> hi
    \<Longrightarrow> sum_list (map snd xs) \<le> hi - lo"
proof (induction xs arbitrary: lo)
  case Nil
  then show ?case by simp
next
  case (Cons x xs)
  from Cons.prems have "sum_list (map snd xs) \<le> hi - region_end x"
    by (intro Cons.IH) (auto simp: regions_ok_Cons before_def)
  moreover have "lo \<le> fst x" "region_end x \<le> hi" using Cons.prems by auto
  ultimately show ?case by (simp add: region_end_def)
qed

section \<open>The allocator contract\<close>

text \<open>
  What the firmware's clients rely on: \<open>live\<close> are the regions handed out and
  not yet given back, \<open>alloc\<close> returns address 0 on failure, \<open>need\<close> is the
  byte count a request asks for, \<open>valid\<close> what the allocator expects of a request in
  a state, \<open>release\<close> gives regions back (a free, a revoke,
  an owner release) and \<open>may\<close> is what it expects of such a call.
\<close>

locale region_allocator =
  fixes live :: "'s \<Rightarrow> region set"
    and invar :: "'s \<Rightarrow> bool"
    and alloc :: "'r \<Rightarrow> 's \<Rightarrow> u32 \<times> 's"
    and valid :: "'r \<Rightarrow> 's \<Rightarrow> bool"
    and need :: "'r \<Rightarrow> nat"
    and release :: "'k \<Rightarrow> 's \<Rightarrow> 's"
    and may :: "'k \<Rightarrow> 's \<Rightarrow> bool"
  assumes live_disjoint:
      "invar s \<Longrightarrow> x \<in> live s \<Longrightarrow> y \<in> live s \<Longrightarrow> x \<noteq> y \<Longrightarrow> disjoint_regions x y"
    and alloc_fail: "invar s \<Longrightarrow> valid r s \<Longrightarrow> alloc r s = (0, s') \<Longrightarrow> s' = s"
    and alloc_fresh: "invar s \<Longrightarrow> valid r s \<Longrightarrow> alloc r s = (a, s') \<Longrightarrow> a \<noteq> 0 \<Longrightarrow>
      \<exists>n. 0 < n \<and> need r \<le> n \<and> (unat a, n) \<notin> live s \<and> live s' = insert (unat a, n) (live s)"
    and alloc_invar: "invar s \<Longrightarrow> valid r s \<Longrightarrow> invar (snd (alloc r s))"
    and release_live: "invar s \<Longrightarrow> may k s \<Longrightarrow> live (release k s) \<subseteq> live s"
    and release_invar: "invar s \<Longrightarrow> may k s \<Longrightarrow> invar (release k s)"
begin

inductive run :: "'s \<Rightarrow> 's \<Rightarrow> bool" where
  run_refl: "run s s"
| run_alloc: "run s t \<Longrightarrow> valid r t \<Longrightarrow> run s (snd (alloc r t))"
| run_release: "run s t \<Longrightarrow> may k t \<Longrightarrow> run s (release k t)"

lemma run_invar: "run s t \<Longrightarrow> invar s \<Longrightarrow> invar t"
  by (induction rule: run.induct) (auto intro: alloc_invar release_invar)

lemma alloc_live_mono:
  assumes "invar s" "valid r s"
  shows "live s \<subseteq> live (snd (alloc r s))"
proof (cases "alloc r s")
  case (Pair a s')
  then show ?thesis
    using assms alloc_fail [of s r s'] alloc_fresh [of s r a s'] by (cases "a = 0") auto
qed

text \<open>Whatever sequence of calls led here, live regions never share a byte.\<close>

lemma run_live_disjoint:
  assumes "run s t" "invar s" "x \<in> live t" "y \<in> live t" "x \<noteq> y"
  shows "region_addrs x \<inter> region_addrs y = {}"
  using live_disjoint [OF run_invar [OF assms(1,2)] assms(3-5)]
  by (rule disjoint_regions_addrs)

text \<open>
  A second allocation never overlaps a first one that is still live, however
  many calls came between.
\<close>

lemma no_double_handout:
  assumes "invar s" "alloc r s = (a, s1)" "a \<noteq> 0" "valid r s"
    and "run s1 s2" "alloc r' s2 = (b, s3)" "b \<noteq> 0" "valid r' s2"
  shows "\<exists>m n. need r \<le> m \<and> need r' \<le> n \<and> (unat a, m) \<in> live s1 \<and> (unat b, n) \<in> live s3 \<and>
    ((unat a, m) \<in> live s2 \<longrightarrow> region_addrs (unat a, m) \<inter> region_addrs (unat b, n) = {})"
proof -
  from alloc_fresh [OF assms(1,4,2,3)] obtain m
    where m: "need r \<le> m" "live s1 = insert (unat a, m) (live s)" by blast
  have "invar s1" using alloc_invar [OF assms(1,4)] assms(2) by simp
  with assms(5) have s2: "invar s2" by (rule run_invar)
  from alloc_fresh [OF s2 assms(8,6,7)] obtain n
    where n: "need r' \<le> n" "(unat b, n) \<notin> live s2" "live s3 = insert (unat b, n) (live s2)" by blast
  have s3: "invar s3" using alloc_invar [OF s2 assms(8)] assms(6) by simp
  have "region_addrs (unat a, m) \<inter> region_addrs (unat b, n) = {}" if "(unat a, m) \<in> live s2"
  proof -
    have "(unat a, m) \<noteq> (unat b, n)" using that n(2) by metis
    then show ?thesis
      using live_disjoint [OF s3, of "(unat a, m)" "(unat b, n)"] that n(3)
      by (intro disjoint_regions_addrs) auto
  qed
  with m n show ?thesis by blast
qed

end

end
