(* ===== verification/SurfaceAllocator.thy ===== *)
theory SurfaceAllocator
  imports Intervals
begin

text \<open>
  The host-visible heap allocator (\<^verbatim>\<open>surface_allocator.c\<close>): first fit over a
  block table kept sorted by address. The record holds the file's statics; the
  live prefix \<^verbatim>\<open>sa_blocks[0..sa_count)\<close> is the list \<open>sa_blocks\<close>, so
  \<^verbatim>\<open>sa_count\<close> is its length and the two \<^verbatim>\<open>memmove\<close>s are \<open>insert_at\<close> and
  \<open>remove_at\<close>. Each entry point runs under \<^verbatim>\<open>sa_lock\<close> and is one atomic step
  here (the lock itself is theory SmpLock).
\<close>

section \<open>Model\<close>

record sa_block =
  sab_addr :: u32
  sab_size :: u32

record sa_state =
  sa_blocks :: "sa_block list"
  sa_base :: u32
  sa_end :: u32
  sa_used :: u32

definition SURFACE_ALLOCATOR_ALIGNMENT :: u32 where
  "SURFACE_ALLOCATOR_ALIGNMENT = 256"

definition SURFACE_ALLOCATOR_MAX_BLOCKS :: nat where
  "SURFACE_ALLOCATOR_MAX_BLOCKS = 1024"

abbreviation sa_count :: "sa_state \<Rightarrow> nat" where
  "sa_count s \<equiv> length (sa_blocks s)"

definition surface_allocator_init :: "u32 \<Rightarrow> u32 \<Rightarrow> sa_state" where
  "surface_allocator_init base sz =
     (if sz > UINT32_MAX - base
      then \<lparr>sa_blocks = [], sa_base = 0, sa_end = 0, sa_used = 0\<rparr>
      else \<lparr>sa_blocks = [], sa_base = base, sa_end = base + sz, sa_used = 0\<rparr>)"

text \<open>Index of the block at exactly \<open>addr\<close>, or None (the C's -1).\<close>

definition sa_find :: "sa_state \<Rightarrow> u32 \<Rightarrow> nat option" where
  "sa_find s addr =
     (let lo = bsearch (\<lambda>mid. sab_addr (sa_blocks s ! mid) < addr) 0 (sa_count s)
      in if lo < sa_count s \<and> sab_addr (sa_blocks s ! lo) = addr then Some lo else None)"

definition sa_align_up :: "u32 \<Rightarrow> u32 \<Rightarrow> u32" where
  "sa_align_up v alignment =
     (if v > UINT32_MAX - (alignment - 1) then 0
      else (v + alignment - 1) AND NOT (alignment - 1))"

text \<open>The rounding every allocation applies to its size.\<close>

definition sa_rounded :: "u32 \<Rightarrow> u32" where
  "sa_rounded sz =
     (sz + SURFACE_ALLOCATOR_ALIGNMENT - 1) AND NOT (SURFACE_ALLOCATOR_ALIGNMENT - 1)"

text \<open>Table insertion at an index, with the count and byte bookkeeping.\<close>

definition sa_insert :: "sa_state \<Rightarrow> nat \<Rightarrow> u32 \<Rightarrow> u32 \<Rightarrow> sa_state" where
  "sa_insert s i address rounded =
     s\<lparr>sa_blocks := insert_at i \<lparr>sab_addr = address, sab_size = rounded\<rparr> (sa_blocks s),
       sa_used := sa_used s + rounded\<rparr>"

text \<open>\<^verbatim>\<open>while (insert_at < sa_count && sa_blocks[insert_at].addr < address) insert_at++\<close>\<close>

fun sa_scan_below :: "u32 \<Rightarrow> sa_block list \<Rightarrow> nat" where
  "sa_scan_below address [] = 0"
| "sa_scan_below address (b # bs) =
     (if sab_addr b < address then Suc (sa_scan_below address bs) else 0)"

definition surface_allocator_reserve :: "u32 \<Rightarrow> u32 \<Rightarrow> sa_state \<Rightarrow> int \<times> sa_state" where
  "surface_allocator_reserve address sz s =
     (if sz = 0 \<or> address AND (SURFACE_ALLOCATOR_ALIGNMENT - 1) \<noteq> 0 \<or>
         sz > UINT32_MAX - (SURFACE_ALLOCATOR_ALIGNMENT - 1)
      then (-1, s)
      else let rounded = sa_rounded sz
      in if sa_count s \<ge> SURFACE_ALLOCATOR_MAX_BLOCKS \<or> address < sa_base s \<or>
            address > sa_end s \<or> rounded > sa_end s - address
         then (-1, s)
      else let i = sa_scan_below address (sa_blocks s)
      in if (i \<noteq> 0 \<and> sab_addr (sa_blocks s ! (i - 1)) + sab_size (sa_blocks s ! (i - 1)) > address) \<or>
            (i < sa_count s \<and> address + rounded > sab_addr (sa_blocks s ! i))
         then (-1, s)
      else (0, sa_insert s i address rounded))"

text \<open>
  The first-fit walk: the candidate address and the index found, starting
  from index \<open>i\<close> and candidate \<open>cand\<close>. When no gap before a block fits, the
  index is \<^verbatim>\<open>sa_count\<close>.
\<close>

fun sa_first_fit :: "u32 \<Rightarrow> u32 \<Rightarrow> sa_block list \<Rightarrow> nat \<Rightarrow> u32 \<Rightarrow> u32 \<times> nat" where
  "sa_first_fit rounded alignment [] i cand = (cand, i)"
| "sa_first_fit rounded alignment (b # bs) i cand =
     (if sab_addr b - cand \<ge> rounded then (cand, i)
      else sa_first_fit rounded alignment bs (Suc i)
             (sa_align_up (sab_addr b + sab_size b) alignment))"

definition surface_allocator_alloc_aligned :: "u32 \<Rightarrow> u32 \<Rightarrow> sa_state \<Rightarrow> u32 \<times> sa_state" where
  "surface_allocator_alloc_aligned sz alignment s =
     (if sz = 0 \<or> alignment = 0 \<or> alignment AND (alignment - 1) \<noteq> 0 \<or>
         sz > UINT32_MAX - (SURFACE_ALLOCATOR_ALIGNMENT - 1)
      then (0, s)
      else let rounded = sa_rounded sz
      in if sa_count s \<ge> SURFACE_ALLOCATOR_MAX_BLOCKS \<or> rounded > sa_end s - sa_base s
         then (0, s)
      else case sa_first_fit rounded alignment (sa_blocks s) 0 (sa_align_up (sa_base s) alignment)
        of (candidate, i) \<Rightarrow>
          if candidate < sa_base s \<or> candidate > sa_end s \<or> rounded > sa_end s - candidate
          then (0, s)
          else (candidate, sa_insert s i candidate rounded))"

text \<open>
  The walk tests a gap with the unsigned difference \<^verbatim>\<open>sa_blocks[i].addr - candidate\<close>
  and no test that the candidate is not above the block. \<open>sa_gap_wraps\<close> says that the walk
  reaches a block below its candidate, so that this difference wraps.
\<close>

fun sa_gap_wraps :: "u32 \<Rightarrow> u32 \<Rightarrow> sa_block list \<Rightarrow> u32 \<Rightarrow> bool" where
  "sa_gap_wraps rounded alignment [] cand = False"
| "sa_gap_wraps rounded alignment (b # bs) cand =
     (sab_addr b < cand \<or> sab_addr b - cand < rounded \<and>
        sa_gap_wraps rounded alignment bs (sa_align_up (sab_addr b + sab_size b) alignment))"

definition sa_walk_wraps :: "u32 \<Rightarrow> u32 \<Rightarrow> sa_state \<Rightarrow> bool" where
  "sa_walk_wraps sz alignment s \<longleftrightarrow>
     sa_gap_wraps (sa_rounded sz) alignment (sa_blocks s) (sa_align_up (sa_base s) alignment)"

definition surface_allocator_alloc :: "u32 \<Rightarrow> sa_state \<Rightarrow> u32 \<times> sa_state" where
  "surface_allocator_alloc sz s =
     surface_allocator_alloc_aligned sz SURFACE_ALLOCATOR_ALIGNMENT s"

text \<open>
  The windowed walk of \<^verbatim>\<open>surface_allocator_alloc_range\<close>: candidate,
  insertion index (\<open>n\<close>, that is \<^verbatim>\<open>sa_count\<close>, unless a break sets it) and the
  \<^verbatim>\<open>found\<close> flag.
\<close>

fun sa_range_fit :: "u32 \<Rightarrow> u32 \<Rightarrow> u32 \<Rightarrow> nat \<Rightarrow> sa_block list \<Rightarrow> nat \<Rightarrow> u32 \<Rightarrow> u32 \<times> nat \<times> bool" where
  "sa_range_fit rounded alignment hi n [] i cand = (cand, n, False)"
| "sa_range_fit rounded alignment hi n (b # bs) i cand =
     (let baddr = sab_addr b; bend = baddr + sab_size b
      in if baddr \<ge> hi then (cand, i, False)
         else if bend \<le> cand then sa_range_fit rounded alignment hi n bs (Suc i) cand
         else if baddr \<ge> cand \<and> baddr - cand \<ge> rounded then (cand, i, True)
         else let c = sa_align_up bend alignment
              in if c < bend \<or> c \<ge> hi then (c, n, False)
                 else sa_range_fit rounded alignment hi n bs (Suc i) c)"

definition surface_allocator_alloc_range ::
  "u32 \<Rightarrow> u32 \<Rightarrow> u32 \<Rightarrow> u32 \<Rightarrow> sa_state \<Rightarrow> u32 \<times> sa_state" where
  "surface_allocator_alloc_range sz alignment lo hi s =
     (if sz = 0 \<or> alignment = 0 \<or> alignment AND (alignment - 1) \<noteq> 0 \<or> lo \<ge> hi \<or>
         sz > UINT32_MAX - (SURFACE_ALLOCATOR_ALIGNMENT - 1)
      then (0, s)
      else let rounded = sa_rounded sz
      in if sa_count s \<ge> SURFACE_ALLOCATOR_MAX_BLOCKS \<or> lo < sa_base s \<or>
            hi > sa_end s \<or> rounded > hi - lo
         then (0, s)
      else case sa_range_fit rounded alignment hi (sa_count s) (sa_blocks s) 0
                  (sa_align_up lo alignment)
        of (candidate, i, found) \<Rightarrow>
          if \<not> found \<and> (candidate < lo \<or> candidate \<ge> hi \<or> hi - candidate < rounded)
          then (0, s)
          else (candidate, sa_insert s i candidate rounded))"

definition surface_allocator_free :: "u32 \<Rightarrow> sa_state \<Rightarrow> int \<times> sa_state" where
  "surface_allocator_free addr s =
     (case sa_find s addr of
        None \<Rightarrow> (-1, s)
      | Some i \<Rightarrow> (0, s\<lparr>sa_used := sa_used s - sab_size (sa_blocks s ! i),
                       sa_blocks := remove_at i (sa_blocks s)\<rparr>))"

definition surface_allocator_block_size :: "u32 \<Rightarrow> sa_state \<Rightarrow> u32" where
  "surface_allocator_block_size addr s =
     (case sa_find s addr of None \<Rightarrow> 0 | Some i \<Rightarrow> sab_size (sa_blocks s ! i))"

definition surface_allocator_owns :: "u32 \<Rightarrow> u32 \<Rightarrow> sa_state \<Rightarrow> bool" where
  "surface_allocator_owns addr len s =
     (if len = 0 then False
      else case sa_find s addr of None \<Rightarrow> False | Some i \<Rightarrow> len \<le> sab_size (sa_blocks s ! i))"

definition surface_allocator_used_bytes :: "sa_state \<Rightarrow> u32" where
  "surface_allocator_used_bytes s = sa_used s"

definition surface_allocator_total_bytes :: "sa_state \<Rightarrow> u32" where
  "surface_allocator_total_bytes s = sa_end s - sa_base s"

text \<open>The gap walk of the free-space report: (largest so far, end of the last block).\<close>

fun sa_gap_walk :: "sa_block list \<Rightarrow> u32 \<Rightarrow> u32 \<Rightarrow> u32 \<times> u32" where
  "sa_gap_walk [] largest cand = (largest, cand)"
| "sa_gap_walk (b # bs) largest cand =
     (let gap = sab_addr b - cand
      in sa_gap_walk bs (if gap > largest then gap else largest) (sab_addr b + sab_size b))"

text \<open>Returns (\<^verbatim>\<open>*free_total\<close>, \<^verbatim>\<open>*largest_free\<close>).\<close>

definition surface_allocator_free_stats :: "sa_state \<Rightarrow> u32 \<times> u32" where
  "surface_allocator_free_stats s =
     (case sa_gap_walk (sa_blocks s) 0 (sa_base s) of (largest, cand) \<Rightarrow>
        ((sa_end s - sa_base s) - sa_used s,
         if sa_end s - cand > largest then sa_end s - cand else largest))"

section \<open>The table invariant\<close>

definition sab_region :: "sa_block \<Rightarrow> region" where
  "sab_region b = (unat (sab_addr b), unat (sab_size b))"

definition sa_regions :: "sa_state \<Rightarrow> region list" where
  "sa_regions s = map sab_region (sa_blocks s)"

text \<open>
  The heap window lies in the low 2 GiB (the board's DDR is 1 GiB), starts on a
  256-byte boundary and, unless empty, not at address 0, which is the failure
  result of the allocation functions.
\<close>

definition sa_window_ok :: "sa_state \<Rightarrow> bool" where
  "sa_window_ok s \<longleftrightarrow> sa_base s \<le> sa_end s \<and> unat (sa_end s) \<le> 2147483648 \<and>
     256 dvd unat (sa_base s) \<and> (sa_base s = 0 \<longrightarrow> sa_end s = 0)"

definition sa_block_in :: "sa_state \<Rightarrow> sa_block \<Rightarrow> bool" where
  "sa_block_in s b \<longleftrightarrow> unat (sa_base s) \<le> unat (sab_addr b) \<and>
     unat (sab_addr b) + unat (sab_size b) \<le> unat (sa_end s) \<and>
     256 dvd unat (sab_addr b) \<and> 256 dvd unat (sab_size b)"

definition sa_inv :: "sa_state \<Rightarrow> bool" where
  "sa_inv s \<longleftrightarrow> sa_window_ok s \<and> regions_ok (sa_regions s) \<and>
     (\<forall>b\<in>set (sa_blocks s). sa_block_in s b) \<and>
     sa_count s \<le> SURFACE_ALLOCATOR_MAX_BLOCKS \<and>
     unat (sa_used s) = sum_list (map snd (sa_regions s))"

lemmas sa_model_defs = SURFACE_ALLOCATOR_ALIGNMENT_def SURFACE_ALLOCATOR_MAX_BLOCKS_def

section \<open>Rounding and aligning\<close>

lemma sa_rounded_spec:
  assumes "sz \<noteq> 0" "\<not> sz > UINT32_MAX - (SURFACE_ALLOCATOR_ALIGNMENT - 1)"
  shows "unat sz \<le> unat (sa_rounded sz)" "unat (sa_rounded sz) < unat sz + 256"
    "256 dvd unat (sa_rounded sz)" "0 < unat (sa_rounded sz)"
proof -
  have "unat sz \<le> 4294967040"
    using assms(2) by (simp add: sa_model_defs word_le_nat_alt not_less)
  then have sum: "unat (sz + 255) = unat sz + 255"
    by (simp add: unat_plus_no_wrap)
  have m: "(255 :: u32) = mask 8" by (simp add: mask_eq_exp_minus_1)
  have "sa_rounded sz = (sz + 255) AND NOT (mask 8)"
    by (simp add: sa_rounded_def sa_model_defs m add.commute)
  then have eq: "unat (sa_rounded sz) = (unat sz + 255) - (unat sz + 255) mod 256"
    by (simp add: unat_and_not_mask sum)
  show "unat sz \<le> unat (sa_rounded sz)" "unat (sa_rounded sz) < unat sz + 256"
    "256 dvd unat (sa_rounded sz)"
    using nat_round_up [of 256 "unat sz"] by (simp_all add: eq)
  then show "0 < unat (sa_rounded sz)"
    using assms(1) by (simp add: unat_gt_0 [symmetric])
qed

lemma sa_align_up_spec:
  assumes al: "al \<noteq> 0" "al AND (al - 1) = 0" and v: "unat v \<le> 2147483648"
  shows "unat v \<le> unat (sa_align_up v al)" "unat al dvd unat (sa_align_up v al)"
    "\<And>x. unat v \<le> x \<Longrightarrow> unat al dvd x \<Longrightarrow> unat (sa_align_up v al) \<le> x"
    "256 dvd unat v \<Longrightarrow> 256 dvd unat (sa_align_up v al)"
proof -
  obtain k where k: "k < 32" "unat al = 2 ^ k" "al - 1 = mask k"
    using word_pow2_test [OF al] .
  have m: "unat (al - 1) = 2 ^ k - 1" using al(1) k(2) by (simp add: unat_minus_one)
  have "(2::nat) ^ k \<le> 2 ^ 31" using k(1) by (intro power_increasing) auto
  then have small: "unat v + (2 ^ k - 1) < 4294967296" using v by simp
  have sum: "unat (v + (al - 1)) = unat v + (2 ^ k - 1)"
    using small by (simp add: m unat_plus_no_wrap del: add_diff_eq)
  have "\<not> v > UINT32_MAX - (al - 1)"
    unfolding word_less_nat_alt unat_max_minus m using small by linarith
  then have "sa_align_up v al = (v + (al - 1)) AND NOT (mask k)"
    by (simp add: sa_align_up_def k(3) [symmetric] algebra_simps)
  then have eq: "unat (sa_align_up v al) = (unat v + (2 ^ k - 1)) - (unat v + (2 ^ k - 1)) mod 2 ^ k"
    by (simp add: unat_and_not_mask sum del: add_diff_eq)
  show "unat v \<le> unat (sa_align_up v al)" "unat al dvd unat (sa_align_up v al)"
    and min: "\<And>x. unat v \<le> x \<Longrightarrow> unat al dvd x \<Longrightarrow> unat (sa_align_up v al) \<le> x"
    using nat_round_up [of "2 ^ k" "unat v"] by (simp_all only: eq k(2)) auto
  show "256 dvd unat (sa_align_up v al)" if "256 dvd unat v"
  proof (cases "k \<le> 8")
    case True
    then have "(2::nat) ^ k dvd 2 ^ 8" by (rule le_imp_power_dvd)
    then have "unat al dvd unat v" using that k(2) dvd_trans by auto
    then have "unat (sa_align_up v al) = unat v"
      using min [of "unat v"] \<open>unat v \<le> unat (sa_align_up v al)\<close> by simp
    with that show ?thesis by simp
  next
    case False
    then have "(2::nat) ^ 8 dvd 2 ^ k" by (intro le_imp_power_dvd) simp
    with \<open>unat al dvd unat (sa_align_up v al)\<close> k(2) show ?thesis by (auto intro: dvd_trans)
  qed
qed

text \<open>Aligning an already 256-aligned address to at most 256 bytes changes nothing.\<close>

lemma sa_align_up_small:
  assumes "al \<noteq> 0" "al AND (al - 1) = 0" "unat al \<le> 256" "unat v \<le> 2147483648" "256 dvd unat v"
  shows "sa_align_up v al = v"
proof -
  obtain k where k: "unat al = 2 ^ k" using word_pow2_test [OF assms(1,2)] .
  then have "(2::nat) ^ k \<le> 2 ^ 8" using assms(3) by simp
  then have "k \<le> 8" by (simp only: power_increasing_iff)
  then have "(2::nat) ^ k dvd 2 ^ 8" by (rule le_imp_power_dvd)
  then have "unat al dvd unat v" using assms(5) k dvd_trans by auto
  then show ?thesis
    using sa_align_up_spec [OF assms(1,2,4)] by (intro word_eq_unatI) force
qed

section \<open>The first-fit walks\<close>

definition sab_end :: "sa_block \<Rightarrow> nat" where
  "sab_end b = unat (sab_addr b) + unat (sab_size b)"

lemma sab_region_simps [simp]:
  "fst (sab_region b) = unat (sab_addr b)" "snd (sab_region b) = unat (sab_size b)"
  "region_end (sab_region b) = sab_end b"
  by (simp_all add: sab_region_def sab_end_def region_end_def)

lemma before_sab: "before (sab_region b) x \<longleftrightarrow> sab_end b \<le> fst x"
  by (simp add: before_def)

lemma unat_sab_end:
  "sab_end b \<le> 2147483648 \<Longrightarrow> unat (sab_addr b + sab_size b) = sab_end b"
  by (simp add: sab_end_def unat_plus_no_wrap)

text \<open>
  On a table whose blocks all lie at or above the candidate, the walk for an
  alignment of at most 256 bytes finds the lowest address at which the request
  fits between the blocks, and the index where it belongs.
\<close>

lemma sa_first_fit_spec:
  assumes "regions_ok (map sab_region bs)"
    and "\<forall>b\<in>set bs. 256 dvd sab_end b \<and> sab_end b \<le> 2147483648"
    and "\<forall>b\<in>set bs. unat cand \<le> unat (sab_addr b)"
    and al: "al \<noteq> 0" "al AND (al - 1) = 0" "unat al \<le> 256"
    and "256 dvd unat cand"
    and "sa_first_fit r al bs i cand = (c, j)"
  shows "\<exists>m\<le>length bs. j = i + m \<and> unat cand \<le> unat c \<and> 256 dvd unat c \<and>
    (\<forall>b\<in>set (take m bs). sab_end b \<le> unat c) \<and>
    (\<forall>b\<in>set (drop m bs). unat c + unat r \<le> unat (sab_addr b)) \<and>
    (\<forall>x. unat cand \<le> x \<longrightarrow> x < unat c \<longrightarrow>
       (\<exists>b\<in>set bs. unat (sab_addr b) < x + unat r \<and> x < sab_end b))"
  using assms
proof (induction bs arbitrary: i cand)
  case Nil
  then show ?case by auto
next
  case (Cons b bs)
  have le: "unat cand \<le> unat (sab_addr b)" and rok: "regions_ok (map sab_region bs)"
    and above: "\<forall>b'\<in>set bs. sab_end b \<le> unat (sab_addr b')"
    using Cons.prems(1,3) by (auto simp: regions_ok_Cons before_sab)
  have e: "256 dvd sab_end b" "sab_end b \<le> 2147483648" using Cons.prems(2) by auto
  show ?case
  proof (cases "sab_addr b - cand \<ge> r")
    case True
    then have "unat cand + unat r \<le> unat (sab_addr b)"
      using le by (simp add: word_le_nat_alt unat_minus_no_wrap)
    moreover have "\<forall>b'\<in>set bs. unat (sab_addr b) \<le> unat (sab_addr b')"
      using above by (auto simp: sab_end_def)
    ultimately show ?thesis
      using True Cons.prems(7,8) by (intro exI [of _ 0]) auto
  next
    case False
    then have overlap: "unat (sab_addr b) < unat cand + unat r"
      using le by (simp add: word_le_nat_alt unat_minus_no_wrap)
    define cand' where "cand' = sa_align_up (sab_addr b + sab_size b) al"
    have c': "unat cand' = sab_end b"
      using sa_align_up_small [OF al, of "sab_addr b + sab_size b"] e
      by (simp add: cand'_def unat_sab_end)
    have step: "sa_first_fit r al bs (Suc i) cand' = (c, j)"
      using False Cons.prems(8) by (simp add: cand'_def)
    have "\<exists>m\<le>length bs. j = Suc i + m \<and> unat cand' \<le> unat c \<and> 256 dvd unat c \<and>
      (\<forall>b\<in>set (take m bs). sab_end b \<le> unat c) \<and>
      (\<forall>b\<in>set (drop m bs). unat c + unat r \<le> unat (sab_addr b)) \<and>
      (\<forall>x. unat cand' \<le> x \<longrightarrow> x < unat c \<longrightarrow>
         (\<exists>b\<in>set bs. unat (sab_addr b) < x + unat r \<and> x < sab_end b))"
      using rok Cons.prems(2) above al e c' step by (intro Cons.IH) auto
    then obtain m where m: "m \<le> length bs" "j = Suc i + m" "sab_end b \<le> unat c" "256 dvd unat c"
      "\<forall>b\<in>set (take m bs). sab_end b \<le> unat c"
      "\<forall>b\<in>set (drop m bs). unat c + unat r \<le> unat (sab_addr b)"
      and gap: "\<And>x. sab_end b \<le> x \<Longrightarrow> x < unat c \<Longrightarrow>
        \<exists>b\<in>set bs. unat (sab_addr b) < x + unat r \<and> x < sab_end b"
      unfolding c' by blast
    have "\<exists>b'\<in>set (b # bs). unat (sab_addr b') < x + unat r \<and> x < sab_end b'"
      if "unat cand \<le> x" "x < unat c" for x
      using overlap gap [of x] that by (cases "x < sab_end b") force+
    moreover have "unat cand \<le> unat c" using le m(3) by (simp add: sab_end_def)
    ultimately show ?thesis
      using m by (intro exI [of _ "Suc m"]) auto
  qed
qed

text \<open>
  For any power-of-two alignment, a walk that meets no block below its candidate returns
  a place between its neighbours.
\<close>

lemma sa_first_fit_fits:
  assumes "regions_ok (map sab_region bs)"
    and "\<forall>b\<in>set bs. 256 dvd sab_end b \<and> sab_end b \<le> 2147483648"
    and al: "al \<noteq> 0" "al AND (al - 1) = 0"
    and "\<not> sa_gap_wraps r al bs cand" "256 dvd unat cand"
    and "sa_first_fit r al bs i cand = (c, j)"
  shows "\<exists>m\<le>length bs. j = i + m \<and> unat cand \<le> unat c \<and> 256 dvd unat c \<and>
    (\<forall>b\<in>set (take m bs). sab_end b \<le> unat c) \<and>
    (\<forall>b\<in>set (drop m bs). unat c + unat r \<le> unat (sab_addr b))"
  using assms
proof (induction bs arbitrary: i cand)
  case (Cons b bs)
  have le: "unat cand \<le> unat (sab_addr b)" and rok: "regions_ok (map sab_region bs)"
    and above: "\<forall>b'\<in>set bs. sab_end b \<le> unat (sab_addr b')"
    using Cons.prems(1,5) by (auto simp: regions_ok_Cons before_sab word_less_nat_alt)
  have e: "256 dvd sab_end b" "sab_end b \<le> 2147483648" using Cons.prems(2) by auto
  show ?case
  proof (cases "sab_addr b - cand \<ge> r")
    case True
    then have "unat cand + unat r \<le> unat (sab_addr b)"
      using le by (simp add: word_le_nat_alt unat_minus_no_wrap)
    moreover have "\<forall>b'\<in>set bs. unat (sab_addr b) \<le> unat (sab_addr b')"
      using above by (auto simp: sab_end_def)
    ultimately show ?thesis
      using True Cons.prems(6,7) by (intro exI [of _ 0]) auto
  next
    case False
    define cand' where "cand' = sa_align_up (sab_addr b + sab_size b) al"
    have c': "sab_end b \<le> unat cand'" "256 dvd unat cand'"
      using sa_align_up_spec [OF al, of "sab_addr b + sab_size b"] e by (auto simp: cand'_def unat_sab_end)
    have "sa_first_fit r al bs (Suc i) cand' = (c, j)" "\<not> sa_gap_wraps r al bs cand'"
      using False Cons.prems(5,7) by (auto simp: cand'_def not_le split: if_splits)
    then obtain m where m: "m \<le> length bs" "j = Suc i + m" "unat cand' \<le> unat c" "256 dvd unat c"
      "\<forall>b\<in>set (take m bs). sab_end b \<le> unat c"
      "\<forall>b\<in>set (drop m bs). unat c + unat r \<le> unat (sab_addr b)"
      using Cons.IH [of cand' "Suc i"] rok Cons.prems(2) al c'(2) by auto
    moreover have "unat (sab_addr b) \<le> sab_end b" by (simp add: sab_end_def)
    ultimately show ?thesis
      using c'(1) le by (intro exI [of _ "Suc m"]) auto
  qed
qed auto

text \<open>
  With an alignment of at most 256 bytes the candidates are the block ends themselves, so
  no walk over a sorted table meets a block below its candidate.
\<close>

lemma sa_gap_wraps_small:
  assumes "regions_ok (map sab_region bs)"
    and "\<forall>b\<in>set bs. 256 dvd sab_end b \<and> sab_end b \<le> 2147483648"
    and "\<forall>b\<in>set bs. unat cand \<le> unat (sab_addr b)"
    and al: "al \<noteq> 0" "al AND (al - 1) = 0" "unat al \<le> 256"
  shows "\<not> sa_gap_wraps r al bs cand"
  using assms
proof (induction bs arbitrary: cand)
  case (Cons b bs)
  have "unat (sa_align_up (sab_addr b + sab_size b) al) = sab_end b"
    using sa_align_up_small [OF al, of "sab_addr b + sab_size b"] Cons.prems(2) by (simp add: unat_sab_end)
  then have "\<not> sa_gap_wraps r al bs (sa_align_up (sab_addr b + sab_size b) al)"
    using Cons.prems al by (intro Cons.IH) (auto simp: regions_ok_Cons before_sab)
  then show ?case using Cons.prems(3) by (simp add: word_less_nat_alt not_less)
qed simp

text \<open>
  A walk that does meet such a block stops there: the wrapped difference is at least 2 GiB,
  more than any request, and the place returned is before a block below it.
\<close>

lemma sa_align_up_le:
  assumes "al \<noteq> 0" "al AND (al - 1) = 0" "unat v \<le> 2147483648"
  shows "unat (sa_align_up v al) \<le> 2147483648"
proof -
  obtain k where k: "k < 32" "unat al = 2 ^ k" using word_pow2_test [OF assms(1,2)] .
  have "(2::nat) ^ k dvd 2 ^ 31" using k(1) by (intro le_imp_power_dvd) simp
  then show ?thesis using sa_align_up_spec(3) [OF assms, of 2147483648] assms(3) k(2) by simp
qed

lemma sa_first_fit_wraps:
  assumes "\<forall>b\<in>set bs. sab_end b \<le> 2147483648" "unat r \<le> 2147483648"
    and al: "al \<noteq> 0" "al AND (al - 1) = 0"
    and "sa_gap_wraps r al bs cand" "unat cand \<le> 2147483648"
    and "sa_first_fit r al bs i cand = (c, j)"
  shows "\<exists>m<length bs. j = i + m \<and> sab_addr (bs ! m) < c"
  using assms
proof (induction bs arbitrary: i cand)
  case (Cons b bs)
  show ?case
  proof (cases "sab_addr b < cand")
    case True
    then have "unat (sab_addr b - cand) = 4294967296 + unat (sab_addr b) - unat cand"
      by (simp add: unat_sub_if_size word_less_nat_alt word_size)
    then have "sab_addr b - cand \<ge> r" using Cons.prems(2,6) by (simp add: word_le_nat_alt)
    with True Cons.prems(7) show ?thesis by (intro exI [of _ 0]) auto
  next
    case False
    define cand' where "cand' = sa_align_up (sab_addr b + sab_size b) al"
    have "unat cand' \<le> 2147483648"
      unfolding cand'_def using Cons.prems(1) by (intro sa_align_up_le [OF al]) (auto simp: unat_sab_end)
    moreover have "sa_gap_wraps r al bs cand'" "sa_first_fit r al bs (Suc i) cand' = (c, j)"
      using False Cons.prems(5,7) by (auto simp: cand'_def split: if_splits)
    ultimately obtain m where "m < length bs" "j = Suc i + m" "sab_addr (bs ! m) < c"
      using Cons.IH [of cand' "Suc i"] Cons.prems(1,2) al by auto
    then show ?thesis by (intro exI [of _ "Suc m"]) auto
  qed
qed simp

text \<open>
  The windowed walk, for any power-of-two alignment: a result the caller
  accepts lies at or above the starting candidate, fits below \<open>hi\<close> and between
  its neighbours at the index returned.
\<close>

lemma sa_range_fit_spec:
  assumes "regions_ok (map sab_region bs)"
    and "\<forall>b\<in>set bs. 256 dvd sab_end b \<and> sab_end b \<le> 2147483648"
    and al: "al \<noteq> 0" "al AND (al - 1) = 0"
    and hi: "unat hi \<le> 2147483648" and n: "n = i + length bs"
    and "256 dvd unat cand" "unat al dvd unat cand"
    and "sa_range_fit r al hi n bs i cand = (c, j, found)"
    and acc: "found \<or> (c < hi \<and> r \<le> hi - c)"
  shows "\<exists>m\<le>length bs. j = i + m \<and> unat cand \<le> unat c \<and> 256 dvd unat c \<and> unat al dvd unat c \<and>
    unat c + unat r \<le> unat hi \<and>
    (\<forall>b\<in>set (take m bs). sab_end b \<le> unat c) \<and>
    (\<forall>b\<in>set (drop m bs). unat c + unat r \<le> unat (sab_addr b))"
  using assms
proof (induction bs arbitrary: i cand)
  case Nil
  then show ?case by (auto simp: word_less_nat_alt word_le_nat_alt unat_minus_no_wrap)
next
  case (Cons b bs)
  have rok: "regions_ok (map sab_region bs)"
    and above: "\<forall>b'\<in>set bs. sab_end b \<le> unat (sab_addr b')"
    using Cons.prems(1) by (auto simp: regions_ok_Cons before_sab)
  have e: "256 dvd sab_end b" "sab_end b \<le> 2147483648" using Cons.prems(2) by auto
  have up: "\<forall>b'\<in>set bs. unat (sab_addr b) \<le> unat (sab_addr b')"
    using above by (auto simp: sab_end_def)
  have ue: "unat (sab_addr b + sab_size b) = sab_end b" using e by (simp add: unat_sab_end)
  define cand' where "cand' = sa_align_up (sab_addr b + sab_size b) al"
  have c': "sab_end b \<le> unat cand'" "unat al dvd unat cand'" "256 dvd unat cand'"
    using sa_align_up_spec [OF al, of "sab_addr b + sab_size b"] e ue by (auto simp: cand'_def)
  have res: "sa_range_fit r al hi n (b # bs) i cand = (c, j, found)" by (rule Cons.prems(9))
  consider (out) "sab_addr b \<ge> hi"
    | (skip) "\<not> sab_addr b \<ge> hi" "sab_addr b + sab_size b \<le> cand"
    | (fits) "\<not> sab_addr b \<ge> hi" "\<not> sab_addr b + sab_size b \<le> cand"
        "sab_addr b \<ge> cand" "sab_addr b - cand \<ge> r"
    | (step) "\<not> sab_addr b \<ge> hi" "\<not> sab_addr b + sab_size b \<le> cand"
        "\<not> (sab_addr b \<ge> cand \<and> sab_addr b - cand \<ge> r)"
    by blast
  then show ?case
  proof cases
    case out
    then have "c = cand" "j = i" "\<not> found" using res by auto
    with out up acc Cons.prems(7,8) show ?thesis
      by (intro exI [of _ 0])
         (auto simp: word_less_nat_alt word_le_nat_alt unat_minus_no_wrap)
  next
    case skip
    then have "sa_range_fit r al hi n bs (Suc i) cand = (c, j, found)" using res by simp
    then obtain m where "m \<le> length bs" "j = Suc i + m" "unat cand \<le> unat c" "256 dvd unat c"
      "unat al dvd unat c" "unat c + unat r \<le> unat hi"
      "\<forall>b\<in>set (take m bs). sab_end b \<le> unat c"
      "\<forall>b\<in>set (drop m bs). unat c + unat r \<le> unat (sab_addr b)"
      using Cons.IH [of "Suc i" cand] rok Cons.prems by auto
    moreover have "sab_end b \<le> unat cand" using skip(2) ue by (simp add: word_le_nat_alt)
    ultimately show ?thesis by (intro exI [of _ "Suc m"]) auto
  next
    case fits
    then have "c = cand" "j = i" "found" using res by auto
    moreover have "unat cand + unat r \<le> unat (sab_addr b)" "unat (sab_addr b) < unat hi"
      using fits by (auto simp: word_le_nat_alt unat_minus_no_wrap not_le)
    ultimately show ?thesis
      using up Cons.prems(7,8) by (intro exI [of _ 0]) auto
  next
    case step
    show ?thesis
    proof (cases "cand' < sab_addr b + sab_size b \<or> cand' \<ge> hi")
      case True
      then have "(c, j, found) = (cand', n, False)" using res step by (simp add: cand'_def)
      then have "c = cand'" "\<not> found" by simp_all
      moreover have "\<not> cand' < sab_addr b + sab_size b" using c' ue by (simp add: word_less_nat_alt)
      ultimately show ?thesis using acc True by auto
    next
      case False
      then have "sa_range_fit r al hi n bs (Suc i) cand' = (c, j, found)"
        using res step by (simp add: cand'_def)
      then obtain m where "m \<le> length bs" "j = Suc i + m" "unat cand' \<le> unat c" "256 dvd unat c"
        "unat al dvd unat c" "unat c + unat r \<le> unat hi"
        "\<forall>b\<in>set (take m bs). sab_end b \<le> unat c"
        "\<forall>b\<in>set (drop m bs). unat c + unat r \<le> unat (sab_addr b)"
        using Cons.IH [of "Suc i" cand'] rok Cons.prems c' by auto
      moreover have "unat cand \<le> sab_end b" using step(2) ue by (simp add: word_le_nat_alt)
      ultimately show ?thesis using c'(1) by (intro exI [of _ "Suc m"]) auto
    qed
  qed
qed

section \<open>Table insertion, lookup and removal\<close>

lemma sa_invD:
  assumes "sa_inv s"
  shows "sa_window_ok s" "regions_ok (map sab_region (sa_blocks s))"
    "\<And>b. b \<in> set (sa_blocks s) \<Longrightarrow> sa_block_in s b"
    "sa_count s \<le> 1024" "unat (sa_used s) = sum_list (map snd (sa_regions s))"
    "unat (sa_base s) \<le> unat (sa_end s)" "unat (sa_end s) \<le> 2147483648"
  using assms
  by (auto simp: sa_inv_def sa_regions_def sa_window_ok_def sa_model_defs word_le_nat_alt)

lemma sa_block_inD:
  assumes "sa_inv s" "b \<in> set (sa_blocks s)"
  shows "unat (sa_base s) \<le> unat (sab_addr b)" "sab_end b \<le> unat (sa_end s)"
    "256 dvd unat (sab_addr b)" "256 dvd sab_end b" "sab_end b \<le> 2147483648"
proof -
  note * = sa_invD(3) [OF assms(1,2)] sa_invD(7) [OF assms(1)]
  from * show "unat (sa_base s) \<le> unat (sab_addr b)" "sab_end b \<le> unat (sa_end s)"
    "256 dvd unat (sab_addr b)" "256 dvd sab_end b" "sab_end b \<le> 2147483648"
    by (auto simp: sa_block_in_def sab_end_def)
qed

lemma sa_insert_inv:
  assumes inv: "sa_inv s" and room: "sa_count s < SURFACE_ALLOCATOR_MAX_BLOCKS"
    and r: "256 dvd unat r" "0 < unat r" and c: "256 dvd unat c"
    and win: "unat (sa_base s) \<le> unat c" "unat c + unat r \<le> unat (sa_end s)"
    and left: "\<forall>b\<in>set (take i (sa_blocks s)). sab_end b \<le> unat c"
    and right: "\<forall>b\<in>set (drop i (sa_blocks s)). unat c + unat r \<le> unat (sab_addr b)"
  shows "sa_inv (sa_insert s i c r)"
proof -
  let ?b = "\<lparr>sab_addr = c, sab_size = r\<rparr>"
  have ok: "regions_ok (map sab_region (insert_at i ?b (sa_blocks s)))"
    unfolding map_insert_at
    using sa_invD(2) [OF inv] r(2) left right
    by (intro regions_ok_insert_at)
       (auto simp: take_map drop_map before_def sab_end_def)
  have ins: "\<forall>b\<in>set (insert_at i ?b (sa_blocks s)). sa_block_in s b"
    using sa_invD(3) [OF inv] r c win by (auto simp: set_insert_at sa_block_in_def)
  then have "sum_list (map snd (map sab_region (insert_at i ?b (sa_blocks s)))) \<le>
      unat (sa_end s) - unat (sa_base s)"
    using sa_invD(6) [OF inv]
    by (intro regions_total [OF ok]) (auto simp: sa_block_in_def sab_end_def)
  then have "unat r + unat (sa_used s) \<le> unat (sa_end s) - unat (sa_base s)"
    using sa_invD(5) [OF inv]
    by (simp add: sum_list_insert_at sa_regions_def comp_def)
  then have "unat (sa_used s) + unat r < 4294967296"
    using unat_lt32 [of "sa_end s"] by linarith
  then have used: "unat (sa_used s + r) = unat (sa_used s) + unat r"
    by (rule unat_plus_no_wrap)
  have "\<And>b. sa_block_in (sa_insert s i c r) b = sa_block_in s b"
    by (simp add: sa_block_in_def sa_insert_def)
  then show ?thesis
    using inv ok ins room used sa_invD(5) [OF inv]
    by (simp add: sa_inv_def sa_insert_def sa_regions_def sa_window_ok_def length_insert_at
        sum_list_insert_at comp_def)
qed

lemma sa_insert_regions:
  "set (sa_regions (sa_insert s i c r)) = insert (unat c, unat r) (set (sa_regions s))"
  by (simp add: sa_regions_def sa_insert_def set_insert_at sab_region_def)

text \<open>A region that fits between its neighbours was not in the table.\<close>

lemma sa_fresh:
  assumes "0 < unat r" "\<forall>b\<in>set (take i (sa_blocks s)). sab_end b \<le> unat c"
    and "\<forall>b\<in>set (drop i (sa_blocks s)). unat c + unat r \<le> unat (sab_addr b)"
  shows "\<forall>x\<in>set (sa_regions s). disjoint_regions (unat c, unat r) x"
    "(unat c, unat r) \<notin> set (sa_regions s)"
proof -
  have split: "set (sa_blocks s) = set (take i (sa_blocks s)) \<union> set (drop i (sa_blocks s))"
    by (metis append_take_drop_id set_append)
  then show "\<forall>x\<in>set (sa_regions s). disjoint_regions (unat c, unat r) x"
    using assms
    by (auto simp: sa_regions_def disjoint_regions_def before_def region_end_def sab_end_def)
  then show "(unat c, unat r) \<notin> set (sa_regions s)"
    using assms(1) by (auto simp: disjoint_regions_def before_def region_end_def)
qed

lemma sa_addr_mono:
  assumes "sa_inv s" "i < j" "j < sa_count s"
  shows "sab_addr (sa_blocks s ! i) < sab_addr (sa_blocks s ! j)"
  using regions_ok_addr_mono(2) [OF sa_invD(2) [OF assms(1)], of i j] assms(2,3)
  by (simp add: word_less_nat_alt)

lemma sa_addr_inj:
  assumes "sa_inv s" "i < sa_count s" "j < sa_count s"
    "sab_addr (sa_blocks s ! i) = sab_addr (sa_blocks s ! j)"
  shows "i = j"
  using sa_addr_mono [OF assms(1), of i j] sa_addr_mono [OF assms(1), of j i] assms(2-4)
  by (cases i j rule: linorder_cases) auto

text \<open>The binary search finds the one block at an address, or says there is none.\<close>

lemma sa_find_iff:
  assumes "sa_inv s"
  shows "sa_find s addr = Some i \<longleftrightarrow> i < sa_count s \<and> sab_addr (sa_blocks s ! i) = addr"
proof -
  let ?below = "\<lambda>m. sab_addr (sa_blocks s ! m) < addr"
  let ?k = "bsearch ?below 0 (sa_count s)"
  have mono: "?below i" if "i \<le> j" "j < sa_count s" "?below j" for i j
    using sa_addr_mono [OF assms, of i j] that by (cases "i = j") auto
  have part: "?k \<le> sa_count s" by (rule bsearch_spec(1)) (erule (2) mono)
  have low: "?below i" if "i < ?k" for i
    by (rule bsearch_spec(2) [OF _ that]) (erule (2) mono)
  have high: "\<not> ?below i" if "?k \<le> i" "i < sa_count s" for i
    by (rule bsearch_spec(3) [OF _ that]) (erule (2) mono)
  show ?thesis
  proof
    assume "sa_find s addr = Some i"
    then show "i < sa_count s \<and> sab_addr (sa_blocks s ! i) = addr"
      by (auto simp: sa_find_def Let_def split: if_splits)
  next
    assume i: "i < sa_count s \<and> sab_addr (sa_blocks s ! i) = addr"
    have "\<not> i < ?k" using low [of i] i by auto
    moreover have "\<not> ?k < i"
      using sa_addr_mono [OF assms, of ?k i] high [of ?k] i by auto
    ultimately have "?k = i" by simp
    with i show "sa_find s addr = Some i" by (simp add: sa_find_def Let_def)
  qed
qed

lemma sa_find_None:
  "sa_inv s \<Longrightarrow> sa_find s addr = None \<longleftrightarrow> (\<forall>b\<in>set (sa_blocks s). sab_addr b \<noteq> addr)"
  by (metis in_set_conv_nth not_None_eq sa_find_iff)

lemma sa_remove_inv:
  assumes inv: "sa_inv s" and i: "i < sa_count s"
  shows "sa_inv (s\<lparr>sa_used := sa_used s - sab_size (sa_blocks s ! i),
    sa_blocks := remove_at i (sa_blocks s)\<rparr>)"
proof -
  let ?f = "\<lambda>b. unat (sab_size b)"
  have sum: "sum_list (map ?f (sa_blocks s)) = unat (sa_used s)"
    using sa_invD(5) [OF inv] by (simp add: sa_regions_def comp_def)
  have "?f (sa_blocks s ! i) \<le> sum_list (map ?f (sa_blocks s))"
    using i by (intro member_le_sum_list) auto
  then have used: "unat (sa_used s - sab_size (sa_blocks s ! i)) =
      sum_list (map ?f (remove_at i (sa_blocks s)))"
    using i sum by (simp add: unat_minus_no_wrap sum_list_remove_at)
  have sub: "set (remove_at i (sa_blocks s)) \<subseteq> set (sa_blocks s)"
    by (auto simp: remove_at_def dest: in_set_takeD in_set_dropD)
  have len: "length (remove_at i (sa_blocks s)) \<le> 1024"
    using i sa_invD(4) [OF inv] by (simp add: length_remove_at)
  have ok: "regions_ok (map sab_region (remove_at i (sa_blocks s)))"
    unfolding map_remove_at by (rule regions_ok_remove_at [OF sa_invD(2) [OF inv]])
  show ?thesis
    using inv used sub len ok sa_invD(3) [OF inv]
    by (auto simp: sa_inv_def sa_regions_def sa_window_ok_def sa_block_in_def sa_model_defs comp_def)
qed

section \<open>What the operations guarantee\<close>

text \<open>One shape of result serves every allocation entry point.\<close>

definition sa_alloc_ok :: "sa_state \<Rightarrow> u32 \<Rightarrow> u32 \<Rightarrow> sa_state \<Rightarrow> bool" where
  "sa_alloc_ok s sz a s' \<longleftrightarrow> sa_inv s' \<and> (a = 0 \<longrightarrow> s' = s) \<and>
     (a \<noteq> 0 \<longrightarrow> (\<exists>n. unat sz \<le> n \<and> n < unat sz + 256 \<and> 0 < n \<and> 256 dvd unat a \<and>
        unat (sa_base s) \<le> unat a \<and> unat a + n \<le> unat (sa_end s) \<and>
        (\<forall>x\<in>set (sa_regions s). disjoint_regions (unat a, n) x) \<and>
        (unat a, n) \<notin> set (sa_regions s) \<and>
        set (sa_regions s') = insert (unat a, n) (set (sa_regions s))))"

lemma sa_alloc_ok_fail: "sa_inv s \<Longrightarrow> sa_alloc_ok s sz 0 s"
  by (simp add: sa_alloc_ok_def)

lemma sa_insert_ok:
  assumes inv: "sa_inv s" and room: "sa_count s < SURFACE_ALLOCATOR_MAX_BLOCKS"
    and sz: "sz \<noteq> 0" "\<not> sz > UINT32_MAX - (SURFACE_ALLOCATOR_ALIGNMENT - 1)"
    and c: "256 dvd unat c" "unat (sa_base s) \<le> unat c"
      "unat c + unat (sa_rounded sz) \<le> unat (sa_end s)"
    and left: "\<forall>b\<in>set (take i (sa_blocks s)). sab_end b \<le> unat c"
    and right: "\<forall>b\<in>set (drop i (sa_blocks s)). unat c + unat (sa_rounded sz) \<le> unat (sab_addr b)"
  shows "sa_alloc_ok s sz c (sa_insert s i c (sa_rounded sz))" "c \<noteq> 0"
proof -
  note r = sa_rounded_spec [OF sz]
  have "sa_inv (sa_insert s i c (sa_rounded sz))"
    by (rule sa_insert_inv [OF inv room r(3,4) c(1-3) left right])
  moreover show "c \<noteq> 0"
    using c(2,3) r(4) sa_invD(1) [OF inv] by (auto simp: sa_window_ok_def unsigned_eq_0_iff)
  ultimately show "sa_alloc_ok s sz c (sa_insert s i c (sa_rounded sz))"
    unfolding sa_alloc_ok_def
    using r c sa_fresh [OF r(4) left right] sa_insert_regions [of s i c "sa_rounded sz"]
    by (intro conjI impI exI [of _ "unat (sa_rounded sz)"]) auto
qed

lemma sa_alloc_aligned_cases:
  assumes inv: "sa_inv s" and nw: "\<not> sa_walk_wraps sz alignment s"
    and res: "surface_allocator_alloc_aligned sz alignment s = (a, s')"
  shows "sa_alloc_ok s sz a s'"
proof (cases "sz = 0 \<or> alignment = 0 \<or> alignment AND (alignment - 1) \<noteq> 0 \<or>
    sz > UINT32_MAX - (SURFACE_ALLOCATOR_ALIGNMENT - 1) \<or>
    sa_count s \<ge> SURFACE_ALLOCATOR_MAX_BLOCKS \<or> sa_rounded sz > sa_end s - sa_base s")
  case True
  then have "(a, s') = (0, s)"
    using res by (auto simp: surface_allocator_alloc_aligned_def Let_def split: if_splits)
  then show ?thesis using inv by (simp add: sa_alloc_ok_fail)
next
  case False
  define r where "r = sa_rounded sz"
  obtain c i where fit: "sa_first_fit r alignment (sa_blocks s) 0
      (sa_align_up (sa_base s) alignment) = (c, i)" by fastforce
  have pow: "alignment \<noteq> 0" "alignment AND (alignment - 1) = 0" using False by auto
  have base: "unat (sa_base s) \<le> unat (sa_align_up (sa_base s) alignment)"
    "256 dvd unat (sa_align_up (sa_base s) alignment)"
    using sa_align_up_spec(1,4) [OF pow, of "sa_base s"] sa_invD(1,6,7) [OF inv] by (auto simp: sa_window_ok_def)
  obtain m where m: "i = m" "m \<le> sa_count s" "unat (sa_base s) \<le> unat c" "256 dvd unat c"
    "\<forall>b\<in>set (take m (sa_blocks s)). sab_end b \<le> unat c"
    "\<forall>b\<in>set (drop m (sa_blocks s)). unat c + unat r \<le> unat (sab_addr b)"
    using sa_first_fit_fits [OF sa_invD(2) [OF inv] _ pow _ base(2) fit] base(1) nw
      sa_block_inD [OF inv] by (fastforce simp: sa_walk_wraps_def r_def)
  show ?thesis
  proof (cases "c < sa_base s \<or> c > sa_end s \<or> r > sa_end s - c")
    case bad: True
    then have "(a, s') = (0, s)" using res False fit
      by (auto simp: surface_allocator_alloc_aligned_def Let_def r_def)
    then show ?thesis using inv by (simp add: sa_alloc_ok_fail)
  next
    case ok: False
    then have "(a, s') = (c, sa_insert s i c r)" using res False fit
      by (auto simp: surface_allocator_alloc_aligned_def Let_def r_def)
    moreover have "unat c + unat r \<le> unat (sa_end s)"
      using ok by (auto simp: not_less word_le_nat_alt unat_minus_no_wrap)
    ultimately show ?thesis
      using sa_insert_ok(1) [OF inv, of sz c i] m False by (simp add: r_def not_le)
  qed
qed

lemma sa_walk_wraps_small:
  assumes "sa_inv s" "alignment \<noteq> 0" "alignment AND (alignment - 1) = 0" "unat alignment \<le> 256"
  shows "\<not> sa_walk_wraps sz alignment s"
proof -
  have "sa_align_up (sa_base s) alignment = sa_base s"
    using sa_invD(1,6,7) [OF assms(1)] by (intro sa_align_up_small [OF assms(2-4)]) (auto simp: sa_window_ok_def)
  then show ?thesis
    unfolding sa_walk_wraps_def using sa_invD(2) [OF assms(1)] sa_block_inD [OF assms(1)]
    by (intro sa_gap_wraps_small [OF _ _ _ assms(2-4)]) auto
qed

text \<open>Arguments the entry guard refuses have no walk.\<close>

lemma sa_alloc_aligned_guard:
  "\<not> (alignment \<noteq> 0 \<and> alignment AND (alignment - 1) = 0) \<Longrightarrow> surface_allocator_alloc_aligned sz alignment s = (0, s)"
  by (auto simp: surface_allocator_alloc_aligned_def)

lemma sa_alloc_small_cases:
  assumes "sa_inv s" "unat alignment \<le> 256" "surface_allocator_alloc_aligned sz alignment s = (a, s')"
  shows "sa_alloc_ok s sz a s'"
proof (cases "alignment \<noteq> 0 \<and> alignment AND (alignment - 1) = 0")
  case True
  then show ?thesis using sa_alloc_aligned_cases [OF assms(1) _ assms(3)] sa_walk_wraps_small [OF assms(1) _ _ assms(2)] by blast
next
  case False
  then show ?thesis using sa_alloc_aligned_guard [OF False, of sz s] assms(1,3) by (simp add: sa_alloc_ok_fail)
qed

text \<open>
  every P96 and SDK allocation of at most 256-byte alignment either fails and
  changes nothing, or returns a 256-aligned block of the rounded size inside the
  heap window, disjoint from every live block, and records exactly that block;
  the table invariant is kept.
\<close>

theorem surface_alloc_spec:
  assumes "sa_inv s" "unat alignment \<le> 256"
    and "surface_allocator_alloc_aligned sz alignment s = (a, s')"
  shows "sa_inv s' \<and> (a = 0 \<longrightarrow> s' = s) \<and>
    (a \<noteq> 0 \<longrightarrow> (\<exists>n. unat sz \<le> n \<and> n < unat sz + 256 \<and> 256 dvd unat a \<and>
       unat (sa_base s) \<le> unat a \<and> unat a + n \<le> unat (sa_end s) \<and>
       (\<forall>x\<in>set (sa_regions s). disjoint_regions (unat a, n) x) \<and>
       set (sa_regions s') = insert (unat a, n) (set (sa_regions s))))"
  using sa_alloc_small_cases [OF assms] by (auto simp: sa_alloc_ok_def)

text \<open>
  the search is first fit. Whenever any address of the window has room for the
  rounded request between the live blocks and the table is not full, the
  allocation succeeds, at an address no higher than that one.
\<close>

theorem surface_alloc_first_fit:
  assumes inv: "sa_inv s" and al: "alignment \<noteq> 0" "alignment AND (alignment - 1) = 0"
      "unat alignment \<le> 256"
    and sz: "sz \<noteq> 0" "\<not> sz > UINT32_MAX - 255" and room: "sa_count s < 1024"
    and x: "unat (sa_base s) \<le> x" "x + unat (sa_rounded sz) \<le> unat (sa_end s)"
    and free: "\<forall>y\<in>set (sa_regions s). disjoint_regions (x, unat (sa_rounded sz)) y"
  shows "fst (surface_allocator_alloc_aligned sz alignment s) \<noteq> 0 \<and>
    unat (fst (surface_allocator_alloc_aligned sz alignment s)) \<le> x"
proof -
  define r where "r = sa_rounded sz"
  have sz': "\<not> sz > UINT32_MAX - (SURFACE_ALLOCATOR_ALIGNMENT - 1)"
    using sz(2) by (simp add: sa_model_defs)
  obtain c i where fit: "sa_first_fit r alignment (sa_blocks s) 0
      (sa_align_up (sa_base s) alignment) = (c, i)" by fastforce
  have base: "sa_align_up (sa_base s) alignment = sa_base s"
    using sa_invD(1,6,7) [OF inv] by (intro sa_align_up_small [OF al]) (auto simp: sa_window_ok_def)
  obtain m where m: "i = m" "unat (sa_base s) \<le> unat c"
    and gap: "\<And>x. unat (sa_base s) \<le> x \<Longrightarrow> x < unat c \<Longrightarrow>
      \<exists>b\<in>set (sa_blocks s). unat (sab_addr b) < x + unat r \<and> x < sab_end b"
    using sa_first_fit_spec [OF sa_invD(2) [OF inv] _ _ al _ fit [unfolded base]]
      sa_block_inD [OF inv] sa_invD(1) [OF inv] by (auto simp: sa_window_ok_def)
  have cx: "unat c \<le> x"
  proof (rule ccontr)
    assume "\<not> unat c \<le> x"
    with gap [OF x(1)] obtain b where "b \<in> set (sa_blocks s)"
      "unat (sab_addr b) < x + unat r" "x < sab_end b" by auto
    with free show False
      by (auto simp: sa_regions_def disjoint_regions_def before_def region_end_def r_def sab_end_def)
  qed
  have "\<not> (c < sa_base s \<or> c > sa_end s \<or> r > sa_end s - c)"
    and "\<not> r > sa_end s - sa_base s"
    using cx x m(2) sa_invD(6) [OF inv]
    by (auto simp: word_less_nat_alt unat_minus_no_wrap r_def)
  then have "fst (surface_allocator_alloc_aligned sz alignment s) = c"
    using fit al sz' room sz(1)
    by (simp add: surface_allocator_alloc_aligned_def Let_def r_def sa_model_defs)
  moreover have "c \<noteq> 0"
    using m(2) x sa_rounded_spec(4) [OF sz(1) sz'] sa_invD(1) [OF inv]
    by (auto simp: sa_window_ok_def unsigned_eq_0_iff)
  ultimately show ?thesis using cx by simp
qed

lemma sa_alloc_range_cases:
  assumes inv: "sa_inv s" and lo: "256 dvd unat lo \<or> 256 dvd unat alignment"
    and res: "surface_allocator_alloc_range sz alignment lo hi s = (a, s')"
  shows "sa_alloc_ok s sz a s' \<and>
    (a \<noteq> 0 \<longrightarrow> unat lo \<le> unat a \<and> unat a + unat sz \<le> unat hi \<and> unat alignment dvd unat a)"
proof (cases "sz = 0 \<or> alignment = 0 \<or> alignment AND (alignment - 1) \<noteq> 0 \<or> lo \<ge> hi \<or>
    sz > UINT32_MAX - (SURFACE_ALLOCATOR_ALIGNMENT - 1) \<or>
    sa_count s \<ge> SURFACE_ALLOCATOR_MAX_BLOCKS \<or> lo < sa_base s \<or> hi > sa_end s \<or>
    sa_rounded sz > hi - lo")
  case True
  then have "(a, s') = (0, s)"
    using res by (auto simp: surface_allocator_alloc_range_def Let_def split: if_splits)
  then show ?thesis using inv by (simp add: sa_alloc_ok_fail)
next
  case False
  define r where "r = sa_rounded sz"
  obtain c i found where fit: "sa_range_fit r alignment hi (sa_count s) (sa_blocks s) 0
      (sa_align_up lo alignment) = (c, i, found)" using prod_cases3 by blast
  have pow: "alignment \<noteq> 0" "alignment AND (alignment - 1) = 0" using False by auto
  have hi: "unat hi \<le> unat (sa_end s)" "unat (sa_base s) \<le> unat lo" "unat lo \<le> unat hi"
    using False by (auto simp: not_le not_less word_le_nat_alt word_less_nat_alt)
  then have small: "unat hi \<le> 2147483648" "unat lo \<le> 2147483648"
    using sa_invD(7) [OF inv] by auto
  note up = sa_align_up_spec [OF pow small(2)]
  have lo256: "256 dvd unat (sa_align_up lo alignment)" using lo up(2,4) by (auto intro: dvd_trans)
  show ?thesis
  proof (cases "\<not> found \<and> (c < lo \<or> c \<ge> hi \<or> hi - c < r)")
    case bad: True
    then have "(a, s') = (0, s)" using res False fit
      by (auto simp: surface_allocator_alloc_range_def Let_def r_def)
    then show ?thesis using inv by (simp add: sa_alloc_ok_fail)
  next
    case ok: False
    then have eq: "(a, s') = (c, sa_insert s i c r)" using res False fit
      by (auto simp: surface_allocator_alloc_range_def Let_def r_def)
    have "found \<or> c < hi \<and> r \<le> hi - c" using ok by auto
    then obtain m where m: "i = m" "unat (sa_align_up lo alignment) \<le> unat c" "256 dvd unat c"
      "unat alignment dvd unat c" "unat c + unat r \<le> unat hi"
      "\<forall>b\<in>set (take m (sa_blocks s)). sab_end b \<le> unat c"
      "\<forall>b\<in>set (drop m (sa_blocks s)). unat c + unat r \<le> unat (sab_addr b)"
      using sa_range_fit_spec [OF sa_invD(2) [OF inv] _ pow small(1) _ _ _ fit]
        sa_block_inD [OF inv] up lo256 by auto
    have "sa_alloc_ok s sz a s'"
      using sa_insert_ok(1) [OF inv, of sz c i] m False up(1) hi eq by (simp add: r_def not_le)
    moreover have "unat sz \<le> unat r"
      using sa_rounded_spec(1) [of sz] False by (simp add: r_def)
    ultimately show ?thesis using m up(1) eq by simp
  qed
qed

text \<open>
  a windowed allocation, at any power-of-two alignment, either fails and changes
  nothing, or returns a block inside the requested window, at the requested
  alignment and disjoint from every live block; the invariant is kept.
\<close>

theorem surface_alloc_range_spec:
  assumes "sa_inv s" "256 dvd unat lo"
    and "surface_allocator_alloc_range sz alignment lo hi s = (a, s')"
  shows "sa_inv s' \<and> (a = 0 \<longrightarrow> s' = s) \<and>
    (a \<noteq> 0 \<longrightarrow> unat alignment dvd unat a \<and> unat lo \<le> unat a \<and> unat a + unat sz \<le> unat hi \<and>
      (\<exists>n\<ge>unat sz. (\<forall>x\<in>set (sa_regions s). disjoint_regions (unat a, n) x) \<and>
         set (sa_regions s') = insert (unat a, n) (set (sa_regions s))))"
  using sa_alloc_range_cases [OF assms(1) _ assms(3)] assms(2) by (auto simp: sa_alloc_ok_def)

lemma sa_scan_below_spec:
  "sa_scan_below address bs \<le> length bs"
  "\<forall>b\<in>set (take (sa_scan_below address bs) bs). sab_addr b < address"
  "sa_scan_below address bs < length bs \<Longrightarrow> \<not> sab_addr (bs ! sa_scan_below address bs) < address"
  by (induction bs) auto

text \<open>
  The neighbour tests of \<^verbatim>\<open>surface_allocator_reserve\<close> at the scan index say
  exactly that the range meets no live block.
\<close>

lemma sa_reserve_neighbours:
  assumes inv: "sa_inv s" and i: "i = sa_scan_below a (sa_blocks s)"
    and r: "0 < unat r" "unat a + unat r \<le> 2147483648"
  shows "(\<not> ((i \<noteq> 0 \<and> sab_addr (sa_blocks s ! (i - 1)) + sab_size (sa_blocks s ! (i - 1)) > a) \<or>
      (i < sa_count s \<and> a + r > sab_addr (sa_blocks s ! i)))) \<longleftrightarrow>
    (\<forall>b\<in>set (take i (sa_blocks s)). sab_end b \<le> unat a) \<and>
    (\<forall>b\<in>set (drop i (sa_blocks s)). unat a + unat r \<le> unat (sab_addr b))"
proof -
  let ?bs = "sa_blocks s"
  have le: "i \<le> length ?bs" using sa_scan_below_spec(1) i by simp
  have ends: "sab_end (?bs ! j) \<le> unat (sab_addr (?bs ! k))" if "j < k" "k < length ?bs" for j k
    using regions_ok_addr_mono(1) [OF sa_invD(2) [OF inv], of j k] that by simp
  have grow: "unat (sab_addr b) \<le> sab_end b" for b by (simp add: sab_end_def)
  have ue: "unat (sab_addr b + sab_size b) = sab_end b" if "b \<in> set ?bs" for b
    using sa_block_inD(5) [OF inv that] by (rule unat_sab_end)
  have ua: "unat (a + r) = unat a + unat r" using r(2) by (simp add: unat_plus_no_wrap)
  have "(\<forall>b\<in>set (take i ?bs). sab_end b \<le> unat a) \<longleftrightarrow>
      (i \<noteq> 0 \<longrightarrow> sab_end (?bs ! (i - 1)) \<le> unat a)"
  proof (cases "i = 0")
    case False
    have "sab_end (?bs ! j) \<le> unat a" if "sab_end (?bs ! (i - 1)) \<le> unat a" "j < i" for j
    proof (cases "j = i - 1")
      case False
      with that le have "sab_end (?bs ! j) \<le> unat (sab_addr (?bs ! (i - 1)))"
        by (intro ends) auto
      with that(1) grow [of "?bs ! (i - 1)"] show ?thesis by linarith
    qed (use that in simp)
    moreover have "?bs ! (i - 1) \<in> set (take i ?bs)"
      using False le by (auto simp: in_set_conv_nth intro!: exI [of _ "i - 1"])
    ultimately show ?thesis using False le by (force simp: in_set_conv_nth)
  qed simp
  moreover have "(\<forall>b\<in>set (drop i ?bs). unat a + unat r \<le> unat (sab_addr b)) \<longleftrightarrow>
      (i < length ?bs \<longrightarrow> unat a + unat r \<le> unat (sab_addr (?bs ! i)))"
  proof (cases "i < length ?bs")
    case True
    have tail: "unat a + unat r \<le> unat (sab_addr (?bs ! (i + j)))"
      if "unat a + unat r \<le> unat (sab_addr (?bs ! i))" "i + j < length ?bs" for j
      using that ends [of i "i + j"] grow [of "?bs ! i"] by (cases "j = 0") auto
    have "unat a + unat r \<le> unat (sab_addr b)"
      if "unat a + unat r \<le> unat (sab_addr (?bs ! i))" "b \<in> set (drop i ?bs)" for b
    proof -
      from that(2) obtain j where "j < length (drop i ?bs)" "b = drop i ?bs ! j"
        by (metis in_set_conv_nth)
      then show ?thesis using tail [of j] that(1) by auto
    qed
    moreover have "?bs ! i \<in> set (drop i ?bs)"
      using True by (metis Cons_nth_drop_Suc list.set_intros(1))
    ultimately show ?thesis using True by blast
  qed simp
  moreover have "i \<noteq> 0 \<and> sab_addr (?bs ! (i - 1)) + sab_size (?bs ! (i - 1)) > a \<longleftrightarrow>
      \<not> (i \<noteq> 0 \<longrightarrow> sab_end (?bs ! (i - 1)) \<le> unat a)"
    using ue [of "?bs ! (i - 1)"] le by (auto simp: word_less_nat_alt)
  moreover have "i < sa_count s \<and> a + r > sab_addr (?bs ! i) \<longleftrightarrow>
      \<not> (i < sa_count s \<longrightarrow> unat a + unat r \<le> unat (sab_addr (?bs ! i)))"
    using ua by (auto simp: word_less_nat_alt)
  ultimately show ?thesis by argo
qed

text \<open>Around the scan index, fitting between the neighbours is disjointness.\<close>

lemma sa_scan_disjoint:
  assumes inv: "sa_inv s" and i: "i = sa_scan_below a (sa_blocks s)" and r: "0 < unat r"
  shows "(\<forall>x\<in>set (sa_regions s). disjoint_regions (unat a, unat r) x) \<longleftrightarrow>
    (\<forall>b\<in>set (take i (sa_blocks s)). sab_end b \<le> unat a) \<and>
    (\<forall>b\<in>set (drop i (sa_blocks s)). unat a + unat r \<le> unat (sab_addr b))"
    (is "?disj \<longleftrightarrow> ?fit")
proof
  assume ?disj
  then have d: "unat a + unat r \<le> unat (sab_addr b) \<or> sab_end b \<le> unat a"
    if "b \<in> set (sa_blocks s)" for b
    using that by (auto simp: sa_regions_def disjoint_regions_def before_def region_end_def sab_end_def)
  have "sab_end b \<le> unat a" if "b \<in> set (take i (sa_blocks s))" for b
    using d [OF in_set_takeD [OF that]] sa_scan_below_spec(2) [of a "sa_blocks s"] that i
    by (force simp: word_less_nat_alt)
  moreover have "unat a + unat r \<le> unat (sab_addr b)" if b: "b \<in> set (drop i (sa_blocks s))" for b
  proof -
    obtain j where "j < length (drop i (sa_blocks s))" "b = drop i (sa_blocks s) ! j"
      using b by (metis in_set_conv_nth)
    then have "i + j < sa_count s" "b = sa_blocks s ! (i + j)" by auto
    then obtain k where k: "i \<le> k" "k < sa_count s" "b = sa_blocks s ! k" by (metis le_add1)
    have "\<not> sab_addr (sa_blocks s ! i) < a"
      using sa_scan_below_spec(3) [of a "sa_blocks s"] k i by simp
    moreover have "sab_addr (sa_blocks s ! i) \<le> b_addr" if "b_addr = sab_addr b" for b_addr
      using sa_addr_mono [OF inv, of i k] k that by (cases "i = k") auto
    ultimately have "unat a \<le> unat (sab_addr b)" by (force simp: word_le_nat_alt word_less_nat_alt)
    moreover have "0 < unat (sab_size b)"
      using sa_invD(2) [OF inv] k by (simp add: regions_ok_def)
    ultimately show ?thesis using d [of b] k by (auto simp: sab_end_def)
  qed
  ultimately show ?fit by blast
next
  assume ?fit
  then show ?disj using sa_fresh(1) [OF r] by blast
qed

lemma mod256_word: "a AND 255 = (0::u32) \<longleftrightarrow> 256 dvd unat a"
proof -
  have "unat (a AND mask 8) = unat a mod 256" by (simp add: unat_and_mask)
  moreover have "(255 :: u32) = mask 8" by (simp add: mask_eq_exp_minus_1)
  ultimately show ?thesis by (metis dvd_eq_mod_eq_0 unsigned_eq_0_iff)
qed

text \<open>
  a reservation succeeds exactly when the request is well formed, the table has
  room, the rounded range lies in the window and meets no live block; then
  exactly that range is recorded. Otherwise it returns -1 and changes nothing.
\<close>

theorem surface_reserve_spec:
  assumes inv: "sa_inv s" and res: "surface_allocator_reserve address sz s = (ret, s')"
  shows "sa_inv s' \<and>
    (ret = 0 \<longleftrightarrow> sz \<noteq> 0 \<and> \<not> sz > UINT32_MAX - 255 \<and> address AND 255 = 0 \<and> sa_count s < 1024 \<and>
       sa_base s \<le> address \<and> unat address + unat (sa_rounded sz) \<le> unat (sa_end s) \<and>
       (\<forall>x\<in>set (sa_regions s). disjoint_regions (unat address, unat (sa_rounded sz)) x)) \<and>
    (ret = 0 \<longrightarrow> set (sa_regions s') =
       insert (unat address, unat (sa_rounded sz)) (set (sa_regions s))) \<and>
    (ret \<noteq> 0 \<longrightarrow> ret = -1 \<and> s' = s)"
proof (cases "sz = 0 \<or> address AND (SURFACE_ALLOCATOR_ALIGNMENT - 1) \<noteq> 0 \<or>
    sz > UINT32_MAX - (SURFACE_ALLOCATOR_ALIGNMENT - 1) \<or>
    sa_count s \<ge> SURFACE_ALLOCATOR_MAX_BLOCKS \<or> address < sa_base s \<or> address > sa_end s \<or>
    sa_rounded sz > sa_end s - address")
  case True
  then have "(ret, s') = (-1, s)"
    using res by (auto simp: surface_allocator_reserve_def Let_def split: if_splits)
  moreover have "\<not> (unat address + unat (sa_rounded sz) \<le> unat (sa_end s))"
    if "sa_rounded sz > sa_end s - address" "\<not> address > sa_end s"
    using that by (simp add: word_less_nat_alt not_less unat_minus_no_wrap)
  ultimately show ?thesis
    using True inv by (auto simp: sa_model_defs word_less_nat_alt not_less word_le_nat_alt)
next
  case False
  define r where "r = sa_rounded sz"
  define i where "i = sa_scan_below address (sa_blocks s)"
  have fit: "unat address + unat r \<le> unat (sa_end s)"
    using False by (auto simp: not_less word_le_nat_alt unat_minus_no_wrap r_def)
  have small: "unat address + unat r \<le> 2147483648" using fit sa_invD(7) [OF inv] by simp
  note rs = sa_rounded_spec [of sz, folded r_def]
  have r0: "0 < unat r" using rs(4) False by blast
  define P where "P \<longleftrightarrow> (\<forall>b\<in>set (take i (sa_blocks s)). sab_end b \<le> unat address) \<and>
    (\<forall>b\<in>set (drop i (sa_blocks s)). unat address + unat r \<le> unat (sab_addr b))"
  have dec: "(ret, s') = (if P then (0, sa_insert s i address r) else (-1, s))"
    using res False sa_reserve_neighbours [OF inv i_def r0 small]
    by (auto simp: surface_allocator_reserve_def Let_def r_def i_def [symmetric] P_def split: if_splits)
  have disj: "P \<longleftrightarrow> (\<forall>x\<in>set (sa_regions s). disjoint_regions (unat address, unat r) x)"
    unfolding P_def using sa_scan_disjoint [OF inv i_def r0] by simp
  have "P \<Longrightarrow> sa_inv (sa_insert s i address r)"
    using False r0 rs(3) fit
    by (intro sa_insert_inv [OF inv])
       (auto simp: P_def not_le not_less word_le_nat_alt sa_model_defs mod256_word)
  then show ?thesis
    using dec disj inv fit False
    by (auto simp: r_def [symmetric] sa_insert_regions sa_model_defs not_less not_le split: if_splits)
qed

lemma sa_free_cases:
  assumes "sa_inv s"
  shows "(\<exists>i < sa_count s. sab_addr (sa_blocks s ! i) = addr \<and>
      surface_allocator_free addr s =
        (0, s\<lparr>sa_used := sa_used s - sab_size (sa_blocks s ! i),
              sa_blocks := remove_at i (sa_blocks s)\<rparr>)) \<or>
    ((\<forall>b\<in>set (sa_blocks s). sab_addr b \<noteq> addr) \<and> surface_allocator_free addr s = (-1, s))"
proof (cases "sa_find s addr")
  case None
  then show ?thesis
    using sa_find_None [OF assms, of addr] by (simp add: surface_allocator_free_def)
next
  case (Some i)
  then have "i < sa_count s" "sab_addr (sa_blocks s ! i) = addr"
    using sa_find_iff [OF assms, of addr i] by auto
  with Some show ?thesis
    by (intro disjI1 exI [of _ i]) (simp add: surface_allocator_free_def)
qed

lemma sa_regions_update:
  "set (sa_regions (s\<lparr>sa_used := u, sa_blocks := bs\<rparr>)) = sab_region ` set bs"
  by (simp add: sa_regions_def)

lemma sa_remove_regions:
  assumes inv: "sa_inv s" and i: "i < sa_count s"
  shows "sab_region ` set (remove_at i (sa_blocks s)) =
    {x \<in> set (sa_regions s). fst x \<noteq> unat (sab_addr (sa_blocks s ! i))}"
  using set_remove_at_regions [OF sa_invD(2) [OF inv], of i] i
  by (simp add: sa_regions_def map_remove_at [symmetric])

text \<open>
  Freeing an address gives back exactly the block that starts there; for any
  other address (a double free, a pointer into a block) it returns -1 and
  changes nothing. The invariant is kept.
\<close>

lemma surface_free_spec:
  assumes "sa_inv s" "surface_allocator_free addr s = (ret, s')"
  shows "sa_inv s' \<and>
    (ret = 0 \<longleftrightarrow> unat addr \<in> fst ` set (sa_regions s)) \<and> (ret \<noteq> 0 \<longrightarrow> ret = -1 \<and> s' = s) \<and>
    set (sa_regions s') = {x \<in> set (sa_regions s). fst x \<noteq> unat addr}"
  using sa_free_cases [OF assms(1), of addr]
proof (elim disjE exE conjE)
  fix i
  assume i: "i < sa_count s" "sab_addr (sa_blocks s ! i) = addr"
    and f: "surface_allocator_free addr s = (0, s\<lparr>sa_used := sa_used s - sab_size (sa_blocks s ! i),
      sa_blocks := remove_at i (sa_blocks s)\<rparr>)"
  have "unat addr \<in> fst ` set (sa_regions s)"
    using i by (force simp: sa_regions_def)
  then show ?thesis
    using sa_remove_inv [OF assms(1) i(1)] sa_remove_regions [OF assms(1) i(1)] f assms(2) i(2)
    by (auto simp: sa_regions_def)
next
  assume none: "\<forall>b\<in>set (sa_blocks s). sab_addr b \<noteq> addr" "surface_allocator_free addr s = (-1, s)"
  have "\<forall>x\<in>set (sa_regions s). fst x \<noteq> unat addr"
    using none(1) by (auto simp: sa_regions_def word_unat_eq_iff)
  then show ?thesis using none(2) assms by (auto simp: image_iff)
qed

text \<open>giving back what a P96 allocation returned restores the allocator state exactly.\<close>

theorem surface_alloc_free_roundtrip:
  assumes inv: "sa_inv s" and res: "surface_allocator_alloc sz s = (a, s')" "a \<noteq> 0"
  shows "surface_allocator_free a s' = (0, s)"
proof -
  have res': "surface_allocator_alloc_aligned sz 256 s = (a, s')"
    using res by (simp add: surface_allocator_alloc_def sa_model_defs)
  then obtain i where s': "s' = sa_insert s i a (sa_rounded sz)"
    using res(2) by (auto simp: surface_allocator_alloc_aligned_def Let_def split: if_splits prod.splits)
  have inv': "sa_inv s'"
    using sa_alloc_small_cases [OF inv _ res'] by (simp add: sa_alloc_ok_def)
  define j where "j = min i (sa_count s)"
  have s'': "s' = sa_insert s j a (sa_rounded sz)"
    by (simp add: s' j_def sa_insert_def insert_at_def min_def)
  have j: "j < sa_count s'" "sa_blocks s' ! j = \<lparr>sab_addr = a, sab_size = sa_rounded sz\<rparr>"
    using s'' by (simp_all add: sa_insert_def length_insert_at nth_insert_at j_def)
  then have "sa_find s' a = Some j" using sa_find_iff [OF inv'] by simp
  then show ?thesis
    using j s'' by (simp add: surface_allocator_free_def sa_insert_def remove_at_insert_at j_def)
qed

lemma sa_region_mem:
  assumes "sa_inv s"
  shows "(unat addr, n) \<in> set (sa_regions s) \<longleftrightarrow>
    (\<exists>i. sa_find s addr = Some i \<and> unat (sab_size (sa_blocks s ! i)) = n)"
proof -
  have "(unat addr, n) \<in> set (sa_regions s) \<longleftrightarrow>
      (\<exists>b\<in>set (sa_blocks s). sab_addr b = addr \<and> unat (sab_size b) = n)"
    by (auto simp: sa_regions_def sab_region_def word_unat_eq_iff intro: rev_image_eqI)
  also have "\<dots> \<longleftrightarrow> (\<exists>i < sa_count s. sab_addr (sa_blocks s ! i) = addr \<and>
      unat (sab_size (sa_blocks s ! i)) = n)"
    by (metis in_set_conv_nth)
  finally show ?thesis using sa_find_iff [OF assms, of addr] by auto
qed

text \<open>
  The ownership queries are exact: \<open>owns\<close> holds exactly for the start of a live
  block at least as long as the range, \<open>block_size\<close> is the rounded size of the
  block that starts at the address and 0 when none does.
\<close>

lemma surface_queries_spec:
  assumes inv: "sa_inv s"
  shows "(surface_allocator_owns addr len s \<longleftrightarrow>
      len \<noteq> 0 \<and> (\<exists>n. (unat addr, n) \<in> set (sa_regions s) \<and> unat len \<le> n)) \<and>
    ((unat addr, unat (surface_allocator_block_size addr s)) \<in> set (sa_regions s) \<or>
      surface_allocator_block_size addr s = 0 \<and> unat addr \<notin> fst ` set (sa_regions s))"
proof (cases "sa_find s addr")
  case None
  then have "\<forall>n. (unat addr, n) \<notin> set (sa_regions s)"
    using sa_region_mem [OF inv] by simp
  then show ?thesis
    using None by (auto simp: surface_allocator_owns_def surface_allocator_block_size_def)
next
  case (Some i)
  then have "\<forall>n. (unat addr, n) \<in> set (sa_regions s) \<longleftrightarrow> n = unat (sab_size (sa_blocks s ! i))"
    using sa_region_mem [OF inv] by auto
  then show ?thesis
    using Some by (simp add: surface_allocator_owns_def surface_allocator_block_size_def word_le_nat_alt)
qed

text \<open>
  The gap walk keeps the largest gap before each block: no free range below the
  last block is longer, and the value reported is the size of a real gap.
\<close>

lemma sa_gap_walk_spec:
  assumes "regions_ok (map sab_region bs)" "\<forall>b\<in>set bs. sab_end b \<le> 2147483648"
    and "\<forall>b\<in>set bs. unat cand \<le> unat (sab_addr b)"
    and "sa_gap_walk bs largest cand = (lg, c)"
  shows "unat largest \<le> unat lg \<and> unat cand \<le> unat c \<and> (\<forall>b\<in>set bs. sab_end b \<le> unat c) \<and>
    (unat c \<le> unat cand \<or> (\<exists>b\<in>set bs. sab_end b = unat c)) \<and>
    (\<forall>x n. unat cand \<le> x \<longrightarrow> 0 < n \<longrightarrow> x < unat c \<longrightarrow>
      (\<forall>b\<in>set bs. x + n \<le> unat (sab_addr b) \<or> sab_end b \<le> x) \<longrightarrow> n \<le> unat lg) \<and>
    (lg = largest \<or> (\<exists>x\<ge>unat cand. x + unat lg \<le> unat c \<and>
      (\<forall>b\<in>set bs. x + unat lg \<le> unat (sab_addr b) \<or> sab_end b \<le> x)))"
  using assms
proof (induction bs arbitrary: largest cand)
  case Nil
  then show ?case by auto
next
  case (Cons b bs)
  define gap where "gap = sab_addr b - cand"
  define l' where "l' = (if gap > largest then gap else largest)"
  have le: "unat cand \<le> unat (sab_addr b)" and rok: "regions_ok (map sab_region bs)"
    and above: "\<forall>b'\<in>set bs. sab_end b \<le> unat (sab_addr b')" and size: "unat (sab_addr b) < sab_end b"
    using Cons.prems(1,3) by (auto simp: regions_ok_Cons before_sab sab_end_def)
  have ue: "unat (sab_addr b + sab_size b) = sab_end b" using Cons.prems(2) by (simp add: unat_sab_end)
  have g: "unat gap = unat (sab_addr b) - unat cand" using le by (simp add: gap_def unat_minus_no_wrap)
  have l: "unat largest \<le> unat l'" "unat gap \<le> unat l'" "l' = largest \<or> l' = gap"
    by (auto simp: l'_def word_less_nat_alt)
  have up: "unat (sab_addr b) \<le> unat (sab_addr b')" "sab_end b \<le> sab_end b'" if "b' \<in> set bs" for b'
    using above that size by (force simp: sab_end_def)+
  have walk: "sa_gap_walk bs l' (sab_addr b + sab_size b) = (lg, c)"
    using Cons.prems(4) by (simp add: gap_def l'_def Let_def split: if_splits)
  note IH = Cons.IH [OF rok _ _ walk, unfolded ue]
  have ih: "unat l' \<le> unat lg" "sab_end b \<le> unat c" "\<forall>b\<in>set bs. sab_end b \<le> unat c"
    "unat c \<le> sab_end b \<or> (\<exists>b\<in>set bs. sab_end b = unat c)"
    "\<And>x n. sab_end b \<le> x \<Longrightarrow> 0 < n \<Longrightarrow> x < unat c \<Longrightarrow>
      (\<forall>b\<in>set bs. x + n \<le> unat (sab_addr b) \<or> sab_end b \<le> x) \<Longrightarrow> n \<le> unat lg"
    "lg = l' \<or> (\<exists>x\<ge>sab_end b. x + unat lg \<le> unat c \<and>
      (\<forall>b\<in>set bs. x + unat lg \<le> unat (sab_addr b) \<or> sab_end b \<le> x))"
    using IH Cons.prems(2) above by auto
  have "n \<le> unat lg" if "unat cand \<le> x" "0 < n" "x < unat c"
    "\<forall>b\<in>set (b # bs). x + n \<le> unat (sab_addr b) \<or> sab_end b \<le> x" for x n
    using that ih(1) ih(5) [of x n] g l(2) by (cases "sab_end b \<le> x") auto
  moreover have "lg = largest \<or> (\<exists>x\<ge>unat cand. x + unat lg \<le> unat c \<and>
      (\<forall>b\<in>set (b # bs). x + unat lg \<le> unat (sab_addr b) \<or> sab_end b \<le> x))"
  proof (cases "lg = l'")
    case True
    with l(3) show ?thesis using le g up size ih(2)
      by (elim disjE) (auto intro!: exI [of _ "unat cand"])
  next
    case False
    then show ?thesis using ih(6) le size by force
  qed
  ultimately show ?case using ih(1-4) l(1) le size by auto
qed

text \<open>
  the free-space report is exact. The total is the window less the live bytes;
  every free range of the window is at most \<open>largest_free\<close> bytes, and when it is
  not 0 some free range is exactly that long.
\<close>

theorem surface_free_stats_spec:
  assumes inv: "sa_inv s" and stats: "surface_allocator_free_stats s = (free_total, largest_free)"
  shows "unat free_total + sum_list (map snd (sa_regions s)) = unat (sa_end s) - unat (sa_base s) \<and>
    (\<forall>x n. unat (sa_base s) \<le> x \<longrightarrow> 0 < n \<longrightarrow> x + n \<le> unat (sa_end s) \<longrightarrow>
       (\<forall>y\<in>set (sa_regions s). disjoint_regions (x, n) y) \<longrightarrow> n \<le> unat largest_free) \<and>
    (\<exists>x\<ge>unat (sa_base s). x + unat largest_free \<le> unat (sa_end s) \<and>
       (\<forall>y\<in>set (sa_regions s). disjoint_regions (x, unat largest_free) y))"
proof -
  obtain lg c where walk: "sa_gap_walk (sa_blocks s) 0 (sa_base s) = (lg, c)" by fastforce
  have disj: "(\<forall>y\<in>set (sa_regions s). disjoint_regions (x, n) y) \<longleftrightarrow>
      (\<forall>b\<in>set (sa_blocks s). x + n \<le> unat (sab_addr b) \<or> sab_end b \<le> x)" for x n
    by (auto simp: sa_regions_def disjoint_regions_def before_def region_end_def sab_end_def)
  note G = sa_gap_walk_spec [OF sa_invD(2) [OF inv] _ _ walk]
  have w: "unat (sa_base s) \<le> unat c" "\<forall>b\<in>set (sa_blocks s). sab_end b \<le> unat c"
    "unat c \<le> unat (sa_base s) \<or> (\<exists>b\<in>set (sa_blocks s). sab_end b = unat c)"
    "\<And>x n. unat (sa_base s) \<le> x \<Longrightarrow> 0 < n \<Longrightarrow> x < unat c \<Longrightarrow>
      (\<forall>b\<in>set (sa_blocks s). x + n \<le> unat (sab_addr b) \<or> sab_end b \<le> x) \<Longrightarrow> n \<le> unat lg"
    "lg = 0 \<or> (\<exists>x\<ge>unat (sa_base s). x + unat lg \<le> unat c \<and>
      (\<forall>b\<in>set (sa_blocks s). x + unat lg \<le> unat (sab_addr b) \<or> sab_end b \<le> x))"
    using G sa_block_inD [OF inv] by auto
  have ce: "unat c \<le> unat (sa_end s)" using w(3) sa_block_inD(2) [OF inv] sa_invD(6) [OF inv] by (metis le_trans)
  define tail where "tail = sa_end s - c"
  have tl: "unat tail = unat (sa_end s) - unat c" using ce by (simp add: tail_def unat_minus_no_wrap)
  have lf: "largest_free = (if tail > lg then tail else lg)"
    and ft: "free_total = (sa_end s - sa_base s) - sa_used s"
    using stats walk by (auto simp: surface_allocator_free_stats_def tail_def)
  have max: "unat tail \<le> unat largest_free" "unat lg \<le> unat largest_free"
    by (auto simp: lf word_less_nat_alt)
  have "sum_list (map snd (sa_regions s)) \<le> unat (sa_end s) - unat (sa_base s)"
    using sa_invD(2,6) [OF inv] sa_block_inD [OF inv]
    by (intro regions_total) (auto simp: sa_regions_def)
  then have "unat free_total + sum_list (map snd (sa_regions s)) = unat (sa_end s) - unat (sa_base s)"
    using sa_invD(5,6) [OF inv] by (simp add: ft unat_minus_no_wrap)
  moreover have "n \<le> unat largest_free" if "unat (sa_base s) \<le> x" "0 < n" "x + n \<le> unat (sa_end s)"
    "\<forall>b\<in>set (sa_blocks s). x + n \<le> unat (sab_addr b) \<or> sab_end b \<le> x" for x n
    using that w(4) [of x n] max tl by (cases "x < unat c") auto
  moreover have "\<exists>x\<ge>unat (sa_base s). x + unat largest_free \<le> unat (sa_end s) \<and>
      (\<forall>b\<in>set (sa_blocks s). x + unat largest_free \<le> unat (sab_addr b) \<or> sab_end b \<le> x)"
  proof (cases "tail > lg \<or> lg = 0")
    case True
    then have "unat largest_free = unat tail"
      by (auto simp: lf word_less_nat_alt unsigned_eq_0_iff)
    then show ?thesis using w(1,2) tl ce by (intro exI [of _ "unat c"]) auto
  next
    case False
    then show ?thesis using w(5) ce by (auto simp: lf)
  qed
  ultimately show ?thesis unfolding disj by blast
qed

section \<open>The allocator contract\<close>

text \<open>
  The requests the firmware makes, dispatched to the entry points above. A reservation
  answers with the address it was given, or 0 when it is refused.
\<close>

datatype sa_request =
    SaAlloc u32 | SaAlign u32 u32 | SaRange u32 u32 u32 u32 | SaReserve u32 u32

fun sa_request_alloc :: "sa_request \<Rightarrow> sa_state \<Rightarrow> u32 \<times> sa_state" where
  "sa_request_alloc (SaAlloc sz) s = surface_allocator_alloc sz s"
| "sa_request_alloc (SaAlign sz alignment) s = surface_allocator_alloc_aligned sz alignment s"
| "sa_request_alloc (SaRange sz alignment lo hi) s = surface_allocator_alloc_range sz alignment lo hi s"
| "sa_request_alloc (SaReserve address sz) s =
     (case surface_allocator_reserve address sz s of (ret, s') \<Rightarrow> (if ret = 0 then address else 0, s'))"

text \<open>
  What is asked of a request: an aligned allocation must not wrap its gap test, and a window
  starts on a 256-byte boundary (as the windows of all callers do) or is searched at an
  alignment of 256 or more. Reservations and default allocations are not restricted.
\<close>

fun sa_request_valid :: "sa_request \<Rightarrow> sa_state \<Rightarrow> bool" where
  "sa_request_valid (SaAlloc sz) s = True"
| "sa_request_valid (SaAlign sz alignment) s = (\<not> sa_walk_wraps sz alignment s)"
| "sa_request_valid (SaRange sz alignment lo hi) s = (256 dvd unat lo \<or> 256 dvd unat alignment)"
| "sa_request_valid (SaReserve address sz) s = True"

fun sa_request_need :: "sa_request \<Rightarrow> nat" where
  "sa_request_need (SaAlloc sz) = unat sz"
| "sa_request_need (SaAlign sz alignment) = unat sz"
| "sa_request_need (SaRange sz alignment lo hi) = unat sz"
| "sa_request_need (SaReserve address sz) = unat sz"

definition sa_release :: "u32 \<Rightarrow> sa_state \<Rightarrow> sa_state" where
  "sa_release addr s = snd (surface_allocator_free addr s)"

lemma sa_reserve_ok:
  assumes inv: "sa_inv s" and res: "surface_allocator_reserve address sz s = (ret, s')"
  shows "sa_alloc_ok s sz (if ret = 0 then address else 0) s'"
proof (cases "ret = 0")
  case False
  then have "s' = s" using surface_reserve_spec [OF inv res] by blast
  then show ?thesis using False inv by (simp add: sa_alloc_ok_fail)
next
  case True
  let ?n = "unat (sa_rounded sz)"
  have sp: "sz \<noteq> 0" "\<not> sz > UINT32_MAX - 255" "address AND 255 = 0" "sa_base s \<le> address" "sa_inv s'"
    "unat address + ?n \<le> unat (sa_end s)" "\<forall>x\<in>set (sa_regions s). disjoint_regions (unat address, ?n) x"
    "set (sa_regions s') = insert (unat address, ?n) (set (sa_regions s))"
    using surface_reserve_spec [OF inv res] True by blast+
  note r = sa_rounded_spec [of sz, unfolded sa_model_defs, simplified, OF sp(1) sp(2) [simplified]]
  have fresh: "(unat address, ?n) \<notin> set (sa_regions s)"
    using sp(7) r(4) by (auto simp: disjoint_regions_def before_def region_end_def)
  have base: "unat (sa_base s) \<le> unat address" using sp(4) by (simp add: word_le_nat_alt)
  have "256 dvd unat address" using sp(3) by (simp add: mod256_word)
  then show ?thesis
    unfolding sa_alloc_ok_def using True sp(5,6,7,8) r fresh base sa_invD(1) [OF inv]
    by (auto simp: sa_window_ok_def unsigned_eq_0_iff intro!: exI [of _ ?n])
qed

lemma sa_request_ok:
  assumes "sa_inv s" "sa_request_valid r s" "sa_request_alloc r s = (a, s')"
  shows "\<exists>sz. unat sz = sa_request_need r \<and> sa_alloc_ok s sz a s'"
proof (cases r)
  case (SaAlloc sz)
  with assms show ?thesis
    using sa_alloc_small_cases [OF assms(1), of 256 sz a s']
    by (auto simp: surface_allocator_alloc_def sa_model_defs)
next
  case (SaAlign sz al)
  with assms show ?thesis
    using sa_alloc_aligned_cases [OF assms(1), of sz al a s'] by auto
next
  case (SaRange sz al lo hi)
  with assms have "surface_allocator_alloc_range sz al lo hi s = (a, s')" "256 dvd unat lo \<or> 256 dvd unat al" by auto
  with SaRange show ?thesis
    using sa_alloc_range_cases [OF assms(1), of lo al sz hi a s'] by (intro exI [of _ sz]) auto
next
  case (SaReserve address sz)
  with assms(3) obtain ret where "surface_allocator_reserve address sz s = (ret, s')" "a = (if ret = 0 then address else 0)"
    by (auto split: prod.splits)
  with SaReserve show ?thesis
    using sa_reserve_ok [OF assms(1), of address sz ret s'] by (intro exI [of _ sz]) auto
qed

interpretation sa: region_allocator
  "\<lambda>s. set (sa_regions s)" sa_inv sa_request_alloc sa_request_valid sa_request_need sa_release "\<lambda>k s. True"
proof unfold_locales
  fix s x y
  assume "sa_inv s" "x \<in> set (sa_regions s)" "y \<in> set (sa_regions s)" "x \<noteq> y"
  then show "disjoint_regions x y"
    using regions_ok_pairwise [of "sa_regions s"] by (simp add: sa_inv_def)
next
  fix s r s'
  assume "sa_inv s" "sa_request_valid r s" "sa_request_alloc r s = (0, s')"
  then show "s' = s" using sa_request_ok by (fastforce simp: sa_alloc_ok_def)
next
  fix s r a s'
  assume "sa_inv s" "sa_request_valid r s" "sa_request_alloc r s = (a, s')" "a \<noteq> 0"
  then show "\<exists>n. 0 < n \<and> sa_request_need r \<le> n \<and> (unat a, n) \<notin> set (sa_regions s) \<and>
      set (sa_regions s') = insert (unat a, n) (set (sa_regions s))"
    using sa_request_ok [of s r a s'] by (auto simp: sa_alloc_ok_def)
next
  fix s r
  assume "sa_inv s" "sa_request_valid r s"
  then show "sa_inv (snd (sa_request_alloc r s))"
    using sa_request_ok [of s r] by (metis prod.collapse sa_alloc_ok_def)
next
  fix s k
  assume inv: "sa_inv s"
  show "set (sa_regions (sa_release k s)) \<subseteq> set (sa_regions s)"
    using sa_free_cases [OF inv, of k]
    by (auto simp: sa_release_def sa_regions_update sa_remove_regions [OF inv] simp del: set_map)
  show "sa_inv (sa_release k s)"
    using sa_free_cases [OF inv, of k] sa_remove_inv [OF inv] inv by (auto simp: sa_release_def)
qed

lemmas sa_run_intros = sa.run_refl sa.run_alloc sa.run_release

lemma surface_allocator_init_inv:
  assumes "256 dvd unat base" "base \<noteq> 0" "unat base + unat sz \<le> 2147483648"
  shows "sa_inv (surface_allocator_init base sz)"
proof -
  have e: "unat (base + sz) = unat base + unat sz"
    using assms(3) by (simp add: unat_plus_no_wrap)
  have "\<not> sz > UINT32_MAX - base"
    using assms(3) by (simp add: word_less_nat_alt unat_max_minus)
  then show ?thesis
    using assms e
    by (simp add: sa_inv_def sa_window_ok_def surface_allocator_init_def sa_regions_def
        sa_model_defs word_le_nat_alt)
qed

text \<open>The heap \<^verbatim>\<open>memory_map_init\<close> hands to the allocator (\<^verbatim>\<open>memorymap.h\<close>).\<close>

definition HOST_VISIBLE_HEAP_ADDRESS :: u32 where "HOST_VISIBLE_HEAP_ADDRESS = 0x033F0000"
definition HOST_VISIBLE_HEAP_SIZE :: u32 where "HOST_VISIBLE_HEAP_SIZE = 0x04E10000"

abbreviation sa_boot :: sa_state where
  "sa_boot \<equiv> surface_allocator_init HOST_VISIBLE_HEAP_ADDRESS HOST_VISIBLE_HEAP_SIZE"

lemma sa_boot_inv: "sa_inv sa_boot"
  by (rule surface_allocator_init_inv) (simp_all add: HOST_VISIBLE_HEAP_ADDRESS_def HOST_VISIBLE_HEAP_SIZE_def)

text \<open>
  C1: no byte is handed out twice as long as no gap test wraps. From boot, after any sequence
  of allocations, windowed allocations, reservations and frees in which no aligned
  allocation wraps its gap test (\<open>sa_walk_wraps\<close>) and every window starts on a 256-byte
  boundary or is searched at 256 bytes or more, a block handed out now is at least as long
  as requested and shares no byte with any block that is still live, and all those stay live.
\<close>

theorem surface_no_double_handout:
  assumes "sa.run sa_boot s" "sa_request_valid r s" "sa_request_alloc r s = (a, s')" "a \<noteq> 0"
  shows "\<exists>n\<ge>sa_request_need r. (unat a, n) \<in> set (sa_regions s') \<and>
    (\<forall>x\<in>set (sa_regions s). x \<in> set (sa_regions s') \<and>
       region_addrs x \<inter> region_addrs (unat a, n) = {})"
proof -
  have inv: "sa_inv s" using assms(1) sa_boot_inv by (rule sa.run_invar)
  obtain n where n: "sa_request_need r \<le> n" "(unat a, n) \<notin> set (sa_regions s)"
      "set (sa_regions s') = insert (unat a, n) (set (sa_regions s))"
    using sa.alloc_fresh [OF inv assms(2-4)] by blast
  have run: "sa.run sa_boot s'"
    using sa.run_alloc [OF assms(1,2)] assms(3) by simp
  have "region_addrs x \<inter> region_addrs (unat a, n) = {}" if "x \<in> set (sa_regions s)" for x
    using sa.run_live_disjoint [OF run sa_boot_inv, of x "(unat a, n)"] that n(2,3) by fastforce
  with n show ?thesis by blast
qed

text \<open>A failed allocation changes nothing: an accepted place lies in the window, above address 0.\<close>

lemma sa_alloc_zero:
  assumes inv: "sa_inv s" and res: "surface_allocator_alloc_aligned sz alignment s = (a, s')" "a = 0"
  shows "s' = s"
proof -
  have no: "0 < sa_base s \<or> sa_end s = 0" using sa_invD(1) [OF inv] by (auto simp: sa_window_ok_def word_gt_0)
  have "sa_rounded sz \<noteq> 0" if "sz \<noteq> 0" "\<not> sz > UINT32_MAX - (SURFACE_ALLOCATOR_ALIGNMENT - 1)"
    using sa_rounded_spec(4) [OF that] by auto
  with res no show ?thesis
    by (auto simp: surface_allocator_alloc_aligned_def Let_def word_gt_0 split: if_splits prod.splits)
qed

text \<open>A wrapped walk whose place the caller accepts leaves the table out of address order.\<close>

lemma sa_wrapped_unsorted:
  assumes inv: "sa_inv s" and w: "sa_walk_wraps sz alignment s"
    and res: "surface_allocator_alloc_aligned sz alignment s = (a, s')" "a \<noteq> 0"
  shows "\<exists>i. Suc i < sa_count s' \<and> sab_addr (sa_blocks s' ! i) = a \<and> sab_addr (sa_blocks s' ! Suc i) < a"
proof -
  define r where "r = sa_rounded sz"
  have pow: "alignment \<noteq> 0" "alignment AND (alignment - 1) = 0"
    using res sa_alloc_aligned_guard [of alignment sz s] by auto
  obtain c i where fit: "sa_first_fit r alignment (sa_blocks s) 0
      (sa_align_up (sa_base s) alignment) = (c, i)" by fastforce
  have acc: "a = c" "s' = sa_insert s i c r" "\<not> r > sa_end s - sa_base s"
    using res fit by (auto simp: surface_allocator_alloc_aligned_def Let_def r_def split: if_splits)
  have "unat r \<le> 2147483648" "unat (sa_align_up (sa_base s) alignment) \<le> 2147483648"
    using acc(3) sa_invD(6,7) [OF inv] sa_align_up_le [OF pow, of "sa_base s"]
    by (auto simp: not_less word_le_nat_alt unat_minus_no_wrap)
  then obtain m where m: "m < sa_count s" "i = m" "sab_addr (sa_blocks s ! m) < c"
    using sa_first_fit_wraps [OF _ _ pow _ _ fit] sa_block_inD [OF inv] w
    by (auto simp: sa_walk_wraps_def r_def)
  then have "sa_blocks s' ! m = \<lparr>sab_addr = c, sab_size = r\<rparr>" "sa_blocks s' ! Suc m = sa_blocks s ! m"
    by (simp_all add: acc(2) sa_insert_def insert_at_def nth_append min_def)
  with m acc show ?thesis by (intro exI [of _ m]) (simp add: sa_insert_def length_insert_at)
qed

text \<open>
  C37: the wrap of the gap test is the allocator's only unsound case, and it always is one.
  From any sound table an aligned allocation of any size and alignment leaves a sound table
  exactly when it fails or its walk meets no block below the candidate; after an accepted
  wrapped walk the new block stands in the table before a block with a lower address.
  Up to an alignment of 256 bytes no walk wraps.
\<close>

theorem surface_alloc_sound_exactly:
  assumes inv: "sa_inv s" and res: "surface_allocator_alloc_aligned sz alignment s = (a, s')"
  shows "(sa_inv s' \<longleftrightarrow> a = 0 \<or> \<not> sa_walk_wraps sz alignment s) \<and>
    (a \<noteq> 0 \<and> sa_walk_wraps sz alignment s \<longrightarrow> (\<exists>i. Suc i < sa_count s' \<and>
       sab_addr (sa_blocks s' ! i) = a \<and> sab_addr (sa_blocks s' ! Suc i) < a)) \<and>
    (a \<noteq> 0 \<and> unat alignment \<le> 256 \<longrightarrow> \<not> sa_walk_wraps sz alignment s)"
proof -
  have un: "\<exists>i. Suc i < sa_count s' \<and> sab_addr (sa_blocks s' ! i) = a \<and> sab_addr (sa_blocks s' ! Suc i) < a"
    if "a \<noteq> 0" "sa_walk_wraps sz alignment s" using sa_wrapped_unsorted [OF inv that(2) res that(1)] .
  have bad: "\<not> sa_inv s'" if w: "a \<noteq> 0" "sa_walk_wraps sz alignment s"
  proof
    assume i: "sa_inv s'"
    obtain j where "Suc j < sa_count s'" "sab_addr (sa_blocks s' ! j) = a" "sab_addr (sa_blocks s' ! Suc j) < a"
      using un [OF w] by blast
    with sa_addr_mono [OF i, of j "Suc j"] show False by simp
  qed
  have good: "sa_inv s'" if "\<not> sa_walk_wraps sz alignment s"
    using sa_alloc_aligned_cases [OF inv that res] by (simp add: sa_alloc_ok_def)
  have fail: "s' = s" if "a = 0"
  proof (cases "sa_walk_wraps sz alignment s")
    case False
    then show ?thesis using sa_alloc_aligned_cases [OF inv False res] that by (simp add: sa_alloc_ok_def)
  next
    case True
    then show ?thesis using sa_alloc_zero [OF inv res that] by simp
  qed
  have small: "\<not> sa_walk_wraps sz alignment s" if "a \<noteq> 0" "unat alignment \<le> 256"
    using sa_walk_wraps_small [OF inv _ _ that(2)] sa_alloc_aligned_guard [of alignment sz s] res that(1) by force
  show ?thesis using un bad good fail small inv by blast
qed

section \<open>Concrete runs\<close>

lemmas sa_eval = sa_model_defs HOST_VISIBLE_HEAP_ADDRESS_def HOST_VISIBLE_HEAP_SIZE_def
  surface_allocator_init_def surface_allocator_alloc_def surface_allocator_alloc_aligned_def
  surface_allocator_alloc_range_def surface_allocator_reserve_def surface_allocator_free_def
  surface_allocator_owns_def surface_allocator_block_size_def surface_allocator_free_stats_def
  sa_find_def sa_align_up_def sa_rounded_def sa_insert_def insert_at_def remove_at_def
  sa_regions_def sab_region_def Let_def

text \<open>Two live blocks with a hole between them, reached from boot.\<close>

definition sa_two :: sa_state where
  "sa_two = \<lparr>sa_blocks = [\<lparr>sab_addr = 0x033F0000, sab_size = 1024\<rparr>, \<lparr>sab_addr = 0x033F1000, sab_size = 512\<rparr>],
     sa_base = 0x033F0000, sa_end = 0x08200000, sa_used = 1536\<rparr>"

lemma sa_two_reached:
  "surface_allocator_alloc_range 512 256 0x033F1000 0x033F2000 (snd (surface_allocator_alloc 1000 sa_boot))
    = (0x033F1000, sa_two)"
  by (simp add: sa_eval sa_two_def)

lemma sa_two_run: "sa.run sa_boot sa_two"
  using sa.run_alloc [OF sa.run_alloc [OF sa.run_refl [of sa_boot], of "SaAlloc 1000"],
      of "SaRange 512 256 0x033F1000 0x033F2000"] sa_two_reached
  by simp

lemma sa_two_inv: "sa_inv sa_two"
  using sa_two_run sa_boot_inv by (rule sa.run_invar)

lemma sa_two_alloc: "surface_allocator_alloc_aligned 3000 256 sa_two =
  (0x033F0400, sa_two\<lparr>sa_blocks := [\<lparr>sab_addr = 0x033F0000, sab_size = 1024\<rparr>,
      \<lparr>sab_addr = 0x033F0400, sab_size = 3072\<rparr>, \<lparr>sab_addr = 0x033F1000, sab_size = 512\<rparr>],
     sa_used := 4608\<rparr>)"
  by (simp add: sa_eval sa_two_def)

theorem surface_alloc_spec_witness:
  "sa_inv (snd (surface_allocator_alloc_aligned 3000 256 sa_two)) \<and>
   fst (surface_allocator_alloc_aligned 3000 256 sa_two) = 0x033F0400"
  using surface_alloc_spec [OF sa_two_inv _ sa_two_alloc] by (simp add: sa_two_alloc)

theorem surface_alloc_first_fit_witness:
  "fst (surface_allocator_alloc_aligned 3000 256 sa_two) \<noteq> 0 \<and>
   unat (fst (surface_allocator_alloc_aligned 3000 256 sa_two)) \<le> 0x033F0400"
  using surface_alloc_first_fit [OF sa_two_inv, of 256 3000 "0x033F0400"]
  by (simp add: sa_eval sa_two_def disjoint_regions_def before_def region_end_def)

theorem surface_alloc_range_spec_witness:
  "sa_inv (snd (surface_allocator_alloc_range 512 256 0x033F1000 0x033F2000 sa_two)) \<and>
   fst (surface_allocator_alloc_range 512 256 0x033F1000 0x033F2000 sa_two) = 0x033F1200"
  using surface_alloc_range_spec [OF sa_two_inv, of "0x033F1000" 512 256 "0x033F2000"]
  by (auto simp: sa_eval sa_two_def dvd_def)

theorem surface_reserve_spec_witness:
  "sa_inv (snd (surface_allocator_reserve 0x033F2000 700 sa_two)) \<and>
   fst (surface_allocator_reserve 0x033F2000 700 sa_two) = 0 \<and>
   fst (surface_allocator_reserve 0x033F1100 700 sa_two) = -1"
  using surface_reserve_spec [OF sa_two_inv, of "0x033F2000" 700]
  by (simp add: sa_eval sa_two_def)

theorem surface_alloc_free_roundtrip_witness:
  "surface_allocator_free 0x033F0400 (snd (surface_allocator_alloc 3000 sa_two)) = (0, sa_two)"
  using surface_alloc_free_roundtrip [OF sa_two_inv, of 3000 "0x033F0400"] sa_two_alloc
  by (simp add: surface_allocator_alloc_def sa_model_defs)

theorem surface_free_stats_spec_witness:
  "surface_allocator_free_stats sa_two = (0x04E0FA00, 0x04E0EE00) \<and>
   unat (fst (surface_allocator_free_stats sa_two)) + 1536 = 0x04E10000"
  using surface_free_stats_spec [OF sa_two_inv, of "0x04E0FA00" "0x04E0EE00"]
  by (simp add: sa_eval sa_two_def)

lemma sa_two_reserved: "sa_request_alloc (SaReserve 0x033F2000 700) sa_two =
  (0x033F2000, sa_two\<lparr>sa_blocks := sa_blocks sa_two @ [\<lparr>sab_addr = 0x033F2000, sab_size = 768\<rparr>], sa_used := 2304\<rparr>)"
  by (simp add: sa_eval sa_two_def)

lemma sa_two_page: "sa_request_alloc (SaAlign 512 4096) (snd (sa_request_alloc (SaReserve 0x033F2000 700) sa_two)) =
    (0x033F3000, sa_two\<lparr>sa_blocks := sa_blocks sa_two @ [\<lparr>sab_addr = 0x033F2000, sab_size = 768\<rparr>,
      \<lparr>sab_addr = 0x033F3000, sab_size = 512\<rparr>], sa_used := 2816\<rparr>)"
  "sa_request_valid (SaAlign 512 4096) (snd (sa_request_alloc (SaReserve 0x033F2000 700) sa_two))"
  unfolding sa_two_reserved snd_conv by (simp_all add: sa_eval sa_two_def sa_walk_wraps_def)

theorem surface_no_double_handout_witness:
  "fst (sa_request_alloc (SaAlign 512 4096) (snd (sa_request_alloc (SaReserve 0x033F2000 700) sa_two))) = 0x033F3000 \<and>
   region_addrs (0x033F2000, 768) \<inter> region_addrs (0x033F3000, 512) = {}"
proof -
  have "sa.run sa_boot (snd (sa_request_alloc (SaReserve 0x033F2000 700) sa_two))"
    using sa.run_alloc [OF sa_two_run, of "SaReserve 0x033F2000 700"] by simp
  from surface_no_double_handout [OF this sa_two_page(2,1)] obtain n where n: "512 \<le> n"
      "\<forall>x\<in>set (sa_regions (snd (sa_request_alloc (SaReserve 0x033F2000 700) sa_two))).
         region_addrs x \<inter> region_addrs (unat (0x033F3000::u32), n) = {}"
    by auto
  have "(0x033F2000, 768) \<in> set (sa_regions (snd (sa_request_alloc (SaReserve 0x033F2000 700) sa_two)))"
    unfolding sa_two_reserved snd_conv by (simp add: sa_two_def sa_regions_def sab_region_def)
  with n have "region_addrs (0x033F2000, 768) \<inter> region_addrs (0x033F3000, n) = {}" by force
  with n(1) sa_two_page(1) show ?thesis by (auto simp: region_addrs_def region_end_def)
qed

section \<open>The alignment gap\<close>

text \<open>Two adjacent blocks at the bottom of the boot heap.\<close>

definition sa_pair :: sa_state where
  "sa_pair = \<lparr>sa_blocks = [\<lparr>sab_addr = 0x033F0000, sab_size = 1024\<rparr>, \<lparr>sab_addr = 0x033F0400, sab_size = 1024\<rparr>],
     sa_base = 0x033F0000, sa_end = 0x08200000, sa_used = 2048\<rparr>"

lemma sa_pair_inv: "sa_inv sa_pair"
proof -
  have "sa_pair = snd (sa_request_alloc (SaAlloc 1024) (snd (sa_request_alloc (SaAlloc 1024) sa_boot)))"
    by (simp add: sa_eval sa_pair_def)
  moreover have "sa.run sa_boot (snd (sa_request_alloc (SaAlloc 1024) (snd (sa_request_alloc (SaAlloc 1024) sa_boot))))"
    by (intro sa_run_intros) simp_all
  ultimately show ?thesis using sa.run_invar [OF _ sa_boot_inv] by simp
qed

theorem surface_alloc_sound_exactly_witness:
  "fst (surface_allocator_alloc_aligned 512 4096 sa_pair) = 0x033F1000 \<and>
   \<not> sa_inv (snd (surface_allocator_alloc_aligned 512 4096 sa_pair))"
  using surface_alloc_sound_exactly [OF sa_pair_inv, of 512 4096 "0x033F1000" "snd (surface_allocator_alloc_aligned 512 4096 sa_pair)"]
  by (simp add: sa_eval sa_pair_def sa_walk_wraps_def)

text \<open>
  an alignment above 256 breaks the table. With two live blocks
  at the bottom of the boot heap, a request aligned to 4096 skips past the second
  block's address, the unsigned gap \<^verbatim>\<open>sa_blocks[i].addr - candidate\<close> wraps, and
  the new block is inserted before a lower one. The next ordinary allocation then
  returns the address of the second block, which is still live.
\<close>

theorem surface_alloc_aligned_overlap:
  "case surface_allocator_alloc 1024 sa_boot of (a, s1) \<Rightarrow>
   case surface_allocator_alloc 1024 s1 of (b, s2) \<Rightarrow>
   case surface_allocator_alloc_aligned 512 4096 s2 of (c, s3) \<Rightarrow>
   case surface_allocator_alloc 1024 s3 of (d, s4) \<Rightarrow>
     b \<noteq> 0 \<and> d = b \<and> a \<noteq> b \<and> length (filter (\<lambda>x. sab_addr x = b) (sa_blocks s4)) = 2"
  by (simp add: sa_eval)

end
