(* ===== verification/SmpLock.thy ===== *)
theory SmpLock
  imports Prelude
begin

text \<open>
  The recursive cross-core lock (\<^verbatim>\<open>sdk_smp_lock.c\<close>, with the ARM primitives of
  \<^verbatim>\<open>sdk_smp_lock_arm.c\<close>). Each core runs its own copy of the lock code; one
  statement that touches the shared lock word is one step, and the steps of the
  cores interleave freely. The exclusive store may fail at any time.
\<close>

section \<open>Model\<close>

record sdk_smp_lock =
  raw :: u32
  owner :: int
  depth :: u32
  saved_irq :: u32

definition SDK_SMP_LOCK_INIT :: sdk_smp_lock where
  "SDK_SMP_LOCK_INIT = \<lparr>raw = 0, owner = -1, depth = 0, saved_irq = 0\<rparr>"

text \<open>
  Where a core stands: outside the lock code, inside \<^verbatim>\<open>acquire\<close> and
  \<^verbatim>\<open>try_acquire\<close>, inside \<^verbatim>\<open>release\<close>, or in the fault handler's
  \<^verbatim>\<open>reset_if_owned\<close>. \<open>Parked\<close> is a core halted after its fault.
\<close>

datatype lock_pc =
    Idle
  | AcqCheck | AcqSpin | TryCheck | TryLock | TryFail
  | AcqNest | AcqNestRestore | AcqOwner | AcqDepth | AcqSave
  | RelTest | RelDec | RelCheck | RelOwner | RelUnlock | RelRestore
  | RstCheck | RstRaw | RstOwner | RstDepth | RstIrq | Parked

text \<open>
  One core: its position, its CPSR I-bit, the local \<^verbatim>\<open>flags\<close>, the result of the
  last call, and two bookkeeping fields the code does not have: how many levels
  of the lock the core holds, and the I-bit it had before the outermost one.
\<close>

record cpu =
  pc :: lock_pc
  masked :: bool
  lflags :: u32
  ret :: int
  nest :: nat
  outer :: bool

datatype lock_action =
    CallAcquire | CallTry | CallRelease
  | SetMask bool
  | Exec bool
  | Fault

definition smp_local_irq_save :: "cpu \<Rightarrow> cpu" where
  "smp_local_irq_save p = p\<lparr>lflags := (if masked p then 128 else 0), masked := True\<rparr>"

definition smp_local_irq_restore :: "cpu \<Rightarrow> cpu" where
  "smp_local_irq_restore p = p\<lparr>masked := (if lflags p = 0 then False else masked p)\<rparr>"

text \<open>
  One exclusive-store attempt on the lock word: it takes a free word unless the
  store fails.
\<close>

definition smp_raw_try :: "bool \<Rightarrow> sdk_smp_lock \<Rightarrow> bool" where
  "smp_raw_try strex l \<longleftrightarrow> raw l = 0 \<and> strex"

text \<open>Entering a call. Only a core outside the lock code starts one.\<close>

fun cpu_call :: "lock_action \<Rightarrow> cpu \<Rightarrow> cpu option" where
  "cpu_call CallAcquire p = Some ((smp_local_irq_save p)
     \<lparr>pc := AcqCheck, outer := (if nest p = 0 then masked p else outer p)\<rparr>)"
| "cpu_call CallTry p = Some ((smp_local_irq_save p)
     \<lparr>pc := TryCheck, outer := (if nest p = 0 then masked p else outer p)\<rparr>)"
| "cpu_call CallRelease p = Some (p\<lparr>pc := RelTest\<rparr>)"
| "cpu_call (SetMask b) p = (if nest p = 0 then Some (p\<lparr>masked := b, outer := b\<rparr>) else None)"
| "cpu_call (Exec strex) p = None"
| "cpu_call Fault p = None"

text \<open>The acquiring side: \<^verbatim>\<open>sdk_smp_lock_acquire\<close> and \<^verbatim>\<open>sdk_smp_lock_try_acquire\<close>.\<close>

fun acquire_step :: "int \<Rightarrow> bool \<Rightarrow> lock_pc \<Rightarrow> sdk_smp_lock \<Rightarrow> cpu \<Rightarrow> (sdk_smp_lock \<times> cpu) option" where
  "acquire_step me strex AcqCheck l p = Some (l, p\<lparr>pc := (if owner l = me then AcqNest else AcqSpin)\<rparr>)"
| "acquire_step me strex AcqSpin l p =
     (if smp_raw_try strex l then Some (l\<lparr>raw := 1\<rparr>, p\<lparr>pc := AcqOwner\<rparr>) else Some (l, p))"
| "acquire_step me strex TryCheck l p = Some (l, p\<lparr>pc := (if owner l = me then AcqNest else TryLock)\<rparr>)"
| "acquire_step me strex TryLock l p =
     (if smp_raw_try strex l then Some (l\<lparr>raw := 1\<rparr>, p\<lparr>pc := AcqOwner\<rparr>)
      else Some (l, p\<lparr>pc := TryFail\<rparr>))"
| "acquire_step me strex TryFail l p = Some (l, (smp_local_irq_restore p)\<lparr>pc := Idle, ret := 0\<rparr>)"
| "acquire_step me strex AcqNest l p = Some (l\<lparr>depth := depth l + 1\<rparr>, p\<lparr>pc := AcqNestRestore\<rparr>)"
| "acquire_step me strex AcqNestRestore l p =
     Some (l, (smp_local_irq_restore p)\<lparr>pc := Idle, ret := 1, nest := Suc (nest p)\<rparr>)"
| "acquire_step me strex AcqOwner l p = Some (l\<lparr>owner := me\<rparr>, p\<lparr>pc := AcqDepth\<rparr>)"
| "acquire_step me strex AcqDepth l p = Some (l\<lparr>depth := 1\<rparr>, p\<lparr>pc := AcqSave\<rparr>)"
| "acquire_step me strex AcqSave l p =
     Some (l\<lparr>saved_irq := lflags p\<rparr>, p\<lparr>pc := Idle, ret := 1, nest := 1\<rparr>)"
| "acquire_step me strex _ l p = None"

text \<open>The releasing side: \<^verbatim>\<open>sdk_smp_lock_release\<close>.\<close>

fun release_step :: "lock_pc \<Rightarrow> sdk_smp_lock \<Rightarrow> cpu \<Rightarrow> (sdk_smp_lock \<times> cpu) option" where
  "release_step RelTest l p = Some (l, p\<lparr>pc := (if depth l = 0 then Idle else RelDec)\<rparr>)"
| "release_step RelDec l p = Some (l\<lparr>depth := depth l - 1\<rparr>, p\<lparr>pc := RelCheck\<rparr>)"
| "release_step RelCheck l p =
     Some (l, if depth l = 0 then p\<lparr>pc := RelOwner, lflags := saved_irq l\<rparr>
              else p\<lparr>pc := Idle, nest := nest p - 1\<rparr>)"
| "release_step RelOwner l p = Some (l\<lparr>owner := -1\<rparr>, p\<lparr>pc := RelUnlock\<rparr>)"
| "release_step RelUnlock l p = Some (l\<lparr>raw := 0\<rparr>, p\<lparr>pc := RelRestore, nest := nest p - 1\<rparr>)"
| "release_step RelRestore l p = Some (l, (smp_local_irq_restore p)\<lparr>pc := Idle\<rparr>)"
| "release_step _ l p = None"

text \<open>\<^verbatim>\<open>sdk_smp_lock_reset_if_owned\<close>, with the four stores of \<^verbatim>\<open>sdk_smp_lock_reset\<close> in order.\<close>

fun reset_step :: "int \<Rightarrow> lock_pc \<Rightarrow> sdk_smp_lock \<Rightarrow> cpu \<Rightarrow> (sdk_smp_lock \<times> cpu) option" where
  "reset_step me RstCheck l p = Some (l, p\<lparr>pc := (if owner l = me then RstRaw else Parked)\<rparr>)"
| "reset_step me RstRaw l p = Some (l\<lparr>raw := 0\<rparr>, p\<lparr>pc := RstOwner\<rparr>)"
| "reset_step me RstOwner l p = Some (l\<lparr>owner := -1\<rparr>, p\<lparr>pc := RstDepth\<rparr>)"
| "reset_step me RstDepth l p = Some (l\<lparr>depth := 0\<rparr>, p\<lparr>pc := RstIrq\<rparr>)"
| "reset_step me RstIrq l p = Some (l\<lparr>saved_irq := 0\<rparr>, p\<lparr>pc := Parked\<rparr>)"
| "reset_step me _ l p = None"

definition sdk_smp_lock_reset :: "sdk_smp_lock \<Rightarrow> sdk_smp_lock" where
  "sdk_smp_lock_reset l = l\<lparr>raw := 0, owner := -1, depth := 0, saved_irq := 0\<rparr>"

text \<open>One step of core \<open>c\<close>; a fault abandons the interrupted code for the handler.\<close>

definition cpu_step :: "nat \<Rightarrow> lock_action \<Rightarrow> sdk_smp_lock \<Rightarrow> cpu \<Rightarrow> (sdk_smp_lock \<times> cpu) option" where
  "cpu_step c a l p =
     (case a of
        Exec strex \<Rightarrow>
          (case acquire_step (int c) strex (pc p) l p of
             Some r \<Rightarrow> Some r
           | None \<Rightarrow> (case release_step (pc p) l p of
               Some r \<Rightarrow> Some r
             | None \<Rightarrow> reset_step (int c) (pc p) l p))
      | Fault \<Rightarrow> (if pc p \<in> {RstCheck, RstRaw, RstOwner, RstDepth, RstIrq, Parked} then None
                  else Some (l, p\<lparr>pc := RstCheck, nest := 0, masked := True\<rparr>))
      | _ \<Rightarrow> (if pc p = Idle then map_option (Pair l) (cpu_call a p) else None))"

record smp_sys =
  lk :: sdk_smp_lock
  cpus :: "nat \<Rightarrow> cpu"

definition sys_step :: "nat \<Rightarrow> lock_action \<Rightarrow> smp_sys \<Rightarrow> smp_sys option" where
  "sys_step c a s = (case cpu_step c a (lk s) (cpus s c) of
     None \<Rightarrow> None
   | Some (l, p) \<Rightarrow> Some \<lparr>lk = l, cpus = (cpus s)(c := p)\<rparr>)"

text \<open>
  The header's precondition on callers: release only what you hold. The count
  of levels stays below the width of \<^verbatim>\<open>depth\<close>. A fault is no call; see \<open>smp_reach\<close>.
\<close>

fun client_ok :: "lock_action \<Rightarrow> cpu \<Rightarrow> bool" where
  "client_ok CallRelease p = (0 < nest p)"
| "client_ok CallAcquire p = (nest p < 4294967295)"
| "client_ok CallTry p = (nest p < 4294967295)"
| "client_ok Fault p = False"
| "client_ok _ p = True"

definition smp_boot :: smp_sys where
  "smp_boot = \<lparr>lk = SDK_SMP_LOCK_INIT,
     cpus = (\<lambda>c. \<lparr>pc = Idle, masked = False, lflags = 0, ret = 0, nest = 0, outer = False\<rparr>)\<rparr>"

text \<open>A schedule run from a state; None when a step does not apply.\<close>

fun smp_exec :: "(nat \<times> lock_action) list \<Rightarrow> smp_sys \<Rightarrow> smp_sys option" where
  "smp_exec [] s = Some s"
| "smp_exec ((c, a) # as) s = (case sys_step c a s of None \<Rightarrow> None | Some t \<Rightarrow> smp_exec as t)"

text \<open>
  The states the firmware reaches: by the steps of disciplined callers in any order, by the
  fault of a core whose number is not in the owner field (at any point, also between taking
  the lock word and storing the owner), and by the fault of the owner when the recovery runs
  to its end before another core takes its next step in the lock code. An owner's recovery
  that does overlap with another core is the subject of the last section.
\<close>

inductive smp_reach :: "smp_sys \<Rightarrow> bool" where
  smp_reach_boot: "smp_reach smp_boot"
| smp_reach_step: "smp_reach s \<Longrightarrow> client_ok a (cpus s c) \<Longrightarrow> sys_step c a s = Some t \<Longrightarrow> smp_reach t"
| smp_reach_fault: "smp_reach s \<Longrightarrow> owner (lk s) \<noteq> int c \<Longrightarrow> sys_step c Fault s = Some t \<Longrightarrow> smp_reach t"
| smp_reach_recover: "smp_reach s \<Longrightarrow> owner (lk s) = int c \<Longrightarrow>
    smp_exec ((c, Fault) # replicate 5 (c, Exec True)) s = Some t \<Longrightarrow> smp_reach t"

fun smp_exec_ok :: "(nat \<times> lock_action) list \<Rightarrow> smp_sys \<Rightarrow> bool" where
  "smp_exec_ok [] s = True"
| "smp_exec_ok ((c, a) # as) s = (client_ok a (cpus s c) \<and>
     (case sys_step c a s of None \<Rightarrow> False | Some t \<Rightarrow> smp_exec_ok as t))"

lemma smp_exec_reach:
  "smp_reach s \<Longrightarrow> smp_exec_ok as s \<Longrightarrow> smp_exec as s = Some t \<Longrightarrow> smp_reach t"
  by (induction as s rule: smp_exec_ok.induct) (auto intro: smp_reach_step split: option.splits)

section \<open>The lock invariant\<close>

text \<open>The core is between taking the lock word and clearing it.\<close>

definition crit :: "cpu \<Rightarrow> bool" where
  "crit p \<longleftrightarrow> pc p \<in> {AcqOwner, AcqDepth, AcqSave} \<or> 0 < nest p"

text \<open>The core's number is in the owner field.\<close>

definition owns :: "cpu \<Rightarrow> bool" where
  "owns p \<longleftrightarrow> pc p \<in> {AcqDepth, AcqSave} \<or> 0 < nest p \<and> pc p \<noteq> RelUnlock"

text \<open>What each position knows about the lock fields the core controls.\<close>

definition held :: "sdk_smp_lock \<Rightarrow> cpu \<Rightarrow> bool" where
  "held l p \<longleftrightarrow> unat (depth l) = nest p \<and> nest p \<le> 4294967295 \<and> masked p \<and>
     (saved_irq l \<noteq> 0 \<longleftrightarrow> outer p)"

fun pc_ok :: "lock_pc \<Rightarrow> sdk_smp_lock \<Rightarrow> cpu \<Rightarrow> bool" where
  "pc_ok Idle l p = (if 0 < nest p then held l p else masked p = outer p)"
| "pc_ok AcqCheck l p = (if 0 < nest p then held l p \<and> lflags p \<noteq> 0 \<and> nest p < 4294967295
     else masked p \<and> (lflags p \<noteq> 0 \<longleftrightarrow> outer p))"
| "pc_ok TryCheck l p = (if 0 < nest p then held l p \<and> lflags p \<noteq> 0 \<and> nest p < 4294967295
     else masked p \<and> (lflags p \<noteq> 0 \<longleftrightarrow> outer p))"
| "pc_ok AcqNest l p = (0 < nest p \<and> held l p \<and> lflags p \<noteq> 0 \<and> nest p < 4294967295)"
| "pc_ok AcqNestRestore l p = (0 < nest p \<and> unat (depth l) = Suc (nest p) \<and>
     nest p < 4294967295 \<and> masked p \<and> (saved_irq l \<noteq> 0 \<longleftrightarrow> outer p) \<and> lflags p \<noteq> 0)"
| "pc_ok RelTest l p = (0 < nest p \<and> held l p)"
| "pc_ok RelDec l p = (0 < nest p \<and> held l p)"
| "pc_ok RelCheck l p = (0 < nest p \<and> Suc (unat (depth l)) = nest p \<and> nest p \<le> 4294967295 \<and> masked p \<and>
     (saved_irq l \<noteq> 0 \<longleftrightarrow> outer p))"
| "pc_ok RelOwner l p = (nest p = 1 \<and> masked p \<and> (lflags p \<noteq> 0 \<longleftrightarrow> outer p))"
| "pc_ok RelUnlock l p = (nest p = 1 \<and> masked p \<and> (lflags p \<noteq> 0 \<longleftrightarrow> outer p))"
| "pc_ok AcqSave l p = (nest p = 0 \<and> masked p \<and> (lflags p \<noteq> 0 \<longleftrightarrow> outer p) \<and> depth l = 1)"
| "pc_ok RstCheck l p = (nest p = 0)"
| "pc_ok RstRaw l p = False"
| "pc_ok RstOwner l p = False"
| "pc_ok RstDepth l p = False"
| "pc_ok RstIrq l p = False"
| "pc_ok Parked l p = (nest p = 0)"
| "pc_ok _ l p = (nest p = 0 \<and> masked p \<and> (lflags p \<noteq> 0 \<longleftrightarrow> outer p))"

definition smp_inv :: "smp_sys \<Rightarrow> bool" where
  "smp_inv s \<longleftrightarrow>
     (\<forall>c. pc_ok (pc (cpus s c)) (lk s) (cpus s c)) \<and>
     (\<forall>c. owner (lk s) = int c \<longleftrightarrow> owns (cpus s c)) \<and>
     (\<forall>c d. crit (cpus s c) \<longrightarrow> crit (cpus s d) \<longrightarrow> c = d) \<and>
     (\<forall>c. crit (cpus s c) \<longrightarrow> raw (lk s) = 1)"

lemmas smp_defs = cpu_step_def smp_local_irq_save_def smp_local_irq_restore_def smp_raw_try_def
  crit_def owns_def held_def

lemma depth_up: "unat (d :: u32) = n \<Longrightarrow> n < 4294967295 \<Longrightarrow> unat (d + 1) = Suc n"
  by (simp add: unat_plus_no_wrap)

lemma depth_down: "unat (d :: u32) = n \<Longrightarrow> 0 < n \<Longrightarrow> Suc (unat (d - 1)) = n"
  by (subst unat_minus_no_wrap) auto

lemma depth_zero: "(d :: u32) = 0 \<longleftrightarrow> unat d = 0"
  by (simp add: unsigned_eq_0_iff)

text \<open>What a step of a core does to its own part of the invariant.\<close>

lemma acquire_own:
  assumes "acquire_step (int c) strex q l p = Some (l', p')" "q = pc p"
    and "pc_ok q l p" "owner l = int c \<longleftrightarrow> owns p"
  shows "pc_ok (pc p') l' p' \<and> (owner l' = int c \<longleftrightarrow> owns p')"
  using assms by (cases q) (auto simp: smp_defs depth_up split: if_splits)

lemma release_own:
  assumes "release_step q l p = Some (l', p')" "q = pc p"
    and "pc_ok q l p" "owner l = int c \<longleftrightarrow> owns p"
  shows "pc_ok (pc p') l' p' \<and> (owner l' = int c \<longleftrightarrow> owns p')"
proof (cases q)
  case RelDec
  with assms show ?thesis using depth_down [of "depth l" "nest p"] by (auto simp: smp_defs)
next
  case RelCheck
  with assms show ?thesis by (auto simp: smp_defs depth_zero split: if_splits)
qed (use assms in \<open>auto simp: smp_defs depth_zero split: if_splits\<close>)

lemma call_own:
  assumes "cpu_call a p = Some p'" "pc p = Idle" "client_ok a p"
    and "pc_ok Idle l p" "owner l = int c \<longleftrightarrow> owns p"
  shows "pc_ok (pc p') l p' \<and> (owner l = int c \<longleftrightarrow> owns p')"
  using assms by (cases a) (auto simp: smp_defs split: if_splits)

text \<open>A core outside the critical section changes nothing but a free lock word.\<close>

lemma acquire_frame:
  assumes "acquire_step me strex q l p = Some (l', p')" "q = pc p" "\<not> crit p" "pc_ok q l p"
  shows "l' = l \<and> \<not> crit p' \<or> raw l = 0 \<and> l' = l\<lparr>raw := 1\<rparr> \<and> crit p'"
  using assms by (cases q) (auto simp: smp_defs split: if_splits)

lemma release_frame:
  assumes "release_step q l p = Some (l', p')" "q = pc p" "\<not> crit p" "pc_ok q l p"
  shows "l' = l \<and> \<not> crit p'"
  using assms by (cases q) (auto simp: smp_defs split: if_splits)

text \<open>A core inside it keeps the word set until the step that leaves.\<close>

lemma acquire_crit:
  assumes "acquire_step me strex q l p = Some (l', p')" "q = pc p" "crit p" "pc_ok q l p" "raw l = 1"
  shows "raw l' = 1 \<and> crit p'"
  using assms by (cases q) (auto simp: smp_defs split: if_splits)

lemma release_crit:
  assumes "release_step q l p = Some (l', p')" "q = pc p" "crit p" "pc_ok q l p" "raw l = 1"
  shows "raw l' = (if crit p' then 1 else 0)"
  using assms by (cases q) (auto simp: smp_defs depth_zero split: if_splits)

lemma call_crit: "cpu_call a p = Some p' \<Longrightarrow> pc p = Idle \<Longrightarrow> crit p' \<longleftrightarrow> crit p"
  by (cases a) (auto simp: smp_defs split: if_splits)

text \<open>The three kinds of step a disciplined core takes.\<close>

lemma cpu_step_cases:
  assumes "cpu_step c a l p = Some (l', p')" "client_ok a p" "pc_ok (pc p) l p"
  obtains (acquire) strex where "acquire_step (int c) strex (pc p) l p = Some (l', p')"
  | (release) "release_step (pc p) l p = Some (l', p')"
  | (call) "cpu_call a p = Some p'" "pc p = Idle" "l' = l"
  | (handler) "pc p = RstCheck" "l' = l" "p' = p\<lparr>pc := (if owner l = int c then RstRaw else Parked)\<rparr>"
proof (cases a)
  case (Exec strex)
  have "reset_step (int c) (pc p) l p = None \<or> pc p = RstCheck" using assms(3) by (cases "pc p") auto
  with assms(1) Exec acquire release handler show ?thesis by (auto simp: cpu_step_def split: option.splits)
qed (use assms call in \<open>auto simp: cpu_step_def split: if_splits\<close>)

lemma cpu_step_ok:
  assumes "cpu_step c a l p = Some (l', p')" "client_ok a p" "pc_ok (pc p) l p"
    and "owner l = int c \<longleftrightarrow> owns p" "crit p \<Longrightarrow> raw l = 1"
  shows "pc_ok (pc p') l' p' \<and> (owner l' = int c \<longleftrightarrow> owns p') \<and>
      (\<not> crit p \<longrightarrow> l' = l \<and> \<not> crit p' \<or> raw l = 0 \<and> l' = l\<lparr>raw := 1\<rparr> \<and> crit p') \<and>
      (crit p \<longrightarrow> raw l' = (if crit p' then 1 else 0))"
  using assms(1-3)
proof (cases rule: cpu_step_cases)
  case (acquire strex)
  show ?thesis
    using acquire_own [OF acquire _ assms(3,4)] acquire_frame [OF acquire _ _ assms(3)]
      acquire_crit [OF acquire _ _ assms(3)] assms(5) by auto
next
  case release
  show ?thesis
    using release_own [OF release _ assms(3,4)] release_frame [OF release _ _ assms(3)]
      release_crit [OF release _ _ assms(3)] assms(5) by auto
next
  case call
  show ?thesis
    using call_own [OF call(1,2) assms(2), of l c] call_crit [OF call(1,2)] call(2,3) assms(3-5) by auto
next
  case handler
  then show ?thesis using assms(3,4) by (simp add: crit_def owns_def)
qed

lemma cpu_step_owner:
  assumes "cpu_step c a l p = Some (l', p')" "client_ok a p" "pc_ok (pc p) l p"
  shows "owner l' \<in> {owner l, int c, -1}"
  using assms
proof (cases rule: cpu_step_cases)
  case (acquire strex)
  then show ?thesis by (cases "pc p") (auto split: if_splits)
next
  case release
  then show ?thesis by (cases "pc p") (auto split: if_splits)
qed simp_all

text \<open>A core outside the critical section does not notice what the lock fields hold.\<close>

lemma pc_ok_outside: "\<not> crit p \<Longrightarrow> pc_ok (pc p) l p \<Longrightarrow> pc_ok (pc p) l' p"
  by (cases "pc p") (auto simp: crit_def)

lemma pc_ok_raw: "pc_ok q (l\<lparr>raw := v\<rparr>) p = pc_ok q l p"
  by (cases q) (auto simp: held_def)

lemma owns_crit: "pc_ok (pc p) l p \<Longrightarrow> owns p \<Longrightarrow> crit p"
  by (auto simp: owns_def crit_def)

lemma smp_inv_step:
  assumes inv: "smp_inv s" and ok: "client_ok a (cpus s c)" and st: "sys_step c a s = Some t"
  shows "smp_inv t"
proof -
  let ?l = "lk s" and ?p = "cpus s c"
  obtain l' p' where cs: "cpu_step c a ?l ?p = Some (l', p')" and t: "t = \<lparr>lk = l', cpus = (cpus s)(c := p')\<rparr>"
    using st by (auto simp: sys_step_def split: option.splits)
  have pc: "pc_ok (pc (cpus s d)) ?l (cpus s d)" and own: "owner ?l = int d \<longleftrightarrow> owns (cpus s d)"
    and un: "crit (cpus s d) \<Longrightarrow> crit (cpus s e) \<Longrightarrow> d = e"
    and raw: "crit (cpus s d) \<Longrightarrow> raw ?l = 1" for d e
    using inv by (auto simp: smp_inv_def)
  note step = cpu_step_ok [OF cs ok pc own]
  have cr: "crit ?p \<Longrightarrow> raw ?l = 1" by (rule raw)
  have other: "\<not> crit (cpus s d)" if "d \<noteq> c" "crit ?p \<or> raw ?l = 0" for d
    using un [of d c] that raw [of d] by auto
  show ?thesis
  proof (cases "crit ?p")
    case True
    have notc: "\<not> crit (cpus s d)" if "d \<noteq> c" for d using other [OF that] True by blast
    have noto: "\<not> owns (cpus s d)" if "d \<noteq> c" for d using notc [OF that] owns_crit [OF pc] by blast
    have "owner l' \<noteq> int d" if "d \<noteq> c" for d
      using cpu_step_owner [OF cs ok pc] own [of d] noto [OF that] that by auto
    then show ?thesis
      using step cr True notc noto pc_ok_outside [OF notc pc] by (auto simp: smp_inv_def t)
  next
    case False
    then consider "l' = ?l" "\<not> crit p'" | "raw ?l = 0" "l' = ?l\<lparr>raw := 1\<rparr>" "crit p'"
      using step cr by blast
    then show ?thesis
    proof cases
      case 1
      from 1 show ?thesis using step cr pc own un raw False by (auto simp: smp_inv_def t)
    next
      case 2
      then show ?thesis using step cr pc own other False
        by (auto simp: smp_inv_def t pc_ok_raw)
    qed
  qed
qed

lemma sys_step_upd: "sys_step c a \<lparr>lk = l, cpus = f\<rparr> =
  (case cpu_step c a l (f c) of None \<Rightarrow> None | Some (l, p) \<Rightarrow> Some \<lparr>lk = l, cpus = f(c := p)\<rparr>)"
  by (auto simp: sys_step_def split: option.splits)

text \<open>A fault takes nothing from the lock fields, and its core is outside the critical section.\<close>

lemma smp_inv_fault:
  assumes inv: "smp_inv s" and own: "owner (lk s) \<noteq> int c" and st: "sys_step c Fault s = Some t"
  shows "smp_inv t"
proof -
  have t: "t = \<lparr>lk = lk s, cpus = (cpus s)(c := (cpus s c)\<lparr>pc := RstCheck, nest := 0, masked := True\<rparr>)\<rparr>"
    using st by (auto simp: sys_step_def cpu_step_def split: if_splits)
  show ?thesis using inv own by (auto simp: t smp_inv_def crit_def owns_def)
qed

lemma smp_inv_recover:
  assumes inv: "smp_inv s" and own: "owner (lk s) = int c"
    and st: "smp_exec ((c, Fault) # replicate 5 (c, Exec True)) s = Some t"
  shows "smp_inv t"
proof -
  obtain l f where s: "s = \<lparr>lk = l, cpus = f\<rparr>" by (cases s) auto
  have "pc (f c) \<notin> {RstCheck, RstRaw, RstOwner, RstDepth, RstIrq, Parked}"
    using st by (auto simp: s sys_step_def cpu_step_def)
  then have t: "t = \<lparr>lk = sdk_smp_lock_reset l, cpus = f(c := (f c)\<lparr>nest := 0, masked := True, pc := Parked\<rparr>)\<rparr>"
    using st own by (simp add: s numeral_eq_Suc sys_step_upd cpu_step_def sdk_smp_lock_reset_def)
  have cc: "crit (f c)" using inv own owns_crit [of "f c" l] by (auto simp: s smp_inv_def)
  have out: "\<not> crit (f d)" if "d \<noteq> c" for d using inv cc that by (auto simp: s smp_inv_def)
  have ok: "pc_ok (pc (f d)) (sdk_smp_lock_reset l) (f d)" if "d \<noteq> c" for d
    using pc_ok_outside [OF out [OF that]] inv by (auto simp: s smp_inv_def)
  have no: "\<not> owns (f d)" if "d \<noteq> c" for d
    using owns_crit [of "f d" l] out [OF that] inv by (auto simp: s smp_inv_def)
  show ?thesis using out ok no
    by (auto simp: t smp_inv_def sdk_smp_lock_reset_def crit_def owns_def)
qed

lemma smp_reach_inv: "smp_reach s \<Longrightarrow> smp_inv s"
proof (induction rule: smp_reach.induct)
  case smp_reach_boot
  show ?case by (auto simp: smp_inv_def smp_boot_def SDK_SMP_LOCK_INIT_def smp_defs)
qed (rule smp_inv_step smp_inv_fault smp_inv_recover; assumption)+

section \<open>What the lock promises\<close>

text \<open>
  C2: mutual exclusion. In every state reached by calls that follow the lock's discipline,
  by faults of cores the owner field does not name, at any point, and by faults of the owner
  whose recovery no other core overlaps, whatever the interleaving otherwise, at most one
  core holds the lock, with the lock word set; while it is outside the lock code the owner
  field names it, the depth field counts its levels and its IRQs are masked. (An overlapped
  recovery of the owner breaks this; the last section shows how.)
\<close>

theorem smp_mutual_exclusion:
  assumes "smp_reach s" "0 < nest (cpus s c)"
  shows "(\<forall>d. 0 < nest (cpus s d) \<longrightarrow> d = c) \<and> raw (lk s) = 1 \<and>
    (pc (cpus s c) = Idle \<longrightarrow> owner (lk s) = int c \<and> unat (depth (lk s)) = nest (cpus s c) \<and>
      masked (cpus s c))"
proof -
  have inv: "smp_inv s" using assms(1) by (rule smp_reach_inv)
  have "crit (cpus s d)" if "0 < nest (cpus s d)" for d using that by (simp add: crit_def)
  with inv assms(2) have "\<forall>d. 0 < nest (cpus s d) \<longrightarrow> d = c" "raw (lk s) = 1"
    unfolding smp_inv_def by blast+
  moreover have "owner (lk s) = int c \<and> held (lk s) (cpus s c)" if "pc (cpus s c) = Idle"
  proof -
    have "pc_ok (pc (cpus s c)) (lk s) (cpus s c)" "owner (lk s) = int c \<longleftrightarrow> owns (cpus s c)"
      using inv by (auto simp: smp_inv_def)
    with that assms(2) show ?thesis by (simp add: owns_def)
  qed
  ultimately show ?thesis by (auto simp: held_def)
qed

lemma cpu_idle_ok:
  assumes "smp_reach s" "pc (cpus s c) = Idle"
  shows "0 < nest (cpus s c) \<Longrightarrow> held (lk s) (cpus s c) \<and> owner (lk s) = int c \<and> raw (lk s) = 1"
    "nest (cpus s c) = 0 \<Longrightarrow> masked (cpus s c) = outer (cpus s c) \<and> owner (lk s) \<noteq> int c"
proof -
  have inv: "smp_inv s" using assms(1) by (rule smp_reach_inv)
  have p: "pc_ok (pc (cpus s c)) (lk s) (cpus s c)" "owner (lk s) = int c \<longleftrightarrow> owns (cpus s c)"
    using inv by (auto simp: smp_inv_def)
  show "held (lk s) (cpus s c) \<and> owner (lk s) = int c \<and> raw (lk s) = 1" if "0 < nest (cpus s c)"
    using p inv that assms(2) by (auto simp: smp_inv_def owns_def crit_def)
  show "masked (cpus s c) = outer (cpus s c) \<and> owner (lk s) \<noteq> int c" if "nest (cpus s c) = 0"
    using p that assms(2) by (auto simp: owns_def)
qed

text \<open>
  C3: a release returns. From any reachable state in which the caller holds the
  lock, its release finishes in at most six of its own steps, whatever the other
  core waits for; it gives back one level, and with the last one it frees the lock
  word and restores the interrupt mask the outermost acquire found.
\<close>

theorem smp_release_returns:
  assumes "smp_reach s" "pc (cpus s c) = Idle" "0 < nest (cpus s c)"
  shows "\<exists>n\<le>6. \<exists>t. smp_exec ((c, CallRelease) # replicate n (c, Exec True)) s = Some t \<and>
    pc (cpus t c) = Idle \<and> nest (cpus t c) = nest (cpus s c) - 1 \<and>
    (if nest (cpus s c) = 1 then raw (lk t) = 0 \<and> owner (lk t) = -1 \<and> masked (cpus t c) = outer (cpus s c)
     else raw (lk t) = 1 \<and> owner (lk t) = int c \<and> masked (cpus t c))"
proof -
  obtain l f where s: "s = \<lparr>lk = l, cpus = f\<rparr>" by (cases s) auto
  have h: "unat (depth l) = nest (f c)" "masked (f c)" "saved_irq l \<noteq> 0 \<longleftrightarrow> outer (f c)"
    "owner l = int c" "raw l = 1"
    using cpu_idle_ok(1) [OF assms] by (auto simp: s held_def)
  have d0: "depth l \<noteq> 0" using h(1) assms(3) by (auto simp: s)
  have d1: "depth l - 1 = 0 \<longleftrightarrow> nest (f c) = 1"
    using depth_down [OF h(1)] assms(3) by (auto simp: s depth_zero simp del: unsigned_eq_0_iff)
  let ?n = "if nest (f c) = 1 then 6 else 3"
  show ?thesis
  proof (cases "nest (f c) = 1")
    case True
    have "smp_exec ((c, CallRelease) # replicate 6 (c, Exec True)) s =
      Some \<lparr>lk = l\<lparr>raw := 0, owner := -1, depth := 0\<rparr>, cpus = f(c := (f c)\<lparr>pc := Idle, lflags := saved_irq l,
        masked := (if saved_irq l = 0 then False else masked (f c)), nest := 0\<rparr>)\<rparr>"
      using assms(2) d0 d1 True
      by (cases "f c") (simp add: s numeral_eq_Suc sys_step_upd cpu_step_def smp_local_irq_restore_def)
    with True h show ?thesis by (intro exI [of _ 6]) (auto simp: s)
  next
    case False
    have "smp_exec ((c, CallRelease) # replicate 3 (c, Exec True)) s =
      Some \<lparr>lk = l\<lparr>depth := depth l - 1\<rparr>, cpus = f(c := (f c)\<lparr>pc := Idle, nest := nest (f c) - 1\<rparr>)\<rparr>"
      using assms(2) d0 d1 False
      by (simp add: s numeral_eq_Suc sys_step_upd cpu_step_def)
    with False h show ?thesis by (intro exI [of _ 3]) (auto simp: s)
  qed
qed

lemmas smp_eval = smp_boot_def SDK_SMP_LOCK_INIT_def sys_step_upd cpu_step_def
  smp_local_irq_save_def smp_local_irq_restore_def smp_raw_try_def

text \<open>Core 1 holds the lock two levels deep while core 0 spins on it.\<close>

definition smp_contended :: "(nat \<times> lock_action) list" where
  "smp_contended = [(1, CallAcquire), (0, CallAcquire), (0, Exec True), (1, Exec True), (1, Exec False),
     (1, Exec True), (0, Exec True), (1, Exec True), (1, Exec True), (1, Exec True), (0, Exec True),
     (1, CallTry), (1, Exec True), (1, Exec True), (1, Exec True)]"

lemma smp_contended_run:
  "\<exists>s. smp_reach s \<and> pc (cpus s 1) = Idle \<and> nest (cpus s 1) = 2 \<and> pc (cpus s 0) = AcqSpin \<and>
     \<not> outer (cpus s 1)"
proof -
  have "smp_exec_ok smp_contended smp_boot"
    by (simp add: smp_contended_def smp_eval)
  moreover obtain s where s: "smp_exec smp_contended smp_boot = Some s" "pc (cpus s 1) = Idle"
    "nest (cpus s 1) = 2" "pc (cpus s 0) = AcqSpin" "\<not> outer (cpus s 1)"
    by (simp add: smp_contended_def smp_eval)
  ultimately show ?thesis using smp_exec_reach [OF smp_reach_boot] by blast
qed

theorem smp_mutual_exclusion_witness:
  "\<exists>s. smp_reach s \<and> nest (cpus s 1) = 2 \<and> pc (cpus s 0) = AcqSpin \<and> owner (lk s) = 1 \<and> depth (lk s) = 2"
proof -
  obtain s where s: "smp_reach s" "pc (cpus s 1) = Idle" "nest (cpus s 1) = 2" "pc (cpus s 0) = AcqSpin"
    using smp_contended_run by blast
  with smp_mutual_exclusion [of s 1] have "owner (lk s) = 1" "unat (depth (lk s)) = unat (2 :: u32)" by auto
  with s show ?thesis using word_eq_unatI by blast
qed

theorem smp_release_returns_witness:
  "\<exists>s t n. smp_reach s \<and> nest (cpus s 1) = 2 \<and> nest (cpus t 1) = 1 \<and> raw (lk t) = 1 \<and>
    smp_exec ((1, CallRelease) # replicate n (1, Exec True)) s = Some t"
proof -
  obtain s where s: "smp_reach s" "pc (cpus s 1) = Idle" "nest (cpus s 1) = 2"
    using smp_contended_run by blast
  with smp_release_returns [of s 1] obtain n t where
    "smp_exec ((1, CallRelease) # replicate n (1, Exec True)) s = Some t" "nest (cpus t 1) = 1" "raw (lk t) = 1"
    by auto
  with s show ?thesis by blast
qed

section \<open>The reset race\<close>

text \<open>
  The lock word is set, no core is named as owner, the depth is 0, and no core stands where
  it could still change one of them.
\<close>

definition lock_dead :: "smp_sys \<Rightarrow> bool" where
  "lock_dead s \<longleftrightarrow> raw (lk s) = 1 \<and> owner (lk s) = -1 \<and> depth (lk s) = 0 \<and>
     (\<forall>e. pc (cpus s e) \<in> {Idle, AcqCheck, AcqSpin, TryCheck, TryLock, TryFail, RelTest, RelRestore, RstCheck, Parked})"

lemma dead_core:
  assumes "cpu_step e a l p = Some (l', p')" "raw l = 1" "owner l = -1" "depth l = 0"
    and "pc p \<in> {Idle, AcqCheck, AcqSpin, TryCheck, TryLock, TryFail, RelTest, RelRestore, RstCheck, Parked}"
  shows "l' = l \<and> nest p' \<le> nest p \<and>
    pc p' \<in> {Idle, AcqCheck, AcqSpin, TryCheck, TryLock, TryFail, RelTest, RelRestore, RstCheck, Parked}"
  using assms
  by (cases a; cases "pc p") (auto simp: cpu_step_def smp_raw_try_def smp_local_irq_save_def smp_local_irq_restore_def split: if_splits)

lemma lock_dead_step:
  assumes "lock_dead s" "sys_step e a s = Some t"
  shows "lock_dead t \<and> (\<forall>x. nest (cpus t x) \<le> nest (cpus s x))"
proof -
  obtain l' p' where cs: "cpu_step e a (lk s) (cpus s e) = Some (l', p')" and t: "t = \<lparr>lk = l', cpus = (cpus s)(e := p')\<rparr>"
    using assms(2) by (auto simp: sys_step_def split: option.splits)
  from dead_core [OF cs] assms(1) show ?thesis by (simp add: lock_dead_def t)
qed

lemma lock_dead_forever:
  "smp_exec as s = Some u \<Longrightarrow> lock_dead s \<Longrightarrow> lock_dead u \<and> (\<forall>e. nest (cpus u e) \<le> nest (cpus s e))"
proof (induction as s rule: smp_exec.induct)
  case (2 c a as s)
  obtain t where t: "sys_step c a s = Some t" "smp_exec as t = Some u"
    using 2(2) by (auto split: option.splits)
  show ?case using 2(1) [OF t(1,2)] lock_dead_step [OF 2(3) t(1)] by (meson le_trans)
qed simp

text \<open>
  C4: \<^verbatim>\<open>sdk_smp_lock_reset\<close> clears the lock word before the owner and depth fields, and that
  loses the lock. From every reachable state in which core \<open>c\<close> holds the lock outside the lock
  code, at any depth, and core \<open>d\<close> spins for it, there is a schedule of \<open>c\<close>'s fault recovery and
  \<open>d\<close>'s acquire after which \<open>d\<close> has returned from its acquire as the only holder, but the lock
  word is set with no owner and depth 0. After that, whatever calls and faults of any cores
  follow, the word is never cleared and no core gains a level of the lock again: \<open>d\<close>'s release
  gives nothing back, and every later acquire spins for ever with interrupts masked.
\<close>

theorem smp_reset_race_deadlock:
  assumes "smp_reach s" "pc (cpus s c) = Idle" "0 < nest (cpus s c)" "pc (cpus s d) = AcqSpin"
  shows "\<exists>t. smp_exec ([(c, Fault), (c, Exec True), (c, Exec True)] @ replicate 4 (d, Exec True) @
        replicate 3 (c, Exec True)) s = Some t \<and>
    pc (cpus t c) = Parked \<and> pc (cpus t d) = Idle \<and> ret (cpus t d) = 1 \<and> nest (cpus t d) = 1 \<and> masked (cpus t d) \<and>
    (\<forall>e. e \<noteq> d \<longrightarrow> nest (cpus t e) = 0) \<and> raw (lk t) = 1 \<and> owner (lk t) = -1 \<and> depth (lk t) = 0 \<and>
    (\<forall>as u. smp_exec as t = Some u \<longrightarrow> raw (lk u) = 1 \<and> owner (lk u) = -1 \<and> depth (lk u) = 0 \<and>
       (\<forall>e. nest (cpus u e) \<le> nest (cpus t e)))"
proof -
  obtain l f where s: "s = \<lparr>lk = l, cpus = f\<rparr>" by (cases s) auto
  have inv: "smp_inv s" using assms(1) by (rule smp_reach_inv)
  have own: "owner l = int c" using cpu_idle_ok(1) [OF assms(1-3)] by (simp add: s)
  have cd: "c \<noteq> d" "d \<noteq> c" using assms(2,4) by auto
  have cc: "crit (f c)" using assms(3) by (simp add: s crit_def)
  have out: "\<not> crit (f e)" if "e \<noteq> c" for e using inv cc that by (auto simp: s smp_inv_def)
  have pcs: "pc_ok (pc (f e)) l (f e)" for e using inv by (simp add: s smp_inv_def)
  have md: "masked (f d)" using pcs [of d] assms(4) by (simp add: s)
  define t where "t = \<lparr>lk = l\<lparr>raw := 1, owner := -1, depth := 0, saved_irq := 0\<rparr>,
    cpus = f(c := (f c)\<lparr>nest := 0, masked := True, pc := Parked\<rparr>, d := (f d)\<lparr>pc := Idle, ret := 1, nest := 1\<rparr>)\<rparr>"
  have run: "smp_exec ([(c, Fault), (c, Exec True), (c, Exec True)] @ replicate 4 (d, Exec True) @
        replicate 3 (c, Exec True)) s = Some t"
    using assms(2,4) own cd
    by (simp add: s t_def numeral_eq_Suc sys_step_upd cpu_step_def smp_raw_try_def fun_upd_twist [OF cd(1)])
  have "pc (cpus t e) \<in> {Idle, AcqCheck, AcqSpin, TryCheck, TryLock, TryFail, RelTest, RelRestore, RstCheck, Parked}" for e
  proof (cases "e = c \<or> e = d")
    case True
    then show ?thesis using cd by (auto simp: t_def)
  next
    case False
    then show ?thesis using out [of e] pcs [of e] by (cases "pc (f e)") (auto simp: t_def crit_def)
  qed
  then have dead: "lock_dead t" by (simp add: lock_dead_def t_def)
  have idle: "nest (cpus t e) = 0" if "e \<noteq> d" for e
    using out [of e] that by (cases "e = c") (auto simp: t_def crit_def)
  show ?thesis
  proof (intro exI conjI)
    show "\<forall>as u. smp_exec as t = Some u \<longrightarrow> raw (lk u) = 1 \<and> owner (lk u) = -1 \<and> depth (lk u) = 0 \<and>
       (\<forall>e. nest (cpus u e) \<le> nest (cpus t e))"
      using lock_dead_forever [OF _ dead] unfolding lock_dead_def by blast
  qed (use run idle cd md in \<open>auto simp: t_def\<close>)
qed

theorem smp_reset_race_deadlock_witness:
  "\<exists>s t. smp_reach s \<and> nest (cpus s 1) = 2 \<and> pc (cpus s 0) = AcqSpin \<and>
     smp_exec ([(1, Fault), (1, Exec True), (1, Exec True)] @ replicate 4 (0, Exec True) @ replicate 3 (1, Exec True)) s = Some t \<and>
     nest (cpus t 0) = 1 \<and> raw (lk t) = 1 \<and> owner (lk t) = -1"
proof -
  obtain s where s: "smp_reach s" "pc (cpus s 1) = Idle" "nest (cpus s 1) = 2" "pc (cpus s 0) = AcqSpin"
    using smp_contended_run by blast
  with smp_reset_race_deadlock [of s 1 0] show ?thesis by auto
qed

end
