(* ===== verification/TaskQueue.thy ===== *)
theory TaskQueue
  imports Prelude
begin

unbundle bit_operations_syntax

text \<open>
  The dual-core task queue (\<^verbatim>\<open>scheduler.c\<close>, \<^verbatim>\<open>scheduler.h\<close>): the sequential
  operations, then the two cores as interleaved steps in which a claim scan
  reads one slot state, or tries one compare-and-swap, at a time. The order in
  which core 0 harvests, drains and enqueues is that of \<^verbatim>\<open>scheduler_core0_poll\<close>
  and of the worker loop in \<^verbatim>\<open>scheduler_arm.c\<close>. The steps include the quiesce before
  a mailbox reset, which clears the slots one by one while core 1 may still be
  writing, and a cold restart of core 1 at any point of its task.
\<close>

section \<open>Queue operations\<close>

datatype taskq_state = TASK_FREE | TASK_QUEUED | TASK_CLAIMED | TASK_DONE | TASK_FAILED

datatype taskq_class = TASK_SHORT | TASK_LONG

record taskq_desc =
  tstate :: taskq_state
  cls :: taskq_class
  opcode :: u32
  in_addr :: u32
  in_len :: u32
  out_addr :: u32
  out_cap :: u32
  request_id :: u32
  user_cookie :: u32
  result_status :: u16
  result_len :: u16
  result_payload :: "u8 list"
  op_params :: "u8 list"

record taskq =
  descs :: "taskq_desc list"
  enqueue_cursor :: nat

definition TASKQ_CAPACITY :: nat where "TASKQ_CAPACITY = 16"
definition TASKQ_SHORT_MAX_BYTES :: u32 where "TASKQ_SHORT_MAX_BYTES = 4096"
definition TASKQ_RESULT_PAYLOAD :: nat where "TASKQ_RESULT_PAYLOAD = 48"
definition TASKQ_OP_PARAM_BYTES :: nat where "TASKQ_OP_PARAM_BYTES = 48"

abbreviation slot_state :: "taskq \<Rightarrow> nat \<Rightarrow> taskq_state" where
  "slot_state q i \<equiv> tstate (descs q ! i)"

text \<open>The compare-and-swap on one slot's state: the new queue and whether it was made.\<close>

definition taskq_cas :: "taskq \<Rightarrow> nat \<Rightarrow> taskq_state \<Rightarrow> taskq_state \<Rightarrow> bool \<times> taskq" where
  "taskq_cas q i expected desired =
     (if slot_state q i = expected
      then (True, q\<lparr>descs := (descs q)[i := (descs q ! i)\<lparr>tstate := desired\<rparr>]\<rparr>)
      else (False, q))"

definition taskq_store_release :: "taskq \<Rightarrow> nat \<Rightarrow> taskq_state \<Rightarrow> taskq" where
  "taskq_store_release q i v = q\<lparr>descs := (descs q)[i := (descs q ! i)\<lparr>tstate := v\<rparr>]\<rparr>"

definition taskq_init :: "taskq \<Rightarrow> taskq" where
  "taskq_init q = \<lparr>descs = map (\<lambda>d. d\<lparr>tstate := TASK_FREE\<rparr>) (take TASKQ_CAPACITY (descs q)),
     enqueue_cursor = 0\<rparr>"

text \<open>The request a producer enqueues; \<open>params = None\<close> is a NULL \<^verbatim>\<open>op_params\<close>.\<close>

record taskq_request =
  rq_opcode :: u32
  rq_cls :: taskq_class
  rq_in_addr :: u32
  rq_in_len :: u32
  rq_out_addr :: u32
  rq_out_cap :: u32
  rq_request_id :: u32
  rq_user_cookie :: u32
  rq_params :: "u8 list option"
  rq_param_len :: u32

text \<open>The 48 parameter bytes: the caller's first \<open>n\<close>, then zeros.\<close>

definition taskq_params :: "taskq_request \<Rightarrow> u8 list" where
  "taskq_params r =
     (let n = (if unat (rq_param_len r) < TASKQ_OP_PARAM_BYTES then unat (rq_param_len r)
               else TASKQ_OP_PARAM_BYTES)
      in map (\<lambda>k. case rq_params r of None \<Rightarrow> 0 | Some p \<Rightarrow> if k < n then p ! k else 0)
             [0..<TASKQ_OP_PARAM_BYTES])"

definition taskq_fill :: "taskq_request \<Rightarrow> taskq_desc \<Rightarrow> taskq_desc" where
  "taskq_fill r d = d\<lparr>cls := rq_cls r, opcode := rq_opcode r, in_addr := rq_in_addr r,
     in_len := rq_in_len r, out_addr := rq_out_addr r, out_cap := rq_out_cap r,
     request_id := rq_request_id r, user_cookie := rq_user_cookie r, result_status := 0,
     result_len := 0, op_params := taskq_params r\<rparr>"

text \<open>
  The slot search from the cursor, \<open>n\<close> slots left to try, the first at
  offset \<open>i\<close>; then the fill and the publishing store.
\<close>

fun taskq_free_slot :: "taskq \<Rightarrow> nat \<Rightarrow> nat \<Rightarrow> nat option" where
  "taskq_free_slot q i 0 = None"
| "taskq_free_slot q i (Suc n) =
     (let idx = (enqueue_cursor q + i) mod TASKQ_CAPACITY
      in if slot_state q idx = TASK_FREE then Some idx else taskq_free_slot q (Suc i) n)"

definition taskq_enqueue :: "taskq_request \<Rightarrow> taskq \<Rightarrow> int \<times> taskq" where
  "taskq_enqueue r q =
     (case taskq_free_slot q 0 TASKQ_CAPACITY of
        None \<Rightarrow> (-1, q)
      | Some idx \<Rightarrow>
          let q1 = q\<lparr>descs := (descs q)[idx := taskq_fill r (descs q ! idx)]\<rparr>;
              q2 = taskq_store_release q1 idx TASK_QUEUED
          in (int idx, q2\<lparr>enqueue_cursor := (idx + 1) mod TASKQ_CAPACITY\<rparr>))"

text \<open>The first slot from \<open>i\<close> on that satisfies a test, with \<open>n\<close> slots left.\<close>

fun slot_scan :: "(taskq_desc \<Rightarrow> bool) \<Rightarrow> taskq \<Rightarrow> nat \<Rightarrow> nat \<Rightarrow> nat option" where
  "slot_scan P q i 0 = None"
| "slot_scan P q i (Suc n) = (if P (descs q ! i) then Some i else slot_scan P q (Suc i) n)"

text \<open>The claims with the other core standing still, when the compare-and-swap cannot fail.\<close>

definition taskq_claim_any :: "taskq \<Rightarrow> int \<times> taskq" where
  "taskq_claim_any q =
     (case slot_scan (\<lambda>d. tstate d = TASK_QUEUED) q 0 TASKQ_CAPACITY of
        None \<Rightarrow> (-1, q)
      | Some i \<Rightarrow> (int i, snd (taskq_cas q i TASK_QUEUED TASK_CLAIMED)))"

definition taskq_claim_short :: "taskq \<Rightarrow> int \<times> taskq" where
  "taskq_claim_short q =
     (case slot_scan (\<lambda>d. tstate d = TASK_QUEUED \<and> cls d = TASK_SHORT) q 0 TASKQ_CAPACITY of
        None \<Rightarrow> (-1, q)
      | Some i \<Rightarrow> (int i, snd (taskq_cas q i TASK_QUEUED TASK_CLAIMED)))"

text \<open>A NULL payload writes zeros; a longer one is cut to the payload field.\<close>

definition taskq_complete :: "nat \<Rightarrow> u16 \<Rightarrow> u8 list option \<Rightarrow> u16 \<Rightarrow> taskq \<Rightarrow> taskq" where
  "taskq_complete slot status payload payload_len q =
     (let n = (if unat payload_len > TASKQ_RESULT_PAYLOAD then TASKQ_RESULT_PAYLOAD else unat payload_len);
          d = descs q ! slot;
          bytes = map (\<lambda>k. case payload of None \<Rightarrow> 0 | Some p \<Rightarrow> p ! k) [0..<n]
      in taskq_store_release
           (q\<lparr>descs := (descs q)[slot := d\<lparr>result_status := status, result_len := of_nat n,
                result_payload := bytes @ drop n (result_payload d)\<rparr>]\<rparr>) slot TASK_DONE)"

definition taskq_fail :: "nat \<Rightarrow> u16 \<Rightarrow> taskq \<Rightarrow> taskq" where
  "taskq_fail slot status q =
     taskq_store_release
       (q\<lparr>descs := (descs q)[slot := (descs q ! slot)\<lparr>result_status := status, result_len := 0\<rparr>]\<rparr>)
       slot TASK_FAILED"

definition taskq_harvest :: "taskq \<Rightarrow> int" where
  "taskq_harvest q =
     (case slot_scan (\<lambda>d. tstate d = TASK_DONE \<or> tstate d = TASK_FAILED) q 0 TASKQ_CAPACITY of
        None \<Rightarrow> -1 | Some i \<Rightarrow> int i)"

definition taskq_release :: "nat \<Rightarrow> taskq \<Rightarrow> taskq" where
  "taskq_release slot q = taskq_store_release q slot TASK_FREE"

definition taskq_has_active :: "taskq \<Rightarrow> bool" where
  "taskq_has_active q =
     (slot_scan (\<lambda>d. tstate d = TASK_QUEUED \<or> tstate d = TASK_CLAIMED) q 0 TASKQ_CAPACITY \<noteq> None)"

section \<open>Policies\<close>

definition taskq_class_for_opcode :: "u32 \<Rightarrow> u32 \<Rightarrow> taskq_class" where
  "taskq_class_for_opcode op len =
     (if op = 0x0803 \<or> op = 0x0804 then TASK_SHORT
      else if op = 0x0800 \<or> op = 0x0801 \<or> op = 0x0802
        then (if len \<le> TASKQ_SHORT_MAX_BYTES then TASK_SHORT else TASK_LONG)
      else if op = 0x0600 then TASK_LONG
      else if op = 0x0400 \<or> op = 0x0407
        then (if len \<le> TASKQ_SHORT_MAX_BYTES then TASK_SHORT else TASK_LONG)
      else if op = 0x0401 \<or> op = 0x0500 then TASK_LONG
      else if op \<in> {0x0405, 0x0406, 0x0408, 0x0409, 0x040a, 0x040b} then TASK_LONG
      else if op \<in> {0x0504, 0x0505, 0x0506} then TASK_LONG
      else if op \<in> {0x0b01, 0x0b02, 0x0b03, 0x0b05, 0x0b06, 0x0b07, 0x0b0d} then TASK_LONG
      else TASK_LONG)"

definition taskq_should_drain :: "bool \<Rightarrow> bool \<Rightarrow> bool \<Rightarrow> bool" where
  "taskq_should_drain zorro_pending display_pending core1_enabled =
     (if \<not> core1_enabled then False else \<not> zorro_pending \<and> \<not> display_pending)"

datatype sched_worker_action =
  ACTION_RESET | ACTION_TASK | ACTION_MINIGL | ACTION_POLL_IDLE | ACTION_WFE

definition sched_worker_decide :: "bool \<Rightarrow> bool \<Rightarrow> bool \<Rightarrow> bool \<Rightarrow> sched_worker_action" where
  "sched_worker_decide reset_requested task_available minigl_work minigl_bound =
     (if reset_requested then ACTION_RESET else if task_available then ACTION_TASK
      else if minigl_work then ACTION_MINIGL else if minigl_bound then ACTION_POLL_IDLE
      else ACTION_WFE)"

datatype minigl_reset_phase =
  RESET_IDLE | RESET_WAIT | RESET_ACKED | RESET_LOCAL | RESET_ABORT

definition sched_minigl_reset_phase :: "bool \<Rightarrow> bool \<Rightarrow> bool \<Rightarrow> int \<Rightarrow> int \<Rightarrow> minigl_reset_phase" where
  "sched_minigl_reset_phase core1_up posted acked elapsed_ms budget_ms =
     (if acked then RESET_ACKED
      else if \<not> core1_up then (if posted then RESET_ABORT else RESET_LOCAL)
      else if \<not> posted then RESET_IDLE
      else if budget_ms \<ge> 0 \<and> elapsed_ms \<ge> budget_ms then RESET_ABORT
      else RESET_WAIT)"

record taskq_watchdog =
  consecutive_faults :: u32
  fault_threshold :: u32
  core1_enabled :: bool

definition taskq_watchdog_init :: "u32 \<Rightarrow> taskq_watchdog" where
  "taskq_watchdog_init threshold =
     \<lparr>consecutive_faults = 0, fault_threshold = threshold, core1_enabled = True\<rparr>"

definition taskq_watchdog_on_fault :: "taskq_watchdog \<Rightarrow> taskq_watchdog" where
  "taskq_watchdog_on_fault w =
     (let w1 = w\<lparr>consecutive_faults := consecutive_faults w + 1\<rparr>
      in if fault_threshold w1 \<noteq> 0 \<and> consecutive_faults w1 \<ge> fault_threshold w1
         then w1\<lparr>core1_enabled := False\<rparr> else w1)"

definition taskq_watchdog_on_success :: "taskq_watchdog \<Rightarrow> taskq_watchdog" where
  "taskq_watchdog_on_success w = w\<lparr>consecutive_faults := 0\<rparr>"

definition taskq_stress_fill :: "u32 \<Rightarrow> u32 \<Rightarrow> u32" where
  "taskq_stress_fill seed index =
     (let x = seed XOR (index * 2654435761);
          x = x XOR drop_bit 15 x;
          x = x * 2246822519
      in x XOR drop_bit 13 x)"

definition taskq_stress_check :: "u32 \<Rightarrow> u32 \<Rightarrow> u32 \<Rightarrow> bool" where
  "taskq_stress_check seed index v = (taskq_stress_fill seed index = v)"

section \<open>Sequential behaviour\<close>

definition taskq_ok :: "taskq \<Rightarrow> bool" where
  "taskq_ok q \<longleftrightarrow> length (descs q) = TASKQ_CAPACITY \<and> enqueue_cursor q < TASKQ_CAPACITY"

lemmas taskq_consts = TASKQ_CAPACITY_def TASKQ_SHORT_MAX_BYTES_def TASKQ_RESULT_PAYLOAD_def
  TASKQ_OP_PARAM_BYTES_def

lemma slot_scan_None: "slot_scan P q i n = None \<longleftrightarrow> (\<forall>j. i \<le> j \<and> j < i + n \<longrightarrow> \<not> P (descs q ! j))"
  by (induction n arbitrary: i) (simp_all only: slot_scan.simps interval_Suc, auto)

lemma slot_scan_Some:
  "slot_scan P q i n = Some k \<Longrightarrow> i \<le> k \<and> k < i + n \<and> P (descs q ! k) \<and> (\<forall>j. i \<le> j \<and> j < k \<longrightarrow> \<not> P (descs q ! j))"
proof (induction n arbitrary: i)
  case (Suc n)
  show ?case
  proof (cases "P (descs q ! i)")
    case False
    with Suc.prems have "slot_scan P q (Suc i) n = Some k" by simp
    from Suc.IH [OF this] have k: "Suc i \<le> k" "k < Suc i + n" "P (descs q ! k)"
      "\<forall>j. Suc i \<le> j \<and> j < k \<longrightarrow> \<not> P (descs q ! j)" by auto
    have "\<not> P (descs q ! j)" if "i \<le> j" "j < k" for j
      using k(4) False that by (cases "j = i") auto
    with k show ?thesis by auto
  qed (use Suc.prems in auto)
qed simp

lemma taskq_free_slot_None:
  "taskq_free_slot q i n = None \<longleftrightarrow>
    (\<forall>j. i \<le> j \<and> j < i + n \<longrightarrow> slot_state q ((enqueue_cursor q + j) mod TASKQ_CAPACITY) \<noteq> TASK_FREE)"
  by (induction n arbitrary: i) (simp_all only: taskq_free_slot.simps interval_Suc Let_def, auto)

lemma taskq_free_slot_Some:
  "taskq_free_slot q i n = Some k \<Longrightarrow> k < TASKQ_CAPACITY \<and> slot_state q k = TASK_FREE"
  by (induction n arbitrary: i) (auto simp: Let_def taskq_consts split: if_splits)

text \<open>The cyclic search reaches every slot.\<close>

lemma taskq_free_slot_all:
  assumes "enqueue_cursor q < TASKQ_CAPACITY"
  shows "taskq_free_slot q 0 TASKQ_CAPACITY = None \<longleftrightarrow>
    (\<forall>i<TASKQ_CAPACITY. slot_state q i \<noteq> TASK_FREE)"
proof -
  have "\<exists>j<16. (enqueue_cursor q + j) mod 16 = i" if "i < 16" for i
  proof (cases "enqueue_cursor q \<le> i")
    case True
    with that show ?thesis by (intro exI [of _ "i - enqueue_cursor q"]) auto
  next
    case False
    with that assms have "(enqueue_cursor q + (i + 16 - enqueue_cursor q)) mod 16 = i"
      by (simp add: taskq_consts)
    with that False show ?thesis by (intro exI [of _ "i + 16 - enqueue_cursor q"]) auto
  qed
  then show ?thesis
    by (auto simp: taskq_free_slot_None taskq_consts)
qed

text \<open>
  an enqueue takes a free slot exactly when there is one: it writes the request's fields
  and its 48 parameter bytes (padded with zeros, never past the caller's length),
  publishes the slot, and leaves every other slot alone; on a full queue it
  returns -1 and changes nothing.
\<close>

theorem taskq_enqueue_spec:
  assumes ok: "taskq_ok q" and res: "taskq_enqueue r q = (ret, q')"
  shows "taskq_ok q' \<and>
    (ret = -1 \<longleftrightarrow> (\<forall>i<TASKQ_CAPACITY. slot_state q i \<noteq> TASK_FREE)) \<and> (ret = -1 \<longrightarrow> q' = q) \<and>
    (ret \<noteq> -1 \<longrightarrow> (\<exists>i<TASKQ_CAPACITY. ret = int i \<and> slot_state q i = TASK_FREE \<and>
       descs q' = (descs q)[i := (taskq_fill r (descs q ! i))\<lparr>tstate := TASK_QUEUED\<rparr>] \<and>
       length (op_params (descs q' ! i)) = 48 \<and>
       (\<forall>k<48. op_params (descs q' ! i) ! k =
         (case rq_params r of Some p \<Rightarrow> if k < unat (rq_param_len r) then p ! k else 0 | None \<Rightarrow> 0))))"
proof (cases "taskq_free_slot q 0 TASKQ_CAPACITY")
  case None
  then show ?thesis using res ok taskq_free_slot_all [of q]
    by (auto simp: taskq_enqueue_def taskq_ok_def)
next
  case (Some i)
  note i = taskq_free_slot_Some [OF Some]
  have q': "ret = int i" "descs q' = (descs q)[i := (taskq_fill r (descs q ! i))\<lparr>tstate := TASK_QUEUED\<rparr>]"
    "enqueue_cursor q' = (i + 1) mod TASKQ_CAPACITY"
    using res Some ok i by (auto simp: taskq_enqueue_def Let_def taskq_store_release_def taskq_ok_def)
  have "\<not> (\<forall>i<TASKQ_CAPACITY. slot_state q i \<noteq> TASK_FREE)"
    using i by blast
  moreover have "op_params (descs q' ! i) = taskq_params r"
    using q'(2) i ok by (simp add: taskq_fill_def taskq_ok_def)
  ultimately show ?thesis
    using q' i ok by (auto simp: taskq_ok_def taskq_consts taskq_params_def Let_def split: option.splits)
qed

text \<open>What the claims return: the lowest slot that qualifies.\<close>

lemma taskq_claim_any_cases:
  obtains (none) "\<forall>i<TASKQ_CAPACITY. slot_state q i \<noteq> TASK_QUEUED" "taskq_claim_any q = (-1, q)"
  | (claimed) i where "i < TASKQ_CAPACITY" "slot_state q i = TASK_QUEUED"
      "taskq_claim_any q = (int i, taskq_store_release q i TASK_CLAIMED)"
proof (cases "slot_scan (\<lambda>d. tstate d = TASK_QUEUED) q 0 TASKQ_CAPACITY")
  case None
  then have "taskq_claim_any q = (-1, q)" by (simp add: taskq_claim_any_def)
  with None show ?thesis by (intro none) (simp_all add: slot_scan_None)
next
  case (Some i)
  from slot_scan_Some [OF this] Some show ?thesis
    using claimed [of i] by (simp add: taskq_claim_any_def taskq_cas_def taskq_store_release_def)
qed

text \<open>Only small asymmetric, hash, cipher and scaling work may run on core 0.\<close>

lemma taskq_short_opcodes:
  "taskq_class_for_opcode op len = TASK_SHORT \<longleftrightarrow>
    op \<in> {0x0803, 0x0804} \<or> op \<in> {0x0800, 0x0801, 0x0802, 0x0400, 0x0407} \<and> len \<le> 4096"
  by (auto simp: taskq_class_for_opcode_def taskq_consts)

text \<open>The watchdog over a history of outcomes: True is a fault.\<close>

definition watchdog_run :: "u32 \<Rightarrow> bool list \<Rightarrow> taskq_watchdog" where
  "watchdog_run threshold es =
     foldl (\<lambda>w fault. if fault then taskq_watchdog_on_fault w else taskq_watchdog_on_success w)
       (taskq_watchdog_init threshold) es"

text \<open>The number of faults since the last success.\<close>

definition fault_tail :: "bool list \<Rightarrow> nat" where
  "fault_tail es = length (takeWhile id (rev es))"

lemma fault_tail_snoc: "fault_tail (es @ [e]) = (if e then Suc (fault_tail es) else 0)"
  by (simp add: fault_tail_def)

lemma fault_tail_le: "fault_tail es \<le> length es"
  unfolding fault_tail_def by (metis length_rev length_takeWhile_le)

lemma watchdog_run_spec:
  assumes "length es < 4294967296"
  shows "unat (consecutive_faults (watchdog_run thr es)) = fault_tail es \<and>
    fault_threshold (watchdog_run thr es) = thr \<and>
    (core1_enabled (watchdog_run thr es) \<longleftrightarrow>
      thr = 0 \<or> (\<forall>n\<le>length es. fault_tail (take n es) < unat thr \<or> n = 0))"
  using assms
proof (induction es rule: rev_induct)
  case Nil
  then show ?case
    by (simp add: watchdog_run_def taskq_watchdog_init_def fault_tail_def)
next
  case (snoc e es)
  let ?w = "watchdog_run thr es"
  have ih: "unat (consecutive_faults ?w) = fault_tail es" "fault_threshold ?w = thr"
    "core1_enabled ?w \<longleftrightarrow> thr = 0 \<or> (\<forall>n\<le>length es. fault_tail (take n es) < unat thr \<or> n = 0)"
    using snoc by auto
  have run: "watchdog_run thr (es @ [x]) =
      (if x then taskq_watchdog_on_fault ?w else taskq_watchdog_on_success ?w)" for x
    by (simp add: watchdog_run_def)
  have up: "unat (consecutive_faults ?w + 1) = Suc (fault_tail es)"
    using fault_tail_le [of es] snoc.prems by (simp add: unat_plus_no_wrap ih(1))
  have all: "(\<forall>n\<le>length (es @ [e]). fault_tail (take n (es @ [e])) < unat thr \<or> n = 0) \<longleftrightarrow>
      (\<forall>n\<le>length es. fault_tail (take n es) < unat thr \<or> n = 0) \<and> fault_tail (es @ [e]) < unat thr"
    by (auto simp: le_Suc_eq)
  have z: "thr \<noteq> 0 \<Longrightarrow> 0 < unat thr" by (simp add: unat_gt_0)
  show ?case
  proof (cases e)
    case True
    then show ?thesis unfolding all using ih up
      by (auto simp: run fault_tail_snoc taskq_watchdog_on_fault_def Let_def word_le_nat_alt not_less)
  next
    case False
    then show ?thesis unfolding all using ih z
      by (auto simp: run fault_tail_snoc taskq_watchdog_on_success_def)
  qed
qed

text \<open>
  the fault watchdog. After any history of faults and successes, core 1 is
  still enabled exactly when no run of \<open>threshold\<close> consecutive faults has occurred
  (and always for threshold 0).
\<close>

theorem taskq_watchdog_trips:
  assumes "length es < 4294967296" "thr \<noteq> 0"
  shows "core1_enabled (watchdog_run thr es) \<longleftrightarrow>
    (\<forall>xs ys. es = xs @ ys \<longrightarrow> fault_tail xs < unat thr)"
proof -
  have "fault_tail [] < unat thr" using assms(2) by (simp add: fault_tail_def unat_gt_0)
  moreover have "(\<forall>n\<le>length es. fault_tail (take n es) < unat thr \<or> n = 0) \<longleftrightarrow>
      (\<forall>n\<le>length es. fault_tail (take n es) < unat thr)"
    using calculation by auto
  moreover have "(\<forall>n\<le>length es. fault_tail (take n es) < unat thr) \<longleftrightarrow>
      (\<forall>xs ys. es = xs @ ys \<longrightarrow> fault_tail xs < unat thr)"
    by (metis append_eq_conv_conj append_take_drop_id length_append le_add1)
  ultimately show ?thesis using watchdog_run_spec [OF assms(1), of thr] assms(2) by simp
qed

theorem taskq_watchdog_trips_witness:
  "core1_enabled (watchdog_run 3 [True, True, False, True, True]) \<longleftrightarrow>
    (\<forall>xs ys. [True, True, False, True, True] = xs @ ys \<longrightarrow> fault_tail xs < 3)"
  using taskq_watchdog_trips [of "[True, True, False, True, True]" 3] by simp

section \<open>The two cores\<close>

text \<open>
  A core's claim in progress: it is about to read the state of slot \<open>i\<close>, to read
  its class, or to try the swap; \<open>Got\<close> is a core running a claimed task. The flag
  is True for \<^verbatim>\<open>taskq_claim_short\<close>.
\<close>

datatype claim_pc = Outside | ScanState bool nat | ScanCls bool nat | Cas bool nat | Got bool nat

text \<open>One step of the claim loops of \<^verbatim>\<open>taskq_claim_any\<close> and \<^verbatim>\<open>taskq_claim_short\<close>.\<close>

fun claim_step :: "claim_pc \<Rightarrow> taskq \<Rightarrow> (claim_pc \<times> taskq) option" where
  "claim_step (ScanState short i) q =
     (if i \<ge> TASKQ_CAPACITY then Some (Outside, q)
      else if slot_state q i \<noteq> TASK_QUEUED then Some (ScanState short (Suc i), q)
      else Some (if short then ScanCls short i else Cas short i, q))"
| "claim_step (ScanCls short i) q =
     Some (if cls (descs q ! i) = TASK_SHORT then Cas short i else ScanState short (Suc i), q)"
| "claim_step (Cas short i) q =
     (case taskq_cas q i TASK_QUEUED TASK_CLAIMED of (ok, q') \<Rightarrow>
        Some (if ok then Got short i else ScanState short (Suc i), q'))"
| "claim_step _ q = None"

text \<open>The slot a core has claimed.\<close>

fun running :: "claim_pc \<Rightarrow> nat option" where
  "running (Got short i) = Some i"
| "running _ = None"

text \<open>
  \<open>quiet\<close> is the progress of \<^verbatim>\<open>scheduler_quiesce_for_reset\<close>: the number of slots its
  \<^verbatim>\<open>taskq_init\<close> has cleared, or None outside one; \<open>late\<close> is its \<^verbatim>\<open>timed_out\<close>. \<open>lost\<close> is a
  ghost: the slots whose task ended when core 1 was restarted, still CLAIMED.
\<close>

record tq_sys =
  tq :: taskq
  pc0 :: claim_pc
  pc1 :: claim_pc
  quiet :: "nat option"
  late :: bool
  lost :: "nat set"

text \<open>
  The end of a quiesce: the cursor is back at 0, and when a task had outlived the wait core 1
  is restarted on the empty queue.
\<close>

definition quiesce_end :: "tq_sys \<Rightarrow> tq_sys" where
  "quiesce_end s = s\<lparr>tq := (tq s)\<lparr>enqueue_cursor := 0\<rparr>, pc1 := (if late s then Outside else pc1 s),
     quiet := None, lost := {}\<rparr>"

text \<open>\<^verbatim>\<open>core1_cold_restart\<close>: the worker starts over; a slot it had claimed stays CLAIMED.\<close>

definition core1_cold_restart :: "tq_sys \<Rightarrow> tq_sys" where
  "core1_cold_restart s =
     s\<lparr>pc1 := Outside, lost := (case pc1 s of Got short i \<Rightarrow> insert i (lost s) | _ \<Rightarrow> lost s)\<rparr>"

text \<open>
  The steps of the system. Core 0 enqueues (from the mailbox), harvests and
  releases, starts a SHORT drain, or starts the fallback drain of everything; a
  LONG task the fallback claims is failed, not run. Core 1 is the worker; it
  completes its task or, on an exception, its handler fails it.

  Core 0 may restart core 1 wherever that core stands (a fault, the app watchdog
  of \<^verbatim>\<open>zzapp_host.c\<close>, a cancelled MiniGL reset, a reclaim that is not answered). The
  restart leaves \<^verbatim>\<open>core1_current_slot\<close> naming the lost slot, so an exception before the
  worker's next claim fails that slot (\<open>fault_lost\<close>). A quiesce waits, reads \<^verbatim>\<open>timed_out\<close>
  (True when a slot is active, and possibly when MiniGL is busy or a task has just
  ended), and then clears slot after slot while core 1 goes on; core 0 does
  nothing else until it is over.

  Left out are two windows of one store each around \<^verbatim>\<open>core1_current_slot\<close>: an exception of
  core 1 between a task's completion and the store of -1, and a worker that
  claims a slot just before the quiesce clears it, stores the slot's index after the
  quiesce stored -1, and is then restarted.
\<close>

inductive tq_step :: "tq_sys \<Rightarrow> tq_sys \<Rightarrow> bool" where
  enqueue: "pc0 s = Outside \<Longrightarrow> quiet s = None \<Longrightarrow>
    tq_step s (s\<lparr>tq := snd (taskq_enqueue r (tq s))\<rparr>)"
| harvest: "pc0 s = Outside \<Longrightarrow> quiet s = None \<Longrightarrow> taskq_harvest (tq s) = int i \<Longrightarrow>
    tq_step s (s\<lparr>tq := taskq_release i (tq s)\<rparr>)"
| drain0: "pc0 s = Outside \<Longrightarrow> quiet s = None \<Longrightarrow> tq_step s (s\<lparr>pc0 := ScanState short 0\<rparr>)"
| claim0: "claim_step (pc0 s) (tq s) = Some (pc, q) \<Longrightarrow> tq_step s (s\<lparr>pc0 := pc, tq := q\<rparr>)"
| fail0: "pc0 s = Got False i \<Longrightarrow> cls (descs (tq s) ! i) = TASK_LONG \<Longrightarrow>
    tq_step s (s\<lparr>pc0 := ScanState False 0, tq := taskq_fail i 0 (tq s)\<rparr>)"
| run0: "pc0 s = Got short i \<Longrightarrow> short \<or> cls (descs (tq s) ! i) \<noteq> TASK_LONG \<Longrightarrow>
    tq_step s (s\<lparr>pc0 := (if short then Outside else ScanState False 0),
      tq := taskq_complete i status payload len (tq s)\<rparr>)"
| drain1: "pc1 s = Outside \<Longrightarrow> tq_step s (s\<lparr>pc1 := ScanState False 0\<rparr>)"
| claim1: "claim_step (pc1 s) (tq s) = Some (pc, q) \<Longrightarrow> tq_step s (s\<lparr>pc1 := pc, tq := q\<rparr>)"
| run1: "pc1 s = Got short i \<Longrightarrow>
    tq_step s (s\<lparr>pc1 := Outside, tq := taskq_complete i status payload len (tq s)\<rparr>)"
| fault1: "pc1 s = Got short i \<Longrightarrow> tq_step s (s\<lparr>pc1 := Outside, tq := taskq_fail i 0 (tq s)\<rparr>)"
| restart1: "pc0 s = Outside \<Longrightarrow> quiet s = None \<Longrightarrow> tq_step s (core1_cold_restart s)"
| fault_lost: "running (pc1 s) = None \<Longrightarrow> i \<in> lost s \<Longrightarrow>
    tq_step s (s\<lparr>pc1 := Outside, tq := taskq_fail i 0 (tq s), lost := lost s - {i}\<rparr>)"
| quiesce: "pc0 s = Outside \<Longrightarrow> quiet s = None \<Longrightarrow> taskq_has_active (tq s) \<longrightarrow> timed_out \<Longrightarrow>
    tq_step s (s\<lparr>quiet := Some 0, late := timed_out\<rparr>)"
| clear: "quiet s = Some k \<Longrightarrow> k < TASKQ_CAPACITY \<Longrightarrow>
    tq_step s (s\<lparr>tq := taskq_store_release (tq s) k TASK_FREE, quiet := Some (Suc k)\<rparr>)"
| quiesced: "quiet s = Some TASKQ_CAPACITY \<Longrightarrow> tq_step s (quiesce_end s)"

inductive_cases tq_stepE: "tq_step s t"

definition tq_boot :: tq_sys where
  "tq_boot = \<lparr>tq = taskq_init \<lparr>descs = replicate 16
       \<lparr>tstate = TASK_FREE, cls = TASK_SHORT, opcode = 0, in_addr = 0, in_len = 0, out_addr = 0, out_cap = 0,
        request_id = 0, user_cookie = 0, result_status = 0, result_len = 0,
        result_payload = replicate 48 0, op_params = replicate 48 0\<rparr>, enqueue_cursor = 0\<rparr>,
     pc0 = Outside, pc1 = Outside, quiet = None, late = False, lost = {}\<rparr>"

inductive tq_reach :: "tq_sys \<Rightarrow> bool" where
  tq_reach_boot: "tq_reach tq_boot"
| tq_reach_step: "tq_reach s \<Longrightarrow> tq_step s t \<Longrightarrow> tq_reach t"

text \<open>What a position of core 0 promises about its slot.\<close>

fun claim_ok :: "claim_pc \<Rightarrow> taskq \<Rightarrow> bool" where
  "claim_ok (ScanCls short i) q = (short \<and> i < TASKQ_CAPACITY \<and> slot_state q i \<noteq> TASK_FREE)"
| "claim_ok (Cas short i) q = (i < TASKQ_CAPACITY \<and>
     (short \<longrightarrow> slot_state q i \<noteq> TASK_FREE \<and> cls (descs q ! i) = TASK_SHORT))"
| "claim_ok (Got short i) q = (i < TASKQ_CAPACITY \<and> slot_state q i = TASK_CLAIMED \<and>
     (short \<longrightarrow> cls (descs q ! i) = TASK_SHORT))"
| "claim_ok _ q = True"

text \<open>
  Core 1 may meet a slot core 0 has meanwhile released, and run one the quiesce has
  cleared; only its own position is known.
\<close>

fun claim1_ok :: "claim_pc \<Rightarrow> bool" where
  "claim1_ok (ScanState short i) = (\<not> short)"
| "claim1_ok (ScanCls short i) = False"
| "claim1_ok (Cas short i) = (\<not> short \<and> i < TASKQ_CAPACITY)"
| "claim1_ok (Got short i) = (\<not> short \<and> i < TASKQ_CAPACITY)"
| "claim1_ok Outside = True"

text \<open>
  The invariant on the components of a state: the slots a quiesce has not yet
  cleared are CLAIMED exactly while someone holds them; the cleared ones are out of
  the queue, and FREE as long as core 1 still holds them; a quiesce that did not
  time out has nothing to stop.
\<close>

definition slot_held :: "claim_pc \<Rightarrow> claim_pc \<Rightarrow> nat set \<Rightarrow> nat \<Rightarrow> bool" where
  "slot_held p0 p1 ls i \<longleftrightarrow> running p0 = Some i \<or> running p1 = Some i \<or> i \<in> ls"

definition cleared :: "nat option \<Rightarrow> nat" where
  "cleared qt = (case qt of None \<Rightarrow> 0 | Some k \<Rightarrow> k)"

lemma cleared_simps [simp]: "cleared None = 0" "cleared (Some k) = k"
  by (simp_all add: cleared_def)

definition slots_good :: "taskq \<Rightarrow> nat \<Rightarrow> (nat \<Rightarrow> bool) \<Rightarrow> bool" where
  "slots_good q n h \<longleftrightarrow> (\<forall>i<TASKQ_CAPACITY.
     (n \<le> i \<longrightarrow> (slot_state q i = TASK_CLAIMED \<longleftrightarrow> h i)) \<and>
     (i < n \<longrightarrow> slot_state q i \<in> {TASK_FREE, TASK_DONE, TASK_FAILED} \<and> (h i \<longrightarrow> slot_state q i = TASK_FREE)))"

definition holders_apart :: "claim_pc \<Rightarrow> claim_pc \<Rightarrow> nat set \<Rightarrow> bool" where
  "holders_apart p0 p1 ls \<longleftrightarrow> ls \<subseteq> {..<TASKQ_CAPACITY} \<and>
     (\<forall>j. running p0 = Some j \<longrightarrow> running p1 \<noteq> Some j \<and> j \<notin> ls) \<and> (\<forall>j. running p1 = Some j \<longrightarrow> j \<notin> ls)"

definition quiet_good :: "taskq \<Rightarrow> claim_pc \<Rightarrow> claim_pc \<Rightarrow> nat option \<Rightarrow> bool \<Rightarrow> nat set \<Rightarrow> bool" where
  "quiet_good q p0 p1 qt lt ls \<longleftrightarrow> (qt \<noteq> None \<longrightarrow> p0 = Outside \<and> cleared qt \<le> TASKQ_CAPACITY \<and>
     (\<not> lt \<longrightarrow> running p1 = None \<and> ls = {} \<and>
       (\<forall>i<TASKQ_CAPACITY. slot_state q i \<noteq> TASK_QUEUED \<and> slot_state q i \<noteq> TASK_CLAIMED)))"

definition tq_good :: "taskq \<Rightarrow> claim_pc \<Rightarrow> claim_pc \<Rightarrow> nat option \<Rightarrow> bool \<Rightarrow> nat set \<Rightarrow> bool" where
  "tq_good q p0 p1 qt lt ls \<longleftrightarrow> taskq_ok q \<and> claim_ok p0 q \<and> claim1_ok p1 \<and>
     slots_good q (cleared qt) (slot_held p0 p1 ls) \<and> holders_apart p0 p1 ls \<and> quiet_good q p0 p1 qt lt ls"

definition tq_inv :: "tq_sys \<Rightarrow> bool" where
  "tq_inv s \<longleftrightarrow> tq_good (tq s) (pc0 s) (pc1 s) (quiet s) (late s) (lost s)"

text \<open>Every operation rewrites one slot: which one, from which state to which.\<close>

definition slot_moved :: "taskq \<Rightarrow> nat \<Rightarrow> taskq_desc \<Rightarrow> taskq \<Rightarrow> bool" where
  "slot_moved q i d q' \<longleftrightarrow> i < TASKQ_CAPACITY \<and> descs q' = (descs q)[i := d] \<and> enqueue_cursor q' < TASKQ_CAPACITY"

lemma slot_moved_ok: "slot_moved q i d q' \<Longrightarrow> taskq_ok q \<Longrightarrow> taskq_ok q'"
  by (simp add: slot_moved_def taskq_ok_def)

lemma slot_moved_nth:
  "slot_moved q i d q' \<Longrightarrow> taskq_ok q \<Longrightarrow> descs q' ! j = (if j = i then d else descs q ! j)"
  by (auto simp: slot_moved_def taskq_ok_def)

lemma enqueue_moved:
  assumes "taskq_ok q"
  obtains "snd (taskq_enqueue r q) = q"
  | i d where "slot_moved q i d (snd (taskq_enqueue r q))" "slot_state q i = TASK_FREE"
      "tstate d = TASK_QUEUED"
proof (cases "taskq_free_slot q 0 TASKQ_CAPACITY")
  case None
  then show ?thesis using that(1) by (simp add: taskq_enqueue_def)
next
  case (Some i)
  note i = taskq_free_slot_Some [OF Some]
  let ?d = "(taskq_fill r (descs q ! i))\<lparr>tstate := TASK_QUEUED\<rparr>"
  have "slot_moved q i ?d (snd (taskq_enqueue r q))"
    using Some i assms
    by (simp add: slot_moved_def taskq_enqueue_def Let_def taskq_store_release_def taskq_ok_def taskq_consts)
  with i show ?thesis by (intro that(2)) auto
qed

lemma store_moved:
  "taskq_ok q \<Longrightarrow> i < TASKQ_CAPACITY \<Longrightarrow>
    slot_moved q i ((descs q ! i)\<lparr>tstate := v\<rparr>) (taskq_store_release q i v)"
  by (simp add: slot_moved_def taskq_store_release_def taskq_ok_def)

lemma complete_moved:
  assumes "taskq_ok q" "i < TASKQ_CAPACITY"
  obtains d where "slot_moved q i d (taskq_complete i status payload len q)" "tstate d = TASK_DONE"
    "cls d = cls (descs q ! i)"
proof -
  let ?q = "taskq_complete i status payload len q"
  have "i < length (descs q)" using assms by (simp add: taskq_ok_def)
  then have "descs ?q = (descs q)[i := descs ?q ! i]" "tstate (descs ?q ! i) = TASK_DONE"
    "cls (descs ?q ! i) = cls (descs q ! i)" "enqueue_cursor ?q = enqueue_cursor q"
    by (simp_all add: taskq_complete_def Let_def taskq_store_release_def)
  then show ?thesis using assms by (intro that [of "descs ?q ! i"]) (auto simp: slot_moved_def taskq_ok_def)
qed

lemma fail_moved:
  assumes "taskq_ok q" "i < TASKQ_CAPACITY"
  obtains d where "slot_moved q i d (taskq_fail i status q)" "tstate d = TASK_FAILED"
    "cls d = cls (descs q ! i)"
proof -
  let ?q = "taskq_fail i status q"
  have "i < length (descs q)" using assms by (simp add: taskq_ok_def)
  then have "descs ?q = (descs q)[i := descs ?q ! i]" "tstate (descs ?q ! i) = TASK_FAILED"
    "cls (descs ?q ! i) = cls (descs q ! i)" "enqueue_cursor ?q = enqueue_cursor q"
    by (simp_all add: taskq_fail_def taskq_store_release_def)
  then show ?thesis using assms by (intro that [of "descs ?q ! i"]) (auto simp: slot_moved_def taskq_ok_def)
qed

lemma harvest_slot:
  assumes "taskq_harvest q = int i"
  shows "i < TASKQ_CAPACITY \<and> slot_state q i \<in> {TASK_DONE, TASK_FAILED}"
proof -
  obtain k where k: "slot_scan (\<lambda>d. tstate d = TASK_DONE \<or> tstate d = TASK_FAILED) q 0 TASKQ_CAPACITY = Some k"
    "k = i" using assms by (auto simp: taskq_harvest_def split: option.splits)
  show ?thesis using slot_scan_Some [OF k(1)] k(2) by auto
qed

text \<open>A claim step moves a slot only by winning the swap.\<close>

lemma taskq_cas_store:
  "taskq_cas q i a b = (if slot_state q i = a then (True, taskq_store_release q i b) else (False, q))"
  by (simp add: taskq_cas_def taskq_store_release_def)

lemma claim_step_cases:
  assumes "claim_step pc q = Some (pc', q')"
  shows "(\<exists>short i. pc = Cas short i \<and> pc' = Got short i \<and> slot_state q i = TASK_QUEUED \<and>
      q' = taskq_store_release q i TASK_CLAIMED) \<or>
    q' = q \<and> running pc = None \<and> running pc' = None"
  using assms by (cases pc) (fastforce simp: taskq_cas_store split: if_splits)+

lemma claim_step_quiet:
  assumes "claim_step pc q = Some (pc', q)" "running pc' = None"
  shows "claim_ok pc q \<Longrightarrow> claim_ok pc' q" "claim1_ok pc \<Longrightarrow> claim1_ok pc'"
  using assms by (cases pc; simp add: taskq_cas_store split: if_splits; fastforce)+

text \<open>A core's view survives the other core moving a different slot, or a scanned one forward.\<close>

lemma claim_ok_frame:
  assumes "slot_moved q i d q'" "taskq_ok q" "claim_ok pc q" "running pc \<noteq> Some i"
    "tstate d \<noteq> TASK_FREE" "cls d = cls (descs q ! i)"
  shows "claim_ok pc q'"
  using assms by (cases pc) (auto simp: slot_moved_nth [OF assms(1,2)])

lemma running_bound: "claim_ok pc q \<Longrightarrow> running pc = Some i \<Longrightarrow> i < TASKQ_CAPACITY \<and> slot_state q i = TASK_CLAIMED"
  by (cases pc; auto)

lemma running1_bound: "claim1_ok pc \<Longrightarrow> running pc = Some i \<Longrightarrow> i < TASKQ_CAPACITY"
  by (cases pc; auto)

section \<open>The system invariant\<close>

lemma slots_goodD:
  assumes "slots_good q n h" "i < TASKQ_CAPACITY"
  shows "n \<le> i \<Longrightarrow> slot_state q i = TASK_CLAIMED \<longleftrightarrow> h i"
    "i < n \<Longrightarrow> slot_state q i \<in> {TASK_FREE, TASK_DONE, TASK_FAILED}"
    "i < n \<Longrightarrow> h i \<Longrightarrow> slot_state q i = TASK_FREE"
    "slot_state q i = TASK_QUEUED \<Longrightarrow> n \<le> i \<and> \<not> h i"
  using assms unfolding slots_good_def by (cases "n \<le> i"; fastforce)+

text \<open>One slot moves: the others keep their holders.\<close>

lemma slots_good_move:
  assumes "slots_good q n h" "slot_moved q i d q'" "taskq_ok q" "\<And>j. j \<noteq> i \<Longrightarrow> h' j \<longleftrightarrow> h j"
    "n \<le> i \<Longrightarrow> tstate d = TASK_CLAIMED \<longleftrightarrow> h' i"
    "i < n \<Longrightarrow> tstate d \<in> {TASK_DONE, TASK_FAILED} \<and> \<not> h' i"
  shows "slots_good q' n h'"
  unfolding slots_good_def
proof (intro allI impI)
  fix j
  assume j: "j < TASKQ_CAPACITY"
  note S = slots_goodD [OF assms(1) j] and nth = slot_moved_nth [OF assms(2,3)]
  show "(n \<le> j \<longrightarrow> (slot_state q' j = TASK_CLAIMED \<longleftrightarrow> h' j)) \<and>
     (j < n \<longrightarrow> slot_state q' j \<in> {TASK_FREE, TASK_DONE, TASK_FAILED} \<and> (h' j \<longrightarrow> slot_state q' j = TASK_FREE))"
  proof (cases "j = i")
    case True
    then show ?thesis using assms(5,6) by (cases "n \<le> i") (simp_all add: nth)
  next
    case False
    then show ?thesis using S(1-3) assms(4) [OF False] by (cases "n \<le> j") (simp_all add: nth)
  qed
qed

lemma tq_goodD:
  assumes "tq_good q p0 p1 qt lt ls"
  shows "taskq_ok q" "claim_ok p0 q" "claim1_ok p1" "slots_good q (cleared qt) (slot_held p0 p1 ls)"
    "holders_apart p0 p1 ls" "quiet_good q p0 p1 qt lt ls"
  using assms by (auto simp: tq_good_def)

lemma tq_good_unheld:
  assumes "tq_good q p0 p1 qt lt ls" "i < TASKQ_CAPACITY" "cleared qt \<le> i" "slot_state q i \<noteq> TASK_CLAIMED"
  shows "\<not> slot_held p0 p1 ls i"
  using slots_goodD(1) [OF tq_goodD(4) [OF assms(1)] assms(2,3)] assms(4) by simp

text \<open>Outside a quiesce, core 0 moves a slot nobody else holds.\<close>

lemma tq_good_move0:
  assumes g: "tq_good q p0 p1 None lt ls" and mv: "slot_moved q i d q'" and pc: "claim_ok p0' q'"
    and free: "running p1 \<noteq> Some i" "i \<notin> ls"
    and r: "\<And>j. running p0' = Some j \<Longrightarrow> j = i" "\<And>j. running p0 = Some j \<Longrightarrow> j = i"
    and st: "tstate d = TASK_CLAIMED \<longleftrightarrow> running p0' = Some i"
  shows "tq_good q' p0' p1 None lt ls"
proof -
  note G = tq_goodD [OF g]
  have "slots_good q' 0 (slot_held p0' p1 ls)"
  proof (rule slots_good_move [OF _ mv G(1)])
    show "slots_good q 0 (slot_held p0 p1 ls)" using G(4) by simp
    show "slot_held p0' p1 ls j \<longleftrightarrow> slot_held p0 p1 ls j" if "j \<noteq> i" for j
      using r that by (auto simp: slot_held_def)
    show "tstate d = TASK_CLAIMED \<longleftrightarrow> slot_held p0' p1 ls i" using st free by (auto simp: slot_held_def)
  qed simp
  moreover have "holders_apart p0' p1 ls"
    using G(5) free r(1) unfolding holders_apart_def by auto
  ultimately show ?thesis
    using slot_moved_ok [OF mv G(1)] pc G(3) by (simp add: tq_good_def quiet_good_def)
qed

text \<open>Core 1, at work or failing a slot it lost, moves a slot it alone holds or wins.\<close>

lemma tq_good_move1:
  assumes g: "tq_good q p0 p1 qt lt ls" and mv: "slot_moved q i d q'" and pc: "claim1_ok p1'"
    and free: "running p0 \<noteq> Some i"
    and r: "\<And>j. running p1' = Some j \<Longrightarrow> j = i \<and> j \<notin> ls" "\<And>j. running p1 = Some j \<Longrightarrow> j = i"
    and ls: "ls' = ls - {i}"
    and st: "tstate d = TASK_CLAIMED \<longleftrightarrow> running p1' = Some i" "tstate d \<noteq> TASK_FREE" "tstate d \<noteq> TASK_QUEUED"
      "cls d = cls (descs q ! i)"
    and low: "i < cleared qt \<Longrightarrow> running p1' = None"
    and lt: "qt \<noteq> None \<Longrightarrow> lt"
  shows "tq_good q' p0 p1' qt lt ls'"
proof -
  note G = tq_goodD [OF g]
  have "slots_good q' (cleared qt) (slot_held p0 p1' ls')"
  proof (rule slots_good_move [OF G(4) mv G(1)])
    show "slot_held p0 p1' ls' j \<longleftrightarrow> slot_held p0 p1 ls j" if "j \<noteq> i" for j
      using r that by (auto simp: slot_held_def ls)
    show "tstate d = TASK_CLAIMED \<longleftrightarrow> slot_held p0 p1' ls' i" using st free by (auto simp: slot_held_def ls)
    show "tstate d \<in> {TASK_DONE, TASK_FAILED} \<and> \<not> slot_held p0 p1' ls' i" if "i < cleared qt"
      using low [OF that] st free by (cases "tstate d") (auto simp: slot_held_def ls)
  qed
  moreover have "claim_ok p0 q'" using claim_ok_frame [OF mv G(1) G(2) free st(2,4)] .
  moreover have "holders_apart p0 p1' ls'"
    using G(5) free r(1) unfolding holders_apart_def ls by auto
  moreover have "quiet_good q' p0 p1' qt lt ls'" using G(6) lt by (auto simp: quiet_good_def)
  ultimately show ?thesis using slot_moved_ok [OF mv G(1)] pc by (simp add: tq_good_def)
qed

text \<open>A step of a claim loop, on either core.\<close>

lemma tq_good_claim0:
  assumes g: "tq_good q p0 p1 qt lt ls" and st: "claim_step p0 q = Some (pc, q')"
  shows "tq_good q' pc p1 qt lt ls"
  using claim_step_cases [OF st]
proof (elim disjE exE conjE)
  note G = tq_goodD [OF g]
  fix short i
  assume w: "p0 = Cas short i" "pc = Got short i" "slot_state q i = TASK_QUEUED"
    "q' = taskq_store_release q i TASK_CLAIMED"
  have i: "i < TASKQ_CAPACITY" using G(2) w(1) by simp
  have qt: "qt = None" using G(6) w(1) by (auto simp: quiet_good_def)
  note mv = store_moved [OF G(1) i, of TASK_CLAIMED, folded w(4)]
  have "\<not> slot_held p0 p1 ls i" using slots_goodD(4) [OF G(4) i] w(3) by simp
  moreover have "claim_ok pc q'" using G(2) w slot_moved_nth [OF mv G(1)] i by auto
  ultimately show ?thesis using g w unfolding qt
    by (intro tq_good_move0 [OF _ mv]) (auto simp: slot_held_def)
next
  assume w: "q' = q" "running p0 = None" "running pc = None"
  note G = tq_goodD [OF g]
  have qt: "qt = None"
    using G(6) st by (cases p0) (auto simp: quiet_good_def)
  have "claim_ok pc q" using claim_step_quiet(1) [of p0 q pc] st w G(2) by simp
  moreover have "slot_held pc p1 ls = slot_held p0 p1 ls" using w by (auto simp: slot_held_def fun_eq_iff)
  ultimately show ?thesis using G w by (simp add: tq_good_def qt quiet_good_def holders_apart_def)
qed

lemma tq_good_claim1:
  assumes g: "tq_good q p0 p1 qt lt ls" and st: "claim_step p1 q = Some (pc, q')"
  shows "tq_good q' p0 pc qt lt ls"
  using claim_step_cases [OF st]
proof (elim disjE exE conjE)
  note G = tq_goodD [OF g]
  fix short i
  assume w: "p1 = Cas short i" "pc = Got short i" "slot_state q i = TASK_QUEUED"
    "q' = taskq_store_release q i TASK_CLAIMED"
  have i: "i < TASKQ_CAPACITY" using G(3) w(1) by simp
  note mv = store_moved [OF G(1) i, of TASK_CLAIMED, folded w(4)]
  have u: "\<not> slot_held p0 p1 ls i" "cleared qt \<le> i" using slots_goodD(4) [OF G(4) i w(3)] by simp_all
  have lt: "lt" if "qt \<noteq> None" using G(6) that w(3) i by (auto simp: quiet_good_def)
  show ?thesis
    by (rule tq_good_move1 [OF g mv])
      (use u G(3) w lt in \<open>auto simp: slot_held_def\<close>)
next
  assume w: "q' = q" "running p1 = None" "running pc = None"
  note G = tq_goodD [OF g]
  have "claim1_ok pc" using claim_step_quiet(2) [of p1 q pc] st w G(3) by simp
  moreover have "slot_held p0 pc ls = slot_held p0 p1 ls" using w by (auto simp: slot_held_def fun_eq_iff)
  ultimately show ?thesis using G w by (simp add: tq_good_def quiet_good_def holders_apart_def)
qed

text \<open>Core 1's task ends, in order or by an exception; its slot may have been cleared.\<close>

lemma tq_good_end1:
  assumes g: "tq_good q p0 (Got short i) qt lt ls" and mv: "slot_moved q i d q'"
    and d: "tstate d \<in> {TASK_DONE, TASK_FAILED}" "cls d = cls (descs q ! i)"
  shows "tq_good q' p0 Outside qt lt ls"
proof -
  note G = tq_goodD [OF g]
  have "i \<notin> ls" "running p0 \<noteq> Some i" using G(5) by (auto simp: holders_apart_def)
  moreover have "lt" if "qt \<noteq> None" using G(6) that by (auto simp: quiet_good_def)
  ultimately show ?thesis using d by (intro tq_good_move1 [OF g mv]) auto
qed

lemma tq_good_fault_lost:
  assumes g: "tq_good q p0 p1 qt lt ls" and r: "running p1 = None" "i \<in> ls"
  shows "tq_good (taskq_fail i 0 q) p0 Outside qt lt (ls - {i})"
proof -
  note G = tq_goodD [OF g]
  have i: "i < TASKQ_CAPACITY" "running p0 \<noteq> Some i" using G(5) r(2) by (auto simp: holders_apart_def)
  obtain d where d: "slot_moved q i d (taskq_fail i 0 q)" "tstate d = TASK_FAILED" "cls d = cls (descs q ! i)"
    by (rule fail_moved [OF G(1) i(1)])
  moreover have "lt" if "qt \<noteq> None" using G(6) that r(2) by (auto simp: quiet_good_def)
  ultimately show ?thesis using i r by (intro tq_good_move1 [OF g d(1)]) auto
qed

text \<open>The quiesce: it starts, clears a slot, and ends.\<close>

lemma tq_good_quiesce:
  assumes g: "tq_good q Outside p1 None l ls" and lt: "taskq_has_active q \<longrightarrow> lt"
  shows "tq_good q Outside p1 (Some 0) lt ls"
proof -
  note G = tq_goodD [OF g]
  have "running p1 = None \<and> ls = {} \<and>
      (\<forall>i<TASKQ_CAPACITY. slot_state q i \<noteq> TASK_QUEUED \<and> slot_state q i \<noteq> TASK_CLAIMED)" if "\<not> lt"
  proof -
    have idle: "slot_state q i \<noteq> TASK_QUEUED \<and> slot_state q i \<noteq> TASK_CLAIMED" if "i < TASKQ_CAPACITY" for i
      using lt \<open>\<not> lt\<close> that by (auto simp: taskq_has_active_def slot_scan_None)
    then have "\<not> slot_held Outside p1 ls i" if "i < TASKQ_CAPACITY" for i
      using tq_good_unheld [OF g that] that by simp
    then have "\<forall>i<TASKQ_CAPACITY. running p1 \<noteq> Some i \<and> i \<notin> ls" by (auto simp: slot_held_def)
    then show ?thesis
      using idle running1_bound [OF G(3)] G(5) unfolding holders_apart_def by (cases "running p1") auto
  qed
  then show ?thesis using G by (auto simp: tq_good_def quiet_good_def)
qed

lemma tq_good_clear:
  assumes g: "tq_good q p0 p1 (Some k) lt ls" and k: "k < TASKQ_CAPACITY"
  shows "tq_good (taskq_store_release q k TASK_FREE) p0 p1 (Some (Suc k)) lt ls"
proof -
  note G = tq_goodD [OF g]
  let ?q = "taskq_store_release q k TASK_FREE"
  note mv = store_moved [OF G(1) k, of TASK_FREE]
  note nth = slot_moved_nth [OF mv G(1)]
  have "slots_good ?q (Suc k) (slot_held p0 p1 ls)" unfolding slots_good_def
  proof (intro allI impI)
    fix i
    assume i: "i < TASKQ_CAPACITY"
    consider "i = k" | "i < k" | "Suc k \<le> i" by linarith
    then show "(Suc k \<le> i \<longrightarrow> (slot_state ?q i = TASK_CLAIMED \<longleftrightarrow> slot_held p0 p1 ls i)) \<and>
      (i < Suc k \<longrightarrow> slot_state ?q i \<in> {TASK_FREE, TASK_DONE, TASK_FAILED} \<and>
        (slot_held p0 p1 ls i \<longrightarrow> slot_state ?q i = TASK_FREE))"
    proof cases
      case 2
      with slots_goodD(2,3) [OF G(4) i] show ?thesis by (simp add: nth)
    next
      case 3
      with slots_goodD(1) [OF G(4) i] show ?thesis by (simp add: nth)
    qed (simp add: nth)
  qed
  moreover have "quiet_good ?q p0 p1 (Some (Suc k)) lt ls"
    using G(6) k by (auto simp: quiet_good_def nth)
  moreover have "claim_ok p0 ?q" using G(6) by (auto simp: quiet_good_def)
  ultimately show ?thesis using slot_moved_ok [OF mv G(1)] G by (simp add: tq_good_def)
qed

lemma tq_good_quiesced:
  assumes g: "tq_good q p0 p1 (Some TASKQ_CAPACITY) lt ls"
  shows "tq_good (q\<lparr>enqueue_cursor := 0\<rparr>) p0 (if lt then Outside else p1) None l {}"
    "i < TASKQ_CAPACITY \<Longrightarrow> slot_state q i \<in> {TASK_FREE, TASK_DONE, TASK_FAILED}"
    "running (if lt then Outside else p1) = None"
proof -
  note G = tq_goodD [OF g]
  have p0: "p0 = Outside" using G(6) by (simp add: quiet_good_def)
  show out: "slot_state q i \<in> {TASK_FREE, TASK_DONE, TASK_FAILED}" if "i < TASKQ_CAPACITY" for i
    using slots_goodD(2) [OF G(4) that] that by simp
  show run: "running (if lt then Outside else p1) = None" using G(6) by (auto simp: quiet_good_def)
  have "slots_good (q\<lparr>enqueue_cursor := 0\<rparr>) 0 (slot_held Outside (if lt then Outside else p1) {})"
    unfolding slots_good_def
  proof (intro allI impI)
    fix i
    assume "i < TASKQ_CAPACITY"
    from out [OF this] show "(0 \<le> i \<longrightarrow> (slot_state (q\<lparr>enqueue_cursor := 0\<rparr>) i = TASK_CLAIMED \<longleftrightarrow>
        slot_held Outside (if lt then Outside else p1) {} i)) \<and> (i < 0 \<longrightarrow>
      slot_state (q\<lparr>enqueue_cursor := 0\<rparr>) i \<in> {TASK_FREE, TASK_DONE, TASK_FAILED} \<and>
      (slot_held Outside (if lt then Outside else p1) {} i \<longrightarrow> slot_state (q\<lparr>enqueue_cursor := 0\<rparr>) i = TASK_FREE))"
      using run by (auto simp: slot_held_def)
  qed
  then show "tq_good (q\<lparr>enqueue_cursor := 0\<rparr>) p0 (if lt then Outside else p1) None l {}"
    using G(1,3) run p0 by (simp add: tq_good_def taskq_ok_def holders_apart_def quiet_good_def taskq_consts)
qed

lemma tq_good_restart1:
  assumes g: "tq_good q p0 p1 None lt ls"
  shows "tq_good q p0 Outside None lt (case p1 of Got short i \<Rightarrow> insert i ls | _ \<Rightarrow> ls)" (is "tq_good _ _ _ _ _ ?ls")
proof -
  note G = tq_goodD [OF g]
  have "slot_held p0 Outside ?ls = slot_held p0 p1 ls" by (cases p1) (auto simp: slot_held_def fun_eq_iff)
  moreover have "holders_apart p0 Outside ?ls"
    using G(3,5) by (cases p1) (auto simp: holders_apart_def)
  ultimately show ?thesis using G by (simp add: tq_good_def quiet_good_def)
qed

lemma tq_inv_step: "tq_step s t \<Longrightarrow> tq_inv s \<Longrightarrow> tq_inv t"
proof (induction rule: tq_step.induct)
  case (enqueue s r)
  have g: "tq_good (tq s) Outside (pc1 s) None (late s) (lost s)" using enqueue by (simp add: tq_inv_def)
  show ?case
  proof (rule enqueue_moved [OF tq_goodD(1) [OF g], of r])
    fix i d
    assume m: "slot_moved (tq s) i d (snd (taskq_enqueue r (tq s)))" "slot_state (tq s) i = TASK_FREE"
      "tstate d = TASK_QUEUED"
    have "i < TASKQ_CAPACITY" using m(1) by (simp add: slot_moved_def)
    then have "\<not> slot_held Outside (pc1 s) (lost s) i" using tq_good_unheld [OF g, of i] m(2) by simp
    then have "tq_good (snd (taskq_enqueue r (tq s))) Outside (pc1 s) None (late s) (lost s)"
      using m(3) by (intro tq_good_move0 [OF g m(1)]) (auto simp: slot_held_def)
    then show ?thesis using enqueue.hyps by (simp add: tq_inv_def)
  qed (use enqueue in simp)
next
  case (harvest s i)
  have g: "tq_good (tq s) Outside (pc1 s) None (late s) (lost s)" using harvest by (simp add: tq_inv_def)
  have i: "i < TASKQ_CAPACITY" "slot_state (tq s) i \<in> {TASK_DONE, TASK_FAILED}"
    using harvest_slot [OF harvest.hyps(3)] by auto
  have "\<not> slot_held Outside (pc1 s) (lost s) i" using tq_good_unheld [OF g i(1)] i(2) by auto
  then have "tq_good (taskq_release i (tq s)) Outside (pc1 s) None (late s) (lost s)"
    unfolding taskq_release_def
    by (intro tq_good_move0 [OF g store_moved [OF tq_goodD(1) [OF g] i(1)]]) (auto simp: slot_held_def)
  then show ?case using harvest.hyps by (simp add: tq_inv_def)
next
  case (claim0 s pc q)
  then show ?case using tq_good_claim0 by (simp add: tq_inv_def)
next
  case (claim1 s pc q)
  then show ?case using tq_good_claim1 by (simp add: tq_inv_def)
next
  case (fail0 s i)
  have qt: "quiet s = None" using fail0 by (auto simp: tq_inv_def tq_good_def quiet_good_def)
  have g: "tq_good (tq s) (Got False i) (pc1 s) None (late s) (lost s)" using fail0 qt by (simp add: tq_inv_def)
  note G = tq_goodD [OF g]
  have i: "i < TASKQ_CAPACITY" "running (pc1 s) \<noteq> Some i" "i \<notin> lost s"
    using G(2,5) by (auto simp: holders_apart_def)
  obtain d where d: "slot_moved (tq s) i d (taskq_fail i 0 (tq s))" "tstate d = TASK_FAILED"
    by (rule fail_moved [OF G(1) i(1)])
  have "tq_good (taskq_fail i 0 (tq s)) (ScanState False 0) (pc1 s) None (late s) (lost s)"
    using d(2) i by (intro tq_good_move0 [OF g d(1)]) auto
  then show ?case using qt by (simp add: tq_inv_def)
next
  case (run0 s short i status payload len)
  have qt: "quiet s = None" using run0 by (auto simp: tq_inv_def tq_good_def quiet_good_def)
  have g: "tq_good (tq s) (Got short i) (pc1 s) None (late s) (lost s)" using run0 qt by (simp add: tq_inv_def)
  note G = tq_goodD [OF g]
  have i: "i < TASKQ_CAPACITY" "running (pc1 s) \<noteq> Some i" "i \<notin> lost s"
    using G(2,5) by (auto simp: holders_apart_def)
  obtain d where d: "slot_moved (tq s) i d (taskq_complete i status payload len (tq s))" "tstate d = TASK_DONE"
    by (rule complete_moved [OF G(1) i(1)])
  have "tq_good (taskq_complete i status payload len (tq s)) (if short then Outside else ScanState False 0)
      (pc1 s) None (late s) (lost s)"
    using d(2) i by (intro tq_good_move0 [OF g d(1)]) (auto split: if_splits)
  then show ?case using qt by (simp add: tq_inv_def)
next
  case (run1 s short i status payload len)
  then have g: "tq_good (tq s) (pc0 s) (Got short i) (quiet s) (late s) (lost s)" by (simp add: tq_inv_def)
  have i: "i < TASKQ_CAPACITY" using tq_goodD(3) [OF g] by simp
  obtain d where d: "slot_moved (tq s) i d (taskq_complete i status payload len (tq s))" "tstate d = TASK_DONE"
      "cls d = cls (descs (tq s) ! i)"
    by (rule complete_moved [OF tq_goodD(1) [OF g] i])
  show ?case using tq_good_end1 [OF g d(1)] d(2,3) by (simp add: tq_inv_def)
next
  case (fault1 s short i)
  then have g: "tq_good (tq s) (pc0 s) (Got short i) (quiet s) (late s) (lost s)" by (simp add: tq_inv_def)
  have i: "i < TASKQ_CAPACITY" using tq_goodD(3) [OF g] by simp
  obtain d where d: "slot_moved (tq s) i d (taskq_fail i 0 (tq s))" "tstate d = TASK_FAILED"
      "cls d = cls (descs (tq s) ! i)"
    by (rule fail_moved [OF tq_goodD(1) [OF g] i])
  show ?case using tq_good_end1 [OF g d(1)] d(2,3) by (simp add: tq_inv_def)
next
  case (drain0 s short)
  then have "tq_good (tq s) Outside (pc1 s) None (late s) (lost s)" by (simp add: tq_inv_def)
  then have "tq_good (tq s) (ScanState short 0) (pc1 s) None (late s) (lost s)"
    by (simp add: tq_good_def quiet_good_def holders_apart_def slot_held_def [abs_def])
  with drain0 show ?case by (simp add: tq_inv_def)
next
  case (drain1 s)
  then have "tq_good (tq s) (pc0 s) Outside (quiet s) (late s) (lost s)" by (simp add: tq_inv_def)
  then have "tq_good (tq s) (pc0 s) (ScanState False 0) (quiet s) (late s) (lost s)"
    by (simp add: tq_good_def quiet_good_def holders_apart_def slot_held_def [abs_def])
  with drain1 show ?case by (simp add: tq_inv_def)
next
  case (restart1 s)
  then show ?case using tq_good_restart1 by (simp add: tq_inv_def core1_cold_restart_def)
next
  case (fault_lost s i)
  then show ?case using tq_good_fault_lost by (simp add: tq_inv_def)
next
  case (quiesce s timed_out)
  then show ?case using tq_good_quiesce by (simp add: tq_inv_def)
next
  case (clear s k)
  then show ?case using tq_good_clear by (simp add: tq_inv_def)
next
  case (quiesced s)
  then show ?case using tq_good_quiesced(1) by (simp add: tq_inv_def quiesce_end_def)
qed

lemma tq_reach_inv: "tq_reach s \<Longrightarrow> tq_inv s"
proof (induction rule: tq_reach.induct)
  case tq_reach_boot
  show ?case
    by (auto simp: tq_boot_def tq_inv_def taskq_init_def taskq_ok_def taskq_consts tq_good_def slots_good_def
        slot_held_def holders_apart_def quiet_good_def)
qed (rule tq_inv_step)

lemma tq_step_into_quiet:
  "tq_step s t \<Longrightarrow> quiet s \<noteq> None \<Longrightarrow> quiet t = None \<Longrightarrow> quiet s = Some TASKQ_CAPACITY \<and> t = quiesce_end s"
  by (erule tq_stepE) (auto simp: core1_cold_restart_def)

lemma tq_good_ends:
  assumes "tq_good (tq s) (pc0 s) (pc1 s) (quiet s) (late s) (lost s)" "quiet s \<noteq> None"
  shows "\<forall>t. tq_step s t \<longrightarrow> quiet t = None \<longrightarrow> running (pc0 t) = None \<and> running (pc1 t) = None \<and>
    (\<forall>i<TASKQ_CAPACITY. slot_state (tq t) i \<noteq> TASK_QUEUED \<and> slot_state (tq t) i \<noteq> TASK_CLAIMED)"
proof (intro allI impI)
  fix t
  assume "tq_step s t" "quiet t = None"
  from tq_step_into_quiet [OF this(1) assms(2) this(2)]
  have w: "quiet s = Some TASKQ_CAPACITY" "t = quiesce_end s" by simp_all
  have g: "tq_good (tq s) (pc0 s) (pc1 s) (Some TASKQ_CAPACITY) (late s) (lost s)" using assms(1) w(1) by simp
  have "pc0 s = Outside" using tq_goodD(6) [OF g] by (simp add: quiet_good_def)
  moreover have "slot_state (tq s) i \<noteq> TASK_QUEUED \<and> slot_state (tq s) i \<noteq> TASK_CLAIMED"
    if "i < TASKQ_CAPACITY" for i
    using tq_good_quiesced(2) [OF g that] by auto
  ultimately show "running (pc0 t) = None \<and> running (pc1 t) = None \<and>
    (\<forall>i<TASKQ_CAPACITY. slot_state (tq t) i \<noteq> TASK_QUEUED \<and> slot_state (tq t) i \<noteq> TASK_CLAIMED)"
    using tq_good_quiesced(3) [OF g] by (simp add: w(2) quiesce_end_def)
qed

section \<open>What the scheduler promises\<close>

text \<open>
  C5: exclusive claims. Whatever the interleaving of the two cores, restarts of core 1
  and quiesces included, no task is run by both. Outside a quiesce a slot is CLAIMED exactly
  while one core runs it or after a restart of core 1 abandoned it. During a quiesce
  core 0 runs nothing, core 1 runs a task only if the quiesce timed out (and so ends
  by restarting it), and when the quiesce is over no task is running and no slot is queued or
  claimed. Core 0 never runs a LONG task when draining (its codec state belongs
  to core 1).
\<close>

theorem taskq_exclusive_claim:
  assumes "tq_reach s"
  shows "\<not> (\<exists>i. running (pc0 s) = Some i \<and> running (pc1 s) = Some i) \<and>
    (quiet s = None \<longrightarrow>
      (\<forall>i<TASKQ_CAPACITY. slot_state (tq s) i = TASK_CLAIMED \<longleftrightarrow>
        running (pc0 s) = Some i \<or> running (pc1 s) = Some i \<or> i \<in> lost s) \<and>
      (\<forall>i\<in>lost s. running (pc0 s) \<noteq> Some i \<and> running (pc1 s) \<noteq> Some i)) \<and>
    (quiet s \<noteq> None \<longrightarrow> running (pc0 s) = None \<and> (running (pc1 s) \<noteq> None \<longrightarrow> late s) \<and>
      (\<forall>t. tq_step s t \<longrightarrow> quiet t = None \<longrightarrow> running (pc0 t) = None \<and> running (pc1 t) = None \<and>
        (\<forall>i<TASKQ_CAPACITY. slot_state (tq t) i \<noteq> TASK_QUEUED \<and> slot_state (tq t) i \<noteq> TASK_CLAIMED))) \<and>
    \<not> (\<exists>i. pc0 s = Got True i \<and> cls (descs (tq s) ! i) = TASK_LONG)"
    (is "?apart \<and> (_ \<longrightarrow> ?claimed \<and> ?lost) \<and> (_ \<longrightarrow> ?idle \<and> ?late \<and> ?over) \<and> ?short")
proof (intro conjI)
  have g: "tq_good (tq s) (pc0 s) (pc1 s) (quiet s) (late s) (lost s)"
    using tq_reach_inv [OF assms] by (simp add: tq_inv_def)
  note G = tq_goodD [OF g]
  show ?apart using G(5) by (auto simp: holders_apart_def)
  show ?short using G(2) by auto
  have ?lost using G(5) by (auto simp: holders_apart_def)
  then show "quiet s = None \<longrightarrow> ?claimed \<and> ?lost"
    using slots_goodD(1) [OF G(4)] by (simp add: slot_held_def)
  show "quiet s \<noteq> None \<longrightarrow> ?idle \<and> ?late \<and> ?over"
  proof
    assume q: "quiet s \<noteq> None"
    have ?idle ?late using G(6) q by (auto simp: quiet_good_def)
    moreover have ?over using g q by (rule tq_good_ends)
    ultimately show "?idle \<and> ?late \<and> ?over" by blast
  qed
qed

text \<open>The life of a slot, one step at a time.\<close>

definition slot_life :: "(taskq_state \<times> taskq_state) set" where
  "slot_life = {(TASK_FREE, TASK_QUEUED), (TASK_QUEUED, TASK_CLAIMED), (TASK_CLAIMED, TASK_DONE),
     (TASK_CLAIMED, TASK_FAILED), (TASK_DONE, TASK_FREE), (TASK_FAILED, TASK_FREE)}"

text \<open>
  How a step may move a slot: the running core goes on with its task only through a
  clearing store, which touches the state alone; a task the quiesce has cleared ends late; everything else is
  one stage of the slot's life.
\<close>

definition slot_may_move :: "tq_sys \<Rightarrow> tq_sys \<Rightarrow> nat \<Rightarrow> taskq_desc \<Rightarrow> bool" where
  "slot_may_move s t i d \<longleftrightarrow>
     quiet s = Some i \<and> d = (descs (tq s) ! i)\<lparr>tstate := TASK_FREE\<rparr> \<or>
     \<not> (running (pc0 s) = Some i \<and> running (pc0 t) = Some i) \<and>
     \<not> (running (pc1 s) = Some i \<and> running (pc1 t) = Some i) \<and>
     ((slot_state (tq s) i, tstate d) \<in> slot_life \<or>
       i < cleared (quiet s) \<and> slot_state (tq s) i = TASK_FREE \<and> tstate d \<in> {TASK_DONE, TASK_FAILED})"

text \<open>A slot_held slot is CLAIMED, or cleared and FREE: its end is a legal move.\<close>

lemma slot_held_end_move:
  assumes "tq_inv s" "slot_held (pc0 s) (pc1 s) (lost s) i" "i < TASKQ_CAPACITY" "tstate d \<in> {TASK_DONE, TASK_FAILED}"
    "\<not> (running (pc0 s) = Some i \<and> running (pc0 t) = Some i)"
    "\<not> (running (pc1 s) = Some i \<and> running (pc1 t) = Some i)"
  shows "slot_may_move s t i d"
proof -
  have g: "slots_good (tq s) (cleared (quiet s)) (slot_held (pc0 s) (pc1 s) (lost s))"
    using assms(1) by (simp add: tq_inv_def tq_good_def)
  show ?thesis using slots_goodD(1,3) [OF g assms(3)] assms(2,4-6)
    by (cases "i < cleared (quiet s)") (auto simp: slot_may_move_def slot_life_def)
qed

lemma claim_step_life:
  assumes "claim_step pc q = Some (pc', q')" "taskq_ok q" "claim_ok pc q \<or> claim1_ok pc"
  shows "q' = q \<or> (\<exists>i d. slot_moved q i d q' \<and> running pc = None \<and> (slot_state q i, tstate d) \<in> slot_life \<and>
    slot_state q i = TASK_QUEUED)"
  using claim_step_cases [OF assms(1)]
proof (elim disjE exE conjE)
  fix short i
  assume w: "pc = Cas short i" "slot_state q i = TASK_QUEUED" "q' = taskq_store_release q i TASK_CLAIMED"
  have "slot_moved q i ((descs q ! i)\<lparr>tstate := TASK_CLAIMED\<rparr>) q'"
    unfolding w(3) using assms(2,3) w(1) by (intro store_moved) auto
  then show ?thesis using w by (force simp: slot_life_def)
qed simp

text \<open>Every step leaves the descriptors alone or moves one slot.\<close>

lemma tq_step_life:
  "tq_step s t \<Longrightarrow> tq_inv s \<Longrightarrow>
    descs (tq t) = descs (tq s) \<or> (\<exists>i d. slot_moved (tq s) i d (tq t) \<and> slot_may_move s t i d)"
proof (induction rule: tq_step.induct)
  case (enqueue s r)
  have g: "tq_good (tq s) (pc0 s) (pc1 s) None (late s) (lost s)" using enqueue by (simp add: tq_inv_def)
  show ?case
  proof (rule enqueue_moved [OF tq_goodD(1) [OF g], of r])
    fix i d
    assume m: "slot_moved (tq s) i d (snd (taskq_enqueue r (tq s)))" "slot_state (tq s) i = TASK_FREE"
      "tstate d = TASK_QUEUED"
    have "i < TASKQ_CAPACITY" using m(1) by (simp add: slot_moved_def)
    then have "\<not> slot_held (pc0 s) (pc1 s) (lost s) i" using tq_good_unheld [OF g, of i] m(2) by simp
    then show ?thesis using m by (force simp: slot_may_move_def slot_life_def slot_held_def)
  qed simp
next
  case (harvest s i)
  have g: "tq_good (tq s) (pc0 s) (pc1 s) None (late s) (lost s)" using harvest by (simp add: tq_inv_def)
  have i: "i < TASKQ_CAPACITY" "slot_state (tq s) i \<in> {TASK_DONE, TASK_FAILED}"
    using harvest_slot [OF harvest.hyps(3)] by auto
  have "\<not> slot_held (pc0 s) (pc1 s) (lost s) i" using tq_good_unheld [OF g i(1)] i(2) by auto
  then show ?case using store_moved [OF tq_goodD(1) [OF g] i(1), of TASK_FREE] i(2)
    by (intro disjI2 exI [of _ i] exI conjI) (auto simp: slot_may_move_def slot_life_def slot_held_def taskq_release_def)
next
  case (claim0 s pc q)
  have g: "tq_good (tq s) (pc0 s) (pc1 s) (quiet s) (late s) (lost s)" using claim0 by (simp add: tq_inv_def)
  note G = tq_goodD [OF g]
  from claim_step_life [OF claim0.hyps G(1) disjI1 [OF G(2)]] show ?case
  proof (elim disjE exE conjE)
    fix i d
    assume m: "slot_moved (tq s) i d q" "running (pc0 s) = None" "(slot_state (tq s) i, tstate d) \<in> slot_life"
      "slot_state (tq s) i = TASK_QUEUED"
    have "i < TASKQ_CAPACITY" using m(1) by (simp add: slot_moved_def)
    from slots_goodD(4) [OF G(4) this m(4)] show ?thesis using m
      by (intro disjI2 exI [of _ i] exI [of _ d]) (auto simp: slot_may_move_def slot_held_def)
  qed simp
next
  case (claim1 s pc q)
  have g: "tq_good (tq s) (pc0 s) (pc1 s) (quiet s) (late s) (lost s)" using claim1 by (simp add: tq_inv_def)
  note G = tq_goodD [OF g]
  from claim_step_life [OF claim1.hyps G(1) disjI2 [OF G(3)]] show ?case
  proof (elim disjE exE conjE)
    fix i d
    assume m: "slot_moved (tq s) i d q" "running (pc1 s) = None" "(slot_state (tq s) i, tstate d) \<in> slot_life"
      "slot_state (tq s) i = TASK_QUEUED"
    have "i < TASKQ_CAPACITY" using m(1) by (simp add: slot_moved_def)
    from slots_goodD(4) [OF G(4) this m(4)] show ?thesis using m
      by (intro disjI2 exI [of _ i] exI [of _ d]) (auto simp: slot_may_move_def slot_held_def)
  qed simp
next
  case (fail0 s i)
  have g: "tq_good (tq s) (pc0 s) (pc1 s) (quiet s) (late s) (lost s)" using fail0 by (simp add: tq_inv_def)
  have i: "i < TASKQ_CAPACITY" using tq_goodD(2) [OF g] fail0.hyps by simp
  have r: "running (pc1 s) \<noteq> Some i" using tq_goodD(5) [OF g] fail0.hyps by (simp add: holders_apart_def)
  obtain d where "slot_moved (tq s) i d (taskq_fail i 0 (tq s))" "tstate d = TASK_FAILED"
    by (rule fail_moved [OF tq_goodD(1) [OF g] i])
  then show ?case
    by (intro disjI2 exI [of _ i] exI [of _ d] conjI slot_held_end_move [OF fail0.prems _ i])
      (use fail0.hyps r in \<open>auto simp: slot_held_def\<close>)
next
  case (run0 s short i status payload len)
  have g: "tq_good (tq s) (pc0 s) (pc1 s) (quiet s) (late s) (lost s)" using run0 by (simp add: tq_inv_def)
  have i: "i < TASKQ_CAPACITY" using tq_goodD(2) [OF g] run0.hyps by simp
  have r: "running (pc1 s) \<noteq> Some i" using tq_goodD(5) [OF g] run0.hyps by (simp add: holders_apart_def)
  obtain d where "slot_moved (tq s) i d (taskq_complete i status payload len (tq s))" "tstate d = TASK_DONE"
    by (rule complete_moved [OF tq_goodD(1) [OF g] i])
  then show ?case
    by (intro disjI2 exI [of _ i] exI [of _ d] conjI slot_held_end_move [OF run0.prems _ i])
      (use run0.hyps r in \<open>auto simp: slot_held_def\<close>)
next
  case (run1 s short i status payload len)
  have g: "tq_good (tq s) (pc0 s) (pc1 s) (quiet s) (late s) (lost s)" using run1 by (simp add: tq_inv_def)
  have i: "i < TASKQ_CAPACITY" using tq_goodD(3) [OF g] run1.hyps by simp
  obtain d where "slot_moved (tq s) i d (taskq_complete i status payload len (tq s))" "tstate d = TASK_DONE"
    by (rule complete_moved [OF tq_goodD(1) [OF g] i])
  then show ?case
    by (intro disjI2 exI [of _ i] exI [of _ d] conjI slot_held_end_move [OF run1.prems _ i])
      (use run1.hyps tq_goodD(5) [OF g] in \<open>auto simp: slot_held_def holders_apart_def\<close>)
next
  case (fault1 s short i)
  have g: "tq_good (tq s) (pc0 s) (pc1 s) (quiet s) (late s) (lost s)" using fault1 by (simp add: tq_inv_def)
  have i: "i < TASKQ_CAPACITY" using tq_goodD(3) [OF g] fault1.hyps by simp
  obtain d where "slot_moved (tq s) i d (taskq_fail i 0 (tq s))" "tstate d = TASK_FAILED"
    by (rule fail_moved [OF tq_goodD(1) [OF g] i])
  then show ?case
    by (intro disjI2 exI [of _ i] exI [of _ d] conjI slot_held_end_move [OF fault1.prems _ i])
      (use fault1.hyps tq_goodD(5) [OF g] in \<open>auto simp: slot_held_def holders_apart_def\<close>)
next
  case (fault_lost s i)
  have g: "tq_good (tq s) (pc0 s) (pc1 s) (quiet s) (late s) (lost s)" using fault_lost by (simp add: tq_inv_def)
  have i: "i < TASKQ_CAPACITY" "running (pc0 s) \<noteq> Some i"
    using tq_goodD(5) [OF g] fault_lost.hyps by (auto simp: holders_apart_def)
  obtain d where "slot_moved (tq s) i d (taskq_fail i 0 (tq s))" "tstate d = TASK_FAILED"
    by (rule fail_moved [OF tq_goodD(1) [OF g] i(1)])
  then show ?case
    by (intro disjI2 exI [of _ i] exI [of _ d] conjI slot_held_end_move [OF fault_lost.prems _ i(1)])
      (use fault_lost.hyps i in \<open>auto simp: slot_held_def\<close>)
next
  case (clear s k)
  then have "taskq_ok (tq s)" by (simp add: tq_inv_def tq_good_def)
  from store_moved [OF this clear.hyps(2), of TASK_FREE] show ?case
    using clear.hyps by (auto simp: slot_may_move_def)
qed (simp_all add: core1_cold_restart_def quiesce_end_def)

text \<open>
  C6: the life of a slot. Every step, of either core, of a restart or of a quiesce, leaves all
  descriptors alone but at most one. It moves that one a single stage along FREE,
  QUEUED, CLAIMED, DONE or FAILED, FREE, except that a quiesce clears the slot it has come
  to, and a task whose slot it has already cleared may still end there before core 1 is
  restarted. While a core runs a task nothing of its descriptor but the state can
  change, and outside a quiesce not even that.
\<close>

theorem taskq_slot_lifecycle:
  assumes "tq_reach s" "tq_step s t" "i < TASKQ_CAPACITY"
  shows "(descs (tq t) ! i = descs (tq s) ! i \<or> (slot_state (tq s) i, slot_state (tq t) i) \<in> slot_life \<or>
      quiet s = Some i \<and> slot_state (tq t) i = TASK_FREE \<or>
      (\<exists>k. quiet s = Some k \<and> i < k) \<and> slot_state (tq s) i = TASK_FREE \<and>
        slot_state (tq t) i \<in> {TASK_DONE, TASK_FAILED}) \<and>
    (running (pc0 s) = Some i \<and> running (pc0 t) = Some i \<or> running (pc1 s) = Some i \<and> running (pc1 t) = Some i \<longrightarrow>
      descs (tq t) ! i = (descs (tq s) ! i)\<lparr>tstate := slot_state (tq t) i\<rparr> \<and>
      (quiet s = None \<longrightarrow> descs (tq t) ! i = descs (tq s) ! i)) \<and>
    (\<forall>j<TASKQ_CAPACITY. descs (tq t) ! i \<noteq> descs (tq s) ! i \<longrightarrow> descs (tq t) ! j \<noteq> descs (tq s) ! j \<longrightarrow> i = j)"
proof -
  have inv: "tq_inv s" using assms(1) by (rule tq_reach_inv)
  then have ok: "taskq_ok (tq s)" by (simp add: tq_inv_def tq_good_def)
  consider "descs (tq t) = descs (tq s)"
    | k d where "slot_moved (tq s) k d (tq t)" "slot_may_move s t k d"
    using tq_step_life [OF assms(2) inv] by blast
  then show ?thesis
  proof cases
    case 2
    note nth = slot_moved_nth [OF 2(1) ok]
    show ?thesis
    proof (cases "k = i")
      case True
      with 2(2) show ?thesis by (cases "quiet s") (auto simp: nth slot_may_move_def)
    qed (simp add: nth)
  qed simp
qed


text \<open>Core 1 has claimed the one LONG task and core 0 is about to try for it.\<close>

definition tq_demo_request :: taskq_request where
  "tq_demo_request = \<lparr>rq_opcode = 0x0600, rq_cls = TASK_LONG, rq_in_addr = 0x03400000, rq_in_len = 9000,
     rq_out_addr = 0x03500000, rq_out_cap = 65536, rq_request_id = 7, rq_user_cookie = 1,
     rq_params = Some [1, 2, 3, 4], rq_param_len = 4\<rparr>"

lemma tq_boot_slot: "i < TASKQ_CAPACITY \<Longrightarrow> slot_state (tq tq_boot) i = TASK_FREE"
  by (simp add: tq_boot_def taskq_init_def taskq_consts)

lemma tq_boot_ok: "taskq_ok (tq tq_boot)"
  by (simp add: tq_boot_def taskq_init_def taskq_ok_def taskq_consts)

text \<open>The queue after one request of the given class, at slot 0.\<close>

lemma taskq_first_enqueue:
  fixes r :: taskq_request
  defines "q \<equiv> snd (taskq_enqueue r (tq tq_boot))"
  shows "length (descs q) = 16" "slot_state q 0 = TASK_QUEUED" "cls (descs q ! 0) = rq_cls r"
    "opcode (descs q ! 0) = rq_opcode r"
proof -
  have "enqueue_cursor (tq tq_boot) = 0" by (simp add: tq_boot_def taskq_init_def)
  then have "taskq_free_slot (tq tq_boot) 0 (Suc 15) = Some 0"
    using tq_boot_slot [of 0] by (simp only: taskq_free_slot.simps) (simp add: taskq_consts)
  moreover have "length (descs (tq tq_boot)) = 16" using tq_boot_ok by (simp add: taskq_ok_def taskq_consts)
  ultimately show "length (descs q) = 16" "slot_state q 0 = TASK_QUEUED" "cls (descs q ! 0) = rq_cls r"
    "opcode (descs q ! 0) = rq_opcode r"
    by (simp_all add: q_def taskq_enqueue_def TASKQ_CAPACITY_def Let_def taskq_store_release_def taskq_fill_def)
qed

text \<open>
  Core 1 has won the LONG task at slot 0 while core 0 still has it in view, core 0 has given
  up, and a quiesce is about to clear the slot under core 1.
\<close>

lemma tq_demo_reached:
  "\<exists>s. tq_reach s \<and> pc0 s = Outside \<and> pc1 s = Got False 0 \<and> quiet s = Some 0 \<and> late s \<and>
    slot_state (tq s) 0 = TASK_CLAIMED \<and> taskq_ok (tq s)"
proof -
  let ?q = "snd (taskq_enqueue tq_demo_request (tq tq_boot))"
  let ?q' = "taskq_store_release ?q 0 TASK_CLAIMED"
  let ?s = "\<lambda>q p0 p1. \<lparr>tq = q, pc0 = p0, pc1 = p1, quiet = None, late = False, lost = {}\<rparr>"
  note q = taskq_first_enqueue [of tq_demo_request]
  have ok: "taskq_ok ?q'"
    using taskq_enqueue_spec [OF tq_boot_ok, of tq_demo_request "fst (taskq_enqueue tq_demo_request (tq tq_boot))" ?q]
    by (simp add: taskq_ok_def taskq_store_release_def)
  have st: "slot_state ?q' 0 = TASK_CLAIMED" using q by (simp add: taskq_store_release_def)
  have act: "taskq_has_active ?q'"
    using st by (simp add: taskq_has_active_def slot_scan_None taskq_consts exI [of _ 0])
  have "tq_step tq_boot (?s ?q Outside Outside)"
    using tq_step.enqueue [of tq_boot tq_demo_request] by (simp add: tq_boot_def)
  moreover have "tq_step (?s ?q Outside Outside) (?s ?q Outside (ScanState False 0))"
    using tq_step.drain1 [of "?s ?q Outside Outside"] by simp
  moreover have "tq_step (?s ?q Outside (ScanState False 0)) (?s ?q Outside (Cas False 0))"
    using tq_step.claim1 [of "?s ?q Outside (ScanState False 0)" "Cas False 0" ?q] q by (simp add: taskq_consts)
  moreover have "tq_step (?s ?q Outside (Cas False 0)) (?s ?q' Outside (Got False 0))"
    using tq_step.claim1 [of "?s ?q Outside (Cas False 0)" "Got False 0" ?q'] q by (simp add: taskq_cas_store)
  moreover have "tq_step (?s ?q' Outside (Got False 0)) ((?s ?q' Outside (Got False 0))\<lparr>quiet := Some 0, late := True\<rparr>)"
    using tq_step.quiesce [of "?s ?q' Outside (Got False 0)" True] by simp
  ultimately have "tq_reach ((?s ?q' Outside (Got False 0))\<lparr>quiet := Some 0, late := True\<rparr>)"
    using tq_reach_boot tq_reach_step by metis
  with st ok show ?thesis by (intro exI [of _ "(?s ?q' Outside (Got False 0))\<lparr>quiet := Some 0, late := True\<rparr>"]) simp
qed

lemma tq_demo_cleared:
  "\<exists>s t. tq_reach s \<and> tq_step s t \<and> tq_reach t \<and> pc1 s = Got False 0 \<and> pc1 t = Got False 0 \<and> quiet s = Some 0 \<and>
    quiet t = Some 1 \<and> slot_state (tq s) 0 = TASK_CLAIMED \<and> slot_state (tq t) 0 = TASK_FREE"
proof -
  obtain s where s: "tq_reach s" "pc0 s = Outside" "pc1 s = Got False 0" "quiet s = Some 0"
    "slot_state (tq s) 0 = TASK_CLAIMED" "taskq_ok (tq s)"
    using tq_demo_reached by blast
  let ?t = "s\<lparr>tq := taskq_store_release (tq s) 0 TASK_FREE, quiet := Some (Suc 0)\<rparr>"
  have "tq_step s ?t" by (rule tq_step.clear) (simp_all add: s taskq_consts)
  moreover have "slot_state (tq ?t) 0 = TASK_FREE"
    using s(6) by (simp add: taskq_store_release_def taskq_ok_def taskq_consts)
  ultimately show ?thesis using s tq_reach_step by (intro exI [of _ s] exI [of _ ?t]) auto
qed

text \<open>
  A slot abandoned by a restart is waiting for nothing: no harvest finds it and no core claims
  it, so until an exception of core 1 or the next mailbox reset its request is not answered.
\<close>

lemma taskq_lost_slot_waits:
  assumes "tq_reach s" "i \<in> lost s" "quiet s = None"
  shows "slot_state (tq s) i = TASK_CLAIMED \<and> taskq_harvest (tq s) \<noteq> int i"
proof -
  have g: "tq_good (tq s) (pc0 s) (pc1 s) None (late s) (lost s)"
    using tq_reach_inv [OF assms(1)] assms(3) by (simp add: tq_inv_def)
  have i: "i < TASKQ_CAPACITY" using tq_goodD(5) [OF g] assms(2) by (auto simp: holders_apart_def)
  have "slot_state (tq s) i = TASK_CLAIMED"
    using slots_goodD(1) [OF tq_goodD(4) [OF g] i] assms(2) by (simp add: slot_held_def)
  with harvest_slot [of "tq s" i] show ?thesis by auto
qed

theorem taskq_enqueue_spec_witness:
  "fst (taskq_enqueue tq_demo_request (tq tq_boot)) \<noteq> -1 \<and>
   taskq_ok (snd (taskq_enqueue tq_demo_request (tq tq_boot)))"
proof -
  have "\<not> (\<forall>i<TASKQ_CAPACITY. slot_state (tq tq_boot) i \<noteq> TASK_FREE)"
    using tq_boot_slot [of 0] by (auto simp: taskq_consts intro!: exI [of _ 0])
  with taskq_enqueue_spec [OF tq_boot_ok, of tq_demo_request "fst (taskq_enqueue tq_demo_request (tq tq_boot))"
      "snd (taskq_enqueue tq_demo_request (tq tq_boot))"]
  show ?thesis by auto
qed

theorem taskq_exclusive_claim_witness:
  "\<exists>s. tq_reach s \<and> quiet s = Some 1 \<and> running (pc1 s) = Some 0 \<and> slot_state (tq s) 0 = TASK_FREE \<and>
    running (pc0 s) = None \<and> late s"
proof -
  obtain s where s: "tq_reach s" "pc1 s = Got False 0" "quiet s = Some 1" "slot_state (tq s) 0 = TASK_FREE"
    using tq_demo_cleared by blast
  with taskq_exclusive_claim [OF s(1)] show ?thesis by (intro exI [of _ s]) simp
qed

theorem taskq_slot_lifecycle_witness:
  "\<exists>s t. tq_reach s \<and> tq_step s t \<and> slot_state (tq s) 0 = TASK_CLAIMED \<and> running (pc1 t) = Some 0 \<and>
    descs (tq t) ! 0 = (descs (tq s) ! 0)\<lparr>tstate := TASK_FREE\<rparr>"
proof -
  obtain s t where s: "tq_reach s" "tq_step s t" "pc1 s = Got False 0" "pc1 t = Got False 0"
    "slot_state (tq s) 0 = TASK_CLAIMED" "slot_state (tq t) 0 = TASK_FREE"
    using tq_demo_cleared by blast
  have "descs (tq t) ! 0 = (descs (tq s) ! 0)\<lparr>tstate := slot_state (tq t) 0\<rparr>"
    using taskq_slot_lifecycle [OF s(1,2), of 0] s(3,4) by (simp add: taskq_consts)
  with s show ?thesis by (intro exI [of _ s] exI [of _ t]) simp
qed

end
