(* ===== verification/CardPool.thy ===== *)
theory CardPool
  imports Intervals
begin

unbundle bit_operations_syntax

text \<open>
  The card pool (\<^verbatim>\<open>card_pool.c\<close>, \<^verbatim>\<open>card_pool.h\<close>): an owner-tracked page allocator
  over two address ranges, the second of which (the Zorro III fast-RAM window)
  can be taken back. \<open>cp_ranges\<close> and \<open>cp_blocks\<close> are the used prefixes of the
  two tables; each entry point holds the pool lock and is one step.
\<close>

section \<open>Model\<close>

record card_pool_range =
  cpr_base :: u32
  cpr_end :: u32
  cpr_open :: bool
  cpr_revocable :: bool

record card_pool_block =
  cpb_addr :: u32
  cpb_size :: u32
  cpb_owner :: u32

record card_pool =
  cp_ranges :: "card_pool_range list"
  cp_blocks :: "card_pool_block list"
  class_used :: "u32 list"
  class_limit :: "u32 list"
  ignored_frees :: u32

definition CARD_POOL_PAGE_BYTES :: u32 where "CARD_POOL_PAGE_BYTES = 0x00010000"
definition CARD_POOL_MAX_RANGES :: nat where "CARD_POOL_MAX_RANGES = 2"
definition CARD_POOL_MAX_BLOCKS :: nat where "CARD_POOL_MAX_BLOCKS = 512"
definition CARD_POOL_CLASS_COUNT :: nat where "CARD_POOL_CLASS_COUNT = 15"
definition CARD_POOL_CLASS_FIRMWARE :: nat where "CARD_POOL_CLASS_FIRMWARE = 1"
definition CARD_POOL_CLASS_APP :: nat where "CARD_POOL_CLASS_APP = 8"

text \<open>The class limits in enum order, in MiB shifted left by 20.\<close>

definition card_pool_limits :: "u32 list" where
  "card_pool_limits = map (push_bit 20)
     [0, 64, 128, 72, 64, 128, 32, 384, 96, 4, 4, 384, 384, 384, 32]"

definition CARD_POOL_OWNER :: "u32 \<Rightarrow> u32 \<Rightarrow> u32" where
  "CARD_POOL_OWNER cls inst = push_bit 24 cls OR (inst AND 0x00FFFFFF)"

definition CARD_POOL_OWNER_CLASS :: "u32 \<Rightarrow> nat" where
  "CARD_POOL_OWNER_CLASS owner = unat (drop_bit 24 owner)"

definition card_pool_init :: card_pool where
  "card_pool_init = \<lparr>cp_ranges = [], cp_blocks = [],
     class_used = replicate CARD_POOL_CLASS_COUNT 0, class_limit = card_pool_limits, ignored_frees = 0\<rparr>"

definition card_pool_add_range :: "u32 \<Rightarrow> u32 \<Rightarrow> bool \<Rightarrow> card_pool \<Rightarrow> int \<times> card_pool" where
  "card_pool_add_range base en revocable p =
     (if length (cp_ranges p) \<ge> CARD_POOL_MAX_RANGES \<or> base \<ge> en \<or>
         (base OR en) AND (CARD_POOL_PAGE_BYTES - 1) \<noteq> 0
      then (-1, p)
      else (int (length (cp_ranges p)),
            p\<lparr>cp_ranges := cp_ranges p @
              [\<lparr>cpr_base = base, cpr_end = en, cpr_open = False, cpr_revocable = revocable\<rparr>]\<rparr>))"

text \<open>Index of the first block at or above \<open>addr\<close>.\<close>

definition lower_bound :: "card_pool_block list \<Rightarrow> u32 \<Rightarrow> nat" where
  "lower_bound bs addr = bsearch (\<lambda>mid. cpb_addr (bs ! mid) < addr) 0 (length bs)"

abbreviation block_class :: "card_pool_block \<Rightarrow> nat" where
  "block_class b \<equiv> CARD_POOL_OWNER_CLASS (cpb_owner b)"

text \<open>Taking dropped blocks off their classes' byte counts.\<close>

definition cp_uncharge :: "card_pool_block list \<Rightarrow> u32 list \<Rightarrow> u32 list" where
  "cp_uncharge ds used = foldl (\<lambda>u b. u[block_class b := u ! block_class b - cpb_size b]) used ds"

definition cp_bytes :: "card_pool_block list \<Rightarrow> u32" where
  "cp_bytes ds = foldl (\<lambda>n b. n + cpb_size b) 0 ds"

text \<open>Drop blocks \<^verbatim>\<open>[first, last)\<close>; returns their bytes.\<close>

definition remove_blocks :: "nat \<Rightarrow> nat \<Rightarrow> card_pool \<Rightarrow> u32 \<times> card_pool" where
  "remove_blocks first stop p =
     (let ds = take (stop - first) (drop first (cp_blocks p))
      in (cp_bytes ds,
          p\<lparr>class_used := cp_uncharge ds (class_used p),
            cp_blocks := take first (cp_blocks p) @ drop stop (cp_blocks p)\<rparr>))"

definition card_pool_open_range :: "nat \<Rightarrow> card_pool \<Rightarrow> card_pool" where
  "card_pool_open_range rng p =
     (if rng < length (cp_ranges p)
      then p\<lparr>cp_ranges := (cp_ranges p)[rng := (cp_ranges p ! rng)\<lparr>cpr_open := True\<rparr>]\<rparr>
      else p)"

definition card_pool_revoke_range :: "nat \<Rightarrow> card_pool \<Rightarrow> u32 \<times> card_pool" where
  "card_pool_revoke_range rng p =
     (if rng < length (cp_ranges p)
      then let r = cp_ranges p ! rng;
               (dropped, p1) = remove_blocks (lower_bound (cp_blocks p) (cpr_base r))
                                 (lower_bound (cp_blocks p) (cpr_end r)) p
           in (dropped, p1\<lparr>cp_ranges := (cp_ranges p1)[rng := r\<lparr>cpr_open := False\<rparr>]\<rparr>)
      else (0, p))"

definition CARD_POOL_PERMANENT_ADDRESS :: u32 where "CARD_POOL_PERMANENT_ADDRESS = 0x0B000000"
definition CARD_POOL_REVOCABLE_ADDRESS :: u32 where "CARD_POOL_REVOCABLE_ADDRESS = 0x2FE00000"
definition CARD_POOL_REVOCABLE_END :: u32 where "CARD_POOL_REVOCABLE_END = 0x3FE00000"

definition card_pool_setup_card :: card_pool where
  "card_pool_setup_card =
     (let p1 = snd (card_pool_add_range CARD_POOL_PERMANENT_ADDRESS CARD_POOL_REVOCABLE_ADDRESS False card_pool_init);
          p2 = snd (card_pool_add_range CARD_POOL_REVOCABLE_ADDRESS CARD_POOL_REVOCABLE_END True p1)
      in card_pool_open_range 0 p2)"

text \<open>
  The gap walk of \<^verbatim>\<open>find_gap\<close>: over the blocks from index \<open>i\<close> on, the candidate
  and index at which it stops.
\<close>

fun cp_gap :: "u32 \<Rightarrow> u32 \<Rightarrow> card_pool_block list \<Rightarrow> nat \<Rightarrow> u32 \<Rightarrow> u32 \<times> nat" where
  "cp_gap en sz [] i cand = (cand, i)"
| "cp_gap en sz (b # bs) i cand =
     (if \<not> cpb_addr b < en then (cand, i)
      else if cpb_addr b - cand \<ge> sz then (cand, i)
      else cp_gap en sz bs (Suc i) (cpb_addr b + cpb_size b))"

definition find_gap :: "card_pool_block list \<Rightarrow> card_pool_range \<Rightarrow> u32 \<Rightarrow> u32 \<times> nat" where
  "find_gap bs r sz =
     (let i = lower_bound bs (cpr_base r)
      in case cp_gap (cpr_end r) sz (drop i bs) i (cpr_base r) of
           (cand, k) \<Rightarrow> if cpr_end r - cand < sz then (0, 0) else (cand, k))"

text \<open>Whether the class may be placed in the range.\<close>

definition cp_eligible :: "nat \<Rightarrow> card_pool_range \<Rightarrow> bool" where
  "cp_eligible cls r \<longleftrightarrow> \<not> (\<not> cpr_open r \<or>
     (cpr_revocable r \<and> (cls = CARD_POOL_CLASS_FIRMWARE \<or> cls = CARD_POOL_CLASS_APP)))"

text \<open>The loop over the ranges: the first gap found, address 0 if there is none.\<close>

fun cp_search :: "card_pool_block list \<Rightarrow> nat \<Rightarrow> u32 \<Rightarrow> card_pool_range list \<Rightarrow> u32 \<times> nat" where
  "cp_search bs cls sz [] = (0, 0)"
| "cp_search bs cls sz (r # rs) =
     (if \<not> cp_eligible cls r then cp_search bs cls sz rs
      else case find_gap bs r sz of (addr, i) \<Rightarrow>
             if addr \<noteq> 0 then (addr, i) else cp_search bs cls sz rs)"

definition cp_rounded :: "u32 \<Rightarrow> u32" where
  "cp_rounded sz = (sz + CARD_POOL_PAGE_BYTES - 1) AND NOT (CARD_POOL_PAGE_BYTES - 1)"

definition card_pool_alloc :: "u32 \<Rightarrow> u32 \<Rightarrow> card_pool \<Rightarrow> u32 \<times> card_pool" where
  "card_pool_alloc sz owner p =
     (let cls = CARD_POOL_OWNER_CLASS owner
      in if sz = 0 \<or> sz > UINT32_MAX - (CARD_POOL_PAGE_BYTES - 1) \<or> cls = 0 \<or> cls \<ge> CARD_POOL_CLASS_COUNT
         then (0, p)
         else let rounded = cp_rounded sz
         in if length (cp_blocks p) < CARD_POOL_MAX_BLOCKS \<and>
               rounded \<le> class_limit p ! cls - class_used p ! cls
            then case cp_search (cp_blocks p) cls rounded (cp_ranges p) of (addr, i) \<Rightarrow>
                   if addr \<noteq> 0
                   then (addr, p\<lparr>cp_blocks := insert_at i
                             \<lparr>cpb_addr = addr, cpb_size = rounded, cpb_owner = owner\<rparr> (cp_blocks p),
                           class_used := (class_used p)[cls := class_used p ! cls + rounded]\<rparr>)
                   else (0, p)
            else (0, p))"

definition card_pool_block_owned :: "u32 \<Rightarrow> u32 \<Rightarrow> u32 \<Rightarrow> card_pool \<Rightarrow> bool" where
  "card_pool_block_owned addr len owner p =
     (if addr = 0 \<or> len = 0 \<or> owner = 0 then False
      else let i = lower_bound (cp_blocks p) addr
      in i < length (cp_blocks p) \<and> cpb_addr (cp_blocks p ! i) = addr \<and>
         cpb_owner (cp_blocks p ! i) = owner \<and> len \<le> cpb_size (cp_blocks p ! i))"

definition card_pool_range_owned :: "u32 \<Rightarrow> u32 \<Rightarrow> u32 \<Rightarrow> card_pool \<Rightarrow> bool" where
  "card_pool_range_owned addr len owner p =
     (if addr = 0 \<or> len = 0 \<or> owner = 0 then False
      else let bs = cp_blocks p; k = lower_bound bs addr;
               i = (if k \<noteq> 0 \<and> (k = length bs \<or> cpb_addr (bs ! k) > addr) then k - 1 else k)
      in if i < length bs \<and> cpb_owner (bs ! i) = owner \<and> addr \<ge> cpb_addr (bs ! i)
         then let offset = addr - cpb_addr (bs ! i)
              in offset < cpb_size (bs ! i) \<and> len \<le> cpb_size (bs ! i) - offset
         else False)"

definition card_pool_free :: "u32 \<Rightarrow> u32 \<Rightarrow> card_pool \<Rightarrow> bool \<times> card_pool" where
  "card_pool_free addr owner p =
     (if addr = 0 then (False, p)
      else let i = lower_bound (cp_blocks p) addr
      in if i < length (cp_blocks p) \<and> cpb_addr (cp_blocks p ! i) = addr \<and> cpb_owner (cp_blocks p ! i) = owner
         then (True, snd (remove_blocks i (i + 1) p))
         else (False, p\<lparr>ignored_frees := ignored_frees p + 1\<rparr>))"

text \<open>
  The compaction pass of \<^verbatim>\<open>release_where\<close>: (class counts, bytes freed, kept
  blocks) after the blocks so far.
\<close>

fun cp_release_walk :: "(card_pool_block \<Rightarrow> bool) \<Rightarrow> card_pool_block list \<Rightarrow> u32 list \<Rightarrow> u32 \<Rightarrow>
    card_pool_block list \<Rightarrow> u32 list \<times> u32 \<times> card_pool_block list" where
  "cp_release_walk gone [] used freed kept = (used, freed, kept)"
| "cp_release_walk gone (b # bs) used freed kept =
     (if gone b
      then cp_release_walk gone bs (used[block_class b := used ! block_class b - cpb_size b])
             (freed + cpb_size b) kept
      else cp_release_walk gone bs used freed (kept @ [b]))"

definition release_where :: "u32 \<Rightarrow> bool \<Rightarrow> card_pool \<Rightarrow> u32 \<times> card_pool" where
  "release_where key except_class p =
     (case cp_release_walk
             (\<lambda>b. if except_class then block_class b \<noteq> unat key else cpb_owner b = key)
             (cp_blocks p) (class_used p) 0 [] of
        (used, freed, kept) \<Rightarrow> (freed, p\<lparr>class_used := used, cp_blocks := kept\<rparr>))"

definition card_pool_release_owner :: "u32 \<Rightarrow> card_pool \<Rightarrow> u32 \<times> card_pool" where
  "card_pool_release_owner owner p = release_where owner False p"

definition card_pool_has_lent :: "card_pool \<Rightarrow> bool" where
  "card_pool_has_lent p = list_ex (\<lambda>r. cpr_revocable r \<and> cpr_open r) (cp_ranges p)"

definition card_pool_take_back_lent :: "card_pool \<Rightarrow> card_pool" where
  "card_pool_take_back_lent p =
     foldl (\<lambda>p r. if cpr_revocable (cp_ranges p ! r) \<and> cpr_open (cp_ranges p ! r)
                 then snd (card_pool_revoke_range r p) else p) p [0..<length (cp_ranges p)]"

definition card_pool_finish_amiga_reset :: "bool \<Rightarrow> bool \<Rightarrow> card_pool \<Rightarrow> card_pool" where
  "card_pool_finish_amiga_reset is_zorro3 fastram_advertised p =
     (let p1 = snd (release_where (of_nat CARD_POOL_CLASS_FIRMWARE) True p)
      in if is_zorro3 \<and> fastram_advertised then p1
         else foldl (\<lambda>p r. if cpr_revocable (cp_ranges p ! r) then card_pool_open_range r p else p)
                p1 [0..<length (cp_ranges p1)])"

fun cp_free_walk :: "u32 \<Rightarrow> card_pool_block list \<Rightarrow> u32 \<Rightarrow> u32" where
  "cp_free_walk en [] n = n"
| "cp_free_walk en (b # bs) n = (if cpb_addr b < en then cp_free_walk en bs (n - cpb_size b) else n)"

definition card_pool_range_free_bytes :: "nat \<Rightarrow> card_pool \<Rightarrow> u32" where
  "card_pool_range_free_bytes rng p =
     (if rng < length (cp_ranges p) \<and> cpr_open (cp_ranges p ! rng)
      then let r = cp_ranges p ! rng
           in cp_free_walk (cpr_end r) (drop (lower_bound (cp_blocks p) (cpr_base r)) (cp_blocks p))
                (cpr_end r - cpr_base r)
      else 0)"

section \<open>The pool invariant\<close>

definition cpb_region :: "card_pool_block \<Rightarrow> region" where
  "cpb_region b = (unat (cpb_addr b), unat (cpb_size b))"

definition cp_regions :: "card_pool \<Rightarrow> region list" where
  "cp_regions p = map cpb_region (cp_blocks p)"

abbreviation page :: nat where "page \<equiv> 65536"

definition range_ok :: "card_pool_range \<Rightarrow> bool" where
  "range_ok r \<longleftrightarrow> 0 < unat (cpr_base r) \<and> unat (cpr_base r) < unat (cpr_end r) \<and>
     page dvd unat (cpr_base r) \<and> page dvd unat (cpr_end r)"

definition in_range :: "card_pool_range \<Rightarrow> card_pool_block \<Rightarrow> bool" where
  "in_range r b \<longleftrightarrow> unat (cpr_base r) \<le> unat (cpb_addr b) \<and>
     unat (cpb_addr b) + unat (cpb_size b) \<le> unat (cpr_end r)"

definition block_ok :: "card_pool \<Rightarrow> card_pool_block \<Rightarrow> bool" where
  "block_ok p b \<longleftrightarrow> 0 < block_class b \<and> block_class b < CARD_POOL_CLASS_COUNT \<and>
     page dvd unat (cpb_addr b) \<and> page dvd unat (cpb_size b) \<and>
     (\<exists>r\<in>set (cp_ranges p). in_range r b \<and> cp_eligible (block_class b) r)"

text \<open>The bytes a class holds.\<close>

definition class_sum :: "nat \<Rightarrow> card_pool_block list \<Rightarrow> nat" where
  "class_sum c bs = sum_list (map (\<lambda>b. if block_class b = c then unat (cpb_size b) else 0) bs)"

definition ranges_apart :: "card_pool_range list \<Rightarrow> bool" where
  "ranges_apart rs \<longleftrightarrow>
     sorted_wrt (\<lambda>r r'. unat (cpr_end r) \<le> unat (cpr_base r') \<or> unat (cpr_end r') \<le> unat (cpr_base r)) rs"

definition cp_inv :: "card_pool \<Rightarrow> bool" where
  "cp_inv p \<longleftrightarrow> regions_ok (cp_regions p) \<and> (\<forall>b\<in>set (cp_blocks p). block_ok p b) \<and>
     length (cp_blocks p) \<le> CARD_POOL_MAX_BLOCKS \<and>
     length (cp_ranges p) \<le> CARD_POOL_MAX_RANGES \<and> (\<forall>r\<in>set (cp_ranges p). range_ok r) \<and>
     ranges_apart (cp_ranges p) \<and>
     length (class_used p) = CARD_POOL_CLASS_COUNT \<and> length (class_limit p) = CARD_POOL_CLASS_COUNT \<and>
     (\<forall>c<CARD_POOL_CLASS_COUNT. unat (class_used p ! c) = class_sum c (cp_blocks p) \<and>
        class_used p ! c \<le> class_limit p ! c)"

lemmas cp_consts = CARD_POOL_PAGE_BYTES_def CARD_POOL_MAX_RANGES_def CARD_POOL_MAX_BLOCKS_def
  CARD_POOL_CLASS_COUNT_def CARD_POOL_CLASS_FIRMWARE_def CARD_POOL_CLASS_APP_def

section \<open>Class accounting\<close>

lemma class_sum_simps [simp]:
  "class_sum c [] = 0"
  "class_sum c (b # bs) = (if block_class b = c then unat (cpb_size b) else 0) + class_sum c bs"
  "class_sum c (bs @ bs') = class_sum c bs + class_sum c bs'"
  by (simp_all add: class_sum_def)

lemma class_sum_insert_at:
  "class_sum c (insert_at i b bs) = (if block_class b = c then unat (cpb_size b) else 0) + class_sum c bs"
  unfolding class_sum_def by (simp add: sum_list_insert_at)

lemma class_sum_partition:
  "class_sum c bs = class_sum c (filter P bs) + class_sum c (filter (\<lambda>b. \<not> P b) bs)"
  by (induction bs) auto

lemma cp_uncharge_length [simp]: "length (cp_uncharge ds u) = length u"
  unfolding cp_uncharge_def by (induction ds arbitrary: u) auto

lemma cp_uncharge_Cons:
  "cp_uncharge (d # ds) u = cp_uncharge ds (u[block_class d := u ! block_class d - cpb_size d])"
  by (simp add: cp_uncharge_def)

text \<open>Uncharging exactly the dropped blocks leaves exactly the kept ones charged.\<close>

lemma cp_uncharge_sum:
  assumes "\<forall>d\<in>set ds. block_class d < length u"
    and "\<forall>c<length u. unat (u ! c) = class_sum c ds + k c" "c < length u"
  shows "unat (cp_uncharge ds u ! c) = k c"
  using assms
proof (induction ds arbitrary: u)
  case Nil
  then show ?case by (simp add: cp_uncharge_def)
next
  case (Cons d ds)
  let ?u = "u[block_class d := u ! block_class d - cpb_size d]"
  have le: "unat (cpb_size d) \<le> unat (u ! block_class d)" using Cons.prems(1,2) by auto
  have "unat (?u ! c) = class_sum c ds + k c" if "c < length ?u" for c
    using Cons.prems(1,2) that le
    by (cases "c = block_class d") (auto simp: unat_minus_no_wrap)
  then show ?case using Cons.prems by (simp add: cp_uncharge_Cons Cons.IH)
qed

lemma cp_release_walk_eq:
  "cp_release_walk gone bs used freed kept =
    (cp_uncharge (filter gone bs) used, foldl (\<lambda>n b. n + cpb_size b) freed (filter gone bs),
     kept @ filter (\<lambda>b. \<not> gone b) bs)"
  by (induction bs arbitrary: used freed kept) (auto simp: cp_uncharge_def)

section \<open>Lookup in the sorted table\<close>

lemma cp_invD:
  assumes "cp_inv p"
  shows "regions_ok (map cpb_region (cp_blocks p))" "\<And>b. b \<in> set (cp_blocks p) \<Longrightarrow> block_ok p b"
    "length (cp_blocks p) \<le> 512" "length (cp_ranges p) \<le> 2"
    "\<And>r. r \<in> set (cp_ranges p) \<Longrightarrow> range_ok r" "ranges_apart (cp_ranges p)"
    "length (class_used p) = 15" "length (class_limit p) = 15"
    "\<And>c. c < 15 \<Longrightarrow> unat (class_used p ! c) = class_sum c (cp_blocks p)"
    "\<And>c. c < 15 \<Longrightarrow> class_used p ! c \<le> class_limit p ! c"
  using assms by (auto simp: cp_inv_def cp_regions_def cp_consts)

definition cpb_end :: "card_pool_block \<Rightarrow> nat" where
  "cpb_end b = unat (cpb_addr b) + unat (cpb_size b)"

lemma before_cpb: "before (cpb_region x) (cpb_region y) \<longleftrightarrow> cpb_end x \<le> unat (cpb_addr y)"
  by (simp add: before_def cpb_region_def region_end_def cpb_end_def)

lemma cp_mono:
  assumes "regions_ok (map cpb_region bs)" "i < j" "j < length bs"
  shows "cpb_end (bs ! i) \<le> unat (cpb_addr (bs ! j))" "cpb_addr (bs ! i) < cpb_addr (bs ! j)"
  using regions_ok_addr_mono [OF assms(1), of i j] assms(2,3)
  by (auto simp: cpb_region_def region_end_def cpb_end_def word_less_nat_alt)

lemma lower_bound_spec:
  assumes ok: "regions_ok (map cpb_region bs)"
  shows "lower_bound bs x \<le> length bs"
    "i < lower_bound bs x \<Longrightarrow> cpb_addr (bs ! i) < x"
    "lower_bound bs x \<le> i \<Longrightarrow> i < length bs \<Longrightarrow> \<not> cpb_addr (bs ! i) < x"
proof -
  have mono: "cpb_addr (bs ! i) < x" if "i \<le> j" "j < length bs" "cpb_addr (bs ! j) < x" for i j
    using cp_mono(2) [OF ok, of i j] that by (cases "i = j") auto
  show "lower_bound bs x \<le> length bs" unfolding lower_bound_def by (rule bsearch_spec(1)) (erule (2) mono)
  show "i < lower_bound bs x \<Longrightarrow> cpb_addr (bs ! i) < x"
    unfolding lower_bound_def by (rule bsearch_spec(2) [where n = "length bs"]) (erule (2) mono)
  show "lower_bound bs x \<le> i \<Longrightarrow> i < length bs \<Longrightarrow> \<not> cpb_addr (bs ! i) < x"
    unfolding lower_bound_def by (rule bsearch_spec(3) [where n = "length bs"]) (erule (2) mono)
qed

lemma lower_bound_take_drop:
  assumes ok: "regions_ok (map cpb_region bs)"
  shows "take (lower_bound bs x) bs = filter (\<lambda>b. cpb_addr b < x) bs"
    "drop (lower_bound bs x) bs = filter (\<lambda>b. \<not> cpb_addr b < x) bs"
proof -
  let ?k = "lower_bound bs x"
  have t: "\<forall>b\<in>set (take ?k bs). cpb_addr b < x"
    using lower_bound_spec(2) [OF ok, of _ x] by (auto simp: in_set_conv_nth)
  have d: "\<forall>b\<in>set (drop ?k bs). \<not> cpb_addr b < x"
    using lower_bound_spec(3) [OF ok, of x] by (auto simp: in_set_conv_nth)
  have "filter (\<lambda>b. cpb_addr b < x) (take ?k bs @ drop ?k bs) = take ?k bs"
    "filter (\<lambda>b. \<not> cpb_addr b < x) (take ?k bs @ drop ?k bs) = drop ?k bs"
    using t d by (simp_all only: filter_append) (simp_all add: filter_empty_conv)
  then show "take ?k bs = filter (\<lambda>b. cpb_addr b < x) bs"
    "drop ?k bs = filter (\<lambda>b. \<not> cpb_addr b < x) bs" by simp_all
qed

text \<open>The block found at exactly an address.\<close>

lemma lower_bound_hit:
  assumes ok: "regions_ok (map cpb_region bs)" and b: "b \<in> set bs"
  shows "lower_bound bs (cpb_addr b) < length bs \<and> bs ! lower_bound bs (cpb_addr b) = b"
proof -
  obtain i where i: "i < length bs" "bs ! i = b" using b by (metis in_set_conv_nth)
  let ?k = "lower_bound bs (cpb_addr b)"
  have "?k \<le> i" using lower_bound_spec(2) [OF ok, of i "cpb_addr b"] i by force
  moreover have "\<not> ?k < i" using lower_bound_spec(3) [OF ok, of "cpb_addr b" ?k] cp_mono(2) [OF ok, of ?k i] i by auto
  ultimately show ?thesis using i by auto
qed

section \<open>Dropping blocks\<close>

text \<open>Every release drops the blocks with some property and uncharges them.\<close>

definition cp_drop :: "(card_pool_block \<Rightarrow> bool) \<Rightarrow> card_pool \<Rightarrow> card_pool" where
  "cp_drop gone p = p\<lparr>class_used := cp_uncharge (filter gone (cp_blocks p)) (class_used p),
     cp_blocks := filter (\<lambda>b. \<not> gone b) (cp_blocks p)\<rparr>"

lemma cp_drop_simps [simp]:
  "cp_blocks (cp_drop gone p) = filter (\<lambda>b. \<not> gone b) (cp_blocks p)"
  "cp_ranges (cp_drop gone p) = cp_ranges p"
  "class_limit (cp_drop gone p) = class_limit p"
  "ignored_frees (cp_drop gone p) = ignored_frees p"
  by (simp_all add: cp_drop_def)

lemma cp_drop_used:
  assumes inv: "cp_inv p" and c: "c < 15"
  shows "unat (class_used (cp_drop gone p) ! c) = class_sum c (filter (\<lambda>b. \<not> gone b) (cp_blocks p))"
proof -
  have "\<forall>d\<in>set (filter gone (cp_blocks p)). block_class d < 15"
    using cp_invD(2) [OF inv] by (auto simp: block_ok_def cp_consts)
  moreover have "\<forall>c<15. unat (class_used p ! c) =
      class_sum c (filter gone (cp_blocks p)) + class_sum c (filter (\<lambda>b. \<not> gone b) (cp_blocks p))"
    using cp_invD(9) [OF inv] class_sum_partition by metis
  ultimately show ?thesis
    using cp_uncharge_sum [of "filter gone (cp_blocks p)" "class_used p"
        "\<lambda>c. class_sum c (filter (\<lambda>b. \<not> gone b) (cp_blocks p))" c] cp_invD(7) [OF inv] c
    by (simp add: cp_drop_def)
qed

lemma cp_drop_inv:
  assumes inv: "cp_inv p"
  shows "cp_inv (cp_drop gone p)"
proof -
  have ok: "regions_ok (map cpb_region (filter P bs))" if "regions_ok (map cpb_region bs)" for P bs
    using that by (induction bs) (auto simp: regions_ok_Cons)
  have used: "class_used (cp_drop gone p) ! c \<le> class_limit p ! c" if "c < 15" for c
  proof -
    have "unat (class_used (cp_drop gone p) ! c) \<le> unat (class_used p ! c)"
      using cp_drop_used [OF inv that] cp_invD(9) [OF inv that] class_sum_partition [of c "cp_blocks p" gone] by simp
    then show ?thesis using cp_invD(10) [OF inv that] by (simp add: word_le_nat_alt)
  qed
  have "length (class_used (cp_drop gone p)) = 15" using cp_invD(7) [OF inv] by (simp add: cp_drop_def)
  then show ?thesis
    using ok [OF cp_invD(1) [OF inv]] cp_invD [OF inv] used cp_drop_used [OF inv]
      le_trans [OF length_filter_le]
    by (auto simp: cp_inv_def cp_regions_def cp_consts block_ok_def)
qed

lemma remove_blocks_drop:
  assumes le: "first \<le> stop" "stop \<le> length (cp_blocks p)"
    and gone: "\<And>i. i < length (cp_blocks p) \<Longrightarrow> gone (cp_blocks p ! i) \<longleftrightarrow> first \<le> i \<and> i < stop"
  shows "remove_blocks first stop p = (cp_bytes (filter gone (cp_blocks p)), cp_drop gone p)"
proof -
  let ?bs = "cp_blocks p"
  let ?a = "take first ?bs" and ?m = "take (stop - first) (drop first ?bs)" and ?z = "drop stop ?bs"
  have bs: "?bs = ?a @ ?m @ ?z"
    using le by (metis append_take_drop_id drop_drop le_add_diff_inverse2)
  have "\<forall>b\<in>set ?a. \<not> gone b" "\<forall>b\<in>set ?m. gone b" "\<forall>b\<in>set ?z. \<not> gone b"
    using le gone by (auto simp: in_set_conv_nth)
  then have "filter gone (?a @ ?m @ ?z) = ?m" "filter (\<lambda>b. \<not> gone b) (?a @ ?m @ ?z) = ?a @ ?z"
    by (simp_all only: filter_append) (simp_all add: filter_empty_conv filter_id_conv)
  then have "filter gone ?bs = ?m" "filter (\<lambda>b. \<not> gone b) ?bs = ?a @ ?z" unfolding bs [symmetric] .
  then show ?thesis by (simp add: remove_blocks_def Let_def cp_drop_def)
qed

lemma release_where_drop:
  "release_where key except_class p =
    (let gone = (\<lambda>b. if except_class then block_class b \<noteq> unat key else cpb_owner b = key)
     in (cp_bytes (filter gone (cp_blocks p)), cp_drop gone p))"
  by (simp add: release_where_def cp_release_walk_eq cp_drop_def cp_bytes_def Let_def)

lemma card_pool_free_drop:
  assumes inv: "cp_inv p"
  shows "card_pool_free addr owner p =
    (if addr \<noteq> 0 \<and> (\<exists>b\<in>set (cp_blocks p). cpb_addr b = addr \<and> cpb_owner b = owner)
     then (True, cp_drop (\<lambda>b. cpb_addr b = addr) p)
     else (False, if addr = 0 then p else p\<lparr>ignored_frees := ignored_frees p + 1\<rparr>))"
proof -
  let ?bs = "cp_blocks p" and ?i = "lower_bound (cp_blocks p) addr"
  note ok = cp_invD(1) [OF inv]
  have hit: "?i < length ?bs \<and> cpb_addr (?bs ! ?i) = addr \<and> cpb_owner (?bs ! ?i) = owner \<longleftrightarrow>
      (\<exists>b\<in>set ?bs. cpb_addr b = addr \<and> cpb_owner b = owner)"
    using lower_bound_hit [OF ok] by (metis nth_mem)
  have "remove_blocks ?i (?i + 1) p = (cp_bytes (filter (\<lambda>b. cpb_addr b = addr) ?bs),
      cp_drop (\<lambda>b. cpb_addr b = addr) p)" if "?i < length ?bs" "cpb_addr (?bs ! ?i) = addr"
  proof (rule remove_blocks_drop)
    fix j assume j: "j < length ?bs"
    show "cpb_addr (?bs ! j) = addr \<longleftrightarrow> ?i \<le> j \<and> j < ?i + 1"
      using cp_mono(2) [OF ok, of j ?i] cp_mono(2) [OF ok, of ?i j] that j
      by (cases j ?i rule: linorder_cases) auto
  qed (use that in auto)
  then show ?thesis unfolding card_pool_free_def Let_def hit [symmetric] by auto
qed

lemma ranges_apart_nth:
  assumes "ranges_apart rs" "i < length rs" "j < length rs" "i \<noteq> j"
  shows "unat (cpr_end (rs ! i)) \<le> unat (cpr_base (rs ! j)) \<or> unat (cpr_end (rs ! j)) \<le> unat (cpr_base (rs ! i))"
  using assms by (cases i j rule: linorder_cases) (fastforce simp: ranges_apart_def sorted_wrt_iff_nth_less)+

text \<open>Inside a range of the pool, starting below its end means lying in it.\<close>

lemma block_in_range:
  assumes inv: "cp_inv p" and r: "r \<in> set (cp_ranges p)" and b: "b \<in> set (cp_blocks p)"
    and at: "\<not> cpb_addr b < cpr_base r" "cpb_addr b < cpr_end r"
  shows "in_range r b" "cp_eligible (block_class b) r"
proof -
  obtain r' where r': "r' \<in> set (cp_ranges p)" "in_range r' b" "cp_eligible (block_class b) r'"
    using cp_invD(2) [OF inv b] by (auto simp: block_ok_def)
  obtain i j where ij: "i < length (cp_ranges p)" "cp_ranges p ! i = r" "j < length (cp_ranges p)" "cp_ranges p ! j = r'"
    using r r'(1) by (metis in_set_conv_nth)
  have pos: "0 < unat (cpb_size b)" using cp_invD(1) [OF inv] b by (auto simp: regions_ok_def cpb_region_def)
  have "i = j"
  proof (rule ccontr)
    assume "i \<noteq> j"
    from ranges_apart_nth [OF cp_invD(6) [OF inv] ij(1,3) this] show False
      using at r'(2) pos ij by (auto simp: in_range_def word_less_nat_alt)
  qed
  then have "r = r'" using ij by simp
  with r' show "in_range r b" "cp_eligible (block_class b) r" by simp_all
qed

lemma block_outside_range:
  assumes "in_range r b" "range_ok r" "0 < unat (cpb_size b)"
  shows "\<not> cpb_addr b < cpr_base r" "cpb_addr b < cpr_end r"
  using assms by (auto simp: in_range_def word_less_nat_alt)

text \<open>Revoking a range drops exactly its blocks.\<close>

lemma revoke_range_drop:
  assumes inv: "cp_inv p" and k: "k < length (cp_ranges p)"
  defines "r \<equiv> cp_ranges p ! k"
  shows "card_pool_revoke_range k p =
    (cp_bytes (filter (in_range r) (cp_blocks p)),
     (cp_drop (in_range r) p)\<lparr>cp_ranges := (cp_ranges p)[k := r\<lparr>cpr_open := False\<rparr>]\<rparr>)"
proof -
  let ?bs = "cp_blocks p"
  let ?a = "lower_bound ?bs (cpr_base r)" and ?z = "lower_bound ?bs (cpr_end r)"
  note ok = cp_invD(1) [OF inv]
  have r: "r \<in> set (cp_ranges p)" "range_ok r" using k cp_invD(5) [OF inv] by (auto simp: r_def)
  have gone: "in_range r (?bs ! i) \<longleftrightarrow> ?a \<le> i \<and> i < ?z" if i: "i < length ?bs" for i
  proof
    assume "in_range r (?bs ! i)"
    moreover have "0 < unat (cpb_size (?bs ! i))" using ok i by (auto simp: regions_ok_def cpb_region_def)
    ultimately have "\<not> cpb_addr (?bs ! i) < cpr_base r" "cpb_addr (?bs ! i) < cpr_end r"
      using block_outside_range r(2) by blast+
    then show "?a \<le> i \<and> i < ?z"
      using lower_bound_spec(2) [OF ok, of i "cpr_base r"] lower_bound_spec(3) [OF ok, of "cpr_end r" i] i
      by (meson not_le)
  next
    assume "?a \<le> i \<and> i < ?z"
    then show "in_range r (?bs ! i)"
      using lower_bound_spec(3) [OF ok, of "cpr_base r" i] lower_bound_spec(2) [OF ok, of i "cpr_end r"] i
      by (intro block_in_range(1) [OF inv r(1)]) auto
  qed
  have "?a \<le> ?z"
  proof (rule ccontr)
    assume "\<not> ?a \<le> ?z"
    then have z: "?z < ?a" by simp
    then have "?z < length ?bs" using lower_bound_spec(1) [OF ok, of "cpr_base r"] by simp
    then have "\<not> cpb_addr (?bs ! ?z) < cpr_end r" "cpb_addr (?bs ! ?z) < cpr_base r"
      using lower_bound_spec(2,3) [OF ok] z by auto
    with r(2) show False by (auto simp: range_ok_def word_less_nat_alt)
  qed
  then have "remove_blocks ?a ?z p = (cp_bytes (filter (in_range r) ?bs), cp_drop (in_range r) p)"
    using lower_bound_spec(1) [OF ok] gone by (intro remove_blocks_drop) auto
  then show ?thesis using k by (simp add: card_pool_revoke_range_def Let_def r_def)
qed

section \<open>Opening and closing ranges\<close>

lemma ranges_apart_update:
  "k < length rs \<Longrightarrow> ranges_apart (rs[k := (rs ! k)\<lparr>cpr_open := v\<rparr>]) \<longleftrightarrow> ranges_apart rs"
  by (auto simp: ranges_apart_def sorted_wrt_iff_nth_less nth_list_update)

lemma set_update_neq: "x \<in> set xs \<Longrightarrow> x \<noteq> xs ! k \<Longrightarrow> x \<in> set (xs[k := y])"
  by (metis in_set_conv_nth length_list_update nth_list_update_neq)

lemma cp_set_open_inv:
  assumes inv: "cp_inv p" and k: "k < length (cp_ranges p)"
    and keep: "\<And>b. b \<in> set (cp_blocks p) \<Longrightarrow> \<not> v \<Longrightarrow> \<not> in_range (cp_ranges p ! k) b"
  shows "cp_inv (p\<lparr>cp_ranges := (cp_ranges p)[k := (cp_ranges p ! k)\<lparr>cpr_open := v\<rparr>]\<rparr>)"
proof -
  let ?rs = "cp_ranges p" and ?r = "cp_ranges p ! k"
  let ?rs' = "?rs[k := ?r\<lparr>cpr_open := v\<rparr>]"
  note I = cp_invD [OF inv]
  have "block_ok (p\<lparr>cp_ranges := ?rs'\<rparr>) b" if b: "b \<in> set (cp_blocks p)" for b
  proof -
    obtain r' where r': "r' \<in> set ?rs" "in_range r' b" "cp_eligible (block_class b) r'"
      using I(2) [OF b] by (auto simp: block_ok_def)
    have "\<exists>r\<in>set ?rs'. in_range r b \<and> cp_eligible (block_class b) r"
    proof (cases "r' = ?r")
      case True
      then have "v" using keep [OF b] r'(2) by blast
      then show ?thesis using r'(2,3) True k
        by (intro bexI [of _ "?r\<lparr>cpr_open := v\<rparr>"]) (auto simp: in_range_def cp_eligible_def set_update_memI)
    next
      case False
      then show ?thesis using r' set_update_neq [OF r'(1)] by blast
    qed
    with I(2) [OF b] show ?thesis by (auto simp: block_ok_def)
  qed
  moreover have "range_ok r" if "r \<in> set ?rs'" for r
    using that I(5) k set_update_subset_insert [of ?rs k "?r\<lparr>cpr_open := v\<rparr>"]
    by (auto simp: range_ok_def)
  ultimately show ?thesis
    using I k by (simp add: cp_inv_def cp_regions_def cp_consts ranges_apart_update)
qed

lemma card_pool_open_range_inv: "cp_inv p \<Longrightarrow> cp_inv (card_pool_open_range k p)"
  using cp_set_open_inv [of p k True] by (simp add: card_pool_open_range_def)

lemma card_pool_revoke_range_inv:
  assumes "cp_inv p"
  shows "cp_inv (snd (card_pool_revoke_range k p))"
proof (cases "k < length (cp_ranges p)")
  case True
  have "cp_inv (cp_drop (in_range (cp_ranges p ! k)) p)" using assms by (rule cp_drop_inv)
  from cp_set_open_inv [OF this, of k False] True show ?thesis
    by (simp add: revoke_range_drop [OF assms True])
qed (use assms in \<open>simp add: card_pool_revoke_range_def\<close>)

section \<open>Allocation\<close>

lemma cpb_end_word: "cpb_end b < 4294967296 \<Longrightarrow> unat (cpb_addr b + cpb_size b) = cpb_end b"
  by (simp add: cpb_end_def unat_plus_no_wrap)

text \<open>The gap walk: the lowest fitting address among the blocks below \<open>en\<close>.\<close>

lemma cp_gap_spec:
  assumes "regions_ok (map cpb_region bs)"
    and "\<forall>b\<in>set bs. cpb_addr b < en \<longrightarrow> cpb_end b \<le> unat en \<and> page dvd cpb_end b"
    and "\<forall>b\<in>set bs. unat cand \<le> unat (cpb_addr b)" "page dvd unat cand" "unat cand \<le> unat en"
    and "cp_gap en sz bs i cand = (c, j)"
  shows "\<exists>m\<le>length bs. j = i + m \<and> unat cand \<le> unat c \<and> unat c \<le> unat en \<and> page dvd unat c \<and>
    (\<forall>b\<in>set (take m bs). cpb_end b \<le> unat c) \<and>
    (\<forall>b\<in>set (drop m bs). cpb_addr b < en \<longrightarrow> unat c + unat sz \<le> unat (cpb_addr b)) \<and>
    (\<forall>x. unat cand \<le> x \<longrightarrow> x < unat c \<longrightarrow>
       (\<exists>b\<in>set bs. unat (cpb_addr b) < x + unat sz \<and> x < cpb_end b))"
  using assms
proof (induction bs arbitrary: i cand)
  case Nil
  then show ?case by auto
next
  case (Cons b bs)
  have le: "unat cand \<le> unat (cpb_addr b)" and rok: "regions_ok (map cpb_region bs)"
    and above: "\<forall>b'\<in>set bs. cpb_end b \<le> unat (cpb_addr b')"
    using Cons.prems(1,3) by (auto simp: regions_ok_Cons before_cpb)
  consider (out) "\<not> cpb_addr b < en" | (fit) "cpb_addr b < en" "cpb_addr b - cand \<ge> sz"
    | (step) "cpb_addr b < en" "\<not> cpb_addr b - cand \<ge> sz" by blast
  then show ?case
  proof cases
    case out
    have "\<forall>b'\<in>set (b # bs). \<not> cpb_addr b' < en"
      using out above by (auto simp: word_less_nat_alt cpb_end_def)
    then show ?thesis using out Cons.prems by (intro exI [of _ 0]) auto
  next
    case fit
    then have "unat cand + unat sz \<le> unat (cpb_addr b)"
      using le by (simp add: word_le_nat_alt unat_minus_no_wrap)
    then have "\<forall>b'\<in>set (b # bs). unat cand + unat sz \<le> unat (cpb_addr b')"
      using above by (auto simp: cpb_end_def)
    then show ?thesis using fit Cons.prems by (intro exI [of _ 0]) auto
  next
    case step
    then have overlap: "unat (cpb_addr b) < unat cand + unat sz"
      using le by (simp add: word_le_nat_alt unat_minus_no_wrap)
    have e: "cpb_end b \<le> unat en" "page dvd cpb_end b" using Cons.prems(2) step(1) by auto
    then have c': "unat (cpb_addr b + cpb_size b) = cpb_end b"
      by (intro cpb_end_word) (metis le_less_trans unat_lt32)
    have "\<exists>m\<le>length bs. j = Suc i + m \<and> cpb_end b \<le> unat c \<and> unat c \<le> unat en \<and> page dvd unat c \<and>
      (\<forall>b\<in>set (take m bs). cpb_end b \<le> unat c) \<and>
      (\<forall>b\<in>set (drop m bs). cpb_addr b < en \<longrightarrow> unat c + unat sz \<le> unat (cpb_addr b)) \<and>
      (\<forall>x. cpb_end b \<le> x \<longrightarrow> x < unat c \<longrightarrow>
         (\<exists>b\<in>set bs. unat (cpb_addr b) < x + unat sz \<and> x < cpb_end b))"
      unfolding c' [symmetric]
      using rok Cons.prems(2,6) above e step by (intro Cons.IH) (auto simp: c')
    then obtain m where m: "m \<le> length bs" "j = Suc i + m" "cpb_end b \<le> unat c" "unat c \<le> unat en" "page dvd unat c"
      "\<forall>b\<in>set (take m bs). cpb_end b \<le> unat c"
      "\<forall>b\<in>set (drop m bs). cpb_addr b < en \<longrightarrow> unat c + unat sz \<le> unat (cpb_addr b)"
      and gap: "\<And>x. cpb_end b \<le> x \<Longrightarrow> x < unat c \<Longrightarrow>
        \<exists>b\<in>set bs. unat (cpb_addr b) < x + unat sz \<and> x < cpb_end b" by blast
    have "\<exists>b'\<in>set (b # bs). unat (cpb_addr b') < x + unat sz \<and> x < cpb_end b'"
      if "unat cand \<le> x" "x < unat c" for x
      using overlap gap [of x] that by (cases "x < cpb_end b") force+
    moreover have "unat cand \<le> unat c" using le m(3) by (simp add: cpb_end_def)
    ultimately show ?thesis using m by (intro exI [of _ "Suc m"]) auto
  qed
qed

lemma block_below_range:
  assumes inv: "cp_inv p" and r: "r \<in> set (cp_ranges p)" and b: "b \<in> set (cp_blocks p)"
    and at: "cpb_addr b < cpr_base r"
  shows "cpb_end b \<le> unat (cpr_base r)"
proof -
  obtain r' where r': "r' \<in> set (cp_ranges p)" "in_range r' b"
    using cp_invD(2) [OF inv b] by (auto simp: block_ok_def)
  obtain i j where ij: "i < length (cp_ranges p)" "cp_ranges p ! i = r" "j < length (cp_ranges p)" "cp_ranges p ! j = r'"
    using r r'(1) by (metis in_set_conv_nth)
  have "i \<noteq> j" using ij r'(2) at by (auto simp: in_range_def word_less_nat_alt)
  from ranges_apart_nth [OF cp_invD(6) [OF inv] ij(1,3) this] cp_invD(5) [OF inv r] show ?thesis
    using at r'(2) ij by (auto simp: in_range_def word_less_nat_alt range_ok_def cpb_end_def)
qed

lemma find_gap_spec:
  assumes inv: "cp_inv p" and r: "r \<in> set (cp_ranges p)"
    and res: "find_gap (cp_blocks p) r sz = (a, k)"
  shows "a \<noteq> 0 \<Longrightarrow> k \<le> length (cp_blocks p) \<and> unat (cpr_base r) \<le> unat a \<and>
      unat a + unat sz \<le> unat (cpr_end r) \<and> page dvd unat a \<and>
      (\<forall>b\<in>set (take k (cp_blocks p)). cpb_end b \<le> unat a) \<and>
      (\<forall>b\<in>set (drop k (cp_blocks p)). unat a + unat sz \<le> unat (cpb_addr b))"
    "a = 0 \<Longrightarrow> unat (cpr_base r) \<le> x \<Longrightarrow> x + unat sz \<le> unat (cpr_end r) \<Longrightarrow> 0 < unat sz \<Longrightarrow>
      \<exists>b\<in>set (cp_blocks p). unat (cpb_addr b) < x + unat sz \<and> x < cpb_end b"
proof -
  let ?bs = "cp_blocks p" and ?i = "lower_bound (cp_blocks p) (cpr_base r)"
  note ok = cp_invD(1) [OF inv] and rok = cp_invD(5) [OF inv r]
  have inbs: "b \<in> set ?bs \<and> \<not> cpb_addr b < cpr_base r" if "b \<in> set (drop ?i ?bs)" for b
    using that unfolding lower_bound_take_drop [OF ok] by simp
  obtain c j where gap: "cp_gap (cpr_end r) sz (drop ?i ?bs) ?i (cpr_base r) = (c, j)" by fastforce
  have blk: "cpb_end b \<le> unat (cpr_end r) \<and> page dvd cpb_end b" if "b \<in> set (drop ?i ?bs)" "cpb_addr b < cpr_end r" for b
    using block_in_range(1) [OF inv r _ _ that(2)] inbs [OF that(1)] cp_invD(2) [OF inv, of b]
    by (auto simp: in_range_def cpb_end_def block_ok_def)
  have "regions_ok (map cpb_region (drop ?i ?bs))" using regions_ok_split(2) [OF ok] by (simp add: drop_map)
  moreover have "\<forall>b\<in>set (drop ?i ?bs). unat (cpr_base r) \<le> unat (cpb_addr b)"
    using inbs by (auto simp: word_less_nat_alt not_less)
  ultimately obtain m where m: "m \<le> length (drop ?i ?bs)" "j = ?i + m" "unat (cpr_base r) \<le> unat c"
    "unat c \<le> unat (cpr_end r)" "page dvd unat c"
    "\<forall>b\<in>set (take m (drop ?i ?bs)). cpb_end b \<le> unat c"
    "\<forall>b\<in>set (drop m (drop ?i ?bs)). cpb_addr b < cpr_end r \<longrightarrow> unat c + unat sz \<le> unat (cpb_addr b)"
    and low: "\<And>x. unat (cpr_base r) \<le> x \<Longrightarrow> x < unat c \<Longrightarrow>
       \<exists>b\<in>set (drop ?i ?bs). unat (cpb_addr b) < x + unat sz \<and> x < cpb_end b"
    using cp_gap_spec [OF _ _ _ _ _ gap] blk rok by (auto simp: range_ok_def)
  have sz: "cpr_end r - c < sz \<longleftrightarrow> \<not> unat c + unat sz \<le> unat (cpr_end r)"
    using m(4) by (auto simp: word_less_nat_alt unat_minus_no_wrap)
  have ak: "(a, k) = (if cpr_end r - c < sz then (0, 0) else (c, j))"
    using res gap by (simp add: find_gap_def Let_def)
  show "k \<le> length ?bs \<and> unat (cpr_base r) \<le> unat a \<and> unat a + unat sz \<le> unat (cpr_end r) \<and> page dvd unat a \<and>
      (\<forall>b\<in>set (take k ?bs). cpb_end b \<le> unat a) \<and> (\<forall>b\<in>set (drop k ?bs). unat a + unat sz \<le> unat (cpb_addr b))"
    if "a \<noteq> 0"
  proof -
    have a: "a = c" "k = ?i + m" "unat c + unat sz \<le> unat (cpr_end r)"
      using that ak sz m(2) by (auto split: if_splits)
    have "\<forall>b\<in>set (take ?i ?bs). cpb_end b \<le> unat c"
      unfolding lower_bound_take_drop(1) [OF ok] using block_below_range [OF inv r] m(3) le_trans by fastforce
    then have "\<forall>b\<in>set (take k ?bs). cpb_end b \<le> unat a"
      using m(6) by (auto simp: a take_add)
    moreover have "unat a + unat sz \<le> unat (cpb_addr b)" if "b \<in> set (drop k ?bs)" for b
      using m(7) that a by (cases "cpb_addr b < cpr_end r") (auto simp: add.commute word_less_nat_alt)
    moreover have "k \<le> length ?bs" using m(1) a(2) lower_bound_spec(1) [OF ok, of "cpr_base r"] by simp
    ultimately show ?thesis using a m(3,5) by auto
  qed
  show "\<exists>b\<in>set ?bs. unat (cpb_addr b) < x + unat sz \<and> x < cpb_end b"
    if "a = 0" "unat (cpr_base r) \<le> x" "x + unat sz \<le> unat (cpr_end r)" "0 < unat sz"
  proof -
    have "c \<noteq> 0" using m(3) rok by (auto simp: range_ok_def)
    then have "\<not> unat c + unat sz \<le> unat (cpr_end r)" using that(1) ak sz by (auto split: if_splits)
    then have "x < unat c" using that(3) by linarith
    from low [OF that(2) this] inbs show ?thesis by blast
  qed
qed

lemma cp_search_spec:
  assumes inv: "cp_inv p" and sub: "set rs \<subseteq> set (cp_ranges p)"
    and res: "cp_search (cp_blocks p) cls sz rs = (a, k)"
  shows "(a \<noteq> 0 \<longrightarrow> (\<exists>r\<in>set rs. cp_eligible cls r \<and> find_gap (cp_blocks p) r sz = (a, k))) \<and>
    (a = 0 \<longrightarrow> (\<forall>r\<in>set rs. cp_eligible cls r \<longrightarrow> fst (find_gap (cp_blocks p) r sz) = 0))"
  using sub res by (induction rs) (auto split: if_splits prod.splits)

lemma cp_rounded_spec:
  assumes "sz \<noteq> 0" "\<not> sz > UINT32_MAX - (CARD_POOL_PAGE_BYTES - 1)"
  shows "unat sz \<le> unat (cp_rounded sz)" "unat (cp_rounded sz) < unat sz + page"
    "page dvd unat (cp_rounded sz)" "0 < unat (cp_rounded sz)"
proof -
  have "unat sz \<le> 4294901760"
    using assms(2) by (simp add: cp_consts word_le_nat_alt not_less)
  then have sum: "unat (sz + 65535) = unat sz + 65535" by (simp add: unat_plus_no_wrap)
  have m: "(65535 :: u32) = mask 16" by (simp add: mask_eq_exp_minus_1)
  have "cp_rounded sz = (sz + 65535) AND NOT (mask 16)"
    by (simp add: cp_rounded_def cp_consts m add.commute)
  then have eq: "unat (cp_rounded sz) = (unat sz + 65535) - (unat sz + 65535) mod 65536"
    by (simp add: unat_and_not_mask sum)
  show "unat sz \<le> unat (cp_rounded sz)" "unat (cp_rounded sz) < unat sz + page" "page dvd unat (cp_rounded sz)"
    using nat_round_up [of 65536 "unat sz"] by (simp_all add: eq)
  then show "0 < unat (cp_rounded sz)" using assms(1) by (simp add: unat_gt_0 [symmetric])
qed

text \<open>The state after a successful allocation.\<close>

definition cp_insert :: "card_pool \<Rightarrow> nat \<Rightarrow> u32 \<Rightarrow> u32 \<Rightarrow> u32 \<Rightarrow> card_pool" where
  "cp_insert p i addr rounded owner = p\<lparr>cp_blocks := insert_at i
       \<lparr>cpb_addr = addr, cpb_size = rounded, cpb_owner = owner\<rparr> (cp_blocks p),
     class_used := (class_used p)[CARD_POOL_OWNER_CLASS owner := class_used p ! CARD_POOL_OWNER_CLASS owner + rounded]\<rparr>"

lemma cp_insert_inv:
  assumes inv: "cp_inv p" and cls: "0 < CARD_POOL_OWNER_CLASS owner" "CARD_POOL_OWNER_CLASS owner < 15"
    and room: "length (cp_blocks p) < 512" and n: "page dvd unat n" "0 < unat n" "page dvd unat a"
    and lim: "n \<le> class_limit p ! CARD_POOL_OWNER_CLASS owner - class_used p ! CARD_POOL_OWNER_CLASS owner"
    and r: "r \<in> set (cp_ranges p)" "cp_eligible (CARD_POOL_OWNER_CLASS owner) r"
      "unat (cpr_base r) \<le> unat a" "unat a + unat n \<le> unat (cpr_end r)"
    and left: "\<forall>b\<in>set (take i (cp_blocks p)). cpb_end b \<le> unat a"
    and right: "\<forall>b\<in>set (drop i (cp_blocks p)). unat a + unat n \<le> unat (cpb_addr b)"
  shows "cp_inv (cp_insert p i a n owner)"
    "unat (class_used (cp_insert p i a n owner) ! CARD_POOL_OWNER_CLASS owner) =
      unat (class_used p ! CARD_POOL_OWNER_CLASS owner) + unat n"
proof -
  let ?c = "CARD_POOL_OWNER_CLASS owner"
  let ?b = "\<lparr>cpb_addr = a, cpb_size = n, cpb_owner = owner\<rparr>"
  note I = cp_invD [OF inv]
  have le: "class_used p ! ?c \<le> class_limit p ! ?c" using I(10) cls by blast
  then have sum: "unat (class_used p ! ?c) + unat n \<le> unat (class_limit p ! ?c)"
    using lim by (simp add: word_le_nat_alt unat_minus_no_wrap)
  have up: "unat (class_used p ! ?c + n) = unat (class_used p ! ?c) + unat n"
    by (rule unat_plus_no_wrap [OF le_less_trans [OF sum unat_lt32]])
  then show "unat (class_used (cp_insert p i a n owner) ! ?c) = unat (class_used p ! ?c) + unat n"
    using I(7) cls by (simp add: cp_insert_def)
  have "regions_ok (insert_at i (cpb_region ?b) (map cpb_region (cp_blocks p)))"
    using I(1) n(2) left right
    by (intro regions_ok_insert_at)
      (auto simp: take_map drop_map before_def cpb_region_def region_end_def cpb_end_def)
  moreover have "block_ok (cp_insert p i a n owner) b" if "b \<in> insert ?b (set (cp_blocks p))" for b
    using that I(2) [of b] cls n r by (auto simp: block_ok_def cp_insert_def cp_consts in_range_def)
  ultimately show "cp_inv (cp_insert p i a n owner)"
    using I room sum up cls
    by (auto simp: cp_inv_def cp_regions_def cp_consts cp_insert_def map_insert_at set_insert_at
        length_insert_at nth_list_update class_sum_insert_at word_le_nat_alt)
qed

lemma cp_alloc_cases:
  assumes inv: "cp_inv p" and res: "card_pool_alloc sz owner p = (a, p')"
  shows "a = 0 \<and> p' = p \<or>
    (\<exists>r\<in>set (cp_ranges p). \<exists>i. a \<noteq> 0 \<and> sz \<noteq> 0 \<and> p' = cp_insert p i a (cp_rounded sz) owner \<and> cp_inv p' \<and>
       unat sz \<le> unat (cp_rounded sz) \<and> unat (cp_rounded sz) < unat sz + page \<and>
       page dvd unat a \<and> page dvd unat (cp_rounded sz) \<and>
       cp_eligible (CARD_POOL_OWNER_CLASS owner) r \<and> unat (cpr_base r) \<le> unat a \<and>
       unat a + unat (cp_rounded sz) \<le> unat (cpr_end r) \<and>
       (\<forall>b\<in>set (cp_blocks p). cpb_end b \<le> unat a \<or> unat a + unat (cp_rounded sz) \<le> unat (cpb_addr b)))"
proof (cases "a = 0")
  case True
  then show ?thesis using res by (auto simp: card_pool_alloc_def Let_def split: if_splits prod.splits)
next
  case False
  let ?c = "CARD_POOL_OWNER_CLASS owner" and ?n = "cp_rounded sz"
  from res False obtain i where g: "sz \<noteq> 0" "\<not> sz > UINT32_MAX - (CARD_POOL_PAGE_BYTES - 1)" "0 < ?c" "?c < 15"
      "length (cp_blocks p) < 512" "?n \<le> class_limit p ! ?c - class_used p ! ?c"
    and s: "cp_search (cp_blocks p) ?c ?n (cp_ranges p) = (a, i)" and p': "p' = cp_insert p i a ?n owner"
    by (auto simp: card_pool_alloc_def Let_def cp_insert_def cp_consts split: if_splits prod.splits)
  obtain r where r: "r \<in> set (cp_ranges p)" "cp_eligible ?c r" "find_gap (cp_blocks p) r ?n = (a, i)"
    using cp_search_spec [OF inv order_refl s] False by blast
  note gap = find_gap_spec(1) [OF inv r(1,3) False]
  have lr: "\<forall>b\<in>set (take i (cp_blocks p)). cpb_end b \<le> unat a"
    "\<forall>b\<in>set (drop i (cp_blocks p)). unat a + unat ?n \<le> unat (cpb_addr b)" using gap by auto
  have "cp_inv p'" unfolding p' using gap r(1,2) g cp_rounded_spec [OF g(1,2)]
    by (intro cp_insert_inv(1) [OF inv]) auto
  moreover have "cpb_end b \<le> unat a \<or> unat a + unat ?n \<le> unat (cpb_addr b)" if "b \<in> set (cp_blocks p)" for b
    using that lr by (metis Un_iff append_take_drop_id set_append)
  ultimately show ?thesis
    using False g(1) p' gap r(1,2) cp_rounded_spec [OF g(1,2)] by (intro disjI2 bexI [OF _ r(1)] exI [of _ i]) auto
qed

section \<open>What the pool promises\<close>

text \<open>
  an allocation fails without effect, or records one page-aligned block of the rounded
  size, owned by the caller, inside one open range (a permanent one for the
  FIRMWARE and APP classes), disjoint from every live block, and charges exactly its
  bytes to the class, which stays within its limit.
\<close>

theorem card_pool_alloc_spec:
  assumes inv: "cp_inv p" and res: "card_pool_alloc sz owner p = (a, p')"
  shows "cp_inv p' \<and> (a = 0 \<longrightarrow> p' = p) \<and>
    (a \<noteq> 0 \<longrightarrow> (\<exists>n. unat sz \<le> unat n \<and> unat n < unat sz + 65536 \<and> 65536 dvd unat a \<and> 65536 dvd unat n \<and>
       (\<exists>r\<in>set (cp_ranges p). cpr_open r \<and> unat (cpr_base r) \<le> unat a \<and> unat a + unat n \<le> unat (cpr_end r) \<and>
          (cpr_revocable r \<longrightarrow> CARD_POOL_OWNER_CLASS owner \<notin> {1, 8})) \<and>
       (\<forall>x\<in>set (cp_regions p). disjoint_regions (unat a, unat n) x) \<and>
       set (cp_blocks p') = insert \<lparr>cpb_addr = a, cpb_size = n, cpb_owner = owner\<rparr> (set (cp_blocks p)) \<and>
       (\<forall>c<15. unat (class_used p' ! c) = unat (class_used p ! c) +
          (if c = CARD_POOL_OWNER_CLASS owner then unat n else 0) \<and> class_used p' ! c \<le> class_limit p' ! c)))"
  using cp_alloc_cases [OF assms]
proof (elim disjE bexE exE conjE)
  fix r i
  let ?n = "cp_rounded sz" and ?b = "\<lparr>cpb_addr = a, cpb_size = cp_rounded sz, cpb_owner = owner\<rparr>"
  assume r: "r \<in> set (cp_ranges p)" "cp_eligible (CARD_POOL_OWNER_CLASS owner) r" "unat (cpr_base r) \<le> unat a"
      "unat a + unat ?n \<le> unat (cpr_end r)"
    and a: "a \<noteq> 0" "p' = cp_insert p i a ?n owner" "cp_inv p'" "unat sz \<le> unat ?n" "unat ?n < unat sz + page"
      "page dvd unat a" "page dvd unat ?n"
      "\<forall>b\<in>set (cp_blocks p). cpb_end b \<le> unat a \<or> unat a + unat ?n \<le> unat (cpb_addr b)"
  have d: "\<forall>x\<in>set (cp_regions p). disjoint_regions (unat a, unat ?n) x"
    using a(8) by (auto simp: cp_regions_def cpb_region_def disjoint_regions_def before_def region_end_def cpb_end_def)
  have "unat (class_used p' ! c) = unat (class_used p ! c) + (if c = CARD_POOL_OWNER_CLASS owner then unat ?n else 0)"
    if "c < 15" for c
    using cp_invD(9) [OF inv that] cp_invD(9) [OF a(3) that] by (simp add: a(2) cp_insert_def class_sum_insert_at)
  moreover have "class_used p' ! c \<le> class_limit p' ! c" if "c < 15" for c using cp_invD(10) [OF a(3) that] .
  moreover have "set (cp_blocks p') = insert ?b (set (cp_blocks p))"
    by (simp add: a(2) cp_insert_def set_insert_at)
  moreover have "\<exists>r\<in>set (cp_ranges p). cpr_open r \<and> unat (cpr_base r) \<le> unat a \<and> unat a + unat ?n \<le> unat (cpr_end r) \<and>
      (cpr_revocable r \<longrightarrow> CARD_POOL_OWNER_CLASS owner \<notin> {1, 8})"
    using r by (auto simp: cp_eligible_def cp_consts)
  ultimately show ?thesis using a d by auto
qed (use inv in simp)

text \<open>
  an allocation within its class budget succeeds whenever some open range the class
  may use has room for the rounded size between the live blocks.
\<close>

theorem card_pool_alloc_complete:
  assumes inv: "cp_inv p" and sz: "sz \<noteq> 0" "\<not> sz > UINT32_MAX - 65535"
    and cls: "0 < CARD_POOL_OWNER_CLASS owner" "CARD_POOL_OWNER_CLASS owner < 15"
    and room: "length (cp_blocks p) < 512"
    and lim: "cp_rounded sz \<le> class_limit p ! CARD_POOL_OWNER_CLASS owner - class_used p ! CARD_POOL_OWNER_CLASS owner"
    and r: "r \<in> set (cp_ranges p)" "cpr_open r" "cpr_revocable r \<Longrightarrow> CARD_POOL_OWNER_CLASS owner \<notin> {1, 8}"
    and x: "unat (cpr_base r) \<le> x" "x + unat (cp_rounded sz) \<le> unat (cpr_end r)"
      "\<forall>y\<in>set (cp_regions p). disjoint_regions (x, unat (cp_rounded sz)) y"
  shows "fst (card_pool_alloc sz owner p) \<noteq> 0"
proof -
  let ?c = "CARD_POOL_OWNER_CLASS owner" and ?n = "cp_rounded sz"
  have n: "0 < unat ?n" using cp_rounded_spec(4) [OF sz(1)] sz(2) by (simp add: cp_consts)
  obtain a i where s: "cp_search (cp_blocks p) ?c ?n (cp_ranges p) = (a, i)" by fastforce
  have "a \<noteq> 0"
  proof
    assume "a = 0"
    moreover have "cp_eligible ?c r" using r by (auto simp: cp_eligible_def cp_consts)
    ultimately have "fst (find_gap (cp_blocks p) r ?n) = 0"
      using cp_search_spec [OF inv order_refl s] r(1) by blast
    then obtain k where "find_gap (cp_blocks p) r ?n = (0, k)" by (metis prod.collapse)
    from find_gap_spec(2) [OF inv r(1) this refl x(1,2) n] obtain b where
      "b \<in> set (cp_blocks p)" "unat (cpb_addr b) < x + unat ?n" "x < cpb_end b" by blast
    with x(3) show False
      by (auto simp: cp_regions_def cpb_region_def disjoint_regions_def before_def region_end_def cpb_end_def)
  qed
  with s show ?thesis using sz cls room lim by (simp add: card_pool_alloc_def Let_def cp_consts)
qed

text \<open>
  only the owner frees a block. The free succeeds exactly when the caller owns the block
  starting at that address, and then removes that block alone; any other free
  changes nothing but the ignored-free count.
\<close>

theorem card_pool_free_spec:
  assumes inv: "cp_inv p" and res: "card_pool_free addr owner p = (freed, p')" and addr: "addr \<noteq> 0"
  shows "cp_inv p' \<and> (freed \<longleftrightarrow> (\<exists>n. \<lparr>cpb_addr = addr, cpb_size = n, cpb_owner = owner\<rparr> \<in> set (cp_blocks p))) \<and>
    (freed \<longrightarrow> cp_blocks p' = filter (\<lambda>b. cpb_addr b \<noteq> addr) (cp_blocks p) \<and>
       (\<forall>b\<in>set (cp_blocks p). cpb_addr b = addr \<longrightarrow> cpb_owner b = owner)) \<and>
    (\<not> freed \<longrightarrow> p' = p\<lparr>ignored_frees := ignored_frees p + 1\<rparr>)"
proof -
  let ?own = "\<exists>b\<in>set (cp_blocks p). cpb_addr b = addr \<and> cpb_owner b = owner"
  have eq: "(freed, p') = (if ?own then (True, cp_drop (\<lambda>b. cpb_addr b = addr) p)
      else (False, p\<lparr>ignored_frees := ignored_frees p + 1\<rparr>))"
    using res addr card_pool_free_drop [OF inv, of addr owner] by (auto split: if_splits)
  have own: "?own \<longleftrightarrow> (\<exists>n. \<lparr>cpb_addr = addr, cpb_size = n, cpb_owner = owner\<rparr> \<in> set (cp_blocks p))"
  proof -
    have "b = \<lparr>cpb_addr = addr, cpb_size = cpb_size b, cpb_owner = owner\<rparr>"
      if "cpb_addr b = addr" "cpb_owner b = owner" for b :: card_pool_block using that by (cases b) simp
    then show ?thesis by (metis card_pool_block.select_convs(1,3))
  qed
  have "cpb_owner b = owner" if ?own "b \<in> set (cp_blocks p)" "cpb_addr b = addr" for b
    using that lower_bound_hit [OF cp_invD(1) [OF inv]] by metis
  moreover have "cp_inv (p\<lparr>ignored_frees := n\<rparr>)" for n
    using inv by (simp add: cp_inv_def cp_regions_def block_ok_def)
  ultimately show ?thesis using eq own cp_drop_inv [OF inv] by (auto split: if_splits)
qed

text \<open>
  the ownership query. \<^verbatim>\<open>card_pool_range_owned\<close> says yes exactly when one live block of
  that owner contains every byte asked for, with no wrap at either end.
\<close>

theorem card_pool_range_owned_spec:
  assumes inv: "cp_inv p" and arg: "addr \<noteq> 0" "len \<noteq> 0" "owner \<noteq> 0"
  shows "card_pool_range_owned addr len owner p \<longleftrightarrow>
    (\<exists>b\<in>set (cp_blocks p). cpb_owner b = owner \<and> unat (cpb_addr b) \<le> unat addr \<and>
       unat addr + unat len \<le> unat (cpb_addr b) + unat (cpb_size b))"
proof -
  let ?bs = "cp_blocks p"
  note ok = cp_invD(1) [OF inv]
  define k where "k = lower_bound ?bs addr"
  define i where "i = (if k \<noteq> 0 \<and> (k = length ?bs \<or> cpb_addr (?bs ! k) > addr) then k - 1 else k)"
  have kl: "k \<le> length ?bs" using lower_bound_spec(1) [OF ok] by (simp add: k_def)
  have fit: "(let offset = addr - cpb_addr b in offset < cpb_size b \<and> len \<le> cpb_size b - offset) \<longleftrightarrow>
      unat addr + unat len \<le> unat (cpb_addr b) + unat (cpb_size b)"
    if "cpb_addr b \<le> addr" for b
  proof -
    have o: "unat (addr - cpb_addr b) = unat addr - unat (cpb_addr b)"
      using that by (simp add: unat_minus_no_wrap word_le_nat_alt)
    have "0 < unat len" using arg(2) by (simp add: unat_gt_0)
    then show ?thesis using that o
      by (auto simp: Let_def word_less_nat_alt word_le_nat_alt unat_minus_no_wrap)
  qed
  have ret: "card_pool_range_owned addr len owner p \<longleftrightarrow> i < length ?bs \<and> cpb_owner (?bs ! i) = owner \<and>
      cpb_addr (?bs ! i) \<le> addr \<and> unat addr + unat len \<le> unat (cpb_addr (?bs ! i)) + unat (cpb_size (?bs ! i))"
    using arg fit [of "?bs ! i"] by (auto simp: card_pool_range_owned_def Let_def k_def i_def)
  have only: "i = j" if j: "j < length ?bs" "cpb_addr (?bs ! j) \<le> addr" "unat addr < cpb_end (?bs ! j)" for j
  proof -
    have low: "j < k \<or> j = k \<and> cpb_addr (?bs ! k) = addr"
      using lower_bound_spec(3) [OF ok, of addr j] lower_bound_spec(3) [OF ok, of addr k] cp_mono(2) [OF ok, of k j] j kl
      by (fastforce simp: k_def)
    have "k \<le> Suc j"
    proof (rule ccontr)
      assume "\<not> k \<le> Suc j"
      then have "Suc j < k" by simp
      then have "cpb_end (?bs ! j) \<le> unat (cpb_addr (?bs ! Suc j))" "cpb_addr (?bs ! Suc j) < addr"
        using cp_mono(1) [OF ok, of j "Suc j"] lower_bound_spec(2) [OF ok, of "Suc j" addr] kl by (auto simp: k_def)
      with j(3) show False by (simp add: word_less_nat_alt)
    qed
    moreover have "cpb_addr (?bs ! k) \<noteq> addr" if "Suc j = k" "k < length ?bs"
      using cp_mono(1) [OF ok, of j k] that j by auto
    moreover have "\<not> cpb_addr (?bs ! k) < addr" if "k < length ?bs"
      using lower_bound_spec(3) [OF ok, of addr k] that by (simp add: k_def)
    ultimately show ?thesis using low kl j(1) by (auto simp: i_def not_less_iff_gr_or_eq)
  qed
  show ?thesis
  proof
    assume "card_pool_range_owned addr len owner p"
    then show "\<exists>b\<in>set ?bs. cpb_owner b = owner \<and> unat (cpb_addr b) \<le> unat addr \<and>
        unat addr + unat len \<le> unat (cpb_addr b) + unat (cpb_size b)"
      using ret by (auto simp: word_le_nat_alt intro!: bexI [of _ "?bs ! i"])
  next
    assume "\<exists>b\<in>set ?bs. cpb_owner b = owner \<and> unat (cpb_addr b) \<le> unat addr \<and>
        unat addr + unat len \<le> unat (cpb_addr b) + unat (cpb_size b)"
    then obtain j where j: "j < length ?bs" "cpb_owner (?bs ! j) = owner" "cpb_addr (?bs ! j) \<le> addr"
        "unat addr + unat len \<le> cpb_end (?bs ! j)"
      by (auto simp: in_set_conv_nth word_le_nat_alt cpb_end_def)
    moreover have "0 < unat len" using arg(2) by (simp add: unat_gt_0)
    ultimately show "card_pool_range_owned addr len owner p" using only [of j] ret by (auto simp: cpb_end_def)
  qed
qed

section \<open>Amiga reset\<close>

text \<open>A range as its fixed fields.\<close>

definition range_shape :: "card_pool_range \<Rightarrow> u32 \<times> u32 \<times> bool" where
  "range_shape r = (cpr_base r, cpr_end r, cpr_revocable r)"

lemma in_range_shape: "range_shape r = range_shape r' \<Longrightarrow> in_range r = in_range r'"
  by (auto simp: range_shape_def in_range_def)

lemma map_range_shape_open:
  assumes "k < length rs"
  shows "map range_shape (rs[k := (rs ! k)\<lparr>cpr_open := v\<rparr>]) = map range_shape rs"
proof -
  have "range_shape ((rs ! k)\<lparr>cpr_open := v\<rparr>) = map range_shape rs ! k"
    using assms by (simp add: range_shape_def)
  then show ?thesis by (simp only: map_update list_update_id)
qed

lemma revoke_range_effect:
  assumes "cp_inv p" "k < length (cp_ranges p)"
  defines "q \<equiv> snd (card_pool_revoke_range k p)"
  shows "cp_inv q" "cp_ranges q = (cp_ranges p)[k := (cp_ranges p ! k)\<lparr>cpr_open := False\<rparr>]"
    "cp_blocks q = filter (\<lambda>b. \<not> in_range (cp_ranges p ! k) b) (cp_blocks p)"
    "class_limit q = class_limit p"
  using card_pool_revoke_range_inv [OF assms(1), of k] by (simp_all add: q_def revoke_range_drop [OF assms(1,2)])

text \<open>The first \<open>k\<close> rounds of taking the lent ranges back.\<close>

lemma take_back_prefix:
  assumes inv: "cp_inv p" and k: "k \<le> length (cp_ranges p)"
  defines "q \<equiv> foldl (\<lambda>p r. if cpr_revocable (cp_ranges p ! r) \<and> cpr_open (cp_ranges p ! r)
                 then snd (card_pool_revoke_range r p) else p) p [0..<k]"
  shows "cp_inv q \<and> map range_shape (cp_ranges q) = map range_shape (cp_ranges p) \<and>
    (\<forall>j<length (cp_ranges p). cp_ranges q ! j = (if j < k \<and> cpr_revocable (cp_ranges p ! j)
       then (cp_ranges p ! j)\<lparr>cpr_open := False\<rparr> else cp_ranges p ! j)) \<and>
    cp_blocks q = filter (\<lambda>b. \<forall>j<k. cpr_revocable (cp_ranges p ! j) \<longrightarrow> cpr_open (cp_ranges p ! j) \<longrightarrow>
       \<not> in_range (cp_ranges p ! j) b) (cp_blocks p)"
  using k unfolding q_def
proof (induction k)
  case 0
  then show ?case using inv by simp
next
  case (Suc k)
  let ?f = "\<lambda>p r. if cpr_revocable (cp_ranges p ! r) \<and> cpr_open (cp_ranges p ! r)
                 then snd (card_pool_revoke_range r p) else p"
  define q where "q = foldl ?f p [0..<k]"
  have ih: "cp_inv q" "map range_shape (cp_ranges q) = map range_shape (cp_ranges p)"
    "\<forall>j<length (cp_ranges p). cp_ranges q ! j = (if j < k \<and> cpr_revocable (cp_ranges p ! j)
       then (cp_ranges p ! j)\<lparr>cpr_open := False\<rparr> else cp_ranges p ! j)"
    "cp_blocks q = filter (\<lambda>b. \<forall>j<k. cpr_revocable (cp_ranges p ! j) \<longrightarrow> cpr_open (cp_ranges p ! j) \<longrightarrow>
       \<not> in_range (cp_ranges p ! j) b) (cp_blocks p)"
    using Suc.IH Suc.prems unfolding q_def by auto
  have len: "length (cp_ranges q) = length (cp_ranges p)" using ih(2) by (metis length_map)
  have rk: "cp_ranges q ! k = cp_ranges p ! k" using ih(3) Suc.prems by simp
  have step: "foldl ?f p [0..<Suc k] = ?f q k" by (simp add: q_def)
  show ?case
  proof (cases "cpr_revocable (cp_ranges p ! k) \<and> cpr_open (cp_ranges p ! k)")
    case True
    have kq: "k < length (cp_ranges q)" using len Suc.prems by simp
    note eff = revoke_range_effect [OF ih(1) kq]
    have sh: "map range_shape ((cp_ranges q)[k := (cp_ranges q ! k)\<lparr>cpr_open := False\<rparr>]) = map range_shape (cp_ranges p)"
      using kq ih(2) map_range_shape_open [OF kq] by simp
    show ?thesis unfolding step rk using True eff ih(3,4) sh len Suc.prems
      by (auto simp: rk nth_list_update less_Suc_eq intro!: filter_cong)
  next
    case False
    then have "?f q k = q" using rk by auto
    then show ?thesis unfolding step using ih False len Suc.prems
      by (auto simp: less_Suc_eq intro!: filter_cong)
  qed
qed

text \<open>The first \<open>k\<close> rounds of lending the revocable ranges.\<close>

lemma lend_prefix:
  assumes inv: "cp_inv p" and k: "k \<le> length (cp_ranges p)"
  defines "q \<equiv> foldl (\<lambda>p r. if cpr_revocable (cp_ranges p ! r) then card_pool_open_range r p else p) p [0..<k]"
  shows "cp_inv q \<and> map range_shape (cp_ranges q) = map range_shape (cp_ranges p) \<and>
    (\<forall>j<length (cp_ranges p). cp_ranges q ! j = (if j < k \<and> cpr_revocable (cp_ranges p ! j)
       then (cp_ranges p ! j)\<lparr>cpr_open := True\<rparr> else cp_ranges p ! j)) \<and>
    cp_blocks q = cp_blocks p \<and> class_used q = class_used p"
  using k unfolding q_def
proof (induction k)
  case 0
  then show ?case using inv by simp
next
  case (Suc k)
  let ?f = "\<lambda>p r. if cpr_revocable (cp_ranges p ! r) then card_pool_open_range r p else p"
  define q where "q = foldl ?f p [0..<k]"
  have ih: "cp_inv q" "map range_shape (cp_ranges q) = map range_shape (cp_ranges p)"
    "\<forall>j<length (cp_ranges p). cp_ranges q ! j = (if j < k \<and> cpr_revocable (cp_ranges p ! j)
       then (cp_ranges p ! j)\<lparr>cpr_open := True\<rparr> else cp_ranges p ! j)"
    "cp_blocks q = cp_blocks p" "class_used q = class_used p"
    using Suc.IH Suc.prems unfolding q_def by auto
  have len: "length (cp_ranges q) = length (cp_ranges p)" using ih(2) by (metis length_map)
  have rk: "cp_ranges q ! k = cp_ranges p ! k" using ih(3) Suc.prems by simp
  have step: "foldl ?f p [0..<Suc k] = ?f q k" by (simp add: q_def)
  show ?case
  proof (cases "cpr_revocable (cp_ranges p ! k)")
    case True
    have kq: "k < length (cp_ranges q)" using len Suc.prems by simp
    show ?thesis unfolding step rk
      using True ih len Suc.prems map_range_shape_open [OF kq, of True] card_pool_open_range_inv [OF ih(1), of k]
      by (auto simp: card_pool_open_range_def rk nth_list_update less_Suc_eq)
  next
    case False
    then have "?f q k = q" using rk by simp
    then show ?thesis unfolding step using ih False by (auto simp: less_Suc_eq)
  qed
qed

lemma take_back_lent_effect:
  assumes inv: "cp_inv p"
  defines "q \<equiv> card_pool_take_back_lent p"
  shows "cp_inv q" "map range_shape (cp_ranges q) = map range_shape (cp_ranges p)"
    "\<forall>j<length (cp_ranges p). cp_ranges q ! j = (if cpr_revocable (cp_ranges p ! j)
       then (cp_ranges p ! j)\<lparr>cpr_open := False\<rparr> else cp_ranges p ! j)"
    "cp_blocks q = filter (\<lambda>b. \<not> (\<exists>r\<in>set (cp_ranges p). cpr_revocable r \<and> cpr_open r \<and> in_range r b)) (cp_blocks p)"
proof -
  have all: "(\<forall>j<length rs. P (rs ! j)) \<longleftrightarrow> (\<forall>r\<in>set rs. P r)" for P and rs :: "card_pool_range list"
    by (simp add: all_set_conv_all_nth)
  note pre = take_back_prefix [OF inv order_refl, folded card_pool_take_back_lent_def q_def]
  show "cp_inv q" "map range_shape (cp_ranges q) = map range_shape (cp_ranges p)"
    "\<forall>j<length (cp_ranges p). cp_ranges q ! j = (if cpr_revocable (cp_ranges p ! j)
       then (cp_ranges p ! j)\<lparr>cpr_open := False\<rparr> else cp_ranges p ! j)"
    using pre by auto
  show "cp_blocks q = filter (\<lambda>b. \<not> (\<exists>r\<in>set (cp_ranges p). cpr_revocable r \<and> cpr_open r \<and> in_range r b)) (cp_blocks p)"
  proof -
    have "(\<forall>j<length (cp_ranges p). cpr_revocable (cp_ranges p ! j) \<longrightarrow> cpr_open (cp_ranges p ! j) \<longrightarrow>
        \<not> in_range (cp_ranges p ! j) b) \<longleftrightarrow>
      \<not> (\<exists>r\<in>set (cp_ranges p). cpr_revocable r \<and> cpr_open r \<and> in_range r b)" for b
      using all [of "cp_ranges p" "\<lambda>r. cpr_revocable r \<longrightarrow> cpr_open r \<longrightarrow> \<not> in_range r b"] by blast
    with pre show ?thesis by simp
  qed
qed

text \<open>FIRMWARE blocks lie in permanent ranges only.\<close>

lemma firmware_permanent:
  assumes inv: "cp_inv p" and b: "b \<in> set (cp_blocks p)" "block_class b = 1"
    and r: "r \<in> set (cp_ranges p)" "in_range r b"
  shows "\<not> cpr_revocable r"
proof -
  have "0 < unat (cpb_size b)" using cp_invD(1) [OF inv] b(1) by (auto simp: regions_ok_def cpb_region_def)
  then have "cp_eligible 1 r"
    using block_in_range(2) [OF inv r(1) b(1)] block_outside_range [OF r(2) cp_invD(5) [OF inv r(1)]] b(2) by simp
  then show ?thesis by (auto simp: cp_eligible_def cp_consts)
qed

lemma in_set_mapped:
  assumes "length xs = length ys" "\<forall>i<length ys. xs ! i = f (ys ! i)" "x \<in> set xs"
  obtains y where "y \<in> set ys" "x = f y"
  using assms by (metis in_set_conv_nth)

text \<open>
  C8: the Amiga reset. Taking back the lent memory and finishing the reset leaves exactly the
  FIRMWARE blocks, untouched, with every other class charged nothing; the ranges keep
  their bounds, and the revocable ones are lent again unless a Zorro III
  machine advertises its fast RAM.
\<close>

theorem card_pool_amiga_reset:
  assumes inv: "cp_inv p"
    and q: "q = card_pool_finish_amiga_reset is_zorro3 fastram_advertised (card_pool_take_back_lent p)"
  shows "cp_inv q \<and> cp_blocks q = filter (\<lambda>b. block_class b = 1) (cp_blocks p) \<and>
    (\<forall>c<15. c \<noteq> 1 \<longrightarrow> class_used q ! c = 0) \<and>
    map range_shape (cp_ranges q) = map range_shape (cp_ranges p) \<and>
    (\<forall>r\<in>set (cp_ranges q). cpr_revocable r \<longrightarrow> cpr_open r = (\<not> (is_zorro3 \<and> fastram_advertised)))"
proof -
  define t where "t = card_pool_take_back_lent p"
  define d where "d = snd (release_where (of_nat CARD_POOL_CLASS_FIRMWARE) True t)"
  note T = take_back_lent_effect [OF inv, folded t_def]
  have d: "d = cp_drop (\<lambda>b. block_class b \<noteq> 1) t"
    by (simp add: d_def release_where_drop Let_def cp_consts)
  have dinv: "cp_inv d" unfolding d using T(1) by (rule cp_drop_inv)
  have db: "cp_blocks d = filter (\<lambda>b. block_class b = 1) (cp_blocks p)"
    using firmware_permanent [OF inv] by (auto simp: d T(4) intro!: filter_cong)
  have len: "length (cp_ranges t) = length (cp_ranges p)" using T(2) by (metis length_map)
  have closed: "\<not> cpr_open r" if rt: "r \<in> set (cp_ranges t)" "cpr_revocable r" for r
  proof -
    obtain y where "r = (if cpr_revocable y then y\<lparr>cpr_open := False\<rparr> else y)"
      by (rule in_set_mapped [where f = "\<lambda>y. if cpr_revocable y then y\<lparr>cpr_open := False\<rparr> else y", OF len T(3) rt(1)])
    with rt(2) show ?thesis by (auto split: if_splits)
  qed
  have "unat (class_used d ! c) = class_sum c (filter (\<lambda>b. block_class b = 1) (cp_blocks p))" if "c < 15" for c
    using cp_invD(9) [OF dinv that] db by simp
  moreover have "class_sum c (filter (\<lambda>b. block_class b = 1) bs) = 0" if "c \<noteq> 1" for c bs
    using that by (induction bs) auto
  ultimately have zero: "class_used d ! c = 0" if "c < 15" "c \<noteq> 1" for c
    using that by (metis unsigned_eq_0_iff)
  show ?thesis
  proof (cases "is_zorro3 \<and> fastram_advertised")
    case True
    then have "q = d" by (simp add: q card_pool_finish_amiga_reset_def t_def d_def Let_def)
    then show ?thesis using True dinv db zero T(2) closed by (simp add: d)
  next
    case False
    then have "q = foldl (\<lambda>p r. if cpr_revocable (cp_ranges p ! r) then card_pool_open_range r p else p)
        d [0..<length (cp_ranges d)]"
      by (auto simp: q card_pool_finish_amiga_reset_def t_def d_def Let_def)
    note L = lend_prefix [OF dinv order_refl, folded this]
    have lq: "length (cp_ranges q) = length (cp_ranges d)" using L by (metis length_map)
    have "cpr_open r" if rq: "r \<in> set (cp_ranges q)" "cpr_revocable r" for r
    proof -
      obtain i where i: "i < length (cp_ranges d)" "r = cp_ranges q ! i"
        using rq(1) unfolding in_set_conv_nth lq by blast
      then have "cp_ranges q ! i = (if i < length (cp_ranges d) \<and> cpr_revocable (cp_ranges d ! i)
          then (cp_ranges d ! i)\<lparr>cpr_open := True\<rparr> else cp_ranges d ! i)" using L by blast
      then show ?thesis using i rq(2) by (auto split: if_splits)
    qed
    then show ?thesis using False L db zero T(2) by (auto simp: d)
  qed
qed

section \<open>The allocator contract\<close>

text \<open>What gives memory back: a free, an owner release, a revocation, the two reset steps.\<close>

datatype cp_release = CpFree u32 u32 | CpOwner u32 | CpRevoke nat | CpTakeBack | CpReset bool bool

fun cp_do_release :: "cp_release \<Rightarrow> card_pool \<Rightarrow> card_pool" where
  "cp_do_release (CpFree addr owner) p = snd (card_pool_free addr owner p)"
| "cp_do_release (CpOwner owner) p = snd (card_pool_release_owner owner p)"
| "cp_do_release (CpRevoke k) p = snd (card_pool_revoke_range k p)"
| "cp_do_release CpTakeBack p = card_pool_take_back_lent p"
| "cp_do_release (CpReset z3 adv) p = card_pool_finish_amiga_reset z3 adv p"

lemma cp_release_ok:
  assumes inv: "cp_inv p"
  shows "cp_inv (cp_do_release k p) \<and> set (cp_blocks (cp_do_release k p)) \<subseteq> set (cp_blocks p)"
proof (cases k)
  case (CpFree addr owner)
  have "cp_inv (p\<lparr>ignored_frees := n\<rparr>)" for n using inv by (simp add: cp_inv_def cp_regions_def block_ok_def)
  then show ?thesis using cp_drop_inv [OF inv] inv by (auto simp: CpFree card_pool_free_drop [OF inv])
next
  case (CpOwner owner)
  then show ?thesis using cp_drop_inv [OF inv]
    by (auto simp: card_pool_release_owner_def release_where_drop Let_def)
next
  case (CpRevoke j)
  show ?thesis
  proof (cases "j < length (cp_ranges p)")
    case True
    then show ?thesis using revoke_range_effect [OF inv True] CpRevoke by auto
  qed (use inv CpRevoke in \<open>simp add: card_pool_revoke_range_def\<close>)
next
  case CpTakeBack
  then show ?thesis using take_back_lent_effect [OF inv] by auto
next
  case (CpReset z3 adv)
  define d where "d = snd (release_where (of_nat CARD_POOL_CLASS_FIRMWARE) True p)"
  have d: "cp_inv d" "set (cp_blocks d) \<subseteq> set (cp_blocks p)"
    using cp_drop_inv [OF inv] by (auto simp: d_def release_where_drop Let_def)
  then show ?thesis using lend_prefix [OF d(1) order_refl]
    by (simp add: CpReset card_pool_finish_amiga_reset_def d_def [symmetric])
qed

lemma cp_region_inj:
  assumes "cp_inv p" "b \<in> set (cp_blocks p)" "b' \<in> set (cp_blocks p)" "cpb_region b = cpb_region b'"
  shows "b = b'"
proof -
  have "cpb_addr b = cpb_addr b'" using assms(4) by (simp add: cpb_region_def word_unat_eq_iff)
  then show ?thesis using lower_bound_hit [OF cp_invD(1) [OF assms(1)]] assms(2,3) by metis
qed

text \<open>Blocks and the ownership test, as facts about the set of blocks.\<close>

lemma block_owned_iff:
  assumes inv: "cp_inv p"
  shows "card_pool_block_owned addr len owner p \<longleftrightarrow> addr \<noteq> 0 \<and> len \<noteq> 0 \<and> owner \<noteq> 0 \<and>
    (\<exists>b\<in>set (cp_blocks p). cpb_addr b = addr \<and> cpb_owner b = owner \<and> len \<le> cpb_size b)"
  using lower_bound_hit [OF cp_invD(1) [OF inv]]
  by (auto simp: card_pool_block_owned_def Let_def)

lemma cp_block_bounds:
  assumes inv: "cp_inv p" and b: "b \<in> set (cp_blocks p)"
  shows "0 < unat (cpb_addr b)" "cpb_end b < 4294967296" "0 < unat (cpb_size b)" "64 dvd unat (cpb_addr b)"
proof -
  obtain r where r: "r \<in> set (cp_ranges p)" "in_range r b" "page dvd unat (cpb_addr b)"
    using cp_invD(2) [OF inv b] by (auto simp: block_ok_def)
  have ok: "range_ok r" using cp_invD(5) [OF inv r(1)] .
  show "0 < unat (cpb_addr b)" using r ok by (auto simp: in_range_def range_ok_def)
  have "cpb_end b \<le> unat (cpr_end r)" using r(2) by (simp add: in_range_def cpb_end_def)
  then show "cpb_end b < 4294967296" by (rule le_less_trans) simp
  show "0 < unat (cpb_size b)"
    using cp_invD(1) [OF inv] b by (auto simp: regions_ok_def cpb_region_def)
  show "64 dvd unat (cpb_addr b)" using r(3) by (rule dvd_trans [rotated]) simp
qed

lemma cp_blocks_apart:
  assumes inv: "cp_inv p" and b: "b \<in> set (cp_blocks p)" "b' \<in> set (cp_blocks p)" "b \<noteq> b'"
  shows "disjoint_regions (cpb_region b) (cpb_region b')"
  using regions_ok_pairwise [OF cp_invD(1) [OF inv], of "cpb_region b" "cpb_region b'"] b cp_region_inj [OF inv b(1,2)]
  by auto

lemma cp_block_eqI: "cp_inv p \<Longrightarrow> b \<in> set (cp_blocks p) \<Longrightarrow> b' \<in> set (cp_blocks p) \<Longrightarrow> cpb_addr b = cpb_addr b' \<Longrightarrow> b = b'"
  using lower_bound_hit [OF cp_invD(1)] by metis

interpretation cp: region_allocator
  "\<lambda>p. set (cp_regions p)" cp_inv "\<lambda>(sz, owner). card_pool_alloc sz owner" "\<lambda>r p. True"
  "\<lambda>(sz, owner). unat sz" cp_do_release "\<lambda>k p. True"
proof unfold_locales
  fix p :: card_pool and x y
  assume "cp_inv p" "x \<in> set (cp_regions p)" "y \<in> set (cp_regions p)" "x \<noteq> y"
  then show "disjoint_regions x y" using regions_ok_pairwise [of "cp_regions p"] by (simp add: cp_inv_def)
next
  fix p :: card_pool and r :: "u32 \<times> u32" and p'
  assume "cp_inv p" "(case r of (sz, owner) \<Rightarrow> card_pool_alloc sz owner) p = (0, p')"
  then show "p' = p" using cp_alloc_cases [of p "fst r" "snd r" 0 p'] by (auto split: prod.splits)
next
  fix p :: card_pool and r :: "u32 \<times> u32" and a p'
  assume inv: "cp_inv p" and "(case r of (sz, owner) \<Rightarrow> card_pool_alloc sz owner) p = (a, p')" "a \<noteq> 0"
  then obtain i where i: "fst r \<noteq> 0" "p' = cp_insert p i a (cp_rounded (fst r)) (snd r)"
      "unat (fst r) \<le> unat (cp_rounded (fst r))"
      "\<forall>b\<in>set (cp_blocks p). cpb_end b \<le> unat a \<or> unat a + unat (cp_rounded (fst r)) \<le> unat (cpb_addr b)"
    using cp_alloc_cases [OF inv, of "fst r" "snd r" a p'] by (auto split: prod.splits)
  have pos: "0 < unat (fst r)" using i(1) by (simp add: unat_gt_0)
  then have "(unat a, unat (cp_rounded (fst r))) \<notin> set (cp_regions p)"
    using i(3,4) by (force simp: cp_regions_def cpb_region_def cpb_end_def)
  moreover have "set (cp_regions p') = insert (unat a, unat (cp_rounded (fst r))) (set (cp_regions p))"
    by (simp add: cp_regions_def i(2) cp_insert_def set_insert_at cpb_region_def)
  ultimately show "\<exists>n. 0 < n \<and> (case r of (sz, owner) \<Rightarrow> unat sz) \<le> n \<and> (unat a, n) \<notin> set (cp_regions p) \<and>
      set (cp_regions p') = insert (unat a, n) (set (cp_regions p))"
    using i(3) pos by (intro exI [of _ "unat (cp_rounded (fst r))"]) (auto split: prod.splits)
next
  fix p :: card_pool and r :: "u32 \<times> u32"
  assume inv: "cp_inv p"
  then show "cp_inv (snd ((case r of (sz, owner) \<Rightarrow> card_pool_alloc sz owner) p))"
    using cp_alloc_cases [OF inv, of "fst r" "snd r"] by (cases r) (metis case_prod_conv fst_conv snd_conv prod.collapse)
next
  fix p :: card_pool and k
  assume "cp_inv p"
  from cp_release_ok [OF this, of k] show "set (cp_regions (cp_do_release k p)) \<subseteq> set (cp_regions p)"
    and "cp_inv (cp_do_release k p)"
    by (auto simp: cp_regions_def)
qed

lemmas cp_eval = cp_consts card_pool_setup_card_def card_pool_init_def card_pool_add_range_def
  card_pool_open_range_def CARD_POOL_PERMANENT_ADDRESS_def CARD_POOL_REVOCABLE_ADDRESS_def
  CARD_POOL_REVOCABLE_END_def card_pool_limits_def Let_def

definition cp_boot_ranges :: "card_pool_range list" where
  "cp_boot_ranges =
     [\<lparr>cpr_base = 0x0B000000, cpr_end = 0x2FE00000, cpr_open = True, cpr_revocable = False\<rparr>,
      \<lparr>cpr_base = 0x2FE00000, cpr_end = 0x3FE00000, cpr_open = False, cpr_revocable = True\<rparr>]"

lemma card_pool_setup_eq: "card_pool_setup_card =
  \<lparr>cp_ranges = cp_boot_ranges, cp_blocks = [], class_used = [0, 0, 0, 0, 0, 0, 0, 0, 0, 0, 0, 0, 0, 0, 0],
   class_limit = card_pool_limits, ignored_frees = 0\<rparr>"
proof -
  have "replicate 15 (0 :: u32) = [0, 0, 0, 0, 0, 0, 0, 0, 0, 0, 0, 0, 0, 0, 0]"
    by (simp add: numeral_eq_Suc)
  then show ?thesis by (simp add: cp_eval cp_boot_ranges_def)
qed

lemma card_pool_setup_inv: "cp_inv card_pool_setup_card"
proof -
  have "ranges_apart cp_boot_ranges" by (simp add: ranges_apart_def cp_boot_ranges_def)
  moreover have "\<forall>r\<in>set cp_boot_ranges. range_ok r" by (auto simp: cp_boot_ranges_def range_ok_def)
  moreover have "length cp_boot_ranges = 2" "length card_pool_limits = 15"
    by (simp_all add: cp_boot_ranges_def card_pool_limits_def)
  moreover have "\<forall>c<15. [0, 0, 0, 0, 0, 0, 0, 0, 0, 0, 0, 0, 0, 0, 0] ! c = (0 :: u32)"
    by (simp add: numeral_eq_Suc less_Suc_eq)
  ultimately show ?thesis by (simp add: card_pool_setup_eq cp_inv_def cp_regions_def cp_consts)
qed

text \<open>
  C7: no byte of the pool has two owners. From setup, after any sequence of
  allocations, frees, owner releases, revocations and Amiga resets, a block handed out
  now shares no byte with any block that is still live.
\<close>

theorem card_pool_no_double_handout:
  assumes "cp.run card_pool_setup_card p" "card_pool_alloc sz owner p = (a, p')" "a \<noteq> 0"
  shows "\<exists>n\<ge>unat sz. (unat a, n) \<in> set (cp_regions p') \<and>
    (\<forall>x\<in>set (cp_regions p). x \<in> set (cp_regions p') \<and> region_addrs x \<inter> region_addrs (unat a, n) = {})"
proof -
  have inv: "cp_inv p" using assms(1) card_pool_setup_inv by (rule cp.run_invar)
  have call: "(case (sz, owner) of (sz, owner) \<Rightarrow> card_pool_alloc sz owner) p = (a, p')" using assms(2) by simp
  obtain n where n: "unat sz \<le> n" "(unat a, n) \<notin> set (cp_regions p)"
      "set (cp_regions p') = insert (unat a, n) (set (cp_regions p))"
    using cp.alloc_fresh [OF inv _ call assms(3)] by auto
  have run: "cp.run card_pool_setup_card p'"
    using cp.run_alloc [OF assms(1), of "(sz, owner)"] assms(2) by simp
  have "region_addrs x \<inter> region_addrs (unat a, n) = {}" if "x \<in> set (cp_regions p)" for x
    using cp.run_live_disjoint [OF run card_pool_setup_inv, of x "(unat a, n)"] that n(2,3) by fastforce
  with n show ?thesis by blast
qed

section \<open>Concrete runs\<close>

text \<open>A FIRMWARE block, a media block behind it, and the tail lent.\<close>

definition cp_demo :: card_pool where
  "cp_demo = \<lparr>cp_ranges = map (\<lambda>r. r\<lparr>cpr_open := True\<rparr>) cp_boot_ranges,
     cp_blocks = [\<lparr>cpb_addr = 0x0B000000, cpb_size = 0x10000, cpb_owner = 0x01000000\<rparr>,
       \<lparr>cpb_addr = 0x0B010000, cpb_size = 0x20000, cpb_owner = 0x02000007\<rparr>],
     class_used = [0, 0x10000, 0x20000, 0, 0, 0, 0, 0, 0, 0, 0, 0, 0, 0, 0], class_limit = card_pool_limits,
     ignored_frees = 0\<rparr>"

lemmas cp_run_eval = cp_demo_def cp_boot_ranges_def card_pool_alloc_def cp_rounded_def find_gap_def
  lower_bound_def bsearch.simps cp_eligible_def CARD_POOL_OWNER_CLASS_def insert_at_def
  card_pool_limits_def cp_consts Let_def drop_bit_eq_div card_pool_finish_amiga_reset_def
  release_where_def card_pool_open_range_def card_pool_free_def remove_blocks_def cp_uncharge_def
  card_pool_take_back_lent_def card_pool_revoke_range_def cp_bytes_def

text \<open>Boot, a FIRMWARE block, an Amiga reset that lends the tail, a media block.\<close>

lemma cp_demo_reached:
  "snd (card_pool_alloc 0x1FFFF 0x02000007 (card_pool_finish_amiga_reset False False
     (snd (card_pool_alloc 100 0x01000000 card_pool_setup_card)))) = cp_demo"
  by (simp add: card_pool_setup_eq cp_run_eval)

lemma cp_demo_run: "cp.run card_pool_setup_card cp_demo"
proof -
  have "cp.run card_pool_setup_card (snd (card_pool_alloc 100 0x01000000 card_pool_setup_card))"
    using cp.run_alloc [OF cp.run_refl [of card_pool_setup_card], of "(100, 0x01000000)"] by simp
  from cp.run_alloc [OF cp.run_release [OF this, of "CpReset False False"], of "(0x1FFFF, 0x02000007)"]
  show ?thesis by (simp add: cp_demo_reached)
qed

lemma cp_demo_inv: "cp_inv cp_demo"
  using cp_demo_run card_pool_setup_inv by (rule cp.run_invar)

lemma cp_demo_alloc: "card_pool_alloc 0x30000 0x07000001 cp_demo =
  (0x0B030000, cp_demo\<lparr>cp_blocks := cp_blocks cp_demo @
       [\<lparr>cpb_addr = 0x0B030000, cpb_size = 0x30000, cpb_owner = 0x07000001\<rparr>],
     class_used := [0, 0x10000, 0x20000, 0, 0, 0, 0, 0x30000, 0, 0, 0, 0, 0, 0, 0]\<rparr>)"
  by (simp add: cp_run_eval)

theorem card_pool_alloc_spec_witness:
  "fst (card_pool_alloc 0x30000 0x07000001 cp_demo) = 0x0B030000 \<and>
   cp_inv (snd (card_pool_alloc 0x30000 0x07000001 cp_demo))"
  using card_pool_alloc_spec [OF cp_demo_inv cp_demo_alloc] by (simp add: cp_demo_alloc)

theorem card_pool_alloc_complete_witness: "fst (card_pool_alloc 0x30000 0x07000001 cp_demo) \<noteq> 0"
  using card_pool_alloc_complete [OF cp_demo_inv, of "0x30000" "0x07000001" "cp_ranges cp_demo ! 1" "0x30000000"]
  by (simp add: cp_run_eval cp_regions_def cpb_region_def disjoint_regions_def before_def region_end_def)

theorem card_pool_free_spec_witness:
  "fst (card_pool_free 0x0B010000 0x02000007 cp_demo) \<and> \<not> fst (card_pool_free 0x0B010000 0x02000008 cp_demo)"
proof -
  obtain f p g q where r: "card_pool_free 0x0B010000 0x02000007 cp_demo = (f, p)"
      "card_pool_free 0x0B010000 0x02000008 cp_demo = (g, q)" by fastforce
  from card_pool_free_spec [OF cp_demo_inv r(1)] have f by (simp add: cp_demo_def)
  moreover from card_pool_free_spec [OF cp_demo_inv r(2)] have "\<not> g" by (simp add: cp_demo_def)
  ultimately show ?thesis by (simp add: r)
qed

theorem card_pool_range_owned_spec_witness:
  "card_pool_range_owned 0x0B010100 0x1FF00 0x02000007 cp_demo \<and>
   \<not> card_pool_range_owned 0x0B010100 0x1FF01 0x02000007 cp_demo"
  using card_pool_range_owned_spec [OF cp_demo_inv, of "0x0B010100" "0x1FF00" "0x02000007"]
    card_pool_range_owned_spec [OF cp_demo_inv, of "0x0B010100" "0x1FF01" "0x02000007"]
  by (simp add: cp_demo_def)

theorem card_pool_amiga_reset_witness:
  "cp_blocks (card_pool_finish_amiga_reset True True (card_pool_take_back_lent cp_demo)) =
    [\<lparr>cpb_addr = 0x0B000000, cpb_size = 0x10000, cpb_owner = 0x01000000\<rparr>]"
  using card_pool_amiga_reset [OF cp_demo_inv refl, of True True]
  by (simp add: cp_demo_def CARD_POOL_OWNER_CLASS_def drop_bit_eq_div)

theorem card_pool_no_double_handout_witness:
  "region_addrs (0x0B010000, 0x20000) \<inter> region_addrs (0x0B030000, 0x30000) = {}"
proof -
  obtain n where n: "0x30000 \<le> n" "\<forall>x\<in>set (cp_regions cp_demo). region_addrs x \<inter> region_addrs (0x0B030000, n) = {}"
    using card_pool_no_double_handout [OF cp_demo_run cp_demo_alloc] by auto
  then have "region_addrs (0x0B010000, 0x20000) \<inter> region_addrs (0x0B030000, n) = {}"
    by (simp add: cp_demo_def cp_regions_def cpb_region_def)
  with n(1) show ?thesis by (auto simp: region_addrs_def region_end_def)
qed

end
