(* ===== verification/ApertureLayout.thy ===== *)
theory ApertureLayout
  imports Intervals
begin

unbundle bit_operations_syntax

text \<open>
  The Zorro II aperture contract (\<^verbatim>\<open>sdk_aperture_layout.c\<close> and its header): the
  partition of the board's address window for the three supported sizes, its
  validation, and the runtime state with the host's acknowledgement. The file's
  statics are the record \<open>aperture_runtime\<close>.
\<close>

section \<open>Model\<close>

record ap_region =
  ap_base :: u32
  ap_size :: u32

record aperture_layout =
  ap_profile :: u32
  aperture_size :: u32
  ap_framebuffer :: ap_region
  ap_pip :: ap_region
  ap_template :: ap_region
  ap_host :: ap_region
  ap_audio :: ap_region

definition FLAG_VALID :: u32 where "FLAG_VALID = 1"
definition FLAG_ACKED :: u32 where "FLAG_ACKED = 2"
definition FLAG_HOST_WINDOW :: u32 where "FLAG_HOST_WINDOW = 4"
definition FLAG_PIP_POOL :: u32 where "FLAG_PIP_POOL = 8"

definition KIB :: "u32 \<Rightarrow> u32" where "KIB x = x * 1024"

definition LAYOUT_GENERATION :: u32 where "LAYOUT_GENERATION = 2"
definition FRAMEBUFFER_BASE :: u32 where "FRAMEBUFFER_BASE = 0x00010000"
definition ARM_ADDRESS_ADJUSTMENT :: u32 where "ARM_ADDRESS_ADJUSTMENT = 0x001f0000"

text \<open>From \<^verbatim>\<open>memorymap.h\<close>: the direct-ring reservation and the mailbox in its tail.\<close>

definition DIRECT_RING_Z2_RESERVE_SIZE :: u32 where "DIRECT_RING_Z2_RESERVE_SIZE = 0xC000"
definition MAILBOX_Z2_SIZE :: u32 where "MAILBOX_Z2_SIZE = 0x80 + 2 * 22 * 0x40"
definition MAILBOX_Z2_PAGE_SIZE :: u32 where "MAILBOX_Z2_PAGE_SIZE = 0x1000"

definition APERTURE_PROFILE :: "u32 \<Rightarrow> u32 \<Rightarrow> u32" where
  "APERTURE_PROFILE generation flags = push_bit 16 (generation AND 0xffff) OR (flags AND 0xffff)"

definition PROFILE_GENERATION :: "u32 \<Rightarrow> u32" where
  "PROFILE_GENERATION profile = drop_bit 16 profile AND 0xffff"

definition PROFILE_FLAGS :: "u32 \<Rightarrow> u32" where
  "PROFILE_FLAGS profile = profile AND 0xffff"

abbreviation no_region :: ap_region where
  "no_region \<equiv> \<lparr>ap_base = 0, ap_size = 0\<rparr>"

definition zero_layout :: aperture_layout where
  "zero_layout = \<lparr>ap_profile = 0, aperture_size = 0, ap_framebuffer = no_region, ap_pip = no_region,
     ap_template = no_region, ap_host = no_region, ap_audio = no_region\<rparr>"

definition ap_region_end :: "ap_region \<Rightarrow> u32 option" where
  "ap_region_end r = (if ap_base r > UINT32_MAX - ap_size r then None else Some (ap_base r + ap_size r))"

definition region_inside :: "ap_region \<Rightarrow> u32 \<Rightarrow> bool" where
  "region_inside r sz = (case ap_region_end r of None \<Rightarrow> False | Some en \<Rightarrow> en \<le> sz)"

definition regions_ordered :: "ap_region \<Rightarrow> ap_region \<Rightarrow> bool" where
  "regions_ordered left right = (case ap_region_end left of None \<Rightarrow> False | Some en \<Rightarrow> en \<le> ap_base right)"

text \<open>The sizes of the PIP pool and the host window, and the profile flags, by aperture size.\<close>

definition aperture_sizes :: "u32 \<Rightarrow> (u32 \<times> u32 \<times> u32) option" where
  "aperture_sizes sz =
     (if sz = 0x00200000 then Some (0, KIB 16, FLAG_VALID OR FLAG_HOST_WINDOW)
      else if sz = 0x00400000 then Some (KIB 224, KIB 16, FLAG_VALID OR FLAG_HOST_WINDOW OR FLAG_PIP_POOL)
      else if sz = 0x00800000 then Some (KIB 256, KIB 80, FLAG_VALID OR FLAG_HOST_WINDOW OR FLAG_PIP_POOL)
      else None)"

definition build_canonical_layout :: "u32 \<Rightarrow> aperture_layout option" where
  "build_canonical_layout sz =
     (case aperture_sizes sz of
        None \<Rightarrow> None
      | Some (pip_size, host_size, flags) \<Rightarrow>
          let audio_base = sz - KIB 64;
              host_base = audio_base - (DIRECT_RING_Z2_RESERVE_SIZE + host_size);
              template_base = host_base - KIB 64;
              pip_base = template_base - pip_size;
              top = (if pip_size \<noteq> 0 then pip_base else sz - 0x00030000)
          in Some \<lparr>ap_profile = APERTURE_PROFILE LAYOUT_GENERATION flags, aperture_size = sz,
               ap_framebuffer = \<lparr>ap_base = FRAMEBUFFER_BASE, ap_size = top - FRAMEBUFFER_BASE\<rparr>,
               ap_pip = \<lparr>ap_base = pip_base, ap_size = pip_size\<rparr>,
               ap_template = \<lparr>ap_base = template_base, ap_size = KIB 64\<rparr>,
               ap_host = \<lparr>ap_base = host_base, ap_size = host_size\<rparr>,
               ap_audio = \<lparr>ap_base = audio_base, ap_size = KIB 64\<rparr>\<rparr>)"

definition sdk_aperture_layout_validate :: "aperture_layout \<Rightarrow> bool" where
  "sdk_aperture_layout_validate l =
     (case build_canonical_layout (aperture_size l) of
        None \<Rightarrow> False
      | Some expected \<Rightarrow>
          if PROFILE_GENERATION (ap_profile l) \<noteq> LAYOUT_GENERATION \<or>
             (PROFILE_FLAGS (ap_profile l) \<noteq> PROFILE_FLAGS (ap_profile expected) \<and>
              PROFILE_FLAGS (ap_profile l) \<noteq> PROFILE_FLAGS (ap_profile expected) OR FLAG_ACKED)
          then False
          else if l \<noteq> expected\<lparr>ap_profile := ap_profile l\<rparr> then False
          else if \<not> region_inside (ap_framebuffer l) (aperture_size l) \<or>
                  \<not> region_inside (ap_pip l) (aperture_size l) \<or>
                  \<not> region_inside (ap_template l) (aperture_size l) \<or>
                  \<not> region_inside (ap_host l) (aperture_size l) \<or>
                  \<not> region_inside (ap_audio l) (aperture_size l)
          then False
          else if (if ap_size (ap_pip l) \<noteq> 0
                   then \<not> regions_ordered (ap_framebuffer l) (ap_pip l) \<or>
                        \<not> regions_ordered (ap_pip l) (ap_template l)
                   else \<not> regions_ordered (ap_framebuffer l) (ap_template l))
          then False
          else regions_ordered (ap_template l) (ap_host l) \<and> regions_ordered (ap_host l) (ap_audio l))"

definition sdk_aperture_layout_compute :: "u32 \<Rightarrow> aperture_layout option" where
  "sdk_aperture_layout_compute sz =
     (case build_canonical_layout sz of
        None \<Rightarrow> None
      | Some l \<Rightarrow> if sdk_aperture_layout_validate l then Some l else None)"

definition APERTURE_INFO_WORD :: "u32 \<Rightarrow> u32 \<Rightarrow> u32" where
  "APERTURE_INFO_WORD size_mib flags =
     0x5a000000 OR push_bit 16 LAYOUT_GENERATION OR (flags AND 0x700) OR (size_mib AND 0xff)"

definition sdk_aperture_layout_info_word :: "aperture_layout \<Rightarrow> u32" where
  "sdk_aperture_layout_info_word l =
     (if \<not> sdk_aperture_layout_validate l then 0
      else APERTURE_INFO_WORD (drop_bit 20 (aperture_size l))
             (if ap_size (ap_pip l) \<noteq> 0 then 0x100 OR 0x400 OR 0x200 else 0x100 OR 0x400))"

record aperture_runtime =
  rt_layout :: aperture_layout
  rt_flags :: u32
  rt_reported_size :: u32
  rt_zorro3 :: bool
  rt_legacy :: bool

definition sdk_aperture_runtime_init :: "u32 \<Rightarrow> bool \<Rightarrow> aperture_runtime" where
  "sdk_aperture_runtime_init fpga_size z3 =
     (let l = (if z3 then None else sdk_aperture_layout_compute fpga_size)
      in \<lparr>rt_layout = (case l of None \<Rightarrow> zero_layout | Some x \<Rightarrow> x),
          rt_flags = (case l of None \<Rightarrow> 0 | Some x \<Rightarrow> PROFILE_FLAGS (ap_profile x)),
          rt_reported_size = fpga_size, rt_zorro3 = z3, rt_legacy = (\<not> z3 \<and> fpga_size = 0)\<rparr>)"

definition sdk_aperture_runtime_ack :: "aperture_runtime \<Rightarrow> bool \<times> aperture_runtime" where
  "sdk_aperture_runtime_ack s =
     (if rt_zorro3 s \<or> rt_flags s AND FLAG_VALID = 0 \<or> \<not> sdk_aperture_layout_validate (rt_layout s)
      then (False, s)
      else let f = rt_flags s OR FLAG_ACKED
           in (True, s\<lparr>rt_flags := f,
                 rt_layout := (rt_layout s)\<lparr>ap_profile := APERTURE_PROFILE LAYOUT_GENERATION f\<rparr>\<rparr>))"

definition sdk_aperture_runtime_diag_state :: "aperture_runtime \<Rightarrow> u32" where
  "sdk_aperture_runtime_diag_state s =
     (if rt_zorro3 s \<or> rt_legacy s then 0
      else if rt_flags s AND FLAG_ACKED \<noteq> 0 then 2
      else if rt_flags s AND FLAG_VALID \<noteq> 0 then 1
      else 3)"

definition sdk_aperture_host_window_address :: "aperture_runtime \<Rightarrow> u32" where
  "sdk_aperture_host_window_address s =
     (if rt_flags s AND (FLAG_VALID OR FLAG_ACKED OR FLAG_HOST_WINDOW) \<noteq>
         FLAG_VALID OR FLAG_ACKED OR FLAG_HOST_WINDOW
      then 0 else ap_base (ap_host (rt_layout s)) + ARM_ADDRESS_ADJUSTMENT)"

definition sdk_aperture_host_window_size :: "aperture_runtime \<Rightarrow> u32" where
  "sdk_aperture_host_window_size s =
     (if sdk_aperture_host_window_address s \<noteq> 0 then ap_size (ap_host (rt_layout s)) else 0)"

definition sdk_aperture_mailbox_address :: "aperture_runtime \<Rightarrow> u32" where
  "sdk_aperture_mailbox_address s =
     (if rt_flags s AND (FLAG_VALID OR FLAG_ACKED) \<noteq> FLAG_VALID OR FLAG_ACKED then 0
      else ap_base (ap_audio (rt_layout s)) - MAILBOX_Z2_SIZE + ARM_ADDRESS_ADJUSTMENT)"

definition sdk_aperture_mailbox_page :: "aperture_runtime \<Rightarrow> u32" where
  "sdk_aperture_mailbox_page s =
     (if rt_flags s AND FLAG_VALID = 0 then 0
      else ap_base (ap_audio (rt_layout s)) - MAILBOX_Z2_PAGE_SIZE + ARM_ADDRESS_ADJUSTMENT)"

definition sdk_aperture_framebuffer_size :: "aperture_runtime \<Rightarrow> u32" where
  "sdk_aperture_framebuffer_size s =
     (if rt_flags s AND FLAG_VALID = 0 then 0
      else if rt_flags s AND FLAG_ACKED \<noteq> 0 then ap_size (ap_framebuffer (rt_layout s))
      else aperture_size (rt_layout s) - 0x00040000)"

definition sdk_aperture_gfxdata_address :: "u32 \<Rightarrow> aperture_runtime \<Rightarrow> u32" where
  "sdk_aperture_gfxdata_address z3_scratch s =
     (if rt_flags s AND (FLAG_VALID OR FLAG_ACKED) = FLAG_VALID OR FLAG_ACKED
      then ap_base (ap_template (rt_layout s)) + ARM_ADDRESS_ADJUSTMENT
      else if rt_zorro3 s then z3_scratch else 0)"

lemmas ap_consts = FLAG_VALID_def FLAG_ACKED_def FLAG_HOST_WINDOW_def FLAG_PIP_POOL_def KIB_def
  LAYOUT_GENERATION_def FRAMEBUFFER_BASE_def ARM_ADDRESS_ADJUSTMENT_def DIRECT_RING_Z2_RESERVE_SIZE_def
  MAILBOX_Z2_SIZE_def MAILBOX_Z2_PAGE_SIZE_def APERTURE_PROFILE_def PROFILE_GENERATION_def PROFILE_FLAGS_def

section \<open>The layouts\<close>

definition ap_span :: "ap_region \<Rightarrow> region" where
  "ap_span r = (unat (ap_base r), unat (ap_size r))"

definition ap_spans :: "aperture_layout \<Rightarrow> region list" where
  "ap_spans l = map ap_span [ap_framebuffer l, ap_pip l, ap_template l, ap_host l, ap_audio l]"

text \<open>The three canonical layouts, evaluated.\<close>

definition layout_2M :: aperture_layout where
  "layout_2M = \<lparr>ap_profile = 0x00020005, aperture_size = 0x00200000,
     ap_framebuffer = \<lparr>ap_base = 0x00010000, ap_size = 0x001C0000\<rparr>, ap_pip = \<lparr>ap_base = 0x001D0000, ap_size = 0\<rparr>,
     ap_template = \<lparr>ap_base = 0x001D0000, ap_size = 0x10000\<rparr>, ap_host = \<lparr>ap_base = 0x001E0000, ap_size = 0x4000\<rparr>,
     ap_audio = \<lparr>ap_base = 0x001F0000, ap_size = 0x10000\<rparr>\<rparr>"

definition layout_4M :: aperture_layout where
  "layout_4M = \<lparr>ap_profile = 0x0002000D, aperture_size = 0x00400000,
     ap_framebuffer = \<lparr>ap_base = 0x00010000, ap_size = 0x00388000\<rparr>, ap_pip = \<lparr>ap_base = 0x00398000, ap_size = 0x38000\<rparr>,
     ap_template = \<lparr>ap_base = 0x003D0000, ap_size = 0x10000\<rparr>, ap_host = \<lparr>ap_base = 0x003E0000, ap_size = 0x4000\<rparr>,
     ap_audio = \<lparr>ap_base = 0x003F0000, ap_size = 0x10000\<rparr>\<rparr>"

definition layout_8M :: aperture_layout where
  "layout_8M = \<lparr>ap_profile = 0x0002000D, aperture_size = 0x00800000,
     ap_framebuffer = \<lparr>ap_base = 0x00010000, ap_size = 0x00770000\<rparr>, ap_pip = \<lparr>ap_base = 0x00780000, ap_size = 0x40000\<rparr>,
     ap_template = \<lparr>ap_base = 0x007C0000, ap_size = 0x10000\<rparr>, ap_host = \<lparr>ap_base = 0x007D0000, ap_size = 0x14000\<rparr>,
     ap_audio = \<lparr>ap_base = 0x007F0000, ap_size = 0x10000\<rparr>\<rparr>"

lemmas layout_defs = layout_2M_def layout_4M_def layout_8M_def

lemma canonical_eval:
  "build_canonical_layout 0x00200000 = Some layout_2M"
  "build_canonical_layout 0x00400000 = Some layout_4M"
  "build_canonical_layout 0x00800000 = Some layout_8M"
  by (simp_all add: build_canonical_layout_def aperture_sizes_def ap_consts Let_def layout_defs)

lemma canonical_cases:
  assumes "build_canonical_layout sz = Some l"
  shows "sz = 0x00200000 \<or> sz = 0x00400000 \<or> sz = 0x00800000"
  using assms by (auto simp: build_canonical_layout_def aperture_sizes_def split: if_splits)

lemma canonical_profile:
  assumes "build_canonical_layout sz = Some l"
  shows "ap_profile l = 0x00020005 \<or> ap_profile l = 0x0002000D" "aperture_size l = sz"
  using canonical_cases [OF assms] assms by (auto simp: canonical_eval layout_defs)

text \<open>A layout passes exactly when it is a canonical one, acknowledged or not.\<close>

lemma profile_fields: "PROFILE_GENERATION p = g \<Longrightarrow> PROFILE_FLAGS p = f \<Longrightarrow> p = push_bit 16 g OR f"
proof -
  assume g: "PROFILE_GENERATION p = g" and f: "PROFILE_FLAGS p = f"
  have m: "(0xffff :: u32) = mask 16" by (simp add: mask_eq_exp_minus_1)
  have "p = push_bit 16 (drop_bit 16 p) OR take_bit 16 p"
    by (rule bit_word_eqI) (auto simp: bit_or_iff bit_push_bit_iff bit_drop_bit_eq bit_take_bit_iff)
  moreover have "drop_bit 16 p = g"
  proof -
    have "take_bit 16 (drop_bit 16 p) = drop_bit 16 p"
      by (rule bit_word_eqI) (auto simp: bit_take_bit_iff bit_drop_bit_eq dest: bit_imp_le_length)
    then show ?thesis using g by (simp add: PROFILE_GENERATION_def m take_bit_eq_mask)
  qed
  moreover have "take_bit 16 p = f" using f by (simp add: PROFILE_FLAGS_def m take_bit_eq_mask)
  ultimately show ?thesis by metis
qed

definition layout_acked :: "aperture_layout \<Rightarrow> aperture_layout" where
  "layout_acked l = l\<lparr>ap_profile := ap_profile l OR FLAG_ACKED\<rparr>"

lemmas validate_eval = sdk_aperture_layout_validate_def region_inside_def regions_ordered_def
  ap_region_end_def ap_consts layout_acked_def

lemma validate_layouts:
  "sdk_aperture_layout_validate layout_2M" "sdk_aperture_layout_validate (layout_acked layout_2M)"
  "sdk_aperture_layout_validate layout_4M" "sdk_aperture_layout_validate (layout_acked layout_4M)"
  "sdk_aperture_layout_validate layout_8M" "sdk_aperture_layout_validate (layout_acked layout_8M)"
  using canonical_eval by (simp_all add: validate_eval layout_defs)

lemma canonical_validates:
  assumes "build_canonical_layout sz = Some l"
  shows "sdk_aperture_layout_validate l \<and> sdk_aperture_layout_validate (layout_acked l)"
  using canonical_cases [OF assms] assms canonical_eval validate_layouts by auto

lemma validate_canonical:
  assumes "sdk_aperture_layout_validate l"
  obtains e where "build_canonical_layout (aperture_size l) = Some e" "l = e \<or> l = layout_acked e"
proof -
  obtain e where e: "build_canonical_layout (aperture_size l) = Some e"
    and g: "PROFILE_GENERATION (ap_profile l) = LAYOUT_GENERATION"
    and f: "PROFILE_FLAGS (ap_profile l) = PROFILE_FLAGS (ap_profile e) \<or>
      PROFILE_FLAGS (ap_profile l) = PROFILE_FLAGS (ap_profile e) OR FLAG_ACKED"
    and eq: "l = e\<lparr>ap_profile := ap_profile l\<rparr>"
    using assms by (auto simp: sdk_aperture_layout_validate_def split: option.splits if_splits)
  have "ap_profile l = ap_profile e \<or> ap_profile l = ap_profile e OR FLAG_ACKED"
    using profile_fields [OF g refl] f canonical_profile(1) [OF e]
    by (auto simp: ap_consts)
  then have "l = e \<or> l = layout_acked e"
    using eq by (auto simp: layout_acked_def)
  with e that show ?thesis by blast
qed

lemma validate_cases:
  assumes "sdk_aperture_layout_validate l"
  shows "l \<in> {layout_2M, layout_4M, layout_8M} \<union> layout_acked ` {layout_2M, layout_4M, layout_8M}"
proof -
  obtain e where e: "build_canonical_layout (aperture_size l) = Some e" "l = e \<or> l = layout_acked e"
    by (rule validate_canonical [OF assms])
  have "e \<in> {layout_2M, layout_4M, layout_8M}"
    using canonical_cases [OF e(1)] e(1) canonical_eval by auto
  with e(2) show ?thesis by auto
qed

text \<open>The parts of the window: the five regions and the direct-ring reservation.\<close>

definition ap_parts :: "aperture_layout \<Rightarrow> region list" where
  "ap_parts l = ap_spans l @
     [(region_end (ap_span (ap_host l)), unat DIRECT_RING_Z2_RESERVE_SIZE)]"

definition parts_at :: "nat \<Rightarrow> aperture_layout \<Rightarrow> region list" where
  "parts_at a l = filter (\<lambda>x. fst x \<le> a \<and> a < region_end x) (ap_parts l)"

definition ap_partition :: "aperture_layout \<Rightarrow> bool" where
  "ap_partition l \<longleftrightarrow>
    (\<forall>a. length (parts_at a l) = (if 0x10000 \<le> a \<and> a < unat (aperture_size l) then 1 else 0)) \<and>
    regions_ok (filter (\<lambda>x. 0 < snd x) (ap_spans l)) \<and>
    (\<forall>x\<in>set (ap_spans l). 0x10000 \<le> fst x \<and> region_end x \<le> unat (aperture_size l)) \<and>
    region_end (ap_span (ap_host l)) + 0xC000 = fst (ap_span (ap_audio l)) \<and>
    region_end (ap_span (ap_audio l)) = unat (aperture_size l) \<and>
    (ap_size (ap_pip l) = 0 \<longleftrightarrow> aperture_size l = 0x00200000)"

lemma ap_partition_acked: "ap_partition (layout_acked l) = ap_partition l"
  by (simp add: ap_partition_def layout_acked_def ap_spans_def parts_at_def ap_parts_def)

lemma layouts_partition:
  assumes "sdk_aperture_layout_validate l"
  shows "ap_partition l"
proof -
  have "length (parts_at a layout_2M) = (if 0x10000 \<le> a \<and> a < 0x00200000 then 1 else 0)"
    "length (parts_at a layout_4M) = (if 0x10000 \<le> a \<and> a < 0x00400000 then 1 else 0)"
    "length (parts_at a layout_8M) = (if 0x10000 \<le> a \<and> a < 0x00800000 then 1 else 0)" for a
    by (auto simp: parts_at_def ap_parts_def layout_defs ap_spans_def ap_span_def region_end_def
        DIRECT_RING_Z2_RESERVE_SIZE_def)
  then have "ap_partition layout_2M" "ap_partition layout_4M" "ap_partition layout_8M"
    by (simp_all add: ap_partition_def layout_defs ap_spans_def ap_span_def regions_ok_Cons before_def region_end_def)
  then show ?thesis using validate_cases [OF assms] by (auto simp: ap_partition_acked)
qed

text \<open>
  C9: every layout the firmware accepts partitions the aperture. Above the 64 KiB
  register page every byte of the window lies in exactly one part, a region or the
  direct-ring reservation, and no part reaches outside. The non-empty regions are in
  order, the reservation lies between host window and audio scratch, the audio scratch
  ends the window, the mailbox fits in the reservation's last page, and only the 2 MB
  window has no PIP pool. All three window sizes have such a layout, before and after
  the host's acknowledgement.
\<close>

theorem aperture_layout_partition:
  assumes "sdk_aperture_layout_validate l"
  shows "(\<forall>a. length (parts_at a l) = (if 0x10000 \<le> a \<and> a < unat (aperture_size l) then 1 else 0)) \<and>
    regions_ok (filter (\<lambda>x. 0 < snd x) (ap_spans l)) \<and>
    (\<forall>x\<in>set (ap_spans l). 0x10000 \<le> fst x \<and> region_end x \<le> unat (aperture_size l)) \<and>
    region_end (ap_span (ap_host l)) + 0xC000 = fst (ap_span (ap_audio l)) \<and>
    region_end (ap_span (ap_audio l)) = unat (aperture_size l) \<and>
    unat MAILBOX_Z2_SIZE \<le> unat MAILBOX_Z2_PAGE_SIZE \<and>
    (ap_size (ap_pip l) = 0 \<longleftrightarrow> aperture_size l = 0x00200000) \<and>
    (\<forall>sz\<in>{0x00200000, 0x00400000, 0x00800000}. \<exists>e. sdk_aperture_layout_compute sz = Some e \<and>
      aperture_size e = sz \<and> sdk_aperture_layout_validate e \<and> sdk_aperture_layout_validate (layout_acked e))"
proof -
  have "\<forall>sz\<in>{0x00200000, 0x00400000, 0x00800000}. \<exists>e. sdk_aperture_layout_compute sz = Some e \<and>
      aperture_size e = sz \<and> sdk_aperture_layout_validate e \<and> sdk_aperture_layout_validate (layout_acked e)"
    using canonical_eval canonical_validates canonical_profile(2)
    by (simp add: sdk_aperture_layout_compute_def)
  then show ?thesis
    using layouts_partition [OF assms] by (auto simp: ap_partition_def MAILBOX_Z2_SIZE_def MAILBOX_Z2_PAGE_SIZE_def)
qed

theorem aperture_layout_partition_witness:
  "length (parts_at 0x7E4000 (layout_acked layout_8M)) = 1 \<and>
    regions_ok (filter (\<lambda>x. 0 < snd x) (ap_spans (layout_acked layout_8M)))"
  using aperture_layout_partition [OF validate_layouts(6)] by (simp add: layout_acked_def layout_8M_def)

section \<open>The runtime\<close>

lemma compute_eq:
  "sdk_aperture_layout_compute sz = build_canonical_layout sz"
  using canonical_validates by (auto simp: sdk_aperture_layout_compute_def split: option.splits)

lemma compute_cases:
  "sdk_aperture_layout_compute sz = Some l \<longleftrightarrow>
    sz = 0x00200000 \<and> l = layout_2M \<or> sz = 0x00400000 \<and> l = layout_4M \<or> sz = 0x00800000 \<and> l = layout_8M"
  unfolding compute_eq using canonical_cases [of sz l] canonical_eval by auto

text \<open>The states after initialisation and any number of acknowledgements.\<close>

fun ap_acks :: "nat \<Rightarrow> aperture_runtime \<Rightarrow> aperture_runtime" where
  "ap_acks 0 s = s"
| "ap_acks (Suc n) s = snd (sdk_aperture_runtime_ack (ap_acks n s))"

text \<open>What the runtime holds: nothing, a fresh layout, or an acknowledged one.\<close>

definition ap_holds :: "aperture_runtime \<Rightarrow> bool \<Rightarrow> aperture_layout option \<Rightarrow> bool" where
  "ap_holds s acked lo \<longleftrightarrow>
     (case lo of
        None \<Rightarrow> rt_flags s = 0 \<and> rt_layout s = zero_layout
      | Some l \<Rightarrow> \<not> rt_zorro3 s \<and> \<not> rt_legacy s \<and> l \<in> {layout_2M, layout_4M, layout_8M} \<and>
          rt_flags s = PROFILE_FLAGS (ap_profile l) OR (if acked then FLAG_ACKED else 0) \<and>
          rt_layout s = (if acked then layout_acked l else l))"

lemma ack_holds:
  assumes "ap_holds s acked lo"
  shows "ap_holds (snd (sdk_aperture_runtime_ack s)) True lo"
proof (cases lo)
  case None
  with assms show ?thesis by (simp add: ap_holds_def sdk_aperture_runtime_ack_def)
next
  case (Some l)
  then have s: "\<not> rt_zorro3 s" "\<not> rt_legacy s" "l \<in> {layout_2M, layout_4M, layout_8M}"
      "rt_flags s = PROFILE_FLAGS (ap_profile l) OR (if acked then FLAG_ACKED else 0)"
      "rt_layout s = (if acked then layout_acked l else l)" using assms by (auto simp: ap_holds_def)
  have "sdk_aperture_layout_validate (rt_layout s)" using s(3,5) validate_layouts by auto
  moreover have "rt_flags s AND FLAG_VALID \<noteq> 0" using s(3,4) by (auto simp: layout_defs ap_consts)
  moreover have "APERTURE_PROFILE LAYOUT_GENERATION (rt_flags s OR FLAG_ACKED) = ap_profile l OR FLAG_ACKED"
    "rt_flags s OR FLAG_ACKED = PROFILE_FLAGS (ap_profile l) OR FLAG_ACKED"
    using s(3,4) by (auto simp: layout_defs ap_consts)
  ultimately show ?thesis using s Some
    by (auto simp: ap_holds_def sdk_aperture_runtime_ack_def Let_def layout_acked_def)
qed

lemma acks_hold:
  "ap_holds (ap_acks n (sdk_aperture_runtime_init sz z3)) (0 < n)
    (if z3 then None else sdk_aperture_layout_compute sz)"
proof (induction n)
  case 0
  show ?case
  proof (cases "if z3 then None else sdk_aperture_layout_compute sz")
    case None
    then show ?thesis by (simp add: ap_holds_def sdk_aperture_runtime_init_def Let_def)
  next
    case (Some l)
    then have "\<not> z3" "l \<in> {layout_2M, layout_4M, layout_8M}" "sz \<noteq> 0"
      using compute_cases [of sz l] by (auto split: if_splits)
    with Some show ?thesis by (auto simp: ap_holds_def sdk_aperture_runtime_init_def Let_def)
  qed
next
  case (Suc n)
  then show ?case using ack_holds by simp
qed

text \<open>
  nothing of the generation-2 contract is reachable before the host acknowledges it.
  From any initialisation and any number of acknowledgements, the host window and the
  mailbox have an address exactly when the layout is valid and acknowledged; the mailbox
  then lies wholly inside the direct-ring reservation, between host window and audio
  scratch, and inside the page reported for it.
\<close>

theorem aperture_runtime_gate:
  defines "run \<equiv> \<lambda>n sz z3. ap_acks n (sdk_aperture_runtime_init sz z3)"
  shows "(sdk_aperture_mailbox_address (run n sz z3) \<noteq> 0 \<longleftrightarrow>
      \<not> z3 \<and> 0 < n \<and> sz \<in> {0x00200000, 0x00400000, 0x00800000}) \<and>
    (sdk_aperture_host_window_address (run n sz z3) \<noteq> 0 \<longleftrightarrow> sdk_aperture_mailbox_address (run n sz z3) \<noteq> 0) \<and>
    (sdk_aperture_runtime_diag_state (run n sz z3) = 2 \<longleftrightarrow> sdk_aperture_mailbox_address (run n sz z3) \<noteq> 0) \<and>
    (sdk_aperture_mailbox_address (run n sz z3) \<noteq> 0 \<longrightarrow>
      (let s = run n sz z3; m = unat (sdk_aperture_mailbox_address s); p = unat (sdk_aperture_mailbox_page s)
       in unat (sdk_aperture_host_window_address s) + unat (sdk_aperture_host_window_size s) \<le> m \<and>
          m + unat MAILBOX_Z2_SIZE = unat (ap_base (ap_audio (rt_layout s))) + unat ARM_ADDRESS_ADJUSTMENT \<and>
          p \<le> m \<and> m + unat MAILBOX_Z2_SIZE \<le> p + unat MAILBOX_Z2_PAGE_SIZE))"
proof -
  let ?s = "run n sz z3" and ?lo = "if z3 then None else sdk_aperture_layout_compute sz"
  note addr_defs = sdk_aperture_mailbox_address_def sdk_aperture_host_window_address_def
    sdk_aperture_host_window_size_def sdk_aperture_mailbox_page_def sdk_aperture_runtime_diag_state_def
  have h: "ap_holds ?s (0 < n) ?lo" using acks_hold by (simp add: run_def)
  have z: "rt_zorro3 ?s \<or> rt_legacy ?s \<or> rt_flags ?s AND FLAG_ACKED = 0" if "?lo = None"
    using h that by (simp add: ap_holds_def)
  show ?thesis
  proof (cases ?lo)
    case None
    have "\<not> (\<not> z3 \<and> sz \<in> {0x00200000, 0x00400000, 0x00800000})"
      using None compute_cases [of sz] by (auto split: if_splits)
    then show ?thesis using h None by (auto simp: ap_holds_def addr_defs ap_consts)
  next
    case (Some l)
    then have l: "\<not> z3" "sz = 0x00200000 \<and> l = layout_2M \<or> sz = 0x00400000 \<and> l = layout_4M \<or> sz = 0x00800000 \<and> l = layout_8M"
      using compute_cases [of sz l] by (auto split: if_splits)
    show ?thesis using h Some l
      by (elim disjE conjE; cases "0 < n")
        (simp_all add: ap_holds_def addr_defs ap_consts layout_defs layout_acked_def Let_def)
  qed
qed

theorem aperture_runtime_gate_witness:
  "sdk_aperture_mailbox_address (ap_acks 1 (sdk_aperture_runtime_init 0x00400000 False)) \<noteq> 0"
  using aperture_runtime_gate [of 1 "0x00400000" False] by simp

end
