(* ===== verification/PortReset.thy ===== *)
theory PortReset
  imports Prelude
begin

unbundle bit_operations_syntax

text \<open>
  The EHCI root-port reset state machine (\<^verbatim>\<open>usb_port_reset_sm.h\<close>). The machine
  returns the hardware action to perform; the caller performs it and re-arms the
  timer. The clock is 64 bits wide and wraps; the theorems relate it to real time.
\<close>

section \<open>Model\<close>

datatype root_reset_state = RR_IDLE | RR_WAIT_STALE_CLEAR | RR_HOLD | RR_WAIT_CLEAR | RR_RECOVERY

datatype root_reset_action =
  RA_NONE | RA_DROP_STALE | RA_ASSERT | RA_DEASSERT | RA_PORT_READY | RA_COMPLETE | RA_TIMEOUT

definition HOLD_US :: u32 where "HOLD_US = 50000"
definition CLEAR_US :: u32 where "CLEAR_US = 4000"
definition RECOVERY_US :: u32 where "RECOVERY_US = 10000"

definition zzusb_ticks_to_us :: "u64 \<Rightarrow> u64 \<Rightarrow> u64" where
  "zzusb_ticks_to_us ticks hz = (ticks div hz) * 1000000 + ((ticks mod hz) * 1000000) div hz"

record root_reset =
  rr_state :: root_reset_state
  started_us :: u64
  duration_us :: u32
  observed_portsc :: u32

definition zzusb_root_reset_init :: root_reset where
  "zzusb_root_reset_init = \<lparr>rr_state = RR_IDLE, started_us = 0, duration_us = 0, observed_portsc = 0\<rparr>"

definition zzusb_root_reset_active :: "root_reset \<Rightarrow> bool" where
  "zzusb_root_reset_active r = (rr_state r \<noteq> RR_IDLE)"

definition zzusb_root_reset_enter :: "root_reset_state \<Rightarrow> u64 \<Rightarrow> u32 \<Rightarrow> root_reset \<Rightarrow> root_reset" where
  "zzusb_root_reset_enter st now dur r = r\<lparr>rr_state := st, started_us := now, duration_us := dur\<rparr>"

definition zzusb_root_reset_arm :: "u64 \<Rightarrow> root_reset \<Rightarrow> root_reset" where
  "zzusb_root_reset_arm now r = r\<lparr>started_us := now\<rparr>"

definition zzusb_root_reset_elapsed :: "u64 \<Rightarrow> root_reset \<Rightarrow> bool" where
  "zzusb_root_reset_elapsed now r = (now - started_us r \<ge> ucast (duration_us r))"

text \<open>The PORTSC port-reset bit.\<close>

definition pr_bit :: "u32 \<Rightarrow> bool" where
  "pr_bit portsc = (portsc AND push_bit 8 1 \<noteq> 0)"

definition zzusb_root_reset_start :: "u64 \<Rightarrow> u32 \<Rightarrow> root_reset \<Rightarrow> root_reset_action \<times> root_reset" where
  "zzusb_root_reset_start now portsc r =
     (let r = r\<lparr>observed_portsc := portsc\<rparr>
      in if pr_bit portsc
         then (RA_DROP_STALE, zzusb_root_reset_enter RR_WAIT_STALE_CLEAR now CLEAR_US r)
         else (RA_ASSERT, zzusb_root_reset_enter RR_HOLD now HOLD_US r))"

definition zzusb_root_reset_step :: "u64 \<Rightarrow> u32 \<Rightarrow> root_reset \<Rightarrow> root_reset_action \<times> root_reset" where
  "zzusb_root_reset_step now portsc r0 =
     (let r = r0\<lparr>observed_portsc := portsc\<rparr>
      in case rr_state r of
           RR_WAIT_STALE_CLEAR \<Rightarrow>
             if \<not> pr_bit portsc then (RA_ASSERT, zzusb_root_reset_enter RR_HOLD now HOLD_US r)
             else if zzusb_root_reset_elapsed now r
               then (RA_TIMEOUT, zzusb_root_reset_init\<lparr>observed_portsc := portsc\<rparr>)
             else (RA_NONE, r)
         | RR_HOLD \<Rightarrow>
             if zzusb_root_reset_elapsed now r
             then (RA_DEASSERT, zzusb_root_reset_enter RR_WAIT_CLEAR now CLEAR_US r)
             else (RA_NONE, r)
         | RR_WAIT_CLEAR \<Rightarrow>
             if \<not> pr_bit portsc then (RA_PORT_READY, zzusb_root_reset_enter RR_RECOVERY now RECOVERY_US r)
             else if zzusb_root_reset_elapsed now r
               then (RA_TIMEOUT, zzusb_root_reset_init\<lparr>observed_portsc := portsc\<rparr>)
             else (RA_NONE, r)
         | RR_RECOVERY \<Rightarrow>
             if zzusb_root_reset_elapsed now r
             then (RA_COMPLETE, zzusb_root_reset_init\<lparr>observed_portsc := observed_portsc r\<rparr>)
             else (RA_NONE, r)
         | RR_IDLE \<Rightarrow> (RA_NONE, r))"

section \<open>The tick conversion\<close>

text \<open>
  the tick conversion is exact for every uptime. For any tick frequency up to
  18 THz whose result fits in 64 bits, it is the true quotient rounded down, with
  no intermediate overflow.
\<close>

theorem ticks_to_us_exact:
  assumes "0 < unat hz" "unat hz \<le> 18446744073709" "unat ticks * 1000000 div unat hz < 2 ^ 64"
  shows "unat (zzusb_ticks_to_us ticks hz) = unat ticks * 1000000 div unat hz"
proof -
  define t h :: nat where "t = unat ticks" and "h = unat hz"
  have "t mod h < h" using assms(1) by (simp add: h_def)
  then have r: "(t mod h) * 1000000 < 2 ^ 64" using assms(2) by (simp add: h_def)
  have eq: "t * 1000000 div h = (t div h) * 1000000 + (t mod h) * 1000000 div h"
  proof -
    have "(h * (t div h) + t mod h) * 1000000 = h * ((t div h) * 1000000) + (t mod h) * 1000000"
      by (simp only: algebra_simps)
    then have "t * 1000000 = h * ((t div h) * 1000000) + (t mod h) * 1000000"
      by (simp only: mult_div_mod_eq)
    then show ?thesis using assms(1) by (simp add: h_def)
  qed
  have "(t div h) * 1000000 + (t mod h) * 1000000 div h < 2 ^ 64"
    using assms(3) eq by (simp add: t_def h_def)
  then show ?thesis using r
    by (simp add: zzusb_ticks_to_us_def unat_word_ariths unat_div unat_mod t_def h_def eq [unfolded t_def h_def])
qed

theorem ticks_to_us_exact_witness:
  "unat (zzusb_ticks_to_us 1000000000000000000 333333333) = 1000000000000000000 * 1000000 div 333333333"
  using ticks_to_us_exact [of 333333333 1000000000000000000] by simp

section \<open>Runs of the machine\<close>

text \<open>
  A run as the caller drives it, in real time (microseconds since boot): an entry
  of the log is (action, time decided, time the action was done and the timer
  re-armed, PORTSC seen), newest first. Polls that decide nothing leave the log.
  A phase is polled within one period of the 64-bit clock of its arming; the
  clock itself may wrap any number of times.
\<close>

type_synonym reset_log = "(root_reset_action \<times> nat \<times> nat \<times> u32) list"

definition log_armed :: "reset_log \<Rightarrow> nat" where
  "log_armed log = (case log of [] \<Rightarrow> 0 | (a, t, t', p) # rest \<Rightarrow> t')"

inductive reset_run :: "root_reset \<Rightarrow> reset_log \<Rightarrow> nat \<Rightarrow> bool" where
  run_start: "zzusb_root_reset_start (of_nat t) p r = (a, r1) \<Longrightarrow> t \<le> t' \<Longrightarrow>
    reset_run (zzusb_root_reset_arm (of_nat t') r1) [(a, t, t', p)] t'"
| run_poll: "reset_run r log now \<Longrightarrow> now \<le> t \<Longrightarrow> t < log_armed log + 2 ^ 64 \<Longrightarrow>
    zzusb_root_reset_step (of_nat t) p r = (RA_NONE, r1) \<Longrightarrow> reset_run r1 log t"
| run_act: "reset_run r log now \<Longrightarrow> now \<le> t \<Longrightarrow> t < log_armed log + 2 ^ 64 \<Longrightarrow>
    zzusb_root_reset_step (of_nat t) p r = (a, r1) \<Longrightarrow> a \<noteq> RA_NONE \<Longrightarrow> t \<le> t' \<Longrightarrow>
    reset_run (zzusb_root_reset_arm (of_nat t') r1) ((a, t, t', p) # log) t'"

text \<open>The logs of the four phases, with what each has guaranteed.\<close>

fun log_stale :: "reset_log \<Rightarrow> bool" where
  "log_stale [(RA_DROP_STALE, t, t', p)] = True"
| "log_stale _ = False"

fun log_hold :: "reset_log \<Rightarrow> bool" where
  "log_hold ((RA_ASSERT, t, t', p) # rest) = (\<not> pr_bit p \<and> (rest = [] \<or> log_stale rest))"
| "log_hold _ = False"

fun log_wait :: "reset_log \<Rightarrow> bool" where
  "log_wait ((RA_DEASSERT, t, t', p) # (RA_ASSERT, u, u', q) # rest) =
     (u' + 50000 \<le> t \<and> log_hold ((RA_ASSERT, u, u', q) # rest))"
| "log_wait _ = False"

fun log_ready :: "reset_log \<Rightarrow> bool" where
  "log_ready ((RA_PORT_READY, t, t', p) # rest) = (\<not> pr_bit p \<and> log_wait rest)"
| "log_ready _ = False"

text \<open>A finished run: complete after the recovery time, or timed out with the bit still set.\<close>

fun log_done :: "reset_log \<Rightarrow> bool" where
  "log_done ((RA_COMPLETE, t, t', p) # (RA_PORT_READY, u, u', q) # rest) =
     (u' + 10000 \<le> t \<and> log_ready ((RA_PORT_READY, u, u', q) # rest))"
| "log_done ((RA_TIMEOUT, t, t', p) # (a, u, u', q) # rest) =
     (u' + 4000 \<le> t \<and> pr_bit p \<and> (log_stale ((a, u, u', q) # rest) \<or> log_wait ((a, u, u', q) # rest)))"
| "log_done _ = False"

definition phase_log :: "root_reset_state \<Rightarrow> reset_log \<Rightarrow> bool" where
  "phase_log st = (case st of RR_IDLE \<Rightarrow> log_done | RR_WAIT_STALE_CLEAR \<Rightarrow> log_stale | RR_HOLD \<Rightarrow> log_hold
     | RR_WAIT_CLEAR \<Rightarrow> log_wait | RR_RECOVERY \<Rightarrow> log_ready)"

definition phase_time :: "root_reset_state \<Rightarrow> nat" where
  "phase_time st = (case st of RR_IDLE \<Rightarrow> 0 | RR_WAIT_STALE_CLEAR \<Rightarrow> 4000 | RR_HOLD \<Rightarrow> 50000
     | RR_WAIT_CLEAR \<Rightarrow> 4000 | RR_RECOVERY \<Rightarrow> 10000)"

definition run_ok :: "root_reset \<Rightarrow> reset_log \<Rightarrow> nat \<Rightarrow> bool" where
  "run_ok r log now \<longleftrightarrow> phase_log (rr_state r) log \<and> log_armed log \<le> now \<and>
     (rr_state r \<noteq> RR_IDLE \<longrightarrow> started_us r = of_nat (log_armed log) \<and> unat (duration_us r) = phase_time (rr_state r))"

lemma unat_ucast_u64: "unat (ucast (w :: u32) :: u64) = unat w"
proof -
  have "unat w < 2 ^ 64" by (rule less_trans [OF unat_lt32]) simp
  then show ?thesis by (simp add: unsigned_ucast_eq take_bit_nat_eq_self)
qed

lemma elapsed_real:
  assumes "started_us r = of_nat s" "s \<le> t" "t < s + 2 ^ 64" "zzusb_root_reset_elapsed (of_nat t) r"
  shows "s + unat (duration_us r) \<le> t"
proof -
  have "of_nat t - (of_nat s :: u64) = of_nat (t - s)" using assms(2) by simp
  moreover have "unat (of_nat (t - s) :: u64) = t - s"
  proof -
    have "t - s < 2 ^ 64" using assms(2,3) by simp
    then show ?thesis by (simp add: unat_of_nat del: of_nat_diff)
  qed
  moreover have "unat (ucast (duration_us r) :: u64) = unat (duration_us r)"
    by (simp add: unat_ucast_u64)
  ultimately show ?thesis using assms by (simp add: zzusb_root_reset_elapsed_def word_le_nat_alt)
qed

lemma run_ok_start:
  assumes "zzusb_root_reset_start (of_nat t) p r = (a, r1)" "t \<le> t'"
  shows "run_ok (zzusb_root_reset_arm (of_nat t') r1) [(a, t, t', p)] t'"
  using assms
  by (auto simp: run_ok_def phase_log_def phase_time_def log_armed_def zzusb_root_reset_start_def Let_def
      zzusb_root_reset_enter_def zzusb_root_reset_arm_def HOLD_US_def CLEAR_US_def split: if_splits)

lemma step_none:
  assumes "zzusb_root_reset_step (of_nat t) p r = (RA_NONE, r1)"
  shows "r1 = r\<lparr>observed_portsc := p\<rparr>"
  using assms by (cases "rr_state r") (auto simp: zzusb_root_reset_step_def Let_def split: if_splits)

lemma run_ok_poll:
  assumes "run_ok r log now" "now \<le> t" "zzusb_root_reset_step (of_nat t) p r = (RA_NONE, r1)"
  shows "run_ok r1 log t"
  using step_none [OF assms(3)] assms(1,2) by (auto simp: run_ok_def)

text \<open>What deciding an action needs, phase by phase.\<close>

lemma step_act_cases:
  assumes "zzusb_root_reset_step (of_nat t) p r = (a, r1)" "a \<noteq> RA_NONE"
  shows "rr_state r = RR_WAIT_STALE_CLEAR \<and> a = RA_ASSERT \<and> \<not> pr_bit p \<and>
      r1 = zzusb_root_reset_enter RR_HOLD (of_nat t) HOLD_US (r\<lparr>observed_portsc := p\<rparr>) \<or>
    rr_state r \<in> {RR_WAIT_STALE_CLEAR, RR_WAIT_CLEAR} \<and> a = RA_TIMEOUT \<and> pr_bit p \<and>
      zzusb_root_reset_elapsed (of_nat t) r \<and> rr_state r1 = RR_IDLE \<or>
    rr_state r = RR_HOLD \<and> a = RA_DEASSERT \<and> zzusb_root_reset_elapsed (of_nat t) r \<and>
      r1 = zzusb_root_reset_enter RR_WAIT_CLEAR (of_nat t) CLEAR_US (r\<lparr>observed_portsc := p\<rparr>) \<or>
    rr_state r = RR_WAIT_CLEAR \<and> a = RA_PORT_READY \<and> \<not> pr_bit p \<and>
      r1 = zzusb_root_reset_enter RR_RECOVERY (of_nat t) RECOVERY_US (r\<lparr>observed_portsc := p\<rparr>) \<or>
    rr_state r = RR_RECOVERY \<and> a = RA_COMPLETE \<and> zzusb_root_reset_elapsed (of_nat t) r \<and> rr_state r1 = RR_IDLE"
  using assms
  by (cases "rr_state r")
    (auto simp: zzusb_root_reset_step_def Let_def zzusb_root_reset_elapsed_def zzusb_root_reset_init_def split: if_splits)

lemma log_forms:
  "log_stale log \<Longrightarrow> \<exists>t t' p. log = [(RA_DROP_STALE, t, t', p)]"
  "log_hold log \<Longrightarrow> \<exists>t t' p rest. log = (RA_ASSERT, t, t', p) # rest"
  "log_wait log \<Longrightarrow> \<exists>t t' p rest. log = (RA_DEASSERT, t, t', p) # rest"
  "log_ready log \<Longrightarrow> \<exists>t t' p rest. log = (RA_PORT_READY, t, t', p) # rest"
  by (auto elim: log_stale.elims log_hold.elims log_wait.elims log_ready.elims)

lemma run_ok_act:
  assumes ok: "run_ok r log now" and "now \<le> t" "t \<le> t'" "t < log_armed log + 2 ^ 64"
    and st: "zzusb_root_reset_step (of_nat t) p r = (a, r1)" "a \<noteq> RA_NONE"
  shows "run_ok (zzusb_root_reset_arm (of_nat t') r1) ((a, t, t', p) # log) t'"
proof -
  have active: "rr_state r \<noteq> RR_IDLE" using step_act_cases [OF st] by auto
  have ph: "phase_log (rr_state r) log" and arm: "started_us r = of_nat (log_armed log)" "log_armed log \<le> t"
    and dur: "unat (duration_us r) = phase_time (rr_state r)"
    using ok active assms(2) by (auto simp: run_ok_def)
  have el: "zzusb_root_reset_elapsed (of_nat t) r \<Longrightarrow> log_armed log + phase_time (rr_state r) \<le> t"
    using elapsed_real [OF arm] assms(3,4) dur by simp
  note run_defs = run_ok_def phase_log_def phase_time_def log_armed_def zzusb_root_reset_enter_def
    zzusb_root_reset_arm_def HOLD_US_def CLEAR_US_def RECOVERY_US_def
  from step_act_cases [OF st] show ?thesis
  proof (elim disjE conjE)
    assume "rr_state r = RR_WAIT_STALE_CLEAR" "a = RA_ASSERT" "\<not> pr_bit p"
      "r1 = zzusb_root_reset_enter RR_HOLD (of_nat t) HOLD_US (r\<lparr>observed_portsc := p\<rparr>)"
    then show ?thesis using ph assms(3) by (simp add: run_defs)
  next
    assume "rr_state r \<in> {RR_WAIT_STALE_CLEAR, RR_WAIT_CLEAR}" "a = RA_TIMEOUT" "pr_bit p"
      "zzusb_root_reset_elapsed (of_nat t) r" "rr_state r1 = RR_IDLE"
    then show ?thesis using ph el assms(3) log_forms [of log] by (auto simp: run_defs)
  next
    assume "rr_state r = RR_HOLD" "a = RA_DEASSERT" "zzusb_root_reset_elapsed (of_nat t) r"
      "r1 = zzusb_root_reset_enter RR_WAIT_CLEAR (of_nat t) CLEAR_US (r\<lparr>observed_portsc := p\<rparr>)"
    then show ?thesis using ph el assms(3) log_forms(2) [of log] by (auto simp: run_defs)
  next
    assume "rr_state r = RR_WAIT_CLEAR" "a = RA_PORT_READY" "\<not> pr_bit p"
      "r1 = zzusb_root_reset_enter RR_RECOVERY (of_nat t) RECOVERY_US (r\<lparr>observed_portsc := p\<rparr>)"
    then show ?thesis using ph assms(3) by (simp add: run_defs)
  next
    assume "rr_state r = RR_RECOVERY" "a = RA_COMPLETE" "zzusb_root_reset_elapsed (of_nat t) r" "rr_state r1 = RR_IDLE"
    then show ?thesis using ph el assms(3) log_forms(4) [of log] by (auto simp: run_defs)
  qed
qed

text \<open>
  C10: the reset sequence and its times. In every run of the machine, whatever the polling, the
  actions come in order; the reset is held at least 50 ms from the moment it was
  asserted, recovery lasts at least 10 ms from the moment the port was readied, and
  a timeout comes only after 4 ms with the reset bit still set. Times are real; the
  code sees them modulo two to the 64, and a wrap of its clock does not matter.
\<close>

theorem root_reset_sequence:
  assumes "reset_run r log now"
  shows "phase_log (rr_state r) log \<and> log_armed log \<le> now"
proof -
  have "run_ok r log now" using assms
  proof (induction rule: reset_run.induct)
    case (run_start t p r a r1 t')
    from run_start.hyps show ?case by (rule run_ok_start)
  next
    case (run_poll r log now t p r1)
    from run_poll.IH run_poll.hyps(2,4) show ?case by (rule run_ok_poll)
  next
    case (run_act r log now t p a r1 t')
    from run_act.IH run_act.hyps(2,6,3,4,5) show ?case by (rule run_ok_act)
  qed
  then show ?thesis by (simp add: run_ok_def)
qed

text \<open>A full reset from boot: asserted at 0, held, cleared, recovered.\<close>

definition rr_demo_log :: reset_log where
  "rr_demo_log = [(RA_COMPLETE, 70000, 70001, 5), (RA_PORT_READY, 51000, 51500, 1), (RA_DEASSERT, 50200, 50300, 256),
     (RA_ASSERT, 0, 100, 1)]"

lemmas rr_eval = zzusb_root_reset_start_def zzusb_root_reset_step_def zzusb_root_reset_enter_def
  zzusb_root_reset_arm_def zzusb_root_reset_elapsed_def zzusb_root_reset_init_def Let_def
  HOLD_US_def CLEAR_US_def RECOVERY_US_def pr_bit_def

lemma rr_demo_run: "\<exists>r. reset_run r rr_demo_log 70001 \<and> rr_state r = RR_IDLE"
proof -
  let ?r1 = "\<lparr>rr_state = RR_HOLD, started_us = 100, duration_us = 50000, observed_portsc = 1\<rparr>"
  let ?r2 = "\<lparr>rr_state = RR_WAIT_CLEAR, started_us = 50300, duration_us = 4000, observed_portsc = 256\<rparr>"
  let ?r3 = "\<lparr>rr_state = RR_RECOVERY, started_us = 51500, duration_us = 10000, observed_portsc = 1\<rparr>"
  have "reset_run ?r1 [(RA_ASSERT, 0, 100, 1)] 100"
    using run_start [of 0 1 zzusb_root_reset_init RA_ASSERT _ 100] by (simp add: rr_eval)
  from run_act [OF this, of 50200 256 RA_DEASSERT _ 50300]
  have "reset_run ?r2 [(RA_DEASSERT, 50200, 50300, 256), (RA_ASSERT, 0, 100, 1)] 50300"
    by (simp add: rr_eval log_armed_def)
  from run_act [OF this, of 51000 1 RA_PORT_READY _ 51500]
  have "reset_run ?r3 (tl rr_demo_log) 51500" by (simp add: rr_eval log_armed_def rr_demo_log_def)
  from run_act [OF this, of 70000 5 RA_COMPLETE _ 70001]
  have "reset_run \<lparr>rr_state = RR_IDLE, started_us = 70001, duration_us = 0, observed_portsc = 5\<rparr> rr_demo_log 70001"
    by (simp add: rr_eval log_armed_def rr_demo_log_def)
  then show ?thesis by (metis root_reset.select_convs(1))
qed

theorem root_reset_sequence_witness: "log_done rr_demo_log"
proof -
  obtain r where "reset_run r rr_demo_log 70001" "rr_state r = RR_IDLE" using rr_demo_run by blast
  with root_reset_sequence [of r rr_demo_log 70001] show ?thesis by (simp add: phase_log_def)
qed

end
