(* ===== verification/EthTxOrder.thy ===== *)
theory EthTxOrder
  imports Prelude
begin

text \<open>
  The completion order of asynchronous Ethernet sends (\<^verbatim>\<open>eth_tx_order.h\<close>): a ring of
  eight submissions and the 16-bit count the host reads. \<^verbatim>\<open>head\<close> stays below 8 and
  \<^verbatim>\<open>len\<close> at most 8 by every store, so they are natural numbers here.
\<close>

section \<open>Model\<close>

definition ETH_TX_ORDER_LEN :: nat where "ETH_TX_ORDER_LEN = 8"

record eth_tx_order =
  eto_done :: u16
  eto_head :: nat
  eto_len :: nat
  eto_entry :: "bool list"

text \<open>An entry is True for a BD the GEM will retire, False for a refusal.\<close>

definition eto_at_head :: "eth_tx_order \<Rightarrow> bool" where
  "eto_at_head q = eto_entry q ! eto_head q"

definition eto_pop :: "eth_tx_order \<Rightarrow> eth_tx_order" where
  "eto_pop q = q\<lparr>eto_head := (eto_head q + 1) mod ETH_TX_ORDER_LEN, eto_len := eto_len q - 1,
     eto_done := eto_done q + 1\<rparr>"

function eth_tx_order_retire_refused :: "eth_tx_order \<Rightarrow> eth_tx_order" where
  "eth_tx_order_retire_refused q =
     (if eto_len q > 0 \<and> \<not> eto_at_head q then eth_tx_order_retire_refused (eto_pop q) else q)"
  by pat_completeness auto
termination by (relation "measure eto_len") (auto simp: eto_pop_def)

declare eth_tx_order_retire_refused.simps [simp del]

definition eth_tx_order_push :: "bool \<Rightarrow> eth_tx_order \<Rightarrow> eth_tx_order" where
  "eth_tx_order_push bd q =
     (if \<not> bd \<and> eto_len q = 0 then q\<lparr>eto_done := eto_done q + 1\<rparr>
      else if eto_len q \<ge> ETH_TX_ORDER_LEN then q\<lparr>eto_done := eto_done q + 1\<rparr>
      else q\<lparr>eto_entry := (eto_entry q)[(eto_head q + eto_len q) mod ETH_TX_ORDER_LEN := bd],
             eto_len := eto_len q + 1\<rparr>)"

definition eth_tx_order_retire_bd :: "eth_tx_order \<Rightarrow> eth_tx_order" where
  "eth_tx_order_retire_bd q =
     (if eto_len q = 0 \<or> \<not> eto_at_head q then q else eth_tx_order_retire_refused (eto_pop q))"

definition eth_tx_order_flush :: "eth_tx_order \<Rightarrow> eth_tx_order" where
  "eth_tx_order_flush q = q\<lparr>eto_done := eto_done q + of_nat (eto_len q), eto_len := 0, eto_head := 0\<rparr>"

record eth_tx_watch =
  etw_since :: u64
  etw_done :: u16
  etw_armed :: bool

definition eth_tx_order_stalled :: "eth_tx_order \<Rightarrow> u64 \<Rightarrow> u64 \<Rightarrow> eth_tx_watch \<Rightarrow> bool \<times> eth_tx_watch" where
  "eth_tx_order_stalled q now limit w =
     (if eto_len q = 0 then (False, w\<lparr>etw_armed := False\<rparr>)
      else if \<not> etw_armed w \<or> etw_done w \<noteq> eto_done q
        then (False, \<lparr>etw_since = now, etw_done = eto_done q, etw_armed = True\<rparr>)
      else (now - etw_since w \<ge> limit, w))"

section \<open>The queue as a list\<close>

definition eto_ok :: "eth_tx_order \<Rightarrow> bool" where
  "eto_ok q \<longleftrightarrow> length (eto_entry q) = 8 \<and> eto_head q < 8 \<and> eto_len q \<le> 8 \<and>
     (eto_len q > 0 \<longrightarrow> eto_at_head q)"

text \<open>The outstanding submissions in order.\<close>

definition eto_pending :: "eth_tx_order \<Rightarrow> bool list" where
  "eto_pending q = map (\<lambda>i. eto_entry q ! ((eto_head q + i) mod 8)) [0..<eto_len q]"

lemma eto_pending_pop:
  assumes "eto_len q > 0"
  shows "eto_pending q = eto_entry q ! (eto_head q mod 8) # eto_pending (eto_pop q)"
proof -
  have "[0..<eto_len q] = 0 # map Suc [0..<eto_len q - 1]"
    using assms by (metis Suc_pred' map_Suc_upt upt_conv_Cons)
  then show ?thesis
    by (simp add: eto_pending_def eto_pop_def ETH_TX_ORDER_LEN_def mod_add_left_eq)
qed

lemma eto_head_pending:
  "eto_len q > 0 \<Longrightarrow> eto_head q < 8 \<Longrightarrow> eto_at_head q = hd (eto_pending q)"
  by (simp add: eto_pending_pop eto_at_head_def)

text \<open>Retiring refusals drops the leading ones and counts them.\<close>

lemma retire_refused_spec:
  assumes "length (eto_entry q) = 8" "eto_head q < 8" "eto_len q \<le> 8"
  shows "eto_ok (eth_tx_order_retire_refused q) \<and>
    eto_pending (eth_tx_order_retire_refused q) = dropWhile Not (eto_pending q) \<and>
    eto_done (eth_tx_order_retire_refused q) = eto_done q + of_nat (length (takeWhile Not (eto_pending q)))"
  using assms
proof (induction q rule: eth_tx_order_retire_refused.induct)
  case (1 q)
  show ?case
  proof (cases "eto_len q > 0 \<and> \<not> eto_at_head q")
    case True
    have eq: "eth_tx_order_retire_refused q = eth_tx_order_retire_refused (eto_pop q)"
      using True by (subst eth_tx_order_retire_refused.simps) simp
    have "length (eto_entry (eto_pop q)) = 8" "eto_head (eto_pop q) < 8" "eto_len (eto_pop q) \<le> 8"
      using "1.prems" by (auto simp: eto_pop_def ETH_TX_ORDER_LEN_def)
    from "1.IH" [OF True this] show ?thesis
      using True "1.prems" by (simp add: eq eto_pending_pop [of q] eto_at_head_def) (simp add: eto_pop_def)
  next
    case False
    then have eq: "eth_tx_order_retire_refused q = q"
      by (subst eth_tx_order_retire_refused.simps) (rule if_not_P)
    show ?thesis
    proof (cases "eto_len q = 0")
      case True
      then show ?thesis using "1.prems" by (simp add: eq eto_ok_def eto_pending_def)
    next
      case False
      then show ?thesis using "1.prems" \<open>\<not> (eto_len q > 0 \<and> \<not> eto_at_head q)\<close>
        by (simp add: eq eto_ok_def eto_pending_pop [of q] eto_at_head_def)
    qed
  qed
qed

lemma push_pending:
  assumes "eto_ok q"
  shows "eto_ok (eth_tx_order_push bd q)"
    "\<not> bd \<and> eto_pending q = [] \<or> length (eto_pending q) = 8 \<Longrightarrow>
      eto_pending (eth_tx_order_push bd q) = eto_pending q \<and> eto_done (eth_tx_order_push bd q) = eto_done q + 1"
    "bd \<or> eto_pending q \<noteq> [] \<Longrightarrow> length (eto_pending q) < 8 \<Longrightarrow>
      eto_pending (eth_tx_order_push bd q) = eto_pending q @ [bd] \<and> eto_done (eth_tx_order_push bd q) = eto_done q"
proof -
  have len: "length (eto_pending q) = eto_len q" by (simp add: eto_pending_def)
  have e: "eto_pending q = [] \<longleftrightarrow> eto_len q = 0" by (simp add: eto_pending_def)
  have ne: "(eto_head q + i) mod 8 \<noteq> (eto_head q + eto_len q) mod 8" if "i < eto_len q" "eto_len q < 8" for i
  proof
    assume "(eto_head q + i) mod 8 = (eto_head q + eto_len q) mod 8"
    then have "8 dvd (eto_head q + eto_len q) - (eto_head q + i)"
      using that by (subst mod_eq_dvd_iff_nat [symmetric]) auto
    then have "8 dvd eto_len q - i" by simp
    with that show False by (auto dest: dvd_imp_le)
  qed
  show "eto_pending (eth_tx_order_push bd q) = eto_pending q \<and> eto_done (eth_tx_order_push bd q) = eto_done q + 1"
    if "\<not> bd \<and> eto_pending q = [] \<or> length (eto_pending q) = 8"
    using that by (auto simp: eth_tx_order_push_def eto_pending_def ETH_TX_ORDER_LEN_def)
  show "eto_pending (eth_tx_order_push bd q) = eto_pending q @ [bd] \<and> eto_done (eth_tx_order_push bd q) = eto_done q"
    if room: "bd \<or> eto_pending q \<noteq> []" "length (eto_pending q) < 8"
  proof -
    define t where "t = (eto_head q + eto_len q) mod 8"
    have push: "eth_tx_order_push bd q = q\<lparr>eto_entry := (eto_entry q)[t := bd], eto_len := eto_len q + 1\<rparr>"
      using room unfolding e len t_def by (auto simp: eth_tx_order_push_def ETH_TX_ORDER_LEN_def)
    have old: "(eto_entry q)[t := bd] ! ((eto_head q + i) mod 8) = eto_entry q ! ((eto_head q + i) mod 8)"
      if "i < eto_len q" for i
      using ne [OF that] room(2) by (simp add: len t_def nth_list_update_neq [OF not_sym])
    have new: "(eto_entry q)[t := bd] ! t = bd"
      using assms by (simp add: t_def eto_ok_def)
    show ?thesis using old new by (simp add: push eto_pending_def t_def [symmetric])
  qed
  show "eto_ok (eth_tx_order_push bd q)"
    using assms ne [of 0]
    by (auto simp: eth_tx_order_push_def ETH_TX_ORDER_LEN_def eto_ok_def eto_at_head_def nth_list_update)
qed

lemma retire_bd_pending:
  assumes "eto_ok q"
  shows "eto_ok (eth_tx_order_retire_bd q)"
    "eto_pending q = [] \<Longrightarrow> eth_tx_order_retire_bd q = q"
    "eto_pending q = b # bs \<Longrightarrow> b \<and> eto_pending (eth_tx_order_retire_bd q) = dropWhile Not bs \<and>
      eto_done (eth_tx_order_retire_bd q) = eto_done q + 1 + of_nat (length (takeWhile Not bs))"
proof -
  have pop: "length (eto_entry (eto_pop q)) = 8" "eto_head (eto_pop q) < 8" "eto_len (eto_pop q) \<le> 8"
    using assms by (auto simp: eto_ok_def eto_pop_def ETH_TX_ORDER_LEN_def)
  show "eto_ok (eth_tx_order_retire_bd q)"
    using retire_refused_spec [OF pop] assms by (simp add: eth_tx_order_retire_bd_def)
  show "eto_pending q = [] \<Longrightarrow> eth_tx_order_retire_bd q = q"
    by (simp add: eth_tx_order_retire_bd_def eto_pending_def)
  show "b \<and> eto_pending (eth_tx_order_retire_bd q) = dropWhile Not bs \<and>
      eto_done (eth_tx_order_retire_bd q) = eto_done q + 1 + of_nat (length (takeWhile Not bs))"
    if "eto_pending q = b # bs"
  proof -
    have "eto_len q > 0" using that by (cases "eto_len q") (auto simp: eto_pending_def)
    moreover have "eto_at_head q" using calculation assms by (simp add: eto_ok_def)
    moreover have "b = eto_at_head q" "bs = eto_pending (eto_pop q)"
      using eto_pending_pop [OF calculation(1)] that assms by (auto simp: eto_ok_def eto_at_head_def)
    ultimately show ?thesis using retire_refused_spec [OF pop]
      by (simp add: eth_tx_order_retire_bd_def) (simp add: eto_pop_def)
  qed
qed

section \<open>What the host may rely on\<close>

datatype eth_event = Submit bool | GemDone

fun eth_step :: "eth_event \<Rightarrow> eth_tx_order \<Rightarrow> eth_tx_order" where
  "eth_step (Submit bd) q = eth_tx_order_push bd q"
| "eth_step GemDone q = eth_tx_order_retire_bd q"

definition eth_run :: "eth_event list \<Rightarrow> eth_tx_order \<Rightarrow> eth_tx_order" where
  "eth_run es q = foldl (\<lambda>q e. eth_step e q) q es"

definition eth_boot :: eth_tx_order where
  "eth_boot = \<lparr>eto_done = 0, eto_head = 0, eto_len = 0, eto_entry = replicate 8 False\<rparr>"

text \<open>The submissions so far, and the BDs the GEM has finished.\<close>

definition submitted :: "eth_event list \<Rightarrow> bool list" where
  "submitted es = concat (map (\<lambda>e. case e of Submit b \<Rightarrow> [b] | GemDone \<Rightarrow> []) es)"

definition finished :: "eth_event list \<Rightarrow> nat" where
  "finished es = length (filter (\<lambda>e. e = GemDone) es)"

text \<open>
  How many submissions are retired in order when the GEM has finished \<open>k\<close> BDs: the
  longest prefix holding at most \<open>k\<close> of them.
\<close>

fun retired :: "bool list \<Rightarrow> nat \<Rightarrow> nat" where
  "retired [] k = 0"
| "retired (False # s) k = Suc (retired s k)"
| "retired (True # s) 0 = 0"
| "retired (True # s) (Suc k) = Suc (retired s k)"

definition eth_obeys :: "eth_event list \<Rightarrow> bool" where
  "eth_obeys es \<longleftrightarrow> (\<forall>n \<le> length es. let e = take n es in
     finished e \<le> count_list (submitted e) True \<and>
     length (submitted e) \<le> retired (submitted e) (finished e) + 8)"

lemma retired_split:
  "p = [] \<or> hd p \<Longrightarrow> retired (s @ p) (count_list s True) = length s"
proof (induction s)
  case Nil
  then show ?case by (cases p) auto
next
  case (Cons b s)
  then show ?case by (cases b) auto
qed

lemma finished_snoc [simp]:
  "finished (es @ [Submit b]) = finished es" "finished (es @ [GemDone]) = Suc (finished es)"
  "finished [] = 0"
  by (simp_all add: finished_def)

lemma submitted_snoc [simp]:
  "submitted (es @ [Submit b]) = submitted es @ [b]" "submitted (es @ [GemDone]) = submitted es"
  "submitted [] = []"
  by (simp_all add: submitted_def)

lemma eth_run_snoc [simp]: "eth_run (es @ [e]) q = eth_step e (eth_run es q)" "eth_run [] q = q"
  by (simp_all add: eth_run_def)

lemma eth_obeys_snoc:
  assumes "eth_obeys (es @ [e])"
  shows "eth_obeys es" "finished (es @ [e]) \<le> count_list (submitted (es @ [e])) True"
    "length (submitted (es @ [e])) \<le> retired (submitted (es @ [e])) (finished (es @ [e])) + 8"
proof -
  have *: "finished (take n (es @ [e])) \<le> count_list (submitted (take n (es @ [e]))) True \<and>
     length (submitted (take n (es @ [e]))) \<le>
       retired (submitted (take n (es @ [e]))) (finished (take n (es @ [e]))) + 8"
    if "n \<le> Suc (length es)" for n
    using assms that unfolding eth_obeys_def Let_def by simp
  show "eth_obeys es"
    unfolding eth_obeys_def Let_def using * by (simp add: take_append) (metis append_Nil2 diff_is_0_eq le_Suc_eq take_0)
  show "finished (es @ [e]) \<le> count_list (submitted (es @ [e])) True"
    "length (submitted (es @ [e])) \<le> retired (submitted (es @ [e])) (finished (es @ [e])) + 8"
    using * [of "Suc (length es)"] by simp_all
qed

text \<open>
  The simulation: the submissions are a retired prefix \<open>r\<close> and the queue's contents,
  the prefix holds exactly the finished BDs, and the count is its length.
\<close>

definition eth_sim :: "eth_event list \<Rightarrow> bool list \<Rightarrow> eth_tx_order \<Rightarrow> bool" where
  "eth_sim es r q \<longleftrightarrow> eto_ok q \<and> submitted es = r @ eto_pending q \<and>
     count_list r True = finished es \<and> eto_done q = of_nat (length r) \<and>
     (eto_pending q = [] \<or> hd (eto_pending q))"

lemma eto_ok_hd: "eto_ok q \<Longrightarrow> eto_pending q = [] \<or> hd (eto_pending q)"
  by (cases "eto_len q = 0") (auto simp: eto_ok_def eto_head_pending eto_pending_def)

lemma eth_sim_retired: "eth_sim es r q \<Longrightarrow> retired (submitted es) (finished es) = length r"
  unfolding eth_sim_def using retired_split by metis

lemma count_takeWhile_Not [simp]: "count_list (takeWhile Not bs) True = 0"
  by (induction bs) auto

lemma eth_sim_step:
  assumes "eth_sim es r q" "eth_obeys (es @ [e])"
  shows "\<exists>r'. eth_sim (es @ [e]) r' (eth_step e q)"
proof -
  from assms(1) have ok: "eto_ok q" and sub: "submitted es = r @ eto_pending q"
    and cnt: "count_list r True = finished es" and dn: "eto_done q = of_nat (length r)"
    and hd: "eto_pending q = [] \<or> hd (eto_pending q)"
    by (auto simp: eth_sim_def)
  note ob = eth_obeys_snoc [OF assms(2)]
  show ?thesis
  proof (cases e)
    case (Submit b)
    show ?thesis
    proof (cases "\<not> b \<and> eto_pending q = []")
      case True
      then have "eth_sim (es @ [e]) (r @ [False]) (eth_step e q)"
        using push_pending(1) [OF ok, of b] push_pending(2) [OF ok, of b] sub cnt dn
        by (simp add: eth_sim_def Submit)
      then show ?thesis by blast
    next
      case False
      have "retired (submitted (es @ [e])) (finished (es @ [e])) = length r"
        using retired_split [of "eto_pending q @ [b]" r] False hd cnt sub
        by (cases "eto_pending q") (auto simp: Submit)
      with ob(3) have room: "length (eto_pending q) < 8" by (simp add: Submit sub)
      have "eth_sim (es @ [e]) r (eth_step e q)"
        using push_pending(1) [OF ok, of b] push_pending(3) [OF ok _ room, of b] False sub cnt dn hd
        by (cases "eto_pending q") (auto simp: eth_sim_def Submit)
      then show ?thesis by blast
    qed
  next
    case GemDone
    show ?thesis
    proof (cases "eto_pending q")
      case Nil
      with ob(2) sub cnt show ?thesis by (simp add: GemDone)
    next
      case (Cons b bs)
      note rb = retire_bd_pending(3) [OF ok Cons]
      have "eth_sim (es @ [e]) (r @ b # takeWhile Not bs) (eth_step e q)"
        using rb retire_bd_pending(1) [OF ok] sub cnt dn Cons eto_ok_hd [OF retire_bd_pending(1) [OF ok]]
        by (simp add: eth_sim_def GemDone)
      then show ?thesis by blast
    qed
  qed
qed

lemma eth_run_sim: "eth_obeys es \<Longrightarrow> \<exists>r. eth_sim es r (eth_run es eth_boot)"
proof (induction es rule: rev_induct)
  case Nil
  have "eth_sim [] [] eth_boot"
    by (simp add: eth_sim_def eth_boot_def eto_ok_def eto_pending_def)
  then show ?case by auto
next
  case (snoc e es)
  from snoc.IH [OF eth_obeys_snoc(1) [OF snoc.prems]] obtain r where "eth_sim es r (eth_run es eth_boot)" ..
  from eth_sim_step [OF this snoc.prems] show ?case by simp
qed

text \<open>
  C11: for every history of sends and GEM completions in which the host keeps at most
  eight submissions outstanding, the count the host reads is the number of submissions
  retired in order (modulo 2^16): every BD among them has been finished by the GEM, a
  refusal is counted as soon as everything ahead of it is, and what remains queued is
  exactly the rest, oldest first, with a BD at its head.
\<close>

theorem eth_tx_count_in_order:
  assumes "eth_obeys es"
  shows "let s = submitted es; n = retired s (finished es); q = eth_run es eth_boot in
    eto_done q = of_nat n \<and> eto_pending q = drop n s \<and>
    count_list (take n s) True = finished es \<and> (n < length s \<longrightarrow> s ! n)"
proof -
  obtain r where sim: "eth_sim es r (eth_run es eth_boot)" using eth_run_sim [OF assms] ..
  define p where "p = eto_pending (eth_run es eth_boot)"
  have "submitted es = r @ p" "count_list r True = finished es" "p = [] \<or> hd p"
    "eto_done (eth_run es eth_boot) = of_nat (length r)"
    using sim by (auto simp: eth_sim_def p_def)
  then show ?thesis
    using eth_sim_retired [OF sim] by (cases p) (auto simp: Let_def p_def [symmetric] nth_append)
qed

theorem eth_tx_count_in_order_witness:
  "eto_done (eth_run [Submit True, Submit False, Submit True, GemDone] eth_boot) = 2"
proof -
  have "eth_obeys [Submit True, Submit False, Submit True, GemDone]"
    by (auto simp: eth_obeys_def le_Suc_eq numeral_eq_Suc submitted_def finished_def)
  from eth_tx_count_in_order [OF this] show ?thesis
    by (simp add: Let_def submitted_def finished_def numeral_eq_Suc)
qed

section \<open>Flush and stall\<close>

text \<open>
  The stall watch fires exactly when submissions are outstanding and the count has
  not moved for \<open>limit\<close> ticks since the watch last saw it move, and the flush the caller
  then runs counts every outstanding submission, so the host is never left waiting; both
  counters are read modulo their widths.
\<close>

lemma eth_tx_stall_flush:
  assumes "eto_ok q" "etw_armed w" "etw_done w = eto_done q"
  shows "fst (eth_tx_order_stalled q now limit w) = (eto_pending q \<noteq> [] \<and> limit \<le> now - etw_since w) \<and>
    eto_ok (eth_tx_order_flush q) \<and> eto_pending (eth_tx_order_flush q) = [] \<and>
    eto_done (eth_tx_order_flush q) = eto_done q + of_nat (length (eto_pending q))"
  using assms by (auto simp: eth_tx_order_stalled_def eth_tx_order_flush_def eto_ok_def eto_pending_def)

end
