(* ===== verification/ModuleFormat.thy ===== *)
theory ModuleFormat
  imports Prelude
begin

text \<open>
  The on-card format of firmware modules: the packed headers of \<^verbatim>\<open>zzm_format.h\<close> read
  from their bytes, the slot manifest of \<^verbatim>\<open>zzm_manifest.c\<close>, the services the firmware
  provides (\<^verbatim>\<open>zzm_runtime.c\<close>, \<^verbatim>\<open>zzm_minigl_host.c\<close>), and the two header checks of
  \<^verbatim>\<open>zzm_loader.c\<close>. Strings are byte lists; C compares them up to the first zero.
\<close>

section \<open>Constants\<close>

definition ZZM_HEADER_SIZE :: u32 where "ZZM_HEADER_SIZE = 256"
definition ZZM_V3_HEADER_SIZE :: u32 where "ZZM_V3_HEADER_SIZE = 512"

definition ZZM_MAGIC :: "u8 list" where "ZZM_MAGIC = ascii ''ZZM2''"
definition ZZM_V3_MAGIC :: "u8 list" where "ZZM_V3_MAGIC = ascii ''ZZM3''"

text \<open>The known bits of \<^verbatim>\<open>image_flags\<close> and \<^verbatim>\<open>owner_class_mask\<close>.\<close>

definition ZZM_IMAGE_NEEDS_RASTERIX_EF :: u32 where "ZZM_IMAGE_NEEDS_RASTERIX_EF = 8"
definition known_image_flags :: u32 where "known_image_flags = 1 OR 2 OR 4 OR 8 OR 16"
definition known_owner_classes :: u32 where "known_owner_classes = 1 OR 2 OR 4 OR 8"

datatype zzm_state = ZS_LOADED | ZS_MISSING | ZS_REJECTED_ABI | ZS_REJECTED_HASH | ZS_REJECTED_SLOT |
  ZS_REJECTED_SERVICE | ZS_FAULTED | ZS_AVAILABLE | ZS_LOADING | ZS_LOAD_FAILED | ZS_REJECTED_CAPABILITY

section \<open>Headers\<close>

record zzm_req =
  rq_id :: u32
  rq_version :: u32

record zzm_header =
  zh_magic :: "u8 list"
  zh_header_size :: u16
  zh_format_version :: u16
  zh_module_id :: u32
  zh_module_version :: u32
  zh_abi_version :: u32
  zh_load_address :: u32
  zh_image_size :: u32
  zh_bss_size :: u32
  zh_init_entry :: u32
  zh_fini_entry :: u32
  zh_name :: "u8 list"
  zh_load_policy :: u32
  zh_idle_unload_ms :: u32
  zh_memory_class :: u32
  zh_memory_quota :: u32
  zh_required_count :: u16
  zh_provided_count :: u16
  zh_required :: "zzm_req list"
  zh_provided :: "zzm_req list"
  zh_sha256 :: "u8 list"
  zh_reserved :: "u8 list"

record zzm_v3_required_caps =
  rc_wire_version :: u32
  rc_transport_major :: u32
  rc_csr_major :: u32
  rc_csr_minor :: u32
  rc_window_major :: u32

record zzm_v3_header =
  z3_magic :: "u8 list"
  z3_header_size :: u16
  z3_format_version :: u16
  z3_module_id :: u32
  z3_module_version :: u32
  z3_abi_major :: u16
  z3_abi_minor :: u16
  z3_load_address :: u32
  z3_image_size :: u32
  z3_bss_size :: u32
  z3_init_entry :: u32
  z3_fini_entry :: u32
  z3_name :: "u8 list"
  z3_load_policy :: u32
  z3_idle_unload_ms :: u32
  z3_resident_quota :: u32
  z3_per_context_quota :: u32
  z3_owner_class_mask :: u32
  z3_image_flags :: u32
  z3_hardware_requirement :: u32
  z3_worker_ops_version :: u32
  z3_caps :: zzm_v3_required_caps
  z3_required_count :: u16
  z3_provided_count :: u16
  z3_required :: "zzm_req list"
  z3_provided :: "zzm_req list"
  z3_sha256 :: "u8 list"
  z3_reserved :: "u8 list"

record zzm_v3_capabilities =
  cap_image_flags :: u32
  cap_wire_version :: u32
  cap_transport_major :: u32
  cap_csr_major :: u32
  cap_csr_minor :: u32
  cap_window_major :: u32

text \<open>
  The structs are packed and the card is little endian: a header read into memory is
  the value of its bytes at these offsets.
\<close>

definition le16 :: "u8 list \<Rightarrow> nat \<Rightarrow> u16" where
  "le16 bs p = ucast (bs ! p) OR push_bit 8 (ucast (bs ! (p + 1)))"

definition le32 :: "u8 list \<Rightarrow> nat \<Rightarrow> u32" where
  "le32 bs p = ucast (bs ! p) OR push_bit 8 (ucast (bs ! (p + 1))) OR
     push_bit 16 (ucast (bs ! (p + 2))) OR push_bit 24 (ucast (bs ! (p + 3)))"

definition field :: "u8 list \<Rightarrow> nat \<Rightarrow> nat \<Rightarrow> u8 list" where
  "field bs p n = take n (drop p bs)"

definition reqs_at :: "u8 list \<Rightarrow> nat \<Rightarrow> nat \<Rightarrow> zzm_req list" where
  "reqs_at bs p n = map (\<lambda>k. \<lparr>rq_id = le32 bs (p + 8 * k), rq_version = le32 bs (p + 8 * k + 4)\<rparr>) [0..<n]"

definition header_of_bytes :: "u8 list \<Rightarrow> zzm_header" where
  "header_of_bytes bs = \<lparr>zh_magic = field bs 0 4, zh_header_size = le16 bs 4, zh_format_version = le16 bs 6,
     zh_module_id = le32 bs 8, zh_module_version = le32 bs 12, zh_abi_version = le32 bs 16,
     zh_load_address = le32 bs 20, zh_image_size = le32 bs 24, zh_bss_size = le32 bs 28,
     zh_init_entry = le32 bs 32, zh_fini_entry = le32 bs 36, zh_name = field bs 40 16,
     zh_load_policy = le32 bs 56, zh_idle_unload_ms = le32 bs 60, zh_memory_class = le32 bs 64,
     zh_memory_quota = le32 bs 68, zh_required_count = le16 bs 72, zh_provided_count = le16 bs 74,
     zh_required = reqs_at bs 76 4, zh_provided = reqs_at bs 108 4, zh_sha256 = field bs 140 32,
     zh_reserved = field bs 172 84\<rparr>"

definition v3_header_of_bytes :: "u8 list \<Rightarrow> zzm_v3_header" where
  "v3_header_of_bytes bs = \<lparr>z3_magic = field bs 0 4, z3_header_size = le16 bs 4, z3_format_version = le16 bs 6,
     z3_module_id = le32 bs 8, z3_module_version = le32 bs 12, z3_abi_major = le16 bs 16,
     z3_abi_minor = le16 bs 18, z3_load_address = le32 bs 20, z3_image_size = le32 bs 24,
     z3_bss_size = le32 bs 28, z3_init_entry = le32 bs 32, z3_fini_entry = le32 bs 36,
     z3_name = field bs 40 16, z3_load_policy = le32 bs 56, z3_idle_unload_ms = le32 bs 60,
     z3_resident_quota = le32 bs 64, z3_per_context_quota = le32 bs 68, z3_owner_class_mask = le32 bs 72,
     z3_image_flags = le32 bs 76, z3_hardware_requirement = le32 bs 80, z3_worker_ops_version = le32 bs 84,
     z3_caps = \<lparr>rc_wire_version = le32 bs 88, rc_transport_major = le32 bs 92, rc_csr_major = le32 bs 96,
       rc_csr_minor = le32 bs 100, rc_window_major = le32 bs 104\<rparr>,
     z3_required_count = le16 bs 108, z3_provided_count = le16 bs 110,
     z3_required = reqs_at bs 112 16, z3_provided = reqs_at bs 240 4, z3_sha256 = field bs 272 32,
     z3_reserved = field bs 304 208\<rparr>"

section \<open>The slot manifest\<close>

record zzm_slot =
  sl_id :: u32
  sl_name :: "u8 list"
  sl_address :: u32
  sl_size :: u32

definition mk_slot :: "u32 \<Rightarrow> string \<Rightarrow> u32 \<Rightarrow> u32 \<Rightarrow> zzm_slot" where
  "mk_slot i n a s = \<lparr>sl_id = i, sl_name = ascii n, sl_address = a, sl_size = s\<rparr>"

definition ZZM_MODULE_MINIGL :: u32 where "ZZM_MODULE_MINIGL = 4"
definition ZZM_ARENA_ADDRESS :: u32 where "ZZM_ARENA_ADDRESS = 0x09000000"
definition ZZM_ARENA_SIZE :: u32 where "ZZM_ARENA_SIZE = 0x02000000"

definition zzm_slots :: "zzm_slot list" where
  "zzm_slots =
    [mk_slot 1 ''MPEG2'' 0x09000000 0x00200000,
     mk_slot 2 ''WEBM'' 0x09200000 0x00400000,
     mk_slot 3 ''WEBP'' 0x09600000 0x00200000,
     mk_slot ZZM_MODULE_MINIGL ''MINIGL'' 0x09800000 0x00400000,
     mk_slot 5 ''H264'' 0x09c00000 0x00400000,
     mk_slot 6 ''H265'' 0x0a000000 0x00400000,
     mk_slot 7 ''MP4'' 0x0a400000 0x00100000,
     mk_slot 8 ''AAC'' 0x0a500000 0x00100000]"

definition zzm_slot_count :: nat where "zzm_slot_count = 8"

definition zzm_manifest_find :: "u32 \<Rightarrow> u8 list \<Rightarrow> zzm_slot option" where
  "zzm_manifest_find i name = List.find (\<lambda>s. sl_id s = i \<and> sl_name s = cstr name) zzm_slots"

section \<open>Firmware services\<close>

text \<open>
  Services 1 to 4 and 6 to 9 are the runtime's own and carry version 3.0; 10 and 11 are
  the MiniGL host's, which takes any version up to 3.0. The other identifiers reach the
  MiniGL host and are refused.
\<close>

definition SERVICE_V3 :: u32 where "SERVICE_V3 = push_bit 16 (3 AND 0xffff) OR (0 AND 0xffff)"

definition SERVICE_VERSION_COMPATIBLE :: "u32 \<Rightarrow> u32 \<Rightarrow> bool" where
  "SERVICE_VERSION_COMPATIBLE provided required \<longleftrightarrow>
     drop_bit 16 provided = drop_bit 16 required \<and> provided AND 0xffff \<ge> required AND 0xffff"

definition module_service_compatible :: "u32 \<Rightarrow> u32 \<Rightarrow> bool" where
  "module_service_compatible provided required \<longleftrightarrow>
     required = 1 \<or> SERVICE_VERSION_COMPATIBLE provided required"

definition minigl_host_has_service :: "u32 \<Rightarrow> u32 \<Rightarrow> bool" where
  "minigl_host_has_service i ver \<longleftrightarrow> (i = 11 \<and> ver \<le> SERVICE_V3) \<or> (i = 10 \<and> ver \<le> SERVICE_V3)"

definition runtime_service_present :: "u32 \<Rightarrow> u32 \<Rightarrow> bool" where
  "runtime_service_present i ver =
     (if i \<in> {1, 2, 3, 4, 6, 7, 8, 9} then module_service_compatible SERVICE_V3 ver
      else minigl_host_has_service i ver)"

section \<open>Header checks\<close>

definition reqs_bad :: "u16 \<Rightarrow> zzm_req list \<Rightarrow> bool" where
  "reqs_bad n rs = list_ex (\<lambda>r. rq_id r = 0 \<or> rq_version r = 0) (take (unat n) rs)"

text \<open>
  The slot test both formats share: the load address is the slot's, image and BSS fit,
  both entries lie in the image, and the file size cannot wrap. The sums are 32-bit.
\<close>

definition slot_bad :: "zzm_slot option \<Rightarrow> u32 \<Rightarrow> u32 \<Rightarrow> u32 \<Rightarrow> u32 \<Rightarrow> u32 \<Rightarrow> u32 \<Rightarrow> bool" where
  "slot_bad slot load img bss init fini hdr = (case slot of None \<Rightarrow> True | Some s \<Rightarrow>
     load \<noteq> sl_address s \<or> img > sl_size s \<or> bss > sl_size s - img \<or>
     init < sl_address s \<or> init \<ge> sl_address s + img \<or>
     (fini \<noteq> 0 \<and> (fini < sl_address s \<or> fini \<ge> sl_address s + img)) \<or>
     img > UINT32_MAX - hdr)"

definition verify_header_shape :: "zzm_header \<Rightarrow> u32 \<Rightarrow> zzm_state" where
  "verify_header_shape h file_size =
     (if file_size < ZZM_HEADER_SIZE \<or> zh_magic h \<noteq> ZZM_MAGIC \<or>
         ucast (zh_header_size h) \<noteq> ZZM_HEADER_SIZE \<or> zh_format_version h \<noteq> 2 then ZS_REJECTED_SLOT
      else if zh_abi_version h \<noteq> 2 then ZS_REJECTED_ABI
      else if 0 \<notin> set (zh_name h) \<or> zh_required_count h > 4 \<or> zh_provided_count h > 4 \<or>
         zh_load_policy h > 1 \<or> zh_memory_quota h = 0 \<or> zh_idle_unload_ms h = 0 \<or>
         zh_memory_class h < 1 \<or> zh_memory_class h > 4 then ZS_REJECTED_SLOT
      else if reqs_bad (zh_required_count h) (zh_required h) then ZS_REJECTED_SERVICE
      else if reqs_bad (zh_provided_count h) (zh_provided h) then ZS_REJECTED_SERVICE
      else if list_ex (\<lambda>b. b \<noteq> 0) (zh_reserved h) then ZS_REJECTED_SLOT
      else if slot_bad (zzm_manifest_find (zh_module_id h) (zh_name h)) (zh_load_address h)
         (zh_image_size h) (zh_bss_size h) (zh_init_entry h) (zh_fini_entry h) ZZM_HEADER_SIZE
        then ZS_REJECTED_SLOT
      else if file_size = ZZM_HEADER_SIZE + zh_image_size h then ZS_AVAILABLE else ZS_REJECTED_SLOT)"

definition verify_v3_header_shape :: "zzm_v3_header \<Rightarrow> u32 \<Rightarrow> zzm_v3_capabilities \<Rightarrow> zzm_state" where
  "verify_v3_header_shape h file_size caps =
     (if file_size < ZZM_V3_HEADER_SIZE \<or> z3_magic h \<noteq> ZZM_V3_MAGIC \<or>
         ucast (z3_header_size h) \<noteq> ZZM_V3_HEADER_SIZE \<or> z3_format_version h \<noteq> 3 then ZS_REJECTED_SLOT
      else if z3_abi_major h \<noteq> 3 \<or> z3_abi_minor h > 0 then ZS_REJECTED_ABI
      else if 0 \<notin> set (z3_name h) \<or> z3_required_count h > 16 \<or> z3_provided_count h > 4 \<or>
         z3_load_policy h > 1 \<or> z3_idle_unload_ms h = 0 \<or> z3_resident_quota h = 0 \<or>
         z3_per_context_quota h = 0 \<or> z3_owner_class_mask h = 0 \<or>
         z3_owner_class_mask h AND NOT known_owner_classes \<noteq> 0 \<or>
         z3_image_flags h AND NOT known_image_flags \<noteq> 0 \<or>
         z3_hardware_requirement h > 2 \<or> z3_worker_ops_version h = 0 then ZS_REJECTED_SLOT
      else if z3_hardware_requirement h = 2 \<or> z3_image_flags h AND NOT (cap_image_flags caps) \<noteq> 0 \<or>
         rc_wire_version (z3_caps h) \<noteq> cap_wire_version caps \<or>
         rc_transport_major (z3_caps h) \<noteq> cap_transport_major caps \<or>
         rc_window_major (z3_caps h) \<noteq> cap_window_major caps then ZS_REJECTED_CAPABILITY
      else if z3_image_flags h AND ZZM_IMAGE_NEEDS_RASTERIX_EF \<noteq> 0 \<and>
         (z3_hardware_requirement h = 0 \<or> rc_csr_major (z3_caps h) \<noteq> cap_csr_major caps \<or>
          rc_csr_minor (z3_caps h) > cap_csr_minor caps) then ZS_REJECTED_CAPABILITY
      else if reqs_bad (z3_required_count h) (z3_required h) then ZS_REJECTED_SERVICE
      else if reqs_bad (z3_provided_count h) (z3_provided h) then ZS_REJECTED_SERVICE
      else if list_ex (\<lambda>b. b \<noteq> 0) (z3_reserved h) then ZS_REJECTED_SLOT
      else if slot_bad (zzm_manifest_find (z3_module_id h) (z3_name h)) (z3_load_address h)
         (z3_image_size h) (z3_bss_size h) (z3_init_entry h) (z3_fini_entry h) ZZM_V3_HEADER_SIZE
        then ZS_REJECTED_SLOT
      else if file_size = ZZM_V3_HEADER_SIZE + z3_image_size h then ZS_AVAILABLE else ZS_REJECTED_SLOT)"

section \<open>What an accepted header says\<close>

lemma zzm_slots_nth:
  "zzm_slots ! 0 = mk_slot 1 ''MPEG2'' 0x09000000 0x00200000"
  "zzm_slots ! Suc 0 = mk_slot 2 ''WEBM'' 0x09200000 0x00400000"
  "zzm_slots ! 2 = mk_slot 3 ''WEBP'' 0x09600000 0x00200000"
  "zzm_slots ! 3 = mk_slot 4 ''MINIGL'' 0x09800000 0x00400000"
  "zzm_slots ! 4 = mk_slot 5 ''H264'' 0x09c00000 0x00400000"
  "zzm_slots ! 5 = mk_slot 6 ''H265'' 0x0a000000 0x00400000"
  "zzm_slots ! 6 = mk_slot 7 ''MP4'' 0x0a400000 0x00100000"
  "zzm_slots ! 7 = mk_slot 8 ''AAC'' 0x0a500000 0x00100000"
  by (simp_all add: zzm_slots_def ZZM_MODULE_MINIGL_def)

lemma less8_cases:
  "i < zzm_slot_count \<Longrightarrow> i = 0 \<or> i = Suc 0 \<or> i = 2 \<or> i = 3 \<or> i = 4 \<or> i = 5 \<or> i = 6 \<or> i = 7"
  unfolding zzm_slot_count_def by arith

lemma length_zzm_slots: "length zzm_slots = zzm_slot_count"
  by (simp add: zzm_slots_def zzm_slot_count_def)

text \<open>Each slot ends where the next begins, inside the arena.\<close>

lemma zzm_slot_id: "i < zzm_slot_count \<Longrightarrow> sl_id (zzm_slots ! i) = of_nat (Suc i)"
  by (drule less8_cases) (auto simp: zzm_slots_nth mk_slot_def)

lemma zzm_slot_step:
  "Suc i < zzm_slot_count \<Longrightarrow>
    unat (sl_address (zzm_slots ! i)) + unat (sl_size (zzm_slots ! i)) = unat (sl_address (zzm_slots ! Suc i))"
  by (subgoal_tac "i \<in> {0, Suc 0, 2, 3, 4, 5, 6}")
    (auto simp: zzm_slots_nth mk_slot_def zzm_slot_count_def ZZM_MODULE_MINIGL_def zzm_slots_def)

lemma zzm_slot_arena:
  assumes "i < zzm_slot_count"
  shows "0x09000000 \<le> unat (sl_address (zzm_slots ! i))"
    "unat (sl_address (zzm_slots ! i)) + unat (sl_size (zzm_slots ! i)) \<le> 0x09000000 + 0x02000000"
  using less8_cases [OF assms] by (auto simp: zzm_slots_nth mk_slot_def)

lemma zzm_slots_ordered:
  assumes "i < j" "j < zzm_slot_count"
  shows "unat (sl_address (zzm_slots ! i)) + unat (sl_size (zzm_slots ! i)) \<le> unat (sl_address (zzm_slots ! j))"
  using assms
proof (induction j)
  case (Suc j)
  show ?case
  proof (cases "i = j")
    case True
    then show ?thesis using zzm_slot_step Suc.prems(2) by simp
  next
    case False
    then show ?thesis using Suc zzm_slot_step [of j] by simp
  qed
qed simp

lemma zzm_slot_id_inj:
  "i < zzm_slot_count \<Longrightarrow> j < zzm_slot_count \<Longrightarrow> sl_id (zzm_slots ! i) = sl_id (zzm_slots ! j) \<Longrightarrow> i = j"
  by (drule less8_cases, drule less8_cases, elim disjE) (simp_all add: zzm_slots_nth mk_slot_def)

lemma zzm_manifest_find_Some:
  assumes "zzm_manifest_find m n = Some s"
  obtains i where "i < zzm_slot_count" "s = zzm_slots ! i" "sl_id s = m" "sl_name s = cstr n"
  using assms unfolding zzm_manifest_find_def find_Some_iff length_zzm_slots by blast

lemma zzm_manifest_find_slot:
  assumes "i < zzm_slot_count" "zzm_manifest_find (sl_id (zzm_slots ! i)) n = Some s"
  shows "s = zzm_slots ! i"
  using zzm_manifest_find_Some [OF assms(2)] zzm_slot_id_inj assms(1) by metis

text \<open>
  The image and its BSS lie in slot \<open>i\<close>, the entries in the image, and no address sum wraps.
\<close>

definition image_fits :: "nat \<Rightarrow> u32 \<Rightarrow> u32 \<Rightarrow> u32 \<Rightarrow> u32 \<Rightarrow> u32 \<Rightarrow> bool" where
  "image_fits i load img bss init fini \<longleftrightarrow>
     load = sl_address (zzm_slots ! i) \<and>
     unat img + unat bss \<le> unat (sl_size (zzm_slots ! i)) \<and>
     unat load \<le> unat init \<and> unat init < unat load + unat img \<and>
     (fini \<noteq> 0 \<longrightarrow> unat load \<le> unat fini \<and> unat fini < unat load + unat img)"

lemma slot_bad_fits:
  assumes "i < zzm_slot_count" "\<not> slot_bad (Some (zzm_slots ! i)) load img bss init fini hdr"
  shows "image_fits i load img bss init fini" "unat img + unat hdr < 4294967296"
proof -
  let ?s = "zzm_slots ! i"
  have b: "load = sl_address ?s" "img \<le> sl_size ?s" "bss \<le> sl_size ?s - img"
    "sl_address ?s \<le> init" "init < sl_address ?s + img"
    "fini \<noteq> 0 \<longrightarrow> sl_address ?s \<le> fini \<and> fini < sl_address ?s + img" "img \<le> UINT32_MAX - hdr"
    using assms(2) by (auto simp: slot_bad_def)
  have le: "unat img \<le> unat (sl_size ?s)" using b(2) by (simp add: word_le_nat_alt)
  have "unat (sl_address ?s + img) = unat (sl_address ?s) + unat img"
    using zzm_slot_arena(2) [OF assms(1)] le by (intro unat_plus_no_wrap) linarith
  moreover have "unat bss \<le> unat (sl_size ?s) - unat img"
    using b(3) le by (simp add: word_le_nat_alt unat_minus_no_wrap)
  ultimately show "image_fits i load img bss init fini"
    using b le by (auto simp: image_fits_def word_le_nat_alt word_less_nat_alt)
  show "unat img + unat hdr < 4294967296"
    using b(7) unat_le32 [of hdr] unfolding word_le_nat_alt unat_max_minus by linarith
qed

lemma slot_bad_None [simp]: "slot_bad None load img bss init fini hdr"
  by (simp add: slot_bad_def)

lemma shape_slot:
  assumes "\<not> slot_bad (zzm_manifest_find m n) load img bss init fini hdr"
  obtains i where "i < zzm_slot_count" "sl_id (zzm_slots ! i) = m" "sl_name (zzm_slots ! i) = cstr n"
    "image_fits i load img bss init fini" "unat img + unat hdr < 4294967296"
proof (cases "zzm_manifest_find m n")
  case None
  with assms show thesis by simp
next
  case (Some s)
  from zzm_manifest_find_Some [OF this] obtain i
    where i: "i < zzm_slot_count" "s = zzm_slots ! i" "sl_id s = m" "sl_name s = cstr n" .
  from assms Some i have "\<not> slot_bad (Some (zzm_slots ! i)) load img bss init fini hdr" by simp
  from slot_bad_fits [OF i(1) this] i that show thesis by blast
qed

lemma verify_header_shapeD:
  assumes "verify_header_shape h n = ZS_AVAILABLE"
  shows "\<not> slot_bad (zzm_manifest_find (zh_module_id h) (zh_name h)) (zh_load_address h)
      (zh_image_size h) (zh_bss_size h) (zh_init_entry h) (zh_fini_entry h) ZZM_HEADER_SIZE"
    "n = ZZM_HEADER_SIZE + zh_image_size h"
    "zh_magic h = ZZM_MAGIC" "zh_abi_version h = 2" "zh_idle_unload_ms h \<noteq> 0" "zh_provided_count h \<le> 4"
    "zh_required_count h \<le> 4" "\<not> reqs_bad (zh_provided_count h) (zh_provided h)"
  using assms unfolding verify_header_shape_def by (simp_all split: if_splits)

lemma verify_v3_header_shapeD:
  assumes "verify_v3_header_shape h n caps = ZS_AVAILABLE"
  shows "\<not> slot_bad (zzm_manifest_find (z3_module_id h) (z3_name h)) (z3_load_address h)
      (z3_image_size h) (z3_bss_size h) (z3_init_entry h) (z3_fini_entry h) ZZM_V3_HEADER_SIZE"
    "n = ZZM_V3_HEADER_SIZE + z3_image_size h"
    "z3_magic h = ZZM_V3_MAGIC" "z3_image_flags h AND NOT (cap_image_flags caps) = 0"
    "z3_hardware_requirement h \<noteq> 2"
  using assms unfolding verify_v3_header_shape_def by (simp_all split: if_splits)

text \<open>
  C12: a module header of either format that passes the boot check names a slot of the
  manifest and fits it. The load address is the slot's, image and BSS together stay in
  the slot, init (and fini when there is one) lie inside the image, and the file is
  exactly header and image; none of the 32-bit sums wrapped.
\<close>

theorem module_header_fits_slot:
  "(verify_header_shape h n = ZS_AVAILABLE \<longrightarrow> (\<exists>i < zzm_slot_count.
      sl_id (zzm_slots ! i) = zh_module_id h \<and> sl_name (zzm_slots ! i) = cstr (zh_name h) \<and>
      image_fits i (zh_load_address h) (zh_image_size h) (zh_bss_size h) (zh_init_entry h) (zh_fini_entry h) \<and>
      unat n = 256 + unat (zh_image_size h))) \<and>
   (verify_v3_header_shape g n caps = ZS_AVAILABLE \<longrightarrow> (\<exists>i < zzm_slot_count.
      sl_id (zzm_slots ! i) = z3_module_id g \<and> sl_name (zzm_slots ! i) = cstr (z3_name g) \<and>
      image_fits i (z3_load_address g) (z3_image_size g) (z3_bss_size g) (z3_init_entry g) (z3_fini_entry g) \<and>
      unat n = 512 + unat (z3_image_size g)))"
proof (intro conjI impI)
  assume v: "verify_header_shape h n = ZS_AVAILABLE"
  obtain i where i: "i < zzm_slot_count" "sl_id (zzm_slots ! i) = zh_module_id h"
    "sl_name (zzm_slots ! i) = cstr (zh_name h)"
    "image_fits i (zh_load_address h) (zh_image_size h) (zh_bss_size h) (zh_init_entry h) (zh_fini_entry h)"
    "unat (zh_image_size h) + unat ZZM_HEADER_SIZE < 4294967296"
    by (rule shape_slot [OF verify_header_shapeD(1) [OF v]])
  have "unat n = 256 + unat (zh_image_size h)"
    unfolding verify_header_shapeD(2) [OF v] using i(5) by (subst unat_plus_no_wrap) (simp_all add: ZZM_HEADER_SIZE_def)
  with i show "\<exists>i < zzm_slot_count. sl_id (zzm_slots ! i) = zh_module_id h \<and>
      sl_name (zzm_slots ! i) = cstr (zh_name h) \<and>
      image_fits i (zh_load_address h) (zh_image_size h) (zh_bss_size h) (zh_init_entry h) (zh_fini_entry h) \<and>
      unat n = 256 + unat (zh_image_size h)" by blast
next
  assume v: "verify_v3_header_shape g n caps = ZS_AVAILABLE"
  obtain i where i: "i < zzm_slot_count" "sl_id (zzm_slots ! i) = z3_module_id g"
    "sl_name (zzm_slots ! i) = cstr (z3_name g)"
    "image_fits i (z3_load_address g) (z3_image_size g) (z3_bss_size g) (z3_init_entry g) (z3_fini_entry g)"
    "unat (z3_image_size g) + unat ZZM_V3_HEADER_SIZE < 4294967296"
    by (rule shape_slot [OF verify_v3_header_shapeD(1) [OF v]])
  have "unat n = 512 + unat (z3_image_size g)"
    unfolding verify_v3_header_shapeD(2) [OF v] using i(5) by (subst unat_plus_no_wrap) (simp_all add: ZZM_V3_HEADER_SIZE_def)
  with i show "\<exists>i < zzm_slot_count. sl_id (zzm_slots ! i) = z3_module_id g \<and>
      sl_name (zzm_slots ! i) = cstr (z3_name g) \<and>
      image_fits i (z3_load_address g) (z3_image_size g) (z3_bss_size g) (z3_init_entry g) (z3_fini_entry g) \<and>
      unat n = 512 + unat (z3_image_size g)" by blast
qed

text \<open>A WebP module with a 16-byte image and 8 bytes of BSS, parsed from its bytes.\<close>

definition demo_bytes :: "u8 list" where
  "demo_bytes = ZZM_MAGIC @ [0, 1, 2, 0, 3, 0, 0, 0, 1, 0, 0, 0, 2, 0, 0, 0, 0, 0, 0x60, 9, 16, 0, 0, 0,
     8, 0, 0, 0, 0, 0, 0x60, 9, 0, 0, 0, 0] @ ascii ''WEBP'' @ replicate 12 0 @
     [0, 0, 0, 0, 48, 117, 0, 0, 3, 0, 0, 0, 0, 0, 16, 0, 1, 0, 1, 0, 1, 0, 0, 0, 1, 0, 0, 0] @ replicate 24 0 @
     [32, 0, 0, 0, 1, 0, 0, 0] @ replicate 24 0 @ replicate 32 7 @ replicate 84 0"

definition demo_header :: zzm_header where
  "demo_header = \<lparr>zh_magic = ZZM_MAGIC, zh_header_size = 256, zh_format_version = 2, zh_module_id = 3,
     zh_module_version = 1, zh_abi_version = 2, zh_load_address = 0x09600000, zh_image_size = 16,
     zh_bss_size = 8, zh_init_entry = 0x09600000, zh_fini_entry = 0, zh_name = ascii ''WEBP'' @ replicate 12 0,
     zh_load_policy = 0, zh_idle_unload_ms = 30000, zh_memory_class = 3, zh_memory_quota = 0x100000,
     zh_required_count = 1, zh_provided_count = 1,
     zh_required = [\<lparr>rq_id = 1, rq_version = 1\<rparr>, \<lparr>rq_id = 0, rq_version = 0\<rparr>, \<lparr>rq_id = 0, rq_version = 0\<rparr>,
       \<lparr>rq_id = 0, rq_version = 0\<rparr>],
     zh_provided = [\<lparr>rq_id = 32, rq_version = 1\<rparr>, \<lparr>rq_id = 0, rq_version = 0\<rparr>, \<lparr>rq_id = 0, rq_version = 0\<rparr>,
       \<lparr>rq_id = 0, rq_version = 0\<rparr>],
     zh_sha256 = replicate 32 7, zh_reserved = replicate 84 0\<rparr>"

lemma demo_header_parsed: "header_of_bytes demo_bytes = demo_header"
  by code_simp

lemma demo_header_available: "verify_header_shape demo_header 272 = ZS_AVAILABLE"
  by code_simp

theorem module_header_fits_slot_witness:
  "\<exists>i < zzm_slot_count. sl_id (zzm_slots ! i) = 3 \<and> image_fits i 0x09600000 16 8 0x09600000 0"
  using module_header_fits_slot [of "header_of_bytes demo_bytes" 272] demo_header_available
  unfolding demo_header_parsed by (auto simp: demo_header_def)

end
