(* ===== verification/ModuleLoader.thy ===== *)
theory ModuleLoader
  imports ModuleFormat
begin

text \<open>
  The module loader and its service registry (\<^verbatim>\<open>zzm_loader.c\<close>, \<^verbatim>\<open>zzm_registry.c\<close>).
  The static arrays indexed by slot are one function from the slot index to a record.
  Memory is a byte map that the loader's stores change and that module code changes: a
  module's stores in its own slot (its data and BSS) are part of the environment, as are
  the registrations its init makes. That a module stores nowhere in another module's slot is
  an assumption of the model, for nothing in the hardware enforces it.
  The card's file system (FatFs), the digest and the quota and idle tests are parameters
  too. A load may be cut short, by an exception of core 1 or by its restart, after the
  image is read or when the module's init runs: what the frames on the stack would still
  have done is then not done. Each entry point runs under \<^verbatim>\<open>session_begin_lock\<close> and is one function here;
  console output is dropped, and so are the calls that change only the card pool or the
  MiniGL host (\<^verbatim>\<open>zzm_runtime_release_module\<close>, \<^verbatim>\<open>zzm_minigl_*\<close>).
\<close>

section \<open>State\<close>

definition ZZM_REASON_NONE :: u32 where "ZZM_REASON_NONE = 0"
definition ZZM_REASON_FILE_OPEN :: u32 where "ZZM_REASON_FILE_OPEN = 1"
definition ZZM_REASON_FILE_READ :: u32 where "ZZM_REASON_FILE_READ = 2"
definition ZZM_REASON_IMAGE_INVALID :: u32 where "ZZM_REASON_IMAGE_INVALID = 3"
definition ZZM_REASON_INIT :: u32 where "ZZM_REASON_INIT = 4"
definition ZZM_REASON_STORAGE_BUSY :: u32 where "ZZM_REASON_STORAGE_BUSY = 5"
definition ZZM_REASON_DEPENDENCY :: u32 where "ZZM_REASON_DEPENDENCY = 6"
definition ZZM_REASON_CYCLE :: u32 where "ZZM_REASON_CYCLE = 7"
definition ZZM_REASON_QUOTA :: u32 where "ZZM_REASON_QUOTA = 8"
definition ZZM_REASON_FAULT :: u32 where "ZZM_REASON_FAULT = 9"

record zzm_status =
  st_id :: u32
  st_version :: u32
  st_abi_version :: u32
  st_load_address :: u32
  st_image_size :: u32
  st_bss_size :: u32
  st_state :: zzm_state
  st_ref_count :: u32
  st_reason :: u32
  st_name :: "u8 list"

text \<open>
  One slot's entry of every \<^verbatim>\<open>module_*\<close> array. The last two fields are ghosts: the image
  as its init found it, and the offsets in the slot that the module's own code has stored
  to since.
\<close>

record zzm_module =
  zm_status :: zzm_status
  zm_header :: zzm_header
  zm_v3_header :: zzm_v3_header
  zm_format :: nat
  zm_header_valid :: bool
  zm_dependencies :: "nat list"
  zm_dependencies_held :: nat
  zm_idle_since :: u64
  zm_entered :: "u8 list"
  zm_written :: "nat set"

text \<open>
  The last three fields of the world are ghosts: whether core 1 may be interrupted at all in
  this run, whether it has been in the current call, and the modules whose load was cut.
\<close>

record zzm_provided_service =
  ps_module_id :: u32
  ps_id :: u32
  ps_version :: u32
  ps_interface :: u32
  ps_size :: u32

record zzm_world =
  zw_mods :: "nat \<Rightarrow> zzm_module"
  zw_last_poll :: u64
  zw_caps :: zzm_v3_capabilities
  zw_mem :: "u32 \<Rightarrow> u8"
  zw_ops :: "nat \<Rightarrow> u32"
  zw_ops_size :: "nat \<Rightarrow> u32"
  zw_services :: "zzm_provided_service list"
  zw_load_pending :: u32
  zw_load_deadline :: u64
  zw_interrupts :: bool
  zw_halted :: bool
  zw_cut :: "nat set"

text \<open>What a module's init registers, and the outside world during one call.\<close>

datatype reg_call = Register_ops u32 u32 u32 | Register_service u32 u32 u32 u32 u32

record zzm_file =
  zf_size :: u32
  zf_lseek :: "u32 \<Rightarrow> bool"
  zf_bytes :: "u32 \<Rightarrow> u8 list"
  zf_read_ok :: "u32 \<Rightarrow> u32 \<Rightarrow> bool"

datatype load_point = Image_read | In_init

record zzm_env =
  ze_idle :: "nat \<Rightarrow> bool"
  ze_open :: "u8 list \<Rightarrow> zzm_file option"
  ze_quota :: "u32 \<Rightarrow> u32 \<Rightarrow> bool"
  ze_sha256 :: "u8 list \<Rightarrow> u8 list"
  ze_init :: "u32 \<Rightarrow> reg_call list \<times> bool"
  ze_stores :: "u32 \<Rightarrow> nat \<Rightarrow> u8 option"
  ze_cut :: "nat \<Rightarrow> load_point \<Rightarrow> bool"
  ze_cpu1 :: bool
  ze_dispatch :: bool
  ze_time :: u64
  ze_enqueue :: bool
  ze_minigl_poll_active :: bool

text \<open>FatFs stores at most the number of bytes asked for.\<close>

definition f_read :: "zzm_file \<Rightarrow> u32 \<Rightarrow> u32 \<Rightarrow> u8 list \<times> bool" where
  "f_read f off n = (take (unat n) (zf_bytes f off), zf_read_ok f off n)"

definition zst :: "zzm_world \<Rightarrow> nat \<Rightarrow> zzm_state" where
  "zst s i = st_state (zm_status (zw_mods s i))"

definition upd_mod :: "nat \<Rightarrow> (zzm_module \<Rightarrow> zzm_module) \<Rightarrow> zzm_world \<Rightarrow> zzm_world" where
  "upd_mod i f s = s\<lparr>zw_mods := (zw_mods s)(i := f (zw_mods s i))\<rparr>"

definition set_state :: "nat \<Rightarrow> zzm_state \<Rightarrow> zzm_world \<Rightarrow> zzm_world" where
  "set_state i st = upd_mod i (\<lambda>m. m\<lparr>zm_status := (zm_status m)\<lparr>st_state := st\<rparr>\<rparr>)"

definition set_refs :: "nat \<Rightarrow> u32 \<Rightarrow> zzm_world \<Rightarrow> zzm_world" where
  "set_refs i n = upd_mod i (\<lambda>m. m\<lparr>zm_status := (zm_status m)\<lparr>st_ref_count := n\<rparr>\<rparr>)"

definition refs :: "zzm_world \<Rightarrow> nat \<Rightarrow> u32" where
  "refs s i = st_ref_count (zm_status (zw_mods s i))"

definition set_idle :: "nat \<Rightarrow> u64 \<Rightarrow> zzm_world \<Rightarrow> zzm_world" where
  "set_idle i t = upd_mod i (\<lambda>m. m\<lparr>zm_idle_since := t\<rparr>)"

definition set_held :: "nat \<Rightarrow> nat \<Rightarrow> zzm_world \<Rightarrow> zzm_world" where
  "set_held i n = upd_mod i (\<lambda>m. m\<lparr>zm_dependencies_held := n\<rparr>)"

definition module_index :: "u32 \<Rightarrow> nat option" where
  "module_index m = List.find (\<lambda>i. sl_id (zzm_slots ! i) = m) [0..<zzm_slot_count]"

text \<open>The status a state change leaves; the reference count survives.\<close>

definition slot_status :: "nat \<Rightarrow> zzm_state \<Rightarrow> u32 \<Rightarrow> u32 \<Rightarrow> zzm_status" where
  "slot_status i st reason rc = \<lparr>st_id = sl_id (zzm_slots ! i), st_version = 0, st_abi_version = 0,
     st_load_address = sl_address (zzm_slots ! i), st_image_size = 0, st_bss_size = 0, st_state = st,
     st_ref_count = rc, st_reason = reason, st_name = take 15 (sl_name (zzm_slots ! i))\<rparr>"

definition status_from_slot :: "nat \<Rightarrow> zzm_state \<Rightarrow> zzm_header option \<Rightarrow> u32 \<Rightarrow> zzm_world \<Rightarrow> zzm_world" where
  "status_from_slot i st h reason = upd_mod i (\<lambda>m. m\<lparr>zm_status :=
     (let b = slot_status i st reason (st_ref_count (zm_status m)) in
      case h of None \<Rightarrow> b | Some h \<Rightarrow> b\<lparr>st_version := zh_module_version h, st_abi_version := zh_abi_version h,
        st_image_size := zh_image_size h, st_bss_size := zh_bss_size h\<rparr>)\<rparr>)"

definition status_from_v3_slot :: "nat \<Rightarrow> zzm_state \<Rightarrow> zzm_v3_header option \<Rightarrow> u32 \<Rightarrow> zzm_world \<Rightarrow> zzm_world" where
  "status_from_v3_slot i st h reason = upd_mod i (\<lambda>m. m\<lparr>zm_status :=
     (let b = slot_status i st reason (st_ref_count (zm_status m)) in
      case h of None \<Rightarrow> b | Some h \<Rightarrow> b\<lparr>st_version := z3_module_version h,
        st_abi_version := push_bit 16 (ucast (z3_abi_major h)) OR ucast (z3_abi_minor h),
        st_image_size := z3_image_size h, st_bss_size := z3_bss_size h\<rparr>)\<rparr>)"

definition header_of :: "zzm_world \<Rightarrow> nat \<Rightarrow> zzm_header" where
  "header_of s i = zm_header (zw_mods s i)"

definition v3_header_of :: "zzm_world \<Rightarrow> nat \<Rightarrow> zzm_v3_header" where
  "v3_header_of s i = zm_v3_header (zw_mods s i)"

definition is_v3 :: "zzm_world \<Rightarrow> nat \<Rightarrow> bool" where
  "is_v3 s i \<longleftrightarrow> zm_format (zw_mods s i) = 3"

section \<open>Memory\<close>

text \<open>\<open>n\<close> bytes at \<open>a\<close>, where \<open>f\<close> gives the byte at each offset.\<close>

definition mem_fill :: "u32 \<Rightarrow> nat \<Rightarrow> (nat \<Rightarrow> u8) \<Rightarrow> (u32 \<Rightarrow> u8) \<Rightarrow> (u32 \<Rightarrow> u8)" where
  "mem_fill a n f mem = (\<lambda>x. if unat (x - a) < n then f (unat (x - a)) else mem x)"

definition mem_bytes :: "(u32 \<Rightarrow> u8) \<Rightarrow> u32 \<Rightarrow> nat \<Rightarrow> u8 list" where
  "mem_bytes mem a n = map (\<lambda>k. mem (a + of_nat k)) [0..<n]"

definition set_mem :: "u32 \<Rightarrow> nat \<Rightarrow> (nat \<Rightarrow> u8) \<Rightarrow> zzm_world \<Rightarrow> zzm_world" where
  "set_mem a n f s = s\<lparr>zw_mem := mem_fill a n f (zw_mem s)\<rparr>"

text \<open>The poison word 0xE7F000F0 in memory order; the bytes of a partial last word are 0xf0.\<close>

definition ZZM_POISON_WORD :: u32 where "ZZM_POISON_WORD = 0xE7F000F0"

definition poison_byte :: "nat \<Rightarrow> nat \<Rightarrow> u8" where
  "poison_byte n k = (if k < n div 4 * 4 then ucast (drop_bit (8 * (k mod 4)) ZZM_POISON_WORD) else 0xf0)"

definition poison :: "u32 \<Rightarrow> u32 \<Rightarrow> zzm_world \<Rightarrow> zzm_world" where
  "poison a bytes = set_mem a (unat bytes) (poison_byte (unat bytes))"

definition poison_slot :: "nat \<Rightarrow> zzm_world \<Rightarrow> zzm_world" where
  "poison_slot i s = (let h = header_of s i; bytes = zh_image_size h + zh_bss_size h in
     if \<not> zm_header_valid (zw_mods s i) \<or> bytes = 0 then s else poison (zh_load_address h) bytes s)"

definition poison_v3_slot :: "nat \<Rightarrow> zzm_world \<Rightarrow> zzm_world" where
  "poison_v3_slot i s = (let h = v3_header_of s i; bytes = z3_image_size h + z3_bss_size h in
     if \<not> zm_header_valid (zw_mods s i) \<or> bytes = 0 then s else poison (z3_load_address h) bytes s)"

section \<open>Module code\<close>

text \<open>Module code stores in its own slot: \<open>st\<close> gives the byte stored at an offset, if any.\<close>

definition module_stores :: "nat \<Rightarrow> (nat \<Rightarrow> u8 option) \<Rightarrow> zzm_world \<Rightarrow> zzm_world" where
  "module_stores i st s =
     (let base = sl_address (zzm_slots ! i);
          f = (\<lambda>k. case st k of Some b \<Rightarrow> b | None \<Rightarrow> zw_mem s (base + of_nat k))
      in upd_mod i (\<lambda>m. m\<lparr>zm_written := zm_written m \<union> {k. st k \<noteq> None}\<rparr>)
           (set_mem base (unat (sl_size (zzm_slots ! i))) f s))"

text \<open>The image at \<open>a\<close> is entered: from here on its code runs.\<close>

definition enter_module :: "nat \<Rightarrow> u32 \<Rightarrow> u32 \<Rightarrow> zzm_world \<Rightarrow> zzm_world" where
  "enter_module i a n s =
     upd_mod i (\<lambda>m. m\<lparr>zm_entered := mem_bytes (zw_mem s) a (unat n), zm_written := {}\<rparr>) s"

text \<open>Core 1 is interrupted in the load of module \<open>i\<close>; its frames are abandoned.\<close>

definition interrupt :: "zzm_env \<Rightarrow> nat \<Rightarrow> load_point \<Rightarrow> zzm_world \<Rightarrow> zzm_world" where
  "interrupt env i p s = (if zw_interrupts s \<and> ze_cut env i p then s\<lparr>zw_halted := True\<rparr> else s)"

definition abandon_load :: "nat \<Rightarrow> zzm_world \<Rightarrow> zzm_world" where
  "abandon_load i s = s\<lparr>zw_cut := insert i (zw_cut s)\<rparr>"

section \<open>Registry\<close>

definition ZZM_REGISTRY_MODULES :: nat where "ZZM_REGISTRY_MODULES = 8"
definition ZZM_REGISTRY_SERVICES :: nat where "ZZM_REGISTRY_SERVICES = 24"

text \<open>The registry finds a module by the identifier in its status.\<close>

definition registry_module_index :: "u32 \<Rightarrow> zzm_world \<Rightarrow> nat option" where
  "registry_module_index m s = List.find (\<lambda>i. st_id (zm_status (zw_mods s i)) = m) [0..<zzm_slot_count]"

definition lookup_service :: "u32 \<Rightarrow> u32 \<Rightarrow> zzm_world \<Rightarrow> u32" where
  "lookup_service i ver s = (case List.find (\<lambda>p. ps_interface p \<noteq> 0 \<and> ps_id p = i \<and> ps_version p \<ge> ver)
     (zw_services s) of Some p \<Rightarrow> ps_interface p | None \<Rightarrow> 0)"

definition zzm_loader_can_register :: "u32 \<Rightarrow> zzm_world \<Rightarrow> bool" where
  "zzm_loader_can_register m s = (case module_index m of None \<Rightarrow> False | Some i \<Rightarrow> zst s i = ZS_LOADING)"

definition declares :: "u32 \<Rightarrow> u32 \<Rightarrow> u16 \<Rightarrow> zzm_req list \<Rightarrow> bool" where
  "declares i ver n ps = list_ex (\<lambda>p. rq_id p = i \<and> rq_version p \<le> ver) (take (unat n) ps)"

definition zzm_loader_service_declared :: "u32 \<Rightarrow> u32 \<Rightarrow> u32 \<Rightarrow> zzm_world \<Rightarrow> bool" where
  "zzm_loader_service_declared m i ver s = (case module_index m of None \<Rightarrow> False | Some k \<Rightarrow>
     if \<not> zm_header_valid (zw_mods s k) then False
     else if is_v3 s k then declares i ver (z3_provided_count (v3_header_of s k)) (z3_provided (v3_header_of s k))
     else declares i ver (zh_provided_count (header_of s k)) (zh_provided (header_of s k)))"

definition zzm_loader_service_declared_count :: "u32 \<Rightarrow> zzm_world \<Rightarrow> nat" where
  "zzm_loader_service_declared_count m s = (case module_index m of None \<Rightarrow> 0 | Some k \<Rightarrow>
     if \<not> zm_header_valid (zw_mods s k) then 0
     else if is_v3 s k then unat (z3_provided_count (v3_header_of s k))
     else unat (zh_provided_count (header_of s k)))"

definition zzm_registry_register_ops :: "u32 \<Rightarrow> u32 \<Rightarrow> u32 \<Rightarrow> zzm_world \<Rightarrow> bool \<times> zzm_world" where
  "zzm_registry_register_ops m ops sz s = (case registry_module_index m s of None \<Rightarrow> (False, s) | Some i \<Rightarrow>
     if ops = 0 \<or> sz = 0 \<or> i \<ge> ZZM_REGISTRY_MODULES \<or> \<not> zzm_loader_can_register m s then (False, s)
     else (True, s\<lparr>zw_ops := (zw_ops s)(i := ops), zw_ops_size := (zw_ops_size s)(i := sz)\<rparr>))"

text \<open>The first free entry of the table takes the service.\<close>

fun fill_first_free :: "zzm_provided_service \<Rightarrow> zzm_provided_service list \<Rightarrow> zzm_provided_service list option" where
  "fill_first_free p [] = None"
| "fill_first_free p (q # qs) = (if ps_interface q = 0 then Some (p # qs)
     else map_option (Cons q) (fill_first_free p qs))"

definition zzm_registry_register_service ::
    "u32 \<Rightarrow> u32 \<Rightarrow> u32 \<Rightarrow> u32 \<Rightarrow> u32 \<Rightarrow> zzm_world \<Rightarrow> bool \<times> zzm_world" where
  "zzm_registry_register_service m i ver iface sz s =
     (if iface = 0 \<or> sz = 0 \<or> i = 0 \<or> ver = 0 \<or> \<not> zzm_loader_can_register m s \<or>
         \<not> zzm_loader_service_declared m i ver s then (False, s)
      else if list_ex (\<lambda>p. ps_interface p \<noteq> 0 \<and> ps_id p = i) (zw_services s) then (False, s)
      else case fill_first_free \<lparr>ps_module_id = m, ps_id = i, ps_version = ver, ps_interface = iface,
             ps_size = sz\<rparr> (zw_services s) of
          None \<Rightarrow> (False, s) | Some ps \<Rightarrow> (True, s\<lparr>zw_services := ps\<rparr>))"

definition no_service :: zzm_provided_service where
  "no_service = \<lparr>ps_module_id = 0, ps_id = 0, ps_version = 0, ps_interface = 0, ps_size = 0\<rparr>"

definition zzm_registry_unregister_module :: "u32 \<Rightarrow> zzm_world \<Rightarrow> zzm_world" where
  "zzm_registry_unregister_module m s =
     (let s1 = (case registry_module_index m s of None \<Rightarrow> s | Some i \<Rightarrow>
            if i < ZZM_REGISTRY_MODULES
            then s\<lparr>zw_ops := (zw_ops s)(i := 0), zw_ops_size := (zw_ops_size s)(i := 0)\<rparr> else s)
      in s1\<lparr>zw_services := map (\<lambda>p. if ps_module_id p = m then no_service else p) (zw_services s1)\<rparr>)"

definition zzm_registry_module_services_ready :: "u32 \<Rightarrow> zzm_world \<Rightarrow> bool" where
  "zzm_registry_module_services_ready m s \<longleftrightarrow>
     length (filter (\<lambda>p. ps_module_id p = m \<and> ps_interface p \<noteq> 0) (zw_services s)) =
     zzm_loader_service_declared_count m s"

text \<open>A module's init as the loader sees it: its stores, and its registrations in order.\<close>

fun run_reg_call :: "reg_call \<Rightarrow> zzm_world \<Rightarrow> zzm_world" where
  "run_reg_call (Register_ops m ops sz) s = snd (zzm_registry_register_ops m ops sz s)"
| "run_reg_call (Register_service m i ver iface sz) s =
     snd (zzm_registry_register_service m i ver iface sz s)"

definition run_init :: "zzm_env \<Rightarrow> nat \<Rightarrow> u32 \<Rightarrow> zzm_world \<Rightarrow> bool \<times> zzm_world" where
  "run_init env i entry s =
     (snd (ze_init env entry),
      interrupt env i In_init
        (module_stores i (ze_stores env entry) (fold run_reg_call (fst (ze_init env entry)) s)))"

definition unregister_module :: "nat \<Rightarrow> zzm_world \<Rightarrow> zzm_world" where
  "unregister_module i s = zzm_registry_unregister_module (st_id (zm_status (zw_mods s i))) s"

section \<open>Releasing\<close>

text \<open>
  A release can unload a module, which releases its dependencies in turn: the recursion is
  cut at a depth, and \<^verbatim>\<open>release_depth\<close> below shows the cut is never reached, because a
  module that unloads on release holds no dependency.
\<close>

definition release_dependencies_with ::
    "(u32 \<Rightarrow> zzm_world \<Rightarrow> zzm_world) \<Rightarrow> nat \<Rightarrow> zzm_world \<Rightarrow> zzm_world" where
  "release_dependencies_with rel i s = set_held i 0
     (fold (\<lambda>d. rel (sl_id (zzm_slots ! d)))
       (take (zm_dependencies_held (zw_mods s i)) (zm_dependencies (zw_mods s i))) s)"

definition unload_v3_with :: "(u32 \<Rightarrow> zzm_world \<Rightarrow> zzm_world) \<Rightarrow> zzm_env \<Rightarrow> nat \<Rightarrow> zzm_world \<Rightarrow> zzm_world" where
  "unload_v3_with rel env i s =
     (if st_id (zm_status (zw_mods s i)) = ZZM_MODULE_MINIGL \<and> ze_minigl_poll_active env then s
      else release_dependencies_with rel i (set_idle i 0
        (status_from_v3_slot i ZS_AVAILABLE (Some (v3_header_of s i)) ZZM_REASON_NONE
          (poison_v3_slot i (unregister_module i s)))))"

definition release_with :: "(u32 \<Rightarrow> zzm_world \<Rightarrow> zzm_world) \<Rightarrow> zzm_env \<Rightarrow> u32 \<Rightarrow> zzm_world \<Rightarrow> zzm_world" where
  "release_with rel env m s = (case module_index m of None \<Rightarrow> s | Some i \<Rightarrow>
     if zst s i = ZS_LOADED \<and> refs s i \<noteq> 0 then
       let s1 = set_refs i (refs s i - 1) s in
       if refs s1 i = 0 then
         let s2 = set_idle i (zw_last_poll s1) s1 in
         if is_v3 s2 i \<and> ze_cpu1 env then unload_v3_with rel env i s2 else s2
       else s1
     else s)"

primrec release_upto :: "nat \<Rightarrow> zzm_env \<Rightarrow> u32 \<Rightarrow> zzm_world \<Rightarrow> zzm_world" where
  "release_upto 0 env m s = s"
| "release_upto (Suc n) env m s = release_with (release_upto n env) env m s"

definition zzm_loader_release :: "zzm_env \<Rightarrow> u32 \<Rightarrow> zzm_world \<Rightarrow> zzm_world" where
  "zzm_loader_release env = release_upto 9 env"

definition release_dependencies :: "zzm_env \<Rightarrow> nat \<Rightarrow> zzm_world \<Rightarrow> zzm_world" where
  "release_dependencies env = release_dependencies_with (zzm_loader_release env)"

definition unload_v3_on_owner :: "zzm_env \<Rightarrow> nat \<Rightarrow> zzm_world \<Rightarrow> zzm_world" where
  "unload_v3_on_owner env = unload_v3_with (zzm_loader_release env) env"

text \<open>
  \<^verbatim>\<open>fini\<close> is module code: what it stores in its slot is a step of its own, before the call
  that unloads it.
\<close>

definition unregister_and_reclaim :: "nat \<Rightarrow> zzm_world \<Rightarrow> zzm_world" where
  "unregister_and_reclaim i s = poison_slot i (unregister_module i s)"

definition load_failed :: "zzm_env \<Rightarrow> nat \<Rightarrow> zzm_state \<Rightarrow> u32 \<Rightarrow> zzm_world \<Rightarrow> zzm_world" where
  "load_failed env i st reason s =
     (let s1 = set_refs i 0 (release_dependencies env i (unregister_and_reclaim i s))
      in status_from_slot i st (Some (header_of s1 i)) reason s1)"

definition load_v3_failed :: "nat \<Rightarrow> zzm_state \<Rightarrow> u32 \<Rightarrow> zzm_world \<Rightarrow> zzm_world" where
  "load_v3_failed i st reason s =
     (let s1 = set_refs i 0 (poison_v3_slot i (unregister_module i s))
      in status_from_v3_slot i st (Some (v3_header_of s1 i)) reason s1)"

text \<open>How the frame of an interrupted load of module \<open>i\<close> ends, and that of a failed one.\<close>

definition fail_load :: "zzm_env \<Rightarrow> nat \<Rightarrow> zzm_state \<Rightarrow> u32 \<Rightarrow> zzm_world \<Rightarrow> zzm_world" where
  "fail_load env i st reason s = (if zw_halted s then abandon_load i s else load_failed env i st reason s)"

definition fail_v3_load :: "nat \<Rightarrow> zzm_state \<Rightarrow> u32 \<Rightarrow> zzm_world \<Rightarrow> zzm_world" where
  "fail_v3_load i st reason s = (if zw_halted s then abandon_load i s else load_v3_failed i st reason s)"

section \<open>Loading\<close>

text \<open>
  A required service that the firmware does not provide is looked up in the registry,
  which may load the module that declares it.
\<close>

definition provides :: "u32 \<Rightarrow> u32 \<Rightarrow> u16 \<Rightarrow> zzm_req list \<Rightarrow> bool" where
  "provides i ver n ps = list_ex (\<lambda>p. rq_id p = i \<and> rq_version p \<ge> ver) (take (unat n) ps)"

definition ensure_service_with ::
    "(u32 \<Rightarrow> zzm_world \<Rightarrow> bool \<times> zzm_world) \<Rightarrow> u32 \<Rightarrow> u32 \<Rightarrow> zzm_world \<Rightarrow> bool \<times> zzm_world" where
  "ensure_service_with ensure svc ver s =
     (case List.find (\<lambda>i. zm_header_valid (zw_mods s i) \<and> zst s i \<in> {ZS_AVAILABLE, ZS_LOADED} \<and>
         (if is_v3 s i then provides svc ver (z3_provided_count (v3_header_of s i)) (z3_provided (v3_header_of s i))
          else provides svc ver (zh_provided_count (header_of s i)) (zh_provided (header_of s i))))
       [0..<zzm_slot_count] of
      None \<Rightarrow> (False, s) | Some i \<Rightarrow> ensure (st_id (zm_status (zw_mods s i))) s)"

definition get_service_with ::
    "(u32 \<Rightarrow> zzm_world \<Rightarrow> bool \<times> zzm_world) \<Rightarrow> u32 \<Rightarrow> u32 \<Rightarrow> zzm_world \<Rightarrow> u32 \<times> zzm_world" where
  "get_service_with ensure svc ver s =
     (if lookup_service svc ver s \<noteq> 0 then (lookup_service svc ver s, s)
      else case ensure_service_with ensure svc ver s of
        (True, s1) \<Rightarrow> (lookup_service svc ver s1, s1) | (False, s1) \<Rightarrow> (0, s1))"

fun check_services ::
    "(u32 \<Rightarrow> zzm_world \<Rightarrow> bool \<times> zzm_world) \<Rightarrow> zzm_req list \<Rightarrow> zzm_world \<Rightarrow> bool \<times> zzm_world" where
  "check_services ensure [] s = (True, s)"
| "check_services ensure (r # rs) s =
     (if runtime_service_present (rq_id r) (rq_version r) then check_services ensure rs s
      else case get_service_with ensure (rq_id r) (rq_version r) s of
        (p, s1) \<Rightarrow> if p = 0 then (False, s1) else check_services ensure rs s1)"

definition zzm_verify_image ::
    "zzm_env \<Rightarrow> (u32 \<Rightarrow> zzm_world \<Rightarrow> bool \<times> zzm_world) \<Rightarrow> zzm_header \<Rightarrow> u32 \<Rightarrow> zzm_world \<Rightarrow> zzm_state \<times> zzm_world" where
  "zzm_verify_image env ensure h file_size s =
     (let st = verify_header_shape h file_size in
      if st \<noteq> ZS_AVAILABLE then (st, s)
      else case check_services ensure (take (unat (zh_required_count h)) (zh_required h)) s of
        (False, s1) \<Rightarrow> (ZS_REJECTED_SERVICE, s1)
      | (True, s1) \<Rightarrow>
          (if ze_sha256 env (mem_bytes (zw_mem s1) (zh_load_address h) (unat (zh_image_size h))) = zh_sha256 h
           then ZS_LOADED else ZS_REJECTED_HASH, s1))"

definition zzm_verify_v3_image ::
    "zzm_env \<Rightarrow> (u32 \<Rightarrow> zzm_world \<Rightarrow> bool \<times> zzm_world) \<Rightarrow> zzm_v3_header \<Rightarrow> u32 \<Rightarrow> zzm_world \<Rightarrow> zzm_state \<times> zzm_world" where
  "zzm_verify_v3_image env ensure h file_size s =
     (let st = verify_v3_header_shape h file_size (zw_caps s) in
      if st \<noteq> ZS_AVAILABLE then (st, s)
      else case check_services ensure (take (unat (z3_required_count h)) (z3_required h)) s of
        (False, s1) \<Rightarrow> (ZS_REJECTED_SERVICE, s1)
      | (True, s1) \<Rightarrow>
          (if ze_sha256 env (mem_bytes (zw_mem s1) (z3_load_address h) (unat (z3_image_size h))) = z3_sha256 h
           then ZS_LOADED else ZS_REJECTED_HASH, s1))"

definition module_path :: "nat \<Rightarrow> u8 list" where
  "module_path i = ascii ''0:/ZZ9K/'' @ sl_name (zzm_slots ! i) @ ascii ''.ZZM''"

text \<open>What an attempt reads into the slot: nothing, or some bytes and the read's success.\<close>

definition read_payload :: "zzm_file \<Rightarrow> u32 \<Rightarrow> u32 \<Rightarrow> u8 list \<times> bool" where
  "read_payload f off n = (if zf_lseek f off
     then (let r = f_read f off n in (fst r, snd r \<and> length (fst r) = unat n)) else ([], False))"

definition load_v3_module ::
    "zzm_env \<Rightarrow> (u32 \<Rightarrow> zzm_world \<Rightarrow> bool \<times> zzm_world) \<Rightarrow> nat \<Rightarrow> zzm_world \<Rightarrow> bool \<times> zzm_world" where
  "load_v3_module env ensure i s =
     (let h = v3_header_of s i in
      if zst s i = ZS_LOADED then (True, s)
      else if zst s i \<noteq> ZS_AVAILABLE \<or> \<not> zm_header_valid (zw_mods s i) then (False, s)
      else if \<not> ze_idle env i then (False, status_from_v3_slot i ZS_LOAD_FAILED (Some h) ZZM_REASON_STORAGE_BUSY s)
      else let s1 = set_state i ZS_LOADING s in
      if \<not> ze_quota env 5 (z3_resident_quota h) then (False, load_v3_failed i ZS_LOAD_FAILED ZZM_REASON_QUOTA s1)
      else case ze_open env (module_path i) of
        None \<Rightarrow> (False, load_v3_failed i ZS_LOAD_FAILED ZZM_REASON_FILE_OPEN s1)
      | Some f \<Rightarrow> (case read_payload f ZZM_V3_HEADER_SIZE (z3_image_size h) of (bs, ok) \<Rightarrow>
          let s2 = interrupt env i Image_read (set_mem (z3_load_address h) (length bs) (\<lambda>k. bs ! k) s1) in
          if zw_halted s2 \<or> \<not> ok then (False, fail_v3_load i ZS_LOAD_FAILED ZZM_REASON_FILE_READ s2)
          else case zzm_verify_v3_image env ensure h (ZZM_V3_HEADER_SIZE + z3_image_size h) s2 of (st, s3) \<Rightarrow>
            if zw_halted s3 \<or> st \<noteq> ZS_LOADED then (False, fail_v3_load i ZS_LOAD_FAILED ZZM_REASON_IMAGE_INVALID s3)
            else case run_init env i (z3_init_entry h) (enter_module i (z3_load_address h) (z3_image_size h)
                (set_mem (z3_load_address h + z3_image_size h) (unat (z3_bss_size h)) (\<lambda>_. 0) s3)) of (ok, s4) \<Rightarrow>
              if zw_halted s4 \<or> \<not> ok \<or> \<not> zzm_registry_module_services_ready (st_id (zm_status (zw_mods s4 i))) s4
              then (False, fail_v3_load i ZS_LOAD_FAILED ZZM_REASON_INIT s4)
              else (True, let s5 = status_from_v3_slot i ZS_LOADED (Some h) ZZM_REASON_NONE s4
                          in set_idle i (zw_last_poll s5) s5)))"

text \<open>A version-2 module once its dependencies are loaded.\<close>

definition load_payload ::
    "zzm_env \<Rightarrow> (u32 \<Rightarrow> zzm_world \<Rightarrow> bool \<times> zzm_world) \<Rightarrow> nat \<Rightarrow> zzm_world \<Rightarrow> bool \<times> zzm_world" where
  "load_payload env ensure i s1 =
     (let h = header_of s1 i in
      if \<not> ze_quota env (zh_memory_class h) (zh_memory_quota h)
      then (False, load_failed env i ZS_LOAD_FAILED ZZM_REASON_QUOTA s1)
      else case ze_open env (module_path i) of
        None \<Rightarrow> (False, load_failed env i ZS_LOAD_FAILED ZZM_REASON_FILE_OPEN s1)
      | Some f \<Rightarrow> (case read_payload f ZZM_HEADER_SIZE (zh_image_size h) of (bs, ok) \<Rightarrow>
          let s2 = interrupt env i Image_read (set_mem (zh_load_address h) (length bs) (\<lambda>k. bs ! k) s1) in
          if zw_halted s2 \<or> \<not> ok then (False, fail_load env i ZS_LOAD_FAILED ZZM_REASON_FILE_READ s2)
          else case zzm_verify_image env ensure h (ZZM_HEADER_SIZE + zh_image_size h) s2 of (st, s3) \<Rightarrow>
            if zw_halted s3 \<or> st \<noteq> ZS_LOADED then (False, fail_load env i ZS_LOAD_FAILED ZZM_REASON_IMAGE_INVALID s3)
            else case run_init env i (zh_init_entry h) (enter_module i (zh_load_address h) (zh_image_size h)
                (set_mem (zh_load_address h + zh_image_size h) (unat (zh_bss_size h)) (\<lambda>_. 0) s3)) of (ok, s4) \<Rightarrow>
              if zw_halted s4 \<or> \<not> ok \<or> \<not> zzm_registry_module_services_ready (st_id (zm_status (zw_mods s4 i))) s4
              then (False, fail_load env i ZS_LOAD_FAILED ZZM_REASON_INIT s4)
              else (True, let s5 = status_from_slot i ZS_LOADED (Some h) ZZM_REASON_NONE s4
                          in set_idle i (zw_last_poll s5) s5)))"

type_synonym visiting = "nat \<Rightarrow> bool"

fun load_deps :: "(nat \<Rightarrow> visiting \<Rightarrow> zzm_world \<Rightarrow> bool \<times> visiting \<times> zzm_world) \<Rightarrow> nat \<Rightarrow> nat \<Rightarrow> nat list \<Rightarrow>
    visiting \<Rightarrow> zzm_world \<Rightarrow> nat option \<times> visiting \<times> zzm_world" where
  "load_deps ld i k [] v s = (None, v, s)"
| "load_deps ld i k (d # ds) v s = (case ld d v s of (ok, v1, s1) \<Rightarrow>
     if \<not> ok then (Some d, v1, s1)
     else load_deps ld i (Suc k) ds v1 (set_held i (Suc k) (set_refs d (refs s1 d + 1) s1)))"

definition zzm_loader_mark_load_failed :: "u32 \<Rightarrow> u32 \<Rightarrow> zzm_world \<Rightarrow> zzm_world" where
  "zzm_loader_mark_load_failed m reason s = (case module_index m of None \<Rightarrow> s | Some i \<Rightarrow>
     if zst s i = ZS_AVAILABLE then
       (if is_v3 s i then status_from_v3_slot i ZS_LOAD_FAILED (Some (v3_header_of s i)) reason s
        else status_from_slot i ZS_LOAD_FAILED (Some (header_of s i)) reason s)
     else s)"

text \<open>
  The dispatcher \<^verbatim>\<open>main\<close> installs once core 1 is up: core 1 loads directly; core 0 only
  reports a loaded module, and otherwise queues one load at a time with a deadline of
  three seconds. \<open>ze_time\<close> is the clock and \<open>ze_enqueue\<close> whether the task queue takes
  the task; the task itself is a later \<^verbatim>\<open>zzm_loader_load_on_owner\<close> on core 1.
\<close>

definition ZZM_LOAD_WAIT_TICKS :: u64 where "ZZM_LOAD_WAIT_TICKS = 3 * 333333343"

definition load_overdue :: "zzm_env \<Rightarrow> zzm_world \<Rightarrow> zzm_world" where
  "load_overdue env s = (if sint (ze_time env - zw_load_deadline s) \<ge> 0
     then zzm_loader_mark_load_failed (zw_load_pending s) ZZM_REASON_STORAGE_BUSY s else s)"

definition sdk_mailbox_load_module_core1 :: "zzm_env \<Rightarrow>
    (u32 \<Rightarrow> zzm_world \<Rightarrow> bool \<times> zzm_world) \<Rightarrow> u32 \<Rightarrow> zzm_world \<Rightarrow> bool \<times> zzm_world" where
  "sdk_mailbox_load_module_core1 env load m s =
     (if ze_cpu1 env then load m s
      else if (case module_index m of None \<Rightarrow> False | Some i \<Rightarrow> zst s i = ZS_LOADED) then (True, s)
      else if zw_load_pending s \<noteq> 0 then (False, load_overdue env s)
      else (False, s\<lparr>zw_load_pending := (if ze_enqueue env then m else 0),
          zw_load_deadline := ze_time env + ZZM_LOAD_WAIT_TICKS\<rparr>))"

text \<open>The main loop's poll, the retirement of the queued task, and the mailbox reset.\<close>

definition sdk_mailbox_poll_module_load :: "zzm_env \<Rightarrow> zzm_world \<Rightarrow> zzm_world" where
  "sdk_mailbox_poll_module_load env s = (if zw_load_pending s = 0 then s else load_overdue env s)"

definition ensure_loaded_with :: "zzm_env \<Rightarrow>
    (u32 \<Rightarrow> zzm_world \<Rightarrow> bool \<times> zzm_world) \<Rightarrow> u32 \<Rightarrow> zzm_world \<Rightarrow> bool \<times> zzm_world" where
  "ensure_loaded_with env load m s =
     (if ze_dispatch env then sdk_mailbox_load_module_core1 env load m s else load m s)"

definition load_on_owner_with ::
    "(nat \<Rightarrow> visiting \<Rightarrow> zzm_world \<Rightarrow> bool \<times> visiting \<times> zzm_world) \<Rightarrow> u32 \<Rightarrow> zzm_world \<Rightarrow> bool \<times> zzm_world" where
  "load_on_owner_with ld m s = (case module_index m of None \<Rightarrow> (False, s) | Some i \<Rightarrow>
     (case ld i (\<lambda>_. False) s of (ok, v, s1) \<Rightarrow> (ok, s1)))"

definition load_module_with :: "(nat \<Rightarrow> visiting \<Rightarrow> zzm_world \<Rightarrow> bool \<times> visiting \<times> zzm_world) \<Rightarrow>
    zzm_env \<Rightarrow> nat \<Rightarrow> visiting \<Rightarrow> zzm_world \<Rightarrow> bool \<times> visiting \<times> zzm_world" where
  "load_module_with ld env i v s =
     (let h = header_of s i; ensure = ensure_loaded_with env (load_on_owner_with ld) in
      if is_v3 s i then (case load_v3_module env ensure i s of (ok, s1) \<Rightarrow> (ok, v, s1))
      else if zst s i = ZS_LOADED then (True, v, s)
      else if zst s i = ZS_LOADING \<or> v i
        then (False, v, status_from_slot i ZS_REJECTED_SERVICE (Some h) ZZM_REASON_CYCLE s)
      else let s0 = (if zst s i = ZS_LOAD_FAILED then status_from_slot i ZS_AVAILABLE (Some h) ZZM_REASON_NONE s else s) in
      if zst s0 i \<noteq> ZS_AVAILABLE \<or> \<not> zm_header_valid (zw_mods s0 i) then (False, v, s0)
      else if \<not> ze_idle env i then (False, v, status_from_slot i ZS_LOAD_FAILED (Some h) ZZM_REASON_STORAGE_BUSY s0)
      else case load_deps ld i 0 (zm_dependencies (zw_mods s0 i)) (v(i := True)) (set_state i ZS_LOADING s0) of
        (Some d, v1, s1) \<Rightarrow>
          (let reason = st_reason (zm_status (zw_mods s1 d)); cyc = (reason = ZZM_REASON_CYCLE) in
           (False, v1(i := False), fail_load env i (if cyc then ZS_REJECTED_SERVICE else ZS_LOAD_FAILED)
              (if cyc then reason else ZZM_REASON_DEPENDENCY) s1))
      | (None, v1, s1) \<Rightarrow> (case load_payload env ensure i s1 of (ok, s2) \<Rightarrow> (ok, v1(i := False), s2)))"

primrec load_module_upto :: "nat \<Rightarrow> zzm_env \<Rightarrow> nat \<Rightarrow> visiting \<Rightarrow> zzm_world \<Rightarrow> bool \<times> visiting \<times> zzm_world" where
  "load_module_upto 0 env i v s = (False, v, s)"
| "load_module_upto (Suc n) env i v s = load_module_with (load_module_upto n env) env i v s"

text \<open>Nine frames are enough for eight slots: \<^verbatim>\<open>load_depth\<close> below.\<close>

definition load_module :: "zzm_env \<Rightarrow> nat \<Rightarrow> visiting \<Rightarrow> zzm_world \<Rightarrow> bool \<times> visiting \<times> zzm_world" where
  "load_module env = load_module_upto 9 env"

section \<open>Entry points\<close>

definition zzm_loader_load_on_owner :: "zzm_env \<Rightarrow> u32 \<Rightarrow> zzm_world \<Rightarrow> bool \<times> zzm_world" where
  "zzm_loader_load_on_owner env = load_on_owner_with (load_module env)"

definition zzm_loader_ensure_loaded :: "zzm_env \<Rightarrow> u32 \<Rightarrow> zzm_world \<Rightarrow> bool \<times> zzm_world" where
  "zzm_loader_ensure_loaded env = ensure_loaded_with env (zzm_loader_load_on_owner env)"

definition zzm_loader_acquire :: "zzm_env \<Rightarrow> u32 \<Rightarrow> zzm_world \<Rightarrow> bool \<times> zzm_world" where
  "zzm_loader_acquire env m s = (case module_index m of None \<Rightarrow> (False, s) | Some i \<Rightarrow>
     (case zzm_loader_ensure_loaded env m s of
        (False, s1) \<Rightarrow> (False, s1)
      | (True, s1) \<Rightarrow> (True, set_idle i 0 (set_refs i (refs s1 i + 1) s1))))"

definition ZZM_DEFAULT_IDLE_UNLOAD_MS :: u32 where "ZZM_DEFAULT_IDLE_UNLOAD_MS = 30000"

definition poll_one :: "zzm_env \<Rightarrow> u64 \<Rightarrow> nat \<Rightarrow> zzm_world \<Rightarrow> zzm_world" where
  "poll_one env now i s =
     (if zst s i \<noteq> ZS_LOADED \<or> refs s i \<noteq> 0 then s
      else let ms = (if is_v3 s i then z3_idle_unload_ms (v3_header_of s i) else zh_idle_unload_ms (header_of s i));
               idle_ms = (if ms = 0 then ZZM_DEFAULT_IDLE_UNLOAD_MS else ms) in
      if now - zm_idle_since (zw_mods s i) < ucast idle_ms then s
      else if is_v3 s i then set_idle i now s
      else let s1 = unregister_and_reclaim i s;
               s2 = status_from_slot i ZS_AVAILABLE (Some (header_of s1 i)) ZZM_REASON_NONE s1
           in release_dependencies env i (set_idle i 0 s2))"

text \<open>The poll gives up when the lock is taken.\<close>

definition zzm_loader_poll :: "zzm_env \<Rightarrow> bool \<Rightarrow> u64 \<Rightarrow> zzm_world \<Rightarrow> zzm_world" where
  "zzm_loader_poll env got_lock now s =
     (if \<not> got_lock then s
      else fold (poll_one env now) [0..<zzm_slot_count] (s\<lparr>zw_last_poll := now\<rparr>))"

definition forget_one :: "zzm_env \<Rightarrow> nat \<Rightarrow> zzm_world \<Rightarrow> zzm_world" where
  "forget_one env i s =
     (if \<not> is_v3 s i \<or> zst s i \<noteq> ZS_LOADED then s
      else let s1 = poison_v3_slot i (unregister_module i s);
               s2 = status_from_v3_slot i ZS_AVAILABLE (Some (v3_header_of s1 i)) ZZM_REASON_NONE s1
           in release_dependencies env i (set_idle i 0 (set_refs i 0 s2)))"

definition zzm_loader_forget_core1_modules :: "zzm_env \<Rightarrow> zzm_world \<Rightarrow> zzm_world" where
  "zzm_loader_forget_core1_modules env s = fold (forget_one env) [0..<zzm_slot_count] s"

definition zzm_loader_mark_faulted :: "zzm_env \<Rightarrow> u32 \<Rightarrow> zzm_world \<Rightarrow> zzm_world" where
  "zzm_loader_mark_faulted env m s = (case module_index m of None \<Rightarrow> s | Some i \<Rightarrow>
     if zst s i = ZS_FAULTED then s
     else let s1 = unregister_module i s in
       release_dependencies env i
         (if is_v3 s1 i then status_from_v3_slot i ZS_FAULTED (Some (v3_header_of s1 i)) ZZM_REASON_FAULT s1
          else status_from_slot i ZS_FAULTED (Some (header_of s1 i)) ZZM_REASON_FAULT s1))"

definition zzm_load_retired :: "zzm_env \<Rightarrow> bool \<Rightarrow> zzm_world \<Rightarrow> zzm_world" where
  "zzm_load_retired env ok s = (let s1 = (if \<not> ok \<and> zw_load_pending s \<noteq> 0
     then zzm_loader_mark_faulted env (zw_load_pending s) s else s) in s1\<lparr>zw_load_pending := 0\<rparr>)"

definition zzm_load_forget :: "zzm_world \<Rightarrow> zzm_world" where
  "zzm_load_forget s = s\<lparr>zw_load_pending := 0, zw_load_deadline := 0\<rparr>"

definition zzm_loader_ensure_service :: "zzm_env \<Rightarrow> u32 \<Rightarrow> u32 \<Rightarrow> zzm_world \<Rightarrow> bool \<times> zzm_world" where
  "zzm_loader_ensure_service env = ensure_service_with (zzm_loader_ensure_loaded env)"

definition zzm_loader_set_v3_capabilities :: "zzm_v3_capabilities option \<Rightarrow> zzm_world \<Rightarrow> zzm_world" where
  "zzm_loader_set_v3_capabilities caps s = s\<lparr>zw_caps := (case caps of Some c \<Rightarrow> c
     | None \<Rightarrow> \<lparr>cap_image_flags = 0, cap_wire_version = 0, cap_transport_major = 0, cap_csr_major = 0,
         cap_csr_minor = 0, cap_window_major = 0\<rparr>)\<rparr>"

definition zzm_loader_status :: "nat \<Rightarrow> zzm_world \<Rightarrow> zzm_status option" where
  "zzm_loader_status i s = (if i \<ge> zzm_slot_count then None else Some (zm_status (zw_mods s i)))"

definition zzm_registry_get_service :: "zzm_env \<Rightarrow> u32 \<Rightarrow> u32 \<Rightarrow> zzm_world \<Rightarrow> u32 \<times> zzm_world" where
  "zzm_registry_get_service env = get_service_with (zzm_loader_ensure_loaded env)"

datatype zzm_codec_availability = CODEC_AVAILABLE | CODEC_MISSING | CODEC_MISMATCH

definition zzm_registry_availability :: "zzm_env \<Rightarrow> u32 \<Rightarrow> zzm_world \<Rightarrow> zzm_codec_availability \<times> zzm_world" where
  "zzm_registry_availability env m s = (case registry_module_index m s of None \<Rightarrow> (CODEC_MISMATCH, s) | Some i \<Rightarrow>
     (let s1 = (if zst s i = ZS_AVAILABLE then snd (zzm_loader_ensure_loaded env m s) else s) in
      (if zst s1 i = ZS_LOADED then CODEC_AVAILABLE else if zst s1 i = ZS_MISSING then CODEC_MISSING
       else CODEC_MISMATCH, s1)))"

datatype zzm_sdk_status = SDK_STATUS_OK | SDK_STATUS_MODULE_MISSING | SDK_STATUS_MODULE_MISMATCH

definition zzm_registry_sdk_status :: "zzm_env \<Rightarrow> u32 \<Rightarrow> zzm_world \<Rightarrow> zzm_sdk_status \<times> zzm_world" where
  "zzm_registry_sdk_status env m s = (case zzm_registry_availability env m s of (a, s1) \<Rightarrow>
     (case a of CODEC_AVAILABLE \<Rightarrow> SDK_STATUS_OK | CODEC_MISSING \<Rightarrow> SDK_STATUS_MODULE_MISSING
        | CODEC_MISMATCH \<Rightarrow> SDK_STATUS_MODULE_MISMATCH, s1))"

definition zzm_registry_ops :: "zzm_env \<Rightarrow> u32 \<Rightarrow> u32 \<Rightarrow> zzm_world \<Rightarrow> u32 \<times> zzm_world" where
  "zzm_registry_ops env m min_size s = (case zzm_registry_availability env m s of (a, s1) \<Rightarrow>
     if a \<noteq> CODEC_AVAILABLE then (0, s1)
     else case registry_module_index m s1 of None \<Rightarrow> (0, s1) | Some i \<Rightarrow>
       if i \<ge> ZZM_REGISTRY_MODULES \<or> zw_ops s1 i = 0 \<or> zw_ops_size s1 i < min_size then (0, s1)
       else (zw_ops s1 i, s1))"

section \<open>The boot scan\<close>

text \<open>The first module of format 2 that is available and declares the service.\<close>

definition find_provider :: "nat \<Rightarrow> u32 \<Rightarrow> u32 \<Rightarrow> zzm_world \<Rightarrow> nat option" where
  "find_provider consumer svc ver s = List.find (\<lambda>i. i \<noteq> consumer \<and> zm_header_valid (zw_mods s i) \<and>
     zst s i = ZS_AVAILABLE \<and> provides svc ver (zh_provided_count (header_of s i)) (zh_provided (header_of s i)))
     [0..<zzm_slot_count]"

fun resolve_reqs :: "nat \<Rightarrow> zzm_req list \<Rightarrow> zzm_world \<Rightarrow> zzm_world" where
  "resolve_reqs i [] s = s"
| "resolve_reqs i (r # rs) s =
     (if runtime_service_present (rq_id r) (rq_version r) then resolve_reqs i rs s
      else case find_provider i (rq_id r) (rq_version r) s of
        None \<Rightarrow> status_from_slot i ZS_REJECTED_SERVICE (Some (header_of s i)) (rq_id r) s
      | Some p \<Rightarrow> resolve_reqs i rs (upd_mod i (\<lambda>m. m\<lparr>zm_dependencies := zm_dependencies m @ [p]\<rparr>) s))"

definition resolve_one :: "nat \<Rightarrow> zzm_world \<Rightarrow> zzm_world" where
  "resolve_one i s =
     (let s1 = upd_mod i (\<lambda>m. m\<lparr>zm_dependencies := []\<rparr>) s in
      if zst s1 i \<noteq> ZS_AVAILABLE then s1
      else if is_v3 s1 i then
        (let h = v3_header_of s1 i in
         case List.find (\<lambda>r. \<not> runtime_service_present (rq_id r) (rq_version r))
             (take (unat (z3_required_count h)) (z3_required h)) of
           None \<Rightarrow> s1 | Some r \<Rightarrow> status_from_v3_slot i ZS_REJECTED_SERVICE (Some h) (rq_id r) s1)
      else resolve_reqs i (take (unat (zh_required_count (header_of s1 i))) (zh_required (header_of s1 i))) s1)"

definition resolve_dependencies :: "zzm_world \<Rightarrow> zzm_world" where
  "resolve_dependencies s = fold resolve_one [0..<zzm_slot_count] s"

definition scan_v3 :: "nat \<Rightarrow> zzm_file \<Rightarrow> zzm_world \<Rightarrow> zzm_world" where
  "scan_v3 i f s = (case f_read f 0 ZZM_V3_HEADER_SIZE of (bs, ok) \<Rightarrow>
     if \<not> ok \<or> length bs \<noteq> 512 then status_from_slot i ZS_REJECTED_SLOT None ZZM_REASON_FILE_READ s
     else let h = v3_header_of_bytes bs;
              st0 = verify_v3_header_shape h (zf_size f) (zw_caps s);
              st = (if st0 = ZS_AVAILABLE \<and> (z3_module_id h \<noteq> sl_id (zzm_slots ! i) \<or>
                       cstr (z3_name h) \<noteq> sl_name (zzm_slots ! i)) then ZS_REJECTED_SLOT else st0);
              s1 = status_from_v3_slot i st (Some h) ZZM_REASON_NONE s
          in if st = ZS_AVAILABLE
             then upd_mod i (\<lambda>m. m\<lparr>zm_v3_header := h, zm_format := 3, zm_header_valid := True\<rparr>) s1 else s1)"

definition scan_v2 :: "nat \<Rightarrow> zzm_file \<Rightarrow> zzm_world \<Rightarrow> zzm_world" where
  "scan_v2 i f s = (case f_read f 0 ZZM_HEADER_SIZE of (bs, ok) \<Rightarrow>
     if \<not> ok \<or> length bs \<noteq> 256 then status_from_slot i ZS_REJECTED_SLOT None ZZM_REASON_FILE_READ s
     else let h = header_of_bytes bs;
              st0 = verify_header_shape h (zf_size f);
              st = (if st0 = ZS_AVAILABLE \<and> (zh_module_id h \<noteq> sl_id (zzm_slots ! i) \<or>
                       cstr (zh_name h) \<noteq> sl_name (zzm_slots ! i)) then ZS_REJECTED_SLOT else st0);
              s1 = status_from_slot i st (Some h) ZZM_REASON_NONE s
          in if st = ZS_AVAILABLE
             then upd_mod i (\<lambda>m. m\<lparr>zm_header := h, zm_format := 2, zm_header_valid := True\<rparr>) s1 else s1)"

definition scan_slot :: "zzm_env \<Rightarrow> nat \<Rightarrow> zzm_world \<Rightarrow> zzm_world" where
  "scan_slot env i s =
     (let s0 = status_from_slot i ZS_MISSING None ZZM_REASON_NONE
            (upd_mod i (\<lambda>m. m\<lparr>zm_header_valid := False, zm_format := 0, zm_idle_since := 0,
               zm_dependencies_held := 0\<rparr>) s) in
      if \<not> ze_idle env i then status_from_slot i ZS_LOAD_FAILED None ZZM_REASON_STORAGE_BUSY s0
      else case ze_open env (module_path i) of None \<Rightarrow> s0 | Some f \<Rightarrow>
        (case f_read f 0 8 of (prefix, ok) \<Rightarrow>
          if \<not> ok \<or> length prefix \<noteq> 8 \<or> \<not> zf_lseek f 0
          then status_from_slot i ZS_REJECTED_SLOT None ZZM_REASON_FILE_READ s0
          else if take 4 prefix = ZZM_V3_MAGIC then scan_v3 i f s0 else scan_v2 i f s0))"

definition zzm_loader_boot_load :: "zzm_env \<Rightarrow> zzm_world \<Rightarrow> zzm_world" where
  "zzm_loader_boot_load env s = resolve_dependencies (fold (scan_slot env) [0..<zzm_slot_count] s)"

end
