(* ===== verification/ModuleIntegrity.thy ===== *)
theory ModuleIntegrity
  imports ModuleLoader
begin

text \<open>
  The module loader's invariant. It is indexed by the set of modules whose load is on
  the stack, so that it holds in the middle of nested loads; between calls the set is
  empty. From it: a loaded module's image was entered with the digest of its header and
  has since been changed by the module alone, the registry names only loaded modules and
  modules whose load was cut, and the recursion is bounded.
\<close>

section \<open>Views of the state\<close>

definition zload :: "zzm_world \<Rightarrow> nat \<Rightarrow> u32" where
  "zload s i = (if is_v3 s i then z3_load_address (v3_header_of s i) else zh_load_address (header_of s i))"
definition zimg :: "zzm_world \<Rightarrow> nat \<Rightarrow> u32" where
  "zimg s i = (if is_v3 s i then z3_image_size (v3_header_of s i) else zh_image_size (header_of s i))"
definition zbss :: "zzm_world \<Rightarrow> nat \<Rightarrow> u32" where
  "zbss s i = (if is_v3 s i then z3_bss_size (v3_header_of s i) else zh_bss_size (header_of s i))"
definition zinit :: "zzm_world \<Rightarrow> nat \<Rightarrow> u32" where
  "zinit s i = (if is_v3 s i then z3_init_entry (v3_header_of s i) else zh_init_entry (header_of s i))"
definition zfini :: "zzm_world \<Rightarrow> nat \<Rightarrow> u32" where
  "zfini s i = (if is_v3 s i then z3_fini_entry (v3_header_of s i) else zh_fini_entry (header_of s i))"
definition zsha :: "zzm_world \<Rightarrow> nat \<Rightarrow> u8 list" where
  "zsha s i = (if is_v3 s i then z3_sha256 (v3_header_of s i) else zh_sha256 (header_of s i))"
definition zvalid :: "zzm_world \<Rightarrow> nat \<Rightarrow> bool" where
  "zvalid s i = zm_header_valid (zw_mods s i)"
definition zid :: "zzm_world \<Rightarrow> nat \<Rightarrow> u32" where
  "zid s i = st_id (zm_status (zw_mods s i))"
definition zdeps :: "zzm_world \<Rightarrow> nat \<Rightarrow> nat list" where
  "zdeps s i = zm_dependencies (zw_mods s i)"

definition zentered :: "zzm_world \<Rightarrow> nat \<Rightarrow> u8 list" where
  "zentered s i = zm_entered (zw_mods s i)"
definition zwritten :: "zzm_world \<Rightarrow> nat \<Rightarrow> nat set" where
  "zwritten s i = zm_written (zw_mods s i)"

definition zimage :: "zzm_world \<Rightarrow> nat \<Rightarrow> u8 list" where
  "zimage s i = mem_bytes (zw_mem s) (zload s i) (unat (zimg s i))"

text \<open>
  The image entered had the header's digest, and memory still holds it but for what the
  module itself stored.
\<close>

definition image_ok :: "(u8 list \<Rightarrow> u8 list) \<Rightarrow> zzm_world \<Rightarrow> nat \<Rightarrow> bool" where
  "image_ok sha s i \<longleftrightarrow> length (zentered s i) = unat (zimg s i) \<and> sha (zentered s i) = zsha s i \<and>
     (\<forall>k < unat (zimg s i). k \<notin> zwritten s i \<longrightarrow> zimage s i ! k = zentered s i ! k)"

definition unreg :: "zzm_world \<Rightarrow> nat \<Rightarrow> bool" where
  "unreg s i \<longleftrightarrow> zw_ops s i = 0 \<and>
     (\<forall>p \<in> set (zw_services s). ps_interface p \<noteq> 0 \<longrightarrow> ps_module_id p \<noteq> sl_id (zzm_slots ! i))"

definition loadable :: "zzm_world \<Rightarrow> nat set" where
  "loadable s = {i. i < zzm_slot_count \<and> zst s i \<in> {ZS_AVAILABLE, ZS_LOAD_FAILED}}"

section \<open>The invariant\<close>

definition ids_ok :: "zzm_world \<Rightarrow> bool" where
  "ids_ok s \<longleftrightarrow> (\<forall>i < zzm_slot_count. zid s i = sl_id (zzm_slots ! i))"

definition fits_ok :: "zzm_world \<Rightarrow> bool" where
  "fits_ok s \<longleftrightarrow> (\<forall>i < zzm_slot_count. zvalid s i \<longrightarrow>
     image_fits i (zload s i) (zimg s i) (zbss s i) (zinit s i) (zfini s i))"

definition deps_ok :: "zzm_world \<Rightarrow> bool" where
  "deps_ok s \<longleftrightarrow> (\<forall>i < zzm_slot_count. \<forall>d \<in> set (zdeps s i). d < zzm_slot_count \<and> \<not> is_v3 s d)"

definition digest_ok :: "(u8 list \<Rightarrow> u8 list) \<Rightarrow> zzm_world \<Rightarrow> bool" where
  "digest_ok sha s \<longleftrightarrow> (\<forall>i < zzm_slot_count. zst s i = ZS_LOADED \<longrightarrow> zvalid s i \<and> image_ok sha s i)"

definition regs_ok :: "nat set \<Rightarrow> zzm_world \<Rightarrow> bool" where
  "regs_ok A s \<longleftrightarrow> (\<forall>i < zzm_slot_count. i \<in> A \<or> i \<in> zw_cut s \<and> zst s i = ZS_REJECTED_SERVICE \<or>
       zst s i \<in> {ZS_LOADED, ZS_LOADING} \<or> unreg s i) \<and>
     (\<forall>p \<in> set (zw_services s). ps_interface p \<noteq> 0 \<longrightarrow> (\<exists>i < zzm_slot_count. ps_module_id p = sl_id (zzm_slots ! i)))"

definition active_ok :: "nat set \<Rightarrow> zzm_world \<Rightarrow> bool" where
  "active_ok A s \<longleftrightarrow> (\<forall>i < zzm_slot_count. (i \<in> A \<longrightarrow> zst s i \<in> {ZS_LOADING, ZS_REJECTED_SERVICE}) \<and>
     (zst s i = ZS_LOADING \<longrightarrow> i \<in> A \<or> i \<in> zw_cut s))"

definition cut_ok :: "zzm_world \<Rightarrow> bool" where
  "cut_ok s \<longleftrightarrow> (\<not> zw_interrupts s \<longrightarrow> \<not> zw_halted s \<and> zw_cut s = {})"

definition zinv :: "(u8 list \<Rightarrow> u8 list) \<Rightarrow> nat set \<Rightarrow> zzm_world \<Rightarrow> bool" where
  "zinv sha A s \<longleftrightarrow> ids_ok s \<and> fits_ok s \<and> deps_ok s \<and> digest_ok sha s \<and> regs_ok A s \<and> active_ok A s \<and> cut_ok s"

named_theorems zview \<open>what each update does to each view\<close>

lemmas zinv_defs = ids_ok_def fits_ok_def deps_ok_def digest_ok_def regs_ok_def active_ok_def cut_ok_def zinv_def

text \<open>The updates that touch only reference counts, idle times and holds change no view.\<close>

definition same_view :: "zzm_world \<Rightarrow> zzm_world \<Rightarrow> bool" where
  "same_view s t \<longleftrightarrow> (\<forall>i. zst t i = zst s i \<and> zid t i = zid s i \<and> header_of t i = header_of s i \<and>
     v3_header_of t i = v3_header_of s i \<and> is_v3 t i = is_v3 s i \<and> zvalid t i = zvalid s i \<and> zdeps t i = zdeps s i \<and>
       zentered t i = zentered s i \<and> zwritten t i = zwritten s i) \<and>
     zw_caps t = zw_caps s \<and> zw_mem t = zw_mem s \<and> zw_ops t = zw_ops s \<and> zw_services t = zw_services s \<and>
     zw_interrupts t = zw_interrupts s \<and> zw_halted t = zw_halted s \<and> zw_cut t = zw_cut s"

text \<open>Everything but the states, the memory and the registry.\<close>

definition same_hdrs :: "zzm_world \<Rightarrow> zzm_world \<Rightarrow> bool" where
  "same_hdrs s t \<longleftrightarrow> (\<forall>i. zid t i = zid s i \<and> header_of t i = header_of s i \<and>
     v3_header_of t i = v3_header_of s i \<and> is_v3 t i = is_v3 s i \<and> zvalid t i = zvalid s i \<and> zdeps t i = zdeps s i) \<and>
     zw_caps t = zw_caps s"

lemmas view_defs = zst_def zid_def header_of_def v3_header_of_def is_v3_def zvalid_def zdeps_def refs_def zentered_def zwritten_def

lemma same_view_refl [simp]: "same_view s s" and same_hdrs_refl [simp]: "same_hdrs s s"
  by (simp_all add: same_view_def same_hdrs_def)

lemma same_view_trans [trans]: "same_view s t \<Longrightarrow> same_view t u \<Longrightarrow> same_view s u"
  and same_hdrs_trans [trans]: "same_hdrs s t \<Longrightarrow> same_hdrs t u \<Longrightarrow> same_hdrs s u"
  by (simp_all add: same_view_def same_hdrs_def)

lemma same_view_hdrs: "same_view s t \<Longrightarrow> same_hdrs s t"
  by (simp add: same_view_def same_hdrs_def)

lemma same_hdrs_views:
  assumes "same_hdrs s t"
  shows "zload t i = zload s i" "zimg t i = zimg s i" "zbss t i = zbss s i" "zinit t i = zinit s i"
    "zfini t i = zfini s i" "zsha t i = zsha s i" "zvalid t i = zvalid s i" "zid t i = zid s i"
    "is_v3 t i = is_v3 s i" "zdeps t i = zdeps s i" "header_of t i = header_of s i"
    "v3_header_of t i = v3_header_of s i" "zw_caps t = zw_caps s"
  using assms by (simp_all add: same_hdrs_def zload_def zimg_def zbss_def zinit_def zfini_def zsha_def)

lemma same_view_views:
  assumes "same_view s t"
  shows "zst t i = zst s i" "zimage t i = zimage s i" "unreg t i = unreg s i" "loadable t = loadable s"
    "zw_services t = zw_services s" "zentered t i = zentered s i" "zwritten t i = zwritten s i"
    "image_ok sha t i = image_ok sha s i" "zw_interrupts t = zw_interrupts s" "zw_halted t = zw_halted s"
    "zw_cut t = zw_cut s"
  using assms same_hdrs_views [OF same_view_hdrs [OF assms]]
  by (simp_all add: same_view_def zimage_def unreg_def loadable_def image_ok_def)

lemma same_view_zinv:
  assumes "same_view s t" "zinv sha A s"
  shows "zinv sha A t"
  using assms(2) unfolding zinv_defs
  by (simp only: same_view_views [OF assms(1)] same_hdrs_views [OF same_view_hdrs [OF assms(1)]])

lemma same_view_set_refs [intro, simp]: "same_view s (set_refs i n s)"
  by (simp add: same_view_def set_refs_def upd_mod_def view_defs)

lemma same_view_set_idle [intro, simp]: "same_view s (set_idle i t s)"
  by (simp add: same_view_def set_idle_def upd_mod_def view_defs)

lemma same_view_set_held [intro, simp]: "same_view s (set_held i n s)"
  by (simp add: same_view_def set_held_def upd_mod_def view_defs)

lemma same_view_last_poll [intro, simp]: "same_view s (s\<lparr>zw_last_poll := t\<rparr>)"
  by (simp add: same_view_def view_defs)

lemma same_view_pending [intro, simp]: "same_view s (s\<lparr>zw_load_pending := p, zw_load_deadline := d\<rparr>)"
  "same_view s (s\<lparr>zw_load_pending := p\<rparr>)"
  by (simp_all add: same_view_def view_defs)

text \<open>A status report is a state change, up to the view.\<close>

lemma status_v2_view: "zid s i = sl_id (zzm_slots ! i) \<Longrightarrow> same_view (set_state i st s) (status_from_slot i st h r s)"
  by (cases h) (auto simp: same_view_def set_state_def upd_mod_def view_defs status_from_slot_def slot_status_def Let_def)

lemma status_v3_view: "zid s i = sl_id (zzm_slots ! i) \<Longrightarrow> same_view (set_state i st s) (status_from_v3_slot i st h r s)"
  by (cases h) (auto simp: same_view_def set_state_def upd_mod_def view_defs status_from_v3_slot_def slot_status_def Let_def)

lemma zst_set_state [simp]: "zst (set_state i st s) j = (if j = i then st else zst s j)"
  by (simp add: set_state_def upd_mod_def view_defs)

lemma set_state_same [simp]: "same_hdrs s (set_state i st s)" "zw_mem (set_state i st s) = zw_mem s"
  "zw_ops (set_state i st s) = zw_ops s" "zw_services (set_state i st s) = zw_services s"
  "zentered (set_state i st s) j = zentered s j" "zwritten (set_state i st s) j = zwritten s j"
  "zw_interrupts (set_state i st s) = zw_interrupts s" "zw_halted (set_state i st s) = zw_halted s"
  "zw_cut (set_state i st s) = zw_cut s"
  by (simp_all add: set_state_def upd_mod_def same_hdrs_def view_defs)

lemma zimage_set_state [simp]: "zimage (set_state i st s) j = zimage s j"
  and unreg_set_state [simp]: "unreg (set_state i st s) j = unreg s j"
  by (simp_all add: zimage_def unreg_def same_hdrs_views [OF set_state_same(1)])

lemmas hdrs_set_state [simp] = same_hdrs_views [OF set_state_same(1)]

lemma image_ok_set_state [simp]: "image_ok sha (set_state i st s) j = image_ok sha s j"
  by (simp add: image_ok_def)

lemma zinv_set_state:
  assumes inv: "zinv sha A s"
    and B: "B = A \<or> B = insert i A \<or> B = A - {i}"
    and act: "i \<in> B \<longrightarrow> st \<in> {ZS_LOADING, ZS_REJECTED_SERVICE}" "st = ZS_LOADING \<longrightarrow> i \<in> B"
    and reg: "i \<in> B \<or> i \<in> zw_cut s \<and> st = ZS_REJECTED_SERVICE \<or> st \<in> {ZS_LOADED, ZS_LOADING} \<or> unreg s i"
    and dig: "st = ZS_LOADED \<longrightarrow> zvalid s i \<and> image_ok sha s i"
  shows "zinv sha B (set_state i st s)"
proof -
  have "ids_ok (set_state i st s)" "fits_ok (set_state i st s)" "deps_ok (set_state i st s)"
    using inv by (simp_all add: zinv_def ids_ok_def fits_ok_def deps_ok_def)
  moreover have "digest_ok sha (set_state i st s)"
    using inv dig by (simp add: zinv_def digest_ok_def)
  moreover have "regs_ok B (set_state i st s)"
    using inv reg B by (auto simp: zinv_def regs_ok_def)
  moreover have "active_ok B (set_state i st s)"
    using inv act B by (auto simp: zinv_def active_ok_def)
  moreover have "cut_ok (set_state i st s)" using inv by (simp add: zinv_def cut_ok_def)
  ultimately show ?thesis by (simp add: zinv_def)
qed

section \<open>Memory\<close>

lemma mem_fill_outside:
  assumes "unat a + n \<le> 4294967296" "unat x < unat a \<or> unat a + n \<le> unat x"
  shows "mem_fill a n f mem x = mem x"
proof -
  have "\<not> unat (x - a) < n"
  proof (cases "unat a \<le> unat x")
    case True
    then show ?thesis using assms(2) by (simp add: unat_minus_no_wrap)
  next
    case False
    then have "unat (x - a) = unat x + 4294967296 - unat a"
      by (simp add: unat_sub_if' word_le_nat_alt)
    with False assms show ?thesis by linarith
  qed
  then show ?thesis by (simp add: mem_fill_def)
qed

lemma mem_bytes_fill:
  assumes "unat a + n \<le> 4294967296" "unat b + m \<le> 4294967296"
    and "unat a + n \<le> unat b \<or> unat b + m \<le> unat a"
  shows "mem_bytes (mem_fill a n f mem) b m = mem_bytes mem b m"
proof -
  have "mem_fill a n f mem (b + of_nat k) = mem (b + of_nat k)" if "k < m" for k
  proof (rule mem_fill_outside [OF assms(1)])
    have "unat (of_nat k :: u32) = k" using that assms(2) by (simp add: unat_of_nat)
    then have "unat (b + of_nat k) = unat b + k"
      using that assms(2) by (subst unat_plus_no_wrap) simp_all
    then show "unat (b + of_nat k) < unat a \<or> unat a + n \<le> unat (b + of_nat k)"
      using that assms(3) by linarith
  qed
  then show ?thesis by (simp add: mem_bytes_def)
qed

text \<open>A store into slot \<open>i\<close> leaves the images of the other slots alone.\<close>

definition in_slot :: "nat \<Rightarrow> u32 \<Rightarrow> nat \<Rightarrow> bool" where
  "in_slot i a n \<longleftrightarrow> unat (sl_address (zzm_slots ! i)) \<le> unat a \<and>
     unat a + n \<le> unat (sl_address (zzm_slots ! i)) + unat (sl_size (zzm_slots ! i))"

lemma in_slot_disjoint:
  assumes "in_slot i a n" "in_slot j b m" "i \<noteq> j" "i < zzm_slot_count" "j < zzm_slot_count"
  shows "unat a + n \<le> unat b \<or> unat b + m \<le> unat a" "unat a + n \<le> 4294967296"
proof -
  have "i < j \<or> j < i" using assms(3) by arith
  then show "unat a + n \<le> unat b \<or> unat b + m \<le> unat a"
    using zzm_slots_ordered [of i j] zzm_slots_ordered [of j i] assms
    unfolding in_slot_def by fastforce
  show "unat a + n \<le> 4294967296"
    using assms(1) zzm_slot_arena(2) [OF assms(4)] unfolding in_slot_def by linarith
qed

lemma fits_in_slot:
  assumes "zinv sha A s" "i < zzm_slot_count" "zvalid s i"
  shows "in_slot i (zload s i) (unat (zimg s i) + unat (zbss s i))" "in_slot i (zload s i) (unat (zimg s i))"
    "unat (zload s i) + unat (zimg s i) + unat (zbss s i) \<le> 4294967295"
proof -
  from assms have *: "image_fits i (zload s i) (zimg s i) (zbss s i) (zinit s i) (zfini s i)"
    by (simp add: zinv_def fits_ok_def)
  then show "in_slot i (zload s i) (unat (zimg s i) + unat (zbss s i))" "in_slot i (zload s i) (unat (zimg s i))"
    by (simp_all add: in_slot_def image_fits_def)
  show "unat (zload s i) + unat (zimg s i) + unat (zbss s i) \<le> 4294967295"
  proof -
    have "zload s i = sl_address (zzm_slots ! i)" "unat (zimg s i) + unat (zbss s i) \<le> unat (sl_size (zzm_slots ! i))"
      using * by (simp_all add: image_fits_def)
    then show ?thesis using zzm_slot_arena(2) [OF assms(2)] by simp
  qed
qed

lemma set_mem_same [simp]: "same_hdrs s (set_mem a n f s)" "zst (set_mem a n f s) i = zst s i"
  "zw_ops (set_mem a n f s) = zw_ops s" "zw_services (set_mem a n f s) = zw_services s"
  "refs (set_mem a n f s) i = refs s i" "zw_mods (set_mem a n f s) = zw_mods s"
  "unreg (set_mem a n f s) i = unreg s i" "zentered (set_mem a n f s) i = zentered s i"
  "zwritten (set_mem a n f s) i = zwritten s i" "zw_interrupts (set_mem a n f s) = zw_interrupts s"
  "zw_halted (set_mem a n f s) = zw_halted s" "zw_cut (set_mem a n f s) = zw_cut s"
  by (simp_all add: set_mem_def same_hdrs_def view_defs unreg_def)

lemmas hdrs_set_mem [simp] = same_hdrs_views [OF set_mem_same(1)]

lemma zimage_set_mem:
  assumes inv: "zinv sha A s" and slot: "in_slot i a n" "i < zzm_slot_count"
    and j: "j \<noteq> i" "j < zzm_slot_count" "zvalid s j"
  shows "zimage (set_mem a n f s) j = zimage s j"
proof -
  note d = in_slot_disjoint [OF slot(1) fits_in_slot(2) [OF inv j(2,3)] not_sym [OF j(1)] slot(2) j(2)]
  have "zimage (set_mem a n f s) j = mem_bytes (mem_fill a n f (zw_mem s)) (zload s j) (unat (zimg s j))"
    by (simp add: zimage_def) (simp add: set_mem_def)
  also have "\<dots> = zimage s j"
    unfolding zimage_def using fits_in_slot(3) [OF inv j(2,3)] by (intro mem_bytes_fill d) linarith
  finally show ?thesis .
qed

lemma zinv_set_mem:
  assumes inv: "zinv sha A s" and slot: "in_slot i a n" "i < zzm_slot_count" and st: "zst s i \<noteq> ZS_LOADED"
  shows "zinv sha A (set_mem a n f s)"
proof -
  have "ids_ok (set_mem a n f s)" "fits_ok (set_mem a n f s)" "deps_ok (set_mem a n f s)"
    "regs_ok A (set_mem a n f s)" "active_ok A (set_mem a n f s)" "cut_ok (set_mem a n f s)"
    using inv by (simp_all add: zinv_defs)
  moreover have "digest_ok sha (set_mem a n f s)"
    unfolding digest_ok_def set_mem_same hdrs_set_mem
  proof (intro allI impI)
    fix j assume j: "j < zzm_slot_count" "zst s j = ZS_LOADED"
    then have d: "zvalid s j" "image_ok sha s j"
      using inv by (auto simp: zinv_def digest_ok_def)
    have "j \<noteq> i" using j st by blast
    from zimage_set_mem [OF inv slot this j(1) d(1)] d
    show "zvalid s j \<and> image_ok sha (set_mem a n f s) j" by (simp add: image_ok_def)
  qed
  ultimately show ?thesis by (simp add: zinv_def)
qed

text \<open>A loaded module's own poison comes after its unregistration, before its state changes:
  poison and state change are taken together.\<close>

lemma zinv_set_state_mem:
  assumes "zinv sha A (set_state i st s)" "in_slot i a n" "i < zzm_slot_count" "st \<noteq> ZS_LOADED"
  shows "zinv sha A (set_state i st (set_mem a n f s))"
proof -
  have "set_state i st (set_mem a n f s) = set_mem a n f (set_state i st s)"
    by (simp add: set_state_def set_mem_def upd_mod_def)
  with zinv_set_mem [OF assms(1-3)] assms(4) show ?thesis by simp
qed

lemma zinv_poison:
  assumes inv: "zinv sha A (set_state i st s)" and i: "i < zzm_slot_count" and st: "st \<noteq> ZS_LOADED"
  shows "\<not> is_v3 s i \<Longrightarrow> zinv sha A (set_state i st (poison_slot i s))"
    "is_v3 s i \<Longrightarrow> zinv sha A (set_state i st (poison_v3_slot i s))"
proof -
  have *: "zinv sha A (set_state i st (poison (zload s i) (zimg s i + zbss s i) s))" if "zvalid s i"
  proof -
    have v: "zvalid (set_state i st s) i" using that by simp
    have "unat (zimg s i + zbss s i) = unat (zimg s i) + unat (zbss s i)"
      using fits_in_slot(3) [OF inv i v] by (intro unat_plus_no_wrap) simp
    with fits_in_slot(1) [OF inv i v]
    have "in_slot i (zload s i) (unat (zimg s i + zbss s i))" by simp
    from zinv_set_state_mem [OF inv this i st] show ?thesis by (simp add: poison_def)
  qed
  show "zinv sha A (set_state i st (poison_slot i s))" if "\<not> is_v3 s i"
    using * that inv by (auto simp: poison_slot_def Let_def zvalid_def zload_def zimg_def zbss_def)
  show "zinv sha A (set_state i st (poison_v3_slot i s))" if "is_v3 s i"
    using * that inv by (auto simp: poison_v3_slot_def Let_def zvalid_def zload_def zimg_def zbss_def)
qed

lemma poison_same [simp]: "same_hdrs s (poison_slot i s)" "same_hdrs s (poison_v3_slot i s)"
  "zst (poison_slot i s) j = zst s j" "zst (poison_v3_slot i s) j = zst s j"
  "unreg (poison_slot i s) j = unreg s j" "unreg (poison_v3_slot i s) j = unreg s j"
  by (simp_all add: poison_slot_def poison_v3_slot_def Let_def poison_def)

section \<open>Registry\<close>

lemma registry_module_index_ok:
  assumes "ids_ok s"
  shows "registry_module_index m s = module_index m"
proof -
  have "List.find (\<lambda>i. zid s i = m) xs = List.find (\<lambda>i. sl_id (zzm_slots ! i) = m) xs"
    if "\<forall>i \<in> set xs. i < zzm_slot_count" for xs
    using that assms by (induction xs) (auto simp: ids_ok_def)
  from this [of "[0..<zzm_slot_count]"] show ?thesis
    by (simp add: registry_module_index_def module_index_def zid_def)
qed

lemma module_index_Some:
  "module_index m = Some i \<longleftrightarrow> i < zzm_slot_count \<and> sl_id (zzm_slots ! i) = m"
proof
  assume "module_index m = Some i"
  then show "i < zzm_slot_count \<and> sl_id (zzm_slots ! i) = m"
    by (auto simp: module_index_def find_Some_iff)
next
  assume i: "i < zzm_slot_count \<and> sl_id (zzm_slots ! i) = m"
  then have "module_index m \<noteq> None"
    by (auto simp: module_index_def find_None_iff)
  then obtain k where k: "module_index m = Some k" by blast
  then have "k < zzm_slot_count" "sl_id (zzm_slots ! k) = m"
    by (auto simp: module_index_def find_Some_iff)
  with i k show "module_index m = Some i" using zzm_slot_id_inj by metis
qed

lemma module_index_slot [simp]: "i < zzm_slot_count \<Longrightarrow> module_index (sl_id (zzm_slots ! i)) = Some i"
  by (simp add: module_index_Some)

lemma set_fill_first_free: "fill_first_free p qs = Some ps \<Longrightarrow> set ps \<subseteq> insert p (set qs)"
  by (induction qs arbitrary: ps) (auto split: if_splits)

text \<open>Registering and unregistering touch the registry alone.\<close>

definition reg_only :: "zzm_world \<Rightarrow> zzm_world \<Rightarrow> bool" where
  "reg_only s t \<longleftrightarrow> zw_mods t = zw_mods s \<and> zw_caps t = zw_caps s \<and> zw_mem t = zw_mem s \<and> zw_last_poll t = zw_last_poll s \<and>
     zw_interrupts t = zw_interrupts s \<and> zw_halted t = zw_halted s \<and> zw_cut t = zw_cut s"

lemma reg_only_views:
  assumes "reg_only s t"
  shows "zst t i = zst s i" "same_hdrs s t" "zimage t i = zimage s i" "loadable t = loadable s"
proof -
  show h: "same_hdrs s t" and st: "\<And>i. zst t i = zst s i" using assms by (simp_all add: reg_only_def same_hdrs_def view_defs)
  show "zimage t i = zimage s i" using same_hdrs_views [OF h] assms by (simp add: zimage_def reg_only_def)
  show "loadable t = loadable s" by (simp add: loadable_def st)
qed

lemma reg_only_ghosts:
  assumes "reg_only s t"
  shows "zentered t i = zentered s i" "zwritten t i = zwritten s i" "image_ok sha t i = image_ok sha s i"
    "zw_interrupts t = zw_interrupts s" "zw_halted t = zw_halted s" "zw_cut t = zw_cut s"
proof -
  show "zentered t i = zentered s i" "zwritten t i = zwritten s i" "zw_interrupts t = zw_interrupts s"
    "zw_halted t = zw_halted s" "zw_cut t = zw_cut s"
    using assms by (simp_all add: reg_only_def view_defs)
  then show "image_ok sha t i = image_ok sha s i"
    using reg_only_views(3) [OF assms] same_hdrs_views [OF reg_only_views(2) [OF assms]] by (simp add: image_ok_def)
qed

lemma zinv_reg_only:
  assumes "reg_only s t" "zinv sha A s" "regs_ok A t"
  shows "zinv sha A t"
  using assms(2,3) unfolding zinv_def ids_ok_def fits_ok_def deps_ok_def digest_ok_def active_ok_def cut_ok_def
  by (simp add: reg_only_views [OF assms(1)] reg_only_ghosts [OF assms(1)] same_hdrs_views [OF reg_only_views(2) [OF assms(1)]])

lemma reg_call_reg_only: "reg_only s (run_reg_call c s)"
  by (cases c) (auto simp: reg_only_def zzm_registry_register_ops_def zzm_registry_register_service_def
    split: option.splits)

lemma zinv_reg_call:
  assumes inv: "zinv sha A s"
  shows "zinv sha A (run_reg_call c s)"
proof (rule zinv_reg_only [OF reg_call_reg_only inv])
  note ro = reg_only_views [OF reg_call_reg_only] reg_only_ghosts(6) [OF reg_call_reg_only]
  have r: "regs_ok A s" and ids: "ids_ok s" using inv by (simp_all add: zinv_def)
  show "regs_ok A (run_reg_call c s)"
  proof (cases c)
    case (Register_ops m ops sz)
    have *: "unreg (run_reg_call c s) j" if "unreg s j" "zst s j \<noteq> ZS_LOADING" for j
      using that unfolding Register_ops
      by (auto simp: zzm_registry_register_ops_def registry_module_index_ok [OF ids] zzm_loader_can_register_def
        unreg_def split: option.splits)
    have "zw_services (run_reg_call c s) = zw_services s"
      unfolding Register_ops by (auto simp: zzm_registry_register_ops_def split: option.splits)
    then show ?thesis using r * unfolding regs_ok_def ro by auto
  next
    case (Register_service m sv ver iface sz)
    show ?thesis
    proof (cases "zw_services (run_reg_call c s) = zw_services s \<and> zw_ops (run_reg_call c s) = zw_ops s")
      case True
      then show ?thesis using r unfolding regs_ok_def ro unreg_def by simp
    next
      case False
      let ?p = "\<lparr>ps_module_id = m, ps_id = sv, ps_version = ver, ps_interface = iface, ps_size = sz\<rparr>"
      from False have m: "zzm_loader_can_register m s"
        and sub: "set (zw_services (run_reg_call c s)) \<subseteq> insert ?p (set (zw_services s))"
        and ops: "zw_ops (run_reg_call c s) = zw_ops s"
        unfolding Register_service
        by (auto simp: zzm_registry_register_service_def dest!: set_fill_first_free split: if_splits option.splits)
      from m obtain k where k: "k < zzm_slot_count" "sl_id (zzm_slots ! k) = m" "zst s k = ZS_LOADING"
        by (auto simp: zzm_loader_can_register_def module_index_Some split: option.splits)
      have *: "unreg (run_reg_call c s) j" if "unreg s j" "zst s j \<noteq> ZS_LOADING" "j < zzm_slot_count" for j
      proof -
        have "sl_id (zzm_slots ! j) \<noteq> m" using that(2,3) k zzm_slot_id_inj by metis
        then show ?thesis using that(1) sub unfolding unreg_def ops by auto
      qed
      show ?thesis unfolding regs_ok_def ro
      proof (intro conjI allI impI ballI)
        fix j assume "j < zzm_slot_count"
        with r * show "j \<in> A \<or> j \<in> zw_cut s \<and> zst s j = ZS_REJECTED_SERVICE \<or> zst s j \<in> {ZS_LOADED, ZS_LOADING} \<or> unreg (run_reg_call c s) j"
          unfolding regs_ok_def by auto
      next
        fix p assume "p \<in> set (zw_services (run_reg_call c s))" "ps_interface p \<noteq> 0"
        with sub have "p = ?p \<or> p \<in> set (zw_services s)" by blast
        then show "\<exists>i < zzm_slot_count. ps_module_id p = sl_id (zzm_slots ! i)"
        proof
          assume "p = ?p"
          then show ?thesis using k(1,2) by (intro exI [of _ k]) simp
        next
          assume "p \<in> set (zw_services s)"
          then show ?thesis using r \<open>ps_interface p \<noteq> 0\<close> unfolding regs_ok_def by blast
        qed
      qed
    qed
  qed
qed

lemma reg_only_trans: "reg_only s t \<Longrightarrow> reg_only t u \<Longrightarrow> reg_only s u"
  by (simp add: reg_only_def)

lemma fold_reg_only: "reg_only s (fold run_reg_call cs s)"
proof (induction cs arbitrary: s)
  case (Cons c cs)
  show ?case using reg_only_trans [OF reg_call_reg_only Cons.IH] by simp
qed (simp add: reg_only_def)

lemma zinv_fold_reg: "zinv sha A s \<Longrightarrow> zinv sha A (fold run_reg_call cs s)"
  by (induction cs arbitrary: s) (auto intro: zinv_reg_call)

section \<open>Module code\<close>

lemma mem_bytes_nth: "k < n \<Longrightarrow> mem_bytes mem a n ! k = mem (a + of_nat k)"
  by (simp add: mem_bytes_def)

lemma length_mem_bytes [simp]: "length (mem_bytes mem a n) = n"
  by (simp add: mem_bytes_def)

lemma module_stores_same:
  "same_hdrs s (module_stores i st s)" "zst (module_stores i st s) j = zst s j"
  "zw_ops (module_stores i st s) = zw_ops s" "zw_services (module_stores i st s) = zw_services s"
  "unreg (module_stores i st s) j = unreg s j" "zentered (module_stores i st s) j = zentered s j"
  "zwritten (module_stores i st s) j = (if j = i then zwritten s j \<union> {k. st k \<noteq> None} else zwritten s j)"
  "zw_interrupts (module_stores i st s) = zw_interrupts s" "zw_halted (module_stores i st s) = zw_halted s"
  "zw_cut (module_stores i st s) = zw_cut s" "loadable (module_stores i st s) = loadable s"
  by (auto simp: module_stores_def Let_def upd_mod_def set_mem_def same_hdrs_def view_defs unreg_def loadable_def)

lemmas hdrs_module_stores = same_hdrs_views [OF module_stores_same(1)]

lemma in_slot_whole: "in_slot i (sl_address (zzm_slots ! i)) (unat (sl_size (zzm_slots ! i)))"
  by (simp add: in_slot_def)

lemma zimage_stores:
  assumes inv: "zinv sha A s" and i: "i < zzm_slot_count" "zvalid s i" and k: "k < unat (zimg s i)"
  shows "zimage (module_stores i st s) i ! k = (case st k of Some b \<Rightarrow> b | None \<Rightarrow> zimage s i ! k)"
proof -
  have f: "image_fits i (zload s i) (zimg s i) (zbss s i) (zinit s i) (zfini s i)"
    using inv i by (simp add: zinv_def fits_ok_def)
  then have base: "zload s i = sl_address (zzm_slots ! i)" and sz: "unat (zimg s i) \<le> unat (sl_size (zzm_slots ! i))"
    by (simp_all add: image_fits_def)
  have "k < 4294967296" using k fits_in_slot(3) [OF inv i] by linarith
  then have u: "unat (of_nat k :: u32) = k" by (simp add: unat_of_nat)
  have m: "zw_mem (module_stores i st s) = zw_mem (set_mem (sl_address (zzm_slots ! i)) (unat (sl_size (zzm_slots ! i)))
      (\<lambda>k. case st k of Some b \<Rightarrow> b | None \<Rightarrow> zw_mem s (sl_address (zzm_slots ! i) + of_nat k)) s)"
    by (simp add: module_stores_def Let_def upd_mod_def)
  show ?thesis using k sz
    by (cases "st k") (simp_all add: zimage_def hdrs_module_stores mem_bytes_nth m base,
      simp_all add: set_mem_def mem_fill_def u)
qed

lemma image_ok_stores:
  assumes "zinv sha A s" "i < zzm_slot_count" "zvalid s i" "image_ok sha' s i"
  shows "image_ok sha' (module_stores i st s) i"
  using assms(4) zimage_stores [OF assms(1-3)]
  by (auto simp: image_ok_def module_stores_same hdrs_module_stores split: option.split)

lemma zimage_stores_other:
  assumes inv: "zinv sha A s" and i: "i < zzm_slot_count" and j: "j \<noteq> i" "j < zzm_slot_count" "zvalid s j"
  shows "zimage (module_stores i st s) j = zimage s j"
proof -
  have "zimage (module_stores i st s) j = zimage (set_mem (sl_address (zzm_slots ! i)) (unat (sl_size (zzm_slots ! i)))
      (\<lambda>k. case st k of Some b \<Rightarrow> b | None \<Rightarrow> zw_mem s (sl_address (zzm_slots ! i) + of_nat k)) s) j"
    by (simp add: zimage_def hdrs_module_stores) (simp add: module_stores_def Let_def upd_mod_def)
  with zimage_set_mem [OF inv in_slot_whole i j] show ?thesis by simp
qed

text \<open>Module code keeps the invariant: it can only mark its own image as written.\<close>

lemma zinv_module_stores:
  assumes inv: "zinv sha A s" and i: "i < zzm_slot_count"
  shows "zinv sha A (module_stores i st s)"
proof -
  have "ids_ok (module_stores i st s)" "fits_ok (module_stores i st s)" "deps_ok (module_stores i st s)"
    "regs_ok A (module_stores i st s)" "active_ok A (module_stores i st s)" "cut_ok (module_stores i st s)"
    using inv by (simp_all add: zinv_defs module_stores_same hdrs_module_stores)
  moreover have "digest_ok sha (module_stores i st s)"
    unfolding digest_ok_def module_stores_same hdrs_module_stores
  proof (intro allI impI)
    fix j assume j: "j < zzm_slot_count" "zst s j = ZS_LOADED"
    then have d: "zvalid s j" "image_ok sha s j"
      using inv by (auto simp: zinv_def digest_ok_def)
    show "zvalid s j \<and> image_ok sha (module_stores i st s) j"
    proof (cases "j = i")
      case True
      then show ?thesis using image_ok_stores [OF inv j(1) d] d by simp
    next
      case False
      then show ?thesis using d zimage_stores_other [OF inv i False j(1) d(1)]
        by (simp add: image_ok_def module_stores_same hdrs_module_stores)
    qed
  qed
  ultimately show ?thesis by (simp add: zinv_def)
qed

lemma enter_module_same:
  "same_hdrs s (enter_module i a n s)" "zst (enter_module i a n s) j = zst s j"
  "zw_ops (enter_module i a n s) = zw_ops s" "zw_services (enter_module i a n s) = zw_services s"
  "unreg (enter_module i a n s) j = unreg s j" "zw_mem (enter_module i a n s) = zw_mem s"
  "zentered (enter_module i a n s) j = (if j = i then mem_bytes (zw_mem s) a (unat n) else zentered s j)"
  "zwritten (enter_module i a n s) j = (if j = i then {} else zwritten s j)"
  "zw_interrupts (enter_module i a n s) = zw_interrupts s" "zw_halted (enter_module i a n s) = zw_halted s"
  "zw_cut (enter_module i a n s) = zw_cut s" "loadable (enter_module i a n s) = loadable s"
  by (auto simp: enter_module_def upd_mod_def same_hdrs_def view_defs unreg_def loadable_def)

lemmas hdrs_enter_module = same_hdrs_views [OF enter_module_same(1)]

lemma zinv_enter_module:
  assumes inv: "zinv sha A s" and st: "zst s i \<noteq> ZS_LOADED"
  shows "zinv sha A (enter_module i a n s)"
proof -
  have "digest_ok sha (enter_module i a n s)"
    using inv st by (auto simp: zinv_def digest_ok_def image_ok_def zimage_def enter_module_same hdrs_enter_module)
  then show ?thesis using inv by (simp add: zinv_defs enter_module_same hdrs_enter_module)
qed

lemma interrupt_same [simp]:
  "same_hdrs s (interrupt env i p s)" "zst (interrupt env i p s) j = zst s j"
  "zw_ops (interrupt env i p s) = zw_ops s" "zw_services (interrupt env i p s) = zw_services s"
  "unreg (interrupt env i p s) j = unreg s j" "zw_mem (interrupt env i p s) = zw_mem s"
  "zw_mods (interrupt env i p s) = zw_mods s" "zw_cut (interrupt env i p s) = zw_cut s"
  "zw_interrupts (interrupt env i p s) = zw_interrupts s" "loadable (interrupt env i p s) = loadable s"
  "image_ok sha (interrupt env i p s) j = image_ok sha s j" "zimage (interrupt env i p s) j = zimage s j"
  by (auto simp: interrupt_def same_hdrs_def view_defs unreg_def loadable_def image_ok_def zimage_def
      zload_def zimg_def zsha_def)

lemmas hdrs_interrupt [simp] = same_hdrs_views [OF interrupt_same(1)]

text \<open>The ghosts of an interruption, on their own.\<close>

lemma ghost_same:
  "same_hdrs s (s\<lparr>zw_halted := h, zw_cut := c\<rparr>)" "zst (s\<lparr>zw_halted := h, zw_cut := c\<rparr>) j = zst s j"
  "unreg (s\<lparr>zw_halted := h, zw_cut := c\<rparr>) j = unreg s j" "zimage (s\<lparr>zw_halted := h, zw_cut := c\<rparr>) j = zimage s j"
  "zentered (s\<lparr>zw_halted := h, zw_cut := c\<rparr>) j = zentered s j"
  "zwritten (s\<lparr>zw_halted := h, zw_cut := c\<rparr>) j = zwritten s j"
  "loadable (s\<lparr>zw_halted := h, zw_cut := c\<rparr>) = loadable s"
  by (simp_all add: same_hdrs_def view_defs unreg_def zimage_def zload_def zimg_def loadable_def)

lemmas hdrs_ghost = same_hdrs_views [OF ghost_same(1)]

lemma zinv_ghost:
  assumes inv: "zinv sha B s" and A: "A \<subseteq> B" "B \<subseteq> A \<union> c" "zw_cut s \<subseteq> c"
    and h: "zw_interrupts s \<or> \<not> h \<and> c = {}"
  shows "zinv sha A (s\<lparr>zw_halted := h, zw_cut := c\<rparr>)" (is "zinv sha A ?t")
proof -
  have "ids_ok ?t" "fits_ok ?t" "deps_ok ?t"
    using inv by (simp_all add: zinv_def ids_ok_def fits_ok_def deps_ok_def hdrs_ghost)
  moreover have "digest_ok sha ?t"
    using inv by (simp add: zinv_def digest_ok_def image_ok_def ghost_same hdrs_ghost)
  moreover have "regs_ok A ?t"
    using inv A unfolding zinv_def regs_ok_def active_ok_def ghost_same by (simp; blast)
  moreover have "active_ok A ?t"
    using inv A unfolding zinv_def active_ok_def ghost_same by (simp; blast)
  moreover have "cut_ok ?t" using h by (auto simp: cut_ok_def)
  ultimately show ?thesis by (simp add: zinv_def)
qed

lemma zinv_interrupt: "zinv sha A s \<Longrightarrow> zinv sha A (interrupt env i p s)"
  using zinv_ghost [of sha A s A "zw_cut s" True] by (simp add: interrupt_def)

lemma zinv_unhalt: "zinv sha A s \<Longrightarrow> zinv sha A (s\<lparr>zw_halted := False\<rparr>)"
  using zinv_ghost [of sha A s A "zw_cut s" False] by (auto simp: zinv_def cut_ok_def)

section \<open>Withdrawing a module\<close>

lemma unregister_reg_only: "reg_only s (unregister_module i s)"
  by (auto simp: reg_only_def unregister_module_def zzm_registry_unregister_module_def Let_def split: option.splits)

lemma unregister_views [simp]:
  "zst (unregister_module i s) j = zst s j" "same_hdrs s (unregister_module i s)"
  using reg_only_views [OF unregister_reg_only] by auto

lemmas hdrs_unregister [simp] = same_hdrs_views [OF unregister_views(2)]

lemma unregister_services:
  "zw_services (unregister_module i s) = map (\<lambda>p. if ps_module_id p = zid s i then no_service else p) (zw_services s)"
  by (auto simp: unregister_module_def zzm_registry_unregister_module_def Let_def zid_def split: option.splits)

lemma unregister_unreg:
  assumes "ids_ok s" "i < zzm_slot_count"
  shows "unreg (unregister_module i s) i" "unreg s j \<Longrightarrow> unreg (unregister_module i s) j"
proof -
  have zid: "zid s i = sl_id (zzm_slots ! i)" using assms by (simp add: ids_ok_def)
  have idx: "registry_module_index (zid s i) s = Some i"
    using assms by (simp add: registry_module_index_ok zid)
  have ops: "zw_ops (unregister_module i s) = (zw_ops s)(i := 0)"
    using idx assms(2) by (simp add: unregister_module_def zzm_registry_unregister_module_def Let_def zid_def
      ZZM_REGISTRY_MODULES_def zzm_slot_count_def)
  show "unreg (unregister_module i s) i"
    by (auto simp: unreg_def ops unregister_services zid no_service_def)
  show "unreg (unregister_module i s) j" if "unreg s j"
    using that by (auto simp: unreg_def ops unregister_services no_service_def)
qed

lemma zinv_unregister:
  assumes inv: "zinv sha A s" and i: "i < zzm_slot_count"
  shows "zinv sha A (unregister_module i s)"
proof (rule zinv_reg_only [OF unregister_reg_only inv])
  have ids: "ids_ok s" and r: "regs_ok A s" using inv by (simp_all add: zinv_def)
  show "regs_ok A (unregister_module i s)"
    using r unregister_unreg(2) [OF ids i] unfolding regs_ok_def reg_only_ghosts(6) [OF unregister_reg_only]
    by (auto simp: unregister_services no_service_def)
qed

section \<open>Releasing and failing\<close>

definition zevolves :: "(u8 list \<Rightarrow> u8 list) \<Rightarrow> nat set \<Rightarrow> zzm_world \<Rightarrow> zzm_world \<Rightarrow> bool" where
  "zevolves sha A s t \<longleftrightarrow> zinv sha A t \<and> same_hdrs s t \<and> loadable t \<subseteq> loadable s"

lemma zevolves_refl [simp]: "zinv sha A s \<Longrightarrow> zevolves sha A s s"
  by (simp add: zevolves_def)

lemma zevolves_trans [trans]: "zevolves sha A s t \<Longrightarrow> zevolves sha A t u \<Longrightarrow> zevolves sha A s u"
  by (auto simp: zevolves_def intro: same_hdrs_trans)

lemma zevolves_view: "zevolves sha A s t \<Longrightarrow> same_view t u \<Longrightarrow> zevolves sha A s u"
  by (auto simp: zevolves_def same_view_views intro: same_view_zinv same_hdrs_trans same_view_hdrs)

lemma same_view_set_state: "same_view s t \<Longrightarrow> same_view (set_state i st s) (set_state i st t)"
  by (auto simp: same_view_def set_state_def upd_mod_def view_defs)

lemmas hdrs_set_refs [simp] = same_hdrs_views [OF same_view_hdrs [OF same_view_set_refs]]
lemmas hdrs_set_idle [simp] = same_hdrs_views [OF same_view_hdrs [OF same_view_set_idle]]
lemmas hdrs_set_held [simp] = same_hdrs_views [OF same_view_hdrs [OF same_view_set_held]]
lemmas view_set_refs [simp] = same_view_views [OF same_view_set_refs]
lemmas view_set_idle [simp] = same_view_views [OF same_view_set_idle]
lemmas view_set_held [simp] = same_view_views [OF same_view_set_held]
lemmas hdrs_poison [simp] = same_hdrs_views [OF poison_same(1)] same_hdrs_views [OF poison_same(2)]

lemma release_v2_view:
  assumes "\<And>i. module_index m = Some i \<Longrightarrow> \<not> is_v3 s i"
  shows "same_view s (release_upto n env m s)"
proof (cases n)
  case (Suc k)
  show ?thesis
  proof (cases "module_index m")
    case None
    then show ?thesis by (simp add: Suc release_with_def)
  next
    case (Some i)
    then have "\<not> is_v3 s i" by (rule assms)
    moreover have "same_view s (set_idle i (zw_last_poll (set_refs i (refs s i - 1) s)) (set_refs i (refs s i - 1) s))"
      by (rule same_view_trans [OF same_view_set_refs same_view_set_idle])
    ultimately show ?thesis by (simp add: Suc release_with_def Some Let_def)
  qed
qed simp

lemma release_all_v2_view:
  assumes "\<And>m t. same_hdrs s t \<Longrightarrow> (\<And>i. module_index m = Some i \<Longrightarrow> \<not> is_v3 s i) \<Longrightarrow> same_view t (rel m t)"
    and "\<forall>d \<in> set ds. d < zzm_slot_count \<and> \<not> is_v3 s d" "same_view s t"
  shows "same_view s (fold (\<lambda>d. rel (sl_id (zzm_slots ! d))) ds t)"
  using assms(2,3)
proof (induction ds arbitrary: t)
  case (Cons d ds)
  have "same_view t (rel (sl_id (zzm_slots ! d)) t)"
    by (rule assms(1)) (use Cons.prems same_view_hdrs in auto)
  with Cons.prems(2) have "same_view s (rel (sl_id (zzm_slots ! d)) t)" by (rule same_view_trans)
  with Cons show ?case by simp
qed simp

lemma release_dependencies_view:
  assumes "deps_ok s" "i < zzm_slot_count"
  shows "same_view s (release_dependencies_with (release_upto n env) i s)"
proof -
  let ?ds = "take (zm_dependencies_held (zw_mods s i)) (zm_dependencies (zw_mods s i))"
  have "same_view s (fold (\<lambda>d. release_upto n env (sl_id (zzm_slots ! d))) ?ds s)"
  proof (rule release_all_v2_view)
    fix m t assume "same_hdrs s t" "\<And>i. module_index m = Some i \<Longrightarrow> \<not> is_v3 s i"
    then show "same_view t (release_upto n env m t)" by (intro release_v2_view) (simp add: same_hdrs_views)
  next
    show "\<forall>d \<in> set ?ds. d < zzm_slot_count \<and> \<not> is_v3 s d"
      using assms set_take_subset [of _ "zdeps s i"] by (fastforce simp: deps_ok_def zdeps_def)
  qed simp
  then show ?thesis unfolding release_dependencies_with_def by (rule same_view_trans [OF _ same_view_set_held])
qed

text \<open>
  Leaving the active set with a state that is neither loaded nor loading, after the
  registry entries are withdrawn and the slot poisoned.
\<close>

definition settled :: "zzm_state \<Rightarrow> bool" where
  "settled st \<longleftrightarrow> st \<noteq> ZS_LOADED \<and> st \<noteq> ZS_LOADING"

lemma zinv_withdraw:
  assumes inv: "zinv sha B s" and i: "i < zzm_slot_count" and B: "B = insert i A \<or> B = A" "i \<notin> A" and st: "settled st"
  shows "zinv sha A (set_state i st (unregister_module i s))"
    "\<not> is_v3 s i \<Longrightarrow> zinv sha A (set_state i st (poison_slot i (unregister_module i s)))"
    "is_v3 s i \<Longrightarrow> zinv sha A (set_state i st (poison_v3_slot i (unregister_module i s)))"
proof -
  have ids: "ids_ok s" using inv by (simp add: zinv_def)
  show base: "zinv sha A (set_state i st (unregister_module i s))"
    using zinv_unregister [OF inv i] B st unregister_unreg(1) [OF ids i]
    by (intro zinv_set_state [where A = B]) (auto simp: settled_def)
  show "\<not> is_v3 s i \<Longrightarrow> zinv sha A (set_state i st (poison_slot i (unregister_module i s)))"
    "is_v3 s i \<Longrightarrow> zinv sha A (set_state i st (poison_v3_slot i (unregister_module i s)))"
    using zinv_poison [OF base i] st by (simp_all add: settled_def)
qed

lemma load_failed_ok:
  assumes inv: "zinv sha (insert i A) s" and i: "i < zzm_slot_count" "i \<notin> A" "\<not> is_v3 s i" and st: "settled st"
  shows "zinv sha A (load_failed env i st r s)" "same_hdrs s (load_failed env i st r s)"
    "zst (load_failed env i st r s) j = (if j = i then st else zst s j)"
proof -
  let ?p = "poison_slot i (unregister_module i s)"
  have deps: "deps_ok ?p" and ids: "ids_ok ?p"
    using inv by (simp_all add: zinv_defs)
  define t where "t = set_refs i 0 (release_dependencies env i ?p)"
  have pt: "same_view ?p t" unfolding t_def release_dependencies_def zzm_loader_release_def
    by (rule same_view_trans [OF release_dependencies_view [OF deps i(1)] same_view_set_refs])
  have "zid t i = sl_id (zzm_slots ! i)"
    using ids i(1) same_hdrs_views [OF same_view_hdrs [OF pt]] by (simp add: ids_ok_def)
  from status_v2_view [OF this, of st "Some (header_of t i)" r]
  have vt: "same_view (set_state i st ?p) (load_failed env i st r s)"
    unfolding load_failed_def unregister_and_reclaim_def Let_def t_def [symmetric]
    by (rule same_view_trans [OF same_view_set_state [OF pt]])
  show "zinv sha A (load_failed env i st r s)"
    by (rule same_view_zinv [OF vt]) (rule zinv_withdraw(2) [OF inv i(1) _ i(2) st i(3)], simp)
  show "same_hdrs s (load_failed env i st r s)"
    by (rule same_hdrs_trans [OF _ same_view_hdrs [OF vt]])
      (blast intro: same_hdrs_trans set_state_same(1) poison_same unregister_views)
  show "zst (load_failed env i st r s) j = (if j = i then st else zst s j)"
    by (simp add: same_view_views [OF vt])
qed

lemma load_v3_failed_ok:
  assumes inv: "zinv sha (insert i A) s" and i: "i < zzm_slot_count" "i \<notin> A" "is_v3 s i" and st: "settled st"
  shows "zinv sha A (load_v3_failed i st r s)" "same_hdrs s (load_v3_failed i st r s)"
    "zst (load_v3_failed i st r s) j = (if j = i then st else zst s j)"
proof -
  let ?p = "poison_v3_slot i (unregister_module i s)"
  define t where "t = set_refs i 0 ?p"
  have ids: "ids_ok ?p" using inv by (simp add: zinv_defs)
  have pt: "same_view ?p t" unfolding t_def by (rule same_view_set_refs)
  have "zid t i = sl_id (zzm_slots ! i)"
    using ids i(1) same_hdrs_views [OF same_view_hdrs [OF pt]] by (simp add: ids_ok_def)
  from status_v3_view [OF this, of st "Some (v3_header_of t i)" r]
  have vt: "same_view (set_state i st ?p) (load_v3_failed i st r s)"
    unfolding load_v3_failed_def Let_def t_def [symmetric]
    by (rule same_view_trans [OF same_view_set_state [OF pt]])
  show "zinv sha A (load_v3_failed i st r s)"
    by (rule same_view_zinv [OF vt]) (rule zinv_withdraw(3) [OF inv i(1) _ i(2) st i(3)], simp)
  show "same_hdrs s (load_v3_failed i st r s)"
    by (rule same_hdrs_trans [OF _ same_view_hdrs [OF vt]])
      (blast intro: same_hdrs_trans set_state_same(1) poison_same unregister_views)
  show "zst (load_v3_failed i st r s) j = (if j = i then st else zst s j)"
    by (simp add: same_view_views [OF vt])
qed

section \<open>One load, given how services are found\<close>

text \<open>How a load that started with module \<open>i\<close> active ends: settled, or loaded.\<close>

definition settles :: "(u8 list \<Rightarrow> u8 list) \<Rightarrow> nat set \<Rightarrow> nat \<Rightarrow> zzm_world \<Rightarrow> bool \<times> zzm_world \<Rightarrow> bool" where
  "settles sha A i s r \<longleftrightarrow> zinv sha A (snd r) \<and> same_hdrs s (snd r) \<and>
     loadable (snd r) \<subseteq> insert i (loadable s) \<and> (fst r \<longrightarrow> zst (snd r) i = ZS_LOADED)"

lemma verify_shape_not_loaded [simp]:
  "verify_header_shape h n \<noteq> ZS_LOADED" "verify_v3_header_shape g n caps \<noteq> ZS_LOADED"
  by (simp_all add: verify_header_shape_def verify_v3_header_shape_def)

lemma settles_failed:
  assumes ev: "zevolves sha (insert i A) s t" and i: "i < zzm_slot_count" "i \<notin> A" "\<not> is_v3 s i" and st: "settled st"
  shows "settles sha A i s (False, load_failed env i st r t)"
proof -
  from ev have t: "zinv sha (insert i A) t" "same_hdrs s t" "loadable t \<subseteq> loadable s" by (auto simp: zevolves_def)
  have v: "\<not> is_v3 t i" using i(3) same_hdrs_views [OF t(2)] by simp
  note lf = load_failed_ok [OF t(1) i(1,2) v st]
  show ?thesis using lf(1) same_hdrs_trans [OF t(2) lf(2)] t(3) lf(3)
    by (auto simp: settles_def loadable_def)
qed

lemma settles_v3_failed:
  assumes ev: "zevolves sha (insert i A) s t" and i: "i < zzm_slot_count" "i \<notin> A" "is_v3 s i" and st: "settled st"
  shows "settles sha A i s (False, load_v3_failed i st r t)"
proof -
  from ev have t: "zinv sha (insert i A) t" "same_hdrs s t" "loadable t \<subseteq> loadable s" by (auto simp: zevolves_def)
  have v: "is_v3 t i" using i(3) same_hdrs_views [OF t(2)] by simp
  note lf = load_v3_failed_ok [OF t(1) i(1,2) v st]
  show ?thesis using lf(1) same_hdrs_trans [OF t(2) lf(2)] t(3) lf(3)
    by (auto simp: settles_def loadable_def)
qed

text \<open>An interrupted load settles too: it leaves the module as it is, and says so.\<close>

lemma zinv_abandon:
  assumes inv: "zinv sha (insert i A) t" and h: "zw_halted t"
  shows "zinv sha A (abandon_load i t)" "same_hdrs t (abandon_load i t)" "loadable (abandon_load i t) = loadable t"
proof -
  show "same_hdrs t (abandon_load i t)" "loadable (abandon_load i t) = loadable t"
    by (simp_all add: abandon_load_def same_hdrs_def view_defs loadable_def)
  show "zinv sha A (abandon_load i t)"
  proof -
    have "abandon_load i t = t\<lparr>zw_halted := True, zw_cut := insert i (zw_cut t)\<rparr>"
      using h by (cases t) (simp add: abandon_load_def)
    moreover have "zw_interrupts t" using inv h by (auto simp: zinv_def cut_ok_def)
    ultimately show ?thesis using zinv_ghost [OF inv, of A "insert i (zw_cut t)" True] by auto
  qed
qed

lemma settles_failing:
  assumes ev: "zevolves sha (insert i A) s t" and i: "i < zzm_slot_count" "i \<notin> A" "\<not> is_v3 s i" and st: "settled st"
  shows "settles sha A i s (False, fail_load env i st r t)"
proof (cases "zw_halted t")
  case True
  from ev have t: "zinv sha (insert i A) t" "same_hdrs s t" "loadable t \<subseteq> loadable s" by (auto simp: zevolves_def)
  show ?thesis using zinv_abandon [OF t(1) True] same_hdrs_trans [OF t(2)] t(3) True
    by (auto simp: settles_def fail_load_def)
qed (use settles_failed [OF assms] in \<open>simp add: fail_load_def\<close>)

lemma settles_v3_failing:
  assumes ev: "zevolves sha (insert i A) s t" and i: "i < zzm_slot_count" "i \<notin> A" "is_v3 s i" and st: "settled st"
  shows "settles sha A i s (False, fail_v3_load i st r t)"
proof (cases "zw_halted t")
  case True
  from ev have t: "zinv sha (insert i A) t" "same_hdrs s t" "loadable t \<subseteq> loadable s" by (auto simp: zevolves_def)
  show ?thesis using zinv_abandon [OF t(1) True] same_hdrs_trans [OF t(2)] t(3) True
    by (auto simp: settles_def fail_v3_load_def)
qed (use settles_v3_failed [OF assms] in \<open>simp add: fail_v3_load_def\<close>)

lemma loadable_same [simp]: "loadable (set_mem a n f s) = loadable s"
  by (simp add: loadable_def)

lemma active_not_loaded: "zinv sha A s \<Longrightarrow> i \<in> A \<Longrightarrow> i < zzm_slot_count \<Longrightarrow> zst s i \<noteq> ZS_LOADED"
  by (auto simp: zinv_def active_ok_def)

lemma zevolves_interrupt: "zevolves sha A s t \<Longrightarrow> zevolves sha A s (interrupt env i p t)"
  by (auto simp: zevolves_def zinv_interrupt intro: same_hdrs_trans [OF _ interrupt_same(1)])

lemma read_payload_bound: "length (fst (read_payload f off n)) \<le> unat n"
  by (simp add: read_payload_def f_read_def Let_def)

text \<open>The file's bytes stay in the slot.\<close>

lemma payload_read:
  assumes inv: "zinv sha A s" and i: "i \<in> A" "i < zzm_slot_count" "zvalid s i" and n: "n \<le> unat (zimg s i)"
  shows "zevolves sha A s (set_mem (zload s i) n f s)"
proof -
  have "in_slot i (zload s i) n"
    using fits_in_slot(2) [OF inv i(2,3)] n unfolding in_slot_def by linarith
  from zinv_set_mem [OF inv this i(2) active_not_loaded [OF inv i(1,2)]]
  show ?thesis by (simp add: zevolves_def)
qed

text \<open>
  Clearing the BSS leaves the verified image alone; it is what init finds, and the module's
  own stores are accounted for.
\<close>

lemma payload_start:
  fixes env :: zzm_env and e :: u32 and f :: "nat \<Rightarrow> u8"
  assumes inv: "zinv sha A s" and i: "i \<in> A" "i < zzm_slot_count" "zvalid s i"
  defines "t \<equiv> snd (run_init env i e (enter_module i (zload s i) (zimg s i)
      (set_mem (zload s i + zimg s i) (unat (zbss s i)) f s)))"
  shows "zevolves sha A s t" "sha (zimage s i) = zsha s i \<Longrightarrow> image_ok sha t i"
proof -
  have lt: "unat (zload s i) + unat (zimg s i) < 4294967296" using fits_in_slot(3) [OF inv i(2,3)] by linarith
  note a = unat_plus_no_wrap [OF lt]
  define u where "u = set_mem (zload s i + zimg s i) (unat (zbss s i)) f s"
  define v where "v = enter_module i (zload s i) (zimg s i) u"
  define w where "w = fold run_reg_call (fst (ze_init env e)) v"
  have t: "t = interrupt env i In_init (module_stores i (ze_stores env e) w)"
    by (simp add: t_def run_init_def w_def v_def u_def)
  have slot: "in_slot i (zload s i + zimg s i) (unat (zbss s i))"
    using fits_in_slot(1) [OF inv i(2,3)] unfolding in_slot_def a by linarith
  have uinv: "zinv sha A u" "zst u i \<noteq> ZS_LOADED"
    using zinv_set_mem [OF inv slot i(2) active_not_loaded [OF inv i(1,2)]] active_not_loaded [OF inv i(1,2)]
    by (simp_all add: u_def)
  have uh: "same_hdrs s u" "loadable u = loadable s" by (simp_all add: u_def)
  have vinv: "zinv sha A v" unfolding v_def by (rule zinv_enter_module [OF uinv])
  have vh: "same_hdrs s v" "loadable v = loadable s"
    using same_hdrs_trans [OF uh(1) enter_module_same(1)] uh(2) by (simp_all add: v_def enter_module_same)
  note ro = fold_reg_only [of v "fst (ze_init env e)", folded w_def]
  have winv: "zinv sha A w" unfolding w_def by (rule zinv_fold_reg [OF vinv])
  have wh: "same_hdrs s w" "loadable w = loadable s"
    using same_hdrs_trans [OF vh(1) reg_only_views(2) [OF ro]] reg_only_views(4) [OF ro] vh(2) by simp_all
  have "same_hdrs s t" unfolding t
    by (rule same_hdrs_trans [OF same_hdrs_trans [OF wh(1) module_stores_same(1)] interrupt_same(1)])
  then show "zevolves sha A s t"
    using zinv_interrupt [OF zinv_module_stores [OF winv i(2)]] wh(2)
    by (simp add: zevolves_def t module_stores_same)
  assume d: "sha (zimage s i) = zsha s i"
  have "mem_bytes (mem_fill (zload s i + zimg s i) (unat (zbss s i)) f (zw_mem s)) (zload s i) (unat (zimg s i)) =
    mem_bytes (zw_mem s) (zload s i) (unat (zimg s i))"
    by (rule mem_bytes_fill) (use fits_in_slot(3) [OF inv i(2,3)] in \<open>simp_all add: a\<close>)
  then have z: "zimage u i = zimage s i"
    unfolding u_def by (simp add: zimage_def) (simp add: set_mem_def)
  have h: "zload u i = zload s i" "zimg u i = zimg s i" "zsha u i = zsha s i" using same_hdrs_views [OF uh(1)] by simp_all
  have e: "zentered v i = zimage u i" "zwritten v i = {}" "zimage v i = zimage u i"
    by (simp_all add: v_def enter_module_same zimage_def hdrs_enter_module h)
  have "image_ok sha v i"
    using d same_hdrs_views [OF vh(1)] by (simp add: image_ok_def e z) (simp add: zimage_def)
  then have "image_ok sha w i" using reg_only_ghosts(3) [OF ro] by simp
  then show "image_ok sha t i"
    using image_ok_stores [OF winv i(2)] i(3) same_hdrs_views [OF wh(1)] by (simp add: t)
qed

lemma settles_loaded:
  assumes ev: "zevolves sha (insert i A) s t" and i: "i < zzm_slot_count" "i \<notin> A" "zvalid s i"
    and d: "image_ok sha t i" and u: "same_view (set_state i ZS_LOADED t) u"
  shows "settles sha A i s (True, u)"
proof -
  from ev have t: "zinv sha (insert i A) t" "same_hdrs s t" "loadable t \<subseteq> loadable s" by (auto simp: zevolves_def)
  have "zinv sha A (set_state i ZS_LOADED t)"
    by (rule zinv_set_state [OF t(1)]) (use i d same_hdrs_views [OF t(2)] in auto)
  moreover have "loadable u \<subseteq> loadable s"
    using t(3) by (auto simp: same_view_views [OF u] loadable_def split: if_splits)
  ultimately show ?thesis
    using same_hdrs_trans [OF t(2) same_hdrs_trans [OF set_state_same(1) same_view_hdrs [OF u]]] same_view_zinv [OF u]
    by (auto simp: settles_def same_view_views [OF u])
qed

text \<open>
  The interface: ensuring a module, whatever it loads on the way, keeps the invariant,
  the headers and the set of modules still to be loaded.
\<close>

locale service_loader =
  fixes env :: zzm_env and ensure :: "u32 \<Rightarrow> zzm_world \<Rightarrow> bool \<times> zzm_world"
  assumes ensure_evolves: "\<And>m s A. zinv (ze_sha256 env) A s \<Longrightarrow> zevolves (ze_sha256 env) A s (snd (ensure m s))"
begin

lemma ensure_service_evolves:
  "zinv (ze_sha256 env) A s \<Longrightarrow> zevolves (ze_sha256 env) A s (snd (ensure_service_with ensure svc ver s))"
  by (auto simp: ensure_service_with_def ensure_evolves split: option.split)

lemma get_service_evolves:
  assumes "zinv (ze_sha256 env) A s"
  shows "zevolves (ze_sha256 env) A s (snd (get_service_with ensure svc ver s))"
  using ensure_service_evolves [OF assms, of svc ver] assms
  by (auto simp: get_service_with_def split: prod.split bool.split)

lemma check_services_evolves:
  "zinv (ze_sha256 env) A s \<Longrightarrow> zevolves (ze_sha256 env) A s (snd (check_services ensure rs s))"
proof (induction rs arbitrary: s)
  case (Cons r rs)
  obtain p t where pt: "get_service_with ensure (rq_id r) (rq_version r) s = (p, t)" by fastforce
  have t: "zevolves (ze_sha256 env) A s t"
    using get_service_evolves [OF Cons.prems, of "rq_id r" "rq_version r"] by (simp add: pt)
  then have "zinv (ze_sha256 env) A t" by (simp add: zevolves_def)
  from zevolves_trans [OF t Cons.IH [OF this]] t Cons show ?case by (simp add: pt)
qed simp

lemma verify_evolves:
  assumes "zinv (ze_sha256 env) A s"
  shows "zevolves (ze_sha256 env) A s (snd (zzm_verify_image env ensure h n s))"
    "zevolves (ze_sha256 env) A s (snd (zzm_verify_v3_image env ensure g n s))"
  using check_services_evolves [OF assms, of "take (unat (zh_required_count h)) (zh_required h)"]
    check_services_evolves [OF assms, of "take (unat (z3_required_count g)) (z3_required g)"] assms
  by (auto simp: zzm_verify_image_def zzm_verify_v3_image_def Let_def split: prod.split bool.split)

lemma verify_loaded:
  "zzm_verify_image env ensure h n s = (ZS_LOADED, t) \<Longrightarrow>
    ze_sha256 env (mem_bytes (zw_mem t) (zh_load_address h) (unat (zh_image_size h))) = zh_sha256 h"
  "zzm_verify_v3_image env ensure g n s = (ZS_LOADED, t) \<Longrightarrow>
    ze_sha256 env (mem_bytes (zw_mem t) (z3_load_address g) (unat (z3_image_size g))) = z3_sha256 g"
  by (auto simp: zzm_verify_image_def zzm_verify_v3_image_def Let_def split: prod.splits bool.splits if_splits)

lemma load_payload_settles:
  assumes inv: "zinv (ze_sha256 env) (insert i A) s"
    and i: "i < zzm_slot_count" "i \<notin> A" "zvalid s i" "\<not> is_v3 s i"
  shows "settles (ze_sha256 env) A i s (load_payload env ensure i s)"
proof -
  let ?sha = "ze_sha256 env" and ?B = "insert i A" and ?h = "header_of s i"
  note fail0 = settles_failed [OF _ i(1,2,4), of _ _ ZS_LOAD_FAILED env]
  note fail = settles_failing [OF _ i(1,2,4), of _ _ ZS_LOAD_FAILED env]
  have st: "settled ZS_LOAD_FAILED" by (simp add: settled_def)
  have hv: "zload s i = zh_load_address ?h" "zimg s i = zh_image_size ?h" "zbss s i = zh_bss_size ?h"
    "zsha s i = zh_sha256 ?h" using i(4) by (simp_all add: zload_def zimg_def zbss_def zsha_def)
  show ?thesis
  proof (cases "ze_quota env (zh_memory_class ?h) (zh_memory_quota ?h)")
    case False
    then show ?thesis using fail0 [OF zevolves_refl [OF inv] st] by (simp add: load_payload_def Let_def)
  next
    case quota: True
    show ?thesis
    proof (cases "ze_open env (module_path i)")
      case None
      then show ?thesis using fail0 [OF zevolves_refl [OF inv] st] quota by (simp add: load_payload_def Let_def)
    next
      case (Some f)
      obtain bs ok where rd: "read_payload f ZZM_HEADER_SIZE (zh_image_size ?h) = (bs, ok)" by fastforce
      define s2 where "s2 = interrupt env i Image_read (set_mem (zh_load_address ?h) (length bs) (\<lambda>k. bs ! k) s)"
      have s2: "zevolves ?sha ?B s s2"
        using zevolves_interrupt [OF payload_read [OF inv insertI1 i(1,3)]]
          read_payload_bound [of f ZZM_HEADER_SIZE "zh_image_size ?h"]
        by (simp add: rd hv s2_def)
      obtain st3 s3 where v: "zzm_verify_image env ensure ?h (ZZM_HEADER_SIZE + zh_image_size ?h) s2 = (st3, s3)"
        by fastforce
      have s3: "zevolves ?sha ?B s s3"
        using zevolves_trans [OF s2 verify_evolves(1) [of ?B s2 ?h "ZZM_HEADER_SIZE + zh_image_size ?h"]] s2 v
        by (simp add: zevolves_def)
      obtain ok4 s4 where init: "run_init env i (zh_init_entry ?h) (enter_module i (zh_load_address ?h) (zh_image_size ?h)
          (set_mem (zh_load_address ?h + zh_image_size ?h) (unat (zh_bss_size ?h)) (\<lambda>_. 0) s3)) = (ok4, s4)"
        by fastforce
      note h3 = same_hdrs_views [of s s3]
      have s3': "zinv ?sha ?B s3" "same_hdrs s s3" using s3 by (auto simp: zevolves_def)
      have i3: "zvalid s3 i" using i(3) h3 [OF s3'(2)] by simp
      have s4: "zevolves ?sha ?B s s4" "?sha (zimage s3 i) = zsha s3 i \<Longrightarrow> image_ok ?sha s4 i"
        using payload_start [OF s3'(1) insertI1 i(1) i3, of env "zh_init_entry ?h" "\<lambda>_. 0"] zevolves_trans [OF s3] init
        by (simp_all add: h3 [OF s3'(2)] hv)
      have s4': "same_hdrs s s4" "zinv ?sha ?B s4" using s4 by (auto simp: zevolves_def)
      have dig: "image_ok ?sha s4 i" if "st3 = ZS_LOADED"
        by (rule s4(2)) (use verify_loaded(1) [OF v [unfolded that]] in \<open>simp add: zimage_def hv h3 [OF s3'(2)]\<close>)
      let ?u = "status_from_slot i ZS_LOADED (Some ?h) ZZM_REASON_NONE s4"
      have "zid s4 i = sl_id (zzm_slots ! i)" using s4'(2) i(1) by (simp add: zinv_def ids_ok_def)
      from same_view_trans [OF status_v2_view [OF this] same_view_set_idle]
      have u: "same_view (set_state i ZS_LOADED s4) (set_idle i (zw_last_poll ?u) ?u)" .
      show ?thesis
        using quota Some rd fail [OF s2 st, of ZZM_REASON_FILE_READ] fail [OF s3 st, of ZZM_REASON_IMAGE_INVALID]
          fail [OF s4(1) st, of ZZM_REASON_INIT] settles_loaded [OF s4(1) i(1-3) dig u] v init
        by (simp add: load_payload_def Let_def s2_def [symmetric])
    qed
  qed
qed

lemma load_v3_module_settles:
  assumes inv: "zinv (ze_sha256 env) A s" and i: "i < zzm_slot_count" "is_v3 s i"
  shows "settles (ze_sha256 env) A i s (load_v3_module env ensure i s) \<and>
    loadable (snd (load_v3_module env ensure i s)) \<subseteq> loadable s"
proof -
  let ?sha = "ze_sha256 env" and ?B = "insert i A" and ?h = "v3_header_of s i"
  have zid: "zid s i = sl_id (zzm_slots ! i)" using inv i(1) by (simp add: zinv_def ids_ok_def)
  have hv: "zload s i = z3_load_address ?h" "zimg s i = z3_image_size ?h" "zbss s i = z3_bss_size ?h"
    "zsha s i = z3_sha256 ?h" using i(2) by (simp_all add: zload_def zimg_def zbss_def zsha_def)
  have st: "settled ZS_LOAD_FAILED" by (simp add: settled_def)
  have same: "settles ?sha A i s (b, s)" if "b \<longrightarrow> zst s i = ZS_LOADED" for b
    using inv that by (auto simp: settles_def)
  show ?thesis
  proof (cases "zst s i = ZS_AVAILABLE \<and> zvalid s i")
    case False
    then have "load_v3_module env ensure i s = (zst s i = ZS_LOADED, s)"
      by (auto simp: load_v3_module_def Let_def zvalid_def)
    then show ?thesis using same [of "zst s i = ZS_LOADED"] by simp
  next
    case True
    then have avail: "zst s i = ZS_AVAILABLE" and val: "zvalid s i" by blast+
    have iA: "i \<notin> A" using inv i(1) avail by (auto simp: zinv_def active_ok_def)
    have il: "insert i (loadable s) = loadable s" using i(1) avail by (auto simp: loadable_def)
    have inv1: "zinv ?sha ?B (set_state i ZS_LOADING s)"
      by (rule zinv_set_state [OF inv]) auto
    define s1 where "s1 = set_state i ZS_LOADING s"
    have s1: "zinv ?sha ?B s1" "same_hdrs s s1" "loadable s1 \<subseteq> loadable s"
      using inv1 by (auto simp: s1_def loadable_def split: if_splits)
    note h1 = same_hdrs_views [OF s1(2)]
    have v1: "zvalid s1 i" "is_v3 s1 i" using val i(2) by (simp_all add: h1)
    have onto: "settles ?sha A i s r" if "settles ?sha A i s1 r" for r
      using that s1(2,3) il by (auto simp: settles_def intro: same_hdrs_trans)
    note fail0 = onto [OF settles_v3_failed [OF _ i(1) iA v1(2), of _ _ ZS_LOAD_FAILED]]
    note fail = onto [OF settles_v3_failing [OF _ i(1) iA v1(2), of _ _ ZS_LOAD_FAILED]]
    have busy: "settles ?sha A i s (False, status_from_v3_slot i ZS_LOAD_FAILED (Some ?h) ZZM_REASON_STORAGE_BUSY s)"
    proof -
      let ?t = "set_state i ZS_LOAD_FAILED s"
      have "unreg s i" using inv i(1) iA avail by (auto simp: zinv_def regs_ok_def)
      then have "zinv ?sha A ?t" using iA by (intro zinv_set_state [OF inv]) auto
      moreover note u = status_v3_view [OF zid, of ZS_LOAD_FAILED "Some ?h" ZZM_REASON_STORAGE_BUSY]
      ultimately show ?thesis
        using same_view_zinv [OF u] same_hdrs_trans [OF set_state_same(1) same_view_hdrs [OF u]]
        by (auto simp: settles_def same_view_views [OF u] loadable_def split: if_splits)
    qed
    have "settles ?sha A i s (load_v3_module env ensure i s)"
    proof (cases "ze_idle env i \<and> ze_quota env 5 (z3_resident_quota ?h)")
      case False
      then show ?thesis using busy fail0 [OF zevolves_refl [OF s1(1)] st] avail val
        by (auto simp: load_v3_module_def Let_def zvalid_def s1_def)
    next
      case ready: True
      show ?thesis
      proof (cases "ze_open env (module_path i)")
        case None
        then show ?thesis using fail0 [OF zevolves_refl [OF s1(1)] st] ready avail val
          by (simp add: load_v3_module_def Let_def zvalid_def s1_def)
      next
        case (Some f)
        obtain bs ok where rd: "read_payload f ZZM_V3_HEADER_SIZE (z3_image_size ?h) = (bs, ok)" by fastforce
        define s2 where "s2 = interrupt env i Image_read (set_mem (z3_load_address ?h) (length bs) (\<lambda>k. bs ! k) s1)"
        have s2: "zevolves ?sha ?B s1 s2"
          using zevolves_interrupt [OF payload_read [OF s1(1) insertI1 i(1) v1(1)]] read_payload_bound [of f ZZM_V3_HEADER_SIZE "z3_image_size ?h"]
          by (simp add: rd hv h1 s2_def)
        obtain st3 s3 where v: "zzm_verify_v3_image env ensure ?h (ZZM_V3_HEADER_SIZE + z3_image_size ?h) s2 = (st3, s3)"
          by fastforce
        have s3: "zevolves ?sha ?B s1 s3"
          using zevolves_trans [OF s2 verify_evolves(2) [of ?B s2 ?h "ZZM_V3_HEADER_SIZE + z3_image_size ?h"]] s2 v
          by (simp add: zevolves_def)
        obtain ok4 s4 where init: "run_init env i (z3_init_entry ?h) (enter_module i (z3_load_address ?h) (z3_image_size ?h)
            (set_mem (z3_load_address ?h + z3_image_size ?h) (unat (z3_bss_size ?h)) (\<lambda>_. 0) s3)) = (ok4, s4)"
          by fastforce
        have s3': "zinv ?sha ?B s3" "same_hdrs s s3" using s3 same_hdrs_trans [OF s1(2)] by (auto simp: zevolves_def)
        note h3 = same_hdrs_views [OF s3'(2)]
        have i3: "zvalid s3 i" using val h3 by simp
        have s4: "zevolves ?sha ?B s1 s4" "?sha (zimage s3 i) = zsha s3 i \<Longrightarrow> image_ok ?sha s4 i"
          using payload_start [OF s3'(1) insertI1 i(1) i3, of env "z3_init_entry ?h" "\<lambda>_. 0"] zevolves_trans [OF s3] init
          by (simp_all add: h3 hv)
        have s4': "same_hdrs s s4" "zinv ?sha ?B s4" using s4 same_hdrs_trans [OF s1(2)] by (auto simp: zevolves_def)
        have dig: "image_ok ?sha s4 i" if "st3 = ZS_LOADED"
          by (rule s4(2)) (use verify_loaded(2) [OF v [unfolded that]] in \<open>simp add: zimage_def hv h3\<close>)
        let ?u = "status_from_v3_slot i ZS_LOADED (Some ?h) ZZM_REASON_NONE s4"
        have "zid s4 i = sl_id (zzm_slots ! i)" using s4'(2) i(1) by (simp add: zinv_def ids_ok_def)
        from same_view_trans [OF status_v3_view [OF this] same_view_set_idle]
        have u: "same_view (set_state i ZS_LOADED s4) (set_idle i (zw_last_poll ?u) ?u)" .
        show ?thesis
          using ready Some rd avail val fail [OF s2 st, of ZZM_REASON_FILE_READ]
            fail [OF s3 st, of ZZM_REASON_IMAGE_INVALID] fail [OF s4(1) st, of ZZM_REASON_INIT]
            onto [OF settles_loaded [OF s4(1) i(1) iA v1(1) dig u]] v init
          by (simp add: load_v3_module_def Let_def zvalid_def s2_def [symmetric] s1_def [symmetric])
      qed
    qed
    then show ?thesis using il by (auto simp: settles_def)
  qed
qed

end

end
