(* ===== verification/ModuleSafety.thy ===== *)
theory ModuleSafety
  imports ModuleIntegrity
begin

text \<open>
  The recursion of the module loader closed: the contract of one load gives the contract
  of the loads nested in it, every entry point keeps the invariant, and the properties of
  a running system follow.
\<close>

section \<open>Nested loads\<close>

lemma zevolves_set_state:
  assumes inv: "zinv sha A s" and i: "i < zzm_slot_count" "zst s i \<in> {ZS_AVAILABLE, ZS_LOAD_FAILED}"
    and st: "st \<in> {ZS_AVAILABLE, ZS_LOAD_FAILED}" and u: "same_view (set_state i st s) t"
  shows "zevolves sha A s t"
proof -
  have iA: "i \<notin> A" using inv i by (auto simp: zinv_def active_ok_def)
  have "unreg s i" using inv i iA by (auto simp: zinv_def regs_ok_def)
  then have "zinv sha A (set_state i st s)" using iA st by (intro zinv_set_state [OF inv]) auto
  moreover have "loadable (set_state i st s) \<subseteq> loadable s" using i by (auto simp: loadable_def split: if_splits)
  ultimately have "zevolves sha A s (set_state i st s)" by (simp add: zevolves_def)
  then show ?thesis using u by (rule zevolves_view)
qed

lemma zid_ok: "zinv sha A s \<Longrightarrow> i < zzm_slot_count \<Longrightarrow> zid s i = sl_id (zzm_slots ! i)"
  by (simp add: zinv_def ids_ok_def)

lemma mark_load_failed_evolves:
  assumes inv: "zinv sha A s"
  shows "zevolves sha A s (zzm_loader_mark_load_failed m r s)"
proof (cases "module_index m")
  case None
  then show ?thesis using inv by (simp add: zzm_loader_mark_load_failed_def)
next
  case (Some i)
  then have i: "i < zzm_slot_count" by (simp add: module_index_Some)
  show ?thesis
    using zevolves_set_state [OF inv i _ _ status_v2_view [OF zid_ok [OF inv i]], of ZS_LOAD_FAILED]
      zevolves_set_state [OF inv i _ _ status_v3_view [OF zid_ok [OF inv i]], of ZS_LOAD_FAILED] inv
    by (simp add: zzm_loader_mark_load_failed_def Some)
qed

lemma load_overdue_evolves: "zinv sha A s \<Longrightarrow> zevolves sha A s (load_overdue env s)"
  by (simp add: load_overdue_def mark_load_failed_evolves)

lemma pending_evolves: "zinv sha A s \<Longrightarrow> zevolves sha A s (s\<lparr>zw_load_pending := p, zw_load_deadline := d\<rparr>)"
  by (rule zevolves_view [OF zevolves_refl]) simp_all

text \<open>A load of module \<open>i\<close>: it restores the visiting marks, and succeeds only into LOADED.\<close>

locale module_loading =
  fixes env :: zzm_env and ld :: "nat \<Rightarrow> visiting \<Rightarrow> zzm_world \<Rightarrow> bool \<times> visiting \<times> zzm_world"
  assumes ld_visiting: "\<And>i v s A. i < zzm_slot_count \<Longrightarrow> zinv (ze_sha256 env) A s \<Longrightarrow> fst (snd (ld i v s)) = v"
    and ld_evolves: "\<And>i v s A. i < zzm_slot_count \<Longrightarrow> zinv (ze_sha256 env) A s \<Longrightarrow>
      zevolves (ze_sha256 env) A s (snd (snd (ld i v s)))"
    and ld_loaded: "\<And>i v s A. i < zzm_slot_count \<Longrightarrow> zinv (ze_sha256 env) A s \<Longrightarrow> fst (ld i v s) \<Longrightarrow>
      zst (snd (snd (ld i v s))) i = ZS_LOADED"
begin

lemma load_on_owner_evolves:
  assumes "zinv (ze_sha256 env) A s"
  shows "zevolves (ze_sha256 env) A s (snd (load_on_owner_with ld m s))"
proof (cases "module_index m")
  case (Some i)
  then have "i < zzm_slot_count" by (simp add: module_index_Some)
  from ld_evolves [OF this assms, of "\<lambda>_. False"] show ?thesis
    by (cases "ld i (\<lambda>_. False) s") (simp add: load_on_owner_with_def Some)
qed (simp add: load_on_owner_with_def assms)

lemma ensure_loaded_evolves:
  assumes "zinv (ze_sha256 env) A s"
  shows "zevolves (ze_sha256 env) A s (snd (ensure_loaded_with env (load_on_owner_with ld) m s))"
  using load_on_owner_evolves [OF assms] load_overdue_evolves [OF assms] pending_evolves [OF assms] assms
  by (auto simp: ensure_loaded_with_def sdk_mailbox_load_module_core1_def split: option.split)

end

sublocale module_loading \<subseteq> service_loader env "ensure_loaded_with env (load_on_owner_with ld)"
  by unfold_locales (rule ensure_loaded_evolves)

context module_loading begin

lemma load_deps_ok:
  assumes "\<forall>d \<in> set ds. d < zzm_slot_count" "zinv (ze_sha256 env) A s"
  shows "fst (snd (load_deps ld i k ds v s)) = v \<and> zevolves (ze_sha256 env) A s (snd (snd (load_deps ld i k ds v s)))"
  using assms
proof (induction ds arbitrary: k v s)
  case (Cons d ds)
  obtain ok v1 s1 where r: "ld d v s = (ok, v1, s1)" by (cases "ld d v s") auto
  have d: "d < zzm_slot_count" using Cons.prems(1) by simp
  have v1: "v1 = v" and s1: "zevolves (ze_sha256 env) A s s1"
    using ld_visiting [OF d Cons.prems(2), of v] ld_evolves [OF d Cons.prems(2), of v] by (simp_all add: r)
  define s2 where "s2 = set_held i (Suc k) (set_refs d (refs s1 d + 1) s1)"
  have s2: "zevolves (ze_sha256 env) A s s2" unfolding s2_def
    by (rule zevolves_view [OF zevolves_view [OF s1 same_view_set_refs] same_view_set_held])
  then have "zinv (ze_sha256 env) A s2" by (simp add: zevolves_def)
  with Cons.IH [of s2 "Suc k" v] Cons.prems(1) s1 s2 show ?case
    by (simp add: r v1 s2_def [symmetric]) (auto intro: zevolves_trans)
qed simp

lemma load_v2_ok:
  assumes inv: "zinv (ze_sha256 env) A s" and i: "i < zzm_slot_count" "zst s i = ZS_AVAILABLE" "zvalid s i" "\<not> is_v3 s i"
    and r: "load_deps ld i 0 (zdeps s i) v (set_state i ZS_LOADING s) = (fo, v1, s1)"
  shows "settles (ze_sha256 env) A i s (case fo of
      Some d \<Rightarrow> (False, fail_load env i (if c then ZS_REJECTED_SERVICE else ZS_LOAD_FAILED) reason s1)
    | None \<Rightarrow> load_payload env (ensure_loaded_with env (load_on_owner_with ld)) i s1)"
proof -
  let ?B = "insert i A" and ?t = "set_state i ZS_LOADING s"
  have iA: "i \<notin> A" using inv i by (auto simp: zinv_def active_ok_def)
  have t: "zinv (ze_sha256 env) ?B ?t" by (rule zinv_set_state [OF inv]) auto
  have "\<forall>d \<in> set (zdeps s i). d < zzm_slot_count" using inv i(1) by (auto simp: zinv_def deps_ok_def)
  from load_deps_ok [OF this t, of i 0 v] have s1: "zevolves (ze_sha256 env) ?B ?t s1" by (simp add: r)
  then have h: "same_hdrs s s1" and inv1: "zinv (ze_sha256 env) ?B s1" and l1: "loadable s1 \<subseteq> loadable s"
    by (auto simp: zevolves_def loadable_def split: if_splits intro: same_hdrs_trans [OF set_state_same(1)])
  note hv = same_hdrs_views [OF h]
  have onto: "settles (ze_sha256 env) A i s q" if "settles (ze_sha256 env) A i s1 q" for q
    using that h l1 by (auto simp: settles_def intro: same_hdrs_trans)
  show ?thesis
  proof (cases fo)
    case None
    then show ?thesis using onto [OF load_payload_settles [OF inv1 i(1) iA]] i by (simp add: hv)
  next
    case (Some d)
    have v1: "\<not> is_v3 s1 i" using i(4) by (simp add: hv)
    show ?thesis using onto [OF settles_failing [OF zevolves_refl [OF inv1] i(1) iA v1]]
      by (simp add: Some settled_def)
  qed
qed

lemma load_module_with_ok:
  assumes inv: "zinv (ze_sha256 env) A s" and i: "i < zzm_slot_count"
  shows "fst (snd (load_module_with ld env i v s)) = v \<and>
    zevolves (ze_sha256 env) A s (snd (snd (load_module_with ld env i v s))) \<and>
    (fst (load_module_with ld env i v s) \<longrightarrow> zst (snd (snd (load_module_with ld env i v s))) i = ZS_LOADED)"
proof -
  let ?sha = "ze_sha256 env" and ?h = "header_of s i" and ?ens = "ensure_loaded_with env (load_on_owner_with ld)"
  note zid = zid_ok [OF inv i]
  show ?thesis
  proof (cases "is_v3 s i")
    case True
    obtain ok t where r: "load_v3_module env ?ens i s = (ok, t)" by fastforce
    then show ?thesis using load_v3_module_settles [OF inv i True] True
      by (simp add: load_module_with_def Let_def zevolves_def settles_def)
  next
    case v2: False
    show ?thesis
    proof (cases "zst s i = ZS_LOADED \<or> zst s i = ZS_LOADING \<or> v i")
      case True
      let ?t = "set_state i ZS_REJECTED_SERVICE s"
      have "zevolves ?sha A s (status_from_slot i ZS_REJECTED_SERVICE (Some ?h) ZZM_REASON_CYCLE s)"
        if "zst s i \<noteq> ZS_LOADED"
      proof -
        have reg: "i \<in> A \<or> i \<in> zw_cut s \<or> unreg s i"
          using inv i that by (auto simp: zinv_def regs_ok_def active_ok_def)
        have "zinv ?sha A ?t" by (rule zinv_set_state [OF inv]) (use reg in auto)
        moreover have "loadable ?t \<subseteq> loadable s" by (auto simp: loadable_def split: if_splits)
        ultimately have "zevolves ?sha A s ?t" by (simp add: zevolves_def)
        then show ?thesis by (rule zevolves_view) (rule status_v2_view [OF zid])
      qed
      then show ?thesis using True v2 inv by (auto simp: load_module_with_def Let_def)
    next
      case False
      define s0 where "s0 = (if zst s i = ZS_LOAD_FAILED then status_from_slot i ZS_AVAILABLE (Some ?h) ZZM_REASON_NONE s else s)"
      have s0: "zevolves ?sha A s s0" unfolding s0_def
        using zevolves_set_state [OF inv i _ _ status_v2_view [OF zid], of ZS_AVAILABLE] inv by simp
      then have inv0: "zinv ?sha A s0" and h0: "same_hdrs s s0" by (auto simp: zevolves_def)
      note hv = same_hdrs_views [OF h0]
      show ?thesis
      proof (cases "zst s0 i = ZS_AVAILABLE \<and> zvalid s0 i")
        case av: False
        then show ?thesis using False v2 s0
          by (auto simp: load_module_with_def Let_def s0_def [symmetric] zvalid_def)
      next
        case av: True
        have a0: "zst s0 i \<in> {ZS_AVAILABLE, ZS_LOAD_FAILED}" using av by simp
        note busy = zevolves_set_state [OF inv0 i a0 _ status_v2_view [OF zid_ok [OF inv0 i]], of ZS_LOAD_FAILED]
        obtain fo v1 s1 where r: "load_deps ld i 0 (zdeps s0 i) (v(i := True)) (set_state i ZS_LOADING s0) = (fo, v1, s1)"
          by (cases "load_deps ld i 0 (zdeps s0 i) (v(i := True)) (set_state i ZS_LOADING s0)") auto
        have v1: "v1(i := False) = v"
        proof -
          have "zinv ?sha (insert i A) (set_state i ZS_LOADING s0)" by (rule zinv_set_state [OF inv0]) auto
          moreover have "\<forall>d \<in> set (zdeps s0 i). d < zzm_slot_count"
            using inv0 i by (auto simp: zinv_def deps_ok_def)
          ultimately have "v1 = v(i := True)" using load_deps_ok [of "zdeps s0 i" "insert i A" _ i 0 "v(i := True)"]
            by (metis (no_types) fst_conv r snd_conv)
          then show ?thesis using False by (simp add: fun_upd_idem)
        qed
        have sub: "insert i (loadable s0) = loadable s0" using av i by (auto simp: loadable_def)
        note st = load_v2_ok [OF inv0 i _ _ _ r]
        have onto: "zevolves ?sha A s (snd q) \<and> (fst q \<longrightarrow> zst (snd q) i = ZS_LOADED)" if "settles ?sha A i s0 q" for q
          using that sub s0 by (auto simp: settles_def zevolves_def intro: same_hdrs_trans)
        let ?d = "the fo"
        let ?c = "st_reason (zm_status (zw_mods s1 ?d)) = ZZM_REASON_CYCLE"
        note st2 = onto [OF st [where c = ?c and reason = "if ?c then st_reason (zm_status (zw_mods s1 ?d)) else ZZM_REASON_DEPENDENCY"]]
        show ?thesis
        proof (cases fo)
          case None
          then show ?thesis using st2 False v2 av busy v1 r zevolves_trans [OF s0]
            by (auto simp: load_module_with_def Let_def s0_def [symmetric] zvalid_def zdeps_def hv split: prod.split)
        next
          case (Some d)
          then show ?thesis using st2 False v2 av busy v1 r zevolves_trans [OF s0]
            by (auto simp: load_module_with_def Let_def s0_def [symmetric] zvalid_def zdeps_def hv)
        qed
      qed
    qed
  qed
qed

end

lemma module_loading_with: "module_loading env ld \<Longrightarrow> module_loading env (load_module_with ld env)"
  by unfold_locales (simp_all add: module_loading.load_module_with_ok)

lemma module_loading_upto: "module_loading env (load_module_upto n env)"
proof (induction n)
  case 0
  show ?case by unfold_locales simp_all
next
  case (Suc n)
  from module_loading_with [OF this] show ?case
    by (simp add: module_loading_def)
qed

interpretation ml: module_loading env "load_module env" for env
  unfolding load_module_def by (rule module_loading_upto)

section \<open>The recursion is bounded\<close>

lemma finite_loadable [simp]: "finite (loadable s)"
  by (simp add: loadable_def)

lemma loadable_card: "card (loadable s) \<le> zzm_slot_count"
  using card_mono [of "{..<zzm_slot_count}" "loadable s"] by (auto simp: loadable_def)

lemma zevolves_card: "zevolves sha A s t \<Longrightarrow> card (loadable s) < n \<Longrightarrow> card (loadable t) < n"
  using card_mono [OF finite_loadable, of "loadable t" s] by (auto simp: zevolves_def)

text \<open>Two ways of ensuring a module that agree while few modules are loadable.\<close>

definition agree :: "zzm_env \<Rightarrow> nat \<Rightarrow> (u32 \<Rightarrow> zzm_world \<Rightarrow> bool \<times> zzm_world) \<Rightarrow> (u32 \<Rightarrow> zzm_world \<Rightarrow> bool \<times> zzm_world) \<Rightarrow> bool" where
  "agree env n e e' \<longleftrightarrow> (\<forall>A m s. zinv (ze_sha256 env) A s \<longrightarrow> card (loadable s) < n \<longrightarrow> e m s = e' m s)"

definition ld_agree :: "zzm_env \<Rightarrow> nat \<Rightarrow> (nat \<Rightarrow> visiting \<Rightarrow> zzm_world \<Rightarrow> bool \<times> visiting \<times> zzm_world) \<Rightarrow>
    (nat \<Rightarrow> visiting \<Rightarrow> zzm_world \<Rightarrow> bool \<times> visiting \<times> zzm_world) \<Rightarrow> bool" where
  "ld_agree env n ld ld' \<longleftrightarrow> (\<forall>A i v s. i < zzm_slot_count \<longrightarrow> zinv (ze_sha256 env) A s \<longrightarrow>
     card (loadable s) < n \<longrightarrow> ld i v s = ld' i v s)"

lemma ld_agree_ensure:
  assumes "ld_agree env n ld ld'"
  shows "agree env n (ensure_loaded_with env (load_on_owner_with ld)) (ensure_loaded_with env (load_on_owner_with ld'))"
proof -
  have "load_on_owner_with ld m s = load_on_owner_with ld' m s" if "zinv (ze_sha256 env) A s" "card (loadable s) < n" for A m s
  proof (cases "module_index m")
    case (Some i)
    then have "i < zzm_slot_count" by (simp add: module_index_Some)
    then show ?thesis using assms that by (simp add: load_on_owner_with_def ld_agree_def Some)
  qed (simp add: load_on_owner_with_def)
  then show ?thesis
    by (auto simp: agree_def ensure_loaded_with_def sdk_mailbox_load_module_core1_def split: option.split)
qed

context service_loader begin

lemma check_services_agree:
  assumes ag: "agree env n ensure e'"
  shows "zinv (ze_sha256 env) A s \<Longrightarrow> card (loadable s) < n \<Longrightarrow> check_services ensure rs s = check_services e' rs s"
proof (induction rs arbitrary: s)
  case (Cons r rs)
  have g: "get_service_with ensure (rq_id r) (rq_version r) s = get_service_with e' (rq_id r) (rq_version r) s"
    using ag Cons.prems unfolding agree_def
    by (auto simp: get_service_with_def ensure_service_with_def split: option.split)
  obtain p t where pt: "get_service_with ensure (rq_id r) (rq_version r) s = (p, t)" by fastforce
  have t: "zevolves (ze_sha256 env) A s t"
    using get_service_evolves [OF Cons.prems(1), of "rq_id r" "rq_version r"] by (simp add: pt)
  have "zinv (ze_sha256 env) A t" using t by (simp add: zevolves_def)
  from Cons.IH [OF this zevolves_card [OF t Cons.prems(2)]] Cons pt g [symmetric] show ?case by simp
qed simp

lemma verify_agree:
  assumes "agree env n ensure e'" "zinv (ze_sha256 env) A s" "card (loadable s) < n"
  shows "zzm_verify_image env ensure h k s = zzm_verify_image env e' h k s"
    "zzm_verify_v3_image env ensure g k s = zzm_verify_v3_image env e' g k s"
  by (simp_all add: zzm_verify_image_def zzm_verify_v3_image_def check_services_agree [OF assms] Let_def)

lemma load_payload_agree:
  assumes ag: "agree env n ensure e'" and inv: "zinv (ze_sha256 env) (insert i A) s" and c: "card (loadable s) < n"
    and i: "i < zzm_slot_count" "zvalid s i" "\<not> is_v3 s i"
  shows "load_payload env ensure i s = load_payload env e' i s"
proof -
  have v: "zzm_verify_image env ensure (header_of s i) k
        (interrupt env i p (set_mem (zh_load_address (header_of s i)) (length bs) f s)) =
      zzm_verify_image env e' (header_of s i) k
        (interrupt env i p (set_mem (zh_load_address (header_of s i)) (length bs) f s))"
    if "read_payload fl off (zh_image_size (header_of s i)) = (bs, ok)" for fl off bs ok k f p
  proof (rule verify_agree(1) [OF ag])
    have "length bs \<le> unat (zimg s i)"
      using read_payload_bound [of fl off "zh_image_size (header_of s i)"] i(3) by (simp add: that zimg_def)
    from zevolves_interrupt [OF payload_read [OF inv insertI1 i(1,2) this]] i(3)
    show "zinv (ze_sha256 env) (insert i A)
        (interrupt env i p (set_mem (zh_load_address (header_of s i)) (length bs) f s))"
      by (simp add: zevolves_def zload_def)
  qed (simp add: c)
  show ?thesis unfolding load_payload_def Let_def
    using v by (auto split: option.split prod.split)
qed

lemma load_v3_agree:
  assumes ag: "agree env n ensure e'" and inv: "zinv (ze_sha256 env) A s" and c: "card (loadable s) < Suc n"
    and i: "i < zzm_slot_count" "is_v3 s i"
  shows "load_v3_module env ensure i s = load_v3_module env e' i s"
proof (cases "zst s i = ZS_AVAILABLE \<and> zvalid s i")
  case False
  then show ?thesis by (auto simp: load_v3_module_def Let_def zvalid_def)
next
  case True
  let ?h = "v3_header_of s i" and ?s1 = "set_state i ZS_LOADING s"
  have inv1: "zinv (ze_sha256 env) (insert i A) ?s1" by (rule zinv_set_state [OF inv]) auto
  have "loadable ?s1 \<subset> loadable s" using True i(1) by (auto simp: loadable_def split: if_splits)
  then have c1: "card (loadable ?s1) < n" using psubset_card_mono [OF finite_loadable, of "loadable ?s1" s] c by simp
  have v: "zzm_verify_v3_image env ensure ?h k (interrupt env i p (set_mem (z3_load_address ?h) (length bs) f ?s1)) =
      zzm_verify_v3_image env e' ?h k (interrupt env i p (set_mem (z3_load_address ?h) (length bs) f ?s1))"
    if "read_payload fl off (z3_image_size ?h) = (bs, ok)" for fl off bs ok k f p
  proof (rule verify_agree(2) [OF ag])
    have "length bs \<le> unat (zimg ?s1 i)"
      using read_payload_bound [of fl off "z3_image_size ?h"] i(2) by (simp add: that zimg_def)
    from zevolves_interrupt [OF payload_read [OF inv1 insertI1 i(1) _ this]] i(2) True
    show "zinv (ze_sha256 env) (insert i A) (interrupt env i p (set_mem (z3_load_address ?h) (length bs) f ?s1))"
      by (simp add: zevolves_def zload_def)
  qed (simp add: c1)
  show ?thesis unfolding load_v3_module_def Let_def
    using v by (auto split: option.split prod.split)
qed

end

context module_loading begin

lemma load_deps_agree:
  assumes ag: "ld_agree env n ld ld'"
  shows "\<forall>d \<in> set ds. d < zzm_slot_count \<Longrightarrow> zinv (ze_sha256 env) A s \<Longrightarrow> card (loadable s) < n \<Longrightarrow>
    load_deps ld i k ds v s = load_deps ld' i k ds v s"
proof (induction ds arbitrary: k v s)
  case (Cons d ds)
  obtain ok v1 s1 where r: "ld d v s = (ok, v1, s1)" by (cases "ld d v s") auto
  have d: "d < zzm_slot_count" using Cons.prems(1) by simp
  then have r': "ld' d v s = (ok, v1, s1)" using ag Cons.prems r unfolding ld_agree_def by metis
  have s1: "zevolves (ze_sha256 env) A s s1" using ld_evolves [OF d Cons.prems(2), of v] by (simp add: r)
  define s2 where "s2 = set_held i (Suc k) (set_refs d (refs s1 d + 1) s1)"
  have s2: "zevolves (ze_sha256 env) A s s2" unfolding s2_def
    by (rule zevolves_view [OF zevolves_view [OF s1 same_view_set_refs] same_view_set_held])
  then have "zinv (ze_sha256 env) A s2" by (simp add: zevolves_def)
  with Cons.IH [OF _ this zevolves_card [OF s2 Cons.prems(3)]] Cons.prems(1)
  show ?case by (simp add: r r' s2_def [symmetric])
qed simp

lemma load_module_with_agree:
  assumes ag: "ld_agree env n ld ld'" and inv: "zinv (ze_sha256 env) A s" and c: "card (loadable s) < Suc n"
    and i: "i < zzm_slot_count"
  shows "load_module_with ld env i v s = load_module_with ld' env i v s"
proof -
  note ea = ld_agree_ensure [OF ag]
  let ?h = "header_of s i" and ?e = "ensure_loaded_with env (load_on_owner_with ld)"
    and ?e' = "ensure_loaded_with env (load_on_owner_with ld')"
  define s0 where "s0 = (if zst s i = ZS_LOAD_FAILED then status_from_slot i ZS_AVAILABLE (Some ?h) ZZM_REASON_NONE s else s)"
  have s0: "zevolves (ze_sha256 env) A s s0" unfolding s0_def
    using zevolves_set_state [OF inv i _ _ status_v2_view [OF zid_ok [OF inv i]], of ZS_AVAILABLE] inv by simp
  then have inv0: "zinv (ze_sha256 env) A s0" and h0: "same_hdrs s s0" by (auto simp: zevolves_def)
  show ?thesis
  proof (cases "zst s0 i = ZS_AVAILABLE \<and> zvalid s0 i \<and> \<not> is_v3 s i")
    case False
    then show ?thesis using load_v3_agree [OF ea inv c i]
      by (auto simp: load_module_with_def Let_def s0_def [symmetric] zvalid_def)
  next
    case True
    let ?t = "set_state i ZS_LOADING s0"
    have t: "zinv (ze_sha256 env) (insert i A) ?t" by (rule zinv_set_state [OF inv0]) auto
    have "loadable ?t \<subset> loadable s0" using True i by (auto simp: loadable_def split: if_splits)
    then have ct: "card (loadable ?t) < n"
      using psubset_card_mono [OF finite_loadable, of "loadable ?t" s0] zevolves_card [OF s0 c] by simp
    have deps: "\<forall>d \<in> set (zdeps s0 i). d < zzm_slot_count" using inv0 i by (auto simp: zinv_def deps_ok_def)
    note d = load_deps_agree [OF ag deps t ct]
    have p: "load_payload env ?e i s1 = load_payload env ?e' i s1"
      if "load_deps ld i 0 (zdeps s0 i) (v(i := True)) ?t = (None, v1, s1)" for v1 s1
    proof -
      have s1: "zevolves (ze_sha256 env) (insert i A) ?t s1" using load_deps_ok [OF deps t, of i 0 "v(i := True)"] by (simp add: that)
      then have "zinv (ze_sha256 env) (insert i A) s1" and h: "same_hdrs ?t s1" by (auto simp: zevolves_def)
      from load_payload_agree [OF ea this(1) zevolves_card [OF s1 ct] i] True same_hdrs_views [OF h] same_hdrs_views [OF h0]
      show ?thesis by simp
    qed
    show ?thesis using True d p
      by (auto simp: load_module_with_def Let_def s0_def [symmetric] zvalid_def zdeps_def split: prod.split option.split)
  qed
qed

end

lemma load_module_upto_Suc: "load_module_upto (Suc n) env = load_module_with (load_module_upto n env) env"
  by (intro ext) simp

lemma load_agree: "ld_agree env n (load_module_upto n env) (load_module_upto (Suc n) env)"
proof (induction n)
  case (Suc n)
  from module_loading.load_module_with_agree [OF module_loading_upto Suc.IH]
  show ?case by (simp add: ld_agree_def load_module_upto_Suc [of "Suc n"] load_module_upto_Suc [of n])
qed (simp add: ld_agree_def)

lemma load_depth_upto:
  assumes "i < zzm_slot_count" "zinv (ze_sha256 env) A s" "card (loadable s) < n"
  shows "load_module_upto (n + k) env i v s = load_module_upto n env i v s"
proof (induction k)
  case (Suc k)
  then show ?case using load_agree [of env "n + k"] assms unfolding ld_agree_def by auto
qed simp

section \<open>Entry points\<close>

lemma acquire_evolves:
  assumes inv: "zinv (ze_sha256 env) A s"
  shows "zevolves (ze_sha256 env) A s (snd (zzm_loader_acquire env m s))"
proof (cases "module_index m")
  case (Some i)
  obtain ok t where r: "zzm_loader_ensure_loaded env m s = (ok, t)" by fastforce
  have "zevolves (ze_sha256 env) A s t"
    using ml.ensure_loaded_evolves [OF inv, of m] r
    by (simp add: zzm_loader_ensure_loaded_def zzm_loader_load_on_owner_def)
  from zevolves_view [OF zevolves_view [OF this same_view_set_refs] same_view_set_idle] this
  show ?thesis by (simp add: zzm_loader_acquire_def Some r split: bool.split)
qed (simp add: zzm_loader_acquire_def inv)

lemma ensure_evolves:
  "zinv (ze_sha256 env) A s \<Longrightarrow> zevolves (ze_sha256 env) A s (snd (zzm_loader_ensure_loaded env m s))"
  unfolding zzm_loader_ensure_loaded_def zzm_loader_load_on_owner_def by (rule ml.ensure_loaded_evolves)

interpretation sv: service_loader env "zzm_loader_ensure_loaded env" for env
  by unfold_locales (rule ensure_evolves)

lemma acquire_loaded:
  assumes inv: "zinv (ze_sha256 env) A s" and ok: "zzm_loader_acquire env m s = (True, t)"
  shows "\<exists>i. module_index m = Some i \<and> zst t i = ZS_LOADED"
proof -
  obtain i where i: "module_index m = Some i" using ok by (cases "module_index m") (auto simp: zzm_loader_acquire_def)
  then have il: "i < zzm_slot_count" by (simp add: module_index_Some)
  obtain u where u: "zzm_loader_ensure_loaded env m s = (True, u)" and t: "t = set_idle i 0 (set_refs i (refs u i + 1) u)"
    using ok by (auto simp: zzm_loader_acquire_def i split: prod.splits bool.splits)
  have "zst u i = ZS_LOADED"
  proof (cases "ze_dispatch env \<and> \<not> ze_cpu1 env")
    case True
    then show ?thesis using u
      by (auto simp: zzm_loader_ensure_loaded_def ensure_loaded_with_def sdk_mailbox_load_module_core1_def i
        split: if_splits)
  next
    case False
    then have "zzm_loader_load_on_owner env m s = (True, u)"
      using u by (auto simp: zzm_loader_ensure_loaded_def ensure_loaded_with_def sdk_mailbox_load_module_core1_def
        split: if_splits)
    then show ?thesis using ml.ld_loaded [OF il inv, of "\<lambda>_. False"]
      by (auto simp: zzm_loader_load_on_owner_def load_on_owner_with_def i split: prod.splits)
  qed
  then show ?thesis using i by (simp add: t)
qed

text \<open>A withdrawal at rest: the module was not active.\<close>

lemma withdraw_then_release:
  assumes inv: "zinv sha {} (set_state i st p)" and i: "i < zzm_slot_count" and v: "same_view (set_state i st p) t"
  shows "zinv sha {} (release_dependencies_with (release_upto n env) i t)"
proof -
  have "zinv sha {} t" using same_view_zinv [OF v inv] .
  moreover from this have "deps_ok t" by (simp add: zinv_def)
  ultimately show ?thesis using same_view_zinv [OF release_dependencies_view [OF _ i]] by blast
qed

lemma unload_v3_zinv:
  assumes inv: "zinv sha {} s" and i: "i < zzm_slot_count" "is_v3 s i"
  shows "zinv sha {} (unload_v3_with (release_upto n env) env i s)"
proof -
  let ?p = "poison_v3_slot i (unregister_module i s)"
  have p: "zinv sha {} (set_state i ZS_AVAILABLE ?p)"
    by (rule zinv_withdraw(3) [OF inv i(1) _ _ _ i(2)]) (simp_all add: settled_def)
  have "zid ?p i = sl_id (zzm_slots ! i)" using zid_ok [OF inv i(1)] by simp
  note v = same_view_trans [OF status_v3_view [OF this] same_view_set_idle]
  show ?thesis using withdraw_then_release [OF p i(1) v] inv by (simp add: unload_v3_with_def)
qed

lemma release_zinv:
  assumes inv: "zinv sha {} s"
  shows "zinv sha {} (release_upto n env m s)"
proof (cases n)
  case (Suc k)
  show ?thesis
  proof (cases "module_index m")
    case (Some i)
    then have i: "i < zzm_slot_count" by (simp add: module_index_Some)
    define s2 where "s2 = set_idle i (zw_last_poll (set_refs i (refs s i - 1) s)) (set_refs i (refs s i - 1) s)"
    have "zinv sha {} (set_refs i (refs s i - 1) s)" by (rule same_view_zinv [OF same_view_set_refs inv])
    moreover have inv2: "zinv sha {} s2" unfolding s2_def by (rule same_view_zinv [OF same_view_set_idle calculation])
    ultimately show ?thesis using inv unload_v3_zinv [OF inv2 i, of k env]
      by (simp add: Suc release_with_def Some Let_def s2_def [symmetric])
  qed (simp add: Suc release_with_def inv)
qed (simp add: inv)

lemma poll_one_zinv:
  assumes inv: "zinv sha {} s" and i: "i < zzm_slot_count"
  shows "zinv sha {} (poll_one env now i s)"
proof (cases "is_v3 s i")
  case True
  then show ?thesis using inv same_view_zinv [OF same_view_set_idle inv] by (simp add: poll_one_def Let_def)
next
  case False
  let ?p = "unregister_and_reclaim i s"
  have p: "zinv sha {} (set_state i ZS_AVAILABLE ?p)" unfolding unregister_and_reclaim_def
    by (rule zinv_withdraw(2) [OF inv i _ _ _ False]) (simp_all add: settled_def)
  have "zid ?p i = sl_id (zzm_slots ! i)" using zid_ok [OF inv i] by (simp add: unregister_and_reclaim_def)
  note v = same_view_trans [OF status_v2_view [OF this] same_view_set_idle]
  show ?thesis using withdraw_then_release [OF p i v] inv False
    by (simp add: poll_one_def Let_def release_dependencies_def zzm_loader_release_def)
qed

lemma forget_one_zinv:
  assumes inv: "zinv sha {} s" and i: "i < zzm_slot_count"
  shows "zinv sha {} (forget_one env i s)"
proof (cases "is_v3 s i")
  case True
  let ?p = "poison_v3_slot i (unregister_module i s)"
  have p: "zinv sha {} (set_state i ZS_AVAILABLE ?p)"
    by (rule zinv_withdraw(3) [OF inv i _ _ _ True]) (simp_all add: settled_def)
  have "zid ?p i = sl_id (zzm_slots ! i)" using zid_ok [OF inv i] by simp
  note v = same_view_trans [OF same_view_trans [OF status_v3_view [OF this] same_view_set_refs] same_view_set_idle]
  show ?thesis using withdraw_then_release [OF p i v] inv
    by (simp add: forget_one_def Let_def release_dependencies_def zzm_loader_release_def)
qed (simp add: forget_one_def inv)

lemma mark_faulted_zinv:
  assumes inv: "zinv sha {} s"
  shows "zinv sha {} (zzm_loader_mark_faulted env m s)"
proof (cases "module_index m")
  case (Some i)
  then have i: "i < zzm_slot_count" by (simp add: module_index_Some)
  have p: "zinv sha {} (set_state i ZS_FAULTED (unregister_module i s))"
    by (rule zinv_withdraw(1) [OF inv i]) (simp_all add: settled_def)
  have zid: "zid (unregister_module i s) i = sl_id (zzm_slots ! i)" using zid_ok [OF inv i] by simp
  show ?thesis using withdraw_then_release [OF p i status_v2_view [OF zid]] withdraw_then_release [OF p i status_v3_view [OF zid]] inv
    by (simp add: zzm_loader_mark_faulted_def Some Let_def release_dependencies_def zzm_loader_release_def)
qed (simp add: zzm_loader_mark_faulted_def inv)

lemma fold_zinv:
  assumes "\<And>i s. i \<in> set xs \<Longrightarrow> zinv sha A s \<Longrightarrow> zinv sha A (f i s)" "zinv sha A s"
  shows "zinv sha A (fold f xs s)"
  using assms by (induction xs arbitrary: s) auto

lemma availability_evolves:
  assumes "zinv (ze_sha256 env) A s"
  shows "zevolves (ze_sha256 env) A s (snd (zzm_registry_availability env m s))"
  using ensure_evolves [OF assms] assms
  by (auto simp: zzm_registry_availability_def Let_def split: option.split)

text \<open>The calls that arrive between boot and power-off, each with the world of its moment.\<close>

datatype zzm_op = Op_ensure u32 | Op_load_on_owner u32 | Op_acquire u32 | Op_release u32 | Op_poll bool u64
  | Op_forget_core1 | Op_mark_faulted u32 | Op_mark_load_failed u32 u32 | Op_ensure_service u32 u32
  | Op_get_service u32 u32 | Op_ops u32 u32 | Op_register reg_call | Op_load_poll | Op_load_retired bool | Op_load_forget
  | Op_stores nat "nat \<Rightarrow> u8 option"

text \<open>
  \<open>Op_stores\<close> is the module's code at work between the calls: called through its tables,
  polled, or in its fini.
\<close>

fun zzm_call :: "zzm_env \<Rightarrow> zzm_op \<Rightarrow> zzm_world \<Rightarrow> zzm_world" where
  "zzm_call env (Op_ensure m) s = snd (zzm_loader_ensure_loaded env m s)"
| "zzm_call env (Op_load_on_owner m) s = snd (zzm_loader_load_on_owner env m s)"
| "zzm_call env (Op_acquire m) s = snd (zzm_loader_acquire env m s)"
| "zzm_call env (Op_release m) s = zzm_loader_release env m s"
| "zzm_call env (Op_poll lock now) s = zzm_loader_poll env lock now s"
| "zzm_call env Op_forget_core1 s = zzm_loader_forget_core1_modules env s"
| "zzm_call env (Op_mark_faulted m) s = zzm_loader_mark_faulted env m s"
| "zzm_call env (Op_mark_load_failed m r) s = zzm_loader_mark_load_failed m r s"
| "zzm_call env (Op_ensure_service svc ver) s = snd (zzm_loader_ensure_service env svc ver s)"
| "zzm_call env (Op_get_service svc ver) s = snd (zzm_registry_get_service env svc ver s)"
| "zzm_call env (Op_ops m n) s = snd (zzm_registry_ops env m n s)"
| "zzm_call env (Op_register c) s = run_reg_call c s"
| "zzm_call env Op_load_poll s = sdk_mailbox_poll_module_load env s"
| "zzm_call env (Op_load_retired ok) s = zzm_load_retired env ok s"
| "zzm_call env Op_load_forget s = zzm_load_forget s"
| "zzm_call env (Op_stores i st) s = (if i < zzm_slot_count then module_stores i st s else s)"

text \<open>An interruption ends the call it falls in and nothing else.\<close>

definition zzm_step :: "zzm_env \<Rightarrow> zzm_op \<Rightarrow> zzm_world \<Rightarrow> zzm_world" where
  "zzm_step env op s = (zzm_call env op s)\<lparr>zw_halted := False\<rparr>"

lemma zzm_call_zinv:
  assumes inv: "zinv (ze_sha256 env) {} s"
  shows "zinv (ze_sha256 env) {} (zzm_call env op s)"
proof (cases op)
  case (Op_poll lock now)
  have "zinv (ze_sha256 env) {} (s\<lparr>zw_last_poll := now\<rparr>)" by (rule same_view_zinv [OF same_view_last_poll inv])
  then show ?thesis using inv fold_zinv [of "[0..<zzm_slot_count]" "ze_sha256 env" "{}" "poll_one env now"] poll_one_zinv
    by (simp add: Op_poll zzm_loader_poll_def)
next
  case Op_forget_core1
  then show ?thesis using inv fold_zinv [of "[0..<zzm_slot_count]" "ze_sha256 env" "{}" "forget_one env"] forget_one_zinv
    by (simp add: zzm_loader_forget_core1_modules_def)
next
  case (Op_ops m n)
  then show ?thesis using availability_evolves [OF inv, of m]
    by (auto simp: zzm_registry_ops_def zevolves_def split: prod.split option.split)
next
  case (Op_register c)
  then show ?thesis using zinv_reg_call [OF inv] by simp
next
  case (Op_stores i st)
  then show ?thesis using zinv_module_stores [OF inv] inv by simp
next
  case (Op_load_retired ok)
  then show ?thesis using inv mark_faulted_zinv [OF inv] same_view_zinv [OF same_view_pending(2)]
    by (simp add: zzm_load_retired_def Let_def)
next
  case Op_load_poll
  then show ?thesis using inv load_overdue_evolves [OF inv]
    by (simp add: sdk_mailbox_poll_module_load_def zevolves_def)
qed (use inv ensure_evolves [OF inv] acquire_evolves [OF inv] ml.load_on_owner_evolves [OF inv]
    mark_load_failed_evolves [OF inv] mark_faulted_zinv [OF inv] release_zinv [OF inv]
    sv.ensure_service_evolves [OF inv] sv.get_service_evolves [OF inv] in
    \<open>auto simp: zevolves_def zzm_loader_load_on_owner_def zzm_loader_ensure_service_def zzm_registry_get_service_def
      zzm_loader_release_def zzm_load_forget_def same_view_zinv [OF same_view_pending(1)]\<close>)

lemma zzm_step_zinv: "zinv (ze_sha256 env) {} s \<Longrightarrow> zinv (ze_sha256 env) {} (zzm_step env op s)"
  unfolding zzm_step_def by (rule zinv_unhalt [OF zzm_call_zinv])

definition zzm_run :: "(zzm_env \<times> zzm_op) list \<Rightarrow> zzm_world \<Rightarrow> zzm_world" where
  "zzm_run = fold (\<lambda>(env, op). zzm_step env op)"

lemma zzm_run_zinv:
  "\<forall>(env, op) \<in> set es. ze_sha256 env = sha \<Longrightarrow> zinv sha {} s \<Longrightarrow> zinv sha {} (zzm_run es s)"
proof (induction es arbitrary: s)
  case (Cons e es)
  then show ?case using zzm_step_zinv by (cases e) (auto simp: zzm_run_def)
qed (simp add: zzm_run_def)

section \<open>Boot\<close>

text \<open>The statics before the scan: every array is zero, and the zero state is LOADED.\<close>

definition zero_module :: zzm_module where
  "zero_module = \<lparr>zm_status = \<lparr>st_id = 0, st_version = 0, st_abi_version = 0, st_load_address = 0, st_image_size = 0,
       st_bss_size = 0, st_state = ZS_LOADED, st_ref_count = 0, st_reason = 0, st_name = []\<rparr>,
     zm_header = header_of_bytes (replicate 256 0), zm_v3_header = v3_header_of_bytes (replicate 512 0),
     zm_format = 0, zm_header_valid = False, zm_dependencies = [], zm_dependencies_held = 0, zm_idle_since = 0,
     zm_entered = [], zm_written = {}\<rparr>"

definition zero_world :: "bool \<Rightarrow> zzm_v3_capabilities \<Rightarrow> (u32 \<Rightarrow> u8) \<Rightarrow> zzm_world" where
  "zero_world intr caps mem = \<lparr>zw_mods = (\<lambda>_. zero_module), zw_last_poll = 0, zw_caps = caps, zw_mem = mem,
     zw_ops = (\<lambda>_. 0), zw_ops_size = (\<lambda>_. 0), zw_services = replicate ZZM_REGISTRY_SERVICES no_service,
     zw_load_pending = 0, zw_load_deadline = 0, zw_interrupts = intr, zw_halted = False, zw_cut = {}\<rparr>"

text \<open>What the scan leaves of a module: a known state, a fitting header or none.\<close>

definition hdr_scanned :: "nat \<Rightarrow> zzm_module \<Rightarrow> bool" where
  "hdr_scanned i m \<longleftrightarrow> (zm_header_valid m \<longrightarrow> (if zm_format m = 3
        then image_fits i (z3_load_address (zm_v3_header m)) (z3_image_size (zm_v3_header m))
          (z3_bss_size (zm_v3_header m)) (z3_init_entry (zm_v3_header m)) (z3_fini_entry (zm_v3_header m))
        else image_fits i (zh_load_address (zm_header m)) (zh_image_size (zm_header m))
          (zh_bss_size (zm_header m)) (zh_init_entry (zm_header m)) (zh_fini_entry (zm_header m)))) \<and>
     (zm_format m = 3 \<longrightarrow> zh_provided_count (zm_header m) = 0)"

definition scanned :: "nat \<Rightarrow> zzm_module \<Rightarrow> bool" where
  "scanned i m \<longleftrightarrow> st_id (zm_status m) = sl_id (zzm_slots ! i) \<and> settled (st_state (zm_status m)) \<and> hdr_scanned i m"

lemma hdr_scanned_frame [simp]: "hdr_scanned i (m\<lparr>zm_status := x\<rparr>) = hdr_scanned i m"
  "hdr_scanned i (m\<lparr>zm_dependencies := ds\<rparr>) = hdr_scanned i m"
  by (simp_all add: hdr_scanned_def)

lemma settled_shapes [simp]: "settled (verify_header_shape h n)" "settled (verify_v3_header_shape g n caps)"
  by (simp_all add: settled_def verify_header_shape_def verify_v3_header_shape_def)

lemma settled_consts [simp]: "settled ZS_REJECTED_SLOT" "settled ZS_MISSING" "settled ZS_LOAD_FAILED"
  "settled ZS_REJECTED_SERVICE"
  by (simp_all add: settled_def)

lemma shape_fits_slot:
  assumes "i < zzm_slot_count"
  shows "verify_header_shape h n = ZS_AVAILABLE \<Longrightarrow> zh_module_id h = sl_id (zzm_slots ! i) \<Longrightarrow>
      image_fits i (zh_load_address h) (zh_image_size h) (zh_bss_size h) (zh_init_entry h) (zh_fini_entry h)"
    "verify_v3_header_shape g n caps = ZS_AVAILABLE \<Longrightarrow> z3_module_id g = sl_id (zzm_slots ! i) \<Longrightarrow>
      image_fits i (z3_load_address g) (z3_image_size g) (z3_bss_size g) (z3_init_entry g) (z3_fini_entry g)"
  using shape_slot [OF verify_header_shapeD(1)] shape_slot [OF verify_v3_header_shapeD(1)] zzm_slot_id_inj [OF _ assms]
  by metis+

lemma upd_mod_same [simp]: "zw_mods (upd_mod i f s) = (zw_mods s)(i := f (zw_mods s i))"
  "zw_caps (upd_mod i f s) = zw_caps s" "zw_ops (upd_mod i f s) = zw_ops s" "zw_services (upd_mod i f s) = zw_services s"
  "zw_mem (upd_mod i f s) = zw_mem s" "zw_interrupts (upd_mod i f s) = zw_interrupts s"
  "zw_halted (upd_mod i f s) = zw_halted s" "zw_cut (upd_mod i f s) = zw_cut s"
  by (simp_all add: upd_mod_def)

text \<open>Updates of one module only, which leave the registry and the capabilities alone.\<close>

definition only_mod :: "nat \<Rightarrow> zzm_world \<Rightarrow> zzm_world \<Rightarrow> bool" where
  "only_mod i s t \<longleftrightarrow> (\<forall>j. j \<noteq> i \<longrightarrow> zw_mods t j = zw_mods s j) \<and> zw_ops t = zw_ops s \<and>
     zw_services t = zw_services s \<and> zw_caps t = zw_caps s \<and> zw_interrupts t = zw_interrupts s \<and>
     zw_halted t = zw_halted s \<and> zw_cut t = zw_cut s"

lemma only_mod_simps [simp]: "only_mod i s s" "only_mod i s (upd_mod i f s)"
  "only_mod i s (status_from_slot i st h r s)" "only_mod i s (status_from_v3_slot i st g r s)"
  by (simp_all add: only_mod_def status_from_slot_def status_from_v3_slot_def)

lemma only_mod_trans [trans]: "only_mod i s t \<Longrightarrow> only_mod i t u \<Longrightarrow> only_mod i s u"
  by (simp add: only_mod_def)

lemma status_mod:
  "zw_mods (status_from_slot i st h r s) i = (zw_mods s i)\<lparr>zm_status := zm_status (zw_mods (status_from_slot i st h r s) i)\<rparr>"
  "zw_mods (status_from_v3_slot i st g r s) i = (zw_mods s i)\<lparr>zm_status := zm_status (zw_mods (status_from_v3_slot i st g r s) i)\<rparr>"
  "st_id (zm_status (zw_mods (status_from_slot i st h r s) i)) = sl_id (zzm_slots ! i)"
  "st_id (zm_status (zw_mods (status_from_v3_slot i st g r s) i)) = sl_id (zzm_slots ! i)"
  "st_state (zm_status (zw_mods (status_from_slot i st h r s) i)) = st"
  "st_state (zm_status (zw_mods (status_from_v3_slot i st g r s) i)) = st"
  by (cases h; cases g; simp add: status_from_slot_def status_from_v3_slot_def slot_status_def Let_def)+

lemma scanned_status:
  assumes "hdr_scanned i (zw_mods s i)" "settled st"
  shows "scanned i (zw_mods (status_from_slot i st h r s) i)" "scanned i (zw_mods (status_from_v3_slot i st g r s) i)"
  using assms unfolding scanned_def status_mod(3-6)
  by (subst status_mod(1), simp, subst status_mod(2), simp)

lemma status_frame [simp]:
  "hdr_scanned i (zw_mods (status_from_slot i st h r s) i) = hdr_scanned i (zw_mods s i)"
  "hdr_scanned i (zw_mods (status_from_v3_slot i st g r s) i) = hdr_scanned i (zw_mods s i)"
  "zm_format (zw_mods (status_from_slot i st h r s) i) = zm_format (zw_mods s i)"
  "zm_format (zw_mods (status_from_v3_slot i st g r s) i) = zm_format (zw_mods s i)"
  by (subst status_mod(1), simp, subst status_mod(2), simp, subst status_mod(1), simp, subst status_mod(2), simp)

lemma scanned_take_v3:
  "scanned i m \<Longrightarrow> zh_provided_count (zm_header m) = 0 \<Longrightarrow>
    image_fits i (z3_load_address h) (z3_image_size h) (z3_bss_size h) (z3_init_entry h) (z3_fini_entry h) \<Longrightarrow>
    scanned i (m\<lparr>zm_v3_header := h, zm_format := 3, zm_header_valid := True\<rparr>)"
  by (simp add: scanned_def hdr_scanned_def)

lemma scanned_take_v2:
  "scanned i m \<Longrightarrow>
    image_fits i (zh_load_address h) (zh_image_size h) (zh_bss_size h) (zh_init_entry h) (zh_fini_entry h) \<Longrightarrow>
    scanned i (m\<lparr>zm_header := h, zm_format := 2, zm_header_valid := True\<rparr>)"
  by (simp add: scanned_def hdr_scanned_def)

lemma status_hdrs [simp]:
  "zm_header (zw_mods (status_from_slot i st h r s) i) = zm_header (zw_mods s i)"
  "zm_header (zw_mods (status_from_v3_slot i st g r s) i) = zm_header (zw_mods s i)"
  by (subst status_mod(1), simp, subst status_mod(2), simp)

lemma scan_v3_scanned:
  assumes "hdr_scanned i (zw_mods s i)" "zh_provided_count (zm_header (zw_mods s i)) = 0" "i < zzm_slot_count"
  shows "scanned i (zw_mods (scan_v3 i f s) i)" "only_mod i s (scan_v3 i f s)"
proof -
  obtain bs ok where r: "f_read f 0 ZZM_V3_HEADER_SIZE = (bs, ok)" by fastforce
  let ?h = "v3_header_of_bytes bs"
  define st where "st = (let st0 = verify_v3_header_shape ?h (zf_size f) (zw_caps s) in
    if st0 = ZS_AVAILABLE \<and> (z3_module_id ?h \<noteq> sl_id (zzm_slots ! i) \<or> cstr (z3_name ?h) \<noteq> sl_name (zzm_slots ! i))
    then ZS_REJECTED_SLOT else st0)"
  have set: "settled st" by (simp add: st_def Let_def)
  note sc = scanned_status [OF assms(1) set]
  have fit: "image_fits i (z3_load_address ?h) (z3_image_size ?h) (z3_bss_size ?h) (z3_init_entry ?h) (z3_fini_entry ?h)"
    if "st = ZS_AVAILABLE"
    using that shape_fits_slot(2) [OF assms(3)] by (auto simp: st_def Let_def split: if_splits)
  have eq: "scan_v3 i f s = (if \<not> ok \<or> length bs \<noteq> 512 then status_from_slot i ZS_REJECTED_SLOT None ZZM_REASON_FILE_READ s
      else let s1 = status_from_v3_slot i st (Some ?h) ZZM_REASON_NONE s in
        if st = ZS_AVAILABLE then upd_mod i (\<lambda>m. m\<lparr>zm_v3_header := ?h, zm_format := 3, zm_header_valid := True\<rparr>) s1 else s1)"
    unfolding scan_v3_def r st_def Let_def by simp
  show "only_mod i s (scan_v3 i f s)"
    unfolding eq Let_def using only_mod_trans [OF only_mod_simps(4) only_mod_simps(2)] by auto
  show "scanned i (zw_mods (scan_v3 i f s) i)"
    unfolding eq Let_def using scanned_status(1) [OF assms(1)] sc(2) assms(2) fit
    by (auto intro: scanned_take_v3)
qed

lemma scan_v2_scanned:
  assumes "hdr_scanned i (zw_mods s i)" "i < zzm_slot_count"
  shows "scanned i (zw_mods (scan_v2 i f s) i)" "only_mod i s (scan_v2 i f s)"
proof -
  obtain bs ok where r: "f_read f 0 ZZM_HEADER_SIZE = (bs, ok)" by fastforce
  let ?h = "header_of_bytes bs"
  define st where "st = (let st0 = verify_header_shape ?h (zf_size f) in
    if st0 = ZS_AVAILABLE \<and> (zh_module_id ?h \<noteq> sl_id (zzm_slots ! i) \<or> cstr (zh_name ?h) \<noteq> sl_name (zzm_slots ! i))
    then ZS_REJECTED_SLOT else st0)"
  have set: "settled st" by (simp add: st_def Let_def)
  note sc = scanned_status [OF assms(1) set]
  have fit: "image_fits i (zh_load_address ?h) (zh_image_size ?h) (zh_bss_size ?h) (zh_init_entry ?h) (zh_fini_entry ?h)"
    if "st = ZS_AVAILABLE"
    using that shape_fits_slot(1) [OF assms(2)] by (auto simp: st_def Let_def split: if_splits)
  have eq: "scan_v2 i f s = (if \<not> ok \<or> length bs \<noteq> 256 then status_from_slot i ZS_REJECTED_SLOT None ZZM_REASON_FILE_READ s
      else let s1 = status_from_slot i st (Some ?h) ZZM_REASON_NONE s in
        if st = ZS_AVAILABLE then upd_mod i (\<lambda>m. m\<lparr>zm_header := ?h, zm_format := 2, zm_header_valid := True\<rparr>) s1 else s1)"
    unfolding scan_v2_def r st_def Let_def by simp
  show "only_mod i s (scan_v2 i f s)"
    unfolding eq Let_def using only_mod_trans [OF only_mod_simps(3) only_mod_simps(2)] by auto
  show "scanned i (zw_mods (scan_v2 i f s) i)"
    unfolding eq Let_def using scanned_status(1) [OF assms(1)] sc(1) fit
    by (auto intro: scanned_take_v2)
qed

lemma scan_slot_scanned:
  assumes "zh_provided_count (zm_header (zw_mods s i)) = 0" "i < zzm_slot_count"
  shows "scanned i (zw_mods (scan_slot env i s) i) \<and> only_mod i s (scan_slot env i s)"
proof -
  define s00 where "s00 = upd_mod i (\<lambda>m. m\<lparr>zm_header_valid := False, zm_format := 0, zm_idle_since := 0,
      zm_dependencies_held := 0\<rparr>) s"
  define s0 where "s0 = status_from_slot i ZS_MISSING None ZZM_REASON_NONE s00"
  have "hdr_scanned i (zw_mods s00 i)" by (simp add: s00_def hdr_scanned_def)
  from scanned_status(1) [OF this] have s0: "scanned i (zw_mods s0 i)" by (simp add: s0_def)
  then have h0: "hdr_scanned i (zw_mods s0 i)" by (simp add: scanned_def)
  have p0: "zh_provided_count (zm_header (zw_mods s0 i)) = 0" using assms(1) by (simp add: s0_def s00_def)
  have o0: "only_mod i s s0" unfolding s0_def
    by (rule only_mod_trans [OF _ only_mod_simps(3)]) (simp add: s00_def)
  note st = scanned_status(1) [OF h0] and v3 = scan_v3_scanned [OF h0 p0 assms(2)] and v2 = scan_v2_scanned [OF h0 assms(2)]
  show ?thesis
    unfolding scan_slot_def Let_def s00_def [symmetric] s0_def [symmetric]
    using s0 st v2 v3 o0 only_mod_trans [OF o0]
    by (auto split: option.split prod.split)
qed

lemma scan_all:
  assumes "distinct xs" "\<forall>i \<in> set xs. i < zzm_slot_count \<and> zh_provided_count (zm_header (zw_mods s i)) = 0"
  shows "(\<forall>i \<in> set xs. scanned i (zw_mods (fold (scan_slot env) xs s) i)) \<and>
    (\<forall>j. j \<notin> set xs \<longrightarrow> zw_mods (fold (scan_slot env) xs s) j = zw_mods s j) \<and>
    zw_ops (fold (scan_slot env) xs s) = zw_ops s \<and> zw_services (fold (scan_slot env) xs s) = zw_services s \<and>
    zw_interrupts (fold (scan_slot env) xs s) = zw_interrupts s \<and>
    zw_halted (fold (scan_slot env) xs s) = zw_halted s \<and> zw_cut (fold (scan_slot env) xs s) = zw_cut s"
  using assms
proof (induction xs arbitrary: s)
  case (Cons x xs)
  have x: "scanned x (zw_mods (scan_slot env x s) x)" "only_mod x s (scan_slot env x s)"
    using scan_slot_scanned [of s x env] Cons.prems by auto
  have "\<forall>i \<in> set xs. i < zzm_slot_count \<and> zh_provided_count (zm_header (zw_mods (scan_slot env x s) i)) = 0"
    using Cons.prems x(2) by (auto simp: only_mod_def)
  with Cons.IH [of "scan_slot env x s"] Cons.prems(1) x show ?case by (auto simp: only_mod_def)
qed simp

section \<open>Dependencies\<close>

lemma find_provider_v2:
  assumes "find_provider c svc ver s = Some p" "\<forall>i < zzm_slot_count. hdr_scanned i (zw_mods s i)"
  shows "p < zzm_slot_count \<and> \<not> is_v3 s p"
proof -
  have p: "p < zzm_slot_count" "provides svc ver (zh_provided_count (header_of s p)) (zh_provided (header_of s p))"
    using assms(1) by (auto simp: find_provider_def find_Some_iff)
  then have "zh_provided_count (header_of s p) \<noteq> 0" by (auto simp: provides_def)
  with p(1) assms(2) show ?thesis by (auto simp: hdr_scanned_def is_v3_def header_of_def)
qed

text \<open>Resolving module \<open>i\<close> keeps every header and gives it dependencies of format 2.\<close>

definition resolved_at :: "zzm_world \<Rightarrow> nat \<Rightarrow> bool" where
  "resolved_at s i \<longleftrightarrow> (\<forall>d \<in> set (zdeps s i). d < zzm_slot_count \<and> \<not> is_v3 s d)"

definition resolving :: "nat \<Rightarrow> zzm_world \<Rightarrow> zzm_world \<Rightarrow> bool" where
  "resolving i s t \<longleftrightarrow> only_mod i s t \<and> zm_format (zw_mods t i) = zm_format (zw_mods s i) \<and>
     (hdr_scanned i (zw_mods s i) \<longrightarrow> hdr_scanned i (zw_mods t i)) \<and> (scanned i (zw_mods s i) \<longrightarrow> scanned i (zw_mods t i))"

lemma resolving_is_v3: "resolving i s t \<Longrightarrow> is_v3 t j = is_v3 s j"
  by (cases "j = i") (auto simp: resolving_def only_mod_def is_v3_def)

lemma resolving_deps [simp]: "resolving i s (upd_mod i (\<lambda>m. m\<lparr>zm_dependencies := f m\<rparr>) s)"
  by (simp add: resolving_def scanned_def)

lemma resolving_status [simp]:
  "resolving i s (status_from_slot i ZS_REJECTED_SERVICE h r s)" "resolving i s (status_from_v3_slot i ZS_REJECTED_SERVICE g r s)"
  using scanned_status [of i s ZS_REJECTED_SERVICE] by (simp_all add: resolving_def) (simp_all add: scanned_def)

lemma resolving_refl [simp]: "resolving i s s"
  by (simp add: resolving_def)

lemma resolving_trans [trans]: "resolving i s t \<Longrightarrow> resolving i t u \<Longrightarrow> resolving i s u"
  by (auto simp: resolving_def intro: only_mod_trans)

lemma resolving_hdrs:
  assumes "resolving i s t" "\<forall>j < zzm_slot_count. hdr_scanned j (zw_mods s j)" "j < zzm_slot_count"
  shows "hdr_scanned j (zw_mods t j)"
  using assms by (cases "j = i") (auto simp: resolving_def only_mod_def)

lemma zdeps_status [simp]:
  "zdeps (status_from_slot i st h r s) i = zdeps s i" "zdeps (status_from_v3_slot i st g r s) i = zdeps s i"
  unfolding zdeps_def by (subst status_mod(1), simp, subst status_mod(2), simp)

lemma resolve_reqs_ok:
  assumes "\<forall>j < zzm_slot_count. hdr_scanned j (zw_mods s j)" "resolved_at s i"
  shows "resolving i s (resolve_reqs i rs s) \<and> resolved_at (resolve_reqs i rs s) i"
  using assms
proof (induction rs arbitrary: s)
  case (Cons r rs)
  show ?case
  proof (cases "find_provider i (rq_id r) (rq_version r) s")
    case None
    let ?t = "status_from_slot i ZS_REJECTED_SERVICE (Some (header_of s i)) (rq_id r) s"
    have "resolved_at ?t i" using Cons.prems(2) resolving_is_v3 [OF resolving_status(1)]
      by (simp add: resolved_at_def)
    then show ?thesis using Cons None by simp
  next
    case (Some p)
    let ?t = "upd_mod i (\<lambda>m. m\<lparr>zm_dependencies := zm_dependencies m @ [p]\<rparr>) s"
    have r: "resolving i s ?t" by simp
    have "resolved_at ?t i" using Cons.prems(2) find_provider_v2 [OF Some Cons.prems(1)] resolving_is_v3 [OF r]
      by (auto simp: resolved_at_def zdeps_def)
    with Cons.IH [of ?t] resolving_hdrs [OF r Cons.prems(1)] Cons show ?thesis
      by (auto simp: Some intro: resolving_trans [OF r])
  qed
qed simp

lemma resolve_one_ok:
  assumes "\<forall>j < zzm_slot_count. hdr_scanned j (zw_mods s j)"
  shows "resolving i s (resolve_one i s) \<and> resolved_at (resolve_one i s) i"
proof -
  define s1 where "s1 = upd_mod i (\<lambda>m. m\<lparr>zm_dependencies := []\<rparr>) s"
  have r: "resolving i s s1" by (simp add: s1_def)
  have a1: "resolved_at s1 i" by (simp add: s1_def resolved_at_def zdeps_def)
  have h1: "\<forall>j < zzm_slot_count. hdr_scanned j (zw_mods s1 j)" using resolving_hdrs [OF r assms] by blast
  have v3: "resolved_at (status_from_v3_slot i ZS_REJECTED_SERVICE g q s1) i" for g q
    using a1 resolving_is_v3 [OF resolving_status(2)] by (simp add: resolved_at_def)
  show ?thesis
    using resolve_reqs_ok [OF h1 a1] r a1 v3 resolving_trans [OF r] resolving_status(2)
    by (simp add: resolve_one_def Let_def s1_def [symmetric] split: option.split)
qed

lemma resolve_all:
  assumes "distinct xs" "\<forall>j < zzm_slot_count. scanned j (zw_mods s j)"
  shows "(\<forall>i \<in> set xs. resolved_at (fold resolve_one xs s) i) \<and>
    (\<forall>j < zzm_slot_count. scanned j (zw_mods (fold resolve_one xs s) j)) \<and>
    (\<forall>j. j \<notin> set xs \<longrightarrow> zw_mods (fold resolve_one xs s) j = zw_mods s j) \<and>
    (\<forall>j. is_v3 (fold resolve_one xs s) j = is_v3 s j) \<and>
    zw_ops (fold resolve_one xs s) = zw_ops s \<and> zw_services (fold resolve_one xs s) = zw_services s \<and>
    zw_interrupts (fold resolve_one xs s) = zw_interrupts s \<and>
    zw_halted (fold resolve_one xs s) = zw_halted s \<and> zw_cut (fold resolve_one xs s) = zw_cut s"
  using assms
proof (induction xs arbitrary: s)
  case (Cons x xs)
  let ?t = "resolve_one x s"
  have h: "\<forall>j < zzm_slot_count. hdr_scanned j (zw_mods s j)" using Cons.prems(2) by (simp add: scanned_def)
  have r: "resolving x s ?t" "resolved_at ?t x" using resolve_one_ok [OF h] by blast+
  have "\<forall>j < zzm_slot_count. scanned j (zw_mods ?t j)"
  proof (intro allI impI)
    fix j assume "j < zzm_slot_count"
    then show "scanned j (zw_mods ?t j)"
      using Cons.prems(2) r(1) by (cases "j = x") (auto simp: resolving_def only_mod_def)
  qed
  from Cons.IH [OF _ this] Cons.prems(1) have ih: "(\<forall>i \<in> set xs. resolved_at (fold resolve_one xs ?t) i)"
    "(\<forall>j < zzm_slot_count. scanned j (zw_mods (fold resolve_one xs ?t) j))"
    "(\<forall>j. j \<notin> set xs \<longrightarrow> zw_mods (fold resolve_one xs ?t) j = zw_mods ?t j)"
    "(\<forall>j. is_v3 (fold resolve_one xs ?t) j = is_v3 ?t j)"
    "zw_ops (fold resolve_one xs ?t) = zw_ops ?t" "zw_services (fold resolve_one xs ?t) = zw_services ?t"
    "zw_interrupts (fold resolve_one xs ?t) = zw_interrupts ?t" "zw_halted (fold resolve_one xs ?t) = zw_halted ?t"
    "zw_cut (fold resolve_one xs ?t) = zw_cut ?t" by simp_all
  have "resolved_at (fold resolve_one xs ?t) x"
    using r(2) ih(3,4) Cons.prems(1) by (simp add: resolved_at_def zdeps_def)
  moreover have "\<forall>j. j \<notin> set (x # xs) \<longrightarrow> zw_mods (fold resolve_one xs ?t) j = zw_mods s j"
    using ih(3) r(1) by (auto simp: resolving_def only_mod_def)
  moreover have "\<forall>j. is_v3 (fold resolve_one xs ?t) j = is_v3 s j" using ih(4) resolving_is_v3 [OF r(1)] by simp
  moreover have "zw_ops ?t = zw_ops s" "zw_services ?t = zw_services s" "zw_interrupts ?t = zw_interrupts s"
    "zw_halted ?t = zw_halted s" "zw_cut ?t = zw_cut s"
    using r(1) by (simp_all add: resolving_def only_mod_def)
  ultimately show ?case using ih by simp
qed simp

lemma boot_zinv: "zinv sha {} (zzm_loader_boot_load env (zero_world intr caps mem))"
proof -
  let ?xs = "[0..<zzm_slot_count]"
  define z where "z = zero_world intr caps mem"
  define s where "s = fold (scan_slot env) ?xs z"
  define t where "t = fold resolve_one ?xs s"
  have "zh_provided_count (zm_header (zw_mods z i)) = 0" for i
    by (simp add: z_def zero_world_def zero_module_def header_of_bytes_def le16_def)
  then have sc: "\<forall>i < zzm_slot_count. scanned i (zw_mods s i)" and regs: "zw_ops s = zw_ops z" "zw_services s = zw_services z"
    "zw_halted s = zw_halted z" "zw_cut s = zw_cut z"
    using scan_all [of ?xs z env] by (auto simp: s_def)
  note rs = resolve_all [of ?xs s, OF distinct_upt sc, folded t_def]
  have st: "\<forall>i < zzm_slot_count. scanned i (zw_mods t i)" and dp: "\<forall>i < zzm_slot_count. resolved_at t i"
    using rs by auto
  have none: "zw_ops t = (\<lambda>_. 0)" "zw_services t = replicate ZZM_REGISTRY_SERVICES no_service"
    "\<not> zw_halted t" "zw_cut t = {}"
    using rs regs by (simp_all add: z_def zero_world_def)
  have "ids_ok t" using st by (simp add: ids_ok_def zid_def scanned_def)
  moreover have "fits_ok t" using st
    by (auto simp: fits_ok_def scanned_def hdr_scanned_def zvalid_def zload_def zimg_def zbss_def zinit_def zfini_def
      is_v3_def header_of_def v3_header_of_def split: if_splits)
  moreover have "deps_ok t" using dp by (auto simp: deps_ok_def resolved_at_def)
  moreover have "digest_ok sha t" using st by (auto simp: digest_ok_def scanned_def settled_def zst_def)
  moreover have "regs_ok {} t" by (simp add: regs_ok_def unreg_def none no_service_def)
  moreover have "active_ok {} t" using st by (auto simp: active_ok_def scanned_def settled_def zst_def)
  moreover have "cut_ok t" using none by (simp add: cut_ok_def)
  ultimately show ?thesis
    by (simp add: zinv_def zzm_loader_boot_load_def resolve_dependencies_def t_def s_def z_def)
qed

section \<open>Properties of a running system\<close>

text \<open>The states that follow a boot scan, every call seeing the same digest function.\<close>

definition zzm_running :: "(u8 list \<Rightarrow> u8 list) \<Rightarrow> zzm_world \<Rightarrow> bool" where
  "zzm_running sha s \<longleftrightarrow> (\<exists>boot intr caps mem es. s = zzm_run es (zzm_loader_boot_load boot (zero_world intr caps mem)) \<and>
     (\<forall>(env, op) \<in> set es. ze_sha256 env = sha))"

lemma running_zinv: "zzm_running sha s \<Longrightarrow> zinv sha {} s"
  unfolding zzm_running_def using zzm_run_zinv boot_zinv by blast

text \<open>
  C13: a loaded module runs the code its digest vouches for. After the boot scan and any
  sequence of loads, releases, polls, faults and core-1 restarts, loads cut short
  included, whatever the card returned on the way: every module in state LOADED has a
  header that fits its slot, the image its init found in memory had the header's digest,
  and every byte of that image still is what init found, unless the module's own code has
  stored to it.
\<close>

theorem module_image_integrity:
  assumes "zzm_running sha s" "i < zzm_slot_count" "zst s i = ZS_LOADED"
  shows "image_fits i (zload s i) (zimg s i) (zbss s i) (zinit s i) (zfini s i) \<and>
    length (zentered s i) = unat (zimg s i) \<and> sha (zentered s i) = zsha s i \<and>
    (\<forall>k < unat (zimg s i). k \<notin> zwritten s i \<longrightarrow> zw_mem s (zload s i + of_nat k) = zentered s i ! k)"
proof -
  have "zvalid s i" "image_ok sha s i" and fits: "fits_ok s"
    using running_zinv [OF assms(1)] assms(2,3) by (auto simp: zinv_def digest_ok_def)
  then show ?thesis using assms(2) by (auto simp: fits_ok_def image_ok_def zimage_def mem_bytes_nth)
qed

text \<open>
  C14: the registry hands out no pointer into a module that is not loaded. In every
  running state an operations table or a service found by lookup belongs to a module in
  state LOADED, or to one whose load was cut short after its init had registered it and
  which is still marked LOADING, or rejected by a later attempt. No other module is left
  LOADING, and where core 1 is never interrupted there is none.
\<close>

theorem module_registry_live:
  assumes "zzm_running sha s"
  defines "stuck \<equiv> \<lambda>i. i \<in> zw_cut s \<and> zst s i \<in> {ZS_LOADING, ZS_REJECTED_SERVICE}"
  shows "(\<forall>i < zzm_slot_count. zw_ops s i \<noteq> 0 \<longrightarrow> zst s i = ZS_LOADED \<or> stuck i) \<and>
    (lookup_service svc ver s \<noteq> 0 \<longrightarrow> (\<exists>i < zzm_slot_count. (zst s i = ZS_LOADED \<or> stuck i) \<and>
       (\<exists>p \<in> set (zw_services s). ps_module_id p = sl_id (zzm_slots ! i) \<and> ps_id p = svc \<and> ver \<le> ps_version p \<and>
          ps_interface p = lookup_service svc ver s))) \<and>
    (\<forall>i < zzm_slot_count. zst s i = ZS_LOADING \<longrightarrow> i \<in> zw_cut s) \<and>
    (\<not> zw_interrupts s \<longrightarrow> zw_cut s = {})"
proof -
  from running_zinv [OF assms(1)] have reg: "regs_ok {} s" and act: "active_ok {} s" and cut: "cut_ok s"
    by (simp_all add: zinv_def)
  have no: "i \<in> zw_cut s" if "i < zzm_slot_count" "zst s i = ZS_LOADING" for i
    using act that by (auto simp: active_ok_def)
  have live: "zst s i = ZS_LOADED \<or> stuck i" if "i < zzm_slot_count" "\<not> unreg s i" for i
    using reg no that by (auto simp: regs_ok_def stuck_def)
  have ops: "zst s i = ZS_LOADED \<or> stuck i" if "i < zzm_slot_count" "zw_ops s i \<noteq> 0" for i
    using live that by (auto simp: unreg_def)
  have "\<exists>i < zzm_slot_count. (zst s i = ZS_LOADED \<or> stuck i) \<and>
      (\<exists>p \<in> set (zw_services s). ps_module_id p = sl_id (zzm_slots ! i) \<and>
      ps_id p = svc \<and> ver \<le> ps_version p \<and> ps_interface p = lookup_service svc ver s)"
    if "lookup_service svc ver s \<noteq> 0"
  proof -
    from that obtain p where p: "p \<in> set (zw_services s)" "ps_interface p \<noteq> 0" "ps_id p = svc" "ver \<le> ps_version p"
      "lookup_service svc ver s = ps_interface p"
      by (auto simp: lookup_service_def dest!: find_SomeD split: option.splits)
    then obtain i where i: "i < zzm_slot_count" "ps_module_id p = sl_id (zzm_slots ! i)"
      using reg by (auto simp: regs_ok_def)
    with p(1,2) have "zst s i = ZS_LOADED \<or> stuck i" by (intro live) (auto simp: unreg_def)
    with i p show ?thesis by auto
  qed
  with ops no cut show ?thesis by (simp add: cut_ok_def)
qed

lemma status_v3_frame: "is_v3 (status_from_v3_slot i st g r s) j = is_v3 s j"
  "zdeps (status_from_v3_slot i st g r s) j = zdeps s j"
  by (cases "j = i"; simp add: is_v3_def zdeps_def status_from_v3_slot_def)+

lemma release_depth:
  assumes "deps_ok s"
  shows "release_upto (Suc (Suc n)) env m s = release_upto (Suc (Suc 0)) env m s"
proof (cases "module_index m")
  case (Some i)
  then have i: "i < zzm_slot_count" by (simp add: module_index_Some)
  have inner: "release_upto (Suc n) env (sl_id (zzm_slots ! d)) t = release_upto (Suc 0) env (sl_id (zzm_slots ! d)) t"
    if "d < zzm_slot_count" "\<not> is_v3 t d" for d t
    using that by (simp add: release_with_def Let_def)
  have folds: "fold (\<lambda>d. release_upto (Suc n) env (sl_id (zzm_slots ! d))) ds t =
      fold (\<lambda>d. release_upto (Suc 0) env (sl_id (zzm_slots ! d))) ds t"
    if "\<forall>d \<in> set ds. d < zzm_slot_count \<and> \<not> is_v3 t d" for ds t
    using that
  proof (induction ds arbitrary: t)
    case (Cons d ds)
    have "same_view t (release_upto (Suc 0) env (sl_id (zzm_slots ! d)) t)"
      by (rule release_v2_view) (use Cons.prems in \<open>auto simp: module_index_Some dest: zzm_slot_id_inj\<close>)
    then have "\<forall>e \<in> set ds. e < zzm_slot_count \<and> \<not> is_v3 (release_upto (Suc 0) env (sl_id (zzm_slots ! d)) t) e"
      using Cons.prems by (simp add: same_hdrs_views [OF same_view_hdrs])
    from Cons.IH [OF this] Cons.prems inner [of d t] show ?case by (simp del: release_upto.simps)
  qed simp
  have unl: "unload_v3_with (release_upto (Suc n) env) env i t = unload_v3_with (release_upto (Suc 0) env) env i t"
    if "same_hdrs s t" for t
  proof -
    let ?p = "set_idle i 0 (status_from_v3_slot i ZS_AVAILABLE (Some (v3_header_of t i)) ZZM_REASON_NONE
          (poison_v3_slot i (unregister_module i t)))"
    have h: "is_v3 ?p j = is_v3 s j" "zdeps ?p j = zdeps s j" for j
      by (simp_all add: status_v3_frame same_hdrs_views [OF that])
    have "\<forall>d \<in> set (take (zm_dependencies_held (zw_mods ?p i)) (zm_dependencies (zw_mods ?p i))).
        d < zzm_slot_count \<and> \<not> is_v3 ?p d"
      using assms i h set_take_subset [of "zm_dependencies_held (zw_mods ?p i)" "zdeps ?p i"]
      by (auto simp: deps_ok_def zdeps_def)
    from folds [OF this] show ?thesis by (simp add: unload_v3_with_def release_dependencies_with_def del: release_upto.simps)
  qed
  show ?thesis
    using unl [of "set_idle i (zw_last_poll (set_refs i (refs s i - 1) s)) (set_refs i (refs s i - 1) s)"]
      same_view_hdrs [OF same_view_trans [OF same_view_set_refs same_view_set_idle]]
    by (simp add: release_with_def Some Let_def)
qed (simp add: release_with_def)

text \<open>
  C15: loading ends. However module headers name each other, cycles included, the recursion
  of \<^verbatim>\<open>load_module\<close> through dependencies and through services demanded in the middle of a
  load is at most nine deep and that of \<^verbatim>\<open>zzm_loader_release\<close> at most two. A deeper bound
  changes nothing, the visiting marks are restored, and success means LOADED.
\<close>

theorem module_load_terminates:
  assumes "zzm_running (ze_sha256 env) s" "i < zzm_slot_count" "9 \<le> n" "2 \<le> k"
  shows "load_module_upto n env i v s = load_module env i v s \<and>
    release_upto k env m s = release_upto 2 env m s \<and>
    fst (snd (load_module env i v s)) = v \<and>
    (fst (load_module env i v s) \<longrightarrow> zst (snd (snd (load_module env i v s))) i = ZS_LOADED)"
proof -
  note inv = running_zinv [OF assms(1)]
  have "card (loadable s) < 9" using loadable_card [of s] by (simp add: zzm_slot_count_def)
  from load_depth_upto [OF assms(2) inv this, of "n - 9" v] assms(3)
  have "load_module_upto n env i v s = load_module env i v s" by (simp add: load_module_def)
  moreover have "release_upto k env m s = release_upto 2 env m s"
    using release_depth [of s "k - 2" env m] inv assms(4) by (simp add: zinv_def numeral_2_eq_2 Suc_diff_Suc)
  ultimately show ?thesis using ml.ld_visiting [OF assms(2) inv] ml.ld_loaded [OF assms(2) inv] by blast
qed

text \<open>
  when the boot scan is skipped (no card mounted), the zeroed statuses read as LOADED:
  every module can be acquired although nothing was loaded, and the registry, which looks
  modules up by the identifier in those statuses, reports a mismatch and not a missing file.
\<close>

theorem module_unscanned_acquires:
  assumes "i < zzm_slot_count"
  shows "fst (zzm_loader_acquire env (sl_id (zzm_slots ! i)) (zero_world intr caps mem)) \<and>
    \<not> zvalid (snd (zzm_loader_acquire env (sl_id (zzm_slots ! i)) (zero_world intr caps mem))) i \<and>
    fst (zzm_registry_availability env (sl_id (zzm_slots ! i)) (zero_world intr caps mem)) = CODEC_MISMATCH"
proof -
  let ?z = "zero_world intr caps mem"
  have st: "zst ?z i = ZS_LOADED" and v3: "\<not> is_v3 ?z i" for i
    by (simp_all add: zst_def is_v3_def zero_world_def zero_module_def)
  have "load_module env i v ?z = (True, v, ?z)" for v
    by (simp add: load_module_def eval_nat_numeral load_module_with_def st v3 Let_def)
  then have "zzm_loader_ensure_loaded env (sl_id (zzm_slots ! i)) ?z = (True, ?z)"
    using assms by (simp add: zzm_loader_ensure_loaded_def ensure_loaded_with_def sdk_mailbox_load_module_core1_def
      zzm_loader_load_on_owner_def load_on_owner_with_def st)
  moreover have "\<not> zvalid ?z i" by (simp add: zvalid_def zero_world_def zero_module_def)
  moreover have "registry_module_index (sl_id (zzm_slots ! i)) ?z = None"
    using zzm_slot_id [OF assms] less8_cases [OF assms]
    by (auto simp: registry_module_index_def find_None_iff zero_world_def zero_module_def)
  ultimately show ?thesis using assms by (simp add: zzm_loader_acquire_def zzm_registry_availability_def)
qed

section \<open>A concrete run\<close>

text \<open>A card with one module, whose init registers the service its header declares.\<close>

definition demo_env :: zzm_env where
  "demo_env = \<lparr>ze_idle = (\<lambda>_. True), ze_open = (\<lambda>p. if p = module_path 2 then Some \<lparr>zf_size = 272, zf_lseek = (\<lambda>_. True),
       zf_bytes = (\<lambda>off. if off = 0 then demo_bytes else replicate 16 0xE1), zf_read_ok = (\<lambda>_ _. True)\<rparr> else None),
     ze_quota = (\<lambda>_ _. True), ze_sha256 = (\<lambda>_. replicate 32 7),
     ze_init = (\<lambda>_. ([Register_service 3 32 1 0x09600004 8, Register_ops 3 0x09600008 8], True)),
     ze_stores = (\<lambda>_. (\<lambda>k. if k = 4 then Some 0 else None)), ze_cut = (\<lambda>_ _. False), ze_cpu1 = True, ze_dispatch = False, ze_time = 0, ze_enqueue = True, ze_minigl_poll_active = False\<rparr>"

definition demo_run :: zzm_world where
  "demo_run = zzm_run [(demo_env, Op_acquire 3)] (zzm_loader_boot_load demo_env
     (zero_world False \<lparr>cap_image_flags = 0, cap_wire_version = 0, cap_transport_major = 0, cap_csr_major = 0,
       cap_csr_minor = 0, cap_window_major = 0\<rparr> (\<lambda>_. 0)))"

lemma demo_running: "zzm_running (\<lambda>_. replicate 32 7) demo_run"
  unfolding zzm_running_def demo_run_def
  by (intro exI conjI, rule refl) (simp add: demo_env_def)

definition demo_caps :: zzm_v3_capabilities where
  "demo_caps = \<lparr>cap_image_flags = 0, cap_wire_version = 0, cap_transport_major = 0, cap_csr_major = 0,
     cap_csr_minor = 0, cap_window_major = 0\<rparr>"

lemma demo_env_simps [simp]: "ze_idle demo_env i" "ze_quota demo_env c q" "ze_cpu1 demo_env" "\<not> ze_dispatch demo_env"
  "ze_sha256 demo_env xs = replicate 32 7"
  "ze_init demo_env e = ([Register_service 3 32 1 0x09600004 8, Register_ops 3 0x09600008 8], True)"
  "\<not> ze_cut demo_env i p" "interrupt demo_env i p s = s"
  by (simp_all add: demo_env_def interrupt_def)

lemma demo_scan: "zw_mods s 2 = zero_module \<Longrightarrow> zst (scan_slot demo_env 2 s) 2 = ZS_AVAILABLE \<and>
    header_of (scan_slot demo_env 2 s) 2 = demo_header \<and> zvalid (scan_slot demo_env 2 s) 2 \<and> \<not> is_v3 (scan_slot demo_env 2 s) 2"
proof -
  have len: "length demo_bytes = 256" "take 4 (take 8 demo_bytes) \<noteq> ZZM_V3_MAGIC" by code_simp+
  have names: "cstr (zh_name demo_header) = sl_name (zzm_slots ! 2)" "zh_module_id demo_header = sl_id (zzm_slots ! 2)"
    by code_simp+
  show "zst (scan_slot demo_env 2 s) 2 = ZS_AVAILABLE \<and> header_of (scan_slot demo_env 2 s) 2 = demo_header \<and>
      zvalid (scan_slot demo_env 2 s) 2 \<and> \<not> is_v3 (scan_slot demo_env 2 s) 2"
    using len(2) by (simp add: scan_slot_def f_read_def Let_def demo_env_def scan_v2_def len(1) ZZM_HEADER_SIZE_def
      demo_header_parsed demo_header_available names)
      (simp add: zst_def header_of_def zvalid_def is_v3_def status_mod(5))
qed

definition demo_boot :: zzm_world where
  "demo_boot = zzm_loader_boot_load demo_env (zero_world False demo_caps (\<lambda>_. 0))"

text \<open>What the payload load of the demo needs of the state before it.\<close>

definition demo_ready :: "zzm_world \<Rightarrow> bool" where
  "demo_ready s \<longleftrightarrow> zst s 2 = ZS_AVAILABLE \<and> header_of s 2 = demo_header \<and> zvalid s 2 \<and> \<not> is_v3 s 2 \<and>
     zdeps s 2 = [] \<and> zw_services s = replicate 24 no_service \<and> ids_ok s \<and> \<not> zw_halted s"

lemma demo_boot_ready: "demo_ready demo_boot"
proof -
  let ?xs = "[0, Suc 0]" and ?ys = "[3..<zzm_slot_count]"
  have xs: "[0..<zzm_slot_count] = ?xs @ 2 # ?ys" by (simp add: zzm_slot_count_def eval_nat_numeral)
  define z where "z = zero_world False demo_caps (\<lambda>_. 0)"
  have z: "zw_mods z i = zero_module" "zh_provided_count (zm_header (zw_mods z i)) = 0" for i
    by (simp_all add: z_def zero_world_def zero_module_def header_of_bytes_def le16_def)
  define s where "s = fold (scan_slot demo_env) [0..<zzm_slot_count] z"
  have scan: "(\<forall>i \<in> set xs. scanned i (zw_mods (fold (scan_slot demo_env) xs t) i)) \<and>
    (\<forall>j. j \<notin> set xs \<longrightarrow> zw_mods (fold (scan_slot demo_env) xs t) j = zw_mods t j)"
    if "distinct xs" "\<forall>i \<in> set xs. i < zzm_slot_count \<and> zw_mods t i = zero_module" for xs t
    using scan_all [of xs t demo_env] that z by (simp add: z_def)
  define a where "a = fold (scan_slot demo_env) ?xs z"
  have a: "zw_mods a j = zero_module" if "1 < j" for j
    using scan [of ?xs z] z that by (simp add: a_def zzm_slot_count_def)
  have o: "only_mod 2 a (scan_slot demo_env 2 a)"
    using scan_slot_scanned [of a 2 demo_env] z a [of 2] by (simp add: zzm_slot_count_def)
  have s_a: "s = fold (scan_slot demo_env) ?ys (scan_slot demo_env 2 a)" by (simp add: s_def xs a_def)
  have "zw_mods s 2 = zw_mods (scan_slot demo_env 2 a) 2"
    using scan [of ?ys "scan_slot demo_env 2 a"] o a by (simp add: s_a only_mod_def)
  then have s: "zst s 2 = ZS_AVAILABLE" "header_of s 2 = demo_header" "zvalid s 2" "\<not> is_v3 s 2"
    using demo_scan [OF a [of 2]] by (simp_all add: zst_def header_of_def zvalid_def is_v3_def)
  have sc: "\<forall>i < zzm_slot_count. scanned i (zw_mods s i)" and "zw_services s = replicate 24 no_service"
    and "\<not> zw_halted s"
    using scan_all [of "[0..<zzm_slot_count]" z demo_env] z
    by (simp_all add: s_def z_def zero_world_def ZZM_REGISTRY_SERVICES_def)
  define b where "b = fold resolve_one ?xs s"
  note rb = resolve_all [OF _ sc, of ?xs, folded b_def]
  have b: "zw_mods b 2 = zw_mods s 2" "\<forall>i < zzm_slot_count. scanned i (zw_mods b i)" using rb by simp_all
  define t where "t = fold resolve_one [0..<zzm_slot_count] s"
  have h: "\<forall>j < zzm_slot_count. hdr_scanned j (zw_mods b j)" using b(2) by (simp add: scanned_def)
  have "\<forall>i < zzm_slot_count. scanned i (zw_mods (resolve_one 2 b) i)"
    using resolve_one_ok [OF h, of 2] b(2) by (metis only_mod_def resolving_def)
  moreover have t_b: "t = fold resolve_one ?ys (resolve_one 2 b)" by (simp add: t_def xs b_def)
  ultimately have "zw_mods t 2 = zw_mods (resolve_one 2 b) 2" using resolve_all [of ?ys "resolve_one 2 b"] by simp
  also have "\<dots> = (zw_mods s 2)\<lparr>zm_dependencies := []\<rparr>"
    using s b(1) by (simp add: resolve_one_def Let_def zst_def is_v3_def header_of_def demo_header_def
      runtime_service_present_def module_service_compatible_def)
  finally have t: "zw_mods t 2 = (zw_mods s 2)\<lparr>zm_dependencies := []\<rparr>" .
  have "zw_services t = zw_services s" "zw_halted t = zw_halted s" using resolve_all [OF _ sc, of "[0..<zzm_slot_count]"] by (simp_all add: t_def)
  moreover have "ids_ok demo_boot"
    using boot_zinv [of "\<lambda>_. []" demo_env False demo_caps "\<lambda>_. 0"] by (simp add: zinv_def demo_boot_def)
  moreover have "demo_boot = t"
    by (simp add: demo_boot_def zzm_loader_boot_load_def resolve_dependencies_def t_def s_def z_def)
  ultimately show ?thesis using s t \<open>zw_services s = _\<close> \<open>\<not> zw_halted s\<close>
    by (simp add: demo_ready_def zst_def header_of_def zvalid_def is_v3_def zdeps_def)
qed

lemma load_module_8: "load_module env = load_module_with (load_module_upto 8 env) env"
  using load_module_upto_Suc [of 8 env] by (simp add: load_module_def)

lemma demo_load:
  assumes "demo_ready s" "\<not> v 2"
  shows "fst (load_module demo_env 2 v s) \<and> lookup_service 32 1 (snd (snd (load_module demo_env 2 v s))) = 0x09600004"
proof -
  note r = assms(1) [unfolded demo_ready_def]
  let ?h = demo_header
  have id3: "module_index 3 = Some 2" by code_simp
  have im: "zh_image_size ?h = 16" by (simp add: demo_header_def)
  define s2 where "s2 = set_mem (zh_load_address ?h) 16 ((!) (replicate 16 0xE1)) (set_state 2 ZS_LOADING s)"
  have open2: "ze_open demo_env (module_path 2) = Some \<lparr>zf_size = 272, zf_lseek = (\<lambda>_. True),
       zf_bytes = (\<lambda>off. if off = 0 then demo_bytes else replicate 16 0xE1), zf_read_ok = (\<lambda>_ _. True)\<rparr>"
    by (simp add: demo_env_def)
  have ver: "zzm_verify_image demo_env e ?h 272 s2 = (ZS_LOADED, s2)" for e
    unfolding zzm_verify_image_def demo_header_available
    by (simp add: demo_header_def runtime_service_present_def module_service_compatible_def)
  define s3 where "s3 = enter_module 2 (zh_load_address ?h) (zh_image_size ?h)
    (set_mem (zh_load_address ?h + zh_image_size ?h) (unat (zh_bss_size ?h)) (\<lambda>_. 0) s2)"
  have s3: "zst s3 2 = ZS_LOADING" "zw_services s3 = replicate 24 no_service" "header_of s3 2 = ?h" "zvalid s3 2"
    "\<not> is_v3 s3 2" "ids_ok s3" "zid s3 2 = 3" "\<not> zw_halted s3" "\<not> zw_halted s2"
    using r by (simp_all add: s3_def s2_def ids_ok_def zzm_slot_count_def enter_module_same hdrs_enter_module)
      (simp add: zzm_slots_nth mk_slot_def)
  define p where "p = \<lparr>ps_module_id = (3::u32), ps_id = 32, ps_version = 1, ps_interface = 0x09600004, ps_size = 8\<rparr>"
  have r24: "replicate 24 no_service = no_service # replicate 23 no_service" by (simp add: eval_nat_numeral)
  have reg: "run_reg_call (Register_service 3 32 1 0x09600004 8) s3 = s3\<lparr>zw_services := p # replicate 23 no_service\<rparr>"
    using s3 by (simp add: zzm_registry_register_service_def zzm_loader_can_register_def zzm_loader_service_declared_def
      id3 zvalid_def declares_def demo_header_def r24 p_def) (simp add: no_service_def list_ex_iff)
  define s4 where "s4 = run_reg_call (Register_ops 3 0x09600008 8) (s3\<lparr>zw_services := p # replicate 23 no_service\<rparr>)"
  define s5 where "s5 = module_stores 2 (ze_stores demo_env (zh_init_entry ?h)) s4"
  have init: "run_init demo_env 2 (zh_init_entry ?h) s3 = (True, s5)"
    by (simp add: run_init_def s5_def s4_def reg [symmetric] del: run_reg_call.simps)
  have s4m: "zw_mods s4 = zw_mods s3" using reg_call_reg_only [of "s3\<lparr>zw_services := p # replicate 23 no_service\<rparr>" "Register_ops 3 0x09600008 8"]
    unfolding s4_def reg_only_def by (simp del: run_reg_call.simps)
  have s4h: "zw_halted s4 = zw_halted s3" using reg_call_reg_only [of "s3\<lparr>zw_services := p # replicate 23 no_service\<rparr>" "Register_ops 3 0x09600008 8"]
    unfolding s4_def reg_only_def by (simp del: run_reg_call.simps)
  have s4s: "zw_services s4 = p # replicate 23 no_service"
    by (simp add: s4_def zzm_registry_register_ops_def split: option.split)
  have s4v: "zid s4 2 = 3" "zvalid s4 2" "\<not> is_v3 s4 2" "header_of s4 2 = ?h"
    using s3 by (simp_all add: zid_def zvalid_def is_v3_def header_of_def s4m)
  have s5v: "zid s5 2 = 3" "zvalid s5 2" "\<not> is_v3 s5 2" "header_of s5 2 = ?h" "zw_services s5 = p # replicate 23 no_service"
    "\<not> zw_halted s5"
    using s4v s4s s4h s3(8) by (simp_all add: s5_def module_stores_same hdrs_module_stores)
  have ready: "zzm_registry_module_services_ready (st_id (zm_status (zw_mods s5 2))) s5"
    using s5v unfolding zid_def [symmetric]
    by (simp add: zzm_registry_module_services_ready_def zzm_loader_service_declared_count_def id3
      zvalid_def is_v3_def header_of_def demo_header_def p_def no_service_def)
  have lk: "lookup_service 32 1 t = 0x09600004" if "zw_services t = p # replicate 23 no_service" for t
    by (simp add: lookup_service_def that p_def)
  show ?thesis
    using r ready assms(2) lk by (simp add: load_module_8 load_module_with_def Let_def zvalid_def zdeps_def
        load_payload_def open2 read_payload_def f_read_def ZZM_HEADER_SIZE_def im ver init s2_def [symmetric]
        s3_def [unfolded im, symmetric] s3(9) s5v set_idle_def status_from_slot_def)
qed

lemma zst_unhalt [simp]: "zst (s\<lparr>zw_halted := h\<rparr>) i = zst s i"
  by (simp add: zst_def)

lemma demo_acquired: "zst demo_run 2 = ZS_LOADED" "lookup_service 32 1 demo_run = 0x09600004"
proof -
  obtain ok v t where r: "load_module demo_env 2 (\<lambda>_. False) demo_boot = (ok, v, t)"
    by (cases "load_module demo_env 2 (\<lambda>_. False) demo_boot") auto
  have id3: "module_index 3 = Some 2" by code_simp
  note dl = demo_load [OF demo_boot_ready, of "\<lambda>_. False", simplified]
  have inv: "zinv (ze_sha256 demo_env) {} demo_boot" unfolding demo_boot_def by (rule boot_zinv)
  have t: "zst t 2 = ZS_LOADED" using ml.ld_loaded [OF _ inv, of 2 "\<lambda>_. False"] dl by (simp add: r zzm_slot_count_def)
  have eq: "demo_run = (set_idle 2 0 (set_refs 2 (refs t 2 + 1) t))\<lparr>zw_halted := False\<rparr>"
    using dl by (simp add: demo_run_def zzm_run_def zzm_step_def demo_boot_def [unfolded demo_caps_def, symmetric]
      zzm_loader_acquire_def id3 zzm_loader_ensure_loaded_def ensure_loaded_with_def zzm_loader_load_on_owner_def
      load_on_owner_with_def r)
  then show "zst demo_run 2 = ZS_LOADED" "lookup_service 32 1 demo_run = 0x09600004"
    using t dl unfolding eq by (simp_all add: r lookup_service_def)
qed

theorem module_image_integrity_witness:
  "image_fits 2 (zload demo_run 2) (zimg demo_run 2) (zbss demo_run 2) (zinit demo_run 2) (zfini demo_run 2) \<and>
    replicate 32 7 = zsha demo_run 2"
  using module_image_integrity [OF demo_running _ demo_acquired(1)] by (simp add: zzm_slot_count_def)

theorem module_registry_live_witness:
  "\<exists>p \<in> set (zw_services demo_run). ps_id p = 32 \<and> ps_interface p = 0x09600004"
  using module_registry_live [OF demo_running, of 32 1] demo_acquired(2) by auto

theorem module_load_terminates_witness:
  "load_module_upto 20 demo_env 2 (\<lambda>_. False) demo_run = load_module demo_env 2 (\<lambda>_. False) demo_run"
  using module_load_terminates [of demo_env demo_run 2 20 2] demo_running
  by (simp add: zzm_slot_count_def demo_env_def)

theorem module_unscanned_acquires_witness:
  "fst (zzm_loader_acquire demo_env (sl_id (zzm_slots ! 3)) (zero_world False demo_caps (\<lambda>_. 0)))"
  using module_unscanned_acquires [of 3 demo_env False demo_caps "\<lambda>_. 0"] by (simp add: zzm_slot_count_def)

end
