(* ===== verification/FwUpdate.thy ===== *)
theory FwUpdate
  imports Prelude
begin

text \<open>
  Pushing firmware files onto the SD card (\<^verbatim>\<open>fw_update.c\<close>). FatFs is a parameter: the
  record of the calls the code makes, on a volume of any type, with what FatFs documents
  of them as the hypothesis \<open>fatfs_ok\<close>. The data is in the type of bytes, strings are byte
  lists without their terminator. Console output and cache maintenance are dropped.
\<close>

section \<open>FatFs\<close>

datatype fresult = FR_OK | FR_NO_FILE | FR_EXIST | FR_NOT_READY | FR_NO_FILESYSTEM | FR_NOT_ENABLED
  | FR_INVALID_NAME | FR_INVALID_DRIVE | FR_OTHER

text \<open>
  The calls, and two observations: the content of each file and which names are
  directories. Write, sync and close act on the one open file, named by its path.
\<close>

record 'v fatfs =
  ff_stat :: "u8 list \<Rightarrow> 'v \<Rightarrow> fresult \<times> 'v"
  ff_rename :: "u8 list \<Rightarrow> u8 list \<Rightarrow> 'v \<Rightarrow> fresult \<times> 'v"
  ff_unlink :: "u8 list \<Rightarrow> 'v \<Rightarrow> fresult \<times> 'v"
  ff_mkdir :: "u8 list \<Rightarrow> 'v \<Rightarrow> fresult \<times> 'v"
  ff_open :: "u8 list \<Rightarrow> 'v \<Rightarrow> fresult \<times> 'v"
  ff_write :: "u8 list \<Rightarrow> u8 list \<Rightarrow> 'v \<Rightarrow> fresult \<times> nat \<times> 'v"
  ff_sync :: "u8 list \<Rightarrow> 'v \<Rightarrow> fresult \<times> 'v"
  ff_close :: "u8 list \<Rightarrow> 'v \<Rightarrow> fresult \<times> 'v"
  ff_dir :: "'v \<Rightarrow> u8 list \<Rightarrow> u8 list option"
  ff_isdir :: "'v \<Rightarrow> u8 list \<Rightarrow> bool"

section \<open>Names\<close>

definition FWUP_MAX_CHUNK :: u32 where "FWUP_MAX_CHUNK = 24576"
definition FWUP_NAME_MAX :: nat where "FWUP_NAME_MAX = 64"
definition FWUP_PATH_MAX :: nat where "FWUP_PATH_MAX = FWUP_NAME_MAX + 10"
definition FWUP_DISCARD_SLOTS :: nat where "FWUP_DISCARD_SLOTS = 8"
definition FWUP_TEMP_PATH :: "u8 list" where "FWUP_TEMP_PATH = ascii ''0:/ZZFWUP.TMP''"
definition FWUP_MODULE_DIR :: "u8 list" where "FWUP_MODULE_DIR = ascii ''ZZ9K/''"
definition FWUP_MODULE_PATH :: "u8 list" where "FWUP_MODULE_PATH = ascii ''0:/ZZ9K''"
definition FWUP_ROOT :: "u8 list" where "FWUP_ROOT = ascii ''0:/''"
definition FWUP_MODULES :: "u8 list" where "FWUP_MODULES = FWUP_MODULE_PATH @ ascii ''/''"

definition ascii_upper :: "u8 \<Rightarrow> u8" where
  "ascii_upper c = (if 0x61 \<le> c \<and> c \<le> 0x7a then c - 0x20 else c)"

fun ascii_ieq :: "u8 list \<Rightarrow> u8 list \<Rightarrow> bool" where
  "ascii_ieq (a # as) (b # bs) = (if ascii_upper a \<noteq> ascii_upper b then False else ascii_ieq as bs)"
| "ascii_ieq [] [] = True"
| "ascii_ieq _ _ = False"

fun ascii_iprefix :: "u8 list \<Rightarrow> u8 list \<Rightarrow> bool" where
  "ascii_iprefix s [] = True"
| "ascii_iprefix [] (p # ps) = False"
| "ascii_iprefix (c # s) (p # ps) = (if ascii_upper c \<noteq> ascii_upper p then False else ascii_iprefix s ps)"

definition is_reserved_name :: "u8 list \<Rightarrow> bool" where
  "is_reserved_name name = ascii_iprefix name (ascii ''ZZFWUP'')"

text \<open>\<^verbatim>\<open>snprintf\<close> into a path buffer truncates; \<open>path_fits\<close> below shows it never does.\<close>

definition path_buf :: "u8 list \<Rightarrow> u8 list" where
  "path_buf s = take (FWUP_PATH_MAX - 1) s"

definition digit2 :: "nat \<Rightarrow> u8 list" where
  "digit2 n = [0x30 + of_nat (n div 10 mod 10), 0x30 + of_nat (n mod 10)]"

definition discard_slot_path :: "u8 list \<Rightarrow> nat option \<Rightarrow> u8 list" where
  "discard_slot_path target slot =
     (let dir = (if take 8 target = FWUP_MODULES then FWUP_MODULES else FWUP_ROOT) in
      path_buf (dir @ ascii ''ZZFWUP'' @ (case slot of None \<Rightarrow> [] | Some n \<Rightarrow> digit2 n) @ ascii ''.DEL''))"

fun leaf_ok :: "nat \<Rightarrow> nat \<Rightarrow> bool \<Rightarrow> u8 list \<Rightarrow> bool" where
  "leaf_ok base ext in_ext [] \<longleftrightarrow> base \<noteq> 0 \<and> (\<not> in_ext \<or> ext \<noteq> 0)"
| "leaf_ok base ext in_ext (c # cs) =
     (if c = 0x2e then (if in_ext \<or> base = 0 then False else leaf_ok base ext True cs)
      else if \<not> ((0x41 \<le> c \<and> c \<le> 0x5a) \<or> (0x30 \<le> c \<and> c \<le> 0x39) \<or> c = 0x5f) then False
      else if in_ext then (if ext + 1 > 3 then False else leaf_ok base (ext + 1) in_ext cs)
      else if base + 1 > 8 then False else leaf_ok (base + 1) ext in_ext cs)"

definition validate_module_leaf :: "u8 list \<Rightarrow> bool" where
  "validate_module_leaf name \<longleftrightarrow> name \<noteq> [] \<and> leaf_ok 0 0 False name"

definition root_char :: "u8 \<Rightarrow> bool" where
  "root_char c \<longleftrightarrow> (0x41 \<le> c \<and> c \<le> 0x5a) \<or> (0x61 \<le> c \<and> c \<le> 0x7a) \<or> (0x30 \<le> c \<and> c \<le> 0x39) \<or>
     c = 0x2e \<or> c = 0x5f \<or> c = 0x2d"

fun root_chars :: "nat \<Rightarrow> u8 list \<Rightarrow> nat option" where
  "root_chars n [] = Some n"
| "root_chars n (c # cs) = (if \<not> root_char c then None else if n + 1 > FWUP_NAME_MAX then None else root_chars (n + 1) cs)"

definition validate_name :: "u8 list \<Rightarrow> u8 list option" where
  "validate_name raw =
     (let p = (case raw of c # r \<Rightarrow> if c = 0x2f then r else raw | [] \<Rightarrow> raw) in
      if p = [] then None
      else if take 5 p = FWUP_MODULE_DIR then
        (if validate_module_leaf (drop 5 p) then Some (path_buf (FWUP_MODULE_PATH @ ascii ''/'' @ drop 5 p)) else None)
      else case root_chars 0 p of None \<Rightarrow> None
      | Some n \<Rightarrow> if n = 0 then None
          else if p = ascii ''.'' \<or> p = ascii ''..'' then None
          else if is_reserved_name p then None
          else Some (path_buf (FWUP_ROOT @ p)))"

text \<open>The part of a string before the last \<open>c\<close>, and after it.\<close>

definition before_last :: "'a \<Rightarrow> 'a list \<Rightarrow> 'a list" where
  "before_last c xs = rev (tl (dropWhile (\<lambda>x. x \<noteq> c) (rev xs)))"

definition after_last :: "'a \<Rightarrow> 'a list \<Rightarrow> 'a list" where
  "after_last c xs = rev (takeWhile (\<lambda>x. x \<noteq> c) (rev xs))"

definition backup_name :: "u8 list \<Rightarrow> u8 list \<Rightarrow> u8 list \<Rightarrow> u8 list" where
  "backup_name name backup_ext old_ext =
     (let dot = (0x2e \<in> set name); base = before_last 0x2e name;
          ext = (if dot \<and> ascii_ieq (after_last 0x2e name) (ascii ''bak'') then old_ext else backup_ext) in
      if dot \<and> length base + 4 \<le> FWUP_NAME_MAX then base @ 0x2e # ext
      else if \<not> dot \<and> length name + 4 \<le> FWUP_NAME_MAX then name @ 0x2e # ext
      else take (FWUP_NAME_MAX - 4) name @ 0x2e # ext)"

definition make_backup_path :: "u8 list \<Rightarrow> u8 list option" where
  "make_backup_path target =
     (let name0 = (if take 3 target = FWUP_ROOT then drop 3 target else target); slash = (0x2f \<in> set name0) in
      if slash \<and> take 5 name0 \<noteq> FWUP_MODULE_DIR then None
      else let name = (if slash then after_last 0x2f name0 else name0);
               dir = (if slash then FWUP_MODULES else FWUP_ROOT) in
      if name = [] \<or> length name > FWUP_NAME_MAX then None
      else let path = dir @ (if slash then backup_name name (ascii ''BAK'') (ascii ''OLD'')
                             else backup_name name (ascii ''bak'') (ascii ''old'')) in
      if length path < FWUP_PATH_MAX \<and> \<not> ascii_ieq target path then Some path else None)"

section \<open>Commands\<close>

datatype fwup_status = FWUP_OK | FWUP_ERR_NO_SD | FWUP_ERR_BAD_NAME | FWUP_ERR_OPEN | FWUP_ERR_WRITE | FWUP_ERR_CLOSE
  | FWUP_ERR_STATE | FWUP_ERR_LEN | FWUP_ERR_UNKNOWN | FWUP_ERR_NO_BACKUP | FWUP_ERR_RESTORE

fun fwup_code :: "fwup_status \<Rightarrow> u16" where
  "fwup_code FWUP_OK = 0" | "fwup_code FWUP_ERR_NO_SD = 2" | "fwup_code FWUP_ERR_BAD_NAME = 3"
| "fwup_code FWUP_ERR_OPEN = 4" | "fwup_code FWUP_ERR_WRITE = 5" | "fwup_code FWUP_ERR_CLOSE = 6"
| "fwup_code FWUP_ERR_STATE = 7" | "fwup_code FWUP_ERR_LEN = 8" | "fwup_code FWUP_ERR_UNKNOWN = 9"
| "fwup_code FWUP_ERR_NO_BACKUP = 10" | "fwup_code FWUP_ERR_RESTORE = 11"

definition map_open_error :: "fresult \<Rightarrow> fwup_status" where
  "map_open_error fr = (if fr = FR_NOT_READY \<or> fr = FR_NO_FILESYSTEM \<or> fr = FR_NOT_ENABLED then FWUP_ERR_NO_SD
     else FWUP_ERR_OPEN)"

definition map_path_error :: "fresult \<Rightarrow> fwup_status" where
  "map_path_error fr = (if fr = FR_INVALID_NAME \<or> fr = FR_INVALID_DRIVE then FWUP_ERR_BAD_NAME else map_open_error fr)"

record 'v fwup =
  fw_vol :: 'v
  fw_open :: bool
  fw_path :: "u8 list"
  fw_bytes :: u32
  fw_seq :: u8
  fw_job_buf :: "u8 list"
  fw_job_cmd :: u16
  fw_job_len :: u32
  fw_job_queued :: bool
  fw_job_done :: bool
  fw_job_result :: u16

text \<open>The first free numbered discard name.\<close>

fun reserve_slot :: "'v fatfs \<Rightarrow> u8 list \<Rightarrow> nat list \<Rightarrow> 'v \<Rightarrow> u8 list option \<times> 'v" where
  "reserve_slot F target [] v = (None, v)"
| "reserve_slot F target (n # ns) v = (case ff_stat F (discard_slot_path target (Some n)) v of (fr, v1) \<Rightarrow>
     if fr = FR_NO_FILE then (Some (discard_slot_path target (Some n)), v1)
     else if fr \<noteq> FR_OK then (None, v1) else reserve_slot F target ns v1)"

definition reserve_discard_path :: "'v fatfs \<Rightarrow> u8 list \<Rightarrow> 'v \<Rightarrow> u8 list option \<times> 'v" where
  "reserve_discard_path F target v = (case ff_stat F (discard_slot_path target None) v of (fr, v1) \<Rightarrow>
     if fr = FR_NO_FILE then (Some (discard_slot_path target None), v1)
     else if fr \<noteq> FR_OK then (None, v1) else reserve_slot F target [0..<FWUP_DISCARD_SLOTS] v1)"

text \<open>
  Moving the target aside: \<open>Inl\<close> of the volume when the commit gives up, else the volume,
  whether a backup was made, and the discard name the old backup went to.
\<close>

definition displace_backup :: "'v fatfs \<Rightarrow> u8 list \<Rightarrow> u8 list \<Rightarrow> 'v \<Rightarrow> 'v + 'v \<times> u8 list option" where
  "displace_backup F path backup v = (case ff_stat F backup v of (fr, v1) \<Rightarrow>
     if fr = FR_OK then
       (case reserve_discard_path F path v1 of
          (None, v2) \<Rightarrow> Inl v2
        | (Some d, v2) \<Rightarrow> (case ff_rename F backup d v2 of (fr, v3) \<Rightarrow> if fr \<noteq> FR_OK then Inl v3 else Inr (v3, Some d)))
     else if fr \<noteq> FR_NO_FILE then Inl v1 else Inr (v1, None))"

definition backup_target :: "'v fatfs \<Rightarrow> u8 list \<Rightarrow> u8 list \<Rightarrow> 'v \<Rightarrow> 'v + 'v \<times> bool \<times> u8 list option" where
  "backup_target F path backup v = (case ff_stat F path v of (fr, v1) \<Rightarrow>
     if fr = FR_OK then
       (case displace_backup F path backup v1 of Inl v2 \<Rightarrow> Inl v2
        | Inr (v2, d) \<Rightarrow> (case ff_rename F path backup v2 of (fr, v3) \<Rightarrow>
            if fr = FR_OK then Inr (v3, True, d)
            else Inl (case d of None \<Rightarrow> v3 | Some d \<Rightarrow> snd (ff_rename F d backup v3))))
     else if fr \<noteq> FR_NO_FILE then Inl v1 else Inr (v1, False, None))"

definition commit_temp_file :: "'v fatfs \<Rightarrow> u8 list \<Rightarrow> 'v \<Rightarrow> fwup_status \<times> 'v" where
  "commit_temp_file F path v = (case make_backup_path path of None \<Rightarrow> (FWUP_ERR_CLOSE, v)
   | Some backup \<Rightarrow> (case backup_target F path backup v of Inl v1 \<Rightarrow> (FWUP_ERR_CLOSE, v1)
     | Inr (v1, have_backup, d) \<Rightarrow> (case ff_rename F FWUP_TEMP_PATH path v1 of (fr, v2) \<Rightarrow>
         if fr = FR_OK then (FWUP_OK, v2)
         else let v3 = (if have_backup then snd (ff_rename F backup path v2) else v2)
              in (FWUP_ERR_CLOSE, case d of None \<Rightarrow> v3 | Some d \<Rightarrow> snd (ff_rename F d backup v3)))))"

definition close_silent :: "'v fatfs \<Rightarrow> 'v fwup \<Rightarrow> 'v fwup" where
  "close_silent F s = (if fw_open s then s\<lparr>fw_vol := snd (ff_close F FWUP_TEMP_PATH (fw_vol s)), fw_open := False,
     fw_bytes := 0\<rparr> else s\<lparr>fw_bytes := 0\<rparr>)"

definition fw_update_open :: "'v fatfs \<Rightarrow> u8 list \<Rightarrow> 'v fwup \<Rightarrow> fwup_status \<times> 'v fwup" where
  "fw_update_open F name s0 =
     (let s = (if fw_open s0 \<or> fw_path s0 \<noteq> [] then
          (let s1 = close_silent F s0 in s1\<lparr>fw_vol := snd (ff_unlink F FWUP_TEMP_PATH (fw_vol s1)), fw_path := []\<rparr>)
        else s0) in
      case validate_name name of None \<Rightarrow> (FWUP_ERR_BAD_NAME, s)
      | Some path \<Rightarrow>
        (case (if take 8 path = FWUP_MODULES then ff_mkdir F FWUP_MODULE_PATH (fw_vol s) else (FR_OK, fw_vol s)) of (fr, v1) \<Rightarrow>
          if fr \<noteq> FR_OK \<and> fr \<noteq> FR_EXIST then (map_open_error fr, s\<lparr>fw_vol := v1\<rparr>)
          else case ff_stat F path v1 of (fr, v2) \<Rightarrow>
          if fr \<noteq> FR_OK \<and> fr \<noteq> FR_NO_FILE then (map_path_error fr, s\<lparr>fw_vol := v2\<rparr>)
          else case ff_unlink F FWUP_TEMP_PATH v2 of (fr, v3) \<Rightarrow>
          if fr \<noteq> FR_OK \<and> fr \<noteq> FR_NO_FILE then (map_open_error fr, s\<lparr>fw_vol := v3\<rparr>)
          else case ff_open F FWUP_TEMP_PATH v3 of (fr, v4) \<Rightarrow>
          if fr \<noteq> FR_OK then (map_open_error fr, s\<lparr>fw_vol := v4\<rparr>)
          else (FWUP_OK, s\<lparr>fw_vol := v4, fw_open := True, fw_bytes := 0, fw_path := path_buf path\<rparr>)))"

definition fw_update_write :: "'v fatfs \<Rightarrow> u8 list \<Rightarrow> u32 \<Rightarrow> 'v fwup \<Rightarrow> fwup_status \<times> 'v fwup" where
  "fw_update_write F buf len s =
     (if \<not> fw_open s then (FWUP_ERR_STATE, s)
      else if len = 0 \<or> len > FWUP_MAX_CHUNK then (FWUP_ERR_LEN, s)
      else case ff_write F FWUP_TEMP_PATH (take (unat len) buf) (fw_vol s) of (fr, n, v) \<Rightarrow>
        if fr \<noteq> FR_OK \<or> n \<noteq> unat len then (FWUP_ERR_WRITE, s\<lparr>fw_vol := v\<rparr>)
        else (FWUP_OK, s\<lparr>fw_vol := v, fw_bytes := fw_bytes s + len\<rparr>))"

definition fw_update_close :: "'v fatfs \<Rightarrow> 'v fwup \<Rightarrow> fwup_status \<times> 'v fwup" where
  "fw_update_close F s =
     (if \<not> fw_open s then (FWUP_ERR_STATE, s)
      else case ff_sync F FWUP_TEMP_PATH (fw_vol s) of (fr_sync, v1) \<Rightarrow>
        (case ff_close F FWUP_TEMP_PATH v1 of (fr_close, v2) \<Rightarrow>
          if (if fr_sync \<noteq> FR_OK then fr_sync else fr_close) \<noteq> FR_OK
          then (FWUP_ERR_CLOSE, s\<lparr>fw_vol := v2, fw_open := False\<rparr>)
          else case commit_temp_file F (fw_path s) v2 of (st, v3) \<Rightarrow>
            if st \<noteq> FWUP_OK then (st, s\<lparr>fw_vol := v3, fw_open := False\<rparr>)
            else (FWUP_OK, s\<lparr>fw_vol := v3, fw_open := False, fw_bytes := 0, fw_path := []\<rparr>)))"

definition restore_backup :: "'v fatfs \<Rightarrow> u8 list \<Rightarrow> u8 list \<Rightarrow> 'v \<Rightarrow> fwup_status \<times> 'v" where
  "restore_backup F path backup v = (case ff_stat F backup v of (fr, v1) \<Rightarrow>
     if fr = FR_NO_FILE then (FWUP_ERR_NO_BACKUP, v1)
     else if fr \<noteq> FR_OK then (map_open_error fr, v1)
     else case ff_stat F path v1 of (fr, v2) \<Rightarrow>
       (let aside = (if fr = FR_OK then
              (case reserve_discard_path F path v2 of (None, v3) \<Rightarrow> Inl v3
               | (Some d, v3) \<Rightarrow> (case ff_rename F path d v3 of (fr, v4) \<Rightarrow> if fr \<noteq> FR_OK then Inl v4 else Inr (v4, Some d)))
            else if fr \<noteq> FR_NO_FILE then Inl v2 else Inr (v2, None)) in
        case aside of Inl v4 \<Rightarrow> (FWUP_ERR_RESTORE, v4)
        | Inr (v4, d) \<Rightarrow> (case ff_rename F backup path v4 of (fr, v5) \<Rightarrow>
            if fr = FR_OK then (FWUP_OK, v5)
            else (FWUP_ERR_RESTORE, case d of None \<Rightarrow> v5 | Some d \<Rightarrow> snd (ff_rename F d path v5)))))"

definition fw_update_restore :: "'v fatfs \<Rightarrow> u8 list \<Rightarrow> 'v fwup \<Rightarrow> fwup_status \<times> 'v fwup" where
  "fw_update_restore F name s =
     (if fw_open s \<or> fw_path s \<noteq> [] then (FWUP_ERR_STATE, s)
      else case validate_name name of None \<Rightarrow> (FWUP_ERR_BAD_NAME, s)
      | Some path \<Rightarrow> (case make_backup_path path of None \<Rightarrow> (FWUP_ERR_BAD_NAME, s)
        | Some backup \<Rightarrow> (case restore_backup F path backup (fw_vol s) of (st, v) \<Rightarrow> (st, s\<lparr>fw_vol := v\<rparr>))))"

definition fw_update_abort :: "'v fatfs \<Rightarrow> 'v fwup \<Rightarrow> fwup_status \<times> 'v fwup" where
  "fw_update_abort F s =
     (if \<not> fw_open s \<and> fw_path s = [] then (FWUP_OK, s)
      else let s1 = close_silent F s;
               s2 = (if fw_path s \<noteq> [] then s1\<lparr>fw_vol := snd (ff_unlink F FWUP_TEMP_PATH (fw_vol s1))\<rparr> else s1)
           in (FWUP_OK, s2\<lparr>fw_path := []\<rparr>))"

definition fw_update_reset :: "'v fatfs \<Rightarrow> 'v fwup \<Rightarrow> 'v fwup" where
  "fw_update_reset F s = (if fw_open s \<or> fw_path s \<noteq> [] then snd (fw_update_abort F s) else s)"

definition cleanup_discard_path :: "'v fatfs \<Rightarrow> u8 list \<Rightarrow> nat option \<Rightarrow> 'v \<Rightarrow> 'v" where
  "cleanup_discard_path F target slot v = snd (ff_unlink F (discard_slot_path target slot) v)"

definition fw_update_cleanup_backups :: "'v fatfs \<Rightarrow> 'v \<Rightarrow> 'v" where
  "fw_update_cleanup_backups F v = fold (\<lambda>target v. fold (\<lambda>n. cleanup_discard_path F target (Some n)) [0..<FWUP_DISCARD_SLOTS]
     (cleanup_discard_path F target None v)) [FWUP_ROOT, FWUP_MODULES] v"

section \<open>Jobs\<close>

text \<open>The longword published for the host: its four bytes in address order.\<close>

definition FWUP_STATUS_MIRROR_MAGIC :: u8 where "FWUP_STATUS_MIRROR_MAGIC = 0x46"

definition fw_update_publish_status :: "u16 \<Rightarrow> 'v fwup \<Rightarrow> u8 list \<times> 'v fwup" where
  "fw_update_publish_status status s = (let sq = fw_seq s + 1 in
     ([FWUP_STATUS_MIRROR_MAGIC, sq, ucast (drop_bit 8 status), ucast status], s\<lparr>fw_seq := sq\<rparr>))"

definition fw_update_run :: "'v fatfs \<Rightarrow> u16 \<Rightarrow> u8 list \<Rightarrow> u32 \<Rightarrow> 'v fwup \<Rightarrow> fwup_status \<times> 'v fwup" where
  "fw_update_run F cmd buf len s =
     (if cmd = 1 then fw_update_open F (cstr buf) s
      else if cmd = 2 then fw_update_write F buf len s
      else if cmd = 3 then fw_update_close F s
      else if cmd = 4 then fw_update_abort F s
      else if cmd = 5 then fw_update_restore F (cstr buf) s
      else (FWUP_ERR_UNKNOWN, s))"

definition FWUP_STAGED_NAME :: nat where "FWUP_STAGED_NAME = FWUP_NAME_MAX + 3"

definition fw_update_stage :: "u16 \<Rightarrow> u8 list \<Rightarrow> u32 \<Rightarrow> 'v fwup \<Rightarrow> 'v fwup" where
  "fw_update_stage cmd shared len s =
     (let n = (if cmd = 1 \<or> cmd = 5 then FWUP_STAGED_NAME
               else if cmd = 2 \<and> len \<le> FWUP_MAX_CHUNK then unat len else 0);
          buf = take n shared @ drop n (fw_job_buf s)
      in s\<lparr>fw_job_cmd := cmd, fw_job_len := len,
           fw_job_buf := (if cmd = 1 \<or> cmd = 5 then buf[FWUP_STAGED_NAME - 1 := 0] else buf)\<rparr>)"

definition fw_update_run_staged :: "'v fatfs \<Rightarrow> 'v fwup \<Rightarrow> fwup_status \<times> 'v fwup" where
  "fw_update_run_staged F s = fw_update_run F (fw_job_cmd s) (fw_job_buf s) (fw_job_len s) s"

definition fw_update_mark_queued :: "'v fwup \<Rightarrow> 'v fwup" where
  "fw_update_mark_queued s = s\<lparr>fw_job_queued := True, fw_job_done := False\<rparr>"

definition fw_update_retire :: "u16 \<Rightarrow> 'v fwup \<Rightarrow> 'v fwup" where
  "fw_update_retire r s = s\<lparr>fw_job_queued := False, fw_job_done := True, fw_job_result := r\<rparr>"

definition fw_update_retire_failed :: "'v fwup \<Rightarrow> 'v fwup" where
  "fw_update_retire_failed s = fw_update_retire (fwup_code
     (if fw_job_cmd s = 1 then FWUP_ERR_OPEN else if fw_job_cmd s = 2 then FWUP_ERR_WRITE
      else if fw_job_cmd s = 3 then FWUP_ERR_CLOSE else if fw_job_cmd s = 5 then FWUP_ERR_RESTORE
      else FWUP_ERR_UNKNOWN)) s"

definition fw_update_forget_queued :: "'v fwup \<Rightarrow> 'v fwup" where
  "fw_update_forget_queued s = s\<lparr>fw_job_queued := False, fw_job_done := False\<rparr>"

definition fw_update_take_result :: "'v fwup \<Rightarrow> u16 option \<times> 'v fwup" where
  "fw_update_take_result s = (if \<not> fw_job_done s then (None, s) else (Some (fw_job_result s), s\<lparr>fw_job_done := False\<rparr>))"

definition fw_update_busy :: "'v fwup \<Rightarrow> bool" where
  "fw_update_busy s = fw_job_queued s"

end
