(* ===== verification/FwSafety.thy ===== *)
theory FwSafety
  imports FwUpdate "HOL-Library.AList"
begin

text \<open>
  What a firmware push promises: names stay inside the path buffers and away from the
  working files, a push that reports success put exactly the bytes written at the target
  and kept the previous file as the backup, and whatever call of FatFs fails, and however,
  a commit or a restore loses no file. The hypothesis on FatFs is \<open>fatfs_ok\<close>, shown to be
  satisfiable by \<open>ram_fs\<close>, a volume in memory whose calls fail as a script says.
\<close>

section \<open>What FatFs promises\<close>

text \<open>Names that differ in case or in trailing dots denote one directory entry.\<close>

definition fat_key :: "u8 list \<Rightarrow> u8 list" where
  "fat_key s = rev (dropWhile (\<lambda>c. c = 0x2e) (rev (map ascii_upper s)))"

text \<open>
  A rename that fails may have been torn by the medium: the entry may be at both names or
  already moved. It never overwrites.
\<close>

definition rename_torn :: "'k \<Rightarrow> 'k \<Rightarrow> ('k \<Rightarrow> 'c option) \<Rightarrow> ('k \<Rightarrow> 'c option) \<Rightarrow> bool" where
  "rename_torn p q d d' \<longleftrightarrow> (\<forall>k. k \<noteq> p \<and> k \<noteq> q \<longrightarrow> d' k = d k) \<and>
     (d' p = d p \<or> d' p = None \<and> d' q = d p) \<and> (d' q = d q \<or> d q = None \<and> d' q = d p)"

definition rename_done :: "'k \<Rightarrow> 'k \<Rightarrow> ('k \<Rightarrow> 'c option) \<Rightarrow> ('k \<Rightarrow> 'c option) \<Rightarrow> bool" where
  "rename_done p q d d' \<longleftrightarrow> d p \<noteq> None \<and> (d q = None \<or> p = q) \<and> d' = d(p := None, q := d p)"

definition rename_law :: "'v fatfs \<Rightarrow> bool" where
  "rename_law F \<longleftrightarrow> (\<forall>p q v fr v'. ff_rename F p q v = (fr, v') \<and> \<not> ff_isdir F v (fat_key p) \<longrightarrow>
     ff_isdir F v' = ff_isdir F v \<and>
     (if fr = FR_OK then rename_done (fat_key p) (fat_key q) (ff_dir F v) (ff_dir F v')
      else rename_torn (fat_key p) (fat_key q) (ff_dir F v) (ff_dir F v')))"

definition stat_law :: "'v fatfs \<Rightarrow> bool" where
  "stat_law F \<longleftrightarrow> (\<forall>p v fr v'. ff_stat F p v = (fr, v') \<longrightarrow>
     ff_dir F v' = ff_dir F v \<and> ff_isdir F v' = ff_isdir F v \<and>
     (fr = FR_OK \<longrightarrow> ff_dir F v (fat_key p) \<noteq> None \<or> ff_isdir F v (fat_key p)) \<and>
     (fr = FR_NO_FILE \<longrightarrow> ff_dir F v (fat_key p) = None \<and> \<not> ff_isdir F v (fat_key p)))"

text \<open>The calls on the open file, and the two that make and remove entries.\<close>

definition only_at :: "'v fatfs \<Rightarrow> u8 list \<Rightarrow> 'v \<Rightarrow> 'v \<Rightarrow> bool" where
  "only_at F p v v' \<longleftrightarrow> (\<forall>k. k \<noteq> fat_key p \<longrightarrow> ff_dir F v' k = ff_dir F v k)"

definition unlink_law :: "'v fatfs \<Rightarrow> bool" where
  "unlink_law F \<longleftrightarrow> (\<forall>p v fr v'. ff_unlink F p v = (fr, v') \<longrightarrow> only_at F p v v' \<and>
     (\<forall>k. ff_isdir F v' k \<longrightarrow> ff_isdir F v k) \<and> (fr = FR_OK \<longrightarrow> ff_dir F v' (fat_key p) = None))"

definition open_law :: "'v fatfs \<Rightarrow> bool" where
  "open_law F \<longleftrightarrow> (\<forall>p v fr v'. ff_open F p v = (fr, v') \<longrightarrow> only_at F p v v' \<and> ff_isdir F v' = ff_isdir F v \<and>
     (fr = FR_OK \<longrightarrow> ff_dir F v' (fat_key p) = Some [] \<and> \<not> ff_isdir F v' (fat_key p)))"

definition write_law :: "'v fatfs \<Rightarrow> bool" where
  "write_law F \<longleftrightarrow> (\<forall>p data v fr n v'. ff_write F p data v = (fr, n, v') \<longrightarrow>
     only_at F p v v' \<and> ff_isdir F v' = ff_isdir F v \<and> (fr = FR_OK \<and> n = length data \<longrightarrow>
       (\<forall>c. ff_dir F v (fat_key p) = Some c \<longrightarrow> ff_dir F v' (fat_key p) = Some (c @ data))))"

definition close_law :: "'v fatfs \<Rightarrow> bool" where
  "close_law F \<longleftrightarrow> (\<forall>p v fr v'. ff_sync F p v = (fr, v') \<or> ff_close F p v = (fr, v') \<longrightarrow>
     only_at F p v v' \<and> ff_isdir F v' = ff_isdir F v \<and> (fr = FR_OK \<longrightarrow> ff_dir F v' = ff_dir F v))"

definition mkdir_law :: "'v fatfs \<Rightarrow> bool" where
  "mkdir_law F \<longleftrightarrow> (\<forall>p v fr v'. ff_mkdir F p v = (fr, v') \<longrightarrow> ff_dir F v' = ff_dir F v \<and>
     (\<forall>k. ff_isdir F v' k \<longrightarrow> ff_isdir F v k \<or> k = fat_key p))"

definition fatfs_ok :: "'v fatfs \<Rightarrow> bool" where
  "fatfs_ok F \<longleftrightarrow> rename_law F \<and> stat_law F \<and> unlink_law F \<and> open_law F \<and> write_law F \<and>
     close_law F \<and> mkdir_law F"

lemma stat_dest:
  assumes "fatfs_ok F" "ff_stat F p v = (fr, v')"
  shows "ff_dir F v' = ff_dir F v" "ff_isdir F v' = ff_isdir F v"
    "fr = FR_OK \<Longrightarrow> \<not> ff_isdir F v (fat_key p) \<Longrightarrow> \<exists>c. ff_dir F v (fat_key p) = Some c"
    "fr = FR_NO_FILE \<Longrightarrow> ff_dir F v (fat_key p) = None"
    "fr = FR_NO_FILE \<Longrightarrow> \<not> ff_isdir F v (fat_key p)"
  using assms unfolding fatfs_ok_def stat_law_def by blast+

lemma rename_dest:
  assumes "fatfs_ok F" "ff_rename F p q v = (fr, v')" "\<not> ff_isdir F v (fat_key p)"
  shows "ff_isdir F v' = ff_isdir F v"
    "fr = FR_OK \<Longrightarrow> rename_done (fat_key p) (fat_key q) (ff_dir F v) (ff_dir F v')"
    "fr \<noteq> FR_OK \<Longrightarrow> rename_torn (fat_key p) (fat_key q) (ff_dir F v) (ff_dir F v')"
proof -
  have "ff_isdir F v' = ff_isdir F v \<and>
     (if fr = FR_OK then rename_done (fat_key p) (fat_key q) (ff_dir F v) (ff_dir F v')
      else rename_torn (fat_key p) (fat_key q) (ff_dir F v) (ff_dir F v'))"
    using assms unfolding fatfs_ok_def rename_law_def by blast
  then show "ff_isdir F v' = ff_isdir F v"
    "fr = FR_OK \<Longrightarrow> rename_done (fat_key p) (fat_key q) (ff_dir F v) (ff_dir F v')"
    "fr \<noteq> FR_OK \<Longrightarrow> rename_torn (fat_key p) (fat_key q) (ff_dir F v) (ff_dir F v')" by simp_all
qed

text \<open>Whatever its outcome, a rename keeps every content, at its name or at the new one.\<close>

definition keeps :: "'k \<Rightarrow> 'k \<Rightarrow> ('k \<Rightarrow> 'c option) \<Rightarrow> ('k \<Rightarrow> 'c option) \<Rightarrow> bool" where
  "keeps p q d d' \<longleftrightarrow> (\<forall>k c. d k = Some c \<longrightarrow> d' k = Some c \<or> k = p \<and> d' q = Some c) \<and>
     (\<forall>k. k \<noteq> p \<and> k \<noteq> q \<longrightarrow> d' k = d k)"

lemma rename_keeps:
  assumes "fatfs_ok F" "ff_rename F p q v = (fr, v')" "\<not> ff_isdir F v (fat_key p)"
  shows "keeps (fat_key p) (fat_key q) (ff_dir F v) (ff_dir F v')"
proof (cases "fr = FR_OK")
  case True
  then show ?thesis using rename_dest(2) [OF assms] by (auto simp: keeps_def rename_done_def)
next
  case False
  then show ?thesis using rename_dest(3) [OF assms] unfolding keeps_def rename_torn_def by (metis option.distinct(1))
qed

lemma keepsD:
  "keeps p q d d' \<Longrightarrow> d k = Some c \<Longrightarrow> d' k = Some c \<or> k = p \<and> d' q = Some c"
  "keeps p q d d' \<Longrightarrow> k \<noteq> p \<Longrightarrow> k \<noteq> q \<Longrightarrow> d' k = d k"
  by (auto simp: keeps_def)

section \<open>Names\<close>

lemmas path_consts = FWUP_TEMP_PATH_def FWUP_MODULE_DIR_def FWUP_MODULE_PATH_def FWUP_ROOT_def FWUP_MODULES_def
  FWUP_PATH_MAX_def FWUP_NAME_MAX_def FWUP_DISCARD_SLOTS_def ascii_def

lemma ascii_ieq_iff: "ascii_ieq a b \<longleftrightarrow> map ascii_upper a = map ascii_upper b"
  by (induction a b rule: ascii_ieq.induct) auto

lemma ascii_iprefix_iff: "ascii_iprefix s p \<longleftrightarrow> take (length p) (map ascii_upper s) = map ascii_upper p"
  by (induction s p rule: ascii_iprefix.induct) auto

lemma root_chars_length: "root_chars n p = Some m \<Longrightarrow> m = n + length p \<and> (p = [] \<or> m \<le> FWUP_NAME_MAX)"
  by (induction n p rule: root_chars.induct) (auto split: if_splits)

lemma root_chars_chars: "root_chars n p = Some m \<Longrightarrow> \<forall>c \<in> set p. root_char c"
  by (induction n p rule: root_chars.induct) (auto split: if_splits)

lemma leaf_ok_length: "leaf_ok base ext in_ext s \<Longrightarrow> base \<le> 8 \<Longrightarrow> ext \<le> 3 \<Longrightarrow> (in_ext \<or> ext = 0)
   \<Longrightarrow> length s \<le> (8 - base) + (3 - ext) + (if in_ext then 0 else 1)"
proof (induction base ext in_ext s rule: leaf_ok.induct)
  case (2 base ext in_ext c cs)
  then show ?case by (cases in_ext) (auto split: if_splits)
qed simp

lemma leaf_ok_chars: "leaf_ok base ext in_ext s \<Longrightarrow> \<forall>c \<in> set s. c \<noteq> 0x2f"
  by (induction base ext in_ext s rule: leaf_ok.induct) (auto split: if_splits)

lemma validate_module_leaf_length: "validate_module_leaf s \<Longrightarrow> length s \<le> 12"
  using leaf_ok_length [of 0 0 False s] by (simp add: validate_module_leaf_def)

text \<open>An accepted name is a root name or a module name, and neither is cut by the buffer.\<close>

lemma validate_name_cases:
  assumes "validate_name raw = Some path"
  obtains (root) p where "path = FWUP_ROOT @ p" "p \<noteq> []" "length p \<le> 64" "\<forall>c \<in> set p. root_char c"
      "\<not> is_reserved_name p" "p \<noteq> ascii ''.''" "p \<noteq> ascii ''..''"
    | (module) s where "path = FWUP_MODULES @ s" "validate_module_leaf s"
proof -
  let ?p = "case raw of c # r \<Rightarrow> if c = 0x2f then r else raw | [] \<Rightarrow> raw"
  show ?thesis
  proof (cases "take 5 ?p = FWUP_MODULE_DIR")
    case True
    then have s: "validate_module_leaf (drop 5 ?p)" "path = path_buf (FWUP_MODULE_PATH @ ascii ''/'' @ drop 5 ?p)"
      using assms by (simp_all add: validate_name_def Let_def split: if_splits)
    then have "path = FWUP_MODULES @ drop 5 ?p"
      using validate_module_leaf_length [OF s(1)] by (simp add: path_buf_def path_consts)
    then show ?thesis using module s by blast
  next
    case False
    then obtain n where n: "root_chars 0 ?p = Some n" "?p \<noteq> []" "\<not> is_reserved_name ?p"
        "?p \<noteq> ascii ''.''" "?p \<noteq> ascii ''..''" "path = path_buf (FWUP_ROOT @ ?p)"
      using assms by (auto simp: validate_name_def Let_def split: if_splits option.splits)
    then have len: "length ?p \<le> 64" using root_chars_length by (fastforce simp: FWUP_NAME_MAX_def)
    then have "path = FWUP_ROOT @ ?p" using n by (simp add: path_buf_def path_consts)
    then show ?thesis using root n len root_chars_chars [OF n(1)] by blast
  qed
qed

lemma validate_name_length:
  assumes "validate_name raw = Some path"
  shows "3 < length path" "length path < FWUP_PATH_MAX - 1" "path_buf path = path"
proof -
  have "3 < length path \<and> length path < FWUP_PATH_MAX - 1"
    using assms
  proof (cases rule: validate_name_cases)
    case (root p)
    then show ?thesis by (simp add: path_consts)
  next
    case (module s)
    then show ?thesis using validate_module_leaf_length [of s] by (simp add: path_consts validate_module_leaf_def)
  qed
  then show "3 < length path" "length path < FWUP_PATH_MAX - 1" "path_buf path = path" by (simp_all add: path_buf_def)
qed

lemma discard_slot_path_unfold:
  "discard_slot_path target slot = (if take 8 target = FWUP_MODULES then FWUP_MODULES else FWUP_ROOT) @
     ascii ''ZZFWUP'' @ (case slot of None \<Rightarrow> [] | Some n \<Rightarrow> digit2 n) @ ascii ''.DEL''"
  by (simp add: discard_slot_path_def path_buf_def path_consts digit2_def split: option.splits)

subsection \<open>Directory entries\<close>

lemma fat_key_snoc: "ascii_upper c \<noteq> 0x2e \<Longrightarrow> fat_key (s @ [c]) = map ascii_upper s @ [ascii_upper c]"
  by (simp add: fat_key_def)

lemma fat_key_append3: "ascii_upper z \<noteq> 0x2e \<Longrightarrow> fat_key (s @ [x, y, z]) = map ascii_upper (s @ [x, y, z])"
  using fat_key_snoc [of z "s @ [x, y]"] by simp

lemma discard_last: "last (fat_key (discard_slot_path target slot)) = 0x4c"
  unfolding discard_slot_path_unfold
  by (simp add: ascii_def fat_key_def ascii_upper_def flip: append_assoc)

lemma temp_key: "fat_key FWUP_TEMP_PATH = FWUP_TEMP_PATH"
  by (simp add: path_consts fat_key_def ascii_upper_def)

lemma temp_last: "last (fat_key FWUP_TEMP_PATH) = 0x50"
  by (simp add: path_consts fat_key_def ascii_upper_def)

lemma after_last_append: "c \<notin> set s \<Longrightarrow> after_last c (a @ c # s) = s"
  unfolding after_last_def by (subst rev_append, subst rev.simps, subst append_assoc, subst takeWhile_append2) auto

lemma before_last_length: "c \<in> set xs \<Longrightarrow> length (before_last c xs) < length xs"
  by (induction xs rule: rev_induct) (auto simp: before_last_def less_Suc_eq)

lemma before_last_snoc: "before_last c (xs @ [c]) = xs"
  by (simp add: before_last_def)

lemma backup_name_shape:
  obtains b e where "backup_name name e1 e2 = b @ 0x2e # e" "e = e1 \<or> e = e2" "length b \<le> 60"
    "last name = 0x2e \<Longrightarrow> name \<noteq> [] \<Longrightarrow> length name \<le> 64 \<Longrightarrow> length name \<le> length b + 4"
proof -
  let ?e = "if 0x2e \<in> set name \<and> ascii_ieq (after_last 0x2e name) (ascii ''bak'') then e2 else e1"
  have dot: "0x2e \<in> set name \<and> length name = length (before_last 0x2e name) + 1" if "last name = 0x2e" "name \<noteq> []"
    using that by (cases name rule: rev_exhaust) (simp_all add: before_last_snoc)
  have e: "?e = e1 \<or> ?e = e2" by simp
  consider (base) "0x2e \<in> set name" "length (before_last 0x2e name) + 4 \<le> 64"
    | (plain) "0x2e \<notin> set name" "length name + 4 \<le> 64"
    | (cut) "0x2e \<in> set name \<and> \<not> length (before_last 0x2e name) + 4 \<le> 64 \<or> 0x2e \<notin> set name \<and> \<not> length name + 4 \<le> 64"
    by blast
  then show ?thesis
  proof cases
    case base
    then have "backup_name name e1 e2 = before_last 0x2e name @ 0x2e # ?e"
      by (simp add: backup_name_def FWUP_NAME_MAX_def)
    then show ?thesis using that e base dot by auto
  next
    case plain
    then have "backup_name name e1 e2 = name @ 0x2e # ?e" by (simp add: backup_name_def FWUP_NAME_MAX_def)
    then show ?thesis using that e plain dot by auto
  next
    case cut
    then have "backup_name name e1 e2 = take 60 name @ 0x2e # ?e" by (auto simp: backup_name_def FWUP_NAME_MAX_def)
    moreover have "60 < length name" using cut before_last_length [of "0x2e" name] by auto
    ultimately show ?thesis using that e by simp
  qed
qed

text \<open>The backup of an accepted target: never cut, beside the target, under another entry.\<close>

lemma backup_cases:
  assumes "validate_name raw = Some path" "make_backup_path path = Some backup"
  obtains dir name b x y z where "path = dir @ name" "backup = dir @ b @ [0x2e, x, y, z]" "dir = FWUP_ROOT \<or> dir = FWUP_MODULES"
    "length b \<le> 60" "last name = 0x2e \<Longrightarrow> length name \<le> length b + 4" "name \<noteq> []"
    "[x, y, z] \<in> {ascii ''bak'', ascii ''old'', ascii ''BAK'', ascii ''OLD''}"
  using assms(1)
proof (cases rule: validate_name_cases)
  case (root p)
  have noslash: "0x2f \<notin> set p" using root by (auto simp: root_char_def)
  have "backup = FWUP_ROOT @ backup_name p (ascii ''bak'') (ascii ''old'')"
    using assms(2) root noslash by (auto simp: make_backup_path_def Let_def path_consts split: if_splits)
  moreover obtain b e where "backup_name p (ascii ''bak'') (ascii ''old'') = b @ 0x2e # e"
      "e = ascii ''bak'' \<or> e = ascii ''old''" "length b \<le> 60"
      "last p = 0x2e \<Longrightarrow> p \<noteq> [] \<Longrightarrow> length p \<le> 64 \<Longrightarrow> length p \<le> length b + 4"
    by (rule backup_name_shape [of p "ascii ''bak''" "ascii ''old''"]) blast
  ultimately show ?thesis using that [of FWUP_ROOT p b "e ! 0" "e ! 1" "e ! 2"] root by (auto simp: ascii_def)
next
  case (module s)
  have s: "s \<noteq> []" "0x2f \<notin> set s" "length s \<le> 12"
    using module leaf_ok_chars [of 0 0 False s] validate_module_leaf_length [of s] by (auto simp: validate_module_leaf_def)
  then have "backup = FWUP_MODULES @ backup_name s (ascii ''BAK'') (ascii ''OLD'')"
    using assms(2) module after_last_append [of "0x2f" s "ascii ''ZZ9K''"]
    by (auto simp: make_backup_path_def Let_def path_consts split: if_splits)
  moreover obtain b e where "backup_name s (ascii ''BAK'') (ascii ''OLD'') = b @ 0x2e # e"
      "e = ascii ''BAK'' \<or> e = ascii ''OLD''" "length b \<le> 60"
      "last s = 0x2e \<Longrightarrow> s \<noteq> [] \<Longrightarrow> length s \<le> 64 \<Longrightarrow> length s \<le> length b + 4"
    by (rule backup_name_shape [of s "ascii ''BAK''" "ascii ''OLD''"]) blast
  ultimately show ?thesis using that [of FWUP_MODULES s b "e ! 0" "e ! 1" "e ! 2"] module s by (auto simp: ascii_def)
qed

lemma fat_key_dots: "\<exists>n. map ascii_upper s = fat_key s @ replicate n 0x2e"
proof -
  have "\<exists>n. xs = rev (dropWhile (\<lambda>c. c = 0x2e) (rev xs)) @ replicate n (0x2e :: u8)" for xs
  proof (induction xs rule: rev_induct)
    case (snoc c xs)
    then obtain n where "xs = rev (dropWhile (\<lambda>c. c = 0x2e) (rev xs)) @ replicate n 0x2e" by blast
    then have "xs @ [0x2e] = rev (dropWhile (\<lambda>c. c = 0x2e) (rev xs)) @ replicate (Suc n) 0x2e"
      by (metis append_assoc replicate_append_same replicate_Suc)
    note eq = this
    have s: "rev (dropWhile (\<lambda>c. c = 0x2e) (rev (xs @ [0x2e]))) = rev (dropWhile (\<lambda>c. c = 0x2e) (rev xs))" by simp
    show ?case
    proof (cases "c = 0x2e")
      case True
      show ?thesis unfolding True s using eq by blast
    qed (auto intro: exI [of _ 0])
  qed simp
  then show ?thesis unfolding fat_key_def by blast
qed

lemma fat_key_length: "length (fat_key s) \<le> length s"
  by (metis fat_key_dots length_append length_map le_add1)

lemma upper_dot [simp]: "ascii_upper c = 0x2e \<longleftrightarrow> c = 0x2e"
  by (auto simp: ascii_upper_def word_le_nat_alt unat_sub_if_size word_unat_eq_iff)

lemma fat_key_dot_shorter:
  assumes "s \<noteq> []" "last s = 0x2e"
  shows "length (fat_key s) < length s"
proof -
  have "fat_key s = fat_key (butlast s)"
    using assms by (cases s rule: rev_exhaust) (simp_all add: fat_key_def ascii_upper_def)
  moreover have "length (fat_key (butlast s)) < length s"
    using fat_key_length [of "butlast s"] assms(1) by (cases s rule: rev_exhaust) auto
  ultimately show ?thesis by simp
qed

lemma fat_key_no_dot: "last s \<noteq> 0x2e \<Longrightarrow> fat_key s = map ascii_upper s"
  by (cases s rule: rev_exhaust) (simp_all add: fat_key_def)

lemma temp_separate:
  assumes "validate_name raw = Some path"
  shows "fat_key path \<noteq> fat_key FWUP_TEMP_PATH"
proof
  assume eq: "fat_key path = fat_key FWUP_TEMP_PATH"
  obtain n where n: "map ascii_upper path = FWUP_TEMP_PATH @ replicate n 0x2e"
    using fat_key_dots [of path] unfolding eq temp_key by blast
  from assms show False
  proof (cases rule: validate_name_cases)
    case (root p)
    then have "map ascii_upper p = ascii ''ZZFWUP.TMP'' @ replicate n 0x2e"
      using n by (simp add: path_consts ascii_upper_def)
    then show False using root by (simp add: is_reserved_name_def ascii_iprefix_iff ascii_def ascii_upper_def)
  next
    case (module s)
    then show False using n by (simp add: path_consts ascii_upper_def)
  qed
qed

lemma backup_last:
  assumes "validate_name raw = Some path" "make_backup_path path = Some backup"
  shows "last (fat_key backup) \<in> {0x4b, 0x44}"
proof (rule backup_cases [OF assms])
  fix dir name b x y z
  assume *: "backup = dir @ b @ [0x2e, x, y, z]" "[x, y, z] \<in> {ascii ''bak'', ascii ''old'', ascii ''BAK'', ascii ''OLD''}"
  then have z: "z \<in> {0x6b, 0x64, 0x4b, 0x44}" by (auto simp: ascii_def)
  then have "last backup \<noteq> 0x2e" using * by auto
  then have "fat_key backup = map ascii_upper backup" by (rule fat_key_no_dot)
  then show ?thesis using z * by (auto simp: ascii_upper_def)
qed

lemma backup_separate:
  assumes "validate_name raw = Some path" "make_backup_path path = Some backup"
  shows "fat_key backup \<noteq> fat_key FWUP_TEMP_PATH" "fat_key backup \<noteq> fat_key (discard_slot_path target slot)"
    "fat_key path \<noteq> fat_key backup"
proof -
  show "fat_key backup \<noteq> fat_key FWUP_TEMP_PATH" "fat_key backup \<noteq> fat_key (discard_slot_path target slot)"
    using backup_last [OF assms] discard_last [of target slot] temp_last by auto
  have ne: "map ascii_upper path \<noteq> map ascii_upper backup"
    using assms(2) by (auto simp: make_backup_path_def Let_def ascii_ieq_iff split: if_splits)
  show "fat_key path \<noteq> fat_key backup"
  proof (rule backup_cases [OF assms])
    fix dir name b x y z
    assume shape: "path = dir @ name" "backup = dir @ b @ [0x2e, x, y, z]" "last name = 0x2e \<Longrightarrow> length name \<le> length b + 4"
      "name \<noteq> []" "[x, y, z] \<in> {ascii ''bak'', ascii ''old'', ascii ''BAK'', ascii ''OLD''}"
    have "z \<noteq> 0x2e" using shape(5) by (auto simp: ascii_def)
    then have key: "fat_key backup = map ascii_upper backup" using shape(2) by (intro fat_key_no_dot) simp
    show ?thesis
    proof (cases "last name = 0x2e")
      case True
      then have "length (fat_key path) < length (fat_key backup)"
        using fat_key_dot_shorter [of path] shape key by simp
      then show ?thesis by auto
    next
      case False
      then show ?thesis using fat_key_no_dot [of path] shape(1,4) key ne by simp
    qed
  qed
qed

lemma discard_separate: "fat_key (discard_slot_path target slot) \<noteq> fat_key FWUP_TEMP_PATH"
  using discard_last [of target slot] temp_last by auto

lemma fw_paths_parts:
  assumes "validate_name raw = Some path" "make_backup_path path = Some backup"
  shows "fat_key path \<noteq> fat_key FWUP_TEMP_PATH \<and> fat_key backup \<noteq> fat_key FWUP_TEMP_PATH \<and> fat_key path \<noteq> fat_key backup \<and>
    (\<forall>slot. fat_key (discard_slot_path path slot) \<notin> {fat_key FWUP_TEMP_PATH, fat_key backup})"
  using temp_separate [OF assms(1)] backup_separate(1,3) [OF assms] discard_separate [of path]
    backup_separate(2) [OF assms, of path] by (metis empty_iff insert_iff)

text \<open>A root target is no discard name: those are reserved. A module leaf may be one.\<close>

lemma discard_root:
  assumes "validate_name raw = Some path" "fat_key (discard_slot_path path slot) = fat_key path"
  shows "take 8 path = FWUP_MODULES"
  using assms(1)
proof (cases rule: validate_name_cases)
  case (root p)
  show ?thesis
  proof (rule ccontr)
    assume "take 8 path \<noteq> FWUP_MODULES"
    then have d: "discard_slot_path path slot = FWUP_ROOT @ ascii ''ZZFWUP'' @
        (case slot of None \<Rightarrow> [] | Some n \<Rightarrow> digit2 n) @ ascii ''.DEL''" (is "_ = ?d")
      by (simp add: discard_slot_path_unfold)
    have "last ?d \<noteq> 0x2e" by (simp add: ascii_def)
    then have key: "fat_key path = map ascii_upper ?d"
      unfolding assms(2) [symmetric] d by (rule fat_key_no_dot)
    obtain n where "map ascii_upper path = map ascii_upper ?d @ replicate n 0x2e"
      using fat_key_dots [of path] unfolding key by blast
    then have "take 6 (map ascii_upper p) = map ascii_upper (ascii ''ZZFWUP'')"
      using root(1) by (simp add: path_consts)
    then have "is_reserved_name p" by (simp add: is_reserved_name_def ascii_iprefix_iff ascii_def eval_nat_numeral)
    with root(5) show False ..
  qed
qed (simp add: path_consts)

text \<open>
  C16: Every name that passes the check, its backup and every discard name fit the 74-byte
  path buffers without being cut. Target, backup and temporary file are three different
  directory entries, no discard name is the backup or the temporary file, and none is a
  target in the root directory; only a module's name can be a discard name.
\<close>

theorem fw_paths_apart:
  assumes "validate_name raw = Some path" "make_backup_path path = Some backup"
  shows "length path < FWUP_PATH_MAX \<and> length backup < FWUP_PATH_MAX \<and> path_buf path = path \<and>
    length (discard_slot_path path slot) < FWUP_PATH_MAX - 1 \<and>
    fat_key path \<noteq> fat_key FWUP_TEMP_PATH \<and> fat_key backup \<noteq> fat_key FWUP_TEMP_PATH \<and> fat_key path \<noteq> fat_key backup \<and>
    fat_key (discard_slot_path path slot) \<notin> {fat_key FWUP_TEMP_PATH, fat_key backup} \<and>
    (fat_key (discard_slot_path path slot) = fat_key path \<longrightarrow> take 8 path = FWUP_MODULES)"
proof -
  have "length backup < FWUP_PATH_MAX" using assms(2) by (auto simp: make_backup_path_def Let_def split: if_splits)
  moreover have "length (discard_slot_path path slot) < FWUP_PATH_MAX - 1"
    unfolding discard_slot_path_unfold by (simp add: path_consts digit2_def split: option.splits)
  moreover note validate_name_length [OF assms(1)]
  ultimately show ?thesis
    using fw_paths_parts [OF assms] discard_root [OF assms(1)] by simp
qed

section \<open>Committing and restoring\<close>

definition discard_of :: "u8 list \<Rightarrow> u8 list \<Rightarrow> bool" where
  "discard_of path d \<longleftrightarrow> d = discard_slot_path path None \<or> (\<exists>n < FWUP_DISCARD_SLOTS. d = discard_slot_path path (Some n))"

text \<open>The names of one push: apart, and no directories among them.\<close>

definition apart :: "'v fatfs \<Rightarrow> u8 list \<Rightarrow> u8 list \<Rightarrow> 'v \<Rightarrow> bool" where
  "apart F path backup v \<longleftrightarrow> fat_key path \<noteq> fat_key FWUP_TEMP_PATH \<and> fat_key backup \<noteq> fat_key FWUP_TEMP_PATH \<and>
     fat_key path \<noteq> fat_key backup \<and>
     (\<forall>d. discard_of path d \<longrightarrow> fat_key d \<noteq> fat_key FWUP_TEMP_PATH \<and> fat_key d \<noteq> fat_key backup) \<and>
     \<not> ff_isdir F v (fat_key path) \<and> \<not> ff_isdir F v (fat_key backup) \<and> \<not> ff_isdir F v (fat_key FWUP_TEMP_PATH)"

lemma apartI:
  assumes "validate_name raw = Some path" "make_backup_path path = Some backup"
    "\<not> ff_isdir F v (fat_key path)" "\<not> ff_isdir F v (fat_key backup)" "\<not> ff_isdir F v (fat_key FWUP_TEMP_PATH)"
  shows "apart F path backup v"
  using fw_paths_parts [OF assms(1,2)] discard_separate assms(3-) by (auto simp: apart_def discard_of_def)

lemma apart_cong: "ff_isdir F v' = ff_isdir F v \<Longrightarrow> apart F path backup v' = apart F path backup v"
  by (simp add: apart_def)

text \<open>Every content stays where it is or is at a name the relation allows it to move to.\<close>

definition moves :: "('k \<Rightarrow> 'k \<Rightarrow> bool) \<Rightarrow> ('k \<Rightarrow> 'c option) \<Rightarrow> ('k \<Rightarrow> 'c option) \<Rightarrow> bool" where
  "moves R d d' \<longleftrightarrow> (\<forall>k c. d k = Some c \<longrightarrow> d' k = Some c \<or> (\<exists>k'. R k k' \<and> d' k' = Some c))"

definition aside :: "u8 list \<Rightarrow> u8 list \<Rightarrow> u8 list \<Rightarrow> u8 list \<Rightarrow> bool" where
  "aside path backup k k' \<longleftrightarrow> k = fat_key path \<and> k' = fat_key backup \<or>
     k = fat_key backup \<and> (\<exists>d. discard_of path d \<and> k' = fat_key d) \<or>
     k = fat_key FWUP_TEMP_PATH \<and> k' = fat_key path"

lemma movesI: "(\<And>k c. d k = Some c \<Longrightarrow> d' k = Some c \<or> (\<exists>k'. R k k' \<and> d' k' = Some c)) \<Longrightarrow> moves R d d'"
  by (simp add: moves_def)

lemma moves_refl [simp]: "moves R d d"
  by (simp add: moves_def)

lemma reserve_slot_dest:
  assumes "fatfs_ok F" "reserve_slot F target ns v = (r, v')"
  shows "ff_dir F v' = ff_dir F v \<and> ff_isdir F v' = ff_isdir F v \<and>
    (\<forall>d. r = Some d \<longrightarrow> ff_dir F v (fat_key d) = None \<and> \<not> ff_isdir F v (fat_key d) \<and>
       (\<exists>n \<in> set ns. d = discard_slot_path target (Some n)))"
  using assms(2)
proof (induction ns arbitrary: v)
  case (Cons n ns)
  obtain fr v1 where st: "ff_stat F (discard_slot_path target (Some n)) v = (fr, v1)" by force
  note sd = stat_dest [OF assms(1) st]
  consider "fr = FR_NO_FILE" | "fr = FR_OK" | "fr \<noteq> FR_NO_FILE" "fr \<noteq> FR_OK" by blast
  then show ?case
  proof cases
    case 2
    then have "reserve_slot F target ns v1 = (r, v')" using Cons.prems st by simp
    from Cons.IH [OF this] show ?thesis unfolding sd(1,2) by auto
  qed (use Cons.prems st sd in auto)
qed simp

lemma reserve_dest:
  assumes "fatfs_ok F" "reserve_discard_path F target v = (r, v')"
  shows "ff_dir F v' = ff_dir F v" "ff_isdir F v' = ff_isdir F v"
    "r = Some d \<Longrightarrow> ff_dir F v (fat_key d) = None \<and> \<not> ff_isdir F v (fat_key d) \<and> discard_of target d"
proof -
  obtain fr v1 where st: "ff_stat F (discard_slot_path target None) v = (fr, v1)" by force
  note sd = stat_dest [OF assms(1) st]
  have "ff_dir F v' = ff_dir F v \<and> ff_isdir F v' = ff_isdir F v \<and>
    (\<forall>d. r = Some d \<longrightarrow> ff_dir F v (fat_key d) = None \<and> \<not> ff_isdir F v (fat_key d) \<and> discard_of target d)"
  proof (cases "fr = FR_OK")
    case True
    then have "reserve_slot F target [0..<FWUP_DISCARD_SLOTS] v1 = (r, v')"
      using assms(2) st by (simp add: reserve_discard_path_def)
    from reserve_slot_dest [OF assms(1) this] show ?thesis unfolding sd(1,2) discard_of_def by auto
  next
    case False
    then show ?thesis using assms(2) st sd by (auto simp: reserve_discard_path_def discard_of_def split: if_splits)
  qed
  then show "ff_dir F v' = ff_dir F v" "ff_isdir F v' = ff_isdir F v"
    "r = Some d \<Longrightarrow> ff_dir F v (fat_key d) = None \<and> \<not> ff_isdir F v (fat_key d) \<and> discard_of target d" by simp_all
qed

lemma displace_backup_dest:
  assumes ok: "fatfs_ok F" and ap: "apart F path backup v" and r: "displace_backup F path backup v = r"
  shows "case r of Inl v' \<Rightarrow> moves (aside path backup) (ff_dir F v) (ff_dir F v')
    | Inr (v', None) \<Rightarrow> ff_dir F v' = ff_dir F v \<and> ff_isdir F v' = ff_isdir F v \<and> ff_dir F v (fat_key backup) = None
    | Inr (v', Some d) \<Rightarrow> discard_of path d \<and> ff_dir F v (fat_key d) = None \<and> \<not> ff_isdir F v (fat_key d) \<and>
        ff_isdir F v' = ff_isdir F v \<and> ff_dir F v (fat_key backup) \<noteq> None \<and>
        ff_dir F v' = (ff_dir F v)(fat_key backup := None, fat_key d := ff_dir F v (fat_key backup))"
proof -
  obtain fr v1 where st: "ff_stat F backup v = (fr, v1)" by force
  note sd = stat_dest [OF ok st]
  show ?thesis
  proof (cases "fr = FR_OK")
    case False
    then show ?thesis using r st sd(1,2,4) by (auto simp: displace_backup_def)
  next
    case True
    obtain res v2 where rs: "reserve_discard_path F path v1 = (res, v2)" by force
    note rd = reserve_dest [OF ok rs]
    show ?thesis
    proof (cases res)
      case None
      then show ?thesis using r True st rs rd(1) sd(1) by (auto simp: displace_backup_def)
    next
      case (Some d)
      obtain fr3 v3 where rn: "ff_rename F backup d v2 = (fr3, v3)" by force
      have nd: "\<not> ff_isdir F v2 (fat_key backup)" using ap rd(2) sd(2) by (simp add: apart_def)
      note nn = rename_dest [OF ok rn nd]
      have d: "discard_of path d" "ff_dir F v (fat_key d) = None" "\<not> ff_isdir F v (fat_key d)"
        using rd(3) [OF Some] sd(1,2) by auto
      have eq: "ff_dir F v2 = ff_dir F v" "ff_isdir F v2 = ff_isdir F v" using rd(1,2) sd(1,2) by auto
      show ?thesis
      proof (cases "fr3 = FR_OK")
        case True
        then show ?thesis
          using r \<open>fr = FR_OK\<close> st rs Some rn nn(1) nn(2) [OF True] d unfolding eq
          by (auto simp: displace_backup_def rename_done_def)
      next
        case False
        have "keeps (fat_key backup) (fat_key d) (ff_dir F v) (ff_dir F v3)"
          using rename_keeps [OF ok rn nd] unfolding eq .
        then have "moves (aside path backup) (ff_dir F v) (ff_dir F v3)"
          using d(1) by (intro movesI) (auto simp: aside_def dest: keepsD(1))
        then show ?thesis using r \<open>fr = FR_OK\<close> st rs Some rn False by (auto simp: displace_backup_def)
      qed
    qed
  qed
qed

text \<open>The rollback of a displaced backup.\<close>

lemma rollback_moves:
  assumes ok: "fatfs_ok F" and d: "discard_of path d" "ff_dir F v (fat_key d) = None" "\<not> ff_isdir F v1 (fat_key d)"
    and m: "moves (aside path backup) (ff_dir F v) (ff_dir F v1)"
    and b: "\<And>c. ff_dir F v (fat_key backup) = Some c \<Longrightarrow>
      ff_dir F v1 (fat_key backup) = Some c \<or> ff_dir F v1 (fat_key d) = Some c"
    and sep: "fat_key backup \<noteq> fat_key d"
      "fat_key FWUP_TEMP_PATH \<noteq> fat_key d" "fat_key path \<noteq> fat_key d"
    and rn: "ff_rename F d backup v1 = (fr, v2)"
  shows "moves (aside path backup) (ff_dir F v) (ff_dir F v2)"
proof (intro movesI)
  fix k c assume k: "ff_dir F v k = Some c"
  note kd = keepsD(1) [OF rename_keeps [OF ok rn d(3)]]
  have ne: "k \<noteq> fat_key d" using k d(2) by auto
  show "ff_dir F v2 k = Some c \<or> (\<exists>k'. aside path backup k k' \<and> ff_dir F v2 k' = Some c)"
  proof (cases "k = fat_key backup")
    case True
    then show ?thesis using b k kd d(1) by (auto simp: aside_def)
  next
    case False
    then consider "ff_dir F v1 k = Some c" | k' where "aside path backup k k'" "ff_dir F v1 k' = Some c" "k' \<noteq> fat_key d"
      using m k sep unfolding moves_def aside_def by metis
    then show ?thesis using kd ne by cases blast+
  qed
qed

text \<open>The state after the target moved to the backup name, from the one where the old backup has moved.\<close>

definition backed_up :: "'v fatfs \<Rightarrow> u8 list \<Rightarrow> u8 list \<Rightarrow> u8 list option \<Rightarrow> 'v \<Rightarrow> 'v \<Rightarrow> bool" where
  "backed_up F path backup od v v' \<longleftrightarrow> ff_isdir F v' = ff_isdir F v \<and> ff_dir F v (fat_key path) \<noteq> None \<and>
     (case od of None \<Rightarrow> ff_dir F v (fat_key backup) = None \<and>
         ff_dir F v' = (ff_dir F v)(fat_key path := None, fat_key backup := ff_dir F v (fat_key path))
      | Some d \<Rightarrow> discard_of path d \<and> ff_dir F v (fat_key d) = None \<and> \<not> ff_isdir F v (fat_key d) \<and>
         ff_dir F v (fat_key backup) \<noteq> None \<and>
         ff_dir F v' = (ff_dir F v)(fat_key path := None, fat_key backup := ff_dir F v (fat_key path),
           fat_key d := ff_dir F v (fat_key backup)))"

lemma move_target_plain:
  assumes ok: "fatfs_ok F" and ap: "apart F path backup v" and p: "ff_dir F v (fat_key path) \<noteq> None"
    and d2: "ff_dir F v2 = ff_dir F v" "ff_isdir F v2 = ff_isdir F v" "ff_dir F v (fat_key backup) = None"
    and rn: "ff_rename F path backup v2 = (fr, v3)"
  shows "if fr = FR_OK then backed_up F path backup None v v3 else moves (aside path backup) (ff_dir F v) (ff_dir F v3)"
proof -
  have nd: "\<not> ff_isdir F v2 (fat_key path)" using ap d2 by (simp add: apart_def)
  note nn = rename_dest [OF ok rn nd]
  have "moves (aside path backup) (ff_dir F v) (ff_dir F v3)"
    using keepsD(1) [OF rename_keeps [OF ok rn nd]] unfolding d2(1) by (intro movesI) (fastforce simp: aside_def)
  moreover have "backed_up F path backup None v v3" if "fr = FR_OK"
    using nn(1) nn(2) [OF that] d2 p by (auto simp: backed_up_def rename_done_def)
  ultimately show ?thesis by simp
qed

lemma move_target_displaced:
  assumes ok: "fatfs_ok F" and ap: "apart F path backup v" and p: "ff_dir F v (fat_key path) \<noteq> None"
    and d: "discard_of path d" "ff_dir F v (fat_key d) = None" "\<not> ff_isdir F v (fat_key d)"
      "ff_dir F v (fat_key backup) \<noteq> None" "ff_isdir F v2 = ff_isdir F v"
      "ff_dir F v2 = (ff_dir F v)(fat_key backup := None, fat_key d := ff_dir F v (fat_key backup))"
    and rn: "ff_rename F path backup v2 = (fr, v3)"
  shows "if fr = FR_OK then backed_up F path backup (Some d) v v3
    else moves (aside path backup) (ff_dir F v) (ff_dir F (snd (ff_rename F d backup v3)))"
proof -
  have nd: "\<not> ff_isdir F v2 (fat_key path)" using ap d(5) by (simp add: apart_def)
  note nn = rename_dest [OF ok rn nd]
  note k2 = keepsD(1) [OF rename_keeps [OF ok rn nd]]
  have ne: "fat_key path \<noteq> fat_key d" "fat_key backup \<noteq> fat_key d" "fat_key FWUP_TEMP_PATH \<noteq> fat_key d"
      "fat_key path \<noteq> fat_key backup" using d(1,2) p ap by (auto simp: apart_def)
  obtain fr4 v4 where rb: "ff_rename F d backup v3 = (fr4, v4)" by force
  have b: "ff_dir F v3 (fat_key backup) = Some c \<or> ff_dir F v3 (fat_key d) = Some c"
    if "ff_dir F v (fat_key backup) = Some c" for c using k2 [of "fat_key d" c] d(6) that ne by auto
  have m: "moves (aside path backup) (ff_dir F v) (ff_dir F v3)"
  proof (intro movesI)
    fix k c assume k: "ff_dir F v k = Some c"
    show "ff_dir F v3 k = Some c \<or> (\<exists>k'. aside path backup k k' \<and> ff_dir F v3 k' = Some c)"
    proof (cases "k = fat_key backup")
      case True
      then show ?thesis using b k d(1) by (auto simp: aside_def)
    next
      case False
      then have "ff_dir F v2 k = Some c" using k d(2,6) by auto
      then show ?thesis using k2 by (fastforce simp: aside_def)
    qed
  qed
  have "moves (aside path backup) (ff_dir F v) (ff_dir F v4)"
    using rollback_moves [OF ok d(1,2) _ m b ne(2,3,1) rb] nn(1) d(3,5) by simp
  moreover have "backed_up F path backup (Some d) v v3" if "fr = FR_OK"
    using nn(1) nn(2) [OF that] d p ne by (auto simp: backed_up_def rename_done_def)
  ultimately show ?thesis using rb by simp
qed

lemma backup_target_dest:
  assumes ok: "fatfs_ok F" and ap: "apart F path backup v" and r: "backup_target F path backup v = r"
  shows "case r of Inl v' \<Rightarrow> moves (aside path backup) (ff_dir F v) (ff_dir F v')
    | Inr (v', have, od) \<Rightarrow> if have then backed_up F path backup od v v'
        else od = None \<and> ff_isdir F v' = ff_isdir F v \<and> ff_dir F v (fat_key path) = None \<and> ff_dir F v' = ff_dir F v"
proof -
  obtain fr v1 where st: "ff_stat F path v = (fr, v1)" by force
  note sd = stat_dest [OF ok st]
  obtain r1 where r1: "displace_backup F path backup v1 = r1" by simp
  have ap1: "apart F path backup v1" using ap apart_cong [OF sd(2)] by blast
  note dd = displace_backup_dest [OF ok ap1 r1, unfolded sd(1,2)]
  have np: "\<not> ff_isdir F v (fat_key path)" using ap by (simp add: apart_def)
  have p: "ff_dir F v (fat_key path) \<noteq> None" if "fr = FR_OK" using sd(3) [OF that np] by auto
  show ?thesis
  proof (cases "fr = FR_OK")
    case False
    then show ?thesis using r st sd(1,2,4) by (auto simp: backup_target_def)
  next
    case True
    show ?thesis
    proof (cases r1)
      case (Inl v2)
      then have "r = Inl v2" using r r1 st True by (simp add: backup_target_def)
      then show ?thesis using dd Inl by simp
    next
      case (Inr z)
      obtain v2 od where z: "z = (v2, od)" by (cases z)
      obtain fr3 v3 where rn: "ff_rename F path backup v2 = (fr3, v3)" by force
      have "r = (if fr3 = FR_OK then Inr (v3, True, od)
          else Inl (case od of None \<Rightarrow> v3 | Some d \<Rightarrow> snd (ff_rename F d backup v3)))"
        using r r1 st True Inr z rn by (simp add: backup_target_def)
      then show ?thesis
        using move_target_plain [OF ok ap p [OF True] _ _ _ rn] move_target_displaced [OF ok ap p [OF True] _ _ _ _ _ _ rn]
          dd unfolding Inr z by (cases od) (auto split: if_splits)
    qed
  qed
qed

text \<open>Putting the temporary file at the target, and rolling back when that fails.\<close>

lemma promote_plain:
  assumes ok: "fatfs_ok F" and ap: "apart F path backup v" and eq: "ff_dir F v1 = ff_dir F v" "ff_isdir F v1 = ff_isdir F v"
    and rn: "ff_rename F FWUP_TEMP_PATH path v1 = (fr, v2)"
  shows "moves (aside path backup) (ff_dir F v) (ff_dir F v2)"
proof -
  have "\<not> ff_isdir F v1 (fat_key FWUP_TEMP_PATH)" using ap eq by (simp add: apart_def)
  from keepsD(1) [OF rename_keeps [OF ok rn this]] show ?thesis
    unfolding eq by (intro movesI) (fastforce simp: aside_def)
qed

lemma promote_backed:
  assumes ok: "fatfs_ok F" and ap: "apart F path backup v" and bk: "backed_up F path backup od v v1"
    and rn: "ff_rename F FWUP_TEMP_PATH path v1 = (fr, v2)" and rb: "ff_rename F backup path v2 = (fr3, v3)"
  shows "moves (aside path backup) (ff_dir F v) (ff_dir F v2)" "moves (aside path backup) (ff_dir F v) (ff_dir F v3)"
    "ff_isdir F v3 = ff_isdir F v"
    "\<And>d c. od = Some d \<Longrightarrow> ff_dir F v (fat_key backup) = Some c \<Longrightarrow> ff_dir F v3 (fat_key d) = Some c"
proof -
  have isd: "ff_isdir F v1 = ff_isdir F v" using bk by (simp add: backed_up_def)
  have nt: "\<not> ff_isdir F v1 (fat_key FWUP_TEMP_PATH)" using ap isd by (simp add: apart_def)
  note k2 = keepsD(1) [OF rename_keeps [OF ok rn nt]]
  have isd2: "ff_isdir F v2 = ff_isdir F v" using rename_dest(1) [OF ok rn nt] isd by simp
  have nb: "\<not> ff_isdir F v2 (fat_key backup)" using ap isd2 by (simp add: apart_def)
  note k3 = keepsD(1) [OF rename_keeps [OF ok rb nb]]
  show "ff_isdir F v3 = ff_isdir F v" using rename_dest(1) [OF ok rb nb] isd2 by simp
  have sep: "fat_key path \<noteq> fat_key backup" "fat_key path \<noteq> fat_key FWUP_TEMP_PATH" "fat_key backup \<noteq> fat_key FWUP_TEMP_PATH"
    using ap by (simp_all add: apart_def)
  have at_d: "discard_of path d \<and> fat_key d \<noteq> fat_key backup \<and> fat_key d \<noteq> fat_key FWUP_TEMP_PATH \<and>
      ff_dir F v (fat_key d) = None \<and> fat_key d \<noteq> fat_key path \<and> ff_dir F v1 (fat_key d) = ff_dir F v (fat_key backup)"
    if "od = Some d" for d using bk that ap by (auto simp: backed_up_def apart_def)
  have b: "ff_dir F v2 (fat_key d) = Some c \<and> ff_dir F v3 (fat_key d) = Some c"
    if "od = Some d" "ff_dir F v (fat_key backup) = Some c" for d c
    using at_d [OF that(1)] that(2) k2 [of "fat_key d" c] k3 [of "fat_key d" c] by simp
  then show "\<And>d c. od = Some d \<Longrightarrow> ff_dir F v (fat_key backup) = Some c \<Longrightarrow> ff_dir F v3 (fat_key d) = Some c" by blast
  have tr: "(ff_dir F v2 k = Some c \<or> (\<exists>k'. aside path backup k k' \<and> ff_dir F v2 k' = Some c)) \<and>
      (ff_dir F v3 k = Some c \<or> (\<exists>k'. aside path backup k k' \<and> ff_dir F v3 k' = Some c))" if kc: "ff_dir F v k = Some c" for k c
  proof -
    consider (path) "k = fat_key path" | (backup) "k = fat_key backup" | (other) "k \<noteq> fat_key path" "k \<noteq> fat_key backup" by blast
    then show ?thesis
    proof cases
      case path
      then have "ff_dir F v1 (fat_key backup) = Some c" using bk kc sep at_d by (auto simp: backed_up_def split: option.splits)
      then have "ff_dir F v2 (fat_key backup) = Some c" using k2 sep by metis
      then show ?thesis using k3 path unfolding aside_def by metis
    next
      case backup
      then obtain d where "od = Some d" using bk kc by (auto simp: backed_up_def split: option.splits)
      then show ?thesis using b backup kc at_d by (auto simp: aside_def)
    next
      case other
      then have "ff_dir F v1 k = Some c" using bk kc by (auto simp: backed_up_def split: option.splits)
      then show ?thesis using k2 k3 other sep unfolding aside_def by metis
    qed
  qed
  then show "moves (aside path backup) (ff_dir F v) (ff_dir F v2)" "moves (aside path backup) (ff_dir F v) (ff_dir F v3)"
    by (auto simp: moves_def)
qed

lemma commit_moves:
  assumes ok: "fatfs_ok F" and ap: "apart F path backup v" and mk: "make_backup_path path = Some backup"
    and c: "commit_temp_file F path v = (st, v')"
  shows "moves (aside path backup) (ff_dir F v) (ff_dir F v')"
proof -
  obtain r where r: "backup_target F path backup v = r" by simp
  note bt = backup_target_dest [OF ok ap r]
  show ?thesis
  proof (cases r)
    case (Inl v1)
    then show ?thesis using c mk r bt by (simp add: commit_temp_file_def)
  next
    case (Inr z)
    obtain v1 hb od where z: "z = (v1, hb, od)" by (cases z)
    obtain fr v2 where rn: "ff_rename F FWUP_TEMP_PATH path v1 = (fr, v2)" by force
    obtain fr3 v3 where rb: "ff_rename F backup path v2 = (fr3, v3)" by force
    have v': "v' = (if fr = FR_OK then v2 else case od of None \<Rightarrow> if hb then v3 else v2
        | Some d \<Rightarrow> snd (ff_rename F d backup (if hb then v3 else v2)))"
      using c mk r Inr z rn rb by (auto simp: commit_temp_file_def split: if_splits option.splits)
    show ?thesis
    proof (cases hb)
      case False
      then have "ff_dir F v1 = ff_dir F v" "ff_isdir F v1 = ff_isdir F v" "od = None" using bt Inr z by auto
      then show ?thesis using promote_plain [OF ok ap _ _ rn] v' False by (auto split: if_splits)
    next
      case True
      then have bk: "backed_up F path backup od v v1" using bt Inr z by simp
      note pr = promote_backed [OF ok ap bk rn rb]
      show ?thesis
      proof (cases od)
        case None
        then show ?thesis using v' pr(1,2) True by (auto split: if_splits)
      next
        case (Some d)
        then have d: "discard_of path d" "ff_dir F v (fat_key d) = None" "\<not> ff_isdir F v (fat_key d)"
            "fat_key backup \<noteq> fat_key d" "fat_key FWUP_TEMP_PATH \<noteq> fat_key d" "fat_key path \<noteq> fat_key d"
          using bk ap by (auto simp: backed_up_def apart_def)
        obtain fr4 v4 where rd: "ff_rename F d backup v3 = (fr4, v4)" by force
        have "moves (aside path backup) (ff_dir F v) (ff_dir F v4)"
          using rollback_moves [OF ok d(1,2) _ pr(2) _ d(4-6) rd] pr(3,4) d(3) Some by auto
        then show ?thesis using v' pr(1) True Some rd by (auto split: if_splits)
      qed
    qed
  qed
qed

lemma commit_done:
  assumes ok: "fatfs_ok F" and ap: "apart F path backup v" and mk: "make_backup_path path = Some backup"
    and c: "commit_temp_file F path v = (FWUP_OK, v')"
  shows "ff_dir F v (fat_key FWUP_TEMP_PATH) \<noteq> None \<and> ff_dir F v' (fat_key path) = ff_dir F v (fat_key FWUP_TEMP_PATH) \<and>
    ff_dir F v' (fat_key FWUP_TEMP_PATH) = None \<and>
    ff_dir F v' (fat_key backup) = ff_dir F v (if ff_dir F v (fat_key path) = None then fat_key backup else fat_key path)"
proof -
  obtain r where r: "backup_target F path backup v = r" by simp
  note bt = backup_target_dest [OF ok ap r]
  obtain v1 hb od where Inr: "r = Inr (v1, hb, od)"
    using c mk r by (cases r) (auto simp: commit_temp_file_def)
  obtain fr v2 where rn: "ff_rename F FWUP_TEMP_PATH path v1 = (fr, v2)" by force
  have v': "fr = FR_OK" "v' = v2" using c mk r Inr rn by (auto simp: commit_temp_file_def Let_def split: if_splits)
  have isd: "ff_isdir F v1 = ff_isdir F v" using bt Inr by (auto simp: backed_up_def split: if_splits)
  have "\<not> ff_isdir F v1 (fat_key FWUP_TEMP_PATH)" using isd ap by (simp add: apart_def)
  from rename_dest(2) [OF ok rn this v'(1)]
  have dn: "rename_done (fat_key FWUP_TEMP_PATH) (fat_key path) (ff_dir F v1) (ff_dir F v')" using v'(2) by simp
  have sep: "fat_key path \<noteq> fat_key backup" "fat_key path \<noteq> fat_key FWUP_TEMP_PATH" "fat_key backup \<noteq> fat_key FWUP_TEMP_PATH"
    "\<And>d. discard_of path d \<Longrightarrow> fat_key d \<noteq> fat_key FWUP_TEMP_PATH \<and> fat_key d \<noteq> fat_key backup"
    using ap by (auto simp: apart_def)
  show ?thesis
  proof (cases hb)
    case False
    then show ?thesis using bt Inr dn sep by (auto simp: rename_done_def)
  next
    case True
    then have "backed_up F path backup od v v1" using bt Inr by simp
    then show ?thesis
      using dn sep(1-3) sep(4) [of "the od"] by (cases od) (auto simp: backed_up_def rename_done_def)
  qed
qed

subsection \<open>Restoring\<close>

definition swapped :: "u8 list \<Rightarrow> u8 list \<Rightarrow> u8 list \<Rightarrow> u8 list \<Rightarrow> bool" where
  "swapped path backup k k' \<longleftrightarrow> k = fat_key path \<and> (\<exists>d. discard_of path d \<and> k' = fat_key d) \<or>
     k = fat_key backup \<and> k' = fat_key path"

lemma restore_promote:
  assumes ok: "fatfs_ok F" and ap: "apart F path backup v" and isd: "ff_isdir F v4 = ff_isdir F v"
    and eq: "ff_dir F v4 = ff_dir F v" and p: "ff_dir F v (fat_key path) = None"
    and rn: "ff_rename F backup path v4 = (fr, v5)"
  shows "moves (swapped path backup) (ff_dir F v) (ff_dir F v5) \<and>
    (fr = FR_OK \<longrightarrow> ff_dir F v5 (fat_key path) = ff_dir F v (fat_key backup))"
proof -
  have nb: "\<not> ff_isdir F v4 (fat_key backup)" using ap isd by (simp add: apart_def)
  have "moves (swapped path backup) (ff_dir F v) (ff_dir F v5)"
    using keepsD(1) [OF rename_keeps [OF ok rn nb]] unfolding eq by (intro movesI) (fastforce simp: swapped_def)
  moreover have "ff_dir F v5 (fat_key path) = ff_dir F v (fat_key backup)" if "fr = FR_OK"
    using rename_dest(2) [OF ok rn nb that] eq by (simp add: rename_done_def)
  ultimately show ?thesis by simp
qed

lemma restore_displaced:
  assumes ok: "fatfs_ok F" and ap: "apart F path backup v" and isd: "ff_isdir F v4 = ff_isdir F v"
    and d: "discard_of path d" "ff_dir F v (fat_key d) = None" "\<not> ff_isdir F v (fat_key d)" "ff_dir F v (fat_key path) \<noteq> None"
      "ff_dir F v4 = (ff_dir F v)(fat_key path := None, fat_key d := ff_dir F v (fat_key path))"
    and rn: "ff_rename F backup path v4 = (fr, v5)" and rb: "ff_rename F d path v5 = (fr6, v6)"
  shows "moves (swapped path backup) (ff_dir F v) (ff_dir F v5)" "moves (swapped path backup) (ff_dir F v) (ff_dir F v6)"
    "fr = FR_OK \<Longrightarrow> ff_dir F v5 (fat_key path) = ff_dir F v (fat_key backup)"
proof -
  have nb: "\<not> ff_isdir F v4 (fat_key backup)" using ap isd by (simp add: apart_def)
  have nd: "\<not> ff_isdir F v5 (fat_key d)" using rename_dest(1) [OF ok rn nb] isd d(3) by simp
  note k5 = keepsD(1) [OF rename_keeps [OF ok rn nb]] and k6 = keepsD(1) [OF rename_keeps [OF ok rb nd]]
  have sep: "fat_key path \<noteq> fat_key backup" "fat_key d \<noteq> fat_key backup" "fat_key path \<noteq> fat_key d"
    using ap d(1,2,4) by (auto simp: apart_def)
  have tr: "(ff_dir F v5 k = Some c \<or> (\<exists>k'. swapped path backup k k' \<and> ff_dir F v5 k' = Some c)) \<and>
      (ff_dir F v6 k = Some c \<or> (\<exists>k'. swapped path backup k k' \<and> ff_dir F v6 k' = Some c))"
    if kc: "ff_dir F v k = Some c" for k c
  proof (cases "k = fat_key path")
    case True
    then have "ff_dir F v4 (fat_key d) = Some c" using d(5) kc by simp
    then have "ff_dir F v5 (fat_key d) = Some c" using k5 sep by metis
    then show ?thesis using k6 True d(1) unfolding swapped_def by metis
  next
    case False
    then have "ff_dir F v4 k = Some c" "k \<noteq> fat_key d" using d(2,5) kc by auto
    then show ?thesis using k5 k6 sep unfolding swapped_def by metis
  qed
  then show "moves (swapped path backup) (ff_dir F v) (ff_dir F v5)" "moves (swapped path backup) (ff_dir F v) (ff_dir F v6)"
    by (auto simp: moves_def)
  show "ff_dir F v5 (fat_key path) = ff_dir F v (fat_key backup)" if "fr = FR_OK"
    using rename_dest(2) [OF ok rn nb that] d(5) sep by (simp add: rename_done_def)
qed

lemma restore_dest:
  assumes ok: "fatfs_ok F" and ap: "apart F path backup v" and r: "restore_backup F path backup v = (st, v')"
  shows "moves (swapped path backup) (ff_dir F v) (ff_dir F v')"
    "st = FWUP_OK \<Longrightarrow> ff_dir F v (fat_key backup) \<noteq> None \<and> ff_dir F v' (fat_key path) = ff_dir F v (fat_key backup)"
    "st = FWUP_ERR_NO_BACKUP \<Longrightarrow> ff_dir F v (fat_key backup) = None \<and> ff_dir F v' = ff_dir F v"
proof -
  obtain fr v1 where s1: "ff_stat F backup v = (fr, v1)" by force
  obtain fr2 v2 where s2: "ff_stat F path v1 = (fr2, v2)" by force
  obtain rr v3 where s3: "reserve_discard_path F path v2 = (rr, v3)" by force
  note d1 = stat_dest [OF ok s1] and d2 = stat_dest [OF ok s2] and d3 = reserve_dest [OF ok s3]
  have nd: "\<not> ff_isdir F v (fat_key path)" "\<not> ff_isdir F v (fat_key backup)" using ap by (simp_all add: apart_def)
  let ?Q = "moves (swapped path backup) (ff_dir F v) (ff_dir F v') \<and>
    (st = FWUP_OK \<longrightarrow> ff_dir F v (fat_key backup) \<noteq> None \<and> ff_dir F v' (fat_key path) = ff_dir F v (fat_key backup)) \<and>
    (st = FWUP_ERR_NO_BACKUP \<longrightarrow> ff_dir F v (fat_key backup) = None \<and> ff_dir F v' = ff_dir F v)"
  have ?Q
  proof (cases "fr = FR_OK")
    case False
    then show ?thesis using r s1 d1 by (auto simp: restore_backup_def map_open_error_def split: if_splits)
  next
    case True
    have b: "ff_dir F v (fat_key backup) \<noteq> None" using d1(3) [OF True nd(2)] by auto
    consider (absent) "fr2 = FR_NO_FILE" | (full) "fr2 = FR_OK" "rr = None" | (free) d where "fr2 = FR_OK" "rr = Some d"
      | (bad) "fr2 \<noteq> FR_OK" "fr2 \<noteq> FR_NO_FILE" by (cases rr) auto
    then show ?thesis
    proof cases
      case absent
      obtain fr5 v5 where rn: "ff_rename F backup path v2 = (fr5, v5)" by force
      have eq: "ff_isdir F v2 = ff_isdir F v" "ff_dir F v2 = ff_dir F v" "ff_dir F v (fat_key path) = None"
        using d1(1,2) d2(1,2) d2(4) [OF absent] by simp_all
      from restore_promote [OF ok ap eq rn] show ?thesis
        using r s1 s2 True absent rn b by (auto simp: restore_backup_def split: if_splits)
    next
      case full
      then show ?thesis using r s1 s2 s3 True d1(1,2) d2(1,2) d3(1) by (auto simp: restore_backup_def)
    next
      case bad
      then show ?thesis using r s1 s2 True d1(1,2) d2(1,2) by (auto simp: restore_backup_def)
    next
      case (free d)
      obtain fr4 v4 where rn: "ff_rename F path d v3 = (fr4, v4)" by force
      obtain fr5 v5 where rp: "ff_rename F backup path v4 = (fr5, v5)" by force
      obtain fr6 v6 where rb: "ff_rename F d path v5 = (fr6, v6)" by force
      have eq: "ff_dir F v3 = ff_dir F v" "ff_isdir F v3 = ff_isdir F v" using d1(1,2) d2(1,2) d3(1,2) by simp_all
      have d: "discard_of path d" "ff_dir F v (fat_key d) = None" "\<not> ff_isdir F v (fat_key d)"
        using d3(3) [OF free(2)] d1(1,2) d2(1,2) by auto
      have p: "ff_dir F v (fat_key path) \<noteq> None" using d2(3) [OF free(1)] nd(1) d1(1,2) by auto
      have n3: "\<not> ff_isdir F v3 (fat_key path)" using eq nd by simp
      note nn = rename_dest [OF ok rn n3]
      have r': "(st, v') = (if fr4 \<noteq> FR_OK then (FWUP_ERR_RESTORE, v4)
          else if fr5 = FR_OK then (FWUP_OK, v5) else (FWUP_ERR_RESTORE, v6))"
        using r s1 s2 s3 True free rn rp rb by (simp add: restore_backup_def split: if_splits)
      show ?thesis
      proof (cases "fr4 = FR_OK")
        case False
        have "moves (swapped path backup) (ff_dir F v) (ff_dir F v4)"
          using keepsD(1) [OF rename_keeps [OF ok rn n3]] d(1) unfolding eq
          by (intro movesI) (fastforce simp: swapped_def)
        then show ?thesis using r' False by simp
      next
        case True
        have "ff_dir F v4 = (ff_dir F v)(fat_key path := None, fat_key d := ff_dir F v (fat_key path))"
          using nn(2) [OF True] eq by (simp add: rename_done_def)
        from restore_displaced [OF ok ap _ d p this rp rb] show ?thesis
          using r' True nn(1) eq b by (auto split: if_splits)
      qed
    qed
  qed
  then show "moves (swapped path backup) (ff_dir F v) (ff_dir F v')"
    "st = FWUP_OK \<Longrightarrow> ff_dir F v (fat_key backup) \<noteq> None \<and> ff_dir F v' (fat_key path) = ff_dir F v (fat_key backup)"
    "st = FWUP_ERR_NO_BACKUP \<Longrightarrow> ff_dir F v (fat_key backup) = None \<and> ff_dir F v' = ff_dir F v" by blast+
qed

section \<open>A whole push\<close>

text \<open>One job as the card runs it: staged from the shared buffer, run, retired with its status.\<close>

fun fw_job :: "'v fatfs \<Rightarrow> u16 \<times> u8 list \<times> u32 \<Rightarrow> 'v fwup \<Rightarrow> fwup_status \<times> 'v fwup" where
  "fw_job F (cmd, shared, len) s = (case fw_update_run_staged F (fw_update_mark_queued (fw_update_stage cmd shared len s)) of
     (st, s1) \<Rightarrow> (st, fw_update_retire (fwup_code st) s1))"

fun fw_jobs :: "'v fatfs \<Rightarrow> (u16 \<times> u8 list \<times> u32) list \<Rightarrow> 'v fwup \<Rightarrow> 'v fwup option" where
  "fw_jobs F [] s = Some s"
| "fw_jobs F (j # js) s = (case fw_job F j s of (st, s1) \<Rightarrow> if st = FWUP_OK then fw_jobs F js s1 else None)"

lemma fw_jobs_append: "fw_jobs F (as @ bs) s = (case fw_jobs F as s of None \<Rightarrow> None | Some s1 \<Rightarrow> fw_jobs F bs s1)"
  by (induction as arbitrary: s) (auto split: prod.split)

text \<open>The name a client put in the buffer, as the staged copy holds it.\<close>

definition staged_name :: "u8 list \<Rightarrow> u8 list" where
  "staged_name shared = cstr (take (FWUP_STAGED_NAME - 1) shared @ [0])"

lemma cstr_append0: "cstr (a @ 0 # b) = cstr (a @ [0])"
  unfolding cstr_def by (induction a) auto

lemma stage_name:
  assumes "cmd = 1 \<or> cmd = 5" "FWUP_STAGED_NAME \<le> length shared"
  shows "cstr (fw_job_buf (fw_update_stage cmd shared len s)) = staged_name shared"
proof -
  have n: "FWUP_STAGED_NAME = 67" by (simp add: FWUP_STAGED_NAME_def FWUP_NAME_MAX_def)
  have "take 67 shared = take 66 shared @ [shared ! 66]"
    using take_Suc_conv_app_nth [of 66 shared] assms(2) n by simp
  then have "(take 67 shared @ r)[66 := 0] = take 66 shared @ 0 # r" for r
    using assms(2) n by (simp add: list_update_append)
  then show ?thesis
    using assms(1) cstr_append0 [of "take 66 shared"] by (auto simp: fw_update_stage_def staged_name_def n Let_def)
qed

lemma stage_data:
  assumes "len \<le> FWUP_MAX_CHUNK" "unat len \<le> length shared"
  shows "take (unat len) (fw_job_buf (fw_update_stage 2 shared len s)) = take (unat len) shared"
  using assms by (simp add: fw_update_stage_def Let_def)

lemma stage_frame [simp]:
  "fw_vol (fw_update_stage cmd shared len s) = fw_vol s" "fw_open (fw_update_stage cmd shared len s) = fw_open s"
  "fw_path (fw_update_stage cmd shared len s) = fw_path s" "fw_job_cmd (fw_update_stage cmd shared len s) = cmd"
  "fw_job_len (fw_update_stage cmd shared len s) = len"
  by (simp_all add: fw_update_stage_def Let_def)

lemma mark_frame [simp]:
  "fw_vol (fw_update_mark_queued s) = fw_vol s" "fw_open (fw_update_mark_queued s) = fw_open s"
  "fw_path (fw_update_mark_queued s) = fw_path s" "fw_job_cmd (fw_update_mark_queued s) = fw_job_cmd s"
  "fw_job_len (fw_update_mark_queued s) = fw_job_len s" "fw_job_buf (fw_update_mark_queued s) = fw_job_buf s"
  "fw_vol (fw_update_retire r s) = fw_vol s" "fw_open (fw_update_retire r s) = fw_open s"
  "fw_path (fw_update_retire r s) = fw_path s"
  by (simp_all add: fw_update_mark_queued_def fw_update_retire_def)

lemma open_file_dest:
  assumes "fatfs_ok F" "ff_open F p v = (fr, v')"
  shows "only_at F p v v'" "ff_isdir F v' = ff_isdir F v"
    "fr = FR_OK \<Longrightarrow> ff_dir F v' (fat_key p) = Some [] \<and> \<not> ff_isdir F v' (fat_key p)"
  using assms unfolding fatfs_ok_def open_law_def by blast+

lemma write_file_dest:
  assumes "fatfs_ok F" "ff_write F p data v = (fr, n, v')"
  shows "only_at F p v v'" "ff_isdir F v' = ff_isdir F v"
    "fr = FR_OK \<Longrightarrow> n = length data \<Longrightarrow> ff_dir F v (fat_key p) = Some c \<Longrightarrow> ff_dir F v' (fat_key p) = Some (c @ data)"
  using assms unfolding fatfs_ok_def write_law_def by blast+

lemma close_file_dest:
  assumes "fatfs_ok F" "ff_sync F p v = (fr, v') \<or> ff_close F p v = (fr, v')"
  shows "only_at F p v v'" "ff_isdir F v' = ff_isdir F v" "fr = FR_OK \<Longrightarrow> ff_dir F v' = ff_dir F v"
  using assms unfolding fatfs_ok_def close_law_def by blast+

lemma unlink_dest:
  assumes "fatfs_ok F" "ff_unlink F p v = (fr, v')"
  shows "only_at F p v v'" "\<And>k. ff_isdir F v' k \<Longrightarrow> ff_isdir F v k" "fr = FR_OK \<Longrightarrow> ff_dir F v' (fat_key p) = None"
  using assms unfolding fatfs_ok_def unlink_law_def by blast+

lemma mkdir_dest:
  assumes "fatfs_ok F" "ff_mkdir F p v = (fr, v')"
  shows "ff_dir F v' = ff_dir F v" "\<And>k. ff_isdir F v' k \<Longrightarrow> ff_isdir F v k \<or> k = fat_key p"
  using assms unfolding fatfs_ok_def mkdir_law_def by blast+

subsection \<open>The commands on the open file\<close>

lemma only_at_refl [simp]: "only_at F p v v"
  by (simp add: only_at_def)

lemma only_at_trans: "only_at F p v v1 \<Longrightarrow> only_at F p v1 v2 \<Longrightarrow> only_at F p v v2"
  by (simp add: only_at_def)

lemma only_at_eq: "ff_dir F v' = ff_dir F v \<Longrightarrow> only_at F p v v'"
  by (simp add: only_at_def)

definition discard_stale :: "'v fatfs \<Rightarrow> 'v fwup \<Rightarrow> 'v fwup" where
  "discard_stale F s0 = (if fw_open s0 \<or> fw_path s0 \<noteq> [] then
     (let s1 = close_silent F s0 in s1\<lparr>fw_vol := snd (ff_unlink F FWUP_TEMP_PATH (fw_vol s1)), fw_path := []\<rparr>) else s0)"

lemma discard_stale_dest:
  assumes "fatfs_ok F"
  shows "only_at F FWUP_TEMP_PATH (fw_vol s) (fw_vol (discard_stale F s))"
    "ff_isdir F (fw_vol (discard_stale F s)) k \<Longrightarrow> ff_isdir F (fw_vol s) k"
proof -
  obtain fr v1 where cl: "ff_close F FWUP_TEMP_PATH (fw_vol s) = (fr, v1)" by force
  let ?v = "fw_vol (close_silent F s)"
  obtain fr2 v2 where un: "ff_unlink F FWUP_TEMP_PATH ?v = (fr2, v2)" by force
  have c: "only_at F FWUP_TEMP_PATH (fw_vol s) ?v" "ff_isdir F ?v = ff_isdir F (fw_vol s)"
    using close_file_dest(1,2) [OF assms disjI2 [OF cl]] cl by (simp_all add: close_silent_def)
  note u = unlink_dest(1,2) [OF assms un]
  have "only_at F FWUP_TEMP_PATH (fw_vol s) (fw_vol (discard_stale F s)) \<and>
      (ff_isdir F (fw_vol (discard_stale F s)) k \<longrightarrow> ff_isdir F (fw_vol s) k)"
    using only_at_trans [OF c(1) u(1)] u(2) [of k] c(2) un by (simp add: discard_stale_def Let_def)
  then show "only_at F FWUP_TEMP_PATH (fw_vol s) (fw_vol (discard_stale F s))"
    "ff_isdir F (fw_vol (discard_stale F s)) k \<Longrightarrow> ff_isdir F (fw_vol s) k" by blast+
qed

lemma open_steps:
  assumes "fw_update_open F name s = (FWUP_OK, s')" "validate_name name = Some path"
  obtains fr1 v1 fr2 v2 fr3 v3 v4 where
    "(if take 8 path = FWUP_MODULES then ff_mkdir F FWUP_MODULE_PATH (fw_vol (discard_stale F s))
      else (FR_OK, fw_vol (discard_stale F s))) = (fr1, v1)"
    "ff_stat F path v1 = (fr2, v2)" "ff_unlink F FWUP_TEMP_PATH v2 = (fr3, v3)" "ff_open F FWUP_TEMP_PATH v3 = (FR_OK, v4)"
    "s' = (discard_stale F s)\<lparr>fw_vol := v4, fw_open := True, fw_bytes := 0, fw_path := path\<rparr>"
proof -
  obtain fr1 v1 where 1: "(if take 8 path = FWUP_MODULES then ff_mkdir F FWUP_MODULE_PATH (fw_vol (discard_stale F s))
      else (FR_OK, fw_vol (discard_stale F s))) = (fr1, v1)" by force
  obtain fr2 v2 where 2: "ff_stat F path v1 = (fr2, v2)" by force
  obtain fr3 v3 where 3: "ff_unlink F FWUP_TEMP_PATH v2 = (fr3, v3)" by force
  obtain fr4 v4 where 4: "ff_open F FWUP_TEMP_PATH v3 = (fr4, v4)" by force
  have "fr4 = FR_OK \<and> s' = (discard_stale F s)\<lparr>fw_vol := v4, fw_open := True, fw_bytes := 0, fw_path := path_buf path\<rparr>"
    using assms 1 2 3 4 unfolding fw_update_open_def discard_stale_def [symmetric]
    by (simp add: Let_def map_open_error_def map_path_error_def discard_stale_def [symmetric]
        split: if_split_asm)
  then show ?thesis using that 1 2 3 4 validate_name_length(3) [OF assms(2)] by simp
qed

lemma open_done:
  assumes ok: "fatfs_ok F" and op: "fw_update_open F name s = (FWUP_OK, s')" and nm: "validate_name name = Some path"
  shows "only_at F FWUP_TEMP_PATH (fw_vol s) (fw_vol s')" "ff_dir F (fw_vol s') (fat_key FWUP_TEMP_PATH) = Some []"
    "\<not> ff_isdir F (fw_vol s') (fat_key FWUP_TEMP_PATH)" "fw_open s'" "fw_path s' = path"
    "ff_isdir F (fw_vol s') k \<Longrightarrow> ff_isdir F (fw_vol s) k \<or> take 8 path = FWUP_MODULES \<and> k = fat_key FWUP_MODULE_PATH"
proof -
  obtain fr1 v1 fr2 v2 fr3 v3 v4 where st:
    "(if take 8 path = FWUP_MODULES then ff_mkdir F FWUP_MODULE_PATH (fw_vol (discard_stale F s))
      else (FR_OK, fw_vol (discard_stale F s))) = (fr1, v1)"
    "ff_stat F path v1 = (fr2, v2)" "ff_unlink F FWUP_TEMP_PATH v2 = (fr3, v3)" "ff_open F FWUP_TEMP_PATH v3 = (FR_OK, v4)"
    "s' = (discard_stale F s)\<lparr>fw_vol := v4, fw_open := True, fw_bytes := 0, fw_path := path\<rparr>"
    by (rule open_steps [OF op nm])
  note d0 = discard_stale_dest [OF ok, of s]
  have d1: "ff_dir F v1 = ff_dir F (fw_vol (discard_stale F s))"
    "ff_isdir F v1 k \<Longrightarrow> ff_isdir F (fw_vol (discard_stale F s)) k \<or> take 8 path = FWUP_MODULES \<and> k = fat_key FWUP_MODULE_PATH"
    using st(1) mkdir_dest [OF ok, of FWUP_MODULE_PATH _ fr1 v1] by (auto split: if_splits)
  note d2 = stat_dest(1,2) [OF ok st(2)] and d3 = unlink_dest(1,2) [OF ok st(3)]
  note d4 = open_file_dest(1,2) [OF ok st(4)] and d5 = open_file_dest(3) [OF ok st(4) refl]
  have "only_at F FWUP_TEMP_PATH (fw_vol s) v2" using d0(1) d1(1) d2(1) by (simp add: only_at_def)
  then show "only_at F FWUP_TEMP_PATH (fw_vol s) (fw_vol s')"
    using only_at_trans [OF _ only_at_trans [OF d3(1) d4(1)]] st(5) by simp
  show "ff_dir F (fw_vol s') (fat_key FWUP_TEMP_PATH) = Some []" "\<not> ff_isdir F (fw_vol s') (fat_key FWUP_TEMP_PATH)"
    "fw_open s'" "fw_path s' = path" using d5 st(5) by simp_all
  show "ff_isdir F (fw_vol s') k \<Longrightarrow> ff_isdir F (fw_vol s) k \<or> take 8 path = FWUP_MODULES \<and> k = fat_key FWUP_MODULE_PATH"
    using d4(2) d3(2) [of k] d2(2) d1(2) d0(2) [of k] st(5) by auto
qed

text \<open>An open transfer whose temporary file holds the bytes so far.\<close>

definition receiving :: "'v fatfs \<Rightarrow> 'v \<Rightarrow> u8 list \<Rightarrow> u8 list \<Rightarrow> 'v fwup \<Rightarrow> bool" where
  "receiving F v0 path content s \<longleftrightarrow> fw_open s \<and> fw_path s = path \<and> only_at F FWUP_TEMP_PATH v0 (fw_vol s) \<and>
     ff_dir F (fw_vol s) (fat_key FWUP_TEMP_PATH) = Some content \<and> \<not> ff_isdir F (fw_vol s) (fat_key FWUP_TEMP_PATH) \<and>
     (\<forall>k. ff_isdir F (fw_vol s) k \<longrightarrow> ff_isdir F v0 k \<or> take 8 path = FWUP_MODULES \<and> k = fat_key FWUP_MODULE_PATH)"

lemma write_done:
  assumes ok: "fatfs_ok F" and r: "receiving F v0 path content s" and w: "fw_update_write F buf len s = (FWUP_OK, s')"
    and l: "unat len \<le> length buf"
  shows "receiving F v0 path (content @ take (unat len) buf) s' \<and> len \<le> FWUP_MAX_CHUNK"
proof -
  obtain fr n v where wr: "ff_write F FWUP_TEMP_PATH (take (unat len) buf) (fw_vol s) = (fr, n, v)"
    using prod_cases3 by blast
  have o: "fw_open s" using r by (simp add: receiving_def)
  have *: "fr = FR_OK" "n = unat len" "s' = s\<lparr>fw_vol := v, fw_bytes := fw_bytes s + len\<rparr>" "len \<le> FWUP_MAX_CHUNK"
    using w wr o by (auto simp: fw_update_write_def split: if_splits)
  note wd = write_file_dest [OF ok wr]
  have "ff_dir F v (fat_key FWUP_TEMP_PATH) = Some (content @ take (unat len) buf)"
    using wd(3) [OF *(1)] *(2) l r by (simp add: receiving_def)
  then show ?thesis using r * wd(1,2) only_at_trans [OF _ wd(1)] unfolding receiving_def by simp
qed

lemma receiving_cong:
  "fw_vol s' = fw_vol s \<Longrightarrow> fw_open s' = fw_open s \<Longrightarrow> fw_path s' = fw_path s \<Longrightarrow>
   receiving F v0 path c s' = receiving F v0 path c s"
  by (simp add: receiving_def)

lemma module_dir_ne:
  assumes "validate_name raw = Some path" "make_backup_path path = Some backup"
  shows "take 8 path = FWUP_MODULES \<Longrightarrow> fat_key path \<noteq> fat_key FWUP_MODULE_PATH" "fat_key backup \<noteq> fat_key FWUP_MODULE_PATH"
proof -
  have key: "fat_key FWUP_MODULE_PATH = FWUP_MODULE_PATH" by (simp add: path_consts fat_key_def ascii_upper_def)
  show "fat_key path \<noteq> fat_key FWUP_MODULE_PATH" if m: "take 8 path = FWUP_MODULES"
  proof
    assume "fat_key path = fat_key FWUP_MODULE_PATH"
    then obtain n where n: "map ascii_upper path = FWUP_MODULE_PATH @ replicate n 0x2e"
      using fat_key_dots [of path] key by auto
    have "map ascii_upper path = map ascii_upper (FWUP_MODULES @ drop 8 path)" using m append_take_drop_id [of 8 path] by simp
    then show False using n by (cases n) (simp_all add: path_consts ascii_upper_def)
  qed
  show "fat_key backup \<noteq> fat_key FWUP_MODULE_PATH"
  proof (rule backup_cases [OF assms])
    fix dir name b x y z
    assume *: "backup = dir @ b @ [0x2e, x, y, z]" "[x, y, z] \<in> {ascii ''bak'', ascii ''old'', ascii ''BAK'', ascii ''OLD''}"
    then have "last backup \<noteq> 0x2e" by (auto simp: ascii_def)
    then have "rev (fat_key backup) = ascii_upper z # ascii_upper y # ascii_upper x # 0x2e # rev (map ascii_upper (dir @ b))"
      using * by (simp add: fat_key_no_dot ascii_upper_def)
    moreover have "rev FWUP_MODULE_PATH = [0x4b, 0x39, 0x5a, 0x5a, 0x2f, 0x3a, 0x30]" by (simp add: path_consts)
    ultimately have "rev (fat_key backup) \<noteq> rev FWUP_MODULE_PATH" by (simp only: list.inject) simp
    then show ?thesis using key by metis
  qed
qed

lemma close_done:
  assumes ok: "fatfs_ok F" and r: "receiving F v0 path content s" and cl: "fw_update_close F s = (FWUP_OK, s')"
    and nm: "validate_name raw = Some path" "make_backup_path path = Some backup"
    and nd: "\<not> ff_isdir F v0 (fat_key path)" "\<not> ff_isdir F v0 (fat_key backup)"
  shows "\<not> fw_open s' \<and> fw_path s' = [] \<and> ff_dir F (fw_vol s') (fat_key path) = Some content \<and>
    (\<forall>old. ff_dir F v0 (fat_key path) = Some old \<longrightarrow> ff_dir F (fw_vol s') (fat_key backup) = Some old) \<and>
    (\<forall>k c. ff_dir F v0 k = Some c \<and> k \<noteq> fat_key FWUP_TEMP_PATH \<longrightarrow>
      ff_dir F (fw_vol s') k = Some c \<or> (\<exists>k'. aside path backup k k' \<and> ff_dir F (fw_vol s') k' = Some c))"
proof -
  obtain fr1 v1 where 1: "ff_sync F FWUP_TEMP_PATH (fw_vol s) = (fr1, v1)" by force
  obtain fr2 v2 where 2: "ff_close F FWUP_TEMP_PATH v1 = (fr2, v2)" by force
  obtain st v3 where 3: "commit_temp_file F path v2 = (st, v3)" by force
  have o: "fw_open s" "fw_path s = path" using r by (simp_all add: receiving_def)
  have s': "fr1 = FR_OK" "fr2 = FR_OK" "st = FWUP_OK"
      "s' = s\<lparr>fw_vol := v3, fw_open := False, fw_bytes := 0, fw_path := []\<rparr>"
    using cl o 1 2 3 by (auto simp: fw_update_close_def split: if_splits)
  note c1 = close_file_dest [OF ok disjI1 [OF 1]] and c2 = close_file_dest [OF ok disjI2 [OF 2]]
  have eq: "ff_dir F v2 = ff_dir F (fw_vol s)" "ff_isdir F v2 = ff_isdir F (fw_vol s)"
    using c1(2,3) c2(2,3) s'(1,2) by simp_all
  have isd: "\<And>k. ff_isdir F (fw_vol s) k \<Longrightarrow> ff_isdir F v0 k \<or> take 8 path = FWUP_MODULES \<and> k = fat_key FWUP_MODULE_PATH"
    and nt: "\<not> ff_isdir F (fw_vol s) (fat_key FWUP_TEMP_PATH)" using r by (auto simp: receiving_def)
  have nd2: "\<not> ff_isdir F v2 (fat_key path)" "\<not> ff_isdir F v2 (fat_key backup)" "\<not> ff_isdir F v2 (fat_key FWUP_TEMP_PATH)"
    unfolding eq using isd [of "fat_key path"] isd [of "fat_key backup"] nt module_dir_ne [OF nm] nd by auto
  note ap = apartI [OF nm nd2]
  have mv: "moves (aside path backup) (ff_dir F v2) (ff_dir F v3)" by (rule commit_moves [OF ok ap nm(2) 3])
  note dn = commit_done [OF ok ap nm(2) 3 [unfolded s'(3)]]
  have at: "ff_dir F v2 k = ff_dir F v0 k" if "k \<noteq> fat_key FWUP_TEMP_PATH" for k
    using r that eq(1) by (simp add: receiving_def only_at_def)
  have tmp: "ff_dir F v2 (fat_key FWUP_TEMP_PATH) = Some content" using r eq(1) by (simp add: receiving_def)
  have sep: "fat_key path \<noteq> fat_key FWUP_TEMP_PATH" using ap by (simp add: apart_def)
  show ?thesis
    unfolding s'(4) using dn mv tmp at [OF sep] at unfolding moves_def by auto
qed

definition push_jobs :: "u8 list \<times> u32 \<Rightarrow> (u8 list \<times> u32) list \<Rightarrow> u8 list \<times> u32 \<Rightarrow> (u16 \<times> u8 list \<times> u32) list" where
  "push_jobs opening chunks closing = (1, opening) # map (Pair 2) chunks @ [(3, closing)]"

lemma open_job:
  assumes ok: "fatfs_ok F" and j: "fw_job F (1, shared, len) s = (FWUP_OK, s')"
    and l: "FWUP_STAGED_NAME \<le> length shared" and nm: "validate_name (staged_name shared) = Some path"
  shows "receiving F (fw_vol s) path [] s'"
proof -
  let ?s = "fw_update_mark_queued (fw_update_stage 1 shared len s)"
  obtain s1 where o: "fw_update_open F (staged_name shared) ?s = (FWUP_OK, s1)" "s' = fw_update_retire (fwup_code FWUP_OK) s1"
    using j stage_name [OF disjI1 [OF refl] l, of len s]
    by (auto simp: fw_update_run_staged_def fw_update_run_def split: prod.splits)
  show ?thesis
    using open_done [OF ok o(1) nm] o(2) unfolding receiving_def by simp
qed

lemma write_jobs:
  assumes ok: "fatfs_ok F"
  shows "receiving F v0 path content s \<Longrightarrow> fw_jobs F (map (Pair 2) chunks) s = Some s' \<Longrightarrow>
    \<forall>(d, len) \<in> set chunks. unat len \<le> length d \<Longrightarrow>
    receiving F v0 path (content @ concat (map (\<lambda>(d, len). take (unat len) d) chunks)) s'"
proof (induction chunks arbitrary: content s)
  case (Cons c cs)
  obtain d len where c: "c = (d, len)" by (cases c)
  let ?s = "fw_update_mark_queued (fw_update_stage 2 d len s)"
  obtain st s1 where w: "fw_update_write F (fw_job_buf ?s) len ?s = (st, s1)" by force
  have st: "st = FWUP_OK" "fw_jobs F (map (Pair 2) cs) (fw_update_retire (fwup_code FWUP_OK) s1) = Some s'"
    using Cons.prems(2) c w by (auto simp: fw_update_run_staged_def fw_update_run_def split: if_splits)
  have big: "len \<le> FWUP_MAX_CHUNK" using w st(1) by (auto simp: fw_update_write_def split: if_splits)
  have l: "unat len \<le> length d" using Cons.prems(3) c by simp
  have tk: "take (unat len) (fw_job_buf ?s) = take (unat len) d" using stage_data [OF big l] by simp
  have r: "receiving F v0 path content ?s" using Cons.prems(1) receiving_cong [of ?s s] by simp
  have "unat len \<le> length (fw_job_buf ?s)" using big l by (simp add: fw_update_stage_def Let_def)
  from write_done [OF ok r w [unfolded st(1)] this]
  have "receiving F v0 path (content @ take (unat len) d) (fw_update_retire (fwup_code FWUP_OK) s1)"
    unfolding tk using receiving_cong [of "fw_update_retire (fwup_code FWUP_OK) s1" s1] by simp
  from Cons.IH [OF this st(2)] Cons.prems(3) c show ?case by simp
qed simp

text \<open>
  C17: A push that reports success from OPEN to CLOSE, through the staged jobs, leaves exactly
  the bytes of its WRITE commands at the target, keeps the file that was there as the backup,
  and keeps every other file.
\<close>

theorem fw_push_delivers:
  assumes "fatfs_ok F" "fw_jobs F (push_jobs (name, l0) chunks closing) s = Some s'"
    "FWUP_STAGED_NAME \<le> length name" "validate_name (staged_name name) = Some path" "make_backup_path path = Some backup"
    "\<forall>(d, len) \<in> set chunks. unat len \<le> length d"
    "\<not> ff_isdir F (fw_vol s) (fat_key path)" "\<not> ff_isdir F (fw_vol s) (fat_key backup)"
  shows "\<not> fw_open s' \<and> fw_path s' = [] \<and>
    ff_dir F (fw_vol s') (fat_key path) = Some (concat (map (\<lambda>(d, len). take (unat len) d) chunks)) \<and>
    (\<forall>old. ff_dir F (fw_vol s) (fat_key path) = Some old \<longrightarrow> ff_dir F (fw_vol s') (fat_key backup) = Some old) \<and>
    (\<forall>k c. ff_dir F (fw_vol s) k = Some c \<and> k \<noteq> fat_key FWUP_TEMP_PATH \<longrightarrow>
      ff_dir F (fw_vol s') k = Some c \<or> (\<exists>k'. aside path backup k k' \<and> ff_dir F (fw_vol s') k' = Some c))"
proof -
  obtain s1 s2 s3 where j: "fw_job F (1, name, l0) s = (FWUP_OK, s1)" "fw_jobs F (map (Pair 2) chunks) s1 = Some s2"
      "fw_update_close F (fw_update_mark_queued (fw_update_stage 3 (fst closing) (snd closing) s2)) = (FWUP_OK, s3)"
      "s' = fw_update_retire (fwup_code FWUP_OK) s3"
    using assms(2) by (cases closing)
      (auto simp: push_jobs_def fw_jobs_append fw_update_run_staged_def fw_update_run_def
        split: prod.splits if_splits option.splits)
  have "receiving F (fw_vol s) path (concat (map (\<lambda>(d, len). take (unat len) d) chunks)) s2"
    using write_jobs [OF assms(1) open_job [OF assms(1) j(1) assms(3,4)] j(2) assms(6)] by simp
  then have r: "receiving F (fw_vol s) path (concat (map (\<lambda>(d, len). take (unat len) d) chunks))
      (fw_update_mark_queued (fw_update_stage 3 (fst closing) (snd closing) s2))" by (simp add: receiving_def)
  show ?thesis using close_done [OF assms(1) r j(3) assms(4,5,7,8)] j(4) by simp
qed

text \<open>
  C18: Whatever FatFs call fails during CLOSE's commit, and even when a failing rename is torn,
  no file is lost: the previous target is whole at the target or the backup name, the previous
  backup at its name or a discard name, the new file at the temporary or the target name, and
  every other file where it was.
\<close>

theorem fw_commit_loses_nothing:
  assumes "fatfs_ok F" "validate_name raw = Some path" "make_backup_path path = Some backup"
    "\<forall>k \<in> {fat_key path, fat_key backup, fat_key FWUP_TEMP_PATH}. \<not> ff_isdir F v k"
    "commit_temp_file F path v = (st, v')" "ff_dir F v k = Some c"
  shows "ff_dir F v' k = Some c \<or>
    k = fat_key path \<and> ff_dir F v' (fat_key backup) = Some c \<or>
    k = fat_key backup \<and> (\<exists>d. discard_of path d \<and> ff_dir F v' (fat_key d) = Some c) \<or>
    k = fat_key FWUP_TEMP_PATH \<and> ff_dir F v' (fat_key path) = Some c"
proof -
  have "apart F path backup v" using assms(4) by (intro apartI [OF assms(2,3)]) auto
  from commit_moves [OF assms(1) this assms(3,5)] show ?thesis using assms(6) unfolding moves_def aside_def by blast
qed

text \<open>
  RESTORE puts the backup at the target when it reports success, changes nothing when it
  reports that there is no backup, and in every outcome loses no file: the replaced target is
  whole at its name or a discard name, the backup at its name or the target.
\<close>

theorem fw_restore_promotes:
  assumes "fatfs_ok F" "validate_name raw = Some path" "make_backup_path path = Some backup"
    "\<forall>k \<in> {fat_key path, fat_key backup, fat_key FWUP_TEMP_PATH}. \<not> ff_isdir F v k"
    "restore_backup F path backup v = (st, v')"
  shows "(st = FWUP_OK \<longrightarrow> ff_dir F v (fat_key backup) \<noteq> None \<and> ff_dir F v' (fat_key path) = ff_dir F v (fat_key backup)) \<and>
    (st = FWUP_ERR_NO_BACKUP \<longrightarrow> ff_dir F v' = ff_dir F v) \<and>
    (\<forall>k c. ff_dir F v k = Some c \<longrightarrow> ff_dir F v' k = Some c \<or>
      k = fat_key path \<and> (\<exists>d. discard_of path d \<and> ff_dir F v' (fat_key d) = Some c) \<or>
      k = fat_key backup \<and> ff_dir F v' (fat_key path) = Some c)"
proof -
  have "apart F path backup v" using assms(4) by (intro apartI [OF assms(2,3)]) auto
  note rd = restore_dest [OF assms(1) this assms(5)]
  show ?thesis using rd(1) rd(2,3) unfolding moves_def swapped_def by blast
qed

section \<open>Cleaning up at boot\<close>

lemma cleanup_one:
  assumes "fatfs_ok F" "k \<noteq> fat_key (discard_slot_path target slot)"
  shows "ff_dir F (cleanup_discard_path F target slot v) k = ff_dir F v k"
proof -
  obtain fr v' where u: "ff_unlink F (discard_slot_path target slot) v = (fr, v')" by force
  show ?thesis using unlink_dest(1) [OF assms(1) u] assms(2) u by (simp add: cleanup_discard_path_def only_at_def)
qed

lemma cleanup_slots:
  assumes "fatfs_ok F" "\<And>slot. k \<noteq> fat_key (discard_slot_path target slot)"
  shows "ff_dir F (fold (\<lambda>n. cleanup_discard_path F target (Some n)) ns v) k = ff_dir F v k"
  by (induction ns arbitrary: v) (simp_all add: cleanup_one [OF assms])

lemma cleanup_frame:
  assumes "fatfs_ok F" "\<And>target slot. target \<in> {FWUP_ROOT, FWUP_MODULES} \<Longrightarrow> k \<noteq> fat_key (discard_slot_path target slot)"
  shows "ff_dir F (fw_update_cleanup_backups F v) k = ff_dir F v k"
  using assms by (simp add: fw_update_cleanup_backups_def cleanup_slots [OF assms(1)] cleanup_one [OF assms(1)])

lemma discard_key_reserved:
  assumes "fat_key path = fat_key (discard_slot_path target slot)"
  shows "\<exists>dir rest. dir \<in> {FWUP_ROOT, FWUP_MODULES} \<and> map ascii_upper path = dir @ ascii ''ZZFWUP'' @ rest"
proof -
  let ?d = "if take 8 target = FWUP_MODULES then FWUP_MODULES else FWUP_ROOT"
  obtain n where n: "map ascii_upper path = fat_key (discard_slot_path target slot) @ replicate n 0x2e"
    using fat_key_dots [of path] assms by auto
  have "fat_key (discard_slot_path target slot) = map ascii_upper (discard_slot_path target slot)"
    unfolding discard_slot_path_unfold by (rule fat_key_no_dot) (simp add: ascii_def)
  also have "\<dots> = ?d @ ascii ''ZZFWUP'' @ map ascii_upper ((case slot of None \<Rightarrow> [] | Some n \<Rightarrow> digit2 n) @ ascii ''.DEL'')"
    unfolding discard_slot_path_unfold by (simp add: path_consts ascii_upper_def)
  finally have "map ascii_upper path = ?d @ ascii ''ZZFWUP'' @
      (map ascii_upper ((case slot of None \<Rightarrow> [] | Some n \<Rightarrow> digit2 n) @ ascii ''.DEL'') @ replicate n 0x2e)" using n by simp
  moreover have "?d \<in> {FWUP_ROOT, FWUP_MODULES}" by simp
  ultimately show ?thesis by blast
qed

text \<open>
  C19: The cleanup at boot removes no file that was pushed to the card's root, and none of their
  backups: it touches only the discard names. A module may be pushed under a discard name,
  though, and the next boot deletes it.
\<close>

theorem fw_cleanup_spares_pushes:
  assumes "fatfs_ok F" "validate_name raw = Some path" "make_backup_path path = Some backup" "take 8 path \<noteq> FWUP_MODULES"
  shows "ff_dir F (fw_update_cleanup_backups F v) (fat_key path) = ff_dir F v (fat_key path) \<and>
    ff_dir F (fw_update_cleanup_backups F v) (fat_key backup) = ff_dir F v (fat_key backup) \<and>
    validate_name (ascii ''ZZ9K/ZZFWUP.DEL'') = Some (discard_slot_path FWUP_MODULES None)"
proof -
  have "fat_key path \<noteq> fat_key (discard_slot_path target slot)" for target slot
  proof
    assume "fat_key path = fat_key (discard_slot_path target slot)"
    then obtain dir rest where d: "dir \<in> {FWUP_ROOT, FWUP_MODULES}" "map ascii_upper path = dir @ ascii ''ZZFWUP'' @ rest"
      using discard_key_reserved by blast
    from assms(2) show False
    proof (cases rule: validate_name_cases)
      case (root p)
      show False
      proof (cases "dir = FWUP_ROOT")
        case True
        then have "map ascii_upper p = ascii ''ZZFWUP'' @ rest" using d(2) root(1) by (simp add: path_consts ascii_upper_def)
        then show False using root(5) by (simp add: is_reserved_name_def ascii_iprefix_iff ascii_def ascii_upper_def)
      next
        case False
        then have "0x2f \<in> set (map ascii_upper p)" using d root(1) by (auto simp: path_consts ascii_upper_def)
        moreover have "ascii_upper c \<noteq> 0x2f" if "root_char c" for c
          using that by (auto simp: root_char_def ascii_upper_def word_le_nat_alt unat_sub_if_size word_unat_eq_iff)
        ultimately show False using root(4) by auto
      qed
    next
      case (module s)
      then show False using assms(4) by (simp add: path_consts)
    qed
  qed
  moreover have "validate_name (ascii ''ZZ9K/ZZFWUP.DEL'') = Some (discard_slot_path FWUP_MODULES None)" by code_simp
  ultimately show ?thesis
    using cleanup_frame [OF assms(1), of "fat_key path"] cleanup_frame [OF assms(1), of "fat_key backup"]
      backup_separate(2) [OF assms(2,3)] by simp
qed

section \<open>A volume in memory\<close>

text \<open>
  A directory of files and a script that says which calls fail. It satisfies \<open>fatfs_ok\<close>, and
  the properties apply to it, also when calls fail.
\<close>

type_synonym ram_vol = "(u8 list \<times> u8 list) list \<times> bool list"

definition ram_call :: "((u8 list \<times> u8 list) list \<Rightarrow> fresult \<times> (u8 list \<times> u8 list) list) \<Rightarrow> ram_vol \<Rightarrow> fresult \<times> ram_vol" where
  "ram_call f v = (if snd v \<noteq> [] \<and> hd (snd v) then (FR_OTHER, (fst v, tl (snd v)))
     else (case f (fst v) of (fr, d) \<Rightarrow> (fr, (d, tl (snd v)))))"

definition ram_rename :: "u8 list \<Rightarrow> u8 list \<Rightarrow> (u8 list \<times> u8 list) list \<Rightarrow> fresult \<times> (u8 list \<times> u8 list) list" where
  "ram_rename p q d = (case map_of d p of None \<Rightarrow> (FR_NO_FILE, d)
     | Some c \<Rightarrow> if map_of d q \<noteq> None \<and> p \<noteq> q then (FR_EXIST, d) else (FR_OK, AList.update q c (AList.delete p d)))"

definition ram_fs :: "ram_vol fatfs" where
  "ram_fs = \<lparr>ff_stat = (\<lambda>p. ram_call (\<lambda>d. (if map_of d (fat_key p) = None then FR_NO_FILE else FR_OK, d))),
     ff_rename = (\<lambda>p q. ram_call (ram_rename (fat_key p) (fat_key q))),
     ff_unlink = (\<lambda>p. ram_call (\<lambda>d. if map_of d (fat_key p) = None then (FR_NO_FILE, d)
       else (FR_OK, AList.delete (fat_key p) d))),
     ff_mkdir = (\<lambda>p. ram_call (\<lambda>d. (FR_EXIST, d))),
     ff_open = (\<lambda>p. ram_call (\<lambda>d. (FR_OK, AList.update (fat_key p) [] d))),
     ff_write = (\<lambda>p data v. case ram_call (\<lambda>d. case map_of d (fat_key p) of None \<Rightarrow> (FR_OTHER, d)
         | Some c \<Rightarrow> (FR_OK, AList.update (fat_key p) (c @ data) d)) v of
         (fr, v') \<Rightarrow> (fr, if fr = FR_OK then length data else 0, v')),
     ff_sync = (\<lambda>p. ram_call (\<lambda>d. (FR_OK, d))), ff_close = (\<lambda>p. ram_call (\<lambda>d. (FR_OK, d))),
     ff_dir = (\<lambda>v. map_of (fst v)), ff_isdir = (\<lambda>v k. False)\<rparr>"

lemma ram_fs_ok: "fatfs_ok ram_fs"
proof -
  note s = AList.update_conv' AList.delete_conv' fun_upd_def
  have "rename_law ram_fs"
    by (auto simp: rename_law_def ram_fs_def ram_call_def ram_rename_def rename_done_def rename_torn_def s
      split: if_splits option.splits)
  moreover have "stat_law ram_fs" by (auto simp: stat_law_def ram_fs_def ram_call_def split: if_splits)
  moreover have "unlink_law ram_fs" by (auto simp: unlink_law_def only_at_def ram_fs_def ram_call_def s split: if_splits)
  moreover have "open_law ram_fs" by (auto simp: open_law_def only_at_def ram_fs_def ram_call_def s split: if_splits)
  moreover have "write_law ram_fs"
    by (auto simp: write_law_def only_at_def ram_fs_def ram_call_def s split: if_splits option.splits)
  moreover have "close_law ram_fs" by (auto simp: close_law_def only_at_def ram_fs_def ram_call_def s split: if_splits)
  moreover have "mkdir_law ram_fs" by (auto simp: mkdir_law_def ram_fs_def ram_call_def split: if_splits)
  ultimately show ?thesis by (simp add: fatfs_ok_def)
qed

definition boot_path :: "u8 list" where "boot_path = ascii ''0:/BOOT.BIN''"
definition boot_backup :: "u8 list" where "boot_backup = ascii ''0:/BOOT.bak''"
definition boot_name :: "u8 list" where "boot_name = ascii ''boot.bin'' @ replicate 70 0"

definition ram_idle :: "ram_vol \<Rightarrow> ram_vol fwup" where
  "ram_idle v = \<lparr>fw_vol = v, fw_open = False, fw_path = [], fw_bytes = 0, fw_seq = 0, fw_job_buf = [], fw_job_cmd = 0,
     fw_job_len = 0, fw_job_queued = False, fw_job_done = False, fw_job_result = 0\<rparr>"

definition ram_start :: "ram_vol" where
  "ram_start = ([(fat_key boot_path, [1, 2]), (fat_key boot_backup, [3])], [])"

lemma ram_not_dir [simp]: "\<not> ff_isdir ram_fs v k"
  by (simp add: ram_fs_def)

lemma boot_names: "validate_name (ascii ''BOOT.BIN'') = Some boot_path" "make_backup_path boot_path = Some boot_backup"
  by code_simp+

lemma fw_paths_apart_witness:
  "length boot_backup < FWUP_PATH_MAX \<and> fat_key boot_path \<noteq> fat_key boot_backup"
  using fw_paths_apart [OF boot_names] by blast

lemma push_runs: "fw_jobs ram_fs (push_jobs (boot_name, 0) [([7, 8, 9], 2), ([5], 1)] ([], 0)) (ram_idle ram_start) \<noteq> None"
  by code_simp

lemma push_name: "validate_name (staged_name boot_name) = Some (ascii ''0:/boot.bin'')" "FWUP_STAGED_NAME \<le> length boot_name"
    "make_backup_path (ascii ''0:/boot.bin'') = Some (ascii ''0:/boot.bak'')"
  by code_simp+

lemma fw_push_delivers_witness:
  "\<exists>s'. fw_jobs ram_fs (push_jobs (boot_name, 0) [([7, 8, 9], 2), ([5], 1)] ([], 0)) (ram_idle ram_start) = Some s' \<and>
     ff_dir ram_fs (fw_vol s') (fat_key (ascii ''0:/boot.bin'')) = Some [7, 8, 5] \<and>
     ff_dir ram_fs (fw_vol s') (fat_key (ascii ''0:/boot.bak'')) = Some [1, 2]"
proof -
  obtain s' where s': "fw_jobs ram_fs (push_jobs (boot_name, 0) [([7, 8, 9], 2), ([5], 1)] ([], 0)) (ram_idle ram_start) = Some s'"
    using push_runs by blast
  have "ff_dir ram_fs (fw_vol (ram_idle ram_start)) (fat_key (ascii ''0:/boot.bin'')) = Some [1, 2]" by code_simp
  with fw_push_delivers [OF ram_fs_ok s' push_name(2,1,3)] s' show ?thesis by simp
qed

text \<open>A commit whose rename of the temporary file fails, as does the first rollback.\<close>

definition ram_staged :: "ram_vol" where
  "ram_staged = ((fat_key FWUP_TEMP_PATH, [9, 9]) # fst ram_start, [False, False, False, False, False, True, True])"

lemma ram_staged_files:
  "ff_dir ram_fs ram_staged (fat_key boot_path) = Some [1, 2]" "ff_dir ram_fs ram_start (fat_key boot_path) = Some [1, 2]"
  "ff_dir ram_fs ram_start (fat_key boot_backup) = Some [3]"
  by code_simp+

lemma fw_commit_loses_nothing_witness:
  "fst (commit_temp_file ram_fs boot_path ram_staged) = FWUP_ERR_CLOSE \<and>
    (ff_dir ram_fs (snd (commit_temp_file ram_fs boot_path ram_staged)) (fat_key boot_path) = Some [1, 2] \<or>
     ff_dir ram_fs (snd (commit_temp_file ram_fs boot_path ram_staged)) (fat_key boot_backup) = Some [1, 2])"
proof -
  have st: "fst (commit_temp_file ram_fs boot_path ram_staged) = FWUP_ERR_CLOSE" by code_simp
  obtain v' where v': "commit_temp_file ram_fs boot_path ram_staged = (FWUP_ERR_CLOSE, v')" using st by (metis prod.collapse)
  have ne: "fat_key boot_path \<noteq> fat_key boot_backup" "fat_key boot_path \<noteq> fat_key FWUP_TEMP_PATH" by code_simp+
  show ?thesis
    using fw_commit_loses_nothing [OF ram_fs_ok boot_names _ v' ram_staged_files(1)] ne v' by auto
qed

lemma fw_restore_promotes_witness:
  "fst (restore_backup ram_fs boot_path boot_backup ram_start) = FWUP_OK \<and>
    ff_dir ram_fs (snd (restore_backup ram_fs boot_path boot_backup ram_start)) (fat_key boot_path) = Some [3] \<and>
    (\<exists>d. discard_of boot_path d \<and> ff_dir ram_fs (snd (restore_backup ram_fs boot_path boot_backup ram_start)) (fat_key d) = Some [1, 2])"
proof -
  have st: "fst (restore_backup ram_fs boot_path boot_backup ram_start) = FWUP_OK" by code_simp
  obtain v' where v': "restore_backup ram_fs boot_path boot_backup ram_start = (FWUP_OK, v')" using st by (metis prod.collapse)
  have ne: "fat_key boot_path \<noteq> fat_key boot_backup" by code_simp
  have "\<forall>k \<in> {fat_key boot_path, fat_key boot_backup, fat_key FWUP_TEMP_PATH}. \<not> ff_isdir ram_fs ram_start k" by simp
  note r = fw_restore_promotes [OF ram_fs_ok boot_names this v']
  have r1: "ff_dir ram_fs v' (fat_key boot_path) = Some [3]" using r ram_staged_files(3) by simp
  have "ff_dir ram_fs v' (fat_key boot_path) = Some [1, 2] \<or>
      (\<exists>d. discard_of boot_path d \<and> ff_dir ram_fs v' (fat_key d) = Some [1, 2])"
    using r ram_staged_files(2) ne by blast
  then show ?thesis using r1 v' by simp
qed

lemma fw_cleanup_spares_pushes_witness:
  "ff_dir ram_fs (fw_update_cleanup_backups ram_fs ram_start) (fat_key boot_path) = Some [1, 2]"
proof -
  have "take 8 boot_path \<noteq> FWUP_MODULES" by code_simp
  from fw_cleanup_spares_pushes [OF ram_fs_ok boot_names this, of ram_start] show ?thesis
    using ram_staged_files(2) by simp
qed

text \<open>A module pushed under a discard name is gone after the next boot's cleanup.\<close>

definition pushed_volume :: "ram_vol" where
  "pushed_volume = ([(ascii ''0:/ZZ9K/ZZFWUP.DEL'', [7])], [])"

lemma pushed_module_deleted: "cleanup_discard_path ram_fs FWUP_MODULES None pushed_volume = ([], [])"
  by code_simp

end
