(* ===== verification/FwPush.thy ===== *)
theory FwPush
  imports FwSafety
begin

text \<open>
  The registers a client pushes files through (\<^verbatim>\<open>REG_ZZ_FWUP_*\<close> in \<^verbatim>\<open>main.c\<close>), the main loop
  that stages a command and queues it on core 1, and the task that runs it there. Each step
  of either core is a rule of \<open>fw_step\<close>; a history beside the state numbers the commands and
  records what ran. The property: a client that polls until the status is not BUSY reads the
  result of the command it wrote last, which ran once.
\<close>

section \<open>Registers and main loop\<close>

definition FWUP_STATUS_BUSY :: u16 where "FWUP_STATUS_BUSY = 0xFFFF"

text \<open>The push task in the core-1 queue; a finished one carries the two bytes of its result.\<close>

datatype fw_task = NoTask | Queued | Ran "u8 list" | Faulted

record 'v fwreg =
  rg_up :: "'v fwup"
  rg_status :: u16
  rg_cmd :: u16
  rg_len :: u32
  rg_pending :: bool
  rg_staged :: bool
  rg_mirror :: "u8 list"
  rg_task :: fw_task

definition fwup_publish :: "u16 \<Rightarrow> 'v fwreg \<Rightarrow> 'v fwreg" where
  "fwup_publish r s = (case fw_update_publish_status r (rg_up s) of (word, up) \<Rightarrow>
     s\<lparr>rg_status := r, rg_mirror := word, rg_up := up\<rparr>)"

definition reg_fwup_len :: "u32 \<Rightarrow> 'v fwreg \<Rightarrow> 'v fwreg" where
  "reg_fwup_len zdata s = s\<lparr>rg_len := zdata AND 0xFFFF\<rparr>"

definition reg_fwup_cmd :: "u32 \<Rightarrow> 'v fwreg \<Rightarrow> 'v fwreg" where
  "reg_fwup_cmd zdata s = s\<lparr>rg_cmd := ucast (zdata AND 0xFFFF), rg_status := FWUP_STATUS_BUSY,
     rg_staged := False, rg_pending := True\<rparr>"

definition loop_take :: "'v fwreg \<Rightarrow> 'v fwreg" where
  "loop_take s = (case fw_update_take_result (rg_up s) of (None, up) \<Rightarrow> s\<lparr>rg_up := up\<rparr>
     | (Some r, up) \<Rightarrow> if \<not> rg_pending s then fwup_publish r (s\<lparr>rg_up := up\<rparr>) else s\<lparr>rg_up := up\<rparr>)"

definition stage_pending :: "u8 list \<Rightarrow> 'v fwreg \<Rightarrow> 'v fwreg" where
  "stage_pending shared s = (if \<not> rg_staged s
     then s\<lparr>rg_up := fw_update_stage (rg_cmd s) shared (rg_len s) (rg_up s), rg_staged := True\<rparr> else s)"

text \<open>\<open>queued\<close> is what \<^verbatim>\<open>sdk_mailbox_enqueue_internal\<close> returned, \<open>avail\<close> whether core 1 runs.\<close>

definition loop_queue :: "bool \<Rightarrow> bool \<Rightarrow> 'v fatfs \<Rightarrow> u8 list \<Rightarrow> 'v fwreg \<Rightarrow> 'v fwreg" where
  "loop_queue queued avail F shared s =
     (if rg_pending s \<and> \<not> fw_update_busy (rg_up s) then
        (let s1 = stage_pending shared s in
         if queued then s1\<lparr>rg_up := fw_update_mark_queued (rg_up s1), rg_task := Queued, rg_pending := False, rg_staged := False\<rparr>
         else if \<not> avail then (case fw_update_run_staged F (rg_up s1) of (st, up) \<Rightarrow>
           (fwup_publish (fwup_code st) (s1\<lparr>rg_up := up\<rparr>))\<lparr>rg_pending := False, rg_staged := False\<rparr>)
         else s1)
      else s)"

text \<open>Core 1 running the task, and core 0 retiring it.\<close>

definition core1_run_fwup :: "'v fatfs \<Rightarrow> 'v fwreg \<Rightarrow> 'v fwreg" where
  "core1_run_fwup F s = (case fw_update_run_staged F (rg_up s) of (st, up) \<Rightarrow>
     s\<lparr>rg_up := up, rg_task := Ran [ucast (drop_bit 8 (fwup_code st)), ucast (fwup_code st)]\<rparr>)"

definition retire_fwup :: "'v fwreg \<Rightarrow> 'v fwreg" where
  "retire_fwup s = (case rg_task s of
     Ran (hi # lo # _) \<Rightarrow> s\<lparr>rg_up := fw_update_retire (push_bit 8 (ucast hi) OR ucast lo) (rg_up s), rg_task := NoTask\<rparr>
   | Ran _ \<Rightarrow> s\<lparr>rg_up := fw_update_retire_failed (rg_up s), rg_task := NoTask\<rparr>
   | Faulted \<Rightarrow> s\<lparr>rg_up := fw_update_retire_failed (rg_up s), rg_task := NoTask\<rparr>
   | _ \<Rightarrow> s)"

text \<open>
  An Amiga reset: a job still running after the wait is stopped with core 1, the transfer
  dropped, the registers cleared; the mailbox then drops its queue.
\<close>

definition fwup_wait_failed :: "'v fwreg \<Rightarrow> 'v fwreg" where
  "fwup_wait_failed s = (if fw_update_busy (rg_up s)
     then s\<lparr>rg_task := NoTask, rg_up := fw_update_forget_queued (rg_up s)\<rparr> else s)"

definition reset_fwup_registers :: "'v fatfs \<Rightarrow> 'v fwreg \<Rightarrow> 'v fwreg" where
  "reset_fwup_registers F s = s\<lparr>rg_up := fw_update_reset F (rg_up s), rg_status := 0, rg_pending := False,
     rg_staged := False, rg_cmd := 0, rg_len := 0\<rparr>"

definition fwup_amiga_reset :: "'v fatfs \<Rightarrow> 'v fwreg \<Rightarrow> 'v fwreg" where
  "fwup_amiga_reset F s = (let s1 = reset_fwup_registers F (fwup_wait_failed s)
     in s1\<lparr>rg_task := NoTask, rg_up := fw_update_forget_queued (rg_up s1)\<rparr>)"

section \<open>Steps\<close>

record fwhist =
  hi_written :: nat
  hi_job :: nat
  hi_runs :: "(nat \<times> u16 \<times> u16) list"

definition ran :: "'v fatfs \<Rightarrow> 'v fwup \<Rightarrow> u16 \<times> u16" where
  "ran F up = (fw_job_cmd up, fwup_code (fst (fw_update_run_staged F up)))"

definition log_loop :: "bool \<Rightarrow> bool \<Rightarrow> 'v fatfs \<Rightarrow> u8 list \<Rightarrow> 'v fwreg \<Rightarrow> fwhist \<Rightarrow> fwhist" where
  "log_loop queued avail F shared s h =
     (if rg_pending s \<and> \<not> fw_update_busy (rg_up s) then
        (if queued then h\<lparr>hi_job := hi_written h\<rparr>
         else if \<not> avail then h\<lparr>hi_runs := (hi_written h, ran F (rg_up (stage_pending shared s))) # hi_runs h\<rparr> else h)
      else h)"

text \<open>The fields of a job, which running it leaves alone; a fault may leave the rest in any state.\<close>

definition job_of :: "'v fwup \<Rightarrow> bool \<times> bool \<times> u16 \<times> u16" where
  "job_of up = (fw_job_queued up, fw_job_done up, fw_job_cmd up, fw_job_result up)"

inductive fw_step :: "'v fatfs \<Rightarrow> 'v fwreg \<times> fwhist \<Rightarrow> 'v fwreg \<times> fwhist \<Rightarrow> bool" for F where
  write_len: "fw_step F (s, h) (reg_fwup_len z s, h)"
| write_cmd: "fw_step F (s, h) (reg_fwup_cmd z s, h\<lparr>hi_written := hi_written h + 1\<rparr>)"
| loop_pass: "fw_step F (s, h) (loop_queue queued avail F shared (loop_take s),
    log_loop queued avail F shared (loop_take s) h)"
| core1_run: "rg_task s = Queued \<Longrightarrow>
    fw_step F (s, h) (core1_run_fwup F s, h\<lparr>hi_runs := (hi_job h, ran F (rg_up s)) # hi_runs h\<rparr>)"
| core1_fault: "rg_task s = Queued \<Longrightarrow> job_of up = job_of (rg_up s) \<Longrightarrow>
    fw_step F (s, h) (s\<lparr>rg_up := up, rg_task := Faulted\<rparr>,
      h\<lparr>hi_runs := (hi_job h, fw_job_cmd up, fw_job_result (fw_update_retire_failed up)) # hi_runs h\<rparr>)"
| harvest: "fw_step F (s, h) (retire_fwup s, h)"
| amiga_reset: "fw_step F (s, h) (fwup_amiga_reset F s, \<lparr>hi_written = 0, hi_job = 0, hi_runs = []\<rparr>)"

inductive_cases fw_stepE: "fw_step F s s'"

definition fw_initial :: "'v \<Rightarrow> 'v fwreg" where
  "fw_initial v = \<lparr>rg_up = \<lparr>fw_vol = v, fw_open = False, fw_path = [], fw_bytes = 0, fw_seq = 0, fw_job_buf = replicate 24576 0,
     fw_job_cmd = 0, fw_job_len = 0, fw_job_queued = False, fw_job_done = False, fw_job_result = 0\<rparr>,
     rg_status = 0, rg_cmd = 0, rg_len = 0, rg_pending = False, rg_staged = False, rg_mirror = [], rg_task = NoTask\<rparr>"

inductive fw_reachable :: "'v fatfs \<Rightarrow> 'v \<Rightarrow> 'v fwreg \<times> fwhist \<Rightarrow> bool" for F v where
  start: "fw_reachable F v (fw_initial v, \<lparr>hi_written = 0, hi_job = 0, hi_runs = []\<rparr>)"
| step: "fw_reachable F v s \<Longrightarrow> fw_step F s s' \<Longrightarrow> fw_reachable F v s'"

section \<open>The invariant\<close>

text \<open>Running a command leaves the job alone.\<close>

lemma job_of_updates [simp]:
  "job_of (s\<lparr>fw_vol := v\<rparr>) = job_of s" "job_of (s\<lparr>fw_open := b\<rparr>) = job_of s" "job_of (s\<lparr>fw_path := p\<rparr>) = job_of s"
  "job_of (s\<lparr>fw_bytes := n\<rparr>) = job_of s" "job_of (s\<lparr>fw_seq := q\<rparr>) = job_of s"
  by (simp_all add: job_of_def)

lemmas job_of_distrib = if_distrib [of snd] if_distrib [of job_of] option.case_distrib [of snd] option.case_distrib [of job_of]
  case_prod_unfold Let_def

lemma close_silent_job_of [simp]: "job_of (close_silent F s) = job_of s"
  by (simp add: close_silent_def)

lemma open_job_of [simp]: "job_of (snd (fw_update_open F name s)) = job_of s"
  by (cases "validate_name name") (simp_all add: fw_update_open_def job_of_distrib cong: if_cong)

lemma write_job_of [simp]: "job_of (snd (fw_update_write F buf len s)) = job_of s"
  by (simp add: fw_update_write_def job_of_distrib cong: if_cong)

lemma close_job_of [simp]: "job_of (snd (fw_update_close F s)) = job_of s"
  by (simp add: fw_update_close_def job_of_distrib cong: if_cong)

lemma abort_job_of [simp]: "job_of (snd (fw_update_abort F s)) = job_of s"
  by (simp add: fw_update_abort_def job_of_distrib cong: if_cong)

lemma restore_job_of [simp]: "job_of (snd (fw_update_restore F name s)) = job_of s"
  by (cases "validate_name name"; cases "make_backup_path (the (validate_name name))")
    (simp_all add: fw_update_restore_def job_of_distrib cong: if_cong)

lemma run_job_of: "job_of (snd (fw_update_run_staged F s)) = job_of s"
  by (simp add: fw_update_run_staged_def fw_update_run_def)

lemma reset_job_of: "job_of (fw_update_reset F s) = job_of s"
  by (simp add: fw_update_reset_def)

lemma fwup_code_not_busy: "fwup_code st \<noteq> FWUP_STATUS_BUSY"
  by (cases st) (simp_all add: FWUP_STATUS_BUSY_def)

lemma code_bytes: "push_bit 8 (ucast (ucast (drop_bit 8 w) :: u8)) OR ucast (ucast w :: u8) = (w :: u16)"
  by (rule bit_word_eqI) (auto simp: bit_simps)

text \<open>The log: later commands first, each at most once.\<close>

definition log_ok :: "nat \<Rightarrow> (nat \<times> u16 \<times> u16) list \<Rightarrow> bool" where
  "log_ok n runs \<longleftrightarrow> sorted_wrt (>) (map fst runs) \<and> (\<forall>r \<in> set runs. fst r \<le> n)"

lemma log_ok_Cons: "log_ok n ((m, x) # rs) \<longleftrightarrow> m \<le> n \<and> (\<forall>r \<in> set rs. fst r < m) \<and> log_ok n rs"
  by (auto simp: log_ok_def)

lemma log_ok_mono: "log_ok n rs \<Longrightarrow> n \<le> m \<Longrightarrow> log_ok m rs"
  by (auto simp: log_ok_def)

lemma log_ok_less: "log_ok n rs \<Longrightarrow> r \<in> set rs \<Longrightarrow> fst r < Suc n"
  by (auto simp: log_ok_def)

text \<open>The status a fault gives a command.\<close>

definition fail_code :: "u16 \<Rightarrow> u16" where
  "fail_code cmd = fwup_code (if cmd = 1 then FWUP_ERR_OPEN else if cmd = 2 then FWUP_ERR_WRITE
     else if cmd = 3 then FWUP_ERR_CLOSE else if cmd = 5 then FWUP_ERR_RESTORE else FWUP_ERR_UNKNOWN)"

lemma retire_failed_eq: "fw_update_retire_failed up = fw_update_retire (fail_code (fw_job_cmd up)) up"
  by (simp add: fw_update_retire_failed_def fail_code_def)

text \<open>
  The invariant over the registers and the job: what a status other than BUSY means, which
  command the job belongs to, and what the task and the result hold.
\<close>

definition answered :: "u16 \<Rightarrow> bool \<Rightarrow> bool \<Rightarrow> u16 \<Rightarrow> bool \<Rightarrow> bool \<Rightarrow> u16 \<Rightarrow> nat \<Rightarrow> (nat \<times> u16 \<times> u16) list \<Rightarrow> bool" where
  "answered st pend stgd cmd queued finished jcmd w runs \<longleftrightarrow>
     (st = FWUP_STATUS_BUSY \<longleftrightarrow> pend \<or> queued \<or> finished) \<and>
     (stgd \<longrightarrow> pend \<and> \<not> queued \<and> \<not> finished \<and> jcmd = cmd) \<and> log_ok w runs \<and>
     (pend \<longrightarrow> (\<forall>r \<in> set runs. fst r < w)) \<and>
     (st \<noteq> FWUP_STATUS_BUSY \<and> 0 < w \<longrightarrow> (\<exists>rs. runs = (w, cmd, st) # rs))"

definition in_flight :: "bool \<Rightarrow> u16 \<Rightarrow> bool \<Rightarrow> bool \<Rightarrow> u16 \<Rightarrow> u16 \<Rightarrow> fw_task \<Rightarrow> nat \<Rightarrow> nat \<Rightarrow> (nat \<times> u16 \<times> u16) list \<Rightarrow> bool" where
  "in_flight pend cmd queued finished jcmd result task w job runs \<longleftrightarrow>
     (queued \<longleftrightarrow> task \<noteq> NoTask) \<and> \<not> (queued \<and> finished) \<and>
     (queued \<or> finished \<longrightarrow> (if pend then job < w else job = w \<and> jcmd = cmd)) \<and>
     (task = Queued \<longrightarrow> (\<forall>r \<in> set runs. fst r < job)) \<and>
     (\<forall>p. task = Ran p \<longrightarrow> (\<exists>r rs. p = [ucast (drop_bit 8 r), ucast r] \<and> r \<noteq> FWUP_STATUS_BUSY \<and> runs = (job, jcmd, r) # rs)) \<and>
     (task = Faulted \<longrightarrow> (\<exists>rs. runs = (job, jcmd, fail_code jcmd) # rs)) \<and>
     (finished \<longrightarrow> result \<noteq> FWUP_STATUS_BUSY \<and> (\<exists>rs. runs = (job, jcmd, result) # rs))"

definition fw_inv :: "'v fwreg \<Rightarrow> fwhist \<Rightarrow> bool" where
  "fw_inv s h \<longleftrightarrow>
     answered (rg_status s) (rg_pending s) (rg_staged s) (rg_cmd s) (fw_job_queued (rg_up s)) (fw_job_done (rg_up s))
       (fw_job_cmd (rg_up s)) (hi_written h) (hi_runs h) \<and>
     in_flight (rg_pending s) (rg_cmd s) (fw_job_queued (rg_up s)) (fw_job_done (rg_up s)) (fw_job_cmd (rg_up s))
       (fw_job_result (rg_up s)) (rg_task s) (hi_written h) (hi_job h) (hi_runs h)"

lemma inv_write_len: "fw_inv s h \<Longrightarrow> fw_inv (reg_fwup_len z s) h"
  by (simp add: fw_inv_def reg_fwup_len_def)

lemma answered_cmd:
  assumes "answered st pend stgd cmd queued finished jcmd w runs"
  shows "answered FWUP_STATUS_BUSY True False cmd' queued finished jcmd (w + 1) runs"
proof -
  have "log_ok w runs" using assms by (simp add: answered_def)
  then show ?thesis by (auto simp: answered_def log_ok_def)
qed

lemma in_flight_cmd:
  assumes "in_flight pend cmd queued finished jcmd result task w job runs"
  shows "in_flight True cmd' queued finished jcmd result task (w + 1) job runs"
proof -
  have "queued \<or> finished \<Longrightarrow> job < w + 1" using assms by (auto simp: in_flight_def split: if_splits)
  then show ?thesis using assms unfolding in_flight_def by (elim conjE, intro conjI) auto
qed

lemma inv_write_cmd: "fw_inv s h \<Longrightarrow> fw_inv (reg_fwup_cmd z s) (h\<lparr>hi_written := hi_written h + 1\<rparr>)"
  using answered_cmd in_flight_cmd unfolding fw_inv_def reg_fwup_cmd_def by fastforce

lemmas job_simps = fw_update_busy_def fw_update_take_result_def fw_update_retire_def fw_update_mark_queued_def
  fw_update_forget_queued_def fw_update_publish_status_def Let_def fwup_publish_def

lemma inv_take:
  assumes "fw_inv s h"
  shows "fw_inv (loop_take s) h \<and> \<not> fw_job_done (rg_up (loop_take s))"
proof (cases "fw_job_done (rg_up s)")
  case True
  then show ?thesis using assms unfolding fw_inv_def
    by (cases "rg_pending s") (auto simp: loop_take_def job_simps answered_def in_flight_def)
next
  case False
  then show ?thesis using assms by (simp add: loop_take_def job_simps)
qed

lemma stage_job [simp]:
  "fw_job_queued (fw_update_stage c shared len up) = fw_job_queued up"
  "fw_job_done (fw_update_stage c shared len up) = fw_job_done up"
  "fw_job_cmd (fw_update_stage c shared len up) = c"
  by (simp_all add: fw_update_stage_def Let_def)

lemma stage_pending_dest:
  assumes "rg_staged s \<longrightarrow> fw_job_cmd (rg_up s) = rg_cmd s"
  shows "rg_staged (stage_pending shared s)" "fw_job_cmd (rg_up (stage_pending shared s)) = rg_cmd s"
    "fw_job_queued (rg_up (stage_pending shared s)) = fw_job_queued (rg_up s)"
    "fw_job_done (rg_up (stage_pending shared s)) = fw_job_done (rg_up s)"
    "rg_status (stage_pending shared s) = rg_status s" "rg_cmd (stage_pending shared s) = rg_cmd s"
    "rg_pending (stage_pending shared s) = rg_pending s" "rg_task (stage_pending shared s) = rg_task s"
  using assms by (simp_all add: stage_pending_def)

lemma inv_queue:
  assumes inv: "fw_inv s h" and nd: "\<not> fw_job_done (rg_up s)"
  shows "fw_inv (loop_queue queued avail F shared s) (log_loop queued avail F shared s h)"
proof (cases "rg_pending s \<and> \<not> fw_job_queued (rg_up s)")
  case False
  then have "loop_queue queued avail F shared s = s" "log_loop queued avail F shared s h = h"
    unfolding loop_queue_def log_loop_def fw_update_busy_def by (simp_all only: if_False)
  then show ?thesis using inv by simp
next
  case True
  have st: "rg_staged s \<longrightarrow> fw_job_cmd (rg_up s) = rg_cmd s" using inv by (simp add: fw_inv_def answered_def)
  note sp = stage_pending_dest [OF st, of shared]
  have task: "rg_task s = NoTask" using inv True by (simp add: fw_inv_def in_flight_def)
  have log: "log_ok (hi_written h) (hi_runs h)" "\<forall>r \<in> set (hi_runs h). fst r < hi_written h" "rg_status s = FWUP_STATUS_BUSY"
    using inv True by (simp_all add: fw_inv_def answered_def)
  consider (queued) queued | (inline) "\<not> queued" "\<not> avail" | (wait) "\<not> queued" avail by blast
  then show ?thesis
  proof cases
    case queued
    then show ?thesis using True nd sp task log unfolding fw_inv_def
      by (simp add: loop_queue_def log_loop_def job_simps answered_def in_flight_def)
  next
    case inline
    obtain r up where run: "fw_update_run_staged F (rg_up (stage_pending shared s)) = (r, up)" by force
    have j: "job_of up = job_of (rg_up (stage_pending shared s))" using run_job_of [of F "rg_up (stage_pending shared s)"] run by simp
    then have "fw_job_queued up = False" "fw_job_done up = False" "fw_job_cmd up = rg_cmd s"
      using True nd sp by (simp_all add: job_of_def)
    then show ?thesis using inline True sp task log run fwup_code_not_busy [of r] unfolding fw_inv_def
      by (simp add: loop_queue_def log_loop_def job_simps answered_def in_flight_def ran_def log_ok_Cons)
  next
    case wait
    then show ?thesis using True nd sp task log unfolding fw_inv_def
      by (simp add: loop_queue_def log_loop_def job_simps answered_def in_flight_def)
  qed
qed

lemma in_flight_job_le: "in_flight pend cmd queued finished jcmd result task w job runs \<Longrightarrow> queued \<or> finished \<Longrightarrow> job \<le> w"
  by (auto simp: in_flight_def split: if_splits)

text \<open>The task ends, with a result or by a fault.\<close>

lemma answered_log:
  assumes "answered st pend stgd cmd True finished jcmd w runs"
    "in_flight pend cmd True finished jcmd result Queued w job runs"
  shows "answered st pend stgd cmd True finished jcmd w ((job, x) # runs)"
proof -
  have "if pend then job < w else job = w" "\<forall>r \<in> set runs. fst r < job" "st = FWUP_STATUS_BUSY"
    using assms by (auto simp: answered_def in_flight_def split: if_splits)
  then show ?thesis using assms(1) by (cases pend) (auto simp: answered_def log_ok_Cons)
qed

lemma inv_run:
  assumes inv: "fw_inv s h" and q: "rg_task s = Queued"
  shows "fw_inv (core1_run_fwup F s) (h\<lparr>hi_runs := (hi_job h, ran F (rg_up s)) # hi_runs h\<rparr>)"
proof -
  obtain r up where run: "fw_update_run_staged F (rg_up s) = (r, up)" by force
  have j: "job_of up = job_of (rg_up s)" using run_job_of [of F "rg_up s"] run by simp
  have qd: "fw_job_queued (rg_up s)" using inv q by (simp add: fw_inv_def in_flight_def)
  have a: "answered (rg_status s) (rg_pending s) (rg_staged s) (rg_cmd s) True (fw_job_done (rg_up s))
      (fw_job_cmd (rg_up s)) (hi_written h) ((hi_job h, ran F (rg_up s)) # hi_runs h)"
    using inv q qd answered_log unfolding fw_inv_def by (metis (full_types))
  show ?thesis
    using a inv j qd q run fwup_code_not_busy [of r] unfolding fw_inv_def
    by (auto simp: core1_run_fwup_def in_flight_def job_of_def ran_def)
qed

lemma inv_fault:
  assumes inv: "fw_inv s h" and q: "rg_task s = Queued" and j: "job_of up = job_of (rg_up s)"
  shows "fw_inv (s\<lparr>rg_up := up, rg_task := Faulted\<rparr>)
    (h\<lparr>hi_runs := (hi_job h, fw_job_cmd up, fw_job_result (fw_update_retire_failed up)) # hi_runs h\<rparr>)"
proof -
  let ?x = "(fw_job_cmd up, fw_job_result (fw_update_retire_failed up))"
  have qd: "fw_job_queued (rg_up s)" using inv q by (simp add: fw_inv_def in_flight_def)
  have a: "answered (rg_status s) (rg_pending s) (rg_staged s) (rg_cmd s) True (fw_job_done (rg_up s))
      (fw_job_cmd (rg_up s)) (hi_written h) ((hi_job h, ?x) # hi_runs h)"
    using inv q qd answered_log unfolding fw_inv_def by (metis (full_types))
  show ?thesis
    using a inv j qd q unfolding fw_inv_def
    by (auto simp: in_flight_def job_of_def retire_failed_eq fw_update_retire_def)
qed

lemma inv_retire:
  assumes inv: "fw_inv s h"
  shows "fw_inv (retire_fwup s) h"
proof (cases "rg_task s")
  case (Ran p)
  then obtain r rs where p: "p = [ucast (drop_bit 8 r), ucast r]" "r \<noteq> FWUP_STATUS_BUSY"
      "hi_runs h = (hi_job h, fw_job_cmd (rg_up s), r) # rs"
    using inv by (auto simp: fw_inv_def in_flight_def)
  have eq: "retire_fwup s = s\<lparr>rg_up := fw_update_retire r (rg_up s), rg_task := NoTask\<rparr>"
    using Ran p(1) by (simp add: retire_fwup_def code_bytes)
  show ?thesis unfolding eq using inv Ran p
    by (auto simp: fw_inv_def answered_def in_flight_def fw_update_retire_def)
next
  case Faulted
  have "fail_code c \<noteq> FWUP_STATUS_BUSY" for c by (simp add: fail_code_def fwup_code_not_busy)
  then show ?thesis using inv Faulted
    by (auto simp: retire_fwup_def retire_failed_eq fw_inv_def answered_def in_flight_def fw_update_retire_def)
qed (use inv in \<open>simp_all add: retire_fwup_def\<close>)

lemma inv_reset: "fw_inv (fwup_amiga_reset F s) \<lparr>hi_written = 0, hi_job = 0, hi_runs = []\<rparr>"
  by (simp add: fwup_amiga_reset_def reset_fwup_registers_def fw_inv_def answered_def in_flight_def log_ok_def
      fw_update_forget_queued_def FWUP_STATUS_BUSY_def Let_def)

lemma inv_step: "fw_step F sh sh' \<Longrightarrow> fw_inv (fst sh) (snd sh) \<Longrightarrow> fw_inv (fst sh') (snd sh')"
proof (induction rule: fw_step.induct)
  case (write_cmd s h z)
  then show ?case using inv_write_cmd [of s h z] by simp
next
  case (loop_pass s h queued avail shared)
  then show ?case using inv_take [of s h] inv_queue [of "loop_take s" h] by simp
qed (simp_all add: inv_write_len inv_run inv_fault inv_retire inv_reset)

lemma inv_reachable: "fw_reachable F v sh \<Longrightarrow> fw_inv (fst sh) (snd sh)"
proof (induction rule: fw_reachable.induct)
  case start
  show ?case by (simp add: fw_initial_def fw_inv_def answered_def in_flight_def log_ok_def FWUP_STATUS_BUSY_def)
next
  case (step sh sh')
  then show ?case using inv_step by blast
qed

text \<open>
  C20: In every reachable state the status register reads BUSY exactly while a command is
  pending, queued, running or finished but unpublished. When a client that has written a
  command reads anything else, it is the result of the last command written, and that
  command ran exactly once.
\<close>

theorem fw_status_answers_last_command:
  assumes "fw_reachable F v (s, h)"
  shows "(rg_status s = FWUP_STATUS_BUSY \<longleftrightarrow> rg_pending s \<or> rg_task s \<noteq> NoTask \<or> fw_job_done (rg_up s)) \<and>
    sorted_wrt (>) (map fst (hi_runs h)) \<and>
    (rg_status s \<noteq> FWUP_STATUS_BUSY \<and> 0 < hi_written h \<longrightarrow>
      (\<exists>earlier. hi_runs h = (hi_written h, rg_cmd s, rg_status s) # earlier))"
  using inv_reachable [OF assms] by (auto simp: fw_inv_def answered_def in_flight_def log_ok_def)

text \<open>A whole command: ABORT written, queued, run by core 1, retired, published.\<close>

definition aborted :: "ram_vol fwreg" where
  "aborted = loop_take (retire_fwup (core1_run_fwup ram_fs (loop_queue True True ram_fs []
     (loop_take (reg_fwup_cmd 4 (fw_initial ram_start))))))"

lemma aborted_idle: "\<not> rg_pending aborted \<and> rg_task aborted = NoTask \<and> \<not> fw_job_done (rg_up aborted) \<and> rg_cmd aborted = 4"
  by (simp add: aborted_def loop_take_def retire_fwup_def core1_run_fwup_def loop_queue_def reg_fwup_cmd_def fw_initial_def
      stage_pending_def fw_update_run_staged_def fw_update_run_def fw_update_abort_def fw_update_stage_def job_simps)

lemma aborted_reachable: "\<exists>runs. fw_reachable ram_fs ram_start
    (loop_queue True True ram_fs [] aborted, \<lparr>hi_written = 1, hi_job = 1, hi_runs = runs\<rparr>)"
proof -
  let ?s1 = "reg_fwup_cmd 4 (fw_initial ram_start)" and ?h1 = "\<lparr>hi_written = 1, hi_job = 0, hi_runs = []\<rparr>"
  let ?s2 = "loop_queue True True ram_fs [] (loop_take ?s1)" and ?h2 = "\<lparr>hi_written = 1, hi_job = 1, hi_runs = []\<rparr>"
  have "fw_reachable ram_fs ram_start (?s1, ?h1)"
    using fw_reachable.step [OF fw_reachable.start fw_step.write_cmd [where z = 4]] by simp
  from fw_reachable.step [OF this fw_step.loop_pass [where queued = True and avail = True and shared = "[]"]]
  have 2: "fw_reachable ram_fs ram_start (?s2, ?h2)"
    by (simp add: log_loop_def loop_take_def reg_fwup_cmd_def fw_initial_def job_simps)
  have "rg_task ?s2 = Queued" by (simp add: loop_queue_def loop_take_def reg_fwup_cmd_def fw_initial_def job_simps)
  from fw_reachable.step [OF 2 fw_step.core1_run [OF this]]
  obtain runs where 3: "fw_reachable ram_fs ram_start (core1_run_fwup ram_fs ?s2, \<lparr>hi_written = 1, hi_job = 1, hi_runs = runs\<rparr>)" by simp
  have 4: "fw_reachable ram_fs ram_start (retire_fwup (core1_run_fwup ram_fs ?s2), \<lparr>hi_written = 1, hi_job = 1, hi_runs = runs\<rparr>)"
    by (rule fw_reachable.step [OF 3 fw_step.harvest])
  show ?thesis
    using fw_reachable.step [OF 4 fw_step.loop_pass [where queued = True and avail = True and shared = "[]"]]
    unfolding aborted_def [symmetric] by (auto simp: log_loop_def aborted_idle)
qed

lemma fw_status_answers_last_command_witness:
  "\<exists>s h. fw_reachable ram_fs ram_start (s, h) \<and> hi_written h = 1 \<and> rg_status s \<noteq> FWUP_STATUS_BUSY \<and>
     (\<exists>earlier. hi_runs h = (1, 4, rg_status s) # earlier)"
proof -
  obtain runs where r: "fw_reachable ram_fs ram_start
      (loop_queue True True ram_fs [] aborted, \<lparr>hi_written = 1, hi_job = 1, hi_runs = runs\<rparr>)" using aborted_reachable by blast
  have q: "loop_queue True True ram_fs [] aborted = aborted" using aborted_idle by (simp add: loop_queue_def)
  from fw_status_answers_last_command [OF r [unfolded q]]
  have "rg_status aborted \<noteq> FWUP_STATUS_BUSY \<and> (\<exists>earlier. runs = (1, 4, rg_status aborted) # earlier)"
    using aborted_idle by simp
  then show ?thesis using r [unfolded q] by fastforce
qed

end
