(* ===== verification/MmuPage.thy ===== *)
theory MmuPage
  imports Prelude
begin

unbundle bit_operations_syntax

text \<open>
  Page-grain mappings (\<^verbatim>\<open>mmu_page.c\<close>): splitting a 1 MB section of the translation table both
  cores walk, to make one page non-cacheable or the firmware's code read-only. An operation
  is the list of table writes, cache cleans and TLB invalidations it makes, in order, so
  that what a table walk can see in between is part of the model. \<open>mmu_walk\<close> reads the tables
  as the processor does, from the ARMv7 short-descriptor encodings the source lists.
\<close>

section \<open>Tables\<close>

definition MMU_SECTION_COUNT :: u32 where "MMU_SECTION_COUNT = 4096"
definition MMU_PAGE_SIZE :: u32 where "MMU_PAGE_SIZE = 4096"
definition MMU_PAGES_PER_SECTION :: u32 where "MMU_PAGES_PER_SECTION = 256"
definition MMU_L1_TYPE_MASK :: u32 where "MMU_L1_TYPE_MASK = 3"
definition MMU_L1_TYPE_SECTION :: u32 where "MMU_L1_TYPE_SECTION = 2"
definition MMU_L1_TYPE_PAGE_TABLE :: u32 where "MMU_L1_TYPE_PAGE_TABLE = 1"
definition MMU_L1_SUPERSECTION :: u32 where "MMU_L1_SUPERSECTION = 0x40000"
definition MMU_L1_ATTR_MASK :: u32 where "MMU_L1_ATTR_MASK = 0xFFFFF"
definition MMU_SECTION_DDR_WB :: u32 where "MMU_SECTION_DDR_WB = 0x15DE6"
definition MMU_SECTION_NONCACHE :: u32 where "MMU_SECTION_NONCACHE = 0x11DE2"
definition MMU_SECTION_STRONG :: u32 where "MMU_SECTION_STRONG = 0xC02"
definition MMU_PAGE_DDR_WB :: u32 where "MMU_PAGE_DDR_WB = 0x576"
definition MMU_PAGE_DDR_RO_X :: u32 where "MMU_PAGE_DDR_RO_X = 0x756"
definition MMU_PAGE_NONCACHE :: u32 where "MMU_PAGE_NONCACHE = 0x472"
definition MMU_L1_TABLE_BASE_MASK :: u32 where "MMU_L1_TABLE_BASE_MASK = 0xFFFFFC00"
definition MMU_L1_DOMAIN_15 :: u32 where "MMU_L1_DOMAIN_15 = push_bit 5 15"
definition MMU_L1_DOMAIN_TEXT :: u32 where "MMU_L1_DOMAIN_TEXT = push_bit 5 14"
definition MMU_RO_TEXT_SECTIONS :: u32 where "MMU_RO_TEXT_SECTIONS = 4"

text \<open>The tables, with the addresses the linker gave the two arrays of page tables.\<close>

record mmu =
  mm_l1 :: "u32 list"
  mm_page :: "u32 list"
  mm_section :: u32
  mm_ro :: "u32 list list"
  mm_page_base :: u32
  mm_ro_base :: u32

definition ro_base :: "mmu \<Rightarrow> nat \<Rightarrow> u32" where
  "ro_base s t = mm_ro_base s + of_nat (1024 * t)"

datatype mmu_event = WriteL1 u32 u32 | WritePage u32 u32 | WriteRo nat u32 u32 | SetSection u32 | Clean | Sync

fun mmu_apply :: "mmu_event \<Rightarrow> mmu \<Rightarrow> mmu" where
  "mmu_apply (WriteL1 i w) s = s\<lparr>mm_l1 := (mm_l1 s)[unat i := w]\<rparr>"
| "mmu_apply (WritePage i w) s = s\<lparr>mm_page := (mm_page s)[unat i := w]\<rparr>"
| "mmu_apply (WriteRo t i w) s = s\<lparr>mm_ro := (mm_ro s)[t := (mm_ro s ! t)[unat i := w]]\<rparr>"
| "mmu_apply (SetSection n) s = s\<lparr>mm_section := n\<rparr>"
| "mmu_apply Clean s = s"
| "mmu_apply Sync s = s"

definition mmu_run :: "mmu_event list \<Rightarrow> mmu \<Rightarrow> mmu" where
  "mmu_run es s = fold mmu_apply es s"

section \<open>Operations\<close>

definition page_table_descriptor_for :: "u32 \<Rightarrow> u32" where
  "page_table_descriptor_for table = (table AND MMU_L1_TABLE_BASE_MASK) OR MMU_L1_DOMAIN_15 OR MMU_L1_TYPE_PAGE_TABLE"

definition text_page_table_descriptor_for :: "u32 \<Rightarrow> u32" where
  "text_page_table_descriptor_for table = (table AND MMU_L1_TABLE_BASE_MASK) OR MMU_L1_DOMAIN_TEXT OR MMU_L1_TYPE_PAGE_TABLE"

definition page_table_descriptor :: "mmu \<Rightarrow> u32" where
  "page_table_descriptor s = page_table_descriptor_for (mm_page_base s)"

definition fill_page_table :: "u32 \<Rightarrow> mmu_event list" where
  "fill_page_table section = map (\<lambda>i. WritePage (of_nat i)
     (push_bit 20 section OR push_bit 12 (of_nat i) OR MMU_PAGE_DDR_WB)) [0..<unat MMU_PAGES_PER_SECTION]"

definition install_page_table :: "mmu \<Rightarrow> u32 \<Rightarrow> u32 \<Rightarrow> u32 \<Rightarrow> mmu_event list" where
  "install_page_table s section index noncache_page =
     [Clean, WritePage index noncache_page, Clean, WriteL1 section 0, Clean, Sync,
      WriteL1 section (page_table_descriptor s), Clean, SetSection section, Sync, Clean]"

definition replace_page :: "u32 \<Rightarrow> u32 \<Rightarrow> mmu_event list" where
  "replace_page index noncache_page =
     [Clean, WritePage index 0, Clean, Sync, WritePage index noncache_page, Clean, Sync, Clean]"

definition mmu_page_set_noncacheable :: "mmu \<Rightarrow> u32 \<Rightarrow> bool \<times> mmu_event list" where
  "mmu_page_set_noncacheable s page_addr =
     (if page_addr AND (MMU_PAGE_SIZE - 1) \<noteq> 0 \<or> drop_bit 20 page_addr \<ge> MMU_SECTION_COUNT then (False, [])
      else let section = drop_bit 20 page_addr;
               index = drop_bit 12 page_addr AND (MMU_PAGES_PER_SECTION - 1);
               noncache_page = page_addr OR MMU_PAGE_NONCACHE;
               entry = mm_l1 s ! unat section in
        if entry AND MMU_L1_TYPE_MASK = MMU_L1_TYPE_PAGE_TABLE then
          (if section \<noteq> mm_section s \<or> entry \<noteq> page_table_descriptor s then (False, [])
           else if mm_page s ! unat index = noncache_page then (True, [])
           else (True, replace_page index noncache_page))
        else let attr = entry AND MMU_L1_ATTR_MASK in
          if entry AND MMU_L1_TYPE_MASK \<noteq> MMU_L1_TYPE_SECTION \<or> entry AND MMU_L1_SUPERSECTION \<noteq> 0 \<or>
             drop_bit 20 entry \<noteq> section then (False, [])
          else if attr = MMU_SECTION_NONCACHE \<or> attr = MMU_SECTION_STRONG then (True, [])
          else if attr \<noteq> MMU_SECTION_DDR_WB \<or> mm_section s \<noteq> MMU_SECTION_COUNT then (False, [])
          else (True, fill_page_table section @ install_page_table s section index noncache_page))"

definition fill_ro_table :: "nat \<Rightarrow> u32 \<Rightarrow> u32 \<Rightarrow> u32 \<Rightarrow> mmu_event list" where
  "fill_ro_table t section start end =
     map (\<lambda>i. let page = push_bit 20 section OR push_bit 12 (of_nat i);
                  attr = (if start \<le> page \<and> page < end then MMU_PAGE_DDR_RO_X else MMU_PAGE_DDR_WB)
              in WriteRo t (of_nat i) (page OR attr)) [0..<unat MMU_PAGES_PER_SECTION]"

text \<open>The loop over sections, with the table index.\<close>

fun ro_sections :: "u32 \<Rightarrow> u32 \<Rightarrow> nat \<Rightarrow> u32 list \<Rightarrow> mmu \<Rightarrow> bool \<times> mmu_event list" where
  "ro_sections start end t [] s = (True, [])"
| "ro_sections start end t (section # ns) s =
     (let entry = mm_l1 s ! unat section in
      if entry AND MMU_L1_TYPE_MASK \<noteq> MMU_L1_TYPE_SECTION \<or> entry AND MMU_L1_SUPERSECTION \<noteq> 0 \<or>
         drop_bit 20 entry \<noteq> section \<or> entry AND MMU_L1_ATTR_MASK \<noteq> MMU_SECTION_DDR_WB then (False, [])
      else let es = fill_ro_table t section start end @
                 [Clean, WriteL1 section (text_page_table_descriptor_for (ro_base s t)), Clean, Sync]
        in (case ro_sections start end (t + 1) ns (mmu_run es s) of (r, es') \<Rightarrow> (r, es @ es')))"

definition mmu_page_set_readonly_executable :: "mmu \<Rightarrow> u32 \<Rightarrow> u32 \<Rightarrow> bool \<times> mmu_event list" where
  "mmu_page_set_readonly_executable s start end =
     (if start AND (MMU_PAGE_SIZE - 1) \<noteq> 0 \<or> end AND (MMU_PAGE_SIZE - 1) \<noteq> 0 \<or> end \<le> start then (False, [])
      else let first = drop_bit 20 start; final = drop_bit 20 (end - 1) in
        if final \<ge> MMU_SECTION_COUNT \<or> final - first + 1 > MMU_RO_TEXT_SECTIONS then (False, [])
        else ro_sections start end 0 (map of_nat [unat first..<Suc (unat final)]) s)"

text \<open>Every page of the app window, at boot on Zorro III.\<close>

fun map_pages :: "u32 list \<Rightarrow> mmu \<Rightarrow> bool \<times> mmu_event list" where
  "map_pages [] s = (True, [])"
| "map_pages (a # as) s = (case mmu_page_set_noncacheable s a of (r, es) \<Rightarrow>
     if \<not> r then (False, es) else (case map_pages as (mmu_run es s) of (r', es') \<Rightarrow> (r', es @ es')))"

section \<open>The walk\<close>

text \<open>Memory attributes: TEX, C, B, S, the access permissions, execute never.\<close>

type_synonym mmu_attr = "u32 \<times> bool \<times> bool \<times> bool \<times> bool \<times> u32 \<times> bool"

definition section_attr :: "u32 \<Rightarrow> mmu_attr" where
  "section_attr e = (drop_bit 12 e AND 7, bit e 3, bit e 2, bit e 16, bit e 15, drop_bit 10 e AND 3, bit e 4)"

definition page_attr :: "u32 \<Rightarrow> mmu_attr" where
  "page_attr e = (drop_bit 6 e AND 7, bit e 3, bit e 2, bit e 10, bit e 9, drop_bit 4 e AND 3, bit e 0)"

text \<open>The page table at an address.\<close>

definition table_at :: "mmu \<Rightarrow> u32 \<Rightarrow> u32 list option" where
  "table_at s base = (if base = mm_page_base s then Some (mm_page s)
     else map_option (\<lambda>t. mm_ro s ! t) (List.find (\<lambda>t. base = ro_base s t) [0..<unat MMU_RO_TEXT_SECTIONS]))"

text \<open>Where a virtual address goes: the physical address, the domain, the attributes.\<close>

definition mmu_walk :: "mmu \<Rightarrow> u32 \<Rightarrow> (u32 \<times> u32 \<times> mmu_attr) option" where
  "mmu_walk s va =
     (let e = mm_l1 s ! unat (drop_bit 20 va) in
      if e AND 3 = 2 \<and> e AND MMU_L1_SUPERSECTION = 0 then
        Some ((e AND 0xFFF00000) OR (va AND 0xFFFFF), drop_bit 5 e AND 15, section_attr e)
      else if e AND 3 = 1 then
        (case table_at s (e AND MMU_L1_TABLE_BASE_MASK) of None \<Rightarrow> None
         | Some table \<Rightarrow> let p = table ! unat (drop_bit 12 va AND 255) in
             if bit p 1 then Some ((p AND 0xFFFFF000) OR (va AND 0xFFF), drop_bit 5 e AND 15, page_attr p) else None)
      else None)"

end
