(* ===== verification/MmuSafety.thy ===== *)
theory MmuSafety
  imports MmuPage
begin

unbundle bit_operations_syntax

text \<open>
  What the page mappings promise, read off the table walk: an operation that reports success
  changed the mapping of the pages it was asked for and of nothing else, one that refuses
  changed nothing, and splitting a section is break-before-make at every write.
\<close>

section \<open>Masks and entries\<close>

lemma mask_forms:
  "(0xFFF :: u32) = mask 12" "(0xFFFFF :: u32) = mask 20" "(255 :: u32) = mask 8" "(3 :: u32) = mask 2"
  "(7 :: u32) = mask 3" "(15 :: u32) = mask 4"
  "(0xFFFFF000 :: u32) = NOT (mask 12)" "(0xFFF00000 :: u32) = NOT (mask 20)" "(0xFFFFFC00 :: u32) = NOT (mask 10)"
  by (simp_all add: mask_numeral)

text \<open>Addresses whose low \<open>n\<close> bits are clear, and what a descriptor adds to them.\<close>

definition low :: "nat \<Rightarrow> u32 \<Rightarrow> bool" where "low n a \<longleftrightarrow> a AND mask n = 0"

lemma low_bit: "low n a \<Longrightarrow> i < n \<Longrightarrow> \<not> bit a i"
proof
  assume z: "low n a" and i: "i < n" and b: "bit a i"
  have "bit (a AND mask n) i" using i b bit_imp_le_length [OF b] by (simp add: bit_and_iff bit_mask_iff)
  then show False using z by (simp add: low_def)
qed

lemma low_field: "low n a \<Longrightarrow> k + m \<le> n \<Longrightarrow> drop_bit k (a OR w) AND mask m = drop_bit k w AND mask m"
proof (rule bit_word_eqI)
  fix i assume "low n a" "k + m \<le> n" "i < LENGTH(32)"
  then show "bit (drop_bit k (a OR w) AND mask m) i = bit (drop_bit k w AND mask m) i"
    using low_bit [of n a "k + i"] by (auto simp: bit_simps)
qed

lemma low_field0: "low n a \<Longrightarrow> m \<le> n \<Longrightarrow> (a OR w) AND mask m = w AND mask m"
  using low_field [of n a 0 m w] by simp

lemma low_base: "low n a \<Longrightarrow> w AND NOT (mask n) = 0 \<Longrightarrow> (a OR w) AND NOT (mask n) = a"
proof (rule bit_word_eqI)
  fix i assume l: "low n a" and w: "w AND NOT (mask n) = 0" and i: "i < LENGTH(32)"
  have "\<not> bit w i" if "n \<le> i"
  proof -
    have "\<not> bit (w AND NOT (mask n)) i" using w by simp
    then show ?thesis using that i by (simp add: bit_simps)
  qed
  then show "bit ((a OR w) AND NOT (mask n)) i = bit a i" using i low_bit [OF l, of i] by (auto simp: bit_simps)
qed

lemma low_or_bit: "low n a \<Longrightarrow> i < n \<Longrightarrow> bit (a OR w) i = bit w i"
  using low_bit by (simp add: bit_or_iff)

lemma low_clear [simp]: "low n (va AND NOT (mask n))"
  unfolding low_def by (rule bit_word_eqI) (simp add: bit_simps)

lemma entry_attr:
  assumes "low 12 a"
  shows "page_attr (a OR w) = page_attr w" "bit (a OR w) 1 = bit w 1"
  using low_field [OF assms, of 6 3 w] low_field [OF assms, of 4 2 w] low_or_bit [OF assms]
  by (simp_all add: page_attr_def mask_forms)

lemma page_plus_offset: "((va :: u32) AND NOT (mask 12)) OR (va AND mask 12) = va"
  by (rule bit_word_eqI) (auto simp: bit_simps)

lemma page_parts: "push_bit 20 (drop_bit 20 va) OR push_bit 12 (drop_bit 12 va AND mask 8) = (va :: u32) AND NOT (mask 12)"
proof (rule bit_word_eqI)
  fix n assume "n < LENGTH(32)"
  then show "bit (push_bit 20 (drop_bit 20 va) OR push_bit 12 (drop_bit 12 va AND mask 8)) n = bit (va AND NOT (mask 12)) n"
    by (cases "20 \<le> n") (auto simp: bit_simps)
qed

lemma page_fields:
  "drop_bit 20 ((va :: u32) AND NOT (mask 12)) = drop_bit 20 va"
  "drop_bit 12 (va AND NOT (mask 12)) AND mask 8 = drop_bit 12 va AND mask 8"
proof -
  show "drop_bit 20 ((va :: u32) AND NOT (mask 12)) = drop_bit 20 va"
  proof (rule bit_word_eqI)
    fix n show "bit (drop_bit 20 (va AND NOT (mask 12))) n = bit (drop_bit 20 va) n"
      using bit_imp_le_length [of va "20 + n"] by (auto simp: bit_simps)
  qed
  show "drop_bit 12 (va AND NOT (mask 12)) AND mask 8 = drop_bit 12 va AND mask 8"
  proof (rule bit_word_eqI)
    fix n show "bit (drop_bit 12 (va AND NOT (mask 12)) AND mask 8) n = bit (drop_bit 12 va AND mask 8) n"
      using bit_imp_le_length [of va "12 + n"] by (auto simp: bit_and_iff bit_drop_bit_eq bit_not_iff bit_mask_iff)
  qed
qed

text \<open>An address is in the page at \<open>a\<close> when section and index agree.\<close>

lemma same_page_iff:
  assumes "low 12 a"
  shows "(va AND NOT (mask 12)) = a \<longleftrightarrow> drop_bit 20 va = drop_bit 20 a \<and> drop_bit 12 va AND mask 8 = drop_bit 12 a AND mask 8"
proof -
  have a: "a AND NOT (mask 12) = a" using low_base [OF assms, of 0] by simp
  show ?thesis using page_parts [of va] page_parts [of a] a page_fields [of va] by metis
qed

lemma section_lt: "unat (drop_bit 20 (va :: u32)) < 4096"
proof -
  have "unat (drop_bit 20 va) = unat va div 2 ^ 20" unfolding unat_drop_bit_eq by (simp add: drop_bit_eq_div)
  then show ?thesis using unat_lt32 [of va] by (simp add: less_mult_imp_div_less)
qed

lemma index_lt: "unat (drop_bit 12 (va :: u32) AND mask 8) < 256"
  using unat_and_le [of "drop_bit 12 va" "mask 8 :: u32"] by (simp add: mask_numeral)

section \<open>Well-formed tables\<close>

definition mmu_page_value :: "u32 \<Rightarrow> u32 \<Rightarrow> u32 \<Rightarrow> bool" where
  "mmu_page_value section i w \<longleftrightarrow>
     w = push_bit 20 section OR push_bit 12 i OR MMU_PAGE_DDR_WB \<or> w = push_bit 20 section OR push_bit 12 i OR MMU_PAGE_NONCACHE"

definition mmu_ok :: "mmu \<Rightarrow> bool" where
  "mmu_ok s \<longleftrightarrow> length (mm_l1 s) = 4096 \<and> length (mm_page s) = 256 \<and> mm_page_base s AND mask 10 = 0 \<and>
     (\<forall>n. n < 4096 \<and> n \<noteq> unat (mm_section s) \<longrightarrow> \<not> (mm_l1 s ! n AND 3 = 1 \<and> mm_l1 s ! n AND MMU_L1_TABLE_BASE_MASK = mm_page_base s)) \<and>
     (mm_section s = MMU_SECTION_COUNT \<or> mm_section s < MMU_SECTION_COUNT \<and> mm_l1 s ! unat (mm_section s) = page_table_descriptor s \<and>
       (\<forall>i < 256. mmu_page_value (mm_section s) (of_nat i) (mm_page s ! i)))"

lemma of_nat_unat32: "of_nat (unat (w :: u32)) = w"
  by simp

lemma descriptor_fields:
  assumes "mm_page_base s AND mask 10 = 0"
  shows "page_table_descriptor s AND 3 = 1" "page_table_descriptor s AND MMU_L1_TABLE_BASE_MASK = mm_page_base s"
    "drop_bit 5 (page_table_descriptor s) AND 15 = 15"
proof -
  have l: "low 10 (mm_page_base s)" using assms by (simp add: low_def)
  have d: "page_table_descriptor s = mm_page_base s OR 0x1E1"
    using low_base [OF l, of 0] by (simp add: page_table_descriptor_def page_table_descriptor_for_def MMU_L1_TABLE_BASE_MASK_def
        MMU_L1_DOMAIN_15_def MMU_L1_TYPE_PAGE_TABLE_def mask_forms(9) or.assoc)
  show "page_table_descriptor s AND 3 = 1" using low_field0 [OF l, of 2 "0x1E1"] unfolding d mask_forms by (simp add: mask_numeral)
  show "page_table_descriptor s AND MMU_L1_TABLE_BASE_MASK = mm_page_base s"
    unfolding d MMU_L1_TABLE_BASE_MASK_def mask_forms by (rule low_base [OF l]) (simp add: mask_numeral)
  show "drop_bit 5 (page_table_descriptor s) AND 15 = 15"
    using low_field [OF l, of 5 4 "0x1E1"] unfolding d mask_forms by (simp add: mask_numeral)
qed

section \<open>Running the events\<close>

lemma mmu_run_append [simp]: "mmu_run (es @ es') s = mmu_run es' (mmu_run es s)"
  by (simp add: mmu_run_def)

lemma mmu_run_simps [simp]: "mmu_run [] s = s" "mmu_run (e # es) s = mmu_run es (mmu_apply e s)"
  by (simp_all add: mmu_run_def)

lemma fold_update_upt:
  "n \<le> length xs \<Longrightarrow> fold (\<lambda>i xs. xs[i := f i]) [0..<n] xs = map f [0..<n] @ drop n xs"
proof (induction n)
  case (Suc n)
  then show ?case by (simp add: list_update_append Cons_nth_drop_Suc [symmetric])
qed simp

lemma fold_page_writes:
  assumes "\<forall>i \<in> set is. i < 4294967296"
  shows "fold mmu_apply (map (\<lambda>i. WritePage (of_nat i) (f i)) is) s = s\<lparr>mm_page := fold (\<lambda>i xs. xs[i := f i]) is (mm_page s)\<rparr>"
  using assms by (induction "is" arbitrary: s) (simp_all add: unat_of_nat)

definition split_page :: "u32 \<Rightarrow> nat \<Rightarrow> u32" where
  "split_page section i = push_bit 20 section OR push_bit 12 (of_nat i) OR MMU_PAGE_DDR_WB"

lemma run_fill:
  assumes "length (mm_page s) = 256"
  shows "mmu_run (fill_page_table section) s = s\<lparr>mm_page := map (split_page section) [0..<256]\<rparr>"
  using fold_page_writes [of "[0..<256]" "split_page section" s] fold_update_upt [of 256 "mm_page s" "split_page section"] assms
  by (simp add: mmu_run_def fill_page_table_def MMU_PAGES_PER_SECTION_def split_page_def)

section \<open>Reading the tables\<close>

definition section_entry :: "u32 \<Rightarrow> bool" where
  "section_entry e \<longleftrightarrow> e AND 3 = 2 \<and> e AND MMU_L1_SUPERSECTION = 0"

lemma walk_section:
  "section_entry (mm_l1 s ! unat (drop_bit 20 va)) \<Longrightarrow> mmu_walk s va =
    Some ((mm_l1 s ! unat (drop_bit 20 va) AND NOT (mask 20)) OR (va AND mask 20),
      drop_bit 5 (mm_l1 s ! unat (drop_bit 20 va)) AND 15, section_attr (mm_l1 s ! unat (drop_bit 20 va)))"
  unfolding mmu_walk_def section_entry_def Let_def mask_forms(2,8) by simp

definition page_walk :: "u32 \<Rightarrow> u32 \<Rightarrow> u32 \<Rightarrow> (u32 \<times> u32 \<times> mmu_attr) option" where
  "page_walk dm p va = (if bit p 1 then Some ((p AND NOT (mask 12)) OR (va AND mask 12), dm, page_attr p) else None)"

lemma walk_split:
  assumes "mm_page_base s AND mask 10 = 0" "mm_l1 s ! unat (drop_bit 20 va) = page_table_descriptor s"
  shows "mmu_walk s va = page_walk 15 (mm_page s ! unat (drop_bit 12 va AND mask 8)) va"
  using descriptor_fields [OF assms(1)] assms(2)
  unfolding mmu_walk_def Let_def mask_forms(1,3,7) page_walk_def by (simp add: table_at_def)

lemma walk_zero: "mm_l1 s ! unat (drop_bit 20 va) = 0 \<Longrightarrow> mmu_walk s va = None"
  by (simp add: mmu_walk_def)

text \<open>A walk that does not reach the split table depends on its own entry only.\<close>

lemma walk_cong:
  assumes "mm_l1 s' ! unat (drop_bit 20 va) = mm_l1 s ! unat (drop_bit 20 va)" "mm_ro s' = mm_ro s"
    "mm_page_base s' = mm_page_base s" "mm_ro_base s' = mm_ro_base s"
    "\<not> (mm_l1 s ! unat (drop_bit 20 va) AND 3 = 1 \<and> mm_l1 s ! unat (drop_bit 20 va) AND MMU_L1_TABLE_BASE_MASK = mm_page_base s)"
  shows "mmu_walk s' va = mmu_walk s va"
proof -
  have "table_at s' b = table_at s b" if "b \<noteq> mm_page_base s" for b
    using that assms(2-4) by (simp add: table_at_def ro_base_def)
  then show ?thesis using assms(5) unfolding mmu_walk_def Let_def assms(1) by simp
qed

lemma page_low: "low 12 (push_bit 20 s OR push_bit 12 i)"
  unfolding low_def by (rule bit_word_eqI) (auto simp: bit_simps)

text \<open>A page entry of the identity mapping takes its addresses to themselves.\<close>

lemma page_identity:
  assumes "drop_bit 20 va = section" "drop_bit 12 va AND mask 8 = i" "w AND NOT (mask 12) = 0" "bit w 1"
  shows "page_walk dm (push_bit 20 section OR push_bit 12 i OR w) va = Some (va, dm, page_attr w)"
proof -
  have eq: "push_bit 20 section OR push_bit 12 i OR w = (va AND NOT (mask 12)) OR w"
    using page_parts [of va] assms(1,2) by (simp flip: or.assoc)
  show ?thesis
    unfolding eq using low_base [OF low_clear assms(3), of va] entry_attr [OF low_clear, of va w] assms(4) page_plus_offset [of va]
    by (simp add: page_walk_def)
qed

lemma page_words:
  "MMU_PAGE_DDR_WB AND NOT (mask 12) = 0" "MMU_PAGE_NONCACHE AND NOT (mask 12) = 0" "MMU_PAGE_DDR_RO_X AND NOT (mask 12) = 0"
  "bit MMU_PAGE_DDR_WB 1" "bit MMU_PAGE_NONCACHE 1" "bit MMU_PAGE_DDR_RO_X 1"
  by code_simp+

text \<open>So does a section entry that maps its own section.\<close>

lemma section_identity:
  assumes "drop_bit 20 (e :: u32) = drop_bit 20 va"
  shows "(e AND NOT (mask 20)) OR (va AND mask 20) = va"
proof (rule bit_word_eqI)
  fix n assume n: "n < LENGTH(32)"
  have "bit e n = bit va n" if "20 \<le> n"
  proof -
    have "bit (drop_bit 20 e) (n - 20) = bit (drop_bit 20 va) (n - 20)" using assms by simp
    then show ?thesis using that by (simp add: bit_drop_bit_eq)
  qed
  then show "bit ((e AND NOT (mask 20)) OR (va AND mask 20)) n = bit va n" using n by (auto simp: bit_simps)
qed

section \<open>Making a page non-cacheable\<close>

text \<open>Memory that is never cached: strongly ordered, or Normal without a cache policy.\<close>

definition uncached :: "mmu_attr \<Rightarrow> bool" where
  "uncached at \<longleftrightarrow> (case at of (tex, c, b, _) \<Rightarrow> tex \<in> {0, 1} \<and> \<not> c \<and> \<not> b)"

definition uncached_at :: "mmu \<Rightarrow> u32 \<Rightarrow> bool" where
  "uncached_at s va \<longleftrightarrow> (\<exists>dm at. mmu_walk s va = Some (va, dm, at) \<and> uncached at)"

lemma page_attrs:
  "uncached (page_attr MMU_PAGE_NONCACHE)" "page_attr MMU_PAGE_DDR_WB = section_attr MMU_SECTION_DDR_WB"
  "uncached (section_attr MMU_SECTION_NONCACHE)" "uncached (section_attr MMU_SECTION_STRONG)"
  by code_simp+

text \<open>The attributes of a section entry are in its low 20 bits.\<close>

lemma section_fields:
  "section_attr e = section_attr (e AND MMU_L1_ATTR_MASK)" "drop_bit 5 e AND 15 = drop_bit 5 (e AND MMU_L1_ATTR_MASK) AND 15"
proof -
  have *: "drop_bit k e AND mask m = drop_bit k (e AND mask 20) AND mask m" if "k + m \<le> 20" for k m
    by (rule bit_word_eqI) (use that in \<open>auto simp: bit_simps\<close>)
  show "section_attr e = section_attr (e AND MMU_L1_ATTR_MASK)"
    unfolding section_attr_def MMU_L1_ATTR_MASK_def mask_forms
    using * [of 12 3] * [of 10 2] by (simp add: bit_and_iff bit_mask_iff)
  show "drop_bit 5 e AND 15 = drop_bit 5 (e AND MMU_L1_ATTR_MASK) AND 15"
    unfolding MMU_L1_ATTR_MASK_def mask_forms using * [of 5 4] by simp
qed

lemma walk_own_section:
  assumes "section_entry e" "drop_bit 20 e = drop_bit 20 va" "mm_l1 s ! unat (drop_bit 20 va) = e"
  shows "mmu_walk s va = Some (va, drop_bit 5 (e AND MMU_L1_ATTR_MASK) AND 15, section_attr (e AND MMU_L1_ATTR_MASK))"
  using walk_section [of s va] assms section_identity [OF assms(2)] section_fields [of e] by simp

text \<open>What a section becomes when its page table is installed.\<close>

definition noncache_split :: "u32 \<Rightarrow> u32 \<Rightarrow> u32 list" where
  "noncache_split section index = (map (split_page section) [0..<256])
     [unat index := push_bit 20 section OR push_bit 12 index OR MMU_PAGE_NONCACHE]"

lemma run_install:
  assumes "length (mm_page s) = 256"
    "noncache_page = push_bit 20 section OR push_bit 12 index OR MMU_PAGE_NONCACHE"
  shows "mmu_run (fill_page_table section @ install_page_table s section index noncache_page) s =
    s\<lparr>mm_page := noncache_split section index, mm_l1 := (mm_l1 s)[unat section := page_table_descriptor s], mm_section := section\<rparr>"
  using run_fill [OF assms(1), of "section"] assms(2) by (simp add: install_page_table_def noncache_split_def)

lemma run_replace:
  "mmu_run (replace_page index noncache_page) s = s\<lparr>mm_page := (mm_page s)[unat index := noncache_page]\<rparr>"
  by (simp add: replace_page_def)

lemma page_addr_entry:
  assumes "page_addr AND (MMU_PAGE_SIZE - 1) = 0"
  shows "low 12 page_addr" "page_addr OR w = push_bit 20 (drop_bit 20 page_addr) OR push_bit 12 (drop_bit 12 page_addr AND mask 8) OR w"
proof -
  show l: "low 12 page_addr" using assms by (simp add: low_def MMU_PAGE_SIZE_def mask_forms(1) [symmetric])
  show "page_addr OR w = push_bit 20 (drop_bit 20 page_addr) OR push_bit 12 (drop_bit 12 page_addr AND mask 8) OR w"
    using page_parts [of page_addr] low_base [OF l, of 0] by (simp flip: or.assoc)
qed

abbreviation sec_of :: "u32 \<Rightarrow> u32" where "sec_of va \<equiv> drop_bit 20 va"
abbreviation idx_of :: "u32 \<Rightarrow> u32" where "idx_of va \<equiv> drop_bit 12 va AND mask 8"

definition noncache_word :: "u32 \<Rightarrow> u32" where
  "noncache_word a = push_bit 20 (sec_of a) OR push_bit 12 (idx_of a) OR MMU_PAGE_NONCACHE"

lemma noncacheable_cases:
  assumes "mmu_page_set_noncacheable s a = (r, es)"
  obtains (refuse) "\<not> r" "es = []"
    | (split) "low 12 a" r "es = [] \<and> mm_page s ! unat (idx_of a) = noncache_word a \<or>
        es = replace_page (idx_of a) (noncache_word a)" "sec_of a = mm_section s" "mm_l1 s ! unat (sec_of a) = page_table_descriptor s"
    | (whole) "low 12 a" r "es = []" "section_entry (mm_l1 s ! unat (sec_of a))" "drop_bit 20 (mm_l1 s ! unat (sec_of a)) = sec_of a"
        "mm_l1 s ! unat (sec_of a) AND MMU_L1_ATTR_MASK \<in> {MMU_SECTION_NONCACHE, MMU_SECTION_STRONG}"
    | (install) "low 12 a" r "es = fill_page_table (sec_of a) @ install_page_table s (sec_of a) (idx_of a) (noncache_word a)"
        "section_entry (mm_l1 s ! unat (sec_of a))" "drop_bit 20 (mm_l1 s ! unat (sec_of a)) = sec_of a"
        "mm_l1 s ! unat (sec_of a) AND MMU_L1_ATTR_MASK = MMU_SECTION_DDR_WB" "mm_section s = MMU_SECTION_COUNT"
proof (cases "a AND (MMU_PAGE_SIZE - 1) \<noteq> 0 \<or> sec_of a \<ge> MMU_SECTION_COUNT")
  case True
  then show ?thesis using assms refuse by (simp add: mmu_page_set_noncacheable_def)
next
  case False
  then have a: "low 12 a" "a OR MMU_PAGE_NONCACHE = noncache_word a"
    using page_addr_entry [of a] by (simp_all add: noncache_word_def)
  have i: "drop_bit 12 a AND (MMU_PAGES_PER_SECTION - 1) = idx_of a"
    by (simp add: MMU_PAGES_PER_SECTION_def mask_forms(3) [symmetric])
  let ?e = "mm_l1 s ! unat (sec_of a)"
  note def = assms [unfolded mmu_page_set_noncacheable_def Let_def i a(2) MMU_L1_TYPE_MASK_def MMU_L1_TYPE_PAGE_TABLE_def MMU_L1_TYPE_SECTION_def]
  show ?thesis
  proof (cases "?e AND 3 = 1")
    case True
    then show ?thesis using def False refuse split a(1) by (auto split: if_splits)
  next
    case nt: False
    then consider "?e AND 3 \<noteq> 2 \<or> ?e AND MMU_L1_SUPERSECTION \<noteq> 0 \<or> drop_bit 20 ?e \<noteq> sec_of a"
      | "section_entry ?e" "drop_bit 20 ?e = sec_of a" by (auto simp: section_entry_def)
    then show ?thesis
    proof cases
      case 1
      then show ?thesis using def False nt refuse by auto
    next
      case 2
      then show ?thesis using def False nt refuse whole install a(1) by (auto simp: section_entry_def split: if_splits)
    qed
  qed
qed

lemma walk_split_page:
  assumes "mm_page_base s AND mask 10 = 0" "mm_l1 s ! unat (sec_of va) = page_table_descriptor s"
    "mm_page s ! unat (idx_of va) = push_bit 20 (sec_of va) OR push_bit 12 (idx_of va) OR w"
    "w AND NOT (mask 12) = 0" "bit w 1"
  shows "mmu_walk s va = Some (va, 15, page_attr w)"
  using walk_split [OF assms(1,2)] page_identity [OF refl refl assms(4,5), where va = va and dm = 15]
  unfolding assms(3) by simp

lemma split_page_at: "unat i < 256 \<Longrightarrow> split_page section (unat i) = push_bit 20 section OR push_bit 12 i OR MMU_PAGE_DDR_WB"
  by (simp add: split_page_def)

lemma noncache_split_at:
  assumes "unat i < 256" "unat j < 256"
  shows "noncache_split section i ! unat j = push_bit 20 section OR push_bit 12 j OR
    (if j = i then MMU_PAGE_NONCACHE else MMU_PAGE_DDR_WB)"
proof (cases "j = i")
  case True
  then show ?thesis using assms by (simp add: noncache_split_def)
next
  case False
  then have "unat i \<noteq> unat j" by (simp add: word_unat_eq_iff)
  then show ?thesis using assms False by (simp add: noncache_split_def split_page_at)
qed

lemma replace_step:
  assumes ok: "mmu_ok s" and a: "low 12 a" and sec: "sec_of a = mm_section s"
    and e: "mm_l1 s ! unat (sec_of a) = page_table_descriptor s"
    and s': "s' = s\<lparr>mm_page := (mm_page s)[unat (idx_of a) := noncache_word a]\<rparr>"
  shows "mmu_ok s' \<and> (va AND NOT (mask 12) = a \<longrightarrow> uncached_at s' va) \<and>
    (va AND NOT (mask 12) \<noteq> a \<longrightarrow> mmu_walk s' va = mmu_walk s va)"
proof -
  have base: "mm_page_base s AND mask 10 = 0" and len: "length (mm_page s) = 256" using ok by (simp_all add: mmu_ok_def)
  have d: "page_table_descriptor s' = page_table_descriptor s" by (simp add: s' page_table_descriptor_def)
  have ms: "mm_section s \<noteq> MMU_SECTION_COUNT" using sec section_lt [of a] by (auto simp: MMU_SECTION_COUNT_def)
  have "mmu_page_value (mm_section s) (of_nat i) (mm_page s' ! i)" if "i < 256" for i
  proof (cases "i = unat (idx_of a)")
    case True
    then show ?thesis using index_lt [of a] len sec by (simp add: s' mmu_page_value_def noncache_word_def)
  next
    case False
    then show ?thesis using ok ms that by (auto simp: s' mmu_ok_def)
  qed
  then have "mmu_ok s'" using ok ms d unfolding mmu_ok_def by (simp add: s')
  moreover have "uncached_at s' va" if "va AND NOT (mask 12) = a"
  proof -
    have va: "sec_of va = sec_of a" "idx_of va = idx_of a" using that same_page_iff [OF a, of va] by simp_all
    have "mmu_walk s' va = Some (va, 15, page_attr MMU_PAGE_NONCACHE)"
      by (rule walk_split_page) (use va e d base len index_lt [of a] page_words in \<open>simp_all add: s' noncache_word_def\<close>)
    then show ?thesis using page_attrs(1) by (simp add: uncached_at_def)
  qed
  moreover have "mmu_walk s' va = mmu_walk s va" if "va AND NOT (mask 12) \<noteq> a"
  proof (cases "sec_of va = sec_of a")
    case True
    then have "idx_of va \<noteq> idx_of a" using that same_page_iff [OF a, of va] by blast
    then have "unat (idx_of a) \<noteq> unat (idx_of va)" by (metis word_unat_eq_iff)
    then have "mm_page s' ! unat (idx_of va) = mm_page s ! unat (idx_of va)" by (simp add: s')
    then show ?thesis using walk_split [of s va] walk_split [of s' va] True e d base by (simp add: s')
  next
    case False
    then have "unat (sec_of va) \<noteq> unat (mm_section s)" using sec by (metis word_unat_eq_iff)
    then show ?thesis using ok section_lt [of va] by (intro walk_cong) (auto simp: s' mmu_ok_def)
  qed
  ultimately show ?thesis by blast
qed

lemma install_step:
  assumes ok: "mmu_ok s" and a: "low 12 a" and e: "section_entry (mm_l1 s ! unat (sec_of a))"
      "drop_bit 20 (mm_l1 s ! unat (sec_of a)) = sec_of a" "mm_l1 s ! unat (sec_of a) AND MMU_L1_ATTR_MASK = MMU_SECTION_DDR_WB"
      "mm_section s = MMU_SECTION_COUNT"
    and s': "s' = s\<lparr>mm_page := noncache_split (sec_of a) (idx_of a),
      mm_l1 := (mm_l1 s)[unat (sec_of a) := page_table_descriptor s], mm_section := sec_of a\<rparr>"
  shows "mmu_ok s' \<and> (va AND NOT (mask 12) = a \<longrightarrow> uncached_at s' va) \<and>
    (va AND NOT (mask 12) \<noteq> a \<longrightarrow> mmu_walk s' va = mmu_walk s va)"
proof -
  have base: "mm_page_base s AND mask 10 = 0" and len: "length (mm_l1 s) = 4096" using ok by (simp_all add: mmu_ok_def)
  have d: "page_table_descriptor s' = page_table_descriptor s" by (simp add: s' page_table_descriptor_def)
  have l1: "mm_l1 s' ! unat (sec_of a) = page_table_descriptor s'" using section_lt [of a] len d by (simp add: s')
  have none: "\<not> (mm_l1 s ! n AND 3 = 1 \<and> mm_l1 s ! n AND MMU_L1_TABLE_BASE_MASK = mm_page_base s)" if "n < 4096" for n
    using ok that e(4) unfolding mmu_ok_def by (auto simp: MMU_SECTION_COUNT_def)
  have pg: "mm_page s' ! unat (idx_of va) = push_bit 20 (sec_of a) OR push_bit 12 (idx_of va) OR
      (if idx_of va = idx_of a then MMU_PAGE_NONCACHE else MMU_PAGE_DDR_WB)" for va
    using noncache_split_at [OF index_lt [of a] index_lt [of va], of "sec_of a"] by (simp add: s')
  have "mmu_page_value (sec_of a) (of_nat i) (mm_page s' ! i)" if "i < 256" for i
    using noncache_split_at [OF index_lt [of a], of "of_nat i" "sec_of a"] that
    by (auto simp: s' mmu_page_value_def unat_of_nat split: if_splits)
  then have ok': "mmu_ok s'"
    using ok none d l1 section_lt [of a] unfolding mmu_ok_def
    by (auto simp: s' noncache_split_def MMU_SECTION_COUNT_def word_less_nat_alt nth_list_update)
  have "uncached_at s' va" if "va AND NOT (mask 12) = a"
  proof -
    have va: "sec_of va = sec_of a" "idx_of va = idx_of a" using that same_page_iff [OF a, of va] by simp_all
    have "mmu_walk s' va = Some (va, 15, page_attr MMU_PAGE_NONCACHE)"
      by (rule walk_split_page) (use va base l1 pg [of va] page_words in \<open>simp_all add: s'\<close>)
    then show ?thesis using page_attrs(1) by (simp add: uncached_at_def)
  qed
  moreover have "mmu_walk s' va = mmu_walk s va" if "va AND NOT (mask 12) \<noteq> a"
  proof (cases "sec_of va = sec_of a")
    case True
    then have "idx_of va \<noteq> idx_of a" using that same_page_iff [OF a, of va] by blast
    then have "mmu_walk s' va = Some (va, 15, page_attr MMU_PAGE_DDR_WB)"
      by (intro walk_split_page) (use True base l1 pg [of va] page_words in \<open>simp_all add: s'\<close>)
    moreover have "drop_bit 5 MMU_SECTION_DDR_WB AND 15 = 15" by code_simp
    ultimately show ?thesis using walk_own_section [OF e(1), of va s] e(2,3) True page_attrs(2) by simp
  next
    case False
    then have "unat (sec_of a) \<noteq> unat (sec_of va)" by (metis word_unat_eq_iff)
    then show ?thesis using none [OF section_lt [of va]] by (intro walk_cong) (simp_all add: s')
  qed
  ultimately show ?thesis using ok' by blast
qed

text \<open>The step: the page is uncached, every other address maps as before.\<close>

lemma noncacheable_step:
  assumes ok: "mmu_ok s" and op: "mmu_page_set_noncacheable s a = (True, es)"
  shows "mmu_ok (mmu_run es s)" "va AND NOT (mask 12) = a \<Longrightarrow> uncached_at (mmu_run es s) va"
    "va AND NOT (mask 12) \<noteq> a \<Longrightarrow> mmu_walk (mmu_run es s) va = mmu_walk s va"
proof -
  have len: "length (mm_l1 s) = 4096" "length (mm_page s) = 256" "mm_page_base s AND mask 10 = 0" using ok by (simp_all add: mmu_ok_def)
  have Q: "mmu_ok (mmu_run es s) \<and> (va AND NOT (mask 12) = a \<longrightarrow> uncached_at (mmu_run es s) va) \<and>
    (va AND NOT (mask 12) \<noteq> a \<longrightarrow> mmu_walk (mmu_run es s) va = mmu_walk s va)"
    using op
  proof (cases rule: noncacheable_cases)
    case whole
    have "uncached_at s va" if "va AND NOT (mask 12) = a"
    proof -
      have "sec_of va = sec_of a" using that same_page_iff [OF whole(1), of va] by simp
      then show ?thesis
        using walk_own_section [OF whole(4), of va s] whole(5,6) page_attrs(3,4) unfolding uncached_at_def by auto
    qed
    then show ?thesis using ok whole(3) by simp
  next
    case split
    have "(mm_page s)[unat (idx_of a) := noncache_word a] = mm_page s" if "mm_page s ! unat (idx_of a) = noncache_word a"
      using that list_update_id by metis
    then have run: "mmu_run es s = s\<lparr>mm_page := (mm_page s)[unat (idx_of a) := noncache_word a]\<rparr>"
      using split(3) run_replace by auto
    show ?thesis by (rule replace_step [OF ok split(1,4,5) run])
  next
    case install
    show ?thesis by (rule install_step [OF ok install(1,4-7)]) (simp only: install(3) run_install [OF len(2) noncache_word_def])
  qed auto
  show "mmu_ok (mmu_run es s)" "va AND NOT (mask 12) = a \<Longrightarrow> uncached_at (mmu_run es s) va"
    "va AND NOT (mask 12) \<noteq> a \<Longrightarrow> mmu_walk (mmu_run es s) va = mmu_walk s va" using Q by blast+
qed

section \<open>Break before make\<close>

text \<open>
  Between two TLB invalidations a TLB may hold any translation the tables gave in between.
  The architecture forbids two of them for one address that differ, or that come from
  entries of different size.
\<close>

definition compatible :: "mmu \<Rightarrow> mmu \<Rightarrow> bool" where
  "compatible q s \<longleftrightarrow> (\<forall>va. mmu_walk q va \<noteq> None \<and> mmu_walk s va \<noteq> None \<longrightarrow>
     mmu_walk q va = mmu_walk s va \<and> mm_l1 q ! unat (sec_of va) AND 3 = mm_l1 s ! unat (sec_of va) AND 3)"

fun tlb_safe :: "mmu set \<Rightarrow> mmu \<Rightarrow> mmu_event list \<Rightarrow> bool" where
  "tlb_safe seen s [] \<longleftrightarrow> True"
| "tlb_safe seen s (e # es) \<longleftrightarrow> (if e = Sync then tlb_safe {s} s es
     else (\<forall>q \<in> seen. compatible q (mmu_apply e s)) \<and> tlb_safe (insert (mmu_apply e s) seen) (mmu_apply e s) es)"

text \<open>Tables that differ in the unused page table walk alike.\<close>

definition same_but_pages :: "mmu \<Rightarrow> mmu \<Rightarrow> bool" where
  "same_but_pages q s \<longleftrightarrow> (\<exists>pg. q = s\<lparr>mm_page := pg\<rparr>)"

definition page_table_unused :: "mmu \<Rightarrow> bool" where
  "page_table_unused s \<longleftrightarrow> (\<forall>n < 4096. \<not> (mm_l1 s ! n AND 3 = 1 \<and> mm_l1 s ! n AND MMU_L1_TABLE_BASE_MASK = mm_page_base s))"

lemma unused_walk:
  assumes "page_table_unused s" "same_but_pages q s"
  shows "mmu_walk q va = mmu_walk s va" "mm_l1 q = mm_l1 s"
proof -
  obtain pg where q: "q = s\<lparr>mm_page := pg\<rparr>" using assms(2) by (auto simp: same_but_pages_def)
  show "mmu_walk q va = mmu_walk s va"
    using assms(1) section_lt [of va] by (intro walk_cong) (auto simp: q page_table_unused_def)
  show "mm_l1 q = mm_l1 s" by (simp add: q)
qed

lemma unused_compatible:
  "page_table_unused s \<Longrightarrow> same_but_pages q s \<Longrightarrow> same_but_pages q' s \<Longrightarrow> compatible q q'"
  by (auto simp: compatible_def unused_walk)

lemma same_but_pages_trans: "same_but_pages q s \<Longrightarrow> same_but_pages s r \<Longrightarrow> same_but_pages q r"
  by (auto simp: same_but_pages_def)

fun page_only :: "mmu_event \<Rightarrow> bool" where
  "page_only (WritePage i w) = True" | "page_only Clean = True" | "page_only _ = False"

lemma page_only_same: "page_only e \<Longrightarrow> same_but_pages (mmu_apply e s) s"
  by (cases e) (auto simp: same_but_pages_def intro: exI [of _ "mm_page s"])

lemma tlb_safe_pages:
  assumes un: "page_table_unused r"
  shows "same_but_pages s r \<Longrightarrow> seen \<subseteq> {q. same_but_pages q r} \<Longrightarrow> \<forall>e \<in> set es. page_only e \<Longrightarrow>
    (\<And>seen'. seen' \<subseteq> {q. same_but_pages q r} \<Longrightarrow> tlb_safe seen' (mmu_run es s) rest) \<Longrightarrow> tlb_safe seen s (es @ rest)"
proof (induction es arbitrary: s seen)
  case (Cons e es)
  let ?s = "mmu_apply e s"
  have e: "page_only e" "e \<noteq> Sync" using Cons.prems(3) by auto
  have s: "same_but_pages ?s r" using same_but_pages_trans [OF page_only_same [OF e(1)] Cons.prems(1)] .
  have "\<forall>q \<in> seen. compatible q ?s" using Cons.prems(2) unused_compatible [OF un _ s] by blast
  moreover have "tlb_safe (insert ?s seen) ?s (es @ rest)"
    using Cons.IH [OF s] Cons.prems(2-4) s by simp
  ultimately show ?case using e(2) by simp
qed simp

lemma compatible_if_none:
  assumes "\<And>va. mmu_walk q va \<noteq> None \<Longrightarrow> mmu_walk s va \<noteq> None \<Longrightarrow>
    mmu_walk q va = mmu_walk s va \<and> mm_l1 q ! unat (sec_of va) = mm_l1 s ! unat (sec_of va)"
  shows "compatible q s"
  unfolding compatible_def using assms by simp

lemma compatible_refl [simp]: "compatible s s"
  by (simp add: compatible_def)

lemma compatible_sym: "compatible q s \<Longrightarrow> compatible s q"
  unfolding compatible_def by metis

text \<open>One page entry is cleared, invalidated and written again.\<close>

lemma page_cleared:
  assumes ok: "mmu_ok s" and a: "low 12 a" and sec: "sec_of a = mm_section s"
    and e: "mm_l1 s ! unat (sec_of a) = page_table_descriptor s"
  shows "compatible (s\<lparr>mm_page := (mm_page s)[unat (idx_of a) := 0]\<rparr>) (s\<lparr>mm_page := (mm_page s)[unat (idx_of a) := w]\<rparr>)"
proof (rule compatible_if_none)
  let ?q = "s\<lparr>mm_page := (mm_page s)[unat (idx_of a) := 0]\<rparr>" and ?s = "s\<lparr>mm_page := (mm_page s)[unat (idx_of a) := w]\<rparr>"
  fix va assume q: "mmu_walk ?q va \<noteq> None"
  have base: "mm_page_base s AND mask 10 = 0" and len: "length (mm_page s) = 256" using ok by (simp_all add: mmu_ok_def)
  have d: "page_table_descriptor (s\<lparr>mm_page := pg\<rparr>) = page_table_descriptor s" for pg by (simp add: page_table_descriptor_def)
  show "mmu_walk ?q va = mmu_walk ?s va \<and> mm_l1 ?q ! unat (sec_of va) = mm_l1 ?s ! unat (sec_of va)"
  proof (cases "sec_of va = sec_of a")
    case True
    have w: "mmu_walk (s\<lparr>mm_page := pg\<rparr>) va = page_walk 15 (pg ! unat (idx_of va)) va" for pg
      using walk_split [of "s\<lparr>mm_page := pg\<rparr>" va] base e True d by simp
    have "unat (idx_of va) \<noteq> unat (idx_of a)"
      using q w index_lt [of a] len by (auto simp: page_walk_def)
    then show ?thesis using w by simp
  next
    case False
    then have "unat (sec_of va) \<noteq> unat (mm_section s)" using sec by (metis word_unat_eq_iff)
    then have "mmu_walk (s\<lparr>mm_page := pg\<rparr>) va = mmu_walk s va" for pg
      using ok section_lt [of va] by (intro walk_cong) (auto simp: mmu_ok_def)
    then show ?thesis by simp
  qed
qed

lemma replace_safe:
  assumes "mmu_ok s" "low 12 a" "sec_of a = mm_section s" "mm_l1 s ! unat (sec_of a) = page_table_descriptor s"
  shows "tlb_safe {s} s (replace_page (idx_of a) w)"
proof -
  note c = page_cleared [OF assms]
  have "compatible s (s\<lparr>mm_page := (mm_page s)[unat (idx_of a) := 0]\<rparr>)"
    using compatible_sym [OF c [of "mm_page s ! unat (idx_of a)"]] by (simp add: list_update_id)
  then show ?thesis using c [of w] by (simp add: replace_page_def)
qed

text \<open>A section is filled while unused, cleared, invalidated and installed.\<close>

lemma section_cleared:
  assumes len: "length (mm_l1 s) = 4096" and un: "page_table_unused s" and q: "same_but_pages q s"
    and s': "s' = s\<lparr>mm_page := pg, mm_l1 := (mm_l1 s)[unat sec := 0]\<rparr>"
  shows "compatible q s'"
proof (rule compatible_if_none)
  fix va assume w: "mmu_walk s' va \<noteq> None"
  have ne: "unat sec \<noteq> unat (sec_of va)"
  proof
    assume "unat sec = unat (sec_of va)"
    then have "mm_l1 s' ! unat (sec_of va) = 0" using len section_lt [of va] by (simp add: s')
    then show False using w walk_zero by simp
  qed
  have "mmu_walk s' va = mmu_walk s va"
    using ne un section_lt [of va] by (intro walk_cong) (auto simp: s' page_table_unused_def)
  then show "mmu_walk q va = mmu_walk s' va \<and> mm_l1 q ! unat (sec_of va) = mm_l1 s' ! unat (sec_of va)"
    using unused_walk [OF un q] ne by (simp add: s')
qed

lemma section_installed:
  assumes len: "length (mm_l1 s) = 4096" and un: "page_table_unused s"
    and q: "q = s\<lparr>mm_page := pg, mm_l1 := (mm_l1 s)[unat sec := 0]\<rparr>"
    and s': "s' = s\<lparr>mm_page := pg, mm_l1 := (mm_l1 s)[unat sec := w], mm_section := n\<rparr>"
  shows "compatible q s'"
proof (rule compatible_if_none)
  fix va assume w: "mmu_walk q va \<noteq> None"
  have ne: "unat sec \<noteq> unat (sec_of va)"
  proof
    assume "unat sec = unat (sec_of va)"
    then have "mm_l1 q ! unat (sec_of va) = 0" using len section_lt [of va] by (simp add: q)
    then show False using w walk_zero by simp
  qed
  have "mmu_walk q va = mmu_walk s va" "mmu_walk s' va = mmu_walk s va"
    using ne un section_lt [of va] by (auto intro!: walk_cong simp: q s' page_table_unused_def)
  then show "mmu_walk q va = mmu_walk s' va \<and> mm_l1 q ! unat (sec_of va) = mm_l1 s' ! unat (sec_of va)"
    using ne by (simp add: q s')
qed

lemma set_section_walk: "mmu_walk (s\<lparr>mm_section := n\<rparr>) va = mmu_walk s va"
proof -
  have "table_at (s\<lparr>mm_section := n\<rparr>) = table_at s" by (rule ext) (simp add: table_at_def ro_base_def)
  moreover have "mm_l1 (s\<lparr>mm_section := n\<rparr>) = mm_l1 s" by simp
  ultimately show ?thesis unfolding mmu_walk_def Let_def by (simp only:)
qed

lemma install_safe:
  assumes ok: "mmu_ok s" and ms: "mm_section s = MMU_SECTION_COUNT"
  shows "tlb_safe {s} s (fill_page_table section @ install_page_table s section index w)"
proof -
  have len: "length (mm_l1 s) = 4096" using ok by (simp add: mmu_ok_def)
  have un: "page_table_unused s" using ok ms by (auto simp: mmu_ok_def page_table_unused_def MMU_SECTION_COUNT_def)
  have refl: "same_but_pages s s" unfolding same_but_pages_def by (rule exI [of _ "mm_page s"]) simp
  let ?es = "fill_page_table section @ [Clean, WritePage index w, Clean]"
  let ?rest = "[WriteL1 section 0, Clean, Sync, WriteL1 section (page_table_descriptor s), Clean, SetSection section, Sync, Clean]"
  have rest: "tlb_safe seen s1 ?rest" if s1: "same_but_pages s1 s" and seen: "seen \<subseteq> {q. same_but_pages q s}" for s1 seen
  proof -
    obtain pg where pg: "s1 = s\<lparr>mm_page := pg\<rparr>" using s1 by (auto simp: same_but_pages_def)
    let ?q = "s\<lparr>mm_page := pg, mm_l1 := (mm_l1 s)[unat section := 0]\<rparr>"
    let ?i = "?q\<lparr>mm_l1 := (mm_l1 s)[unat section := page_table_descriptor s]\<rparr>"
    have c1: "compatible q ?q" if "q \<in> seen" for q by (rule section_cleared [OF len un]) (use seen that in auto)
    have c2: "compatible ?q ?i"
      by (rule section_installed [OF len un, where pg = pg and sec = "section" and w = "page_table_descriptor s" and n = "mm_section s"]) simp_all
    have c3: "compatible r ?i \<Longrightarrow> compatible r (?i\<lparr>mm_section := section\<rparr>)" for r
      unfolding compatible_def set_section_walk by simp
    have c4: "compatible ?i (?i\<lparr>mm_section := section\<rparr>)" unfolding compatible_def set_section_walk by simp
    show ?thesis using c1 c2 c3 [OF c2] c4 pg by simp
  qed
  have "\<forall>e \<in> set ?es. page_only e" by (auto simp: fill_page_table_def)
  then have "tlb_safe {s} s (?es @ ?rest)"
  proof (rule tlb_safe_pages [OF un refl, rotated])
    show "{s} \<subseteq> {q. same_but_pages q s}" using refl by simp
    have "mmu_run ?es s = s\<lparr>mm_page := (map (split_page section) [0..<256])[unat index := w]\<rparr>"
      using run_fill [of s "section"] ok by (simp add: mmu_ok_def)
    then have "same_but_pages (mmu_run ?es s) s" unfolding same_but_pages_def by blast
    then show "tlb_safe seen' (mmu_run ?es s) ?rest" if "seen' \<subseteq> {q. same_but_pages q s}" for seen' using rest that by blast
  qed
  then show ?thesis by (simp add: install_page_table_def)
qed

text \<open>
  C21: A page made non-cacheable with success is mapped to itself and not cached, and every
  other address of the 4 GB keeps its physical address, domain and attributes, also when its
  section is split for it. A refusal writes nothing.
\<close>

theorem mmu_noncacheable_exact:
  assumes "mmu_ok s" "mmu_page_set_noncacheable s a = (r, es)"
  shows "if r then mmu_ok (mmu_run es s) \<and>
      (\<forall>va. if va AND 0xFFFFF000 = a then uncached_at (mmu_run es s) va else mmu_walk (mmu_run es s) va = mmu_walk s va)
    else es = []"
proof (cases r)
  case True
  then have op: "mmu_page_set_noncacheable s a = (True, es)" using assms(2) by simp
  note st = noncacheable_step [OF assms(1) op]
  show ?thesis unfolding mask_forms(7) using True st by auto
next
  case False
  with assms(2) show ?thesis by (cases rule: noncacheable_cases) auto
qed

text \<open>
  C22: Every write of that operation is break-before-make: between two TLB invalidations no
  address has two translations that differ, or that come from a section and from a page.
\<close>

theorem mmu_break_before_make:
  assumes "mmu_ok s" "mmu_page_set_noncacheable s a = (r, es)"
  shows "tlb_safe {s} s es"
  using assms(2)
proof (cases rule: noncacheable_cases)
  case split
  then show ?thesis using replace_safe [OF assms(1) split(1,4,5)] by auto
next
  case install
  then show ?thesis using install_safe [OF assms(1) install(7)] by simp
qed simp_all

section \<open>Read-only code\<close>

definition text_page :: "u32 \<Rightarrow> u32 \<Rightarrow> u32 \<Rightarrow> nat \<Rightarrow> u32" where
  "text_page start end sec i = (let page = push_bit 20 sec OR push_bit 12 (of_nat i) in
     page OR (if start \<le> page \<and> page < end then MMU_PAGE_DDR_RO_X else MMU_PAGE_DDR_WB))"

lemma fold_ro_writes:
  assumes "\<forall>i \<in> set is. i < 4294967296" "t < length (mm_ro s)"
  shows "fold mmu_apply (map (\<lambda>i. WriteRo t (of_nat i) (f i)) is) s =
    s\<lparr>mm_ro := (mm_ro s)[t := fold (\<lambda>i xs. xs[i := f i]) is (mm_ro s ! t)]\<rparr>"
  using assms by (induction "is" arbitrary: s) (simp_all add: unat_of_nat)

lemma run_fill_ro:
  assumes "t < length (mm_ro s)" "length (mm_ro s ! t) = 256"
  shows "mmu_run (fill_ro_table t sec start end) s = s\<lparr>mm_ro := (mm_ro s)[t := map (text_page start end sec) [0..<256]]\<rparr>"
  using fold_ro_writes [of "[0..<256]" t s "text_page start end sec"] fold_update_upt [of 256 "mm_ro s ! t" "text_page start end sec"] assms
  by (simp add: mmu_run_def fill_ro_table_def MMU_PAGES_PER_SECTION_def text_page_def Let_def)

text \<open>The text tables are apart, and none from \<open>t\<close> on is in use.\<close>

definition ro_ready :: "nat \<Rightarrow> mmu \<Rightarrow> bool" where
  "ro_ready t s \<longleftrightarrow> length (mm_l1 s) = 4096 \<and> length (mm_ro s) = 4 \<and> (\<forall>k < 4. length (mm_ro s ! k) = 256) \<and>
     mm_ro_base s AND mask 10 = 0 \<and> (\<forall>k < 4. ro_base s k \<noteq> mm_page_base s) \<and>
     (\<forall>n < 4096. \<forall>k < 4. t \<le> k \<longrightarrow> \<not> (mm_l1 s ! n AND 3 = 1 \<and> mm_l1 s ! n AND MMU_L1_TABLE_BASE_MASK = ro_base s k))"

lemma ro_base_inj: "j < 4 \<Longrightarrow> k < 4 \<Longrightarrow> ro_base s j = ro_base s k \<Longrightarrow> j = k"
proof -
  assume j: "j < 4" and k: "k < 4" and eq: "ro_base s j = ro_base s k"
  then have "(of_nat (1024 * j) :: u32) = of_nat (1024 * k)" unfolding ro_base_def by simp
  then have "unat (of_nat (1024 * j) :: u32) = unat (of_nat (1024 * k) :: u32)" by simp
  then show "j = k" using j k by (simp only: unat_of_nat) simp
qed

lemma ro_base_low:
  assumes "mm_ro_base s AND mask 10 = 0"
  shows "low 10 (ro_base s k)"
proof -
  have "unat (mm_ro_base s) mod 1024 = 0" using assms unat_and_mask [of "mm_ro_base s" 10] by simp
  moreover have "unat (ro_base s k) mod 1024 = (unat (mm_ro_base s) mod 1024 + 1024 * k mod 1024) mod 1024"
    by (simp add: ro_base_def unat_word_ariths unat_of_nat mod_mod_cancel mod_add_eq mod_add_right_eq)
  ultimately have "unat (ro_base s k AND mask 10) = 0" using unat_and_mask [of "ro_base s k" 10] by simp
  then show ?thesis unfolding low_def by (simp add: unat_eq_0)
qed

lemma text_descriptor_fields:
  assumes "low 10 b"
  shows "text_page_table_descriptor_for b AND 3 = 1" "text_page_table_descriptor_for b AND MMU_L1_TABLE_BASE_MASK = b"
    "drop_bit 5 (text_page_table_descriptor_for b) AND 15 = 14"
proof -
  have d: "text_page_table_descriptor_for b = b OR 0x1C1"
    using low_base [OF assms, of 0] by (simp add: text_page_table_descriptor_for_def MMU_L1_TABLE_BASE_MASK_def
        MMU_L1_DOMAIN_TEXT_def MMU_L1_TYPE_PAGE_TABLE_def mask_forms(9) or.assoc)
  show "text_page_table_descriptor_for b AND 3 = 1"
    using low_field0 [OF assms, of 2 "0x1C1"] unfolding d mask_forms by (simp add: mask_numeral)
  show "text_page_table_descriptor_for b AND MMU_L1_TABLE_BASE_MASK = b"
    unfolding d MMU_L1_TABLE_BASE_MASK_def mask_forms by (rule low_base [OF assms]) (simp add: mask_numeral)
  show "drop_bit 5 (text_page_table_descriptor_for b) AND 15 = 14"
    using low_field [OF assms, of 5 4 "0x1C1"] unfolding d mask_forms by (simp add: mask_numeral)
qed

lemma table_at_ro:
  assumes "ro_ready t s" "k < 4"
  shows "table_at s (ro_base s k) = Some (mm_ro s ! k)"
proof -
  have u: "unat MMU_RO_TEXT_SECTIONS = 4" by (simp add: MMU_RO_TEXT_SECTIONS_def)
  have "List.find (\<lambda>j. ro_base s k = ro_base s j) [0..<4] = Some k"
  proof (cases "List.find (\<lambda>j. ro_base s k = ro_base s j) [0..<4]")
    case None
    then show ?thesis using assms(2) by (auto simp: find_None_iff)
  next
    case (Some j)
    then show ?thesis using find_SomeD [OF Some] ro_base_inj [OF assms(2), of j s] by auto
  qed
  then show ?thesis using assms u by (simp add: table_at_def ro_ready_def)
qed

text \<open>Where a page of code goes afterwards.\<close>

definition text_view :: "u32 \<Rightarrow> u32 \<Rightarrow> u32 \<Rightarrow> u32 \<times> u32 \<times> mmu_attr" where
  "text_view start end va = (va, 14, page_attr (if start \<le> (va AND NOT (mask 12)) \<and> (va AND NOT (mask 12)) < end
     then MMU_PAGE_DDR_RO_X else MMU_PAGE_DDR_WB))"

definition text_section :: "mmu \<Rightarrow> nat \<Rightarrow> u32 \<Rightarrow> u32 \<Rightarrow> u32 \<Rightarrow> mmu" where
  "text_section s t sec start end = s\<lparr>mm_ro := (mm_ro s)[t := map (text_page start end sec) [0..<256]],
     mm_l1 := (mm_l1 s)[unat sec := text_page_table_descriptor_for (ro_base s t)]\<rparr>"

lemma text_section_walk:
  assumes rd: "ro_ready t s" and t: "t < 4" and va: "sec_of va = sec"
  shows "mmu_walk (text_section s t sec start end) va = Some (text_view start end va)"
proof -
  let ?s = "text_section s t sec start end"
  have l: "length (mm_l1 s) = 4096" "length (mm_ro s) = 4" "low 10 (ro_base s t)" and pb: "ro_base s t \<noteq> mm_page_base s"
    using rd ro_base_low t by (auto simp: ro_ready_def)
  have b: "ro_base ?s k = ro_base s k" "mm_page_base ?s = mm_page_base s" for k by (simp_all add: text_section_def ro_base_def)
  have e: "mm_l1 ?s ! unat (sec_of va) = text_page_table_descriptor_for (ro_base s t)"
    using l(1) section_lt [of va] va by (simp add: text_section_def)
  have u: "unat MMU_RO_TEXT_SECTIONS = 4" by (simp add: MMU_RO_TEXT_SECTIONS_def)
  have tab: "table_at ?s (ro_base s t) = Some (map (text_page start end sec) [0..<256])"
  proof -
    have "List.find (\<lambda>j. ro_base s t = ro_base s j) [0..<4] = Some t"
      using table_at_ro [OF rd t] find_SomeD ro_base_inj [OF t, of _ s] pb
      by (cases "List.find (\<lambda>j. ro_base s t = ro_base s j) [0..<4]") (auto simp: table_at_def u find_None_iff dest!: find_SomeD)
    then show ?thesis using pb l(2) t u b by (simp add: table_at_def) (simp add: text_section_def)
  qed
  have p: "map (text_page start end sec) [0..<256] ! unat (idx_of va) = text_page start end sec (unat (idx_of va))"
    using index_lt [of va] by simp
  have pg: "push_bit 20 sec OR push_bit 12 (idx_of va) = va AND NOT (mask 12)" using page_parts [of va] va by simp
  let ?w = "if start \<le> (va AND NOT (mask 12)) \<and> (va AND NOT (mask 12)) < end then MMU_PAGE_DDR_RO_X else MMU_PAGE_DDR_WB"
  have tp: "text_page start end sec (unat (idx_of va)) = (va AND NOT (mask 12)) OR ?w"
    unfolding text_page_def Let_def of_nat_unat32 by (simp only: pg)
  have w: "?w AND NOT (mask 12) = 0" "bit ?w 1" using page_words by auto
  have "page_walk 14 ((va AND NOT (mask 12)) OR ?w) va = Some (va, 14, page_attr ?w)"
    using low_base [OF low_clear w(1), of va] entry_attr [OF low_clear, of va ?w] w(2) page_plus_offset [of va]
    by (simp only: page_walk_def if_True)
  moreover have "mmu_walk ?s va = page_walk 14 (text_page start end sec (unat (idx_of va))) va"
    unfolding mmu_walk_def Let_def e text_descriptor_fields [OF l(3)] tab mask_forms(1,3,7) page_walk_def
    by (simp only: p option.case) simp
  ultimately show ?thesis unfolding text_view_def tp by simp
qed

lemma text_section_other:
  assumes rd: "ro_ready t s" and t: "t < 4" and va: "sec_of va \<noteq> sec"
  shows "mmu_walk (text_section s t sec start end) va = mmu_walk s va"
proof -
  let ?s = "text_section s t sec start end" and ?e = "mm_l1 s ! unat (sec_of va)"
  have e: "mm_l1 ?s ! unat (sec_of va) = ?e" using va by (simp add: text_section_def word_unat_eq_iff)
  have ne: "\<not> (?e AND 3 = 1 \<and> ?e AND MMU_L1_TABLE_BASE_MASK = ro_base s t)"
    using rd t section_lt [of va] by (auto simp: ro_ready_def)
  have "table_at ?s b = table_at s b" if "b \<noteq> ro_base s t" for b
  proof -
    have r: "ro_base ?s k = ro_base s k" "mm_page_base ?s = mm_page_base s" "mm_page ?s = mm_page s" for k
      by (simp_all add: text_section_def ro_base_def)
    have "mm_ro ?s ! k = mm_ro s ! k" if "List.find (\<lambda>j. b = ro_base s j) [0..<unat MMU_RO_TEXT_SECTIONS] = Some k" for k
    proof -
      have "k \<noteq> t" using find_SomeD [OF that] \<open>b \<noteq> ro_base s t\<close> by auto
      then show ?thesis by (simp add: text_section_def)
    qed
    then show ?thesis unfolding table_at_def r
      by (cases "List.find (\<lambda>j. b = ro_base s j) [0..<unat MMU_RO_TEXT_SECTIONS]") auto
  qed
  then show ?thesis using ne unfolding mmu_walk_def Let_def e by simp
qed

lemma text_section_ready:
  assumes rd: "ro_ready t s" and t: "t < 4"
  shows "ro_ready (t + 1) (text_section s t sec start end)"
proof -
  let ?s = "text_section s t sec start end"
  have b: "ro_base ?s k = ro_base s k" for k by (simp add: text_section_def ro_base_def)
  have l: "low 10 (ro_base s t)" using rd by (intro ro_base_low) (simp add: ro_ready_def)
  have d: "text_page_table_descriptor_for (ro_base s t) AND MMU_L1_TABLE_BASE_MASK \<noteq> ro_base s k" if "k < 4" "t + 1 \<le> k" for k
    using text_descriptor_fields(2) [OF l] ro_base_inj [OF t that(1), of s] that(2) by auto
  have "\<not> (mm_l1 ?s ! n AND 3 = 1 \<and> mm_l1 ?s ! n AND MMU_L1_TABLE_BASE_MASK = ro_base s k)"
    if "n < 4096" "k < 4" "t + 1 \<le> k" for n k
  proof (cases "n = unat sec")
    case True
    then show ?thesis using d [OF that(2,3)] rd that(1) by (simp add: text_section_def ro_ready_def)
  next
    case False
    then show ?thesis using rd that by (simp add: text_section_def ro_ready_def)
  qed
  then show ?thesis using rd t unfolding ro_ready_def b
    by (auto simp: text_section_def nth_list_update)
qed

text \<open>The loop: a prefix of the sections is done, all of them on success.\<close>

definition plain_section :: "mmu \<Rightarrow> u32 \<Rightarrow> bool" where
  "plain_section s sec \<longleftrightarrow> (\<forall>va. sec_of va = sec \<longrightarrow> mmu_walk s va = Some (va, 15, page_attr MMU_PAGE_DDR_WB))"

definition text_done :: "mmu \<Rightarrow> u32 set \<Rightarrow> u32 \<Rightarrow> u32 \<Rightarrow> mmu \<Rightarrow> bool" where
  "text_done s D start end s' \<longleftrightarrow> (\<forall>sec \<in> D. plain_section s sec) \<and>
     (\<forall>va. mmu_walk s' va = (if sec_of va \<in> D then Some (text_view start end va) else mmu_walk s va))"

lemma ro_sections_done:
  assumes "ro_ready t s" "t + length ns \<le> 4" "distinct ns" "ro_sections start end t ns s = (r, es)"
  shows "\<exists>D \<subseteq> set ns. (r \<longrightarrow> D = set ns) \<and> text_done s D start end (mmu_run es s)"
  using assms
proof (induction ns arbitrary: t s r es)
  case Nil
  then show ?case by (simp add: text_done_def)
next
  case (Cons sec ns)
  let ?e = "mm_l1 s ! unat sec"
  show ?case
  proof (cases "section_entry ?e \<and> drop_bit 20 ?e = sec \<and> ?e AND MMU_L1_ATTR_MASK = MMU_SECTION_DDR_WB")
    case False
    then have "r = False" "es = []" using Cons.prems(4)
      by (auto simp: section_entry_def Let_def MMU_L1_TYPE_MASK_def MMU_L1_TYPE_SECTION_def split: if_splits prod.splits)
    then show ?thesis by (intro exI [of _ "{}"]) (simp add: text_done_def)
  next
    case True
    let ?s = "text_section s t sec start end"
    let ?es = "fill_ro_table t sec start end @ [Clean, WriteL1 sec (text_page_table_descriptor_for (ro_base s t)), Clean, Sync]"
    have t4: "t < 4" using Cons.prems(2) by simp
    have run: "mmu_run ?es s = ?s"
      using run_fill_ro [of t s sec start "end"] Cons.prems(1) t4 by (simp add: ro_ready_def text_section_def)
    obtain es' where es': "ro_sections start end (t + 1) ns ?s = (r, es')" "es = ?es @ es'"
      using Cons.prems(4) True run
      by (auto simp: section_entry_def Let_def MMU_L1_TYPE_MASK_def MMU_L1_TYPE_SECTION_def split: prod.splits)
    have "ro_ready (t + 1) ?s" by (rule text_section_ready [OF Cons.prems(1) t4])
    from Cons.IH [OF this _ _ es'(1)] obtain D where D: "D \<subseteq> set ns" "r \<longrightarrow> D = set ns"
        "text_done ?s D start end (mmu_run es' ?s)" using Cons.prems(2,3) by auto
    have nin: "sec \<notin> D" using D(1) Cons.prems(3) by auto
    have other: "mmu_walk ?s va = mmu_walk s va" if "sec_of va \<noteq> sec" for va
      by (rule text_section_other [OF Cons.prems(1) t4 that])
    have own: "plain_section s sec"
      unfolding plain_section_def
    proof (intro allI impI)
      fix va :: u32 assume va: "sec_of va = sec"
      have "drop_bit 5 MMU_SECTION_DDR_WB AND 15 = 15" by code_simp
      then show "mmu_walk s va = Some (va, 15, page_attr MMU_PAGE_DDR_WB)"
        using walk_own_section [of ?e va s] True va page_attrs(2) by simp
    qed
    have run2: "mmu_run es s = mmu_run es' ?s" using es'(2) run by simp
    have pl: "\<forall>x \<in> insert sec D. plain_section s x"
    proof
      fix x assume x: "x \<in> insert sec D"
      show "plain_section s x"
      proof (cases "x = sec")
        case False
        then have "plain_section ?s x" using D(3) x by (simp add: text_done_def)
        then show ?thesis using other False by (auto simp: plain_section_def)
      qed (simp add: own)
    qed
    have "mmu_walk (mmu_run es s) va = (if sec_of va \<in> insert sec D then Some (text_view start end va) else mmu_walk s va)" for va
      using D(3) nin text_section_walk [OF Cons.prems(1) t4, of va sec start "end"] other [of va]
      unfolding run2 text_done_def by (cases "sec_of va = sec") auto
    then have "text_done s (insert sec D) start end (mmu_run es s)" using pl by (simp add: text_done_def)
    then show ?thesis using D(1,2) by (intro exI [of _ "insert sec D"]) auto
  qed
qed

lemma unat_sec: "unat (sec_of va) = unat (va :: u32) div 1048576"
  unfolding unat_drop_bit_eq by (simp add: drop_bit_eq_div)

lemma sec_of_mono: "a \<le> b \<Longrightarrow> unat (sec_of a) \<le> unat (sec_of b)"
  unfolding unat_sec by (simp add: div_le_mono word_le_nat_alt)

definition text_sections :: "u32 \<Rightarrow> u32 \<Rightarrow> u32 list" where
  "text_sections start end = map of_nat [unat (sec_of start)..<Suc (unat (sec_of (end - 1)))]"

lemma text_sections_distinct: "distinct (text_sections start end)"
proof -
  have "inj_on (of_nat :: nat \<Rightarrow> u32) {unat (sec_of start)..<Suc (unat (sec_of (end - 1)))}"
  proof (rule inj_onI)
    fix i j assume "i \<in> {unat (sec_of start)..<Suc (unat (sec_of (end - 1)))}" "j \<in> {unat (sec_of start)..<Suc (unat (sec_of (end - 1)))}"
      and eq: "(of_nat i :: u32) = of_nat j"
    then have "i < 4096" "j < 4096" using section_lt [of "end - 1"] by auto
    moreover have "unat (of_nat i :: u32) = unat (of_nat j :: u32)" using eq by simp
    ultimately show "i = j" by (simp add: unat_of_nat)
  qed
  then show ?thesis by (simp add: text_sections_def distinct_map del: upt_Suc)
qed

lemma text_sections_length:
  assumes "start < end" "sec_of (end - 1) - sec_of start + 1 \<le> 4"
  shows "length (text_sections start end) \<le> 4"
proof -
  have "start \<le> end - 1" using assms(1) by (simp add: word_le_nat_alt word_less_nat_alt unat_minus_one unat_sub_if_size)
  then have le: "unat (sec_of start) \<le> unat (sec_of (end - 1))" by (rule sec_of_mono)
  then have "unat (sec_of (end - 1) - sec_of start) = unat (sec_of (end - 1)) - unat (sec_of start)"
    by (simp add: unat_minus_no_wrap)
  moreover have "unat (sec_of (end - 1) - sec_of start + 1) = unat (sec_of (end - 1) - sec_of start) + 1"
    using calculation section_lt [of "end - 1"] by (simp add: unat_plus_no_wrap)
  ultimately show ?thesis using assms(2) by (simp add: text_sections_def word_le_nat_alt)
qed

lemma text_sections_cover:
  assumes "start \<le> (va AND NOT (mask 12))" "(va AND NOT (mask 12)) < end"
  shows "sec_of va \<in> set (text_sections start end)"
proof -
  let ?p = "va AND NOT (mask 12)"
  have "?p \<le> end - 1" using assms(2) by (simp add: word_le_nat_alt word_less_nat_alt unat_minus_one unat_sub_if_size)
  then have "unat (sec_of ?p) \<le> unat (sec_of (end - 1))" "unat (sec_of start) \<le> unat (sec_of ?p)"
    using sec_of_mono assms(1) by blast+
  then show ?thesis unfolding text_sections_def page_fields(1) set_map set_upt
    by (intro image_eqI [where x = "unat (sec_of va)"]) auto
qed

text \<open>
  C23: When the firmware's code is made read-only with success, every page of the range is
  mapped to itself, privileged read-only and executable, in the client domain; outside the
  range every address keeps its physical address and attributes, and changes at most to that
  domain. A call that gives up half-way leaves each page in one of the two states.
\<close>

theorem mmu_text_exact:
  assumes "ro_ready 0 s" "mmu_page_set_readonly_executable s start end = (r, es)"
  shows "if start \<le> (va AND 0xFFFFF000) \<and> (va AND 0xFFFFF000) < end
    then mmu_walk (mmu_run es s) va = Some (va, 14, page_attr MMU_PAGE_DDR_RO_X) \<or>
      \<not> r \<and> mmu_walk (mmu_run es s) va = mmu_walk s va
    else mmu_walk (mmu_run es s) va = mmu_walk s va \<or>
      mmu_walk s va = Some (va, 15, section_attr MMU_SECTION_DDR_WB) \<and>
      mmu_walk (mmu_run es s) va = Some (va, 14, section_attr MMU_SECTION_DDR_WB)"
proof (cases "start AND (MMU_PAGE_SIZE - 1) \<noteq> 0 \<or> end AND (MMU_PAGE_SIZE - 1) \<noteq> 0 \<or> end \<le> start \<or>
    sec_of (end - 1) \<ge> MMU_SECTION_COUNT \<or> sec_of (end - 1) - sec_of start + 1 > MMU_RO_TEXT_SECTIONS")
  case True
  then have "r = False" "es = []" using assms(2) by (auto simp: mmu_page_set_readonly_executable_def Let_def split: if_splits)
  then show ?thesis by simp
next
  case False
  then have op: "ro_sections start end 0 (text_sections start end) s = (r, es)"
    using assms(2) by (simp add: mmu_page_set_readonly_executable_def text_sections_def Let_def del: upt_Suc)
  have "start < end" "sec_of (end - 1) - sec_of start + 1 \<le> 4"
    using False unfolding MMU_RO_TEXT_SECTIONS_def de_Morgan_disj not_le not_less by blast+
  then have "0 + length (text_sections start end) \<le> 4" using text_sections_length by simp
  from ro_sections_done [OF assms(1) this text_sections_distinct op]
  obtain D where D: "r \<longrightarrow> D = set (text_sections start end)" "text_done s D start end (mmu_run es s)" by blast
  have cov: "start \<le> (va AND NOT (mask 12)) \<Longrightarrow> (va AND NOT (mask 12)) < end \<Longrightarrow> r \<Longrightarrow> sec_of va \<in> D"
    using text_sections_cover D(1) by blast
  have w: "mmu_walk (mmu_run es s) va = (if sec_of va \<in> D then Some (text_view start end va) else mmu_walk s va)"
    using D(2) by (simp add: text_done_def)
  have pl: "sec_of va \<in> D \<Longrightarrow> mmu_walk s va = Some (va, 15, section_attr MMU_SECTION_DDR_WB)"
    using D(2) page_attrs(2) by (auto simp: text_done_def plain_section_def)
  show ?thesis unfolding mask_forms(7) using cov w pl page_attrs(2) by (auto simp: text_view_def)
qed

lemma uncached_at_cong: "mmu_walk s' va = mmu_walk s va \<Longrightarrow> uncached_at s' va = uncached_at s va"
  by (simp add: uncached_at_def)

text \<open>The app window's loop: every page it mapped is uncached, every other address as before.\<close>

lemma map_pages_exact:
  assumes "mmu_ok s" "map_pages as s = (True, es)"
  shows "mmu_ok (mmu_run es s) \<and> (\<forall>va. if (va AND NOT (mask 12)) \<in> set as then uncached_at (mmu_run es s) va
    else mmu_walk (mmu_run es s) va = mmu_walk s va)"
  using assms
proof (induction as arbitrary: s es)
  case (Cons a as)
  obtain r es1 r' es2 where op: "mmu_page_set_noncacheable s a = (r, es1)" "map_pages as (mmu_run es1 s) = (r', es2)" by force
  then have r: "r" "r'" "es = es1 @ es2" using Cons.prems(2) by (auto split: if_splits)
  note st = noncacheable_step [OF Cons.prems(1)] and IH = Cons.IH [OF _ op(2) [unfolded r(2) [THEN eqTrueI]]]
  have st: "mmu_ok (mmu_run es1 s)" "va AND NOT (mask 12) = a \<Longrightarrow> uncached_at (mmu_run es1 s) va"
    "va AND NOT (mask 12) \<noteq> a \<Longrightarrow> mmu_walk (mmu_run es1 s) va = mmu_walk s va" for va
    using st op(1) r(1) by auto
  from IH [OF st(1)] show ?case
    using st(2,3) uncached_at_cong [of "mmu_run es2 (mmu_run es1 s)" _ "mmu_run es1 s"] unfolding r(3) mmu_run_append
    by (metis (no_types, lifting) list.set_intros insert_iff list.simps(15))
qed simp

section \<open>The tables at boot\<close>

text \<open>Flat sections, write-back except for the first megabyte, which is strongly ordered.\<close>

definition boot_tables :: mmu where
  "boot_tables = \<lparr>mm_l1 = map (\<lambda>n. push_bit 20 (of_nat n) OR (if n = 0 then MMU_SECTION_STRONG else MMU_SECTION_DDR_WB)) [0..<4096],
     mm_page = replicate 256 0, mm_section = MMU_SECTION_COUNT, mm_ro = replicate 4 (replicate 256 0),
     mm_page_base = 0x100400, mm_ro_base = 0x100800\<rparr>"

lemma boot_entry:
  assumes "n < 4096"
  shows "mm_l1 boot_tables ! n AND 3 = 2" "mm_l1 boot_tables ! n AND MMU_L1_SUPERSECTION = 0"
    "drop_bit 20 (mm_l1 boot_tables ! n) = of_nat n"
    "mm_l1 boot_tables ! n AND MMU_L1_ATTR_MASK = (if n = 0 then MMU_SECTION_STRONG else MMU_SECTION_DDR_WB)"
proof -
  let ?w = "if n = 0 then MMU_SECTION_STRONG else MMU_SECTION_DDR_WB"
  have e: "mm_l1 boot_tables ! n = push_bit 20 (of_nat n) OR ?w" using assms by (simp add: boot_tables_def)
  have l: "low 20 (push_bit 20 (of_nat n))" unfolding low_def by (rule bit_word_eqI) (simp add: bit_simps)
  have w: "?w AND mask 2 = 2" "?w AND mask 20 = ?w" "?w AND NOT (mask 20) = 0"
    by (simp_all add: MMU_SECTION_STRONG_def MMU_SECTION_DDR_WB_def mask_numeral)
  show "mm_l1 boot_tables ! n AND 3 = 2" unfolding e mask_forms using low_field0 [OF l, of 2 ?w] w by simp
  show "mm_l1 boot_tables ! n AND MMU_L1_ATTR_MASK = ?w"
    unfolding e MMU_L1_ATTR_MASK_def mask_forms using low_field0 [OF l, of 20 ?w] w by simp
  have "bit (mm_l1 boot_tables ! n) 18 = bit ?w 18" unfolding e by (rule low_or_bit [OF l]) simp
  moreover have "\<not> bit ?w 18" by (cases "n = 0") (simp_all, code_simp+)
  moreover have "(x AND MMU_L1_SUPERSECTION) = (if bit x 18 then MMU_L1_SUPERSECTION else 0)" for x
  proof (rule bit_word_eqI)
    fix i
    have eq: "MMU_L1_SUPERSECTION = 2 ^ 18" by (simp add: MMU_L1_SUPERSECTION_def)
    have "bit MMU_L1_SUPERSECTION i \<longleftrightarrow> possible_bit TYPE(u32) i \<and> i = 18" unfolding eq by (rule bit_exp_iff)
    then have "bit MMU_L1_SUPERSECTION i \<longleftrightarrow> i = 18" by auto
    then show "bit (x AND MMU_L1_SUPERSECTION) i = bit (if bit x 18 then MMU_L1_SUPERSECTION else 0) i"
      by (auto simp: bit_and_iff)
  qed
  ultimately show "mm_l1 boot_tables ! n AND MMU_L1_SUPERSECTION = 0" by simp
  have "mm_l1 boot_tables ! n AND NOT (mask 20) = push_bit 20 (of_nat n)" unfolding e by (rule low_base [OF l w(3)])
  then have "unat (mm_l1 boot_tables ! n) - unat (mm_l1 boot_tables ! n) mod 2 ^ 20 = unat (push_bit 20 (of_nat n) :: u32)"
    using unat_and_not_mask [of "mm_l1 boot_tables ! n" 20] by simp
  also have "\<dots> = n * 2 ^ 20" using assms by (simp add: push_bit_eq_mult unat_word_ariths unat_of_nat)
  finally have "unat (mm_l1 boot_tables ! n) div 2 ^ 20 * 2 ^ 20 = n * 2 ^ 20" unfolding minus_mod_eq_div_mult .
  then have "unat (mm_l1 boot_tables ! n) div 2 ^ 20 = n" by simp
  then have "unat (drop_bit 20 (mm_l1 boot_tables ! n)) = n" unfolding unat_sec by simp
  then show "drop_bit 20 (mm_l1 boot_tables ! n) = of_nat n" using of_nat_unat32 by metis
qed

lemma boot_plain: "n < 4096 \<Longrightarrow> section_entry (mm_l1 boot_tables ! n)"
  using boot_entry [of n] by (simp add: section_entry_def)

lemma boot_ok: "mmu_ok boot_tables" "ro_ready 0 boot_tables"
proof -
  have ne: "mm_l1 boot_tables ! n AND 3 \<noteq> 1" if "n < 4096" for n using boot_entry(1) [OF that] by simp
  have "length (mm_l1 boot_tables) = 4096" "length (mm_page boot_tables) = 256" "length (mm_ro boot_tables) = 4"
    "\<forall>k < 4. length (mm_ro boot_tables ! k) = 256" "mm_section boot_tables = MMU_SECTION_COUNT"
    by (simp_all add: boot_tables_def)
  moreover have "mm_page_base boot_tables AND mask 10 = 0" "mm_ro_base boot_tables AND mask 10 = 0"
    by (simp_all add: boot_tables_def mask_numeral)
  moreover have "ro_base boot_tables k \<noteq> mm_page_base boot_tables" if "k < 4" for k
  proof -
    have "k \<in> {0, 1, 2, 3}" using that by auto
    then show ?thesis by (auto simp: ro_base_def boot_tables_def)
  qed
  ultimately show "mmu_ok boot_tables" "ro_ready 0 boot_tables" using ne unfolding mmu_ok_def ro_ready_def by blast+
qed

text \<open>The host window's first page, in a write-back section.\<close>

lemma boot_call: "fst (mmu_page_set_noncacheable boot_tables 0x0805C000)"
proof -
  have s: "drop_bit 20 (0x0805C000 :: u32) = 128" by simp
  show ?thesis
    using boot_entry [of 128] unfolding mmu_page_set_noncacheable_def Let_def s
    by (simp add: MMU_L1_TYPE_MASK_def MMU_L1_TYPE_PAGE_TABLE_def MMU_L1_TYPE_SECTION_def MMU_PAGE_SIZE_def MMU_SECTION_COUNT_def
        MMU_SECTION_DDR_WB_def MMU_SECTION_NONCACHE_def MMU_SECTION_STRONG_def boot_tables_def)
qed

lemma mmu_noncacheable_exact_witness:
  "\<exists>es. mmu_page_set_noncacheable boot_tables 0x0805C000 = (True, es) \<and> uncached_at (mmu_run es boot_tables) 0x0805C123 \<and>
     mmu_walk (mmu_run es boot_tables) 0x0805D000 = mmu_walk boot_tables 0x0805D000"
proof -
  obtain es where es: "mmu_page_set_noncacheable boot_tables 0x0805C000 = (True, es)" using boot_call by (metis (full_types) prod.collapse)
  have "(0x0805C123 :: u32) AND 0xFFFFF000 = 0x0805C000" "(0x0805D000 :: u32) AND 0xFFFFF000 = 0x0805D000" by simp_all
  then show ?thesis using mmu_noncacheable_exact [OF boot_ok(1) es] es by auto
qed

lemma mmu_break_before_make_witness:
  "tlb_safe {boot_tables} boot_tables (snd (mmu_page_set_noncacheable boot_tables 0x0805C000)) \<and>
     snd (mmu_page_set_noncacheable boot_tables 0x0805C000) \<noteq> []"
proof -
  obtain es where es: "mmu_page_set_noncacheable boot_tables 0x0805C000 = (True, es)" using boot_call by (metis (full_types) prod.collapse)
  have s: "sec_of 0x0805C000 = 128" by simp
  from es have "es \<noteq> []"
  proof (cases rule: noncacheable_cases)
    case split
    then show ?thesis using boot_entry(1) [of 128] descriptor_fields(1) [of boot_tables] boot_ok(1) s by (simp add: mmu_ok_def)
  next
    case whole
    then show ?thesis using boot_entry(4) [of 128] s by (simp add: MMU_SECTION_DDR_WB_def MMU_SECTION_NONCACHE_def MMU_SECTION_STRONG_def)
  qed (simp_all add: install_page_table_def)
  then show ?thesis using mmu_break_before_make [OF boot_ok(1) es] es by simp
qed

lemma boot_text: "fst (mmu_page_set_readonly_executable boot_tables 0x08200000 0x08204000)"
proof -
  have s: "drop_bit 20 (0x08200000 :: u32) = 130" "drop_bit 20 (0x08204000 - 1 :: u32) = 130" by simp_all
  have l: "map of_nat [unat (130 :: u32)..<Suc (unat (130 :: u32))] = [130 :: u32]" by simp
  show ?thesis
    using boot_entry [of 130] unfolding mmu_page_set_readonly_executable_def Let_def s l
    by (simp add: MMU_L1_TYPE_MASK_def MMU_L1_TYPE_SECTION_def MMU_PAGE_SIZE_def MMU_SECTION_COUNT_def MMU_RO_TEXT_SECTIONS_def
        MMU_SECTION_DDR_WB_def Let_def split: prod.splits)
qed

lemma mmu_text_exact_witness:
  "\<exists>es. mmu_page_set_readonly_executable boot_tables 0x08200000 0x08204000 = (True, es) \<and>
     mmu_walk (mmu_run es boot_tables) 0x08203004 = Some (0x08203004, 14, page_attr MMU_PAGE_DDR_RO_X)"
proof -
  obtain es where es: "mmu_page_set_readonly_executable boot_tables 0x08200000 0x08204000 = (True, es)"
    using boot_text by (metis (full_types) prod.collapse)
  have "(0x08203004 :: u32) AND 0xFFFFF000 = 0x08203000" by simp
  then show ?thesis using mmu_text_exact [OF boot_ok(2) es, of "0x08203004"] es by simp
qed

end
