(* ===== verification/HeapChunk.thy ===== *)
theory HeapChunk
  imports Prelude
begin

unbundle bit_operations_syntax

text \<open>
  One chunk of the module heap, \<^verbatim>\<open>zzm_runtime.c\<close>: blocks that tile the chunk, each
  with a 64-byte header, and a free list in address order threaded through the
  headers of the free ones. \<open>heap_mem\<close> is card memory seen as block headers, by
  address. The list walks of the code may not end on a corrupted list, so they
  are \<open>option\<close>-valued partial functions; on a well-formed chunk they return.

  The last part abstracts a chunk to its list of (bytes, used) blocks: taking is
  first fit with a split, freeing is marking the block and merging neighbours.
\<close>

section \<open>Data\<close>

record heap_block =
  hb_magic :: u32
  hb_bytes :: u32
  hb_next :: u32

record heap_chunk =
  hc_card_owner :: u32
  hc_address :: u32
  hc_bytes :: u32
  hc_free_head :: u32
  hc_used :: u32

type_synonym heap_mem = "u32 \<Rightarrow> heap_block"

definition ZZM_HEAP_CHUNK_BYTES :: u32 where "ZZM_HEAP_CHUNK_BYTES = 0x00100000"
definition ZZM_HEAP_DIRECT_BYTES :: u32 where "ZZM_HEAP_DIRECT_BYTES = 0x00020000"
definition ZZM_HEAP_MAX_CHUNKS :: nat where "ZZM_HEAP_MAX_CHUNKS = 128"
definition ZZM_HEAP_GRANULE :: u32 where "ZZM_HEAP_GRANULE = 64"
definition ZZM_HEAP_NONE :: u32 where "ZZM_HEAP_NONE = 0xffffffff"
definition ZZM_HEAP_USED_MAGIC :: u32 where "ZZM_HEAP_USED_MAGIC = 0x5a484155"
definition ZZM_HEAP_FREE_MAGIC :: u32 where "ZZM_HEAP_FREE_MAGIC = 0x5a484146"
definition heap_header_bytes :: u32 where "heap_header_bytes = 64"

lemmas heap_consts = ZZM_HEAP_CHUNK_BYTES_def ZZM_HEAP_DIRECT_BYTES_def ZZM_HEAP_MAX_CHUNKS_def
  ZZM_HEAP_GRANULE_def ZZM_HEAP_NONE_def ZZM_HEAP_USED_MAGIC_def ZZM_HEAP_FREE_MAGIC_def heap_header_bytes_def

text \<open>\<^verbatim>\<open>heap_block(chunk, offset)\<close> and its store.\<close>

definition heap_block_at :: "heap_mem \<Rightarrow> heap_chunk \<Rightarrow> u32 \<Rightarrow> heap_block" where
  "heap_block_at m c offset = m (hc_address c + offset)"

definition heap_block_put :: "heap_chunk \<Rightarrow> u32 \<Rightarrow> heap_block \<Rightarrow> heap_mem \<Rightarrow> heap_mem" where
  "heap_block_put c offset b m = m(hc_address c + offset := b)"

text \<open>What the code's \<^verbatim>\<open>uint32_t *link\<close> points at.\<close>

datatype heap_link = ChunkHead | BlockNext u32

fun read_link :: "heap_link \<Rightarrow> heap_mem \<Rightarrow> heap_chunk \<Rightarrow> u32" where
  "read_link ChunkHead m c = hc_free_head c"
| "read_link (BlockNext offset) m c = hb_next (heap_block_at m c offset)"

fun write_link :: "heap_link \<Rightarrow> u32 \<Rightarrow> heap_mem \<Rightarrow> heap_chunk \<Rightarrow> heap_mem \<times> heap_chunk" where
  "write_link ChunkHead v m c = (m, c\<lparr>hc_free_head := v\<rparr>)"
| "write_link (BlockNext offset) v m c =
     (heap_block_put c offset ((heap_block_at m c offset)\<lparr>hb_next := v\<rparr>) m, c)"

section \<open>Taking a block\<close>

text \<open>The body of \<^verbatim>\<open>heap_take\<close> once a free block is big enough.\<close>

definition heap_take_block :: "heap_mem \<Rightarrow> heap_chunk \<Rightarrow> u32 \<Rightarrow> heap_link \<Rightarrow> u32 \<Rightarrow>
    u32 \<times> heap_mem \<times> heap_chunk" where
  "heap_take_block m c need link offset =
     (let block = heap_block_at m c offset;
          (m1, c1) =
            (if hb_bytes block - need \<ge> 2 * ZZM_HEAP_GRANULE
             then let rest = (heap_block_at m c (offset + need))\<lparr>hb_magic := ZZM_HEAP_FREE_MAGIC,
                        hb_bytes := hb_bytes block - need, hb_next := hb_next block\<rparr>;
                      (m', c') = write_link link (offset + need) (heap_block_put c (offset + need) rest m) c
                  in (heap_block_put c offset ((heap_block_at m' c offset)\<lparr>hb_bytes := need\<rparr>) m', c')
             else write_link link (hb_next block) m c);
          taken = (heap_block_at m1 c offset)\<lparr>hb_magic := ZZM_HEAP_USED_MAGIC, hb_next := ZZM_HEAP_NONE\<rparr>
      in (hc_address c + offset + heap_header_bytes, heap_block_put c offset taken m1,
          c1\<lparr>hc_used := hc_used c1 + hb_bytes taken\<rparr>))"

partial_function (option) heap_take_walk :: "heap_mem \<Rightarrow> heap_chunk \<Rightarrow> u32 \<Rightarrow> heap_link \<Rightarrow> u32 \<Rightarrow>
    (u32 \<times> heap_mem \<times> heap_chunk) option" where
  "heap_take_walk m c need link offset =
     (if offset = ZZM_HEAP_NONE then Some (0, m, c)
      else if hb_magic (heap_block_at m c offset) \<noteq> ZZM_HEAP_FREE_MAGIC then Some (0, m, c)
      else if hb_bytes (heap_block_at m c offset) < need
      then heap_take_walk m c need (BlockNext offset) (hb_next (heap_block_at m c offset))
      else Some (heap_take_block m c need link offset))"

definition heap_take :: "heap_mem \<Rightarrow> heap_chunk \<Rightarrow> u32 \<Rightarrow> (u32 \<times> heap_mem \<times> heap_chunk) option" where
  "heap_take m c need = heap_take_walk m c need ChunkHead (hc_free_head c)"

section \<open>Freeing a block\<close>

text \<open>The link at which a block freed at \<open>offset\<close> enters the list.\<close>

partial_function (option) heap_free_walk :: "heap_mem \<Rightarrow> heap_chunk \<Rightarrow> u32 \<Rightarrow> heap_link \<Rightarrow> heap_link option" where
  "heap_free_walk m c offset link =
     (let current = read_link link m c
      in if current \<noteq> ZZM_HEAP_NONE \<and> current < offset
         then heap_free_walk m c offset (BlockNext current)
         else Some link)"

text \<open>The two merges of \<^verbatim>\<open>heap_free\<close>: with the next free block, then into the previous one.\<close>

definition heap_merge_next :: "heap_chunk \<Rightarrow> u32 \<Rightarrow> heap_mem \<Rightarrow> heap_mem" where
  "heap_merge_next c offset m =
     (let block = heap_block_at m c offset
      in if hb_next block \<noteq> ZZM_HEAP_NONE \<and> offset + hb_bytes block = hb_next block
         then let nxt = heap_block_at m c (hb_next block)
              in heap_block_put c offset
                   (block\<lparr>hb_bytes := hb_bytes block + hb_bytes nxt, hb_next := hb_next nxt\<rparr>) m
         else m)"

definition heap_merge_prior :: "heap_chunk \<Rightarrow> u32 \<Rightarrow> heap_link \<Rightarrow> heap_mem \<Rightarrow> heap_mem" where
  "heap_merge_prior c offset link m =
     (case link of ChunkHead \<Rightarrow> m
      | BlockNext previous \<Rightarrow>
          (let block = heap_block_at m c offset; prior = heap_block_at m c previous
           in if previous + hb_bytes prior = offset
              then heap_block_put c previous
                     (prior\<lparr>hb_bytes := hb_bytes prior + hb_bytes block, hb_next := hb_next block\<rparr>) m
              else m))"

text \<open>From the used check on to the last merge.\<close>

definition heap_free_block :: "heap_mem \<Rightarrow> heap_chunk \<Rightarrow> u32 \<Rightarrow> (heap_mem \<times> heap_chunk) option" where
  "heap_free_block m c offset =
     (let block = heap_block_at m c offset;
          c1 = c\<lparr>hc_used := hc_used c - hb_bytes block\<rparr>;
          m1 = heap_block_put c offset (block\<lparr>hb_magic := ZZM_HEAP_FREE_MAGIC\<rparr>) m
      in case heap_free_walk m1 c1 offset ChunkHead of
           None \<Rightarrow> None
         | Some link \<Rightarrow>
             let m2 = heap_block_put c offset
                        ((heap_block_at m1 c offset)\<lparr>hb_next := read_link link m1 c1\<rparr>) m1;
                 (m3, c3) = write_link link offset m2 c1
             in Some (heap_merge_prior c offset link (heap_merge_next c offset m3), c3))"

section \<open>The blocks of a chunk\<close>

type_synonym hblocks = "(nat \<times> bool) list"

abbreviation hsize :: "hblocks \<Rightarrow> nat" where
  "hsize bs \<equiv> sum_list (map fst bs)"

definition hused :: "hblocks \<Rightarrow> nat" where
  "hused bs = sum_list (map (\<lambda>(n, u). if u then n else 0) bs)"

text \<open>Offset of the first free block, or the tail link.\<close>

fun first_free :: "nat \<Rightarrow> hblocks \<Rightarrow> u32 \<Rightarrow> u32" where
  "first_free off [] t = t"
| "first_free off ((n, u) # bs) t = (if u then first_free (off + n) bs t else of_nat off)"

text \<open>The last free block, whose link names whatever follows \<open>bs\<close>.\<close>

fun last_free :: "nat \<Rightarrow> hblocks \<Rightarrow> nat option" where
  "last_free off [] = None"
| "last_free off ((n, u) # bs) = (case last_free (off + n) bs of
     Some p \<Rightarrow> Some p | None \<Rightarrow> if u then None else Some off)"

definition last_link :: "hblocks \<Rightarrow> heap_link" where
  "last_link bs = (case last_free 0 bs of None \<Rightarrow> ChunkHead | Some p \<Rightarrow> BlockNext (of_nat p))"

text \<open>The headers from \<open>off\<close> on describe \<open>bs\<close>, and the list leaves them through \<open>t\<close>.\<close>

fun heap_rep :: "heap_mem \<Rightarrow> u32 \<Rightarrow> nat \<Rightarrow> hblocks \<Rightarrow> u32 \<Rightarrow> bool" where
  "heap_rep m b off [] t \<longleftrightarrow> True"
| "heap_rep m b off ((n, u) # bs) t \<longleftrightarrow>
     hb_bytes (m (b + of_nat off)) = of_nat n \<and>
     hb_magic (m (b + of_nat off)) = (if u then ZZM_HEAP_USED_MAGIC else ZZM_HEAP_FREE_MAGIC) \<and>
     (\<not> u \<longrightarrow> hb_next (m (b + of_nat off)) = first_free (off + n) bs t) \<and>
     heap_rep m b (off + n) bs t"

definition sizes_ok :: "hblocks \<Rightarrow> bool" where
  "sizes_ok bs \<longleftrightarrow> (\<forall>(n, u)\<in>set bs. 64 dvd n \<and> 128 \<le> n)"

text \<open>Offsets of the headers.\<close>

fun starts :: "nat \<Rightarrow> hblocks \<Rightarrow> nat list" where
  "starts off [] = []"
| "starts off ((n, u) # bs) = off # starts (off + n) bs"

lemma hsize_append [simp]: "hsize (xs @ ys) = hsize xs + hsize ys" by simp

lemma hused_simps [simp]:
  "hused [] = 0" "hused ((n, u) # bs) = (if u then n else 0) + hused bs"
  "hused (xs @ ys) = hused xs + hused ys"
  by (simp_all add: hused_def)

lemma hused_le: "hused bs \<le> hsize bs"
  by (induction bs) auto

lemma sizes_ok_simps [simp]:
  "sizes_ok []" "sizes_ok ((n, u) # bs) \<longleftrightarrow> 64 dvd n \<and> 128 \<le> n \<and> sizes_ok bs"
  "sizes_ok (xs @ ys) \<longleftrightarrow> sizes_ok xs \<and> sizes_ok ys"
  by (auto simp: sizes_ok_def)

lemma first_free_append:
  "first_free off (xs @ ys) t = first_free off xs (first_free (off + hsize xs) ys t)"
  by (induction xs arbitrary: off) (auto simp: add.assoc)

lemma heap_rep_append:
  "heap_rep m b off (xs @ ys) t \<longleftrightarrow>
     heap_rep m b off xs (first_free (off + hsize xs) ys t) \<and> heap_rep m b (off + hsize xs) ys t"
  by (induction xs arbitrary: off) (auto simp: first_free_append add.assoc)

lemma starts_append: "starts off (xs @ ys) = starts off xs @ starts (off + hsize xs) ys"
  by (induction xs arbitrary: off) (auto simp: add.assoc)

lemma starts_bounds: "sizes_ok bs \<Longrightarrow> k \<in> set (starts off bs) \<Longrightarrow> off \<le> k \<and> k + 128 \<le> off + hsize bs"
  by (induction bs arbitrary: off) (auto, fastforce+)

lemma all_used_simps:
  assumes "\<forall>x\<in>set bs. snd x"
  shows "first_free off bs t = t" "heap_rep m b off bs t = heap_rep m b off bs v" "last_free off bs = None"
  using assms by (induction bs arbitrary: off) auto

lemma last_free_None: "last_free off bs = None \<longleftrightarrow> (\<forall>x\<in>set bs. snd x)"
proof (induction bs arbitrary: off)
  case (Cons x bs)
  obtain n u where x: "x = (n, u)" by fastforce
  have "last_free (off + n) bs = None \<longleftrightarrow> (\<forall>x\<in>set bs. snd x)" by (rule Cons.IH)
  then show ?case by (cases "last_free (off + n) bs") (simp_all add: x)
qed simp

lemma last_free_append:
  "last_free off (xs @ ys) = (case last_free (off + hsize xs) ys of Some p \<Rightarrow> Some p | None \<Rightarrow> last_free off xs)"
  by (induction xs arbitrary: off) (auto simp: add.assoc split: option.splits)

lemma last_free_Some:
  assumes "last_free off bs = Some p"
  obtains us n vs where "bs = us @ (n, False) # vs" "p = off + hsize us" "\<forall>x\<in>set vs. snd x"
  using assms
proof (induction bs arbitrary: off thesis)
  case (Cons x bs)
  obtain n u where x: "x = (n, u)" by fastforce
  show ?case
  proof (cases "last_free (off + n) bs")
    case None
    then have "\<forall>x\<in>set bs. snd x" by (simp add: last_free_None)
    then show ?thesis using Cons.prems(1) [of "[]" n bs] Cons.prems(2) x None
      by (simp split: if_splits)
  next
    case (Some q)
    obtain us k vs where "bs = us @ (k, False) # vs" "p = off + n + hsize us" "\<forall>x\<in>set vs. snd x"
      using Cons.IH [of "off + n"] Cons.prems(2) Some x by auto
    then show ?thesis using Cons.prems(1) [of "(n, u) # us" k vs] Cons.prems(2) Some x by (simp add: add.assoc)
  qed
qed simp

text \<open>Only the headers matter.\<close>

lemma heap_rep_frame:
  "(\<And>k. k \<in> set (starts off bs) \<Longrightarrow> m' (b + of_nat k) = m (b + of_nat k)) \<Longrightarrow>
    heap_rep m' b off bs t = heap_rep m b off bs t"
  by (induction bs arbitrary: off) auto

text \<open>Offsets of a chunk are distinct addresses.\<close>

lemma chunk_addr_inj [simp]:
  assumes "i < 4294967296" "j < 4294967296"
  shows "(of_nat i :: u32) = of_nat j \<longleftrightarrow> i = j"
  using assms by (simp add: word_of_nat_eq_iff take_bit_nat_eq_self)

lemma heap_rep_put:
  assumes "sizes_ok bs" "off + hsize bs \<le> 4294967296" "j \<notin> set (starts off bs)" "j < 4294967296"
  shows "heap_rep (m(b + of_nat j := v)) b off bs t = heap_rep m b off bs t"
proof (rule heap_rep_frame)
  fix k assume k: "k \<in> set (starts off bs)"
  then have "k < 4294967296" "k \<noteq> j" using starts_bounds [OF assms(1) k] assms(2,3) by auto
  then show "(m(b + of_nat j := v)) (b + of_nat k) = m (b + of_nat k)" using assms(4) by simp
qed

section \<open>Links\<close>

text \<open>
  What the walks know at a point \<open>xs\<close> of the chunk: the prefix is represented, its
  last link reads \<open>t\<close>, and the head names its first free block.
\<close>

definition prefix_rep :: "heap_mem \<Rightarrow> heap_chunk \<Rightarrow> hblocks \<Rightarrow> u32 \<Rightarrow> bool" where
  "prefix_rep m c xs t \<longleftrightarrow> heap_rep m (hc_address c) 0 xs t \<and> hc_free_head c = first_free 0 xs t \<and>
     sizes_ok xs \<and> hsize xs \<le> 1048576"

lemma read_last_link: "prefix_rep m c xs t \<Longrightarrow> read_link (last_link xs) m c = t"
proof (cases "last_free 0 xs")
  case None
  assume "prefix_rep m c xs t"
  with None show ?thesis
    by (auto simp: prefix_rep_def last_link_def last_free_None all_used_simps)
next
  case (Some p)
  assume "prefix_rep m c xs t"
  moreover obtain us n vs where "xs = us @ (n, False) # vs" "p = hsize us" "\<forall>x\<in>set vs. snd x"
    using last_free_Some [OF Some] by auto
  ultimately show ?thesis using Some
    by (simp add: prefix_rep_def last_link_def heap_rep_append heap_block_at_def all_used_simps)
qed

text \<open>Storing through the last link redirects it and touches no other header.\<close>

lemma write_last_link:
  assumes rep: "prefix_rep m c xs t"
  obtains m' where "write_link (last_link xs) v m c = (m', c\<lparr>hc_free_head := first_free 0 xs v\<rparr>)"
    "prefix_rep m' (c\<lparr>hc_free_head := first_free 0 xs v\<rparr>) xs v"
    "\<And>a. a \<notin> (\<lambda>k. hc_address c + of_nat k) ` set (starts 0 xs) \<Longrightarrow> m' a = m a"
proof (cases "last_free 0 xs")
  case None
  then show ?thesis using rep
    by (intro that [of m]) (auto simp: prefix_rep_def last_link_def last_free_None all_used_simps
      simp: all_used_simps(2) [where t = t and v = v])
next
  case (Some p)
  obtain us n vs where xs: "xs = us @ (n, False) # vs" "p = hsize us" "\<forall>x\<in>set vs. snd x"
    using last_free_Some [OF Some] by auto
  let ?a = "hc_address c + of_nat p"
  let ?m = "m(?a := (m ?a)\<lparr>hb_next := v\<rparr>)"
  have s: "sizes_ok us" "sizes_ok vs" "p + n + hsize vs \<le> 1048576" "128 \<le> n"
    using rep xs by (auto simp: prefix_rep_def)
  have "p \<notin> set (starts 0 us)" "p \<notin> set (starts (p + n) vs)"
    using starts_bounds [OF s(1), of p 0] starts_bounds [OF s(2), of p "p + n"] s(4) xs(2) by auto
  then have "heap_rep ?m (hc_address c) 0 us t' = heap_rep m (hc_address c) 0 us t'"
    "heap_rep ?m (hc_address c) (p + n) vs t' = heap_rep m (hc_address c) (p + n) vs t'" for t'
    using s xs(2) by (simp_all add: heap_rep_put)
  moreover have "heap_rep m (hc_address c) 0 us (of_nat p)" "heap_rep m (hc_address c) (p + n) vs v"
      "hb_bytes (m ?a) = of_nat n" "hb_magic (m ?a) = ZZM_HEAP_FREE_MAGIC"
    using rep all_used_simps(2) [OF xs(3), of m "hc_address c" "p + n" t v]
    by (simp_all add: prefix_rep_def xs(1) heap_rep_append xs(2) [symmetric])
  ultimately have r: "heap_rep ?m (hc_address c) 0 xs v"
    by (simp add: xs(1) heap_rep_append xs(2) [symmetric] all_used_simps(1) [OF xs(3)])
  have f: "first_free 0 xs v = first_free 0 xs t" using xs(1) by (simp add: first_free_append)
  with rep have h: "c\<lparr>hc_free_head := first_free 0 xs v\<rparr> = c" by (simp add: prefix_rep_def)
  have p: "p \<in> set (starts 0 xs)" by (simp add: xs(1,2) starts_append)
  have l: "last_link xs = BlockNext (of_nat p)" using Some by (simp add: last_link_def)
  show ?thesis
  proof (rule that [of ?m])
    show "write_link (last_link xs) v m c = (?m, c\<lparr>hc_free_head := first_free 0 xs v\<rparr>)"
      by (simp only: h l write_link.simps heap_block_put_def heap_block_at_def)
    show "prefix_rep ?m (c\<lparr>hc_free_head := first_free 0 xs v\<rparr>) xs v"
      using rep r f by (simp only: h) (simp add: prefix_rep_def)
    show "?m a = m a" if "a \<notin> (\<lambda>k. hc_address c + of_nat k) ` set (starts 0 xs)" for a
      using that p by auto
  qed
qed

section \<open>A well-formed chunk\<close>

text \<open>No two free blocks are neighbours.\<close>

fun coalesced :: "hblocks \<Rightarrow> bool" where
  "coalesced ((n, u) # (k, w) # bs) \<longleftrightarrow> (u \<or> w) \<and> coalesced ((k, w) # bs)"
| "coalesced _ \<longleftrightarrow> True"

definition chunk_rep :: "heap_mem \<Rightarrow> heap_chunk \<Rightarrow> hblocks \<Rightarrow> bool" where
  "chunk_rep m c bs \<longleftrightarrow> prefix_rep m c bs ZZM_HEAP_NONE \<and> hc_used c = of_nat (hused bs) \<and>
     unat (hc_bytes c) = hsize bs \<and> coalesced bs"

lemma coalesced_Cons:
  "coalesced (b # bs) \<longleftrightarrow> coalesced bs \<and> (bs = [] \<or> snd b \<or> snd (hd bs))"
  by (cases bs; cases b) auto

lemma coalesced_append:
  "coalesced (xs @ ys) \<longleftrightarrow> coalesced xs \<and> coalesced ys \<and>
     (xs = [] \<or> ys = [] \<or> snd (last xs) \<or> snd (hd ys))"
  by (induction xs) (auto simp: coalesced_Cons simp del: coalesced.simps(1))

lemma heap_none_nat: "k \<le> 1048576 \<Longrightarrow> (of_nat k :: u32) \<noteq> ZZM_HEAP_NONE"
  using chunk_addr_inj [of k 4294967295] by (simp add: ZZM_HEAP_NONE_def del: chunk_addr_inj)

lemma prefix_rep_split:
  "prefix_rep m c (xs @ ys) t \<longleftrightarrow> prefix_rep m c xs (first_free (hsize xs) ys t) \<and>
     heap_rep m (hc_address c) (hsize xs) ys t \<and> sizes_ok ys \<and> hsize xs + hsize ys \<le> 1048576"
  by (auto simp: prefix_rep_def heap_rep_append first_free_append)

definition link_from :: "heap_link \<Rightarrow> nat \<Rightarrow> hblocks \<Rightarrow> heap_link" where
  "link_from l off bs = (case last_free off bs of None \<Rightarrow> l | Some p \<Rightarrow> BlockNext (of_nat p))"

lemma link_from_simps:
  "link_from l off [] = l"
  "link_from l off ((n, u) # bs) = link_from (if u then l else BlockNext (of_nat off)) (off + n) bs"
  by (auto simp: link_from_def split: option.splits)

lemma link_from_head: "link_from ChunkHead 0 bs = last_link bs"
  by (simp add: link_from_def last_link_def)

section \<open>Taking refines first fit\<close>

text \<open>The abstract request: the first free block of at least \<open>need\<close> bytes, split when 128 or more remain.\<close>

definition split_block :: "nat \<Rightarrow> nat \<Rightarrow> hblocks" where
  "split_block need n = (if 128 \<le> n - need then [(need, True), (n - need, False)] else [(n, True)])"

fun htake :: "nat \<Rightarrow> nat \<Rightarrow> hblocks \<Rightarrow> (nat \<times> hblocks) option" where
  "htake need off [] = None"
| "htake need off ((n, u) # bs) =
     (if \<not> u \<and> need \<le> n then Some (off, split_block need n @ bs)
      else map_option (\<lambda>(p, bs'). (p, (n, u) # bs')) (htake need (off + n) bs))"

lemma htake_None: "htake need off bs = None \<longleftrightarrow> (\<forall>(n, u)\<in>set bs. u \<or> n < need)"
  by (induction bs arbitrary: off) (auto split: if_splits)

lemma htake_Some:
  assumes "htake need off bs = Some (p, bs')"
  obtains us n vs where "bs = us @ (n, False) # vs" "p = off + hsize us" "need \<le> n"
    "bs' = us @ split_block need n @ vs" "\<forall>(k, u)\<in>set us. u \<or> k < need"
  using assms
proof (induction bs arbitrary: off bs' thesis)
  case (Cons x bs)
  obtain n u where x: "x = (n, u)" by fastforce
  show ?case
  proof (cases "\<not> u \<and> need \<le> n")
    case True
    then show ?thesis using Cons.prems(1) [of "[]" n bs] Cons.prems(2) x by auto
  next
    case False
    then obtain r where r: "htake need (off + n) bs = Some (p, r)" "bs' = (n, u) # r"
      using Cons.prems(2) x by auto
    obtain us k vs where "bs = us @ (k, False) # vs" "p = off + n + hsize us" "need \<le> k"
      "r = us @ split_block need k @ vs" "\<forall>(k, u)\<in>set us. u \<or> k < need"
      using Cons.IH [OF _ r(1)] by blast
    then show ?thesis using Cons.prems(1) [of "(n, u) # us" k vs] False r(2) x
      by (auto simp: add.assoc)
  qed
qed simp

lemma take_walk_skip:
  assumes "heap_rep m (hc_address c) off ys t" "\<forall>(n, u)\<in>set ys. u \<or> n < unat need"
    and "sizes_ok ys" "off + hsize ys \<le> 1048576"
  shows "heap_take_walk m c need l (first_free off ys t) = heap_take_walk m c need (link_from l off ys) t"
  using assms
proof (induction ys arbitrary: l off)
  case (Cons x ys)
  obtain n u where x: "x = (n, u)" by fastforce
  show ?case
  proof (cases u)
    case False
    have n: "n < 4294967296" "n < unat need" using Cons.prems x False by auto
    have "heap_take_walk m c need l (of_nat off) =
        heap_take_walk m c need (BlockNext (of_nat off)) (first_free (off + n) ys t)"
      using Cons.prems x False n heap_none_nat [of off]
      by (subst heap_take_walk.simps) (simp add: heap_block_at_def word_less_nat_alt unat_of_nat)
    then show ?thesis using Cons.IH [of "off + n"] Cons.prems x False by (simp add: link_from_simps)
  qed (use Cons.IH [of "off + n"] Cons.prems x in \<open>simp add: link_from_simps\<close>)
qed (simp add: link_from_simps)

lemma split_block_simps:
  assumes "need \<le> n" "64 dvd n" "64 dvd need" "128 \<le> need"
  shows "hsize (split_block need n) = n" "sizes_ok (split_block need n)"
    "split_block need n \<noteq> []" "snd (hd (split_block need n))" "128 \<le> n"
  using assms by (auto simp: split_block_def)

lemma coalesced_split:
  assumes "coalesced (us @ (n, False) # vs)" 
  shows "coalesced (us @ split_block need n @ vs)"
  using assms by (cases vs) (auto simp: coalesced_append split_block_def)

text \<open>The concrete block operation at a known position.\<close>

lemma heap_take_block_spec:
  fixes us vs :: hblocks and m :: heap_mem and c :: heap_chunk
  defines "off \<equiv> hsize us"
  assumes rep: "prefix_rep m c (us @ (n, False) # vs) ZZM_HEAP_NONE"
    and need: "need \<le> n" "64 dvd need" "128 \<le> need"
  obtains m' where
    "heap_take_block m c (of_nat need) (last_link us) (of_nat off) = (hc_address c + of_nat off + 64, m',
       c\<lparr>hc_free_head := first_free 0 (us @ split_block need n @ vs) ZZM_HEAP_NONE,
         hc_used := hc_used c + of_nat (fst (hd (split_block need n)))\<rparr>)"
    "heap_rep m' (hc_address c) 0 (us @ split_block need n @ vs) ZZM_HEAP_NONE"
    "\<And>a. a \<notin> (\<lambda>k. hc_address c + of_nat k) ` {0..< off + n} \<Longrightarrow> m' a = m a"
proof -
  let ?b = "hc_address c" and ?t = "first_free (off + n) vs ZZM_HEAP_NONE"
  have r: "prefix_rep m c us (of_nat off)" "hb_bytes (m (?b + of_nat off)) = of_nat n"
      "hb_next (m (?b + of_nat off)) = ?t" "heap_rep m ?b (off + n) vs ZZM_HEAP_NONE"
      "sizes_ok us" "sizes_ok vs" "64 dvd n" "128 \<le> n" "off + n + hsize vs \<le> 1048576"
    using rep by (auto simp: prefix_rep_split off_def) (auto simp: prefix_rep_def)
  have out: "k \<notin> set (starts 0 us)" if "off \<le> k" for k
    using starts_bounds [OF r(5), of k 0] that by (auto simp: off_def)
  have pre: "a \<notin> (\<lambda>k. ?b + of_nat k) ` set (starts 0 us)" if "a \<notin> (\<lambda>k. ?b + of_nat k) ` {0..< off + n}" for a
  proof -
    have "set (starts 0 us) \<subseteq> {0..<off + n}" using starts_bounds [OF r(5), of _ 0] by (fastforce simp: off_def)
    with that show ?thesis by (meson image_mono subsetD)
  qed
  have keep: "?b + of_nat k \<notin> (\<lambda>k. ?b + of_nat k) ` set (starts 0 us)" if "off \<le> k" "k < 4294967296" for k
  proof
    assume "?b + of_nat k \<in> (\<lambda>k. ?b + of_nat k) ` set (starts 0 us)"
    then obtain j where "j \<in> set (starts 0 us)" "(of_nat k :: u32) = of_nat j" by auto
    with starts_bounds [OF r(5), of j 0] r(9) that show False by (auto simp: off_def)
  qed
  have tail: "heap_rep m1 ?b j ws t = heap_rep m0 ?b j ws t"
    if "sizes_ok ws" "j + hsize ws \<le> 1048576" "\<And>k. j \<le> k \<Longrightarrow> k < 1048576 \<Longrightarrow> m1 (?b + of_nat k) = m0 (?b + of_nat k)"
    for m0 m1 :: heap_mem and j ws t
    using starts_bounds [OF that(1), of _ j] that(2,3) by (intro heap_rep_frame) force
  have un: "unat (of_nat n - of_nat need :: u32) = n - need"
    using need r(9) by (simp add: unat_minus_no_wrap unat_of_nat)
  show ?thesis
  proof (cases "128 \<le> n - need")
    case False
    then have sb: "split_block need n = [(n, True)]" by (simp add: split_block_def)
    obtain m1 where w: "write_link (last_link us) ?t m c = (m1, c\<lparr>hc_free_head := first_free 0 us ?t\<rparr>)"
        "prefix_rep m1 (c\<lparr>hc_free_head := first_free 0 us ?t\<rparr>) us ?t"
        "\<And>a. a \<notin> (\<lambda>k. ?b + of_nat k) ` set (starts 0 us) \<Longrightarrow> m1 a = m a"
      using write_last_link [OF r(1), of ?t] by metis
    have h: "m1 (?b + of_nat off) = m (?b + of_nat off)" using w(3) [OF keep] r(9) by simp
    let ?m = "m1(?b + of_nat off := (m1 (?b + of_nat off))\<lparr>hb_magic := ZZM_HEAP_USED_MAGIC, hb_next := ZZM_HEAP_NONE\<rparr>)"
    have big: "\<not> 2 * ZZM_HEAP_GRANULE \<le> (of_nat n :: u32) - of_nat need"
      using False un by (simp add: word_le_nat_alt heap_consts)
    show ?thesis
    proof (rule that [of ?m])
      show "heap_take_block m c (of_nat need) (last_link us) (of_nat off) = (?b + of_nat off + 64, ?m,
         c\<lparr>hc_free_head := first_free 0 (us @ split_block need n @ vs) ZZM_HEAP_NONE,
           hc_used := hc_used c + of_nat (fst (hd (split_block need n)))\<rparr>)"
        using big w(1) h r(2,3)
        by (simp add: heap_take_block_def heap_block_at_def heap_block_put_def sb first_free_append off_def heap_header_bytes_def)
      have "heap_rep ?m ?b (off + n) vs ZZM_HEAP_NONE = heap_rep m ?b (off + n) vs ZZM_HEAP_NONE"
        using w(3) [OF keep] r(8,9) by (intro tail [OF r(6)]) auto
      moreover have "heap_rep ?m ?b 0 us ?t"
        using w(2) out [of off] r(9) by (simp add: prefix_rep_def heap_rep_put)
      ultimately show "heap_rep ?m ?b 0 (us @ split_block need n @ vs) ZZM_HEAP_NONE"
        using r(2,4) h by (simp add: sb heap_rep_append off_def [symmetric])
      show "?m a = m a" if "a \<notin> (\<lambda>k. ?b + of_nat k) ` {0..< off + n}" for a
        using that w(3) [OF pre] r(8) by auto
    qed
  next
    case True
    then have sb: "split_block need n = [(need, True), (n - need, False)]" by (simp add: split_block_def)
    let ?j = "off + need"
    let ?rest = "(m (?b + of_nat ?j))\<lparr>hb_magic := ZZM_HEAP_FREE_MAGIC, hb_bytes := of_nat n - of_nat need, hb_next := ?t\<rparr>"
    let ?m0 = "m(?b + of_nat ?j := ?rest)"
    have "prefix_rep ?m0 c us (of_nat off)"
      using r(1,5,9) out [of ?j] True by (simp add: prefix_rep_def heap_rep_put off_def del: of_nat_add)
    then obtain m1 where w: "write_link (last_link us) (of_nat ?j) ?m0 c =
          (m1, c\<lparr>hc_free_head := first_free 0 us (of_nat ?j)\<rparr>)"
        "prefix_rep m1 (c\<lparr>hc_free_head := first_free 0 us (of_nat ?j)\<rparr>) us (of_nat ?j)"
        "\<And>a. a \<notin> (\<lambda>k. ?b + of_nat k) ` set (starts 0 us) \<Longrightarrow> m1 a = ?m0 a"
      using write_last_link [of ?m0 c us "of_nat off" "of_nat ?j"] by metis
    have h: "m1 (?b + of_nat off) = m (?b + of_nat off)" "m1 (?b + of_nat ?j) = ?rest"
      using w(3) [OF keep, of off] w(3) [OF keep, of ?j] r(9) need True by (simp_all del: of_nat_add)
    let ?m = "m1(?b + of_nat off := (m1 (?b + of_nat off))\<lparr>hb_bytes := of_nat need,
        hb_magic := ZZM_HEAP_USED_MAGIC, hb_next := ZZM_HEAP_NONE\<rparr>)"
    have big: "2 * ZZM_HEAP_GRANULE \<le> (of_nat n :: u32) - of_nat need"
      using True un by (simp add: word_le_nat_alt heap_consts)
    show ?thesis
    proof (rule that [of ?m])
      show "heap_take_block m c (of_nat need) (last_link us) (of_nat off) = (?b + of_nat off + 64, ?m,
         c\<lparr>hc_free_head := first_free 0 (us @ split_block need n @ vs) ZZM_HEAP_NONE,
           hc_used := hc_used c + of_nat (fst (hd (split_block need n)))\<rparr>)"
        using big w(1) h r(2,3)
        by (simp add: heap_take_block_def heap_block_at_def heap_block_put_def sb first_free_append
            off_def heap_header_bytes_def add.assoc)
      have "heap_rep ?m ?b (off + n) vs ZZM_HEAP_NONE = heap_rep m ?b (off + n) vs ZZM_HEAP_NONE"
        using w(3) [OF keep] r(8,9) True need by (intro tail [OF r(6)]) (auto simp del: of_nat_add)
      moreover have "heap_rep ?m ?b 0 us (of_nat ?j)"
        using w(2) out [of off] r(9) by (simp add: prefix_rep_def heap_rep_put)
      moreover have "?m (?b + of_nat ?j) = ?rest"
        using h(2) need r(9) True chunk_addr_inj [of ?j off] by (simp del: of_nat_add)
      ultimately show "heap_rep ?m ?b 0 (us @ split_block need n @ vs) ZZM_HEAP_NONE"
        using r(2,4) h need True by (simp add: sb heap_rep_append off_def [symmetric] del: of_nat_add)
      show "?m a = m a" if "a \<notin> (\<lambda>k. ?b + of_nat k) ` {0..< off + n}" for a
      proof -
        have "a \<noteq> ?b + of_nat off" "a \<noteq> ?b + of_nat ?j" using that need(3) True r(8)
          by (auto simp del: of_nat_add)
        then show ?thesis using w(3) [OF pre [OF that]] by simp
      qed
    qed
  qed
qed

lemma first_free_link:
  assumes "prefix_rep m c xs t"
  shows "hc_free_head c = first_free 0 xs t"
  using assms by (simp add: prefix_rep_def)

text \<open>
  \<^verbatim>\<open>heap_take\<close> refines \<open>htake\<close>: it returns, finds a block exactly when the first-fit
  search does, and leaves the chunk in the state the search describes. Bytes outside the
  chunk are untouched.
\<close>

lemma heap_take_spec:
  assumes rep: "chunk_rep m c bs"
    and need: "64 dvd need" "128 \<le> need" "need \<le> 1048576"
  shows "case htake need 0 bs of
      None \<Rightarrow> heap_take m c (of_nat need) = Some (0, m, c)
    | Some (off, bs') \<Rightarrow> \<exists>m' c'. heap_take m c (of_nat need) = Some (hc_address c + of_nat off + 64, m', c') \<and>
        chunk_rep m' c' bs' \<and> hc_card_owner c' = hc_card_owner c \<and> hc_address c' = hc_address c \<and>
        hc_bytes c' = hc_bytes c \<and>
        (\<forall>a. a \<notin> (\<lambda>k. hc_address c + of_nat k) ` {0..<hsize bs} \<longrightarrow> m' a = m a)"
proof -
  have un: "unat (of_nat need :: u32) = need" using need(3) by (simp add: unat_of_nat)
  have p: "prefix_rep m c bs ZZM_HEAP_NONE" using rep by (simp add: chunk_rep_def)
  have walk: "heap_take_walk m c (of_nat need) ChunkHead (first_free 0 us t) =
      heap_take_walk m c (of_nat need) (last_link us) t"
    if "prefix_rep m c us t" "\<forall>(k, u)\<in>set us. u \<or> k < need" for us t
    using take_walk_skip [of m c 0 us t "of_nat need" ChunkHead] that
    by (simp add: prefix_rep_def un link_from_head)
  show ?thesis
  proof (cases "htake need 0 bs")
    case None
    then have "heap_take_walk m c (of_nat need) ChunkHead (first_free 0 bs ZZM_HEAP_NONE) =
        heap_take_walk m c (of_nat need) (last_link bs) ZZM_HEAP_NONE"
      using walk [OF p] by (simp add: htake_None)
    also have "\<dots> = Some (0, m, c)" by (subst heap_take_walk.simps) simp
    finally show ?thesis using None first_free_link [OF p] by (simp add: heap_take_def)
  next
    case (Some r)
    obtain off bs' where r: "r = (off, bs')" by fastforce
    obtain us n vs where d: "bs = us @ (n, False) # vs" "off = hsize us" "need \<le> n"
        "bs' = us @ split_block need n @ vs" "\<forall>(k, u)\<in>set us. u \<or> k < need"
      using htake_Some [OF Some [unfolded r]] by auto
    have us: "prefix_rep m c us (of_nat off)" "sizes_ok bs" "hsize bs \<le> 1048576"
      using p by (auto simp: d(1,2) prefix_rep_split) (auto simp: prefix_rep_def)
    then have n: "64 dvd n" "128 \<le> n" "off + n + hsize vs \<le> 1048576" by (auto simp: d(1,2))
    obtain m' where t: "heap_take_block m c (of_nat need) (last_link us) (of_nat off) =
          (hc_address c + of_nat off + 64, m', c\<lparr>hc_free_head := first_free 0 bs' ZZM_HEAP_NONE,
             hc_used := hc_used c + of_nat (fst (hd (split_block need n)))\<rparr>)"
        "heap_rep m' (hc_address c) 0 bs' ZZM_HEAP_NONE"
        "\<And>a. a \<notin> (\<lambda>k. hc_address c + of_nat k) ` {0..< hsize us + n} \<Longrightarrow> m' a = m a"
      using heap_take_block_spec [OF p [unfolded d(1)] d(3) need(1,2)] d(2,4) by metis
    have "hb_magic (m (hc_address c + of_nat off)) = ZZM_HEAP_FREE_MAGIC"
        "hb_bytes (m (hc_address c + of_nat off)) = of_nat n"
      using p by (auto simp: d(1,2) prefix_rep_split)
    then have "heap_take_walk m c (of_nat need) (last_link us) (of_nat off) =
        Some (heap_take_block m c (of_nat need) (last_link us) (of_nat off))"
      using heap_none_nat [of off] n d(3) un
      by (subst heap_take_walk.simps) (simp add: heap_block_at_def word_less_nat_alt unat_of_nat)
    moreover have "heap_take m c (of_nat need) = heap_take_walk m c (of_nat need) (last_link us) (of_nat off)"
      using walk [OF us(1) d(5)] us(1) by (simp add: heap_take_def first_free_link)
    moreover have "hused bs' = hused bs + fst (hd (split_block need n))"
      by (simp add: d split_block_def)
    moreover have "hsize bs' = hsize bs" "sizes_ok bs'" "coalesced bs'"
      using us(2) rep coalesced_split [of us n vs] split_block_simps [OF d(3) n(1) need(1,2)]
      by (simp_all add: d chunk_rep_def)
    moreover have "(\<lambda>k. hc_address c + of_nat k) ` {0..< hsize us + n} \<subseteq> (\<lambda>k. hc_address c + of_nat k) ` {0..<hsize bs}"
      by (rule image_mono) (simp add: d(1))
    ultimately show ?thesis using t rep us(3)
      by (simp add: Some r chunk_rep_def prefix_rep_def) blast
  qed
qed

section \<open>Freeing merges neighbours\<close>

definition hfree_next :: "nat \<Rightarrow> hblocks \<Rightarrow> nat \<times> hblocks" where
  "hfree_next n vs = (case vs of (k, False) # ws \<Rightarrow> (n + k, ws) | _ \<Rightarrow> (n, vs))"

definition hfree_prior :: "hblocks \<Rightarrow> nat \<times> hblocks \<Rightarrow> hblocks" where
  "hfree_prior us r = (if us \<noteq> [] \<and> \<not> snd (last us)
     then butlast us @ (fst (last us) + fst r, False) # snd r else us @ (fst r, False) # snd r)"

text \<open>The abstract free of the block of \<open>n\<close> bytes between \<open>us\<close> and \<open>vs\<close>.\<close>

definition hfree :: "hblocks \<Rightarrow> nat \<Rightarrow> hblocks \<Rightarrow> hblocks" where
  "hfree us n vs = hfree_prior us (hfree_next n vs)"

lemma first_free_cases: "first_free off vs t = t \<or> (\<exists>p \<in> set (starts off vs). first_free off vs t = of_nat p)"
proof (induction vs arbitrary: off)
  case (Cons x vs)
  obtain n u where x: "x = (n, u)" by fastforce
  show ?case using Cons.IH [of "off + n"] by (auto simp: x)
qed simp

lemma free_walk_skip:
  assumes "heap_rep m (hc_address c) off ys t" "read_link l m c = first_free off ys t"
    and "sizes_ok ys" "off + hsize ys \<le> target" "target \<le> 1048576"
  shows "heap_free_walk m c (of_nat target) l = heap_free_walk m c (of_nat target) (link_from l off ys)"
  using assms
proof (induction ys arbitrary: l off)
  case (Cons x ys)
  obtain n u where x: "x = (n, u)" by fastforce
  show ?case
  proof (cases u)
    case False
    have "heap_free_walk m c (of_nat target) l = heap_free_walk m c (of_nat target) (BlockNext (of_nat off))"
      using Cons.prems x False heap_none_nat [of off]
      by (subst heap_free_walk.simps) (simp add: word_less_nat_alt unat_of_nat Let_def)
    then show ?thesis using Cons.IH [of "off + n" "BlockNext (of_nat off)"] Cons.prems x False
      by (simp add: link_from_simps heap_block_at_def)
  qed (use Cons.IH [of "off + n" l] Cons.prems x in \<open>simp add: link_from_simps\<close>)
qed (simp add: link_from_simps)

text \<open>Merging a free block with the free one behind it.\<close>

lemma merge_rep:
  assumes rep: "prefix_rep m c (xs @ (n, False) # (k, False) # ys) t"
  defines "a \<equiv> hc_address c + of_nat (hsize xs)"
  shows "prefix_rep (m(a := (m a)\<lparr>hb_bytes := hb_bytes (m a) + of_nat k,
      hb_next := first_free (hsize xs + n + k) ys t\<rparr>)) c (xs @ (n + k, False) # ys) t"
proof -
  have s: "sizes_ok xs" "sizes_ok ys" "128 \<le> n" "hsize xs + n + k + hsize ys \<le> 1048576"
    using rep by (auto simp: prefix_rep_def)
  have "hsize xs \<notin> set (starts 0 xs)" "hsize xs \<notin> set (starts (hsize xs + n + k) ys)"
    using starts_bounds [OF s(1), of "hsize xs" 0] starts_bounds [OF s(2), of "hsize xs"] s(3) by force+
  then have "heap_rep (m(a := v)) (hc_address c) 0 xs t' = heap_rep m (hc_address c) 0 xs t'"
    "heap_rep (m(a := v)) (hc_address c) (hsize xs + n + k) ys t' = heap_rep m (hc_address c) (hsize xs + n + k) ys t'"
    for v t' using s by (simp_all add: a_def heap_rep_put)
  then show ?thesis using rep
    by (simp add: prefix_rep_def heap_rep_append first_free_append a_def add.assoc)
qed

lemma merge_next_rep:
  assumes rep: "prefix_rep m c (us @ (n, False) # vs) ZZM_HEAP_NONE"
  shows "prefix_rep (heap_merge_next c (of_nat (hsize us)) m) c
     (us @ (fst (hfree_next n vs), False) # snd (hfree_next n vs)) ZZM_HEAP_NONE"
    "\<And>a. a \<noteq> hc_address c + of_nat (hsize us) \<Longrightarrow> heap_merge_next c (of_nat (hsize us)) m a = m a"
proof -
  let ?off = "hsize us" and ?b = "hc_address c"
  let ?t = "first_free (?off + n) vs ZZM_HEAP_NONE"
  have r: "hb_bytes (m (?b + of_nat ?off)) = of_nat n" "hb_next (m (?b + of_nat ?off)) = ?t"
      "heap_rep m ?b (?off + n) vs ZZM_HEAP_NONE" "sizes_ok vs" "?off + n + hsize vs \<le> 1048576"
    using rep by (auto simp: prefix_rep_split)
  show "heap_merge_next c (of_nat ?off) m a = m a" if "a \<noteq> ?b + of_nat ?off" for a
    using that by (simp add: heap_merge_next_def Let_def heap_block_put_def)
  show "prefix_rep (heap_merge_next c (of_nat ?off) m) c
     (us @ (fst (hfree_next n vs), False) # snd (hfree_next n vs)) ZZM_HEAP_NONE"
  proof (cases "\<exists>k ws. vs = (k, False) # ws")
    case True
    then obtain k ws where vs: "vs = (k, False) # ws" by blast
    have "?t = of_nat (?off + n)" "?t \<noteq> ZZM_HEAP_NONE"
      using heap_none_nat [of "?off + n"] r(5) by (simp_all add: vs)
    moreover have "hb_bytes (m (?b + of_nat (?off + n))) = of_nat k"
        "hb_next (m (?b + of_nat (?off + n))) = first_free (?off + n + k) ws ZZM_HEAP_NONE"
      using r(3) by (simp_all add: vs)
    moreover have "heap_merge_next c (of_nat ?off) m = m(?b + of_nat ?off := (m (?b + of_nat ?off))\<lparr>
        hb_bytes := hb_bytes (m (?b + of_nat ?off)) + of_nat k, hb_next := first_free (?off + n + k) ws ZZM_HEAP_NONE\<rparr>)"
      using calculation r(1,2) by (simp add: heap_merge_next_def heap_block_at_def heap_block_put_def)
    ultimately show ?thesis using merge_rep [OF rep [unfolded vs]] by (simp add: hfree_next_def vs)
  next
    case False
    have "?t \<noteq> ZZM_HEAP_NONE \<longrightarrow> of_nat ?off + of_nat n \<noteq> ?t"
    proof (cases vs)
      case (Cons x ws)
      obtain k where x: "x = (k, True)" using False Cons by (cases x) auto
      have ws: "sizes_ok ws" "?off + n + k + hsize ws \<le> 1048576" "128 \<le> k" using r(4,5) Cons x by auto
      have eq: "?t = first_free (?off + n + k) ws ZZM_HEAP_NONE" by (simp add: Cons x)
      from first_free_cases [of "?off + n + k" ws ZZM_HEAP_NONE] show ?thesis unfolding eq
      proof (elim disjE bexE)
        fix p assume p: "p \<in> set (starts (?off + n + k) ws)" and e: "first_free (?off + n + k) ws ZZM_HEAP_NONE = of_nat p"
        have "?off + n \<noteq> p" "p < 4294967296" "?off + n < 4294967296"
          using starts_bounds [OF ws(1) p] ws(2,3) by auto
        then have "(of_nat (?off + n) :: u32) \<noteq> of_nat p" by (simp del: of_nat_add)
        then show "first_free (?off + n + k) ws ZZM_HEAP_NONE \<noteq> ZZM_HEAP_NONE \<longrightarrow>
            of_nat ?off + of_nat n \<noteq> first_free (?off + n + k) ws ZZM_HEAP_NONE" unfolding e by simp
      qed simp
    qed simp
    then have "heap_merge_next c (of_nat ?off) m = m"
      using r(1,2) by (auto simp: heap_merge_next_def heap_block_at_def Let_def)
    moreover have "hfree_next n vs = (n, vs)" using False by (auto simp: hfree_next_def split: list.splits bool.splits)
    ultimately show ?thesis using rep by simp
  qed
qed

lemma last_link_cases:
  obtains "last_link us = ChunkHead" "us = [] \<or> snd (last us)"
  | ws k zs where "us = ws @ (k, False) # zs" "last_link us = BlockNext (of_nat (hsize ws))" "\<forall>x\<in>set zs. snd x"
proof (cases "last_free 0 us")
  case None
  then have "us = [] \<or> snd (last us)" using last_in_set [of us] by (metis last_free_None)
  with None that(1) show ?thesis by (simp add: last_link_def)
next
  case (Some p)
  obtain ws k zs where "us = ws @ (k, False) # zs" "p = hsize ws" "\<forall>x\<in>set zs. snd x"
    using last_free_Some [OF Some] by auto
  with that(2) [of ws k zs] Some show ?thesis by (simp add: last_link_def)
qed

lemma merge_prior_rep:
  assumes rep: "prefix_rep m c (us @ (n, False) # vs) ZZM_HEAP_NONE"
  shows "prefix_rep (heap_merge_prior c (of_nat (hsize us)) (last_link us) m) c
      (hfree_prior us (n, vs)) ZZM_HEAP_NONE"
    "\<And>a. a \<notin> (\<lambda>k. hc_address c + of_nat k) ` set (starts 0 us) \<Longrightarrow>
      heap_merge_prior c (of_nat (hsize us)) (last_link us) m a = m a"
proof -
  let ?off = "hsize us" and ?b = "hc_address c"
  have r: "hb_bytes (m (?b + of_nat ?off)) = of_nat n"
      "hb_next (m (?b + of_nat ?off)) = first_free (?off + n) vs ZZM_HEAP_NONE"
      "prefix_rep m c us (of_nat ?off)" "sizes_ok us" "?off \<le> 1048576"
    using rep by (auto simp: prefix_rep_split) (auto simp: prefix_rep_def)
  have "prefix_rep (heap_merge_prior c (of_nat ?off) (last_link us) m) c (hfree_prior us (n, vs)) ZZM_HEAP_NONE \<and>
    (\<forall>a. a \<notin> (\<lambda>k. ?b + of_nat k) ` set (starts 0 us) \<longrightarrow>
      heap_merge_prior c (of_nat ?off) (last_link us) m a = m a)"
  proof (cases us rule: last_link_cases)
    case 1
    then show ?thesis using rep by (auto simp: hfree_prior_def heap_merge_prior_def)
  next
    case (2 ws k zs)
    let ?p = "hsize ws"
    have b: "hb_bytes (m (?b + of_nat ?p)) = of_nat k" "?p + k \<le> ?off" "?p \<in> set (starts 0 us)" "?off = ?p + k + hsize zs"
      using r(3) by (auto simp: 2(1) prefix_rep_split heap_rep_append prefix_rep_def starts_append)
    have hit: "of_nat ?p + of_nat k = (of_nat ?off :: u32) \<longleftrightarrow> zs = []"
    proof -
      have "of_nat ?p + of_nat k = (of_nat ?off :: u32) \<longleftrightarrow> ?p + k = ?off"
        using chunk_addr_inj [of "?p + k" ?off] b(2) r(5) by simp
      moreover have "hsize zs = 0 \<longleftrightarrow> zs = []" using r(4) by (cases zs) (auto simp: 2(1))
      ultimately show ?thesis using b(4) by simp
    qed
    let ?w = "(m (?b + of_nat ?p))\<lparr>hb_bytes := hb_bytes (m (?b + of_nat ?p)) + of_nat n,
      hb_next := first_free (?off + n) vs ZZM_HEAP_NONE\<rparr>"
    have mp: "heap_merge_prior c (of_nat ?off) (last_link us) m = (if zs = [] then m(?b + of_nat ?p := ?w) else m)"
      using hit b(1) r(1,2) by (simp add: 2(2) heap_merge_prior_def heap_block_at_def heap_block_put_def Let_def)
    show ?thesis
    proof (cases "zs = []")
      case True
      have "prefix_rep m c (ws @ (k, False) # (n, False) # vs) ZZM_HEAP_NONE" using rep by (simp add: 2(1) True)
      from merge_rep [OF this] have "prefix_rep (m(?b + of_nat ?p := ?w)) c (ws @ (k + n, False) # vs) ZZM_HEAP_NONE"
        by (simp add: 2(1) True add.assoc)
      then show ?thesis using mp True b(3) by (auto simp: 2(1) hfree_prior_def)
    next
      case False
      then have "snd (last us)" using 2(3) by (simp add: 2(1))
      then show ?thesis using rep mp False by (simp add: hfree_prior_def)
    qed
  qed
  then show "prefix_rep (heap_merge_prior c (of_nat ?off) (last_link us) m) c (hfree_prior us (n, vs)) ZZM_HEAP_NONE"
    "\<And>a. a \<notin> (\<lambda>k. ?b + of_nat k) ` set (starts 0 us) \<Longrightarrow> heap_merge_prior c (of_nat ?off) (last_link us) m a = m a"
    by blast+
qed

text \<open>The abstract free keeps the bytes, gives back \<open>n\<close>, and stays coalesced.\<close>

lemma hfree_next_facts:
  "fst (hfree_next n vs) + hsize (snd (hfree_next n vs)) = n + hsize vs"
  "hused (snd (hfree_next n vs)) = hused vs"
  "sizes_ok vs \<Longrightarrow> 64 dvd n \<Longrightarrow> 128 \<le> n \<Longrightarrow>
     sizes_ok (snd (hfree_next n vs)) \<and> 64 dvd fst (hfree_next n vs) \<and> 128 \<le> fst (hfree_next n vs)"
  "coalesced vs \<Longrightarrow> coalesced (snd (hfree_next n vs)) \<and>
     (snd (hfree_next n vs) = [] \<or> snd (hd (snd (hfree_next n vs))))"
  by (auto simp: hfree_next_def coalesced_Cons split: list.splits bool.splits prod.splits)

lemma hfree_prior_facts:
  "hsize (hfree_prior us (n, vs)) = hsize us + n + hsize vs"
  "hused (hfree_prior us (n, vs)) = hused us + hused vs"
  "sizes_ok us \<Longrightarrow> sizes_ok vs \<Longrightarrow> 64 dvd n \<Longrightarrow> 128 \<le> n \<Longrightarrow> sizes_ok (hfree_prior us (n, vs))"
  "coalesced us \<Longrightarrow> coalesced vs \<Longrightarrow> vs = [] \<or> snd (hd vs) \<Longrightarrow> coalesced (hfree_prior us (n, vs))"
  by (cases us rule: rev_cases; auto simp: hfree_prior_def coalesced_append coalesced_Cons)+

lemma hfree_facts:
  assumes "coalesced (us @ (n, True) # vs)" "sizes_ok (us @ (n, True) # vs)"
  shows "hsize (hfree us n vs) = hsize us + n + hsize vs" "hused (hfree us n vs) = hused us + hused vs"
    "sizes_ok (hfree us n vs)" "coalesced (hfree us n vs)"
  using assms hfree_prior_facts [where us = us and n = "fst (hfree_next n vs)" and vs = "snd (hfree_next n vs)"] hfree_next_facts [where n = n and vs = vs]
  by (simp_all add: hfree_def coalesced_append coalesced_Cons)

text \<open>\<^verbatim>\<open>heap_free\<close> on the block between \<open>us\<close> and \<open>vs\<close> refines the abstract free.\<close>

lemma heap_free_block_spec:
  assumes rep: "chunk_rep m c (us @ (n, True) # vs)"
  defines "off \<equiv> hsize us"
  obtains m' c' where "heap_free_block m c (of_nat off) = Some (m', c')" "chunk_rep m' c' (hfree us n vs)"
    "hc_card_owner c' = hc_card_owner c" "hc_address c' = hc_address c" "hc_bytes c' = hc_bytes c"
    "\<And>a. a \<notin> (\<lambda>k. hc_address c + of_nat k) ` {0..<off + n} \<Longrightarrow> m' a = m a"
proof -
  let ?b = "hc_address c" and ?t = "first_free (off + n) vs ZZM_HEAP_NONE"
  let ?a = "?b + of_nat off"
  have p: "prefix_rep m c (us @ (n, True) # vs) ZZM_HEAP_NONE" using rep by (simp add: chunk_rep_def)
  have r: "prefix_rep m c us ?t" "hb_bytes (m ?a) = of_nat n" "heap_rep m ?b (off + n) vs ZZM_HEAP_NONE"
      "sizes_ok us" "sizes_ok vs" "128 \<le> n" "off + n + hsize vs \<le> 1048576" "64 dvd n"
    using p by (auto simp: prefix_rep_split off_def) (simp add: prefix_rep_def)
  define c1 where "c1 = c\<lparr>hc_used := hc_used c - of_nat n\<rparr>"
  define m1 where "m1 = m(?a := (m ?a)\<lparr>hb_magic := ZZM_HEAP_FREE_MAGIC\<rparr>)"
  define m2 where "m2 = m1(?a := (m1 ?a)\<lparr>hb_next := ?t\<rparr>)"
  have out: "off \<notin> set (starts 0 us)" "off \<notin> set (starts (off + n) vs)"
    using starts_bounds [OF r(4), of off 0] starts_bounds [OF r(5), of off "off + n"] r(6) by (auto simp: off_def)
  have pre1: "prefix_rep m1 c1 us ?t" and pre2: "prefix_rep m2 c1 us ?t"
    using r(1,4,7) out(1) by (simp_all add: prefix_rep_def m1_def m2_def c1_def heap_rep_put del: fun_upd_upd)
  have "heap_free_walk m1 c1 (of_nat off) ChunkHead = heap_free_walk m1 c1 (of_nat off) (last_link us)"
    using free_walk_skip [of m1 c1 0 us ?t ChunkHead off] pre1 r(7) by (simp add: prefix_rep_def link_from_head off_def)
  also have "\<dots> = Some (last_link us)"
  proof -
    have "?t = ZZM_HEAP_NONE \<or> \<not> ?t < of_nat off"
      using first_free_cases [of "off + n" vs ZZM_HEAP_NONE] starts_bounds [OF r(5), of _ "off + n"] r(7)
      by (fastforce simp: word_less_nat_alt unat_of_nat)
    then show ?thesis using read_last_link [OF pre1] by (subst heap_free_walk.simps) (auto simp: Let_def)
  qed
  finally have walk: "heap_free_walk m1 c1 (of_nat off) ChunkHead = Some (last_link us)" .
  define c3 where "c3 = c1\<lparr>hc_free_head := first_free 0 us (of_nat off)\<rparr>"
  obtain m3 where w: "write_link (last_link us) (of_nat off) m2 c1 = (m3, c3)" "prefix_rep m3 c3 us (of_nat off)"
      "\<And>a. a \<notin> (\<lambda>k. ?b + of_nat k) ` set (starts 0 us) \<Longrightarrow> m3 a = m2 a"
    using write_last_link [OF pre2, of "of_nat off"] by (auto simp: c3_def c1_def)
  have pre: "a \<notin> (\<lambda>k. ?b + of_nat k) ` set (starts 0 us)" if "a \<notin> (\<lambda>k. ?b + of_nat k) ` {0..<off}" for a
  proof -
    have "set (starts 0 us) \<subseteq> {0..<off}" using starts_bounds [OF r(4), of _ 0] by (fastforce simp: off_def)
    with that show ?thesis by (meson image_mono subsetD)
  qed
  have keep: "m3 (?b + of_nat k) = m2 (?b + of_nat k)" if "off \<le> k" "k < 4294967296" for k
  proof (rule w(3) [OF pre], rule notI)
    assume "?b + of_nat k \<in> (\<lambda>k. ?b + of_nat k) ` {0..<off}"
    then obtain j where "j < off" "(of_nat k :: u32) = of_nat j" by auto
    with r(7) that show False by auto
  qed
  have "heap_rep m3 ?b (off + n) vs ZZM_HEAP_NONE = heap_rep m ?b (off + n) vs ZZM_HEAP_NONE"
  proof (rule heap_rep_frame)
    fix k assume "k \<in> set (starts (off + n) vs)"
    then have k: "off + n \<le> k" "k + 128 \<le> off + n + hsize vs" using starts_bounds [OF r(5)] by blast+
    have "(of_nat k :: u32) \<noteq> of_nat off" using k r(6,7) by simp
    then show "m3 (?b + of_nat k) = m (?b + of_nat k)" using keep [of k] k r(7) by (simp add: m2_def m1_def)
  qed
  then have p3: "prefix_rep m3 c3 (us @ (n, False) # vs) ZZM_HEAP_NONE"
    using w(2) r keep [of off] by (simp add: prefix_rep_split off_def c3_def c1_def m2_def m1_def)
  define m4 where "m4 = heap_merge_next c (of_nat off) m3"
  note mn = merge_next_rep [OF p3]
  have acc: "hc_address c3 = ?b" "heap_block_at m' c3 = heap_block_at m' c" "heap_block_put c3 = heap_block_put c" for m'
    by (simp_all add: fun_eq_iff heap_block_at_def heap_block_put_def c3_def c1_def)
  have cc: "heap_merge_next c3 x m' = heap_merge_next c x m'" "heap_merge_prior c3 x l m' = heap_merge_prior c x l m'"
    for x l m' by (simp_all only: heap_merge_next_def heap_merge_prior_def acc)
  have p4: "prefix_rep m4 c3 (us @ (fst (hfree_next n vs), False) # snd (hfree_next n vs)) ZZM_HEAP_NONE"
    using mn(1) by (simp add: cc m4_def off_def)
  note mp = merge_prior_rep [OF p4]
  have "coalesced (us @ (n, True) # vs)" "sizes_ok (us @ (n, True) # vs)"
    using rep by (simp_all add: chunk_rep_def prefix_rep_def)
  note f = hfree_facts [OF this]
  show ?thesis
  proof (rule that)
    show "heap_free_block m c (of_nat off) = Some (heap_merge_prior c (of_nat off) (last_link us) m4, c3)"
      using walk w(1) read_last_link [OF pre1] r(2)
      by (simp add: heap_free_block_def heap_block_at_def heap_block_put_def m4_def
          m1_def [symmetric] c1_def [symmetric] m2_def [symmetric])
    show "chunk_rep (heap_merge_prior c (of_nat off) (last_link us) m4) c3 (hfree us n vs)"
      using mp(1) rep f
      by (simp add: chunk_rep_def cc off_def hfree_def) (simp add: c3_def c1_def)
    show "heap_merge_prior c (of_nat off) (last_link us) m4 a = m a"
      if "a \<notin> (\<lambda>k. ?b + of_nat k) ` {0..<off + n}" for a
    proof -
      have "a \<noteq> ?a" "a \<notin> (\<lambda>k. ?b + of_nat k) ` {0..<off}" using that r(6) by auto
      then show ?thesis using mp(2) [of a] mn(2) [of a] w(3) [OF pre] pre
        by (simp add: cc acc off_def m4_def m2_def m1_def)
    qed
  qed (simp_all add: c3_def c1_def)
qed

end
