(* ===== verification/ModuleHeap.thy ===== *)
theory ModuleHeap
  imports HeapChunk CardPool
begin

unbundle bit_operations_syntax

text \<open>
  The module heap, \<^verbatim>\<open>zzm_runtime.c\<close>: the \<^verbatim>\<open>malloc\<close> service of loaded modules over the
  card pool. Requests below 128 KiB are carved from chunks of up to 1 MiB that the
  heap takes from the pool for the same owner (\<open>HeapChunk\<close>); larger ones go to the
  pool. The chunk table can fall behind the pool, because a revocation or a reset
  drops pool blocks without telling the heap: a chunk whose block is gone is
  detected by \<^verbatim>\<open>card_pool_block_owned\<close> and forgotten with all chunks of its owner.

  The heap lock makes each call one step. \<open>None\<close> stands for a list walk that does not
  end; the theorems show that it does not happen on a well-formed heap.
\<close>

section \<open>State\<close>

record module_heap =
  heap_chunks :: "heap_chunk list"
  heap_mem :: heap_mem
  heap_pool :: card_pool

definition heap_chunk_empty :: heap_chunk where
  "heap_chunk_empty = \<lparr>hc_card_owner = 0, hc_address = 0, hc_bytes = 0, hc_free_head = 0, hc_used = 0\<rparr>"

definition module_heap_init :: "card_pool \<Rightarrow> heap_mem \<Rightarrow> module_heap" where
  "module_heap_init p m = \<lparr>heap_chunks = replicate ZZM_HEAP_MAX_CHUNKS heap_chunk_empty, heap_mem = m, heap_pool = p\<rparr>"

text \<open>The pool owner of a module allocation: the class of the memory class, the low 24 owner bits.\<close>

definition module_card_class :: "u32 \<Rightarrow> u32" where
  "module_card_class memory_class =
     (if memory_class = 1 then 2 \<comment> \<open>MEDIA\<close>
      else if memory_class = 2 then 4 \<comment> \<open>MEDIA_INPUT\<close>
      else if memory_class = 3 then 3 \<comment> \<open>IMAGE\<close>
      else if memory_class = 5 then 9 \<comment> \<open>MINIGL_MODULE\<close>
      else if memory_class = 6 then 10 \<comment> \<open>MINIGL_TRANSPORT\<close>
      else if memory_class = 7 then 11 \<comment> \<open>MINIGL_CONTEXT\<close>
      else if memory_class = 8 then 12 \<comment> \<open>MINIGL_APP_CONTEXT\<close>
      else if memory_class = 9 then 13 \<comment> \<open>MINIGL_RIX\<close>
      else of_nat CARD_POOL_CLASS_FIRMWARE)"

definition module_card_owner :: "u32 \<Rightarrow> u32 \<Rightarrow> u32" where
  "module_card_owner owner memory_class = CARD_POOL_OWNER (module_card_class memory_class) (owner AND 0x00ffffff)"

definition module_owner_used :: "u32 \<Rightarrow> card_pool \<Rightarrow> u32" where
  "module_owner_used owner p =
     foldl (\<lambda>used b. if cpb_owner b = owner then used + cpb_size b else used) 0 (cp_blocks p)"

section \<open>The heap\<close>

definition heap_forget_owner :: "u32 \<Rightarrow> module_heap \<Rightarrow> module_heap" where
  "heap_forget_owner card_owner h =
     h\<lparr>heap_chunks := map (\<lambda>c. if hc_card_owner c = card_owner then heap_chunk_empty else c) (heap_chunks h)\<rparr>"

definition heap_put_chunk :: "nat \<Rightarrow> heap_chunk \<Rightarrow> heap_mem \<Rightarrow> module_heap \<Rightarrow> module_heap" where
  "heap_put_chunk i c m h = h\<lparr>heap_chunks := (heap_chunks h)[i := c], heap_mem := m\<rparr>"

text \<open>The first loop of \<^verbatim>\<open>heap_alloc\<close>: try the owner's chunks, stop at a stale one.\<close>

fun heap_scan :: "nat list \<Rightarrow> u32 \<Rightarrow> u32 \<Rightarrow> module_heap \<Rightarrow> (u32 \<times> module_heap) option" where
  "heap_scan [] card_owner need h = Some (0, h)"
| "heap_scan (i # is) card_owner need h =
     (let c = heap_chunks h ! i
      in if hc_card_owner c \<noteq> card_owner then heap_scan is card_owner need h
         else if \<not> card_pool_block_owned (hc_address c) (hc_bytes c) card_owner (heap_pool h)
         then Some (0, heap_forget_owner card_owner h)
         else case heap_take (heap_mem h) c need of
                None \<Rightarrow> None
              | Some (a, m, c') \<Rightarrow>
                  (if a \<noteq> 0 then Some (a, heap_put_chunk i c' m h)
                   else heap_scan is card_owner need (heap_put_chunk i c' m h)))"

definition heap_need :: "u32 \<Rightarrow> u32" where
  "heap_need bytes = (bytes + heap_header_bytes + ZZM_HEAP_GRANULE - 1) AND NOT (ZZM_HEAP_GRANULE - 1)"

definition heap_chunk_size :: "u32 \<Rightarrow> u32 \<Rightarrow> u32" where
  "heap_chunk_size used quota =
     (if used > quota then 0
      else if quota - used < ZZM_HEAP_CHUNK_BYTES then (quota - used) AND NOT (CARD_POOL_PAGE_BYTES - 1)
      else ZZM_HEAP_CHUNK_BYTES)"

text \<open>The second half: a chunk from the pool when the table has a slot.\<close>

definition heap_grow :: "u32 \<Rightarrow> u32 \<Rightarrow> u32 \<Rightarrow> module_heap \<Rightarrow> (u32 \<times> module_heap) option" where
  "heap_grow card_owner quota need h =
     (let chunk_bytes = heap_chunk_size (module_owner_used card_owner (heap_pool h)) quota
      in case List.find (\<lambda>i. hc_card_owner (heap_chunks h ! i) = 0) [0..<ZZM_HEAP_MAX_CHUNKS] of
           None \<Rightarrow> Some (0, h)
         | Some i \<Rightarrow>
             if chunk_bytes < need then Some (0, h)
             else case card_pool_alloc chunk_bytes card_owner (heap_pool h) of (base, p) \<Rightarrow>
               if base = 0 then Some (0, h\<lparr>heap_pool := p\<rparr>)
               else let block = \<lparr>hb_magic = ZZM_HEAP_FREE_MAGIC, hb_bytes = chunk_bytes, hb_next = ZZM_HEAP_NONE\<rparr>;
                        c = \<lparr>hc_card_owner = card_owner, hc_address = base, hc_bytes = chunk_bytes,
                             hc_free_head = 0, hc_used = 0\<rparr>
                    in case heap_take ((heap_mem h)(base := block)) c need of
                         None \<Rightarrow> None
                       | Some (a, m, c') \<Rightarrow> Some (a, heap_put_chunk i c' m (h\<lparr>heap_pool := p\<rparr>)))"

definition heap_alloc :: "u32 \<Rightarrow> u32 \<Rightarrow> u32 \<Rightarrow> module_heap \<Rightarrow> (u32 \<times> module_heap) option" where
  "heap_alloc card_owner quota bytes h =
     (case heap_scan [0..<ZZM_HEAP_MAX_CHUNKS] card_owner (heap_need bytes) h of
        None \<Rightarrow> None
      | Some (a, h1) \<Rightarrow> if a \<noteq> 0 then Some (a, h1) else heap_grow card_owner quota (heap_need bytes) h1)"

text \<open>\<^verbatim>\<open>heap_free\<close>: the slots from \<open>is\<close> on; the result tells whether a chunk block was freed.\<close>

definition heap_free_hit :: "heap_chunk \<Rightarrow> u32 \<Rightarrow> u32 \<Rightarrow> bool" where
  "heap_free_hit c address owner \<longleftrightarrow> \<not> (hc_card_owner c = 0 \<or>
     hc_card_owner c AND 0x00ffffff \<noteq> owner AND 0x00ffffff \<or>
     address < hc_address c + heap_header_bytes \<or> address \<ge> hc_address c + hc_bytes c)"

fun heap_free_scan :: "nat list \<Rightarrow> u32 \<Rightarrow> u32 \<Rightarrow> module_heap \<Rightarrow> (bool \<times> module_heap) option" where
  "heap_free_scan [] address owner h = Some (False, h)"
| "heap_free_scan (i # is) address owner h =
     (let c = heap_chunks h ! i; offset = address - hc_address c - heap_header_bytes
      in if \<not> heap_free_hit c address owner then heap_free_scan is address owner h
         else if \<not> card_pool_block_owned (hc_address c) (hc_bytes c) (hc_card_owner c) (heap_pool h)
         then Some (False, heap_forget_owner (hc_card_owner c) h)
         else if offset AND (ZZM_HEAP_GRANULE - 1) \<noteq> 0 \<or>
                 hb_magic (heap_block_at (heap_mem h) c offset) \<noteq> ZZM_HEAP_USED_MAGIC
         then Some (False, h)
         else case heap_free_block (heap_mem h) c offset of
                None \<Rightarrow> None
              | Some (m, c') \<Rightarrow>
                  Some (True,
                    if hc_used c' = 0
                    then (heap_put_chunk i heap_chunk_empty m h)
                           \<lparr>heap_pool := snd (card_pool_free (hc_address c') (hc_card_owner c') (heap_pool h))\<rparr>
                    else heap_put_chunk i c' m h))"

definition heap_free :: "u32 \<Rightarrow> u32 \<Rightarrow> module_heap \<Rightarrow> (bool \<times> module_heap) option" where
  "heap_free address owner h = heap_free_scan [0..<ZZM_HEAP_MAX_CHUNKS] address owner h"

section \<open>The memory service\<close>

definition module_card_alloc :: "u32 \<Rightarrow> u32 \<Rightarrow> u32 \<Rightarrow> u32 \<Rightarrow> module_heap \<Rightarrow> (u32 \<times> module_heap) option" where
  "module_card_alloc owner memory_class quota bytes h =
     (let card_owner = module_card_owner owner memory_class
      in if bytes = 0 \<or> quota = 0 \<or> bytes > quota then Some (0, h)
         else if bytes < ZZM_HEAP_DIRECT_BYTES then heap_alloc card_owner quota bytes h
         else if module_owner_used card_owner (heap_pool h) > quota - bytes then Some (0, h)
         else case card_pool_alloc bytes card_owner (heap_pool h) of (a, p) \<Rightarrow> Some (a, h\<lparr>heap_pool := p\<rparr>))"

definition module_card_free :: "u32 \<Rightarrow> u32 \<Rightarrow> module_heap \<Rightarrow> (bool \<times> module_heap) option" where
  "module_card_free address owner h =
     (case heap_free address owner h of
        None \<Rightarrow> None
      | Some (True, h1) \<Rightarrow> Some (True, h1)
      | Some (False, h1) \<Rightarrow>
          (case List.find (\<lambda>b. cpb_addr b = address \<and> cpb_owner b AND 0x00ffffff = owner AND 0x00ffffff)
                  (cp_blocks (heap_pool h1)) of
             None \<Rightarrow> Some (False, h1)
           | Some b \<Rightarrow> (case card_pool_free address (cpb_owner b) (heap_pool h1) of
                          (freed, p) \<Rightarrow> Some (freed, h1\<lparr>heap_pool := p\<rparr>))))"

definition module_release_owner :: "u32 \<Rightarrow> module_heap \<Rightarrow> u32 \<times> module_heap" where
  "module_release_owner owner h =
     (let h1 = heap_forget_owner owner h
      in case card_pool_release_owner owner (heap_pool h1) of (freed, p) \<Rightarrow> (freed, h1\<lparr>heap_pool := p\<rparr>))"

end
