(* ===== verification/HeapSafety.thy ===== *)
theory HeapSafety
  imports ModuleHeap
begin

unbundle bit_operations_syntax

text \<open>
  The module heap keeps its promise: what it hands out is live in exactly one
  hand. \<open>heap_inv\<close> holds with stale chunks in the table; \<open>heap_synced\<close> adds that there
  are none, which every call of the memory service itself preserves, and under it
  the heap is a \<open>region_allocator\<close>.
\<close>

section \<open>The blocks of a chunk, read from memory\<close>

fun chunk_walk :: "nat \<Rightarrow> heap_mem \<Rightarrow> u32 \<Rightarrow> nat \<Rightarrow> nat \<Rightarrow> hblocks" where
  "chunk_walk 0 m b off en = []"
| "chunk_walk (Suc f) m b off en =
     (if off < en
      then let k = unat (hb_bytes (m (b + of_nat off)))
           in (k, hb_magic (m (b + of_nat off)) = ZZM_HEAP_USED_MAGIC) # chunk_walk f m b (off + k) en
      else [])"

definition chunk_blocks :: "heap_mem \<Rightarrow> heap_chunk \<Rightarrow> hblocks" where
  "chunk_blocks m c = chunk_walk (unat (hc_bytes c)) m (hc_address c) 0 (unat (hc_bytes c))"

lemma magic_neq [simp]: "ZZM_HEAP_USED_MAGIC \<noteq> ZZM_HEAP_FREE_MAGIC" "ZZM_HEAP_FREE_MAGIC \<noteq> ZZM_HEAP_USED_MAGIC"
  by (simp_all add: heap_consts)

lemma chunk_walk_rep:
  assumes "heap_rep m b off bs t" "sizes_ok bs" "off + hsize bs = en" "en \<le> 1048576" "hsize bs \<le> f"
  shows "chunk_walk f m b off en = bs"
  using assms
proof (induction bs arbitrary: off f)
  case Nil
  then show ?case by (cases f) auto
next
  case (Cons x bs)
  obtain n u where x: "x = (n, u)" by fastforce
  obtain f' where f: "f = Suc f'" using Cons.prems x by (cases f) auto
  have "unat (hb_bytes (m (b + of_nat off))) = n" using Cons.prems x by (simp add: unat_of_nat)
  then show ?case using Cons.IH [of "off + n" f'] Cons.prems x f by auto
qed

lemma chunk_blocks_rep: "chunk_rep m c bs \<Longrightarrow> chunk_blocks m c = bs"
  using chunk_walk_rep [of m "hc_address c" 0 bs ZZM_HEAP_NONE] by (auto simp: chunk_blocks_def chunk_rep_def prefix_rep_def)

lemma chunk_rep_frame:
  assumes "chunk_rep m c bs" "\<And>k. k < hsize bs \<Longrightarrow> m' (hc_address c + of_nat k) = m (hc_address c + of_nat k)"
  shows "chunk_rep m' c bs"
proof -
  have s: "sizes_ok bs" using assms(1) by (simp add: chunk_rep_def prefix_rep_def)
  have "heap_rep m' (hc_address c) 0 bs ZZM_HEAP_NONE = heap_rep m (hc_address c) 0 bs ZZM_HEAP_NONE"
    using assms(2) starts_bounds [OF s] by (intro heap_rep_frame) fastforce
  then show ?thesis using assms(1) by (simp add: chunk_rep_def prefix_rep_def)
qed

text \<open>The payloads of the used blocks.\<close>

fun used_regions :: "nat \<Rightarrow> hblocks \<Rightarrow> region list" where
  "used_regions base [] = []"
| "used_regions base ((n, u) # bs) = (if u then [(base + 64, n - 64)] else []) @ used_regions (base + n) bs"

definition chunk_live :: "heap_mem \<Rightarrow> heap_chunk \<Rightarrow> region set" where
  "chunk_live m c = set (used_regions (unat (hc_address c)) (chunk_blocks m c))"

lemma used_regions_append [simp]:
  "used_regions base (xs @ ys) = used_regions base xs @ used_regions (base + hsize xs) ys"
  by (induction xs arbitrary: base) (auto simp: add.assoc)

lemma used_regions_bounds:
  "sizes_ok bs \<Longrightarrow> x \<in> set (used_regions base bs) \<Longrightarrow>
    base + 64 \<le> fst x \<and> region_end x \<le> base + hsize bs \<and> 64 \<le> snd x \<and> (64 dvd base \<longrightarrow> 64 dvd fst x)"
proof (induction bs arbitrary: base)
  case (Cons y bs)
  obtain n u where y: "y = (n, u)" by fastforce
  from Cons.prems(2) consider "x = (base + 64, n - 64)" | "x \<in> set (used_regions (base + n) bs)"
    by (auto simp: y split: if_splits)
  then show ?case
  proof cases
    case 2
    then show ?thesis using Cons.IH [of "base + n"] Cons.prems(1) by (auto simp: y)
  qed (use Cons.prems(1) in \<open>auto simp: y region_end_def\<close>)
qed simp

lemma used_regions_sorted: "sizes_ok bs \<Longrightarrow> regions_ok (used_regions base bs)"
proof (induction bs arbitrary: base)
  case (Cons y bs)
  obtain n u where y: "y = (n, u)" by fastforce
  have s: "sizes_ok bs" "128 \<le> n" using Cons.prems by (auto simp: y)
  have "before (base + 64, n - 64) x" if "x \<in> set (used_regions (base + n) bs)" for x
    using used_regions_bounds [OF s(1) that] s(2) by (auto simp: before_def region_end_def)
  then show ?case using Cons.IH [OF s(1)] s(2) by (simp add: y regions_ok_Cons)
qed simp

section \<open>The heap invariant\<close>

definition heap_backed :: "card_pool \<Rightarrow> heap_chunk \<Rightarrow> bool" where
  "heap_backed p c \<longleftrightarrow> hc_card_owner c \<noteq> 0 \<and>
     card_pool_block_owned (hc_address c) (hc_bytes c) (hc_card_owner c) p"

definition chunk_block :: "heap_chunk \<Rightarrow> card_pool_block" where
  "chunk_block c = \<lparr>cpb_addr = hc_address c, cpb_size = hc_bytes c, cpb_owner = hc_card_owner c\<rparr>"

definition heap_inv :: "module_heap \<Rightarrow> bool" where
  "heap_inv h \<longleftrightarrow> length (heap_chunks h) = ZZM_HEAP_MAX_CHUNKS \<and> cp_inv (heap_pool h) \<and>
     (\<forall>c\<in>set (heap_chunks h). heap_backed (heap_pool h) c \<longrightarrow>
        chunk_block c \<in> set (cp_blocks (heap_pool h)) \<and> (\<exists>bs. chunk_rep (heap_mem h) c bs)) \<and>
     (\<forall>i<ZZM_HEAP_MAX_CHUNKS. \<forall>j<ZZM_HEAP_MAX_CHUNKS.
        i \<noteq> j \<longrightarrow> heap_backed (heap_pool h) (heap_chunks h ! i) \<longrightarrow> heap_backed (heap_pool h) (heap_chunks h ! j) \<longrightarrow>
        hc_address (heap_chunks h ! i) \<noteq> hc_address (heap_chunks h ! j))"

text \<open>No stale chunk, of this owner or at all.\<close>

definition owner_synced :: "u32 \<Rightarrow> module_heap \<Rightarrow> bool" where
  "owner_synced card_owner h \<longleftrightarrow>
     (\<forall>c\<in>set (heap_chunks h). hc_card_owner c = card_owner \<and> card_owner \<noteq> 0 \<longrightarrow> heap_backed (heap_pool h) c)"

definition heap_synced :: "module_heap \<Rightarrow> bool" where
  "heap_synced h \<longleftrightarrow> (\<forall>c\<in>set (heap_chunks h). hc_card_owner c \<noteq> 0 \<longrightarrow> heap_backed (heap_pool h) c)"

text \<open>What clients hold: payloads of used chunk blocks, and pool blocks that are no chunk.\<close>

definition heap_direct :: "module_heap \<Rightarrow> card_pool_block set" where
  "heap_direct h = {b \<in> set (cp_blocks (heap_pool h)).
     \<forall>c\<in>set (heap_chunks h). heap_backed (heap_pool h) c \<longrightarrow> chunk_block c \<noteq> b}"

definition heap_live :: "module_heap \<Rightarrow> region set" where
  "heap_live h = (\<Union>c\<in>{c \<in> set (heap_chunks h). heap_backed (heap_pool h) c}. chunk_live (heap_mem h) c) \<union>
     cpb_region ` heap_direct h"

text \<open>Facts of one backed chunk.\<close>

lemma heap_invD:
  assumes inv: "heap_inv h"
  shows "length (heap_chunks h) = 128" "cp_inv (heap_pool h)"
    "\<And>c. c \<in> set (heap_chunks h) \<Longrightarrow> heap_backed (heap_pool h) c \<Longrightarrow> chunk_block c \<in> set (cp_blocks (heap_pool h))"
    "\<And>c. c \<in> set (heap_chunks h) \<Longrightarrow> heap_backed (heap_pool h) c \<Longrightarrow> \<exists>bs. chunk_rep (heap_mem h) c bs"
    "\<And>i j. i < 128 \<Longrightarrow> j < 128 \<Longrightarrow> heap_backed (heap_pool h) (heap_chunks h ! i) \<Longrightarrow>
       heap_backed (heap_pool h) (heap_chunks h ! j) \<Longrightarrow> hc_address (heap_chunks h ! i) = hc_address (heap_chunks h ! j) \<Longrightarrow> i = j"
  using inv by (auto simp: heap_inv_def heap_consts)

definition chunk_addrs :: "heap_chunk \<Rightarrow> u32 set" where
  "chunk_addrs c = (\<lambda>k. hc_address c + of_nat k) ` {0..<unat (hc_bytes c)}"

lemma chunk_addrs_unat:
  assumes "cp_inv p" "chunk_block c \<in> set (cp_blocks p)" "a \<in> chunk_addrs c"
  shows "unat (hc_address c) \<le> unat a \<and> unat a < unat (hc_address c) + unat (hc_bytes c)"
proof -
  obtain k where k: "a = hc_address c + of_nat k" "k < unat (hc_bytes c)" using assms(3) by (auto simp: chunk_addrs_def)
  have "unat (hc_address c) + unat (hc_bytes c) < 4294967296"
    using cp_block_bounds(2) [OF assms(1,2)] by (simp add: chunk_block_def cpb_end_def)
  then have "unat a = unat (hc_address c) + k"
    using k by (simp add: unat_plus_no_wrap unat_of_nat)
  then show ?thesis using k(2) by simp
qed

lemma chunk_addrs_disjoint:
  assumes p: "cp_inv p" and c: "chunk_block c \<in> set (cp_blocks p)" and c': "chunk_block c' \<in> set (cp_blocks p)"
    and ne: "hc_address c \<noteq> hc_address c'"
  shows "chunk_addrs c \<inter> chunk_addrs c' = {}"
proof -
  have "chunk_block c \<noteq> chunk_block c'" using ne by (auto simp: chunk_block_def)
  then have "disjoint_regions (cpb_region (chunk_block c)) (cpb_region (chunk_block c'))"
    by (rule cp_blocks_apart [OF p c c'])
  then show ?thesis using chunk_addrs_unat [OF p c] chunk_addrs_unat [OF p c']
    by (fastforce simp: disjoint_regions_def before_def region_end_def cpb_region_def chunk_block_def)
qed

lemma heap_backed_cong:
  "hc_card_owner c' = hc_card_owner c \<Longrightarrow> hc_address c' = hc_address c \<Longrightarrow> hc_bytes c' = hc_bytes c \<Longrightarrow>
    heap_backed p c' = heap_backed p c"
  by (simp add: heap_backed_def)

lemma heap_backed_empty [simp]: "\<not> heap_backed p heap_chunk_empty"
  by (simp add: heap_backed_def heap_chunk_empty_def)

section \<open>Live regions\<close>

text \<open>Everything live except what sits in the chunk of slot \<open>i\<close>.\<close>

definition heap_rest :: "nat \<Rightarrow> module_heap \<Rightarrow> region set" where
  "heap_rest i h = (\<Union>j\<in>{j. j < 128 \<and> j \<noteq> i \<and> heap_backed (heap_pool h) (heap_chunks h ! j)}.
     chunk_live (heap_mem h) (heap_chunks h ! j)) \<union> cpb_region ` heap_direct h"

lemma heap_live_split:
  assumes len: "length (heap_chunks h) = 128" and i: "i < 128"
  shows "heap_live h = heap_rest i h \<union>
    (if heap_backed (heap_pool h) (heap_chunks h ! i) then chunk_live (heap_mem h) (heap_chunks h ! i) else {})"
proof -
  have "{c \<in> set (heap_chunks h). heap_backed (heap_pool h) c} =
      (!) (heap_chunks h) ` {j. j < 128 \<and> heap_backed (heap_pool h) (heap_chunks h ! j)}"
    using len by (auto simp: in_set_conv_nth)
  moreover have "{j. j < 128 \<and> heap_backed (heap_pool h) (heap_chunks h ! j)} =
      {j. j < 128 \<and> j \<noteq> i \<and> heap_backed (heap_pool h) (heap_chunks h ! j)} \<union>
      (if heap_backed (heap_pool h) (heap_chunks h ! i) then {i} else {})"
    using i by auto
  ultimately show ?thesis unfolding heap_live_def heap_rest_def by (auto split: if_splits)
qed

text \<open>Every live region lies in one pool block.\<close>

lemma chunk_live_bounds:
  assumes inv: "heap_inv h" and c: "c \<in> set (heap_chunks h)" "heap_backed (heap_pool h) c"
    and x: "x \<in> chunk_live (heap_mem h) c"
  shows "unat (hc_address c) + 64 \<le> fst x" "region_end x \<le> unat (hc_address c) + unat (hc_bytes c)"
    "64 \<le> snd x" "64 dvd fst x"
proof -
  obtain bs where bs: "chunk_rep (heap_mem h) c bs" using heap_invD(4) [OF inv c] by blast
  then have s: "sizes_ok bs" "hsize bs = unat (hc_bytes c)" "x \<in> set (used_regions (unat (hc_address c)) bs)"
    using x by (auto simp: chunk_rep_def prefix_rep_def chunk_live_def chunk_blocks_rep [OF bs])
  have "64 dvd unat (hc_address c)"
    using cp_block_bounds(4) [OF heap_invD(2) [OF inv] heap_invD(3) [OF inv c]] by (simp add: chunk_block_def)
  then show "unat (hc_address c) + 64 \<le> fst x" "region_end x \<le> unat (hc_address c) + unat (hc_bytes c)"
    "64 \<le> snd x" "64 dvd fst x"
    using used_regions_bounds [OF s(1,3)] s(2) by simp_all
qed

definition region_within :: "region \<Rightarrow> region \<Rightarrow> bool" where
  "region_within x y \<longleftrightarrow> fst y \<le> fst x \<and> region_end x \<le> region_end y"

lemma region_within_disjoint:
  "region_within x x' \<Longrightarrow> region_within y y' \<Longrightarrow> disjoint_regions x' y' \<Longrightarrow> disjoint_regions x y"
  by (auto simp: region_within_def disjoint_regions_def before_def)

lemma chunk_live_within:
  assumes "heap_inv h" "c \<in> set (heap_chunks h)" "heap_backed (heap_pool h) c" "x \<in> chunk_live (heap_mem h) c"
  shows "region_within x (cpb_region (chunk_block c))"
  using chunk_live_bounds [OF assms] by (simp add: region_within_def cpb_region_def chunk_block_def region_end_def)

lemma heap_live_within:
  assumes inv: "heap_inv h" and x: "x \<in> heap_live h"
  shows "\<exists>b\<in>set (cp_blocks (heap_pool h)). region_within x (cpb_region b)"
proof -
  consider c where "c \<in> set (heap_chunks h)" "heap_backed (heap_pool h) c" "x \<in> chunk_live (heap_mem h) c"
    | b where "b \<in> heap_direct h" "x = cpb_region b" using x by (auto simp: heap_live_def)
  then show ?thesis
  proof cases
    case (1 c)
    then show ?thesis using heap_invD(3) [OF inv 1(1,2)] chunk_live_within [OF inv 1] by blast
  qed (auto simp: heap_direct_def region_within_def)
qed

lemma heap_live_disjoint:
  assumes inv: "heap_inv h" and x: "x \<in> heap_live h" and y: "y \<in> heap_live h" and ne: "x \<noteq> y"
  shows "disjoint_regions x y"
proof -
  note p = heap_invD(2) [OF inv]
  have cc: "disjoint_regions u v"
    if c: "c \<in> set (heap_chunks h)" "heap_backed (heap_pool h) c" "u \<in> chunk_live (heap_mem h) c"
      and b: "b \<in> heap_direct h" "v = cpb_region b" for c u b v
  proof -
    have "chunk_block c \<noteq> b" "b \<in> set (cp_blocks (heap_pool h))" using b(1) c(1,2) by (auto simp: heap_direct_def)
    then have "disjoint_regions (cpb_region (chunk_block c)) v"
      using cp_blocks_apart [OF p heap_invD(3) [OF inv c(1,2)]] b(2) by blast
    then show ?thesis using chunk_live_within [OF inv c]
      by (rule region_within_disjoint [rotated 2]) (auto simp: region_within_def)
  qed
  consider c c' where "c \<in> set (heap_chunks h)" "heap_backed (heap_pool h) c" "x \<in> chunk_live (heap_mem h) c"
      "c' \<in> set (heap_chunks h)" "heap_backed (heap_pool h) c'" "y \<in> chunk_live (heap_mem h) c'"
    | c b where "c \<in> set (heap_chunks h)" "heap_backed (heap_pool h) c" "x \<in> chunk_live (heap_mem h) c"
      "b \<in> heap_direct h" "y = cpb_region b"
    | c b where "c \<in> set (heap_chunks h)" "heap_backed (heap_pool h) c" "y \<in> chunk_live (heap_mem h) c"
      "b \<in> heap_direct h" "x = cpb_region b"
    | b b' where "b \<in> heap_direct h" "x = cpb_region b" "b' \<in> heap_direct h" "y = cpb_region b'"
    using x y by (auto simp: heap_live_def)
  then show ?thesis
  proof cases
    case (1 c c')
    show ?thesis
    proof (cases "c = c'")
      case True
      obtain bs where bs: "chunk_rep (heap_mem h) c bs" using heap_invD(4) [OF inv 1(1,2)] by blast
      have "sizes_ok bs" using bs by (simp add: chunk_rep_def prefix_rep_def)
      from regions_ok_pairwise [OF used_regions_sorted [OF this]] show ?thesis
        using 1(3,6) ne by (simp add: True [symmetric] chunk_live_def chunk_blocks_rep [OF bs])
    next
      case False
      then have "hc_address c \<noteq> hc_address c'" using 1 heap_invD(1,5) [OF inv] by (metis in_set_conv_nth)
      then have "chunk_block c \<noteq> chunk_block c'" by (auto simp: chunk_block_def)
      then show ?thesis
        using cp_blocks_apart [OF p heap_invD(3) [OF inv 1(1,2)] heap_invD(3) [OF inv 1(4,5)]]
          region_within_disjoint [OF chunk_live_within [OF inv 1(1-3)] chunk_live_within [OF inv 1(4-6)]] by blast
    qed
  next
    case 2
    then show ?thesis by (rule cc)
  next
    case 3
    then show ?thesis using cc disjoint_regions_sym by blast
  next
    case 4
    then show ?thesis using ne cp_blocks_apart [OF p] by (auto simp: heap_direct_def)
  qed
qed

section \<open>Changing one chunk\<close>

lemma heap_put_simps [simp]:
  "heap_pool (heap_put_chunk i c m h) = heap_pool h" "heap_mem (heap_put_chunk i c m h) = m"
  "heap_chunks (heap_put_chunk i c m h) = (heap_chunks h)[i := c]"
  by (simp_all add: heap_put_chunk_def)

lemma chunk_blocks_frame:
  assumes "chunk_rep m c bs" "\<And>a. a \<in> chunk_addrs c \<Longrightarrow> m' a = m a"
  shows "chunk_rep m' c bs" "chunk_live m' c = chunk_live m c"
proof -
  have len: "hsize bs = unat (hc_bytes c)" using assms(1) by (simp add: chunk_rep_def)
  show r: "chunk_rep m' c bs"
  proof (rule chunk_rep_frame [OF assms(1)])
    fix k assume "k < hsize bs"
    then show "m' (hc_address c + of_nat k) = m (hc_address c + of_nat k)"
      using len by (intro assms(2)) (auto simp: chunk_addrs_def)
  qed
  show "chunk_live m' c = chunk_live m c" by (simp add: chunk_live_def chunk_blocks_rep [OF assms(1)] chunk_blocks_rep [OF r])
qed

text \<open>Other chunks do not notice stores inside the block of one.\<close>

lemma other_chunk_frame:
  assumes inv: "heap_inv h" and j: "j < 128" "heap_backed (heap_pool h) (heap_chunks h ! j)"
    and b: "b \<in> set (cp_blocks (heap_pool h))" "chunk_block (heap_chunks h ! j) \<noteq> b" "chunk_block c = b"
    and frame: "\<And>a. a \<notin> chunk_addrs c \<Longrightarrow> m' a = heap_mem h a"
  shows "\<exists>bs. chunk_rep m' (heap_chunks h ! j) bs"
    "chunk_live m' (heap_chunks h ! j) = chunk_live (heap_mem h) (heap_chunks h ! j)"
proof -
  let ?c = "heap_chunks h ! j"
  have m: "?c \<in> set (heap_chunks h)" using j(1) heap_invD(1) [OF inv] by simp
  obtain bs where bs: "chunk_rep (heap_mem h) ?c bs" using heap_invD(4) [OF inv m j(2)] by blast
  have cb: "chunk_block ?c \<in> set (cp_blocks (heap_pool h))" using heap_invD(3) [OF inv m j(2)] .
  have "hc_address ?c \<noteq> hc_address c"
    using cp_block_eqI [OF heap_invD(2) [OF inv] cb b(1)] b(2,3) by (auto simp: chunk_block_def)
  then have "chunk_addrs ?c \<inter> chunk_addrs c = {}"
    using chunk_addrs_disjoint [OF heap_invD(2) [OF inv] cb] b(1,3) by blast
  then have "m' a = heap_mem h a" if "a \<in> chunk_addrs ?c" for a using that frame by blast
  from chunk_blocks_frame [OF bs this]
  show "\<exists>bs. chunk_rep m' ?c bs" "chunk_live m' ?c = chunk_live (heap_mem h) ?c" by blast+
qed

text \<open>
  Writing slot \<open>i\<close>: the new record describes a pool block \<open>b\<close> that no other slot
  describes, and stores stay inside it. This covers taking and freeing in a chunk
  and adopting a fresh block.
\<close>

lemma heap_put_ok:
  assumes inv: "heap_inv h" and i: "i < 128"
    and b: "chunk_block c' \<in> set (cp_blocks (heap_pool h))" "hc_card_owner c' \<noteq> 0"
    and uniq: "\<And>j. j < 128 \<Longrightarrow> j \<noteq> i \<Longrightarrow> heap_backed (heap_pool h) (heap_chunks h ! j) \<Longrightarrow>
      chunk_block (heap_chunks h ! j) \<noteq> chunk_block c'"
    and rep: "chunk_rep m' c' bs'"
    and frame: "\<And>a. a \<notin> chunk_addrs c' \<Longrightarrow> m' a = heap_mem h a"
  shows "heap_inv (heap_put_chunk i c' m' h)" "heap_backed (heap_pool h) c'"
    "heap_live (heap_put_chunk i c' m' h) = (\<Union>j\<in>{j. j < 128 \<and> j \<noteq> i \<and> heap_backed (heap_pool h) (heap_chunks h ! j)}.
       chunk_live (heap_mem h) (heap_chunks h ! j)) \<union>
       cpb_region ` {x \<in> set (cp_blocks (heap_pool h)). x \<noteq> chunk_block c' \<and>
         (\<forall>j<128. j \<noteq> i \<longrightarrow> heap_backed (heap_pool h) (heap_chunks h ! j) \<longrightarrow> chunk_block (heap_chunks h ! j) \<noteq> x)} \<union>
       set (used_regions (unat (hc_address c')) bs')"
proof -
  note I = heap_invD [OF inv]
  let ?h = "heap_put_chunk i c' m' h"
  have pos: "hc_address c' \<noteq> 0" "hc_bytes c' \<noteq> 0"
    using cp_block_bounds(1,3) [OF I(2) b(1)] by (auto simp: chunk_block_def)
  show bk: "heap_backed (heap_pool h) c'"
    using b pos unfolding heap_backed_def block_owned_iff [OF I(2)]
    by (auto intro!: bexI [OF _ b(1)] simp: chunk_block_def)
  have nth: "heap_chunks ?h ! j = (if j = i then c' else heap_chunks h ! j)" if "j < 128" for j
    using that I(1) i by simp
  note nth' = nth [unfolded heap_put_simps]
  have other: "\<exists>bs. chunk_rep m' (heap_chunks h ! j) bs"
      "chunk_live m' (heap_chunks h ! j) = chunk_live (heap_mem h) (heap_chunks h ! j)"
    if "j < 128" "j \<noteq> i" "heap_backed (heap_pool h) (heap_chunks h ! j)" for j
    using other_chunk_frame [OF inv that(1,3) b(1) uniq [OF that] refl frame] by blast+
  have addr: "hc_address (heap_chunks h ! j) \<noteq> hc_address c'"
    if j: "j < 128" "j \<noteq> i" "heap_backed (heap_pool h) (heap_chunks h ! j)" for j
  proof
    assume "hc_address (heap_chunks h ! j) = hc_address c'"
    then have "chunk_block (heap_chunks h ! j) = chunk_block c'"
      using cp_block_eqI [OF I(2) I(3) [OF _ j(3)] b(1)] j(1) I(1) by (auto simp: chunk_block_def)
    with uniq [OF j] show False by simp
  qed
  have each: "chunk_block (heap_chunks ?h ! j) \<in> set (cp_blocks (heap_pool h)) \<and> (\<exists>bs. chunk_rep m' (heap_chunks ?h ! j) bs)"
    if "j < 128" "heap_backed (heap_pool h) (heap_chunks ?h ! j)" for j
    using that b(1) rep I(1,3) other(1) [of j] by (auto simp: nth' split: if_splits)
  have sep: "hc_address (heap_chunks ?h ! j) \<noteq> hc_address (heap_chunks ?h ! k)"
    if "j < 128" "k < 128" "j \<noteq> k" "heap_backed (heap_pool h) (heap_chunks ?h ! j)"
       "heap_backed (heap_pool h) (heap_chunks ?h ! k)" for j k
    using that addr [of j] addr [of k] I(5) [of j k] by (auto simp: nth' split: if_splits)
  have len: "length (heap_chunks ?h) = 128" using I(1) by simp
  have "\<forall>c\<in>set (heap_chunks ?h). heap_backed (heap_pool h) c \<longrightarrow>
      chunk_block c \<in> set (cp_blocks (heap_pool h)) \<and> (\<exists>bs. chunk_rep m' c bs)"
    unfolding all_set_conv_all_nth len using each by blast
  moreover have "\<forall>j<128. \<forall>k<128. j \<noteq> k \<longrightarrow> heap_backed (heap_pool h) (heap_chunks ?h ! j) \<longrightarrow>
      heap_backed (heap_pool h) (heap_chunks ?h ! k) \<longrightarrow> hc_address (heap_chunks ?h ! j) \<noteq> hc_address (heap_chunks ?h ! k)"
    using sep by blast
  ultimately show "heap_inv ?h" unfolding heap_inv_def ZZM_HEAP_MAX_CHUNKS_def using len I(2) by simp
  have rest: "heap_direct ?h = {x \<in> set (cp_blocks (heap_pool h)). x \<noteq> chunk_block c' \<and>
      (\<forall>j<128. j \<noteq> i \<longrightarrow> heap_backed (heap_pool h) (heap_chunks h ! j) \<longrightarrow> chunk_block (heap_chunks h ! j) \<noteq> x)}"
  proof -
    have "(\<forall>c\<in>set (heap_chunks ?h). heap_backed (heap_pool h) c \<longrightarrow> chunk_block c \<noteq> x) \<longleftrightarrow> x \<noteq> chunk_block c' \<and>
      (\<forall>j<128. j \<noteq> i \<longrightarrow> heap_backed (heap_pool h) (heap_chunks h ! j) \<longrightarrow> chunk_block (heap_chunks h ! j) \<noteq> x)" for x
      unfolding all_set_conv_all_nth len using i bk nth by metis
    then show ?thesis by (simp add: heap_direct_def)
  qed
  have "heap_rest i ?h = (\<Union>j\<in>{j. j < 128 \<and> j \<noteq> i \<and> heap_backed (heap_pool h) (heap_chunks h ! j)}.
       chunk_live (heap_mem h) (heap_chunks h ! j)) \<union> cpb_region ` heap_direct ?h"
    unfolding heap_rest_def using other(2) by (intro arg_cong2 [where f = "(\<union>)"]) (auto simp: nth')
  moreover have "chunk_live m' c' = set (used_regions (unat (hc_address c')) bs')"
    by (simp add: chunk_live_def chunk_blocks_rep [OF rep])
  ultimately show "heap_live ?h = (\<Union>j\<in>{j. j < 128 \<and> j \<noteq> i \<and> heap_backed (heap_pool h) (heap_chunks h ! j)}.
       chunk_live (heap_mem h) (heap_chunks h ! j)) \<union>
       cpb_region ` {x \<in> set (cp_blocks (heap_pool h)). x \<noteq> chunk_block c' \<and>
         (\<forall>j<128. j \<noteq> i \<longrightarrow> heap_backed (heap_pool h) (heap_chunks h ! j) \<longrightarrow> chunk_block (heap_chunks h ! j) \<noteq> x)} \<union>
       set (used_regions (unat (hc_address c')) bs')"
    unfolding heap_live_split [OF len i] using bk nth [OF i] by (simp add: rest)
qed

lemma heap_direct_nth:
  assumes "length (heap_chunks h) = 128"
  shows "heap_direct h = {x \<in> set (cp_blocks (heap_pool h)).
    \<forall>j<128. heap_backed (heap_pool h) (heap_chunks h ! j) \<longrightarrow> chunk_block (heap_chunks h ! j) \<noteq> x}"
  using assms unfolding heap_direct_def by (simp add: all_set_conv_all_nth)

lemma heap_live_nth:
  assumes "length (heap_chunks h) = 128"
  shows "heap_live h = (\<Union>j\<in>{j. j < 128 \<and> heap_backed (heap_pool h) (heap_chunks h ! j)}.
     chunk_live (heap_mem h) (heap_chunks h ! j)) \<union> cpb_region ` heap_direct h"
  using assms unfolding heap_live_def by (auto simp: in_set_conv_nth)

text \<open>Blocks of distinct slots differ.\<close>

lemma chunk_block_uniq:
  assumes "heap_inv h" "i < 128" "j < 128" "j \<noteq> i" "heap_backed (heap_pool h) (heap_chunks h ! i)"
    "heap_backed (heap_pool h) (heap_chunks h ! j)"
  shows "chunk_block (heap_chunks h ! j) \<noteq> chunk_block (heap_chunks h ! i)"
  using heap_invD(5) [OF assms(1), of j i] assms(2-) by (auto simp: chunk_block_def)

lemma heap_update_chunk:
  assumes inv: "heap_inv h" and i: "i < 128" "heap_backed (heap_pool h) (heap_chunks h ! i)"
    and same: "chunk_block c' = chunk_block (heap_chunks h ! i)"
    and rep: "chunk_rep m' c' bs'"
    and frame: "\<And>a. a \<notin> chunk_addrs (heap_chunks h ! i) \<Longrightarrow> m' a = heap_mem h a"
  shows "heap_inv (heap_put_chunk i c' m' h)"
    "heap_live (heap_put_chunk i c' m' h) = heap_rest i h \<union> set (used_regions (unat (hc_address c')) bs')"
    "heap_backed (heap_pool h) c'"
proof -
  note I = heap_invD [OF inv]
  have mem: "heap_chunks h ! i \<in> set (heap_chunks h)" using i I(1) by simp
  have b: "chunk_block c' \<in> set (cp_blocks (heap_pool h))" "hc_card_owner c' \<noteq> 0"
    using I(3) [OF mem i(2)] i(2) same by (auto simp: chunk_block_def heap_backed_def)
  have "chunk_addrs c' = chunk_addrs (heap_chunks h ! i)" using same by (simp add: chunk_block_def chunk_addrs_def)
  then have f: "\<And>a. a \<notin> chunk_addrs c' \<Longrightarrow> m' a = heap_mem h a" using frame by simp
  have u: "\<And>j. j < 128 \<Longrightarrow> j \<noteq> i \<Longrightarrow> heap_backed (heap_pool h) (heap_chunks h ! j) \<Longrightarrow>
      chunk_block (heap_chunks h ! j) \<noteq> chunk_block c'"
    using chunk_block_uniq [OF inv i(1) _ _ i(2)] same by metis
  note P = heap_put_ok [OF inv i(1) b u rep f]
  show "heap_inv (heap_put_chunk i c' m' h)" "heap_backed (heap_pool h) c'" using P(1,2) by simp_all
  have "{x \<in> set (cp_blocks (heap_pool h)). x \<noteq> chunk_block c' \<and>
         (\<forall>j<128. j \<noteq> i \<longrightarrow> heap_backed (heap_pool h) (heap_chunks h ! j) \<longrightarrow> chunk_block (heap_chunks h ! j) \<noteq> x)} = heap_direct h"
    unfolding heap_direct_nth [OF I(1)] using i same by (intro Collect_cong) metis
  then show "heap_live (heap_put_chunk i c' m' h) = heap_rest i h \<union> set (used_regions (unat (hc_address c')) bs')"
    using P(3) unfolding heap_rest_def by simp
qed

lemma heap_adopt:
  assumes inv: "heap_inv h" and i: "i < 128" "\<not> heap_backed (heap_pool h) (heap_chunks h ! i)"
    and c: "chunk_block c' \<in> heap_direct h" "hc_card_owner c' \<noteq> 0"
    and rep: "chunk_rep m' c' bs'"
    and frame: "\<And>a. a \<notin> chunk_addrs c' \<Longrightarrow> m' a = heap_mem h a"
  shows "heap_inv (heap_put_chunk i c' m' h)" "heap_backed (heap_pool h) c'"
    "heap_live (heap_put_chunk i c' m' h) =
       (heap_live h - {cpb_region (chunk_block c')}) \<union> set (used_regions (unat (hc_address c')) bs')"
proof -
  note I = heap_invD [OF inv]
  have b: "chunk_block c' \<in> set (cp_blocks (heap_pool h))" using c(1) by (simp add: heap_direct_def)
  have u: "\<And>j. j < 128 \<Longrightarrow> j \<noteq> i \<Longrightarrow> heap_backed (heap_pool h) (heap_chunks h ! j) \<Longrightarrow>
      chunk_block (heap_chunks h ! j) \<noteq> chunk_block c'"
    using c(1) heap_direct_nth [OF I(1)] by blast
  note P = heap_put_ok [OF inv i(1) b c(2) u rep frame]
  show "heap_inv (heap_put_chunk i c' m' h)" "heap_backed (heap_pool h) c'" using P(1,2) by simp_all
  let ?L = "\<Union>j\<in>{j. j < 128 \<and> j \<noteq> i \<and> heap_backed (heap_pool h) (heap_chunks h ! j)}.
       chunk_live (heap_mem h) (heap_chunks h ! j)"
  have "{j. j < 128 \<and> j \<noteq> i \<and> heap_backed (heap_pool h) (heap_chunks h ! j)} =
      {j. j < 128 \<and> heap_backed (heap_pool h) (heap_chunks h ! j)}" using i by auto
  then have live: "heap_live h = ?L \<union> cpb_region ` heap_direct h" by (simp add: heap_live_nth [OF I(1)])
  have "{x \<in> set (cp_blocks (heap_pool h)). x \<noteq> chunk_block c' \<and>
         (\<forall>j<128. j \<noteq> i \<longrightarrow> heap_backed (heap_pool h) (heap_chunks h ! j) \<longrightarrow> chunk_block (heap_chunks h ! j) \<noteq> x)} =
      heap_direct h - {chunk_block c'}"
  proof -
    have "(\<forall>j<128. j \<noteq> i \<longrightarrow> heap_backed (heap_pool h) (heap_chunks h ! j) \<longrightarrow> chunk_block (heap_chunks h ! j) \<noteq> x) \<longleftrightarrow>
      (\<forall>j<128. heap_backed (heap_pool h) (heap_chunks h ! j) \<longrightarrow> chunk_block (heap_chunks h ! j) \<noteq> x)" for x
      using i(2) by metis
    then show ?thesis unfolding heap_direct_nth [OF I(1)] by blast
  qed
  moreover have "cpb_region ` (heap_direct h - {chunk_block c'}) = cpb_region ` heap_direct h - {cpb_region (chunk_block c')}"
  proof -
    have "inj_on cpb_region (heap_direct h)"
      using cp_region_inj [OF I(2)] by (auto simp: heap_direct_def intro!: inj_onI)
    then show ?thesis using c(1) by (simp add: inj_on_image_set_diff [where C = "heap_direct h"])
  qed
  moreover have "cpb_region (chunk_block c') \<notin> ?L"
  proof
    assume "cpb_region (chunk_block c') \<in> ?L"
    then obtain j where j: "j < 128" "j \<noteq> i" "heap_backed (heap_pool h) (heap_chunks h ! j)"
        "cpb_region (chunk_block c') \<in> chunk_live (heap_mem h) (heap_chunks h ! j)" by auto
    have m: "heap_chunks h ! j \<in> set (heap_chunks h)" using j(1) I(1) by simp
    have d: "disjoint_regions (cpb_region (chunk_block (heap_chunks h ! j))) (cpb_region (chunk_block c'))"
      using cp_blocks_apart [OF I(2) I(3) [OF m j(3)] b u [OF j(1-3)]] .
    have "disjoint_regions (cpb_region (chunk_block c')) (cpb_region (chunk_block c'))"
      using region_within_disjoint [OF chunk_live_within [OF inv m j(3,4)] _ d] by (simp add: region_within_def)
    then show False using cp_block_bounds(3) [OF I(2) b]
      by (auto simp: disjoint_regions_def before_def region_end_def cpb_region_def)
  qed
  ultimately show "heap_live (heap_put_chunk i c' m' h) =
       (heap_live h - {cpb_region (chunk_block c')}) \<union> set (used_regions (unat (hc_address c')) bs')"
    using P(3) live by auto
qed

section \<open>Losing chunks and blocks\<close>

text \<open>
  Slots may be cleared, pool blocks may go, and bytes outside the chunks that stay may
  change: what is left is well formed, and nothing new is live unless a chunk was
  cleared whose block stays.
\<close>

lemma heap_shrink:
  assumes inv: "heap_inv h" and len: "length cs = 128"
    and cs: "\<And>j. j < 128 \<Longrightarrow> cs ! j = heap_chunks h ! j \<or> cs ! j = heap_chunk_empty"
    and p: "cp_inv p" "set (cp_blocks p) \<subseteq> set (cp_blocks (heap_pool h))"
    and frame: "\<And>j a. j < 128 \<Longrightarrow> heap_backed p (cs ! j) \<Longrightarrow> a \<in> chunk_addrs (cs ! j) \<Longrightarrow> m a = heap_mem h a"
  defines "h' \<equiv> \<lparr>heap_chunks = cs, heap_mem = m, heap_pool = p\<rparr>"
  shows "heap_inv h'"
    "\<And>j. j < 128 \<Longrightarrow> heap_backed p (cs ! j) \<Longrightarrow> cs ! j = heap_chunks h ! j \<and>
       heap_backed (heap_pool h) (heap_chunks h ! j) \<and> chunk_live m (cs ! j) = chunk_live (heap_mem h) (heap_chunks h ! j)"
    "(\<And>j. j < 128 \<Longrightarrow> heap_backed (heap_pool h) (heap_chunks h ! j) \<Longrightarrow> cs ! j = heap_chunk_empty \<Longrightarrow>
       chunk_block (heap_chunks h ! j) \<notin> set (cp_blocks p)) \<Longrightarrow> heap_live h' \<subseteq> heap_live h"
proof -
  note I = heap_invD [OF inv]
  have keep: "cs ! j = heap_chunks h ! j \<and> heap_backed (heap_pool h) (heap_chunks h ! j)"
    if j: "j < 128" "heap_backed p (cs ! j)" for j
  proof -
    have e: "cs ! j = heap_chunks h ! j" using cs [OF j(1)] j(2) by auto
    moreover have "heap_backed (heap_pool h) (cs ! j)"
      using j(2) p(2) unfolding heap_backed_def block_owned_iff [OF p(1)] block_owned_iff [OF I(2)] by blast
    ultimately show ?thesis by simp
  qed
  have mem: "heap_chunks h ! j \<in> set (heap_chunks h)" if "j < 128" for j using that I(1) by simp
  have rep: "(\<exists>bs. chunk_rep m (cs ! j) bs) \<and> chunk_live m (cs ! j) = chunk_live (heap_mem h) (heap_chunks h ! j)"
    if j: "j < 128" "heap_backed p (cs ! j)" for j
  proof -
    note k = keep [OF j]
    obtain bs where bs: "chunk_rep (heap_mem h) (heap_chunks h ! j) bs" using I(4) [OF mem [OF j(1)]] k by blast
    have "m a = heap_mem h a" if "a \<in> chunk_addrs (heap_chunks h ! j)" for a using frame [OF j] that k by simp
    from chunk_blocks_frame [OF bs this] show ?thesis using k by auto
  qed
  then show live: "\<And>j. j < 128 \<Longrightarrow> heap_backed p (cs ! j) \<Longrightarrow> cs ! j = heap_chunks h ! j \<and>
       heap_backed (heap_pool h) (heap_chunks h ! j) \<and> chunk_live m (cs ! j) = chunk_live (heap_mem h) (heap_chunks h ! j)"
    using keep by blast
  have block: "chunk_block (cs ! j) \<in> set (cp_blocks p)" if j: "j < 128" "heap_backed p (cs ! j)" for j
  proof -
    note k = keep [OF j]
    obtain b where b: "b \<in> set (cp_blocks p)" "cpb_addr b = hc_address (cs ! j)"
      using j(2) unfolding heap_backed_def block_owned_iff [OF p(1)] by blast
    have "b = chunk_block (cs ! j)"
      using cp_block_eqI [OF I(2), of b "chunk_block (heap_chunks h ! j)"] I(3) [OF mem [OF j(1)]] k b p(2)
      by (auto simp: chunk_block_def)
    with b(1) show ?thesis by simp
  qed
  have all: "\<forall>c\<in>set cs. heap_backed p c \<longrightarrow> chunk_block c \<in> set (cp_blocks p) \<and> (\<exists>bs. chunk_rep m c bs)"
    unfolding all_set_conv_all_nth len using block rep by blast
  have sep: "\<forall>i<128. \<forall>j<128. i \<noteq> j \<longrightarrow> heap_backed p (cs ! i) \<longrightarrow> heap_backed p (cs ! j) \<longrightarrow>
      hc_address (cs ! i) \<noteq> hc_address (cs ! j)"
    using keep I(5) by metis
  show "heap_inv h'"
    unfolding heap_inv_def ZZM_HEAP_MAX_CHUNKS_def h'_def using len p(1) all sep by simp
  assume gone: "\<And>j. j < 128 \<Longrightarrow> heap_backed (heap_pool h) (heap_chunks h ! j) \<Longrightarrow> cs ! j = heap_chunk_empty \<Longrightarrow>
       chunk_block (heap_chunks h ! j) \<notin> set (cp_blocks p)"
  have len': "length (heap_chunks h') = 128" using len by (simp add: h'_def)
  have direct: "heap_direct h' \<subseteq> heap_direct h"
  proof
    fix x assume x: "x \<in> heap_direct h'"
    then have xp: "x \<in> set (cp_blocks p)" by (simp add: heap_direct_def h'_def)
    have "chunk_block (heap_chunks h ! j) \<noteq> x" if j: "j < 128" "heap_backed (heap_pool h) (heap_chunks h ! j)" for j
    proof
      assume e: "chunk_block (heap_chunks h ! j) = x"
      then have c: "cs ! j = heap_chunks h ! j" using gone [OF j] xp cs [OF j(1)] by auto
      have "heap_backed p (heap_chunks h ! j)"
        using j(2) xp unfolding heap_backed_def block_owned_iff [OF p(1)] block_owned_iff [OF I(2)]
        by (auto simp: e [symmetric] chunk_block_def intro!: bexI [OF _ xp])
      then show False using x j(1) c e unfolding heap_direct_nth [OF len'] by (auto simp: h'_def)
    qed
    then show "x \<in> heap_direct h" using xp p(2) unfolding heap_direct_nth [OF I(1)] by blast
  qed
  show "heap_live h' \<subseteq> heap_live h"
    unfolding heap_live_nth [OF len'] heap_live_nth [OF I(1)] using live direct by (fastforce simp: h'_def)
qed

section \<open>Allocation from a chunk\<close>

lemma chunk_rep_size: "chunk_rep m c bs \<Longrightarrow> hsize bs = unat (hc_bytes c) \<and> hsize bs \<le> 1048576 \<and> sizes_ok bs"
  by (simp add: chunk_rep_def prefix_rep_def)

text \<open>Either nothing fits and nothing changes, or one payload of enough bytes becomes used.\<close>

lemma take_regions:
  assumes rep: "chunk_rep m c bs" and top: "unat (hc_address c) + unat (hc_bytes c) < 4294967296"
    and need: "64 dvd need" "128 \<le> need" "need \<le> 1048576"
  shows "heap_take m c (of_nat need) = Some (0, m, c) \<and> (\<forall>(n, u)\<in>set bs. u \<or> n < need) \<or>
    (\<exists>a n m' c' bs'. heap_take m c (of_nat need) = Some (a, m', c') \<and> a \<noteq> 0 \<and> need \<le> n + 64 \<and>
       chunk_rep m' c' bs' \<and> chunk_block c' = chunk_block c \<and>
       (\<forall>x. x \<notin> chunk_addrs c \<longrightarrow> m' x = m x) \<and>
       (unat a, n) \<notin> set (used_regions (unat (hc_address c)) bs) \<and>
       set (used_regions (unat (hc_address c)) bs') = insert (unat a, n) (set (used_regions (unat (hc_address c)) bs)))"
proof (cases "htake need 0 bs")
  case None
  then have "\<forall>(n, u)\<in>set bs. u \<or> n < need" by (simp add: htake_None)
  with None show ?thesis using heap_take_spec [OF rep need] by simp
next
  case (Some r)
  obtain off bs' where r: "r = (off, bs')" by fastforce
  obtain m' c' where t: "heap_take m c (of_nat need) = Some (hc_address c + of_nat off + 64, m', c')"
      "chunk_rep m' c' bs'" "hc_card_owner c' = hc_card_owner c" "hc_address c' = hc_address c" "hc_bytes c' = hc_bytes c"
      "\<forall>a. a \<notin> (\<lambda>k. hc_address c + of_nat k) ` {0..<hsize bs} \<longrightarrow> m' a = m a"
    using heap_take_spec [OF rep need] by (auto simp: Some r)
  obtain us n vs where d: "bs = us @ (n, False) # vs" "off = hsize us" "need \<le> n"
      "bs' = us @ split_block need n @ vs"
    using htake_Some [OF Some [unfolded r]] by (metis add_0)
  have sz: "hsize bs = unat (hc_bytes c)" "hsize bs \<le> 1048576" "sizes_ok bs" using chunk_rep_size [OF rep] by auto
  then have s: "off + n \<le> unat (hc_bytes c)" "128 \<le> n" "sizes_ok us" "sizes_ok vs" by (auto simp: d)
  define a where "a = hc_address c + of_nat off + 64"
  have "unat (hc_address c + of_nat off) = unat (hc_address c) + off"
    using s top by (simp add: unat_plus_no_wrap unat_of_nat)
  then have a: "unat a = unat (hc_address c) + off + 64"
    using s top by (simp add: a_def unat_plus_no_wrap)
  define k where "k = fst (hd (split_block need n)) - 64"
  have k: "need \<le> k + 64" "\<And>b. used_regions b (split_block need n @ vs) = (b + 64, k) # used_regions (b + n) vs"
    using d(3) need by (auto simp: k_def split_block_def)
  have "(unat a, k) \<notin> set (used_regions (unat (hc_address c)) bs)"
    using used_regions_bounds [OF s(3), of "(unat a, k)" "unat (hc_address c)"]
      used_regions_bounds [OF s(4), of "(unat a, k)" "unat (hc_address c) + off + n"] s(2)
    by (auto simp: d(1) a region_end_def d(2) add.assoc)
  moreover have "set (used_regions (unat (hc_address c)) bs') = insert (unat a, k) (set (used_regions (unat (hc_address c)) bs))"
    unfolding d(1,4) used_regions_append [of _ us] k(2) a d(2) by (simp add: add.assoc)
  moreover have "a \<noteq> 0" using a by auto
  moreover have "\<forall>x. x \<notin> chunk_addrs c \<longrightarrow> m' x = m x" using t(6) sz(1) by (simp add: chunk_addrs_def)
  ultimately show ?thesis using t k(1) by (auto simp: a_def chunk_block_def)
qed

lemma heap_need_spec:
  assumes "bytes \<noteq> 0" "bytes < ZZM_HEAP_DIRECT_BYTES"
  obtains need where "heap_need bytes = of_nat need" "64 dvd need" "128 \<le> need" "need \<le> 1048576" "unat bytes + 64 \<le> need"
proof -
  have b: "0 < unat bytes" "unat bytes < 131072"
    using assms by (auto simp: unat_gt_0 word_less_nat_alt heap_consts)
  have w: "bytes + heap_header_bytes + ZZM_HEAP_GRANULE - 1 = bytes + 127" by (simp add: heap_consts)
  have "unat (bytes + 127) = unat bytes + 127" using b by (simp add: unat_plus_no_wrap)
  then have "unat (heap_need bytes) = unat bytes + 127 - (unat bytes + 127) mod 64"
    using unat_and_not_mask [of "bytes + 127" 6]
    by (simp add: heap_need_def w) (simp add: heap_consts mask_eq_exp_minus_1)
  moreover have "64 dvd unat bytes + 127 - (unat bytes + 127) mod 64" by (simp add: dvd_minus_mod)
  moreover have "(unat bytes + 127) mod 64 \<le> 63" using mod_less_divisor [of 64 "unat bytes + 127"] by linarith
  ultimately have "64 dvd unat (heap_need bytes)" "unat bytes + 64 \<le> unat (heap_need bytes)"
      "unat (heap_need bytes) \<le> unat bytes + 127" by auto
  moreover from this(1,2) b(1) have "128 \<le> unat (heap_need bytes)" by (auto elim!: dvdE)
  ultimately show ?thesis using that [of "unat (heap_need bytes)"] b by simp
qed

text \<open>Taking in a chunk of the table.\<close>

lemma heap_take_live:
  assumes inv: "heap_inv h" and i: "i < 128" "heap_backed (heap_pool h) (heap_chunks h ! i)"
    and need: "64 dvd need" "128 \<le> need" "need \<le> 1048576"
  shows "heap_take (heap_mem h) (heap_chunks h ! i) (of_nat need) = Some (0, heap_mem h, heap_chunks h ! i) \<or>
    (\<exists>a n m' c'. heap_take (heap_mem h) (heap_chunks h ! i) (of_nat need) = Some (a, m', c') \<and> a \<noteq> 0 \<and> need \<le> n + 64 \<and>
       heap_inv (heap_put_chunk i c' m' h) \<and> chunk_block c' = chunk_block (heap_chunks h ! i) \<and>
       (unat a, n) \<notin> heap_live h \<and> heap_live (heap_put_chunk i c' m' h) = insert (unat a, n) (heap_live h) \<and> 64 dvd unat a)"
proof -
  let ?c = "heap_chunks h ! i"
  note I = heap_invD [OF inv]
  have mem: "?c \<in> set (heap_chunks h)" using i(1) I(1) by simp
  obtain bs where bs: "chunk_rep (heap_mem h) ?c bs" using I(4) [OF mem i(2)] by blast
  have top: "unat (hc_address ?c) + unat (hc_bytes ?c) < 4294967296"
    using cp_block_bounds(2) [OF I(2) I(3) [OF mem i(2)]] by (simp add: chunk_block_def cpb_end_def)
  have live: "heap_live h = heap_rest i h \<union> set (used_regions (unat (hc_address ?c)) bs)"
    using heap_live_split [OF I(1) i(1)] i(2) by (simp add: chunk_live_def chunk_blocks_rep [OF bs])
  from take_regions [OF bs top need] show ?thesis
  proof (elim disjE exE conjE)
    fix a n m' c' bs'
    assume t: "heap_take (heap_mem h) ?c (of_nat need) = Some (a, m', c')" "a \<noteq> 0" "need \<le> n + 64"
      "chunk_rep m' c' bs'" "chunk_block c' = chunk_block ?c" "\<forall>x. x \<notin> chunk_addrs ?c \<longrightarrow> m' x = heap_mem h x"
      "(unat a, n) \<notin> set (used_regions (unat (hc_address ?c)) bs)"
      "set (used_regions (unat (hc_address ?c)) bs') = insert (unat a, n) (set (used_regions (unat (hc_address ?c)) bs))"
    let ?h = "heap_put_chunk i c' m' h"
    note U = heap_update_chunk [OF inv i t(5,4)]
    have h': "heap_inv ?h" "heap_live ?h = heap_rest i h \<union> set (used_regions (unat (hc_address c')) bs')"
      using U t(6) by blast+
    have addr: "hc_address c' = hc_address ?c" using t(5) by (simp add: chunk_block_def)
    have new: "(unat a, n) \<in> chunk_live m' c'" using t(8) by (simp add: chunk_live_def chunk_blocks_rep [OF t(4)] addr)
    have c': "c' \<in> set (heap_chunks ?h)" "heap_backed (heap_pool ?h) c'"
      using i I(1) t(5) by (auto simp: set_update_memI heap_backed_def chunk_block_def)
    have "64 dvd unat a" "64 \<le> n"
      using chunk_live_bounds(3,4) [OF h'(1) c', of "(unat a, n)"] new by simp_all
    moreover have "(unat a, n) \<notin> heap_rest i h"
    proof
      assume r: "(unat a, n) \<in> heap_rest i h"
      then consider j where "j < 128" "j \<noteq> i" "heap_backed (heap_pool h) (heap_chunks h ! j)" "(unat a, n) \<in> chunk_live (heap_mem h) (heap_chunks h ! j)"
        | b where "b \<in> heap_direct h" "(unat a, n) = cpb_region b" by (auto simp: heap_rest_def)
      then obtain b where b: "b \<in> set (cp_blocks (heap_pool h))" "b \<noteq> chunk_block ?c" "region_within (unat a, n) (cpb_region b)"
      proof cases
        case (1 j)
        then have "heap_chunks h ! j \<in> set (heap_chunks h)" using I(1) by simp
        from that [OF I(3) [OF this 1(3)] chunk_block_uniq [OF inv i(1) 1(1,2) i(2) 1(3)] chunk_live_within [OF inv this 1(3,4)]]
        show ?thesis .
      next
        case (2 b)
        then show ?thesis using that [of b] mem i(2) by (auto simp: heap_direct_def region_within_def)
      qed
      have w: "region_within (unat a, n) (cpb_region (chunk_block ?c))"
        using chunk_live_within [OF h'(1) c'] new t(5) by simp
      have "disjoint_regions (unat a, n) (unat a, n)"
        using region_within_disjoint [OF b(3) w cp_blocks_apart [OF I(2) b(1) I(3) [OF mem i(2)] b(2)]] .
      then show False using \<open>64 \<le> n\<close> by (auto simp: disjoint_regions_def before_def region_end_def)
    qed
    ultimately show ?thesis using t h' live addr by (intro disjI2 exI [of _ a] exI [of _ n] exI [of _ m'] exI [of _ c']) auto
  qed blast
qed

section \<open>The scan over the owner's chunks\<close>

text \<open>What a successful request leaves: one new live region, everything else as it was.\<close>

definition handed :: "nat \<Rightarrow> u32 \<Rightarrow> module_heap \<Rightarrow> module_heap \<Rightarrow> bool" where
  "handed bytes a h h' \<longleftrightarrow> (\<exists>n\<ge>bytes. 0 < n \<and> 64 dvd unat a \<and> (unat a, n) \<notin> heap_live h \<and>
     heap_live h' = insert (unat a, n) (heap_live h))"

lemma heap_backed_block: "chunk_block c' = chunk_block c \<Longrightarrow> heap_backed p c' = heap_backed p c"
  by (simp add: chunk_block_def heap_backed_def)

lemma heap_scan_spec:
  assumes inv: "heap_inv h" and slots: "set is \<subseteq> {..<128}" and owner: "owner \<noteq> 0"
    and need: "64 dvd need" "128 \<le> need" "need \<le> 1048576"
  shows "\<exists>a h'. heap_scan is owner (of_nat need) h = Some (a, h') \<and>
    (a = 0 \<and> h' = h \<and> (\<forall>i\<in>set is. hc_card_owner (heap_chunks h ! i) = owner \<longrightarrow> heap_backed (heap_pool h) (heap_chunks h ! i)) \<or>
     a = 0 \<and> h' = heap_forget_owner owner h \<and>
       (\<exists>i\<in>set is. hc_card_owner (heap_chunks h ! i) = owner \<and> \<not> heap_backed (heap_pool h) (heap_chunks h ! i)) \<or>
     a \<noteq> 0 \<and> heap_inv h' \<and> heap_pool h' = heap_pool h \<and> map chunk_block (heap_chunks h') = map chunk_block (heap_chunks h) \<and>
       handed (need - 64) a h h')"
  using slots
proof (induction "is")
  case (Cons i "is")
  then have i: "i < 128" "set is \<subseteq> {..<128}" by auto
  let ?c = "heap_chunks h ! i"
  consider "hc_card_owner ?c \<noteq> owner" | "hc_card_owner ?c = owner" "\<not> heap_backed (heap_pool h) ?c"
    | "hc_card_owner ?c = owner" "heap_backed (heap_pool h) ?c" by blast
  then show ?case
  proof cases
    case 1
    then show ?thesis using Cons.IH [OF i(2)] by auto
  next
    case 2
    then show ?thesis using owner by (simp add: heap_backed_def)
  next
    case 3
    from heap_take_live [OF inv i(1) 3(2) need] show ?thesis
    proof (elim disjE exE conjE)
      assume t: "heap_take (heap_mem h) ?c (of_nat need) = Some (0, heap_mem h, ?c)"
      have put: "heap_put_chunk i ?c (heap_mem h) h = h" by (simp add: heap_put_chunk_def)
      have e: "heap_scan (i # is) owner (of_nat need) h = heap_scan is owner (of_nat need) h"
        using t 3 by (simp add: heap_backed_def) (simp only: put)
      show ?thesis unfolding e using Cons.IH [OF i(2)] 3 by (auto simp only: list.set insert_iff)
    next
      fix a n m' c'
      assume t: "heap_take (heap_mem h) ?c (of_nat need) = Some (a, m', c')" "a \<noteq> 0" "need \<le> n + 64"
        "heap_inv (heap_put_chunk i c' m' h)" "chunk_block c' = chunk_block ?c" "(unat a, n) \<notin> heap_live h"
        "heap_live (heap_put_chunk i c' m' h) = insert (unat a, n) (heap_live h)" "64 dvd unat a"
      have "map chunk_block ((heap_chunks h)[i := c']) = map chunk_block (heap_chunks h)"
        by (simp add: map_update t(5)) (metis list_update_id map_update)
      moreover have "handed (need - 64) a h (heap_put_chunk i c' m' h)"
        unfolding handed_def using t need(2) by (intro exI [of _ n]) auto
      ultimately show ?thesis using 3 t by (auto simp: heap_backed_def)
    qed
  qed
qed simp

section \<open>A fresh pool block\<close>

lemma heap_pool_insert:
  assumes inv: "heap_inv h" and syn: "owner_synced owner h"
    and alloc: "card_pool_alloc sz owner (heap_pool h) = (a, p)" "a \<noteq> 0"
  defines "h1 \<equiv> h\<lparr>heap_pool := p\<rparr>" and "b \<equiv> \<lparr>cpb_addr = a, cpb_size = cp_rounded sz, cpb_owner = owner\<rparr>"
  shows "heap_inv h1" "\<And>c. c \<in> set (heap_chunks h) \<Longrightarrow> heap_backed p c = heap_backed (heap_pool h) c"
    "b \<in> heap_direct h1" "heap_live h1 = insert (cpb_region b) (heap_live h)" "cpb_region b \<notin> heap_live h"
    "\<And>x. x \<in> heap_live h \<Longrightarrow> disjoint_regions (cpb_region b) x" "unat sz \<le> unat (cp_rounded sz)" "page dvd unat a"
    "\<And>x. x \<in> set (cp_blocks (heap_pool h)) \<Longrightarrow> disjoint_regions (cpb_region b) (cpb_region x)"
    "set (cp_blocks p) = insert b (set (cp_blocks (heap_pool h)))"
proof -
  note I = heap_invD [OF inv]
  obtain i where k: "sz \<noteq> 0" "p = cp_insert (heap_pool h) i a (cp_rounded sz) owner" "cp_inv p"
      "unat sz \<le> unat (cp_rounded sz)" "page dvd unat a"
      "\<forall>b\<in>set (cp_blocks (heap_pool h)). cpb_end b \<le> unat a \<or> unat a + unat (cp_rounded sz) \<le> unat (cpb_addr b)"
    using cp_alloc_cases [OF I(2) alloc(1)] alloc(2) by auto
  show "unat sz \<le> unat (cp_rounded sz)" "page dvd unat a" using k(4,5) .
  show blocks: "set (cp_blocks p) = insert b (set (cp_blocks (heap_pool h)))"
    by (simp add: k(2) cp_insert_def set_insert_at b_def)
  have pos: "0 < unat (cp_rounded sz)" using k(1,4) by (simp add: unat_gt_0 [symmetric])
  show apart: "disjoint_regions (cpb_region b) (cpb_region x)" if "x \<in> set (cp_blocks (heap_pool h))" for x
    using k(6) that by (auto simp: disjoint_regions_def before_def cpb_region_def region_end_def cpb_end_def b_def)
  have new: "b \<notin> set (cp_blocks (heap_pool h))"
  proof
    assume "b \<in> set (cp_blocks (heap_pool h))"
    from apart [OF this] pos show False
      by (auto simp: disjoint_regions_def before_def cpb_region_def region_end_def b_def)
  qed
  show bk: "heap_backed p c = heap_backed (heap_pool h) c" if c: "c \<in> set (heap_chunks h)" for c
  proof
    assume "heap_backed p c"
    then show "heap_backed (heap_pool h) c"
      using syn c unfolding heap_backed_def block_owned_iff [OF k(3)] block_owned_iff [OF I(2)] owner_synced_def
      by (auto simp: blocks b_def)
  next
    assume "heap_backed (heap_pool h) c"
    then show "heap_backed p c"
      unfolding heap_backed_def block_owned_iff [OF k(3)] block_owned_iff [OF I(2)] by (auto simp: blocks)
  qed
  have bk_nth: "heap_backed p (heap_chunks h ! j) = heap_backed (heap_pool h) (heap_chunks h ! j)" if "j < 128" for j
    using that I(1) by (intro bk) simp
  have "\<forall>c\<in>set (heap_chunks h). heap_backed p c \<longrightarrow>
      chunk_block c \<in> set (cp_blocks p) \<and> (\<exists>bs. chunk_rep (heap_mem h) c bs)"
    using bk I(3,4) blocks by blast
  moreover have "\<forall>i<128. \<forall>j<128. i \<noteq> j \<longrightarrow> heap_backed p (heap_chunks h ! i) \<longrightarrow> heap_backed p (heap_chunks h ! j) \<longrightarrow>
      hc_address (heap_chunks h ! i) \<noteq> hc_address (heap_chunks h ! j)"
    using bk_nth I(5) by metis
  ultimately show "heap_inv h1" unfolding heap_inv_def ZZM_HEAP_MAX_CHUNKS_def h1_def using I(1) k(3) by simp
  have "chunk_block c \<noteq> b" if "c \<in> set (heap_chunks h)" "heap_backed (heap_pool h) c" for c
    using I(3) [OF that] new by metis
  then have direct: "heap_direct h1 = insert b (heap_direct h)"
    using bk by (auto simp: heap_direct_def h1_def blocks)
  then show "b \<in> heap_direct h1" by simp
  have "{c \<in> set (heap_chunks h). heap_backed p c} = {c \<in> set (heap_chunks h). heap_backed (heap_pool h) c}"
    using bk by blast
  then have "heap_live h1 = (\<Union>c\<in>{c \<in> set (heap_chunks h). heap_backed (heap_pool h) c}. chunk_live (heap_mem h) c) \<union>
      cpb_region ` insert b (heap_direct h)"
    by (simp add: heap_live_def direct) (simp add: h1_def)
  then show "heap_live h1 = insert (cpb_region b) (heap_live h)" by (simp add: heap_live_def)
  show d: "disjoint_regions (cpb_region b) x" if x: "x \<in> heap_live h" for x
  proof -
    obtain y where y: "y \<in> set (cp_blocks (heap_pool h))" "region_within x (cpb_region y)"
      using heap_live_within [OF inv x] by blast
    show ?thesis using region_within_disjoint [OF _ y(2) apart [OF y(1)]] by (simp add: region_within_def)
  qed
  show "cpb_region b \<notin> heap_live h"
    using d [of "cpb_region b"] pos by (auto simp: disjoint_regions_def before_def region_end_def cpb_region_def b_def)
qed

section \<open>Growing\<close>

lemma heap_chunk_size_spec:
  "unat (heap_chunk_size used quota) \<le> 1048576" "page dvd unat (heap_chunk_size used quota)"
  "used + heap_chunk_size used quota \<le> quota \<or> heap_chunk_size used quota = 0"
proof -
  let ?k = "(quota - used) AND NOT (CARD_POOL_PAGE_BYTES - 1)"
  have k: "unat ?k = unat (quota - used) - unat (quota - used) mod 65536"
    using unat_and_not_mask [of "quota - used" 16] by (simp add: CARD_POOL_PAGE_BYTES_def mask_eq_exp_minus_1)
  then have d: "page dvd unat ?k" "unat ?k \<le> unat (quota - used)" by (simp_all add: dvd_minus_mod)
  show "unat (heap_chunk_size used quota) \<le> 1048576" "page dvd unat (heap_chunk_size used quota)"
    using d by (auto simp: heap_chunk_size_def heap_consts word_less_nat_alt)
  show "used + heap_chunk_size used quota \<le> quota \<or> heap_chunk_size used quota = 0"
  proof (cases "quota < used")
    case False
    then have le: "unat used \<le> unat quota" "unat (quota - used) = unat quota - unat used"
      by (simp_all add: not_less word_le_nat_alt unat_minus_no_wrap)
    have "unat (heap_chunk_size used quota) \<le> unat (quota - used)"
      using d(2) False by (auto simp: heap_chunk_size_def heap_consts not_less word_le_nat_alt word_less_nat_alt)
    moreover from this le have "unat used + unat (heap_chunk_size used quota) < 4294967296"
      using unat_lt32 [of quota] by linarith
    ultimately have "unat used + unat (heap_chunk_size used quota) \<le> unat quota"
      "unat (used + heap_chunk_size used quota) = unat used + unat (heap_chunk_size used quota)"
      using le by (simp_all add: unat_plus_no_wrap)
    then show ?thesis by (simp add: word_le_nat_alt)
  qed (simp add: heap_chunk_size_def)
qed

lemma cp_rounded_page: "page dvd unat sz \<Longrightarrow> sz \<noteq> 0 \<Longrightarrow> unat sz \<le> 4294901760 \<Longrightarrow> cp_rounded sz = sz"
proof -
  assume d: "page dvd unat sz" "sz \<noteq> 0" "unat sz \<le> 4294901760"
  have "\<not> sz > UINT32_MAX - (CARD_POOL_PAGE_BYTES - 1)"
    using d(3) by (simp add: CARD_POOL_PAGE_BYTES_def word_less_nat_alt)
  from cp_rounded_spec [OF d(2) this] have "page dvd unat (cp_rounded sz)" "unat sz \<le> unat (cp_rounded sz)"
    "unat (cp_rounded sz) < unat sz + page" by auto
  then have "unat (cp_rounded sz) = unat sz" using d(1) by (auto elim!: dvdE)
  then show ?thesis by (simp add: word_unat_eq_iff)
qed

lemma heap_grow_spec:
  assumes inv: "heap_inv h" and syn: "owner_synced owner h" and owner: "owner \<noteq> 0"
    and need: "64 dvd need" "128 \<le> need" "need \<le> 1048576"
  shows "\<exists>a h'. heap_grow owner quota (of_nat need) h = Some (a, h') \<and>
    (a = 0 \<and> h' = h \<or> a \<noteq> 0 \<and> heap_inv h' \<and> (heap_synced h \<longrightarrow> heap_synced h') \<and>
       (\<exists>n\<ge>need - 64. 0 < n \<and> 64 dvd unat a \<and> heap_live h' = insert (unat a, n) (heap_live h) \<and>
          (\<forall>x\<in>set (cp_blocks (heap_pool h)). disjoint_regions (unat a, n) (cpb_region x))))"
proof -
  note I = heap_invD [OF inv]
  let ?sz = "heap_chunk_size (module_owner_used owner (heap_pool h)) quota"
  let ?find = "List.find (\<lambda>i. hc_card_owner (heap_chunks h ! i) = 0) [0..<ZZM_HEAP_MAX_CHUNKS]"
  obtain base p where alloc: "card_pool_alloc ?sz owner (heap_pool h) = (base, p)" by fastforce
  show ?thesis
  proof (cases "?find = None \<or> ?sz < of_nat need \<or> base = 0")
    case True
    have "base = 0 \<Longrightarrow> p = heap_pool h" using cp_alloc_cases [OF I(2) alloc] by auto
    then show ?thesis using True alloc by (auto simp: heap_grow_def Let_def split: option.splits)
  next
    case False
    then obtain i where f: "?find = Some i" by auto
    have i: "i < 128" "hc_card_owner (heap_chunks h ! i) = 0" using find_SomeD [OF f] by (auto simp: heap_consts)
    have base: "base \<noteq> 0" using False by simp
    have sz: "unat ?sz \<le> 1048576" "page dvd unat ?sz" "need \<le> unat ?sz"
      using heap_chunk_size_spec False need by (auto simp: not_less word_le_nat_alt unat_of_nat)
    then have "?sz \<noteq> 0" using need(2) by auto
    then have rnd: "cp_rounded ?sz = ?sz" using sz by (intro cp_rounded_page) auto
    note P = heap_pool_insert [OF inv syn alloc base, unfolded rnd]
    define block where "block = \<lparr>hb_magic = ZZM_HEAP_FREE_MAGIC, hb_bytes = ?sz, hb_next = ZZM_HEAP_NONE\<rparr>"
    define c where "c = \<lparr>hc_card_owner = owner, hc_address = base, hc_bytes = ?sz, hc_free_head = 0, hc_used = 0\<rparr>"
    define m where "m = (heap_mem h)(base := block)"
    have cb: "chunk_block c = \<lparr>cpb_addr = base, cpb_size = ?sz, cpb_owner = owner\<rparr>" by (simp add: chunk_block_def c_def)
    have d64: "64 dvd unat ?sz" using sz(2) by (rule dvd_trans [rotated]) simp
    have rep: "chunk_rep m c [(unat ?sz, False)]"
      using sz need(2) d64 by (simp add: chunk_rep_def prefix_rep_def c_def m_def block_def)
    have top: "unat (hc_address c) + unat (hc_bytes c) < 4294967296"
      using cp_block_bounds(2) [of p "chunk_block c"] P(1,3)
      by (simp add: heap_direct_def cb heap_inv_def cpb_end_def) (simp add: c_def)
    obtain a n m' c' bs' where t: "heap_take m c (of_nat need) = Some (a, m', c')" "a \<noteq> 0" "need \<le> n + 64"
        "chunk_rep m' c' bs'" "chunk_block c' = chunk_block c" "\<forall>x. x \<notin> chunk_addrs c \<longrightarrow> m' x = m x"
        "set (used_regions (unat (hc_address c)) bs') = {(unat a, n)}"
      using take_regions [OF rep top need] sz(3) by auto
    have same: "hc_address c' = hc_address c" "chunk_addrs c' = chunk_addrs c" "hc_card_owner c' = owner"
      using t(5) by (simp_all add: chunk_block_def chunk_addrs_def c_def)
    have "base \<in> chunk_addrs c" using sz(3) need(2) by (auto simp: chunk_addrs_def c_def intro: image_eqI [of _ _ 0])
    then have frame: "m' x = heap_mem (h\<lparr>heap_pool := p\<rparr>) x" if "x \<notin> chunk_addrs c'" for x
      using t(6) that same(2) by (auto simp: m_def)
    let ?h1 = "h\<lparr>heap_pool := p\<rparr>"
    let ?h = "heap_put_chunk i c' m' ?h1"
    have nb: "\<not> heap_backed (heap_pool ?h1) (heap_chunks ?h1 ! i)" using i(2) by (simp add: heap_backed_def)
    have in_direct: "chunk_block c' \<in> heap_direct ?h1" using P(3) by (simp add: t(5) cb)
    have own: "hc_card_owner c' \<noteq> 0" using same(3) owner by simp
    have A: "heap_inv ?h" "heap_backed p c'"
       "heap_live ?h = (heap_live ?h1 - {cpb_region (chunk_block c')}) \<union> set (used_regions (unat (hc_address c')) bs')"
      using heap_adopt [OF P(1) i(1) nb in_direct own t(4) frame] by simp_all
    have live: "heap_live ?h = insert (unat a, n) (heap_live h)"
      using A(3) P(4,5) t(7) by (simp add: same(1) t(5) cb)
    have c'_in: "c' \<in> set (heap_chunks ?h)" using i(1) I(1) by (simp add: set_update_memI)
    have new: "(unat a, n) \<in> chunk_live (heap_mem ?h) c'" using t(7) by (simp add: chunk_live_def chunk_blocks_rep [OF t(4)] same(1))
    have B: "64 \<le> n" "64 dvd unat a" "region_within (unat a, n) (cpb_region (chunk_block c))"
      using chunk_live_bounds(3,4) [OF A(1) c'_in _ new] chunk_live_within [OF A(1) c'_in _ new] A(2) t(5) by simp_all
    have "disjoint_regions (unat a, n) (cpb_region x)" if x: "x \<in> set (cp_blocks (heap_pool h))" for x
      using region_within_disjoint [OF B(3) _ P(9) [OF x, folded cb]] by (simp add: region_within_def)
    moreover have "heap_synced ?h" if "heap_synced h"
    proof -
      have "heap_backed p x" if "x \<in> set (heap_chunks h)" "hc_card_owner x \<noteq> 0" for x
        using that \<open>heap_synced h\<close> P(2) by (auto simp: heap_synced_def)
      then show ?thesis using A(2) set_update_subset_insert [of "heap_chunks h" i c'] by (auto simp: heap_synced_def)
    qed
    moreover have "heap_grow owner quota (of_nat need) h = Some (a, ?h)"
      using False f alloc base t(1) by (simp add: heap_grow_def m_def [symmetric] c_def [symmetric] block_def [symmetric])
    moreover have "0 < n" "need - 64 \<le> n" using B(1) t(3) by auto
    ultimately show ?thesis using A(1) t(2) live B(2)
      by (intro exI [of _ a] exI [of _ ?h] conjI disjI2 exI [of _ n]) simp_all
  qed
qed

section \<open>Forgetting an owner\<close>

lemma heap_forget_nth:
  "length (heap_chunks h) = 128 \<Longrightarrow> j < 128 \<Longrightarrow> heap_chunks (heap_forget_owner owner h) ! j =
    (if hc_card_owner (heap_chunks h ! j) = owner then heap_chunk_empty else heap_chunks h ! j)"
  by (simp add: heap_forget_owner_def)

lemma heap_forget_simps [simp]:
  "heap_pool (heap_forget_owner owner h) = heap_pool h" "heap_mem (heap_forget_owner owner h) = heap_mem h"
  "length (heap_chunks (heap_forget_owner owner h)) = length (heap_chunks h)"
  by (simp_all add: heap_forget_owner_def)

lemma heap_forget_ok:
  assumes inv: "heap_inv h" and owner: "owner \<noteq> 0"
  shows "heap_inv (heap_forget_owner owner h)" "owner_synced owner (heap_forget_owner owner h)"
    "heap_synced h \<Longrightarrow> heap_synced (heap_forget_owner owner h)"
proof -
  note I = heap_invD [OF inv]
  have eq: "heap_forget_owner owner h = \<lparr>heap_chunks = heap_chunks (heap_forget_owner owner h), heap_mem = heap_mem h, heap_pool = heap_pool h\<rparr>"
    by (simp add: heap_forget_owner_def)
  show "heap_inv (heap_forget_owner owner h)"
    by (subst eq, rule heap_shrink(1) [OF inv]) (use I heap_forget_nth [OF I(1)] in auto)
  show "owner_synced owner (heap_forget_owner owner h)"
    using owner by (auto simp: owner_synced_def heap_forget_owner_def heap_chunk_empty_def)
  show "heap_synced (heap_forget_owner owner h)" if "heap_synced h"
    using that by (auto simp: heap_synced_def heap_forget_owner_def heap_chunk_empty_def)
qed

section \<open>The allocation service\<close>

lemma heap_synced_owner: "heap_synced h \<Longrightarrow> owner_synced owner h"
  by (auto simp: heap_synced_def owner_synced_def)

lemma heap_backed_synced:
  assumes "map chunk_block (heap_chunks h') = map chunk_block (heap_chunks h)" "heap_pool h' = heap_pool h" "heap_synced h"
  shows "heap_synced h'"
proof -
  have "heap_backed (heap_pool h') c'" if c': "c' \<in> set (heap_chunks h')" "hc_card_owner c' \<noteq> 0" for c'
  proof -
    have "chunk_block c' \<in> set (map chunk_block (heap_chunks h))" using c'(1) assms(1) by (metis image_eqI set_map)
    then obtain c where c: "c \<in> set (heap_chunks h)" "chunk_block c' = chunk_block c" by auto
    then have "hc_card_owner c \<noteq> 0" using c'(2) by (simp add: chunk_block_def)
    then show ?thesis using assms(2,3) c heap_backed_block [OF c(2)] by (simp add: heap_synced_def)
  qed
  then show ?thesis by (simp add: heap_synced_def)
qed

lemma heap_alloc_spec:
  assumes inv: "heap_inv h" and owner: "owner \<noteq> 0" and bytes: "bytes \<noteq> 0" "bytes < ZZM_HEAP_DIRECT_BYTES"
  shows "\<exists>a h'. heap_alloc owner quota bytes h = Some (a, h') \<and> heap_inv h' \<and> (heap_synced h \<longrightarrow> heap_synced h') \<and>
    (a \<noteq> 0 \<longrightarrow> (\<exists>n\<ge>unat bytes. 0 < n \<and> 64 dvd unat a \<and> (unat a, n) \<in> heap_live h' \<and>
       (\<forall>x\<in>heap_live h. disjoint_regions (unat a, n) x))) \<and>
    (owner_synced owner h \<longrightarrow> (a = 0 \<longrightarrow> h' = h) \<and> (a \<noteq> 0 \<longrightarrow> handed (unat bytes) a h h'))"
proof -
  note I = heap_invD [OF inv]
  obtain need where nd: "heap_need bytes = of_nat need" and need: "64 dvd need" "128 \<le> need" "need \<le> 1048576"
      and le: "unat bytes + 64 \<le> need"
    using heap_need_spec [OF bytes] by metis
  have slots: "set [0..<ZZM_HEAP_MAX_CHUNKS] \<subseteq> {..<128}" by (auto simp: heap_consts)
  obtain a h1 where s: "heap_scan [0..<ZZM_HEAP_MAX_CHUNKS] owner (of_nat need) h = Some (a, h1)" and
    c: "a = 0 \<and> h1 = h \<and> (\<forall>i\<in>set [0..<ZZM_HEAP_MAX_CHUNKS]. hc_card_owner (heap_chunks h ! i) = owner \<longrightarrow> heap_backed (heap_pool h) (heap_chunks h ! i)) \<or>
     a = 0 \<and> h1 = heap_forget_owner owner h \<and>
       (\<exists>i\<in>set [0..<ZZM_HEAP_MAX_CHUNKS]. hc_card_owner (heap_chunks h ! i) = owner \<and> \<not> heap_backed (heap_pool h) (heap_chunks h ! i)) \<or>
     a \<noteq> 0 \<and> heap_inv h1 \<and> heap_pool h1 = heap_pool h \<and> map chunk_block (heap_chunks h1) = map chunk_block (heap_chunks h) \<and>
       handed (need - 64) a h h1"
    using heap_scan_spec [OF inv slots owner need] by (elim exE conjE) (rule that)
  have grow: "\<exists>a h'. heap_alloc owner quota bytes h = Some (a, h') \<and> heap_inv h' \<and> (heap_synced h \<longrightarrow> heap_synced h') \<and>
      (a \<noteq> 0 \<longrightarrow> (\<exists>n\<ge>unat bytes. 0 < n \<and> 64 dvd unat a \<and> (unat a, n) \<in> heap_live h' \<and>
         (\<forall>x\<in>heap_live h. disjoint_regions (unat a, n) x))) \<and>
      (h1 = h \<longrightarrow> (a = 0 \<longrightarrow> h' = h) \<and> (a \<noteq> 0 \<longrightarrow> handed (unat bytes) a h h'))"
    if a0: "a = 0" and h1: "heap_inv h1" "owner_synced owner h1" "heap_pool h1 = heap_pool h" "heap_synced h \<longrightarrow> heap_synced h1"
  proof -
    obtain a h' where g: "heap_grow owner quota (of_nat need) h1 = Some (a, h')" and
      d: "a = 0 \<and> h' = h1 \<or> a \<noteq> 0 \<and> heap_inv h' \<and> (heap_synced h1 \<longrightarrow> heap_synced h') \<and>
       (\<exists>n\<ge>need - 64. 0 < n \<and> 64 dvd unat a \<and> heap_live h' = insert (unat a, n) (heap_live h1) \<and>
          (\<forall>x\<in>set (cp_blocks (heap_pool h1)). disjoint_regions (unat a, n) (cpb_region x)))"
      using heap_grow_spec [OF h1(1,2) owner need, of quota] by (elim exE conjE) (rule that)
    have e: "heap_alloc owner quota bytes h = Some (a, h')" using s a0 g by (simp add: heap_alloc_def nd)
    from d show ?thesis
    proof (elim disjE conjE exE)
      fix n assume n: "a \<noteq> 0" "heap_inv h'" "heap_synced h1 \<longrightarrow> heap_synced h'" "need - 64 \<le> n" "0 < n" "64 dvd unat a"
        "heap_live h' = insert (unat a, n) (heap_live h1)"
        "\<forall>x\<in>set (cp_blocks (heap_pool h1)). disjoint_regions (unat a, n) (cpb_region x)"
      have dis: "disjoint_regions (unat a, n) x" if x: "x \<in> heap_live h" for x
      proof -
        obtain b where b: "b \<in> set (cp_blocks (heap_pool h))" "region_within x (cpb_region b)"
          using heap_live_within [OF inv x] by blast
        show ?thesis using region_within_disjoint [OF _ b(2), of "(unat a, n)" "(unat a, n)"] n(8) b(1) h1(3)
          by (simp add: region_within_def)
      qed
      then have "(unat a, n) \<notin> heap_live h" using n(5) by (force simp: disjoint_regions_def before_def region_end_def)
      then have "h1 = h \<Longrightarrow> handed (unat bytes) a h h'" unfolding handed_def using n le by (intro exI [of _ n]) auto
      moreover have "\<exists>n\<ge>unat bytes. 0 < n \<and> 64 dvd unat a \<and> (unat a, n) \<in> heap_live h' \<and>
         (\<forall>x\<in>heap_live h. disjoint_regions (unat a, n) x)"
        using n le dis by (intro exI [of _ n]) auto
      ultimately show ?thesis using e n(1,2,3) h1(4) by blast
    qed (use e h1 in blast)
  qed
  from c show ?thesis
  proof (elim disjE conjE)
    assume "a = 0" "h1 = h" "\<forall>i\<in>set [0..<ZZM_HEAP_MAX_CHUNKS]. hc_card_owner (heap_chunks h ! i) = owner \<longrightarrow> heap_backed (heap_pool h) (heap_chunks h ! i)"
    moreover from this(3) have "owner_synced owner h"
      unfolding owner_synced_def all_set_conv_all_nth using I(1) by (auto simp: heap_consts)
    ultimately show ?thesis using grow inv by blast
  next
    assume f: "a = 0" "h1 = heap_forget_owner owner h"
      "\<exists>i\<in>set [0..<ZZM_HEAP_MAX_CHUNKS]. hc_card_owner (heap_chunks h ! i) = owner \<and> \<not> heap_backed (heap_pool h) (heap_chunks h ! i)"
    then have "\<not> owner_synced owner h" using owner I(1) by (auto simp: owner_synced_def heap_consts)
    then show ?thesis using grow f(1,2) heap_forget_ok [OF inv owner] by auto
  next
    assume t: "a \<noteq> 0" "heap_inv h1" "heap_pool h1 = heap_pool h" "map chunk_block (heap_chunks h1) = map chunk_block (heap_chunks h)"
      "handed (need - 64) a h h1"
    obtain n where n: "need - 64 \<le> n" "0 < n" "64 dvd unat a" "(unat a, n) \<notin> heap_live h"
        "heap_live h1 = insert (unat a, n) (heap_live h)" using t(5) by (auto simp: handed_def)
    have "disjoint_regions (unat a, n) x" if "x \<in> heap_live h" for x
      using heap_live_disjoint [OF t(2), of "(unat a, n)" x] n(4,5) that by auto
    moreover have "handed (unat bytes) a h h1" unfolding handed_def using n le by (intro exI [of _ n]) auto
    moreover have "heap_alloc owner quota bytes h = Some (a, h1)" using s t(1) by (simp add: heap_alloc_def nd)
    moreover have "heap_synced h \<longrightarrow> heap_synced h1" using heap_backed_synced [OF t(4,3)] by blast
    moreover have "unat bytes \<le> n" using n(1) le by simp
    ultimately show ?thesis using t(1,2) n by blast
  qed
qed

lemma module_card_owner_nonzero: "module_card_owner owner memory_class \<noteq> 0"
proof
  assume "module_card_owner owner memory_class = 0"
  then have "push_bit 24 (module_card_class memory_class) = 0"
    by (simp add: module_card_owner_def CARD_POOL_OWNER_def or_eq_0_iff)
  moreover have "module_card_class memory_class \<in> {1, 2, 3, 4, 9, 10, 11, 12, 13}"
    by (simp add: module_card_class_def CARD_POOL_CLASS_FIRMWARE_def)
  ultimately show False by auto
qed

lemma module_card_alloc_ok:
  assumes inv: "heap_inv h"
    and direct: "bytes \<ge> ZZM_HEAP_DIRECT_BYTES \<Longrightarrow> owner_synced (module_card_owner owner memory_class) h"
  shows "\<exists>a h'. module_card_alloc owner memory_class quota bytes h = Some (a, h') \<and> heap_inv h' \<and>
    (heap_synced h \<longrightarrow> heap_synced h') \<and>
    (a \<noteq> 0 \<longrightarrow> (\<exists>n\<ge>unat bytes. 0 < n \<and> 64 dvd unat a \<and> (unat a, n) \<in> heap_live h' \<and>
       (\<forall>x\<in>heap_live h. disjoint_regions (unat a, n) x))) \<and>
    (owner_synced (module_card_owner owner memory_class) h \<longrightarrow>
       (a = 0 \<longrightarrow> h' = h) \<and> (a \<noteq> 0 \<longrightarrow> handed (unat bytes) a h h'))"
proof -
  let ?o = "module_card_owner owner memory_class"
  consider "bytes = 0 \<or> quota = 0 \<or> bytes > quota" | "bytes \<noteq> 0" "quota \<noteq> 0" "\<not> bytes > quota" "bytes < ZZM_HEAP_DIRECT_BYTES"
    | "bytes \<noteq> 0" "quota \<noteq> 0" "\<not> bytes > quota" "\<not> bytes < ZZM_HEAP_DIRECT_BYTES" by blast
  then show ?thesis
  proof cases
    case 1
    then show ?thesis using inv by (auto simp: module_card_alloc_def Let_def)
  next
    case 2
    then have "module_card_alloc owner memory_class quota bytes h = heap_alloc ?o quota bytes h"
      by (simp add: module_card_alloc_def Let_def)
    then show ?thesis using heap_alloc_spec [OF inv module_card_owner_nonzero 2(1,4)] by simp
  next
    case 3
    then have syn: "owner_synced ?o h" using direct by (simp add: not_less)
    obtain a p where al: "card_pool_alloc bytes ?o (heap_pool h) = (a, p)" by fastforce
    show ?thesis
    proof (cases "module_owner_used ?o (heap_pool h) > quota - bytes \<or> a = 0")
      case True
      have "a = 0 \<Longrightarrow> p = heap_pool h" using cp_alloc_cases [OF heap_invD(2) [OF inv] al] by auto
      then show ?thesis using True 3 inv al by (auto simp: module_card_alloc_def Let_def)
    next
      case False
      then have a: "a \<noteq> 0" by simp
      let ?n = "unat (cp_rounded bytes)" and ?h = "h\<lparr>heap_pool := p\<rparr>"
      have "module_card_alloc owner memory_class quota bytes h = Some (a, ?h)"
        using False 3 al by (simp add: module_card_alloc_def Let_def)
      moreover note P = heap_pool_insert [OF inv syn al a]
      have r: "cpb_region \<lparr>cpb_addr = a, cpb_size = cp_rounded bytes, cpb_owner = ?o\<rparr> = (unat a, ?n)"
        by (simp add: cpb_region_def)
      have "64 dvd unat a" using P(8) by (rule dvd_trans [rotated]) simp
      moreover have "0 < ?n" using P(7) 3(1) by (simp add: unat_gt_0 [symmetric])
      moreover have "heap_synced ?h" if "heap_synced h" using that P(2) by (auto simp: heap_synced_def)
      ultimately show ?thesis using P(1,4,5,6,7) a
        by (intro exI [of _ a] exI [of _ ?h]) (auto simp: r handed_def intro!: exI [of _ ?n])
    qed
  qed
qed

section \<open>Freeing\<close>

lemma heap_rest_not_within:
  assumes inv: "heap_inv h" and i: "i < 128" "heap_backed (heap_pool h) (heap_chunks h ! i)"
    and x: "region_within x (cpb_region (chunk_block (heap_chunks h ! i)))" "0 < snd x"
  shows "x \<notin> heap_rest i h"
proof
  let ?c = "heap_chunks h ! i"
  note I = heap_invD [OF inv]
  have mem: "?c \<in> set (heap_chunks h)" using i I(1) by simp
  assume "x \<in> heap_rest i h"
  then consider j where "j < 128" "j \<noteq> i" "heap_backed (heap_pool h) (heap_chunks h ! j)" "x \<in> chunk_live (heap_mem h) (heap_chunks h ! j)"
    | b where "b \<in> heap_direct h" "x = cpb_region b" by (auto simp: heap_rest_def)
  then obtain b where b: "b \<in> set (cp_blocks (heap_pool h))" "b \<noteq> chunk_block ?c" "region_within x (cpb_region b)"
  proof cases
    case (1 j)
    then have "heap_chunks h ! j \<in> set (heap_chunks h)" using I(1) by simp
    from that [OF I(3) [OF this 1(3)] chunk_block_uniq [OF inv i(1) 1(1,2) i(2) 1(3)] chunk_live_within [OF inv this 1(3,4)]]
    show ?thesis .
  next
    case (2 b)
    then show ?thesis using that [of b] mem i(2) by (auto simp: heap_direct_def region_within_def)
  qed
  have "disjoint_regions x x"
    using region_within_disjoint [OF b(3) x(1) cp_blocks_apart [OF I(2) b(1) I(3) [OF mem i(2)] b(2)]] .
  then show False using x(2) by (auto simp: disjoint_regions_def before_def region_end_def)
qed

lemma free_scan_skip:
  "(\<forall>i\<in>set xs. \<not> heap_free_hit (heap_chunks h ! i) address owner) \<Longrightarrow>
    heap_free_scan (xs @ ys) address owner h = heap_free_scan ys address owner h"
  by (induction xs) (auto simp: Let_def)

text \<open>A hit is an address inside the payload area of the chunk's pool block.\<close>

lemma free_hit_inside:
  assumes inv: "heap_inv h" and i: "i < 128" "heap_backed (heap_pool h) (heap_chunks h ! i)"
  shows "heap_free_hit (heap_chunks h ! i) address owner \<longleftrightarrow>
    hc_card_owner (heap_chunks h ! i) AND 0x00ffffff = owner AND 0x00ffffff \<and>
    unat (hc_address (heap_chunks h ! i)) + 64 \<le> unat address \<and>
    unat address < unat (hc_address (heap_chunks h ! i)) + unat (hc_bytes (heap_chunks h ! i))"
proof -
  let ?c = "heap_chunks h ! i"
  note I = heap_invD [OF inv]
  have mem: "?c \<in> set (heap_chunks h)" using i I(1) by simp
  obtain bs where bs: "chunk_rep (heap_mem h) ?c bs" using I(4) [OF mem i(2)] by blast
  have p: "cp_inv (heap_pool h)" "chunk_block ?c \<in> set (cp_blocks (heap_pool h))" using I(2) I(3) [OF mem i(2)] .
  have top: "unat (hc_address ?c) + unat (hc_bytes ?c) < 4294967296"
    using cp_block_bounds(2) [OF p] by (simp add: chunk_block_def cpb_end_def)
  have "bs \<noteq> []" using cp_block_bounds(3) [OF p] chunk_rep_size [OF bs] by (auto simp: chunk_block_def)
  then have "128 \<le> unat (hc_bytes ?c)" using chunk_rep_size [OF bs] by (cases bs) auto
  then have "unat (hc_address ?c + heap_header_bytes) = unat (hc_address ?c) + 64"
      "unat (hc_address ?c + hc_bytes ?c) = unat (hc_address ?c) + unat (hc_bytes ?c)"
    using top by (simp_all add: heap_header_bytes_def unat_plus_no_wrap)
  moreover have "hc_card_owner ?c \<noteq> 0" using i(2) by (simp add: heap_backed_def)
  ultimately show ?thesis
    by (simp add: heap_free_hit_def word_less_nat_alt word_le_nat_alt not_less not_le)
qed

lemma used_regions_mem:
  assumes "x \<in> set (used_regions base bs)"
  obtains us n vs where "bs = us @ (n, True) # vs" "x = (base + hsize us + 64, n - 64)"
  using assms
proof (induction bs arbitrary: base thesis)
  case (Cons y bs)
  obtain n u where y: "y = (n, u)" by fastforce
  from Cons.prems(2) consider "u" "x = (base + 64, n - 64)" | "x \<in> set (used_regions (base + n) bs)"
    by (auto simp: y split: if_splits)
  then show ?case
  proof cases
    case 1
    then show ?thesis using Cons.prems(1) [of "[]" n bs] y by simp
  next
    case 2
    obtain us k vs where "bs = us @ (k, True) # vs" "x = (base + n + hsize us + 64, k - 64)"
      using Cons.IH [OF _ 2] by blast
    then show ?thesis using Cons.prems(1) [of "(n, u) # us" k vs] y by (simp add: add.assoc)
  qed
qed simp

lemma hfree_regions: "used_regions base (hfree us n vs) = used_regions base (us @ (n, False) # vs)"
proof -
  have nx: "used_regions (b + fst (hfree_next n vs)) (snd (hfree_next n vs)) = used_regions (b + n) vs" for b
    by (auto simp: hfree_next_def add.assoc split: list.splits bool.splits)
  obtain k ws where r: "hfree_next n vs = (k, ws)" by fastforce
  have "used_regions base (hfree_prior us (k, ws)) = used_regions base (us @ (k, False) # ws)"
    by (cases us rule: rev_cases; auto simp: hfree_prior_def add.assoc)
  then show ?thesis using nx [of "base + hsize us"] by (simp add: hfree_def r)
qed

lemma used_regions_hused: "sizes_ok bs \<Longrightarrow> used_regions base bs = [] \<longleftrightarrow> hused bs = 0"
  by (induction bs arbitrary: base) auto

lemma chunk_free_live:
  assumes inv: "heap_inv h" and i: "i < 128" "heap_backed (heap_pool h) (heap_chunks h ! i)"
    and x: "(unat address, k) \<in> chunk_live (heap_mem h) (heap_chunks h ! i)"
  defines "c \<equiv> heap_chunks h ! i" and "offset \<equiv> address - hc_address (heap_chunks h ! i) - heap_header_bytes"
  obtains m' c' bs' where "offset AND (ZZM_HEAP_GRANULE - 1) = 0"
    "hb_magic (heap_block_at (heap_mem h) c offset) = ZZM_HEAP_USED_MAGIC"
    "heap_free_block (heap_mem h) c offset = Some (m', c')" "chunk_rep m' c' bs'" "chunk_block c' = chunk_block c"
    "\<And>a. a \<notin> chunk_addrs c \<Longrightarrow> m' a = heap_mem h a"
    "set (used_regions (unat (hc_address c)) bs') = chunk_live (heap_mem h) c - {(unat address, k)}"
    "hc_used c' = 0 \<longleftrightarrow> used_regions (unat (hc_address c)) bs' = []"
proof -
  note I = heap_invD [OF inv]
  have mem: "c \<in> set (heap_chunks h)" using i I(1) by (simp add: c_def)
  have bk: "heap_backed (heap_pool h) c" using i(2) by (simp add: c_def)
  obtain bs where bs: "chunk_rep (heap_mem h) c bs" using I(4) [OF mem bk] by blast
  have live: "chunk_live (heap_mem h) c = set (used_regions (unat (hc_address c)) bs)"
    by (simp add: chunk_live_def chunk_blocks_rep [OF bs])
  then have xin: "(unat address, k) \<in> set (used_regions (unat (hc_address c)) bs)" using x by (simp add: c_def)
  obtain us n vs where d0: "bs = us @ (n, True) # vs" "(unat address, k) = (unat (hc_address c) + hsize us + 64, n - 64)"
    by (rule used_regions_mem [OF xin])
  then have d: "bs = us @ (n, True) # vs" "unat address = unat (hc_address c) + hsize us + 64" "k = n - 64" by auto
  let ?off = "hsize us"
  have sz: "hsize bs = unat (hc_bytes c)" "hsize bs \<le> 1048576" "sizes_ok bs" using chunk_rep_size [OF bs] by auto
  then have s: "?off + n \<le> unat (hc_bytes c)" "128 \<le> n" "sizes_ok us" "sizes_ok vs" by (auto simp: d)
  have "unat (address - hc_address c) = ?off + 64" using d(2) by (simp add: unat_minus_no_wrap)
  then have "unat offset = ?off" by (simp add: offset_def c_def [symmetric] unat_minus_no_wrap heap_header_bytes_def)
  then have off: "offset = of_nat ?off" using s(1) sz(1,2) by (intro word_eq_unatI) (simp add: unat_of_nat)
  have "64 dvd hsize us" using s(3) by (induction us) auto
  then have gran: "offset AND (ZZM_HEAP_GRANULE - 1) = 0"
    using \<open>unat offset = ?off\<close> unat_and_mask [of offset 6]
    by (simp add: heap_consts mask_eq_exp_minus_1 unat_eq_0)
  have "hb_magic (heap_mem h (hc_address c + of_nat ?off)) = ZZM_HEAP_USED_MAGIC"
    using bs by (simp add: chunk_rep_def prefix_rep_def d(1) heap_rep_append)
  then have magic: "hb_magic (heap_block_at (heap_mem h) c offset) = ZZM_HEAP_USED_MAGIC"
    by (simp add: heap_block_at_def off)
  obtain m' c' where f: "heap_free_block (heap_mem h) c (of_nat ?off) = Some (m', c')" "chunk_rep m' c' (hfree us n vs)"
    "hc_card_owner c' = hc_card_owner c" "hc_address c' = hc_address c" "hc_bytes c' = hc_bytes c"
    "\<And>a. a \<notin> (\<lambda>k. hc_address c + of_nat k) ` {0..<?off + n} \<Longrightarrow> m' a = heap_mem h a"
    using heap_free_block_spec [OF bs [unfolded d(1)]] by metis
  have "(\<lambda>k. hc_address c + of_nat k) ` {0..<?off + n} \<subseteq> chunk_addrs c"
    unfolding chunk_addrs_def using s(1) by (intro image_mono) auto
  then have frame: "m' a = heap_mem h a" if "a \<notin> chunk_addrs c" for a using that f(6) by blast
  have nin: "(unat address, k) \<notin> set (used_regions (unat (hc_address c)) (hfree us n vs))"
    using used_regions_bounds [OF s(3), of "(unat address, k)" "unat (hc_address c)"]
      used_regions_bounds [OF s(4), of "(unat address, k)" "unat (hc_address c) + ?off + n"] s(2) d(2)
    by (auto simp: hfree_regions region_end_def add.assoc)
  have regs: "set (used_regions (unat (hc_address c)) (hfree us n vs)) = chunk_live (heap_mem h) c - {(unat address, k)}"
    using nin by (auto simp: live d(1) hfree_regions d(2,3))
  have r': "hc_used c' = of_nat (hused (hfree us n vs))" "hsize (hfree us n vs) \<le> 1048576" "sizes_ok (hfree us n vs)"
    using f(2) by (auto simp: chunk_rep_def prefix_rep_def)
  have "hused (hfree us n vs) \<le> 1048576" using hused_le r'(2) by (rule le_trans)
  then have "hc_used c' = 0 \<longleftrightarrow> hused (hfree us n vs) = 0"
    using chunk_addr_inj [of "hused (hfree us n vs)" 0] r'(1) by (simp del: chunk_addr_inj)
  then have "hc_used c' = 0 \<longleftrightarrow> used_regions (unat (hc_address c)) (hfree us n vs) = []"
    using used_regions_hused [OF r'(3)] by simp
  moreover have "chunk_block c' = chunk_block c" using f(3-5) by (simp add: chunk_block_def)
  ultimately show ?thesis using that gran magic f(1,2) off frame regs by blast
qed

end
