(* ===== verification/HeapService.thy ===== *)
theory HeapService
  imports HeapSafety
begin

unbundle bit_operations_syntax

text \<open>
  The memory service as its clients see it: what \<^verbatim>\<open>free\<close> gives back, what closing an
  owner releases, and the allocator contract over all of them.
\<close>

section \<open>Who holds a region\<close>

definition low24 :: "u32 \<Rightarrow> u32" where "low24 w = w AND 0x00ffffff"

definition heap_owned :: "module_heap \<Rightarrow> (u32 \<Rightarrow> bool) \<Rightarrow> region \<Rightarrow> bool" where
  "heap_owned h P x \<longleftrightarrow>
     (\<exists>c\<in>set (heap_chunks h). heap_backed (heap_pool h) c \<and> x \<in> chunk_live (heap_mem h) c \<and> P (hc_card_owner c)) \<or>
     (\<exists>b\<in>heap_direct h. x = cpb_region b \<and> P (cpb_owner b))"

text \<open>The memory service matches owners by their low 24 bits, whatever the class.\<close>

definition heap_held :: "module_heap \<Rightarrow> u32 \<Rightarrow> region \<Rightarrow> bool" where
  "heap_held h owner x \<longleftrightarrow> heap_owned h (\<lambda>w. low24 w = low24 owner) x"

lemma regions_meet:
  assumes "cp_inv p" "b \<in> set (cp_blocks p)" "b' \<in> set (cp_blocks p)"
    and "unat (cpb_addr b) \<le> a" "a < cpb_end b" "unat (cpb_addr b') \<le> a" "a < cpb_end b'"
  shows "b = b'"
  using cp_blocks_apart [OF assms(1-3)] assms(4-)
  by (auto simp: disjoint_regions_def before_def cpb_region_def region_end_def cpb_end_def)

text \<open>A hit of the scan is a chunk whose pool block contains the address.\<close>

lemma hit_block:
  assumes inv: "heap_inv h" and syn: "heap_synced h" and j: "j < 128" "heap_free_hit (heap_chunks h ! j) address owner"
  shows "heap_backed (heap_pool h) (heap_chunks h ! j)"
    "chunk_block (heap_chunks h ! j) \<in> set (cp_blocks (heap_pool h))"
    "unat (cpb_addr (chunk_block (heap_chunks h ! j))) + 64 \<le> unat address"
    "unat address < cpb_end (chunk_block (heap_chunks h ! j))"
    "low24 (hc_card_owner (heap_chunks h ! j)) = low24 owner"
proof -
  have m: "heap_chunks h ! j \<in> set (heap_chunks h)" using j(1) heap_invD(1) [OF inv] by simp
  have "hc_card_owner (heap_chunks h ! j) \<noteq> 0" using j(2) by (auto simp: heap_free_hit_def)
  then show b: "heap_backed (heap_pool h) (heap_chunks h ! j)" using syn m by (simp add: heap_synced_def)
  show "chunk_block (heap_chunks h ! j) \<in> set (cp_blocks (heap_pool h))" using heap_invD(3) [OF inv m b] .
  show "unat (cpb_addr (chunk_block (heap_chunks h ! j))) + 64 \<le> unat address"
    "unat address < cpb_end (chunk_block (heap_chunks h ! j))"
    "low24 (hc_card_owner (heap_chunks h ! j)) = low24 owner"
    using free_hit_inside [OF inv j(1) b] j(2) by (auto simp: chunk_block_def cpb_end_def low24_def)
qed

lemma no_hit_free:
  assumes "\<And>j. j < 128 \<Longrightarrow> \<not> heap_free_hit (heap_chunks h ! j) address owner"
  shows "heap_free address owner h = Some (False, h)"
  using free_scan_skip [of "[0..<ZZM_HEAP_MAX_CHUNKS]" h address owner "[]"] assms
  by (simp add: heap_free_def heap_consts)

section \<open>Giving a chunk back to the pool\<close>

lemma heap_drop_chunk:
  assumes inv: "heap_inv h" and i: "i < 128" "heap_backed (heap_pool h) (heap_chunks h ! i)"
    and stores: "\<And>a. a \<notin> chunk_addrs (heap_chunks h ! i) \<Longrightarrow> m' a = heap_mem h a"
  defines "p \<equiv> cp_drop (\<lambda>b. cpb_addr b = hc_address (heap_chunks h ! i)) (heap_pool h)"
    and "cs \<equiv> (heap_chunks h)[i := heap_chunk_empty]"
  shows "heap_inv \<lparr>heap_chunks = cs, heap_mem = m', heap_pool = p\<rparr>"
    "heap_synced h \<Longrightarrow> heap_synced \<lparr>heap_chunks = cs, heap_mem = m', heap_pool = p\<rparr>"
    "heap_live \<lparr>heap_chunks = cs, heap_mem = m', heap_pool = p\<rparr> = heap_rest i h"
proof -
  note I = heap_invD [OF inv]
  define c where "c = heap_chunks h ! i"
  let ?h = "\<lparr>heap_chunks = cs, heap_mem = m', heap_pool = p\<rparr>"
  have mem: "c \<in> set (heap_chunks h)" "heap_backed (heap_pool h) c" using i I(1) by (simp_all add: c_def)
  note cb = I(3) [OF mem]
  have nth: "cs ! j = (if j = i then heap_chunk_empty else heap_chunks h ! j)" if "j < 128" for j
    using that I(1) by (simp add: cs_def)
  have len: "length cs = 128" using I(1) by (simp add: cs_def)
  have p: "cp_inv p" "set (cp_blocks p) = {b \<in> set (cp_blocks (heap_pool h)). cpb_addr b \<noteq> hc_address c}"
    using cp_drop_inv [OF I(2)] by (auto simp: p_def c_def)
  then have psub: "set (cp_blocks p) \<subseteq> set (cp_blocks (heap_pool h))" by auto
  have addr: "hc_address (heap_chunks h ! j) \<noteq> hc_address c"
    if "j < 128" "j \<noteq> i" "heap_backed (heap_pool h) (heap_chunks h ! j)" for j
    using I(5) [OF that(1) i(1) that(3) i(2)] that(2) by (auto simp: c_def)
  have backed: "heap_backed p (cs ! j) \<longleftrightarrow> j \<noteq> i \<and> heap_backed (heap_pool h) (heap_chunks h ! j)" if j: "j < 128" for j
  proof (cases "j = i")
    case False
    show ?thesis
    proof
      assume "heap_backed p (cs ! j)"
      then show "j \<noteq> i \<and> heap_backed (heap_pool h) (heap_chunks h ! j)" using False psub
        unfolding heap_backed_def block_owned_iff [OF p(1)] block_owned_iff [OF I(2)] nth [OF j] by auto
    next
      assume b: "j \<noteq> i \<and> heap_backed (heap_pool h) (heap_chunks h ! j)"
      then show "heap_backed p (cs ! j)" using False addr [OF j False] p(2)
        unfolding heap_backed_def block_owned_iff [OF p(1)] block_owned_iff [OF I(2)] nth [OF j] by auto
    qed
  next
    case True
    then show ?thesis using nth [OF j] by simp
  qed
  have frame: "m' a = heap_mem h a" if j: "j < 128" "heap_backed p (cs ! j)" "a \<in> chunk_addrs (cs ! j)" for j a
  proof (rule stores [folded c_def])
    have b: "j \<noteq> i" "heap_backed (heap_pool h) (heap_chunks h ! j)" using backed j(1,2) by auto
    have "heap_chunks h ! j \<in> set (heap_chunks h)" using j(1) I(1) by simp
    from chunk_addrs_disjoint [OF I(2) I(3) [OF this b(2)] cb addr [OF j(1) b]]
    show "a \<notin> chunk_addrs c" using j(3) b(1) by (auto simp: nth [OF j(1)])
  qed
  have same: "cs ! j = heap_chunks h ! j \<or> cs ! j = heap_chunk_empty" if "j < 128" for j using nth [OF that] by simp
  show "heap_inv ?h"
    by (rule heap_shrink(1) [OF inv len]) (erule same, rule p(1), rule psub, erule (2) frame)
  have live: "chunk_live m' (cs ! j) = chunk_live (heap_mem h) (heap_chunks h ! j)"
    if "j < 128" "heap_backed p (cs ! j)" for j
    using heap_shrink(2) [OF inv len same p(1) psub, of m' j] frame that by blast
  show "heap_synced ?h" if syn: "heap_synced h"
  proof -
    have "heap_backed p (cs ! j)" if j: "j < 128" "hc_card_owner (cs ! j) \<noteq> 0" for j
      using syn j I(1) backed [OF j(1)] nth [OF j(1)] by (auto simp: heap_synced_def heap_chunk_empty_def split: if_splits)
    then show ?thesis using len by (auto simp: heap_synced_def in_set_conv_nth)
  qed
  have idx: "{j. j < 128 \<and> heap_backed p (cs ! j)} = {j. j < 128 \<and> j \<noteq> i \<and> heap_backed (heap_pool h) (heap_chunks h ! j)}"
    using backed by blast
  have "heap_direct ?h = heap_direct h"
  proof (intro set_eqI iffI)
    fix x assume x: "x \<in> heap_direct ?h"
    then have "x \<in> set (cp_blocks (heap_pool h))" "cpb_addr x \<noteq> hc_address c" using p(2) by (simp_all add: heap_direct_def)
    moreover have "chunk_block (heap_chunks h ! j) \<noteq> x" if j: "j < 128" "heap_backed (heap_pool h) (heap_chunks h ! j)" for j
    proof (cases "j = i")
      case True
      then show ?thesis using calculation(2) by (auto simp: c_def chunk_block_def)
    next
      case False
      then have "cs ! j \<in> set cs" "heap_backed p (cs ! j)" using backed j len by simp_all
      then show ?thesis using x False by (simp add: heap_direct_def nth [OF j(1)])
    qed
    ultimately show "x \<in> heap_direct h" by (simp add: heap_direct_nth [OF I(1)])
  next
    fix x assume x: "x \<in> heap_direct h"
    then have b: "x \<in> set (cp_blocks (heap_pool h))" "x \<noteq> chunk_block c" using mem by (auto simp: heap_direct_def)
    then have "cpb_addr x \<noteq> hc_address c" using cp_block_eqI [OF I(2) b(1) cb] by (auto simp: chunk_block_def)
    moreover have "chunk_block (cs ! j) \<noteq> x" if j: "j < 128" "heap_backed p (cs ! j)" for j
      using x backed [OF j(1)] j nth [OF j(1)] by (auto simp: heap_direct_nth [OF I(1)])
    ultimately show "x \<in> heap_direct ?h" using b(1) p(2) len by (auto simp: heap_direct_def in_set_conv_nth)
  qed
  moreover have "heap_live ?h = (\<Union>j\<in>{j. j < 128 \<and> heap_backed p (cs ! j)}. chunk_live m' (cs ! j)) \<union>
      cpb_region ` heap_direct ?h"
    using heap_live_nth [of ?h] len by simp
  moreover have "(\<Union>j\<in>{j. j < 128 \<and> heap_backed p (cs ! j)}. chunk_live m' (cs ! j)) =
      (\<Union>j\<in>{j. j < 128 \<and> j \<noteq> i \<and> heap_backed (heap_pool h) (heap_chunks h ! j)}. chunk_live (heap_mem h) (heap_chunks h ! j))"
  proof (unfold idx, rule SUP_cong [OF refl])
    fix j assume "j \<in> {j. j < 128 \<and> j \<noteq> i \<and> heap_backed (heap_pool h) (heap_chunks h ! j)}"
    then have "j < 128" "heap_backed p (cs ! j)" using backed by auto
    then show "chunk_live m' (cs ! j) = chunk_live (heap_mem h) (heap_chunks h ! j)" by (rule live)
  qed
  ultimately show "heap_live ?h = heap_rest i h" by (simp only: heap_rest_def)
qed

section \<open>Freeing a block of a chunk\<close>

lemma heap_free_chunk:
  assumes inv: "heap_inv h" and syn: "heap_synced h"
    and i: "i < 128" "heap_backed (heap_pool h) (heap_chunks h ! i)"
    and x: "(unat address, k) \<in> chunk_live (heap_mem h) (heap_chunks h ! i)"
    and owner: "low24 (hc_card_owner (heap_chunks h ! i)) = low24 owner"
  shows "\<exists>h'. heap_free address owner h = Some (True, h') \<and> heap_inv h' \<and> heap_synced h' \<and>
    heap_live h' = heap_live h - {(unat address, k)}"
proof -
  note I = heap_invD [OF inv]
  define c where "c = heap_chunks h ! i"
  define offset where "offset = address - hc_address c - heap_header_bytes"
  have mem: "c \<in> set (heap_chunks h)" using i(1) I(1) by (simp add: c_def)
  have bk: "heap_backed (heap_pool h) c" using i(2) by (simp add: c_def)
  note cb = I(3) [OF mem bk]
  have bnd: "unat (hc_address c) + 64 \<le> unat address" "unat address + k \<le> unat (hc_address c) + unat (hc_bytes c)" "64 \<le> k"
    using chunk_live_bounds [OF inv mem bk x [folded c_def]] by (simp_all add: region_end_def)
  obtain m' c' bs' where f: "offset AND (ZZM_HEAP_GRANULE - 1) = 0"
    "hb_magic (heap_block_at (heap_mem h) c offset) = ZZM_HEAP_USED_MAGIC"
    "heap_free_block (heap_mem h) c offset = Some (m', c')" "chunk_rep m' c' bs'" "chunk_block c' = chunk_block c"
    "\<And>a. a \<notin> chunk_addrs c \<Longrightarrow> m' a = heap_mem h a"
    "set (used_regions (unat (hc_address c)) bs') = chunk_live (heap_mem h) c - {(unat address, k)}"
    "hc_used c' = 0 \<longleftrightarrow> used_regions (unat (hc_address c)) bs' = []"
    using chunk_free_live [OF inv i x] unfolding c_def offset_def by metis
  have hit: "heap_free_hit c address owner"
    using free_hit_inside [OF inv i, of address owner] bnd owner by (simp add: c_def low24_def)
  have only: "j = i" if j: "j < 128" "heap_free_hit (heap_chunks h ! j) address owner" for j
  proof -
    note H = hit_block [OF inv syn j]
    have "chunk_block (heap_chunks h ! j) = chunk_block c"
      using regions_meet [OF I(2) H(2) cb, of "unat address"] H(3,4) bnd by (simp add: chunk_block_def cpb_end_def)
    then show ?thesis using chunk_block_uniq [OF inv i(1) j(1) _ i(2) H(1)] by (auto simp: c_def)
  qed
  have split: "[0..<ZZM_HEAP_MAX_CHUNKS] = [0..<i] @ i # [Suc i..<128]"
    using upt_add_eq_append [of 0 i "128 - i"] i(1) by (simp add: heap_consts upt_conv_Cons)
  have before: "\<forall>j\<in>set [0..<i]. \<not> heap_free_hit (heap_chunks h ! j) address owner"
  proof
    fix j assume "j \<in> set [0..<i]"
    then have "j < 128" "j \<noteq> i" using i(1) by auto
    then show "\<not> heap_free_hit (heap_chunks h ! j) address owner" using only by blast
  qed
  have scan: "heap_free address owner h = heap_free_scan (i # [Suc i..<128]) address owner h"
    unfolding heap_free_def split using before by (rule free_scan_skip)
  have owned: "card_pool_block_owned (hc_address c) (hc_bytes c) (hc_card_owner c) (heap_pool h)"
    using bk by (simp add: heap_backed_def)
  let ?h = "if hc_used c' = 0
            then (heap_put_chunk i heap_chunk_empty m' h)
                   \<lparr>heap_pool := snd (card_pool_free (hc_address c') (hc_card_owner c') (heap_pool h))\<rparr>
            else heap_put_chunk i c' m' h"
  have res: "heap_free address owner h = Some (True, ?h)"
    unfolding scan using hit owned f(1-3) by (simp add: c_def [symmetric] offset_def [symmetric])
  have live: "heap_live h = heap_rest i h \<union> chunk_live (heap_mem h) c"
    using heap_live_split [OF I(1) i(1)] i(2) by (simp add: c_def)
  have "(unat address, k) \<notin> heap_rest i h"
    using heap_rest_not_within [OF inv i, of "(unat address, k)"] chunk_live_within [OF inv mem bk] x bnd(3) by (simp add: c_def)
  then have goal: "heap_rest i h \<union> (chunk_live (heap_mem h) c - {(unat address, k)}) = heap_live h - {(unat address, k)}"
    using live by auto
  show ?thesis
  proof (cases "hc_used c' = 0")
    case False
    have addr: "hc_address c' = hc_address c" using f(5) by (simp add: chunk_block_def)
    have U: "heap_inv (heap_put_chunk i c' m' h)"
        "heap_live (heap_put_chunk i c' m' h) = heap_rest i h \<union> set (used_regions (unat (hc_address c')) bs')"
        "heap_backed (heap_pool h) c'"
      using heap_update_chunk [OF inv i f(5,4) [unfolded c_def]] f(6) by (simp_all add: c_def)
    have "heap_synced (heap_put_chunk i c' m' h)"
      using syn U(3) set_update_subset_insert [of "heap_chunks h" i c'] by (auto simp: heap_synced_def)
    then show ?thesis using U False res f(7) goal by (simp add: addr)
  next
    case True
    have own: "hc_address c' = hc_address c" "hc_card_owner c' = hc_card_owner c" using f(5) by (simp_all add: chunk_block_def)
    have fr: "card_pool_free (hc_address c) (hc_card_owner c) (heap_pool h) = (True, cp_drop (\<lambda>b. cpb_addr b = hc_address c) (heap_pool h))"
    proof -
      have "\<exists>b\<in>set (cp_blocks (heap_pool h)). cpb_addr b = hc_address c \<and> cpb_owner b = hc_card_owner c"
        using cb by (rule bexI [rotated]) (simp add: chunk_block_def)
      moreover have "hc_address c \<noteq> 0" using cp_block_bounds(1) [OF I(2) cb] by (auto simp: chunk_block_def)
      ultimately show ?thesis by (simp add: card_pool_free_drop [OF I(2)])
    qed
    have rest: "heap_rest i h = heap_live h - {(unat address, k)}" using f(7,8) True goal by auto
    note D = heap_drop_chunk [OF inv i f(6) [unfolded c_def], folded c_def]
    have eq: "?h = \<lparr>heap_chunks = (heap_chunks h)[i := heap_chunk_empty], heap_mem = m',
        heap_pool = cp_drop (\<lambda>b. cpb_addr b = hc_address c) (heap_pool h)\<rparr>"
      using True by (simp add: own fr heap_put_chunk_def)
    show ?thesis using D syn res rest unfolding eq by simp
  qed
qed

section \<open>Freeing any block\<close>

lemma heap_drop_direct:
  assumes inv: "heap_inv h" and b: "b \<in> heap_direct h"
  defines "p \<equiv> cp_drop (\<lambda>x. cpb_addr x = cpb_addr b) (heap_pool h)"
  shows "heap_inv (h\<lparr>heap_pool := p\<rparr>)" "heap_synced h \<Longrightarrow> heap_synced (h\<lparr>heap_pool := p\<rparr>)"
    "heap_live (h\<lparr>heap_pool := p\<rparr>) = heap_live h - {cpb_region b}"
proof -
  note I = heap_invD [OF inv]
  let ?h = "h\<lparr>heap_pool := p\<rparr>"
  have bp: "b \<in> set (cp_blocks (heap_pool h))" using b by (simp add: heap_direct_def)
  have p: "cp_inv p" "set (cp_blocks p) = set (cp_blocks (heap_pool h)) - {b}"
    using cp_drop_inv [OF I(2)] cp_block_eqI [OF I(2) _ bp] by (auto simp: p_def)
  then have psub: "set (cp_blocks p) \<subseteq> set (cp_blocks (heap_pool h))" by auto
  have backed: "heap_backed p c = heap_backed (heap_pool h) c" if c: "c \<in> set (heap_chunks h)" for c
  proof
    assume "heap_backed p c"
    then show "heap_backed (heap_pool h) c"
      using psub unfolding heap_backed_def block_owned_iff [OF p(1)] block_owned_iff [OF I(2)] by blast
  next
    assume k: "heap_backed (heap_pool h) c"
    then have "chunk_block c \<in> set (cp_blocks p)" using I(3) [OF c k] b c p(2) by (auto simp: heap_direct_def)
    then show "heap_backed p c"
      using k unfolding heap_backed_def block_owned_iff [OF p(1)] block_owned_iff [OF I(2)]
      by (auto simp: chunk_block_def intro!: bexI [of _ "\<lparr>cpb_addr = hc_address c, cpb_size = hc_bytes c, cpb_owner = hc_card_owner c\<rparr>"])
  qed
  have eq: "?h = \<lparr>heap_chunks = heap_chunks h, heap_mem = heap_mem h, heap_pool = p\<rparr>" by simp
  show "heap_inv ?h" unfolding eq
    by (rule heap_shrink(1) [OF inv I(1)]) (simp_all add: p(1) psub)
  show "heap_synced ?h" if "heap_synced h" using that backed by (auto simp: heap_synced_def)
  have direct: "heap_direct ?h = heap_direct h - {b}"
    using backed p(2) by (auto simp: heap_direct_def)
  have set_eq: "{c \<in> set (heap_chunks h). heap_backed p c} = {c \<in> set (heap_chunks h). heap_backed (heap_pool h) c}"
    using backed by blast
  have inj: "inj_on cpb_region (heap_direct h)"
    using cp_region_inj [OF I(2)] by (auto simp: heap_direct_def intro!: inj_onI)
  have img: "cpb_region ` (heap_direct h - {b}) = cpb_region ` heap_direct h - {cpb_region b}"
    using inj_on_image_set_diff [OF inj, of "heap_direct h" "{b}"] b by simp
  have "cpb_region b \<notin> chunk_live (heap_mem h) c" if c: "c \<in> set (heap_chunks h)" "heap_backed (heap_pool h) c" for c
  proof
    assume x: "cpb_region b \<in> chunk_live (heap_mem h) c"
    have "b = chunk_block c"
      using regions_meet [OF I(2) bp I(3) [OF c], of "fst (cpb_region b)"] chunk_live_bounds [OF inv c x]
      by (simp add: cpb_region_def region_end_def cpb_end_def chunk_block_def)
    then show False using b c by (auto simp: heap_direct_def)
  qed
  then show "heap_live ?h = heap_live h - {cpb_region b}"
    by (auto simp: heap_live_def direct set_eq img)
qed

text \<open>A live region has one holder.\<close>

lemma heap_owned_live: "heap_live h = {x. heap_owned h (\<lambda>_. True) x}"
  by (auto simp: heap_live_def heap_owned_def)

lemma heap_owned_unique:
  assumes inv: "heap_inv h" and x: "heap_owned h P x" "heap_owned h Q x"
  shows "heap_owned h (\<lambda>w. P w \<and> Q w) x"
proof -
  note I = heap_invD [OF inv]
  have meet: "chunk_block c = b"
    if c: "c \<in> set (heap_chunks h)" "heap_backed (heap_pool h) c" "x \<in> chunk_live (heap_mem h) c"
      and b: "b \<in> set (cp_blocks (heap_pool h))" "unat (cpb_addr b) \<le> fst x" "fst x < cpb_end b" for c b
    using regions_meet [OF I(2) I(3) [OF c(1,2)] b(1), of "fst x"] b chunk_live_bounds [OF inv c]
    by (simp add: chunk_block_def cpb_end_def region_end_def)
  have one: "hc_card_owner c = hc_card_owner c'"
    if c: "c \<in> set (heap_chunks h)" "heap_backed (heap_pool h) c" "x \<in> chunk_live (heap_mem h) c"
      and c': "c' \<in> set (heap_chunks h)" "heap_backed (heap_pool h) c'" "x \<in> chunk_live (heap_mem h) c'" for c c'
    using meet [OF c I(3) [OF c'(1,2)]] chunk_live_bounds [OF inv c']
    by (simp add: chunk_block_def cpb_end_def region_end_def)
  have mixed: "x \<noteq> cpb_region b"
    if c: "c \<in> set (heap_chunks h)" "heap_backed (heap_pool h) c" "x \<in> chunk_live (heap_mem h) c" and b: "b \<in> heap_direct h" for c b
  proof
    assume "x = cpb_region b"
    then have "chunk_block c = b"
      using meet [OF c, of b] chunk_live_bounds(3) [OF inv c] b by (simp add: cpb_end_def cpb_region_def heap_direct_def)
    then show False using b c by (auto simp: heap_direct_def)
  qed
  have regs: "b = b'" if "b \<in> heap_direct h" "b' \<in> heap_direct h" "cpb_region b = cpb_region b'" for b b'
    using cp_region_inj [OF I(2)] that by (auto simp: heap_direct_def)
  show ?thesis using x one mixed regs unfolding heap_owned_def by (elim disjE bexE conjE) (metis, blast+)
qed

lemma heap_owned_mono: "heap_owned h P x \<Longrightarrow> (\<And>w. P w \<Longrightarrow> Q w) \<Longrightarrow> heap_owned h Q x"
  unfolding heap_owned_def by blast

lemma heap_owned_False [simp]: "\<not> heap_owned h (\<lambda>_. False) x"
  by (simp add: heap_owned_def)

lemma heap_held_iff:
  assumes inv: "heap_inv h" and v: "heap_owned h (\<lambda>w. w = v) x"
  shows "heap_held h owner x \<longleftrightarrow> low24 v = low24 owner"
proof
  assume "heap_held h owner x"
  from heap_owned_unique [OF inv v this [unfolded heap_held_def]]
  show "low24 v = low24 owner" by (cases "low24 v = low24 owner") (auto simp: heap_owned_def)
next
  assume "low24 v = low24 owner"
  with v show "heap_held h owner x" unfolding heap_held_def by (auto elim: heap_owned_mono)
qed

text \<open>Freeing a region of a chunk, and a pool block that is no chunk.\<close>

lemma card_free_chunk:
  assumes inv: "heap_inv h" and syn: "heap_synced h"
    and i: "i < 128" "heap_backed (heap_pool h) (heap_chunks h ! i)" "(unat address, k) \<in> chunk_live (heap_mem h) (heap_chunks h ! i)"
    and other: "low24 (hc_card_owner (heap_chunks h ! i)) \<noteq> low24 owner"
  shows "module_card_free address owner h = Some (False, h)"
proof -
  note I = heap_invD [OF inv]
  let ?c = "heap_chunks h ! i"
  have mem: "?c \<in> set (heap_chunks h)" using i(1) I(1) by simp
  note cb = I(3) [OF mem i(2)] and bnd = chunk_live_bounds [OF inv mem i(2,3)]
  have meet: "y = chunk_block ?c" if y: "y \<in> set (cp_blocks (heap_pool h))" "unat (cpb_addr y) \<le> unat address" "unat address < cpb_end y" for y
    using regions_meet [OF I(2) y(1) cb y(2,3)] bnd by (simp add: chunk_block_def cpb_end_def region_end_def)
  have "\<not> heap_free_hit (heap_chunks h ! j) address owner" if j: "j < 128" for j
  proof
    assume hit: "heap_free_hit (heap_chunks h ! j) address owner"
    note H = hit_block [OF inv syn j hit]
    have "chunk_block (heap_chunks h ! j) = chunk_block ?c" using meet [OF H(2)] H(3,4) by simp
    then show False using H(5) other by (simp add: chunk_block_def)
  qed
  then have "heap_free address owner h = Some (False, h)" by (rule no_hit_free)
  moreover have "cpb_addr y \<noteq> address" if "y \<in> set (cp_blocks (heap_pool h))" for y
    using meet [OF that] cp_block_bounds(3) [OF I(2) that] bnd(1) by (auto simp: cpb_end_def chunk_block_def)
  then have "List.find (\<lambda>b. cpb_addr b = address \<and> cpb_owner b AND 0x00ffffff = owner AND 0x00ffffff)
              (cp_blocks (heap_pool h)) = None" by (auto simp: find_None_iff)
  ultimately show ?thesis by (simp add: module_card_free_def)
qed

lemma card_free_direct:
  assumes inv: "heap_inv h" and syn: "heap_synced h" and b: "b \<in> heap_direct h" "cpb_addr b = address"
  shows "module_card_free address owner h =
    (if low24 (cpb_owner b) = low24 owner
     then Some (True, h\<lparr>heap_pool := cp_drop (\<lambda>x. cpb_addr x = cpb_addr b) (heap_pool h)\<rparr>) else Some (False, h))"
proof -
  note I = heap_invD [OF inv]
  have bp: "b \<in> set (cp_blocks (heap_pool h))" using b(1) by (simp add: heap_direct_def)
  have "\<not> heap_free_hit (heap_chunks h ! j) address owner" if j: "j < 128" for j
  proof
    assume hit: "heap_free_hit (heap_chunks h ! j) address owner"
    note H = hit_block [OF inv syn j hit]
    have "chunk_block (heap_chunks h ! j) = b"
      using regions_meet [OF I(2) H(2) bp, of "unat address"] H(3,4) b(2) cp_block_bounds(3) [OF I(2) bp] by (simp add: cpb_end_def)
    then show False using b(1) H(1) j I(1) by (auto simp: heap_direct_def)
  qed
  then have nf: "heap_free address owner h = Some (False, h)" by (rule no_hit_free)
  let ?find = "List.find (\<lambda>b. cpb_addr b = address \<and> cpb_owner b AND 0x00ffffff = owner AND 0x00ffffff) (cp_blocks (heap_pool h))"
  have uniq: "y = b" if "y \<in> set (cp_blocks (heap_pool h))" "cpb_addr y = address" for y
    using cp_block_eqI [OF I(2) that(1) bp] that(2) b(2) by simp
  have find: "?find = (if low24 (cpb_owner b) = low24 owner then Some b else None)"
  proof (cases ?find)
    case None
    then show ?thesis using bp b(2) by (auto simp: find_None_iff low24_def)
  next
    case (Some y)
    then have "y = b" using find_SomeD [OF Some] uniq by blast
    then show ?thesis using find_SomeD [OF Some] Some by (simp add: low24_def)
  qed
  have "card_pool_free address (cpb_owner b) (heap_pool h) = (True, cp_drop (\<lambda>x. cpb_addr x = cpb_addr b) (heap_pool h))"
    using card_pool_free_drop [OF I(2), of address "cpb_owner b"] bp b(2) cp_block_bounds(1) [OF I(2) bp] by auto
  then show ?thesis using nf find by (simp add: module_card_free_def)
qed

lemma module_card_free_ok:
  assumes inv: "heap_inv h" and syn: "heap_synced h" and x: "(unat address, k) \<in> heap_live h"
  shows "\<exists>h'. module_card_free address owner h = Some (heap_held h owner (unat address, k), h') \<and> heap_inv h' \<and> heap_synced h' \<and>
    heap_live h' = (if heap_held h owner (unat address, k) then heap_live h - {(unat address, k)} else heap_live h) \<and>
    (\<not> heap_held h owner (unat address, k) \<longrightarrow> h' = h)"
proof -
  note I = heap_invD [OF inv]
  consider i where "i < 128" "heap_backed (heap_pool h) (heap_chunks h ! i)" "(unat address, k) \<in> chunk_live (heap_mem h) (heap_chunks h ! i)"
    | b where "b \<in> heap_direct h" "(unat address, k) = cpb_region b"
    using x by (auto simp: heap_live_nth [OF I(1)])
  then show ?thesis
  proof cases
    case (1 i)
    have "heap_owned h (\<lambda>w. w = hc_card_owner (heap_chunks h ! i)) (unat address, k)"
      using 1 I(1) by (auto simp: heap_owned_def)
    note held = heap_held_iff [OF inv this, of owner]
    show ?thesis
    proof (cases "low24 (hc_card_owner (heap_chunks h ! i)) = low24 owner")
      case True
      from heap_free_chunk [OF inv syn 1 True] show ?thesis using held True by (auto simp: module_card_free_def)
    next
      case False
      from card_free_chunk [OF inv syn 1 False] show ?thesis using held False inv syn by simp
    qed
  next
    case (2 b)
    have "heap_owned h (\<lambda>w. w = cpb_owner b) (unat address, k)" using 2 by (auto simp: heap_owned_def)
    note held = heap_held_iff [OF inv this, of owner]
    have "cpb_addr b = address" using 2(2) by (simp add: cpb_region_def word_unat_eq_iff)
    from card_free_direct [OF inv syn 2(1) this] show ?thesis
      using heap_drop_direct [OF inv 2(1)] syn inv held 2(2) by simp
  qed
qed

section \<open>Closing an owner\<close>

text \<open>The state after a release: the chunks and pool blocks of the other owners.\<close>

lemma module_release_owner_state:
  assumes inv: "heap_inv h" and owner: "owner \<noteq> 0"
  defines "h' \<equiv> snd (module_release_owner owner h)"
  shows "heap_inv h'" "heap_synced h \<Longrightarrow> heap_synced h'"
    "{c \<in> set (heap_chunks h'). heap_backed (heap_pool h') c} =
       {c \<in> set (heap_chunks h). heap_backed (heap_pool h) c \<and> hc_card_owner c \<noteq> owner}"
    "heap_direct h' = {b \<in> heap_direct h. cpb_owner b \<noteq> owner}"
    "heap_mem h' = heap_mem h"
    "cp_blocks (heap_pool h') = filter (\<lambda>b. cpb_owner b \<noteq> owner) (cp_blocks (heap_pool h))"
    "fst (module_release_owner owner h) = cp_bytes (filter (\<lambda>b. cpb_owner b = owner) (cp_blocks (heap_pool h)))"
proof -
  note I = heap_invD [OF inv]
  let ?cs = "heap_chunks (heap_forget_owner owner h)"
  let ?p = "cp_drop (\<lambda>b. cpb_owner b = owner) (heap_pool h)"
  have eq: "h' = \<lparr>heap_chunks = ?cs, heap_mem = heap_mem h, heap_pool = ?p\<rparr>"
    by (simp add: h'_def module_release_owner_def card_pool_release_owner_def release_where_drop Let_def heap_forget_owner_def)
  show "heap_mem h' = heap_mem h" by (simp add: eq)
  show "cp_blocks (heap_pool h') = filter (\<lambda>b. cpb_owner b \<noteq> owner) (cp_blocks (heap_pool h))" by (simp add: eq)
  show "fst (module_release_owner owner h) = cp_bytes (filter (\<lambda>b. cpb_owner b = owner) (cp_blocks (heap_pool h)))"
    by (simp add: module_release_owner_def card_pool_release_owner_def release_where_drop Let_def)
  have nth: "?cs ! j = (if hc_card_owner (heap_chunks h ! j) = owner then heap_chunk_empty else heap_chunks h ! j)" if "j < 128" for j
    using heap_forget_nth [OF I(1) that] .
  have len: "length ?cs = 128" using I(1) by simp
  have p: "cp_inv ?p" "set (cp_blocks ?p) = {b \<in> set (cp_blocks (heap_pool h)). cpb_owner b \<noteq> owner}"
    using cp_drop_inv [OF I(2)] by auto
  have backed: "heap_backed ?p c \<longleftrightarrow> heap_backed (heap_pool h) c \<and> hc_card_owner c \<noteq> owner" for c
    unfolding heap_backed_def block_owned_iff [OF p(1)] block_owned_iff [OF I(2)] p(2) by auto
  have bnth: "heap_backed ?p (?cs ! j) \<longleftrightarrow> heap_backed (heap_pool h) (heap_chunks h ! j) \<and> hc_card_owner (heap_chunks h ! j) \<noteq> owner"
    if "j < 128" for j using backed nth [OF that] by auto
  show "heap_inv h'" unfolding eq
    by (rule heap_shrink(1) [OF inv len]) (use nth p in \<open>auto split: if_splits\<close>)
  show "heap_synced h'" if "heap_synced h"
  proof -
    have "heap_backed ?p (?cs ! j)" if j: "j < 128" "hc_card_owner (?cs ! j) \<noteq> 0" for j
      using \<open>heap_synced h\<close> j nth [OF j(1)] bnth [OF j(1)] I(1) by (auto simp: heap_synced_def heap_chunk_empty_def split: if_splits)
    then show ?thesis using len by (auto simp: eq heap_synced_def in_set_conv_nth)
  qed
  have chunks: "{c \<in> set ?cs. heap_backed ?p c} = {c \<in> set (heap_chunks h). heap_backed (heap_pool h) c \<and> hc_card_owner c \<noteq> owner}"
  proof -
    have "set ?cs \<subseteq> insert heap_chunk_empty (set (heap_chunks h))" by (auto simp: heap_forget_owner_def)
    moreover have "c \<in> set ?cs" if "c \<in> set (heap_chunks h)" "hc_card_owner c \<noteq> owner" for c
      using that by (force simp: heap_forget_owner_def)
    moreover have "\<not> heap_backed ?p heap_chunk_empty" by simp
    ultimately show ?thesis using backed by blast
  qed
  then show "{c \<in> set (heap_chunks h'). heap_backed (heap_pool h') c} =
       {c \<in> set (heap_chunks h). heap_backed (heap_pool h) c \<and> hc_card_owner c \<noteq> owner}" by (simp add: eq)
  have "(\<forall>c\<in>set ?cs. heap_backed ?p c \<longrightarrow> chunk_block c \<noteq> b) \<longleftrightarrow> (\<forall>c\<in>set (heap_chunks h). heap_backed (heap_pool h) c \<longrightarrow> chunk_block c \<noteq> b)"
    if "cpb_owner b \<noteq> owner" for b
  proof -
    have "hc_card_owner c \<noteq> owner" if "chunk_block c = b" for c using that \<open>cpb_owner b \<noteq> owner\<close> by (auto simp: chunk_block_def)
    moreover have "c \<in> set ?cs \<and> heap_backed ?p c \<longleftrightarrow> c \<in> set (heap_chunks h) \<and> heap_backed (heap_pool h) c \<and> hc_card_owner c \<noteq> owner" for c
      using chunks by blast
    ultimately show ?thesis by metis
  qed
  then show "heap_direct h' = {b \<in> heap_direct h. cpb_owner b \<noteq> owner}"
    using p(2) by (simp add: eq heap_direct_def) blast
qed

lemma module_release_owner_owned:
  assumes "heap_inv h" "owner \<noteq> 0"
  shows "heap_owned (snd (module_release_owner owner h)) P x = heap_owned h (\<lambda>w. P w \<and> w \<noteq> owner) x"
proof -
  let ?h = "snd (module_release_owner owner h)"
  note R = module_release_owner_state [OF assms]
  have "heap_owned ?h P x \<longleftrightarrow>
      (\<exists>c\<in>{c \<in> set (heap_chunks ?h). heap_backed (heap_pool ?h) c}. x \<in> chunk_live (heap_mem ?h) c \<and> P (hc_card_owner c)) \<or>
      (\<exists>b\<in>heap_direct ?h. x = cpb_region b \<and> P (cpb_owner b))"
    by (auto simp: heap_owned_def)
  then show ?thesis unfolding R(3-5) by (auto simp: heap_owned_def)
qed

lemma module_release_owner_ok:
  assumes inv: "heap_inv h" and owner: "owner \<noteq> 0"
  defines "h' \<equiv> snd (module_release_owner owner h)"
  shows "heap_inv h'" "heap_synced h \<Longrightarrow> heap_synced h'"
    "heap_live h' = {x \<in> heap_live h. \<not> heap_owned h (\<lambda>w. w = owner) x}"
    "cp_blocks (heap_pool h') = filter (\<lambda>b. cpb_owner b \<noteq> owner) (cp_blocks (heap_pool h))"
proof -
  show "heap_inv h'" "heap_synced h \<Longrightarrow> heap_synced h'"
    "cp_blocks (heap_pool h') = filter (\<lambda>b. cpb_owner b \<noteq> owner) (cp_blocks (heap_pool h))"
    using module_release_owner_state [OF inv owner] by (simp_all add: h'_def)
  have "heap_owned h (\<lambda>w. w \<noteq> owner) x \<longleftrightarrow> heap_owned h (\<lambda>_. True) x \<and> \<not> heap_owned h (\<lambda>w. w = owner) x" for x
    using heap_owned_unique [OF inv, of "\<lambda>w. w \<noteq> owner" x "\<lambda>w. w = owner"] by (auto simp: heap_owned_def)
  then show "heap_live h' = {x \<in> heap_live h. \<not> heap_owned h (\<lambda>w. w = owner) x}"
    by (simp add: heap_owned_live h'_def module_release_owner_owned [OF inv owner])
qed

section \<open>Frees of what is not live\<close>

text \<open>
  The addresses a client may free: any live one, and any other whose 64 bytes before
  do not spell the mark of a used block, unless a chunk starts right there. This admits
  double frees, addresses inside a block and addresses of other owners; \<open>heap_free\<close>
  refuses them by its owner and bounds test, the granule test or the mark.
\<close>

definition mh_free_ok :: "u32 \<Rightarrow> module_heap \<Rightarrow> bool" where
  "mh_free_ok address h \<longleftrightarrow> (\<exists>k. (unat address, k) \<in> heap_live h) \<or>
     hb_magic (heap_mem h (address - heap_header_bytes)) \<noteq> ZZM_HEAP_USED_MAGIC \<and>
     (\<forall>c\<in>set (heap_chunks h). hc_card_owner c \<noteq> 0 \<longrightarrow> hc_address c \<noteq> address)"

lemma free_scan_refuses:
  assumes "\<And>i. i \<in> set is \<Longrightarrow> heap_free_hit (heap_chunks h ! i) address owner \<Longrightarrow> heap_backed (heap_pool h) (heap_chunks h ! i)"
    and "hb_magic (heap_mem h (address - heap_header_bytes)) \<noteq> ZZM_HEAP_USED_MAGIC"
  shows "heap_free_scan is address owner h = Some (False, h)"
  using assms(1)
proof (induction "is")
  case (Cons i js)
  let ?c = "heap_chunks h ! i"
  show ?case
  proof (cases "heap_free_hit ?c address owner")
    case True
    then have "heap_backed (heap_pool h) ?c" using Cons.prems by simp
    then have "card_pool_block_owned (hc_address ?c) (hc_bytes ?c) (hc_card_owner ?c) (heap_pool h)"
      by (simp add: heap_backed_def)
    moreover have "heap_block_at (heap_mem h) ?c (address - hc_address ?c - heap_header_bytes) =
        heap_mem h (address - heap_header_bytes)" by (simp add: heap_block_at_def)
    ultimately show ?thesis using True assms(2) by (simp add: Let_def)
  next
    case False
    then show ?thesis using Cons by (simp add: Let_def)
  qed
qed simp

lemma module_card_free_stray:
  assumes inv: "heap_inv h" and syn: "heap_synced h" and ok: "mh_free_ok address h"
    and stray: "\<nexists>k. (unat address, k) \<in> heap_live h"
  shows "module_card_free address owner h = Some (False, h)"
proof -
  note I = heap_invD [OF inv]
  have ok': "hb_magic (heap_mem h (address - heap_header_bytes)) \<noteq> ZZM_HEAP_USED_MAGIC"
    "\<And>c. c \<in> set (heap_chunks h) \<Longrightarrow> hc_card_owner c \<noteq> 0 \<Longrightarrow> hc_address c \<noteq> address"
    using ok stray by (auto simp: mh_free_ok_def)
  have "heap_free address owner h = Some (False, h)" unfolding heap_free_def
    by (rule free_scan_refuses [OF _ ok'(1)]) (use hit_block(1) [OF inv syn] in \<open>simp add: heap_consts\<close>)
  moreover have "cpb_addr b \<noteq> address" if b: "b \<in> set (cp_blocks (heap_pool h))" for b
  proof
    assume a: "cpb_addr b = address"
    have "chunk_block c \<noteq> b" if "c \<in> set (heap_chunks h)" "heap_backed (heap_pool h) c" for c
      using ok'(2) [OF that(1)] a that(2) by (auto simp: chunk_block_def heap_backed_def)
    then have "b \<in> heap_direct h" using b by (simp add: heap_direct_def)
    then have "(unat address, unat (cpb_size b)) \<in> heap_live h" using a by (force simp: heap_live_def cpb_region_def)
    then show False using stray by blast
  qed
  then have "List.find (\<lambda>b. cpb_addr b = address \<and> cpb_owner b AND 0x00ffffff = owner AND 0x00ffffff)
      (cp_blocks (heap_pool h)) = None" by (auto simp: find_None_iff)
  ultimately show ?thesis by (simp add: module_card_free_def)
qed

text \<open>A free returns, keeps the heap well formed and never adds a live region.\<close>

lemma module_card_free_any:
  assumes inv: "heap_inv h" and syn: "heap_synced h" and ok: "mh_free_ok address h"
  shows "\<exists>freed h'. module_card_free address owner h = Some (freed, h') \<and> heap_inv h' \<and> heap_synced h' \<and>
    heap_live h' \<subseteq> heap_live h"
proof (cases "\<exists>k. (unat address, k) \<in> heap_live h")
  case True
  then obtain k where "(unat address, k) \<in> heap_live h" by blast
  from module_card_free_ok [OF inv syn this, of owner] show ?thesis by (auto split: if_splits)
next
  case False
  then show ?thesis using module_card_free_stray [OF inv syn ok False] inv syn by blast
qed

section \<open>The rest of the firmware\<close>

text \<open>A pool operation that takes no chunk of the heap is not noticed by it.\<close>

lemma heap_pool_keep:
  assumes inv: "heap_inv h" and syn: "heap_synced h" and p: "cp_inv p" "set (cp_blocks p) \<subseteq> set (cp_blocks (heap_pool h))"
    and keep: "\<forall>c\<in>set (heap_chunks h). hc_card_owner c \<noteq> 0 \<longrightarrow> chunk_block c \<in> set (cp_blocks p)"
  shows "heap_inv (h\<lparr>heap_pool := p\<rparr>)" "heap_synced (h\<lparr>heap_pool := p\<rparr>)" "heap_live (h\<lparr>heap_pool := p\<rparr>) \<subseteq> heap_live h"
proof -
  note I = heap_invD [OF inv]
  have eq: "h\<lparr>heap_pool := p\<rparr> = \<lparr>heap_chunks = heap_chunks h, heap_mem = heap_mem h, heap_pool = p\<rparr>" by simp
  show "heap_inv (h\<lparr>heap_pool := p\<rparr>)" unfolding eq
    by (rule heap_shrink(1) [OF inv I(1)]) (simp_all add: p)
  have "heap_backed p c" if c: "c \<in> set (heap_chunks h)" "hc_card_owner c \<noteq> 0" for c
  proof -
    have "heap_backed (heap_pool h) c" using syn c by (simp add: heap_synced_def)
    then show ?thesis using keep c unfolding heap_backed_def block_owned_iff [OF p(1)] block_owned_iff [OF I(2)]
      by (auto simp: chunk_block_def intro!: bexI [of _ "\<lparr>cpb_addr = hc_address c, cpb_size = hc_bytes c, cpb_owner = hc_card_owner c\<rparr>"])
  qed
  then show "heap_synced (h\<lparr>heap_pool := p\<rparr>)" by (simp add: heap_synced_def)
  show "heap_live (h\<lparr>heap_pool := p\<rparr>) \<subseteq> heap_live h" unfolding eq
    by (rule heap_shrink(3) [OF inv I(1)]) (auto simp: p heap_backed_def heap_chunk_empty_def)
qed

text \<open>
  Modules write the memory they hold as they like. The heap needs that they leave alone
  the 64-byte headers of the blocks of its chunks.
\<close>

definition mh_headers_kept :: "heap_mem \<Rightarrow> module_heap \<Rightarrow> bool" where
  "mh_headers_kept m h \<longleftrightarrow> (\<forall>c\<in>set (heap_chunks h). hc_card_owner c \<noteq> 0 \<longrightarrow>
     (\<forall>k\<in>set (starts 0 (chunk_blocks (heap_mem h) c)). m (hc_address c + of_nat k) = heap_mem h (hc_address c + of_nat k)))"

lemma heap_write_keep:
  assumes inv: "heap_inv h" and m: "mh_headers_kept m h"
  shows "heap_inv (h\<lparr>heap_mem := m\<rparr>)" "heap_synced h \<Longrightarrow> heap_synced (h\<lparr>heap_mem := m\<rparr>)"
    "heap_live (h\<lparr>heap_mem := m\<rparr>) = heap_live h"
proof -
  note I = heap_invD [OF inv]
  have rep: "chunk_rep m c bs" if c: "c \<in> set (heap_chunks h)" "heap_backed (heap_pool h) c" and bs: "chunk_rep (heap_mem h) c bs" for c bs
  proof -
    have "hc_card_owner c \<noteq> 0" using c(2) by (simp add: heap_backed_def)
    then have "heap_rep m (hc_address c) 0 bs ZZM_HEAP_NONE = heap_rep (heap_mem h) (hc_address c) 0 bs ZZM_HEAP_NONE"
      using m c(1) by (intro heap_rep_frame) (auto simp: mh_headers_kept_def chunk_blocks_rep [OF bs])
    then show ?thesis using bs by (simp add: chunk_rep_def prefix_rep_def)
  qed
  have live: "chunk_live m c = chunk_live (heap_mem h) c" if c: "c \<in> set (heap_chunks h)" "heap_backed (heap_pool h) c" for c
  proof -
    obtain bs where bs: "chunk_rep (heap_mem h) c bs" using I(4) [OF c] by blast
    show ?thesis by (simp add: chunk_live_def chunk_blocks_rep [OF bs] chunk_blocks_rep [OF rep [OF c bs]])
  qed
  show "heap_inv (h\<lparr>heap_mem := m\<rparr>)" using inv rep unfolding heap_inv_def by (auto, blast)
  show "heap_synced (h\<lparr>heap_mem := m\<rparr>)" if "heap_synced h" using that by (simp add: heap_synced_def)
  show "heap_live (h\<lparr>heap_mem := m\<rparr>) = heap_live h" using live by (auto simp: heap_live_def heap_direct_def)
qed

section \<open>The allocator contract\<close>

text \<open>
  Requests are a module's (owner, memory class, quota, bytes) and the other pool clients'
  (bytes, owner). Modules free, close owners and write their memory; the rest of the
  firmware frees, releases, revokes and resets in the pool (\<open>cp_do_release\<close>).
\<close>

datatype mh_request = MhAlloc u32 u32 u32 u32 | MhPoolAlloc u32 u32

datatype mh_release = MhFree u32 u32 | MhClose u32 | MhWrite heap_mem | MhPool cp_release

fun mh_alloc :: "mh_request \<Rightarrow> module_heap \<Rightarrow> u32 \<times> module_heap" where
  "mh_alloc (MhAlloc owner memory_class quota bytes) h =
     (case module_card_alloc owner memory_class quota bytes h of None \<Rightarrow> (0, h) | Some r \<Rightarrow> r)"
| "mh_alloc (MhPoolAlloc bytes owner) h =
     (case card_pool_alloc bytes owner (heap_pool h) of (a, p) \<Rightarrow> (a, if a = 0 then h else h\<lparr>heap_pool := p\<rparr>))"

fun mh_need :: "mh_request \<Rightarrow> nat" where
  "mh_need (MhAlloc owner memory_class quota bytes) = unat bytes"
| "mh_need (MhPoolAlloc bytes owner) = unat bytes"

fun mh_do_release :: "mh_release \<Rightarrow> module_heap \<Rightarrow> module_heap" where
  "mh_do_release (MhFree address owner) h =
     (case module_card_free address owner h of None \<Rightarrow> h | Some (_, h') \<Rightarrow> h')"
| "mh_do_release (MhClose owner) h = snd (module_release_owner owner h)"
| "mh_do_release (MhWrite m) h = h\<lparr>heap_mem := m\<rparr>"
| "mh_do_release (MhPool k) h = h\<lparr>heap_pool := cp_do_release k (heap_pool h)\<rparr>"

text \<open>
  What is asked of them: no free of a forged header or of a chunk's own first byte, no close
  of owner 0 (no owner has that number), no write over a header, and no pool operation that
  takes a chunk away (the heap then keeps a stale record).
\<close>

fun mh_may :: "mh_release \<Rightarrow> module_heap \<Rightarrow> bool" where
  "mh_may (MhFree address owner) h = mh_free_ok address h"
| "mh_may (MhClose owner) h = (owner \<noteq> 0)"
| "mh_may (MhWrite m) h = mh_headers_kept m h"
| "mh_may (MhPool k) h = (\<forall>c\<in>set (heap_chunks h). hc_card_owner c \<noteq> 0 \<longrightarrow>
     chunk_block c \<in> set (cp_blocks (cp_do_release k (heap_pool h))))"

lemma pool_client_alloc_ok:
  assumes inv: "heap_inv h" and syn: "heap_synced h" and res: "card_pool_alloc bytes owner (heap_pool h) = (a, p)" "a \<noteq> 0"
  shows "heap_inv (h\<lparr>heap_pool := p\<rparr>)" "heap_synced (h\<lparr>heap_pool := p\<rparr>)" "handed (unat bytes) a h (h\<lparr>heap_pool := p\<rparr>)"
proof -
  note P = heap_pool_insert [OF inv heap_synced_owner [OF syn] res]
  show "heap_inv (h\<lparr>heap_pool := p\<rparr>)" by (rule P(1))
  show "heap_synced (h\<lparr>heap_pool := p\<rparr>)" using syn P(2) by (auto simp: heap_synced_def)
  have "bytes \<noteq> 0" using cp_alloc_cases [OF heap_invD(2) [OF inv] res(1)] res(2) by auto
  then have "0 < unat (cp_rounded bytes)" using P(7) by (simp add: unat_gt_0 [symmetric])
  moreover have "64 dvd unat a" using P(8) by (rule dvd_trans [rotated]) simp
  ultimately show "handed (unat bytes) a h (h\<lparr>heap_pool := p\<rparr>)"
    using P(4-7) by (auto simp: handed_def cpb_region_def intro!: exI [of _ "unat (cp_rounded bytes)"])
qed

lemma mh_alloc_ok:
  assumes "heap_inv h \<and> heap_synced h" "mh_alloc r h = (a, h')"
  shows "heap_inv h' \<and> heap_synced h'" "a = 0 \<Longrightarrow> h' = h" "a \<noteq> 0 \<Longrightarrow> handed (mh_need r) a h h'"
proof -
  have "(heap_inv h' \<and> heap_synced h') \<and> (a = 0 \<longrightarrow> h' = h) \<and> (a \<noteq> 0 \<longrightarrow> handed (mh_need r) a h h')"
  proof (cases r)
    case (MhAlloc owner cls quota bytes)
    have "owner_synced (module_card_owner owner cls) h" using assms(1) heap_synced_owner by blast
    with module_card_alloc_ok [of h bytes owner cls quota] assms show ?thesis by (auto simp: MhAlloc)
  next
    case (MhPoolAlloc bytes owner)
    obtain b p where b: "card_pool_alloc bytes owner (heap_pool h) = (b, p)" by fastforce
    then show ?thesis using assms pool_client_alloc_ok [OF _ _ b] by (cases "b = 0") (auto simp: MhPoolAlloc)
  qed
  then show "heap_inv h' \<and> heap_synced h'" "a = 0 \<Longrightarrow> h' = h" "a \<noteq> 0 \<Longrightarrow> handed (mh_need r) a h h'" by auto
qed

lemma mh_release_ok:
  assumes hs: "heap_inv h \<and> heap_synced h" and may: "mh_may k h"
  shows "heap_live (mh_do_release k h) \<subseteq> heap_live h \<and> heap_inv (mh_do_release k h) \<and> heap_synced (mh_do_release k h)"
proof (cases k)
  case (MhFree address owner)
  with may hs module_card_free_any [of h address owner] show ?thesis by auto
next
  case (MhClose owner)
  then show ?thesis using module_release_owner_ok [of h owner] hs may by auto
next
  case (MhWrite m)
  then show ?thesis using heap_write_keep [of h m] hs may by auto
next
  case (MhPool q)
  then show ?thesis
    using heap_pool_keep [of h "cp_do_release q (heap_pool h)"] cp_release_ok [OF heap_invD(2), of h q] hs may by auto
qed

interpretation mh: region_allocator
  heap_live "\<lambda>h. heap_inv h \<and> heap_synced h" mh_alloc "\<lambda>r h. True" mh_need mh_do_release mh_may
proof unfold_locales
  fix h x y assume "heap_inv h \<and> heap_synced h" "x \<in> heap_live h" "y \<in> heap_live h" "x \<noteq> y"
  then show "disjoint_regions x y" using heap_live_disjoint by blast
next
  fix h r h' assume "heap_inv h \<and> heap_synced h" "mh_alloc r h = (0, h')"
  then show "h' = h" using mh_alloc_ok(2) by blast
next
  fix h r a h' assume "heap_inv h \<and> heap_synced h" "mh_alloc r h = (a, h')" "a \<noteq> 0"
  from mh_alloc_ok(3) [OF this] show "\<exists>n>0. mh_need r \<le> n \<and> (unat a, n) \<notin> heap_live h \<and>
      heap_live h' = insert (unat a, n) (heap_live h)" by (auto simp: handed_def)
next
  fix h r assume i: "heap_inv h \<and> heap_synced h"
  obtain a h' where e: "mh_alloc r h = (a, h')" by fastforce
  show "heap_inv (snd (mh_alloc r h)) \<and> heap_synced (snd (mh_alloc r h))" using mh_alloc_ok(1) [OF i e] by (simp add: e)
next
  fix h k assume "heap_inv h \<and> heap_synced h" "mh_may k h"
  from mh_release_ok [OF this] show "heap_live (mh_do_release k h) \<subseteq> heap_live h"
    and "heap_inv (mh_do_release k h) \<and> heap_synced (mh_do_release k h)" by blast+
qed

section \<open>What the module heap promises\<close>

text \<open>
  every allocation call returns and keeps the heap well formed, also with
  stale chunks in the table: an address it hands out is 64-byte aligned and its bytes
  are disjoint from everything live. Only a direct allocation asks that the owner has no
  stale chunk.
\<close>

theorem module_heap_alloc_spec:
  assumes "heap_inv h"
    and "bytes \<ge> ZZM_HEAP_DIRECT_BYTES \<Longrightarrow> owner_synced (module_card_owner owner memory_class) h"
  shows "\<exists>a h'. module_card_alloc owner memory_class quota bytes h = Some (a, h') \<and> heap_inv h' \<and>
    (a \<noteq> 0 \<longrightarrow> (\<exists>n\<ge>unat bytes. 64 dvd unat a \<and> (unat a, n) \<in> heap_live h' \<and>
       (\<forall>x\<in>heap_live h. region_addrs (unat a, n) \<inter> region_addrs x = {})))"
  using module_card_alloc_ok [OF assms] disjoint_regions_addrs by meson

lemma module_heap_init_ok:
  assumes "cp_inv p"
  shows "heap_inv (module_heap_init p m)" "heap_synced (module_heap_init p m)"
  using assms by (auto simp: heap_inv_def heap_synced_def module_heap_init_def heap_chunk_empty_def heap_consts heap_backed_def)


text \<open>
  freeing a live address returns, and succeeds exactly when the caller holds
  it: then that region alone is no longer live; otherwise nothing changes at all.
\<close>

theorem module_heap_free_spec:
  assumes "heap_inv h" "heap_synced h" "(unat address, k) \<in> heap_live h"
  shows "\<exists>h'. module_card_free address owner h = Some (heap_held h owner (unat address, k), h') \<and>
    heap_inv h' \<and> heap_synced h' \<and>
    heap_live h' = (if heap_held h owner (unat address, k) then heap_live h - {(unat address, k)} else heap_live h) \<and>
    (\<not> heap_held h owner (unat address, k) \<longrightarrow> h' = h)"
  using assms by (rule module_card_free_ok)

text \<open>
  C25: closing an owner takes back exactly its memory: what stays live is what
  other owners hold, and the pool loses exactly the blocks of this owner.
\<close>

theorem module_heap_close_spec:
  assumes "heap_inv h" "heap_synced h" "owner \<noteq> 0" "module_release_owner owner h = (freed, h')"
  shows "heap_inv h' \<and> heap_synced h' \<and>
    heap_live h' = {x \<in> heap_live h. \<not> heap_owned h (\<lambda>w. w = owner) x} \<and>
    cp_blocks (heap_pool h') = filter (\<lambda>b. cpb_owner b \<noteq> owner) (cp_blocks (heap_pool h))"
  using module_release_owner_ok [OF assms(1,3)] assms(2,4) by simp

lemma hfree_split:
  assumes "coalesced (us @ (n, False) # vs)" and that: "need \<le> n"
  shows "\<exists>k ws. split_block need n @ vs = (k, True) # ws \<and> hfree us k ws = us @ (n, False) # vs"
proof (cases "128 \<le> n - need")
  case True
  have "us = [] \<or> snd (last us)" using assms by (auto simp: coalesced_append)
  then have "hfree us need ((n - need, False) # vs) = us @ (n, False) # vs"
    using that by (auto simp: hfree_def hfree_next_def hfree_prior_def)
  then show ?thesis using True by (auto simp: split_block_def)
next
  case False
  have "us = [] \<or> snd (last us)" "vs = [] \<or> snd (hd vs)" using assms by (auto simp: coalesced_append coalesced_Cons)
  then have "hfree us n vs = us @ (n, False) # vs"
    by (cases vs) (auto simp: hfree_def hfree_next_def hfree_prior_def split: bool.splits prod.splits)
  then show ?thesis using False by (auto simp: split_block_def)
qed

text \<open>
  C26: taking a block from a chunk and freeing it gives back the chunk as it was:
  the same record, and headers that describe the same blocks.
\<close>

theorem heap_take_free_roundtrip:
  assumes rep: "chunk_rep m c bs" and need: "64 dvd need" "128 \<le> need" "need \<le> 1048576"
    and take: "heap_take m c (of_nat need) = Some (a, m1, c1)" "a \<noteq> 0"
  shows "\<exists>m2. heap_free_block m1 c1 (a - hc_address c1 - heap_header_bytes) = Some (m2, c) \<and> chunk_rep m2 c bs"
proof -
  have "htake need 0 bs \<noteq> None"
    using heap_take_spec [OF rep need] take by (cases "htake need 0 bs") simp_all
  then obtain off bs' where h: "htake need 0 bs = Some (off, bs')" by auto
  obtain m' c' where t: "heap_take m c (of_nat need) = Some (hc_address c + of_nat off + 64, m', c')" "chunk_rep m' c' bs'"
      "hc_card_owner c' = hc_card_owner c" "hc_address c' = hc_address c" "hc_bytes c' = hc_bytes c"
    using heap_take_spec [OF rep need] by (auto simp: h)
  have eqs: "a = hc_address c + of_nat off + 64" "m1 = m'" "c1 = c'" using t(1) take(1) by auto
  obtain us n vs where d: "bs = us @ (n, False) # vs" "off = hsize us" "need \<le> n" "bs' = us @ split_block need n @ vs"
    using htake_Some [OF h] by (metis add_0)
  have "coalesced (us @ (n, False) # vs)" using rep d(1) by (simp add: chunk_rep_def)
  from hfree_split [OF this d(3)] obtain k ws where s: "split_block need n @ vs = (k, True) # ws" "hfree us k ws = bs"
    by (auto simp: d(1))
  have "chunk_rep m' c' (us @ (k, True) # ws)" using t(2) d(4) s(1) by simp
  from heap_free_block_spec [OF this] obtain m2 c2 where f: "heap_free_block m' c' (of_nat off) = Some (m2, c2)"
      "chunk_rep m2 c2 bs" "hc_card_owner c2 = hc_card_owner c'" "hc_address c2 = hc_address c'" "hc_bytes c2 = hc_bytes c'"
    unfolding s(2) d(2) by metis
  have c2: "c2 = c" using f(2-5) t(3-5) rep by (auto simp: chunk_rep_def prefix_rep_def intro: heap_chunk.equality)
  have "a - hc_address c1 - heap_header_bytes = of_nat off" using t(4) by (simp add: eqs heap_header_bytes_def)
  then show ?thesis using f(1,2) unfolding c2 eqs(2,3) by metis
qed

section \<open>Concrete runs\<close>

text \<open>Module 5 asks for 100 bytes of MEDIA memory on the demo pool: a 1 MiB chunk at its first gap.\<close>

definition mh_demo_mem :: heap_mem where
  "mh_demo_mem = (\<lambda>_. \<lparr>hb_magic = 0, hb_bytes = 0, hb_next = 0\<rparr>)"

definition mh_demo :: module_heap where "mh_demo = module_heap_init cp_demo mh_demo_mem"

lemma mh_demo_ok: "heap_inv mh_demo" "heap_synced mh_demo"
  using module_heap_init_ok [OF cp_demo_inv] by (simp_all add: mh_demo_def)

lemma heap_scan_foreign:
  "(\<forall>i\<in>set xs. hc_card_owner (heap_chunks h ! i) \<noteq> owner) \<Longrightarrow> heap_scan xs owner need h = Some (0, h)"
  by (induction xs) (auto simp: Let_def)

lemma mh_demo_alloc: "\<exists>h'. module_card_alloc 5 1 0x200000 100 mh_demo = Some (0x0B030040, h')"
proof -
  have o: "module_card_owner 5 1 = 0x02000005"
    by (simp add: module_card_owner_def module_card_class_def CARD_POOL_OWNER_def push_bit_eq_mult)
  have n: "heap_need 100 = 192" by (simp add: heap_need_def heap_consts)
  have scan: "heap_scan [0..<ZZM_HEAP_MAX_CHUNKS] 0x02000005 192 mh_demo = Some (0, mh_demo)"
    by (rule heap_scan_foreign) (auto simp: mh_demo_def module_heap_init_def heap_chunk_empty_def heap_consts)
  have find: "List.find (\<lambda>i. hc_card_owner (heap_chunks mh_demo ! i) = 0) [0..<ZZM_HEAP_MAX_CHUNKS] = Some 0"
    by (simp add: mh_demo_def module_heap_init_def heap_chunk_empty_def heap_consts upt_conv_Cons)
  have used: "module_owner_used 0x02000005 (heap_pool mh_demo) = 0"
    by (simp add: module_owner_used_def mh_demo_def module_heap_init_def cp_demo_def)
  have pool: "fst (card_pool_alloc 0x100000 0x02000005 (heap_pool mh_demo)) = 0x0B030000"
    by (simp add: mh_demo_def module_heap_init_def cp_run_eval)
  obtain p where p: "card_pool_alloc 0x100000 0x02000005 (heap_pool mh_demo) = (0x0B030000, p)"
    using pool by (metis prod.collapse)
  let ?c = "\<lparr>hc_card_owner = 0x02000005, hc_address = 0x0B030000, hc_bytes = 0x100000, hc_free_head = 0, hc_used = 0\<rparr>"
  let ?b = "\<lparr>hb_magic = ZZM_HEAP_FREE_MAGIC, hb_bytes = 0x100000, hb_next = ZZM_HEAP_NONE\<rparr>"
  have "\<exists>m c. heap_take ((heap_mem mh_demo)(0x0B030000 := ?b)) ?c 192 = Some (0x0B030040, m, c)"
    by (simp add: heap_take_def heap_take_walk.simps heap_take_block_def heap_block_at_def heap_block_put_def heap_consts Let_def)
  then obtain m c where t: "heap_take ((heap_mem mh_demo)(0x0B030000 := ?b)) ?c 192 = Some (0x0B030040, m, c)" by blast
  have sz: "heap_chunk_size 0 0x200000 = 0x100000" by (simp add: heap_chunk_size_def heap_consts)
  have "heap_grow 0x02000005 0x200000 192 mh_demo = Some (0x0B030040, heap_put_chunk 0 c m (mh_demo\<lparr>heap_pool := p\<rparr>))"
    using find p t by (simp add: heap_grow_def used sz)
  then have "heap_alloc 0x02000005 0x200000 100 mh_demo = Some (0x0B030040, heap_put_chunk 0 c m (mh_demo\<lparr>heap_pool := p\<rparr>))"
    using scan by (simp add: heap_alloc_def n)
  then show ?thesis by (simp add: module_card_alloc_def Let_def o heap_consts)
qed

text \<open>
  A slot whose record is stale goes only when its own owner calls again. With every
  slot taken by other owners, no request of a new owner below 128 KiB succeeds,
  whatever the pool has free.
\<close>

lemma heap_table_exhausted:
  assumes "\<forall>i<128. hc_card_owner (heap_chunks h ! i) \<noteq> 0 \<and> hc_card_owner (heap_chunks h ! i) \<noteq> owner"
  shows "heap_alloc owner quota bytes h = Some (0, h)"
proof -
  have "heap_scan [0..<ZZM_HEAP_MAX_CHUNKS] owner (heap_need bytes) h = Some (0, h)"
    using assms by (intro heap_scan_foreign) (auto simp: heap_consts)
  moreover have "List.find (\<lambda>i. hc_card_owner (heap_chunks h ! i) = 0) [0..<ZZM_HEAP_MAX_CHUNKS] = None"
    using assms by (auto simp: find_None_iff heap_consts)
  ultimately show ?thesis by (simp add: heap_alloc_def heap_grow_def Let_def)
qed

theorem module_heap_alloc_spec_witness:
  "\<exists>h' n. module_card_alloc 5 1 0x200000 100 mh_demo = Some (0x0B030040, h') \<and> heap_inv h' \<and>
     100 \<le> n \<and> (0x0B030040, n) \<in> heap_live h'"
  using module_heap_alloc_spec [OF mh_demo_ok(1), of 100 5 1 "0x200000"] mh_demo_alloc
  by (auto simp: heap_consts)

text \<open>A free inside the block of owner 7 is refused, and does not get in the way.\<close>

lemma mh_demo_live: "heap_live mh_demo = cpb_region ` set (cp_blocks cp_demo)"
  by (auto simp: heap_live_def heap_direct_def mh_demo_def module_heap_init_def heap_chunk_empty_def heap_backed_def)

lemma mh_demo_stray: "mh_may (MhFree 0x0B010040 7) mh_demo" "mh_do_release (MhFree 0x0B010040 7) mh_demo = mh_demo"
proof -
  show m: "mh_may (MhFree 0x0B010040 7) mh_demo"
    by (auto simp: mh_free_ok_def mh_demo_def module_heap_init_def mh_demo_mem_def heap_chunk_empty_def heap_consts)
  have "\<nexists>k. (unat (0x0B010040 :: u32), k) \<in> heap_live mh_demo"
    by (simp add: mh_demo_live cp_demo_def cpb_region_def)
  from module_card_free_stray [OF mh_demo_ok _ this] m show "mh_do_release (MhFree 0x0B010040 7) mh_demo = mh_demo" by simp
qed


theorem module_heap_free_spec_witness:
  "\<exists>h'. module_card_free 0x0B010000 7 mh_demo = Some (True, h') \<and> (0x0B010000, 0x20000) \<notin> heap_live h'"
proof -
  have b: "\<lparr>cpb_addr = 0x0B010000, cpb_size = 0x20000, cpb_owner = 0x02000007\<rparr> \<in> heap_direct mh_demo"
    by (simp add: heap_direct_def mh_demo_def module_heap_init_def cp_demo_def heap_chunk_empty_def heap_backed_def)
  then have live: "(0x0B010000, 0x20000) \<in> heap_live mh_demo" by (force simp: heap_live_def cpb_region_def)
  have held: "heap_held mh_demo 7 (0x0B010000, 0x20000)"
    using b by (auto simp: heap_held_def heap_owned_def cpb_region_def low24_def intro!: bexI [OF _ b])
  show ?thesis
    using module_heap_free_spec [OF mh_demo_ok, of "0x0B010000" "0x20000" 7] live held by auto
qed

theorem module_heap_close_spec_witness:
  "heap_live (snd (module_release_owner 0x02000007 mh_demo)) = {x \<in> heap_live mh_demo. \<not> heap_owned mh_demo (\<lambda>w. w = 0x02000007) x} \<and>
   length (cp_blocks (heap_pool (snd (module_release_owner 0x02000007 mh_demo)))) = 1"
proof -
  obtain f h' where r: "module_release_owner 0x02000007 mh_demo = (f, h')" by fastforce
  from module_heap_close_spec [OF mh_demo_ok _ r] show ?thesis
    by (simp add: r) (simp add: mh_demo_def module_heap_init_def cp_demo_def)
qed

theorem heap_take_free_roundtrip_witness:
  "\<exists>m1 c1 m2. heap_take (mh_demo_mem(0x0B030000 := \<lparr>hb_magic = ZZM_HEAP_FREE_MAGIC, hb_bytes = 0x100000, hb_next = ZZM_HEAP_NONE\<rparr>))
       \<lparr>hc_card_owner = 0x02000005, hc_address = 0x0B030000, hc_bytes = 0x100000, hc_free_head = 0, hc_used = 0\<rparr> 192 = Some (0x0B030040, m1, c1) \<and>
     heap_free_block m1 c1 0 =
       Some (m2, \<lparr>hc_card_owner = 0x02000005, hc_address = 0x0B030000, hc_bytes = 0x100000, hc_free_head = 0, hc_used = 0\<rparr>)"
proof -
  let ?m = "mh_demo_mem(0x0B030000 := \<lparr>hb_magic = ZZM_HEAP_FREE_MAGIC, hb_bytes = 0x100000, hb_next = ZZM_HEAP_NONE\<rparr>)"
  let ?c = "\<lparr>hc_card_owner = 0x02000005, hc_address = 0x0B030000, hc_bytes = 0x100000, hc_free_head = 0, hc_used = 0\<rparr>"
  have "\<exists>m1 c1. heap_take ?m ?c 192 = Some (0x0B030040, m1, c1) \<and> hc_address c1 = 0x0B030000"
    by (simp add: heap_take_def heap_take_walk.simps heap_take_block_def heap_block_at_def heap_block_put_def heap_consts Let_def)
  then obtain m1 c1 where t: "heap_take ?m ?c 192 = Some (0x0B030040, m1, c1)" "hc_address c1 = 0x0B030000" by blast
  have "chunk_rep ?m ?c [(1048576, False)]" by (simp add: chunk_rep_def prefix_rep_def heap_consts)
  from heap_take_free_roundtrip [OF this, of 192 "0x0B030040" m1 c1] t show ?thesis by (auto simp: heap_header_bytes_def)
qed

end
