(* ===== verification/ModuleOwners.thy ===== *)
theory ModuleOwners
  imports HeapService SurfaceAllocator
begin

unbundle bit_operations_syntax

text \<open>
  Owners and host windows of loaded modules, \<^verbatim>\<open>zzm_runtime.c\<close>. A module creates a tree
  of owners (\<^verbatim>\<open>module_create_owner\<close>); every allocation and every host-visible window
  names one, and closing an owner closes the owners below it first. The table of 32
  owners and 4 windows lies over the module heap and card pool (\<open>HeapService\<close>) and the
  host-visible heap (\<open>SurfaceAllocator\<close>).

  \<^verbatim>\<open>module_close_owner\<close> recurses over the tree; the model bounds the recursion by fuel,
  and \<open>OwnerSafety\<close> shows that 33 levels always suffice on a well-formed table.
\<close>

section \<open>State\<close>

record runtime_owner =
  ro_owner :: u32
  ro_module_id :: u32
  ro_class :: u32
  ro_parent :: u32
  ro_quota :: u32
  ro_refs :: u32

record runtime_window =
  rw_owner :: u32
  rw_address :: u32
  rw_bytes :: u32
  rw_generation :: u32

record host_window =
  hw_arm_address :: u32
  hw_board_offset :: u32
  hw_bytes :: u32
  hw_attributes :: u32
  hw_generation :: u32

record module_runtime =
  rt_owners :: "runtime_owner list"
  rt_windows :: "runtime_window list"
  rt_owner_gen :: u32
  rt_window_gen :: u32
  rt_heap :: module_heap
  rt_surfaces :: sa_state

definition ZZM_RUNTIME_MAX_OWNERS :: nat where "ZZM_RUNTIME_MAX_OWNERS = 32"
definition ZZM_RUNTIME_MAX_WINDOWS :: nat where "ZZM_RUNTIME_MAX_WINDOWS = 4"
definition ZZM_MODULE_OWNER_TAG :: u32 where "ZZM_MODULE_OWNER_TAG = 0x00800000"
definition SDK_MAILBOX_Z3_ADDRESS :: u32 where "SDK_MAILBOX_Z3_ADDRESS = 0x08100000"
definition HOST_VISIBLE_HEAP_END :: u32 where "HOST_VISIBLE_HEAP_END = 0x08200000"
definition ADDR_ADJ :: u32 where "ADDR_ADJ = 0x00200000 - 0x00010000"
definition CARD_POOL_LIMIT_MINIGL :: u32 where "CARD_POOL_LIMIT_MINIGL = 384 * 1024 * 1024"

definition ZZM_MODULE_OWNER :: "u32 \<Rightarrow> u32" where
  "ZZM_MODULE_OWNER module_id = ZZM_MODULE_OWNER_TAG OR (module_id AND (ZZM_MODULE_OWNER_TAG - 1))"

definition owner_empty :: runtime_owner where
  "owner_empty = \<lparr>ro_owner = 0, ro_module_id = 0, ro_class = 0, ro_parent = 0, ro_quota = 0, ro_refs = 0\<rparr>"

definition window_empty :: runtime_window where
  "window_empty = \<lparr>rw_owner = 0, rw_address = 0, rw_bytes = 0, rw_generation = 0\<rparr>"

definition module_runtime_init :: "module_heap \<Rightarrow> sa_state \<Rightarrow> module_runtime" where
  "module_runtime_init h sa = \<lparr>rt_owners = replicate ZZM_RUNTIME_MAX_OWNERS owner_empty,
     rt_windows = replicate ZZM_RUNTIME_MAX_WINDOWS window_empty,
     rt_owner_gen = 0, rt_window_gen = 0, rt_heap = h, rt_surfaces = sa\<rparr>"

section \<open>Owners\<close>

definition owner_class_memory_class :: "u32 \<Rightarrow> u32" where
  "owner_class_memory_class owner_class =
     (if owner_class = 0x10 then 5 \<comment> \<open>MINIGL_MODULE\<close>
      else if owner_class = 0x04 then 6 \<comment> \<open>MINIGL_TRANSPORT\<close>
      else if owner_class = 0x01 then 7 \<comment> \<open>MINIGL_CONTEXT\<close>
      else if owner_class = 0x02 then 8 \<comment> \<open>MINIGL_APP_CONTEXT\<close>
      else if owner_class = 0x08 then 9 \<comment> \<open>MINIGL_RIX\<close>
      else 0)"

text \<open>The first slot whose owner word matches; 0 finds an empty one.\<close>

definition find_runtime_owner :: "u32 \<Rightarrow> runtime_owner list \<Rightarrow> runtime_owner option" where
  "find_runtime_owner owner os = List.find (\<lambda>r. ro_owner r = owner) os"

definition next_owner_gen :: "u32 \<Rightarrow> u32" where
  "next_owner_gen gen = (if (gen + 1) AND 0x00ffffff = 0 then gen + 2 else gen + 1)"

definition module_create_owner :: "u32 \<Rightarrow> u32 \<Rightarrow> u32 \<Rightarrow> u32 \<Rightarrow> module_runtime \<Rightarrow> u32 option \<times> module_runtime" where
  "module_create_owner module_id owner_class parent_owner quota s =
     (let memory_class = owner_class_memory_class owner_class
      in if memory_class = 0 \<or> quota = 0 then (None, s)
         else if parent_owner \<noteq> 0 \<and>
           (case find_runtime_owner parent_owner (rt_owners s) of None \<Rightarrow> True | Some p \<Rightarrow> ro_module_id p \<noteq> module_id)
         then (None, s)
         else case List.find (\<lambda>i. ro_owner (rt_owners s ! i) = 0) [0..<ZZM_RUNTIME_MAX_OWNERS] of
                None \<Rightarrow> (None, s)
              | Some i \<Rightarrow>
                  let gen = next_owner_gen (rt_owner_gen s);
                      owner = module_card_owner (gen AND 0x00ffffff) memory_class
                  in (Some owner,
                      s\<lparr>rt_owners := (rt_owners s)[i := \<lparr>ro_owner = owner, ro_module_id = module_id,
                           ro_class = owner_class, ro_parent = parent_owner, ro_quota = quota, ro_refs = 1\<rparr>],
                        rt_owner_gen := gen\<rparr>))"

definition minigl_used :: "card_pool \<Rightarrow> u32" where
  "minigl_used p = foldl (\<lambda>used i. used + class_used p ! i) 0 [9..<14]"

definition module_alloc_ex :: "u32 \<Rightarrow> u32 \<Rightarrow> u32 \<Rightarrow> u32 \<Rightarrow> u32 \<Rightarrow> module_runtime \<Rightarrow> u32 \<times> module_runtime" where
  "module_alloc_ex owner owner_class quota bytes attributes s =
     (case find_runtime_owner owner (rt_owners s) of
        None \<Rightarrow> (0, s)
      | Some r \<Rightarrow>
          if owner_class_memory_class owner_class = 0 \<or> ro_class r \<noteq> owner_class \<or> ro_quota r \<noteq> quota \<or> attributes \<noteq> 0
          then (0, s)
          else let used = module_owner_used owner (heap_pool (rt_heap s))
          in if bytes = 0 \<or> bytes > quota \<or> used > quota - bytes then (0, s)
             else if minigl_used (heap_pool (rt_heap s)) > CARD_POOL_LIMIT_MINIGL - bytes then (0, s)
             else case card_pool_alloc bytes owner (heap_pool (rt_heap s)) of
                    (a, p) \<Rightarrow> (a, s\<lparr>rt_heap := rt_heap s\<lparr>heap_pool := p\<rparr>\<rparr>))"

definition module_quota_used :: "u32 \<Rightarrow> u32 \<Rightarrow> module_runtime \<Rightarrow> u32" where
  "module_quota_used owner owner_class s =
     (case find_runtime_owner owner (rt_owners s) of
        None \<Rightarrow> 0
      | Some r \<Rightarrow> if ro_class r \<noteq> owner_class then 0 else module_owner_used owner (heap_pool (rt_heap s)))"

definition module_owner_refcount :: "u32 \<Rightarrow> module_runtime \<Rightarrow> u32" where
  "module_owner_refcount owner s =
     (case find_runtime_owner owner (rt_owners s) of None \<Rightarrow> 0 | Some r \<Rightarrow> ro_refs r)"

section \<open>Closing\<close>

definition close_window :: "u32 \<Rightarrow> nat \<Rightarrow> module_runtime \<Rightarrow> module_runtime" where
  "close_window owner i s =
     (if rw_owner (rt_windows s ! i) = owner
      then s\<lparr>rt_surfaces := snd (surface_allocator_free (rw_address (rt_windows s ! i)) (rt_surfaces s)),
             rt_windows := (rt_windows s)[i := window_empty]\<rparr>
      else s)"

definition clear_owner :: "u32 \<Rightarrow> runtime_owner list \<Rightarrow> runtime_owner list" where
  "clear_owner owner os =
     (case List.find (\<lambda>i. ro_owner (os ! i) = owner) [0..<ZZM_RUNTIME_MAX_OWNERS] of
        None \<Rightarrow> os | Some i \<Rightarrow> os[i := owner_empty])"

text \<open>\<^verbatim>\<open>module_close_owner\<close> after its first loop: windows, memory, the record.\<close>

definition close_record :: "u32 \<Rightarrow> u32 \<Rightarrow> module_runtime \<Rightarrow> u32 \<times> module_runtime" where
  "close_record owner released s =
     (let s1 = fold (close_window owner) [0..<ZZM_RUNTIME_MAX_WINDOWS] s
      in case module_release_owner owner (rt_heap s1) of
           (freed, h) \<Rightarrow> (released + freed, s1\<lparr>rt_heap := h, rt_owners := clear_owner owner (rt_owners s1)\<rparr>))"

text \<open>Its first loop: close the children, slot by slot.\<close>

fun close_slots :: "(u32 \<Rightarrow> module_runtime \<Rightarrow> (u32 \<times> module_runtime) option) \<Rightarrow> (runtime_owner \<Rightarrow> bool) \<Rightarrow>
    nat list \<Rightarrow> u32 \<Rightarrow> module_runtime \<Rightarrow> (u32 \<times> module_runtime) option" where
  "close_slots rec P [] released s = Some (released, s)"
| "close_slots rec P (i # is) released s =
     (if P (rt_owners s ! i)
      then case rec (ro_owner (rt_owners s ! i)) s of
             None \<Rightarrow> None
           | Some (n, s') \<Rightarrow> close_slots rec P is (released + n) s'
      else close_slots rec P is released s)"

text \<open>Fuel bounds the depth of the recursion; \<open>None\<close> is a recursion that does not end within it.\<close>

fun module_close_owner :: "nat \<Rightarrow> u32 \<Rightarrow> module_runtime \<Rightarrow> (u32 \<times> module_runtime) option" where
  "module_close_owner 0 owner s = None"
| "module_close_owner (Suc f) owner s =
     (case close_slots (module_close_owner f) (\<lambda>r. ro_parent r = owner) [0..<ZZM_RUNTIME_MAX_OWNERS] 0 s of
        None \<Rightarrow> None
      | Some (released, s1) \<Rightarrow> Some (close_record owner released s1))"

text \<open>When a module is unloaded or faults, everything it owns is taken back.\<close>

definition release_base_owners :: "u32 \<Rightarrow> u32 list \<Rightarrow> u32 \<Rightarrow> module_runtime \<Rightarrow> u32 \<times> module_runtime" where
  "release_base_owners owner classes released s =
     foldl (\<lambda>(released, s) cls. case module_release_owner (module_card_owner owner cls) (rt_heap s) of
              (freed, h) \<Rightarrow> (released + freed, s\<lparr>rt_heap := h\<rparr>)) (released, s) classes"

definition zzm_runtime_release_module :: "nat \<Rightarrow> u32 \<Rightarrow> module_runtime \<Rightarrow> (u32 \<times> module_runtime) option" where
  "zzm_runtime_release_module fuel module_id s =
     (case close_slots (module_close_owner fuel) (\<lambda>r. ro_module_id r = module_id \<and> ro_parent r = 0)
             [0..<ZZM_RUNTIME_MAX_OWNERS] 0 s of
        None \<Rightarrow> None
      | Some (released, s1) \<Rightarrow>
          Some (release_base_owners (ZZM_MODULE_OWNER module_id) [1, 2, 3, 4, 5, 6, 7, 8, 9] released s1))"

section \<open>Which memory a module may touch\<close>

definition window_has :: "u32 \<Rightarrow> u32 \<Rightarrow> u32 \<Rightarrow> runtime_window \<Rightarrow> bool" where
  "window_has owner address len w \<longleftrightarrow> rw_owner w = owner \<and> address \<ge> rw_address w \<and>
     address - rw_address w \<le> rw_bytes w \<and> len \<le> rw_bytes w - (address - rw_address w)"

definition range_owned_exact :: "u32 \<Rightarrow> u32 \<Rightarrow> u32 \<Rightarrow> module_runtime \<Rightarrow> bool" where
  "range_owned_exact owner address len s \<longleftrightarrow>
     card_pool_range_owned address len owner (heap_pool (rt_heap s)) \<or>
     (\<exists>w\<in>set (rt_windows s). window_has owner address len w)"

definition owner_module_id :: "u32 \<Rightarrow> runtime_owner list \<Rightarrow> u32" where
  "owner_module_id owner os =
     (let inst = owner AND 0x00ffffff
      in if inst AND ZZM_MODULE_OWNER_TAG \<noteq> 0 then inst AND (ZZM_MODULE_OWNER_TAG - 1)
         else case List.find (\<lambda>r. ro_owner r \<noteq> 0 \<and> ro_owner r AND 0x00ffffff = inst) os of
                None \<Rightarrow> 0 | Some r \<Rightarrow> ro_module_id r)"

definition base_classes :: "u32 list" where
  "base_classes = [1, 2, 3, 4, 5]"

definition module_range_owned :: "u32 \<Rightarrow> u32 \<Rightarrow> u32 \<Rightarrow> module_runtime \<Rightarrow> bool" where
  "module_range_owned owner address len s \<longleftrightarrow>
     (if range_owned_exact owner address len s then True
      else let module_id = owner_module_id owner (rt_owners s)
      in if module_id = 0 then False
         else if \<exists>r\<in>set (rt_owners s). ro_owner r \<noteq> 0 \<and> ro_module_id r = module_id \<and>
                   range_owned_exact (ro_owner r) address len s
         then True
         else \<exists>cls\<in>set base_classes.
                range_owned_exact (module_card_owner (ZZM_MODULE_OWNER module_id) cls) address len s)"

section \<open>Host windows\<close>

text \<open>\<open>z3\<close> is \<^verbatim>\<open>sdk_aperture_runtime_is_zorro3\<close>; the cache maintenance has no state here.\<close>

definition module_host_window_alloc :: "bool \<Rightarrow> u32 \<Rightarrow> u32 \<Rightarrow> u32 \<Rightarrow> module_runtime \<Rightarrow> host_window option \<times> module_runtime" where
  "module_host_window_alloc z3 owner bytes alignment s =
     (if find_runtime_owner owner (rt_owners s) = None \<or> \<not> z3 \<or> bytes = 0 then (None, s)
      else case List.find (\<lambda>i. rw_owner (rt_windows s ! i) = 0) [0..<ZZM_RUNTIME_MAX_WINDOWS] of
             None \<Rightarrow> (None, s)
           | Some i \<Rightarrow>
               (case surface_allocator_alloc_range bytes alignment SDK_MAILBOX_Z3_ADDRESS HOST_VISIBLE_HEAP_END (rt_surfaces s) of
                  (address, sa) \<Rightarrow>
                    if address = 0 then (None, s\<lparr>rt_surfaces := sa\<rparr>)
                    else let size = surface_allocator_block_size address sa; gen = rt_window_gen s + 1
                         in (Some \<lparr>hw_arm_address = address, hw_board_offset = address - ADDR_ADJ, hw_bytes = size,
                                   hw_attributes = 1 OR 2, hw_generation = gen\<rparr>,
                             s\<lparr>rt_surfaces := sa, rt_window_gen := gen,
                               rt_windows := (rt_windows s)[i := \<lparr>rw_owner = owner, rw_address = address,
                                 rw_bytes = size, rw_generation = gen\<rparr>]\<rparr>)))"

definition module_host_window_free :: "u32 \<Rightarrow> u32 \<Rightarrow> u32 \<Rightarrow> module_runtime \<Rightarrow> bool \<times> module_runtime" where
  "module_host_window_free owner address generation s =
     (case List.find (\<lambda>i. rw_owner (rt_windows s ! i) = owner \<and> rw_address (rt_windows s ! i) = address \<and>
               rw_generation (rt_windows s ! i) = generation) [0..<ZZM_RUNTIME_MAX_WINDOWS] of
        None \<Rightarrow> (False, s)
      | Some i \<Rightarrow> (case surface_allocator_free address (rt_surfaces s) of
          (ret, sa) \<Rightarrow> if ret \<noteq> 0 then (False, s\<lparr>rt_surfaces := sa\<rparr>)
                       else (True, s\<lparr>rt_surfaces := sa, rt_windows := (rt_windows s)[i := window_empty]\<rparr>)))"

section \<open>Quota, diagnostics, counters\<close>

definition zzm_runtime_quota_available :: "u32 \<Rightarrow> u32 \<Rightarrow> card_pool \<Rightarrow> bool" where
  "zzm_runtime_quota_available memory_class quota p =
     (let class_id = CARD_POOL_OWNER_CLASS (module_card_owner 0 memory_class);
          free_bytes = card_pool_range_free_bytes 0 p + card_pool_range_free_bytes 1 p
      in if quota = 0 \<or> class_id \<ge> CARD_POOL_CLASS_COUNT \<or> quota > class_limit p ! class_id \<or>
            class_used p ! class_id > class_limit p ! class_id - quota \<or> quota > free_bytes
         then False
         else \<not> (memory_class \<ge> 5 \<and> memory_class \<le> 9 \<and>
                (minigl_used p > CARD_POOL_LIMIT_MINIGL \<or> quota > CARD_POOL_LIMIT_MINIGL - minigl_used p)))"

record runtime_log =
  rl_module_id :: u32
  rl_window_start :: u64
  rl_emitted :: u32
  rl_suppressed :: u32

datatype log_line = LogMessage | LogSuppressed u32 u32

text \<open>One call at time \<open>now\<close>: the lines it prints and the table after it.\<close>

definition log_slot :: "u64 \<Rightarrow> runtime_log \<Rightarrow> log_line list \<times> runtime_log" where
  "log_slot now st =
     (let expired = now - rl_window_start st \<ge> 1000000;
          note = (if expired \<and> rl_suppressed st \<noteq> 0 then [LogSuppressed (rl_module_id st) (rl_suppressed st)] else []);
          st1 = (if expired then st\<lparr>rl_window_start := now, rl_emitted := 0, rl_suppressed := 0\<rparr> else st)
      in if rl_emitted st1 \<ge> 32 then (note, st1\<lparr>rl_suppressed := rl_suppressed st1 + 1\<rparr>)
         else (note @ [LogMessage], st1\<lparr>rl_emitted := rl_emitted st1 + 1\<rparr>))"

definition module_log_limited :: "u64 \<Rightarrow> u32 \<Rightarrow> runtime_log list \<Rightarrow> log_line list \<times> runtime_log list" where
  "module_log_limited now module_id logs =
     (case List.find (\<lambda>i. rl_module_id (logs ! i) = module_id \<or> rl_module_id (logs ! i) = 0) [0..<ZZM_RUNTIME_MAX_OWNERS] of
        None \<Rightarrow> ([], logs)
      | Some i \<Rightarrow>
          let st = logs ! i; st0 = (if rl_module_id st = 0 then st\<lparr>rl_module_id := module_id\<rparr> else st)
          in case log_slot now st0 of (printed, st1) \<Rightarrow> (printed, logs[i := st1]))"

end
