(* ===== verification/OwnerSafety.thy ===== *)
theory OwnerSafety
  imports ModuleOwners
begin

unbundle bit_operations_syntax

text \<open>
  The owner table is a forest: every parent is in the table, belongs to the same
  module and is older. Closing an owner therefore ends, and takes exactly the owners
  below it with their windows and memory; unloading a module takes exactly its trees.
\<close>

section \<open>Owner words\<close>

lemma low24_lt: "unat (low24 w) < 16777216"
  using and_mask_less' [of 24 w] by (simp add: low24_def mask_eq_exp_minus_1 word_less_nat_alt)

lemma low24_small: "unat w < 16777216 \<Longrightarrow> low24 w = w"
  using less_mask_eq [of w 24] by (simp add: low24_def mask_eq_exp_minus_1 word_less_nat_alt)

lemma low24_idem [simp]: "low24 (low24 w) = low24 w"
  by (rule low24_small [OF low24_lt])

lemma low24_zero [simp]: "low24 0 = 0"
  by (simp add: low24_def)

lemma low24_card_owner [simp]: "low24 (module_card_owner w cls) = low24 w"
proof -
  have "push_bit 24 x AND 0x00ffffff = (0 :: u32)" for x
  proof (rule bit_word_eqI)
    fix n assume "n < LENGTH(32)"
    have "bit (push_bit 24 x AND mask 24 :: u32) n = bit (0 :: u32) n" by (auto simp: bit_simps)
    then show "bit (push_bit 24 x AND 0x00ffffff :: u32) n = bit (0 :: u32) n" by (simp add: mask_eq_exp_minus_1)
  qed
  then show ?thesis
    by (simp add: low24_def module_card_owner_def CARD_POOL_OWNER_def bit.conj_disj_distrib2 and.assoc)
qed

lemma take_bit_small: "unat w < 2 ^ n \<Longrightarrow> take_bit n w = (w :: u32)"
  by (rule word_eq_unatI) (simp add: unsigned_take_bit_eq take_bit_nat_eq_self)

text \<open>The tag bit keeps a module's own owner apart from the ids the table hands out.\<close>

lemma tag_forms:
  "ZZM_MODULE_OWNER_TAG = NOT (mask 23) AND mask 24" "ZZM_MODULE_OWNER_TAG - 1 = mask 23" "(0x00ffffff :: u32) = mask 24"
  by (simp_all add: ZZM_MODULE_OWNER_TAG_def mask_eq_exp_minus_1)

lemma tag_small:
  assumes "unat w < 8388608" shows "w AND ZZM_MODULE_OWNER_TAG = 0"
proof -
  have "take_bit 23 w AND ZZM_MODULE_OWNER_TAG = 0"
    unfolding tag_forms by (rule bit_word_eqI) (auto simp: bit_simps)
  then show ?thesis using take_bit_small [of w 23] assms by simp
qed

lemma module_owner_forms:
  assumes "unat module_id < 8388608"
  shows "low24 (ZZM_MODULE_OWNER module_id) AND ZZM_MODULE_OWNER_TAG \<noteq> 0"
    "low24 (ZZM_MODULE_OWNER module_id) AND (ZZM_MODULE_OWNER_TAG - 1) = module_id"
proof -
  have "bit (low24 (ZZM_MODULE_OWNER module_id) AND ZZM_MODULE_OWNER_TAG) 23"
    unfolding low24_def ZZM_MODULE_OWNER_def tag_forms by (simp add: bit_simps)
  then show "low24 (ZZM_MODULE_OWNER module_id) AND ZZM_MODULE_OWNER_TAG \<noteq> 0" by auto
  have "low24 (ZZM_MODULE_OWNER module_id) AND (ZZM_MODULE_OWNER_TAG - 1) = take_bit 23 module_id"
    unfolding low24_def ZZM_MODULE_OWNER_def tag_forms(2) unfolding tag_forms(1,3) by (rule bit_word_eqI) (auto simp: bit_simps)
  then show "low24 (ZZM_MODULE_OWNER module_id) AND (ZZM_MODULE_OWNER_TAG - 1) = module_id"
    using take_bit_small [of module_id 23] assms by simp
qed

section \<open>The forest\<close>

definition owner_edges :: "runtime_owner list \<Rightarrow> (u32 \<times> u32) set" where
  "owner_edges os = {(ro_owner r, ro_parent r) | r. r \<in> set os \<and> ro_owner r \<noteq> 0}"

definition owner_subtree :: "runtime_owner list \<Rightarrow> u32 \<Rightarrow> u32 set" where
  "owner_subtree os owner = {w. (w, owner) \<in> (owner_edges os)\<^sup>*}"

definition live_owners :: "runtime_owner list \<Rightarrow> u32 set" where
  "live_owners os = ro_owner ` set os - {0}"

definition owner_record_ok :: "u32 \<Rightarrow> runtime_owner list \<Rightarrow> runtime_owner \<Rightarrow> bool" where
  "owner_record_ok gen os r \<longleftrightarrow>
     ro_owner r = module_card_owner (ro_owner r) (owner_class_memory_class (ro_class r)) \<and>
     owner_class_memory_class (ro_class r) \<noteq> 0 \<and> ro_quota r \<noteq> 0 \<and>
     0 < unat (low24 (ro_owner r)) \<and> unat (low24 (ro_owner r)) \<le> unat gen \<and>
     (ro_parent r \<noteq> 0 \<longrightarrow> (\<exists>p\<in>set os. ro_owner p = ro_parent r \<and> ro_module_id p = ro_module_id r \<and>
        unat (low24 (ro_parent r)) < unat (low24 (ro_owner r))))"

definition owners_ok :: "u32 \<Rightarrow> runtime_owner list \<Rightarrow> bool" where
  "owners_ok gen os \<longleftrightarrow> length os = ZZM_RUNTIME_MAX_OWNERS \<and>
     (\<forall>r\<in>set os. if ro_owner r = 0 then r = owner_empty else owner_record_ok gen os r) \<and>
     (\<forall>i<length os. \<forall>j<length os. i \<noteq> j \<longrightarrow> ro_owner (os ! i) \<noteq> 0 \<longrightarrow>
        low24 (ro_owner (os ! i)) \<noteq> low24 (ro_owner (os ! j)))"

lemma owner_empty_simps [simp]:
  "ro_owner owner_empty = 0" "ro_parent owner_empty = 0" "ro_module_id owner_empty = 0"
  by (simp_all add: owner_empty_def)

lemma window_empty_simps [simp]: "rw_owner window_empty = 0"
  by (simp add: window_empty_def)

lemma runtime_sizes [simp]: "ZZM_RUNTIME_MAX_OWNERS = 32" "ZZM_RUNTIME_MAX_WINDOWS = 4"
  by (simp_all add: ZZM_RUNTIME_MAX_OWNERS_def ZZM_RUNTIME_MAX_WINDOWS_def)

lemma owners_okD:
  assumes "owners_ok gen os"
  shows "length os = 32" "\<And>r. r \<in> set os \<Longrightarrow> ro_owner r = 0 \<Longrightarrow> r = owner_empty"
    "\<And>r. r \<in> set os \<Longrightarrow> ro_owner r \<noteq> 0 \<Longrightarrow> owner_record_ok gen os r"
    "\<And>i j. i < 32 \<Longrightarrow> j < 32 \<Longrightarrow> i \<noteq> j \<Longrightarrow> ro_owner (os ! i) \<noteq> 0 \<Longrightarrow> low24 (ro_owner (os ! i)) \<noteq> low24 (ro_owner (os ! j))"
  using assms by (auto simp: owners_ok_def split: if_splits)

lemma owner_unique:
  assumes "owners_ok gen os" "r \<in> set os" "r' \<in> set os" "ro_owner r \<noteq> 0" "low24 (ro_owner r) = low24 (ro_owner r')"
  shows "r = r'"
proof -
  note O = owners_okD [OF assms(1)]
  obtain i j where ij: "i < 32" "j < 32" "r = os ! i" "r' = os ! j" using assms(2,3) O(1) by (auto simp: in_set_conv_nth)
  show ?thesis using O(4) [of i j] ij assms(4,5) by (cases "i = j") auto
qed

lemma owner_edge_age:
  assumes "owners_ok gen os" "(w, a) \<in> owner_edges os" "a \<noteq> 0"
  shows "unat (low24 a) < unat (low24 w)"
  using assms owners_okD(3) [OF assms(1)] by (auto simp: owner_edges_def owner_record_ok_def)

lemma owner_path_age:
  assumes "owners_ok gen os" "(w, a) \<in> (owner_edges os)\<^sup>+" "a \<noteq> 0"
  shows "unat (low24 a) < unat (low24 w)"
  using assms(2)
proof (induction rule: converse_trancl_induct)
  case (base y)
  then show ?case using owner_edge_age [OF assms(1)] assms(3) by blast
next
  case (step y z)
  have "z \<noteq> 0" using step.hyps(2) by (auto simp: owner_edges_def dest: tranclD)
  then show ?case using owner_edge_age [OF assms(1) step.hyps(1)] step.IH by simp
qed

lemma edge_live: "(w, a) \<in> owner_edges os \<Longrightarrow> w \<in> live_owners os"
  by (auto simp: owner_edges_def live_owners_def)

lemma edge_parent_live:
  "owners_ok gen os \<Longrightarrow> (w, a) \<in> owner_edges os \<Longrightarrow> a \<noteq> 0 \<Longrightarrow> a \<in> live_owners os"
  by (auto simp: owner_edges_def live_owners_def owner_record_ok_def dest!: owners_okD(3)) (metis image_eqI)

lemma subtree_self [simp]: "a \<in> owner_subtree os a"
  by (simp add: owner_subtree_def)

lemma subtree_nonzero: "a \<noteq> 0 \<Longrightarrow> 0 \<notin> owner_subtree os a"
  by (auto simp: owner_subtree_def owner_edges_def elim: converse_rtranclE)

lemma subtree_unfold:
  "owner_subtree os a = insert a (\<Union>c\<in>{c. (c, a) \<in> owner_edges os}. owner_subtree os c)"
  by (auto simp: owner_subtree_def elim: rtranclE intro: rtrancl_into_rtrancl)

definition closed_below :: "runtime_owner list \<Rightarrow> u32 set \<Rightarrow> bool" where
  "closed_below os D \<longleftrightarrow> 0 \<notin> D \<and> (\<forall>w a. (w, a) \<in> owner_edges os \<longrightarrow> a \<in> D \<longrightarrow> w \<in> D)"

lemma closed_below_empty [simp]: "closed_below os {}"
  by (simp add: closed_below_def)

lemma closed_below_Un: "closed_below os D \<Longrightarrow> closed_below os E \<Longrightarrow> closed_below os (D \<union> E)"
  by (auto simp: closed_below_def)

lemma closed_below_subtree: "a \<noteq> 0 \<Longrightarrow> closed_below os (owner_subtree os a)"
  by (auto simp: closed_below_def subtree_nonzero) (auto simp: owner_subtree_def intro: converse_rtrancl_into_rtrancl)

lemma closed_below_contains:
  assumes "closed_below os D" "a \<in> D" shows "owner_subtree os a \<subseteq> D"
proof
  fix w assume "w \<in> owner_subtree os a"
  then have "(w, a) \<in> (owner_edges os)\<^sup>*" by (simp add: owner_subtree_def)
  then show "w \<in> D" by (induction rule: converse_rtrancl_induct) (use assms in \<open>auto simp: closed_below_def\<close>)
qed

text \<open>Closing a set of owners empties their records.\<close>

definition drop_owners :: "u32 set \<Rightarrow> runtime_owner list \<Rightarrow> runtime_owner list" where
  "drop_owners D os = map (\<lambda>r. if ro_owner r \<in> D then owner_empty else r) os"

definition drop_windows :: "u32 set \<Rightarrow> runtime_window list \<Rightarrow> runtime_window list" where
  "drop_windows D ws = map (\<lambda>w. if rw_owner w \<in> D then window_empty else w) ws"

lemma drop_owners_nth: "i < length os \<Longrightarrow> drop_owners D os ! i = (if ro_owner (os ! i) \<in> D then owner_empty else os ! i)"
  by (simp add: drop_owners_def)

lemma drop_owners_length [simp]: "length (drop_owners D os) = length os"
  by (simp add: drop_owners_def)

lemma drop_owners_mem:
  "ro_owner r \<noteq> 0 \<Longrightarrow> r \<in> set (drop_owners D os) \<longleftrightarrow> r \<in> set os \<and> ro_owner r \<notin> D"
  by (auto simp: drop_owners_def image_iff)

lemma drop_owners_twice: "0 \<notin> E \<Longrightarrow> drop_owners E (drop_owners D os) = drop_owners (D \<union> E) os"
  by (auto simp: drop_owners_def)

lemma drop_owners_live: "live_owners (drop_owners D os) = live_owners os - D"
  by (force simp: live_owners_def drop_owners_def)

lemma drop_owners_edges: "owner_edges (drop_owners D os) = {(w, a) \<in> owner_edges os. w \<notin> D}"
  by (auto simp: owner_edges_def drop_owners_mem)

lemma drop_owners_subtree:
  assumes "closed_below os D"
  shows "D \<union> owner_subtree (drop_owners D os) a = D \<union> owner_subtree os a"
proof -
  have "owner_subtree (drop_owners D os) a \<subseteq> owner_subtree os a"
    using rtrancl_mono [of "owner_edges (drop_owners D os)" "owner_edges os"]
    by (auto simp: owner_subtree_def drop_owners_edges)
  moreover have "w \<in> D \<union> owner_subtree (drop_owners D os) a" if "w \<in> owner_subtree os a" for w
  proof -
    have "(w, a) \<in> (owner_edges os)\<^sup>*" using that by (simp add: owner_subtree_def)
    then show ?thesis
    proof (induction rule: converse_rtrancl_induct)
      case (step y z)
      then show ?case using assms
        by (cases "y \<in> D") (auto simp: closed_below_def owner_subtree_def drop_owners_edges intro: converse_rtrancl_into_rtrancl)
    qed simp
  qed
  ultimately show ?thesis by blast
qed

lemma drop_owners_ok:
  assumes ok: "owners_ok gen os" and D: "closed_below os D"
  shows "owners_ok gen (drop_owners D os)"
proof -
  note O = owners_okD [OF ok]
  have "owner_record_ok gen (drop_owners D os) r" if r: "r \<in> set (drop_owners D os)" "ro_owner r \<noteq> 0" for r
  proof -
    have m: "r \<in> set os" "ro_owner r \<notin> D" using r by (simp_all add: drop_owners_mem)
    note R = O(3) [OF m(1) r(2)]
    have "\<exists>p\<in>set (drop_owners D os). ro_owner p = ro_parent r \<and> ro_module_id p = ro_module_id r \<and>
        unat (low24 (ro_parent r)) < unat (low24 (ro_owner r))" if pr: "ro_parent r \<noteq> 0"
    proof -
      obtain p where p: "p \<in> set os" "ro_owner p = ro_parent r" "ro_module_id p = ro_module_id r"
          "unat (low24 (ro_parent r)) < unat (low24 (ro_owner r))" using R pr by (auto simp: owner_record_ok_def)
      have "(ro_owner r, ro_parent r) \<in> owner_edges os" using m(1) r(2) by (auto simp: owner_edges_def)
      then have "ro_parent r \<notin> D" using D m(2) by (auto simp: closed_below_def)
      then have "p \<in> set (drop_owners D os)" using p pr by (simp add: drop_owners_mem)
      then show ?thesis using p by blast
    qed
    then show ?thesis using R by (simp add: owner_record_ok_def)
  qed
  moreover have "r = owner_empty" if r: "r \<in> set (drop_owners D os)" "ro_owner r = 0" for r
    using r O(2) by (auto simp: drop_owners_def split: if_splits)
  moreover have "low24 (ro_owner (drop_owners D os ! i)) \<noteq> low24 (ro_owner (drop_owners D os ! j))"
    if ij: "i < 32" "j < 32" "i \<noteq> j" "ro_owner (drop_owners D os ! i) \<noteq> 0" for i j
  proof -
    have i: "drop_owners D os ! i = os ! i" "ro_owner (os ! i) \<noteq> 0"
      using ij(1,4) O(1) by (auto simp: drop_owners_nth split: if_splits)
    have "os ! i \<in> set os" using ij(1) O(1) by simp
    then have "low24 (ro_owner (os ! i)) \<noteq> 0" using O(3) [OF _ i(2)] by (auto simp: owner_record_ok_def)
    then show ?thesis using O(4) [OF ij(1-3) i(2)] i(1) ij(2) O(1) by (auto simp: drop_owners_nth)
  qed
  ultimately show ?thesis using O(1) by (simp add: owners_ok_def)
qed

section \<open>The runtime invariant\<close>

definition window_region :: "runtime_window \<Rightarrow> region" where
  "window_region w = (unat (rw_address w), unat (rw_bytes w))"

definition windows_ok :: "u32 \<Rightarrow> runtime_owner list \<Rightarrow> sa_state \<Rightarrow> runtime_window list \<Rightarrow> bool" where
  "windows_ok gen os sa ws \<longleftrightarrow> length ws = ZZM_RUNTIME_MAX_WINDOWS \<and>
     (\<forall>w\<in>set ws. if rw_owner w = 0 then w = window_empty
        else rw_owner w \<in> live_owners os \<and> window_region w \<in> set (sa_regions sa) \<and>
             unat (rw_generation w) \<le> unat gen) \<and>
     (\<forall>i<length ws. \<forall>j<length ws. i \<noteq> j \<longrightarrow> rw_owner (ws ! i) \<noteq> 0 \<longrightarrow> rw_owner (ws ! j) \<noteq> 0 \<longrightarrow>
        rw_address (ws ! i) \<noteq> rw_address (ws ! j))"

definition rt_inv :: "module_runtime \<Rightarrow> bool" where
  "rt_inv s \<longleftrightarrow> owners_ok (rt_owner_gen s) (rt_owners s) \<and> unat (rt_owner_gen s) < 8388608 \<and>
     windows_ok (rt_window_gen s) (rt_owners s) (rt_surfaces s) (rt_windows s) \<and>
     sa_inv (rt_surfaces s) \<and> heap_inv (rt_heap s) \<and> heap_synced (rt_heap s)"

definition window_regions :: "u32 set \<Rightarrow> runtime_window list \<Rightarrow> region set" where
  "window_regions D ws = window_region ` {w \<in> set ws. rw_owner w \<in> D}"

definition held_bytes :: "u32 set \<Rightarrow> module_runtime \<Rightarrow> u32" where
  "held_bytes D s = cp_bytes (filter (\<lambda>b. cpb_owner b \<in> D) (cp_blocks (heap_pool (rt_heap s))))"

text \<open>\<open>s'\<close> is \<open>s\<close> with the owners \<open>D\<close> closed: their records, windows and memory are gone, the rest is untouched.\<close>

definition owners_closed :: "u32 set \<Rightarrow> module_runtime \<Rightarrow> module_runtime \<Rightarrow> bool" where
  "owners_closed D s s' \<longleftrightarrow>
     rt_owners s' = drop_owners D (rt_owners s) \<and> rt_windows s' = drop_windows D (rt_windows s) \<and>
     rt_owner_gen s' = rt_owner_gen s \<and> rt_window_gen s' = rt_window_gen s \<and>
     set (sa_regions (rt_surfaces s')) = set (sa_regions (rt_surfaces s)) - window_regions D (rt_windows s) \<and>
     cp_blocks (heap_pool (rt_heap s')) = filter (\<lambda>b. cpb_owner b \<notin> D) (cp_blocks (heap_pool (rt_heap s))) \<and>
     (\<forall>P. heap_owned (rt_heap s') P = heap_owned (rt_heap s) (\<lambda>w. P w \<and> w \<notin> D))"

definition rt_parts_ok :: "module_runtime \<Rightarrow> bool" where
  "rt_parts_ok s \<longleftrightarrow> sa_inv (rt_surfaces s) \<and> heap_inv (rt_heap s) \<and> heap_synced (rt_heap s)"

lemma rt_invD:
  assumes "rt_inv s"
  shows "owners_ok (rt_owner_gen s) (rt_owners s)" "unat (rt_owner_gen s) < 8388608"
    "windows_ok (rt_window_gen s) (rt_owners s) (rt_surfaces s) (rt_windows s)"
    "sa_inv (rt_surfaces s)" "heap_inv (rt_heap s)" "heap_synced (rt_heap s)" "length (rt_owners s) = 32"
  using assms owners_okD(1) by (auto simp: rt_inv_def)

lemma windows_okD:
  assumes "windows_ok gen os sa ws"
  shows "length ws = 4" "\<And>w. w \<in> set ws \<Longrightarrow> rw_owner w = 0 \<Longrightarrow> w = window_empty"
    "\<And>w. w \<in> set ws \<Longrightarrow> rw_owner w \<noteq> 0 \<Longrightarrow> rw_owner w \<in> live_owners os"
    "\<And>w. w \<in> set ws \<Longrightarrow> rw_owner w \<noteq> 0 \<Longrightarrow> window_region w \<in> set (sa_regions sa)"
    "\<And>w. w \<in> set ws \<Longrightarrow> rw_owner w \<noteq> 0 \<Longrightarrow> unat (rw_generation w) \<le> unat gen"
    "\<And>i j. i < 4 \<Longrightarrow> j < 4 \<Longrightarrow> i \<noteq> j \<Longrightarrow> rw_owner (ws ! i) \<noteq> 0 \<Longrightarrow> rw_owner (ws ! j) \<noteq> 0 \<Longrightarrow> rw_address (ws ! i) \<noteq> rw_address (ws ! j)"
  using assms by (auto simp: windows_ok_def split: if_splits)

lemma window_unique:
  assumes "windows_ok gen os sa ws" "w \<in> set ws" "w' \<in> set ws" "rw_owner w \<noteq> 0" "rw_owner w' \<noteq> 0" "rw_address w = rw_address w'"
  shows "w = w'"
proof -
  note W = windows_okD [OF assms(1)]
  obtain i j where ij: "i < 4" "j < 4" "w = ws ! i" "w' = ws ! j" using assms(2,3) W(1) by (auto simp: in_set_conv_nth)
  show ?thesis using W(6) [of i j] ij assms(4-6) by (cases "i = j") auto
qed

lemma owners_closed_refl: "owners_closed {} s s"
  by (simp add: owners_closed_def drop_owners_def drop_windows_def window_regions_def)

lemma drop_windows_regions: "0 \<notin> E \<Longrightarrow> window_regions E (drop_windows D ws) = window_regions (E - D) ws"
  by (force simp: window_regions_def drop_windows_def)

lemma owners_closed_trans:
  assumes D: "owners_closed D s s1" and E: "owners_closed E s1 s2" and z: "0 \<notin> E"
  shows "owners_closed (D \<union> E) s s2"
proof -
  note d = D [unfolded owners_closed_def] and e = E [unfolded owners_closed_def]
  have "drop_windows E (drop_windows D (rt_windows s)) = drop_windows (D \<union> E) (rt_windows s)"
    using z by (auto simp: drop_windows_def)
  moreover have "window_regions (D \<union> E) (rt_windows s) = window_regions D (rt_windows s) \<union> window_regions (E - D) (rt_windows s)"
    by (auto simp: window_regions_def)
  moreover have "filter (\<lambda>b. cpb_owner b \<notin> E) (filter (\<lambda>b. cpb_owner b \<notin> D) bs) = filter (\<lambda>b. cpb_owner b \<notin> D \<union> E) bs" for bs
    by (simp add: conj_commute)
  moreover have "heap_owned (rt_heap s2) P = heap_owned (rt_heap s) (\<lambda>w. P w \<and> w \<notin> D \<union> E)" for P
    using d e by (simp add: conj_ac)
  ultimately show ?thesis using d e drop_owners_twice [OF z] drop_windows_regions [OF z]
    unfolding owners_closed_def by (simp add: Diff_eq Int_assoc)
qed

lemma cp_bytes_sum: "cp_bytes bs = sum_list (map cpb_size bs)"
  by (induction bs rule: rev_induct) (simp_all add: cp_bytes_def)

lemma cp_bytes_split: "cp_bytes (filter P bs) + cp_bytes (filter Q (filter (\<lambda>b. \<not> P b) bs)) = cp_bytes (filter (\<lambda>b. P b \<or> Q b) bs)"
  by (induction bs) (auto simp: cp_bytes_sum)

lemma held_bytes_split:
  assumes "owners_closed D s s1" shows "held_bytes D s + held_bytes E s1 = held_bytes (D \<union> E) s"
  using assms cp_bytes_split [of "\<lambda>b. cpb_owner b \<in> D" "cp_blocks (heap_pool (rt_heap s))" "\<lambda>b. cpb_owner b \<in> E"]
  by (simp add: held_bytes_def owners_closed_def)

lemma owners_closed_inv:
  assumes inv: "rt_inv s" and D: "closed_below (rt_owners s) D" and c: "owners_closed D s s'" and parts: "rt_parts_ok s'"
  shows "rt_inv s'"
proof -
  note I = rt_invD [OF inv] and C = c [unfolded owners_closed_def]
  note W = windows_okD [OF I(3)]
  have os: "owners_ok (rt_owner_gen s') (rt_owners s')" using drop_owners_ok [OF I(1) D] C by simp
  have z: "0 \<notin> D" using D by (simp add: closed_below_def)
  have mem: "w \<in> set (rt_windows s) \<and> rw_owner w \<notin> D" if "w \<in> set (rt_windows s')" "rw_owner w \<noteq> 0" for w
    using that C by (auto simp: drop_windows_def)
  have reg: "window_region w \<notin> window_regions D (rt_windows s)" if w: "w \<in> set (rt_windows s)" "rw_owner w \<notin> D" "rw_owner w \<noteq> 0" for w
  proof
    assume "window_region w \<in> window_regions D (rt_windows s)"
    then obtain w' where w': "w' \<in> set (rt_windows s)" "rw_owner w' \<in> D" "rw_address w' = rw_address w"
      by (auto simp: window_regions_def window_region_def word_unat_eq_iff)
    have "rw_owner w' \<noteq> 0" using w'(2) z by metis
    then have "w' = w" using window_unique [OF I(3) w'(1) w(1) _ w(3) w'(3)] by blast
    then show False using w(2) w'(2) by simp
  qed
  have "windows_ok (rt_window_gen s') (rt_owners s') (rt_surfaces s') (rt_windows s')"
  proof -
    have "length (rt_windows s') = 4" using W(1) C by (simp add: drop_windows_def)
    moreover have "w = window_empty" if "w \<in> set (rt_windows s')" "rw_owner w = 0" for w
      using that C W(2) by (auto simp: drop_windows_def split: if_splits)
    moreover have "rw_owner w \<in> live_owners (rt_owners s') \<and> window_region w \<in> set (sa_regions (rt_surfaces s')) \<and>
        unat (rw_generation w) \<le> unat (rt_window_gen s')" if w: "w \<in> set (rt_windows s')" "rw_owner w \<noteq> 0" for w
    proof -
      note m = mem [OF w]
      have "window_region w \<in> set (sa_regions (rt_surfaces s'))" using W(4) [of w] reg [of w] m w(2) C by blast
      moreover have "rw_owner w \<in> live_owners (rt_owners s')" using W(3) [of w] m w(2) C by (simp add: drop_owners_live)
      ultimately show ?thesis using W(5) [of w] m w(2) C by simp
    qed
    moreover have "rw_address (rt_windows s' ! i) \<noteq> rw_address (rt_windows s' ! j)"
      if ij: "i < 4" "j < 4" "i \<noteq> j" "rw_owner (rt_windows s' ! i) \<noteq> 0" "rw_owner (rt_windows s' ! j) \<noteq> 0" for i j
    proof -
      have "rt_windows s' ! k = rt_windows s ! k" if "k < 4" "rw_owner (rt_windows s' ! k) \<noteq> 0" for k
        using that C W(1) by (auto simp: drop_windows_def split: if_splits)
      then show ?thesis using W(6) [OF ij(1-3)] ij by simp
    qed
    ultimately show ?thesis by (simp add: windows_ok_def)
  qed
  then show ?thesis using os parts C I(2) by (simp add: rt_inv_def rt_parts_ok_def)
qed

section \<open>Closing one owner\<close>

lemma sa_region_unique:
  "sa_inv sa \<Longrightarrow> x \<in> set (sa_regions sa) \<Longrightarrow> y \<in> set (sa_regions sa) \<Longrightarrow> fst x = fst y \<Longrightarrow> x = y"
  using regions_ok_distinct_addr [of "sa_regions sa"] by (auto simp: sa_inv_def distinct_map inj_on_def)

lemma close_window_frame [simp]:
  "rt_owners (close_window a k s) = rt_owners s" "rt_owner_gen (close_window a k s) = rt_owner_gen s"
  "rt_window_gen (close_window a k s) = rt_window_gen s" "rt_heap (close_window a k s) = rt_heap s"
  by (simp_all add: close_window_def)

lemma close_window_step:
  assumes sa: "sa_inv (rt_surfaces s)" and w: "rw_owner (rt_windows s ! k) = a"
  shows "sa_inv (rt_surfaces (close_window a k s))"
    "set (sa_regions (rt_surfaces (close_window a k s))) =
       {x \<in> set (sa_regions (rt_surfaces s)). fst x \<noteq> unat (rw_address (rt_windows s ! k))}"
    "rt_windows (close_window a k s) = (rt_windows s)[k := window_empty]"
proof -
  obtain ret sa' where f: "surface_allocator_free (rw_address (rt_windows s ! k)) (rt_surfaces s) = (ret, sa')" by fastforce
  show "sa_inv (rt_surfaces (close_window a k s))"
    "set (sa_regions (rt_surfaces (close_window a k s))) =
       {x \<in> set (sa_regions (rt_surfaces s)). fst x \<noteq> unat (rw_address (rt_windows s ! k))}"
    "rt_windows (close_window a k s) = (rt_windows s)[k := window_empty]"
    using surface_free_spec [OF sa f] w by (simp_all add: close_window_def f)
qed

definition windows_closed_upto :: "u32 \<Rightarrow> nat \<Rightarrow> module_runtime \<Rightarrow> module_runtime \<Rightarrow> bool" where
  "windows_closed_upto a k s t \<longleftrightarrow> rt_owners t = rt_owners s \<and> rt_owner_gen t = rt_owner_gen s \<and>
     rt_window_gen t = rt_window_gen s \<and> rt_heap t = rt_heap s \<and> sa_inv (rt_surfaces t) \<and>
     rt_windows t = drop_windows {a} (take k (rt_windows s)) @ drop k (rt_windows s) \<and>
     set (sa_regions (rt_surfaces t)) = set (sa_regions (rt_surfaces s)) - window_regions {a} (take k (rt_windows s))"

lemma close_windows_ok:
  assumes inv: "rt_inv s" and a: "a \<noteq> 0" and k: "k \<le> 4"
  shows "windows_closed_upto a k s (fold (close_window a) [0..<k] s)"
  using k
proof (induction k)
  case 0
  then show ?case using rt_invD(4) [OF inv] by (simp add: windows_closed_upto_def drop_windows_def window_regions_def)
next
  case (Suc k)
  define t where "t = fold (close_window a) [0..<k] s"
  note W = windows_okD [OF rt_invD(3) [OF inv]]
  have k: "k < 4" "k < length (rt_windows s)" using Suc.prems W(1) by simp_all
  have T: "windows_closed_upto a k s t" using Suc by (simp add: t_def)
  note T' = T [unfolded windows_closed_upto_def]
  define w where "w = rt_windows s ! k"
  have wm: "w \<in> set (rt_windows s)" using k by (simp add: w_def)
  have split: "take (Suc k) (rt_windows s) = take k (rt_windows s) @ [w]" "drop k (rt_windows s) = w # drop (Suc k) (rt_windows s)"
    using k by (simp_all add: take_Suc_conv_app_nth Cons_nth_drop_Suc w_def)
  have len: "length (drop_windows {a} (take k (rt_windows s))) = k" using k by (simp add: drop_windows_def)
  have tk: "rt_windows t ! k = w" "k < length (rt_windows t)"
    using T' len split(2) k by (simp_all add: nth_append)
  have upd: "(rt_windows t)[k := x] = drop_windows {a} (take k (rt_windows s)) @ x # drop (Suc k) (rt_windows s)" for x
    using T' len split(2) by (simp add: list_update_append)
  have step: "fold (close_window a) [0..<Suc k] s = close_window a k t" by (simp add: t_def)
  show ?case
  proof (cases "rw_owner w = a")
    case True
    have reg: "window_region w \<in> set (sa_regions (rt_surfaces s))" using W(4) [OF wm] True a by simp
    have only: "fst x = unat (rw_address w) \<longleftrightarrow> x = window_region w" if "x \<in> set (sa_regions (rt_surfaces s))" for x
      using sa_region_unique [OF rt_invD(4) [OF inv] that reg] by (auto simp: window_region_def)
    have sat: "sa_inv (rt_surfaces t)" "rw_owner (rt_windows t ! k) = a" using T' True tk(1) by simp_all
    note F = close_window_step [OF sat]
    have "rt_windows (close_window a k t) = drop_windows {a} (take (Suc k) (rt_windows s)) @ drop (Suc k) (rt_windows s)"
      using True F(3) upd split(1) by (simp add: drop_windows_def)
    moreover have "set (sa_regions (rt_surfaces (close_window a k t))) =
        set (sa_regions (rt_surfaces s)) - window_regions {a} (take (Suc k) (rt_windows s))"
    proof -
      have "window_regions {a} (take (Suc k) (rt_windows s)) = insert (window_region w) (window_regions {a} (take k (rt_windows s)))"
        using True by (auto simp: window_regions_def split(1))
      then show ?thesis using F(2) T' tk(1) only by auto
    qed
    ultimately show ?thesis using T' F(1) unfolding step windows_closed_upto_def by simp
  next
    case False
    then have "close_window a k t = t" using tk(1) by (simp add: close_window_def)
    moreover have "window_regions {a} (take (Suc k) (rt_windows s)) = window_regions {a} (take k (rt_windows s))"
      using False by (auto simp: window_regions_def split(1))
    ultimately show ?thesis using T' False split
      unfolding step windows_closed_upto_def by (simp add: drop_windows_def)
  qed
qed

lemma clear_owner_drop:
  assumes "owners_ok gen os" "a \<noteq> 0" shows "clear_owner a os = drop_owners {a} os"
proof (cases "List.find (\<lambda>i. ro_owner (os ! i) = a) [0..<32]")
  case None
  then have "ro_owner r \<noteq> a" if "r \<in> set os" for r
    using that owners_okD(1) [OF assms(1)] by (fastforce simp: find_None_iff in_set_conv_nth)
  then have "drop_owners {a} os = os" unfolding drop_owners_def by (intro map_idI) auto
  then show ?thesis using None by (simp add: clear_owner_def)
next
  case (Some i)
  note O = owners_okD [OF assms(1)]
  have i: "i < 32" "ro_owner (os ! i) = a" using find_SomeD [OF Some] by auto
  have "os[i := owner_empty] = drop_owners {a} os"
  proof (rule nth_equalityI)
    fix j assume "j < length (os[i := owner_empty])"
    then have j: "j < 32" using O(1) by simp
    have "ro_owner (os ! j) \<noteq> a" if "j \<noteq> i" using O(4) [OF i(1) j] that i(2) assms(2) by auto
    then show "os[i := owner_empty] ! j = drop_owners {a} os ! j"
      using i j O(1) by (auto simp: drop_owners_nth nth_list_update)
  qed simp
  then show ?thesis using Some by (simp add: clear_owner_def)
qed

lemma release_owner_bytes:
  assumes "heap_inv (rt_heap s)" "a \<noteq> 0" shows "fst (module_release_owner a (rt_heap s)) = held_bytes {a} s"
  using module_release_owner_state(7) [OF assms] by (simp add: held_bytes_def)

lemma close_record_ok:
  assumes inv: "rt_inv s" and a: "a \<noteq> 0"
  shows "fst (close_record a n s) = n + held_bytes {a} s" "owners_closed {a} s (snd (close_record a n s))"
    "rt_parts_ok (snd (close_record a n s))"
proof -
  note I = rt_invD [OF inv]
  define t where "t = fold (close_window a) [0..<4] s"
  have T: "windows_closed_upto a 4 s t" using close_windows_ok [OF inv a, of 4] by (simp add: t_def)
  note T' = T [unfolded windows_closed_upto_def]
  have w: "rt_windows t = drop_windows {a} (rt_windows s)"
    "set (sa_regions (rt_surfaces t)) = set (sa_regions (rt_surfaces s)) - window_regions {a} (rt_windows s)"
    using T' windows_okD(1) [OF I(3)] by simp_all
  obtain freed h where r: "module_release_owner a (rt_heap s) = (freed, h)" by fastforce
  have rec: "close_record a n s = (n + freed, t\<lparr>rt_heap := h, rt_owners := drop_owners {a} (rt_owners s)\<rparr>)"
    using r T' clear_owner_drop [OF I(1) a] by (simp add: close_record_def t_def [symmetric])
  note R = module_release_owner_state [OF I(5) a, unfolded r, simplified]
  show "fst (close_record a n s) = n + held_bytes {a} s"
    using release_owner_bytes [OF I(5) a] r by (simp add: rec)
  show "rt_parts_ok (snd (close_record a n s))" using R(1,2) I(6) T' by (simp add: rec rt_parts_ok_def)
  have "heap_owned h P = heap_owned (rt_heap s) (\<lambda>w. P w \<and> w \<notin> {a})" for P
    using module_release_owner_owned [OF I(5) a, of P] by (simp add: r fun_eq_iff)
  then show "owners_closed {a} s (snd (close_record a n s))"
    using R(6) T' w by (simp add: rec owners_closed_def)
qed

section \<open>Closing a tree\<close>

text \<open>What a close of \<open>a\<close> with some fuel achieves.\<close>

definition closes :: "(u32 \<Rightarrow> module_runtime \<Rightarrow> (u32 \<times> module_runtime) option) \<Rightarrow> u32 \<Rightarrow> module_runtime \<Rightarrow> bool" where
  "closes rec a s \<longleftrightarrow> (\<exists>s'. rec a s = Some (held_bytes (owner_subtree (rt_owners s) a) s, s') \<and>
     owners_closed (owner_subtree (rt_owners s) a) s s' \<and> rt_inv s')"

lemma close_slots_ok:
  assumes inv0: "rt_inv s0" and P: "\<not> P owner_empty" and slots: "\<forall>i\<in>set is. i < 32"
    and rec: "\<And>s D r. rt_inv s \<Longrightarrow> owners_closed D s0 s \<Longrightarrow> closed_below (rt_owners s0) D \<Longrightarrow>
        r \<in> set (rt_owners s) \<Longrightarrow> P r \<Longrightarrow> closes rec (ro_owner r) s"
    and s: "rt_inv s" "owners_closed D s0 s" "closed_below (rt_owners s0) D"
  defines "D' \<equiv> D \<union> (\<Union>i\<in>{i \<in> set is. P (rt_owners s0 ! i)}. owner_subtree (rt_owners s0) (ro_owner (rt_owners s0 ! i)))"
  shows "\<exists>s'. close_slots rec P is (held_bytes D s0) s = Some (held_bytes D' s0, s') \<and>
    owners_closed D' s0 s' \<and> closed_below (rt_owners s0) D' \<and> rt_inv s'"
  using slots s unfolding D'_def
proof (induction "is" arbitrary: s D)
  case Nil
  then show ?case by simp
next
  case (Cons i "is")
  note I0 = rt_invD [OF inv0] and I = rt_invD [OF Cons.prems(2)]
  define r where "r = rt_owners s0 ! i"
  let ?sub = "owner_subtree (rt_owners s0) (ro_owner r)"
  have i: "i < 32" using Cons.prems(1) by simp
  have rm: "r \<in> set (rt_owners s0)" using i I0(7) by (simp add: r_def)
  have os: "rt_owners s = drop_owners D (rt_owners s0)" using Cons.prems(3) by (simp add: owners_closed_def)
  then have nth: "rt_owners s ! i = (if ro_owner r \<in> D then owner_empty else r)"
    using i I0(7) by (simp add: drop_owners_nth r_def)
  have union: "D \<union> \<Union> ((\<lambda>i. owner_subtree (rt_owners s0) (ro_owner (rt_owners s0 ! i))) ` {j \<in> set (i # is). P (rt_owners s0 ! j)}) =
      (if P r then D \<union> ?sub else D) \<union>
      \<Union> ((\<lambda>i. owner_subtree (rt_owners s0) (ro_owner (rt_owners s0 ! i))) ` {j \<in> set is. P (rt_owners s0 ! j)})"
    by (auto simp: r_def)
  consider "P r" "ro_owner r \<in> D" | "\<not> P r" | "P r" "ro_owner r \<notin> D" by blast
  then show ?case
  proof cases
    case 1
    then have "?sub \<subseteq> D" using closed_below_contains [OF Cons.prems(4)] by blast
    then have "D \<union> ?sub = D" by blast
    moreover have "\<not> P (rt_owners s ! i)" using nth 1 P by simp
    ultimately show ?thesis using Cons.IH [of s D] Cons.prems 1(1) unfolding union by simp
  next
    case 2
    then have "\<not> P (rt_owners s ! i)" using nth P by simp
    then show ?thesis using Cons.IH [of s D] Cons.prems 2 unfolding union by simp
  next
    case 3
    have ne: "ro_owner r \<noteq> 0" using owners_okD(2) [OF I0(1) rm] 3(1) P by auto
    have rs: "rt_owners s ! i = r" "r \<in> set (rt_owners s)" using nth 3 os ne rm by (simp_all add: drop_owners_mem)
    from rec [OF Cons.prems(2-4) rs(2) 3(1)] obtain s' where s':
      "rec (ro_owner r) s = Some (held_bytes (owner_subtree (rt_owners s) (ro_owner r)) s, s')"
      "owners_closed (owner_subtree (rt_owners s) (ro_owner r)) s s'" "rt_inv s'" by (auto simp: closes_def)
    have eq: "D \<union> owner_subtree (rt_owners s) (ro_owner r) = D \<union> ?sub"
      unfolding os by (rule drop_owners_subtree [OF Cons.prems(4)])
    have cl: "owners_closed (D \<union> ?sub) s0 s'"
      using owners_closed_trans [OF Cons.prems(3) s'(2) subtree_nonzero [OF ne]] by (simp add: eq)
    have below: "closed_below (rt_owners s0) (D \<union> ?sub)"
      by (rule closed_below_Un [OF Cons.prems(4) closed_below_subtree [OF ne]])
    have bts: "held_bytes D s0 + held_bytes (owner_subtree (rt_owners s) (ro_owner r)) s = held_bytes (D \<union> ?sub) s0"
      using held_bytes_split [OF Cons.prems(3)] by (simp add: eq)
    have "close_slots rec P (i # is) (held_bytes D s0) s = close_slots rec P is (held_bytes (D \<union> ?sub) s0) s'"
      using 3(1) rs(1) s'(1) bts by simp
    with Cons.IH [OF _ s'(3) cl below] Cons.prems(1) 3(1) show ?thesis unfolding union by simp
  qed
qed

lemma live_owners_card: "length os = 32 \<Longrightarrow> card (live_owners os) \<le> 32" "finite (live_owners os)"
  using card_length [of "map ro_owner os"] card_mono [of "ro_owner ` set os" "live_owners os"]
  by (auto simp: live_owners_def)

theorem close_owner_closes:
  assumes "rt_inv s" "a \<noteq> 0" "card (live_owners (rt_owners s) \<inter> owner_subtree (rt_owners s) a) < f"
  shows "closes (module_close_owner f) a s"
  using assms
proof (induction f arbitrary: a s)
  case 0
  then show ?case by simp
next
  case (Suc f)
  note I = rt_invD [OF Suc.prems(1)]
  let ?os = "rt_owners s"
  let ?P = "\<lambda>r. ro_parent r = a"
  have rec: "closes (module_close_owner f) (ro_owner r) t"
    if t: "rt_inv t" "owners_closed D s t" "closed_below ?os D" "r \<in> set (rt_owners t)" "?P r" for t D r
  proof (rule Suc.IH [OF t(1)])
    note It = rt_invD [OF t(1)]
    show ne: "ro_owner r \<noteq> 0" using owners_okD(2) [OF It(1) t(4)] t(5) Suc.prems(2) by auto
    have os: "rt_owners t = drop_owners D ?os" using t(2) by (simp add: owners_closed_def)
    have rs: "r \<in> set ?os" using t(4) ne by (simp add: os drop_owners_mem)
    have edge: "(ro_owner r, a) \<in> owner_edges ?os" using rs ne t(5) by (auto simp: owner_edges_def)
    have live: "a \<in> live_owners ?os" by (rule edge_parent_live [OF I(1) edge Suc.prems(2)])
    have sub: "owner_subtree (rt_owners t) (ro_owner r) \<subseteq> owner_subtree ?os a"
    proof -
      have "owner_subtree (rt_owners t) (ro_owner r) \<subseteq> owner_subtree ?os (ro_owner r)"
        using rtrancl_mono [of "owner_edges (rt_owners t)" "owner_edges ?os"]
        by (auto simp: owner_subtree_def os drop_owners_edges)
      then show ?thesis using edge by (auto simp: owner_subtree_def intro: rtrancl_into_rtrancl)
    qed
    have "a \<notin> owner_subtree (rt_owners t) (ro_owner r)"
    proof
      assume "a \<in> owner_subtree (rt_owners t) (ro_owner r)"
      then have "(a, ro_owner r) \<in> (owner_edges ?os)\<^sup>*"
        using rtrancl_mono [of "owner_edges (rt_owners t)" "owner_edges ?os"]
        by (auto simp: owner_subtree_def os drop_owners_edges)
      then have "(a, a) \<in> (owner_edges ?os)\<^sup>+" using edge by (rule rtrancl_into_trancl1)
      then show False using owner_path_age [OF I(1) _ Suc.prems(2)] by blast
    qed
    then have "live_owners (rt_owners t) \<inter> owner_subtree (rt_owners t) (ro_owner r) \<subset>
        live_owners ?os \<inter> owner_subtree ?os a"
      using sub live by (auto simp: os drop_owners_live)
    then have "card (live_owners (rt_owners t) \<inter> owner_subtree (rt_owners t) (ro_owner r)) <
        card (live_owners ?os \<inter> owner_subtree ?os a)"
      by (rule psubset_card_mono [rotated]) (simp add: live_owners_card(2))
    then show "card (live_owners (rt_owners t) \<inter> owner_subtree (rt_owners t) (ro_owner r)) < f"
      using Suc.prems(3) by simp
  qed
  define D where "D = (\<Union>i\<in>{i \<in> set [0..<32]. ?P (?os ! i)}. owner_subtree ?os (ro_owner (?os ! i)))"
  obtain t where t: "close_slots (module_close_owner f) ?P [0..<32] 0 s = Some (held_bytes D s, t)"
    "owners_closed D s t" "closed_below ?os D" "rt_inv t"
    using close_slots_ok [OF Suc.prems(1), of ?P "[0..<32]" "module_close_owner f" s "{}"] rec Suc.prems(1,2) owners_closed_refl
    by (auto simp: D_def held_bytes_def cp_bytes_def)
  have "{c. (c, a) \<in> owner_edges ?os} = {ro_owner (?os ! i) | i. i < 32 \<and> ?P (?os ! i)}"
  proof -
    have "ro_owner r \<noteq> 0" if "r \<in> set ?os" "?P r" for r using owners_okD(2) [OF I(1)] that Suc.prems(2) by force
    then show ?thesis using I(7) by (fastforce simp: owner_edges_def in_set_conv_nth)
  qed
  then have tree: "owner_subtree ?os a = D \<union> {a}"
    by (subst subtree_unfold) (auto simp: D_def)
  note R = close_record_ok [OF t(4) Suc.prems(2), of "held_bytes D s"]
  have cl: "owners_closed (owner_subtree ?os a) s (snd (close_record a (held_bytes D s) t))"
    unfolding tree by (rule owners_closed_trans [OF t(2) R(2)]) (use Suc.prems(2) in simp)
  have "held_bytes D s + held_bytes {a} t = held_bytes (owner_subtree ?os a) s"
    unfolding tree by (rule held_bytes_split [OF t(2)])
  moreover have "rt_inv (snd (close_record a (held_bytes D s) t))"
    by (rule owners_closed_inv [OF Suc.prems(1) closed_below_subtree [OF Suc.prems(2)] cl R(3)])
  moreover have "module_close_owner (Suc f) a s = Some (close_record a (held_bytes D s) t)"
    using t(1) by simp
  ultimately show ?case using cl R(1) by (auto simp: closes_def prod_eq_iff)
qed

end
