(* ===== verification/OwnerService.thy ===== *)
theory OwnerService
  imports OwnerSafety
begin

unbundle bit_operations_syntax

text \<open>
  The services a module gets over its owners: create, allocate, open windows, close,
  and the check that guards cache maintenance. Every operation keeps \<open>rt_inv\<close>, from the
  state at boot on; closing and unloading end and take exactly what they should.
\<close>

section \<open>The result of a close does not depend on the fuel\<close>

lemma close_slots_mono:
  assumes "\<And>a s r. rec a s = Some r \<Longrightarrow> rec' a s = Some r" "close_slots rec P is n s = Some r"
  shows "close_slots rec' P is n s = Some r"
  using assms(2) by (induction "is" arbitrary: n s) (auto split: option.splits if_splits dest: assms(1))

lemma close_owner_Suc: "module_close_owner f a s = Some r \<Longrightarrow> module_close_owner (Suc f) a s = Some r"
proof (induction f arbitrary: a s r)
  case (Suc f)
  obtain n t where t: "close_slots (module_close_owner f) (\<lambda>r. ro_parent r = a) [0..<32] 0 s = Some (n, t)"
      "r = close_record a n t" using Suc.prems by (auto split: option.splits)
  have "close_slots (module_close_owner (Suc f)) (\<lambda>r. ro_parent r = a) [0..<32] 0 s = Some (n, t)"
    by (rule close_slots_mono [OF Suc.IH t(1)])
  then show ?case using t(2) by (subst module_close_owner.simps) simp
qed simp

lemma close_owner_mono:
  assumes "module_close_owner f a s = Some r" "f \<le> g" shows "module_close_owner g a s = Some r"
  using assms(2,1) by (induction g rule: dec_induct) (auto intro: close_owner_Suc simp del: module_close_owner.simps)

lemma close_owner_fuel:
  assumes "rt_inv s" "a \<noteq> 0" "f \<ge> 33" shows "closes (module_close_owner f) a s"
proof (rule close_owner_closes [OF assms(1,2)])
  have "card (live_owners (rt_owners s) \<inter> owner_subtree (rt_owners s) a) \<le> card (live_owners (rt_owners s))"
    by (rule card_mono) (auto simp: live_owners_card(2))
  then show "card (live_owners (rt_owners s) \<inter> owner_subtree (rt_owners s) a) < f"
    using live_owners_card(1) [OF rt_invD(7) [OF assms(1)]] assms(3) by simp
qed

text \<open>
  C27: closing an owner ends, whatever tree hangs below it: 33 levels of recursion
  suffice for every well-formed table. It closes exactly the owners of that tree, gives
  back exactly their windows and memory, and returns the number of pool bytes freed.
\<close>

theorem module_close_takes_tree:
  assumes "rt_inv s" "owner \<noteq> 0"
  defines "D \<equiv> owner_subtree (rt_owners s) owner"
  shows "\<exists>s'. (\<forall>f\<ge>33. module_close_owner f owner s = Some (held_bytes D s, s')) \<and> owners_closed D s s' \<and> rt_inv s'"
proof -
  obtain s' where s': "module_close_owner 33 owner s = Some (held_bytes D s, s')" "owners_closed D s s'" "rt_inv s'"
    using close_owner_fuel [OF assms(1,2), of 33] by (auto simp: closes_def D_def)
  then show ?thesis using close_owner_mono [OF s'(1)] by blast
qed

section \<open>Unloading a module\<close>

definition module_owners :: "u32 \<Rightarrow> module_runtime \<Rightarrow> u32 set" where
  "module_owners module_id s = {ro_owner r | r. r \<in> set (rt_owners s) \<and> ro_owner r \<noteq> 0 \<and> ro_module_id r = module_id}"

definition base_owners :: "u32 \<Rightarrow> u32 list \<Rightarrow> u32 set" where
  "base_owners module_id classes = module_card_owner (ZZM_MODULE_OWNER module_id) ` set classes"

lemma module_root:
  assumes inv: "rt_inv s" and r: "r \<in> set (rt_owners s)" "ro_owner r \<noteq> 0"
  shows "\<exists>q\<in>set (rt_owners s). ro_owner q \<noteq> 0 \<and> ro_parent q = 0 \<and> ro_module_id q = ro_module_id r \<and>
    ro_owner r \<in> owner_subtree (rt_owners s) (ro_owner q)"
  using r
proof (induction "unat (low24 (ro_owner r))" arbitrary: r rule: less_induct)
  case less
  note R = owners_okD(3) [OF rt_invD(1) [OF inv] less.prems]
  show ?case
  proof (cases "ro_parent r = 0")
    case True
    then show ?thesis using less.prems by (intro bexI [of _ r]) auto
  next
    case False
    then obtain p where p: "p \<in> set (rt_owners s)" "ro_owner p = ro_parent r" "ro_module_id p = ro_module_id r"
        "unat (low24 (ro_parent r)) < unat (low24 (ro_owner r))" using R by (auto simp: owner_record_ok_def)
    then obtain q where q: "q \<in> set (rt_owners s)" "ro_owner q \<noteq> 0" "ro_parent q = 0" "ro_module_id q = ro_module_id r"
        "ro_owner p \<in> owner_subtree (rt_owners s) (ro_owner q)" using less.hyps [of p] False by auto
    have "(ro_owner r, ro_owner p) \<in> owner_edges (rt_owners s)" using less.prems p(2) by (auto simp: owner_edges_def)
    then have "ro_owner r \<in> owner_subtree (rt_owners s) (ro_owner q)"
      using q(5) by (auto simp: owner_subtree_def intro: converse_rtrancl_into_rtrancl)
    then show ?thesis using q by blast
  qed
qed

lemma subtree_same_module:
  assumes inv: "rt_inv s" and q: "q \<in> set (rt_owners s)" "ro_owner q \<noteq> 0" and w: "w \<in> owner_subtree (rt_owners s) (ro_owner q)"
  shows "w \<in> module_owners (ro_module_id q) s"
proof -
  have "(w, ro_owner q) \<in> (owner_edges (rt_owners s))\<^sup>*" using w by (simp add: owner_subtree_def)
  then show ?thesis
  proof (induction rule: converse_rtrancl_induct)
    case base
    then show ?case using q by (auto simp: module_owners_def)
  next
    case (step y z)
    obtain r where r: "r \<in> set (rt_owners s)" "ro_owner r = y" "ro_parent r = z" "y \<noteq> 0"
      using step.hyps(1) by (auto simp: owner_edges_def)
    obtain z' where z': "z' \<in> set (rt_owners s)" "ro_owner z' = z" "ro_module_id z' = ro_module_id q" "z \<noteq> 0"
      using step.IH by (auto simp: module_owners_def)
    obtain p where p: "p \<in> set (rt_owners s)" "ro_owner p = z" "ro_module_id p = ro_module_id r"
      using owners_okD(3) [OF rt_invD(1) [OF inv] r(1)] r z'(4) by (auto simp: owner_record_ok_def)
    have "p = z'" using owner_unique [OF rt_invD(1) [OF inv] p(1) z'(1)] p(2) z'(2,4) by simp
    then show ?case using r p(3) z'(3) by (auto simp: module_owners_def)
  qed
qed

lemma module_roots:
  assumes inv: "rt_inv s"
  shows "(\<Union>i\<in>{i \<in> set [0..<32]. ro_module_id (rt_owners s ! i) = m \<and> ro_parent (rt_owners s ! i) = 0 \<and> ro_owner (rt_owners s ! i) \<noteq> 0}.
     owner_subtree (rt_owners s) (ro_owner (rt_owners s ! i))) = module_owners m s"
proof (intro set_eqI iffI)
  fix w assume "w \<in> module_owners m s"
  then obtain r where r: "r \<in> set (rt_owners s)" "ro_owner r \<noteq> 0" "ro_module_id r = m" "w = ro_owner r"
    by (auto simp: module_owners_def)
  obtain q where q: "q \<in> set (rt_owners s)" "ro_owner q \<noteq> 0" "ro_parent q = 0" "ro_module_id q = m"
      "w \<in> owner_subtree (rt_owners s) (ro_owner q)" using module_root [OF inv r(1,2)] r(3,4) by blast
  obtain i where "i < 32" "q = rt_owners s ! i" using q(1) rt_invD(7) [OF inv] by (auto simp: in_set_conv_nth)
  then show "w \<in> (\<Union>i\<in>{i \<in> set [0..<32]. ro_module_id (rt_owners s ! i) = m \<and> ro_parent (rt_owners s ! i) = 0 \<and> ro_owner (rt_owners s ! i) \<noteq> 0}.
     owner_subtree (rt_owners s) (ro_owner (rt_owners s ! i)))" using q by auto
next
  fix w assume "w \<in> (\<Union>i\<in>{i \<in> set [0..<32]. ro_module_id (rt_owners s ! i) = m \<and> ro_parent (rt_owners s ! i) = 0 \<and> ro_owner (rt_owners s ! i) \<noteq> 0}.
     owner_subtree (rt_owners s) (ro_owner (rt_owners s ! i)))"
  then show "w \<in> module_owners m s" using subtree_same_module [OF inv] rt_invD(7) [OF inv] by auto
qed

text \<open>A base owner of a module is never in the table.\<close>

lemma live_owner_untagged:
  assumes "rt_inv s" "w \<in> live_owners (rt_owners s)" shows "low24 w AND ZZM_MODULE_OWNER_TAG = 0"
proof -
  obtain r where r: "r \<in> set (rt_owners s)" "ro_owner r = w" "w \<noteq> 0" using assms(2) by (auto simp: live_owners_def)
  then have "unat (low24 w) \<le> unat (rt_owner_gen s)"
    using owners_okD(3) [OF rt_invD(1) [OF assms(1)] r(1)] by (auto simp: owner_record_ok_def)
  then show ?thesis using tag_small rt_invD(2) [OF assms(1)] by simp
qed

lemma base_owner_not_live:
  assumes "rt_inv s" "unat m < 8388608" shows "base_owners m cs \<inter> live_owners (rt_owners s) = {}"
  using module_owner_forms(1) [OF assms(2)] by (auto simp: base_owners_def dest!: live_owner_untagged [OF assms(1)])

lemma release_unlisted:
  assumes inv: "rt_inv s" and b: "b \<noteq> 0" "b \<notin> live_owners (rt_owners s)"
  defines "s' \<equiv> s\<lparr>rt_heap := snd (module_release_owner b (rt_heap s))\<rparr>"
  shows "owners_closed {b} s s'" "rt_inv s'" "fst (module_release_owner b (rt_heap s)) = held_bytes {b} s"
proof -
  note I = rt_invD [OF inv] and R = module_release_owner_state [OF rt_invD(5) [OF inv] b(1)]
  note W = windows_okD [OF I(3)]
  have "ro_owner r \<noteq> b" if "r \<in> set (rt_owners s)" for r using that b by (auto simp: live_owners_def)
  then have o1: "drop_owners {b} (rt_owners s) = rt_owners s" unfolding drop_owners_def by (intro map_idI) auto
  have nw: "rw_owner w \<noteq> b" if "w \<in> set (rt_windows s)" for w using W(3) [OF that] b by metis
  then have "drop_windows {b} (rt_windows s) = rt_windows s" unfolding drop_windows_def by (intro map_idI) auto
  moreover have "window_regions {b} (rt_windows s) = {}" using nw by (auto simp: window_regions_def)
  moreover have "heap_owned (rt_heap s') P = heap_owned (rt_heap s) (\<lambda>w. P w \<and> w \<notin> {b})" for P
    using module_release_owner_owned [OF I(5) b(1), of P] by (simp add: s'_def fun_eq_iff)
  ultimately show c: "owners_closed {b} s s'" using o1 R(6) by (simp add: owners_closed_def s'_def)
  show "fst (module_release_owner b (rt_heap s)) = held_bytes {b} s" by (rule release_owner_bytes [OF I(5) b(1)])
  show "rt_inv s'" using inv R(1,2) I(6) by (simp add: rt_inv_def s'_def)
qed

lemma release_base_ok:
  assumes "rt_inv s" "unat m < 8388608"
  shows "\<exists>s'. release_base_owners (ZZM_MODULE_OWNER m) cs n s = (n + held_bytes (base_owners m cs) s, s') \<and>
    owners_closed (base_owners m cs) s s' \<and> rt_inv s'"
  using assms(1)
proof (induction cs arbitrary: n s)
  case Nil
  then show ?case by (simp add: release_base_owners_def base_owners_def owners_closed_refl held_bytes_def cp_bytes_def)
next
  case (Cons c cs)
  let ?b = "module_card_owner (ZZM_MODULE_OWNER m) c"
  have b: "?b \<noteq> 0" "?b \<notin> live_owners (rt_owners s)"
    using module_card_owner_nonzero base_owner_not_live [OF Cons.prems assms(2), of "[c]"] by (auto simp: base_owners_def)
  note R = release_unlisted [OF Cons.prems b]
  define t where "t = s\<lparr>rt_heap := snd (module_release_owner ?b (rt_heap s))\<rparr>"
  from Cons.IH [OF R(2), folded t_def, of "n + held_bytes {?b} s"] obtain s' where s':
    "release_base_owners (ZZM_MODULE_OWNER m) cs (n + held_bytes {?b} s) t = (n + held_bytes {?b} s + held_bytes (base_owners m cs) t, s')"
    "owners_closed (base_owners m cs) t s'" "rt_inv s'" by blast
  have z: "0 \<notin> base_owners m cs" using module_card_owner_nonzero by (auto simp: base_owners_def)
  have B: "{?b} \<union> base_owners m cs = base_owners m (c # cs)" by (simp add: base_owners_def)
  have "owners_closed (base_owners m (c # cs)) s s'"
    using owners_closed_trans [OF R(1) [folded t_def] s'(2) z] by (simp only: B)
  moreover have "held_bytes {?b} s + held_bytes (base_owners m cs) t = held_bytes (base_owners m (c # cs)) s"
    using held_bytes_split [OF R(1) [folded t_def]] by (simp only: B)
  moreover have "release_base_owners (ZZM_MODULE_OWNER m) (c # cs) n s = release_base_owners (ZZM_MODULE_OWNER m) cs (n + held_bytes {?b} s) t"
    using R(3) by (simp add: release_base_owners_def t_def case_prod_beta)
  ultimately show ?case using s' by (simp add: add.assoc)
qed

lemma release_module_ok:
  assumes inv: "rt_inv s" and m: "m \<noteq> 0" "unat m < 8388608"
  defines "D \<equiv> module_owners m s \<union> base_owners m [1, 2, 3, 4, 5, 6, 7, 8, 9]"
  shows "\<exists>s'. (\<forall>f\<ge>33. zzm_runtime_release_module f m s = Some (held_bytes D s, s')) \<and> owners_closed D s s' \<and> rt_inv s'"
proof -
  let ?P = "\<lambda>r. ro_module_id r = m \<and> ro_parent r = 0"
  note I = rt_invD [OF inv]
  have rec: "closes (module_close_owner 33) (ro_owner r) t" if "rt_inv t" "r \<in> set (rt_owners t)" "?P r" for t r
  proof (rule close_owner_fuel [OF that(1)])
    show "ro_owner r \<noteq> 0" using owners_okD(2) [OF rt_invD(1) [OF that(1)] that(2)] that(3) m(1) by auto
  qed simp
  have "ro_owner (rt_owners s ! i) \<noteq> 0" if "i < 32" "?P (rt_owners s ! i)" for i
    using owners_okD(2) [OF I(1), of "rt_owners s ! i"] that I(7) m(1) by auto
  then have "{i \<in> set [0..<32]. ?P (rt_owners s ! i)} =
      {i \<in> set [0..<32]. ro_module_id (rt_owners s ! i) = m \<and> ro_parent (rt_owners s ! i) = 0 \<and> ro_owner (rt_owners s ! i) \<noteq> 0}" by auto
  then have roots: "(\<Union>i\<in>{i \<in> set [0..<32]. ?P (rt_owners s ! i)}. owner_subtree (rt_owners s) (ro_owner (rt_owners s ! i))) = module_owners m s"
    using module_roots [OF inv] by simp
  have "\<exists>t. close_slots (module_close_owner 33) ?P [0..<32] (held_bytes {} s) s = Some (held_bytes ({} \<union> module_owners m s) s, t) \<and>
      owners_closed ({} \<union> module_owners m s) s t \<and> closed_below (rt_owners s) ({} \<union> module_owners m s) \<and> rt_inv t"
    unfolding roots [symmetric] by (rule close_slots_ok [OF inv]) (use rec inv m(1) owners_closed_refl in auto)
  then obtain t where t: "close_slots (module_close_owner 33) ?P [0..<32] 0 s = Some (held_bytes (module_owners m s) s, t)"
    "owners_closed (module_owners m s) s t" "rt_inv t"
    by (auto simp: held_bytes_def [of "{}"] cp_bytes_def)
  from release_base_ok [OF t(3) m(2)] obtain s' where s':
    "release_base_owners (ZZM_MODULE_OWNER m) [1, 2, 3, 4, 5, 6, 7, 8, 9] (held_bytes (module_owners m s) s) t =
       (held_bytes (module_owners m s) s + held_bytes (base_owners m [1, 2, 3, 4, 5, 6, 7, 8, 9]) t, s')"
    "owners_closed (base_owners m [1, 2, 3, 4, 5, 6, 7, 8, 9]) t s'" "rt_inv s'" by blast
  have "owners_closed D s s'" unfolding D_def
    by (rule owners_closed_trans [OF t(2) s'(2)]) (use module_card_owner_nonzero in \<open>auto simp: base_owners_def\<close>)
  moreover have "zzm_runtime_release_module f m s = Some (held_bytes D s, s')" if "f \<ge> 33" for f
  proof -
    have "close_slots (module_close_owner f) ?P [0..<32] 0 s = Some (held_bytes (module_owners m s) s, t)"
      by (rule close_slots_mono [OF close_owner_mono t(1)]) (assumption, rule that)
    then show ?thesis using s'(1) held_bytes_split [OF t(2)] by (simp add: zzm_runtime_release_module_def D_def)
  qed
  ultimately show ?thesis using s'(3) by blast
qed

text \<open>
  C28: unloading a module takes back everything it owned and nothing else: every owner
  of the module at any depth, every window of one, every pool block of one or of the
  module's own base owners; all other owners, windows and memory stay as they are.
\<close>

theorem module_unload_takes_all:
  assumes "rt_inv s" "module_id \<noteq> 0" "unat module_id < 8388608"
  shows "\<exists>freed s'. (\<forall>f\<ge>33. zzm_runtime_release_module f module_id s = Some (freed, s')) \<and> rt_inv s' \<and>
    module_owners module_id s' = {} \<and>
    owners_closed (module_owners module_id s \<union> base_owners module_id [1, 2, 3, 4, 5, 6, 7, 8, 9]) s s'"
proof -
  let ?D = "module_owners module_id s \<union> base_owners module_id [1, 2, 3, 4, 5, 6, 7, 8, 9]"
  from release_module_ok [OF assms] obtain s' where s':
    "\<forall>f\<ge>33. zzm_runtime_release_module f module_id s = Some (held_bytes ?D s, s')" "owners_closed ?D s s'" "rt_inv s'" by blast
  have "rt_owners s' = drop_owners ?D (rt_owners s)" using s'(2) by (simp add: owners_closed_def)
  then have "module_owners module_id s' = {}" by (auto simp: module_owners_def drop_owners_mem)
  then show ?thesis using s' by blast
qed

section \<open>Creating an owner\<close>

lemma live_mem: "r \<in> set os \<Longrightarrow> ro_owner r \<noteq> 0 \<Longrightarrow> ro_owner r \<in> live_owners os"
  by (simp add: live_owners_def)

lemma next_gen_small:
  assumes "unat g + 1 < 8388608"
  shows "next_owner_gen g = g + 1" "unat (next_owner_gen g) = unat g + 1" "low24 (next_owner_gen g) = next_owner_gen g"
proof -
  have u: "unat (g + 1) = unat g + 1" using assms by (simp add: unat_plus_no_wrap)
  then have "low24 (g + 1) = g + 1" using assms by (intro low24_small) simp
  moreover have "g + 1 \<noteq> 0" using u by (metis add_is_0 unat_0 zero_neq_one)
  ultimately show "next_owner_gen g = g + 1" "unat (next_owner_gen g) = unat g + 1" "low24 (next_owner_gen g) = next_owner_gen g"
    using u by (simp_all add: next_owner_gen_def low24_def)
qed

lemma card_owner_low24: "module_card_owner (low24 w) c = module_card_owner w c"
  by (simp add: module_card_owner_def low24_def and.assoc)

lemma windows_ok_mono:
  assumes "windows_ok g os sa ws" "live_owners os \<subseteq> live_owners os'" shows "windows_ok g os' sa ws"
  using assms by (auto simp: windows_ok_def)

text \<open>Filling an empty slot adds one owner and one edge.\<close>

lemma owners_update:
  assumes i: "i < length os" "ro_owner (os ! i) = 0" and r: "ro_owner r \<noteq> 0"
  shows "\<And>q. ro_owner q \<noteq> 0 \<Longrightarrow> q \<in> set (os[i := r]) \<longleftrightarrow> q = r \<or> q \<in> set os"
    "live_owners (os[i := r]) = insert (ro_owner r) (live_owners os)"
    "owner_edges (os[i := r]) = insert (ro_owner r, ro_parent r) (owner_edges os)"
proof -
  show mem: "q \<in> set (os[i := r]) \<longleftrightarrow> q = r \<or> q \<in> set os" if q: "ro_owner q \<noteq> 0" for q
  proof
    assume "q \<in> set (os[i := r])"
    then show "q = r \<or> q \<in> set os" using set_update_subset_insert [of os i r] by auto
  next
    assume "q = r \<or> q \<in> set os"
    moreover have "q \<in> set (os[i := r])" if "q \<in> set os"
      using set_update_neq [OF that, of i] q i(2) by metis
    ultimately show "q \<in> set (os[i := r])" using set_update_memI [OF i(1)] by auto
  qed
  have "live_owners xs = {ro_owner q | q. q \<in> set xs \<and> ro_owner q \<noteq> 0}" for xs by (auto simp: live_owners_def)
  then have "live_owners (os[i := r]) = {ro_owner q | q. (q = r \<or> q \<in> set os) \<and> ro_owner q \<noteq> 0}" using mem by blast
  also have "\<dots> = insert (ro_owner r) (live_owners os)" using r by (auto simp: live_owners_def)
  finally show "live_owners (os[i := r]) = insert (ro_owner r) (live_owners os)" .
  have "owner_edges (os[i := r]) = {(ro_owner q, ro_parent q) | q. (q = r \<or> q \<in> set os) \<and> ro_owner q \<noteq> 0}"
    unfolding owner_edges_def using mem by blast
  also have "\<dots> = insert (ro_owner r, ro_parent r) (owner_edges os)" using r by (auto simp: owner_edges_def)
  finally show "owner_edges (os[i := r]) = insert (ro_owner r, ro_parent r) (owner_edges os)" .
qed

lemma create_owner_ok:
  assumes inv: "rt_inv s" and gen: "unat (rt_owner_gen s) + 1 < 8388608"
    and res: "module_create_owner m cls parent quota s = (ret, s')"
  shows "rt_inv s' \<and> (case ret of None \<Rightarrow> s' = s
    | Some w \<Rightarrow> w \<noteq> 0 \<and> w \<notin> live_owners (rt_owners s) \<and> live_owners (rt_owners s') = insert w (live_owners (rt_owners s)) \<and>
        owner_edges (rt_owners s') = insert (w, parent) (owner_edges (rt_owners s)))"
proof (cases ret)
  case None
  then have "s' = s" using res by (auto simp: module_create_owner_def Let_def split: if_splits option.splits)
  then show ?thesis using inv None by simp
next
  case (Some w)
  note I = rt_invD [OF inv] and O = owners_okD [OF rt_invD(1) [OF inv]]
  let ?os = "rt_owners s" and ?mc = "owner_class_memory_class cls"
  let ?gen = "next_owner_gen (rt_owner_gen s)"
  let ?r = "\<lparr>ro_owner = w, ro_module_id = m, ro_class = cls, ro_parent = parent, ro_quota = quota, ro_refs = 1\<rparr>"
  note G = next_gen_small [OF gen]
  obtain i where fi: "List.find (\<lambda>i. ro_owner (?os ! i) = 0) [0..<ZZM_RUNTIME_MAX_OWNERS] = Some i"
    and w: "w = module_card_owner (?gen AND 0x00ffffff) ?mc"
    and s': "s' = s\<lparr>rt_owners := ?os[i := ?r], rt_owner_gen := ?gen\<rparr>"
    and ok: "?mc \<noteq> 0" "quota \<noteq> 0"
      "\<not> (parent \<noteq> 0 \<and> (case find_runtime_owner parent ?os of None \<Rightarrow> True | Some p \<Rightarrow> ro_module_id p \<noteq> m))"
    using res Some unfolding module_create_owner_def Let_def by (auto split: if_splits option.splits)
  have i: "i < 32" "ro_owner (?os ! i) = 0" using find_SomeD [OF fi] by auto
  have wz: "w \<noteq> 0" by (simp add: w module_card_owner_nonzero)
  have lw: "low24 w = ?gen" using G(3) by (simp add: w low24_def [symmetric])
  have old: "unat (low24 (ro_owner q)) < unat ?gen" if "q \<in> set ?os" for q
    using O(3) [OF that] G(2) by (cases "ro_owner q = 0") (auto simp: owner_record_ok_def)
  note U = owners_update [of i ?os ?r, simplified, OF _ i(2) wz]
  have mem: "q \<in> set (?os[i := ?r]) \<longleftrightarrow> q = ?r \<or> q \<in> set ?os" if "ro_owner q \<noteq> 0" for q
    using U(1) [OF _ that] i(1) I(7) by simp
  have live: "live_owners (?os[i := ?r]) = insert w (live_owners ?os)"
    and edges: "owner_edges (?os[i := ?r]) = insert (w, parent) (owner_edges ?os)" using U(2,3) i(1) I(7) by simp_all
  have rec: "owner_record_ok ?gen (?os[i := ?r]) q" if q: "q \<in> set (?os[i := ?r])" "ro_owner q \<noteq> 0" for q
  proof (cases "q = ?r")
    case True
    have "\<exists>p\<in>set (?os[i := ?r]). ro_owner p = parent \<and> ro_module_id p = m \<and> unat (low24 parent) < unat ?gen" if "parent \<noteq> 0"
    proof -
      obtain p where p: "find_runtime_owner parent ?os = Some p" "ro_module_id p = m"
        using ok(3) \<open>parent \<noteq> 0\<close> by (auto split: option.splits)
      then have "p \<in> set ?os" "ro_owner p = parent" using find_SomeD by (fastforce simp: find_runtime_owner_def)+
      then show ?thesis using p(2) mem [of p] old [of p] \<open>parent \<noteq> 0\<close> by auto
    qed
    moreover have "w = module_card_owner w ?mc" using lw w by (metis card_owner_low24 low24_def)
    ultimately show ?thesis using True ok(1,2) lw G(2) by (auto simp: owner_record_ok_def)
  next
    case False
    then have "q \<in> set ?os" using mem [OF q(2)] q(1) by simp
    from O(3) [OF this q(2)] show ?thesis using mem wz G(2) unfolding owner_record_ok_def
      by (smt (verit, best) le_add1 order_trans runtime_owner.select_convs(1))
  qed
  have "low24 (ro_owner (?os[i := ?r] ! j)) \<noteq> low24 (ro_owner (?os[i := ?r] ! k))"
    if jk: "j < 32" "k < 32" "j \<noteq> k" "ro_owner (?os[i := ?r] ! j) \<noteq> 0" for j k
  proof (cases "j = i \<or> k = i")
    case True
    have "low24 (ro_owner (?os ! l)) \<noteq> low24 w" if "l < 32" for l using old [of "?os ! l"] that I(7) lw by fastforce
    from this [of j] this [of k] show ?thesis using True jk(1-3) I(7) i(1) by (auto simp: nth_list_update)
  qed (use O(4) [OF jk(1-3)] jk I(7) in auto)
  moreover have "q = owner_empty" if "q \<in> set (?os[i := ?r])" "ro_owner q = 0" for q
    using that set_update_subset_insert [of ?os i ?r] O(2) wz by auto
  ultimately have os': "owners_ok ?gen (?os[i := ?r])" using rec I(7) by (simp add: owners_ok_def)
  have "windows_ok (rt_window_gen s) (?os[i := ?r]) (rt_surfaces s) (rt_windows s)"
    by (rule windows_ok_mono [OF I(3)]) (auto simp: live)
  then have "rt_inv s'" using os' inv gen G(2) by (simp add: rt_inv_def s')
  moreover have "w \<notin> live_owners ?os" using old lw by (fastforce simp: live_owners_def)
  ultimately show ?thesis using Some wz live edges s' by simp
qed

section \<open>Host windows\<close>

lemma sa_region_facts:
  assumes inv: "sa_inv sa" and x: "x \<in> set (sa_regions sa)"
  shows "0 < fst x" "256 dvd snd x"
proof -
  obtain b where b: "b \<in> set (sa_blocks sa)" "x = sab_region b" using x by (auto simp: sa_regions_def)
  have "0 < snd x" using inv x by (auto simp: sa_inv_def regions_ok_def)
  moreover have "fst x + snd x \<le> unat (sa_end sa)" "unat (sa_base sa) \<le> fst x" "256 dvd snd x"
    using sa_invD(3) [OF inv b(1)] b(2) by (simp_all add: sa_block_in_def)
  moreover have "0 < unat (sa_base sa) \<or> unat (sa_end sa) = 0"
    using sa_invD(1) [OF inv] by (auto simp: sa_window_ok_def unsigned_eq_0_iff intro: gr0I)
  ultimately show "0 < fst x" "256 dvd snd x" by auto
qed

lemma windows_ok_update:
  assumes W: "windows_ok gen os sa ws" and i: "i < 4" and gen: "unat gen \<le> unat gen'"
    and keep: "\<And>w. w \<in> set ws \<Longrightarrow> rw_owner w \<noteq> 0 \<Longrightarrow> w \<noteq> ws ! i \<Longrightarrow> window_region w \<in> set (sa_regions sa')"
    and w: "rw_owner w = 0 \<and> w = window_empty \<or> rw_owner w \<noteq> 0 \<and> rw_owner w \<in> live_owners os \<and>
      window_region w \<in> set (sa_regions sa') \<and> unat (rw_generation w) \<le> unat gen' \<and>
      (\<forall>v\<in>set ws. rw_owner v \<noteq> 0 \<longrightarrow> v \<noteq> ws ! i \<longrightarrow> rw_address v \<noteq> rw_address w)"
  shows "windows_ok gen' os sa' (ws[i := w])"
proof -
  note D = windows_okD [OF W]
  have other: "ws ! j \<noteq> ws ! i" if "j < 4" "j \<noteq> i" "rw_owner (ws ! j) \<noteq> 0" for j
    using D(6) [OF that(1) i that(2,3)] that(3) by auto
  have "if rw_owner v = 0 then v = window_empty
      else rw_owner v \<in> live_owners os \<and> window_region v \<in> set (sa_regions sa') \<and> unat (rw_generation v) \<le> unat gen'"
    if v: "v \<in> set (ws[i := w])" for v
  proof -
    obtain j where j: "j < 4" "v = ws[i := w] ! j" using v D(1) by (auto simp: in_set_conv_nth)
    show ?thesis
    proof (cases "j = i")
      case False
      then have v': "v = ws ! j" "v \<in> set ws" using j D(1) by simp_all
      show ?thesis using D(2,3) [OF v'(2)] D(5) [OF v'(2)] keep [OF v'(2)] other [OF j(1) False] v'(1) gen by auto
    qed (use w j D(1) in auto)
  qed
  moreover have "rw_address (ws[i := w] ! j) \<noteq> rw_address (ws[i := w] ! k)"
    if jk: "j < 4" "k < 4" "j \<noteq> k" "rw_owner (ws[i := w] ! j) \<noteq> 0" "rw_owner (ws[i := w] ! k) \<noteq> 0" for j k
  proof -
    have new: "rw_address (ws ! l) \<noteq> rw_address w" if "l < 4" "l \<noteq> i" "rw_owner (ws ! l) \<noteq> 0" "rw_owner w \<noteq> 0" for l
      using w that other [OF that(1-3)] D(1) by auto
    show ?thesis using D(6) [OF jk(1-3)] new [of j] new [of k] jk D(1) by (cases "j = i"; cases "k = i") auto
  qed
  ultimately show ?thesis using D(1) by (simp add: windows_ok_def)
qed

lemma window_free_ok:
  assumes inv: "rt_inv s" and res: "module_host_window_free owner address generation s = (ok, s')"
  shows "rt_inv s' \<and> (\<not> ok \<longrightarrow> s' = s) \<and>
    (ok \<longleftrightarrow> (\<exists>w\<in>set (rt_windows s). rw_owner w = owner \<and> owner \<noteq> 0 \<and> rw_address w = address \<and> rw_generation w = generation)) \<and>
    (ok \<longrightarrow> set (sa_regions (rt_surfaces s')) = {x \<in> set (sa_regions (rt_surfaces s)). fst x \<noteq> unat address})"
proof -
  note I = rt_invD [OF inv] and W = windows_okD [OF rt_invD(3) [OF inv]]
  let ?Q = "\<lambda>i. rw_owner (rt_windows s ! i) = owner \<and> rw_address (rt_windows s ! i) = address \<and> rw_generation (rt_windows s ! i) = generation"
  show ?thesis
  proof (cases "List.find ?Q [0..<ZZM_RUNTIME_MAX_WINDOWS]")
    case None
    then have "\<not> ?Q i" if "i < 4" for i using that by (auto simp: find_None_iff)
    then have "\<not> (\<exists>w\<in>set (rt_windows s). rw_owner w = owner \<and> rw_address w = address \<and> rw_generation w = generation)"
      using W(1) by (auto simp: set_conv_nth)
    moreover have "(ok, s') = (False, s)" using res None by (simp add: module_host_window_free_def)
    ultimately show ?thesis using inv by auto
  next
    case (Some i)
    define w where "w = rt_windows s ! i"
    have i: "i < 4" "rw_owner w = owner" "rw_address w = address" "rw_generation w = generation"
      using find_SomeD [OF Some] by (auto simp: w_def)
    have wm: "w \<in> set (rt_windows s)" using i(1) W(1) by (simp add: w_def)
    obtain ret sa where f: "surface_allocator_free address (rt_surfaces s) = (ret, sa)" by fastforce
    note F = surface_free_spec [OF I(4) f]
    show ?thesis
    proof (cases "owner = 0")
      case True
      then have "w = window_empty" using W(2) [OF wm] i(2) by simp
      then have "unat address = 0" using i(3) by (simp add: window_empty_def)
      then have "ret \<noteq> 0" using F sa_region_facts(1) [OF I(4)] by force
      then show ?thesis using res Some f F inv True by (auto simp: module_host_window_free_def)
    next
      case False
      have reg: "window_region w \<in> set (sa_regions (rt_surfaces s))" using W(4) [OF wm] i(2) False by simp
      then have "ret = 0" using F i(3) by (force simp: window_region_def)
      then have s': "ok" "s' = s\<lparr>rt_surfaces := sa, rt_windows := (rt_windows s)[i := window_empty]\<rparr>"
        using res Some f by (simp_all add: module_host_window_free_def)
      have "windows_ok (rt_window_gen s) (rt_owners s) sa ((rt_windows s)[i := window_empty])"
      proof (rule windows_ok_update [OF I(3) i(1) order_refl])
        fix v assume v: "v \<in> set (rt_windows s)" "rw_owner v \<noteq> 0" "v \<noteq> rt_windows s ! i"
        then have "rw_address v \<noteq> rw_address w" using window_unique [OF I(3) v(1) wm v(2)] False i(2) by (auto simp: w_def)
        then show "window_region v \<in> set (sa_regions sa)" using W(4) [OF v(1,2)] F i(3)
          by (auto simp: window_region_def word_unat_eq_iff)
      qed simp
      then show ?thesis using F s' inv wm i False by (auto simp: rt_inv_def)
    qed
  qed
qed

lemmas window_consts = SDK_MAILBOX_Z3_ADDRESS_def HOST_VISIBLE_HEAP_END_def

lemma window_alloc_ok:
  assumes inv: "rt_inv s" and owner: "owner \<noteq> 0" and gen: "unat (rt_window_gen s) + 1 < 4294967296"
    and res: "module_host_window_alloc z3 owner bytes alignment s = (ret, s')"
  shows "rt_inv s' \<and> (case ret of None \<Rightarrow> s' = s
    | Some out \<Rightarrow> z3 \<and> owner \<in> live_owners (rt_owners s) \<and>
        unat SDK_MAILBOX_Z3_ADDRESS \<le> unat (hw_arm_address out) \<and>
        unat (hw_arm_address out) + unat (hw_bytes out) \<le> unat HOST_VISIBLE_HEAP_END \<and>
        unat bytes \<le> unat (hw_bytes out) \<and> unat alignment dvd unat (hw_arm_address out) \<and>
        (\<forall>x\<in>set (sa_regions (rt_surfaces s)). disjoint_regions (unat (hw_arm_address out), unat (hw_bytes out)) x) \<and>
        set (sa_regions (rt_surfaces s')) = insert (unat (hw_arm_address out), unat (hw_bytes out)) (set (sa_regions (rt_surfaces s))) \<and>
        unat (hw_generation out) = unat (rt_window_gen s) + 1 \<and>
        (\<exists>i<4. rw_owner (rt_windows s ! i) = 0 \<and> rt_windows s' = (rt_windows s)[i := \<lparr>rw_owner = owner,
           rw_address = hw_arm_address out, rw_bytes = hw_bytes out, rw_generation = hw_generation out\<rparr>]))"
proof (cases ret)
  case None
  note I = rt_invD [OF inv]
  have "sa = rt_surfaces s" if "surface_allocator_alloc_range bytes alignment SDK_MAILBOX_Z3_ADDRESS HOST_VISIBLE_HEAP_END (rt_surfaces s) = (0, sa)" for sa
    using sa_alloc_range_cases [OF I(4) _ that] by (simp add: window_consts sa_alloc_ok_def)
  then have "s' = s" using res None
    by (auto simp: module_host_window_alloc_def Let_def split: if_splits option.splits prod.splits)
  then show ?thesis using inv None by simp
next
  case (Some out)
  note I = rt_invD [OF inv] and W = windows_okD [OF rt_invD(3) [OF inv]]
  let ?ws = "rt_windows s" and ?gen = "rt_window_gen s + 1"
  obtain i a sa where fi: "List.find (\<lambda>i. rw_owner (?ws ! i) = 0) [0..<ZZM_RUNTIME_MAX_WINDOWS] = Some i"
    and al: "surface_allocator_alloc_range bytes alignment SDK_MAILBOX_Z3_ADDRESS HOST_VISIBLE_HEAP_END (rt_surfaces s) = (a, sa)" "a \<noteq> 0"
    and g: "find_runtime_owner owner (rt_owners s) \<noteq> None" "z3"
    and out: "out = \<lparr>hw_arm_address = a, hw_board_offset = a - ADDR_ADJ, hw_bytes = surface_allocator_block_size a sa,
        hw_attributes = 1 OR 2, hw_generation = ?gen\<rparr>"
    and s': "s' = s\<lparr>rt_surfaces := sa, rt_window_gen := ?gen, rt_windows := ?ws[i := \<lparr>rw_owner = owner, rw_address = a,
        rw_bytes = surface_allocator_block_size a sa, rw_generation = ?gen\<rparr>]\<rparr>"
    using res Some unfolding module_host_window_alloc_def Let_def
    by (auto split: if_splits option.splits prod.splits)
  have i: "i < 4" "rw_owner (?ws ! i) = 0" using find_SomeD [OF fi] by auto
  obtain r where "r \<in> set (rt_owners s)" "ro_owner r = owner"
    using g(1) find_SomeD by (fastforce simp: find_runtime_owner_def)
  then have live: "owner \<in> live_owners (rt_owners s)" using owner by (auto simp: live_owners_def)
  have lo: "256 dvd unat SDK_MAILBOX_Z3_ADDRESS" by (simp add: window_consts)
  note A = sa_alloc_range_cases [OF I(4) disjI1 [OF lo] al(1)]
  then obtain n where n: "sa_inv sa" "unat bytes \<le> n" "(unat a, n) \<notin> set (sa_regions (rt_surfaces s))"
      "\<forall>x\<in>set (sa_regions (rt_surfaces s)). disjoint_regions (unat a, n) x"
      "set (sa_regions sa) = insert (unat a, n) (set (sa_regions (rt_surfaces s)))"
      "n < unat bytes + 256" "256 dvd unat a"
    using al(2) by (auto simp: sa_alloc_ok_def)
  have size: "unat (surface_allocator_block_size a sa) = n"
  proof -
    have "(unat a, n) \<in> set (sa_regions sa)" using n(5) by simp
    moreover from this have "(unat a, unat (surface_allocator_block_size a sa)) \<in> set (sa_regions sa)"
      using surface_queries_spec [OF n(1), of a 1] by force
    ultimately show ?thesis using sa_region_unique [OF n(1)] by fastforce
  qed
  have top: "unat a + n \<le> unat HOST_VISIBLE_HEAP_END"
  proof -
    have "256 dvd n" using sa_region_facts(2) [OF n(1), of "(unat a, n)"] n(5) by simp
    then obtain k l where kl: "n = 256 * k" "unat a = 256 * l" using n(7) by (auto elim!: dvdE)
    moreover have "unat a + unat bytes \<le> 136314880" using A al(2) by (simp add: window_consts)
    ultimately have "l + k < 532481" using n(6) by linarith
    then show ?thesis using kl by (simp add: window_consts)
  qed
  let ?w = "\<lparr>rw_owner = owner, rw_address = a, rw_bytes = surface_allocator_block_size a sa, rw_generation = ?gen\<rparr>"
  have gu: "unat ?gen = unat (rt_window_gen s) + 1" using gen by (simp add: unat_plus_no_wrap)
  have "windows_ok ?gen (rt_owners s) sa (?ws[i := ?w])"
  proof (rule windows_ok_update [OF I(3) i(1)])
    show "unat (rt_window_gen s) \<le> unat ?gen" using gu by simp
    show "window_region v \<in> set (sa_regions sa)" if "v \<in> set ?ws" "rw_owner v \<noteq> 0" for v
      using W(4) [OF that] n(5) by simp
    have "rw_address v \<noteq> a" if v: "v \<in> set ?ws" "rw_owner v \<noteq> 0" for v
    proof
      assume "rw_address v = a"
      then have "(unat a, unat (rw_bytes v)) \<in> set (sa_regions (rt_surfaces s))" using W(4) [OF v] by (simp add: window_region_def)
      moreover from this have "unat (rw_bytes v) = n" using sa_region_unique [OF n(1), of "(unat a, unat (rw_bytes v))" "(unat a, n)"] n(5) by auto
      ultimately show False using n(3) by simp
    qed
    then show "rw_owner ?w = 0 \<and> ?w = window_empty \<or> rw_owner ?w \<noteq> 0 \<and> rw_owner ?w \<in> live_owners (rt_owners s) \<and>
      window_region ?w \<in> set (sa_regions sa) \<and> unat (rw_generation ?w) \<le> unat ?gen \<and>
      (\<forall>v\<in>set ?ws. rw_owner v \<noteq> 0 \<longrightarrow> v \<noteq> ?ws ! i \<longrightarrow> rw_address v \<noteq> rw_address ?w)"
      using owner live size n(5) by (simp add: window_region_def)
  qed
  then have "rt_inv s'" using inv n(1) by (simp add: rt_inv_def s')
  then show ?thesis using Some live g(2) A al(2) n size top i gu by (auto simp: out s')
qed

end
