(* ===== verification/OwnerRuns.thy ===== *)
theory OwnerRuns
  imports OwnerService
begin

unbundle bit_operations_syntax

text \<open>
  The owner services together: every sequence of calls keeps the tables well formed,
  a host window is fresh and its stale handles are refused, and the range check admits
  exactly the memory of the calling module.
\<close>

section \<open>Allocation under an owner\<close>

lemma rt_inv_heap: "rt_inv s \<Longrightarrow> heap_inv h \<Longrightarrow> heap_synced h \<Longrightarrow> rt_inv (s\<lparr>rt_heap := h\<rparr>)"
  by (simp add: rt_inv_def)

lemma alloc_ex_ok:
  assumes inv: "rt_inv s" and res: "module_alloc_ex owner owner_class quota bytes attributes s = (a, s')"
  shows "rt_inv s'" "a = 0 \<Longrightarrow> s' = s"
proof -
  note I = rt_invD [OF inv]
  consider "(a, s') = (0, s)" | p where "card_pool_alloc bytes owner (heap_pool (rt_heap s)) = (a, p)"
      "s' = s\<lparr>rt_heap := rt_heap s\<lparr>heap_pool := p\<rparr>\<rparr>"
    using res unfolding module_alloc_ex_def Let_def
    by (cases "find_runtime_owner owner (rt_owners s)"; cases "card_pool_alloc bytes owner (heap_pool (rt_heap s))")
      (simp_all split: if_split_asm)
  then have "rt_inv s' \<and> (a = 0 \<longrightarrow> s' = s)"
  proof cases
    case (2 p)
    show ?thesis
    proof (cases "a = 0")
      case True
      then have "p = heap_pool (rt_heap s)" using cp_alloc_cases [OF heap_invD(2) [OF I(5)] 2(1)] by auto
      then show ?thesis using 2(2) inv by simp
    next
      case False
      note P = heap_pool_insert [OF I(5) heap_synced_owner [OF I(6)] 2(1) False]
      have "heap_synced (rt_heap s\<lparr>heap_pool := p\<rparr>)" using I(6) P(2) by (auto simp: heap_synced_def)
      then show ?thesis using rt_inv_heap [OF inv P(1)] 2(2) False by simp
    qed
  qed (use inv in simp)
  then show "rt_inv s'" "a = 0 \<Longrightarrow> s' = s" by simp_all
qed

section \<open>Runs of the services\<close>

text \<open>
  The calls of all modules, with the rest of the firmware between them: other clients of the
  card pool allocate, free, release, revoke and reset (as long as no chunk of the module heap
  is taken away), other clients of the host-visible heap allocate and free (all but a module's
  window), and modules write their memory (all but the block headers of the heap). A module
  may free any address under the condition \<open>mh_free_ok\<close>, live or not.

  Not steps: closing owner 0, which does not end (\<open>close_zero_diverges\<close>), unloading module 0, a
  window for owner 0, which the table then counts as free, and the owner that would make the
  ids meet the modules' own owners (the 2^23rd creation).
\<close>

inductive rt_step :: "module_runtime \<Rightarrow> module_runtime \<Rightarrow> bool" where
  create: "unat (rt_owner_gen s) + 1 < 8388608 \<Longrightarrow>
    rt_step s (snd (module_create_owner module_id owner_class parent quota s))"
| alloc_ex: "rt_step s (snd (module_alloc_ex owner owner_class quota bytes attributes s))"
| card_alloc: "module_card_alloc owner memory_class quota bytes (rt_heap s) = Some (a, h) \<Longrightarrow> rt_step s (s\<lparr>rt_heap := h\<rparr>)"
| card_free: "mh_free_ok address (rt_heap s) \<Longrightarrow>
    module_card_free address owner (rt_heap s) = Some (freed, h) \<Longrightarrow> rt_step s (s\<lparr>rt_heap := h\<rparr>)"
| close: "owner \<noteq> 0 \<Longrightarrow> module_close_owner f owner s = Some (n, s') \<Longrightarrow> rt_step s s'"
| unload: "module_id \<noteq> 0 \<Longrightarrow> unat module_id < 8388608 \<Longrightarrow> f \<ge> 33 \<Longrightarrow>
    zzm_runtime_release_module f module_id s = Some (n, s') \<Longrightarrow> rt_step s s'"
| window_alloc: "owner \<noteq> 0 \<Longrightarrow> unat (rt_window_gen s) + 1 < 4294967296 \<Longrightarrow>
    rt_step s (snd (module_host_window_alloc z3 owner bytes alignment s))"
| window_free: "rt_step s (snd (module_host_window_free owner address generation s))"
| surface_client: "sa_inv sa \<Longrightarrow> \<forall>w\<in>set (rt_windows s). rw_owner w \<noteq> 0 \<longrightarrow> window_region w \<in> set (sa_regions sa) \<Longrightarrow>
    rt_step s (s\<lparr>rt_surfaces := sa\<rparr>)"
| pool_alloc: "rt_step s (s\<lparr>rt_heap := snd (mh_alloc (MhPoolAlloc bytes owner) (rt_heap s))\<rparr>)"
| pool_client: "mh_may (MhPool k) (rt_heap s) \<Longrightarrow> rt_step s (s\<lparr>rt_heap := mh_do_release (MhPool k) (rt_heap s)\<rparr>)"
| payload: "mh_headers_kept m (rt_heap s) \<Longrightarrow> rt_step s (s\<lparr>rt_heap := (rt_heap s)\<lparr>heap_mem := m\<rparr>\<rparr>)"

lemma rt_step_inv:
  assumes "rt_step s s'" "rt_inv s" shows "rt_inv s'"
  using assms(1)
proof cases
  case (create m c p q)
  then show ?thesis using create_owner_ok [OF assms(2) create(2), of m c p q] by (metis prod.collapse)
next
  case (alloc_ex w c q b a)
  then show ?thesis using alloc_ex_ok(1) [OF assms(2)] by (metis prod.collapse)
next
  case (card_alloc w c q b a h)
  note I = rt_invD [OF assms(2)]
  from module_card_alloc_ok [where bytes = b and owner = w and memory_class = c and quota = q, OF I(5) heap_synced_owner [OF I(6)]]
  have "heap_inv h \<and> heap_synced h" using card_alloc(2) I(6) by auto
  then show ?thesis using rt_inv_heap [OF assms(2)] card_alloc(1) by simp
next
  case (card_free a w fr h)
  note I = rt_invD [OF assms(2)]
  from module_card_free_any [OF I(5,6) card_free(2), of w]
  have "heap_inv h \<and> heap_synced h" using card_free(3) by auto
  then show ?thesis using rt_inv_heap [OF assms(2)] card_free(1) by simp
next
  case (close w f n)
  have "module_close_owner (max f 33) w s = Some (n, s')" using close_owner_mono [OF close(2)] by simp
  then show ?thesis using close_owner_fuel [OF assms(2) close(1), of "max f 33"] by (auto simp: closes_def)
next
  case (unload m f n)
  then show ?thesis using release_module_ok [OF assms(2) unload(1,2)] by auto
next
  case (window_alloc w z b a)
  then show ?thesis using window_alloc_ok [OF assms(2) window_alloc(2,3), of z b a] by (metis prod.collapse)
next
  case (window_free w a g)
  then show ?thesis using window_free_ok [OF assms(2), of w a g] by (metis prod.collapse)
next
  case (surface_client sa)
  then show ?thesis using assms(2) by (auto simp: rt_inv_def windows_ok_def)
next
  case (pool_alloc b w)
  have "heap_inv (rt_heap s) \<and> heap_synced (rt_heap s)" using rt_invD [OF assms(2)] by simp
  from mh.alloc_invar [OF this, of "MhPoolAlloc b w"] show ?thesis using rt_inv_heap [OF assms(2)] pool_alloc by simp
next
  case (pool_client k)
  have "heap_inv (rt_heap s) \<and> heap_synced (rt_heap s)" using rt_invD [OF assms(2)] by simp
  from mh.release_invar [OF this pool_client(2)] show ?thesis using rt_inv_heap [OF assms(2)] pool_client(1) by simp
next
  case (payload m)
  have "heap_inv (rt_heap s) \<and> heap_synced (rt_heap s)" using rt_invD [OF assms(2)] by simp
  from mh.release_invar [OF this, of "MhWrite m"] show ?thesis using rt_inv_heap [OF assms(2)] payload by simp
qed

lemma rt_init_inv:
  assumes "cp_inv p" "sa_inv sa" shows "rt_inv (module_runtime_init (module_heap_init p m) sa)"
  using module_heap_init_ok [OF assms(1)] assms(2)
  by (auto simp: rt_inv_def owners_ok_def windows_ok_def module_runtime_init_def)


section \<open>Host windows\<close>

lemma fresh_not_held:
  assumes inv: "sa_inv sa" "sa_inv sa'" and regs: "set (sa_regions sa') = insert (addr, n) (set (sa_regions sa))"
    and fresh: "\<forall>x\<in>set (sa_regions sa). disjoint_regions (addr, n) x" and x: "x \<in> set (sa_regions sa)"
  shows "fst x \<noteq> addr"
proof
  assume "fst x = addr"
  moreover have "x \<in> set (sa_regions sa')" "(addr, n) \<in> set (sa_regions sa')" using x regs by auto
  ultimately have "x = (addr, n)" using sa_region_unique [OF inv(2), of x "(addr, n)"] by simp
  then show False using fresh x sa_region_facts(1) [OF inv(1) x] inv(1)
    by (fastforce simp: disjoint_regions_def before_def region_end_def sa_inv_def regions_ok_def)
qed

lemma window_gone:
  assumes inv: "rt_inv t" and none: "\<forall>x\<in>set (sa_regions (rt_surfaces t)). fst x \<noteq> unat addr" and owner: "owner \<noteq> 0"
  shows "module_host_window_free owner addr g t = (False, t)"
proof -
  obtain b u where b: "module_host_window_free owner addr g t = (b, u)" by fastforce
  note G = window_free_ok [OF inv b]
  have "\<not> b"
  proof
    assume b
    then obtain w where w: "w \<in> set (rt_windows t)" "rw_owner w = owner" "rw_address w = addr" using G by blast
    have "window_region w \<in> set (sa_regions (rt_surfaces t))"
      using windows_okD(4) [OF rt_invD(3) [OF inv] w(1)] w(2) owner by simp
    then show False using none w(3) by (fastforce simp: window_region_def)
  qed
  then show ?thesis using G b by simp
qed

text \<open>
  C30: a host window. A successful call returns a block of the window area that no
  client of the host-visible heap holds, at least as long and as aligned as asked; its
  handle frees it, once; and no earlier handle for that address is accepted.
\<close>

theorem module_window_fresh:
  assumes "rt_inv s" "owner \<noteq> 0" "unat (rt_window_gen s) + 1 < 4294967296"
    and "module_host_window_alloc z3 owner bytes alignment s = (Some out, s')"
  shows "unat SDK_MAILBOX_Z3_ADDRESS \<le> unat (hw_arm_address out) \<and>
    unat (hw_arm_address out) + unat (hw_bytes out) \<le> unat HOST_VISIBLE_HEAP_END \<and>
    unat bytes \<le> unat (hw_bytes out) \<and> unat alignment dvd unat (hw_arm_address out) \<and>
    (\<forall>x\<in>set (sa_regions (rt_surfaces s)). disjoint_regions (unat (hw_arm_address out), unat (hw_bytes out)) x) \<and>
    (\<exists>t. module_host_window_free owner (hw_arm_address out) (hw_generation out) s' = (True, t) \<and>
       set (sa_regions (rt_surfaces t)) = set (sa_regions (rt_surfaces s)) \<and>
       module_host_window_free owner (hw_arm_address out) (hw_generation out) t = (False, t)) \<and>
    (\<forall>user g. g \<le> rt_window_gen s \<longrightarrow> module_host_window_free user (hw_arm_address out) g s' = (False, s'))"
proof -
  let ?a = "hw_arm_address out" and ?n = "unat (hw_bytes out)" and ?g = "hw_generation out"
  note A = window_alloc_ok [OF assms(1-4), simplified]
  let ?w = "\<lparr>rw_owner = owner, rw_address = ?a, rw_bytes = hw_bytes out, rw_generation = ?g\<rparr>"
  obtain i where i: "i < 4" "rw_owner (rt_windows s ! i) = 0" "rt_windows s' = (rt_windows s)[i := ?w]" using A by auto
  have inv': "rt_inv s'" and regs: "set (sa_regions (rt_surfaces s')) = insert (unat ?a, ?n) (set (sa_regions (rt_surfaces s)))"
    and fresh: "\<forall>x\<in>set (sa_regions (rt_surfaces s)). disjoint_regions (unat ?a, ?n) x" using A by auto
  note W = windows_okD [OF rt_invD(3) [OF inv']] and W0 = windows_okD [OF rt_invD(3) [OF assms(1)]]
  have wm: "?w \<in> set (rt_windows s')" using i W0(1) by (simp add: set_update_memI)
  have only: "w = ?w" if "w \<in> set (rt_windows s')" "rw_owner w \<noteq> 0" "rw_address w = ?a" for w
    using window_unique [OF rt_invD(3) [OF inv'] that(1) wm that(2)] that(3) assms(2) by simp
  obtain ok t where t: "module_host_window_free owner ?a ?g s' = (ok, t)" by fastforce
  note F = window_free_ok [OF inv' t]
  have ok: "ok" using F wm assms(2) by force
  have nox: "\<forall>x\<in>set (sa_regions (rt_surfaces s)). fst x \<noteq> unat ?a"
    using fresh_not_held [OF rt_invD(4) [OF assms(1)] rt_invD(4) [OF inv'] regs fresh] by blast
  have same: "set (sa_regions (rt_surfaces t)) = set (sa_regions (rt_surfaces s))" using F ok regs nox by auto
  have stale: "module_host_window_free user ?a g s' = (False, s')" if g: "g \<le> rt_window_gen s" for user g
  proof -
    obtain b u where b: "module_host_window_free user ?a g s' = (b, u)" by fastforce
    have "g \<noteq> ?g" using A g by (auto simp: word_le_nat_alt)
    then have "\<not> b" using window_free_ok [OF inv' b] only by fastforce
    then show ?thesis using window_free_ok [OF inv' b] b by simp
  qed
  have twice: "module_host_window_free owner ?a ?g t = (False, t)"
    using F nox same by (intro window_gone) (auto simp: assms(2))
  have free: "module_host_window_free owner ?a ?g s' = (True, t)" using t ok by simp
  have area: "unat SDK_MAILBOX_Z3_ADDRESS \<le> unat ?a" "unat ?a + ?n \<le> unat HOST_VISIBLE_HEAP_END"
    "unat bytes \<le> ?n" "unat alignment dvd unat ?a" using A by simp_all
  show ?thesis
    by (intro conjI allI impI exI [of _ t]) (rule area fresh free same twice | erule stale)+
qed

section \<open>Which memory a module may touch\<close>

definition owner_holds :: "module_runtime \<Rightarrow> u32 \<Rightarrow> u32 \<Rightarrow> u32 \<Rightarrow> bool" where
  "owner_holds s owner address len \<longleftrightarrow>
     (\<exists>b\<in>set (cp_blocks (heap_pool (rt_heap s))). cpb_owner b = owner \<and>
        region_within (unat address, unat len) (cpb_region b)) \<or>
     (\<exists>w\<in>set (rt_windows s). rw_owner w = owner \<and> region_within (unat address, unat len) (window_region w))"

lemma window_has_region:
  assumes "unat (rw_address w) + unat (rw_bytes w) < 4294967296"
  shows "window_has owner address len w \<longleftrightarrow> rw_owner w = owner \<and> region_within (unat address, unat len) (window_region w)"
proof (cases "address \<ge> rw_address w")
  case True
  have o: "unat (address - rw_address w) = unat address - unat (rw_address w)"
    using True by (simp add: unat_minus_no_wrap word_le_nat_alt)
  have "address - rw_address w \<le> rw_bytes w \<and> len \<le> rw_bytes w - (address - rw_address w) \<longleftrightarrow>
      unat address + unat len \<le> unat (rw_address w) + unat (rw_bytes w)"
  proof (cases "address - rw_address w \<le> rw_bytes w")
    case le: True
    then have "unat (rw_bytes w - (address - rw_address w)) = unat (rw_bytes w) - (unat address - unat (rw_address w))"
      using o by (simp add: unat_minus_no_wrap word_le_nat_alt)
    then show ?thesis using le o True by (auto simp: word_le_nat_alt)
  qed (use o in \<open>simp add: word_le_nat_alt\<close>)
  then show ?thesis using True by (auto simp: window_has_def region_within_def window_region_def region_end_def word_le_nat_alt)
qed (auto simp: window_has_def region_within_def window_region_def word_le_nat_alt)

lemma range_owned_exact_iff:
  assumes inv: "rt_inv s" and arg: "address \<noteq> 0" "len \<noteq> 0" "owner \<noteq> 0"
  shows "range_owned_exact owner address len s \<longleftrightarrow> owner_holds s owner address len"
proof -
  note I = rt_invD [OF inv] and W = windows_okD [OF rt_invD(3) [OF inv]]
  have "unat (rw_address w) + unat (rw_bytes w) < 4294967296" if w: "w \<in> set (rt_windows s)" for w
  proof (cases "rw_owner w = 0")
    case True
    then show ?thesis using W(2) [OF w] by (simp add: window_empty_def)
  next
    case False
    then obtain b where "b \<in> set (sa_blocks (rt_surfaces s))" "window_region w = sab_region b"
      using W(4) [OF w] by (auto simp: sa_regions_def)
    then show ?thesis using sa_invD(3,7) [OF I(4)] by (fastforce simp: sa_block_in_def window_region_def sab_region_def)
  qed
  then have "(\<exists>w\<in>set (rt_windows s). window_has owner address len w) \<longleftrightarrow>
      (\<exists>w\<in>set (rt_windows s). rw_owner w = owner \<and> region_within (unat address, unat len) (window_region w))"
    using window_has_region by blast
  then show ?thesis using card_pool_range_owned_spec [OF heap_invD(2) [OF I(5)] arg]
    by (simp add: range_owned_exact_def owner_holds_def region_within_def cpb_region_def region_end_def)
qed

lemma owner_module_of_live:
  assumes inv: "rt_inv s" and r: "r \<in> set (rt_owners s)" "ro_owner r \<noteq> 0"
  shows "owner_module_id (ro_owner r) (rt_owners s) = ro_module_id r"
proof -
  note I = rt_invD [OF inv]
  have "low24 (ro_owner r) AND ZZM_MODULE_OWNER_TAG = 0" by (rule live_owner_untagged [OF inv live_mem [OF r]])
  moreover have "List.find (\<lambda>q. ro_owner q \<noteq> 0 \<and> ro_owner q AND 0x00ffffff = low24 (ro_owner r)) (rt_owners s) = Some r"
  proof (cases "List.find (\<lambda>q. ro_owner q \<noteq> 0 \<and> ro_owner q AND 0x00ffffff = low24 (ro_owner r)) (rt_owners s)")
    case None
    then show ?thesis using r by (auto simp: find_None_iff low24_def)
  next
    case (Some q)
    then have "q \<in> set (rt_owners s)" "ro_owner q \<noteq> 0" "low24 (ro_owner q) = low24 (ro_owner r)"
      using find_SomeD [OF Some] by (auto simp: low24_def)
    then show ?thesis using owner_unique [OF I(1) _ r(1)] Some by blast
  qed
  ultimately show ?thesis by (simp add: owner_module_id_def low24_def Let_def)
qed

lemma owner_module_of_base:
  assumes "unat m < 8388608" "w \<in> base_owners m cs" shows "owner_module_id w os = m"
proof -
  have "low24 w = low24 (ZZM_MODULE_OWNER m)" using assms(2) by (auto simp: base_owners_def)
  then show ?thesis using module_owner_forms [OF assms(1)] by (simp add: owner_module_id_def low24_def [symmetric] Let_def)
qed

text \<open>The module's own owners, by their two fields: the tagged instance and the pool class.\<close>

lemma owner_word_split: "push_bit 24 (drop_bit 24 w) OR low24 w = (w :: u32)"
proof -
  have "push_bit 24 (drop_bit 24 w) OR (w AND mask 24) = w" by (rule bit_word_eqI) (auto simp: bit_simps)
  then show ?thesis by (simp add: low24_def mask_eq_exp_minus_1)
qed

lemma module_card_owner_fields:
  "drop_bit 24 (module_card_owner x cls) = module_card_class cls" "module_card_owner x cls = push_bit 24 (module_card_class cls) OR low24 x"
proof -
  show e: "module_card_owner x cls = push_bit 24 (module_card_class cls) OR low24 x"
    by (simp add: module_card_owner_def CARD_POOL_OWNER_def low24_def and.assoc)
  have c: "module_card_class cls \<in> {1, 2, 3, 4, 9, 10, 11, 12, 13}"
    by (simp add: module_card_class_def CARD_POOL_CLASS_FIRMWARE_def)
  have "drop_bit 24 (low24 x) = 0" unfolding low24_def tag_forms(3) by (rule bit_word_eqI) (auto simp: bit_simps)
  moreover have "drop_bit 24 (push_bit 24 (module_card_class cls)) = module_card_class cls" using c by (elim insertE) simp_all
  ultimately show "drop_bit 24 (module_card_owner x cls) = module_card_class cls" by (simp add: e drop_bit_or)
qed

lemma low24_module_owner: "unat m < 8388608 \<Longrightarrow> low24 (ZZM_MODULE_OWNER m) = 0x00800000 OR m"
proof -
  assume m: "unat m < 8388608"
  have s: "m AND (ZZM_MODULE_OWNER_TAG - 1) = m"
    using take_bit_small [of m 23] m by (simp add: tag_forms(2) take_bit_eq_mask)
  then have "ZZM_MODULE_OWNER m = 0x00800000 OR m" by (simp add: ZZM_MODULE_OWNER_def ZZM_MODULE_OWNER_TAG_def)
  moreover have "low24 (0x00800000 OR m) = low24 0x00800000 OR low24 m" by (simp add: low24_def bit.conj_disj_distrib2)
  moreover have "low24 m = m" using m by (intro low24_small) simp
  moreover have "low24 0x00800000 = 0x00800000" by (rule low24_small) simp
  ultimately show ?thesis by simp
qed

lemma base_owner_words:
  assumes "unat m < 8388608"
  shows "w \<in> base_owners m base_classes \<longleftrightarrow> low24 w = 0x00800000 OR m \<and> drop_bit 24 w \<in> {1, 2, 3, 4, 9}"
proof -
  have cls: "module_card_class ` set base_classes = {1, 2, 3, 4, 9}"
    by (auto simp: base_classes_def module_card_class_def CARD_POOL_CLASS_FIRMWARE_def)
  have "w \<in> base_owners m base_classes \<longleftrightarrow>
      (\<exists>k\<in>module_card_class ` set base_classes. w = push_bit 24 k OR (0x00800000 OR m))"
    by (auto simp: base_owners_def module_card_owner_fields(2) low24_module_owner [OF assms])
  also have "\<dots> \<longleftrightarrow> low24 w = 0x00800000 OR m \<and> drop_bit 24 w \<in> module_card_class ` set base_classes"
  proof
    assume "\<exists>k\<in>module_card_class ` set base_classes. w = push_bit 24 k OR (0x00800000 OR m)"
    then obtain cls where c: "cls \<in> set base_classes" "w = module_card_owner (ZZM_MODULE_OWNER m) cls"
      by (auto simp: module_card_owner_fields(2) low24_module_owner [OF assms])
    then show "low24 w = 0x00800000 OR m \<and> drop_bit 24 w \<in> module_card_class ` set base_classes"
      by (simp add: module_card_owner_fields(1) low24_module_owner [OF assms])
  next
    assume "low24 w = 0x00800000 OR m \<and> drop_bit 24 w \<in> module_card_class ` set base_classes"
    then show "\<exists>k\<in>module_card_class ` set base_classes. w = push_bit 24 k OR (0x00800000 OR m)"
      using owner_word_split [of w] by metis
  qed
  finally show ?thesis unfolding cls .
qed

text \<open>
  C31: the guard on cache maintenance is exact. It admits a range exactly when one pool
  block or host window contains every byte of it, with no wrap at either end, and its
  holder is the calling owner, an owner in the table of the same module, or the module's own
  owner in pool class 1 (general), 2 (media), 3 (image), 4 (media input) or 9 (MiniGL module).
  A range held only by the module's own owner in another class (10 to 13, the MiniGL
  transport, context, application and RasterIX classes) is refused.
\<close>

theorem module_range_guard_exact:
  assumes "rt_inv s" "address \<noteq> 0" "len \<noteq> 0" "owner \<noteq> 0"
    and "unat (owner_module_id owner (rt_owners s)) < 8388608"
  defines "m \<equiv> owner_module_id owner (rt_owners s)"
  shows "(module_range_owned owner address len s \<longleftrightarrow>
    (\<exists>w. owner_holds s w address len \<and>
       (w = owner \<or> m \<noteq> 0 \<and>
          (w \<in> live_owners (rt_owners s) \<and> owner_module_id w (rt_owners s) = m \<or>
           low24 w = 0x00800000 OR m \<and> drop_bit 24 w \<in> {1, 2, 3, 4, 9})))) \<and>
    ((\<forall>w. owner_holds s w address len \<longrightarrow>
        w \<noteq> owner \<and> low24 w = 0x00800000 OR m \<and> drop_bit 24 w \<in> {10, 11, 12, 13}) \<longrightarrow>
      \<not> module_range_owned owner address len s)"
proof -
  note E = range_owned_exact_iff [OF assms(1-3)]
  have tab: "(\<exists>r\<in>set (rt_owners s). ro_owner r \<noteq> 0 \<and> ro_module_id r = m \<and> range_owned_exact (ro_owner r) address len s) \<longleftrightarrow>
      (\<exists>w\<in>live_owners (rt_owners s). owner_module_id w (rt_owners s) = m \<and> owner_holds s w address len)"
    using E owner_module_of_live [OF assms(1)] by (fastforce simp: live_owners_def)
  have "(\<exists>cls\<in>set base_classes. range_owned_exact (module_card_owner (ZZM_MODULE_OWNER m) cls) address len s) \<longleftrightarrow>
      (\<exists>w\<in>base_owners m base_classes. owner_holds s w address len)"
    using E module_card_owner_nonzero by (simp add: base_owners_def)
  also have "\<dots> \<longleftrightarrow> (\<exists>w\<in>base_owners m base_classes. owner_module_id w (rt_owners s) = m \<and> owner_holds s w address len)"
    using owner_module_of_base assms(5) m_def by blast
  finally have bas: "(\<exists>cls\<in>set base_classes. range_owned_exact (module_card_owner (ZZM_MODULE_OWNER m) cls) address len s) \<longleftrightarrow>
      (\<exists>w\<in>base_owners m base_classes. owner_module_id w (rt_owners s) = m \<and> owner_holds s w address len)" .
  have small: "unat m < 8388608" using assms(5) by (simp add: m_def)
  note words = base_owner_words [OF small]
  have untagged: "low24 w \<noteq> 0x00800000 OR m" if "w \<in> live_owners (rt_owners s)" for w
    using live_owner_untagged [OF assms(1) that] module_owner_forms(1) [OF small] low24_module_owner [OF small] by auto
  have id: "owner_module_id w (rt_owners s) = m" if "low24 w = 0x00800000 OR m" "drop_bit 24 w \<in> {1, 2, 3, 4, 9}" for w
    using owner_module_of_base [OF small] that words by blast
  have iff: "module_range_owned owner address len s \<longleftrightarrow> (\<exists>w. owner_holds s w address len \<and>
       (w = owner \<or> m \<noteq> 0 \<and> (w \<in> live_owners (rt_owners s) \<and> owner_module_id w (rt_owners s) = m \<or>
          low24 w = 0x00800000 OR m \<and> drop_bit 24 w \<in> {1, 2, 3, 4, 9})))"
    unfolding module_range_owned_def Let_def m_def [symmetric] tab bas E [OF assms(4)] using words id by auto
  have "\<not> module_range_owned owner address len s"
    if others: "\<forall>w. owner_holds s w address len \<longrightarrow>
        w \<noteq> owner \<and> low24 w = 0x00800000 OR m \<and> drop_bit 24 w \<in> {10, 11, 12, 13}"
  proof
    assume "module_range_owned owner address len s"
    then obtain w where w: "owner_holds s w address len" "w = owner \<or> w \<in> live_owners (rt_owners s) \<or> drop_bit 24 w \<in> {1, 2, 3, 4, 9}"
      unfolding iff by blast
    from others w(1) have o: "w \<noteq> owner" "low24 w = 0x00800000 OR m" "drop_bit 24 w \<in> {10, 11, 12, 13}" by blast+
    then have "w \<notin> live_owners (rt_owners s)" using untagged by blast
    with w(2) o(1,3) show False by auto
  qed
  with iff show ?thesis by (intro conjI impI) 
qed

section \<open>Closing owner 0 does not end\<close>

text \<open>
  An empty slot has owner 0 and parent 0, so a call with owner 0 finds itself as its
  own child. Nothing on the way from the module's service table rejects it.
\<close>

definition slot_empty :: "nat \<Rightarrow> module_runtime \<Rightarrow> bool" where
  "slot_empty i s \<longleftrightarrow> i < 32 \<and> length (rt_owners s) = 32 \<and> ro_owner (rt_owners s ! i) = 0 \<and> ro_parent (rt_owners s ! i) = 0"

lemma clear_owner_cases: "clear_owner a os = os \<or> (\<exists>k. clear_owner a os = os[k := owner_empty])"
  by (auto simp: clear_owner_def split: option.splits)

lemma update_empty: "i < length os \<Longrightarrow> os[k := owner_empty] ! i = os ! i \<or> os[k := owner_empty] ! i = owner_empty"
  by (cases "k = i") auto

lemma close_record_slot:
  assumes "slot_empty i s" shows "slot_empty i (snd (close_record a n s))"
proof -
  have "rt_owners (fold (close_window a) ks s) = rt_owners s" for ks by (induction ks arbitrary: s) simp_all
  moreover have "slot_empty i (t\<lparr>rt_heap := h, rt_owners := clear_owner a (rt_owners t)\<rparr>)" if "slot_empty i t" for t h
    using that clear_owner_cases [of a "rt_owners t"] update_empty [of i "rt_owners t"]
    by (auto simp: slot_empty_def) (metis owner_empty_simps)+
  ultimately show ?thesis using assms by (simp add: close_record_def case_prod_beta slot_empty_def Let_def)
qed

lemma close_slots_slot:
  assumes "\<And>a s n s'. rec a s = Some (n, s') \<Longrightarrow> slot_empty i s \<Longrightarrow> slot_empty i s'"
    and "close_slots rec P is n s = Some (n', s')" "slot_empty i s"
  shows "slot_empty i s'"
  using assms(2,3) by (induction "is" arbitrary: n s) (auto split: if_splits option.splits dest: assms(1))

lemma close_owner_slot: "module_close_owner f a s = Some (n, s') \<Longrightarrow> slot_empty i s \<Longrightarrow> slot_empty i s'"
proof (induction f arbitrary: a s n s')
  case (Suc f)
  obtain m t where t: "close_slots (module_close_owner f) (\<lambda>r. ro_parent r = a) [0..<32] 0 s = Some (m, t)"
      "(n, s') = close_record a m t" using Suc.prems(1) by (auto split: option.splits)
  have "slot_empty i t" by (rule close_slots_slot [OF Suc.IH t(1) Suc.prems(2)])
  then show ?case using close_record_slot [of i t a m] t(2) by (metis snd_conv)
qed simp

lemma close_zero_diverges:
  assumes "slot_empty i s" shows "module_close_owner f 0 s = None"
  using assms
proof (induction f arbitrary: s)
  case (Suc f)
  have "close_slots (module_close_owner f) (\<lambda>r. ro_parent r = 0) js n t = None"
    if "i \<in> set js" "slot_empty i t" for js n t
    using that
  proof (induction js arbitrary: n t)
    case (Cons j js)
    show ?case
    proof (cases "j = i")
      case True
      then show ?thesis using Suc.IH [OF Cons.prems(2)] Cons.prems(2) by (simp add: slot_empty_def)
    next
      case False
      then show ?thesis using Cons.prems close_owner_slot by (auto split: option.splits intro!: Cons.IH)
    qed
  qed simp
  from this [of "[0..<32]" s 0] show ?case using Suc.prems by (simp add: slot_empty_def)
qed simp

section \<open>The log limiter\<close>

fun log_run :: "u64 list \<Rightarrow> runtime_log \<Rightarrow> log_line list \<times> runtime_log" where
  "log_run [] st = ([], st)"
| "log_run (t # ts) st = (case log_slot t st of (xs, st1) \<Rightarrow> case log_run ts st1 of (ys, st2) \<Rightarrow> (xs @ ys, st2))"

text \<open>Within a second of the window start: 32 lines in all, the rest counted.\<close>

lemma log_burst:
  assumes "\<forall>t\<in>set ts. t - start < 1000000" "e \<le> 32" "length ts < 4294967264"
  shows "log_run ts \<lparr>rl_module_id = m, rl_window_start = start, rl_emitted = of_nat e, rl_suppressed = of_nat k\<rparr> =
    (replicate (min (32 - e) (length ts)) LogMessage,
     \<lparr>rl_module_id = m, rl_window_start = start, rl_emitted = of_nat (min 32 (e + length ts)),
      rl_suppressed = of_nat (k + (length ts - (32 - e)))\<rparr>)"
  using assms
proof (induction ts arbitrary: e k)
  case (Cons t ts)
  have ge: "\<not> t - start \<ge> 1000000" using Cons.prems(1) by (simp add: not_le)
  show ?case
  proof (cases "e = 32")
    case True
    then have "log_slot t \<lparr>rl_module_id = m, rl_window_start = start, rl_emitted = of_nat e, rl_suppressed = of_nat k\<rparr> =
        ([], \<lparr>rl_module_id = m, rl_window_start = start, rl_emitted = of_nat e, rl_suppressed = of_nat (Suc k)\<rparr>)"
      using ge by (simp add: log_slot_def Let_def add.commute)
    then show ?thesis using Cons.IH [of e "Suc k"] Cons.prems True by simp
  next
    case False
    then have e: "e < 32" using Cons.prems(2) by simp
    then have "\<not> (of_nat e :: u32) \<ge> 32" by (simp add: word_le_nat_alt unat_of_nat)
    then have "log_slot t \<lparr>rl_module_id = m, rl_window_start = start, rl_emitted = of_nat e, rl_suppressed = of_nat k\<rparr> =
        ([LogMessage], \<lparr>rl_module_id = m, rl_window_start = start, rl_emitted = of_nat (Suc e), rl_suppressed = of_nat k\<rparr>)"
      using ge by (simp add: log_slot_def Let_def add.commute)
    moreover have "min (32 - e) (Suc (length ts)) = Suc (min (32 - Suc e) (length ts))" using e by simp
    ultimately show ?thesis using Cons.IH [of "Suc e" k] Cons.prems e by simp
  qed
qed simp

section \<open>Concrete instances\<close>

text \<open>A module with an owner and a context below it.\<close>

abbreviation rt_boot :: module_runtime where
  "rt_boot \<equiv> module_runtime_init (module_heap_init card_pool_setup_card (\<lambda>_. \<lparr>hb_magic = 0, hb_bytes = 0, hb_next = 0\<rparr>)) sa_boot"

definition rt_demo :: module_runtime where
  "rt_demo = snd (module_create_owner 3 1 0x09000001 0x200000 (snd (module_create_owner 3 0x10 0 0x100000 rt_boot)))"

lemma rt_boot_inv: "rt_inv rt_boot"
  by (rule rt_init_inv [OF card_pool_setup_inv sa_boot_inv])

lemma rt_boot_gen: "rt_owner_gen rt_boot = 0" "rt_window_gen rt_boot = 0"
  by (simp_all add: module_runtime_init_def)

lemmas create_eval = module_create_owner_def owner_class_memory_class_def find_runtime_owner_def next_owner_gen_def
  module_card_owner_def module_card_class_def CARD_POOL_OWNER_def owner_empty_def module_runtime_init_def

lemma rt_demo_reached: "rt_step\<^sup>*\<^sup>* rt_boot rt_demo"
proof -
  let ?s = "snd (module_create_owner 3 0x10 0 0x100000 rt_boot)"
  have "rt_step rt_boot ?s" by (rule rt_step.create) (simp add: rt_boot_gen)
  moreover have "rt_step ?s rt_demo" unfolding rt_demo_def
    by (rule rt_step.create) (simp add: create_eval Let_def upt_rec)
  ultimately show ?thesis by simp
qed

lemma rt_demo_inv: "rt_inv rt_demo"
  using rt_demo_reached by (induction rule: rtranclp_induct) (use rt_boot_inv rt_step_inv in blast)+

lemma slot_list: "replicate 32 x = x # replicate 31 x" "replicate 31 x = x # replicate 30 x" "replicate 4 x = x # replicate 3 x"
  using replicate_Suc [of 31 x] replicate_Suc [of 30 x] replicate_Suc [of 3 x] by simp_all

lemma rt_first: "module_create_owner 3 0x10 0 0x100000 rt_boot = (Some 0x09000001, rt_boot\<lparr>rt_owner_gen := 1, rt_owners :=
   \<lparr>ro_owner = 0x09000001, ro_module_id = 3, ro_class = 0x10, ro_parent = 0, ro_quota = 0x100000, ro_refs = 1\<rparr> # replicate 31 owner_empty\<rparr>)"
  by (simp add: create_eval Let_def upt_conv_Cons slot_list(1))

lemma rt_second: "module_create_owner 3 1 0x09000001 0x200000 (snd (module_create_owner 3 0x10 0 0x100000 rt_boot)) = (Some 0x0B000002, rt_demo)"
  "rt_demo = rt_boot\<lparr>rt_owner_gen := 2, rt_owners :=
   \<lparr>ro_owner = 0x09000001, ro_module_id = 3, ro_class = 0x10, ro_parent = 0, ro_quota = 0x100000, ro_refs = 1\<rparr> #
   \<lparr>ro_owner = 0x0B000002, ro_module_id = 3, ro_class = 1, ro_parent = 0x09000001, ro_quota = 0x200000, ro_refs = 1\<rparr> # replicate 30 owner_empty\<rparr>"
proof -
  have e: "module_create_owner 3 1 0x09000001 0x200000 (snd (module_create_owner 3 0x10 0 0x100000 rt_boot)) = (Some 0x0B000002,
    rt_boot\<lparr>rt_owner_gen := 2, rt_owners :=
   \<lparr>ro_owner = 0x09000001, ro_module_id = 3, ro_class = 0x10, ro_parent = 0, ro_quota = 0x100000, ro_refs = 1\<rparr> #
   \<lparr>ro_owner = 0x0B000002, ro_module_id = 3, ro_class = 1, ro_parent = 0x09000001, ro_quota = 0x200000, ro_refs = 1\<rparr> # replicate 30 owner_empty\<rparr>)"
    unfolding rt_first
    by (simp add: create_eval Let_def upt_conv_Cons slot_list(2))
  then show "rt_demo = rt_boot\<lparr>rt_owner_gen := 2, rt_owners :=
   \<lparr>ro_owner = 0x09000001, ro_module_id = 3, ro_class = 0x10, ro_parent = 0, ro_quota = 0x100000, ro_refs = 1\<rparr> #
   \<lparr>ro_owner = 0x0B000002, ro_module_id = 3, ro_class = 1, ro_parent = 0x09000001, ro_quota = 0x200000, ro_refs = 1\<rparr> # replicate 30 owner_empty\<rparr>"
    by (simp only: rt_demo_def snd_conv)
  then show "module_create_owner 3 1 0x09000001 0x200000 (snd (module_create_owner 3 0x10 0 0x100000 rt_boot)) = (Some 0x0B000002, rt_demo)"
    using e by simp
qed

lemma owner_edges_Cons:
  "owner_edges (r # rs) = (if ro_owner r = 0 then {} else {(ro_owner r, ro_parent r)}) \<union> owner_edges rs"
  "owner_edges (replicate n owner_empty) = {}"
  by (auto simp: owner_edges_def)

lemma rt_demo_tree:
  "live_owners (rt_owners rt_demo) = {0x09000001, 0x0B000002}"
  "owner_edges (rt_owners rt_demo) = {(0x0B000002, 0x09000001), (0x09000001, 0)}"
  by (auto simp: rt_second(2) live_owners_def owner_edges_Cons)

lemma rt_demo_subtree: "owner_subtree (rt_owners rt_demo) 0x09000001 = {0x09000001, 0x0B000002}"
proof -
  have "owner_subtree (rt_owners rt_demo) 0x0B000002 = {0x0B000002}"
    by (subst subtree_unfold) (auto simp: rt_demo_tree)
  then show ?thesis by (subst subtree_unfold) (auto simp: rt_demo_tree)
qed

theorem module_close_takes_tree_witness:
  "\<exists>s'. module_close_owner 33 0x09000001 rt_demo = Some (held_bytes {0x09000001, 0x0B000002} rt_demo, s') \<and>
     live_owners (rt_owners s') = {}"
proof -
  obtain s' where "\<forall>f\<ge>33. module_close_owner f 0x09000001 rt_demo = Some (held_bytes {0x09000001, 0x0B000002} rt_demo, s')"
      "owners_closed {0x09000001, 0x0B000002} rt_demo s'"
    using module_close_takes_tree [OF rt_demo_inv, of "0x09000001"] by (auto simp: rt_demo_subtree)
  then show ?thesis by (intro exI [of _ s']) (simp add: owners_closed_def drop_owners_live rt_demo_tree del: module_close_owner.simps)
qed

theorem module_unload_takes_all_witness:
  "\<exists>freed s'. zzm_runtime_release_module 33 3 rt_demo = Some (freed, s') \<and> module_owners 3 s' = {}"
  using module_unload_takes_all [OF rt_demo_inv, of 3] by auto


lemma rt_demo_window: "\<exists>out s'. module_host_window_alloc True 0x09000001 3000 256 rt_demo = (Some out, s') \<and> hw_arm_address out = 0x08100000"
  by (simp add: rt_second(2) module_host_window_alloc_def find_runtime_owner_def upt_conv_Cons slot_list module_runtime_init_def
      window_empty_def sa_eval window_consts)

theorem module_window_fresh_witness:
  "\<exists>out s'. module_host_window_alloc True 0x09000001 3000 256 rt_demo = (Some out, s') \<and> hw_arm_address out = 0x08100000 \<and>
     3000 \<le> unat (hw_bytes out) \<and> module_host_window_free 0x09000001 0x08100000 0 s' = (False, s')"
proof -
  obtain out s' where w: "module_host_window_alloc True 0x09000001 3000 256 rt_demo = (Some out, s')" "hw_arm_address out = 0x08100000"
    using rt_demo_window by blast
  have "unat (rt_window_gen rt_demo) + 1 < 4294967296" by (simp add: rt_second(2) module_runtime_init_def)
  from module_window_fresh [OF rt_demo_inv _ this w(1)] w show ?thesis by (intro exI [of _ out] exI [of _ s']) simp
qed

definition rt_demo_mem :: module_runtime where
  "rt_demo_mem = snd (module_alloc_ex 0x0B000002 1 0x200000 0x18000 0 rt_demo)"

lemma rt_demo_alloc: "set (cp_blocks (heap_pool (rt_heap rt_demo_mem))) = {\<lparr>cpb_addr = 0x0B000000, cpb_size = 0x20000, cpb_owner = 0x0B000002\<rparr>}"
  "rt_owners rt_demo_mem = rt_owners rt_demo" "rt_windows rt_demo_mem = replicate 4 window_empty"
  by (simp_all add: rt_demo_mem_def module_alloc_ex_def find_runtime_owner_def rt_second(2) owner_class_memory_class_def
      module_owner_used_def minigl_used_def module_runtime_init_def module_heap_init_def card_pool_setup_eq cp_run_eval
      CARD_POOL_LIMIT_MINIGL_def upt_conv_Cons)

theorem module_range_guard_exact_witness:
  "module_range_owned 0x09000001 0x0B010000 0x10000 rt_demo_mem \<and> \<not> module_range_owned 0x09000001 0x0B010000 0x10001 rt_demo_mem"
proof -
  have inv: "rt_inv rt_demo_mem"
    unfolding rt_demo_mem_def by (rule rt_step_inv [OF rt_step.alloc_ex rt_demo_inv])
  have live: "live_owners (rt_owners rt_demo_mem) = {0x09000001, 0x0B000002}" using rt_demo_tree(1) rt_demo_alloc(2) by simp
  have id: "owner_module_id w (rt_owners rt_demo_mem) = 3" if "w \<in> {0x09000001, 0x0B000002}" for w
  proof -
    have "\<exists>r\<in>set (rt_owners rt_demo). ro_owner r = w \<and> ro_module_id r = 3" using that by (elim insertE) (simp_all add: rt_second(2))
    then obtain r where "r \<in> set (rt_owners rt_demo_mem)" "ro_owner r = w" "ro_module_id r = 3" using rt_demo_alloc(2) by auto
    moreover have "w \<noteq> 0" using that by auto
    ultimately show ?thesis using owner_module_of_live [OF inv] by metis
  qed
  have holds: "owner_holds rt_demo_mem 0x0B000002 0x0B010000 0x10000"
    by (simp add: owner_holds_def rt_demo_alloc region_within_def cpb_region_def region_end_def)
  have none: "\<not> owner_holds rt_demo_mem w 0x0B010000 0x10001" for w
    by (simp add: owner_holds_def rt_demo_alloc region_within_def cpb_region_def region_end_def window_region_def window_empty_def)
  have id1: "owner_module_id 0x09000001 (rt_owners rt_demo_mem) = 3" "owner_module_id 0x0B000002 (rt_owners rt_demo_mem) = 3" by (simp_all add: id)
  have nz: "(0x0B010000 :: u32) \<noteq> 0" "(0x10000 :: u32) \<noteq> 0" "(0x10001 :: u32) \<noteq> 0" "(0x09000001 :: u32) \<noteq> 0" by simp_all
  have small: "unat (owner_module_id 0x09000001 (rt_owners rt_demo_mem)) < 8388608" by (simp add: id1)
  note G = module_range_guard_exact [OF inv nz(1) _ nz(4) small, THEN conjunct1]
  have "module_range_owned 0x09000001 0x0B010000 0x10000 rt_demo_mem"
    unfolding G [OF nz(2)] id1 live by (rule exI [of _ "0x0B000002"]) (simp add: holds id1)
  moreover have "\<not> module_range_owned 0x09000001 0x0B010000 0x10001 rt_demo_mem"
    unfolding G [OF nz(3)] using none by simp
  ultimately show ?thesis by blast
qed

end
