(* ===== verification/SdkSurface.thy ===== *)
theory SdkSurface
  imports Intervals
begin

unbundle bit_operations_syntax

text \<open>
  Rectangle operations on pixel surfaces, \<^verbatim>\<open>sdk_surface.c\<close>: fill and copy. Memory is a
  map from 32-bit addresses to bytes, pointer arithmetic wraps at 32 bits as it does on
  the card. Both operations equal a closed form that says, for every byte of memory,
  what it holds afterwards; for the copy this includes a rectangle copied over itself.
\<close>

type_synonym ram = "u32 \<Rightarrow> u8"

definition sdk_surface_format_bytes :: "u32 \<Rightarrow> u32" where
  "sdk_surface_format_bytes format =
     (if format = 4 then 1 \<comment> \<open>INDEX8\<close>
      else if format = 1 \<or> format = 6 then 2 \<comment> \<open>RGB565, RGB555\<close>
      else if format = 8 then 3 \<comment> \<open>RGB888\<close>
      else if format = 2 \<or> format = 3 \<or> format = 7 then 4 \<comment> \<open>ARGB8888, RGBA8888, BGRA8888\<close>
      else 0)"

definition surface_rect_valid :: "u32 \<Rightarrow> u32 \<Rightarrow> u32 \<Rightarrow> u32 \<Rightarrow> u32 \<Rightarrow> u32 \<Rightarrow> u32 \<Rightarrow> u32 \<Rightarrow> bool" where
  "surface_rect_valid width height pitch bytes_per_pixel x y rect_width rect_height =
     (if bytes_per_pixel = 0 \<or> width = 0 \<or> height = 0 \<or> pitch = 0 \<or> rect_width = 0 \<or> rect_height = 0 then False
      else if x > width \<or> y > height \<or> rect_width > width - x \<or> rect_height > height - y then False
      else if rect_width > UINT32_MAX div bytes_per_pixel \<or> x > UINT32_MAX div bytes_per_pixel then False
      else \<not> (x * bytes_per_pixel > pitch \<or> rect_width * bytes_per_pixel > pitch - x * bytes_per_pixel))"

text \<open>The bytes \<^verbatim>\<open>write_pixel\<close> stores, from \<^verbatim>\<open>dst[0]\<close> up.\<close>

definition pixel_bytes :: "u32 \<Rightarrow> u32 \<Rightarrow> u8 list" where
  "pixel_bytes format color =
     (if format = 4 then [ucast color]
      else if format = 1 \<or> format = 6 then [ucast (drop_bit 8 color), ucast color]
      else if format = 2 then [ucast (drop_bit 24 color), ucast (drop_bit 16 color), ucast (drop_bit 8 color), ucast color]
      else if format = 3 then [ucast (drop_bit 16 color), ucast (drop_bit 8 color), ucast color, ucast (drop_bit 24 color)]
      else if format = 7 then [ucast color, ucast (drop_bit 8 color), ucast (drop_bit 16 color), ucast (drop_bit 24 color)]
      else if format = 8 then [ucast (drop_bit 16 color), ucast (drop_bit 8 color), ucast color]
      else [])"

fun store_bytes :: "u32 \<Rightarrow> u8 list \<Rightarrow> ram \<Rightarrow> ram" where
  "store_bytes a [] m = m"
| "store_bytes a (b # bs) m = store_bytes (a + 1) bs (m(a := b))"

definition write_pixel :: "u32 \<Rightarrow> u32 \<Rightarrow> u32 \<Rightarrow> ram \<Rightarrow> ram" where
  "write_pixel dst format color m = store_bytes dst (pixel_bytes format color) m"

text \<open>A rectangle operation returns whether it ran, and the memory after it.\<close>

definition sdk_surface_fill_rect :: "u32 \<Rightarrow> u32 \<Rightarrow> u32 \<Rightarrow> u32 \<Rightarrow> u32 \<Rightarrow> u32 \<Rightarrow> u32 \<Rightarrow> u32 \<Rightarrow> u32 \<Rightarrow> u32 \<Rightarrow> ram \<Rightarrow> bool \<times> ram" where
  "sdk_surface_fill_rect surface width height pitch format x y rect_width rect_height color m =
     (let bpp = sdk_surface_format_bytes format
      in if surface = 0 \<or> \<not> surface_rect_valid width height pitch bpp x y rect_width rect_height then (False, m)
         else (True, fold (\<lambda>row m. let dst_row = surface + (y + of_nat row) * pitch + x * bpp
                 in fold (\<lambda>col m. write_pixel (dst_row + of_nat col * bpp) format color m) [0..<unat rect_width] m)
               [0..<unat rect_height] m))"

definition memmove :: "u32 \<Rightarrow> u32 \<Rightarrow> u32 \<Rightarrow> ram \<Rightarrow> ram" where
  "memmove dst src n m = (\<lambda>a. if a - dst < n then m (src + (a - dst)) else m a)"

definition sdk_surface_copy_rect :: "u32 \<Rightarrow> u32 \<Rightarrow> u32 \<Rightarrow> u32 \<Rightarrow> u32 \<Rightarrow> u32 \<Rightarrow> u32 \<Rightarrow> u32 \<Rightarrow> u32 \<Rightarrow>
    u32 \<Rightarrow> u32 \<Rightarrow> u32 \<Rightarrow> u32 \<Rightarrow> u32 \<Rightarrow> u32 \<Rightarrow> ram \<Rightarrow> bool \<times> ram" where
  "sdk_surface_copy_rect dst dst_width dst_height dst_pitch src src_width src_height src_pitch format
       src_x src_y dst_x dst_y rect_width rect_height m =
     (let bpp = sdk_surface_format_bytes format
      in if dst = 0 \<or> src = 0 \<or>
            \<not> surface_rect_valid dst_width dst_height dst_pitch bpp dst_x dst_y rect_width rect_height \<or>
            \<not> surface_rect_valid src_width src_height src_pitch bpp src_x src_y rect_width rect_height
         then (False, m)
         else let row_bytes = rect_width * bpp; bottom_up = (dst = src \<and> dst_y > src_y)
         in (True, fold (\<lambda>row m. let copy_row = (if bottom_up then rect_height - 1 - of_nat row else of_nat row)
                in memmove (dst + (dst_y + copy_row) * dst_pitch + dst_x * bpp)
                           (src + (src_y + copy_row) * src_pitch + src_x * bpp) row_bytes m)
              [0..<unat rect_height] m))"

section \<open>The closed forms\<close>

text \<open>
  A byte of a surface is named by its offset from the surface's base: row
  \<open>off div pitch\<close>, byte \<open>off mod pitch\<close> of that row.
\<close>

definition in_rect :: "nat \<Rightarrow> nat \<Rightarrow> nat \<Rightarrow> nat \<Rightarrow> nat \<Rightarrow> nat \<Rightarrow> bool" where
  "in_rect pitch x_bytes y row_bytes rows off \<longleftrightarrow>
     y \<le> off div pitch \<and> off div pitch < y + rows \<and> x_bytes \<le> off mod pitch \<and> off mod pitch < x_bytes + row_bytes"

definition surface_span :: "u32 \<Rightarrow> u32 \<Rightarrow> u32 \<Rightarrow> region" where
  "surface_span base pitch height = (unat base, unat pitch * unat height)"

definition fill_reference :: "u32 \<Rightarrow> u32 \<Rightarrow> u32 \<Rightarrow> u32 \<Rightarrow> u32 \<Rightarrow> u32 \<Rightarrow> u32 \<Rightarrow> u32 \<Rightarrow> ram \<Rightarrow> ram" where
  "fill_reference surface pitch format x y rect_width rect_height color m =
     (\<lambda>a. let bpp = unat (sdk_surface_format_bytes format); off = unat (a - surface)
          in if in_rect (unat pitch) (unat x * bpp) (unat y) (unat rect_width * bpp) (unat rect_height) off
             then pixel_bytes format color ! ((off mod unat pitch - unat x * bpp) mod bpp)
             else m a)"

definition copy_reference :: "u32 \<Rightarrow> u32 \<Rightarrow> u32 \<Rightarrow> u32 \<Rightarrow> u32 \<Rightarrow> u32 \<Rightarrow> u32 \<Rightarrow> u32 \<Rightarrow> u32 \<Rightarrow> u32 \<Rightarrow> u32 \<Rightarrow> ram \<Rightarrow> ram" where
  "copy_reference dst dst_pitch src src_pitch format src_x src_y dst_x dst_y rect_width rect_height m =
     (\<lambda>a. let bpp = unat (sdk_surface_format_bytes format); off = unat (a - dst);
              row = off div unat dst_pitch - unat dst_y; byte = off mod unat dst_pitch - unat dst_x * bpp
          in if in_rect (unat dst_pitch) (unat dst_x * bpp) (unat dst_y) (unat rect_width * bpp) (unat rect_height) off
             then m (src + of_nat ((unat src_y + row) * unat src_pitch + (unat src_x * bpp + byte)))
             else m a)"

section \<open>Offsets\<close>

lemma unat_sub_of_nat:
  fixes w :: u32
  assumes "0 < n" "k + n \<le> 2 ^ 32"
  shows "unat (w - of_nat k) < n \<longleftrightarrow> k \<le> unat w \<and> unat w < k + n"
    and "unat (w - of_nat k) < n \<Longrightarrow> unat (w - of_nat k) = unat w - k"
proof -
  have k: "unat (of_nat k :: u32) = k" using assms by (simp add: unat_of_nat)
  show iff: "unat (w - of_nat k) < n \<longleftrightarrow> k \<le> unat w \<and> unat w < k + n"
    using assms by (auto simp: unat_sub_if' k)
  show "unat (w - of_nat k) < n \<Longrightarrow> unat (w - of_nat k) = unat w - k"
    using iff by (auto simp: unat_sub_if' k)
qed

lemma row_offset:
  fixes c n P r off :: nat
  assumes "c + n \<le> P" "0 < n"
  shows "r * P + c \<le> off \<and> off < r * P + c + n \<longleftrightarrow> off div P = r \<and> c \<le> off mod P \<and> off mod P < c + n"
proof -
  have P: "0 < P" using assms by linarith
  have off: "off = off div P * P + off mod P" by simp
  have "off div P = r" if "r * P + c \<le> off" "off < r * P + c + n"
    using that assms by (intro div_nat_eqI) (auto simp: mult.commute)
  then show ?thesis using off by (metis add_le_cancel_left add_less_cancel_left add.assoc)
qed

text \<open>The row of a rectangle at row \<open>r\<close>, byte \<open>c\<close>, as a test on offsets.\<close>

lemma row_test:
  fixes a base :: u32
  assumes "c + n \<le> P" "0 < n" "r * P + P \<le> 2 ^ 32"
  shows "unat (a - (base + of_nat (r * P + c))) < n \<longleftrightarrow>
      unat (a - base) div P = r \<and> c \<le> unat (a - base) mod P \<and> unat (a - base) mod P < c + n"
    and "unat (a - (base + of_nat (r * P + c))) < n \<Longrightarrow>
      unat (a - (base + of_nat (r * P + c))) = unat (a - base) mod P - c"
proof -
  have sub: "a - (base + of_nat (r * P + c)) = (a - base) - of_nat (r * P + c)"
    by (simp add: algebra_simps)
  have fits: "(r * P + c) + n \<le> 2 ^ 32" using assms by linarith
  show iff: "unat (a - (base + of_nat (r * P + c))) < n \<longleftrightarrow>
      unat (a - base) div P = r \<and> c \<le> unat (a - base) mod P \<and> unat (a - base) mod P < c + n"
    unfolding sub unat_sub_of_nat(1) [OF assms(2) fits] by (rule row_offset [OF assms(1,2)])
  assume lt: "unat (a - (base + of_nat (r * P + c))) < n"
  then have "unat (a - (base + of_nat (r * P + c))) = unat (a - base) - (r * P + c)"
    unfolding sub by (rule unat_sub_of_nat(2) [OF assms(2) fits])
  moreover have "unat (a - base) = r * P + unat (a - base) mod P"
    using lt iff by (metis div_mult_mod_eq)
  ultimately show "unat (a - (base + of_nat (r * P + c))) = unat (a - base) mod P - c" by linarith
qed

lemma format_bytes_cases:
  "unat (sdk_surface_format_bytes f) \<in> {0, 1, 2, 3, 4}"
  "length (pixel_bytes f color) = unat (sdk_surface_format_bytes f)"
  by (auto simp: sdk_surface_format_bytes_def pixel_bytes_def)

lemma rect_valid_facts:
  assumes "surface_rect_valid w h p b x y rw rh"
  shows "0 < unat b" "0 < unat rw" "0 < unat rh" "0 < unat p"
    "unat x + unat rw \<le> unat w" "unat y + unat rh \<le> unat h"
    "unat (x * b) = unat x * unat b" "unat (rw * b) = unat rw * unat b"
    "unat x * unat b + unat rw * unat b \<le> unat p"
proof -
  from assms have nz: "b \<noteq> 0" "rw \<noteq> 0" "rh \<noteq> 0" "p \<noteq> 0"
    and xy: "x \<le> w" "y \<le> h" "rw \<le> w - x" "rh \<le> h - y"
    and d: "rw \<le> UINT32_MAX div b" "x \<le> UINT32_MAX div b"
    and pp: "x * b \<le> p" "rw * b \<le> p - x * b"
    by (auto simp: surface_rect_valid_def split: if_splits)
  from nz show nz': "0 < unat b" "0 < unat rw" "0 < unat rh" "0 < unat p" by (auto simp: unat_gt_0)
  show "unat x + unat rw \<le> unat w" "unat y + unat rh \<le> unat h"
    using xy by (auto simp: word_le_nat_alt unat_minus_no_wrap)
  have nowrap: "unat (v * b) = unat v * unat b" if "v \<le> UINT32_MAX div b" for v :: u32
  proof -
    have "unat v \<le> 4294967295 div unat b" using that by (simp add: word_le_nat_alt unat_div)
    then have "unat v * unat b \<le> 4294967295 div unat b * unat b" by (rule mult_le_mono1)
    also have "\<dots> \<le> 4294967295" by simp
    finally show ?thesis by (simp add: unat_word_ariths)
  qed
  show "unat (x * b) = unat x * unat b" "unat (rw * b) = unat rw * unat b" using nowrap d by blast+
  with pp show "unat x * unat b + unat rw * unat b \<le> unat p"
    by (auto simp: word_le_nat_alt unat_minus_no_wrap)
qed

section \<open>Fill\<close>

lemma store_bytes_at:
  "length bs \<le> 2 ^ 32 \<Longrightarrow>
    store_bytes d bs m = (\<lambda>a. if unat (a - d) < length bs then bs ! unat (a - d) else m a)"
proof (induction bs arbitrary: d m)
  case Nil
  then show ?case by simp
next
  case (Cons b bs)
  have step: "unat (a - (d + 1)) = unat (a - d) - 1 \<and> 0 < unat (a - d)" if "a \<noteq> d" for a
  proof -
    have "a - d \<noteq> 0" using that by simp
    then have "unat (a - d - 1) = unat (a - d) - 1" "0 < unat (a - d)"
      by (simp_all add: unat_minus_one unat_gt_0)
    then show ?thesis by (simp add: algebra_simps)
  qed
  have zero: "unat (d - (d + 1)) = 4294967295" by (simp add: unsigned_minus_1_eq_mask mask_eq_exp_minus_1)
  show ?case
  proof
    fix a
    show "store_bytes d (b # bs) m a = (if unat (a - d) < length (b # bs) then (b # bs) ! unat (a - d) else m a)"
    proof (cases "a = d")
      case True
      with Cons zero show ?thesis by simp
    next
      case False
      with Cons step [OF False] show ?thesis by (auto simp: nth_Cons')
    qed
  qed
qed

text \<open>A row of \<open>k\<close> pixels is one repeating pattern.\<close>

lemma fill_columns:
  fixes d bpp :: u32
  assumes "length px = unat bpp" "0 < unat bpp" "k * unat bpp \<le> 2 ^ 32"
  shows "fold (\<lambda>col m. store_bytes (d + of_nat col * bpp) px m) [0..<k] m =
    (\<lambda>a. if unat (a - d) < k * unat bpp then px ! (unat (a - d) mod unat bpp) else m a)"
  using assms(3)
proof (induction k)
  case 0
  then show ?case by simp
next
  case (Suc k)
  define B where "B = unat bpp"
  have fits: "k * B + B \<le> 2 ^ 32" using Suc.prems by (simp add: B_def)
  have len: "length px \<le> 2 ^ 32" "length px = B" using assms(1) fits by (simp_all add: B_def)
  have addr: "d + of_nat k * bpp = d + of_nat (k * B)" by (simp add: B_def)
  have at: "unat (a - (d + of_nat k * bpp)) < B \<longleftrightarrow> k * B \<le> unat (a - d) \<and> unat (a - d) < k * B + B"
    "unat (a - (d + of_nat k * bpp)) < B \<Longrightarrow> unat (a - (d + of_nat k * bpp)) = unat (a - d) mod B" for a
  proof -
    have sub: "a - (d + of_nat k * bpp) = (a - d) - of_nat (k * B)" unfolding addr by (simp add: algebra_simps)
    show iff: "unat (a - (d + of_nat k * bpp)) < B \<longleftrightarrow> k * B \<le> unat (a - d) \<and> unat (a - d) < k * B + B"
      unfolding sub using assms(2) fits by (intro unat_sub_of_nat(1)) (simp_all add: B_def)
    assume lt: "unat (a - (d + of_nat k * bpp)) < B"
    then have eq: "unat (a - (d + of_nat k * bpp)) = unat (a - d) - k * B"
      unfolding sub using assms(2) fits by (intro unat_sub_of_nat(2)) (simp_all add: B_def)
    have "unat (a - d) = k * B + (unat (a - d) - k * B)" using lt iff by simp
    then have "unat (a - d) mod B = (unat (a - d) - k * B) mod B" by (metis mod_mult_self3)
    with eq lt show "unat (a - (d + of_nat k * bpp)) = unat (a - d) mod B" by simp
  qed
  have IH: "fold (\<lambda>col m. store_bytes (d + of_nat col * bpp) px m) [0..<k] m =
    (\<lambda>a. if unat (a - d) < k * B then px ! (unat (a - d) mod B) else m a)"
    using Suc.IH fits unfolding B_def by simp
  show ?case
  proof
    fix a
    have "fold (\<lambda>col m. store_bytes (d + of_nat col * bpp) px m) [0..<Suc k] m a =
      (if unat (a - (d + of_nat k * bpp)) < B then px ! unat (a - (d + of_nat k * bpp))
       else if unat (a - d) < k * B then px ! (unat (a - d) mod B) else m a)"
      unfolding upt_Suc_append [OF le0] fold_append o_apply IH
      by (simp only: fold_simps store_bytes_at [OF len(1)] len(2))
    with at [of a] show "fold (\<lambda>col m. store_bytes (d + of_nat col * bpp) px m) [0..<Suc k] m a =
      (if unat (a - d) < Suc k * unat bpp then px ! (unat (a - d) mod unat bpp) else m a)"
      unfolding B_def [symmetric] by auto
  qed
qed

lemma fill_rows:
  fixes surface :: u32
  assumes "c + n \<le> P" "0 < n" "(y + k) * P \<le> 2 ^ 32"
    and row: "\<And>d m. fill_row d m = (\<lambda>a. if unat (a - d) < n then px (unat (a - d)) else m a)"
  shows "fold (\<lambda>row m. fill_row (surface + of_nat ((y + row) * P + c)) m) [0..<k] m =
    (\<lambda>a. if in_rect P c y n k (unat (a - surface)) then px (unat (a - surface) mod P - c) else m a)"
  using assms(3)
proof (induction k)
  case 0
  have "\<not> in_rect P c y n 0 off" for off by (simp add: in_rect_def)
  then show ?case by simp
next
  case (Suc k)
  have fits: "(y + k) * P + P \<le> 2 ^ 32" using Suc.prems by simp
  note test = row_test [OF assms(1,2) fits, where base = surface]
  have IH: "fold (\<lambda>row m. fill_row (surface + of_nat ((y + row) * P + c)) m) [0..<k] m =
    (\<lambda>a. if in_rect P c y n k (unat (a - surface)) then px (unat (a - surface) mod P - c) else m a)"
    using Suc.IH fits by simp
  show ?case
  proof
    fix a
    have new: "in_rect P c y n (Suc k) (unat (a - surface)) \<longleftrightarrow>
      in_rect P c y n k (unat (a - surface)) \<or> unat (a - (surface + of_nat ((y + k) * P + c))) < n"
      unfolding test(1) by (auto simp: in_rect_def)
    have last_row: "fold (\<lambda>row m. fill_row (surface + of_nat ((y + row) * P + c)) m) [0..<Suc k] m a =
      (if unat (a - (surface + of_nat ((y + k) * P + c))) < n
       then px (unat (a - (surface + of_nat ((y + k) * P + c))))
       else if in_rect P c y n k (unat (a - surface)) then px (unat (a - surface) mod P - c) else m a)"
      unfolding upt_Suc_append [OF le0] fold_append o_apply IH by (simp only: fold_simps row)
    show "fold (\<lambda>row m. fill_row (surface + of_nat ((y + row) * P + c)) m) [0..<Suc k] m a =
      (if in_rect P c y n (Suc k) (unat (a - surface)) then px (unat (a - surface) mod P - c) else m a)"
      unfolding last_row new using test(2) by simp
  qed
qed

lemma fill_rect_eq:
  assumes "unat pitch * unat height \<le> 2 ^ 32"
  shows "sdk_surface_fill_rect surface width height pitch format x y rw rh color m =
    (if surface = 0 \<or> \<not> surface_rect_valid width height pitch (sdk_surface_format_bytes format) x y rw rh
     then (False, m) else (True, fill_reference surface pitch format x y rw rh color m))"
proof (cases "surface = 0 \<or> \<not> surface_rect_valid width height pitch (sdk_surface_format_bytes format) x y rw rh")
  case True
  then show ?thesis by (simp add: sdk_surface_fill_rect_def)
next
  case False
  define bpp where "bpp = sdk_surface_format_bytes format"
  define P B where "P = unat pitch" and "B = unat bpp"
  from False have "surface_rect_valid width height pitch bpp x y rw rh" by (simp add: bpp_def)
  note v = rect_valid_facts [OF this, folded P_def B_def]
  let ?px = "pixel_bytes format color"
  let ?row = "\<lambda>d m. fold (\<lambda>col m. store_bytes (d + of_nat col * bpp) ?px m) [0..<unat rw] m"
  have "(unat y + unat rh) * P \<le> unat height * P" by (intro mult_le_mono1 v)
  also have "\<dots> \<le> 2 ^ 32" using assms by (simp add: P_def mult.commute)
  finally have fits: "(unat y + unat rh) * P \<le> 2 ^ 32" .
  have "P \<le> 2 ^ 32" unfolding P_def by (rule order.trans [OF unat_le32]) simp
  then have "unat rw * B \<le> 2 ^ 32" using v(9) by linarith
  then have row: "?row d m = (\<lambda>a. if unat (a - d) < unat rw * B then ?px ! (unat (a - d) mod B) else m a)" for d m
    unfolding B_def using v(1) format_bytes_cases(2) by (intro fill_columns) (simp_all add: bpp_def B_def)
  have ref: "fill_reference surface pitch format x y rw rh color m =
      (\<lambda>a. if in_rect P (unat x * B) (unat y) (unat rw * B) (unat rh) (unat (a - surface))
           then ?px ! ((unat (a - surface) mod P - unat x * B) mod B) else m a)"
    unfolding fill_reference_def P_def B_def bpp_def Let_def ..
  have row_addr: "surface + of_nat ((unat y + row) * P + unat x * B) = surface + (y + of_nat row) * pitch + x * bpp" for row
    by (simp add: P_def B_def)
  have "fold (\<lambda>row m. ?row (surface + (y + of_nat row) * pitch + x * bpp) m) [0..<unat rh] m =
      fill_reference surface pitch format x y rw rh color m"
    unfolding row_addr [symmetric] ref by (rule fill_rows [OF v(9) _ fits row]) (use v in simp)
  then show ?thesis
    using False by (simp only: sdk_surface_fill_rect_def write_pixel_def bpp_def Let_def if_False)
qed

section \<open>Copy\<close>

text \<open>Blocks moved one after another, no block written over a later block's source.\<close>

lemma fold_memmove:
  assumes "sorted_wrt (\<lambda>r r'. \<forall>a. a - D r < n \<longrightarrow> \<not> a - D r' < n \<and> \<not> a - S r' < n) rs"
  shows "fold (\<lambda>r m. memmove (D r) (S r) n m) rs m =
    (\<lambda>a. case List.find (\<lambda>r. a - D r < n) rs of None \<Rightarrow> m a | Some r \<Rightarrow> m (S r + (a - D r)))"
  using assms
proof (induction rs arbitrary: m)
  case Nil
  then show ?case by simp
next
  case (Cons r rs)
  have clear: "\<not> a - D r' < n" "\<not> a - S r' < n" if "r' \<in> set rs" "a - D r < n" for r' a
    using Cons.prems that by auto
  show ?case
  proof
    fix a
    show "fold (\<lambda>r m. memmove (D r) (S r) n m) (r # rs) m a =
      (case List.find (\<lambda>r. a - D r < n) (r # rs) of None \<Rightarrow> m a | Some r \<Rightarrow> m (S r + (a - D r)))"
    proof (cases "List.find (\<lambda>r. a - D r < n) rs")
      case None
      then show ?thesis using Cons by (simp add: memmove_def)
    next
      case (Some r')
      then have r': "r' \<in> set rs" "a - D r' < n" by (auto dest: find_SomeD)
      have "\<not> S r' + (a - D r') - D r < n" using clear(2) [OF r'(1), of "S r' + (a - D r')"] r'(2) by auto
      moreover have "\<not> a - D r < n" using clear(1) [OF r'(1)] r'(2) by blast
      ultimately show ?thesis using Cons Some by (simp add: memmove_def)
    qed
  qed
qed

text \<open>The row a copy moves in step \<open>row\<close>: bottom row first when a surface is moved down itself.\<close>

definition copy_row :: "bool \<Rightarrow> nat \<Rightarrow> nat \<Rightarrow> nat" where
  "copy_row bottom_up rows row = (if bottom_up then rows - 1 - row else row)"

lemma copy_row_bij:
  "row < n \<Longrightarrow> copy_row b n row < n"
  "row < n \<Longrightarrow> copy_row b n (copy_row b n row) = row"
  by (auto simp: copy_row_def)

lemma rows_fit:
  fixes y k h P s :: nat
  assumes "y + k \<le> h" "s + P * h \<le> 2 ^ 32"
  shows "(y + k) * P \<le> 2 ^ 32"
proof -
  have "(y + k) * P \<le> P * h" using mult_le_mono1 [OF assms(1), of P] by (simp only: mult.commute)
  with assms(2) show ?thesis by linarith
qed

lemma copy_row_fits:
  assumes "(z + k) * P \<le> 2 ^ 32" "r < k"
  shows "(z + copy_row b k r) * P + P \<le> 2 ^ 32"
proof -
  have "Suc (z + copy_row b k r) * P \<le> (z + k) * P"
    using copy_row_bij(1) [OF assms(2), of b] by (intro mult_le_mono1) simp
  with assms(1) show ?thesis by simp
qed

text \<open>Bytes of a row lie in the surface's span.\<close>

lemma row_in_span:
  fixes a base :: u32
  assumes "unat (a - (base + of_nat (r * P + c))) < n" "c + n \<le> P" "0 < n" "r * P + P \<le> 2 ^ 32"
    and "r < h" "unat base + P * h \<le> 2 ^ 32"
  shows "unat a \<in> region_addrs (unat base, P * h)"
proof -
  have off: "unat (a - base) div P = r" "unat (a - base) mod P < P"
    using row_test(1) [OF assms(2-4)] assms(1,2) by (auto intro: less_le_trans)
  then have "unat (a - base) = r * P + unat (a - base) mod P" by (metis div_mult_mod_eq)
  moreover have "r * P + P \<le> P * h" using assms(5) by (metis Suc_leI add.commute mult.commute mult_Suc mult_le_mono2)
  ultimately have lt: "unat (a - base) < P * h" using off by linarith
  have "unat (base + (a - base)) = unat base + unat (a - base)"
    by (rule unat_plus_no_wrap) (use lt assms(6) in simp)
  then have "unat a = unat base + unat (a - base)" by simp
  with lt show ?thesis by (simp add: region_addrs_def region_end_def)
qed

lemma copy_order_same:
  fixes base :: u32
  assumes rows: "c + n \<le> P" "c' + n \<le> P" "0 < n" "(y + k) * P \<le> 2 ^ 32" "(y' + k) * P \<le> 2 ^ 32"
    and order: "if b then y' \<le> y else y \<le> y'" and r: "r < r'" "r' < k"
    and wr: "unat (a - (base + of_nat ((y + copy_row b k r) * P + c))) < n"
  shows "\<not> unat (a - (base + of_nat ((y' + copy_row b k r') * P + c'))) < n"
proof -
  have "y + copy_row b k r \<noteq> y' + copy_row b k r'"
    using r order by (auto simp: copy_row_def split: if_splits)
  moreover have "unat (a - base) div P = y + copy_row b k r"
    using wr row_test(1) [OF rows(1,3) copy_row_fits [OF rows(4) less_trans [OF r]], of a base b] by blast
  ultimately show ?thesis
    using row_test(1) [OF rows(2,3) copy_row_fits [OF rows(5) r(2), of b], of a base] by simp
qed

text \<open>The row found for a byte is the one its offset names.\<close>

lemma find_copy_row:
  fixes a base :: u32
  assumes "c + n \<le> P" "0 < n" "(y + k) * P \<le> 2 ^ 32"
  shows "List.find (\<lambda>r. unat (a - (base + of_nat ((y + copy_row b k r) * P + c))) < n) [0..<k] =
    (if in_rect P c y n k (unat (a - base))
     then Some (copy_row b k (unat (a - base) div P - y)) else None)"
proof -
  define off where "off = unat (a - base)"
  have test: "unat (a - (base + of_nat ((y + copy_row b k r) * P + c))) < n \<longleftrightarrow>
      off div P = y + copy_row b k r \<and> c \<le> off mod P \<and> off mod P < c + n" if "r < k" for r
    using row_test(1) [OF assms(1,2) copy_row_fits [OF assms(3) that]] by (simp add: off_def)
  show ?thesis
    unfolding off_def [symmetric]
  proof (cases "in_rect P c y n k off")
    case True
    define r where "r = copy_row b k (off div P - y)"
    have inv: "r < k" "copy_row b k r = off div P - y"
      using True copy_row_bij [of "off div P - y" k b] by (auto simp: in_rect_def r_def)
    have uniq: "unat (a - (base + of_nat ((y + copy_row b k r') * P + c))) < n \<longleftrightarrow> r' = r" if "r' < k" for r'
    proof
      assume "unat (a - (base + of_nat ((y + copy_row b k r') * P + c))) < n"
      then have "off div P = y + copy_row b k r'" unfolding test [OF that] by (rule conjunct1)
      with inv(2) have "copy_row b k r' = copy_row b k r" by linarith
      then have "copy_row b k (copy_row b k r') = copy_row b k (copy_row b k r)" by (rule arg_cong)
      then show "r' = r" by (simp only: copy_row_bij(2) [OF that] copy_row_bij(2) [OF inv(1)])
    next
      assume "r' = r"
      with test [OF inv(1)] inv(2) True
      show "unat (a - (base + of_nat ((y + copy_row b k r') * P + c))) < n" by (simp add: in_rect_def)
    qed
    have "List.find (\<lambda>r'. unat (a - (base + of_nat ((y + copy_row b k r') * P + c))) < n) [0..<k] = Some r"
      unfolding find_Some_iff using inv(1) uniq by (intro exI [of _ r]) auto
    with True show "List.find (\<lambda>r. unat (a - (base + of_nat ((y + copy_row b k r) * P + c))) < n) [0..<k] =
      (if in_rect P c y n k off then Some (copy_row b k (off div P - y)) else None)"
      by (simp add: r_def)
  next
    case False
    have "\<not> unat (a - (base + of_nat ((y + copy_row b k r) * P + c))) < n" if "r < k" for r
      using test [OF that] False copy_row_bij(1) [OF that, of b] by (auto simp: in_rect_def)
    with False show "List.find (\<lambda>r. unat (a - (base + of_nat ((y + copy_row b k r) * P + c))) < n) [0..<k] =
      (if in_rect P c y n k off then Some (copy_row b k (off div P - y)) else None)"
      by (simp add: find_None_iff)
  qed
qed

lemma copy_order:
  fixes dst src :: u32
  assumes rows: "c + n \<le> P" "c' + n \<le> P'" "0 < n" "y + k \<le> h" "y' + k \<le> h'"
    and fits: "unat dst + P * h \<le> 2 ^ 32" "unat src + P' * h' \<le> 2 ^ 32"
    and apart: "dst = src \<and> P = P' \<and> (if b then y' \<le> y else y \<le> y') \<or>
      disjoint_regions (unat dst, P * h) (unat src, P' * h')"
    and r: "r < r'" "r' < k"
    and wr: "unat (a - (dst + of_nat ((y + copy_row b k r) * P + c))) < n"
  shows "\<not> unat (a - (dst + of_nat ((y + copy_row b k r') * P + c))) < n"
    and "\<not> unat (a - (src + of_nat ((y' + copy_row b k r') * P' + c'))) < n"
proof -
  have k: "r < k" using r by simp
  have f: "(y + k) * P \<le> 2 ^ 32" "(y' + k) * P' \<le> 2 ^ 32"
    using rows_fit [OF rows(4) fits(1)] rows_fit [OF rows(5) fits(2)] by blast+
  show "\<not> unat (a - (dst + of_nat ((y + copy_row b k r') * P + c))) < n"
    by (rule copy_order_same [OF rows(1,1,3) f(1,1) _ r wr]) simp
  from apart show "\<not> unat (a - (src + of_nat ((y' + copy_row b k r') * P' + c'))) < n"
  proof
    assume same: "dst = src \<and> P = P' \<and> (if b then y' \<le> y else y \<le> y')"
    then have s: "dst = src" "P = P'" "if b then y' \<le> y else y \<le> y'" by blast+
    have "\<not> unat (a - (dst + of_nat ((y' + copy_row b k r') * P + c'))) < n"
      using rows(2) f(2) unfolding s(2) [symmetric] by (rule copy_order_same [OF rows(1) _ rows(3) f(1) _ s(3) r wr])
    then show ?thesis unfolding s(1,2) .
  next
    assume dis: "disjoint_regions (unat dst, P * h) (unat src, P' * h')"
    have "unat a \<in> region_addrs (unat dst, P * h)"
      using copy_row_bij(1) [OF k, of b] rows(4)
      by (intro row_in_span [OF wr rows(1,3) copy_row_fits [OF f(1) k] _ fits(1)]) simp
    moreover have "unat a \<in> region_addrs (unat src, P' * h')"
      if "unat (a - (src + of_nat ((y' + copy_row b k r') * P' + c'))) < n"
      using copy_row_bij(1) [OF r(2), of b] rows(5)
      by (intro row_in_span [OF that rows(2,3) copy_row_fits [OF f(2) r(2)] _ fits(2)]) simp
    ultimately show ?thesis using disjoint_regions_addrs [OF dis] by blast
  qed
qed

lemma copy_rows_reference:
  fixes dst src format :: u32
  defines "bpp \<equiv> sdk_surface_format_bytes format"
  assumes fits: "unat dst + unat dst_pitch * unat dst_height \<le> 2 ^ 32" "unat src + unat src_pitch * unat src_height \<le> 2 ^ 32"
    and apart: "dst = src \<and> dst_pitch = src_pitch \<or>
      disjoint_regions (surface_span dst dst_pitch dst_height) (surface_span src src_pitch src_height)"
    and valid: "surface_rect_valid dst_width dst_height dst_pitch bpp dst_x dst_y rw rh"
      "surface_rect_valid src_width src_height src_pitch bpp src_x src_y rw rh"
    and b: "b \<longleftrightarrow> dst = src \<and> dst_y > src_y"
  shows "fold (\<lambda>row m. memmove (dst + (dst_y + (if b then rh - 1 - of_nat row else of_nat row)) * dst_pitch + dst_x * bpp)
       (src + (src_y + (if b then rh - 1 - of_nat row else of_nat row)) * src_pitch + src_x * bpp) (rw * bpp) m)
     [0..<unat rh] m = copy_reference dst dst_pitch src src_pitch format src_x src_y dst_x dst_y rw rh m"
proof -
  define B P P' k n where "B = unat bpp" and "P = unat dst_pitch" and "P' = unat src_pitch" and "k = unat rh"
    and "n = unat rw * B"
  note v = rect_valid_facts [OF valid(1), folded B_def P_def k_def]
  note v' = rect_valid_facts [OF valid(2), folded B_def P'_def k_def]
  define D where "D = (\<lambda>row. dst + of_nat ((unat dst_y + copy_row b k row) * P + unat dst_x * B))"
  define S where "S = (\<lambda>row. src + of_nat ((unat src_y + copy_row b k row) * P' + unat src_x * B))"
  have n: "n = unat (rw * bpp)" "0 < n" using v by (simp_all add: n_def)
  have lt: "w < rw * bpp \<longleftrightarrow> unat w < n" for w by (simp add: word_less_nat_alt n)
  have row: "(if b then rh - 1 - of_nat r else of_nat r) = (of_nat (copy_row b k r) :: u32)" if "r < k" for r
    using that by (simp add: copy_row_def k_def of_nat_diff unat_gt_0)
  have fold_eq: "fold (\<lambda>row m. memmove (dst + (dst_y + (if b then rh - 1 - of_nat row else of_nat row)) * dst_pitch + dst_x * bpp)
       (src + (src_y + (if b then rh - 1 - of_nat row else of_nat row)) * src_pitch + src_x * bpp) (rw * bpp) m)
     [0..<unat rh] m = fold (\<lambda>r m. memmove (D r) (S r) (rw * bpp) m) [0..<k] m"
    unfolding k_def [symmetric]
    by (rule fold_cong [OF refl refl])
      (simp add: row D_def S_def P_def P'_def B_def algebra_simps)
  have apart': "dst = src \<and> P = P' \<and> (if b then unat src_y \<le> unat dst_y else unat dst_y \<le> unat src_y) \<or>
      disjoint_regions (unat dst, P * unat dst_height) (unat src, P' * unat src_height)"
    using apart b by (auto simp: surface_span_def P_def P'_def word_less_nat_alt)
  have order: "sorted_wrt (\<lambda>r r'. \<forall>a. a - D r < rw * bpp \<longrightarrow> \<not> a - D r' < rw * bpp \<and> \<not> a - S r' < rw * bpp) [0..<k]"
    unfolding sorted_wrt_iff_nth_less lt D_def S_def
    using copy_order [OF v(9) [folded n_def] v'(9) [folded n_def] n(2) v(6) v'(6) _ _ apart'] fits
    by (simp add: P_def P'_def)
  have height: "(unat dst_y + k) * P \<le> 2 ^ 32"
    by (rule rows_fit [OF v(6) fits(1) [folded P_def]])
  have find_row: "List.find (\<lambda>r. a - D r < rw * bpp) [0..<k] =
      (if in_rect P (unat dst_x * B) (unat dst_y) n k (unat (a - dst))
       then Some (copy_row b k (unat (a - dst) div P - unat dst_y)) else None)" for a
    unfolding lt D_def by (rule find_copy_row [OF v(9) [folded n_def] n(2) height])
  have src_byte: "S (copy_row b k (unat (a - dst) div P - unat dst_y)) + (a - D (copy_row b k (unat (a - dst) div P - unat dst_y))) =
      src + of_nat ((unat src_y + (unat (a - dst) div P - unat dst_y)) * P' + (unat src_x * B + (unat (a - dst) mod P - unat dst_x * B)))"
    if inr: "in_rect P (unat dst_x * B) (unat dst_y) n k (unat (a - dst))" for a
  proof -
    define r where "r = unat (a - dst) div P - unat dst_y"
    have rk: "r < k" "unat (a - dst) div P = unat dst_y + r" using inr by (auto simp: in_rect_def r_def)
    note inv = copy_row_bij(2) [OF rk(1), of b]
    have f: "(unat dst_y + r) * P + P \<le> 2 ^ 32"
      using copy_row_fits [OF height copy_row_bij(1) [OF rk(1), of b], of b] by (simp add: inv)
    have test: "unat (a - D (copy_row b k r)) < n"
      unfolding D_def inv using row_test(1) [OF v(9) [folded n_def] n(2) f] inr rk by (simp add: in_rect_def)
    then have "unat (a - D (copy_row b k r)) = unat (a - dst) mod P - unat dst_x * B"
      unfolding D_def inv by (rule row_test(2) [OF v(9) [folded n_def] n(2) f])
    then have "a - D (copy_row b k r) = of_nat (unat (a - dst) mod P - unat dst_x * B)"
      by (metis of_nat_unat ucast_id)
    then show ?thesis by (simp add: r_def [symmetric] S_def inv)
  qed
  show ?thesis unfolding fold_eq fold_memmove [OF order] find_row
    by (rule ext) (use src_byte in \<open>simp add: copy_reference_def Let_def P_def P'_def B_def n_def k_def bpp_def\<close>)
qed

lemma copy_rect_eq:
  assumes "unat dst + unat dst_pitch * unat dst_height \<le> 2 ^ 32" "unat src + unat src_pitch * unat src_height \<le> 2 ^ 32"
    and "dst = src \<and> dst_pitch = src_pitch \<or>
      disjoint_regions (surface_span dst dst_pitch dst_height) (surface_span src src_pitch src_height)"
  shows "sdk_surface_copy_rect dst dst_width dst_height dst_pitch src src_width src_height src_pitch format
      src_x src_y dst_x dst_y rw rh m =
    (if dst = 0 \<or> src = 0 \<or>
        \<not> surface_rect_valid dst_width dst_height dst_pitch (sdk_surface_format_bytes format) dst_x dst_y rw rh \<or>
        \<not> surface_rect_valid src_width src_height src_pitch (sdk_surface_format_bytes format) src_x src_y rw rh
     then (False, m)
     else (True, copy_reference dst dst_pitch src src_pitch format src_x src_y dst_x dst_y rw rh m))"
proof (cases "dst = 0 \<or> src = 0 \<or>
    \<not> surface_rect_valid dst_width dst_height dst_pitch (sdk_surface_format_bytes format) dst_x dst_y rw rh \<or>
    \<not> surface_rect_valid src_width src_height src_pitch (sdk_surface_format_bytes format) src_x src_y rw rh")
  case True
  then show ?thesis by (simp add: sdk_surface_copy_rect_def Let_def)
next
  case False
  then have valid: "surface_rect_valid dst_width dst_height dst_pitch (sdk_surface_format_bytes format) dst_x dst_y rw rh"
    "surface_rect_valid src_width src_height src_pitch (sdk_surface_format_bytes format) src_x src_y rw rh" by blast+
  with False show ?thesis
    by (simp only: sdk_surface_copy_rect_def Let_def copy_rows_reference [OF assms valid refl] if_False)
qed

text \<open>Whatever the source is, only the destination rectangle is written.\<close>

lemma fold_memmove_frame:
  "(\<And>r. r \<in> set rs \<Longrightarrow> \<not> a - D r < n) \<Longrightarrow> fold (\<lambda>r m. memmove (D r) (S r) n m) rs m a = m a"
  by (induction rs arbitrary: m) (auto simp: memmove_def)

lemma copy_rect_frame:
  assumes fits: "unat dst_pitch * unat dst_height \<le> 2 ^ 32"
    and run: "sdk_surface_copy_rect dst dst_width dst_height dst_pitch src src_width src_height src_pitch format
      src_x src_y dst_x dst_y rw rh m = (ok, m')"
    and a: "\<not> unat (a - dst) < unat dst_pitch * unat dst_height"
  shows "m' a = m a"
proof (cases ok)
  case False
  then show ?thesis using run by (auto simp: sdk_surface_copy_rect_def Let_def split: if_splits)
next
  case True
  define bpp where "bpp = sdk_surface_format_bytes format"
  define cr where "cr = (\<lambda>row. if dst = src \<and> dst_y > src_y then rh - 1 - of_nat row else (of_nat row :: u32))"
  from run True have valid: "surface_rect_valid dst_width dst_height dst_pitch bpp dst_x dst_y rw rh"
    and m': "m' = fold (\<lambda>row m. memmove (dst + (dst_y + cr row) * dst_pitch + dst_x * bpp)
        (src + (src_y + cr row) * src_pitch + src_x * bpp) (rw * bpp) m) [0..<unat rh] m"
    by (auto simp: sdk_surface_copy_rect_def Let_def bpp_def cr_def split: if_splits)
  note v = rect_valid_facts [OF valid]
  have "\<not> a - (dst + (dst_y + cr row) * dst_pitch + dst_x * bpp) < rw * bpp" if "row < unat rh" for row
  proof
    define r where "r = unat (cr row)"
    have r: "r < unat rh" "cr row = of_nat r"
    proof -
      have "row < 4294967296" using that unat_lt32 [of rh] by linarith
      then have "unat (of_nat row :: u32) = row" by (simp add: unat_of_nat)
      then show "r < unat rh" using that v(3)
        by (auto simp: r_def cr_def unat_sub_if' unat_gt_0)
      show "cr row = of_nat r" by (simp add: r_def)
    qed
    assume lt: "a - (dst + (dst_y + cr row) * dst_pitch + dst_x * bpp) < rw * bpp"
    have addr: "dst + (dst_y + cr row) * dst_pitch + dst_x * bpp =
        dst + of_nat ((unat dst_y + r) * unat dst_pitch + unat dst_x * unat bpp)"
      by (simp add: r(2))
    have fit: "(unat dst_y + r) * unat dst_pitch + unat dst_pitch \<le> unat dst_pitch * unat dst_height"
    proof -
      have "Suc (unat dst_y + r) * unat dst_pitch \<le> unat dst_height * unat dst_pitch"
        using v(6) r(1) by (intro mult_le_mono1) simp
      then show ?thesis by (simp add: mult.commute)
    qed
    have pos: "0 < unat rw * unat bpp" using v by simp
    have t: "unat (a - (dst + of_nat ((unat dst_y + r) * unat dst_pitch + unat dst_x * unat bpp))) < unat rw * unat bpp"
      using lt v(8) unfolding addr by (simp add: word_less_nat_alt)
    then have "unat (a - dst) div unat dst_pitch = unat dst_y + r \<and> unat (a - dst) mod unat dst_pitch < unat dst_pitch"
      using row_test(1) [OF v(9) pos order.trans [OF fit fits], of a dst] v(9) by (auto intro: less_le_trans)
    then have "unat (a - dst) < (unat dst_y + r) * unat dst_pitch + unat dst_pitch"
      by (metis add_less_cancel_left div_mult_mod_eq)
    with fit a show False by linarith
  qed
  then show ?thesis unfolding m' by (intro fold_memmove_frame) simp
qed

section \<open>What the operations do\<close>

text \<open>
  copying a rectangle is exact, also when a surface is copied over itself: with both
  surfaces inside the address space, and either the same surface (then with one pitch) or
  two that share no byte, every byte of the destination rectangle holds the byte the source
  rectangle had there before the call, whichever way the rectangles overlap, and every other
  byte of memory keeps its value. The row order and the row-wise \<^verbatim>\<open>memmove\<close> of the loop are
  not visible in the result.
\<close>

theorem copy_rect_reference:
  assumes "unat dst + unat dst_pitch * unat dst_height \<le> 2 ^ 32" "unat src + unat src_pitch * unat src_height \<le> 2 ^ 32"
    and "dst = src \<and> dst_pitch = src_pitch \<or>
      disjoint_regions (surface_span dst dst_pitch dst_height) (surface_span src src_pitch src_height)"
  shows "sdk_surface_copy_rect dst dst_width dst_height dst_pitch src src_width src_height src_pitch format
      src_x src_y dst_x dst_y rw rh m =
    (if dst = 0 \<or> src = 0 \<or>
        \<not> surface_rect_valid dst_width dst_height dst_pitch (sdk_surface_format_bytes format) dst_x dst_y rw rh \<or>
        \<not> surface_rect_valid src_width src_height src_pitch (sdk_surface_format_bytes format) src_x src_y rw rh
     then (False, m)
     else (True, copy_reference dst dst_pitch src src_pitch format src_x src_y dst_x dst_y rw rh m))"
  using assms by (rule copy_rect_eq)

text \<open>
  filling a rectangle paints exactly that rectangle: whenever the surface fits the
  address space the call succeeds on a valid rectangle, every pixel inside it holds the
  colour in the format's byte order, every other byte of memory keeps its value, and on
  an invalid rectangle the call fails and memory is untouched.
\<close>

theorem fill_rect_exact:
  assumes "unat pitch * unat height \<le> 2 ^ 32"
  shows "sdk_surface_fill_rect surface width height pitch format x y rw rh color m =
    (if surface = 0 \<or> \<not> surface_rect_valid width height pitch (sdk_surface_format_bytes format) x y rw rh
     then (False, m) else (True, fill_reference surface pitch format x y rw rh color m))"
  using assms by (rule fill_rect_eq)

section \<open>Applied\<close>

text \<open>An 8 by 4 INDEX8 surface at 0x1000, byte \<open>a\<close> of memory holding \<open>ucast a\<close>.\<close>

lemma fill_rect_exact_witness:
  "sdk_surface_fill_rect 0x1000 8 4 8 4 2 1 3 2 0xAB ucast =
    (True, fill_reference 0x1000 8 4 2 1 3 2 0xAB ucast) \<and>
   fill_reference 0x1000 8 4 2 1 3 2 0xAB ucast 0x100A = 0xAB \<and>
   fill_reference 0x1000 8 4 2 1 3 2 0xAB ucast 0x100D = 0x0D"
  by (subst fill_rect_exact)
    (simp_all add: surface_rect_valid_def sdk_surface_format_bytes_def fill_reference_def in_rect_def pixel_bytes_def Let_def)

text \<open>The rectangle (0,0)-(2,2) copied one pixel down and right over itself: byte 0x1009 is
  both overwritten and read, and the byte it held goes to 0x1012.\<close>

lemma copy_rect_reference_witness:
  "(let r = sdk_surface_copy_rect 0x1000 8 4 8 0x1000 8 4 8 4 0 0 1 1 2 2 ucast
    in fst r \<and> snd r 0x1009 = 0x00 \<and> snd r 0x1012 = 0x09 \<and> snd r 0x1000 = 0x00)"
  by (subst copy_rect_reference)
    (simp_all add: surface_rect_valid_def sdk_surface_format_bytes_def copy_reference_def in_rect_def Let_def)

end
