(* ===== verification/SdkBuffers.thy ===== *)
theory SdkBuffers
  imports SurfaceAllocator CardPool ApertureLayout SdkSurface
begin

unbundle bit_operations_syntax

text \<open>
  The shared buffers and surfaces of the SDK mailbox, \<^verbatim>\<open>sdk_mailbox.c\<close>: two handle
  tables over three kinds of storage (the host-visible heap, the card pool and the host
  window) and the requests that allocate, free, fill and copy them. A request is its
  payload bytes and length; its reply is a status or the record the completion carries.
\<close>

section \<open>Model\<close>

record shared_buffer =
  bf_handle :: u32
  bf_address :: u32
  bf_length :: u32
  bf_flags :: u32
  bf_pins :: u32
  bf_owner :: u32
  bf_in_use :: bool

record sdk_surface =
  sf_handle :: u32
  sf_address :: u32
  sf_width :: u32
  sf_height :: u32
  sf_pitch :: u32
  sf_format :: u32
  sf_flags :: u32
  sf_length :: u32
  sf_owner :: u32
  sf_in_use :: bool

text \<open>The part of \<^verbatim>\<open>ZZ_VIDEO_STATE\<close> and of the mode table that the framebuffer surface reads.\<close>

record video_view =
  vv_framebuffer :: u32
  vv_pan_offset :: u32
  vv_pan_width :: u32
  vv_hsize :: u32
  vv_vsize :: u32
  vv_vdma_rows :: u32
  vv_video_mode :: u32
  vv_colormode :: u32
  vv_scalemode :: u32
  vv_modes :: "(u32 \<times> u32) list"

record sdk_mem =
  sdk_buffers :: "shared_buffer list"
  sdk_surfaces :: "sdk_surface list"
  next_shared_handle :: u32
  next_surface_handle :: u32
  pcm_ring :: "nat option"
  pcm_session :: u32
  pcm_request :: u32
  sdk_heap :: sa_state
  sdk_pool :: card_pool
  sdk_aperture :: aperture_runtime
  sdk_video :: video_view
  sdk_ram :: ram

definition buffer_zero :: shared_buffer where
  "buffer_zero = \<lparr>bf_handle = 0, bf_address = 0, bf_length = 0, bf_flags = 0, bf_pins = 0, bf_owner = 0, bf_in_use = False\<rparr>"

definition surface_zero :: sdk_surface where
  "surface_zero = \<lparr>sf_handle = 0, sf_address = 0, sf_width = 0, sf_height = 0, sf_pitch = 0, sf_format = 0,
     sf_flags = 0, sf_length = 0, sf_owner = 0, sf_in_use = False\<rparr>"

definition SDK_MAX_SHARED_BUFFERS :: nat where "SDK_MAX_SHARED_BUFFERS = 32"
definition ZZVMODE_NUM :: u32 where "ZZVMODE_NUM = 22"
definition SDK_MAX_SURFACES :: nat where "SDK_MAX_SURFACES = 16"
definition SDK_INVALID_HANDLE :: u32 where "SDK_INVALID_HANDLE = 0xffffffff"
definition SDK_SURFACE_HANDLE_FRAMEBUFFER :: u32 where "SDK_SURFACE_HANDLE_FRAMEBUFFER = 0x80000000"
definition SDK_SURFACE_HANDLE_BASE :: u32 where "SDK_SURFACE_HANDLE_BASE = 0x40000000"
definition SDK_ALLOC_HOST_WINDOW :: u32 where "SDK_ALLOC_HOST_WINDOW = 1"
definition SDK_ALLOC_CARD_ONLY :: u32 where "SDK_ALLOC_CARD_ONLY = 2"
definition SDK_ALLOC_MEDIA :: u32 where "SDK_ALLOC_MEDIA = 4"
definition SDK_SURFACE_FLAG_CPU_VISIBLE :: u32 where "SDK_SURFACE_FLAG_CPU_VISIBLE = 1"
definition SDK_SURFACE_FLAG_FRAMEBUFFER :: u32 where "SDK_SURFACE_FLAG_FRAMEBUFFER = 2"
definition SDK_SURFACE_FLAG_DISPLAYED :: u32 where "SDK_SURFACE_FLAG_DISPLAYED = 4"
definition SDK_SURFACE_FLAG_ARM_LOCAL :: u32 where "SDK_SURFACE_FLAG_ARM_LOCAL = 16"
definition SDK_SURFACE_FORMAT_YUV422CGX :: u32 where "SDK_SURFACE_FORMAT_YUV422CGX = 9"
definition CARD_POOL_LIMIT_MEDIA_INPUT :: u32 where "CARD_POOL_LIMIT_MEDIA_INPUT = push_bit 20 64"
definition CARD_POOL_LIMIT_SDK_SURFACE :: u32 where "CARD_POOL_LIMIT_SDK_SURFACE = push_bit 20 128"
definition CARD_POOL_CLASS_MEDIA_INPUT :: u32 where "CARD_POOL_CLASS_MEDIA_INPUT = 4"
definition CARD_POOL_CLASS_SDK_SURFACE :: u32 where "CARD_POOL_CLASS_SDK_SURFACE = 5"
definition SDK_HOST_WINDOW_HEAP_ADDRESS :: u32 where "SDK_HOST_WINDOW_HEAP_ADDRESS = 0x005D0000"
definition SDK_HOST_WINDOW_HEAP_SIZE :: u32 where "SDK_HOST_WINDOW_HEAP_SIZE = 0x00010000"
definition SDK_HOST_WINDOW_Z3_ADDRESS :: u32 where "SDK_HOST_WINDOW_Z3_ADDRESS = 0x080F0000"

datatype sdk_status = SOk | SUnsupported | SBusy | SBadRequest | SBadHandle | SNoMemory | SInternalError

datatype sdk_reply =
    Status sdk_status
  | BufferInfo u32 u32 u32 u32
  | SurfaceInfo sdk_surface

type_synonym sdk_handler = "u8 list \<Rightarrow> nat \<Rightarrow> sdk_mem \<Rightarrow> sdk_reply \<times> sdk_mem"

definition get_be32 :: "u8 list \<Rightarrow> nat \<Rightarrow> u32" where
  "get_be32 p k = push_bit 24 (ucast (p ! k)) OR push_bit 16 (ucast (p ! (k + 1))) OR
     push_bit 8 (ucast (p ! (k + 2))) OR ucast (p ! (k + 3))"

section \<open>Where entries live\<close>

definition aperture_contract_present :: "sdk_mem \<Rightarrow> bool" where
  "aperture_contract_present m \<longleftrightarrow> rt_flags (sdk_aperture m) AND FLAG_VALID \<noteq> 0"

definition effective_host_window_address :: "sdk_mem \<Rightarrow> u32" where
  "effective_host_window_address m =
     (if aperture_contract_present m then sdk_aperture_host_window_address (sdk_aperture m)
      else if rt_zorro3 (sdk_aperture m) then SDK_HOST_WINDOW_Z3_ADDRESS
      else if rt_legacy (sdk_aperture m) then SDK_HOST_WINDOW_HEAP_ADDRESS
      else 0)"

definition effective_host_window_size :: "sdk_mem \<Rightarrow> u32" where
  "effective_host_window_size m =
     (if aperture_contract_present m then sdk_aperture_host_window_size (sdk_aperture m)
      else if rt_zorro3 (sdk_aperture m) \<or> rt_legacy (sdk_aperture m) then SDK_HOST_WINDOW_HEAP_SIZE
      else 0)"

definition is_power_of_two :: "u32 \<Rightarrow> bool" where
  "is_power_of_two v \<longleftrightarrow> v \<noteq> 0 \<and> v AND (v - 1) = 0"

definition align_up :: "u32 \<Rightarrow> u32 \<Rightarrow> u32" where
  "align_up v alignment =
     (let al = (if alignment = 0 then 16 else alignment)
      in if \<not> is_power_of_two al then 0
         else if v > UINT32_MAX - (al - 1) then 0
         else (v + al - 1) AND NOT (al - 1))"

definition range_valid :: "u32 \<Rightarrow> u32 \<Rightarrow> u32 \<Rightarrow> u32 \<Rightarrow> bool" where
  "range_valid address len base sz =
     (let en = base + sz
      in if len = 0 \<or> len > sz then False
         else if address < base \<or> address \<ge> en then False
         else \<not> len > en - address)"

definition heap_range_valid :: "u32 \<Rightarrow> u32 \<Rightarrow> sdk_mem \<Rightarrow> bool" where
  "heap_range_valid address len m = surface_allocator_owns address len (sdk_heap m)"

definition host_window_range_valid :: "u32 \<Rightarrow> u32 \<Rightarrow> sdk_mem \<Rightarrow> bool" where
  "host_window_range_valid address len m =
     (let base = effective_host_window_address m; sz = effective_host_window_size m
      in if base = 0 \<or> sz = 0 then False else range_valid address len base sz)"

definition shared_buffer_live :: "sdk_mem \<Rightarrow> shared_buffer \<Rightarrow> bool" where
  "shared_buffer_live m b =
     (if \<not> bf_in_use b then False
      else if bf_handle b = 0 \<or> bf_handle b = SDK_INVALID_HANDLE then False
      else if bf_flags b AND SDK_ALLOC_MEDIA \<noteq> 0
      then card_pool_block_owned (bf_address b) (bf_length b) (bf_owner b) (sdk_pool m)
      else if bf_flags b AND SDK_ALLOC_HOST_WINDOW \<noteq> 0
      then host_window_range_valid (bf_address b) (bf_length b) m
      else heap_range_valid (bf_address b) (bf_length b) m)"

definition surface_min_row_bytes :: "u32 \<Rightarrow> u32 \<Rightarrow> u32" where
  "surface_min_row_bytes format width =
     (if width = 0 then 0
      else if format = SDK_SURFACE_FORMAT_YUV422CGX
      then if width > 0xffff then 0 else ((width + 1) div 2) * 4
      else let bpp = sdk_surface_format_bytes format
      in if bpp = 0 \<or> width > UINT32_MAX div bpp then 0 else width * bpp)"

definition surface_is_arm_local :: "sdk_surface \<Rightarrow> bool" where
  "surface_is_arm_local s \<longleftrightarrow> sf_flags s AND SDK_SURFACE_FLAG_ARM_LOCAL \<noteq> 0"

definition surface_live :: "sdk_mem \<Rightarrow> sdk_surface \<Rightarrow> bool" where
  "surface_live m s =
     (if \<not> sf_in_use s then False
      else if sf_handle s = 0 \<or> sf_handle s = SDK_INVALID_HANDLE \<or> sf_handle s = SDK_SURFACE_HANDLE_FRAMEBUFFER then False
      else if sf_width s = 0 \<or> sf_height s = 0 \<or> sf_pitch s = 0 then False
      else let min_row = surface_min_row_bytes (sf_format s) (sf_width s)
      in if min_row = 0 \<or> sf_pitch s < min_row then False
         else if sf_height s > UINT32_MAX div sf_pitch s then False
         else if sf_length s \<noteq> sf_pitch s * sf_height s then False
         else if surface_is_arm_local s
         then card_pool_block_owned (sf_address s) (sf_length s) (sf_owner s) (sdk_pool m)
         else heap_range_valid (sf_address s) (sf_length s) m)"

section \<open>The tables\<close>

definition sanitize_buffers :: "sdk_mem \<Rightarrow> shared_buffer list \<Rightarrow> shared_buffer list \<times> u32" where
  "sanitize_buffers m bs =
     (map (\<lambda>b. if bf_in_use b \<and> \<not> shared_buffer_live m b then buffer_zero else b) bs,
      of_nat (length (filter (\<lambda>b. bf_in_use b \<and> \<not> shared_buffer_live m b) bs)))"

definition sanitize_surfaces :: "sdk_mem \<Rightarrow> sdk_surface list \<Rightarrow> sdk_surface list \<times> u32" where
  "sanitize_surfaces m ss =
     (map (\<lambda>s. if sf_in_use s \<and> \<not> surface_live m s then surface_zero else s) ss,
      of_nat (length (filter (\<lambda>s. sf_in_use s \<and> \<not> surface_live m s) ss)))"

definition sanitize_allocator_metadata :: "sdk_mem \<Rightarrow> u32 \<times> sdk_mem" where
  "sanitize_allocator_metadata m =
     (case sanitize_buffers m (sdk_buffers m) of (bs, i) \<Rightarrow>
        case sanitize_surfaces m (sdk_surfaces m) of (ss, j) \<Rightarrow>
          (i + j, m\<lparr>sdk_buffers := bs, sdk_surfaces := ss\<rparr>))"

definition find_shared_buffer :: "u32 \<Rightarrow> sdk_mem \<Rightarrow> nat option" where
  "find_shared_buffer handle m =
     List.find (\<lambda>i. shared_buffer_live m (sdk_buffers m ! i) \<and> bf_handle (sdk_buffers m ! i) = handle)
       [0..<SDK_MAX_SHARED_BUFFERS]"

definition find_free_buffer_slot :: "sdk_mem \<Rightarrow> nat option" where
  "find_free_buffer_slot m = List.find (\<lambda>i. \<not> shared_buffer_live m (sdk_buffers m ! i)) [0..<SDK_MAX_SHARED_BUFFERS]"

definition find_surface :: "u32 \<Rightarrow> sdk_mem \<Rightarrow> nat option" where
  "find_surface handle m =
     List.find (\<lambda>i. surface_live m (sdk_surfaces m ! i) \<and> sf_handle (sdk_surfaces m ! i) = handle)
       [0..<SDK_MAX_SURFACES]"

definition find_free_surface_slot :: "sdk_mem \<Rightarrow> nat option" where
  "find_free_surface_slot m = List.find (\<lambda>i. \<not> surface_live m (sdk_surfaces m ! i)) [0..<SDK_MAX_SURFACES]"

definition count_used_shared_buffers :: "sdk_mem \<Rightarrow> u32" where
  "count_used_shared_buffers m = of_nat (length (filter (shared_buffer_live m) (sdk_buffers m)))"

definition count_used_surfaces :: "sdk_mem \<Rightarrow> u32" where
  "count_used_surfaces m = of_nat (length (filter (surface_live m) (sdk_surfaces m)))"

definition count_host_window_allocations :: "sdk_mem \<Rightarrow> u32" where
  "count_host_window_allocations m = of_nat (length (filter (\<lambda>b. shared_buffer_live m b \<and>
     bf_flags b AND SDK_ALLOC_HOST_WINDOW \<noteq> 0) (sdk_buffers m)))"

definition set_buffer :: "nat \<Rightarrow> shared_buffer \<Rightarrow> sdk_mem \<Rightarrow> sdk_mem" where
  "set_buffer i b m = m\<lparr>sdk_buffers := (sdk_buffers m)[i := b]\<rparr>"

definition set_surface :: "nat \<Rightarrow> sdk_surface \<Rightarrow> sdk_mem \<Rightarrow> sdk_mem" where
  "set_surface i s m = m\<lparr>sdk_surfaces := (sdk_surfaces m)[i := s]\<rparr>"

definition shared_buffer_pin :: "nat \<Rightarrow> sdk_mem \<Rightarrow> bool \<times> sdk_mem" where
  "shared_buffer_pin i m =
     (let b = sdk_buffers m ! i
      in if \<not> shared_buffer_live m b \<or> bf_pins b = 0xffffffff then (False, m)
         else (True, set_buffer i (b\<lparr>bf_pins := bf_pins b + 1\<rparr>) m))"

definition shared_buffer_unpin :: "nat \<Rightarrow> sdk_mem \<Rightarrow> sdk_mem" where
  "shared_buffer_unpin i m =
     (let b = sdk_buffers m ! i
      in if bf_pins b \<noteq> 0 then set_buffer i (b\<lparr>bf_pins := bf_pins b - 1\<rparr>) m else m)"

definition release_media_pcm_ring :: "u32 \<Rightarrow> sdk_mem \<Rightarrow> sdk_mem" where
  "release_media_pcm_ring session m =
     (case pcm_ring m of
        Some i \<Rightarrow> if pcm_session m = session
                  then (shared_buffer_unpin i m)\<lparr>pcm_ring := None, pcm_session := 0, pcm_request := 0\<rparr> else m
      | None \<Rightarrow> m)"

definition buffer_range_valid :: "shared_buffer \<Rightarrow> u32 \<Rightarrow> u32 \<Rightarrow> bool" where
  "buffer_range_valid b offset len =
     (if offset > bf_length b then False else \<not> len > bf_length b - offset)"

definition ranges_overlap :: "u32 \<Rightarrow> u32 \<Rightarrow> u32 \<Rightarrow> u32 \<Rightarrow> bool" where
  "ranges_overlap offset_a length_a offset_b length_b =
     (if length_a = 0 \<or> length_b = 0 then False
      else if offset_a > UINT32_MAX - length_a \<or> offset_b > UINT32_MAX - length_b then True
      else offset_a < offset_b + length_b \<and> offset_b < offset_a + length_a)"

text \<open>
  \<^verbatim>\<open>next_handle\<close> calls itself when the counter stood at 0 or at the invalid handle. It has
  just been set to 1 then, so the second call returns 1.
\<close>

definition next_handle :: "sdk_mem \<Rightarrow> u32 \<times> sdk_mem" where
  "next_handle m =
     (let h = next_shared_handle m; n = (if h + 1 = 0 \<or> h + 1 = 0xffffffff then 1 else h + 1)
      in if h = 0 \<or> h = 0xffffffff then (n, m\<lparr>next_shared_handle := n + 1\<rparr>)
         else (h, m\<lparr>next_shared_handle := n\<rparr>))"

definition next_surface_id :: "sdk_mem \<Rightarrow> u32 \<times> sdk_mem" where
  "next_surface_id m =
     (let h = next_surface_handle m
      in (SDK_SURFACE_HANDLE_BASE OR h, m\<lparr>next_surface_handle := (if h + 1 = 0 then 1 else h + 1)\<rparr>))"

section \<open>The host window\<close>

text \<open>The placement loop moves only upwards: every round starts at 0 (and ends) or past a block's end.\<close>

lemma align_up_cases:
  "align_up v al = 0 \<or> unat v \<le> unat (align_up v al)"
proof (cases "align_up v al = 0")
  case False
  define a where "a = (if al = 0 then 16 else al)"
  from False have a: "a \<noteq> 0" "a AND (a - 1) = 0" "\<not> v > UINT32_MAX - (a - 1)"
    and eq: "align_up v al = (v + a - 1) AND NOT (a - 1)"
    by (auto simp: align_up_def a_def is_power_of_two_def Let_def split: if_splits)
  obtain k where k: "k < 32" "unat a = 2 ^ k" "a - 1 = mask k" using word_pow2_test [OF a(1,2)] .
  have "unat (a - 1) = 2 ^ k - 1" using a(1) k(2) by (simp add: unat_minus_one)
  moreover have "unat v + unat (a - 1) \<le> 4294967295"
  proof -
    have "unat v \<le> unat (UINT32_MAX - (a - 1))" using a(3) by (simp only: not_less word_le_nat_alt)
    then have "unat v \<le> 4294967295 - unat (a - 1)" by (simp only: unat_max_minus)
    then show ?thesis using unat_le32 [of "a - 1"] by linarith
  qed
  ultimately have "unat (v + (a - 1)) = unat v + (2 ^ k - 1)" using unat_plus_no_wrap [of v "a - 1"] by linarith
  then have "unat (v + a - 1) = unat v + (2 ^ k - 1)" by (simp only: add_diff_eq)
  then have "unat (align_up v al) = unat v + (2 ^ k - 1) - (unat v + (2 ^ k - 1)) mod 2 ^ k"
    unfolding eq k(3) by (simp add: unat_and_not_mask)
  then show ?thesis using nat_round_up(1) [of "2 ^ k" "unat v"] by simp
qed simp

definition window_collides :: "u32 \<Rightarrow> u32 \<Rightarrow> sdk_mem \<Rightarrow> shared_buffer \<Rightarrow> bool" where
  "window_collides candidate len m b \<longleftrightarrow>
     shared_buffer_live m b \<and> bf_flags b AND SDK_ALLOC_HOST_WINDOW \<noteq> 0 \<and>
     \<not> (candidate + len \<le> bf_address b \<or> candidate \<ge> bf_address b + bf_length b)"

function host_window_scan :: "u32 \<Rightarrow> u32 \<Rightarrow> u32 \<Rightarrow> sdk_mem \<Rightarrow> u32 \<Rightarrow> u32" where
  "host_window_scan len alignment heap_end m candidate =
     (if candidate \<noteq> 0 \<and> candidate < heap_end \<and> len \<le> heap_end - candidate
      then case List.find (window_collides candidate len m) (sdk_buffers m) of
             None \<Rightarrow> candidate
           | Some b \<Rightarrow> host_window_scan len alignment heap_end m (align_up (bf_address b + bf_length b) alignment)
      else 0)"
  by pat_completeness auto
termination
proof (relation "measure (\<lambda>(len, alignment, heap_end, m, c). if c = 0 then 0 else unat heap_end - unat c)", goal_cases)
  case 1
  show ?case by simp
next
  case (2 len alignment heap_end m candidate b)
  then have "window_collides candidate len m b" by (auto dest: find_SomeD)
  then have "unat candidate < unat (bf_address b + bf_length b)"
    by (auto simp: window_collides_def word_less_nat_alt not_le)
  with 2(1) align_up_cases [of "bf_address b + bf_length b" alignment] show ?case
    by (auto simp: word_less_nat_alt)
qed

declare host_window_scan.simps [simp del]

definition find_free_host_window_region :: "u32 \<Rightarrow> u32 \<Rightarrow> sdk_mem \<Rightarrow> u32" where
  "find_free_host_window_region len alignment m =
     (let base = effective_host_window_address m; sz = effective_host_window_size m
      in if base = 0 \<or> sz = 0 \<or> base > UINT32_MAX - sz then 0
         else host_window_scan len alignment (base + sz) m (align_up base alignment))"

section \<open>Shared buffers\<close>

definition handle_alloc_shared :: sdk_handler where
  "handle_alloc_shared p payload_len m =
     (if payload_len < 12 then (Status SBadRequest, m)
      else let len = get_be32 p 0; al0 = get_be32 p 4; flags = get_be32 p 8;
               media = (flags AND SDK_ALLOC_MEDIA \<noteq> 0); alignment = (if al0 = 0 then 16 else al0)
      in if len = 0 \<or> \<not> is_power_of_two alignment \<or>
            flags AND NOT (SDK_ALLOC_HOST_WINDOW OR SDK_ALLOC_CARD_ONLY OR SDK_ALLOC_MEDIA) \<noteq> 0
         then (Status SBadRequest, m)
         else if media \<and> \<not> rt_zorro3 (sdk_aperture m) then (Status SUnsupported, m)
         else if media \<and> (flags AND SDK_ALLOC_CARD_ONLY = 0 \<or> flags AND SDK_ALLOC_HOST_WINDOW \<noteq> 0 \<or>
                 len > CARD_POOL_LIMIT_MEDIA_INPUT \<or> alignment > CARD_POOL_PAGE_BYTES)
         then (Status SBadRequest, m)
         else if \<not> media \<and> flags AND SDK_ALLOC_HOST_WINDOW \<noteq> 0 \<and> effective_host_window_size m = 0
         then (Status SUnsupported, m)
         else if \<not> media \<and> flags AND SDK_ALLOC_HOST_WINDOW \<noteq> 0 \<and> len > effective_host_window_size m
         then (Status SBadRequest, m)
         else if \<not> media \<and> flags AND SDK_ALLOC_HOST_WINDOW = 0 \<and> len > surface_allocator_total_bytes (sdk_heap m)
         then (Status SBadRequest, m)
         else let m1 = snd (sanitize_allocator_metadata m)
         in case find_free_buffer_slot m1 of
              None \<Rightarrow> (Status SNoMemory, m1)
            | Some i \<Rightarrow>
                (case next_handle (set_buffer i buffer_zero m1) of (h, m2) \<Rightarrow>
                   let owner = (if media then CARD_POOL_OWNER CARD_POOL_CLASS_MEDIA_INPUT h else 0)
                   in case (if media
                            then case card_pool_alloc len owner (sdk_pool m2) of (a, cp) \<Rightarrow> (a, m2\<lparr>sdk_pool := cp\<rparr>)
                            else if flags AND SDK_ALLOC_HOST_WINDOW \<noteq> 0
                            then (find_free_host_window_region len alignment m2, m2)
                            else case surface_allocator_alloc_aligned len alignment (sdk_heap m2) of
                                   (a, sa) \<Rightarrow> (a, m2\<lparr>sdk_heap := sa\<rparr>))
                      of (address, m3) \<Rightarrow>
                        if address = 0 then (Status SNoMemory, set_buffer i buffer_zero m3)
                        else (BufferInfo h address len flags,
                              set_buffer i \<lparr>bf_handle = h, bf_address = address, bf_length = len, bf_flags = flags,
                                            bf_pins = 0, bf_owner = owner, bf_in_use = True\<rparr> m3)))"

definition handle_free_shared :: sdk_handler where
  "handle_free_shared p payload_len m =
     (if payload_len < 4 then (Status SBadRequest, m)
      else case find_shared_buffer (get_be32 p 0) m of
             None \<Rightarrow> (Status SBadHandle, m)
           | Some i \<Rightarrow>
               let b = sdk_buffers m ! i
               in if bf_pins b \<noteq> 0 then (Status SBusy, m)
                  else let m1 = (if bf_owner b \<noteq> 0
                                 then m\<lparr>sdk_pool := snd (card_pool_free (bf_address b) (bf_owner b) (sdk_pool m))\<rparr>
                                 else if bf_flags b AND SDK_ALLOC_HOST_WINDOW = 0
                                 then m\<lparr>sdk_heap := snd (surface_allocator_free (bf_address b) (sdk_heap m))\<rparr>
                                 else m)
                       in (Status SOk, set_buffer i buffer_zero m1))"

definition memset :: "u32 \<Rightarrow> u8 \<Rightarrow> u32 \<Rightarrow> ram \<Rightarrow> ram" where
  "memset dst v n r = (\<lambda>a. if a - dst < n then v else r a)"

definition handle_mem_fill :: sdk_handler where
  "handle_mem_fill p payload_len m =
     (if payload_len < 13 then (Status SBadRequest, m)
      else let offset = get_be32 p 4; len = get_be32 p 8
      in case find_shared_buffer (get_be32 p 0) m of
           None \<Rightarrow> (Status SBadHandle, m)
         | Some i \<Rightarrow>
             let b = sdk_buffers m ! i
             in if \<not> buffer_range_valid b offset len then (Status SBadRequest, m)
                else (Status SOk, if len \<noteq> 0
                        then m\<lparr>sdk_ram := memset (bf_address b + offset) (p ! 12) len (sdk_ram m)\<rparr> else m))"

definition handle_mem_copy :: sdk_handler where
  "handle_mem_copy p payload_len m =
     (if payload_len < 20 then (Status SBadRequest, m)
      else let dst_offset = get_be32 p 4; src_offset = get_be32 p 12; len = get_be32 p 16
      in case (find_shared_buffer (get_be32 p 0) m, find_shared_buffer (get_be32 p 8) m) of
           (Some i, Some j) \<Rightarrow>
             let dst = sdk_buffers m ! i; src = sdk_buffers m ! j
             in if \<not> buffer_range_valid dst dst_offset len \<or> \<not> buffer_range_valid src src_offset len
                then (Status SBadRequest, m)
                else (Status SOk, if len \<noteq> 0
                        then m\<lparr>sdk_ram := memmove (bf_address dst + dst_offset) (bf_address src + src_offset) len (sdk_ram m)\<rparr>
                        else m)
         | _ \<Rightarrow> (Status SBadHandle, m))"

section \<open>Surfaces\<close>

definition color_mode_surface_format :: "u32 \<Rightarrow> u32" where
  "color_mode_surface_format color_mode =
     (if color_mode = 0 then 4 else if color_mode = 1 then 1
      else if color_mode = 3 then 6 else if color_mode = 2 then 7 else 0)"

definition video_vertical_scale_factor :: "u32 \<Rightarrow> u32" where
  "video_vertical_scale_factor scalemode = push_bit (unat (drop_bit 1 scalemode AND 3)) 1"

definition fill_framebuffer_surface :: "sdk_mem \<Rightarrow> sdk_surface option" where
  "fill_framebuffer_surface m =
     (let v = sdk_video m; i0 = vv_video_mode v AND 0xff; i = (if i0 \<ge> ZZVMODE_NUM then 1 else unat i0);
          w0 = (if vv_hsize v \<noteq> 0 then vv_hsize v else fst (vv_modes v ! i));
          h = (if vv_vdma_rows v \<noteq> 0 then vv_vdma_rows v
               else (if vv_vsize v \<noteq> 0 then vv_vsize v else snd (vv_modes v ! i)) div
                    video_vertical_scale_factor (vv_scalemode v));
          w = (if vv_scalemode v AND 1 \<noteq> 0 then w0 div 2 else w0)
      in if w = 0 \<or> h = 0 then None
         else let format = color_mode_surface_format (vv_colormode v); bpp = sdk_surface_format_bytes format
         in if bpp = 0 then None
            else let pitch = (if vv_pan_width v \<noteq> 0 then vv_pan_width v else w) * bpp
            in Some \<lparr>sf_handle = SDK_SURFACE_HANDLE_FRAMEBUFFER, sf_address = vv_framebuffer v + vv_pan_offset v,
                  sf_width = w, sf_height = h, sf_pitch = pitch, sf_format = format,
                  sf_flags = SDK_SURFACE_FLAG_CPU_VISIBLE OR SDK_SURFACE_FLAG_FRAMEBUFFER OR SDK_SURFACE_FLAG_DISPLAYED,
                  sf_length = pitch * h, sf_owner = 0, sf_in_use = True\<rparr>)"

definition handle_map_framebuffer_surface :: sdk_handler where
  "handle_map_framebuffer_surface p payload_len m =
     (case fill_framebuffer_surface m of None \<Rightarrow> (Status SInternalError, m) | Some s \<Rightarrow> (SurfaceInfo s, m))"

definition get_surface_info :: "u32 \<Rightarrow> sdk_mem \<Rightarrow> sdk_surface option" where
  "get_surface_info handle m =
     (if handle = SDK_SURFACE_HANDLE_FRAMEBUFFER then fill_framebuffer_surface m
      else case find_surface handle m of None \<Rightarrow> None | Some i \<Rightarrow> Some (sdk_surfaces m ! i))"

definition surface_range_valid :: "sdk_surface \<Rightarrow> u32 \<Rightarrow> u32 \<Rightarrow> u32 \<Rightarrow> u32 \<Rightarrow> bool" where
  "surface_range_valid s x y width height =
     (if width = 0 \<or> height = 0 then False
      else if x > sf_width s \<or> y > sf_height s then False
      else if width > sf_width s - x then False
      else \<not> height > sf_height s - y)"

definition handle_alloc_surface :: sdk_handler where
  "handle_alloc_surface p payload_len m =
     (if payload_len < 20 then (Status SBadRequest, m)
      else let width = get_be32 p 0; height = get_be32 p 4; format = get_be32 p 8; flags = get_be32 p 12;
               pitch0 = get_be32 p 16; min_pitch = surface_min_row_bytes format width;
               arm_local = (flags AND SDK_SURFACE_FLAG_ARM_LOCAL \<noteq> 0);
               pitch = (if pitch0 = 0 then min_pitch else pitch0); len = pitch * height
      in if width = 0 \<or> height = 0 \<or> min_pitch = 0 then (Status SBadRequest, m)
         else if pitch < min_pitch then (Status SBadRequest, m)
         else if height > UINT32_MAX div pitch then (Status SBadRequest, m)
         else if len = 0 then (Status SBadRequest, m)
         else if arm_local \<and> len > CARD_POOL_LIMIT_SDK_SURFACE then (Status SBadRequest, m)
         else if \<not> arm_local \<and> len > surface_allocator_total_bytes (sdk_heap m) then (Status SBadRequest, m)
         else let m1 = snd (sanitize_allocator_metadata m)
         in case find_free_surface_slot m1 of
              None \<Rightarrow> (Status SNoMemory, m1)
            | Some i \<Rightarrow>
                (case next_surface_id (set_surface i surface_zero m1) of (h, m2) \<Rightarrow>
                   let owner = (if arm_local then CARD_POOL_OWNER CARD_POOL_CLASS_SDK_SURFACE h else 0)
                   in case (if arm_local
                            then case card_pool_alloc len owner (sdk_pool m2) of (a, cp) \<Rightarrow> (a, m2\<lparr>sdk_pool := cp\<rparr>)
                            else case surface_allocator_alloc_aligned len 64 (sdk_heap m2) of
                                   (a, sa) \<Rightarrow> (a, m2\<lparr>sdk_heap := sa\<rparr>))
                      of (address, m3) \<Rightarrow>
                        if address = 0 then (Status SNoMemory, set_surface i surface_zero m3)
                        else let s = \<lparr>sf_handle = h, sf_address = address, sf_width = width, sf_height = height,
                                 sf_pitch = pitch, sf_format = format,
                                 sf_flags = (if arm_local
                                   then (flags OR SDK_SURFACE_FLAG_ARM_LOCAL) AND NOT SDK_SURFACE_FLAG_CPU_VISIBLE
                                   else flags OR SDK_SURFACE_FLAG_CPU_VISIBLE),
                                 sf_length = len, sf_owner = owner, sf_in_use = True\<rparr>
                        in (SurfaceInfo s, (set_surface i s m3)\<lparr>sdk_ram := memset address 0 len (sdk_ram m3)\<rparr>)))"

definition handle_free_surface :: sdk_handler where
  "handle_free_surface p payload_len m =
     (if payload_len < 4 then (Status SBadRequest, m)
      else let handle = get_be32 p 0
      in if handle = SDK_SURFACE_HANDLE_FRAMEBUFFER then (Status SBadRequest, m)
         else case find_surface handle m of
                None \<Rightarrow> (Status SBadHandle, m)
              | Some i \<Rightarrow>
                  let s = sdk_surfaces m ! i;
                      m1 = (if sf_owner s \<noteq> 0
                            then m\<lparr>sdk_pool := snd (card_pool_free (sf_address s) (sf_owner s) (sdk_pool m))\<rparr>
                            else m\<lparr>sdk_heap := snd (surface_allocator_free (sf_address s) (sdk_heap m))\<rparr>)
                  in (Status SOk, set_surface i surface_zero m1))"

definition handle_fill_surface :: sdk_handler where
  "handle_fill_surface p payload_len m =
     (if payload_len < 48 then (Status SBadRequest, m)
      else case get_surface_info (get_be32 p 0) m of
             None \<Rightarrow> (Status SBadHandle, m)
           | Some s \<Rightarrow>
               if get_be32 p 24 \<noteq> 0 then (Status SUnsupported, m)
               else (case sdk_surface_fill_rect (sf_address s) (sf_width s) (sf_height s) (sf_pitch s) (sf_format s)
                            (get_be32 p 4) (get_be32 p 8) (get_be32 p 12) (get_be32 p 16) (get_be32 p 20) (sdk_ram m)
                     of (ok, r) \<Rightarrow> if \<not> ok then (Status SBadRequest, m) else (Status SOk, m\<lparr>sdk_ram := r\<rparr>)))"

definition handle_copy_surface :: sdk_handler where
  "handle_copy_surface p payload_len m =
     (if payload_len < 48 then (Status SBadRequest, m)
      else case get_surface_info (get_be32 p 0) m of
             None \<Rightarrow> (Status SBadHandle, m)
           | Some src \<Rightarrow>
             (case get_surface_info (get_be32 p 4) m of
                None \<Rightarrow> (Status SBadHandle, m)
              | Some dst \<Rightarrow>
                  if get_be32 p 32 \<noteq> 0 then (Status SUnsupported, m)
                  else if sf_format src \<noteq> sf_format dst then (Status SUnsupported, m)
                  else (case sdk_surface_copy_rect (sf_address dst) (sf_width dst) (sf_height dst) (sf_pitch dst)
                               (sf_address src) (sf_width src) (sf_height src) (sf_pitch src) (sf_format src)
                               (get_be32 p 8) (get_be32 p 12) (get_be32 p 16) (get_be32 p 20)
                               (get_be32 p 24) (get_be32 p 28) (sdk_ram m)
                        of (ok, r) \<Rightarrow> if \<not> ok then (Status SBadRequest, m) else (Status SOk, m\<lparr>sdk_ram := r\<rparr>))))"

text \<open>The part of \<^verbatim>\<open>handle_request\<close> that dispatches to these handlers.\<close>

definition handle_memory_request :: "u32 \<Rightarrow> sdk_handler option" where
  "handle_memory_request opcode =
     (if opcode = 0x100 then Some handle_alloc_shared
      else if opcode = 0x101 then Some handle_free_shared
      else if opcode = 0x102 then Some handle_mem_fill
      else if opcode = 0x103 then Some handle_mem_copy
      else if opcode = 0x200 then Some handle_alloc_surface
      else if opcode = 0x201 then Some handle_free_surface
      else if opcode = 0x202 then Some handle_map_framebuffer_surface
      else if opcode = 0x203 then Some handle_fill_surface
      else if opcode = 0x204 then Some handle_copy_surface
      else None)"

section \<open>Reset\<close>

text \<open>\<^verbatim>\<open>main.c\<close>: the heap and its immutable ranges, then \<^verbatim>\<open>sdk_mailbox_init\<close> clears the tables.\<close>

definition Z3_HOST_CONTROL_RANGES :: "(u32 \<times> u32) list" where
  "Z3_HOST_CONTROL_RANGES = [(0x033F0000, 0x10000), (0x03400000, 0x100000), (SDK_HOST_WINDOW_Z3_ADDRESS, SDK_HOST_WINDOW_HEAP_SIZE),
     (0x08100000, 0x10000), (0x081C0000, 0x20000), (0x081E0000, 0x20000)]"

fun reserve_ranges :: "(u32 \<times> u32) list \<Rightarrow> sa_state \<Rightarrow> bool \<times> sa_state" where
  "reserve_ranges [] s = (True, s)"
| "reserve_ranges ((address, sz) # rs) s =
     (case surface_allocator_reserve address sz s of (r, s') \<Rightarrow>
        if r = 0 then reserve_ranges rs s' else (False, s'))"

definition reserve_host_control_ranges :: "sa_state \<Rightarrow> bool \<times> sa_state" where
  "reserve_host_control_ranges s = reserve_ranges Z3_HOST_CONTROL_RANGES s"

definition sdk_mailbox_init_memory :: "sdk_mem \<Rightarrow> sdk_mem" where
  "sdk_mailbox_init_memory m =
     m\<lparr>next_shared_handle := 1, next_surface_handle := 1, pcm_ring := None, pcm_session := 0, pcm_request := 0,
       sdk_buffers := replicate SDK_MAX_SHARED_BUFFERS buffer_zero, sdk_surfaces := replicate SDK_MAX_SURFACES surface_zero\<rparr>"

end
