(* ===== verification/SdkRings.thy ===== *)
theory SdkRings
  imports TaskQueue SdkBuffers
begin

unbundle bit_operations_syntax

text \<open>
  The mailbox rings: both ends of the shared descriptor and of the request and completion
  rings, in the bytes that cross the bus. Firmware: \<^verbatim>\<open>sdk_mailbox.c\<close> and the harvest loop of
  \<^verbatim>\<open>scheduler_core0_poll\<close>; host: \<^verbatim>\<open>zz9k_host.c\<close>. Descriptor offsets: magic 0, ABI major 4,
  minor 6, descriptor size 8, request ring offset 12 and entries 16, request head 20 and tail
  24, completion ring offset 28 and entries 32, completion head 36 and tail 40, capabilities
  44. Entry offsets: id 0, opcode 4, status 6, flags 8, payload length 10, cookie 12, payload
  16 to 63.
\<close>

section \<open>Bytes\<close>

type_synonym bytes = "u8 list"

definition get_be16 :: "bytes \<Rightarrow> nat \<Rightarrow> u16" where
  "get_be16 p k = push_bit 8 (ucast (p ! k)) OR ucast (p ! (k + 1))"

definition put_be16 :: "bytes \<Rightarrow> nat \<Rightarrow> u16 \<Rightarrow> bytes" where
  "put_be16 p k v = p[k := ucast (drop_bit 8 v), k + 1 := ucast v]"

definition put_be32 :: "bytes \<Rightarrow> nat \<Rightarrow> u32 \<Rightarrow> bytes" where
  "put_be32 p k v = p[k := ucast (drop_bit 24 v), k + 1 := ucast (drop_bit 16 v),
     k + 2 := ucast (drop_bit 8 v), k + 3 := ucast v]"

text \<open>\<^verbatim>\<open>memcpy\<close> into an entry's payload.\<close>

definition put_payload :: "bytes \<Rightarrow> bytes \<Rightarrow> bytes" where
  "put_payload e bs = take 16 e @ bs @ drop (16 + length bs) e"

definition entry_payload :: "bytes \<Rightarrow> bytes" where
  "entry_payload e = drop 16 e"

section \<open>Firmware\<close>

definition SDK_STATUS_OK :: u16 where "SDK_STATUS_OK = 0"
definition SDK_STATUS_QUEUED :: u16 where "SDK_STATUS_QUEUED = 1"
definition SDK_STATUS_BUSY :: u16 where "SDK_STATUS_BUSY = 2"
definition SDK_STATUS_UNSUPPORTED :: u16 where "SDK_STATUS_UNSUPPORTED = 3"
definition SDK_STATUS_BAD_REQUEST :: u16 where "SDK_STATUS_BAD_REQUEST = 4"
definition SDK_STATUS_INTERNAL_ERROR :: u16 where "SDK_STATUS_INTERNAL_ERROR = 0xffff"
definition SDK_MAILBOX_MAGIC :: u32 where "SDK_MAILBOX_MAGIC = 0x5a5a394b"
definition SDK_MAILBOX_ABI_MAJOR :: u16 where "SDK_MAILBOX_ABI_MAJOR = 2"
definition SDK_MAILBOX_ABI_MINOR :: u16 where "SDK_MAILBOX_ABI_MINOR = 0"
definition SDK_MAILBOX_ENTRY_SIZE :: u32 where "SDK_MAILBOX_ENTRY_SIZE = 64"
definition SDK_MAILBOX_DESCRIPTOR_SIZE :: u32 where "SDK_MAILBOX_DESCRIPTOR_SIZE = 128"
definition SDK_MAILBOX_REQUEST_OFFSET :: u32 where "SDK_MAILBOX_REQUEST_OFFSET = SDK_MAILBOX_DESCRIPTOR_SIZE"
definition SDK_CAP_MAILBOX :: u32 where "SDK_CAP_MAILBOX = 1"

text \<open>
  The slot in which the app runtime keeps the one operation it has deferred
  (\<^verbatim>\<open>defer_*\<close> of \<^verbatim>\<open>zzapp_services.c\<close>).
\<close>

datatype defer_state = DEFER_IDLE | DEFER_FILLING | DEFER_POSTED | DEFER_RUNNING | DEFER_DONE

record app_defer =
  defer_state :: defer_state
  defer_opcode :: u16
  defer_status :: u16
  defer_req_len :: u16
  defer_reply_len :: u16
  defer_request_id :: u32
  defer_cookie :: u32
  defer_req :: bytes
  defer_reply :: bytes

text \<open>
  The mailbox in card memory and the firmware's variables for it, with the task queue and its
  generation stamps. \<^verbatim>\<open>mb_core1\<close> is \<^verbatim>\<open>scheduler_core1_available()\<close>,
  \<^verbatim>\<open>mb_z3\<close> is \<^verbatim>\<open>sdk_aperture_runtime_is_zorro3()\<close>.
\<close>

record mailbox =
  mb_base :: u32
  mb_entries :: u32
  mb_desc :: bytes
  mb_reqs :: "bytes list"
  mb_comps :: "bytes list"
  mb_active :: bool
  mb_pending :: bool
  mb_irq_enabled :: bool
  mb_irq :: bool
  mb_status :: u16
  mb_completed :: u32
  mb_failed :: u32
  mb_generation :: u32
  mb_task_gen :: "u32 list"
  mb_queue :: taskq
  mb_core1 :: bool
  mb_z3 :: bool
  mb_app :: app_defer
  mb_watchdog :: taskq_watchdog

definition mailbox_completion_offset :: "mailbox \<Rightarrow> u32" where
  "mailbox_completion_offset m = SDK_MAILBOX_REQUEST_OFFSET + mb_entries m * SDK_MAILBOX_ENTRY_SIZE"

definition next_index :: "mailbox \<Rightarrow> u32 \<Rightarrow> u32" where
  "next_index m i = (if i + 1 \<ge> mb_entries m then 0 else i + 1)"

definition descriptor_valid :: "mailbox \<Rightarrow> bool" where
  "descriptor_valid m \<longleftrightarrow> (let d = mb_desc m; n = mb_entries m
     in get_be32 d 0 = SDK_MAILBOX_MAGIC \<and> get_be16 d 4 = SDK_MAILBOX_ABI_MAJOR \<and>
        get_be32 d 8 = SDK_MAILBOX_DESCRIPTOR_SIZE \<and> get_be32 d 12 = SDK_MAILBOX_REQUEST_OFFSET \<and>
        get_be32 d 28 = mailbox_completion_offset m \<and> get_be32 d 16 = n \<and> get_be32 d 32 = n \<and>
        get_be32 d 44 AND SDK_CAP_MAILBOX \<noteq> 0 \<and>
        get_be32 d 20 < n \<and> get_be32 d 24 < n \<and> get_be32 d 36 < n \<and> get_be32 d 40 < n)"

definition write_completion :: "bytes \<Rightarrow> bytes \<Rightarrow> u16 \<Rightarrow> u16 \<Rightarrow> bytes" where
  "write_completion dst src status payload_len =
     (let d1 = put_be32 dst 0 (get_be32 src 0); d2 = put_be16 d1 4 (get_be16 src 4); d3 = put_be16 d2 6 status;
          d4 = put_be16 d3 8 (get_be16 src 8); d5 = put_be16 d4 10 payload_len
      in put_be32 d5 12 (get_be32 src 12))"

definition complete_status :: "bytes \<Rightarrow> bytes \<Rightarrow> u16 \<Rightarrow> u16 \<times> bytes" where
  "complete_status req cmp status = (status, write_completion cmp req status 0)"

text \<open>The descriptor of a new mailbox lifetime; the rings are zeroed with it.\<close>

definition write_mailbox_descriptor :: "u32 \<Rightarrow> mailbox \<Rightarrow> mailbox" where
  "write_mailbox_descriptor capability_bits m =
     (let d0 = replicate 128 0; d1 = put_be32 d0 0 SDK_MAILBOX_MAGIC; d2 = put_be16 d1 4 SDK_MAILBOX_ABI_MAJOR;
          d3 = put_be16 d2 6 SDK_MAILBOX_ABI_MINOR; d4 = put_be32 d3 8 SDK_MAILBOX_DESCRIPTOR_SIZE;
          d5 = put_be32 d4 12 SDK_MAILBOX_REQUEST_OFFSET; d6 = put_be32 d5 16 (mb_entries m);
          d7 = put_be32 d6 28 (mailbox_completion_offset m); d8 = put_be32 d7 32 (mb_entries m)
      in m\<lparr>mb_desc := put_be32 d8 44 capability_bits,
           mb_reqs := replicate (unat (mb_entries m)) (replicate 64 0),
           mb_comps := replicate (unat (mb_entries m)) (replicate 64 0)\<rparr>)"

text \<open>
  The mailbox part of \<^verbatim>\<open>sdk_mailbox_init\<close>, with \<^verbatim>\<open>queue\<close> what \<^verbatim>\<open>scheduler_quiesce_for_reset\<close>
  leaves, and base and ring size what \<^verbatim>\<open>select_mailbox_placement\<close> chose.
\<close>

definition sdk_mailbox_init_rings :: "u32 \<Rightarrow> u32 \<Rightarrow> u32 \<Rightarrow> taskq \<Rightarrow> mailbox \<Rightarrow> mailbox" where
  "sdk_mailbox_init_rings base entries capability_bits queue m =
     (let m1 = m\<lparr>mb_queue := queue, mb_base := base, mb_entries := entries\<rparr>;
          m2 = (if base \<noteq> 0 then write_mailbox_descriptor capability_bits m1 else m1)
      in m2\<lparr>mb_status := SDK_STATUS_OK, mb_active := False, mb_pending := False,
           mb_generation := mb_generation m + 1, mb_irq_enabled := False,
           mb_completed := 0, mb_failed := 0, mb_irq := False\<rparr>)"

definition sdk_mailbox_doorbell :: "mailbox \<Rightarrow> mailbox" where
  "sdk_mailbox_doorbell m = m\<lparr>mb_active := True, mb_pending := True\<rparr>"

definition sdk_mailbox_irq_enable :: "mailbox \<Rightarrow> mailbox" where
  "sdk_mailbox_irq_enable m = m\<lparr>mb_irq_enabled := True, mb_irq := False\<rparr>"

definition sdk_mailbox_irq_disable :: "mailbox \<Rightarrow> mailbox" where
  "sdk_mailbox_irq_disable m = m\<lparr>mb_irq_enabled := False, mb_irq := False\<rparr>"

definition sdk_mailbox_ack_irq :: "mailbox \<Rightarrow> mailbox" where
  "sdk_mailbox_ack_irq m = m\<lparr>mb_irq := False\<rparr>"

section \<open>Deferring to the task queue\<close>

definition stamp_task :: "nat \<Rightarrow> mailbox \<Rightarrow> mailbox" where
  "stamp_task slot m = m\<lparr>mb_task_gen := (mb_task_gen m)[slot := mb_generation m]\<rparr>"

definition service_try_defer :: "bool \<Rightarrow> taskq_request \<Rightarrow> mailbox \<Rightarrow> u16 \<times> mailbox" where
  "service_try_defer batch_tail r m =
     (if mb_core1 m \<and> batch_tail
      then case taskq_enqueue r (mb_queue m) of
             (slot, q) \<Rightarrow> if slot \<ge> 0 then (SDK_STATUS_QUEUED, stamp_task (nat slot) (m\<lparr>mb_queue := q\<rparr>))
                          else (SDK_STATUS_BUSY, m)
      else (SDK_STATUS_BUSY, m))"

definition sdk_mailbox_enqueue_internal :: "u32 \<Rightarrow> bytes \<Rightarrow> mailbox \<Rightarrow> bool \<times> mailbox" where
  "sdk_mailbox_enqueue_internal op params m =
     (if \<not> mb_core1 m then (False, m)
      else case taskq_enqueue \<lparr>rq_opcode = op, rq_cls = TASK_LONG, rq_in_addr = 0, rq_in_len = 0, rq_out_addr = 0,
               rq_out_cap = 0, rq_request_id = 0, rq_user_cookie = 0, rq_params = Some params,
               rq_param_len = of_nat (length params)\<rparr> (mb_queue m) of
             (slot, q) \<Rightarrow> if slot < 0 then (False, m) else (True, stamp_task (nat slot) (m\<lparr>mb_queue := q\<rparr>)))"

definition sdk_mailbox_task_gen_ok :: "int \<Rightarrow> mailbox \<Rightarrow> bool" where
  "sdk_mailbox_task_gen_ok slot m =
     (if slot < 0 \<or> slot \<ge> int TASKQ_CAPACITY then False else mb_task_gen m ! nat slot = mb_generation m)"

text \<open>The app runtime's slot: core 0 fills it, core 1 runs what it holds.\<close>

definition defer_claim :: "defer_state \<Rightarrow> defer_state \<Rightarrow> app_defer \<Rightarrow> bool \<times> app_defer" where
  "defer_claim expected desired a = (if defer_state a = expected then (True, a\<lparr>defer_state := desired\<rparr>) else (False, a))"

definition queue_deferred :: "u16 \<Rightarrow> bytes \<Rightarrow> u16 \<Rightarrow> u32 \<Rightarrow> u32 \<Rightarrow> app_defer \<Rightarrow> bool \<times> app_defer" where
  "queue_deferred op req req_len i cookie a =
     (case defer_claim DEFER_IDLE DEFER_FILLING a of
        (False, a1) \<Rightarrow> (False, a1)
      | (True, a1) \<Rightarrow>
          let n = (if req_len > 48 then 48 else req_len)
          in (True, a1\<lparr>defer_req := take (unat n) req @ replicate (48 - unat n) 0, defer_opcode := op, defer_req_len := n,
                defer_request_id := i, defer_cookie := cookie, defer_reply_len := 0, defer_state := DEFER_POSTED\<rparr>))"

text \<open>
  Core 1: \<^verbatim>\<open>zzapp_services_poll\<close> claims a posted operation; \<^verbatim>\<open>run_deferred\<close>,
  \<^verbatim>\<open>zzapp_services_start_entered\<close> and \<^verbatim>\<open>zzapp_services_cancel_start\<close> end it.
\<close>

definition app_claim :: "app_defer \<Rightarrow> app_defer" where
  "app_claim a = snd (defer_claim DEFER_POSTED DEFER_RUNNING a)"

definition app_finish :: "u16 \<Rightarrow> app_defer \<Rightarrow> app_defer" where
  "app_finish status a = a\<lparr>defer_status := status, defer_reply_len := 0, defer_state := DEFER_DONE\<rparr>"

definition zzapp_services_cancel_start :: "u16 \<Rightarrow> app_defer \<Rightarrow> app_defer" where
  "zzapp_services_cancel_start status a =
     (if defer_state a = DEFER_RUNNING \<and> defer_opcode a = 0x0c05 then app_finish status a else a)"

definition zzapp_mailbox_harvest_ack :: "app_defer \<Rightarrow> app_defer" where
  "zzapp_mailbox_harvest_ack a = snd (defer_claim DEFER_DONE DEFER_IDLE a)"

section \<open>Requests\<close>

text \<open>
  A handler maps the request, the completion slot, the number of pending requests and the
  batch-tail flag to a status and the slot's new bytes; \<open>'w\<close> is the state of the services.
\<close>

type_synonym 'w request_handler =
  "bytes \<Rightarrow> bytes \<Rightarrow> u32 \<Rightarrow> bool \<Rightarrow> mailbox \<Rightarrow> 'w \<Rightarrow> u16 \<times> bytes \<times> mailbox \<times> 'w"

definition opcode_reserves_request_id_zero :: "u16 \<Rightarrow> bool" where
  "opcode_reserves_request_id_zero op \<longleftrightarrow> op \<in> {0x0400, 0x0407, 0x0401, 0x0500, 0x0504, 0x0505, 0x0405, 0x0406,
     0x0b01, 0x0b02, 0x0b03, 0x0b05, 0x0b06, 0x0b07, 0x0b0d, 0x0600, 0x0606, 0x0800, 0x0801, 0x0802, 0x0803,
     0x0804, 0x0408, 0x0409, 0x040a, 0x040b, 0x0c02, 0x0c03, 0x0c04, 0x0c05, 0x0a01, 0x0a02}"

definition handle_request :: "'w request_handler \<Rightarrow> 'w request_handler" where
  "handle_request dispatch req cmp pending batch_tail m w =
     (if get_be16 req 10 > 48
      then case complete_status req cmp SDK_STATUS_BAD_REQUEST of (s, c) \<Rightarrow> (s, c, m, w)
      else if get_be32 req 0 = 0 \<and> opcode_reserves_request_id_zero (get_be16 req 4)
      then case complete_status req cmp SDK_STATUS_BAD_REQUEST of (s, c) \<Rightarrow> (s, c, m, w)
      else dispatch req cmp pending batch_tail m w)"

text \<open>
  The loop of \<^verbatim>\<open>sdk_mailbox_task\<close> works on a copy of the four indices; the host moves its own
  two meanwhile.
\<close>

record task_view =
  tv_req_head :: u32
  tv_req_tail :: u32
  tv_comp_head :: u32
  tv_comp_tail :: u32
  tv_any :: bool

definition task_begin :: "mailbox \<Rightarrow> task_view option \<times> mailbox" where
  "task_begin m =
     (if mb_base m = 0 then (None, m\<lparr>mb_pending := False\<rparr>)
      else if \<not> mb_active m \<and> \<not> mb_pending m then (None, m)
      else if \<not> mb_pending m \<and> get_be32 (mb_desc m) 20 = get_be32 (mb_desc m) 24 then (None, m)
      else if \<not> descriptor_valid m then (None, m\<lparr>mb_pending := False, mb_status := SDK_STATUS_UNSUPPORTED\<rparr>)
      else (Some \<lparr>tv_req_head = get_be32 (mb_desc m) 20, tv_req_tail = get_be32 (mb_desc m) 24,
                 tv_comp_head = get_be32 (mb_desc m) 36, tv_comp_tail = get_be32 (mb_desc m) 40, tv_any = False\<rparr>, m))"

definition task_full :: "mailbox \<Rightarrow> task_view \<Rightarrow> bool" where
  "task_full m v \<longleftrightarrow> next_index m (tv_comp_tail v) = tv_comp_head v"

definition task_request :: "'w request_handler \<Rightarrow> task_view \<Rightarrow> mailbox \<Rightarrow> 'w \<Rightarrow> task_view \<times> mailbox \<times> 'w" where
  "task_request dispatch v m w =
     (let pending = (if tv_req_tail v \<ge> tv_req_head v then tv_req_tail v - tv_req_head v
                     else mb_entries m - tv_req_head v + tv_req_tail v);
          ct = unat (tv_comp_tail v); next_tail = next_index m (tv_comp_tail v);
          next_head = next_index m (tv_req_head v)
      in case handle_request dispatch (mb_reqs m ! unat (tv_req_head v)) (mb_comps m ! ct) pending (pending = 1) m w of
           (status, cmp, m1, w1) \<Rightarrow>
             let m2 = m1\<lparr>mb_status := status, mb_comps := (mb_comps m1)[ct := cmp]\<rparr>
             in if status = SDK_STATUS_QUEUED
                then (v\<lparr>tv_req_head := next_head\<rparr>, m2\<lparr>mb_desc := put_be32 (mb_desc m2) 20 next_head\<rparr>, w1)
                else (v\<lparr>tv_req_head := next_head, tv_comp_tail := next_tail, tv_any := True\<rparr>,
                      m2\<lparr>mb_completed := mb_completed m2 + 1,
                         mb_failed := (if status \<noteq> SDK_STATUS_OK then mb_failed m2 + 1 else mb_failed m2),
                         mb_desc := put_be32 (put_be32 (mb_desc m2) 20 next_head) 40 next_tail\<rparr>, w1))"

definition task_end :: "task_view \<Rightarrow> mailbox \<Rightarrow> mailbox" where
  "task_end v m =
     (let m1 = (if tv_req_head v = tv_req_tail v then m\<lparr>mb_pending := False\<rparr> else m)
      in if tv_any v \<and> mb_irq_enabled m1 then m1\<lparr>mb_irq := True\<rparr> else m1)"

partial_function (option) task_loop :: "'w request_handler \<Rightarrow> task_view \<Rightarrow> mailbox \<Rightarrow> 'w \<Rightarrow> (task_view \<times> mailbox \<times> 'w) option" where
  "task_loop dispatch v m w =
     (if tv_req_head v = tv_req_tail v then Some (v, m, w)
      else if task_full m v then Some (v, m\<lparr>mb_status := SDK_STATUS_BUSY\<rparr>, w)
      else case task_request dispatch v m w of (v1, m1, w1) \<Rightarrow> task_loop dispatch v1 m1 w1)"

section \<open>Deferred completions\<close>

text \<open>
  \<open>retire\<close> is what the completion means to the other services (id, cookie, opcode, status and
  result): an internal task's marker when the id is 0, else the media, image and overlay hooks.
\<close>

type_synonym 'w retire_hook = "u32 \<Rightarrow> u32 \<Rightarrow> u16 \<Rightarrow> u16 \<Rightarrow> bytes \<Rightarrow> 'w \<Rightarrow> 'w"

definition sdk_mailbox_post_deferred ::
    "'w retire_hook \<Rightarrow> u32 \<Rightarrow> u32 \<Rightarrow> u16 \<Rightarrow> u16 \<Rightarrow> bytes \<Rightarrow> u16 \<Rightarrow> mailbox \<Rightarrow> 'w \<Rightarrow> bool \<times> mailbox \<times> 'w" where
  "sdk_mailbox_post_deferred retire i cookie op status result len m w =
     (if i = 0 then (True, m, retire i cookie op status (take (unat len) result) w)
      else if \<not> mb_active m \<or> mb_base m = 0 then (False, m, w)
      else if \<not> descriptor_valid m then (False, m, w)
      else let comp_tail = get_be32 (mb_desc m) 40; next_tail = next_index m comp_tail
      in if next_tail = get_be32 (mb_desc m) 36 then (False, m, w)
         else let c0 = mb_comps m ! unat comp_tail; c1 = put_be32 c0 0 i; c2 = put_be16 c1 4 op;
                  c3 = put_be16 c2 6 status; c4 = put_be16 c3 8 0; c5 = put_be16 c4 10 len;
                  c6 = put_be32 c5 12 cookie; n = (if len > 48 then 48 else unat len);
                  cmp = (if len > 0 then put_payload (put_payload c6 (replicate 48 0)) (take n result) else c6)
              in (True, m\<lparr>mb_comps := (mb_comps m)[unat comp_tail := cmp], mb_desc := put_be32 (mb_desc m) 40 next_tail,
                    mb_completed := mb_completed m + 1,
                    mb_failed := (if status \<noteq> SDK_STATUS_OK then mb_failed m + 1 else mb_failed m),
                    mb_status := status, mb_irq := (mb_irq_enabled m \<or> mb_irq m)\<rparr>, retire i cookie op status (take (unat len) result) w))"

text \<open>One round of the harvest loop: \<open>None\<close> when the loop ends.\<close>

definition harvest_round :: "'w retire_hook \<Rightarrow> mailbox \<Rightarrow> 'w \<Rightarrow> (mailbox \<times> 'w) option" where
  "harvest_round retire m w =
     (let slot = taskq_harvest (mb_queue m)
      in if slot < 0 then None
         else if \<not> sdk_mailbox_task_gen_ok slot m then Some (m\<lparr>mb_queue := taskq_release (nat slot) (mb_queue m)\<rparr>, w)
         else let d = descs (mb_queue m) ! nat slot; failed = (tstate d = TASK_FAILED);
                  status = (if failed then SDK_STATUS_INTERNAL_ERROR else result_status d)
              in case sdk_mailbox_post_deferred retire (request_id d) (user_cookie d) (ucast (opcode d)) status
                     (result_payload d) (result_len d) m w of
                   (posted, m1, w1) \<Rightarrow>
                     if \<not> posted then None
                     else let m2 = (if failed then m1 else m1\<lparr>mb_watchdog := taskq_watchdog_on_success (mb_watchdog m1)\<rparr>)
                          in Some (m2\<lparr>mb_queue := taskq_release (nat slot) (mb_queue m2)\<rparr>, w1))"

partial_function (option) harvest_loop :: "'w retire_hook \<Rightarrow> mailbox \<Rightarrow> 'w \<Rightarrow> (mailbox \<times> 'w) option" where
  "harvest_loop retire m w =
     (case harvest_round retire m w of None \<Rightarrow> Some (m, w) | Some (m1, w1) \<Rightarrow> harvest_loop retire m1 w1)"

definition harvest_app_ops :: "'w retire_hook \<Rightarrow> mailbox \<Rightarrow> 'w \<Rightarrow> mailbox \<times> 'w" where
  "harvest_app_ops retire m w =
     (let a = mb_app m
      in if defer_state a \<noteq> DEFER_DONE then (m, w)
         else case sdk_mailbox_post_deferred retire (defer_request_id a) (defer_cookie a) (defer_opcode a) (defer_status a)
                (defer_reply a) (defer_reply_len a) m w of
                (posted, m1, w1) \<Rightarrow> (if posted then m1\<lparr>mb_app := zzapp_mailbox_harvest_ack (mb_app m1)\<rparr> else m1, w1))"

definition sdk_mailbox_task :: "'w retire_hook \<Rightarrow> 'w request_handler \<Rightarrow> mailbox \<Rightarrow> 'w \<Rightarrow> (mailbox \<times> 'w) option" where
  "sdk_mailbox_task retire dispatch m w =
     (case (if mb_base m = 0 then (m, w) else harvest_app_ops retire m w) of
        (m0, w0) \<Rightarrow>
          (case task_begin m0 of
             (None, m1) \<Rightarrow> Some (m1, w0)
           | (Some v, m1) \<Rightarrow>
               (case task_loop dispatch v m1 w0 of None \<Rightarrow> None | Some (v2, m2, w2) \<Rightarrow> Some (task_end v2 m2, w2))))"

section \<open>Host\<close>

record host_entry =
  he_request_id :: u32
  he_opcode :: u16
  he_status :: u16
  he_flags :: u16
  he_payload_len :: u16
  he_user_cookie :: u32
  he_data :: bytes

record host_context =
  hc_request_entries :: u32
  hc_completion_entries :: u32
  hc_next_request_id :: u32

definition zz9k_next_ring_index :: "u32 \<Rightarrow> u32 \<Rightarrow> u32" where
  "zz9k_next_ring_index i entries = (if i + 1 \<ge> entries then 0 else i + 1)"

definition zz9k_context_next_request_id :: "host_context \<Rightarrow> u32 \<times> host_context" where
  "zz9k_context_next_request_id c =
     (hc_next_request_id c,
      c\<lparr>hc_next_request_id := (if hc_next_request_id c + 1 = 0 then 1 else hc_next_request_id c + 1)\<rparr>)"

definition zz9k_entry_to_wire :: "bytes \<Rightarrow> host_entry \<Rightarrow> bytes" where
  "zz9k_entry_to_wire wire e =
     (let n = (if he_payload_len e > 48 then 48 else unat (he_payload_len e));
          w1 = put_be32 wire 0 (he_request_id e); w2 = put_be16 w1 4 (he_opcode e); w3 = put_be16 w2 6 (he_status e);
          w4 = put_be16 w3 8 (he_flags e); w5 = put_be16 w4 10 (he_payload_len e); w6 = put_be32 w5 12 (he_user_cookie e)
      in put_payload w6 (take n (he_data e)))"

definition zz9k_entry_from_wire :: "bytes \<Rightarrow> host_entry" where
  "zz9k_entry_from_wire w =
     \<lparr>he_request_id = get_be32 w 0, he_opcode = get_be16 w 4, he_status = get_be16 w 6, he_flags = get_be16 w 8,
      he_payload_len = get_be16 w 10, he_user_cookie = get_be32 w 12, he_data = take 48 (drop 16 w)\<rparr>"

text \<open>The statuses are the firmware's numbers. The result carries the id of the request.\<close>

definition zz9k_enqueue_request_locked :: "host_entry \<Rightarrow> host_context \<Rightarrow> mailbox \<Rightarrow> (u16 \<times> u32) \<times> host_context \<times> mailbox" where
  "zz9k_enqueue_request_locked e c m =
     (if he_payload_len e > 48 then ((SDK_STATUS_BAD_REQUEST, 0), c, m)
      else let head = get_be32 (mb_desc m) 20; tail = get_be32 (mb_desc m) 24
      in if head \<ge> hc_request_entries c \<or> tail \<ge> hc_request_entries c then ((SDK_STATUS_BAD_REQUEST, 0), c, m)
         else let next_tail = zz9k_next_ring_index tail (hc_request_entries c)
         in if next_tail = head then ((SDK_STATUS_BUSY, 0), c, m)
            else case (if he_request_id e = 0 then zz9k_context_next_request_id c else (he_request_id e, c)) of
                   (i, c1) \<Rightarrow>
                     let e1 = e\<lparr>he_request_id := i, he_status := SDK_STATUS_QUEUED\<rparr>
                     in ((SDK_STATUS_QUEUED, i), c1,
                         m\<lparr>mb_reqs := (mb_reqs m)[unat tail := zz9k_entry_to_wire (mb_reqs m ! unat tail) e1],
                           mb_desc := put_be32 (mb_desc m) 24 next_tail\<rparr>))"

definition zz9k_consume_next_completion_locked :: "host_context \<Rightarrow> mailbox \<Rightarrow> (u16 \<times> host_entry option) \<times> mailbox" where
  "zz9k_consume_next_completion_locked c m =
     (let head = get_be32 (mb_desc m) 36; tail = get_be32 (mb_desc m) 40
      in if head \<ge> hc_completion_entries c \<or> tail \<ge> hc_completion_entries c then ((SDK_STATUS_BAD_REQUEST, None), m)
         else if head = tail then ((SDK_STATUS_BUSY, None), m)
         else ((SDK_STATUS_OK, Some (zz9k_entry_from_wire (mb_comps m ! unat head))),
               m\<lparr>mb_desc := put_be32 (mb_desc m) 36 (zz9k_next_ring_index head (hc_completion_entries c))\<rparr>))"

end
