(* ===== verification/SdkRingSafety.thy ===== *)
theory SdkRingSafety
  imports SdkRings "HOL-Library.Multiset"
begin

unbundle bit_operations_syntax

text \<open>
  The mailbox rings as a system of interleaved steps (host, firmware task loop, harvest loop,
  worker core) with a history of what was posted, answered and read, and the invariant that
  ties the bytes of the rings to that history.
\<close>

section \<open>Reading what was written\<close>

lemma length_put [simp]:
  "length (put_be16 p k v) = length p" "length (put_be32 p k w) = length p"
  by (simp_all add: put_be16_def put_be32_def)

lemma length_put_payload [simp]: "16 + length bs \<le> length e \<Longrightarrow> length (put_payload e bs) = length e"
  by (simp add: put_payload_def)

lemma be32_join: "push_bit 24 (ucast (ucast (drop_bit 24 v) :: u8)) OR push_bit 16 (ucast (ucast (drop_bit 16 v) :: u8)) OR
    push_bit 8 (ucast (ucast (drop_bit 8 v) :: u8)) OR ucast (ucast v :: u8) = (v :: u32)"
proof (rule bit_word_eqI)
  fix n :: nat
  assume n: "n < LENGTH(32)"
  consider "n < 8" | "8 \<le> n" "n < 16" | "16 \<le> n" "n < 24" | "24 \<le> n" by linarith
  then show "bit (push_bit 24 (ucast (ucast (drop_bit 24 v) :: u8)) OR push_bit 16 (ucast (ucast (drop_bit 16 v) :: u8)) OR
    push_bit 8 (ucast (ucast (drop_bit 8 v) :: u8)) OR ucast (ucast v :: u8) :: u32) n \<longleftrightarrow> bit v n"
    by cases (use n in \<open>auto simp: bit_simps\<close>)
qed

lemma be16_join: "push_bit 8 (ucast (ucast (drop_bit 8 v) :: u8)) OR ucast (ucast v :: u8) = (v :: u16)"
  by (rule bit_word_eqI) (auto simp: bit_simps)

lemma get_put_same [simp]:
  "k + 3 < length p \<Longrightarrow> get_be32 (put_be32 p k v) k = v"
  "k + 1 < length p \<Longrightarrow> get_be16 (put_be16 p k w) k = w"
  by (simp_all add: get_be32_def put_be32_def get_be16_def put_be16_def nth_list_update be32_join be16_join)

lemma get_put_other [simp]:
  "j + 4 \<le> k \<or> k + 4 \<le> j \<Longrightarrow> get_be32 (put_be32 p k v) j = get_be32 p j"
  "j + 4 \<le> k \<or> k + 2 \<le> j \<Longrightarrow> get_be32 (put_be16 p k w) j = get_be32 p j"
  "j + 2 \<le> k \<or> k + 4 \<le> j \<Longrightarrow> get_be16 (put_be32 p k v) j = get_be16 p j"
  "j + 2 \<le> k \<or> k + 2 \<le> j \<Longrightarrow> get_be16 (put_be16 p k w) j = get_be16 p j"
  by (auto simp: get_be32_def put_be32_def get_be16_def put_be16_def nth_list_update)

lemma get_put_payload [simp]:
  "16 \<le> length e \<Longrightarrow> j + 4 \<le> 16 \<Longrightarrow> get_be32 (put_payload e bs) j = get_be32 e j"
  "16 \<le> length e \<Longrightarrow> j + 2 \<le> 16 \<Longrightarrow> get_be16 (put_payload e bs) j = get_be16 e j"
  by (simp_all add: get_be32_def get_be16_def put_payload_def nth_append)

text \<open>What identifies a request and its completion: id, opcode and cookie.\<close>

type_synonym tag = "u32 \<times> u16 \<times> u32"

definition entry_tag :: "bytes \<Rightarrow> tag" where
  "entry_tag e = (get_be32 e 0, get_be16 e 4, get_be32 e 12)"

definition desc_tag :: "taskq_desc \<Rightarrow> tag" where
  "desc_tag d = (request_id d, ucast (opcode d), user_cookie d)"

lemma write_completion_tag:
  assumes "length dst = 64"
  shows "length (write_completion dst src s n) = 64" "entry_tag (write_completion dst src s n) = entry_tag src"
    "get_be16 (write_completion dst src s n) 6 = s"
  using assms by (simp_all add: write_completion_def entry_tag_def Let_def)

section \<open>Handlers\<close>

text \<open>A deferral under the request's tag: to the task queue, or to the app runtime's slot.\<close>

definition defers_request :: "bytes \<Rightarrow> mailbox \<Rightarrow> mailbox \<Rightarrow> bool" where
  "defers_request req m m' \<longleftrightarrow>
     (\<exists>r. service_try_defer True r m = (SDK_STATUS_QUEUED, m') \<and>
        (rq_request_id r, ucast (rq_opcode r), rq_user_cookie r) = entry_tag req) \<or>
     (\<exists>i op cookie bs n a. queue_deferred op bs n i cookie (mb_app m) = (True, a) \<and> m' = m\<lparr>mb_app := a\<rparr> \<and>
        (i, op, cookie) = entry_tag req)"

text \<open>
  What the rings rely on: a handler answers in the slot with the request's tag and leaves the
  mailbox alone, or defers the request under its tag.
\<close>

locale request_dispatch =
  fixes dispatch :: "'w request_handler"
  assumes answer_length: "dispatch req slot pending tail m w = (s, c, m', w') \<Longrightarrow> length req = 64 \<Longrightarrow> length slot = 64 \<Longrightarrow>
      length c = 64"
    and answer_tag: "dispatch req slot pending tail m w = (s, c, m', w') \<Longrightarrow> length req = 64 \<Longrightarrow> length slot = 64 \<Longrightarrow> s \<noteq> SDK_STATUS_QUEUED \<Longrightarrow>
      m' = m \<and> entry_tag c = entry_tag req"
    and defer_tag: "dispatch req slot pending tail m w = (SDK_STATUS_QUEUED, c, m', w') \<Longrightarrow> length req = 64 \<Longrightarrow> length slot = 64 \<Longrightarrow>
      defers_request req m m'"

section \<open>Tasks in flight\<close>

definition slot_tags :: "mailbox \<Rightarrow> nat \<Rightarrow> tag multiset" where
  "slot_tags m i = (let d = descs (mb_queue m) ! i
     in if tstate d \<noteq> TASK_FREE \<and> mb_task_gen m ! i = mb_generation m \<and> request_id d \<noteq> 0 then {#desc_tag d#} else {#})"

definition app_tags :: "app_defer \<Rightarrow> tag multiset" where
  "app_tags a = (if defer_state a \<in> {DEFER_POSTED, DEFER_RUNNING, DEFER_DONE}
     then {#(defer_request_id a, defer_opcode a, defer_cookie a)#} else {#})"

definition deferred_tags :: "mailbox \<Rightarrow> tag multiset" where
  "deferred_tags m = (\<Sum>i<16. slot_tags m i) + app_tags (mb_app m)"

lemma deferred_tags_cong:
  "mb_queue m' = mb_queue m \<Longrightarrow> mb_task_gen m' = mb_task_gen m \<Longrightarrow> mb_generation m' = mb_generation m \<Longrightarrow>
    app_tags (mb_app m') = app_tags (mb_app m) \<Longrightarrow> deferred_tags m' = deferred_tags m"
  by (simp add: deferred_tags_def slot_tags_def)

lemma deferred_tags_update:
  assumes "j < 16" "\<And>i. i < 16 \<Longrightarrow> i \<noteq> j \<Longrightarrow> slot_tags m' i = slot_tags m i" "mb_app m' = mb_app m"
  shows "deferred_tags m' + slot_tags m j = deferred_tags m + slot_tags m' j"
proof -
  have s: "(\<Sum>i<16. f i) = f j + (\<Sum>i\<in>{..<16} - {j}. f i)" for f :: "nat \<Rightarrow> tag multiset"
    using assms(1) by (simp add: sum.remove)
  have "(\<Sum>i\<in>{..<16} - {j}. slot_tags m' i) = (\<Sum>i\<in>{..<16} - {j}. slot_tags m i)"
    using assms(2) by (intro sum.cong) auto
  then show ?thesis unfolding deferred_tags_def s [of "slot_tags m'"] s [of "slot_tags m"] assms(3) by (simp add: ac_simps)
qed

definition tasks_ok :: "mailbox \<Rightarrow> bool" where
  "tasks_ok m \<longleftrightarrow> taskq_ok (mb_queue m) \<and> length (mb_task_gen m) = 16"

lemma tasks_ok_queue: "tasks_ok m \<Longrightarrow> taskq_ok q \<Longrightarrow> tasks_ok (m\<lparr>mb_queue := q\<rparr>)"
  by (simp add: tasks_ok_def)

lemma taskq_enqueue_queued:
  assumes "tasks_ok m" "taskq_enqueue r (mb_queue m) = (slot, q)" "slot \<ge> 0"
  obtains i where "i < 16" "slot = int i" "slot_state (mb_queue m) i = TASK_FREE"
    "descs q = (descs (mb_queue m))[i := (taskq_fill r (descs (mb_queue m) ! i))\<lparr>tstate := TASK_QUEUED\<rparr>]" "taskq_ok q"
  using taskq_enqueue_spec [OF _ assms(2)] assms(1,3) by (auto simp: tasks_ok_def TASKQ_CAPACITY_def)

text \<open>An enqueue adds its tag, a release takes away the slot's.\<close>

lemma enqueue_tags:
  assumes ok: "tasks_ok m" and e: "taskq_enqueue r (mb_queue m) = (slot, q)" "slot \<ge> 0"
  defines "m' \<equiv> stamp_task (nat slot) (m\<lparr>mb_queue := q\<rparr>)"
  shows "tasks_ok m'" "deferred_tags m' = deferred_tags m +
    (if rq_request_id r = 0 then {#} else {#(rq_request_id r, ucast (rq_opcode r), rq_user_cookie r)#})"
proof -
  obtain i where i: "i < 16" "slot = int i" "slot_state (mb_queue m) i = TASK_FREE"
    "descs q = (descs (mb_queue m))[i := (taskq_fill r (descs (mb_queue m) ! i))\<lparr>tstate := TASK_QUEUED\<rparr>]"
    and spec: "taskq_ok q" by (rule taskq_enqueue_queued [OF ok e])
  show "tasks_ok m'" using ok spec by (simp add: m'_def stamp_task_def tasks_ok_def)
  have len: "length (descs (mb_queue m)) = 16" "length (mb_task_gen m) = 16"
    using ok by (simp_all add: tasks_ok_def taskq_ok_def TASKQ_CAPACITY_def)
  have "slot_tags m' k = slot_tags m k" if "k \<noteq> i" for k
    using that i len by (simp add: slot_tags_def m'_def stamp_task_def)
  moreover have "slot_tags m i = {#}" using i by (simp add: slot_tags_def)
  moreover have "slot_tags m' i = (if rq_request_id r = 0 then {#} else {#(rq_request_id r, ucast (rq_opcode r), rq_user_cookie r)#})"
    using i len by (simp add: slot_tags_def m'_def stamp_task_def taskq_fill_def desc_tag_def)
  ultimately show "deferred_tags m' = deferred_tags m +
    (if rq_request_id r = 0 then {#} else {#(rq_request_id r, ucast (rq_opcode r), rq_user_cookie r)#})"
    using deferred_tags_update [of i m' m] i(1) by (simp add: m'_def stamp_task_def)
qed

lemma release_tags:
  assumes ok: "tasks_ok m" and i: "i < 16"
  defines "m' \<equiv> m\<lparr>mb_queue := taskq_release i (mb_queue m)\<rparr>"
  shows "tasks_ok m'" "deferred_tags m' + slot_tags m i = deferred_tags m"
proof -
  show "tasks_ok m'" using ok by (simp add: m'_def tasks_ok_def taskq_release_def taskq_store_release_def taskq_ok_def)
  have len: "length (descs (mb_queue m)) = 16"
    using ok by (simp add: tasks_ok_def taskq_ok_def TASKQ_CAPACITY_def)
  have "slot_tags m' k = slot_tags m k" if "k \<noteq> i" for k
    using that by (simp add: slot_tags_def m'_def taskq_release_def taskq_store_release_def)
  moreover have "slot_tags m' i = {#}"
    using i len by (simp add: slot_tags_def m'_def taskq_release_def taskq_store_release_def)
  ultimately show "deferred_tags m' + slot_tags m i = deferred_tags m"
    using deferred_tags_update [of i m' m] i by (simp add: m'_def)
qed

text \<open>What the worker core and the inline drains do to the queue: states move, tags stay.\<close>

definition queue_moves :: "taskq \<Rightarrow> taskq \<Rightarrow> bool" where
  "queue_moves q q' \<longleftrightarrow> taskq_ok q' \<and> (\<forall>i<16. (slot_state q' i = TASK_FREE \<longleftrightarrow> slot_state q i = TASK_FREE) \<and>
     request_id (descs q' ! i) = request_id (descs q ! i) \<and> desc_tag (descs q' ! i) = desc_tag (descs q ! i))"

lemma queue_moves_tags:
  assumes "tasks_ok m" "queue_moves (mb_queue m) q"
  shows "tasks_ok (m\<lparr>mb_queue := q\<rparr>)" "deferred_tags (m\<lparr>mb_queue := q\<rparr>) = deferred_tags m"
proof -
  show "tasks_ok (m\<lparr>mb_queue := q\<rparr>)" using assms by (simp add: tasks_ok_def queue_moves_def)
  have "slot_tags (m\<lparr>mb_queue := q\<rparr>) i = slot_tags m i" if "i < 16" for i
    using assms(2) that by (simp add: slot_tags_def queue_moves_def Let_def)
  then show "deferred_tags (m\<lparr>mb_queue := q\<rparr>) = deferred_tags m"
    unfolding deferred_tags_def by simp
qed

lemma queue_moves_ops:
  assumes "taskq_ok q" "i < 16" "slot_state q i \<noteq> TASK_FREE"
  shows "v \<noteq> TASK_FREE \<Longrightarrow> queue_moves q (taskq_store_release q i v)"
    "queue_moves q (taskq_complete i s pl n q)" "queue_moves q (taskq_fail i s q)"
  using assms
  by (auto simp: queue_moves_def taskq_ok_def taskq_store_release_def taskq_complete_def taskq_fail_def desc_tag_def
      TASKQ_CAPACITY_def nth_list_update Let_def)

text \<open>What core 1 does to the app runtime's slot.\<close>

definition app_moves :: "app_defer \<Rightarrow> app_defer \<Rightarrow> bool" where
  "app_moves a a' \<longleftrightarrow> (defer_state a \<in> {DEFER_POSTED, DEFER_RUNNING, DEFER_DONE} \<longleftrightarrow>
     defer_state a' \<in> {DEFER_POSTED, DEFER_RUNNING, DEFER_DONE}) \<and> app_tags a' = app_tags a"

lemma app_moves_ops:
  "app_moves a (app_claim a)"
  "defer_state a = DEFER_RUNNING \<Longrightarrow> app_moves a (app_finish status a)"
  "app_moves a (zzapp_services_cancel_start status a)"
  by (auto simp: app_moves_def app_tags_def app_claim_def defer_claim_def app_finish_def zzapp_services_cancel_start_def)

text \<open>
  An operation other than a start that core 1 was running when it was restarted: nothing that
  either core does afterwards moves the slot, so it stays taken until the Amiga resets.
\<close>

lemma app_slot_stuck:
  assumes "defer_state a = DEFER_RUNNING" "defer_opcode a \<noteq> 0x0c05"
  shows "app_claim a = a" "zzapp_services_cancel_start status a = a" "zzapp_mailbox_harvest_ack a = a"
    "queue_deferred op bs n i cookie a = (False, a)"
  using assms
  by (simp_all add: app_claim_def defer_claim_def zzapp_services_cancel_start_def zzapp_mailbox_harvest_ack_def queue_deferred_def)

text \<open>A deferred request joins the tasks in flight.\<close>

lemma defers_request_tags:
  assumes ok: "tasks_ok m" and d: "defers_request req m m'" and i: "get_be32 req 0 \<noteq> 0"
  obtains q g a where "m' = m\<lparr>mb_queue := q, mb_task_gen := g, mb_app := a\<rparr>" "tasks_ok m'"
    "deferred_tags m' = deferred_tags m + {#entry_tag req#}"
  using d unfolding defers_request_def
proof (elim disjE exE conjE)
  fix r
  assume r: "service_try_defer True r m = (SDK_STATUS_QUEUED, m')"
    and tag: "(rq_request_id r, ucast (rq_opcode r), rq_user_cookie r) = entry_tag req"
  obtain slot q where q: "taskq_enqueue r (mb_queue m) = (slot, q)" "slot \<ge> 0" "m' = stamp_task (nat slot) (m\<lparr>mb_queue := q\<rparr>)"
    using r by (auto simp: service_try_defer_def SDK_STATUS_QUEUED_def SDK_STATUS_BUSY_def split: if_splits prod.splits)
  note tags = enqueue_tags [OF ok q(1,2), folded q(3)]
  have "rq_request_id r \<noteq> 0" using tag i by (simp add: entry_tag_def)
  then show thesis using tags tag q(3)
    by (intro that [where q = q and g = "(mb_task_gen m)[nat slot := mb_generation m]" and a = "mb_app m"]) (simp_all add: stamp_task_def)
next
  fix i op cookie bs n a
  assume a: "queue_deferred op bs n i cookie (mb_app m) = (True, a)" "m' = m\<lparr>mb_app := a\<rparr>" "(i, op, cookie) = entry_tag req"
  have "app_tags (mb_app m) = {#}" "app_tags a = {#entry_tag req#}"
    using a(1,3) by (auto simp: queue_deferred_def defer_claim_def app_tags_def Let_def split: if_splits)
  moreover have "(\<Sum>i<16. slot_tags m' i) = (\<Sum>i<16. slot_tags m i)" by (simp add: slot_tags_def a(2))
  ultimately show thesis using ok
    by (intro that [where q = "mb_queue m" and g = "mb_task_gen m" and a = a]) (simp_all add: a(2) deferred_tags_def tasks_ok_def)
qed

section \<open>Positions\<close>

text \<open>Index words as positions of an endless tape, taken modulo the ring size.\<close>

definition ring_pos :: "mailbox \<Rightarrow> nat \<Rightarrow> u32" where
  "ring_pos m k = of_nat (k mod unat (mb_entries m))"

lemma unat_ring_pos: "mb_entries m \<noteq> 0 \<Longrightarrow> unat (ring_pos m k) = k mod unat (mb_entries m)"
proof -
  assume "mb_entries m \<noteq> 0"
  then have "k mod unat (mb_entries m) < unat (mb_entries m)" by (simp add: unat_gt_0)
  then have "k mod unat (mb_entries m) < 4294967296" using unat_lt32 [of "mb_entries m"] by linarith
  then show ?thesis by (simp add: ring_pos_def unsigned_of_nat take_bit_nat_eq_self)
qed

lemma ring_pos_less: "mb_entries m \<noteq> 0 \<Longrightarrow> ring_pos m k < mb_entries m"
  by (simp add: word_less_nat_alt unat_ring_pos unat_gt_0)

lemma ring_next:
  assumes "mb_entries m \<noteq> 0"
  shows "zz9k_next_ring_index (ring_pos m k) (mb_entries m) = ring_pos m (Suc k)"
    "next_index m (ring_pos m k) = ring_pos m (Suc k)"
proof -
  let ?n = "unat (mb_entries m)"
  have n: "0 < ?n" "?n < 4294967296" using assms unat_lt32 [of "mb_entries m"] by (simp_all add: unat_gt_0)
  have lt: "k mod ?n < ?n" using n(1) by simp
  then have s: "unat (ring_pos m k + 1) = k mod ?n + 1"
    using unat_plus_no_wrap [of "ring_pos m k" 1] n(2) unat_ring_pos [OF assms, of k] by simp
  have "next_index m (ring_pos m k) = ring_pos m (Suc k)"
  proof (cases "k mod ?n + 1 = ?n")
    case True
    then show ?thesis using s by (simp add: next_index_def word_le_nat_alt ring_pos_def mod_Suc)
  next
    case False
    then have "\<not> ring_pos m k + 1 \<ge> mb_entries m" using lt s by (simp add: word_le_nat_alt)
    moreover have "ring_pos m k + 1 = ring_pos m (Suc k)"
      using False s unat_ring_pos [OF assms, of "Suc k"] by (simp add: mod_Suc word_unat_eq_iff)
    ultimately show ?thesis by (simp add: next_index_def)
  qed
  then show "next_index m (ring_pos m k) = ring_pos m (Suc k)"
    "zz9k_next_ring_index (ring_pos m k) (mb_entries m) = ring_pos m (Suc k)"
    by (simp_all add: next_index_def zz9k_next_ring_index_def)
qed

text \<open>Positions less than a ring apart coincide only if they are equal.\<close>

lemma ring_pos_eq:
  assumes "mb_entries m \<noteq> 0" "j \<le> k" "k < j + unat (mb_entries m)"
  shows "ring_pos m j = ring_pos m k \<longleftrightarrow> j = k"
proof
  assume "ring_pos m j = ring_pos m k"
  then have "j mod unat (mb_entries m) = k mod unat (mb_entries m)" using unat_ring_pos [OF assms(1)] by metis
  then have "unat (mb_entries m) dvd k - j" using assms(2) by (simp add: mod_eq_dvd_iff_nat [symmetric])
  then show "j = k" using assms(2,3) by (auto dest: dvd_imp_le)
qed simp

section \<open>The invariant\<close>

record ring_hist =
  rh_posted :: "bytes list"
  rh_taken :: nat
  rh_done :: "bytes list"
  rh_got :: "host_entry list"

definition mailbox_shape :: "mailbox \<Rightarrow> bool" where
  "mailbox_shape m \<longleftrightarrow> mb_base m \<noteq> 0 \<and> mb_entries m \<ge> 2 \<and> length (mb_desc m) = 128 \<and>
     length (mb_reqs m) = unat (mb_entries m) \<and> length (mb_comps m) = unat (mb_entries m) \<and>
     (\<forall>e\<in>set (mb_reqs m). length e = 64) \<and> (\<forall>e\<in>set (mb_comps m). length e = 64) \<and> tasks_ok m \<and>
     get_be32 (mb_desc m) 0 = SDK_MAILBOX_MAGIC \<and> get_be16 (mb_desc m) 4 = SDK_MAILBOX_ABI_MAJOR \<and>
     get_be32 (mb_desc m) 8 = SDK_MAILBOX_DESCRIPTOR_SIZE \<and> get_be32 (mb_desc m) 12 = SDK_MAILBOX_REQUEST_OFFSET \<and>
     get_be32 (mb_desc m) 28 = mailbox_completion_offset m \<and> get_be32 (mb_desc m) 16 = mb_entries m \<and>
     get_be32 (mb_desc m) 32 = mb_entries m \<and> get_be32 (mb_desc m) 44 AND SDK_CAP_MAILBOX \<noteq> 0"

definition ring_inv :: "mailbox \<Rightarrow> ring_hist \<Rightarrow> bool" where
  "ring_inv m h \<longleftrightarrow> (let n = unat (mb_entries m); t = rh_taken h; p = length (rh_posted h);
       c = length (rh_done h); r = length (rh_got h)
     in mailbox_shape m \<and> t \<le> p \<and> p < t + n \<and> r \<le> c \<and> c < r + n \<and>
        get_be32 (mb_desc m) 20 = ring_pos m t \<and> get_be32 (mb_desc m) 24 = ring_pos m p \<and>
        get_be32 (mb_desc m) 36 = ring_pos m r \<and> get_be32 (mb_desc m) 40 = ring_pos m c \<and>
        (\<forall>i. t \<le> i \<and> i < p \<longrightarrow> mb_reqs m ! (i mod n) = rh_posted h ! i) \<and>
        (\<forall>i. r \<le> i \<and> i < c \<longrightarrow> mb_comps m ! (i mod n) = rh_done h ! i) \<and>
        rh_got h = map zz9k_entry_from_wire (take r (rh_done h)) \<and>
        (\<forall>e\<in>set (rh_posted h). get_be32 e 0 \<noteq> 0) \<and>
        image_mset entry_tag (mset (take t (rh_posted h))) = image_mset entry_tag (mset (rh_done h)) + deferred_tags m)"

text \<open>The indices the firmware's loop works on: its own exact, the host's possibly old.\<close>

definition view_inv :: "mailbox \<Rightarrow> ring_hist \<Rightarrow> task_view \<Rightarrow> bool" where
  "view_inv m h v \<longleftrightarrow> (\<exists>p r. rh_taken h \<le> p \<and> p \<le> length (rh_posted h) \<and> r \<le> length (rh_got h) \<and>
     length (rh_done h) < r + unat (mb_entries m) \<and>
     tv_req_head v = ring_pos m (rh_taken h) \<and> tv_req_tail v = ring_pos m p \<and>
     tv_comp_head v = ring_pos m r \<and> tv_comp_tail v = ring_pos m (length (rh_done h)))"

lemma shape_entries: "mailbox_shape m \<Longrightarrow> mb_entries m \<noteq> 0" "mailbox_shape m \<Longrightarrow> 2 \<le> unat (mb_entries m)"
  by (auto simp: mailbox_shape_def word_le_nat_alt)

lemma ring_invD:
  assumes "ring_inv m h"
  shows "mailbox_shape m" "rh_taken h \<le> length (rh_posted h)" "length (rh_posted h) < rh_taken h + unat (mb_entries m)"
    "length (rh_got h) \<le> length (rh_done h)" "length (rh_done h) < length (rh_got h) + unat (mb_entries m)"
    "get_be32 (mb_desc m) 20 = ring_pos m (rh_taken h)" "get_be32 (mb_desc m) 24 = ring_pos m (length (rh_posted h))"
    "get_be32 (mb_desc m) 36 = ring_pos m (length (rh_got h))" "get_be32 (mb_desc m) 40 = ring_pos m (length (rh_done h))"
    "\<And>i. rh_taken h \<le> i \<Longrightarrow> i < length (rh_posted h) \<Longrightarrow> mb_reqs m ! (i mod unat (mb_entries m)) = rh_posted h ! i"
    "\<And>i. length (rh_got h) \<le> i \<Longrightarrow> i < length (rh_done h) \<Longrightarrow> mb_comps m ! (i mod unat (mb_entries m)) = rh_done h ! i"
    "rh_got h = map zz9k_entry_from_wire (take (length (rh_got h)) (rh_done h))"
    "\<And>e. e \<in> set (rh_posted h) \<Longrightarrow> get_be32 e 0 \<noteq> 0"
    "image_mset entry_tag (mset (take (rh_taken h) (rh_posted h))) = image_mset entry_tag (mset (rh_done h)) + deferred_tags m"
  using assms unfolding ring_inv_def Let_def by blast+

lemma ring_descriptor_valid: "ring_inv m h \<Longrightarrow> descriptor_valid m"
  using ring_pos_less [OF shape_entries(1)]
  by (auto simp: ring_inv_def mailbox_shape_def descriptor_valid_def Let_def)

text \<open>Changes outside the shared memory and the queue.\<close>

definition same_rings :: "mailbox \<Rightarrow> mailbox \<Rightarrow> bool" where
  "same_rings m m' \<longleftrightarrow> mb_base m' = mb_base m \<and> mb_entries m' = mb_entries m \<and> mb_desc m' = mb_desc m \<and>
     mb_reqs m' = mb_reqs m \<and> mb_comps m' = mb_comps m"

lemma ring_pos_cong: "mb_entries m' = mb_entries m \<Longrightarrow> ring_pos m' = ring_pos m"
  by (rule ext) (simp add: ring_pos_def)

lemma ring_inv_cong:
  assumes "same_rings m m'" "tasks_ok m'" "deferred_tags m' = deferred_tags m" "ring_inv m h"
  shows "ring_inv m' h"
  using assms ring_pos_cong [of m' m]
  by (simp add: same_rings_def ring_inv_def mailbox_shape_def mailbox_completion_offset_def Let_def)

lemma view_inv_cong: "mb_entries m' = mb_entries m \<Longrightarrow> view_inv m' h v = view_inv m h v"
  using ring_pos_cong [of m' m] by (simp add: view_inv_def)

section \<open>The two ends keep the invariant\<close>

lemma mod_apart:
  fixes n :: nat
  assumes "i < p" "p < i + n"
  shows "i mod n \<noteq> p mod n"
proof
  assume "i mod n = p mod n"
  then have "n dvd p - i" using assms(1) by (simp add: mod_eq_dvd_iff_nat [symmetric])
  then show False using assms by (auto dest: dvd_imp_le)
qed

lemma shape_desc:
  assumes "mailbox_shape m" "k \<in> {20, 24, 36, 40}"
  shows "mailbox_shape (m\<lparr>mb_desc := put_be32 (mb_desc m) k v\<rparr>)"
  using assms by (auto simp: mailbox_shape_def mailbox_completion_offset_def tasks_ok_def)

lemma shape_slots:
  assumes "mailbox_shape m" "length e = 64"
  shows "mailbox_shape (m\<lparr>mb_reqs := (mb_reqs m)[i := e]\<rparr>)" "mailbox_shape (m\<lparr>mb_comps := (mb_comps m)[i := e]\<rparr>)"
  using assms set_update_subset_insert [of "mb_reqs m" i e] set_update_subset_insert [of "mb_comps m" i e]
  by (auto simp: mailbox_shape_def mailbox_completion_offset_def tasks_ok_def)

lemma shape_nth:
  assumes "mailbox_shape m"
  shows "length (mb_reqs m ! (k mod unat (mb_entries m))) = 64" "length (mb_comps m ! (k mod unat (mb_entries m))) = 64"
proof -
  have "k mod unat (mb_entries m) < unat (mb_entries m)" using shape_entries(2) [OF assms] by simp
  then show "length (mb_reqs m ! (k mod unat (mb_entries m))) = 64" "length (mb_comps m ! (k mod unat (mb_entries m))) = 64"
    using assms by (simp_all add: mailbox_shape_def)
qed

text \<open>The host posts a request.\<close>

definition host_ok :: "host_context \<Rightarrow> mailbox \<Rightarrow> bool" where
  "host_ok c m \<longleftrightarrow> hc_request_entries c = mb_entries m \<and> hc_completion_entries c = mb_entries m \<and> hc_next_request_id c \<noteq> 0"

lemma entry_to_wire_ok:
  assumes "length w = 64" "he_payload_len e \<le> 48"
  shows "length (zz9k_entry_to_wire w e) = 64" "get_be32 (zz9k_entry_to_wire w e) 0 = he_request_id e"
proof -
  have "length (take (unat (he_payload_len e)) (he_data e)) \<le> 48" using assms(2) by (simp add: word_le_nat_alt)
  then show "length (zz9k_entry_to_wire w e) = 64" "get_be32 (zz9k_entry_to_wire w e) 0 = he_request_id e"
    using assms by (simp_all add: zz9k_entry_to_wire_def Let_def)
qed

lemma host_post_ok:
  assumes inv: "ring_inv m h" and c: "host_ok c m"
    and res: "zz9k_enqueue_request_locked e c m = ((SDK_STATUS_QUEUED, i), c', m')"
  defines "w \<equiv> mb_reqs m' ! unat (get_be32 (mb_desc m) 24)"
  shows "ring_inv m' (h\<lparr>rh_posted := rh_posted h @ [w]\<rparr>)" "host_ok c' m'" "mb_entries m' = mb_entries m"
    "get_be32 w 0 = i"
proof -
  note I = ring_invD [OF inv]
  note ne = shape_entries [OF I(1)]
  let ?n = "unat (mb_entries m)" and ?p = "length (rh_posted h)"
  obtain id c1 where id: "(if he_request_id e = 0 then zz9k_context_next_request_id c else (he_request_id e, c)) = (id, c1)" by fastforce
  define e1 where "e1 = e\<lparr>he_request_id := id, he_status := SDK_STATUS_QUEUED\<rparr>"
  define x where "x = zz9k_entry_to_wire (mb_reqs m ! (?p mod ?n)) e1"
  have ents: "hc_request_entries c = mb_entries m" using c by (simp add: host_ok_def)
  have tl: "unat (ring_pos m ?p) = ?p mod ?n" by (rule unat_ring_pos [OF ne(1)])
  note res' = res [unfolded zz9k_enqueue_request_locked_def Let_def ents I(6,7) ring_next(1) [OF ne(1)] tl id prod.case]
  have len: "he_payload_len e \<le> 48" using res' by (simp add: SDK_STATUS_BAD_REQUEST_def SDK_STATUS_QUEUED_def not_less split: if_splits)
  have full: "ring_pos m (Suc ?p) \<noteq> ring_pos m (rh_taken h)"
    using res' by (simp add: SDK_STATUS_BAD_REQUEST_def SDK_STATUS_BUSY_def SDK_STATUS_QUEUED_def split: if_splits)
  have m': "m' = m\<lparr>mb_reqs := (mb_reqs m)[?p mod ?n := x], mb_desc := put_be32 (mb_desc m) 24 (ring_pos m (Suc ?p))\<rparr>"
    and c': "c' = c1" "i = id"
    using res' by (auto simp: x_def e1_def SDK_STATUS_BAD_REQUEST_def SDK_STATUS_BUSY_def SDK_STATUS_QUEUED_def split: if_splits)
  have idn: "id \<noteq> 0" using id c by (auto simp: zz9k_context_next_request_id_def host_ok_def split: if_splits)
  note xw = entry_to_wire_ok [OF shape_nth(1) [OF I(1)], of e1 ?p]
  have x: "length x = 64" "get_be32 x 0 = id" using xw len by (simp_all add: x_def e1_def)
  have room: "Suc ?p < rh_taken h + ?n"
  proof -
    have "Suc ?p \<noteq> rh_taken h + ?n" using full by (auto simp: ring_pos_def)
    with I(3) show ?thesis by linarith
  qed
  have lt: "?p mod ?n < length (mb_reqs m)" using I(1) ne(2) by (simp add: mailbox_shape_def)
  have w: "w = x" using lt by (simp add: w_def m' I(7) tl)
  show "get_be32 w 0 = i" by (simp add: w x c')
  show "mb_entries m' = mb_entries m" by (simp add: m')
  show "host_ok c' m'" using id c by (auto simp: host_ok_def m' c' zz9k_context_next_request_id_def split: if_splits)
  have shape: "mailbox_shape m'"
    using shape_desc [OF shape_slots(1) [OF I(1) x(1), of "?p mod ?n"], of 24 "ring_pos m (Suc ?p)"] by (simp add: m')
  have pos: "ring_pos m' = ring_pos m" by (rule ring_pos_cong) (simp add: m')
  have slots: "mb_reqs m' ! (k mod ?n) = (rh_posted h @ [w]) ! k" if "rh_taken h \<le> k" "k < Suc ?p" for k
  proof (cases "k = ?p")
    case False
    with that have "k mod ?n \<noteq> ?p mod ?n" using mod_apart [of k ?p ?n] I(3) by linarith
    with False that I(10) show ?thesis by (simp add: m' nth_append)
  qed (use lt in \<open>simp add: m' w\<close>)
  have def: "deferred_tags m' = deferred_tags m" by (rule deferred_tags_cong) (simp_all add: m')
  have d: "length (mb_desc m) = 128" using I(1) by (simp add: mailbox_shape_def)
  show "ring_inv m' (h\<lparr>rh_posted := rh_posted h @ [w]\<rparr>)"
    unfolding ring_inv_def Let_def pos def using shape slots I(2) room I(4,5,6,8,9,11,12,13,14) d x(2) idn w
    by (simp add: m' )
qed

text \<open>The host reads a completion.\<close>

lemma host_poll_ok:
  assumes inv: "ring_inv m h" and c: "host_ok c m"
    and res: "zz9k_consume_next_completion_locked c m = ((SDK_STATUS_OK, Some e), m')"
  shows "ring_inv m' (h\<lparr>rh_got := rh_got h @ [e]\<rparr>)" "mb_entries m' = mb_entries m"
proof -
  note I = ring_invD [OF inv]
  note ne = shape_entries [OF I(1)]
  let ?n = "unat (mb_entries m)" and ?r = "length (rh_got h)"
  have ents: "hc_completion_entries c = mb_entries m" using c by (simp add: host_ok_def)
  have tl: "unat (ring_pos m ?r) = ?r mod ?n" by (rule unat_ring_pos [OF ne(1)])
  note res' = res [unfolded zz9k_consume_next_completion_locked_def Let_def ents I(8,9) ring_next(1) [OF ne(1)] tl]
  have some: "ring_pos m ?r \<noteq> ring_pos m (length (rh_done h))"
    using res' by (auto simp: SDK_STATUS_OK_def SDK_STATUS_BUSY_def SDK_STATUS_BAD_REQUEST_def split: if_splits)
  have m': "m' = m\<lparr>mb_desc := put_be32 (mb_desc m) 36 (ring_pos m (Suc ?r))\<rparr>" and e: "e = zz9k_entry_from_wire (mb_comps m ! (?r mod ?n))"
    using res' by (auto simp: SDK_STATUS_OK_def SDK_STATUS_BUSY_def SDK_STATUS_BAD_REQUEST_def split: if_splits)
  have lt: "?r < length (rh_done h)" using some I(4) by (cases "?r = length (rh_done h)") auto
  have e': "e = zz9k_entry_from_wire (rh_done h ! ?r)" unfolding e using I(11) [OF _ lt] by simp
  have got: "rh_got h @ [e] = map zz9k_entry_from_wire (take (Suc ?r) (rh_done h))"
    using I(12) e' lt by (metis (no_types) list.simps(8,9) map_append take_Suc_conv_app_nth)
  show "mb_entries m' = mb_entries m" by (simp add: m')
  have pos: "ring_pos m' = ring_pos m" by (rule ring_pos_cong) (simp add: m')
  have def: "deferred_tags m' = deferred_tags m" by (rule deferred_tags_cong) (simp_all add: m')
  have shape: "mailbox_shape m'" using shape_desc [OF I(1), of 36] by (simp add: m')
  have d: "length (mb_desc m) = 128" using I(1) by (simp add: mailbox_shape_def)
  show "ring_inv m' (h\<lparr>rh_got := rh_got h @ [e]\<rparr>)"
    unfolding ring_inv_def Let_def pos def using shape I(2,3,5,6,7,9,10,11,13,14) lt got d
    by (simp add: m')
qed

text \<open>The firmware takes a copy of the indices.\<close>

lemma task_begin_ok:
  assumes inv: "ring_inv m h" and res: "task_begin m = (v, m')"
  shows "same_rings m m'" "mb_queue m' = mb_queue m \<and> mb_task_gen m' = mb_task_gen m \<and> mb_generation m' = mb_generation m \<and> mb_app m' = mb_app m"
    "v = Some x \<Longrightarrow> view_inv m' h x"
proof -
  note I = ring_invD [OF inv]
  show "same_rings m m'" "mb_queue m' = mb_queue m \<and> mb_task_gen m' = mb_task_gen m \<and> mb_generation m' = mb_generation m \<and> mb_app m' = mb_app m"
    using res by (auto simp: task_begin_def same_rings_def split: if_splits)
  assume "v = Some x"
  then have x: "m' = m" "x = \<lparr>tv_req_head = get_be32 (mb_desc m) 20, tv_req_tail = get_be32 (mb_desc m) 24,
                 tv_comp_head = get_be32 (mb_desc m) 36, tv_comp_tail = get_be32 (mb_desc m) 40, tv_any = False\<rparr>"
    using res by (auto simp: task_begin_def split: if_splits)
  show "view_inv m' h x" unfolding x view_inv_def
    by (rule exI [of _ "length (rh_posted h)"], rule exI [of _ "length (rh_got h)"]) (use I in simp)
qed

text \<open>An append to the completion ring.\<close>

lemma completion_append:
  assumes shape: "mailbox_shape m" and room: "length (rh_done h) < length (rh_got h) + unat (mb_entries m)"
    and comps: "\<And>i. length (rh_got h) \<le> i \<Longrightarrow> i < length (rh_done h) \<Longrightarrow> mb_comps m ! (i mod unat (mb_entries m)) = rh_done h ! i"
    and i: "length (rh_got h) \<le> i" "i < Suc (length (rh_done h))"
  shows "(mb_comps m)[length (rh_done h) mod unat (mb_entries m) := e] ! (i mod unat (mb_entries m)) = (rh_done h @ [e]) ! i"
proof (cases "i = length (rh_done h)")
  case True
  have "length (rh_done h) mod unat (mb_entries m) < length (mb_comps m)"
    using shape shape_entries(2) [OF shape] by (simp add: mailbox_shape_def)
  with True show ?thesis by simp
next
  case False
  with i have "i mod unat (mb_entries m) \<noteq> length (rh_done h) mod unat (mb_entries m)"
    using mod_apart [of i "length (rh_done h)" "unat (mb_entries m)"] room by linarith
  with False i comps [of i] show ?thesis by (simp add: nth_append)
qed

text \<open>A full ring as the firmware sees it: one slot stays unused.\<close>

lemma view_room:
  assumes "view_inv m h v" "mb_entries m \<noteq> 0" "\<not> task_full m v" "length (rh_got h) \<le> length (rh_done h)"
  obtains r where "r \<le> length (rh_got h)" "Suc (length (rh_done h)) < r + unat (mb_entries m)" "tv_comp_head v = ring_pos m r"
proof -
  from assms(1) obtain r where r: "r \<le> length (rh_got h)" "length (rh_done h) < r + unat (mb_entries m)"
    "tv_comp_head v = ring_pos m r" "tv_comp_tail v = ring_pos m (length (rh_done h))" by (auto simp: view_inv_def)
  have "ring_pos m (Suc (length (rh_done h))) \<noteq> ring_pos m r"
    using assms(3) by (simp add: task_full_def r ring_next(2) [OF assms(2)])
  then have "Suc (length (rh_done h)) \<noteq> r + unat (mb_entries m)" by (auto simp: ring_pos_def)
  with r show thesis by (intro that [of r]) simp_all
qed

text \<open>The history after one request: taken, and answered unless it was deferred.\<close>

definition hist_request :: "task_view \<Rightarrow> mailbox \<Rightarrow> ring_hist \<Rightarrow> ring_hist" where
  "hist_request v m' h =
     (if mb_status m' = SDK_STATUS_QUEUED then h\<lparr>rh_taken := Suc (rh_taken h)\<rparr>
      else h\<lparr>rh_taken := Suc (rh_taken h), rh_done := rh_done h @ [mb_comps m' ! unat (tv_comp_tail v)]\<rparr>)"

text \<open>A request is deferred: its completion slot keeps whatever the handler left in it.\<close>

lemma request_deferred_ok:
  assumes inv: "ring_inv m h" and lt: "rh_taken h < length (rh_posted h)" and c: "length c = 64"
    and m1: "m1 = m\<lparr>mb_queue := q, mb_task_gen := g, mb_app := a\<rparr>" "tasks_ok m1"
      "deferred_tags m1 = deferred_tags m + {#entry_tag (rh_posted h ! rh_taken h)#}"
  shows "ring_inv (m1\<lparr>mb_status := s, mb_comps := (mb_comps m)[length (rh_done h) mod unat (mb_entries m) := c],
    mb_desc := put_be32 (mb_desc m) 20 (ring_pos m (Suc (rh_taken h)))\<rparr>) (h\<lparr>rh_taken := Suc (rh_taken h)\<rparr>)" (is "ring_inv ?m' ?h")
proof -
  note I = ring_invD [OF inv]
  let ?n = "unat (mb_entries m)" and ?c = "length (rh_done h)"
  have sh: "mailbox_shape ?m'"
    using shape_desc [OF shape_slots(2) [OF I(1) c, of "?c mod ?n"], of 20 "ring_pos m (Suc (rh_taken h))"] m1(2)
    by (simp add: m1(1) mailbox_shape_def mailbox_completion_offset_def tasks_ok_def)
  have pos: "ring_pos ?m' = ring_pos m" by (rule ring_pos_cong) (simp add: m1)
  have "deferred_tags ?m' = deferred_tags m1" by (rule deferred_tags_cong) simp_all
  then have def: "deferred_tags ?m' = deferred_tags m + {#entry_tag (rh_posted h ! rh_taken h)#}" using m1(3) by simp
  have cps: "(mb_comps m)[?c mod ?n := c] ! (i mod ?n) = rh_done h ! i" if "length (rh_got h) \<le> i" "i < ?c" for i
    using completion_append [OF I(1,5,11), of i c] that by (simp add: nth_append)
  have d: "length (mb_desc m) = 128" using I(1) by (simp add: mailbox_shape_def)
  show ?thesis
    unfolding ring_inv_def Let_def pos def using sh I(3,4,5,7,8,9,10,12,13,14) lt d cps
    by (simp add: m1(1) take_Suc_conv_app_nth)
qed

text \<open>A request is answered: the completion slot gets the answer and both indices move.\<close>

lemma request_answered_ok:
  assumes inv: "ring_inv m h" and lt: "rh_taken h < length (rh_posted h)"
    and c: "length c = 64" "entry_tag c = entry_tag (rh_posted h ! rh_taken h)"
    and room: "Suc (length (rh_done h)) < length (rh_got h) + unat (mb_entries m)"
  shows "ring_inv (m\<lparr>mb_status := s, mb_comps := (mb_comps m)[length (rh_done h) mod unat (mb_entries m) := c],
    mb_completed := nc, mb_failed := nf,
    mb_desc := put_be32 (put_be32 (mb_desc m) 20 (ring_pos m (Suc (rh_taken h)))) 40 (ring_pos m (Suc (length (rh_done h))))\<rparr>)
   (h\<lparr>rh_taken := Suc (rh_taken h), rh_done := rh_done h @ [c]\<rparr>)" (is "ring_inv ?m' ?h")
proof -
  note I = ring_invD [OF inv]
  let ?n = "unat (mb_entries m)" and ?c = "length (rh_done h)"
  have sh: "mailbox_shape ?m'"
    using shape_desc [OF shape_desc [OF shape_slots(2) [OF I(1) c(1), of "?c mod ?n"], of 20 "ring_pos m (Suc (rh_taken h))"], of 40 "ring_pos m (Suc ?c)"]
    by (simp add: mailbox_shape_def mailbox_completion_offset_def tasks_ok_def)
  have pos: "ring_pos ?m' = ring_pos m" by (rule ring_pos_cong) simp
  have def: "deferred_tags ?m' = deferred_tags m" by (rule deferred_tags_cong) simp_all
  have d: "length (mb_desc m) = 128" using I(1) by (simp add: mailbox_shape_def)
  show ?thesis
    unfolding ring_inv_def Let_def pos def
    using sh I(3,4,7,8,10,12,13,14) lt d room completion_append [OF I(1,5,11), of _ c]
    by (simp add: take_Suc_conv_app_nth c(2))
qed

context request_dispatch
begin

lemma request_answer:
  assumes "handle_request dispatch req slot pending tail m w = (s, c, m', w')" "length req = 64" "length slot = 64"
  shows "length c = 64" "s \<noteq> SDK_STATUS_QUEUED \<Longrightarrow> m' = m \<and> entry_tag c = entry_tag req"
    "s = SDK_STATUS_QUEUED \<Longrightarrow> defers_request req m m'"
proof -
  consider "s = SDK_STATUS_BAD_REQUEST" "c = write_completion slot req SDK_STATUS_BAD_REQUEST 0" "m' = m"
    | "dispatch req slot pending tail m w = (s, c, m', w')"
    using assms(1) by (auto simp: handle_request_def complete_status_def split: if_splits)
  then show "length c = 64" "s \<noteq> SDK_STATUS_QUEUED \<Longrightarrow> m' = m \<and> entry_tag c = entry_tag req"
    "s = SDK_STATUS_QUEUED \<Longrightarrow> defers_request req m m'"
    using write_completion_tag [OF assms(3)] answer_length [OF _ assms(2,3)] answer_tag [OF _ assms(2,3)] defer_tag [OF _ assms(2,3)]
    by (cases; auto simp: SDK_STATUS_BAD_REQUEST_def SDK_STATUS_QUEUED_def)+
qed

lemma task_request_ok:
  assumes inv: "ring_inv m h" and view: "view_inv m h v" and more: "tv_req_head v \<noteq> tv_req_tail v" "\<not> task_full m v"
    and res: "task_request dispatch v m w = (v', m', w')"
  shows "ring_inv m' (hist_request v m' h) \<and> view_inv m' (hist_request v m' h) v' \<and> mb_entries m' = mb_entries m \<and>
    tv_req_tail v' = tv_req_tail v"
proof -
  note I = ring_invD [OF inv]
  note ne = shape_entries [OF I(1)]
  let ?n = "unat (mb_entries m)" and ?t = "rh_taken h" and ?c = "length (rh_done h)"
  from view obtain p where p: "?t \<le> p" "p \<le> length (rh_posted h)" "tv_req_head v = ring_pos m ?t" "tv_req_tail v = ring_pos m p"
    "tv_comp_tail v = ring_pos m ?c" by (auto simp: view_inv_def)
  obtain r where r: "r \<le> length (rh_got h)" "Suc ?c < r + ?n" "tv_comp_head v = ring_pos m r"
    by (rule view_room [OF view ne(1) more(2) I(4)])
  have lt: "?t < p" using more(1) p by (cases "?t = p") auto
  then have tp: "?t < length (rh_posted h)" using p(2) by simp
  have idx: "unat (tv_req_head v) = ?t mod ?n" "unat (tv_comp_tail v) = ?c mod ?n"
    by (simp_all add: p unat_ring_pos [OF ne(1)])
  have req: "mb_reqs m ! (?t mod ?n) = rh_posted h ! ?t" using I(10) [of ?t] tp by simp
  have clt: "?c mod ?n < length (mb_comps m)" using I(1) ne(2) by (simp add: mailbox_shape_def)
  have nx: "next_index m (tv_req_head v) = ring_pos m (Suc ?t)" "next_index m (tv_comp_tail v) = ring_pos m (Suc ?c)"
    by (simp_all add: p ring_next(2) [OF ne(1)])
  obtain s c m1 w1 pend where hr: "handle_request dispatch (rh_posted h ! ?t) (mb_comps m ! (?c mod ?n)) pend (pend = 1) m w = (s, c, m1, w1)"
    and upd: "(v', m', w') = (let m2 = m1\<lparr>mb_status := s, mb_comps := (mb_comps m1)[?c mod ?n := c]\<rparr>
             in if s = SDK_STATUS_QUEUED
                then (v\<lparr>tv_req_head := ring_pos m (Suc ?t)\<rparr>, m2\<lparr>mb_desc := put_be32 (mb_desc m2) 20 (ring_pos m (Suc ?t))\<rparr>, w1)
                else (v\<lparr>tv_req_head := ring_pos m (Suc ?t), tv_comp_tail := ring_pos m (Suc ?c), tv_any := True\<rparr>,
                      m2\<lparr>mb_completed := mb_completed m2 + 1,
                         mb_failed := (if s \<noteq> SDK_STATUS_OK then mb_failed m2 + 1 else mb_failed m2),
                         mb_desc := put_be32 (put_be32 (mb_desc m2) 20 (ring_pos m (Suc ?t))) 40 (ring_pos m (Suc ?c))\<rparr>, w1))"
    using res unfolding task_request_def Let_def idx nx req by (auto split: prod.splits)
  have rlen: "length (rh_posted h ! ?t) = 64" using shape_nth(1) [OF I(1), of ?t] by (simp add: req)
  note ans = request_answer [OF hr rlen shape_nth(2) [OF I(1)]]
  have id: "get_be32 (rh_posted h ! ?t) 0 \<noteq> 0" using I(13) tp by simp
  show ?thesis
  proof (cases "s = SDK_STATUS_QUEUED")
    case True
    have tk: "tasks_ok m" using I(1) by (simp add: mailbox_shape_def)
    obtain q g a where m1: "m1 = m\<lparr>mb_queue := q, mb_task_gen := g, mb_app := a\<rparr>" "tasks_ok m1"
      "deferred_tags m1 = deferred_tags m + {#entry_tag (rh_posted h ! ?t)#}"
      by (rule defers_request_tags [OF tk ans(3) [OF True] id])
    have m': "m' = m1\<lparr>mb_status := s, mb_comps := (mb_comps m)[?c mod ?n := c], mb_desc := put_be32 (mb_desc m) 20 (ring_pos m (Suc ?t))\<rparr>"
      and v': "v' = v\<lparr>tv_req_head := ring_pos m (Suc ?t)\<rparr>"
      using upd True by (simp_all add: m1(1) Let_def)
    have hist: "hist_request v m' h = h\<lparr>rh_taken := Suc ?t\<rparr>" using True by (simp add: hist_request_def m')
    have pos: "ring_pos m' = ring_pos m" by (rule ring_pos_cong) (simp add: m' m1(1))
    have "view_inv m' (h\<lparr>rh_taken := Suc ?t\<rparr>) v'"
      unfolding view_inv_def pos v' using lt p r by (intro exI [of _ p] exI [of _ r]) (simp add: m' m1(1))
    with request_deferred_ok [OF inv tp ans(1) m1, where s = s] show ?thesis unfolding hist by (simp add: m' v' m1(1))
  next
    case False
    have m1: "m1 = m" "entry_tag c = entry_tag (rh_posted h ! ?t)" using ans(2) [OF False] by auto
    have m': "m' = m\<lparr>mb_status := s, mb_comps := (mb_comps m)[?c mod ?n := c], mb_completed := mb_completed m + 1,
        mb_failed := (if s \<noteq> SDK_STATUS_OK then mb_failed m + 1 else mb_failed m),
        mb_desc := put_be32 (put_be32 (mb_desc m) 20 (ring_pos m (Suc ?t))) 40 (ring_pos m (Suc ?c))\<rparr>"
      and v': "v' = v\<lparr>tv_req_head := ring_pos m (Suc ?t), tv_comp_tail := ring_pos m (Suc ?c), tv_any := True\<rparr>"
      using upd False by (simp_all add: m1(1) Let_def)
    have hist: "hist_request v m' h = h\<lparr>rh_taken := Suc ?t, rh_done := rh_done h @ [c]\<rparr>"
      using False clt by (simp add: hist_request_def m' idx)
    have pos: "ring_pos m' = ring_pos m" by (rule ring_pos_cong) (simp add: m')
    have "view_inv m' (h\<lparr>rh_taken := Suc ?t, rh_done := rh_done h @ [c]\<rparr>) v'"
      unfolding view_inv_def pos v' using lt p r by (intro exI [of _ p] exI [of _ r]) (simp add: m')
    moreover have "Suc ?c < length (rh_got h) + ?n" using r(1,2) by linarith
    note request_answered_ok [OF inv tp ans(1) m1(2) this, where s = s and nc = "mb_completed m + 1"
        and nf = "if s \<noteq> SDK_STATUS_OK then mb_failed m + 1 else mb_failed m", folded m']
    ultimately show ?thesis unfolding hist by (simp add: m' v')
  qed
qed

end

section \<open>Harvesting\<close>

definition hist_harvest :: "mailbox \<Rightarrow> mailbox \<Rightarrow> ring_hist \<Rightarrow> ring_hist" where
  "hist_harvest m m' h =
     (if get_be32 (mb_desc m') 40 = get_be32 (mb_desc m) 40 then h
      else h\<lparr>rh_done := rh_done h @ [mb_comps m' ! unat (get_be32 (mb_desc m) 40)]\<rparr>)"

lemma post_deferred_cases:
  assumes inv: "ring_inv m h" and res: "sdk_mailbox_post_deferred retire i cookie op status result len m w = (True, m', w')"
  obtains (internal) "i = 0" "m' = m"
  | (posted) c where "i \<noteq> 0" "length c = 64" "entry_tag c = (i, op, cookie)"
      "ring_pos m (Suc (length (rh_done h))) \<noteq> ring_pos m (length (rh_got h))"
      "m' = m\<lparr>mb_comps := (mb_comps m)[length (rh_done h) mod unat (mb_entries m) := c],
         mb_desc := put_be32 (mb_desc m) 40 (ring_pos m (Suc (length (rh_done h)))),
         mb_completed := mb_completed m + 1, mb_failed := (if status \<noteq> SDK_STATUS_OK then mb_failed m + 1 else mb_failed m),
         mb_status := status, mb_irq := (mb_irq_enabled m \<or> mb_irq m)\<rparr>"
proof (cases "i = 0")
  case True
  then show thesis using res internal by (simp add: sdk_mailbox_post_deferred_def)
next
  case False
  note I = ring_invD [OF inv]
  note ne = shape_entries [OF I(1)]
  let ?c = "length (rh_done h)" and ?n = "unat (mb_entries m)"
  define c0 where "c0 = mb_comps m ! (?c mod ?n)"
  have l0: "length c0 = 64" using shape_nth(2) [OF I(1)] by (simp add: c0_def)
  define c6 where "c6 = put_be32 (put_be16 (put_be16 (put_be16 (put_be16 (put_be32 c0 0 i) 4 op) 6 status) 8 0) 10 len) 12 cookie"
  have c6: "length c6 = 64" "entry_tag c6 = (i, op, cookie)" by (simp_all add: c6_def l0 entry_tag_def)
  define c where "c = (if len > 0 then put_payload (put_payload c6 (replicate 48 0))
    (take (if len > 48 then 48 else unat len) result) else c6)"
  have "length (take (if len > 48 then 48 else unat len) result) \<le> 48"
    by (auto simp: word_less_nat_alt not_less)
  then have c: "length c = 64" "entry_tag c = (i, op, cookie)"
    using c6 by (simp_all add: c_def entry_tag_def)
  show thesis
    using res False I(8,9) ring_next(2) [OF ne(1), of ?c] unat_ring_pos [OF ne(1), of ?c]
    by (intro posted [OF False c])
      (auto simp: sdk_mailbox_post_deferred_def Let_def c_def c6_def c0_def split: if_splits)
qed

text \<open>A completion moves from the tasks in flight to the ring.\<close>

lemma post_deferred_ok:
  assumes inv: "ring_inv m h" and res: "sdk_mailbox_post_deferred retire i cookie op status result len m w = (True, mp, w1)"
    and m': "m' = mp\<lparr>mb_watchdog := wd, mb_queue := q, mb_app := a\<rparr>" "tasks_ok m'"
    and tags: "deferred_tags m = deferred_tags m' + (if i = 0 then {#} else {#(i, op, cookie)#})"
  shows "ring_inv m' (hist_harvest m m' h) \<and> mb_entries m' = mb_entries m"
  using inv res
proof (cases rule: post_deferred_cases)
  case internal
  then have "same_rings m m'" by (simp add: m'(1) same_rings_def)
  moreover have "deferred_tags m' = deferred_tags m" using tags internal by simp
  ultimately show ?thesis using ring_inv_cong [OF _ m'(2) _ inv] by (auto simp: hist_harvest_def same_rings_def)
next
  case (posted c)
  note I = ring_invD [OF inv]
  note ne = shape_entries [OF I(1)]
  let ?c = "length (rh_done h)" and ?n = "unat (mb_entries m)"
  have clt: "?c mod ?n < length (mb_comps m)" using I(1) ne(2) by (simp add: mailbox_shape_def)
  have "Suc ?c \<noteq> length (rh_got h) + ?n" using posted(4) by (auto simp: ring_pos_def)
  with I(5) have room: "Suc ?c < length (rh_got h) + ?n" by linarith
  have step: "ring_pos m (Suc ?c) \<noteq> ring_pos m ?c" using ring_pos_eq [OF ne(1), of ?c "Suc ?c"] ne(2) by auto
  have d: "length (mb_desc m) = 128" using I(1) by (simp add: mailbox_shape_def)
  have hist: "hist_harvest m m' h = h\<lparr>rh_done := rh_done h @ [c]\<rparr>"
    using step clt d I(9) by (simp add: hist_harvest_def m'(1) posted(5) unat_ring_pos [OF ne(1)])
  have sh: "mailbox_shape m'"
    using shape_desc [OF shape_slots(2) [OF I(1) posted(2), of "?c mod ?n"], of 40 "ring_pos m (Suc ?c)"] m'(2)
    by (simp add: m'(1) posted(5) mailbox_shape_def mailbox_completion_offset_def tasks_ok_def)
  have pos: "ring_pos m' = ring_pos m" by (rule ring_pos_cong) (simp add: m'(1) posted(5))
  have "image_mset entry_tag (mset (take (rh_taken h) (rh_posted h))) =
      image_mset entry_tag (mset (rh_done h @ [c])) + deferred_tags m'"
    using I(14) posted(1,3) unfolding tags by simp
  then have "ring_inv m' (h\<lparr>rh_done := rh_done h @ [c]\<rparr>)"
    unfolding ring_inv_def Let_def pos
    using sh I(2,3,4,6,7,8,10,12,13) d room completion_append [OF I(1,5,11), of _ c]
    by (simp add: m'(1) posted(5))
  then show ?thesis by (simp add: hist) (simp add: m'(1) posted(5))
qed

lemma harvested_slot:
  assumes "taskq_harvest q = slot" "\<not> slot < 0"
  shows "nat slot < 16" "slot_state q (nat slot) \<noteq> TASK_FREE"
proof -
  from assms obtain k where k: "slot_scan (\<lambda>d. tstate d = TASK_DONE \<or> tstate d = TASK_FAILED) q 0 TASKQ_CAPACITY = Some k" "slot = int k"
    by (auto simp: taskq_harvest_def split: option.splits)
  from slot_scan_Some [OF k(1)] k(2) show "nat slot < 16" "slot_state q (nat slot) \<noteq> TASK_FREE"
    by (auto simp: TASKQ_CAPACITY_def)
qed

lemma harvest_round_posted:
  assumes res: "harvest_round retire m w = Some (m', w')" and slot: "slot = taskq_harvest (mb_queue m)" "\<not> slot < 0"
    and i: "i = nat slot" and gen: "sdk_mailbox_task_gen_ok slot m"
  shows "\<exists>m1 w1 st wd. sdk_mailbox_post_deferred retire (request_id (descs (mb_queue m) ! i)) (user_cookie (descs (mb_queue m) ! i))
      (ucast (opcode (descs (mb_queue m) ! i))) st (result_payload (descs (mb_queue m) ! i)) (result_len (descs (mb_queue m) ! i)) m w = (True, m1, w1) \<and>
    m' = m1\<lparr>mb_watchdog := wd, mb_queue := taskq_release i (mb_queue m1)\<rparr>"
proof -
  let ?d = "descs (mb_queue m) ! i"
  let ?st = "if tstate ?d = TASK_FAILED then SDK_STATUS_INTERNAL_ERROR else result_status ?d"
  obtain ok m1 w1 where pd: "sdk_mailbox_post_deferred retire (request_id ?d) (user_cookie ?d) (ucast (opcode ?d)) ?st (result_payload ?d) (result_len ?d) m w = (ok, m1, w1)"
    by (metis prod_cases3)
  note r = res [unfolded harvest_round_def Let_def slot(1) [symmetric] i [symmetric] pd prod.case]
  have ok: "ok" using r slot(2) gen by (simp split: if_splits)
  define m2 where "m2 = (if tstate ?d = TASK_FAILED then m1 else m1\<lparr>mb_watchdog := taskq_watchdog_on_success (mb_watchdog m1)\<rparr>)"
  have "m' = m2\<lparr>mb_queue := taskq_release i (mb_queue m2)\<rparr>" using r slot(2) gen ok by (simp add: m2_def)
  then have "m' = m1\<lparr>mb_watchdog := mb_watchdog m2, mb_queue := taskq_release i (mb_queue m1)\<rparr>"
    by (cases m1) (simp add: m2_def)
  with pd ok show ?thesis
    by (intro exI [of _ m1] exI [of _ w1] exI [of _ ?st] exI [of _ "mb_watchdog m2"]) simp
qed

lemma harvest_round_ok:
  assumes inv: "ring_inv m h" and res: "harvest_round retire m w = Some (m', w')"
  shows "ring_inv m' (hist_harvest m m' h) \<and> mb_entries m' = mb_entries m"
proof -
  note I = ring_invD [OF inv]
  define slot where "slot = taskq_harvest (mb_queue m)"
  define i where "i = nat slot"
  have nn: "\<not> slot < 0" using res by (auto simp: harvest_round_def slot_def Let_def)
  note hs = harvested_slot [OF slot_def [symmetric] nn, folded i_def]
  have tk: "tasks_ok m" using I(1) by (simp add: mailbox_shape_def)
  note rel = release_tags [OF tk hs(1)]
  let ?d = "descs (mb_queue m) ! i" and ?rel = "m\<lparr>mb_queue := taskq_release i (mb_queue m)\<rparr>"
  have "slot < 16" using hs(1) nn by (simp add: i_def)
  with nn have gen: "sdk_mailbox_task_gen_ok slot m \<longleftrightarrow> mb_task_gen m ! i = mb_generation m"
    by (simp add: sdk_mailbox_task_gen_ok_def i_def TASKQ_CAPACITY_def)
  show ?thesis
  proof (cases "sdk_mailbox_task_gen_ok slot m")
    case False
    then have m': "m' = ?rel" using res nn by (auto simp: harvest_round_def slot_def i_def Let_def)
    have "slot_tags m i = {#}" using False gen by (simp add: slot_tags_def)
    then have "deferred_tags m' = deferred_tags m" using rel(2) by (simp add: m')
    then have "ring_inv m' h" using rel(1) ring_inv_cong [of m m', OF _ _ _ inv] by (simp add: m' same_rings_def)
    then show ?thesis by (simp add: hist_harvest_def m')
  next
    case True
    obtain m1 w1 st wd where
      pd: "sdk_mailbox_post_deferred retire (request_id ?d) (user_cookie ?d) (ucast (opcode ?d)) st (result_payload ?d) (result_len ?d) m w = (True, m1, w1)"
      and m': "m' = m1\<lparr>mb_watchdog := wd, mb_queue := taskq_release i (mb_queue m1)\<rparr>"
      using harvest_round_posted [OF res slot_def nn i_def True] by blast
    have keep: "mb_queue m1 = mb_queue m" "mb_task_gen m1 = mb_task_gen m" "mb_generation m1 = mb_generation m" "mb_app m1 = mb_app m"
      using pd by (auto simp: sdk_mailbox_post_deferred_def Let_def split: if_splits)
    have "deferred_tags m' = deferred_tags ?rel" by (rule deferred_tags_cong) (simp_all add: m' keep)
    moreover have "slot_tags m i = (if request_id ?d = 0 then {#} else {#(request_id ?d, ucast (opcode ?d), user_cookie ?d)#})"
      using hs(2) True gen by (simp add: slot_tags_def desc_tag_def Let_def)
    ultimately have "deferred_tags m = deferred_tags m' +
        (if request_id ?d = 0 then {#} else {#(request_id ?d, ucast (opcode ?d), user_cookie ?d)#})" using rel(2) by simp
    moreover have "tasks_ok m'" using rel(1) by (simp add: m' keep tasks_ok_def)
    moreover have "m' = m1\<lparr>mb_watchdog := wd, mb_queue := taskq_release i (mb_queue m1), mb_app := mb_app m\<rparr>"
      by (simp add: m' keep(4) [symmetric])
    ultimately show ?thesis by (intro post_deferred_ok [OF inv pd])
  qed
qed

lemma harvest_app_ok:
  assumes inv: "ring_inv m h" and res: "harvest_app_ops retire m w = (m', w')"
  shows "ring_inv m' (hist_harvest m m' h) \<and> mb_entries m' = mb_entries m"
proof -
  let ?a = "mb_app m"
  obtain ok m1 w1 where pd: "sdk_mailbox_post_deferred retire (defer_request_id ?a) (defer_cookie ?a) (defer_opcode ?a) (defer_status ?a)
      (defer_reply ?a) (defer_reply_len ?a) m w = (ok, m1, w1)" by (metis prod_cases3)
  show ?thesis
  proof (cases "defer_state ?a = DEFER_DONE \<and> ok")
    case False
    have "\<not> ok \<Longrightarrow> m1 = m" using pd by (auto simp: sdk_mailbox_post_deferred_def Let_def split: if_splits)
    then have "m' = m" using False res pd by (auto simp: harvest_app_ops_def Let_def split: if_splits)
    then show ?thesis using inv by (simp add: hist_harvest_def)
  next
    case True
    have keep: "mb_queue m1 = mb_queue m" "mb_task_gen m1 = mb_task_gen m" "mb_generation m1 = mb_generation m" "mb_app m1 = ?a"
      using pd by (auto simp: sdk_mailbox_post_deferred_def Let_def split: if_splits)
    have m': "m' = m1\<lparr>mb_app := ?a\<lparr>defer_state := DEFER_IDLE\<rparr>\<rparr>"
      using True res pd keep(4) by (simp add: harvest_app_ops_def zzapp_mailbox_harvest_ack_def defer_claim_def)
    have "(\<Sum>i<16. slot_tags m' i) = (\<Sum>i<16. slot_tags m i)" by (simp add: slot_tags_def m' keep)
    moreover have "app_tags ?a = {#(defer_request_id ?a, defer_opcode ?a, defer_cookie ?a)#}" using True by (simp add: app_tags_def)
    ultimately have tags: "deferred_tags m = deferred_tags m' + {#(defer_request_id ?a, defer_opcode ?a, defer_cookie ?a)#}"
      by (simp add: deferred_tags_def m' app_tags_def)
    have tk: "tasks_ok m'" using ring_invD(1) [OF inv] by (simp add: mailbox_shape_def tasks_ok_def m' keep)
    have "defer_request_id ?a \<noteq> 0"
    proof -
      have "(defer_request_id ?a, defer_opcode ?a, defer_cookie ?a) \<in># image_mset entry_tag (mset (take (rh_taken h) (rh_posted h)))"
        using ring_invD(14) [OF inv] tags by simp
      then obtain e where "e \<in> set (rh_posted h)" "get_be32 e 0 = defer_request_id ?a"
        by (auto simp: entry_tag_def dest: in_set_takeD)
      then show ?thesis using ring_invD(13) [OF inv] by metis
    qed
    then show ?thesis
      using pd True tags tk m' by (intro post_deferred_ok [OF inv, where mp = m1 and wd = "mb_watchdog m1" and q = "mb_queue m1"
            and a = "?a\<lparr>defer_state := DEFER_IDLE\<rparr>"]) auto
  qed
qed

lemma internal_ok:
  assumes inv: "ring_inv m h" and res: "sdk_mailbox_enqueue_internal op p m = (ok, m')"
  shows "ring_inv m' h" "mb_entries m' = mb_entries m"
proof -
  note I = ring_invD [OF inv]
  have tk: "tasks_ok m" using I(1) by (simp add: mailbox_shape_def)
  define r where "r = \<lparr>rq_opcode = op, rq_cls = TASK_LONG, rq_in_addr = 0, rq_in_len = 0, rq_out_addr = 0,
               rq_out_cap = 0, rq_request_id = 0, rq_user_cookie = 0, rq_params = Some p,
               rq_param_len = of_nat (length p)\<rparr>"
  obtain slot q where e: "taskq_enqueue r (mb_queue m) = (slot, q)" by fastforce
  show "ring_inv m' h" "mb_entries m' = mb_entries m"
  proof (atomize (full), cases "mb_core1 m \<and> \<not> slot < 0")
    case True
    then have m': "m' = stamp_task (nat slot) (m\<lparr>mb_queue := q\<rparr>)" and nn: "slot \<ge> 0"
      using res e by (auto simp: sdk_mailbox_enqueue_internal_def r_def)
    note tags = enqueue_tags [OF tk e nn, folded m']
    have "deferred_tags m' = deferred_tags m" using tags(2) by (simp add: r_def)
    with tags(1) show "ring_inv m' h \<and> mb_entries m' = mb_entries m"
      using ring_inv_cong [OF _ _ _ inv, of m'] by (simp add: m' stamp_task_def same_rings_def)
  next
    case False
    then have "m' = m" using res e by (auto simp: sdk_mailbox_enqueue_internal_def r_def split: if_splits)
    then show "ring_inv m' h \<and> mb_entries m' = mb_entries m" using inv by simp
  qed
qed

end
