(* ===== verification/SdkIsolation.thy ===== *)
theory SdkIsolation
  imports SdkBuffers
begin

unbundle bit_operations_syntax

text \<open>
  The invariant of the mailbox's handle tables: every entry in use is backed by the
  allocator its flags name, and no two entries share a byte. Slots 0 to 31 are the
  shared buffers, 32 to 47 the surfaces.
\<close>

section \<open>Entries\<close>

datatype area = Heap | Pool | Window

record entry =
  en_area :: area
  en_addr :: u32
  en_len :: u32
  en_owner :: u32

definition buffer_entry :: "shared_buffer \<Rightarrow> entry" where
  "buffer_entry b = \<lparr>en_area = (if bf_flags b AND SDK_ALLOC_MEDIA \<noteq> 0 then Pool
       else if bf_flags b AND SDK_ALLOC_HOST_WINDOW \<noteq> 0 then Window else Heap),
     en_addr = bf_address b, en_len = bf_length b, en_owner = bf_owner b\<rparr>"

definition surface_entry :: "sdk_surface \<Rightarrow> entry" where
  "surface_entry s = \<lparr>en_area = (if surface_is_arm_local s then Pool else Heap),
     en_addr = sf_address s, en_len = sf_length s, en_owner = sf_owner s\<rparr>"

definition sdk_slot :: "sdk_mem \<Rightarrow> nat \<Rightarrow> entry option" where
  "sdk_slot m k =
     (if k < 32 then if bf_in_use (sdk_buffers m ! k) then Some (buffer_entry (sdk_buffers m ! k)) else None
      else if k < 48 then if sf_in_use (sdk_surfaces m ! (k - 32)) then Some (surface_entry (sdk_surfaces m ! (k - 32))) else None
      else None)"

definition en_span :: "entry \<Rightarrow> region" where
  "en_span e = (unat (en_addr e), unat (en_len e))"

definition entry_ok :: "sdk_mem \<Rightarrow> entry \<Rightarrow> bool" where
  "entry_ok m e \<longleftrightarrow>
     (case en_area e of
        Heap \<Rightarrow> en_owner e = 0 \<and> heap_range_valid (en_addr e) (en_len e) m \<and> en_addr e \<noteq> SDK_HOST_WINDOW_Z3_ADDRESS
      | Pool \<Rightarrow> card_pool_block_owned (en_addr e) (en_len e) (en_owner e) (sdk_pool m)
      | Window \<Rightarrow> en_owner e = 0 \<and> host_window_range_valid (en_addr e) (en_len e) m)"

definition buffer_wf :: "sdk_mem \<Rightarrow> shared_buffer \<Rightarrow> bool" where
  "buffer_wf m b \<longleftrightarrow> (bf_in_use b \<longrightarrow>
     bf_handle b \<noteq> 0 \<and> bf_handle b \<noteq> SDK_INVALID_HANDLE \<and> entry_ok m (buffer_entry b))"

definition geometry_ok :: "sdk_surface \<Rightarrow> bool" where
  "geometry_ok s \<longleftrightarrow> sf_width s \<noteq> 0 \<and> sf_height s \<noteq> 0 \<and> sf_pitch s \<noteq> 0 \<and>
     surface_min_row_bytes (sf_format s) (sf_width s) \<noteq> 0 \<and>
     sf_pitch s \<ge> surface_min_row_bytes (sf_format s) (sf_width s) \<and>
     sf_height s \<le> UINT32_MAX div sf_pitch s \<and> sf_length s = sf_pitch s * sf_height s"

definition surface_wf :: "sdk_mem \<Rightarrow> sdk_surface \<Rightarrow> bool" where
  "surface_wf m s \<longleftrightarrow> (sf_in_use s \<longrightarrow>
     sf_handle s \<noteq> 0 \<and> sf_handle s \<noteq> SDK_INVALID_HANDLE \<and> sf_handle s \<noteq> SDK_SURFACE_HANDLE_FRAMEBUFFER \<and>
     geometry_ok s \<and> entry_ok m (surface_entry s))"

text \<open>
  The storage below the tables: the two allocators are sound and manage their areas, and the
  host window is either below the heap or the range the boot code reserves inside it.
\<close>

definition window_apart :: "sdk_mem \<Rightarrow> bool" where
  "window_apart m \<longleftrightarrow> (let base = effective_host_window_address m; sz = effective_host_window_size m
     in base \<noteq> 0 \<longrightarrow> unat base + unat sz \<le> unat HOST_VISIBLE_HEAP_ADDRESS \<or>
          base = SDK_HOST_WINDOW_Z3_ADDRESS \<and> sz = SDK_HOST_WINDOW_HEAP_SIZE)"

definition stores_ok :: "sdk_mem \<Rightarrow> bool" where
  "stores_ok m \<longleftrightarrow> sa_inv (sdk_heap m) \<and> sa_base (sdk_heap m) = HOST_VISIBLE_HEAP_ADDRESS \<and>
     sa_end (sdk_heap m) = HOST_VISIBLE_HEAP_ADDRESS + HOST_VISIBLE_HEAP_SIZE \<and>
     (unat SDK_HOST_WINDOW_Z3_ADDRESS, unat SDK_HOST_WINDOW_HEAP_SIZE) \<in> set (sa_regions (sdk_heap m)) \<and>
     cp_inv (sdk_pool m) \<and> (\<forall>r\<in>set (cp_ranges (sdk_pool m)). CARD_POOL_PERMANENT_ADDRESS \<le> cpr_base r) \<and>
     window_apart m"

definition entries_apart :: "sdk_mem \<Rightarrow> bool" where
  "entries_apart m \<longleftrightarrow> (\<forall>k k' e e'. k \<noteq> k' \<longrightarrow> sdk_slot m k = Some e \<longrightarrow> sdk_slot m k' = Some e' \<longrightarrow>
     disjoint_regions (en_span e) (en_span e'))"

definition sdk_inv :: "sdk_mem \<Rightarrow> bool" where
  "sdk_inv m \<longleftrightarrow> stores_ok m \<and> length (sdk_buffers m) = 32 \<and> length (sdk_surfaces m) = 16 \<and>
     (\<forall>b\<in>set (sdk_buffers m). buffer_wf m b) \<and> (\<forall>s\<in>set (sdk_surfaces m). surface_wf m s) \<and> entries_apart m"

lemmas sdk_sizes = SDK_MAX_SHARED_BUFFERS_def SDK_MAX_SURFACES_def
lemmas sdk_areas = HOST_VISIBLE_HEAP_ADDRESS_def HOST_VISIBLE_HEAP_SIZE_def SDK_HOST_WINDOW_Z3_ADDRESS_def
  SDK_HOST_WINDOW_HEAP_SIZE_def CARD_POOL_PERMANENT_ADDRESS_def SDK_HOST_WINDOW_HEAP_ADDRESS_def

section \<open>Well-formed entries are live\<close>

text \<open>What the checks read: the allocators and the aperture, not the tables or memory.\<close>

definition same_stores :: "sdk_mem \<Rightarrow> sdk_mem \<Rightarrow> bool" where
  "same_stores m m' \<longleftrightarrow> sdk_heap m' = sdk_heap m \<and> sdk_pool m' = sdk_pool m \<and> sdk_aperture m' = sdk_aperture m"

lemma same_stores_window:
  assumes "sdk_aperture m' = sdk_aperture m"
  shows "effective_host_window_address m' = effective_host_window_address m"
    "effective_host_window_size m' = effective_host_window_size m"
  using assms by (simp_all add: effective_host_window_address_def effective_host_window_size_def aperture_contract_present_def)

lemma same_stores_cong:
  assumes "same_stores m m'"
  shows "entry_ok m' e = entry_ok m e" "shared_buffer_live m' b = shared_buffer_live m b"
    "surface_live m' s = surface_live m s" "stores_ok m' = stores_ok m"
    "buffer_wf m' b = buffer_wf m b" "surface_wf m' s = surface_wf m s"
  using assms same_stores_window [of m' m]
  by (simp_all add: same_stores_def entry_ok_def shared_buffer_live_def surface_live_def stores_ok_def
      buffer_wf_def surface_wf_def heap_range_valid_def host_window_range_valid_def window_apart_def Let_def split: area.split)

lemma buffer_wf_live: "buffer_wf m b \<Longrightarrow> shared_buffer_live m b \<longleftrightarrow> bf_in_use b"
  by (auto simp: buffer_wf_def shared_buffer_live_def entry_ok_def buffer_entry_def)

lemma surface_wf_live: "surface_wf m s \<Longrightarrow> surface_live m s \<longleftrightarrow> sf_in_use s"
  by (auto simp: surface_wf_def surface_live_def entry_ok_def surface_entry_def geometry_ok_def Let_def
      not_less split: if_splits)

lemma sdk_invD:
  assumes "sdk_inv m"
  shows "stores_ok m" "length (sdk_buffers m) = 32" "length (sdk_surfaces m) = 16" "entries_apart m"
    "b \<in> set (sdk_buffers m) \<Longrightarrow> shared_buffer_live m b \<longleftrightarrow> bf_in_use b"
    "s \<in> set (sdk_surfaces m) \<Longrightarrow> surface_live m s \<longleftrightarrow> sf_in_use s"
    "b \<in> set (sdk_buffers m) \<Longrightarrow> buffer_wf m b"
    "s \<in> set (sdk_surfaces m) \<Longrightarrow> surface_wf m s"
  using assms buffer_wf_live surface_wf_live by (auto simp: sdk_inv_def)

lemma sanitize_noop:
  assumes "sdk_inv m"
  shows "sanitize_allocator_metadata m = (0, m)"
proof -
  have "sanitize_buffers m (sdk_buffers m) = (sdk_buffers m, 0)"
    using sdk_invD(5) [OF assms]
    by (auto simp: sanitize_buffers_def filter_empty_conv intro: map_idI)
  moreover have "sanitize_surfaces m (sdk_surfaces m) = (sdk_surfaces m, 0)"
    using sdk_invD(6) [OF assms]
    by (auto simp: sanitize_surfaces_def filter_empty_conv intro: map_idI)
  ultimately show ?thesis by (simp add: sanitize_allocator_metadata_def)
qed

lemma sdk_slot_ok:
  assumes "sdk_inv m" "sdk_slot m k = Some e"
  shows "entry_ok m e" "k < 48"
proof -
  show "k < 48" using assms(2) by (auto simp: sdk_slot_def split: if_splits)
  have "sdk_buffers m ! k \<in> set (sdk_buffers m)" if "k < 32" using that sdk_invD(2) [OF assms(1)] by simp
  moreover have "sdk_surfaces m ! (k - 32) \<in> set (sdk_surfaces m)" if "k < 48" "\<not> k < 32"
    using that sdk_invD(3) [OF assms(1)] by simp
  ultimately show "entry_ok m e"
    using assms(2) sdk_invD(7,8) [OF assms(1)]
    by (auto simp: sdk_slot_def buffer_wf_def surface_wf_def split: if_splits)
qed

lemma sdk_slot_update:
  assumes "length (sdk_buffers m) = 32" "length (sdk_surfaces m) = 16"
  shows "i < 32 \<Longrightarrow> sdk_slot (set_buffer i b m) k = (if k = i then if bf_in_use b then Some (buffer_entry b) else None else sdk_slot m k)"
    "i < 16 \<Longrightarrow> sdk_slot (set_surface i s m) k = (if k = i + 32 then if sf_in_use s then Some (surface_entry s) else None else sdk_slot m k)"
  using assms by (auto simp: sdk_slot_def set_buffer_def set_surface_def nth_list_update)

section \<open>Areas\<close>

lemma heap_owned_iff:
  assumes "sa_inv s"
  shows "surface_allocator_owns addr len s \<longleftrightarrow> len \<noteq> 0 \<and> (\<exists>n. (unat addr, n) \<in> set (sa_regions s) \<and> unat len \<le> n)"
  using surface_queries_spec [OF assms] by blast

lemma window_bounds:
  assumes "host_window_range_valid addr len m"
  shows "effective_host_window_address m \<noteq> 0" "0 < unat len"
    "unat (effective_host_window_address m) \<le> unat addr"
    "unat addr + unat len \<le> unat (effective_host_window_address m + effective_host_window_size m)"
proof -
  let ?b = "effective_host_window_address m" and ?n = "effective_host_window_size m"
  from assms have v: "?b \<noteq> 0" "len \<noteq> 0" "?b \<le> addr" "addr < ?b + ?n" "len \<le> ?b + ?n - addr"
    by (auto simp: host_window_range_valid_def range_valid_def Let_def not_less not_le split: if_splits)
  then show "?b \<noteq> 0" "0 < unat len" "unat ?b \<le> unat addr" by (auto simp: unat_gt_0 word_le_nat_alt)
  from v(4,5) show "unat addr + unat len \<le> unat (?b + ?n)"
    by (simp add: word_le_nat_alt word_less_nat_alt unat_minus_no_wrap)
qed

text \<open>Each entry lies in a block, or in the window; blocks and areas are apart.\<close>

lemma heap_entry:
  assumes "stores_ok m" "entry_ok m e" "en_area e = Heap"
  obtains n where "(unat (en_addr e), n) \<in> set (sa_regions (sdk_heap m))" "unat (en_len e) \<le> n" "0 < unat (en_len e)"
    "unat HOST_VISIBLE_HEAP_ADDRESS \<le> unat (en_addr e)" "unat (en_addr e) + n \<le> 0x08200000"
    "en_addr e \<noteq> SDK_HOST_WINDOW_Z3_ADDRESS" "en_owner e = 0"
proof -
  have inv: "sa_inv (sdk_heap m)" and ends: "sa_base (sdk_heap m) = HOST_VISIBLE_HEAP_ADDRESS"
    "sa_end (sdk_heap m) = HOST_VISIBLE_HEAP_ADDRESS + HOST_VISIBLE_HEAP_SIZE"
    using assms(1) by (simp_all add: stores_ok_def)
  from assms(2,3) obtain n where n: "(unat (en_addr e), n) \<in> set (sa_regions (sdk_heap m))" "unat (en_len e) \<le> n"
      "en_len e \<noteq> 0" "en_addr e \<noteq> SDK_HOST_WINDOW_Z3_ADDRESS" "en_owner e = 0"
    by (auto simp: entry_ok_def heap_range_valid_def heap_owned_iff [OF inv])
  from n(1) obtain b where "b \<in> set (sa_blocks (sdk_heap m))" "sab_region b = (unat (en_addr e), n)"
    by (auto simp: sa_regions_def)
  then have "unat (sa_base (sdk_heap m)) \<le> unat (en_addr e)" "unat (en_addr e) + n \<le> unat (sa_end (sdk_heap m))"
    using inv by (auto simp: sa_inv_def sa_block_in_def sab_region_def)
  then show thesis using n by (intro that [of n]) (simp_all add: ends sdk_areas unat_gt_0)
qed

lemma pool_entry:
  assumes "stores_ok m" "entry_ok m e" "en_area e = Pool"
  obtains b where "b \<in> set (cp_blocks (sdk_pool m))" "cpb_addr b = en_addr e" "cpb_owner b = en_owner e"
    "unat (en_len e) \<le> unat (cpb_size b)" "0 < unat (en_len e)" "0x0B000000 \<le> unat (en_addr e)" "en_owner e \<noteq> 0"
proof -
  have inv: "cp_inv (sdk_pool m)" and lo: "\<forall>r\<in>set (cp_ranges (sdk_pool m)). CARD_POOL_PERMANENT_ADDRESS \<le> cpr_base r"
    using assms(1) by (simp_all add: stores_ok_def)
  from assms(2,3) obtain b where b: "b \<in> set (cp_blocks (sdk_pool m))" "cpb_addr b = en_addr e"
      "cpb_owner b = en_owner e" "en_len e \<le> cpb_size b" "en_len e \<noteq> 0" "en_owner e \<noteq> 0"
    by (auto simp: entry_ok_def block_owned_iff [OF inv])
  from cp_invD(2) [OF inv b(1)] obtain r where r: "r \<in> set (cp_ranges (sdk_pool m))" "in_range r b"
    by (auto simp: block_ok_def)
  then have "0x0B000000 \<le> unat (cpb_addr b)"
    using bspec [OF lo r(1)] by (simp add: in_range_def sdk_areas word_le_nat_alt)
  with b show thesis by (intro that [of b]) (simp_all add: word_le_nat_alt unat_gt_0)
qed

lemma window_entry:
  assumes "stores_ok m" "entry_ok m e" "en_area e = Window"
  shows "0 < unat (en_len e)"
    "unat (en_addr e) + unat (en_len e) \<le> unat HOST_VISIBLE_HEAP_ADDRESS \<or>
     0x080F0000 \<le> unat (en_addr e) \<and> unat (en_addr e) + unat (en_len e) \<le> 0x08100000"
proof -
  have w: "host_window_range_valid (en_addr e) (en_len e) m" using assms(2,3) by (simp add: entry_ok_def)
  note b = window_bounds [OF w]
  from b(2) show "0 < unat (en_len e)" .
  have "window_apart m" using assms(1) by (simp add: stores_ok_def)
  then consider "unat (effective_host_window_address m) + unat (effective_host_window_size m) \<le> unat HOST_VISIBLE_HEAP_ADDRESS"
    | "effective_host_window_address m = SDK_HOST_WINDOW_Z3_ADDRESS" "effective_host_window_size m = SDK_HOST_WINDOW_HEAP_SIZE"
    using b(1) by (auto simp: window_apart_def Let_def)
  then show "unat (en_addr e) + unat (en_len e) \<le> unat HOST_VISIBLE_HEAP_ADDRESS \<or>
     0x080F0000 \<le> unat (en_addr e) \<and> unat (en_addr e) + unat (en_len e) \<le> 0x08100000"
  proof cases
    case 1
    have "unat (effective_host_window_address m + effective_host_window_size m) \<le>
        unat (effective_host_window_address m) + unat (effective_host_window_size m)"
      by (simp add: unat_word_ariths)
    with 1 b show ?thesis by linarith
  next
    case 2
    with b show ?thesis by (simp add: sdk_areas)
  qed
qed

lemma entry_pos: "stores_ok m \<Longrightarrow> entry_ok m e \<Longrightarrow> 0 < unat (en_len e)"
  by (cases "en_area e") (auto elim: heap_entry pool_entry dest: window_entry)

lemma entry_fits:
  assumes "stores_ok m" "entry_ok m e"
  shows "unat (en_addr e) + unat (en_len e) < 4294967296"
proof (cases "en_area e")
  case Heap
  from heap_entry [OF assms Heap] obtain n where "unat (en_len e) \<le> n" "unat (en_addr e) + n \<le> 0x08200000" .
  then show ?thesis by linarith
next
  case Pool
  from pool_entry [OF assms Pool] obtain b where b: "b \<in> set (cp_blocks (sdk_pool m))" "cpb_addr b = en_addr e"
    "unat (en_len e) \<le> unat (cpb_size b)" .
  moreover have "cpb_end b < 4294967296" by (rule cp_block_bounds(2) [OF _ b(1)]) (use assms(1) in \<open>simp add: stores_ok_def\<close>)
  ultimately show ?thesis by (simp add: cpb_end_def)
next
  case Window
  from window_entry(2) [OF assms Window] show ?thesis by (auto simp: sdk_areas)
qed

lemma disjoint_parts:
  "disjoint_regions (a, n) (b, k) \<Longrightarrow> i \<le> n \<Longrightarrow> j \<le> k \<Longrightarrow> disjoint_regions (a, i) (b, j)"
  by (auto simp: disjoint_regions_def before_def region_end_def)

lemma heap_entries_disjoint:
  assumes st: "stores_ok m" and ok: "entry_ok m e" "entry_ok m e'"
    and ar: "en_area e = Heap" "en_area e' = Heap" and ne: "en_addr e \<noteq> en_addr e'"
  shows "disjoint_regions (en_span e) (en_span e')"
proof -
  have sa: "regions_ok (sa_regions (sdk_heap m))" using st by (simp add: stores_ok_def sa_inv_def)
  obtain n where n: "(unat (en_addr e), n) \<in> set (sa_regions (sdk_heap m))" "unat (en_len e) \<le> n"
    by (rule heap_entry [OF st ok(1) ar(1)])
  obtain n' where n': "(unat (en_addr e'), n') \<in> set (sa_regions (sdk_heap m))" "unat (en_len e') \<le> n'"
    by (rule heap_entry [OF st ok(2) ar(2)])
  have "disjoint_regions (unat (en_addr e), n) (unat (en_addr e'), n')"
    using regions_ok_pairwise [OF sa n(1) n'(1)] ne by (simp add: word_unat_eq_iff)
  then show ?thesis unfolding en_span_def using n(2) n'(2) by (rule disjoint_parts)
qed

lemma pool_entries_disjoint:
  assumes st: "stores_ok m" and ok: "entry_ok m e" "entry_ok m e'"
    and ar: "en_area e = Pool" "en_area e' = Pool" and ne: "en_addr e \<noteq> en_addr e'"
  shows "disjoint_regions (en_span e) (en_span e')"
proof -
  have cp: "cp_inv (sdk_pool m)" using st by (simp add: stores_ok_def)
  obtain b where b: "b \<in> set (cp_blocks (sdk_pool m))" "cpb_addr b = en_addr e" "unat (en_len e) \<le> unat (cpb_size b)"
    by (rule pool_entry [OF st ok(1) ar(1)])
  obtain b' where b': "b' \<in> set (cp_blocks (sdk_pool m))" "cpb_addr b' = en_addr e'" "unat (en_len e') \<le> unat (cpb_size b')"
    by (rule pool_entry [OF st ok(2) ar(2)])
  have "b \<noteq> b'" using ne b(2) b'(2) by auto
  then have "disjoint_regions (cpb_region b) (cpb_region b')" by (rule cp_blocks_apart [OF cp b(1) b'(1)])
  then show ?thesis using b b' by (simp add: en_span_def cpb_region_def disjoint_parts)
qed

lemma heap_window_disjoint:
  assumes st: "stores_ok m" and ok: "entry_ok m e" "entry_ok m e'"
    and ar: "en_area e = Heap" "en_area e' = Window"
  shows "disjoint_regions (en_span e) (en_span e')"
proof -
  have sa: "regions_ok (sa_regions (sdk_heap m))"
    and res: "(0x080F0000, 0x10000) \<in> set (sa_regions (sdk_heap m))"
    using st by (auto simp: stores_ok_def sa_inv_def sdk_areas)
  obtain n where n: "(unat (en_addr e), n) \<in> set (sa_regions (sdk_heap m))" "unat (en_len e) \<le> n"
      "unat HOST_VISIBLE_HEAP_ADDRESS \<le> unat (en_addr e)" "en_addr e \<noteq> SDK_HOST_WINDOW_Z3_ADDRESS"
    by (rule heap_entry [OF st ok(1) ar(1)])
  have "unat (en_addr e) \<noteq> 0x080F0000" using n(4) by (auto simp: sdk_areas word_unat_eq_iff)
  then have "disjoint_regions (unat (en_addr e), n) (0x080F0000, 0x10000)"
    using regions_ok_pairwise [OF sa n(1) res] by simp
  with n(2,3) window_entry(2) [OF st ok(2) ar(2)] show ?thesis
    by (auto simp: en_span_def disjoint_regions_def before_def region_end_def)
qed

lemma entries_disjoint:
  assumes st: "stores_ok m" and e: "entry_ok m e" "entry_ok m e'"
    and ne: "en_area e \<noteq> en_area e' \<or> en_area e \<noteq> Window \<and> en_addr e \<noteq> en_addr e'"
  shows "disjoint_regions (en_span e) (en_span e')"
proof -
  have low: "unat (en_addr e) + unat (en_len e) \<le> 0x08200000" if "entry_ok m e" "en_area e \<noteq> Pool" for e
  proof (cases "en_area e")
    case Heap
    from heap_entry [OF st that(1) Heap] obtain n where "unat (en_len e) \<le> n" "unat (en_addr e) + n \<le> 0x08200000" .
    then show ?thesis by linarith
  qed (use that window_entry [OF st that(1)] in \<open>auto simp: sdk_areas\<close>)
  have pool: "disjoint_regions (en_span e) (en_span e')"
    if "entry_ok m e" "entry_ok m e'" "en_area e = Pool" "en_area e' \<noteq> Pool" for e e'
  proof -
    have "0x0B000000 \<le> unat (en_addr e)" by (rule pool_entry [OF st that(1,3)])
    with low [OF that(2,4)] show ?thesis by (simp add: en_span_def disjoint_regions_def before_def region_end_def)
  qed
  have window: "disjoint_regions (en_span e') (en_span e)" if "en_area e = Window" "en_area e' = Heap"
    by (rule heap_window_disjoint [OF st e(2,1) that(2,1)])
  have pool': "disjoint_regions (en_span e') (en_span e)" if "en_area e' = Pool" "en_area e \<noteq> Pool"
    by (rule pool [OF e(2,1) that])
  show ?thesis
  proof (cases "en_area e")
    case Heap
    with ne pool' heap_entries_disjoint [OF st e Heap] heap_window_disjoint [OF st e Heap] show ?thesis
      by (cases "en_area e'") (simp_all add: disjoint_regions_sym [of "en_span e"])
  next
    case Pool
    with ne pool [OF e Pool] pool_entries_disjoint [OF st e Pool] show ?thesis
      by (cases "en_area e'") simp_all
  next
    case Window
    with ne pool' window show ?thesis
      by (cases "en_area e'") (simp_all add: disjoint_regions_sym [of "en_span e"])
  qed
qed

section \<open>Keeping the invariant\<close>

text \<open>An entry survives a change of the stores that leaves its block where it is.\<close>

definition keeps_block :: "sdk_mem \<Rightarrow> sdk_mem \<Rightarrow> entry \<Rightarrow> bool" where
  "keeps_block m m' e \<longleftrightarrow>
     (case en_area e of
        Heap \<Rightarrow> \<forall>n. (unat (en_addr e), n) \<in> set (sa_regions (sdk_heap m)) \<longrightarrow> (unat (en_addr e), n) \<in> set (sa_regions (sdk_heap m'))
      | Pool \<Rightarrow> \<forall>b\<in>set (cp_blocks (sdk_pool m)). cpb_addr b = en_addr e \<longrightarrow> b \<in> set (cp_blocks (sdk_pool m'))
      | Window \<Rightarrow> True)"

lemma entry_ok_keeps:
  assumes "stores_ok m" "stores_ok m'" "sdk_aperture m' = sdk_aperture m" "keeps_block m m' e" "entry_ok m e"
  shows "entry_ok m' e"
proof -
  have inv: "sa_inv (sdk_heap m)" "sa_inv (sdk_heap m')" "cp_inv (sdk_pool m)" "cp_inv (sdk_pool m')"
    using assms(1,2) by (simp_all add: stores_ok_def)
  show ?thesis
    using assms(4,5) same_stores_window [OF assms(3)]
    by (cases "en_area e")
      (auto simp: keeps_block_def entry_ok_def heap_range_valid_def heap_owned_iff [OF inv(1)] heap_owned_iff [OF inv(2)]
        block_owned_iff [OF inv(3)] block_owned_iff [OF inv(4)] host_window_range_valid_def)
qed

lemma keeps_same: "same_stores m m' \<Longrightarrow> keeps_block m m' e"
  by (auto simp: same_stores_def keeps_block_def split: area.split)

text \<open>What a change of the stores must leave alone.\<close>

definition stores_step :: "sdk_mem \<Rightarrow> sdk_mem \<Rightarrow> (nat \<Rightarrow> bool) \<Rightarrow> bool" where
  "stores_step m m' keep \<longleftrightarrow> stores_ok m' \<and> sdk_aperture m' = sdk_aperture m \<and>
     sdk_buffers m' = sdk_buffers m \<and> sdk_surfaces m' = sdk_surfaces m \<and>
     (\<forall>k e. keep k \<longrightarrow> sdk_slot m k = Some e \<longrightarrow> keeps_block m m' e)"

lemma sdk_slot_tables: "sdk_buffers m' = sdk_buffers m \<Longrightarrow> sdk_surfaces m' = sdk_surfaces m \<Longrightarrow> sdk_slot m' = sdk_slot m"
  by (rule ext) (simp add: sdk_slot_def)

lemma stores_step_wf:
  assumes inv: "sdk_inv m" and step: "stores_step m m' keep"
  shows "k < 32 \<Longrightarrow> keep k \<Longrightarrow> buffer_wf m' (sdk_buffers m ! k)"
    and "k < 16 \<Longrightarrow> keep (k + 32) \<Longrightarrow> surface_wf m' (sdk_surfaces m ! k)"
proof -
  note keep = entry_ok_keeps [OF sdk_invD(1) [OF inv]]
  have st: "stores_ok m'" "sdk_aperture m' = sdk_aperture m"
    and ks: "\<And>k e. keep k \<Longrightarrow> sdk_slot m k = Some e \<Longrightarrow> keeps_block m m' e"
    using step by (auto simp: stores_step_def)
  show "buffer_wf m' (sdk_buffers m ! k)" if "k < 32" "keep k"
  proof -
    have "buffer_wf m (sdk_buffers m ! k)" using that sdk_invD(2,7) [OF inv] by simp
    moreover have "keeps_block m m' (buffer_entry (sdk_buffers m ! k))" if "bf_in_use (sdk_buffers m ! k)"
      using ks [OF \<open>keep k\<close>] \<open>k < 32\<close> that by (simp add: sdk_slot_def)
    ultimately show ?thesis using keep [OF st] by (auto simp: buffer_wf_def)
  qed
  show "surface_wf m' (sdk_surfaces m ! k)" if "k < 16" "keep (k + 32)"
  proof -
    have "surface_wf m (sdk_surfaces m ! k)" using that sdk_invD(3,8) [OF inv] by simp
    moreover have "keeps_block m m' (surface_entry (sdk_surfaces m ! k))" if "sf_in_use (sdk_surfaces m ! k)"
      using ks [OF \<open>keep (k + 32)\<close>] \<open>k < 16\<close> that by (simp add: sdk_slot_def)
    ultimately show ?thesis using keep [OF st] by (auto simp: surface_wf_def)
  qed
qed

lemma entries_apartD:
  "sdk_inv m \<Longrightarrow> k \<noteq> k' \<Longrightarrow> sdk_slot m k = Some e \<Longrightarrow> sdk_slot m k' = Some e' \<Longrightarrow> disjoint_regions (en_span e) (en_span e')"
  using sdk_invD(4) by (auto simp: entries_apart_def)

lemma set_same: "same_stores m (set_buffer i b m)" "same_stores m (set_surface j s m)"
  by (simp_all add: same_stores_def set_buffer_def set_surface_def)

lemma put_buffer:
  assumes inv: "sdk_inv m" and step: "stores_step m m' (\<lambda>k. k \<noteq> i)" and i: "i < 32" and wf: "buffer_wf m' b"
    and apart: "\<And>k e. bf_in_use b \<Longrightarrow> k \<noteq> i \<Longrightarrow> sdk_slot m k = Some e \<Longrightarrow> disjoint_regions (en_span (buffer_entry b)) (en_span e)"
  shows "sdk_inv (set_buffer i b m')"
proof -
  let ?m = "set_buffer i b m'"
  have tab: "sdk_buffers m' = sdk_buffers m" "sdk_surfaces m' = sdk_surfaces m" and st: "stores_ok m'"
    using step by (auto simp: stores_step_def)
  note cong = same_stores_cong [OF set_same(1) [where m = m' and i = i and b = b]]
  note len = sdk_invD(2,3) [OF inv]
  have slot: "sdk_slot ?m k = (if k = i then if bf_in_use b then Some (buffer_entry b) else None else sdk_slot m k)" for k
    using sdk_slot_update(1) [where m = m' and i = i and b = b and k = k] len i by (simp add: tab sdk_slot_tables [OF tab])
  have "buffer_wf ?m b'" if b': "b' \<in> set (sdk_buffers ?m)" for b'
  proof -
    from b' len i obtain k where k: "k < 32" "b' = (sdk_buffers m)[i := b] ! k"
      by (auto simp: set_buffer_def tab in_set_conv_nth)
    show ?thesis
      using wf stores_step_wf(1) [OF inv step k(1)] k len by (cases "k = i") (simp_all add: cong)
  qed
  moreover have "surface_wf ?m s" if s: "s \<in> set (sdk_surfaces ?m)" for s
  proof -
    from s len obtain k where k: "k < 16" "s = sdk_surfaces m ! k"
      by (auto simp: set_buffer_def tab in_set_conv_nth)
    show ?thesis using stores_step_wf(2) [OF inv step k(1)] i by (simp add: cong k(2))
  qed
  moreover have "entries_apart ?m"
    unfolding entries_apart_def slot using apart apart [OF _ not_sym] entries_apartD [OF inv]
    by (auto simp: disjoint_regions_sym [of _ "en_span (buffer_entry b)"])
  moreover have "stores_ok ?m" using st by (simp only: cong(4))
  ultimately show ?thesis using len i by (simp add: sdk_inv_def set_buffer_def tab)
qed

lemma put_surface:
  assumes inv: "sdk_inv m" and step: "stores_step m m' (\<lambda>k. k \<noteq> i + 32)" and i: "i < 16" and wf: "surface_wf m' s"
    and apart: "\<And>k e. sf_in_use s \<Longrightarrow> k \<noteq> i + 32 \<Longrightarrow> sdk_slot m k = Some e \<Longrightarrow> disjoint_regions (en_span (surface_entry s)) (en_span e)"
  shows "sdk_inv (set_surface i s m')"
proof -
  let ?m = "set_surface i s m'"
  have tab: "sdk_buffers m' = sdk_buffers m" "sdk_surfaces m' = sdk_surfaces m" and st: "stores_ok m'"
    using step by (auto simp: stores_step_def)
  note cong = same_stores_cong [OF set_same(2) [where m = m' and j = i and s = s]]
  note len = sdk_invD(2,3) [OF inv]
  have slot: "sdk_slot ?m k = (if k = i + 32 then if sf_in_use s then Some (surface_entry s) else None else sdk_slot m k)" for k
    using sdk_slot_update(2) [where m = m' and i = i and s = s and k = k] len i by (simp add: tab sdk_slot_tables [OF tab])
  have "buffer_wf ?m b" if b: "b \<in> set (sdk_buffers ?m)" for b
  proof -
    from b len obtain k where k: "k < 32" "b = sdk_buffers m ! k"
      by (auto simp: set_surface_def tab in_set_conv_nth)
    show ?thesis using stores_step_wf(1) [OF inv step k(1)] k(1) i by (simp add: cong k(2))
  qed
  moreover have "surface_wf ?m s'" if s': "s' \<in> set (sdk_surfaces ?m)" for s'
  proof -
    from s' len i obtain k where k: "k < 16" "s' = (sdk_surfaces m)[i := s] ! k"
      by (auto simp: set_surface_def tab in_set_conv_nth)
    show ?thesis
      using wf stores_step_wf(2) [OF inv step k(1)] k len by (cases "k = i") (simp_all add: cong)
  qed
  moreover have "entries_apart ?m"
    unfolding entries_apart_def slot using apart apart [OF _ not_sym] entries_apartD [OF inv]
    by (auto simp: disjoint_regions_sym [of _ "en_span (surface_entry s)"])
  moreover have "stores_ok ?m" using st by (simp only: cong(4))
  ultimately show ?thesis using len i by (simp add: sdk_inv_def set_surface_def tab)
qed

text \<open>Memory, counters and the PCM ring do not matter.\<close>

definition same_tables :: "sdk_mem \<Rightarrow> sdk_mem \<Rightarrow> bool" where
  "same_tables m m' \<longleftrightarrow> same_stores m m' \<and> sdk_buffers m' = sdk_buffers m \<and> sdk_surfaces m' = sdk_surfaces m"

lemma same_tables_inv: "same_tables m m' \<Longrightarrow> sdk_inv m' = sdk_inv m"
  using same_stores_cong [of m m'] sdk_slot_tables [of m' m]
  by (simp add: same_tables_def sdk_inv_def entries_apart_def)

lemma same_tables_step: "sdk_inv m \<Longrightarrow> same_tables m m' \<Longrightarrow> stores_step m m' keep"
  using same_stores_cong(4) [of m m'] sdk_invD(1) [of m]
  by (simp add: same_tables_def stores_step_def keeps_same) (simp add: same_stores_def)

section \<open>Taking and giving back storage\<close>

lemma same_addr_meet: "disjoint_regions (a, n) (a, k) \<Longrightarrow> 0 < n \<Longrightarrow> 0 < k \<Longrightarrow> False"
  by (auto simp: disjoint_regions_def before_def region_end_def)

lemma heap_alloc_step:
  assumes inv: "sdk_inv m" and al: "\<not> sa_walk_wraps len al (sdk_heap m)" and len: "len \<noteq> 0"
    and res: "surface_allocator_alloc_aligned len al (sdk_heap m) = (a, sa)"
  defines "m' \<equiv> m\<lparr>sdk_heap := sa\<rparr>" and "e \<equiv> \<lparr>en_area = Heap, en_addr = a, en_len = len, en_owner = 0\<rparr>"
  shows "stores_step m m' (\<lambda>_. True)"
    "a \<noteq> 0 \<Longrightarrow> entry_ok m' e"
    "a \<noteq> 0 \<Longrightarrow> sdk_slot m k = Some e' \<Longrightarrow> disjoint_regions (en_span e) (en_span e')"
proof -
  have st: "stores_ok m" and sa: "sa_inv (sdk_heap m)" using sdk_invD(1) [OF inv] by (simp_all add: stores_ok_def)
  have ok: "sa_alloc_ok (sdk_heap m) len a sa" by (rule sa_alloc_aligned_cases [OF sa al res])
  have frame: "sa_base sa = sa_base (sdk_heap m) \<and> sa_end sa = sa_end (sdk_heap m)"
    using res by (auto simp: surface_allocator_alloc_aligned_def sa_insert_def Let_def split: if_splits prod.splits)
  have mono: "set (sa_regions (sdk_heap m)) \<subseteq> set (sa_regions sa)"
    using ok by (cases "a = 0") (auto simp: sa_alloc_ok_def)
  have st': "stores_ok m'"
    using st ok frame mono by (auto simp: stores_ok_def m'_def sa_alloc_ok_def window_apart_def Let_def
        effective_host_window_address_def effective_host_window_size_def aperture_contract_present_def)
  have kp: "keeps_block m m' e'" for e' using mono by (auto simp: keeps_block_def m'_def split: area.split)
  show step: "stores_step m m' (\<lambda>_. True)" using st' kp by (simp add: stores_step_def m'_def)
  assume a: "a \<noteq> 0"
  obtain n where n: "unat len \<le> n" "0 < n" "\<forall>x\<in>set (sa_regions (sdk_heap m)). disjoint_regions (unat a, n) x"
      "(unat a, n) \<in> set (sa_regions sa)"
    using ok a by (auto simp: sa_alloc_ok_def)
  have res: "(0x080F0000, 0x10000) \<in> set (sa_regions (sdk_heap m))" using st by (simp add: stores_ok_def sdk_areas)
  have z: "a \<noteq> SDK_HOST_WINDOW_Z3_ADDRESS"
    using bspec [OF n(3) res] n(2) same_addr_meet [of "0x080F0000" n "0x10000"] by (auto simp: sdk_areas)
  have "sa_inv sa" using ok by (simp add: sa_alloc_ok_def)
  then show e: "entry_ok m' e"
    using n len z by (auto simp: entry_ok_def e_def heap_range_valid_def m'_def heap_owned_iff)
  assume k: "sdk_slot m k = Some e'"
  have old: "entry_ok m e'" by (rule sdk_slot_ok [OF inv k])
  have "en_addr e' \<noteq> a" if ar: "en_area e' = Heap"
  proof
    assume eq: "en_addr e' = a"
    obtain n' where n': "(unat (en_addr e'), n') \<in> set (sa_regions (sdk_heap m))" "unat (en_len e') \<le> n'" "0 < unat (en_len e')"
      by (rule heap_entry [OF st old ar])
    with bspec [OF n(3) n'(1)] n(2) show False by (auto simp: eq dest: same_addr_meet)
  qed
  then show "disjoint_regions (en_span e) (en_span e')"
    by (intro entries_disjoint [OF st' e entry_ok_keeps [OF st st' _ kp old]]) (auto simp: e_def m'_def)
qed

lemma pool_alloc_step:
  assumes inv: "sdk_inv m" and len: "len \<noteq> 0" and own: "owner \<noteq> 0"
    and res: "card_pool_alloc len owner (sdk_pool m) = (a, cp)"
  defines "m' \<equiv> m\<lparr>sdk_pool := cp\<rparr>" and "e \<equiv> \<lparr>en_area = Pool, en_addr = a, en_len = len, en_owner = owner\<rparr>"
  shows "stores_step m m' (\<lambda>_. True)"
    "a \<noteq> 0 \<Longrightarrow> entry_ok m' e"
    "a \<noteq> 0 \<Longrightarrow> sdk_slot m k = Some e' \<Longrightarrow> disjoint_regions (en_span e) (en_span e')"
proof -
  have st: "stores_ok m" and cp: "cp_inv (sdk_pool m)" using sdk_invD(1) [OF inv] by (simp_all add: stores_ok_def)
  note cases = cp_alloc_cases [OF cp res]
  have mono: "set (cp_blocks (sdk_pool m)) \<subseteq> set (cp_blocks cp)" "cp_ranges cp = cp_ranges (sdk_pool m)" "cp_inv cp"
    using cases cp by (auto simp: cp_insert_def set_insert_at)
  have st': "stores_ok m'"
    using st mono by (auto simp: stores_ok_def m'_def window_apart_def Let_def
        effective_host_window_address_def effective_host_window_size_def aperture_contract_present_def)
  have kp: "keeps_block m m' e'" for e' using mono(1) by (auto simp: keeps_block_def m'_def split: area.split)
  show step: "stores_step m m' (\<lambda>_. True)" using st' kp by (simp add: stores_step_def m'_def)
  assume a: "a \<noteq> 0"
  from cases a obtain i where i: "cp = cp_insert (sdk_pool m) i a (cp_rounded len) owner" "unat len \<le> unat (cp_rounded len)"
      "\<forall>b\<in>set (cp_blocks (sdk_pool m)). cpb_end b \<le> unat a \<or> unat a + unat (cp_rounded len) \<le> unat (cpb_addr b)"
    by auto
  have "\<lparr>cpb_addr = a, cpb_size = cp_rounded len, cpb_owner = owner\<rparr> \<in> set (cp_blocks cp)"
    by (simp add: i(1) cp_insert_def set_insert_at)
  then have "\<exists>b\<in>set (cp_blocks cp). cpb_addr b = a \<and> cpb_owner b = owner \<and> len \<le> cpb_size b"
    using i(2) by (intro bexI) (simp_all add: word_le_nat_alt)
  then show e: "entry_ok m' e"
    using len own a by (simp add: entry_ok_def e_def m'_def block_owned_iff [OF mono(3)])
  have pos: "0 < unat len" using len by (simp add: unat_gt_0)
  assume k: "sdk_slot m k = Some e'"
  have old: "entry_ok m e'" by (rule sdk_slot_ok [OF inv k])
  have "en_addr e' \<noteq> a" if ar: "en_area e' = Pool"
  proof
    assume eq: "en_addr e' = a"
    obtain b where b: "b \<in> set (cp_blocks (sdk_pool m))" "cpb_addr b = en_addr e'"
      "unat (en_len e') \<le> unat (cpb_size b)" "0 < unat (en_len e')"
      by (rule pool_entry [OF st old ar])
    with bspec [OF i(3) b(1)] i(2) pos show False by (simp add: eq cpb_end_def)
  qed
  then show "disjoint_regions (en_span e) (en_span e')"
    by (intro entries_disjoint [OF st' e entry_ok_keeps [OF st st' _ kp old]]) (auto simp: e_def m'_def)
qed

section \<open>The host window\<close>

lemma align_up_spec:
  assumes p: "is_power_of_two al"
  shows "align_up v al \<noteq> 0 \<Longrightarrow> unat al dvd unat (align_up v al)"
    and "v \<noteq> 0 \<Longrightarrow> unat v \<le> x \<Longrightarrow> unat al dvd x \<Longrightarrow> x < 2 ^ 32 \<Longrightarrow> align_up v al \<noteq> 0 \<and> unat (align_up v al) \<le> x"
proof -
  obtain k where k: "k < 32" "unat al = 2 ^ k" "al - 1 = mask k" and nz: "al \<noteq> 0"
    using word_pow2_test [of al] p by (auto simp: is_power_of_two_def)
  define r where "r = unat v + (2 ^ k - 1) - (unat v + (2 ^ k - 1)) mod 2 ^ k"
  have pred: "unat (al - 1) = 2 ^ k - 1" using nz k(2) by (simp add: unat_minus_one)
  have exact: "unat (align_up v al) = r" if "unat v + (2 ^ k - 1) < 2 ^ 32"
  proof -
    have "unat v \<le> unat (UINT32_MAX - (al - 1))" using that by (simp only: unat_max_minus pred) simp
    then have "\<not> v > UINT32_MAX - (al - 1)" by (simp only: not_less word_le_nat_alt)
    then have "align_up v al = (v + (al - 1)) AND NOT (mask k)"
      using p nz by (simp add: align_up_def k(3) [symmetric] add_diff_eq)
    moreover have "unat (v + (al - 1)) = unat v + (2 ^ k - 1)"
      using that unat_plus_no_wrap [of v "al - 1"] by (simp add: pred)
    ultimately show ?thesis by (simp add: unat_and_not_mask r_def)
  qed
  have over: "align_up v al = 0" if "\<not> unat v + (2 ^ k - 1) < 2 ^ 32"
  proof -
    have "(2 :: nat) ^ 32 = 4294967296" "(1 :: nat) \<le> 2 ^ k" by simp_all
    moreover have "(2 :: nat) ^ k < 2 ^ 32" using k(1) by (intro power_strict_increasing) simp_all
    ultimately have "\<not> unat v \<le> 4294967295 - (2 ^ k - 1)" using that by linarith
    then have "\<not> unat v \<le> unat (UINT32_MAX - (al - 1))" by (simp only: unat_max_minus pred not_False_eq_True)
    then have "v > UINT32_MAX - (al - 1)" by (simp only: not_le word_less_nat_alt)
    then show ?thesis using p nz by (simp add: align_up_def)
  qed
  note up = nat_round_up [of "2 ^ k" "unat v", folded r_def]
  show "unat al dvd unat (align_up v al)" if "align_up v al \<noteq> 0"
    using that exact over up(3) k(2) by fastforce
  assume x: "v \<noteq> 0" "unat v \<le> x" "unat al dvd x" "x < 2 ^ 32"
  have le: "r \<le> x" using up(4) x(2,3) k(2) by simp
  have "unat v + (2 ^ k - 1) < 2 ^ 32"
  proof (rule ccontr)
    assume ge: "\<not> unat v + (2 ^ k - 1) < 2 ^ 32"
    have "(2 ^ k :: nat) dvd 2 ^ 32" using k(1) by (intro le_imp_power_dvd) simp
    then have q: "2 ^ 32 div 2 ^ k * (2 ^ k) = (2 ^ 32 :: nat)" by simp
    have "2 ^ 32 div 2 ^ k * (2 ^ k) \<le> (unat v + (2 ^ k - 1)) div 2 ^ k * (2 ^ k :: nat)"
      using ge by (intro mult_le_mono1 div_le_mono) simp
    also have "\<dots> = r" by (simp only: r_def minus_mod_eq_div_mult)
    finally have "2 ^ 32 \<le> r" by (simp only: q)
    with le x(4) show False by simp
  qed
  from exact [OF this] have "unat (align_up v al) = r" .
  moreover have "0 < unat v" using x(1) by (simp add: unat_gt_0)
  then have "0 < r" using up(1) by simp
  ultimately show "align_up v al \<noteq> 0 \<and> unat (align_up v al) \<le> x" using le by auto
qed

definition window_blocks :: "sdk_mem \<Rightarrow> region set" where
  "window_blocks m = {en_span (buffer_entry b) | b. b \<in> set (sdk_buffers m) \<and> shared_buffer_live m b \<and>
     bf_flags b AND SDK_ALLOC_HOST_WINDOW \<noteq> 0}"

text \<open>The scan stops at the lowest aligned address with room, from the start on.\<close>

lemma window_collides_iff:
  assumes live: "\<And>b. b \<in> set (sdk_buffers m) \<Longrightarrow> shared_buffer_live m b \<Longrightarrow> bf_flags b AND SDK_ALLOC_HOST_WINDOW \<noteq> 0 \<Longrightarrow>
      unat (bf_address b) + unat (bf_length b) < 4294967296"
    and b: "b \<in> set (sdk_buffers m)" and fits: "unat c + unat len < 4294967296"
  shows "window_collides c len m b \<longleftrightarrow> shared_buffer_live m b \<and> bf_flags b AND SDK_ALLOC_HOST_WINDOW \<noteq> 0 \<and>
    \<not> disjoint_regions (unat c, unat len) (en_span (buffer_entry b))"
proof -
  have "unat (bf_address b + bf_length b) = unat (bf_address b) + unat (bf_length b)"
    if "shared_buffer_live m b" "bf_flags b AND SDK_ALLOC_HOST_WINDOW \<noteq> 0"
    using live [OF b that] by (rule unat_plus_no_wrap)
  moreover have "unat (c + len) = unat c + unat len" using fits by (rule unat_plus_no_wrap)
  ultimately show ?thesis
    by (auto simp: window_collides_def word_le_nat_alt en_span_def buffer_entry_def disjoint_regions_def
        before_def region_end_def)
qed

lemma host_window_scan_sound:
  assumes live: "\<And>b. b \<in> set (sdk_buffers m) \<Longrightarrow> shared_buffer_live m b \<Longrightarrow> bf_flags b AND SDK_ALLOC_HOST_WINDOW \<noteq> 0 \<Longrightarrow>
      unat (bf_address b) + unat (bf_length b) < 4294967296"
    and al: "is_power_of_two al"
  shows "c \<noteq> 0 \<longrightarrow> unat al dvd unat c \<Longrightarrow> host_window_scan len al en m c = r \<Longrightarrow> r \<noteq> 0 \<Longrightarrow>
    unat al dvd unat r \<and> unat c \<le> unat r \<and> unat r + unat len \<le> unat en \<and>
    (\<forall>x\<in>window_blocks m. disjoint_regions (unat r, unat len) x)"
  using live al
proof (induction len al en m c rule: host_window_scan.induct)
  case (1 len al en m c)
  have guard: "c \<noteq> 0 \<and> c < en \<and> len \<le> en - c"
    using "1.prems"(2,3) by (subst (asm) host_window_scan.simps) (simp split: if_splits)
  then have cl: "unat c < unat en" "unat len \<le> unat (en - c)" by (simp_all add: word_le_nat_alt word_less_nat_alt)
  then have fits: "unat c + unat len \<le> unat en" using unat_minus_no_wrap [of c en] by linarith
  then have wrap: "unat c + unat len < 4294967296" using unat_lt32 [of en] by linarith
  note hit = window_collides_iff [OF "1.prems"(4) _ wrap]
  show ?case
  proof (cases "List.find (window_collides c len m) (sdk_buffers m)")
    case None
    then have "r = c" using "1.prems"(2) guard by (subst (asm) host_window_scan.simps) simp
    moreover have "\<forall>x\<in>window_blocks m. disjoint_regions (unat c, unat len) x"
      using None hit by (auto simp: window_blocks_def find_None_iff)
    ultimately show ?thesis using "1.prems"(1) guard fits by simp
  next
    case (Some b)
    let ?c = "align_up (bf_address b + bf_length b) al"
    have b: "b \<in> set (sdk_buffers m)" "window_collides c len m b" using Some by (auto dest: find_SomeD)
    then have past: "c < bf_address b + bf_length b" by (auto simp: window_collides_def not_le)
    have r: "host_window_scan len al en m ?c = r"
      using "1.prems"(2) guard Some by (subst (asm) host_window_scan.simps) simp
    then have "?c \<noteq> 0" using "1.prems"(3) by (subst (asm) host_window_scan.simps) (auto split: if_splits)
    then have "unat c \<le> unat ?c"
      using past align_up_cases [of "bf_address b + bf_length b" al] by (simp add: word_less_nat_alt)
    with "1.IH" [OF guard Some _ r "1.prems"(3,4,5)] align_up_spec(1) [OF "1.prems"(5)] show ?thesis by force
  qed
qed

lemma host_window_scan_least:
  assumes live: "\<And>b. b \<in> set (sdk_buffers m) \<Longrightarrow> shared_buffer_live m b \<Longrightarrow> bf_flags b AND SDK_ALLOC_HOST_WINDOW \<noteq> 0 \<Longrightarrow>
      unat (bf_address b) + unat (bf_length b) < 4294967296"
    and al: "is_power_of_two al" and x: "unat al dvd x" "x + unat len \<le> unat en" "0 < unat len"
    and free: "\<forall>y\<in>window_blocks m. disjoint_regions (x, unat len) y"
  shows "c \<noteq> 0 \<Longrightarrow> unat c \<le> x \<Longrightarrow> host_window_scan len al en m c \<noteq> 0 \<and> unat (host_window_scan len al en m c) \<le> x"
  using live al x free
proof (induction len al en m c rule: host_window_scan.induct)
  case (1 len al en m c)
  note x = "1.prems"(5-8)
  have guard: "c \<noteq> 0 \<and> c < en \<and> len \<le> en - c"
    using "1.prems"(1,2) x by (auto simp: word_le_nat_alt word_less_nat_alt unat_minus_no_wrap)
  have wrap: "unat c + unat len < 4294967296" using "1.prems"(2) x(2) unat_lt32 [of en] by linarith
  note hit = window_collides_iff [OF "1.prems"(3) _ wrap]
  show ?case
  proof (cases "List.find (window_collides c len m) (sdk_buffers m)")
    case None
    then have "host_window_scan len al en m c = c" using guard by (subst host_window_scan.simps) simp
    with "1.prems"(1,2) show ?thesis by simp
  next
    case (Some b)
    let ?c = "align_up (bf_address b + bf_length b) al"
    have b: "b \<in> set (sdk_buffers m)" "window_collides c len m b" using Some by (auto dest: find_SomeD)
    then have bl: "shared_buffer_live m b" "bf_flags b AND SDK_ALLOC_HOST_WINDOW \<noteq> 0"
      and meet: "\<not> disjoint_regions (unat c, unat len) (en_span (buffer_entry b))" by (simp_all add: hit)
    have fit: "unat (bf_address b) + unat (bf_length b) < 4294967296" by (rule "1.prems"(3) [OF b(1) bl])
    have sum: "unat (bf_address b + bf_length b) = unat (bf_address b) + unat (bf_length b)"
      using fit by (rule unat_plus_no_wrap)
    have "en_span (buffer_entry b) \<in> window_blocks m" using b(1) bl by (auto simp: window_blocks_def)
    then have "disjoint_regions (x, unat len) (en_span (buffer_entry b))" using x(4) by blast
    with meet "1.prems"(2) have "unat (bf_address b + bf_length b) \<le> x"
      by (auto simp: sum en_span_def buffer_entry_def disjoint_regions_def before_def region_end_def)
    moreover have "bf_address b + bf_length b \<noteq> 0"
    proof
      assume "bf_address b + bf_length b = 0"
      then have "c < 0" using b(2) by (simp add: window_collides_def not_le)
      then show False by simp
    qed
    moreover have "x < 4294967296" using x(2,3) unat_lt32 [of en] by linarith
    then have "x < 2 ^ 32" by simp
    ultimately have "?c \<noteq> 0 \<and> unat ?c \<le> x" by (intro align_up_spec(2) [OF "1.prems"(4) _ _ x(1)])
    then have "host_window_scan len al en m ?c \<noteq> 0 \<and> unat (host_window_scan len al en m ?c) \<le> x"
      by (intro "1.IH" [OF guard Some _ _ "1.prems"(3,4) x]) auto
    moreover have "host_window_scan len al en m c = host_window_scan len al en m ?c"
      using guard Some by (subst host_window_scan.simps) simp
    ultimately show ?thesis by simp
  qed
qed

lemma window_block_slot:
  assumes inv: "sdk_inv m" and b: "b \<in> set (sdk_buffers m)" "shared_buffer_live m b" "bf_flags b AND SDK_ALLOC_HOST_WINDOW \<noteq> 0"
  shows "unat (bf_address b) + unat (bf_length b) < 4294967296"
proof -
  have "entry_ok m (buffer_entry b)" using sdk_invD(5,7) [OF inv b(1)] b(2) by (simp add: buffer_wf_def)
  from entry_fits [OF sdk_invD(1) [OF inv] this] show ?thesis by (simp add: buffer_entry_def)
qed

text \<open>The window is placed at its lowest free aligned address, or the call reports that there is none.\<close>

lemma host_window_region_ok:
  assumes inv: "sdk_inv m" and al: "is_power_of_two al" and len: "len \<noteq> 0"
    and a: "find_free_host_window_region len al m = a" "a \<noteq> 0"
  defines "e \<equiv> \<lparr>en_area = Window, en_addr = a, en_len = len, en_owner = 0\<rparr>"
  shows "unat al dvd unat a" "entry_ok m e" "sdk_slot m k = Some e' \<Longrightarrow> disjoint_regions (en_span e) (en_span e')"
proof -
  let ?b = "effective_host_window_address m" and ?n = "effective_host_window_size m"
  from a have g: "?b \<noteq> 0" "?n \<noteq> 0" "\<not> ?b > UINT32_MAX - ?n"
    and scan: "host_window_scan len al (?b + ?n) m (align_up ?b al) = a"
    by (auto simp: find_free_host_window_region_def Let_def split: if_splits)
  have "unat ?b \<le> 4294967295 - unat ?n" using g(3) by (simp only: not_less word_le_nat_alt unat_max_minus)
  then have sum: "unat (?b + ?n) = unat ?b + unat ?n" using unat_le32 [of ?n] by (intro unat_plus_no_wrap) linarith
  have up: "align_up ?b al \<noteq> 0 \<longrightarrow> unat al dvd unat (align_up ?b al)" using align_up_spec(1) [OF al] by blast
  from host_window_scan_sound [OF window_block_slot [OF inv] al up scan a(2)]
  have s: "unat al dvd unat a" "unat (align_up ?b al) \<le> unat a" "unat a + unat len \<le> unat (?b + ?n)"
    and free: "\<forall>x\<in>window_blocks m. disjoint_regions (unat a, unat len) x" by auto
  from s(1) show "unat al dvd unat a" .
  have "align_up ?b al \<noteq> 0" using scan a(2) by (subst (asm) host_window_scan.simps) (auto split: if_splits)
  then have "unat ?b \<le> unat a" using align_up_cases [of ?b al] s(2) by auto
  moreover have "0 < unat len" using len by (simp add: unat_gt_0)
  then have "unat a < unat (?b + ?n)" using s(3) by linarith
  ultimately show ok: "entry_ok m e" using s(3) sum len g
    by (auto simp: entry_ok_def e_def host_window_range_valid_def range_valid_def Let_def word_le_nat_alt
        word_less_nat_alt not_less not_le unat_minus_no_wrap unat_gt_0)
  assume k: "sdk_slot m k = Some e'"
  show "disjoint_regions (en_span e) (en_span e')"
  proof (cases "en_area e' = Window")
    case False
    then show ?thesis
      by (intro entries_disjoint [OF sdk_invD(1) [OF inv] ok sdk_slot_ok(1) [OF inv k]]) (simp add: e_def)
  next
    case True
    then have b: "k < 32" "e' = buffer_entry (sdk_buffers m ! k)" "bf_in_use (sdk_buffers m ! k)"
      using k by (auto simp: sdk_slot_def surface_entry_def split: if_splits)
    then have mem: "sdk_buffers m ! k \<in> set (sdk_buffers m)" using sdk_invD(2) [OF inv] by simp
    have "bf_flags (sdk_buffers m ! k) AND SDK_ALLOC_HOST_WINDOW \<noteq> 0"
      using True b(2) by (auto simp: buffer_entry_def split: if_splits)
    then have "en_span e' \<in> window_blocks m"
      using mem b sdk_invD(5) [OF inv mem] by (auto simp: window_blocks_def)
    then show ?thesis using free by (simp add: e_def en_span_def)
  qed
qed

lemma host_window_region_least:
  assumes inv: "sdk_inv m" and al: "is_power_of_two al" and len: "len \<noteq> 0"
    and x: "unat al dvd x" "unat (effective_host_window_address m) \<le> x"
      "x + unat len \<le> unat (effective_host_window_address m) + unat (effective_host_window_size m)"
      "\<forall>y\<in>window_blocks m. disjoint_regions (x, unat len) y"
    and win: "effective_host_window_address m \<noteq> 0"
  shows "find_free_host_window_region len al m \<noteq> 0 \<and> unat (find_free_host_window_region len al m) \<le> x"
proof -
  let ?b = "effective_host_window_address m" and ?n = "effective_host_window_size m"
  have "window_apart m" using sdk_invD(1) [OF inv] by (simp add: stores_ok_def)
  then have lim: "unat ?b + unat ?n < 4294967296" using win by (auto simp: window_apart_def Let_def sdk_areas)
  have pos: "0 < unat len" using len by (simp add: unat_gt_0)
  then have n: "?n \<noteq> 0" using x(2,3) by (auto simp: word_unat_eq_iff)
  have "unat ?b \<le> 4294967295 - unat ?n" using lim by linarith
  then have g: "\<not> ?b > UINT32_MAX - ?n" by (simp only: not_less word_le_nat_alt unat_max_minus)
  have sum: "unat (?b + ?n) = unat ?b + unat ?n" using lim by (rule unat_plus_no_wrap)
  have x32: "x < 2 ^ 32" using x(3) pos lim by simp
  have c: "align_up ?b al \<noteq> 0 \<and> unat (align_up ?b al) \<le> x" using x32 by (intro align_up_spec(2) [OF al win x(2,1)])
  have "host_window_scan len al (?b + ?n) m (align_up ?b al) \<noteq> 0 \<and>
      unat (host_window_scan len al (?b + ?n) m (align_up ?b al)) \<le> x"
    using c x(3) pos by (intro host_window_scan_least [OF window_block_slot [OF inv] al x(1) _ _ x(4)]) (simp_all add: sum)
  then show ?thesis using win n g by (simp add: find_free_host_window_region_def Let_def)
qed

end
