(* ===== verification/SdkService.thy ===== *)
theory SdkService
  imports SdkIsolation
begin

unbundle bit_operations_syntax

text \<open>
  What the memory requests of the mailbox do: allocation hands out fresh storage, a free
  takes exactly one entry back, and every request writes only inside the entry it names.
\<close>

lemma slot_search:
  "List.find P [0..<n] = Some i \<longleftrightarrow> i < n \<and> P i \<and> (\<forall>j<i. \<not> P j)"
  "List.find P [0..<n] = None \<longleftrightarrow> (\<forall>i<n. \<not> P i)"
  by (auto simp: find_Some_iff find_None_iff)

lemma handle_fresh:
  assumes "next_handle m = (h, m')"
  shows "h \<noteq> 0" "h \<noteq> SDK_INVALID_HANDLE" "same_tables m m'" "sdk_ram m' = sdk_ram m" "sdk_video m' = sdk_video m"
    "next_surface_handle m' = next_surface_handle m" "pcm_ring m' = pcm_ring m"
  using assms by (auto simp: next_handle_def Let_def SDK_INVALID_HANDLE_def same_tables_def same_stores_def split: if_splits)

lemma owner_nonzero:
  "CARD_POOL_OWNER CARD_POOL_CLASS_MEDIA_INPUT h \<noteq> 0" "CARD_POOL_OWNER CARD_POOL_CLASS_SDK_SURFACE h \<noteq> 0"
proof -
  have "bit (CARD_POOL_OWNER CARD_POOL_CLASS_MEDIA_INPUT h) 26"
    by (simp add: CARD_POOL_OWNER_def CARD_POOL_CLASS_MEDIA_INPUT_def bit_or_iff)
  then show "CARD_POOL_OWNER CARD_POOL_CLASS_MEDIA_INPUT h \<noteq> 0" by (metis bit_0_eq bot_apply bot_bool_def)
  have "bit (CARD_POOL_OWNER CARD_POOL_CLASS_SDK_SURFACE h) 26"
    by (simp add: CARD_POOL_OWNER_def CARD_POOL_CLASS_SDK_SURFACE_def bit_or_iff)
  then show "CARD_POOL_OWNER CARD_POOL_CLASS_SDK_SURFACE h \<noteq> 0" by (metis bit_0_eq bot_apply bot_bool_def)
qed

text \<open>The storage a shared buffer takes: its area by the flags.\<close>

definition take_storage :: "area \<Rightarrow> u32 \<Rightarrow> u32 \<Rightarrow> u32 \<Rightarrow> sdk_mem \<Rightarrow> u32 \<times> sdk_mem" where
  "take_storage ar len al owner m =
     (case ar of
        Pool \<Rightarrow> (case card_pool_alloc len owner (sdk_pool m) of (a, cp) \<Rightarrow> (a, m\<lparr>sdk_pool := cp\<rparr>))
      | Window \<Rightarrow> (find_free_host_window_region len al m, m)
      | Heap \<Rightarrow> (case surface_allocator_alloc_aligned len al (sdk_heap m) of (a, sa) \<Rightarrow> (a, m\<lparr>sdk_heap := sa\<rparr>)))"

text \<open>A heap request whose gap test wraps is the allocator's own defect and is excluded here.\<close>

definition storage_request :: "area \<Rightarrow> u32 \<Rightarrow> u32 \<Rightarrow> u32 \<Rightarrow> sdk_mem \<Rightarrow> bool" where
  "storage_request ar len al owner m \<longleftrightarrow> len \<noteq> 0 \<and>
     (case ar of Heap \<Rightarrow> \<not> sa_walk_wraps len al (sdk_heap m) \<and> owner = 0 | Pool \<Rightarrow> owner \<noteq> 0 | Window \<Rightarrow> is_power_of_two al \<and> owner = 0)"

lemma take_storage_ok:
  assumes inv: "sdk_inv m" and rq: "storage_request ar len al owner m" and res: "take_storage ar len al owner m = (a, m')"
  defines "e \<equiv> \<lparr>en_area = ar, en_addr = a, en_len = len, en_owner = owner\<rparr>"
  shows "stores_step m m' (\<lambda>_. True)"
    "a \<noteq> 0 \<Longrightarrow> entry_ok m' e"
    "a \<noteq> 0 \<Longrightarrow> sdk_slot m k = Some e' \<Longrightarrow> disjoint_regions (en_span e) (en_span e')"
    "m' = m\<lparr>sdk_heap := sdk_heap m', sdk_pool := sdk_pool m'\<rparr>"
proof -
  have "stores_step m m' (\<lambda>_. True) \<and> (a \<noteq> 0 \<longrightarrow> entry_ok m' e) \<and>
    (a \<noteq> 0 \<longrightarrow> sdk_slot m k = Some e' \<longrightarrow> disjoint_regions (en_span e) (en_span e')) \<and>
    m' = m\<lparr>sdk_heap := sdk_heap m', sdk_pool := sdk_pool m'\<rparr>"
  proof (cases ar)
    case Heap
    with rq have g: "\<not> sa_walk_wraps len al (sdk_heap m)" "len \<noteq> 0" "owner = 0" by (simp_all add: storage_request_def)
    obtain sa where s: "surface_allocator_alloc_aligned len al (sdk_heap m) = (a, sa)" "m' = m\<lparr>sdk_heap := sa\<rparr>"
      using res Heap by (auto simp: take_storage_def split: prod.splits)
    show ?thesis using heap_alloc_step [OF inv g(1,2) s(1)] by (simp add: s(2) e_def Heap g(3))
  next
    case Pool
    with rq have g: "len \<noteq> 0" "owner \<noteq> 0" by (simp_all add: storage_request_def)
    obtain cp where s: "card_pool_alloc len owner (sdk_pool m) = (a, cp)" "m' = m\<lparr>sdk_pool := cp\<rparr>"
      using res Pool by (auto simp: take_storage_def split: prod.splits)
    show ?thesis using pool_alloc_step [OF inv g s(1)] by (simp add: s(2) e_def Pool)
  next
    case Window
    with rq have g: "is_power_of_two al" "len \<noteq> 0" "owner = 0" by (simp_all add: storage_request_def)
    have s: "find_free_host_window_region len al m = a" "m' = m" using res Window by (auto simp: take_storage_def)
    have "stores_step m m (\<lambda>_. True)" by (rule same_tables_step [OF inv]) (simp add: same_tables_def same_stores_def)
    then show ?thesis using host_window_region_ok [OF inv g(1,2) s(1)] by (simp add: s(2) e_def Window g(3))
  qed
  then show "stores_step m m' (\<lambda>_. True)" "a \<noteq> 0 \<Longrightarrow> entry_ok m' e"
    "a \<noteq> 0 \<Longrightarrow> sdk_slot m k = Some e' \<Longrightarrow> disjoint_regions (en_span e) (en_span e')"
    "m' = m\<lparr>sdk_heap := sdk_heap m', sdk_pool := sdk_pool m'\<rparr>" by blast+
qed

section \<open>Allocating a buffer\<close>

definition buffer_area :: "u32 \<Rightarrow> area" where
  "buffer_area flags = (if flags AND SDK_ALLOC_MEDIA \<noteq> 0 then Pool
     else if flags AND SDK_ALLOC_HOST_WINDOW \<noteq> 0 then Window else Heap)"

definition shared_alignment :: "u8 list \<Rightarrow> u32" where
  "shared_alignment p = (if get_be32 p 4 = 0 then 16 else get_be32 p 4)"

text \<open>The request is refused before any storage is touched.\<close>

definition alloc_shared_refused :: "u8 list \<Rightarrow> nat \<Rightarrow> sdk_mem \<Rightarrow> sdk_status option" where
  "alloc_shared_refused p n m =
     (let len = get_be32 p 0; flags = get_be32 p 8; ar = buffer_area flags
      in if n < 12 \<or> len = 0 \<or> \<not> is_power_of_two (shared_alignment p) \<or>
            flags AND NOT (SDK_ALLOC_HOST_WINDOW OR SDK_ALLOC_CARD_ONLY OR SDK_ALLOC_MEDIA) \<noteq> 0 then Some SBadRequest
         else case ar of
           Pool \<Rightarrow> if \<not> rt_zorro3 (sdk_aperture m) then Some SUnsupported
                   else if flags AND SDK_ALLOC_CARD_ONLY = 0 \<or> flags AND SDK_ALLOC_HOST_WINDOW \<noteq> 0 \<or>
                     len > CARD_POOL_LIMIT_MEDIA_INPUT \<or> shared_alignment p > CARD_POOL_PAGE_BYTES then Some SBadRequest
                   else None
         | Window \<Rightarrow> if effective_host_window_size m = 0 then Some SUnsupported
                   else if len > effective_host_window_size m then Some SBadRequest else None
         | Heap \<Rightarrow> if len > surface_allocator_total_bytes (sdk_heap m) then Some SBadRequest else None)"

text \<open>The allocation goes to the heap, and the allocator's gap test wraps on it (\<open>SurfaceAllocator\<close>).\<close>

definition heap_request_wraps :: "u8 list \<Rightarrow> sdk_mem \<Rightarrow> bool" where
  "heap_request_wraps p m \<longleftrightarrow> buffer_area (get_be32 p 8) = Heap \<and>
     sa_walk_wraps (get_be32 p 0) (shared_alignment p) (sdk_heap m)"

lemma heap_request_wraps_small:
  assumes "sdk_inv m" "is_power_of_two (shared_alignment p)" "unat (shared_alignment p) \<le> 256"
  shows "\<not> heap_request_wraps p m"
  using sa_walk_wraps_small [of "sdk_heap m" "shared_alignment p"] sdk_invD(1) [OF assms(1)] assms(2,3)
  by (auto simp: heap_request_wraps_def is_power_of_two_def stores_ok_def)

definition new_buffer :: "u8 list \<Rightarrow> u32 \<Rightarrow> u32 \<Rightarrow> shared_buffer" where
  "new_buffer p h a = \<lparr>bf_handle = h, bf_address = a, bf_length = get_be32 p 0, bf_flags = get_be32 p 8, bf_pins = 0,
     bf_owner = (if get_be32 p 8 AND SDK_ALLOC_MEDIA \<noteq> 0 then CARD_POOL_OWNER CARD_POOL_CLASS_MEDIA_INPUT h else 0),
     bf_in_use = True\<rparr>"

lemma alloc_shared_eq:
  assumes inv: "sdk_inv m"
  shows "handle_alloc_shared p n m =
    (case alloc_shared_refused p n m of
       Some s \<Rightarrow> (Status s, m)
     | None \<Rightarrow>
         (case find_free_buffer_slot m of
            None \<Rightarrow> (Status SNoMemory, m)
          | Some i \<Rightarrow>
              (case next_handle (set_buffer i buffer_zero m) of (h, m2) \<Rightarrow>
                 case take_storage (buffer_area (get_be32 p 8)) (get_be32 p 0) (shared_alignment p) (bf_owner (new_buffer p h 0)) m2 of
                   (a, m3) \<Rightarrow> if a = 0 then (Status SNoMemory, set_buffer i buffer_zero m3)
                              else (BufferInfo h a (get_be32 p 0) (get_be32 p 8), set_buffer i (new_buffer p h a) m3))))"
  unfolding handle_alloc_shared_def alloc_shared_refused_def sanitize_noop [OF inv] snd_conv
  by (simp add: Let_def shared_alignment_def buffer_area_def take_storage_def new_buffer_def split: option.splits prod.splits)

lemma free_buffer_slot:
  assumes "sdk_inv m" "find_free_buffer_slot m = Some i"
  shows "i < 32" "sdk_slot m i = None"
proof -
  have i: "i < 32" "\<not> shared_buffer_live m (sdk_buffers m ! i)"
    using assms(2) by (auto simp: find_free_buffer_slot_def slot_search sdk_sizes)
  then show "i < 32" "sdk_slot m i = None"
    using sdk_invD(5) [OF assms(1), of "sdk_buffers m ! i"] sdk_invD(2) [OF assms(1)] by (simp_all add: sdk_slot_def)
qed

lemma slot_put:
  assumes inv: "sdk_inv m" and step: "stores_step m m' keep"
  shows "i < 32 \<Longrightarrow> sdk_slot (set_buffer i b m') k = (if k = i then if bf_in_use b then Some (buffer_entry b) else None else sdk_slot m k)"
    "i < 16 \<Longrightarrow> sdk_slot (set_surface i s m') k = (if k = i + 32 then if sf_in_use s then Some (surface_entry s) else None else sdk_slot m k)"
proof -
  have tab: "sdk_buffers m' = sdk_buffers m" "sdk_surfaces m' = sdk_surfaces m" using step by (simp_all add: stores_step_def)
  have slot: "sdk_slot m' = sdk_slot m" by (rule sdk_slot_tables [OF tab])
  have len: "length (sdk_buffers m') = 32" "length (sdk_surfaces m') = 16" using sdk_invD(2,3) [OF inv] by (simp_all add: tab)
  show "i < 32 \<Longrightarrow> sdk_slot (set_buffer i b m') k = (if k = i then if bf_in_use b then Some (buffer_entry b) else None else sdk_slot m k)"
    "i < 16 \<Longrightarrow> sdk_slot (set_surface i s m') k = (if k = i + 32 then if sf_in_use s then Some (surface_entry s) else None else sdk_slot m k)"
    using sdk_slot_update [OF len] by (simp_all add: slot)
qed

lemma clear_buffer:
  assumes "sdk_inv m" "stores_step m m' (\<lambda>k. k \<noteq> i)" "i < 32"
  shows "sdk_inv (set_buffer i buffer_zero m')" "sdk_slot (set_buffer i buffer_zero m') = (sdk_slot m)(i := None)"
proof -
  show "sdk_inv (set_buffer i buffer_zero m')"
    using assms by (rule put_buffer) (simp_all add: buffer_wf_def buffer_zero_def)
  show "sdk_slot (set_buffer i buffer_zero m') = (sdk_slot m)(i := None)"
    using slot_put(1) [OF assms] by (auto simp: buffer_zero_def)
qed

lemma stores_step_weaken: "stores_step m m' (\<lambda>_. True) \<Longrightarrow> stores_step m m' keep"
  by (auto simp: stores_step_def)

text \<open>The result of a request that fills slot \<open>i\<close>, or of one that takes nothing.\<close>

definition fills_slot :: "sdk_mem \<Rightarrow> sdk_mem \<Rightarrow> nat \<Rightarrow> entry \<Rightarrow> bool" where
  "fills_slot m m' i e \<longleftrightarrow> sdk_slot m i = None \<and> sdk_slot m' i = Some e \<and> (\<forall>k. k \<noteq> i \<longrightarrow> sdk_slot m' k = sdk_slot m k)"

lemma alloc_shared_ok:
  assumes inv: "sdk_inv m" and al: "\<not> heap_request_wraps p m"
    and res: "handle_alloc_shared p n m = (reply, m')"
  shows "sdk_inv m' \<and> sdk_ram m' = sdk_ram m \<and>
    ((\<exists>s. reply = Status s) \<and> sdk_slot m' = sdk_slot m \<or>
     (\<exists>i<32. \<exists>h a. reply = BufferInfo h a (get_be32 p 0) (get_be32 p 8) \<and> sdk_buffers m' ! i = new_buffer p h a \<and>
        fills_slot m m' i (buffer_entry (new_buffer p h a))))"
proof (cases "alloc_shared_refused p n m")
  case (Some s)
  then show ?thesis using res inv by (auto simp: alloc_shared_eq [OF inv])
next
  case None
  note ok = None
  show ?thesis
  proof (cases "find_free_buffer_slot m")
    case None
    then show ?thesis using res inv ok by (auto simp: alloc_shared_eq [OF inv])
  next
    case (Some i)
    note i = free_buffer_slot [OF inv Some]
    define m1 where "m1 = set_buffer i buffer_zero m"
    have step1: "stores_step m m (\<lambda>k. k \<noteq> i)" by (rule same_tables_step [OF inv]) (simp add: same_tables_def same_stores_def)
    have inv1: "sdk_inv m1" and slot1: "sdk_slot m1 = sdk_slot m"
      unfolding m1_def using clear_buffer [OF inv step1 i(1)] i(2) by auto
    obtain h m2 where h: "next_handle m1 = (h, m2)" by fastforce
    note fresh = handle_fresh [OF h]
    have inv2: "sdk_inv m2" using inv1 same_tables_inv [OF fresh(3)] by simp
    have slot2: "sdk_slot m2 = sdk_slot m"
      using fresh(3) slot1 sdk_slot_tables [of m2 m1] by (simp add: same_tables_def)
    have heap2: "sdk_heap m2 = sdk_heap m"
      using fresh(3) by (simp add: same_tables_def same_stores_def m1_def set_buffer_def)
    let ?ar = "buffer_area (get_be32 p 8)" and ?own = "bf_owner (new_buffer p h 0)"
    obtain a m3 where st: "take_storage ?ar (get_be32 p 0) (shared_alignment p) ?own m2 = (a, m3)" by fastforce
    have rq: "storage_request ?ar (get_be32 p 0) (shared_alignment p) ?own m2"
      using ok al heap2 owner_nonzero(1)
      by (auto simp: storage_request_def heap_request_wraps_def alloc_shared_refused_def Let_def buffer_area_def new_buffer_def split: if_splits area.split)
    note take = take_storage_ok [OF inv2 rq st]
    have slot3: "sdk_slot m3 = sdk_slot m2" using take(1) by (intro sdk_slot_tables) (simp_all add: stores_step_def)
    have ram: "sdk_ram m3 = sdk_ram m"
      using fresh(4) by (subst take(4)) (simp add: m1_def set_buffer_def)
    show ?thesis
    proof (cases "a = 0")
      case True
      have "handle_alloc_shared p n m = (Status SNoMemory, set_buffer i buffer_zero m3)"
        using ok Some h st True by (simp add: alloc_shared_eq [OF inv] m1_def)
      moreover note clear_buffer [OF inv2 stores_step_weaken [OF take(1)] i(1)]
      ultimately show ?thesis using res slot2 i(2) ram by (auto simp: set_buffer_def)
    next
      case False
      let ?b = "new_buffer p h a"
      have e: "\<lparr>en_area = ?ar, en_addr = a, en_len = get_be32 p 0, en_owner = ?own\<rparr> = buffer_entry ?b"
        by (simp add: buffer_entry_def new_buffer_def buffer_area_def)
      note take' = take(2,3) [OF False, unfolded e]
      have out: "handle_alloc_shared p n m = (BufferInfo h a (get_be32 p 0) (get_be32 p 8), set_buffer i ?b m3)"
        using ok Some h st False by (simp add: alloc_shared_eq [OF inv] m1_def)
      have "buffer_wf m3 ?b" using take' fresh(1,2) by (simp add: buffer_wf_def new_buffer_def)
      then have "sdk_inv (set_buffer i ?b m3)"
        using take' by (intro put_buffer [OF inv2 stores_step_weaken [OF take(1)] i(1)]) auto
      moreover have "sdk_slot (set_buffer i ?b m3) k = (if k = i then Some (buffer_entry ?b) else sdk_slot m k)" for k
        using slot_put(1) [OF inv2 take(1) i(1)] by (simp add: slot2 new_buffer_def)
      moreover have "sdk_buffers (set_buffer i ?b m3) ! i = ?b"
        using take(1) sdk_invD(2) [OF inv2] i(1) by (simp add: set_buffer_def stores_step_def)
      ultimately show ?thesis
        using res out i ram by (auto simp: fills_slot_def set_buffer_def)
    qed
  qed
qed

section \<open>Freeing, filling and copying buffers\<close>

lemma found_buffer:
  assumes "sdk_inv m" "find_shared_buffer h m = Some i"
  shows "i < 32" "sdk_slot m i = Some (buffer_entry (sdk_buffers m ! i))" "bf_handle (sdk_buffers m ! i) = h"
    "bf_in_use (sdk_buffers m ! i)" "entry_ok m (buffer_entry (sdk_buffers m ! i))"
proof -
  have i: "i < 32" "shared_buffer_live m (sdk_buffers m ! i)" "bf_handle (sdk_buffers m ! i) = h"
    using assms(2) by (auto simp: find_shared_buffer_def slot_search sdk_sizes)
  then show "i < 32" "bf_handle (sdk_buffers m ! i) = h" by auto
  show use: "bf_in_use (sdk_buffers m ! i)"
    using i sdk_invD(5) [OF assms(1), of "sdk_buffers m ! i"] sdk_invD(2) [OF assms(1)] by simp
  then show slot: "sdk_slot m i = Some (buffer_entry (sdk_buffers m ! i))" using i(1) by (simp add: sdk_slot_def)
  show "entry_ok m (buffer_entry (sdk_buffers m ! i))" by (rule sdk_slot_ok(1) [OF assms(1) slot])
qed

text \<open>Giving back the block of one entry leaves every other entry where it is.\<close>

lemma stores_frame:
  assumes "stores_ok m" "m' = m\<lparr>sdk_heap := sa, sdk_pool := cp\<rparr>"
    and "sa_inv sa" "sa_base sa = sa_base (sdk_heap m)" "sa_end sa = sa_end (sdk_heap m)"
    and "(unat SDK_HOST_WINDOW_Z3_ADDRESS, unat SDK_HOST_WINDOW_HEAP_SIZE) \<in> set (sa_regions sa)"
    and "cp_inv cp" "cp_ranges cp = cp_ranges (sdk_pool m)"
  shows "stores_ok m'"
  using assms same_stores_window [of m' m] by (simp add: stores_ok_def window_apart_def Let_def)

lemma heap_free_step:
  assumes inv: "sdk_inv m" and k: "sdk_slot m i = Some e" "en_area e = Heap"
  defines "m' \<equiv> m\<lparr>sdk_heap := snd (surface_allocator_free (en_addr e) (sdk_heap m))\<rparr>"
  shows "stores_step m m' (\<lambda>k. k \<noteq> i)"
    "set (sa_regions (sdk_heap m')) = {x \<in> set (sa_regions (sdk_heap m)). fst x \<noteq> unat (en_addr e)}"
proof -
  note st = sdk_invD(1) [OF inv] and ok = sdk_slot_ok(1) [OF inv k(1)]
  obtain ret sa where f: "surface_allocator_free (en_addr e) (sdk_heap m) = (ret, sa)" by fastforce
  have sa: "sa_inv (sdk_heap m)" using st by (simp add: stores_ok_def)
  have spec: "sa_inv sa" "set (sa_regions sa) = {x \<in> set (sa_regions (sdk_heap m)). fst x \<noteq> unat (en_addr e)}"
    using surface_free_spec [OF sa f] by simp_all
  have frame: "sa_base sa = sa_base (sdk_heap m)" "sa_end sa = sa_end (sdk_heap m)"
    using f by (auto simp: surface_allocator_free_def split: option.splits)
  have ne: "en_addr e \<noteq> SDK_HOST_WINDOW_Z3_ADDRESS" by (rule heap_entry [OF st ok k(2)])
  have "(unat SDK_HOST_WINDOW_Z3_ADDRESS, unat SDK_HOST_WINDOW_HEAP_SIZE) \<in> set (sa_regions (sdk_heap m))"
    using st by (simp add: stores_ok_def)
  then have res: "(unat SDK_HOST_WINDOW_Z3_ADDRESS, unat SDK_HOST_WINDOW_HEAP_SIZE) \<in> set (sa_regions sa)"
    using ne spec(2) by (auto simp: word_unat_eq_iff)
  have st': "stores_ok m'"
    using st by (intro stores_frame [OF st _ spec(1) frame res, where cp = "sdk_pool m"]) (simp_all add: stores_ok_def m'_def f)
  moreover have "keeps_block m m' e'" if "j \<noteq> i" "sdk_slot m j = Some e'" for j e'
  proof -
    have "en_addr e' \<noteq> en_addr e" if "en_area e' = Heap"
    proof
      assume eq: "en_addr e' = en_addr e"
      from entries_apartD [OF inv \<open>j \<noteq> i\<close> \<open>sdk_slot m j = Some e'\<close> k(1)] show False
        using entry_pos [OF st ok] entry_pos [OF st sdk_slot_ok(1) [OF inv \<open>sdk_slot m j = Some e'\<close>]]
        by (auto simp: en_span_def eq dest: same_addr_meet)
    qed
    then show ?thesis using spec(2) by (auto simp: keeps_block_def m'_def f word_unat_eq_iff split: area.split)
  qed
  ultimately show "stores_step m m' (\<lambda>k. k \<noteq> i)" by (simp add: stores_step_def m'_def)
  show "set (sa_regions (sdk_heap m')) = {x \<in> set (sa_regions (sdk_heap m)). fst x \<noteq> unat (en_addr e)}"
    using spec(2) by (simp add: m'_def f)
qed

lemma pool_free_step:
  assumes inv: "sdk_inv m" and k: "sdk_slot m i = Some e" "en_area e = Pool"
  defines "m' \<equiv> m\<lparr>sdk_pool := snd (card_pool_free (en_addr e) (en_owner e) (sdk_pool m))\<rparr>"
  shows "stores_step m m' (\<lambda>k. k \<noteq> i)"
    "set (cp_blocks (sdk_pool m')) = {b \<in> set (cp_blocks (sdk_pool m)). cpb_addr b \<noteq> en_addr e}"
proof -
  note st = sdk_invD(1) [OF inv] and ok = sdk_slot_ok(1) [OF inv k(1)]
  have cp: "cp_inv (sdk_pool m)" using st by (simp add: stores_ok_def)
  obtain b where b: "b \<in> set (cp_blocks (sdk_pool m))" "cpb_addr b = en_addr e" "cpb_owner b = en_owner e"
      "0x0B000000 \<le> unat (en_addr e)"
    by (rule pool_entry [OF st ok k(2)])
  have "en_addr e \<noteq> 0" using b(4) by (auto simp: word_unat_eq_iff)
  then have f: "card_pool_free (en_addr e) (en_owner e) (sdk_pool m) = (True, cp_drop (\<lambda>b. cpb_addr b = en_addr e) (sdk_pool m))"
    using b by (auto simp: card_pool_free_drop [OF cp])
  have st': "stores_ok m'"
    using st cp_drop_inv [OF cp]
    by (intro stores_frame [OF st, where sa = "sdk_heap m" and cp = "snd (card_pool_free (en_addr e) (en_owner e) (sdk_pool m))"])
      (simp_all add: m'_def f stores_ok_def)
  moreover have "keeps_block m m' e'" if "j \<noteq> i" "sdk_slot m j = Some e'" for j e'
  proof -
    have "en_addr e' \<noteq> en_addr e" if "en_area e' = Pool"
    proof
      assume eq: "en_addr e' = en_addr e"
      from entries_apartD [OF inv \<open>j \<noteq> i\<close> \<open>sdk_slot m j = Some e'\<close> k(1)] show False
        using entry_pos [OF st ok] entry_pos [OF st sdk_slot_ok(1) [OF inv \<open>sdk_slot m j = Some e'\<close>]]
        by (auto simp: en_span_def eq dest: same_addr_meet)
    qed
    then show ?thesis by (auto simp: keeps_block_def m'_def f split: area.split)
  qed
  ultimately show "stores_step m m' (\<lambda>k. k \<noteq> i)" by (simp add: stores_step_def m'_def)
  show "set (cp_blocks (sdk_pool m')) = {b \<in> set (cp_blocks (sdk_pool m)). cpb_addr b \<noteq> en_addr e}"
    by (auto simp: m'_def f)
qed

lemma entry_owner:
  assumes "stores_ok m" "entry_ok m e"
  shows "en_owner e \<noteq> 0 \<longleftrightarrow> en_area e = Pool"
proof (cases "en_area e")
  case Pool
  then show ?thesis using pool_entry [OF assms Pool] by auto
qed (use assms(2) in \<open>auto simp: entry_ok_def\<close>)

lemma free_shared_ok:
  assumes inv: "sdk_inv m" and res: "handle_free_shared p n m = (reply, m')"
  shows "sdk_inv m' \<and> sdk_ram m' = sdk_ram m \<and>
    (reply \<noteq> Status SOk \<and> m' = m \<or>
     (\<exists>i. reply = Status SOk \<and> find_shared_buffer (get_be32 p 0) m = Some i \<and> bf_pins (sdk_buffers m ! i) = 0 \<and>
        sdk_slot m' = (sdk_slot m)(i := None) \<and> sdk_buffers m' = (sdk_buffers m)[i := buffer_zero] \<and>
        sdk_surfaces m' = sdk_surfaces m \<and> next_shared_handle m' = next_shared_handle m \<and>
        next_surface_handle m' = next_surface_handle m))"
proof (cases "n < 4 \<or> find_shared_buffer (get_be32 p 0) m = None")
  case True
  then show ?thesis using res inv by (auto simp: handle_free_shared_def split: if_splits)
next
  case False
  then obtain i where i: "find_shared_buffer (get_be32 p 0) m = Some i" by auto
  note b = found_buffer [OF inv i]
  let ?b = "sdk_buffers m ! i"
  show ?thesis
  proof (cases "bf_pins ?b = 0")
    case False
    then show ?thesis using res inv i \<open>\<not> (n < 4 \<or> _)\<close> by (auto simp: handle_free_shared_def)
  next
    case True
    define m1 where "m1 = (if bf_owner ?b \<noteq> 0
        then m\<lparr>sdk_pool := snd (card_pool_free (bf_address ?b) (bf_owner ?b) (sdk_pool m))\<rparr>
        else if bf_flags ?b AND SDK_ALLOC_HOST_WINDOW = 0
        then m\<lparr>sdk_heap := snd (surface_allocator_free (bf_address ?b) (sdk_heap m))\<rparr> else m)"
    have m': "reply = Status SOk" "m' = set_buffer i buffer_zero m1"
      using res i True \<open>\<not> (n < 4 \<or> _)\<close> by (auto simp: handle_free_shared_def m1_def Let_def)
    have own: "bf_owner ?b \<noteq> 0 \<longleftrightarrow> en_area (buffer_entry ?b) = Pool"
      using entry_owner [OF sdk_invD(1) [OF inv] b(5)] by (simp add: buffer_entry_def)
    have self: "stores_step m m (\<lambda>k. k \<noteq> i)" by (rule same_tables_step [OF inv]) (simp add: same_tables_def same_stores_def)
    have step: "stores_step m m1 (\<lambda>k. k \<noteq> i)"
    proof (cases "en_area (buffer_entry ?b)")
      case Heap
      then have "bf_owner ?b = 0" "bf_flags ?b AND SDK_ALLOC_HOST_WINDOW = 0"
        using own by (auto simp: buffer_entry_def split: if_splits)
      then show ?thesis using heap_free_step(1) [OF inv b(2) Heap] by (simp add: m1_def buffer_entry_def)
    next
      case Pool
      then show ?thesis using pool_free_step(1) [OF inv b(2) Pool] own by (simp add: m1_def buffer_entry_def)
    next
      case Window
      then have "bf_owner ?b = 0" "bf_flags ?b AND SDK_ALLOC_HOST_WINDOW \<noteq> 0"
        using own by (auto simp: buffer_entry_def split: if_splits)
      then show ?thesis using self by (simp add: m1_def)
    qed
    have "sdk_ram m1 = sdk_ram m" "sdk_buffers m1 = sdk_buffers m" "sdk_surfaces m1 = sdk_surfaces m"
      "next_shared_handle m1 = next_shared_handle m" "next_surface_handle m1 = next_surface_handle m"
      by (simp_all add: m1_def)
    then show ?thesis
      using clear_buffer [OF inv step b(1)] i True by (simp add: m' set_buffer_def)
  qed
qed

section \<open>Writes stay inside the named entry\<close>

text \<open>Only bytes of the region are changed.\<close>

definition ram_confined :: "sdk_mem \<Rightarrow> sdk_mem \<Rightarrow> region \<Rightarrow> bool" where
  "ram_confined m m' x \<longleftrightarrow> (\<forall>a. sdk_ram m' a \<noteq> sdk_ram m a \<longrightarrow> unat a \<in> region_addrs x)"

lemma part_of_entry:
  fixes a base off len :: u32
  assumes "unat off \<le> n" "unat len \<le> n - unat off" "unat base + n < 4294967296" "a - (base + off) < len"
  shows "unat a \<in> region_addrs (unat base, n)"
proof -
  have o: "unat (base + off) = unat base + unat off" using assms(1,3) by (intro unat_plus_no_wrap) linarith
  have lt: "unat (a - (base + off)) < unat len" using assms(4) by (simp add: word_less_nat_alt)
  have "unat (base + off + (a - (base + off))) = unat (base + off) + unat (a - (base + off))"
    using o lt assms(1,2,3) by (intro unat_plus_no_wrap) linarith
  then have "unat a = unat base + unat off + unat (a - (base + off))" by (simp add: o)
  then show ?thesis using lt assms(1,2) by (simp add: region_addrs_def region_end_def)
qed

lemma same_ram_ok:
  assumes "sdk_inv m"
  shows "sdk_inv (m\<lparr>sdk_ram := r\<rparr>)" "sdk_slot (m\<lparr>sdk_ram := r\<rparr>) = sdk_slot m"
  using assms same_tables_inv [of m "m\<lparr>sdk_ram := r\<rparr>"]
  by (auto simp: same_tables_def same_stores_def intro: sdk_slot_tables)

lemma buffer_range:
  assumes inv: "sdk_inv m" and i: "find_shared_buffer h m = Some i" and rg: "buffer_range_valid (sdk_buffers m ! i) off len"
    and a: "a - (bf_address (sdk_buffers m ! i) + off) < len"
  shows "unat a \<in> region_addrs (en_span (buffer_entry (sdk_buffers m ! i)))"
proof -
  let ?b = "sdk_buffers m ! i"
  have "unat (bf_address ?b) + unat (bf_length ?b) < 4294967296"
    using entry_fits [OF sdk_invD(1) [OF inv] found_buffer(5) [OF inv i]] by (simp add: buffer_entry_def)
  moreover have "off \<le> bf_length ?b" "len \<le> bf_length ?b - off" using rg by (auto simp: buffer_range_valid_def split: if_splits)
  ultimately have "unat a \<in> region_addrs (unat (bf_address ?b), unat (bf_length ?b))"
    using a by (intro part_of_entry [of off _ len]) (auto simp: word_le_nat_alt unat_minus_no_wrap)
  then show ?thesis by (simp add: en_span_def buffer_entry_def)
qed

lemma mem_fill_ok:
  assumes inv: "sdk_inv m" and res: "handle_mem_fill p n m = (reply, m')"
  shows "m' = m\<lparr>sdk_ram := sdk_ram m'\<rparr> \<and> (reply \<noteq> Status SOk \<and> m' = m \<or>
    (\<exists>i. reply = Status SOk \<and> find_shared_buffer (get_be32 p 0) m = Some i \<and>
       ram_confined m m' (en_span (buffer_entry (sdk_buffers m ! i)))))"
proof -
  have "ram_confined m (m\<lparr>sdk_ram := memset (bf_address (sdk_buffers m ! i) + get_be32 p 4) v (get_be32 p 8) (sdk_ram m)\<rparr>)
      (en_span (buffer_entry (sdk_buffers m ! i)))"
    if "find_shared_buffer (get_be32 p 0) m = Some i" "buffer_range_valid (sdk_buffers m ! i) (get_be32 p 4) (get_be32 p 8)" for i v
    using buffer_range [OF inv that] by (auto simp: ram_confined_def memset_def)
  moreover have "ram_confined m m x" for x by (simp add: ram_confined_def)
  ultimately show ?thesis using res by (auto simp: handle_mem_fill_def Let_def split: option.splits if_splits)
qed

lemma mem_copy_ok:
  assumes inv: "sdk_inv m" and res: "handle_mem_copy p n m = (reply, m')"
  shows "m' = m\<lparr>sdk_ram := sdk_ram m'\<rparr> \<and> (reply \<noteq> Status SOk \<and> m' = m \<or>
    (\<exists>i. reply = Status SOk \<and> find_shared_buffer (get_be32 p 0) m = Some i \<and>
       ram_confined m m' (en_span (buffer_entry (sdk_buffers m ! i)))))"
proof -
  have "ram_confined m (m\<lparr>sdk_ram := memmove (bf_address (sdk_buffers m ! i) + get_be32 p 4) s (get_be32 p 16) (sdk_ram m)\<rparr>)
      (en_span (buffer_entry (sdk_buffers m ! i)))"
    if "find_shared_buffer (get_be32 p 0) m = Some i" "buffer_range_valid (sdk_buffers m ! i) (get_be32 p 4) (get_be32 p 16)" for i s
    using buffer_range [OF inv that] by (auto simp: ram_confined_def memmove_def)
  moreover have "ram_confined m m x" for x by (simp add: ram_confined_def)
  ultimately show ?thesis using res by (auto simp: handle_mem_copy_def Let_def split: option.splits if_splits)
qed

section \<open>Surfaces\<close>

lemma or_base:
  fixes n :: u32
  assumes "n < 0x40000000"
  shows "unat (0x40000000 OR n) = 0x40000000 + unat n" "n + 1 \<noteq> 0"
proof -
  have n: "unat n < 2 ^ 30" using assms by (simp add: word_less_nat_alt)
  have t: "take_bit 30 n = n" by (rule word_eq_unatI) (use n in \<open>simp add: unsigned_take_bit_eq take_bit_nat_eq_self\<close>)
  have b: "bit (0x40000000 :: u32) k \<longleftrightarrow> k = 30" for k
    using bit_exp_iff [where ?'a = "32 word", of 30 k] by auto
  have "\<not> bit n 30"
  proof
    assume "bit n 30"
    then have "bit (take_bit 30 n) 30" by (simp only: t)
    then show False by (simp add: bit_take_bit_iff)
  qed
  then have "\<not> bit (0x40000000 AND n) k" for k using b [of k] by (simp only: bit_and_iff) blast
  then have "0x40000000 + n = 0x40000000 OR n" by (intro disjunctive_add) (simp only: bit_and_iff, blast)
  moreover have "unat (0x40000000 + n) = 0x40000000 + unat n"
    using n unat_plus_no_wrap [of "0x40000000" n] by simp
  ultimately show "unat (0x40000000 OR n) = 0x40000000 + unat n" by simp
  have "unat (n + 1) = unat n + 1" using n unat_plus_no_wrap [of n 1] by simp
  then show "n + 1 \<noteq> 0" by (auto simp: word_unat_eq_iff)
qed

lemma surface_id_small:
  assumes "next_surface_id m = (h, m')" "next_surface_handle m < 0x40000000"
  shows "unat h = 0x40000000 + unat (next_surface_handle m)" "next_surface_handle m' = next_surface_handle m + 1"
    "same_tables m m'" "sdk_ram m' = sdk_ram m" "next_shared_handle m' = next_shared_handle m"
  using assms(1) or_base [OF assms(2)]
  by (auto simp: next_surface_id_def Let_def SDK_SURFACE_HANDLE_BASE_def same_tables_def same_stores_def)

definition surface_pitch :: "u8 list \<Rightarrow> u32" where
  "surface_pitch p = (if get_be32 p 16 = 0 then surface_min_row_bytes (get_be32 p 8) (get_be32 p 0) else get_be32 p 16)"

definition surface_local :: "u8 list \<Rightarrow> bool" where
  "surface_local p \<longleftrightarrow> get_be32 p 12 AND SDK_SURFACE_FLAG_ARM_LOCAL \<noteq> 0"

definition alloc_surface_refused :: "u8 list \<Rightarrow> nat \<Rightarrow> sdk_mem \<Rightarrow> bool" where
  "alloc_surface_refused p n m \<longleftrightarrow>
     (let width = get_be32 p 0; height = get_be32 p 4; row = surface_min_row_bytes (get_be32 p 8) width;
          pitch = surface_pitch p; len = pitch * height
      in n < 20 \<or> width = 0 \<or> height = 0 \<or> row = 0 \<or> pitch < row \<or> height > UINT32_MAX div pitch \<or> len = 0 \<or>
         (if surface_local p then len > CARD_POOL_LIMIT_SDK_SURFACE else len > surface_allocator_total_bytes (sdk_heap m)))"

definition new_surface :: "u8 list \<Rightarrow> u32 \<Rightarrow> u32 \<Rightarrow> sdk_surface" where
  "new_surface p h a = \<lparr>sf_handle = h, sf_address = a, sf_width = get_be32 p 0, sf_height = get_be32 p 4,
     sf_pitch = surface_pitch p, sf_format = get_be32 p 8,
     sf_flags = (if surface_local p then (get_be32 p 12 OR SDK_SURFACE_FLAG_ARM_LOCAL) AND NOT SDK_SURFACE_FLAG_CPU_VISIBLE
       else get_be32 p 12 OR SDK_SURFACE_FLAG_CPU_VISIBLE),
     sf_length = surface_pitch p * get_be32 p 4,
     sf_owner = (if surface_local p then CARD_POOL_OWNER CARD_POOL_CLASS_SDK_SURFACE h else 0), sf_in_use = True\<rparr>"

lemma alloc_surface_eq:
  assumes inv: "sdk_inv m"
  shows "handle_alloc_surface p n m =
    (if alloc_surface_refused p n m then (Status SBadRequest, m)
     else case find_free_surface_slot m of
            None \<Rightarrow> (Status SNoMemory, m)
          | Some i \<Rightarrow>
              (case next_surface_id (set_surface i surface_zero m) of (h, m2) \<Rightarrow>
                 case take_storage (if surface_local p then Pool else Heap) (surface_pitch p * get_be32 p 4) 64
                        (sf_owner (new_surface p h 0)) m2 of
                   (a, m3) \<Rightarrow> if a = 0 then (Status SNoMemory, set_surface i surface_zero m3)
                              else (SurfaceInfo (new_surface p h a), (set_surface i (new_surface p h a) m3)\<lparr>
                                 sdk_ram := memset a 0 (surface_pitch p * get_be32 p 4) (sdk_ram m3)\<rparr>)))"
  unfolding handle_alloc_surface_def alloc_surface_refused_def sanitize_noop [OF inv] snd_conv
  by (simp add: Let_def surface_pitch_def surface_local_def take_storage_def new_surface_def split: option.splits prod.splits)

lemma arm_local_flags:
  "((f OR SDK_SURFACE_FLAG_ARM_LOCAL) AND NOT SDK_SURFACE_FLAG_CPU_VISIBLE) AND SDK_SURFACE_FLAG_ARM_LOCAL \<noteq> 0"
  "(f OR SDK_SURFACE_FLAG_CPU_VISIBLE) AND SDK_SURFACE_FLAG_ARM_LOCAL = f AND SDK_SURFACE_FLAG_ARM_LOCAL"
proof -
  have b: "bit (16 :: u32) k \<longleftrightarrow> k = 4" "bit (1 :: u32) k \<longleftrightarrow> k = 0" for k
    using bit_exp_iff [where ?'a = "32 word", of 4 k] bit_exp_iff [where ?'a = "32 word", of 0 k] by auto
  have "bit (((f OR 16) AND NOT 1) AND (16 :: u32)) 4" using b by (simp add: bit_and_iff bit_or_iff bit_not_iff)
  then show "((f OR SDK_SURFACE_FLAG_ARM_LOCAL) AND NOT SDK_SURFACE_FLAG_CPU_VISIBLE) AND SDK_SURFACE_FLAG_ARM_LOCAL \<noteq> 0"
    unfolding SDK_SURFACE_FLAG_ARM_LOCAL_def SDK_SURFACE_FLAG_CPU_VISIBLE_def by (metis bit_0_eq bot_apply bot_bool_def)
  have "bit ((f OR 1) AND (16 :: u32)) k = bit (f AND 16) k" for k using b [of k] by (simp only: bit_and_iff bit_or_iff) auto
  then show "(f OR SDK_SURFACE_FLAG_CPU_VISIBLE) AND SDK_SURFACE_FLAG_ARM_LOCAL = f AND SDK_SURFACE_FLAG_ARM_LOCAL"
    unfolding SDK_SURFACE_FLAG_ARM_LOCAL_def SDK_SURFACE_FLAG_CPU_VISIBLE_def by (intro bit_word_eqI) blast
qed

lemma new_surface_local: "surface_is_arm_local (new_surface p h a) = surface_local p"
  using arm_local_flags by (simp add: surface_is_arm_local_def new_surface_def surface_local_def)

lemma free_surface_slot:
  assumes "sdk_inv m" "find_free_surface_slot m = Some i"
  shows "i < 16" "sdk_slot m (i + 32) = None"
proof -
  have i: "i < 16" "\<not> surface_live m (sdk_surfaces m ! i)"
    using assms(2) by (auto simp: find_free_surface_slot_def slot_search sdk_sizes)
  then show "i < 16" "sdk_slot m (i + 32) = None"
    using sdk_invD(6) [OF assms(1), of "sdk_surfaces m ! i"] sdk_invD(3) [OF assms(1)] by (simp_all add: sdk_slot_def)
qed

lemma clear_surface:
  assumes "sdk_inv m" "stores_step m m' (\<lambda>k. k \<noteq> i + 32)" "i < 16"
  shows "sdk_inv (set_surface i surface_zero m')" "sdk_slot (set_surface i surface_zero m') = (sdk_slot m)(i + 32 := None)"
proof -
  show "sdk_inv (set_surface i surface_zero m')"
    using assms by (rule put_surface) (simp_all add: surface_wf_def surface_zero_def)
  show "sdk_slot (set_surface i surface_zero m') = (sdk_slot m)(i + 32 := None)"
    using slot_put(2) [OF assms] by (auto simp: surface_zero_def)
qed

lemma new_surface_geometry:
  assumes "\<not> alloc_surface_refused p n m"
  shows "geometry_ok (new_surface p h a)" "surface_pitch p * get_be32 p 4 \<noteq> 0"
proof -
  let ?row = "surface_min_row_bytes (get_be32 p 8) (get_be32 p 0)"
  from assms have g: "get_be32 p 0 \<noteq> 0" "get_be32 p 4 \<noteq> 0" "?row \<noteq> 0" "surface_pitch p \<ge> ?row"
      "get_be32 p 4 \<le> UINT32_MAX div surface_pitch p" "surface_pitch p * get_be32 p 4 \<noteq> 0"
    by (auto simp: alloc_surface_refused_def Let_def not_less)
  have "surface_pitch p \<noteq> 0"
  proof
    assume "surface_pitch p = 0"
    with g(6) show False by simp
  qed
  with g show "geometry_ok (new_surface p h a)" "surface_pitch p * get_be32 p 4 \<noteq> 0"
    by (simp_all add: geometry_ok_def new_surface_def)
qed

lemma ram_confined_memset:
  assumes "unat a + unat len < 4294967296"
  shows "ram_confined m (m'\<lparr>sdk_ram := memset a v len (sdk_ram m)\<rparr>) (unat a, unat len)"
  using part_of_entry [of 0 "unat len" len a] assms by (auto simp: ram_confined_def memset_def)

lemma alloc_surface_ok:
  assumes inv: "sdk_inv m" and cnt: "next_surface_handle m < 0x40000000"
    and res: "handle_alloc_surface p n m = (reply, m')"
  shows "sdk_inv m' \<and>
    ((\<exists>s. reply = Status s) \<and> sdk_slot m' = sdk_slot m \<and> sdk_ram m' = sdk_ram m \<or>
     (\<exists>i<16. \<exists>h a. reply = SurfaceInfo (new_surface p h a) \<and> sdk_surfaces m' ! i = new_surface p h a \<and>
        fills_slot m m' (i + 32) (surface_entry (new_surface p h a)) \<and>
        ram_confined m m' (en_span (surface_entry (new_surface p h a)))))"
proof (cases "alloc_surface_refused p n m \<or> find_free_surface_slot m = None")
  case True
  then show ?thesis using res inv by (auto simp: alloc_surface_eq [OF inv] split: if_splits option.splits)
next
  case False
  then obtain i where fi: "find_free_surface_slot m = Some i" and ok: "\<not> alloc_surface_refused p n m" by auto
  note i = free_surface_slot [OF inv fi]
  define m1 where "m1 = set_surface i surface_zero m"
  have step1: "stores_step m m (\<lambda>k. k \<noteq> i + 32)" by (rule same_tables_step [OF inv]) (simp add: same_tables_def same_stores_def)
  have inv1: "sdk_inv m1" and slot1: "sdk_slot m1 = sdk_slot m"
    unfolding m1_def using clear_surface [OF inv step1 i(1)] i(2) by auto
  obtain h m2 where h: "next_surface_id m1 = (h, m2)" by fastforce
  have cnt1: "next_surface_handle m1 < 0x40000000" using cnt by (simp add: m1_def set_surface_def)
  note fresh = surface_id_small [OF h cnt1]
  have inv2: "sdk_inv m2" using inv1 same_tables_inv [OF fresh(3)] by simp
  have slot2: "sdk_slot m2 = sdk_slot m"
    using fresh(3) slot1 sdk_slot_tables [of m2 m1] by (simp add: same_tables_def)
  let ?ar = "if surface_local p then Pool else Heap" and ?len = "surface_pitch p * get_be32 p 4"
    and ?own = "sf_owner (new_surface p h 0)"
  obtain a m3 where st: "take_storage ?ar ?len 64 ?own m2 = (a, m3)" by fastforce
  note geo = new_surface_geometry [OF ok]
  have "\<not> sa_walk_wraps ?len 64 (sdk_heap m2)"
    using sdk_invD(1) [OF inv2] by (intro sa_walk_wraps_small) (simp_all add: stores_ok_def)
  then have rq: "storage_request ?ar ?len 64 ?own m2"
    using geo(2) owner_nonzero(2) by (simp add: storage_request_def new_surface_def)
  note take = take_storage_ok [OF inv2 rq st]
  have ram: "sdk_ram m3 = sdk_ram m"
    using fresh(4) by (subst take(4)) (simp add: m1_def set_surface_def)
  show ?thesis
  proof (cases "a = 0")
    case True
    have "handle_alloc_surface p n m = (Status SNoMemory, set_surface i surface_zero m3)"
      using ok fi h st True by (simp add: alloc_surface_eq [OF inv] m1_def)
    moreover note clear_surface [OF inv2 stores_step_weaken [OF take(1)] i(1)]
    ultimately show ?thesis using res slot2 i(2) ram by (auto simp: set_surface_def)
  next
    case False
    let ?s = "new_surface p h a"
    let ?m = "(set_surface i ?s m3)\<lparr>sdk_ram := memset a 0 ?len (sdk_ram m3)\<rparr>"
    have e: "\<lparr>en_area = ?ar, en_addr = a, en_len = ?len, en_owner = ?own\<rparr> = surface_entry ?s"
      using new_surface_local by (simp add: surface_entry_def) (simp add: new_surface_def)
    note take' = take(2,3) [OF False, unfolded e]
    have out: "handle_alloc_surface p n m = (SurfaceInfo ?s, ?m)"
      using ok fi h st False by (simp add: alloc_surface_eq [OF inv] m1_def)
    have hn: "unat h < 0x80000000" "0x40000000 \<le> unat h"
      using fresh(1) cnt1 by (simp_all add: word_less_nat_alt)
    then have "h \<noteq> 0" "h \<noteq> SDK_INVALID_HANDLE" "h \<noteq> SDK_SURFACE_HANDLE_FRAMEBUFFER"
      by (auto simp: SDK_INVALID_HANDLE_def SDK_SURFACE_HANDLE_FRAMEBUFFER_def)
    then have "surface_wf m3 ?s" using take' geo(1) by (simp add: surface_wf_def new_surface_def)
    then have inv3: "sdk_inv (set_surface i ?s m3)"
      using take' by (intro put_surface [OF inv2 stores_step_weaken [OF take(1)] i(1)]) auto
    have slot: "sdk_slot (set_surface i ?s m3) k = (if k = i + 32 then Some (surface_entry ?s) else sdk_slot m k)" for k
      using slot_put(2) [OF inv2 take(1) i(1)] by (simp add: slot2 new_surface_def)
    have "sdk_surfaces ?m ! i = ?s"
      using take(1) sdk_invD(3) [OF inv2] i(1) by (simp add: set_surface_def stores_step_def)
    moreover have "ram_confined m ?m (en_span (surface_entry ?s))"
    proof -
      have "stores_ok m3" using take(1) by (simp add: stores_step_def)
      from entry_fits [OF this take'(1)] have "unat a + unat ?len < 4294967296" by (simp add: surface_entry_def new_surface_def)
      from ram_confined_memset [OF this, where m = m and m' = "set_surface i ?s m3" and v = 0] show ?thesis
        by (simp add: ram en_span_def surface_entry_def new_surface_def)
    qed
    moreover have "fills_slot m ?m (i + 32) (surface_entry ?s)"
      using slot i(2) unfolding fills_slot_def same_ram_ok(2) [OF inv3] by simp
    moreover have "sdk_inv ?m" by (rule same_ram_ok(1) [OF inv3])
    moreover have "reply = SurfaceInfo ?s" "m' = ?m" using res out by simp_all
    ultimately show ?thesis using i(1) by blast
  qed
qed

lemma found_surface:
  assumes "sdk_inv m" "find_surface h m = Some i"
  shows "i < 16" "sdk_slot m (i + 32) = Some (surface_entry (sdk_surfaces m ! i))" "sf_handle (sdk_surfaces m ! i) = h"
    "entry_ok m (surface_entry (sdk_surfaces m ! i))" "geometry_ok (sdk_surfaces m ! i)"
proof -
  have i: "i < 16" "surface_live m (sdk_surfaces m ! i)" "sf_handle (sdk_surfaces m ! i) = h"
    using assms(2) by (auto simp: find_surface_def slot_search sdk_sizes)
  then show "i < 16" "sf_handle (sdk_surfaces m ! i) = h" by auto
  have mem: "sdk_surfaces m ! i \<in> set (sdk_surfaces m)" using i sdk_invD(3) [OF assms(1)] by simp
  then have "sf_in_use (sdk_surfaces m ! i)" using i sdk_invD(6) [OF assms(1)] by simp
  then show "sdk_slot m (i + 32) = Some (surface_entry (sdk_surfaces m ! i))"
    "entry_ok m (surface_entry (sdk_surfaces m ! i))" "geometry_ok (sdk_surfaces m ! i)"
    using i(1) sdk_invD(8) [OF assms(1) mem] by (simp_all add: sdk_slot_def surface_wf_def)
qed

lemma free_surface_ok:
  assumes inv: "sdk_inv m" and res: "handle_free_surface p n m = (reply, m')"
  shows "sdk_inv m' \<and> sdk_ram m' = sdk_ram m \<and>
    (reply \<noteq> Status SOk \<and> m' = m \<or>
     (\<exists>i. reply = Status SOk \<and> find_surface (get_be32 p 0) m = Some i \<and>
        sdk_slot m' = (sdk_slot m)(i + 32 := None) \<and> sdk_surfaces m' = (sdk_surfaces m)[i := surface_zero] \<and>
        sdk_buffers m' = sdk_buffers m \<and> next_shared_handle m' = next_shared_handle m \<and>
        next_surface_handle m' = next_surface_handle m))"
proof (cases "n < 4 \<or> get_be32 p 0 = SDK_SURFACE_HANDLE_FRAMEBUFFER \<or> find_surface (get_be32 p 0) m = None")
  case True
  then show ?thesis using res inv by (auto simp: handle_free_surface_def Let_def split: if_splits)
next
  case False
  then obtain i where i: "find_surface (get_be32 p 0) m = Some i" by auto
  note s = found_surface [OF inv i]
  let ?s = "sdk_surfaces m ! i"
  define m1 where "m1 = (if sf_owner ?s \<noteq> 0
      then m\<lparr>sdk_pool := snd (card_pool_free (sf_address ?s) (sf_owner ?s) (sdk_pool m))\<rparr>
      else m\<lparr>sdk_heap := snd (surface_allocator_free (sf_address ?s) (sdk_heap m))\<rparr>)"
  have m': "reply = Status SOk" "m' = set_surface i surface_zero m1"
    using res i False by (auto simp: handle_free_surface_def m1_def Let_def)
  have own: "sf_owner ?s \<noteq> 0 \<longleftrightarrow> en_area (surface_entry ?s) = Pool"
    using entry_owner [OF sdk_invD(1) [OF inv] s(4)] by (simp add: surface_entry_def)
  have step: "stores_step m m1 (\<lambda>k. k \<noteq> i + 32)"
  proof (cases "en_area (surface_entry ?s)")
    case Heap
    then show ?thesis using heap_free_step(1) [OF inv s(2) Heap] own by (simp add: m1_def surface_entry_def)
  next
    case Pool
    then show ?thesis using pool_free_step(1) [OF inv s(2) Pool] own by (simp add: m1_def surface_entry_def)
  next
    case Window
    then show ?thesis by (simp add: surface_entry_def split: if_splits)
  qed
  have "sdk_ram m1 = sdk_ram m" "sdk_buffers m1 = sdk_buffers m" "sdk_surfaces m1 = sdk_surfaces m"
    "next_shared_handle m1 = next_shared_handle m" "next_surface_handle m1 = next_surface_handle m"
    by (simp_all add: m1_def)
  then show ?thesis
    using clear_surface [OF inv step s(1)] i by (simp add: m' set_surface_def)
qed

text \<open>A live surface fits the address space, and its rows its span.\<close>

lemma geometry_length:
  assumes "geometry_ok s"
  shows "unat (sf_length s) = unat (sf_pitch s) * unat (sf_height s)"
proof -
  from assms have g: "sf_height s \<le> UINT32_MAX div sf_pitch s" "sf_length s = sf_pitch s * sf_height s"
    by (auto simp: geometry_ok_def)
  have "unat (sf_height s) \<le> 4294967295 div unat (sf_pitch s)" using g(1) by (simp add: word_le_nat_alt unat_div)
  then have "unat (sf_pitch s) * unat (sf_height s) \<le> unat (sf_pitch s) * (4294967295 div unat (sf_pitch s))"
    by (rule mult_le_mono2)
  also have "\<dots> \<le> 4294967295" by simp
  finally show ?thesis unfolding g(2) by (simp add: unat_word_ariths)
qed

lemma surface_fits:
  assumes inv: "sdk_inv m" and i: "find_surface h m = Some i"
  defines "s \<equiv> sdk_surfaces m ! i"
  shows "unat (sf_address s) + unat (sf_pitch s) * unat (sf_height s) \<le> 2 ^ 32"
    "en_span (surface_entry s) = surface_span (sf_address s) (sf_pitch s) (sf_height s)"
    "unat (a - sf_address s) < unat (sf_pitch s) * unat (sf_height s) \<Longrightarrow> unat a \<in> region_addrs (en_span (surface_entry s))"
proof -
  note f = found_surface [OF inv i, folded s_def]
  note len = geometry_length [OF f(5)]
  have lt: "unat (sf_address s) + unat (sf_length s) < 4294967296"
    using entry_fits [OF sdk_invD(1) [OF inv] f(4)] by (simp add: surface_entry_def)
  then show "unat (sf_address s) + unat (sf_pitch s) * unat (sf_height s) \<le> 2 ^ 32" by (simp add: len [symmetric])
  show span: "en_span (surface_entry s) = surface_span (sf_address s) (sf_pitch s) (sf_height s)"
    by (simp add: en_span_def surface_entry_def surface_span_def len)
  assume "unat (a - sf_address s) < unat (sf_pitch s) * unat (sf_height s)"
  then have "unat a \<in> region_addrs (unat (sf_address s), unat (sf_length s))"
    using lt by (intro part_of_entry [of 0 _ "sf_length s"]) (simp_all add: len word_less_nat_alt)
  then show "unat a \<in> region_addrs (en_span (surface_entry s))" by (simp add: span surface_span_def len)
qed

lemma in_rect_inside:
  assumes "surface_rect_valid w h pitch bpp x y rw rh" "in_rect (unat pitch) c (unat y) n (unat rh) off"
  shows "off < unat pitch * unat h"
proof -
  note v = rect_valid_facts [OF assms(1)]
  have "off div unat pitch < unat h" using v(6) assms(2) by (auto simp: in_rect_def)
  then show ?thesis using v(4) by (metis less_mult_imp_div_less mult.commute div_less_iff_less_mult)
qed

lemma fill_surface_ok:
  assumes inv: "sdk_inv m" and h: "get_be32 p 0 \<noteq> SDK_SURFACE_HANDLE_FRAMEBUFFER"
    and res: "handle_fill_surface p n m = (reply, m')"
  shows "m' = m\<lparr>sdk_ram := sdk_ram m'\<rparr> \<and> (reply \<noteq> Status SOk \<and> m' = m \<or>
    (\<exists>i. reply = Status SOk \<and> find_surface (get_be32 p 0) m = Some i \<and>
       ram_confined m m' (en_span (surface_entry (sdk_surfaces m ! i)))))"
proof (cases "find_surface (get_be32 p 0) m")
  case None
  then show ?thesis using res h by (auto simp: handle_fill_surface_def get_surface_info_def split: if_splits)
next
  case (Some i)
  let ?s = "sdk_surfaces m ! i"
  have fits: "unat (sf_pitch ?s) * unat (sf_height ?s) \<le> 2 ^ 32" using surface_fits(1) [OF inv Some] by simp
  have "ram_confined m (m\<lparr>sdk_ram := r\<rparr>) (en_span (surface_entry ?s))"
    if "sdk_surface_fill_rect (sf_address ?s) (sf_width ?s) (sf_height ?s) (sf_pitch ?s) (sf_format ?s)
      (get_be32 p 4) (get_be32 p 8) (get_be32 p 12) (get_be32 p 16) (get_be32 p 20) (sdk_ram m) = (True, r)" for r
    using that surface_fits(3) [OF inv Some] in_rect_inside
    by (auto simp: fill_rect_eq [OF fits] ram_confined_def fill_reference_def Let_def split: if_splits)
  then show ?thesis
    using res h Some by (auto simp: handle_fill_surface_def get_surface_info_def split: if_splits prod.splits)
qed

lemma found_handle:
  assumes "sdk_inv m" "find_surface h m = Some i"
  shows "h \<noteq> SDK_SURFACE_HANDLE_FRAMEBUFFER" "sf_address (sdk_surfaces m ! i) \<noteq> 0"
proof -
  note f = found_surface [OF assms]
  have mem: "sdk_surfaces m ! i \<in> set (sdk_surfaces m)" using f(1) sdk_invD(3) [OF assms(1)] by simp
  have "sf_in_use (sdk_surfaces m ! i)" using f(1,2) by (simp add: sdk_slot_def split: if_splits)
  then show "h \<noteq> SDK_SURFACE_HANDLE_FRAMEBUFFER" using sdk_invD(8) [OF assms(1) mem] f(3) by (auto simp: surface_wf_def)
  show "sf_address (sdk_surfaces m ! i) \<noteq> 0"
  proof (cases "en_area (surface_entry (sdk_surfaces m ! i))")
    case Heap
    have "unat HOST_VISIBLE_HEAP_ADDRESS \<le> unat (en_addr (surface_entry (sdk_surfaces m ! i)))"
      by (rule heap_entry [OF sdk_invD(1) [OF assms(1)] f(4) Heap])
    then show ?thesis by (auto simp: surface_entry_def sdk_areas)
  next
    case Pool
    have "0x0B000000 \<le> unat (en_addr (surface_entry (sdk_surfaces m ! i)))"
      by (rule pool_entry [OF sdk_invD(1) [OF assms(1)] f(4) Pool])
    then show ?thesis by (auto simp: surface_entry_def)
  qed (simp add: surface_entry_def split: if_splits)
qed

lemma copy_surface_eq:
  assumes inv: "sdk_inv m" and n: "48 \<le> n"
    and i: "find_surface (get_be32 p 0) m = Some i" and j: "find_surface (get_be32 p 4) m = Some j"
  defines "src \<equiv> sdk_surfaces m ! i" and "dst \<equiv> sdk_surfaces m ! j"
  shows "handle_copy_surface p n m =
    (if get_be32 p 32 \<noteq> 0 \<or> sf_format src \<noteq> sf_format dst then (Status SUnsupported, m)
     else if \<not> surface_rect_valid (sf_width dst) (sf_height dst) (sf_pitch dst) (sdk_surface_format_bytes (sf_format src))
              (get_be32 p 16) (get_be32 p 20) (get_be32 p 24) (get_be32 p 28) \<or>
            \<not> surface_rect_valid (sf_width src) (sf_height src) (sf_pitch src) (sdk_surface_format_bytes (sf_format src))
              (get_be32 p 8) (get_be32 p 12) (get_be32 p 24) (get_be32 p 28)
     then (Status SBadRequest, m)
     else (Status SOk, m\<lparr>sdk_ram := copy_reference (sf_address dst) (sf_pitch dst) (sf_address src) (sf_pitch src)
            (sf_format src) (get_be32 p 8) (get_be32 p 12) (get_be32 p 16) (get_be32 p 20)
            (get_be32 p 24) (get_be32 p 28) (sdk_ram m)\<rparr>))"
proof -
  have apart: "sf_address dst = sf_address src \<and> sf_pitch dst = sf_pitch src \<or>
    disjoint_regions (surface_span (sf_address dst) (sf_pitch dst) (sf_height dst))
      (surface_span (sf_address src) (sf_pitch src) (sf_height src))"
  proof (cases "i = j")
    case True
    then show ?thesis by (simp add: src_def dst_def)
  next
    case False
    then have "disjoint_regions (en_span (surface_entry dst)) (en_span (surface_entry src))"
      using found_surface(2) [OF inv i] found_surface(2) [OF inv j]
      by (intro entries_apartD [OF inv, of "j + 32" "i + 32"]) (simp_all add: src_def dst_def)
    then show ?thesis using surface_fits(2) [OF inv i] surface_fits(2) [OF inv j] by (simp add: src_def dst_def)
  qed
  note eq = copy_rect_eq [OF surface_fits(1) [OF inv j, folded dst_def] surface_fits(1) [OF inv i, folded src_def] apart]
  show ?thesis
    using n found_handle [OF inv i] found_handle [OF inv j] i j
    by (simp add: handle_copy_surface_def get_surface_info_def eq [unfolded src_def dst_def] src_def dst_def)
qed

lemma copy_surface_ok:
  assumes inv: "sdk_inv m" and h: "get_be32 p 4 \<noteq> SDK_SURFACE_HANDLE_FRAMEBUFFER"
    and res: "handle_copy_surface p n m = (reply, m')"
  shows "m' = m\<lparr>sdk_ram := sdk_ram m'\<rparr> \<and> (reply \<noteq> Status SOk \<and> m' = m \<or>
    (\<exists>i. reply = Status SOk \<and> find_surface (get_be32 p 4) m = Some i \<and>
       ram_confined m m' (en_span (surface_entry (sdk_surfaces m ! i)))))"
proof (cases "find_surface (get_be32 p 4) m")
  case None
  then show ?thesis using res h by (auto simp: handle_copy_surface_def get_surface_info_def split: if_splits option.splits)
next
  case (Some j)
  let ?d = "sdk_surfaces m ! j"
  have fits: "unat (sf_pitch ?d) * unat (sf_height ?d) \<le> 2 ^ 32" using surface_fits(1) [OF inv Some] by simp
  have "ram_confined m (m\<lparr>sdk_ram := r\<rparr>) (en_span (surface_entry ?d))"
    if "sdk_surface_copy_rect (sf_address ?d) (sf_width ?d) (sf_height ?d) (sf_pitch ?d) a w ht pt f sx sy dx dy rw rh (sdk_ram m) = (True, r)"
    for a w ht pt f sx sy dx dy rw rh r
    using copy_rect_frame [OF fits that] surface_fits(3) [OF inv Some] by (auto simp: ram_confined_def)
  then show ?thesis
    using res h Some by (auto simp: handle_copy_surface_def get_surface_info_def split: if_splits prod.splits option.splits)
qed

end
