(* ===== verification/SdkRuns.thy ===== *)
theory SdkRuns
  imports SdkService
begin

unbundle bit_operations_syntax

text \<open>
  Runs of the mailbox's memory service: any sequence of requests, with the other users of
  the two allocators, the host's own writes and the PCM ring's pins in between.
\<close>

section \<open>Steps\<close>

text \<open>
  A request, in a mailbox lifetime of fewer than 2^30 surface and 2^32 - 3 buffer
  allocations, that does not wrap the heap allocator's gap test (\<open>heap_request_wraps\<close>; with an
  alignment of at most 256 none does). A step of the rest of the firmware changes the allocators,
  keeps them well formed and leaves the blocks of the two tables alone.
\<close>

inductive sdk_step :: "sdk_mem \<Rightarrow> sdk_mem \<Rightarrow> bool" where
  request: "handle_memory_request opcode = Some h \<Longrightarrow> h p n m = (reply, m') \<Longrightarrow>
    opcode = 0x100 \<longrightarrow> \<not> heap_request_wraps p m \<Longrightarrow>
    next_shared_handle m < 0xfffffffe \<Longrightarrow> next_surface_handle m < 0x3fffffff \<Longrightarrow> sdk_step m m'"
| pin: "i < 32 \<Longrightarrow> shared_buffer_pin i m = (ok, m') \<Longrightarrow> sdk_step m m'"
| unpin: "i < 32 \<Longrightarrow> sdk_step m (shared_buffer_unpin i m)"
| others: "stores_step m m' (\<lambda>_. True) \<Longrightarrow> next_shared_handle m' = next_shared_handle m \<Longrightarrow>
    next_surface_handle m' = next_surface_handle m \<Longrightarrow> sdk_step m m'"

definition sdk_reachable :: "sdk_mem \<Rightarrow> sdk_mem \<Rightarrow> bool" where
  "sdk_reachable = sdk_step\<^sup>*\<^sup>*"

text \<open>Handles in use are below the counters and differ.\<close>

definition handles_ok :: "sdk_mem \<Rightarrow> bool" where
  "handles_ok m \<longleftrightarrow> next_shared_handle m \<noteq> 0 \<and>
     (\<forall>i<32. bf_in_use (sdk_buffers m ! i) \<longrightarrow> bf_handle (sdk_buffers m ! i) < next_shared_handle m) \<and>
     (\<forall>i<16. sf_in_use (sdk_surfaces m ! i) \<longrightarrow> unat (sf_handle (sdk_surfaces m ! i)) < 0x40000000 + unat (next_surface_handle m)) \<and>
     (\<forall>i<32. \<forall>j<32. i \<noteq> j \<longrightarrow> bf_in_use (sdk_buffers m ! i) \<longrightarrow> bf_in_use (sdk_buffers m ! j) \<longrightarrow>
        bf_handle (sdk_buffers m ! i) \<noteq> bf_handle (sdk_buffers m ! j)) \<and>
     (\<forall>i<16. \<forall>j<16. i \<noteq> j \<longrightarrow> sf_in_use (sdk_surfaces m ! i) \<longrightarrow> sf_in_use (sdk_surfaces m ! j) \<longrightarrow>
        sf_handle (sdk_surfaces m ! i) \<noteq> sf_handle (sdk_surfaces m ! j))"

section \<open>Handles stay unique\<close>

definition buffer_same :: "sdk_mem \<Rightarrow> sdk_mem \<Rightarrow> nat \<Rightarrow> bool" where
  "buffer_same m m' k \<longleftrightarrow> (bf_in_use (sdk_buffers m' ! k) \<longrightarrow>
     bf_in_use (sdk_buffers m ! k) \<and> bf_handle (sdk_buffers m' ! k) = bf_handle (sdk_buffers m ! k))"

definition surface_same :: "sdk_mem \<Rightarrow> sdk_mem \<Rightarrow> nat \<Rightarrow> bool" where
  "surface_same m m' k \<longleftrightarrow> (sf_in_use (sdk_surfaces m' ! k) \<longrightarrow>
     sf_in_use (sdk_surfaces m ! k) \<and> sf_handle (sdk_surfaces m' ! k) = sf_handle (sdk_surfaces m ! k))"

text \<open>At most one slot takes a new handle, the counter's, which then advances.\<close>

definition handles_step :: "sdk_mem \<Rightarrow> sdk_mem \<Rightarrow> bool" where
  "handles_step m m' \<longleftrightarrow> next_shared_handle m \<le> next_shared_handle m' \<and> next_surface_handle m \<le> next_surface_handle m' \<and>
     (\<exists>i. (\<forall>k<32. k \<noteq> i \<longrightarrow> buffer_same m m' k) \<and> (i < 32 \<longrightarrow> buffer_same m m' i \<or>
        bf_handle (sdk_buffers m' ! i) = next_shared_handle m \<and> next_shared_handle m < next_shared_handle m')) \<and>
     (\<exists>i. (\<forall>k<16. k \<noteq> i \<longrightarrow> surface_same m m' k) \<and> (i < 16 \<longrightarrow> surface_same m m' i \<or>
        unat (sf_handle (sdk_surfaces m' ! i)) = 0x40000000 + unat (next_surface_handle m) \<and>
        next_surface_handle m < next_surface_handle m'))"

lemma handles_step_ok:
  assumes "handles_ok m" "handles_step m m'"
  shows "handles_ok m'"
proof -
  from assms(2) obtain i j where st: "next_shared_handle m \<le> next_shared_handle m'" "next_surface_handle m \<le> next_surface_handle m'"
    "\<forall>k<32. k \<noteq> i \<longrightarrow> buffer_same m m' k" "i < 32 \<longrightarrow> buffer_same m m' i \<or>
        bf_handle (sdk_buffers m' ! i) = next_shared_handle m \<and> next_shared_handle m < next_shared_handle m'"
    "\<forall>k<16. k \<noteq> j \<longrightarrow> surface_same m m' k" "j < 16 \<longrightarrow> surface_same m m' j \<or>
        unat (sf_handle (sdk_surfaces m' ! j)) = 0x40000000 + unat (next_surface_handle m) \<and>
        next_surface_handle m < next_surface_handle m'"
    unfolding handles_step_def by blast
  note H = assms(1) [unfolded handles_ok_def]
  have "next_shared_handle m' \<noteq> 0"
  proof
    assume "next_shared_handle m' = 0"
    with st(1) have "next_shared_handle m = 0" by simp
    with H show False by blast
  qed
  moreover have b: "bf_handle (sdk_buffers m' ! k) < next_shared_handle m' \<and>
      (bf_handle (sdk_buffers m' ! k) < next_shared_handle m \<longrightarrow> buffer_same m m' k)"
    if "k < 32" "bf_in_use (sdk_buffers m' ! k)" for k
  proof (cases "buffer_same m m' k")
    case True
    with that have "bf_handle (sdk_buffers m' ! k) < next_shared_handle m" using H by (auto simp: buffer_same_def)
    with st(1) True show ?thesis by auto
  next
    case False
    with st(3,4) that(1) have "bf_handle (sdk_buffers m' ! k) = next_shared_handle m" "next_shared_handle m < next_shared_handle m'" by auto
    then show ?thesis by simp
  qed
  moreover have s: "unat (sf_handle (sdk_surfaces m' ! k)) < 0x40000000 + unat (next_surface_handle m')"
    if "k < 16" "sf_in_use (sdk_surfaces m' ! k)" for k
  proof (cases "surface_same m m' k")
    case True
    with that have "unat (sf_handle (sdk_surfaces m' ! k)) < 0x40000000 + unat (next_surface_handle m)"
      using H by (auto simp: surface_same_def)
    with st(2) show ?thesis by (simp add: word_le_nat_alt)
  next
    case False
    with st(5,6) that(1) show ?thesis by (auto simp: word_less_nat_alt)
  qed
  moreover have "bf_handle (sdk_buffers m' ! k) \<noteq> bf_handle (sdk_buffers m' ! l)"
    if kl: "k < 32" "l < 32" "k \<noteq> l" "bf_in_use (sdk_buffers m' ! k)" "bf_in_use (sdk_buffers m' ! l)" for k l
  proof -
    have same: "bf_handle (sdk_buffers m' ! k) < next_shared_handle m" if "buffer_same m m' k" "k < 32" "bf_in_use (sdk_buffers m' ! k)" for k
      using that H by (auto simp: buffer_same_def)
    have new: "bf_handle (sdk_buffers m' ! k) = next_shared_handle m \<and> k = i" if "\<not> buffer_same m m' k" "k < 32" for k
      using st(3,4) that by blast
    show ?thesis
    proof (cases "buffer_same m m' k"; cases "buffer_same m m' l")
      assume "buffer_same m m' k" "buffer_same m m' l"
      then show ?thesis using kl H by (auto simp: buffer_same_def)
    next
      assume "buffer_same m m' k" "\<not> buffer_same m m' l"
      with same [of k] new [of l] kl show ?thesis by auto
    next
      assume "\<not> buffer_same m m' k" "buffer_same m m' l"
      with same [of l] new [of k] kl show ?thesis by auto
    next
      assume "\<not> buffer_same m m' k" "\<not> buffer_same m m' l"
      with new [of k] new [of l] kl show ?thesis by simp
    qed
  qed
  moreover have "sf_handle (sdk_surfaces m' ! k) \<noteq> sf_handle (sdk_surfaces m' ! l)"
    if kl: "k < 16" "l < 16" "k \<noteq> l" "sf_in_use (sdk_surfaces m' ! k)" "sf_in_use (sdk_surfaces m' ! l)" for k l
  proof -
    have same: "unat (sf_handle (sdk_surfaces m' ! k)) < 0x40000000 + unat (next_surface_handle m)"
      if "surface_same m m' k" "k < 16" "sf_in_use (sdk_surfaces m' ! k)" for k
      using that H by (auto simp: surface_same_def)
    have new: "unat (sf_handle (sdk_surfaces m' ! k)) = 0x40000000 + unat (next_surface_handle m) \<and> k = j"
      if "\<not> surface_same m m' k" "k < 16" for k
      using st(5,6) that by blast
    show ?thesis
    proof (cases "surface_same m m' k"; cases "surface_same m m' l")
      assume "surface_same m m' k" "surface_same m m' l"
      then show ?thesis using kl H by (auto simp: surface_same_def)
    next
      assume "surface_same m m' k" "\<not> surface_same m m' l"
      with same [of k] new [of l] kl show ?thesis by auto
    next
      assume "\<not> surface_same m m' k" "surface_same m m' l"
      with same [of l] new [of k] kl show ?thesis by auto
    next
      assume "\<not> surface_same m m' k" "\<not> surface_same m m' l"
      with new [of k] new [of l] kl show ?thesis by simp
    qed
  qed
  ultimately show ?thesis unfolding handles_ok_def by blast
qed

text \<open>The common shapes: tables untouched, a slot cleared, a slot filled.\<close>

lemma handles_step_tables:
  assumes "sdk_buffers m' = sdk_buffers m" "sdk_surfaces m' = sdk_surfaces m"
    "next_shared_handle m' = next_shared_handle m" "next_surface_handle m' = next_surface_handle m"
  shows "handles_step m m'"
  using assms by (auto simp: handles_step_def buffer_same_def surface_same_def)

lemma handles_step_buffer:
  assumes "length (sdk_buffers m) = 32" "sdk_buffers m' = (sdk_buffers m)[i := b]" "sdk_surfaces m' = sdk_surfaces m" "i < 32"
    "next_shared_handle m \<le> next_shared_handle m'" "next_surface_handle m' = next_surface_handle m"
    "bf_in_use b \<longrightarrow> bf_in_use (sdk_buffers m ! i) \<and> bf_handle b = bf_handle (sdk_buffers m ! i) \<or>
       bf_handle b = next_shared_handle m \<and> next_shared_handle m < next_shared_handle m'"
  shows "handles_step m m'"
  unfolding handles_step_def
  using assms by (intro conjI exI [of _ i] exI [of _ 16]) (auto simp: buffer_same_def surface_same_def)

lemma handles_step_surface:
  assumes "length (sdk_surfaces m) = 16" "sdk_surfaces m' = (sdk_surfaces m)[i := s]" "sdk_buffers m' = sdk_buffers m" "i < 16"
    "next_surface_handle m \<le> next_surface_handle m'" "next_shared_handle m' = next_shared_handle m"
    "sf_in_use s \<longrightarrow> sf_in_use (sdk_surfaces m ! i) \<and> sf_handle s = sf_handle (sdk_surfaces m ! i) \<or>
       unat (sf_handle s) = 0x40000000 + unat (next_surface_handle m) \<and> next_surface_handle m < next_surface_handle m'"
  shows "handles_step m m'"
  unfolding handles_step_def
  using assms by (intro conjI exI [of _ i] exI [of _ 32]) (auto simp: buffer_same_def surface_same_def)

lemma take_storage_frame:
  "take_storage ar len al owner m = (a, m') \<Longrightarrow>
    sdk_buffers m' = sdk_buffers m \<and> sdk_surfaces m' = sdk_surfaces m \<and>
    next_shared_handle m' = next_shared_handle m \<and> next_surface_handle m' = next_surface_handle m"
  by (auto simp: take_storage_def split: area.splits prod.splits)

lemma succ_less:
  fixes n :: u32
  assumes "n < k"
  shows "n < n + 1" "n \<le> n + 1"
proof -
  have "unat n < unat k" using assms by (simp add: word_less_nat_alt)
  then have "unat n + 1 < 4294967296" using unat_lt32 [of k] by linarith
  then have "unat (n + 1) = unat n + 1" using unat_plus_no_wrap [of n 1] by simp
  then show "n < n + 1" "n \<le> n + 1" by (simp_all add: word_less_nat_alt word_le_nat_alt)
qed

lemma next_handle_small:
  assumes "next_handle m = (h, m')" "next_shared_handle m \<noteq> 0" "next_shared_handle m < 0xfffffffe"
  shows "h = next_shared_handle m" "next_shared_handle m' = next_shared_handle m + 1"
proof -
  have "next_shared_handle m \<noteq> 0xffffffff" using assms(3) by auto
  moreover have "next_shared_handle m + 1 \<noteq> 0" "next_shared_handle m + 1 \<noteq> 0xffffffff"
    using assms(3) succ_less [OF assms(3)] by (auto simp: add_eq_0_iff eq_diff_eq [symmetric])
  ultimately show "h = next_shared_handle m" "next_shared_handle m' = next_shared_handle m + 1"
    using assms(1,2) by (auto simp: next_handle_def Let_def split: if_splits)
qed

lemma alloc_shared_handles:
  assumes inv: "sdk_inv m" and ok: "next_shared_handle m \<noteq> 0" "next_shared_handle m < 0xfffffffe"
    and res: "handle_alloc_shared p n m = (reply, m')"
  shows "handles_step m m'"
proof (cases "alloc_shared_refused p n m \<noteq> None \<or> find_free_buffer_slot m = None")
  case True
  then have "m' = m" using res by (auto simp: alloc_shared_eq [OF inv] split: option.splits)
  then show ?thesis by (simp add: handles_step_tables)
next
  case False
  then obtain i where i: "find_free_buffer_slot m = Some i" "alloc_shared_refused p n m = None" by auto
  define m1 where "m1 = set_buffer i buffer_zero m"
  obtain h m2 where h: "next_handle m1 = (h, m2)" by fastforce
  have nh: "h = next_shared_handle m" "next_shared_handle m2 = next_shared_handle m + 1"
    using next_handle_small [OF h] ok by (simp_all add: m1_def set_buffer_def)
  note fr = handle_fresh [OF h]
  obtain a m3 where st: "take_storage (buffer_area (get_be32 p 8)) (get_be32 p 0) (shared_alignment p) (bf_owner (new_buffer p h 0)) m2 = (a, m3)"
    by fastforce
  note tf = take_storage_frame [OF st]
  have m': "m' = set_buffer i (if a = 0 then buffer_zero else new_buffer p h a) m3"
    using res i h st by (auto simp: alloc_shared_eq [OF inv] m1_def)
  have "sdk_buffers m' = (sdk_buffers m)[i := if a = 0 then buffer_zero else new_buffer p h a]" "sdk_surfaces m' = sdk_surfaces m"
    "next_shared_handle m' = next_shared_handle m + 1" "next_surface_handle m' = next_surface_handle m"
    using tf nh fr by (simp_all add: m' set_buffer_def m1_def same_tables_def)
  then show ?thesis
    using sdk_invD(2) [OF inv] free_buffer_slot(1) [OF inv i(1)] succ_less [OF ok(2)] nh(1)
    by (intro handles_step_buffer [of m m' i "if a = 0 then buffer_zero else new_buffer p h a"])
      (auto simp: buffer_zero_def new_buffer_def)
qed

lemma alloc_surface_handles:
  assumes inv: "sdk_inv m" and cnt: "next_surface_handle m < 0x3fffffff"
    and res: "handle_alloc_surface p n m = (reply, m')"
  shows "handles_step m m'"
proof (cases "alloc_surface_refused p n m \<or> find_free_surface_slot m = None")
  case True
  then have "m' = m" using res by (auto simp: alloc_surface_eq [OF inv] split: option.splits if_splits)
  then show ?thesis by (simp add: handles_step_tables)
next
  case False
  then obtain i where i: "find_free_surface_slot m = Some i" "\<not> alloc_surface_refused p n m" by auto
  define m1 where "m1 = set_surface i surface_zero m"
  obtain h m2 where h: "next_surface_id m1 = (h, m2)" by fastforce
  have small: "next_surface_handle m1 < 0x40000000" using cnt by (simp add: m1_def set_surface_def word_less_nat_alt)
  note fr = surface_id_small [OF h small]
  obtain a m3 where st: "take_storage (if surface_local p then Pool else Heap) (surface_pitch p * get_be32 p 4) 64
      (sf_owner (new_surface p h 0)) m2 = (a, m3)" by fastforce
  note tf = take_storage_frame [OF st]
  have eq: "sdk_surfaces m' = (sdk_surfaces m)[i := if a = 0 then surface_zero else new_surface p h a]" "sdk_buffers m' = sdk_buffers m"
    "next_surface_handle m' = next_surface_handle m + 1" "next_shared_handle m' = next_shared_handle m"
    using res i h st tf fr by (auto simp: alloc_surface_eq [OF inv] set_surface_def m1_def same_tables_def split: if_splits)
  have "unat h = 0x40000000 + unat (next_surface_handle m)" using fr(1) by (simp add: m1_def set_surface_def)
  with eq show ?thesis
    using sdk_invD(3) [OF inv] free_surface_slot(1) [OF inv i(1)] succ_less [OF cnt]
    by (intro handles_step_surface [of m m' i "if a = 0 then surface_zero else new_surface p h a"])
      (auto simp: surface_zero_def new_surface_def)
qed

lemma ram_requests:
  assumes "handle_memory_request opcode = Some h" "opcode \<in> {0x102, 0x103, 0x202, 0x203, 0x204}" "h p n m = (reply, m')"
  shows "m' = m\<lparr>sdk_ram := sdk_ram m'\<rparr>"
  using assms
  by (auto simp: handle_memory_request_def handle_mem_fill_def handle_mem_copy_def handle_map_framebuffer_surface_def
      handle_fill_surface_def handle_copy_surface_def Let_def split: if_splits option.splits prod.splits)

lemma request_cases:
  assumes "handle_memory_request opcode = Some h"
  shows "opcode = 0x100 \<and> h = handle_alloc_shared \<or> opcode = 0x101 \<and> h = handle_free_shared \<or>
    opcode = 0x200 \<and> h = handle_alloc_surface \<or> opcode = 0x201 \<and> h = handle_free_surface \<or>
    opcode \<in> {0x102, 0x103, 0x202, 0x203, 0x204}"
  using assms by (auto simp: handle_memory_request_def split: if_splits)

lemma request_ok:
  assumes inv: "sdk_inv m" and nz: "next_shared_handle m \<noteq> 0"
    and rq: "handle_memory_request opcode = Some h" "h p n m = (reply, m')"
      "opcode = 0x100 \<longrightarrow> \<not> heap_request_wraps p m"
      "next_shared_handle m < 0xfffffffe" "next_surface_handle m < 0x3fffffff"
  shows "sdk_inv m' \<and> handles_step m m'"
  using request_cases [OF rq(1)]
proof (elim disjE conjE)
    assume op: "opcode = 0x100" and h: "h = handle_alloc_shared"
    show ?thesis
      using alloc_shared_ok [OF inv _ rq(2) [unfolded h]] rq(3) op
        alloc_shared_handles [OF inv nz rq(4) rq(2) [unfolded h]] by blast
  next
    assume op: "opcode = 0x101" and h: "h = handle_free_shared"
    note f = free_shared_ok [OF inv rq(2) [unfolded h]]
    then consider "m' = m" | i where "find_shared_buffer (get_be32 p 0) m = Some i" "sdk_buffers m' = (sdk_buffers m)[i := buffer_zero]"
        "sdk_surfaces m' = sdk_surfaces m" "next_shared_handle m' = next_shared_handle m" "next_surface_handle m' = next_surface_handle m"
      by blast
    then have "handles_step m m'"
    proof cases
      case (2 i)
      then show ?thesis
        using sdk_invD(2) [OF inv] found_buffer(1) [OF inv 2(1)]
        by (intro handles_step_buffer [of m m' i buffer_zero]) (simp_all add: buffer_zero_def)
    qed (simp add: handles_step_tables)
    with f show ?thesis by blast
  next
    assume op: "opcode = 0x200" and h: "h = handle_alloc_surface"
    have "next_surface_handle m < 0x40000000" using rq(5) by (simp add: word_less_nat_alt)
    from alloc_surface_ok [OF inv this rq(2) [unfolded h]] alloc_surface_handles [OF inv rq(5) rq(2) [unfolded h]]
    show ?thesis by blast
  next
    assume op: "opcode = 0x201" and h: "h = handle_free_surface"
    note f = free_surface_ok [OF inv rq(2) [unfolded h]]
    then consider "m' = m" | i where "find_surface (get_be32 p 0) m = Some i" "sdk_surfaces m' = (sdk_surfaces m)[i := surface_zero]"
        "sdk_buffers m' = sdk_buffers m" "next_shared_handle m' = next_shared_handle m" "next_surface_handle m' = next_surface_handle m"
      by blast
    then have "handles_step m m'"
    proof cases
      case (2 i)
      then show ?thesis
        using sdk_invD(3) [OF inv] found_surface(1) [OF inv 2(1)]
        by (intro handles_step_surface [of m m' i surface_zero]) (simp_all add: surface_zero_def)
    qed (simp add: handles_step_tables)
    with f show ?thesis by blast
  next
    assume op: "opcode \<in> {0x102, 0x103, 0x202, 0x203, 0x204}"
    have eq: "m' = m\<lparr>sdk_ram := sdk_ram m'\<rparr>" by (rule ram_requests [OF rq(1) op rq(2)])
    have "sdk_inv m'" by (subst eq) (rule same_ram_ok(1) [OF inv])
    moreover have "handles_step m m'" by (subst eq) (rule handles_step_tables; simp)
    ultimately show ?thesis ..
qed

lemma pins_ok:
  assumes inv: "sdk_inv m" and i: "i < 32"
  shows "sdk_inv (set_buffer i ((sdk_buffers m ! i)\<lparr>bf_pins := x\<rparr>) m) \<and>
    handles_step m (set_buffer i ((sdk_buffers m ! i)\<lparr>bf_pins := x\<rparr>) m)"
proof -
  let ?b = "(sdk_buffers m ! i)\<lparr>bf_pins := x\<rparr>"
  have mem: "sdk_buffers m ! i \<in> set (sdk_buffers m)" using i sdk_invD(2) [OF inv] by simp
  have e: "buffer_entry ?b = buffer_entry (sdk_buffers m ! i)" by (simp add: buffer_entry_def)
  have "stores_step m m (\<lambda>k. k \<noteq> i)" by (rule same_tables_step [OF inv]) (simp add: same_tables_def same_stores_def)
  then have "sdk_inv (set_buffer i ?b m)"
  proof (rule put_buffer [OF inv _ i])
    show "buffer_wf m ?b" using sdk_invD(7) [OF inv mem] e by (simp add: buffer_wf_def)
    show "disjoint_regions (en_span (buffer_entry ?b)) (en_span e')"
      if "bf_in_use ?b" "k \<noteq> i" "sdk_slot m k = Some e'" for k e'
      unfolding e using that i by (intro entries_apartD [OF inv, of i k]) (auto simp: sdk_slot_def)
  qed
  moreover have "handles_step m (set_buffer i ?b m)"
    using sdk_invD(2) [OF inv] i by (intro handles_step_buffer [of m _ i ?b]) (simp_all add: set_buffer_def)
  ultimately show ?thesis ..
qed

lemma stores_step_inv:
  assumes inv: "sdk_inv m" and st: "stores_step m m' (\<lambda>_. True)"
  shows "sdk_inv m'"
proof -
  have tab: "sdk_buffers m' = sdk_buffers m" "sdk_surfaces m' = sdk_surfaces m" and ok: "stores_ok m'"
    using st by (simp_all add: stores_step_def)
  have slot: "sdk_slot m' = sdk_slot m" by (rule sdk_slot_tables [OF tab])
  note wf = stores_step_wf [OF inv st]
  have "\<forall>b\<in>set (sdk_buffers m'). buffer_wf m' b" "\<forall>s\<in>set (sdk_surfaces m'). surface_wf m' s"
    using wf sdk_invD(2,3) [OF inv] by (auto simp: tab in_set_conv_nth)
  moreover have "entries_apart m'" using sdk_invD(4) [OF inv] by (simp add: entries_apart_def slot)
  ultimately show ?thesis using ok sdk_invD(2,3) [OF inv] by (simp add: sdk_inv_def tab)
qed

lemma sdk_step_handles:
  assumes "sdk_step m m'" "sdk_inv m" "handles_ok m"
  shows "sdk_inv m' \<and> handles_step m m'"
  using assms
proof (induction rule: sdk_step.induct)
  case (request opcode h p n m reply m')
  have "next_shared_handle m \<noteq> 0" using request.prems(2) by (simp add: handles_ok_def)
  then show ?case by (rule request_ok [OF request.prems(1) _ request.hyps])
next
  case (pin i m ok m')
  then show ?case using pins_ok [OF pin.prems(1) pin.hyps(1)]
    by (auto simp: shared_buffer_pin_def Let_def handles_step_tables split: if_splits)
next
  case (unpin i m)
  then show ?case using pins_ok [OF unpin.prems(1) unpin.hyps(1)]
    by (auto simp: shared_buffer_unpin_def Let_def handles_step_tables)
next
  case (others m m')
  have tab: "sdk_buffers m' = sdk_buffers m" "sdk_surfaces m' = sdk_surfaces m" using others.hyps(1) by (simp_all add: stores_step_def)
  show ?case
    using stores_step_inv [OF others.prems(1) others.hyps(1)] handles_step_tables [OF tab others.hyps(2,3)] by blast
qed

lemma sdk_step_ok: "sdk_step m m' \<Longrightarrow> sdk_inv m \<Longrightarrow> handles_ok m \<Longrightarrow> sdk_inv m' \<and> handles_ok m'"
  using sdk_step_handles handles_step_ok by blast

lemma sdk_reachable_ok:
  assumes "sdk_reachable m0 m" "sdk_inv m0" "handles_ok m0"
  shows "sdk_inv m" "handles_ok m"
proof -
  have "sdk_step\<^sup>*\<^sup>* m0 m" using assms(1) by (simp add: sdk_reachable_def)
  then have "sdk_inv m \<and> handles_ok m" using assms(2,3) by (induction rule: rtranclp_induct) (auto dest: sdk_step_ok)
  then show "sdk_inv m" "handles_ok m" by auto
qed

text \<open>A handle below the counter that no entry carries stays unused.\<close>

definition buffer_stale :: "u32 \<Rightarrow> sdk_mem \<Rightarrow> bool" where
  "buffer_stale h m \<longleftrightarrow> h < next_shared_handle m \<and> (\<forall>k<32. bf_in_use (sdk_buffers m ! k) \<longrightarrow> bf_handle (sdk_buffers m ! k) \<noteq> h)"

definition surface_stale :: "u32 \<Rightarrow> sdk_mem \<Rightarrow> bool" where
  "surface_stale h m \<longleftrightarrow> unat h < 0x40000000 + unat (next_surface_handle m) \<and>
     (\<forall>k<16. sf_in_use (sdk_surfaces m ! k) \<longrightarrow> sf_handle (sdk_surfaces m ! k) \<noteq> h)"

lemma stale_step:
  assumes "handles_step m m'"
  shows "buffer_stale h m \<Longrightarrow> buffer_stale h m'" "surface_stale h m \<Longrightarrow> surface_stale h m'"
proof -
  from assms obtain i j where st: "next_shared_handle m \<le> next_shared_handle m'" "next_surface_handle m \<le> next_surface_handle m'"
    "\<forall>k<32. buffer_same m m' k \<or> bf_handle (sdk_buffers m' ! k) = next_shared_handle m"
    "\<forall>k<16. surface_same m m' k \<or> unat (sf_handle (sdk_surfaces m' ! k)) = 0x40000000 + unat (next_surface_handle m)"
    unfolding handles_step_def by blast
  show "buffer_stale h m \<Longrightarrow> buffer_stale h m'" using st(1,3) by (fastforce simp: buffer_stale_def buffer_same_def)
  show "surface_stale h m'" if s: "surface_stale h m"
  proof -
    have "sf_handle (sdk_surfaces m' ! k) \<noteq> h" if k: "k < 16" "sf_in_use (sdk_surfaces m' ! k)" for k
      using st(4) k s by (fastforce simp: surface_stale_def surface_same_def)
    moreover have "unat h < 0x40000000 + unat (next_surface_handle m')"
      using st(2) s by (simp add: surface_stale_def word_le_nat_alt)
    ultimately show ?thesis by (simp add: surface_stale_def)
  qed
qed

lemma stale_run:
  assumes "sdk_reachable m m'" "sdk_inv m" "handles_ok m"
  shows "buffer_stale h m \<Longrightarrow> buffer_stale h m'" "surface_stale h m \<Longrightarrow> surface_stale h m'"
proof -
  have "sdk_step\<^sup>*\<^sup>* m m'" using assms(1) by (simp add: sdk_reachable_def)
  then have "(buffer_stale h m \<longrightarrow> buffer_stale h m') \<and> (surface_stale h m \<longrightarrow> surface_stale h m') \<and> sdk_inv m' \<and> handles_ok m'"
    using assms(2,3)
  proof (induction rule: rtranclp_induct)
    case (step x y)
    then have x: "sdk_inv x" "handles_ok x" by blast+
    note s = sdk_step_handles [OF step.hyps(2) x]
    with step stale_step handles_step_ok [OF x(2)] show ?case by blast
  qed blast
  then show "buffer_stale h m \<Longrightarrow> buffer_stale h m'" "surface_stale h m \<Longrightarrow> surface_stale h m'" by blast+
qed

text \<open>A stale handle is not found.\<close>

lemma stale_not_found:
  assumes "sdk_inv m"
  shows "buffer_stale h m \<Longrightarrow> find_shared_buffer h m = None" "surface_stale h m \<Longrightarrow> find_surface h m = None"
proof -
  show "find_shared_buffer h m = None" if "buffer_stale h m"
    using found_buffer [OF assms, of h] that by (cases "find_shared_buffer h m") (auto simp: buffer_stale_def)
  show "find_surface h m = None" if "surface_stale h m"
  proof (cases "find_surface h m")
    case (Some i)
    note f = found_surface [OF assms Some]
    have "sf_in_use (sdk_surfaces m ! i)" using f(1,2) by (simp add: sdk_slot_def split: if_splits)
    with f(1,3) that show ?thesis by (auto simp: surface_stale_def)
  qed
qed

text \<open>Boot: fresh allocators with the reserved ranges, empty tables.\<close>

definition sdk_boot :: "sdk_mem \<Rightarrow> bool" where
  "sdk_boot m \<longleftrightarrow> (\<exists>m1. m = sdk_mailbox_init_memory m1 \<and> stores_ok m1)"

lemma sdk_boot_ok:
  assumes "sdk_boot m"
  shows "sdk_inv m" "handles_ok m"
proof -
  from assms obtain m1 where m: "m = sdk_mailbox_init_memory m1" and st: "stores_ok m1" by (auto simp: sdk_boot_def)
  have same: "same_stores m1 m" by (simp add: m same_stores_def sdk_mailbox_init_memory_def)
  have tab: "sdk_buffers m = replicate 32 buffer_zero" "sdk_surfaces m = replicate 16 surface_zero" "next_shared_handle m = 1"
    by (simp_all add: m sdk_mailbox_init_memory_def sdk_sizes)
  have "sdk_slot m k = None" for k by (simp add: sdk_slot_def tab buffer_zero_def surface_zero_def)
  then show "sdk_inv m"
    using st same_stores_cong(4) [OF same] by (simp add: sdk_inv_def entries_apart_def tab buffer_wf_def surface_wf_def buffer_zero_def surface_zero_def)
  show "handles_ok m" by (simp add: handles_ok_def tab buffer_zero_def surface_zero_def)
qed

end
