(* ===== verification/SdkMemory.thy ===== *)
theory SdkMemory
  imports SdkRuns
begin

unbundle bit_operations_syntax

text \<open>
  What the mailbox's memory service promises its clients, on every state a mailbox
  lifetime reaches; then one lifetime run concretely.
\<close>

section \<open>The tables at any time\<close>

lemma sdk_lifetime:
  assumes "sdk_boot m0" "sdk_reachable m0 m"
  shows "sdk_inv m" "handles_ok m"
  using sdk_reachable_ok [OF assms(2) sdk_boot_ok [OF assms(1)]] by auto

lemma handle_names:
  assumes inv: "sdk_inv m" and hd: "handles_ok m"
  shows "k < 32 \<Longrightarrow> sdk_slot m k = Some e \<Longrightarrow> find_shared_buffer (bf_handle (sdk_buffers m ! k)) m = Some k"
    "k < 16 \<Longrightarrow> sdk_slot m (k + 32) = Some e \<Longrightarrow> find_surface (sf_handle (sdk_surfaces m ! k)) m = Some k"
proof -
  have live: "shared_buffer_live m (sdk_buffers m ! j) = bf_in_use (sdk_buffers m ! j)" if "j < 32" for j
    using sdk_invD(2) [OF inv] sdk_invD(5) [OF inv] that by simp
  have live': "surface_live m (sdk_surfaces m ! j) = sf_in_use (sdk_surfaces m ! j)" if "j < 16" for j
    using sdk_invD(3) [OF inv] sdk_invD(6) [OF inv] that by simp
  show "find_shared_buffer (bf_handle (sdk_buffers m ! k)) m = Some k" if "k < 32" "sdk_slot m k = Some e"
  proof -
    have "bf_in_use (sdk_buffers m ! k)" using that by (simp add: sdk_slot_def split: if_splits)
    moreover have "bf_handle (sdk_buffers m ! j) \<noteq> bf_handle (sdk_buffers m ! k)" if "j < k" "bf_in_use (sdk_buffers m ! j)" for j
      using that \<open>k < 32\<close> \<open>bf_in_use (sdk_buffers m ! k)\<close> hd by (auto simp: handles_ok_def)
    ultimately show ?thesis using that(1) live by (auto simp: find_shared_buffer_def slot_search sdk_sizes)
  qed
  show "find_surface (sf_handle (sdk_surfaces m ! k)) m = Some k" if "k < 16" "sdk_slot m (k + 32) = Some e"
  proof -
    have "sf_in_use (sdk_surfaces m ! k)" using that by (simp add: sdk_slot_def split: if_splits)
    moreover have "sf_handle (sdk_surfaces m ! j) \<noteq> sf_handle (sdk_surfaces m ! k)" if "j < k" "sf_in_use (sdk_surfaces m ! j)" for j
      using that \<open>k < 16\<close> \<open>sf_in_use (sdk_surfaces m ! k)\<close> hd by (auto simp: handles_ok_def)
    ultimately show ?thesis using that(1) live' by (auto simp: find_surface_def slot_search sdk_sizes)
  qed
qed

text \<open>
  C32: Whatever requests a mailbox lifetime has served without wrapping the heap's gap test
  (\<open>heap_request_wraps\<close>: an alignment above 256 can, up to 256 none does), and within its bounds
  on the handle counters, two entries of the tables share no byte, every entry is a live block
  of its allocator (or lies in the host window), and its handle finds it.
\<close>

theorem sdk_entries_isolated:
  assumes "sdk_boot m0" "sdk_reachable m0 m" "sdk_slot m k = Some e"
  shows "entry_ok m e \<and> 0 < unat (en_len e) \<and>
    (if k < 32 then find_shared_buffer (bf_handle (sdk_buffers m ! k)) m = Some k
     else find_surface (sf_handle (sdk_surfaces m ! (k - 32))) m = Some (k - 32)) \<and>
    (\<forall>k' e'. k' \<noteq> k \<and> sdk_slot m k' = Some e' \<longrightarrow> region_addrs (en_span e) \<inter> region_addrs (en_span e') = {})"
proof -
  note inv = sdk_lifetime [OF assms(1,2)]
  note ok = sdk_slot_ok [OF inv(1) assms(3)]
  have "region_addrs (en_span e) \<inter> region_addrs (en_span e') = {}" if "k' \<noteq> k" "sdk_slot m k' = Some e'" for k' e'
    using entries_apartD [OF inv(1) _ assms(3) that(2)] that(1) by (auto simp: disjoint_regions_addrs)
  moreover have "find_surface (sf_handle (sdk_surfaces m ! (k - 32))) m = Some (k - 32)" if "\<not> k < 32"
    using handle_names(2) [OF inv, of "k - 32" e] that ok(2) assms(3) by simp
  ultimately show ?thesis
    using ok entry_pos [OF sdk_invD(1) [OF inv(1)] ok(1)] handle_names(1) [OF inv _ assms(3)] by auto
qed

text \<open>
  C34: A handle that was freed is refused for the rest of the lifetime; a pinned buffer is not
  freed; a free takes away its own entry only.
\<close>

theorem sdk_freed_handle_dead:
  assumes "sdk_boot m0" "sdk_reachable m0 m" "find_shared_buffer (get_be32 p 0) m = Some i" "4 \<le> n"
    and "handle_free_shared p n m = (reply, m')" "sdk_reachable m' m''"
  shows "(bf_pins (sdk_buffers m ! i) \<noteq> 0 \<longrightarrow> reply = Status SBusy \<and> m' = m) \<and>
    (bf_pins (sdk_buffers m ! i) = 0 \<longrightarrow> reply = Status SOk \<and> sdk_slot m' = (sdk_slot m)(i := None) \<and>
       handle_free_shared p n m'' = (Status SBadHandle, m''))"
proof -
  note inv = sdk_lifetime [OF assms(1,2)]
  note fb = found_buffer [OF inv(1) assms(3)]
  note fr = free_shared_ok [OF inv(1) assms(5)]
  show ?thesis
  proof (cases "bf_pins (sdk_buffers m ! i) = 0")
    case True
    then have ok: "reply = Status SOk" using assms(3-5) by (auto simp: handle_free_shared_def Let_def)
    with fr assms(3) have m': "sdk_slot m' = (sdk_slot m)(i := None)" "sdk_buffers m' = (sdk_buffers m)[i := buffer_zero]"
      "next_shared_handle m' = next_shared_handle m" "sdk_inv m'" by auto
    have "handles_step m m'"
      using fr assms(3) ok sdk_invD(2) [OF inv(1)] fb(1)
      by (intro handles_step_buffer [of m m' i buffer_zero]) (auto simp: buffer_zero_def)
    then have hd: "handles_ok m'" by (rule handles_step_ok [OF inv(2)])
    have "bf_handle (sdk_buffers m ! k) \<noteq> get_be32 p 0" if "k < 32" "k \<noteq> i" "bf_in_use (sdk_buffers m ! k)" for k
      using that fb inv(2) unfolding handles_ok_def by metis
    moreover have "get_be32 p 0 < next_shared_handle m" using inv(2) fb by (auto simp: handles_ok_def)
    ultimately have "buffer_stale (get_be32 p 0) m'"
      using fb(1) sdk_invD(2) [OF inv(1)] by (auto simp: buffer_stale_def m'(2,3) nth_list_update buffer_zero_def)
    then have "buffer_stale (get_be32 p 0) m''" by (rule stale_run(1) [OF assms(6) m'(4) hd])
    then have "find_shared_buffer (get_be32 p 0) m'' = None"
      by (rule stale_not_found(1) [OF sdk_reachable_ok(1) [OF assms(6) m'(4) hd]])
    with True ok m'(1) assms(4) show ?thesis by (simp add: handle_free_shared_def)
  qed (use assms(3-5) in \<open>auto simp: handle_free_shared_def Let_def\<close>)
qed

section \<open>What a request may touch\<close>

text \<open>The slot whose bytes a request writes.\<close>

definition request_target :: "u32 \<Rightarrow> u8 list \<Rightarrow> sdk_mem \<Rightarrow> nat option" where
  "request_target opcode p m =
     (if opcode = 0x102 \<or> opcode = 0x103 then find_shared_buffer (get_be32 p 0) m
      else if opcode = 0x203 then map_option (\<lambda>i. i + 32) (find_surface (get_be32 p 0) m)
      else if opcode = 0x204 then map_option (\<lambda>i. i + 32) (find_surface (get_be32 p 4) m)
      else None)"

lemma confined_apart:
  assumes "ram_confined m m' (en_span e)" "disjoint_regions (en_span e) (en_span e')" "unat a \<in> region_addrs (en_span e')"
  shows "sdk_ram m' a = sdk_ram m a"
  using assms disjoint_regions_addrs [OF assms(2)] by (auto simp: ram_confined_def)

lemma fills_slot_keeps: "fills_slot m m' i e' \<Longrightarrow> sdk_slot m k = Some e \<Longrightarrow> i \<noteq> k \<and> sdk_slot m' k = Some e"
  by (cases "i = k") (auto simp: fills_slot_def)

lemma target_confined:
  assumes inv: "sdk_inv m" and t: "\<And>i. named i \<Longrightarrow> sdk_slot m (i + c) = Some (en i)"
    and res: "P \<and> m' = m \<or> (\<exists>i. Q \<and> named i \<and> ram_confined m m' (en_span (en i)))"
    and k: "sdk_slot m k = Some e" "\<forall>i. named i \<longrightarrow> i + c \<noteq> k" "unat a \<in> region_addrs (en_span e)"
  shows "sdk_ram m' a = sdk_ram m a"
  using res
proof (elim disjE conjE exE)
  fix i assume i: "named i" "ram_confined m m' (en_span (en i))"
  have "disjoint_regions (en_span (en i)) (en_span e)"
    using entries_apartD [OF inv _ t [OF i(1)] k(1)] k(2) i(1) by blast
  from confined_apart [OF i(2) this k(3)] show ?thesis .
qed simp

lemma alloc_surface_confined:
  assumes "sdk_inv m" "next_surface_handle m < 0x40000000" "handle_alloc_surface p n m = (reply, m')"
    and "sdk_slot m k = Some e" "unat a \<in> region_addrs (en_span e)"
  shows "sdk_ram m' a = sdk_ram m a \<and> sdk_slot m' k = Some e"
proof -
  from alloc_surface_ok [OF assms(1-3)] have inv': "sdk_inv m'"
    and "sdk_slot m' = sdk_slot m \<and> sdk_ram m' = sdk_ram m \<or>
      (\<exists>i e'. fills_slot m m' i e' \<and> ram_confined m m' (en_span e'))" by blast+
  then show ?thesis
  proof (elim disjE conjE exE)
    fix i e' assume f: "fills_slot m m' i e'" "ram_confined m m' (en_span e')"
    then have ik: "i \<noteq> k" "sdk_slot m' i = Some e'" "sdk_slot m' k = Some e"
      using fills_slot_keeps [OF f(1) assms(4)] by (auto simp: fills_slot_def)
    have "disjoint_regions (en_span e') (en_span e)" by (rule entries_apartD [OF inv' ik])
    from confined_apart [OF f(2) this assms(5)] ik(3) show ?thesis by simp
  qed (use assms(4) in simp)
qed

text \<open>The requests that write through a handle: the tables stay, and only the target's bytes change.\<close>

lemma write_request_confined:
  assumes inv: "sdk_inv m"
    and req: "opcode = 0x102 \<and> handle_mem_fill p n m = (reply, m') \<or> opcode = 0x103 \<and> handle_mem_copy p n m = (reply, m') \<or>
      opcode = 0x203 \<and> get_be32 p 0 \<noteq> SDK_SURFACE_HANDLE_FRAMEBUFFER \<and> handle_fill_surface p n m = (reply, m') \<or>
      opcode = 0x204 \<and> get_be32 p 4 \<noteq> SDK_SURFACE_HANDLE_FRAMEBUFFER \<and> handle_copy_surface p n m = (reply, m')"
    and e: "sdk_slot m k = Some e" "request_target opcode p m \<noteq> Some k" "unat a \<in> region_addrs (en_span e)"
  shows "sdk_ram m' a = sdk_ram m a \<and> sdk_slot m' k = Some e"
proof -
  note fb = found_buffer [OF inv] and fs = found_surface [OF inv]
  have kept: "sdk_slot m' = sdk_slot m" if "m' = m\<lparr>sdk_ram := sdk_ram m'\<rparr>"
    by (subst that) (rule same_ram_ok(2) [OF inv])
  note conf = target_confined [OF inv _ _ e(1) _ e(3)]
  from req show ?thesis
  proof (elim disjE conjE)
    assume r: "opcode = 0x102" "handle_mem_fill p n m = (reply, m')"
    note ok = mem_fill_ok [OF inv r(2)]
    show ?thesis using kept conf [where c = 0, OF _ conjunct2 [OF ok]] fb(2) e(1,2) ok r(1) by (auto simp: request_target_def)
  next
    assume r: "opcode = 0x103" "handle_mem_copy p n m = (reply, m')"
    note ok = mem_copy_ok [OF inv r(2)]
    show ?thesis using kept conf [where c = 0, OF _ conjunct2 [OF ok]] fb(2) e(1,2) ok r(1) by (auto simp: request_target_def)
  next
    assume r: "opcode = 0x203" "get_be32 p 0 \<noteq> SDK_SURFACE_HANDLE_FRAMEBUFFER" "handle_fill_surface p n m = (reply, m')"
    note ok = fill_surface_ok [OF inv r(2,3)]
    show ?thesis using kept conf [where c = 32, OF _ conjunct2 [OF ok]] fs(2) e(1,2) ok r(1) by (auto simp: request_target_def)
  next
    assume r: "opcode = 0x204" "get_be32 p 4 \<noteq> SDK_SURFACE_HANDLE_FRAMEBUFFER" "handle_copy_surface p n m = (reply, m')"
    note ok = copy_surface_ok [OF inv r(2,3)]
    show ?thesis using kept conf [where c = 32, OF _ conjunct2 [OF ok]] fs(2) e(1,2) ok r(1) by (auto simp: request_target_def)
  qed
qed

text \<open>
  C33: None of the nine memory and surface requests (allocate, free, fill and copy of buffers
  and of surfaces, map the framebuffer) changes a byte of an entry it does not name, and none
  but a free takes an entry away. This holds for a fill or copy not aimed at the framebuffer
  handle, and in a lifetime whose heap allocations, this one included, do not wrap the gap test.
\<close>

theorem sdk_request_confined:
  assumes "sdk_boot m0" "sdk_reachable m0 m" "handle_memory_request opcode = Some h" "h p n m = (reply, m')"
    and "opcode = 0x100 \<longrightarrow> \<not> heap_request_wraps p m"
    and "next_surface_handle m < 0x40000000"
    and "opcode = 0x203 \<longrightarrow> get_be32 p 0 \<noteq> SDK_SURFACE_HANDLE_FRAMEBUFFER"
    and "opcode = 0x204 \<longrightarrow> get_be32 p 4 \<noteq> SDK_SURFACE_HANDLE_FRAMEBUFFER"
    and "sdk_slot m k = Some e" "request_target opcode p m \<noteq> Some k" "unat a \<in> region_addrs (en_span e)"
  shows "sdk_ram m' a = sdk_ram m a \<and> (opcode \<notin> {0x101, 0x201} \<longrightarrow> sdk_slot m' k = Some e)"
proof -
  note inv = sdk_lifetime(1) [OF assms(1,2)]
  consider "opcode = 0x100" "h = handle_alloc_shared" | "opcode = 0x101" "h = handle_free_shared"
    | "opcode = 0x200" "h = handle_alloc_surface" | "opcode = 0x201" "h = handle_free_surface"
    | "opcode = 0x202" "h = handle_map_framebuffer_surface"
    | "opcode = 0x102 \<and> h = handle_mem_fill \<or> opcode = 0x103 \<and> h = handle_mem_copy \<or>
        opcode = 0x203 \<and> h = handle_fill_surface \<or> opcode = 0x204 \<and> h = handle_copy_surface"
    using assms(3) by (auto simp: handle_memory_request_def split: if_splits)
  then show ?thesis
  proof cases
    case 1
    with alloc_shared_ok [OF inv _ assms(4) [unfolded 1(2)]] assms(5,9) show ?thesis
      by (auto dest: fills_slot_keeps)
  next
    case 2
    with free_shared_ok [OF inv assms(4) [unfolded 2(2)]] show ?thesis by simp
  next
    case 3
    with alloc_surface_confined [OF inv assms(6) assms(4) [unfolded 3(2)] assms(9,11)] show ?thesis by simp
  next
    case 4
    with free_surface_ok [OF inv assms(4) [unfolded 4(2)]] show ?thesis by simp
  next
    case 5
    then show ?thesis using assms(4,9) by (auto simp: handle_map_framebuffer_surface_def split: option.splits)
  next
    case 6
    with assms(4,7,8) write_request_confined [OF inv _ assms(9-11)] show ?thesis by blast
  qed
qed

section \<open>Surface copies and the host window\<close>

text \<open>
  C35: In a lifetime whose heap allocations did not wrap the gap test (after one that did, two live
  surfaces can overlap), a copy between two surfaces found by their handles, one and the same or
  two, is the exact copy of the source rectangle: the rectangle the destination held is replaced by what the source rectangle held
  before the request.
\<close>

theorem sdk_copy_surface_exact:
  assumes "sdk_boot m0" "sdk_reachable m0 m" "48 \<le> n"
    and "find_surface (get_be32 p 0) m = Some i" "find_surface (get_be32 p 4) m = Some j"
  shows "handle_copy_surface p n m =
    (let src = sdk_surfaces m ! i; dst = sdk_surfaces m ! j; bpp = sdk_surface_format_bytes (sf_format src);
         sx = get_be32 p 8; sy = get_be32 p 12; dx = get_be32 p 16; dy = get_be32 p 20; w = get_be32 p 24; h = get_be32 p 28
     in if get_be32 p 32 \<noteq> 0 \<or> sf_format src \<noteq> sf_format dst then (Status SUnsupported, m)
        else if \<not> surface_rect_valid (sf_width dst) (sf_height dst) (sf_pitch dst) bpp dx dy w h \<or>
                \<not> surface_rect_valid (sf_width src) (sf_height src) (sf_pitch src) bpp sx sy w h
        then (Status SBadRequest, m)
        else (Status SOk, m\<lparr>sdk_ram := copy_reference (sf_address dst) (sf_pitch dst) (sf_address src) (sf_pitch src)
               (sf_format src) sx sy dx dy w h (sdk_ram m)\<rparr>))"
  unfolding Let_def by (rule copy_surface_eq [OF sdk_lifetime(1) [OF assms(1,2)] assms(3-5)])

definition window_room :: "sdk_mem \<Rightarrow> u32 \<Rightarrow> u32 \<Rightarrow> nat \<Rightarrow> bool" where
  "window_room m len al x \<longleftrightarrow> unat al dvd x \<and> unat (effective_host_window_address m) \<le> x \<and>
     x + unat len \<le> unat (effective_host_window_address m) + unat (effective_host_window_size m) \<and>
     (\<forall>y\<in>window_blocks m. disjoint_regions (x, unat len) y)"

lemma window_blocks_slots:
  assumes inv: "sdk_inv m" and y: "y \<in> window_blocks m"
  obtains k e where "sdk_slot m k = Some e" "y = en_span e"
proof -
  from y obtain b where b: "b \<in> set (sdk_buffers m)" "shared_buffer_live m b" "y = en_span (buffer_entry b)"
    by (auto simp: window_blocks_def)
  then obtain k where "k < 32" "sdk_buffers m ! k = b" using sdk_invD(2) [OF inv] by (auto simp: in_set_conv_nth)
  moreover have "bf_in_use b" using sdk_invD(5) [OF inv b(1)] b(2) by simp
  ultimately show thesis using b(3) by (intro that [of k "buffer_entry b"]) (auto simp: sdk_slot_def)
qed

text \<open>
  C36: The host window gives out its lowest free aligned address, and reports that it is full only
  when no aligned address has room.
\<close>

theorem host_window_least_fit:
  assumes "sdk_boot m0" "sdk_reachable m0 m" "is_power_of_two al" "len \<noteq> 0" "effective_host_window_address m \<noteq> 0"
  shows "if find_free_host_window_region len al m = 0 then \<forall>x. \<not> window_room m len al x
    else window_room m len al (unat (find_free_host_window_region len al m)) \<and>
      (\<forall>x. window_room m len al x \<longrightarrow> unat (find_free_host_window_region len al m) \<le> x)"
proof -
  note inv = sdk_lifetime(1) [OF assms(1,2)]
  let ?a = "find_free_host_window_region len al m"
  have least: "?a \<noteq> 0 \<and> unat ?a \<le> x" if "window_room m len al x" for x
    using that host_window_region_least [OF inv assms(3,4) _ _ _ _ assms(5)] by (auto simp: window_room_def)
  have "window_room m len al (unat ?a)" if "?a \<noteq> 0"
  proof -
    note ok = host_window_region_ok [OF inv assms(3,4) refl that]
    have w: "host_window_range_valid ?a len m" using ok(2) by (simp add: entry_ok_def)
    have apart: "window_apart m" using sdk_invD(1) [OF inv] by (simp add: stores_ok_def)
    have "unat (effective_host_window_address m + effective_host_window_size m) \<le>
        unat (effective_host_window_address m) + unat (effective_host_window_size m)"
      by (simp add: unat_word_ariths)
    moreover have "disjoint_regions (unat ?a, unat len) y" if y: "y \<in> window_blocks m" for y
    proof -
      obtain k e where "sdk_slot m k = Some e" "y = en_span e" by (rule window_blocks_slots [OF inv y])
      with ok(3) show ?thesis by (fastforce simp: en_span_def)
    qed
    ultimately show ?thesis using ok(1) window_bounds [OF w] by (simp add: window_room_def)
  qed
  with least show ?thesis by auto
qed

section \<open>A lifetime\<close>

definition sdk_demo_heap :: sa_state where
  "sdk_demo_heap = snd (reserve_host_control_ranges sa_boot)"

definition sdk_demo0 :: sdk_mem where
  "sdk_demo0 = sdk_mailbox_init_memory \<lparr>sdk_buffers = [], sdk_surfaces = [], next_shared_handle = 9, next_surface_handle = 9,
     pcm_ring = None, pcm_session = 0, pcm_request = 0, sdk_heap = sdk_demo_heap, sdk_pool = card_pool_setup_card,
     sdk_aperture = sdk_aperture_runtime_init 0 True,
     sdk_video = \<lparr>vv_framebuffer = 0x00200000, vv_pan_offset = 0, vv_pan_width = 0, vv_hsize = 640, vv_vsize = 480,
       vv_vdma_rows = 480, vv_video_mode = 0, vv_colormode = 1, vv_scalemode = 0, vv_modes = []\<rparr>,
     sdk_ram = \<lambda>_. 7\<rparr>"

lemma reserve_ranges_inv: "sa_inv s \<Longrightarrow> sa_inv (snd (reserve_ranges rs s))"
proof (induction rs arbitrary: s)
  case (Cons r rs)
  obtain ret s' where r: "surface_allocator_reserve (fst r) (snd r) s = (ret, s')" by fastforce
  have "sa_inv s'" using surface_reserve_spec [OF Cons.prems r] by blast
  with Cons.IH r show ?case by (cases r) simp
qed simp

lemma sdk_demo_heap_eq:
  "sdk_demo_heap = \<lparr>sa_blocks = [\<lparr>sab_addr = 0x033F0000, sab_size = 0x10000\<rparr>, \<lparr>sab_addr = 0x03400000, sab_size = 0x100000\<rparr>,
     \<lparr>sab_addr = 0x080F0000, sab_size = 0x10000\<rparr>, \<lparr>sab_addr = 0x08100000, sab_size = 0x10000\<rparr>,
     \<lparr>sab_addr = 0x081C0000, sab_size = 0x20000\<rparr>, \<lparr>sab_addr = 0x081E0000, sab_size = 0x20000\<rparr>],
     sa_base = 0x033F0000, sa_end = 0x08200000, sa_used = 0x170000\<rparr>"
  unfolding sdk_demo_heap_def reserve_host_control_ranges_def Z3_HOST_CONTROL_RANGES_def
  by (simp add: sa_eval SDK_HOST_WINDOW_Z3_ADDRESS_def SDK_HOST_WINDOW_HEAP_SIZE_def)

lemma sdk_demo0_boot: "sdk_boot sdk_demo0"
  unfolding sdk_boot_def sdk_demo0_def
  apply (intro exI conjI, rule refl)
  using reserve_ranges_inv [OF sa_boot_inv, of Z3_HOST_CONTROL_RANGES] card_pool_setup_inv
  apply (simp add: stores_ok_def sdk_demo_heap_eq [unfolded sdk_demo_heap_def reserve_host_control_ranges_def]  sdk_demo_heap_def reserve_host_control_ranges_def)
  apply (simp add: sdk_areas cp_boot_ranges_def sa_regions_def sab_region_def card_pool_setup_eq window_apart_def effective_host_window_address_def effective_host_window_size_def aperture_contract_present_def sdk_aperture_runtime_init_def)
  done

definition sdk_demo_buffer :: "u8 list" where
  "sdk_demo_buffer = [0, 0, 1, 0,  0, 0, 16, 0,  0, 0, 0, 0]"

definition sdk_demo_surface :: "u8 list" where
  "sdk_demo_surface = [0, 0, 0, 4,  0, 0, 0, 2,  0, 0, 0, 1,  0, 0, 0, 0,  0, 0, 0, 0]"

definition sdk_demo1 :: sdk_mem where
  "sdk_demo1 = snd (handle_alloc_shared sdk_demo_buffer 12 sdk_demo0)"

definition sdk_demo2 :: sdk_mem where
  "sdk_demo2 = snd (handle_alloc_surface sdk_demo_surface 20 sdk_demo1)"

lemmas sdk_demo_inv0 = sdk_boot_ok [OF sdk_demo0_boot]

lemma sdk_demo_step:
  assumes "sdk_reachable m0 m" "handle_memory_request opcode = Some h"
    "opcode = 0x100 \<longrightarrow> \<not> heap_request_wraps p m"
    "next_shared_handle m < 0xfffffffe" "next_surface_handle m < 0x3fffffff"
  shows "sdk_reachable m0 (snd (h p n m))"
  using assms unfolding sdk_reachable_def
  by (intro rtranclp.rtrancl_into_rtrancl [OF assms(1) [unfolded sdk_reachable_def]] sdk_step.request [of opcode h p n m "fst (h p n m)"]) simp_all

lemma sdk_demo_words:
  "get_be32 sdk_demo_buffer 0 = 256" "get_be32 sdk_demo_buffer 4 = 4096" "get_be32 sdk_demo_buffer 8 = 0"
  "get_be32 sdk_demo_surface 0 = 4" "get_be32 sdk_demo_surface 4 = 2" "get_be32 sdk_demo_surface 8 = 1"
  "get_be32 sdk_demo_surface 12 = 0" "get_be32 sdk_demo_surface 16 = 0"
  by (simp_all add: get_be32_def sdk_demo_buffer_def sdk_demo_surface_def)

lemma free_slot_first:
  "\<not> bf_in_use (sdk_buffers m ! 0) \<Longrightarrow> find_free_buffer_slot m = Some 0"
  "\<not> sf_in_use (sdk_surfaces m ! 0) \<Longrightarrow> find_free_surface_slot m = Some 0"
  by (auto simp: find_free_buffer_slot_def find_free_surface_slot_def slot_search sdk_sizes shared_buffer_live_def surface_live_def)

lemma sdk_demo0_fields:
  "sdk_buffers sdk_demo0 = replicate 32 buffer_zero" "sdk_surfaces sdk_demo0 = replicate 16 surface_zero"
  "next_shared_handle sdk_demo0 = 1" "next_surface_handle sdk_demo0 = 1" "sdk_heap sdk_demo0 = sdk_demo_heap"
  "sdk_pool sdk_demo0 = card_pool_setup_card" "sdk_ram sdk_demo0 = (\<lambda>_. 7)"
  by (simp_all add: sdk_demo0_def sdk_mailbox_init_memory_def sdk_sizes)

lemma sdk_demo_alloc1:
  "surface_allocator_alloc_aligned 256 4096 sdk_demo_heap = (0x03500000, sa_insert sdk_demo_heap 2 0x03500000 256)"
  "\<not> sa_walk_wraps 256 4096 sdk_demo_heap"
  by (simp_all add: sdk_demo_heap_eq sa_eval sa_walk_wraps_def)

lemma sdk_demo_alloc2:
  "surface_allocator_alloc_aligned 16 64 (sa_insert sdk_demo_heap 2 0x03500000 256) =
     (0x03500100, sa_insert (sa_insert sdk_demo_heap 2 0x03500000 256) 3 0x03500100 256)"
  by (simp add: sdk_demo_heap_eq sa_eval)

lemma sdk_demo_total: "surface_allocator_total_bytes sdk_demo_heap = 0x04E10000" "sa_insert sdk_demo_heap 2 0x03500000 256 = 
   \<lparr>sa_blocks = [\<lparr>sab_addr = 0x033F0000, sab_size = 0x10000\<rparr>, \<lparr>sab_addr = 0x03400000, sab_size = 0x100000\<rparr>,
     \<lparr>sab_addr = 0x03500000, sab_size = 256\<rparr>, \<lparr>sab_addr = 0x080F0000, sab_size = 0x10000\<rparr>, \<lparr>sab_addr = 0x08100000, sab_size = 0x10000\<rparr>,
     \<lparr>sab_addr = 0x081C0000, sab_size = 0x20000\<rparr>, \<lparr>sab_addr = 0x081E0000, sab_size = 0x20000\<rparr>],
     sa_base = 0x033F0000, sa_end = 0x08200000, sa_used = 0x170100\<rparr>"
  by (simp_all add: sdk_demo_heap_eq sa_eval surface_allocator_total_bytes_def)

lemma zero_entries: "bf_in_use buffer_zero = False" "sf_in_use surface_zero = False"
  by (simp_all add: buffer_zero_def surface_zero_def)

lemma sdk_demo1_eq: "handle_alloc_shared sdk_demo_buffer 12 sdk_demo0 =
  (BufferInfo 1 0x03500000 256 0, sdk_demo1)"
  "sdk_demo1 = sdk_demo0\<lparr>next_shared_handle := 2, sdk_heap := sa_insert sdk_demo_heap 2 0x03500000 256,
     sdk_buffers := (replicate 32 buffer_zero)[0 := new_buffer sdk_demo_buffer 1 0x03500000]\<rparr>"
proof -
  have "handle_alloc_shared sdk_demo_buffer 12 sdk_demo0 =
   (BufferInfo 1 0x03500000 256 0, sdk_demo0\<lparr>next_shared_handle := 2, sdk_heap := sa_insert sdk_demo_heap 2 0x03500000 256,
     sdk_buffers := (replicate 32 buffer_zero)[0 := new_buffer sdk_demo_buffer 1 0x03500000]\<rparr>)"
    unfolding alloc_shared_eq [OF sdk_demo_inv0(1)]
    by (simp add: free_slot_first sdk_demo0_fields zero_entries alloc_shared_refused_def Let_def sdk_demo_words shared_alignment_def
      buffer_area_def is_power_of_two_def sdk_demo_total(1) sdk_demo_alloc1 next_handle_def set_buffer_def take_storage_def)
  then show "handle_alloc_shared sdk_demo_buffer 12 sdk_demo0 = (BufferInfo 1 0x03500000 256 0, sdk_demo1)"
    "sdk_demo1 = sdk_demo0\<lparr>next_shared_handle := 2, sdk_heap := sa_insert sdk_demo_heap 2 0x03500000 256,
     sdk_buffers := (replicate 32 buffer_zero)[0 := new_buffer sdk_demo_buffer 1 0x03500000]\<rparr>"
    by (simp_all add: sdk_demo1_def)
qed

lemma sdk_demo1_run: "sdk_reachable sdk_demo0 sdk_demo1"
  unfolding sdk_demo1_def
  by (rule sdk_demo_step [where opcode = "0x100"])
    (simp_all add: sdk_reachable_def handle_memory_request_def sdk_demo0_fields heap_request_wraps_def shared_alignment_def sdk_demo_words sdk_demo_alloc1(2))

lemmas sdk_demo_inv1 = sdk_lifetime [OF sdk_demo0_boot sdk_demo1_run]

lemma sdk_demo2_eq: "handle_alloc_surface sdk_demo_surface 20 sdk_demo1 =
  (SurfaceInfo (new_surface sdk_demo_surface 0x40000001 0x03500100), sdk_demo2)"
  "sdk_demo2 = sdk_demo1\<lparr>next_surface_handle := 2, sdk_heap := sa_insert (sa_insert sdk_demo_heap 2 0x03500000 256) 3 0x03500100 256,
     sdk_surfaces := (replicate 16 surface_zero)[0 := new_surface sdk_demo_surface 0x40000001 0x03500100],
     sdk_ram := memset 0x03500100 0 16 (\<lambda>_. 7)\<rparr>"
proof -
  have w: "surface_min_row_bytes 1 4 = 8" "surface_pitch sdk_demo_surface = 8" "surface_local sdk_demo_surface = False"
    by (simp_all add: surface_min_row_bytes_def sdk_surface_format_bytes_def SDK_SURFACE_FORMAT_YUV422CGX_def surface_pitch_def
      surface_local_def sdk_demo_words)
  have "handle_alloc_surface sdk_demo_surface 20 sdk_demo1 =
  (SurfaceInfo (new_surface sdk_demo_surface 0x40000001 0x03500100), sdk_demo1\<lparr>next_surface_handle := 2, sdk_heap := sa_insert (sa_insert sdk_demo_heap 2 0x03500000 256) 3 0x03500100 256,
     sdk_surfaces := (replicate 16 surface_zero)[0 := new_surface sdk_demo_surface 0x40000001 0x03500100],
     sdk_ram := memset 0x03500100 0 16 (\<lambda>_. 7)\<rparr>)"
    unfolding alloc_surface_eq [OF sdk_demo_inv1(1)]
    by (simp add: free_slot_first sdk_demo0_fields zero_entries alloc_surface_refused_def Let_def sdk_demo_words w sdk_demo1_eq(2)
      sdk_demo_total sdk_demo_alloc2 [unfolded sdk_demo_total] next_surface_id_def set_surface_def take_storage_def SDK_SURFACE_HANDLE_BASE_def surface_allocator_total_bytes_def)
  then show "handle_alloc_surface sdk_demo_surface 20 sdk_demo1 =
  (SurfaceInfo (new_surface sdk_demo_surface 0x40000001 0x03500100), sdk_demo2)"
  "sdk_demo2 = sdk_demo1\<lparr>next_surface_handle := 2, sdk_heap := sa_insert (sa_insert sdk_demo_heap 2 0x03500000 256) 3 0x03500100 256,
     sdk_surfaces := (replicate 16 surface_zero)[0 := new_surface sdk_demo_surface 0x40000001 0x03500100],
     sdk_ram := memset 0x03500100 0 16 (\<lambda>_. 7)\<rparr>"
    by (simp_all add: sdk_demo2_def)
qed

lemma sdk_demo2_run: "sdk_reachable sdk_demo0 sdk_demo2"
  unfolding sdk_demo2_def
  by (rule sdk_demo_step [where opcode = "0x200", OF sdk_demo1_run])
    (simp_all add: handle_memory_request_def sdk_demo0_fields sdk_demo1_eq(2))

lemmas sdk_demo_inv2 = sdk_lifetime [OF sdk_demo0_boot sdk_demo2_run]

lemma sdk_demo2_slots:
  "sdk_slot sdk_demo2 0 = Some \<lparr>en_area = Heap, en_addr = 0x03500000, en_len = 256, en_owner = 0\<rparr>"
  "sdk_slot sdk_demo2 32 = Some \<lparr>en_area = Heap, en_addr = 0x03500100, en_len = 16, en_owner = 0\<rparr>"
  "bf_handle (sdk_buffers sdk_demo2 ! 0) = 1" "sf_handle (sdk_surfaces sdk_demo2 ! 0) = 0x40000001"
  "bf_pins (sdk_buffers sdk_demo2 ! 0) = 0"
  by (simp_all add: sdk_slot_def sdk_demo2_eq(2) sdk_demo1_eq(2) new_buffer_def new_surface_def buffer_entry_def surface_entry_def
    sdk_demo_words surface_pitch_def surface_local_def surface_min_row_bytes_def sdk_surface_format_bytes_def
    SDK_SURFACE_FORMAT_YUV422CGX_def SDK_ALLOC_MEDIA_def SDK_ALLOC_HOST_WINDOW_def surface_is_arm_local_def
    SDK_SURFACE_FLAG_ARM_LOCAL_def SDK_SURFACE_FLAG_CPU_VISIBLE_def)

lemma sdk_demo2_next: "next_surface_handle sdk_demo2 = 2" "next_shared_handle sdk_demo2 = 2"
  by (simp_all add: sdk_demo2_eq(2) sdk_demo1_eq(2))

lemma sdk_demo2_found: "find_shared_buffer 1 sdk_demo2 = Some 0" "find_surface 0x40000001 sdk_demo2 = Some 0"
  using handle_names(1) [OF sdk_demo_inv2, of 0] handle_names(2) [OF sdk_demo_inv2, of 0] sdk_demo2_slots by auto

theorem sdk_entries_isolated_witness:
  "find_shared_buffer 1 sdk_demo2 = Some 0 \<and>
   region_addrs (en_span \<lparr>en_area = Heap, en_addr = 0x03500000, en_len = 256, en_owner = 0\<rparr>) \<inter>
   region_addrs (en_span \<lparr>en_area = Heap, en_addr = 0x03500100, en_len = 16, en_owner = 0\<rparr>) = {}"
proof -
  note i = sdk_entries_isolated [OF sdk_demo0_boot sdk_demo2_run sdk_demo2_slots(1)]
  have "(32::nat) \<noteq> 0" "(0::nat) < 32" by simp_all
  then show ?thesis using i sdk_demo2_slots(2) sdk_demo2_slots(3) by metis
qed

theorem sdk_freed_handle_dead_witness:
  "handle_free_shared [0, 0, 0, 1] 4 (snd (handle_free_shared [0, 0, 0, 1] 4 sdk_demo2)) =
   (Status SBadHandle, snd (handle_free_shared [0, 0, 0, 1] 4 sdk_demo2))"
proof -
  let ?r = "handle_free_shared [0, 0, 0, 1] 4 sdk_demo2"
  have p: "find_shared_buffer (get_be32 [0, 0, 0, 1] 0) sdk_demo2 = Some 0"
    using sdk_demo2_found(1) by (simp add: get_be32_def)
  have r: "?r = (fst ?r, snd ?r)" by (rule surjective_pairing)
  have q: "sdk_reachable (snd ?r) (snd ?r)" by (simp add: sdk_reachable_def)
  show ?thesis using sdk_freed_handle_dead [OF sdk_demo0_boot sdk_demo2_run p order_refl r q] sdk_demo2_slots(5) by blast
qed

definition sdk_demo_fill :: "u8 list" where
  "sdk_demo_fill = [0, 0, 0, 1,  0, 0, 0, 0,  0, 0, 1, 0,  9]"

theorem sdk_request_confined_witness:
  "fst (handle_mem_fill sdk_demo_fill 13 sdk_demo2) = Status SOk \<and>
   sdk_ram (snd (handle_mem_fill sdk_demo_fill 13 sdk_demo2)) 0x03500100 = 0"
proof -
  have w: "get_be32 sdk_demo_fill 0 = 1" "get_be32 sdk_demo_fill 4 = 0" "get_be32 sdk_demo_fill 8 = 256"
    by (simp_all add: get_be32_def sdk_demo_fill_def)
  have "sdk_ram (snd (handle_mem_fill sdk_demo_fill 13 sdk_demo2)) 0x03500100 = sdk_ram sdk_demo2 0x03500100"
    using sdk_request_confined [OF sdk_demo0_boot sdk_demo2_run, of "0x102" handle_mem_fill sdk_demo_fill 13
        "fst (handle_mem_fill sdk_demo_fill 13 sdk_demo2)" "snd (handle_mem_fill sdk_demo_fill 13 sdk_demo2)" 32, OF _ _ _ _ _ _ sdk_demo2_slots(2), of "0x03500100"]
    by (simp add: handle_memory_request_def sdk_demo2_next request_target_def w sdk_demo2_found region_addrs_def region_end_def en_span_def)
  moreover have "sdk_ram sdk_demo2 0x03500100 = 0" by (simp add: sdk_demo2_eq(2) memset_def)
  moreover have "bf_length (sdk_buffers sdk_demo2 ! 0) = 256"
    by (simp add: sdk_demo2_eq(2) sdk_demo1_eq(2) new_buffer_def sdk_demo_words)
  then have "fst (handle_mem_fill sdk_demo_fill 13 sdk_demo2) = Status SOk"
    by (simp add: handle_mem_fill_def Let_def w sdk_demo2_found buffer_range_valid_def)
  ultimately show ?thesis by simp
qed

definition sdk_demo_copy :: "u8 list" where
  "sdk_demo_copy = [0x40, 0, 0, 1,  0x40, 0, 0, 1,  0, 0, 0, 0,  0, 0, 0, 0,  0, 0, 0, 1,  0, 0, 0, 0,
     0, 0, 0, 3,  0, 0, 0, 2,  0, 0, 0, 0,  0, 0, 0, 0,  0, 0, 0, 0,  0, 0, 0, 0]"

theorem sdk_copy_surface_exact_witness:
  "fst (handle_copy_surface sdk_demo_copy 48 sdk_demo2) = Status SOk"
proof -
  have w: "get_be32 sdk_demo_copy 0 = 0x40000001" "get_be32 sdk_demo_copy 4 = 0x40000001" "get_be32 sdk_demo_copy 8 = 0"
    "get_be32 sdk_demo_copy 12 = 0" "get_be32 sdk_demo_copy 16 = 1" "get_be32 sdk_demo_copy 20 = 0"
    "get_be32 sdk_demo_copy 24 = 3" "get_be32 sdk_demo_copy 28 = 2" "get_be32 sdk_demo_copy 32 = 0"
    by (simp_all add: get_be32_def sdk_demo_copy_def)
  have s: "sdk_surfaces sdk_demo2 ! 0 = new_surface sdk_demo_surface 0x40000001 0x03500100" by (simp add: sdk_demo2_eq(2))
  have f: "sf_width (new_surface sdk_demo_surface h a) = 4" "sf_height (new_surface sdk_demo_surface h a) = 2"
    "sf_format (new_surface sdk_demo_surface h a) = 1" "sf_pitch (new_surface sdk_demo_surface h a) = 8" for h a
    by (simp_all add: new_surface_def sdk_demo_words surface_pitch_def surface_min_row_bytes_def sdk_surface_format_bytes_def
      SDK_SURFACE_FORMAT_YUV422CGX_def)
  show ?thesis
    using sdk_copy_surface_exact [OF sdk_demo0_boot sdk_demo2_run order_refl, of sdk_demo_copy 0 0]
    by (simp add: w sdk_demo2_found s f Let_def surface_rect_valid_def sdk_surface_format_bytes_def)
qed

theorem host_window_least_fit_witness:
  "find_free_host_window_region 256 4096 sdk_demo2 = 0x080F0000 \<and> window_room sdk_demo2 256 4096 0x080F0000"
proof -
  have e: "effective_host_window_address sdk_demo2 = 0x080F0000" "effective_host_window_size sdk_demo2 = 0x10000"
    by (simp_all add: effective_host_window_address_def effective_host_window_size_def aperture_contract_present_def sdk_demo2_eq(2)
      sdk_demo1_eq(2) sdk_demo0_def sdk_mailbox_init_memory_def sdk_aperture_runtime_init_def sdk_areas)
  have a: "is_power_of_two 4096" by (simp add: is_power_of_two_def)
  have "List.find (window_collides 0x080F0000 256 sdk_demo2) (sdk_buffers sdk_demo2) = None"
    by (auto simp: find_None_iff sdk_demo2_eq(2) sdk_demo1_eq(2) window_collides_def new_buffer_def buffer_zero_def sdk_demo_words in_set_conv_nth nth_list_update)
  then have "find_free_host_window_region 256 4096 sdk_demo2 = 0x080F0000"
    by (simp add: find_free_host_window_region_def e Let_def align_up_def a host_window_scan.simps [of 256 4096 _ sdk_demo2 "0x080F0000"])
  then show ?thesis using host_window_least_fit [OF sdk_demo0_boot sdk_demo2_run a, of 256] by (simp add: e)
qed

section \<open>Alignments above 256\<close>

text \<open>The request may name any power of two as its alignment; the heap serves 64 MB wrongly.\<close>

definition sdk_demo_far :: "u8 list" where
  "sdk_demo_far = [0, 0, 1, 0,  4, 0, 0, 0,  0, 0, 0, 0]"

definition sdk_demo_big :: "u8 list" where
  "sdk_demo_big = [0, 0x20, 0, 0,  0, 0, 0, 0,  0, 0, 0, 0]"

lemma sdk_demo_far_words:
  "get_be32 sdk_demo_far 0 = 256" "get_be32 sdk_demo_far 4 = 0x04000000" "get_be32 sdk_demo_far 8 = 0"
  "get_be32 sdk_demo_big 0 = 0x00200000" "get_be32 sdk_demo_big 4 = 0" "get_be32 sdk_demo_big 8 = 0"
  by (simp_all add: get_be32_def sdk_demo_far_def sdk_demo_big_def)

definition sdk_far_heap :: sa_state where
  "sdk_far_heap = \<lparr>sa_blocks = [\<lparr>sab_addr = 0x04000000, sab_size = 256\<rparr>, \<lparr>sab_addr = 0x033F0000, sab_size = 0x10000\<rparr>,
     \<lparr>sab_addr = 0x03400000, sab_size = 0x100000\<rparr>, \<lparr>sab_addr = 0x03500000, sab_size = 256\<rparr>,
     \<lparr>sab_addr = 0x080F0000, sab_size = 0x10000\<rparr>, \<lparr>sab_addr = 0x08100000, sab_size = 0x10000\<rparr>,
     \<lparr>sab_addr = 0x081C0000, sab_size = 0x20000\<rparr>, \<lparr>sab_addr = 0x081E0000, sab_size = 0x20000\<rparr>],
     sa_base = 0x033F0000, sa_end = 0x08200000, sa_used = 0x170200\<rparr>"

lemma sdk_far_alloc:
  "surface_allocator_alloc_aligned 256 0x04000000 (sa_insert sdk_demo_heap 2 0x03500000 256) = (0x04000000, sdk_far_heap)"
  "surface_allocator_alloc_aligned 0x00200000 16 sdk_far_heap = (0x033F0000, sa_insert sdk_far_heap 0 0x033F0000 0x00200000)"
  unfolding sdk_demo_total(2) sdk_far_heap_def by (simp_all add: sa_eval)

definition sdk_far :: sdk_mem where
  "sdk_far = snd (handle_alloc_shared sdk_demo_far 12 sdk_demo1)"

lemma sdk_far_slot: "find_free_buffer_slot sdk_demo1 = Some 1"
proof -
  have "sdk_buffers sdk_demo1 ! 0 \<in> set (sdk_buffers sdk_demo1)"
    by (rule nth_mem) (simp add: sdk_invD(2) [OF sdk_demo_inv1(1)])
  moreover have "bf_in_use (sdk_buffers sdk_demo1 ! 0)" by (simp add: sdk_demo1_eq(2) new_buffer_def)
  ultimately have "shared_buffer_live sdk_demo1 (sdk_buffers sdk_demo1 ! 0)"
    using sdk_invD(5) [OF sdk_demo_inv1(1)] by blast
  moreover have "\<not> shared_buffer_live sdk_demo1 (sdk_buffers sdk_demo1 ! 1)"
    by (simp add: sdk_demo1_eq(2) shared_buffer_live_def buffer_zero_def)
  ultimately show ?thesis by (simp add: find_free_buffer_slot_def slot_search sdk_sizes)
qed

lemma sdk_far_eq: "handle_alloc_shared sdk_demo_far 12 sdk_demo1 = (BufferInfo 2 0x04000000 256 0, sdk_far)"
  "sdk_far = sdk_demo1\<lparr>next_shared_handle := 3, sdk_heap := sdk_far_heap,
     sdk_buffers := (replicate 32 buffer_zero)[0 := new_buffer sdk_demo_buffer 1 0x03500000, 1 := new_buffer sdk_demo_far 2 0x04000000]\<rparr>"
proof -
  have "surface_allocator_total_bytes (sa_insert sdk_demo_heap 2 0x03500000 256) = 0x04E10000"
    by (simp add: sdk_demo_total(2) surface_allocator_total_bytes_def)
  then have "handle_alloc_shared sdk_demo_far 12 sdk_demo1 = (BufferInfo 2 0x04000000 256 0, sdk_demo1\<lparr>next_shared_handle := 3, sdk_heap := sdk_far_heap,
     sdk_buffers := (replicate 32 buffer_zero)[0 := new_buffer sdk_demo_buffer 1 0x03500000, 1 := new_buffer sdk_demo_far 2 0x04000000]\<rparr>)"
    unfolding alloc_shared_eq [OF sdk_demo_inv1(1)]
    by (simp add: sdk_far_slot [unfolded sdk_demo1_eq(2)] sdk_demo1_eq(2) sdk_demo0_fields alloc_shared_refused_def Let_def sdk_demo_far_words shared_alignment_def
      buffer_area_def is_power_of_two_def sdk_far_alloc next_handle_def set_buffer_def take_storage_def)
  then show "handle_alloc_shared sdk_demo_far 12 sdk_demo1 = (BufferInfo 2 0x04000000 256 0, sdk_far)"
  "sdk_far = sdk_demo1\<lparr>next_shared_handle := 3, sdk_heap := sdk_far_heap,
     sdk_buffers := (replicate 32 buffer_zero)[0 := new_buffer sdk_demo_buffer 1 0x03500000, 1 := new_buffer sdk_demo_far 2 0x04000000]\<rparr>"
    by (simp_all add: sdk_far_def)
qed

lemma sdk_far_live:
  "shared_buffer_live sdk_far (new_buffer sdk_demo_buffer 1 0x03500000)" "\<not> shared_buffer_live sdk_far (new_buffer sdk_demo_far 2 0x04000000)"
  "\<not> shared_buffer_live sdk_far buffer_zero" "\<not> surface_live sdk_far surface_zero"
  by (simp_all add: shared_buffer_live_def surface_live_def buffer_zero_def surface_zero_def new_buffer_def sdk_demo_words sdk_demo_far_words
      SDK_INVALID_HANDLE_def heap_range_valid_def sdk_far_eq(2) sdk_far_heap_def sa_eval bsearch.simps
      SDK_ALLOC_MEDIA_def SDK_ALLOC_HOST_WINDOW_def)

definition sdk_far_clean :: sdk_mem where
  "sdk_far_clean = sdk_far\<lparr>sdk_buffers := (replicate 32 buffer_zero)[0 := new_buffer sdk_demo_buffer 1 0x03500000]\<rparr>"

lemma sdk_far_sanitized: "snd (sanitize_allocator_metadata sdk_far) = sdk_far_clean"
proof -
  have b: "fst (sanitize_buffers sdk_far (sdk_buffers sdk_far)) = (replicate 32 buffer_zero)[0 := new_buffer sdk_demo_buffer 1 0x03500000]"
    using sdk_far_live by (simp add: sanitize_buffers_def sdk_far_eq(2) map_update zero_entries new_buffer_def)
      (simp add: list_eq_iff_nth_eq nth_list_update)
  have s: "fst (sanitize_surfaces sdk_far (sdk_surfaces sdk_far)) = replicate 16 surface_zero"
    by (simp add: sanitize_surfaces_def sdk_far_eq(2) sdk_demo1_eq(2) sdk_demo0_fields zero_entries)
  have surf: "sdk_surfaces sdk_far = replicate 16 surface_zero" by (simp add: sdk_far_eq(2) sdk_demo1_eq(2) sdk_demo0_fields)
  obtain i where i: "sanitize_buffers sdk_far (sdk_buffers sdk_far) = ((replicate 32 buffer_zero)[0 := new_buffer sdk_demo_buffer 1 0x03500000], i)"
    using b by (metis prod.collapse)
  obtain j where j: "sanitize_surfaces sdk_far (sdk_surfaces sdk_far) = (replicate 16 surface_zero, j)"
    using s by (metis prod.collapse)
  have "m\<lparr>sdk_buffers := x, sdk_surfaces := replicate 16 surface_zero\<rparr> = m\<lparr>sdk_buffers := x\<rparr>"
    if "sdk_surfaces m = replicate 16 surface_zero" for m :: sdk_mem and x
    using that by (cases m) simp
  from this [OF surf] show ?thesis by (simp add: sanitize_allocator_metadata_def i j sdk_far_clean_def)
qed

lemma sdk_far_clean_slot: "find_free_buffer_slot sdk_far_clean = Some 1"
proof -
  have "same_stores sdk_far sdk_far_clean" by (simp add: same_stores_def sdk_far_clean_def)
  note live = sdk_far_live [folded same_stores_cong(2) [OF this]]
  show ?thesis using live
    by (simp add: find_free_buffer_slot_def slot_search sdk_sizes sdk_far_clean_def)
qed

lemma sdk_far_big: "handle_alloc_shared sdk_demo_big 12 sdk_far =
  (BufferInfo 3 0x033F0000 0x00200000 0, snd (handle_alloc_shared sdk_demo_big 12 sdk_far))"
proof -
  have "surface_allocator_total_bytes sdk_far_heap = 0x04E10000"
    by (simp add: sdk_far_heap_def surface_allocator_total_bytes_def)
  moreover have "sdk_heap sdk_far = sdk_far_heap" "sdk_heap sdk_far_clean = sdk_far_heap" "next_shared_handle sdk_far_clean = 3"
    by (simp_all add: sdk_far_eq(2) sdk_far_clean_def)
  ultimately have "fst (handle_alloc_shared sdk_demo_big 12 sdk_far) = BufferInfo 3 0x033F0000 0x00200000 0"
    unfolding handle_alloc_shared_def
    by (simp add: sdk_far_sanitized Let_def sdk_demo_far_words sdk_far_clean_slot SDK_ALLOC_MEDIA_def SDK_ALLOC_HOST_WINDOW_def
        next_handle_def set_buffer_def sdk_far_alloc is_power_of_two_def)
  then show ?thesis by (metis surjective_pairing)
qed

text \<open>
  Two accepted requests hand out bytes of a live buffer: after an allocation aligned to 64 MB
  the next one is placed over the control range and the buffer. The first of them reports
  success for a handle that no request finds.
\<close>

theorem sdk_alignment_overlap:
  "\<exists>m0 m p q h2 a2 n2 m2 h3 a3 n3 m3 e. sdk_boot m0 \<and> sdk_reachable m0 m \<and> sdk_slot m 0 = Some e \<and>
     handle_alloc_shared p 12 m = (BufferInfo h2 a2 n2 0, m2) \<and> find_shared_buffer h2 m2 = None \<and>
     handle_alloc_shared q 12 m2 = (BufferInfo h3 a3 n3 0, m3) \<and> shared_buffer_live m2 (sdk_buffers m ! 0) \<and>
     region_addrs (en_span e) \<subseteq> region_addrs (unat a3, unat n3)"
proof (intro exI conjI)
  show "sdk_boot sdk_demo0" by (rule sdk_demo0_boot)
  show "sdk_reachable sdk_demo0 sdk_demo1" by (rule sdk_demo1_run)
  show "sdk_slot sdk_demo1 0 = Some \<lparr>en_area = Heap, en_addr = 0x03500000, en_len = 256, en_owner = 0\<rparr>"
    by (simp add: sdk_slot_def sdk_demo1_eq(2) new_buffer_def buffer_entry_def sdk_demo_words SDK_ALLOC_MEDIA_def SDK_ALLOC_HOST_WINDOW_def)
  show "handle_alloc_shared sdk_demo_far 12 sdk_demo1 = (BufferInfo 2 0x04000000 256 0, sdk_far)" by (rule sdk_far_eq(1))
  show "handle_alloc_shared sdk_demo_big 12 sdk_far =
    (BufferInfo 3 0x033F0000 0x00200000 0, snd (handle_alloc_shared sdk_demo_big 12 sdk_far))" by (rule sdk_far_big)
  show "shared_buffer_live sdk_far (sdk_buffers sdk_demo1 ! 0)" using sdk_far_live(1) by (simp add: sdk_demo1_eq(2))
  have "shared_buffer_live sdk_far (sdk_buffers sdk_far ! i) \<longrightarrow> bf_handle (sdk_buffers sdk_far ! i) \<noteq> 2" if "i < 32" for i
    using that sdk_far_live by (auto simp: sdk_far_eq(2) nth_list_update new_buffer_def)
  then show "find_shared_buffer 2 sdk_far = None" by (auto simp: find_shared_buffer_def slot_search sdk_sizes)
qed (auto simp: region_addrs_def region_end_def en_span_def)

end
