(* ===== verification/SdkRingRuns.thy ===== *)
theory SdkRingRuns
  imports SdkRingSafety SdkMemory
begin

unbundle bit_operations_syntax

text \<open>
  Runs of the mailbox rings, with the memory requests and the video session begin as real
  handlers: every request is answered exactly once, the loops of core 0 return, and what a
  request id of 0 does to a deferring request that does not reserve it.
\<close>

section \<open>Steps\<close>

record 'w ring_sys =
  rs_mb :: mailbox
  rs_w :: 'w
  rs_host :: host_context
  rs_hist :: ring_hist
  rs_view :: "task_view option"

text \<open>
  The host acts between any two rounds of the task loop, and so does the worker core. The
  harvest loop and the task loop are both core 0's and exclude each other.
\<close>

inductive ring_step :: "'w request_handler \<Rightarrow> 'w retire_hook \<Rightarrow> 'w ring_sys \<Rightarrow> 'w ring_sys \<Rightarrow> bool"
  for dispatch retire where
  post: "zz9k_enqueue_request_locked e (rs_host s) (rs_mb s) = ((SDK_STATUS_QUEUED, i), c', m') \<Longrightarrow>
    ring_step dispatch retire s (s\<lparr>rs_mb := m', rs_host := c', rs_hist := (rs_hist s)\<lparr>rh_posted := rh_posted (rs_hist s) @
      [mb_reqs m' ! unat (get_be32 (mb_desc (rs_mb s)) 24)]\<rparr>\<rparr>)"
| poll: "zz9k_consume_next_completion_locked (rs_host s) (rs_mb s) = ((SDK_STATUS_OK, Some e), m') \<Longrightarrow>
    ring_step dispatch retire s (s\<lparr>rs_mb := m', rs_hist := (rs_hist s)\<lparr>rh_got := rh_got (rs_hist s) @ [e]\<rparr>\<rparr>)"
| register: "f \<in> {sdk_mailbox_doorbell, sdk_mailbox_irq_enable, sdk_mailbox_irq_disable, sdk_mailbox_ack_irq} \<Longrightarrow>
    ring_step dispatch retire s (s\<lparr>rs_mb := f (rs_mb s)\<rparr>)"
| begin_task: "rs_view s = None \<Longrightarrow> task_begin (rs_mb s) = (v, m') \<Longrightarrow>
    ring_step dispatch retire s (s\<lparr>rs_mb := m', rs_view := v\<rparr>)"
| round: "rs_view s = Some v \<Longrightarrow> tv_req_head v \<noteq> tv_req_tail v \<Longrightarrow> \<not> task_full (rs_mb s) v \<Longrightarrow>
    task_request dispatch v (rs_mb s) (rs_w s) = (v', m', w') \<Longrightarrow>
    ring_step dispatch retire s (s\<lparr>rs_mb := m', rs_w := w', rs_hist := hist_request v m' (rs_hist s), rs_view := Some v'\<rparr>)"
| end_task: "rs_view s = Some v \<Longrightarrow> tv_req_head v = tv_req_tail v \<or> task_full (rs_mb s) v \<Longrightarrow>
    ring_step dispatch retire s (s\<lparr>rs_view := None, rs_mb := task_end v
      (if tv_req_head v = tv_req_tail v then rs_mb s else (rs_mb s)\<lparr>mb_status := SDK_STATUS_BUSY\<rparr>)\<rparr>)"
| harvest: "rs_view s = None \<Longrightarrow> harvest_round retire (rs_mb s) (rs_w s) = Some (m', w') \<Longrightarrow>
    ring_step dispatch retire s (s\<lparr>rs_mb := m', rs_w := w', rs_hist := hist_harvest (rs_mb s) m' (rs_hist s)\<rparr>)"
| internal: "rs_view s = None \<Longrightarrow> sdk_mailbox_enqueue_internal op p (rs_mb s) = (ok, m') \<Longrightarrow>
    ring_step dispatch retire s (s\<lparr>rs_mb := m'\<rparr>)"
| harvest_app: "rs_view s = None \<Longrightarrow> mb_base (rs_mb s) \<noteq> 0 \<Longrightarrow> harvest_app_ops retire (rs_mb s) (rs_w s) = (m', w') \<Longrightarrow>
    ring_step dispatch retire s (s\<lparr>rs_mb := m', rs_w := w', rs_hist := hist_harvest (rs_mb s) m' (rs_hist s)\<rparr>)"
| app: "app_moves (mb_app (rs_mb s)) a \<Longrightarrow> ring_step dispatch retire s (s\<lparr>rs_mb := (rs_mb s)\<lparr>mb_app := a\<rparr>\<rparr>)"
| worker: "queue_moves (mb_queue (rs_mb s)) q \<Longrightarrow> ring_step dispatch retire s (s\<lparr>rs_mb := (rs_mb s)\<lparr>mb_queue := q\<rparr>\<rparr>)"
| services: "ring_step dispatch retire s (s\<lparr>rs_w := w'\<rparr>)"

definition ring_reachable :: "'w request_handler \<Rightarrow> 'w retire_hook \<Rightarrow> 'w ring_sys \<Rightarrow> 'w ring_sys \<Rightarrow> bool" where
  "ring_reachable dispatch retire = (ring_step dispatch retire)\<^sup>*\<^sup>*"

definition sys_inv :: "'w ring_sys \<Rightarrow> bool" where
  "sys_inv s \<longleftrightarrow> ring_inv (rs_mb s) (rs_hist s) \<and> host_ok (rs_host s) (rs_mb s) \<and>
     (\<forall>v. rs_view s = Some v \<longrightarrow> view_inv (rs_mb s) (rs_hist s) v)"

lemma host_ok_cong: "mb_entries m' = mb_entries m \<Longrightarrow> host_ok c m' = host_ok c m"
  by (simp add: host_ok_def)

lemma view_inv_mono:
  assumes "view_inv m h v" "rh_taken h' = rh_taken h" "rh_done h' = rh_done h"
    "length (rh_posted h) \<le> length (rh_posted h')" "length (rh_got h) \<le> length (rh_got h')"
  shows "view_inv m h' v"
proof -
  obtain p r where "rh_taken h \<le> p" "p \<le> length (rh_posted h)" "r \<le> length (rh_got h)"
    "length (rh_done h) < r + unat (mb_entries m)" "tv_req_head v = ring_pos m (rh_taken h)" "tv_req_tail v = ring_pos m p"
    "tv_comp_head v = ring_pos m r" "tv_comp_tail v = ring_pos m (length (rh_done h))"
    using assms(1) by (auto simp: view_inv_def)
  then show ?thesis unfolding view_inv_def using assms(2-5) by (intro exI [of _ p] exI [of _ r]) simp
qed

lemma quiet_step:
  assumes "sys_inv s" "same_rings (rs_mb s) m'" "tasks_ok m'" "deferred_tags m' = deferred_tags (rs_mb s)"
  shows "sys_inv (s\<lparr>rs_mb := m'\<rparr>)"
  using assms ring_inv_cong [OF assms(2-4)] view_inv_cong [of m' "rs_mb s"] host_ok_cong [of m' "rs_mb s"]
  by (simp add: sys_inv_def same_rings_def)

lemma task_end_frame:
  "same_rings m (task_end v m)" "mb_queue (task_end v m) = mb_queue m" "mb_task_gen (task_end v m) = mb_task_gen m"
  "mb_generation (task_end v m) = mb_generation m" "mb_app (task_end v m) = mb_app m"
  by (simp_all add: task_end_def same_rings_def Let_def)

lemma task_request_frame:
  assumes "task_request dispatch v m w = (v', m', w')"
  shows "tv_comp_head v' = tv_comp_head v" "tv_req_tail v' = tv_req_tail v"
  using assms by (auto simp: task_request_def Let_def split: if_splits prod.splits)

context request_dispatch
begin

lemma ring_step_inv:
  assumes "ring_step dispatch retire s s'" "sys_inv s"
  shows "sys_inv s'"
  using assms
proof (induction rule: ring_step.induct)
  case (post e s i c' m')
  then have I: "ring_inv (rs_mb s) (rs_hist s)" "host_ok (rs_host s) (rs_mb s)" by (simp_all add: sys_inv_def)
  note ok = host_post_ok [OF I post.hyps]
  show ?case using ok post.prems view_inv_cong [OF ok(3)] by (auto simp: sys_inv_def intro: view_inv_mono)
next
  case (poll s e m')
  then have I: "ring_inv (rs_mb s) (rs_hist s)" "host_ok (rs_host s) (rs_mb s)" by (simp_all add: sys_inv_def)
  note ok = host_poll_ok [OF I poll.hyps]
  show ?case using ok poll.prems view_inv_cong [OF ok(2)] host_ok_cong [OF ok(2)] by (auto simp: sys_inv_def intro: view_inv_mono)
next
  case (register f s)
  have tk: "tasks_ok (rs_mb s)" using register.prems by (simp add: sys_inv_def ring_inv_def mailbox_shape_def Let_def)
  show ?case
    using register.hyps tk
    by (intro quiet_step [OF register.prems] deferred_tags_cong)
      (auto simp: same_rings_def tasks_ok_def sdk_mailbox_doorbell_def sdk_mailbox_irq_enable_def sdk_mailbox_irq_disable_def
        sdk_mailbox_ack_irq_def)
next
  case (begin_task s v m')
  then have I: "ring_inv (rs_mb s) (rs_hist s)" by (simp add: sys_inv_def)
  note ok = task_begin_ok [OF I begin_task.hyps(2)]
  have tk: "tasks_ok (rs_mb s)" using ring_invD(1) [OF I] by (simp add: mailbox_shape_def)
  have "sys_inv (s\<lparr>rs_mb := m'\<rparr>)"
    using ok tk by (intro quiet_step [OF begin_task.prems] deferred_tags_cong) (simp_all add: tasks_ok_def)
  with ok(3) show ?case by (auto simp: sys_inv_def)
next
  case (round s v v' m' w')
  then have I: "ring_inv (rs_mb s) (rs_hist s)" "view_inv (rs_mb s) (rs_hist s) v" by (simp_all add: sys_inv_def)
  note ok = task_request_ok [OF I round.hyps(2-4)]
  show ?case using ok round.prems host_ok_cong [of m' "rs_mb s"] by (auto simp: sys_inv_def)
next
  case (end_task s v)
  let ?m = "if tv_req_head v = tv_req_tail v then rs_mb s else (rs_mb s)\<lparr>mb_status := SDK_STATUS_BUSY\<rparr>"
  have tk: "tasks_ok (rs_mb s)" using end_task.prems by (simp add: sys_inv_def ring_inv_def mailbox_shape_def Let_def)
  have "sys_inv (s\<lparr>rs_mb := task_end v ?m\<rparr>)"
    using task_end_frame [where v = v and m = ?m] tk
    by (intro quiet_step [OF end_task.prems] deferred_tags_cong) (auto simp: same_rings_def tasks_ok_def)
  then show ?case by (simp add: sys_inv_def)
next
  case (harvest s m' w')
  then have I: "ring_inv (rs_mb s) (rs_hist s)" by (simp add: sys_inv_def)
  note ok = harvest_round_ok [OF I harvest.hyps(2)]
  show ?case using ok harvest host_ok_cong [OF conjunct2 [OF ok]] by (simp add: sys_inv_def)
next
  case (harvest_app s m' w')
  then have I: "ring_inv (rs_mb s) (rs_hist s)" by (simp add: sys_inv_def)
  note ok = harvest_app_ok [OF I harvest_app.hyps(3)]
  show ?case using ok harvest_app host_ok_cong [OF conjunct2 [OF ok]] by (simp add: sys_inv_def)
next
  case (app s a)
  have tk: "tasks_ok (rs_mb s)" using app.prems by (simp add: sys_inv_def ring_inv_def mailbox_shape_def Let_def)
  show ?case using app.hyps tk
    by (intro quiet_step [OF app.prems] deferred_tags_cong) (simp_all add: same_rings_def tasks_ok_def app_moves_def)
next
  case (internal s op p ok m')
  then have I: "ring_inv (rs_mb s) (rs_hist s)" by (simp add: sys_inv_def)
  note ok = internal_ok [OF I internal.hyps(2)]
  show ?case using ok internal host_ok_cong [OF ok(2)] by (simp add: sys_inv_def)
next
  case (worker s q)
  have tk: "tasks_ok (rs_mb s)" using worker.prems by (simp add: sys_inv_def ring_inv_def mailbox_shape_def Let_def)
  show ?case using queue_moves_tags [OF tk worker.hyps]
    by (intro quiet_step [OF worker.prems]) (simp_all add: same_rings_def)
next
  case (services s w')
  then show ?case by (simp add: sys_inv_def)
qed

lemma ring_reachable_inv:
  assumes "ring_reachable dispatch retire s s'" "sys_inv s"
  shows "sys_inv s'"
  using assms unfolding ring_reachable_def
  by (induction rule: rtranclp_induct) (auto intro: ring_step_inv)

section \<open>The loops return\<close>

lemma task_loop_returns:
  assumes "ring_inv m h" "view_inv m h v"
  shows "\<exists>v' m' w' h'. task_loop dispatch v m w = Some (v', m', w') \<and> ring_inv m' h' \<and> view_inv m' h' v' \<and>
    tv_req_tail v' = tv_req_tail v \<and> tv_comp_head v' = tv_comp_head v \<and> rh_posted h' = rh_posted h \<and> rh_got h' = rh_got h \<and> mb_entries m' = mb_entries m \<and>
    (tv_req_head v' = tv_req_tail v \<or> task_full m' v' \<and> mb_status m' = SDK_STATUS_BUSY)"
  using assms
proof (induction "length (rh_posted h) - rh_taken h" arbitrary: m h v w rule: less_induct)
  case less
  consider "tv_req_head v = tv_req_tail v" | "tv_req_head v \<noteq> tv_req_tail v" "task_full m v"
    | "tv_req_head v \<noteq> tv_req_tail v" "\<not> task_full m v" by blast
  then show ?case
  proof cases
    case 1
    then have "task_loop dispatch v m w = Some (v, m, w)" by (subst task_loop.simps) simp
    then show ?thesis using less.prems 1 by blast
  next
    case 2
    let ?m = "m\<lparr>mb_status := SDK_STATUS_BUSY\<rparr>"
    have "tasks_ok ?m" using ring_invD(1) [OF less.prems(1)] by (simp add: mailbox_shape_def tasks_ok_def)
    moreover have "same_rings m ?m" by (simp add: same_rings_def)
    moreover have "deferred_tags ?m = deferred_tags m" by (rule deferred_tags_cong) simp_all
    ultimately have "ring_inv ?m h" using ring_inv_cong [OF _ _ _ less.prems(1)] by blast
    moreover have "task_loop dispatch v m w = Some (v, ?m, w)" using 2 by (subst task_loop.simps) simp
    moreover have "view_inv ?m h v" using less.prems(2) view_inv_cong [of ?m m] by simp
    moreover have "task_full ?m v" using 2 by (simp add: task_full_def next_index_def)
    ultimately show ?thesis
      by (intro exI [of _ v] exI [of _ ?m] exI [of _ w] exI [of _ h]) simp
  next
    case 3
    obtain v1 m1 w1 where r: "task_request dispatch v m w = (v1, m1, w1)" by (cases "task_request dispatch v m w") auto
    note ok = task_request_ok [OF less.prems 3 r]
    let ?h = "hist_request v m1 h"
    have h: "rh_taken ?h = Suc (rh_taken h)" "rh_posted ?h = rh_posted h" "rh_got ?h = rh_got h" by (simp_all add: hist_request_def)
    have "rh_taken ?h \<le> length (rh_posted ?h)" using ok by (auto dest: ring_invD(2))
    then have lt: "length (rh_posted ?h) - rh_taken ?h < length (rh_posted h) - rh_taken h" using h by simp
    obtain v' m' w' h' where ih: "task_loop dispatch v1 m1 w1 = Some (v', m', w')" "ring_inv m' h'" "view_inv m' h' v'"
      "tv_req_tail v' = tv_req_tail v1" "tv_comp_head v' = tv_comp_head v1" "rh_posted h' = rh_posted ?h" "rh_got h' = rh_got ?h" "mb_entries m' = mb_entries m1"
      "tv_req_head v' = tv_req_tail v1 \<or> task_full m' v' \<and> mb_status m' = SDK_STATUS_BUSY"
      using less.hyps [OF lt conjunct1 [OF ok], of v1 w1] ok by blast
    have "task_loop dispatch v m w = Some (v', m', w')" using 3 r ih(1) by (subst task_loop.simps) simp
    then show ?thesis using ih ok h task_request_frame [OF r]
      by (intro exI [of _ v'] exI [of _ m'] exI [of _ w'] exI [of _ h']) simp
  qed
qed

lemma task_view_returns:
  assumes inv: "ring_inv m h" and b: "task_begin m = (Some x, m1)"
  shows "\<exists>v' m' w'. task_loop dispatch x m1 w = Some (v', m', w') \<and>
    (get_be32 (mb_desc (task_end v' m')) 20 = get_be32 (mb_desc (task_end v' m')) 24 \<and> \<not> mb_pending (task_end v' m') \<or>
     next_index (task_end v' m') (get_be32 (mb_desc (task_end v' m')) 40) = get_be32 (mb_desc (task_end v' m')) 36 \<and>
       mb_status (task_end v' m') = SDK_STATUS_BUSY)"
proof -
  note I = ring_invD [OF inv]
  note bo = task_begin_ok [OF inv b]
  have m1: "m1 = m" "tv_req_tail x = ring_pos m (length (rh_posted h))" "tv_comp_head x = ring_pos m (length (rh_got h))"
    using b I(7,8) by (auto simp: task_begin_def split: if_splits)
  have vw: "view_inv m h x" using bo(3) m1(1) by simp
  obtain v' m' w' h' where lp: "task_loop dispatch x m w = Some (v', m', w')" "ring_inv m' h'" "view_inv m' h' v'"
    "tv_req_tail v' = tv_req_tail x" "tv_comp_head v' = tv_comp_head x" "rh_posted h' = rh_posted h" "rh_got h' = rh_got h"
    "mb_entries m' = mb_entries m" "tv_req_head v' = tv_req_tail x \<or> task_full m' v' \<and> mb_status m' = SDK_STATUS_BUSY"
    using task_loop_returns [OF inv vw] by blast
  note I' = ring_invD [OF lp(2)]
  have pos: "ring_pos m' = ring_pos m" by (rule ring_pos_cong [OF lp(8)])
  have v': "tv_req_head v' = get_be32 (mb_desc m') 20" "tv_req_tail v' = get_be32 (mb_desc m') 24"
    "tv_comp_head v' = get_be32 (mb_desc m') 36" "tv_comp_tail v' = get_be32 (mb_desc m') 40"
    using lp(3,4,5,6,7) m1(2,3) I'(6,7,8,9) by (auto simp: view_inv_def pos)
  have "mb_desc (task_end v' m') = mb_desc m'" "mb_status (task_end v' m') = mb_status m'"
    "next_index (task_end v' m') = next_index m'" "tv_req_head v' = tv_req_tail v' \<Longrightarrow> \<not> mb_pending (task_end v' m')"
    by (auto simp: task_end_def Let_def next_index_def fun_eq_iff)
  then show ?thesis using lp(1,4,9) v' m1(1) by (auto simp: task_full_def)
qed

lemma mailbox_task_returns:
  assumes inv: "ring_inv m h"
  shows "\<exists>m' w'. sdk_mailbox_task retire dispatch m w = Some (m', w') \<and> (mb_pending m \<longrightarrow>
    get_be32 (mb_desc m') 20 = get_be32 (mb_desc m') 24 \<and> \<not> mb_pending m' \<or>
    next_index m' (get_be32 (mb_desc m') 40) = get_be32 (mb_desc m') 36 \<and> mb_status m' = SDK_STATUS_BUSY)"
proof -
  obtain m0 w0 where a: "harvest_app_ops retire m w = (m0, w0)" by fastforce
  have base: "mb_base m \<noteq> 0" using ring_invD(1) [OF inv] by (simp add: mailbox_shape_def)
  have inv0: "ring_inv m0 (hist_harvest m m0 h)" using harvest_app_ok [OF inv a] by blast
  have pend: "mb_pending m0 = mb_pending m"
    using a by (auto simp: harvest_app_ops_def sdk_mailbox_post_deferred_def Let_def split: if_splits)
  obtain v m1 where b: "task_begin m0 = (v, m1)" by fastforce
  show ?thesis
  proof (cases v)
    case None
    have "\<not> mb_pending m0"
      using b None ring_invD(1) [OF inv0] ring_descriptor_valid [OF inv0] by (auto simp: task_begin_def mailbox_shape_def split: if_splits)
    then show ?thesis using a b None pend base by (simp add: sdk_mailbox_task_def)
  next
    case (Some x)
    from task_view_returns [OF inv0 b [unfolded Some], of w0] obtain v' m' w' where
      r: "task_loop dispatch x m1 w0 = Some (v', m', w')"
      "get_be32 (mb_desc (task_end v' m')) 20 = get_be32 (mb_desc (task_end v' m')) 24 \<and> \<not> mb_pending (task_end v' m') \<or>
       next_index (task_end v' m') (get_be32 (mb_desc (task_end v' m')) 40) = get_be32 (mb_desc (task_end v' m')) 36 \<and>
         mb_status (task_end v' m') = SDK_STATUS_BUSY" by blast
    have "sdk_mailbox_task retire dispatch m w = Some (task_end v' m', w')"
      using a b Some r(1) base by (simp add: sdk_mailbox_task_def)
    with r(2) show ?thesis by blast
  qed
qed

end

lemma harvest_round_queue:
  assumes "harvest_round retire m w = Some (m', w')"
  obtains i where "i < 16" "slot_state (mb_queue m) i \<noteq> TASK_FREE" "mb_queue m' = taskq_release i (mb_queue m)"
proof -
  define slot where "slot = taskq_harvest (mb_queue m)"
  have nn: "\<not> slot < 0" using assms by (auto simp: harvest_round_def slot_def Let_def)
  note hs = harvested_slot [OF slot_def [symmetric] nn]
  have post: "mb_queue m1 = mb_queue m" if "sdk_mailbox_post_deferred retire i ck op st bs n m w = (True, m1, w1)" for i ck op st bs n m1 w1
    using that by (auto simp: sdk_mailbox_post_deferred_def Let_def split: if_splits)
  have "mb_queue m' = taskq_release (nat slot) (mb_queue m)"
    using assms nn by (auto simp: harvest_round_def slot_def Let_def split: if_splits prod.splits dest!: post)
  with hs show thesis by (rule that)
qed

lemma harvest_loop_returns:
  assumes "taskq_ok (mb_queue m)"
  shows "\<exists>m' w'. harvest_loop retire m w = Some (m', w') \<and> harvest_round retire m' w' = None"
  using assms
proof (induction "card {i. i < 16 \<and> slot_state (mb_queue m) i \<noteq> TASK_FREE}" arbitrary: m w rule: less_induct)
  case less
  show ?case
  proof (cases "harvest_round retire m w")
    case None
    then show ?thesis by (subst harvest_loop.simps) simp
  next
    case (Some r)
    obtain m1 w1 where r: "harvest_round retire m w = Some (m1, w1)" using Some by (cases r) simp
    obtain i where i: "i < 16" "slot_state (mb_queue m) i \<noteq> TASK_FREE" "mb_queue m1 = taskq_release i (mb_queue m)"
      by (rule harvest_round_queue [OF r])
    have len: "length (descs (mb_queue m)) = 16" using less.prems by (simp add: taskq_ok_def TASKQ_CAPACITY_def)
    have "{k. k < 16 \<and> slot_state (mb_queue m1) k \<noteq> TASK_FREE} = {k. k < 16 \<and> slot_state (mb_queue m) k \<noteq> TASK_FREE} - {i}"
      using i(1) len by (auto simp: i(3) taskq_release_def taskq_store_release_def nth_list_update)
    then have "card {k. k < 16 \<and> slot_state (mb_queue m1) k \<noteq> TASK_FREE} < card {k. k < 16 \<and> slot_state (mb_queue m) k \<noteq> TASK_FREE}"
      using i(1,2) by (simp only:) (intro card_Diff1_less, auto)
    moreover have "taskq_ok (mb_queue m1)" using less.prems by (simp add: i(3) taskq_release_def taskq_store_release_def taskq_ok_def)
    ultimately have "\<exists>m' w'. harvest_loop retire m1 w1 = Some (m', w') \<and> harvest_round retire m' w' = None" by (rule less.hyps)
    then show ?thesis by (subst harvest_loop.simps) (simp add: r)
  qed
qed

section \<open>Handlers of the model\<close>

definition sdk_status_code :: "sdk_status \<Rightarrow> u16" where
  "sdk_status_code s = (case s of SOk \<Rightarrow> 0 | SUnsupported \<Rightarrow> 3 | SBusy \<Rightarrow> 2 | SBadRequest \<Rightarrow> 4 | SBadHandle \<Rightarrow> 5
     | SNoMemory \<Rightarrow> 6 | SInternalError \<Rightarrow> 0xffff)"

text \<open>The reply records of the memory requests in the bytes of the completion.\<close>

definition write_surface_completion :: "bytes \<Rightarrow> bytes \<Rightarrow> sdk_surface \<Rightarrow> u16 \<times> bytes" where
  "write_surface_completion req slot s =
     (let c0 = put_payload (write_completion slot req SDK_STATUS_OK 48) (replicate 48 0); c1 = put_be32 c0 16 (sf_handle s);
          c2 = put_be32 c1 20 (sf_address s); c3 = put_be32 c2 24 (sf_width s); c4 = put_be32 c3 28 (sf_height s);
          c5 = put_be32 c4 32 (sf_pitch s); c6 = put_be32 c5 36 (sf_format s); c7 = put_be32 c6 40 (sf_flags s)
      in (SDK_STATUS_OK, put_be32 c7 44 (sf_length s)))"

definition complete_reply :: "bytes \<Rightarrow> bytes \<Rightarrow> sdk_reply \<Rightarrow> u16 \<times> bytes" where
  "complete_reply req slot reply =
     (case reply of
        Status s \<Rightarrow> complete_status req slot (sdk_status_code s)
      | BufferInfo h a len flags \<Rightarrow>
          (let c0 = put_payload (write_completion slot req SDK_STATUS_OK 48) (replicate 48 0); c1 = put_be32 c0 16 h;
               c2 = put_be32 c1 20 a; c3 = put_be32 c2 24 len
           in (SDK_STATUS_OK, put_be32 c3 28 flags))
      | SurfaceInfo s \<Rightarrow> write_surface_completion req slot s)"

definition le32_bytes :: "u32 \<Rightarrow> bytes" where
  "le32_bytes v = [ucast v, ucast (drop_bit 8 v), ucast (drop_bit 16 v), ucast (drop_bit 24 v)]"

definition video_begin_task :: "bytes \<Rightarrow> taskq_request" where
  "video_begin_task req = \<lparr>rq_opcode = 0x0b00, rq_cls = taskq_class_for_opcode 0x0b00 0, rq_in_addr = 0,
     rq_in_len = 0, rq_out_addr = 0, rq_out_cap = 0, rq_request_id = get_be32 req 0, rq_user_cookie = get_be32 req 12,
     rq_params = Some (concat (map (\<lambda>k. le32_bytes (get_be32 req (16 + 4 * k))) [0..<6])), rq_param_len = 24\<rparr>"

definition handle_video_session_begin :: "bytes \<Rightarrow> bytes \<Rightarrow> bool \<Rightarrow> mailbox \<Rightarrow> u16 \<times> bytes \<times> mailbox" where
  "handle_video_session_begin req slot batch_tail m =
     (if get_be16 req 10 < 48 then case complete_status req slot SDK_STATUS_BAD_REQUEST of (s, c) \<Rightarrow> (s, c, m)
      else if \<not> mb_core1 m then case complete_status req slot SDK_STATUS_UNSUPPORTED of (s, c) \<Rightarrow> (s, c, m)
      else case service_try_defer batch_tail (video_begin_task req) m of
             (s, m') \<Rightarrow> if s = SDK_STATUS_QUEUED then (s, slot, m')
                        else case complete_status req slot SDK_STATUS_BUSY of (s, c) \<Rightarrow> (s, c, m'))"

text \<open>
  The app requests that defer: load begin, chunk and end, and start. The other app requests
  answer at once from the state of the app runtime and are left to \<open>others\<close>.
\<close>

definition zzapp_mailbox_dispatch :: "u16 \<Rightarrow> bytes \<Rightarrow> u16 \<Rightarrow> u32 \<Rightarrow> u32 \<Rightarrow> mailbox \<Rightarrow> u16 \<times> mailbox" where
  "zzapp_mailbox_dispatch op req req_len i cookie m =
     (if \<not> mb_z3 m then (SDK_STATUS_UNSUPPORTED, m)
      else if i = 0 then (SDK_STATUS_BAD_REQUEST, m)
      else if \<not> mb_core1 m then (SDK_STATUS_UNSUPPORTED, m)
      else case queue_deferred op req req_len i cookie (mb_app m) of
             (queued, a) \<Rightarrow> if queued then (SDK_STATUS_QUEUED, m\<lparr>mb_app := a\<rparr>) else (SDK_STATUS_BUSY, m))"

definition handle_app_op :: "bytes \<Rightarrow> bytes \<Rightarrow> mailbox \<Rightarrow> u16 \<times> bytes \<times> mailbox" where
  "handle_app_op req slot m =
     (case zzapp_mailbox_dispatch (get_be16 req 4) (entry_payload req) (get_be16 req 10) (get_be32 req 0) (get_be32 req 12) m of
        (s, m') \<Rightarrow> if s = SDK_STATUS_QUEUED then (s, slot, m') else (s, write_completion slot req s 0, m'))"

text \<open>The dispatch over the opcodes modelled here; \<open>others\<close> serves the rest.\<close>

definition sdk_dispatch :: "(sdk_mem \<times> 'v) request_handler \<Rightarrow> (sdk_mem \<times> 'v) request_handler" where
  "sdk_dispatch others req slot pending batch_tail m w =
     (let op = get_be16 req 4; n = get_be16 req 10
      in if op = 0 then (SDK_STATUS_OK, write_completion slot req SDK_STATUS_OK 0, m, w)
         else if op = 2 then (SDK_STATUS_OK, put_payload (write_completion slot req SDK_STATUS_OK n)
           (take (unat n) (entry_payload req)), m, w)
         else if op = 0x0b00 then case handle_video_session_begin req slot batch_tail m of (s, c, m') \<Rightarrow> (s, c, m', w)
         else if op \<in> {0x0c02, 0x0c03, 0x0c04, 0x0c05} then case handle_app_op req slot m of (s, c, m') \<Rightarrow> (s, c, m', w)
         else case handle_memory_request (ucast op) of
                Some h \<Rightarrow> (case h (entry_payload req) (unat n) (fst w) of
                    (reply, mem) \<Rightarrow> case complete_reply req slot reply of (s, c) \<Rightarrow> (s, c, m, (mem, snd w)))
              | None \<Rightarrow> others req slot pending batch_tail m w)"

text \<open>The default case of \<^verbatim>\<open>handle_request\<close>.\<close>

definition unknown_opcode :: "'w request_handler" where
  "unknown_opcode req slot pending batch_tail m w =
     (case complete_status req slot SDK_STATUS_UNSUPPORTED of (s, c) \<Rightarrow> (s, c, m, w))"

lemmas sdk_statuses = SDK_STATUS_OK_def SDK_STATUS_QUEUED_def SDK_STATUS_BUSY_def SDK_STATUS_UNSUPPORTED_def
  SDK_STATUS_BAD_REQUEST_def

lemma complete_reply_tag:
  assumes "complete_reply req slot reply = (s, c)" "length slot = 64"
  shows "length c = 64" "entry_tag c = entry_tag req" "s \<noteq> SDK_STATUS_QUEUED"
proof -
  note wc = write_completion_tag [OF assms(2), of req]
  show "length c = 64" "entry_tag c = entry_tag req" "s \<noteq> SDK_STATUS_QUEUED"
    using assms(1) wc
    by (auto simp: complete_reply_def complete_status_def write_surface_completion_def Let_def entry_tag_def sdk_statuses
        sdk_status_code_def split: sdk_reply.splits sdk_status.splits)
qed

lemma try_defer_queued:
  "service_try_defer tail r m = (SDK_STATUS_QUEUED, m') \<Longrightarrow> service_try_defer True r m = (SDK_STATUS_QUEUED, m')"
  "service_try_defer tail r m = (s, m') \<Longrightarrow> s \<noteq> SDK_STATUS_QUEUED \<Longrightarrow> m' = m"
  by (auto simp: service_try_defer_def sdk_statuses split: if_splits prod.splits)

lemma video_begin_tag:
  assumes res: "handle_video_session_begin req slot tail m = (s, c, m')" and len: "length slot = 64" and op: "get_be16 req 4 = 0x0b00"
  shows "length c = 64" "s \<noteq> SDK_STATUS_QUEUED \<Longrightarrow> m' = m \<and> entry_tag c = entry_tag req"
    "s = SDK_STATUS_QUEUED \<Longrightarrow> defers_request req m m'"
proof -
  define r where "r = video_begin_task req"
  have tag: "(rq_request_id r, ucast (rq_opcode r), rq_user_cookie r) = entry_tag req" by (simp add: r_def video_begin_task_def entry_tag_def op)
  note wc = write_completion_tag [OF len, of req]
  consider st where "s \<noteq> SDK_STATUS_QUEUED" "c = write_completion slot req st 0" "m' = m"
    | "s = SDK_STATUS_QUEUED" "c = slot" "service_try_defer tail r m = (SDK_STATUS_QUEUED, m')"
    using res try_defer_queued(2) [of tail r m]
    by (auto simp: handle_video_session_begin_def complete_status_def r_def [symmetric] sdk_statuses split: if_splits prod.splits)
  then have "length c = 64 \<and> (s \<noteq> SDK_STATUS_QUEUED \<longrightarrow> m' = m \<and> entry_tag c = entry_tag req) \<and>
    (s = SDK_STATUS_QUEUED \<longrightarrow> defers_request req m m')"
  proof cases
    case 1
    then show ?thesis using wc by simp
  next
    case 2
    then show ?thesis using len tag try_defer_queued(1) [OF 2(3)] by (auto simp: defers_request_def)
  qed
  then show "length c = 64" "s \<noteq> SDK_STATUS_QUEUED \<Longrightarrow> m' = m \<and> entry_tag c = entry_tag req"
    "s = SDK_STATUS_QUEUED \<Longrightarrow> defers_request req m m'" by blast+
qed

lemma app_op_tag:
  assumes "handle_app_op req slot m = (s, c, m')" "length slot = 64"
  shows "length c = 64" "s \<noteq> SDK_STATUS_QUEUED \<Longrightarrow> m' = m \<and> entry_tag c = entry_tag req"
    "s = SDK_STATUS_QUEUED \<Longrightarrow> defers_request req m m'"
proof -
  obtain q a where qa: "queue_deferred (get_be16 req 4) (entry_payload req) (get_be16 req 10) (get_be32 req 0) (get_be32 req 12) (mb_app m) = (q, a)"
    by fastforce
  have "length c = 64 \<and> (s \<noteq> SDK_STATUS_QUEUED \<longrightarrow> m' = m \<and> entry_tag c = entry_tag req) \<and>
    (s = SDK_STATUS_QUEUED \<longrightarrow> defers_request req m m')"
  proof (cases "mb_z3 m \<and> get_be32 req 0 \<noteq> 0 \<and> mb_core1 m \<and> q")
    case True
    then have r: "s = SDK_STATUS_QUEUED" "c = slot" "m' = m\<lparr>mb_app := a\<rparr>"
      using assms(1) qa by (simp_all add: handle_app_op_def zzapp_mailbox_dispatch_def)
    have "defers_request req m m'"
      unfolding defers_request_def r(3) using qa True
      by (intro disjI2 exI [of _ "get_be32 req 0"] exI [of _ "get_be16 req 4"] exI [of _ "get_be32 req 12"]
          exI [of _ "entry_payload req"] exI [of _ "get_be16 req 10"] exI [of _ a]) (simp add: entry_tag_def)
    with r assms(2) show ?thesis by simp
  next
    case False
    then obtain st where "s = st" "st \<noteq> SDK_STATUS_QUEUED" "c = write_completion slot req st 0" "m' = m"
      using assms(1) qa by (simp add: handle_app_op_def zzapp_mailbox_dispatch_def sdk_statuses split: if_splits)
    then show ?thesis using write_completion_tag [OF assms(2), of req] by simp
  qed
  then show "length c = 64" "s \<noteq> SDK_STATUS_QUEUED \<Longrightarrow> m' = m \<and> entry_tag c = entry_tag req"
    "s = SDK_STATUS_QUEUED \<Longrightarrow> defers_request req m m'" by blast+
qed

lemma sdk_dispatch_cases:
  assumes "sdk_dispatch others req slot pending tail m w = (s, c, m', w')"
  obtains (null) "(s, c, m') = (SDK_STATUS_OK, write_completion slot req SDK_STATUS_OK 0, m)"
  | (ping) n where "(s, c, m') = (SDK_STATUS_OK, put_payload (write_completion slot req SDK_STATUS_OK n) (take (unat n) (entry_payload req)), m)"
  | (video) "get_be16 req 4 = 0x0b00" "handle_video_session_begin req slot tail m = (s, c, m')"
  | (app) "handle_app_op req slot m = (s, c, m')"
  | (memory) reply where "complete_reply req slot reply = (s, c)" "m' = m"
  | (rest) "others req slot pending tail m w = (s, c, m', w')"
  using assms unfolding sdk_dispatch_def Let_def by (auto split: if_splits prod.splits option.splits)

lemma sdk_dispatch_ok:
  assumes "request_dispatch others"
  shows "request_dispatch (sdk_dispatch others)"
proof -
  note o = request_dispatch.answer_length [OF assms] request_dispatch.answer_tag [OF assms] request_dispatch.defer_tag [OF assms]
  have ping: "length (put_payload (write_completion slot req st n) (take k (entry_payload req))) = 64"
      "entry_tag (put_payload (write_completion slot req st n) (take k (entry_payload req))) = entry_tag req"
    if "length req = 64" "length slot = 64" for req slot st n k
    using write_completion_tag [OF that(2), of req st n] that(1) by (simp_all add: entry_payload_def entry_tag_def)
  show ?thesis
  proof
    fix req slot :: bytes and pending tail m w s c m' w'
    assume r: "sdk_dispatch others req slot pending tail m w = (s, c, m', w')" and len: "length req = 64" "length slot = 64"
    from r show "length c = 64"
      by (cases rule: sdk_dispatch_cases)
        (use len ping write_completion_tag(1) video_begin_tag(1) app_op_tag(1) complete_reply_tag(1) o(1) in auto)
    assume "s \<noteq> SDK_STATUS_QUEUED"
    with r show "m' = m \<and> entry_tag c = entry_tag req"
      by (cases rule: sdk_dispatch_cases)
        (use len ping write_completion_tag(2) video_begin_tag(2) app_op_tag(2) complete_reply_tag(2) o(2) in auto)
  next
    fix req slot :: bytes and pending tail m w c m' w'
    assume r: "sdk_dispatch others req slot pending tail m w = (SDK_STATUS_QUEUED, c, m', w')" and len: "length req = 64" "length slot = 64"
    from r show "defers_request req m m'"
    proof (cases rule: sdk_dispatch_cases)
      case video
      then show ?thesis using video_begin_tag(3) [OF video(2) len(2) video(1)] by simp
    next
      case app
      then show ?thesis using app_op_tag(3) [OF app len(2)] by simp
    next
      case (memory reply)
      then show ?thesis using complete_reply_tag(3) [OF memory(1) len(2)] by simp
    next
      case rest
      then show ?thesis using o(3) len by (cases w; cases w') blast
    qed (simp_all add: sdk_statuses)
  qed
qed

lemma unknown_opcode_ok: "request_dispatch unknown_opcode"
  by unfold_locales (auto simp: unknown_opcode_def complete_status_def write_completion_tag sdk_statuses)

interpretation sdk: request_dispatch "sdk_dispatch unknown_opcode"
  by (rule sdk_dispatch_ok [OF unknown_opcode_ok])

section \<open>A mailbox lifetime\<close>

text \<open>
  The state \<^verbatim>\<open>sdk_mailbox_init\<close> leaves. The queue may still hold tasks of the lifetime before
  that a running core could not give back, under an older stamp. The app runtime's slot, which
  carries no stamp, is empty: the reset makes core 1 clear it (\<^verbatim>\<open>zzapp_on_amiga_reset\<close>).
\<close>

definition lifetime_ok :: "u32 \<Rightarrow> u32 \<Rightarrow> u32 \<Rightarrow> taskq \<Rightarrow> mailbox \<Rightarrow> host_context \<Rightarrow> bool" where
  "lifetime_ok base entries caps q m c \<longleftrightarrow> base \<noteq> 0 \<and> entries \<ge> 2 \<and> caps AND SDK_CAP_MAILBOX \<noteq> 0 \<and> taskq_ok q \<and>
     length (mb_task_gen m) = 16 \<and>
     (\<forall>i<16. slot_state q i = TASK_FREE \<or> mb_task_gen m ! i \<noteq> mb_generation m + 1) \<and> app_tags (mb_app m) = {#} \<and>
     hc_request_entries c = entries \<and> hc_completion_entries c = entries \<and> hc_next_request_id c \<noteq> 0"

definition lifetime_start :: "u32 \<Rightarrow> u32 \<Rightarrow> u32 \<Rightarrow> taskq \<Rightarrow> mailbox \<Rightarrow> host_context \<Rightarrow> 'w \<Rightarrow> 'w ring_sys" where
  "lifetime_start base entries caps q m c w = \<lparr>rs_mb = sdk_mailbox_init_rings base entries caps q m, rs_w = w, rs_host = c,
     rs_hist = \<lparr>rh_posted = [], rh_taken = 0, rh_done = [], rh_got = []\<rparr>, rs_view = None\<rparr>"

lemma get_zero: "k + 4 \<le> n \<Longrightarrow> get_be32 (replicate n 0) k = 0"
  by (simp add: get_be32_def)

lemma lifetime_start_inv:
  assumes "lifetime_ok base entries caps q m c"
  shows "sys_inv (lifetime_start base entries caps q m c w)"
proof -
  define m1 where "m1 = sdk_mailbox_init_rings base entries caps q m"
  note A = assms [unfolded lifetime_ok_def]
  have b: "base \<noteq> 0" using A by simp
  note ini = m1_def sdk_mailbox_init_rings_def write_mailbox_descriptor_def Let_def if_P [OF b]
  have q1: "mb_queue m1 = q" "mb_task_gen m1 = mb_task_gen m" "mb_generation m1 = mb_generation m + 1" "mb_app m1 = mb_app m" "mb_entries m1 = entries"
    "mb_base m1 = base" "mb_reqs m1 = replicate (unat entries) (replicate 64 0)" "mb_comps m1 = replicate (unat entries) (replicate 64 0)"
    by (simp_all add: ini)
  have "slot_tags m1 i = {#}" if "i < 16" for i using A that by (auto simp: slot_tags_def Let_def q1)
  then have "deferred_tags m1 = {#}" using A by (simp add: deferred_tags_def q1)
  moreover have "tasks_ok m1" using A by (simp add: tasks_ok_def q1)
  moreover have "length (mb_desc m1) = 128" "get_be32 (mb_desc m1) 0 = SDK_MAILBOX_MAGIC" "get_be16 (mb_desc m1) 4 = SDK_MAILBOX_ABI_MAJOR"
    "get_be32 (mb_desc m1) 8 = SDK_MAILBOX_DESCRIPTOR_SIZE" "get_be32 (mb_desc m1) 12 = SDK_MAILBOX_REQUEST_OFFSET"
    "get_be32 (mb_desc m1) 28 = mailbox_completion_offset m1" "get_be32 (mb_desc m1) 16 = entries" "get_be32 (mb_desc m1) 32 = entries"
    "get_be32 (mb_desc m1) 44 = caps"
    by (simp_all add: ini mailbox_completion_offset_def)
  moreover have "get_be32 (mb_desc m1) k = 0" if "k \<in> {20, 24, 36, 40}" for k
    using that by (auto simp: ini get_zero)
  moreover have "0 < unat entries" using A by (auto simp: word_le_nat_alt)
  ultimately show ?thesis
    using A by (simp add: sys_inv_def lifetime_start_def m1_def [symmetric] ring_inv_def mailbox_shape_def host_ok_def ring_pos_def q1)
qed

lemma lifetime_reachable_inv:
  assumes "request_dispatch others" "lifetime_ok base entries caps q m c"
    "ring_reachable (sdk_dispatch others) retire (lifetime_start base entries caps q m c w) s"
  shows "sys_inv s"
proof -
  note d = sdk_dispatch_ok [OF assms(1)]
  show ?thesis by (rule request_dispatch.ring_reachable_inv [OF d assms(3) lifetime_start_inv [OF assms(2)]])
qed

end
