(* ===== verification/SdkRingSpec.thy ===== *)
theory SdkRingSpec
  imports SdkRingRuns
begin

text \<open>
  What the mailbox rings promise, over a whole mailbox lifetime: every request is answered
  exactly once, the loops of core 0 return, and the one gap of the request ids; with a run of
  both ends that the properties are applied to.
\<close>

section \<open>Promises\<close>

text \<open>The tag of a completion as the host decodes it.\<close>

definition host_tag :: "host_entry \<Rightarrow> tag" where
  "host_tag e = (he_request_id e, he_opcode e, he_user_cookie e)"

lemma host_tag_wire: "host_tag (zz9k_entry_from_wire e) = entry_tag e"
  by (simp add: host_tag_def zz9k_entry_from_wire_def entry_tag_def)

lemma got_tags:
  assumes "ring_inv m h"
  shows "image_mset host_tag (mset (rh_got h)) + image_mset entry_tag (mset (drop (length (rh_got h)) (rh_done h))) +
    deferred_tags m = image_mset entry_tag (mset (take (rh_taken h) (rh_posted h)))"
proof -
  note I = ring_invD [OF assms]
  have "map host_tag (rh_got h) = map entry_tag (take (length (rh_got h)) (rh_done h))"
    by (subst I(12)) (simp add: host_tag_wire)
  then have "image_mset host_tag (mset (rh_got h)) = image_mset entry_tag (mset (take (length (rh_got h)) (rh_done h)))"
    by (metis mset_map)
  then have "image_mset host_tag (mset (rh_got h)) + image_mset entry_tag (mset (drop (length (rh_got h)) (rh_done h))) =
      image_mset entry_tag (mset (take (length (rh_got h)) (rh_done h)) + mset (drop (length (rh_got h)) (rh_done h)))" by simp
  also have "\<dots> = image_mset entry_tag (mset (rh_done h))" by (metis append_take_drop_id mset_append)
  finally show ?thesis using I(14) by simp
qed

text \<open>
  C38: After any interleaving of the host, the task loop, the harvest loop, the worker core and
  the internal tasks over one mailbox lifetime, with any handlers that keep the contract behind
  the ones modelled here: the requests the firmware has taken are, as a multiset of
  (id, opcode, cookie), exactly the completions the host has read, the completions waiting in
  the ring and the tasks still deferred, so none is lost and none answered twice; the host has read
  the completions in the order of the ring and unchanged; and the slots between the indices
  hold the posted requests not yet taken and the completions not yet read.
\<close>

theorem sdk_requests_answered_once:
  assumes "request_dispatch others" "lifetime_ok base entries caps q m0 c"
    "ring_reachable (sdk_dispatch others) retire (lifetime_start base entries caps q m0 c w) s"
  defines "m \<equiv> rs_mb s" and "h \<equiv> rs_hist s"
  shows "descriptor_valid m \<and>
    image_mset host_tag (mset (rh_got h)) + image_mset entry_tag (mset (drop (length (rh_got h)) (rh_done h))) +
      deferred_tags m = image_mset entry_tag (mset (take (rh_taken h) (rh_posted h))) \<and>
    rh_got h = map zz9k_entry_from_wire (take (length (rh_got h)) (rh_done h)) \<and>
    (\<forall>i. rh_taken h \<le> i \<and> i < length (rh_posted h) \<longrightarrow> mb_reqs m ! (i mod unat (mb_entries m)) = rh_posted h ! i) \<and>
    (\<forall>i. length (rh_got h) \<le> i \<and> i < length (rh_done h) \<longrightarrow> mb_comps m ! (i mod unat (mb_entries m)) = rh_done h ! i) \<and>
    length (rh_posted h) - rh_taken h < unat (mb_entries m) \<and> length (rh_done h) - length (rh_got h) < unat (mb_entries m)"
proof -
  have inv: "ring_inv m h" using lifetime_reachable_inv [OF assms(1-3)] by (simp add: sys_inv_def m_def h_def)
  note I = ring_invD [OF inv]
  have "length (rh_posted h) - rh_taken h < unat (mb_entries m)" "length (rh_done h) - length (rh_got h) < unat (mb_entries m)"
    using I(2-5) by linarith+
  then show ?thesis using ring_descriptor_valid [OF inv] got_tags [OF inv] I(10,11,12) by blast
qed

text \<open>
  C39: In every such state both loops of core 0 return. When a doorbell is pending the task loop
  either empties the request ring and clears the doorbell, or stops with BUSY on a full
  completion ring; the harvest loop ends at a round that has nothing more it can post.
\<close>

theorem sdk_core0_loops_return:
  assumes "request_dispatch others" "lifetime_ok base entries caps q m0 c"
    "ring_reachable (sdk_dispatch others) retire (lifetime_start base entries caps q m0 c w0) s"
  shows "(\<exists>m' w'. sdk_mailbox_task retire (sdk_dispatch others) (rs_mb s) w = Some (m', w') \<and> (mb_pending (rs_mb s) \<longrightarrow>
      get_be32 (mb_desc m') 20 = get_be32 (mb_desc m') 24 \<and> \<not> mb_pending m' \<or>
      next_index m' (get_be32 (mb_desc m') 40) = get_be32 (mb_desc m') 36 \<and> mb_status m' = SDK_STATUS_BUSY)) \<and>
    (\<exists>m' w'. harvest_loop retire (rs_mb s) w = Some (m', w') \<and> harvest_round retire m' w' = None)"
proof -
  have inv: "ring_inv (rs_mb s) (rs_hist s)" using lifetime_reachable_inv [OF assms(1-3)] by (simp add: sys_inv_def)
  then have "taskq_ok (mb_queue (rs_mb s))" using ring_invD(1) [OF inv] by (simp add: mailbox_shape_def tasks_ok_def)
  with inv show ?thesis
    by (intro conjI request_dispatch.mailbox_task_returns [OF sdk_dispatch_ok [OF assms(1)]] harvest_loop_returns)
qed

text \<open>
  C40: A video session begin with request id 0 is not refused: it is deferred under the id that
  marks internal tasks, no completion is owed for it, and whenever its task is harvested
  \<^verbatim>\<open>sdk_mailbox_post_deferred\<close> posts nothing, so the requester never hears of the session.
\<close>

theorem video_begin_id_zero_lost:
  assumes req: "get_be16 req 4 = 0x0b00" "get_be32 req 0 = 0" "get_be16 req 10 = 48"
    and m: "mb_core1 m" "tasks_ok m" and free: "fst (taskq_enqueue (video_begin_task req) (mb_queue m)) \<ge> 0"
  shows "\<exists>m'. handle_request (sdk_dispatch others) req slot pending True m w = (SDK_STATUS_QUEUED, slot, m', w) \<and>
    deferred_tags m' = deferred_tags m \<and>
    (\<exists>i<16. slot_state (mb_queue m) i = TASK_FREE \<and> slot_state (mb_queue m') i = TASK_QUEUED \<and> opcode (descs (mb_queue m') ! i) = 0x0b00 \<and>
       (\<forall>cookie op status result len m2 w2.
          sdk_mailbox_post_deferred retire (request_id (descs (mb_queue m') ! i)) cookie op status result len m2 w2 =
          (True, m2, retire 0 cookie op status (take (unat len) result) w2)))"
proof -
  obtain k q where e: "taskq_enqueue (video_begin_task req) (mb_queue m) = (k, q)" "k \<ge> 0"
    using free by (cases "taskq_enqueue (video_begin_task req) (mb_queue m)") auto
  define m' where "m' = stamp_task (nat k) (m\<lparr>mb_queue := q\<rparr>)"
  have "handle_request (sdk_dispatch others) req slot pending True m w = (SDK_STATUS_QUEUED, slot, m', w)"
    using req m e by (simp add: handle_request_def sdk_dispatch_def handle_video_session_begin_def service_try_defer_def
        opcode_reserves_request_id_zero_def m'_def)
  moreover have "deferred_tags m' = deferred_tags m"
    using enqueue_tags(2) [OF m(2) e] req by (simp add: m'_def video_begin_task_def)
  moreover obtain i where "i < 16" "slot_state (mb_queue m) i = TASK_FREE"
    "descs q = (descs (mb_queue m))[i := (taskq_fill (video_begin_task req) (descs (mb_queue m) ! i))\<lparr>tstate := TASK_QUEUED\<rparr>]"
    using taskq_enqueue_queued [OF m(2) e] by blast
  ultimately show ?thesis using m(2) req
    by (intro exI [of _ m'] conjI exI [of _ i])
      (simp_all add: m'_def stamp_task_def tasks_ok_def taskq_ok_def TASKQ_CAPACITY_def taskq_fill_def video_begin_task_def
        sdk_mailbox_post_deferred_def)
qed

section \<open>A run\<close>

text \<open>
  The host posts a no-op, an app load begin and a video session begin; the firmware answers the
  first, defers the second to the app runtime and the third to the task queue; the host reads the
  completion of the first.
\<close>

definition idle_task :: taskq_desc where
  "idle_task = \<lparr>tstate = TASK_FREE, cls = TASK_LONG, opcode = 0, in_addr = 0, in_len = 0, out_addr = 0, out_cap = 0,
     request_id = 0, user_cookie = 0, result_status = 0, result_len = 0, result_payload = [], op_params = []\<rparr>"

definition ring_demo_queue :: taskq where
  "ring_demo_queue = \<lparr>descs = replicate 16 idle_task, enqueue_cursor = 0\<rparr>"

definition ring_demo_slot :: app_defer where
  "ring_demo_slot = \<lparr>defer_state = DEFER_IDLE, defer_opcode = 0, defer_status = 0, defer_req_len = 0, defer_reply_len = 0,
     defer_request_id = 0, defer_cookie = 0, defer_req = [], defer_reply = []\<rparr>"

definition ring_demo_mailbox :: mailbox where
  "ring_demo_mailbox = \<lparr>mb_base = 0, mb_entries = 0, mb_desc = [], mb_reqs = [], mb_comps = [], mb_active = True, mb_pending = True,
     mb_irq_enabled = False, mb_irq = False, mb_status = 0, mb_completed = 0, mb_failed = 0, mb_generation = 0,
     mb_task_gen = replicate 16 0, mb_queue = ring_demo_queue, mb_core1 = True, mb_z3 = True, mb_app = ring_demo_slot, mb_watchdog = taskq_watchdog_init 3\<rparr>"

definition ring_demo_context :: host_context where
  "ring_demo_context = \<lparr>hc_request_entries = 22, hc_completion_entries = 22, hc_next_request_id = 1\<rparr>"

definition ring_demo_nop :: host_entry where
  "ring_demo_nop = \<lparr>he_request_id = 0, he_opcode = 0, he_status = 0, he_flags = 0, he_payload_len = 0, he_user_cookie = 7, he_data = []\<rparr>"

definition ring_demo_app :: host_entry where
  "ring_demo_app = \<lparr>he_request_id = 0, he_opcode = 0x0c02, he_status = 0, he_flags = 0, he_payload_len = 0, he_user_cookie = 9, he_data = []\<rparr>"

definition ring_demo_begin :: host_entry where
  "ring_demo_begin = \<lparr>he_request_id = 0, he_opcode = 0x0b00, he_status = 0, he_flags = 0, he_payload_len = 48, he_user_cookie = 8,
     he_data = replicate 48 1\<rparr>"

type_synonym 'w demo = "bool \<times> mailbox \<times> host_context \<times> ring_hist \<times> task_view option \<times> 'w"

fun demo_sys :: "'w demo \<Rightarrow> 'w ring_sys" where
  "demo_sys (ok, m, c, h, v, w) = \<lparr>rs_mb = m, rs_w = w, rs_host = c, rs_hist = h, rs_view = v\<rparr>"

fun demo_post :: "host_entry \<Rightarrow> 'w demo \<Rightarrow> 'w demo" where
  "demo_post e (ok, m, c, h, v, w) = (case zz9k_enqueue_request_locked e c m of ((st, i), c', m') \<Rightarrow>
     (ok \<and> st = SDK_STATUS_QUEUED, m', c', h\<lparr>rh_posted := rh_posted h @ [mb_reqs m' ! unat (get_be32 (mb_desc m) 24)]\<rparr>, v, w))"

fun demo_bell :: "'w demo \<Rightarrow> 'w demo" where
  "demo_bell (ok, m, c, h, v, w) = (ok, sdk_mailbox_doorbell m, c, h, v, w)"

fun demo_begin :: "'w demo \<Rightarrow> 'w demo" where
  "demo_begin (ok, m, c, h, v, w) = (case task_begin m of (v', m') \<Rightarrow> (ok \<and> v = None, m', c, h, v', w))"

fun demo_round :: "'w request_handler \<Rightarrow> 'w demo \<Rightarrow> 'w demo" where
  "demo_round dispatch (ok, m, c, h, None, w) = (False, m, c, h, None, w)"
| "demo_round dispatch (ok, m, c, h, Some v, w) = (case task_request dispatch v m w of (v', m', w') \<Rightarrow>
     (ok \<and> tv_req_head v \<noteq> tv_req_tail v \<and> \<not> task_full m v, m', c, hist_request v m' h, Some v', w'))"

fun demo_poll :: "'w demo \<Rightarrow> 'w demo" where
  "demo_poll (ok, m, c, h, v, w) = (case zz9k_consume_next_completion_locked c m of
     ((st, Some e), m') \<Rightarrow> (ok \<and> st = SDK_STATUS_OK, m', c, h\<lparr>rh_got := rh_got h @ [e]\<rparr>, v, w)
   | ((st, None), m') \<Rightarrow> (False, m, c, h, v, w))"

definition ring_demo0 :: "'w \<Rightarrow> 'w demo" where
  "ring_demo0 w = (True, sdk_mailbox_init_rings 0x01000000 22 SDK_CAP_MAILBOX ring_demo_queue ring_demo_mailbox, ring_demo_context,
     \<lparr>rh_posted = [], rh_taken = 0, rh_done = [], rh_got = []\<rparr>, None, w)"

definition ring_demo1 :: "'w \<Rightarrow> 'w demo" where
  "ring_demo1 w = demo_bell (demo_post ring_demo_begin (demo_post ring_demo_app (demo_post ring_demo_nop (ring_demo0 w))))"

definition ring_demo2 :: "'v \<Rightarrow> (sdk_mem \<times> 'v) demo" where
  "ring_demo2 x = demo_poll (demo_round (sdk_dispatch unknown_opcode) (demo_round (sdk_dispatch unknown_opcode)
     (demo_round (sdk_dispatch unknown_opcode) (demo_begin (ring_demo1 (sdk_demo0, x))))))"

lemma demo_steps:
  "fst (demo_post e s) \<Longrightarrow> fst s \<and> ring_step dispatch retire (demo_sys s) (demo_sys (demo_post e s))"
  "fst (demo_bell s) \<Longrightarrow> fst s \<and> ring_step dispatch retire (demo_sys s) (demo_sys (demo_bell s))"
  "fst (demo_begin s) \<Longrightarrow> fst s \<and> ring_step dispatch retire (demo_sys s) (demo_sys (demo_begin s))"
  "fst (demo_round dispatch s) \<Longrightarrow> fst s \<and> ring_step dispatch retire (demo_sys s) (demo_sys (demo_round dispatch s))"
  "fst (demo_poll s) \<Longrightarrow> fst s \<and> ring_step dispatch retire (demo_sys s) (demo_sys (demo_poll s))"
proof -
  obtain ok m c h v w where s: "s = (ok, m, c, h, v, w)" by (cases s) auto
  let ?s = "demo_sys (ok, m, c, h, v, w)"
  show "fst (demo_post e s) \<Longrightarrow> fst s \<and> ring_step dispatch retire (demo_sys s) (demo_sys (demo_post e s))"
    using ring_step.post [of e ?s _ _ _ dispatch retire] by (auto simp: s split: prod.splits)
  show "fst (demo_bell s) \<Longrightarrow> fst s \<and> ring_step dispatch retire (demo_sys s) (demo_sys (demo_bell s))"
    using ring_step.register [of sdk_mailbox_doorbell dispatch retire ?s] by (auto simp: s)
  show "fst (demo_begin s) \<Longrightarrow> fst s \<and> ring_step dispatch retire (demo_sys s) (demo_sys (demo_begin s))"
    using ring_step.begin_task [of ?s _ _ dispatch retire] by (auto simp: s split: prod.splits)
  show "fst (demo_round dispatch s) \<Longrightarrow> fst s \<and> ring_step dispatch retire (demo_sys s) (demo_sys (demo_round dispatch s))"
    using ring_step.round [of ?s _ dispatch _ _ _ retire] by (cases v) (auto simp: s split: prod.splits)
  show "fst (demo_poll s) \<Longrightarrow> fst s \<and> ring_step dispatch retire (demo_sys s) (demo_sys (demo_poll s))"
    using ring_step.poll [of ?s _ _ dispatch retire] by (auto simp: s split: prod.splits option.splits)
qed

lemma ring_demo_eval:
  "case ring_demo1 w of (ok, m, c, h, v, w') \<Rightarrow> ok \<and> mb_pending m"
  "case demo_poll (demo_round (sdk_dispatch unknown_opcode) (demo_round (sdk_dispatch unknown_opcode)
     (demo_round (sdk_dispatch unknown_opcode) (demo_begin (ring_demo1 w))))) of
     (ok, m, c, h, v, w') \<Rightarrow> ok \<and> map host_tag (rh_got h) = [(1, 0, 7)] \<and> rh_taken h = 3 \<and> length (rh_done h) = 1 \<and>
     map entry_tag (rh_posted h) = [(1, 0, 7), (2, 0x0c02, 9), (3, 0x0b00, 8)]"
  by code_simp+

lemma ring_demo_start: "demo_sys (ring_demo0 w) = lifetime_start 0x01000000 22 SDK_CAP_MAILBOX ring_demo_queue ring_demo_mailbox ring_demo_context w"
  by (simp add: ring_demo0_def lifetime_start_def)

definition demo_reach :: "'w request_handler \<Rightarrow> 'w retire_hook \<Rightarrow> 'w demo \<Rightarrow> 'w demo \<Rightarrow> bool" where
  "demo_reach dispatch retire a s \<longleftrightarrow> (fst s \<longrightarrow> ring_reachable dispatch retire (demo_sys a) (demo_sys s))"

lemma demo_reach_steps:
  "demo_reach dispatch retire a a"
  "demo_reach dispatch retire a s \<Longrightarrow> demo_reach dispatch retire a (demo_post e s)"
  "demo_reach dispatch retire a s \<Longrightarrow> demo_reach dispatch retire a (demo_bell s)"
  "demo_reach dispatch retire a s \<Longrightarrow> demo_reach dispatch retire a (demo_begin s)"
  "demo_reach dispatch retire a s \<Longrightarrow> demo_reach dispatch retire a (demo_round dispatch s)"
  "demo_reach dispatch retire a s \<Longrightarrow> demo_reach dispatch retire a (demo_poll s)"
  using demo_steps [where s = s and dispatch = dispatch and retire = retire]
  by (auto simp: demo_reach_def ring_reachable_def simp del: demo_sys.simps intro: rtranclp.rtrancl_into_rtrancl)

lemma ring_demo_reach:
  "ring_reachable (sdk_dispatch unknown_opcode) retire (demo_sys (ring_demo0 (sdk_demo0, x))) (demo_sys (ring_demo1 (sdk_demo0, x)))"
  "ring_reachable (sdk_dispatch unknown_opcode) retire (demo_sys (ring_demo0 (sdk_demo0, x))) (demo_sys (ring_demo2 x))"
proof -
  let ?r = "demo_reach (sdk_dispatch unknown_opcode) retire (ring_demo0 (sdk_demo0, x))"
  have "?r (ring_demo1 (sdk_demo0, x))" unfolding ring_demo1_def by (intro demo_reach_steps)
  moreover from this have "?r (ring_demo2 x)" unfolding ring_demo2_def by (intro demo_reach_steps)
  moreover have "fst (ring_demo1 (sdk_demo0, x))" "fst (ring_demo2 x)"
    using ring_demo_eval [of "(sdk_demo0, x)"] by (auto simp: ring_demo2_def split: prod.splits)
  ultimately show
    "ring_reachable (sdk_dispatch unknown_opcode) retire (demo_sys (ring_demo0 (sdk_demo0, x))) (demo_sys (ring_demo1 (sdk_demo0, x)))"
    "ring_reachable (sdk_dispatch unknown_opcode) retire (demo_sys (ring_demo0 (sdk_demo0, x))) (demo_sys (ring_demo2 x))"
    by (simp_all add: demo_reach_def)
qed

lemma ring_demo_lifetime: "lifetime_ok 0x01000000 22 SDK_CAP_MAILBOX ring_demo_queue ring_demo_mailbox ring_demo_context"
  by (simp add: lifetime_ok_def app_tags_def ring_demo_slot_def ring_demo_queue_def ring_demo_mailbox_def ring_demo_context_def SDK_CAP_MAILBOX_def taskq_ok_def
      TASKQ_CAPACITY_def idle_task_def)

lemma ring_demo_tasks: "tasks_ok ring_demo_mailbox"
  by (simp add: tasks_ok_def ring_demo_queue_def ring_demo_mailbox_def taskq_ok_def TASKQ_CAPACITY_def)

theorem sdk_requests_answered_once_witness:
  "deferred_tags (rs_mb (demo_sys (ring_demo2 ()))) = {#(2, 0x0c02, 9), (3, 0x0b00, 8)#} \<and>
   map host_tag (rh_got (rs_hist (demo_sys (ring_demo2 ())))) = [(1, 0, 7)]"
proof -
  define s where "s = demo_sys (ring_demo2 ())"
  note t = sdk_requests_answered_once [OF unknown_opcode_ok ring_demo_lifetime ring_demo_reach(2) [unfolded ring_demo_start, where x = "()" and retire = "\<lambda>_ _ _ _ _ w. w"],
      folded s_def]
  have h: "rh_taken (rs_hist s) = 3" "map entry_tag (rh_posted (rs_hist s)) = [(1, 0, 7), (2, 0x0c02, 9), (3, 0x0b00, 8)]"
    "length (rh_done (rs_hist s)) = 1" "map host_tag (rh_got (rs_hist s)) = [(1, 0, 7)]"
    using ring_demo_eval(2) [of "(sdk_demo0, ())"] by (auto simp: s_def ring_demo2_def split: prod.splits)
  have l: "length (rh_got (rs_hist s)) = 1" using h(4) by auto
  have "image_mset host_tag (mset (rh_got (rs_hist s))) = {#(1, 0, 7)#}" by (simp only: mset_map [symmetric] h(4)) simp
  moreover have "image_mset entry_tag (mset (take 3 (rh_posted (rs_hist s)))) = {#(1, 0, 7), (2, 0x0c02, 9), (3, 0x0b00, 8)#}"
    by (simp only: mset_map [symmetric] take_map [symmetric] h(2)) simp
  ultimately show ?thesis using t h(1,3,4) l unfolding s_def [symmetric] by simp
qed

theorem sdk_core0_loops_return_witness:
  "\<exists>m' w'. sdk_mailbox_task (\<lambda>_ _ _ _ _ w. w) (sdk_dispatch unknown_opcode) (rs_mb (demo_sys (ring_demo1 (sdk_demo0, ())))) (sdk_demo0, ()) = Some (m', w') \<and>
    (get_be32 (mb_desc m') 20 = get_be32 (mb_desc m') 24 \<and> mb_pending m' = False \<or>
     next_index m' (get_be32 (mb_desc m') 40) = get_be32 (mb_desc m') 36 \<and> mb_status m' = SDK_STATUS_BUSY)"
proof -
  have "mb_pending (rs_mb (demo_sys (ring_demo1 (sdk_demo0, ()))))"
    using ring_demo_eval(1) [of "(sdk_demo0, ())"] by (auto split: prod.splits)
  with sdk_core0_loops_return [OF unknown_opcode_ok ring_demo_lifetime ring_demo_reach(1) [unfolded ring_demo_start, where x = "()" and retire = "\<lambda>_ _ _ _ _ w. w"],
      where w = "(sdk_demo0, ())"] show ?thesis by auto
qed

definition ring_demo_zero :: bytes where
  "ring_demo_zero = zz9k_entry_to_wire (replicate 64 0) ring_demo_begin"

theorem video_begin_id_zero_lost_witness:
  "\<exists>m'. handle_request (sdk_dispatch unknown_opcode) ring_demo_zero (replicate 64 0) 1 True ring_demo_mailbox (sdk_demo0, ()) =
      (SDK_STATUS_QUEUED, replicate 64 0, m', (sdk_demo0, ())) \<and>
    deferred_tags m' = deferred_tags ring_demo_mailbox"
proof -
  have z: "get_be16 ring_demo_zero 4 = 0x0b00" "get_be32 ring_demo_zero 0 = 0" "get_be16 ring_demo_zero 10 = 48" "mb_core1 ring_demo_mailbox"
    "fst (taskq_enqueue (video_begin_task ring_demo_zero) (mb_queue ring_demo_mailbox)) \<ge> 0" by code_simp+
  show ?thesis
    using video_begin_id_zero_lost [OF z(1-4) ring_demo_tasks z(5), where others = unknown_opcode and slot = "replicate 64 0" and pending = 1 and w = "(sdk_demo0, ())" and retire = "\<lambda>_ _ _ _ _ w. w"]
    by (elim exE conjE) (rule exI, rule conjI, assumption+)
qed

end
