(* ===== verification/Spec2Isabelle.thy ===== *)
theory Spec2Isabelle
  imports SurfaceAllocator SmpLock TaskQueue CardPool ApertureLayout PortReset EthTxOrder ModuleSafety FwPush MmuSafety OwnerRuns SdkRingSpec
begin

text \<open>
  Verification of the ZZ9000 card firmware, \<^verbatim>\<open>src/ZZ9000_proto.sdk/ZZ9000OS/src\<close> (called FW below).

  THE PROGRAM. The firmware runs on the two ARM cores of an Amiga expansion card. Core 0 answers
  the Amiga: registers on the Zorro bus (\<^verbatim>\<open>main.c\<close>) and a mailbox in shared memory
  (\<^verbatim>\<open>sdk_mailbox.c\<close>). Core 1 runs long tasks from a queue both cores share (\<^verbatim>\<open>scheduler.c\<close>). Card
  memory is handed out by two allocators, the host-visible heap (\<^verbatim>\<open>surface_allocator.c\<close>) and the
  card pool (\<^verbatim>\<open>card_pool.c\<close>), under one recursive lock of both cores (\<^verbatim>\<open>sdk_smp_lock.c\<close>). Code can be
  added from the SD card: modules (\<^verbatim>\<open>zzm_*.c\<close>), which get a heap, owners and host windows from the
  firmware (\<^verbatim>\<open>zzm_runtime.c\<close>), and whole firmware files pushed by the Amiga (\<^verbatim>\<open>fw_update.c\<close>).

  THE THEORIES, in the order of the imports.

  \<^item> \<^verbatim>\<open>Prelude\<close>: word arithmetic without wrap, list surgery by index (the \<^verbatim>\<open>memmove\<close> of the C
    tables), binary search, theorem collections. \<^verbatim>\<open>Intervals\<close>: disjoint address ranges and the
    locale \<open>region_allocator\<close>, the contract of an address-range allocator (a block handed out is
    fresh, and lives until it is given back); it is interpreted on all three allocators: \<open>sa\<close> in
    \<^verbatim>\<open>SurfaceAllocator\<close>, \<open>cp\<close> in \<^verbatim>\<open>CardPool\<close>, \<open>mh\<close> in \<^verbatim>\<open>HeapService\<close>.
  \<^item> \<^verbatim>\<open>SurfaceAllocator\<close> (FW \<^verbatim>\<open>surface_allocator.c\<close>) and \<^verbatim>\<open>CardPool\<close> (\<^verbatim>\<open>card_pool.c\<close>): the block
    and range tables as sorted lists, every entry point, invariants, completeness of the search,
    exact statistics, no address handed out twice on any run from boot in which the heap's gap
    test does not wrap (and what happens exactly when it does), the Amiga reset.
  \<^item> \<^verbatim>\<open>SmpLock\<close> (\<^verbatim>\<open>sdk_smp_lock.c\<close>, \<^verbatim>\<open>sdk_smp_lock_arm.c\<close>): statement-level steps of any number of
    cores, faults and their recovery included; mutual exclusion, release returns, and the
    overlapped fault reset that deadlocks from every reachable state.
  \<^item> \<^verbatim>\<open>TaskQueue\<close> (\<^verbatim>\<open>scheduler.c\<close>): queue, classes, watchdog; one load or swap per step, both
    cores interleaved, with restarts of core 1 and the quiesce of a mailbox reset; a task is run
    by one core, slots go through their life in order, no task outlives a quiesce.
  \<^item> \<^verbatim>\<open>ApertureLayout\<close> (\<^verbatim>\<open>sdk_aperture_layout.c\<close>): each Zorro II window as parts that cover it once.
    \<^verbatim>\<open>PortReset\<close> (\<^verbatim>\<open>usb_port_reset_sm.h\<close>): the root-port reset sequence with its minimum times.
    \<^verbatim>\<open>EthTxOrder\<close> (\<^verbatim>\<open>eth_tx_order.h\<close>): sends complete in order, refining a queue.
  \<^item> \<^verbatim>\<open>ModuleFormat\<close> (\<^verbatim>\<open>zzm_format.h\<close>, \<^verbatim>\<open>zzm_manifest.c\<close>), \<^verbatim>\<open>ModuleLoader\<close> (\<^verbatim>\<open>zzm_loader.c\<close>,
    \<^verbatim>\<open>zzm_registry.c\<close>), \<^verbatim>\<open>ModuleIntegrity\<close>, \<^verbatim>\<open>ModuleSafety\<close>: the header checks, the loader with its
    recursion over dependencies, its invariant indexed by the modules being loaded, and the
    result: what a module's init finds is the image its digest vouches for, only the module
    itself changes it afterwards, and the registry names only loaded modules and modules whose
    load was cut by an interruption of core 1. The locale \<open>module_loading\<close> states the contract of one nested load.
  \<^item> \<^verbatim>\<open>FwUpdate\<close>, \<^verbatim>\<open>FwSafety\<close> (\<^verbatim>\<open>fw_update.c\<close>) and \<^verbatim>\<open>FwPush\<close> (the \<^verbatim>\<open>REG_ZZ_FWUP\<close> registers of
    \<^verbatim>\<open>main.c\<close>): names, temporary file, commit with backup and rollback; no failing call of FatFs
    loses a file; a status register answers its last command.
  \<^item> \<^verbatim>\<open>MmuPage\<close>, \<^verbatim>\<open>MmuSafety\<close> (\<^verbatim>\<open>mmu_page.c\<close>): page mappings as writes, cleans and invalidations,
    read back by the table walk; break-before-make at every write.
  \<^item> \<^verbatim>\<open>HeapChunk\<close>, \<^verbatim>\<open>ModuleHeap\<close>, \<^verbatim>\<open>HeapSafety\<close>, \<^verbatim>\<open>HeapService\<close> (\<^verbatim>\<open>zzm_runtime.c\<close>, memory): blocks
    that tile a chunk, chunks inside the card pool, growth, free (stray frees included), release
    of an owner.
    \<^verbatim>\<open>ModuleOwners\<close>, \<^verbatim>\<open>OwnerSafety\<close>, \<^verbatim>\<open>OwnerService\<close>, \<^verbatim>\<open>OwnerRuns\<close> (\<^verbatim>\<open>zzm_runtime.c\<close>, owners and
    windows): the owner forest, what a close takes, unload, windows, the guard of cache calls.
  \<^item> \<^verbatim>\<open>SdkSurface\<close> (\<^verbatim>\<open>sdk_surface.c\<close>): rectangle fill and copy, equal to a closed form. \<^verbatim>\<open>SdkBuffers\<close>,
    \<^verbatim>\<open>SdkIsolation\<close>, \<^verbatim>\<open>SdkService\<close>, \<^verbatim>\<open>SdkRuns\<close>, \<^verbatim>\<open>SdkMemory\<close> (\<^verbatim>\<open>sdk_mailbox.c\<close>, memory and surface
    requests): the two handle tables over heap, pool and host window; every entry is live storage
    of its own, a request writes only where its handle points, a freed handle stays dead.
  \<^item> \<^verbatim>\<open>SdkRings\<close>, \<^verbatim>\<open>SdkRingSafety\<close>, \<^verbatim>\<open>SdkRingRuns\<close>, \<^verbatim>\<open>SdkRingSpec\<close> (\<^verbatim>\<open>sdk_mailbox.c\<close>, the rings; the
    harvest loop of \<^verbatim>\<open>scheduler_arm.c\<close>; the host's end in \<^verbatim>\<open>src/sdk/host/src/zz9k_host.c\<close>): the bytes
    of descriptor and rings written by both ends, deferral to the task queue with its generation
    stamps and to the app runtime's slot (\<^verbatim>\<open>zzapp_services.c\<close>).
    Over a mailbox lifetime every request is answered exactly once, and core 0's loops return.

  HOW THE STATE CORRESPONDS. A C struct is a record with the same fields, a table of structs a
  list, \<^verbatim>\<open>uint32_t\<close> a 32-bit word whose arithmetic wraps as in C; a loop over a table is a
  recursion over its indices; a global is a field of the record of its component, and a function
  that writes it returns the record. A call under the allocator lock is one step (\<^verbatim>\<open>SmpLock\<close> is
  why). NULL-pointer guards on out parameters have no counterpart. Cache and barrier instructions
  are dropped, except in \<^verbatim>\<open>MmuSafety\<close>, where their order is the subject; cores are sequentially
  consistent. Console output is dropped.

  BOUNDS AND FUEL. Module loads nest at most nine deep (there are eight modules and a load on the
  stack is not started again; \<open>module_load_terminates\<close>), releases two deep. Closing an owner
  uses fuel 33 (32 owners, the table is a forest; \<open>module_close_takes_tree\<close>). The heap walks, the
  task loop and the harvest loop are \<open>option\<close>-valued partial functions, so not returning is
  \<open>None\<close>; that they return is proved (\<open>heap_*\<close> lemmas, \<open>sdk_core0_loops_return\<close>). The isolation
  of the handle tables holds for runs with fewer than \<open>2 ^ 30\<close> surface and \<open>2 ^ 32 - 3\<close> buffer
  allocations (then handles repeat) and as long as no heap allocation wraps the allocator's gap
  test (\<open>heap_request_wraps\<close>; none does up to an alignment of 256, and \<open>sdk_alignment_overlap\<close>
  evaluates a run with one that does).

  WHAT THE RUNS LEAVE OUT, stated with each relation: a close of owner 0, an unload of module 0
  and a window for owner 0 (defects, in the findings), a free whose address follows a forged
  block mark, two windows of one store each around \<^verbatim>\<open>core1_current_slot\<close> (\<open>tq_step\<close>), and module
  code that stores into another module's slot.

  PARAMETERS, for code that is not part of the firmware's sources or is not modelled: FatFs
  (\<open>fatfs_ok\<close>, satisfied by a model file system in \<^verbatim>\<open>FwSafety\<close>), the digest and the module code
  itself (its registrations, its stores in its slot and where it is interrupted) in the loader's
  environment, the EHCI and Ethernet hardware as inputs, and the requests
  of other services behind the mailbox (\<open>others\<close> and \<open>retire\<close>; the locale \<open>request_dispatch\<close> is
  their contract, and \<^verbatim>\<open>SdkRingRuns\<close> proves it for the modelled handlers).

  FINDINGS. The properties that exhibit a defect of the code state it as it is: a wrapped gap test
  that leaves the block table out of order, a lock reset that deadlocks, a push that a later cleanup deletes,
  a request id that is deferred and never answered; the manifest lists them with the rest.

  NOT MODELLED, with the reason. Codecs and third-party code (\<^verbatim>\<open>bearssl\<close>, \<^verbatim>\<open>lzh\<close>, \<^verbatim>\<open>mp3\<close>, \<^verbatim>\<open>rfb\<close>,
  FatFs and the board support package, the boot loader) and generated tables. The 3D rasteriser
  and the audio DSP, which compute in floating point. The drivers (HDMI, ADC, DMA, USB controller,
  Ethernet, SD), which are register sequences without state of their own. The remaining mailbox
  services (audio, image, video, media, compression, crypto, console), the app runtime
  (\<^verbatim>\<open>zzapp_*.c\<close>) but for its operation slot, the overlay and the video mode code: they have logic of their own
  and stand behind \<open>others\<close>. The Amiga programs and libraries under \<^verbatim>\<open>src/sdk\<close>, but for the host's
  ring access; the FPGA sources; tests and tools.
\<close>

end
